(* ===== verification/Prelude.thy ===== *)
theory Prelude
  imports Main "HOL-Library.Word"
begin

text \<open>
  Shared foundation of the development: the machine types of \<^verbatim>\<open>include/types.h\<close>, the monad of
  kernel operations (a state transformer whose outcome is a value, a panic, a wild memory access
  or a sleep), partial-correctness and invariant rules for it, and generic lemmas on lists and
  words. Every kernel theory imports this one.
\<close>

section \<open>Machine types\<close>

type_synonym uint8 = "8 word"
type_synonym uint16 = "16 word"
type_synonym uint = "32 word"
type_synonym byte = "8 word"

text \<open>
  The rules that let the simplifier run straight-line kernel code (\<open>kop_simps\<close>), the Hoare
  rules of the primitives (\<open>hoare_rules\<close>) and the preservation rules of the operations
  (\<open>inv_rules\<close>), and the rules for operations that never go to sleep (\<open>nosleep_rules\<close>).
\<close>

named_theorems kop_simps
named_theorems hoare_rules
named_theorems inv_rules
named_theorems nosleep_rules

section \<open>Sleep channels\<close>

text \<open>
  A sleep channel is the address of a kernel object. The kernel only ever compares channels,
  so each kind of address passed to \<^verbatim>\<open>sleep\<close> or \<^verbatim>\<open>wakeup\<close> is one constructor: a buffer,
  an inode, the log, a process, the tick counter, the two counters of a pipe and the console
  input.
\<close>

datatype chan =
    ChBuf nat
  | ChInode nat
  | ChLog
  | ChProc nat
  | ChTicks
  | ChPipeRead nat
  | ChPipeWrite nat
  | ChInput

section \<open>Kernel operations\<close>

text \<open>
  The outcome of running kernel code in a state: it returns a value and a new state, it panics,
  it accesses memory outside any object (undefined behaviour in C), or it goes to sleep on a
  channel, leaving a state in which other processes run.
\<close>

datatype ('s, 'a) outcome =
    Ret 'a 's
  | Panic string
  | Fault string
  | Sleeps chan 's

type_synonym ('s, 'a) kop = "'s \<Rightarrow> ('s, 'a) outcome"

definition kreturn :: "'a \<Rightarrow> ('s, 'a) kop" where
  "kreturn a = (\<lambda>s. Ret a s)"

definition kbind :: "('s, 'a) kop \<Rightarrow> ('a \<Rightarrow> ('s, 'b) kop) \<Rightarrow> ('s, 'b) kop" where
  "kbind m f = (\<lambda>s. case m s of
       Ret a s' \<Rightarrow> f a s'
     | Panic e \<Rightarrow> Panic e
     | Fault e \<Rightarrow> Fault e
     | Sleeps c s' \<Rightarrow> Sleeps c s')"

definition panic :: "string \<Rightarrow> ('s, 'a) kop" where
  "panic e = (\<lambda>s. Panic e)"

definition fault :: "string \<Rightarrow> ('s, 'a) kop" where
  "fault e = (\<lambda>s. Fault e)"

definition sleep_on :: "chan \<Rightarrow> ('s, 'a) kop" where
  "sleep_on c = (\<lambda>s. Sleeps c s)"

definition kget :: "('s \<Rightarrow> 'a) \<Rightarrow> ('s, 'a) kop" where
  "kget f = (\<lambda>s. Ret (f s) s)"

definition kmod :: "('s \<Rightarrow> 's) \<Rightarrow> ('s, unit) kop" where
  "kmod f = (\<lambda>s. Ret () (f s))"

text \<open>A counted loop whose body never leaves the loop early.\<close>

fun kfor :: "('x \<Rightarrow> ('s, unit) kop) \<Rightarrow> 'x list \<Rightarrow> ('s, unit) kop" where
  "kfor f [] = kreturn ()"
| "kfor f (x # xs) = kbind (f x) (\<lambda>_. kfor f xs)"

lemma kreturn_apply [simp, kop_simps]: "kreturn a s = Ret a s"
  by (simp add: kreturn_def)

lemma panic_apply [simp, kop_simps]: "panic e s = Panic e"
  by (simp add: panic_def)

lemma fault_apply [simp, kop_simps]: "fault e s = Fault e"
  by (simp add: fault_def)

lemma sleep_on_apply [simp, kop_simps]: "sleep_on c s = Sleeps c s"
  by (simp add: sleep_on_def)

lemma kget_apply [simp, kop_simps]: "kget f s = Ret (f s) s"
  by (simp add: kget_def)

lemma kmod_apply [simp, kop_simps]: "kmod f s = Ret () (f s)"
  by (simp add: kmod_def)

lemma kbind_Ret [simp, kop_simps]: "m s = Ret a s' \<Longrightarrow> kbind m f s = f a s'"
  by (simp add: kbind_def)

lemma kbind_Panic [simp]: "m s = Panic e \<Longrightarrow> kbind m f s = Panic e"
  by (simp add: kbind_def)

lemma kbind_Fault [simp]: "m s = Fault e \<Longrightarrow> kbind m f s = Fault e"
  by (simp add: kbind_def)

lemma kbind_Sleeps [simp]: "m s = Sleeps c s' \<Longrightarrow> kbind m f s = Sleeps c s'"
  by (simp add: kbind_def)

lemma kbind_eq_Ret_iff:
  "kbind m f s = Ret b s'' \<longleftrightarrow> (\<exists>a s'. m s = Ret a s' \<and> f a s' = Ret b s'')"
  by (auto simp: kbind_def split: outcome.splits)

lemma kbind_eq_RetE:
  assumes "kbind m f s = Ret b s''"
  obtains a s' where "m s = Ret a s'" and "f a s' = Ret b s''"
  using assms by (auto simp: kbind_eq_Ret_iff)

lemma kbind_eq_SleepsE:
  assumes "kbind m f s = Sleeps c t"
  obtains "m s = Sleeps c t" | a s' where "m s = Ret a s'" and "f a s' = Sleeps c t"
  using assms by (cases "m s") auto

lemma kbind_cong_at: "m s = m' s \<Longrightarrow> kbind m f s = kbind m' f s"
  by (simp add: kbind_def)

lemma kbind_assoc: "kbind (kbind m f) g = kbind m (\<lambda>x. kbind (f x) g)"
  by (rule ext) (simp add: kbind_def split: outcome.split)

lemma kbind_kreturn_left: "kbind (kreturn a) f = f a"
  by (rule ext) (simp add: kbind_def kreturn_def)

lemma kbind_kreturn_right: "kbind m kreturn = m"
  by (rule ext) (simp add: kbind_def kreturn_def split: outcome.split)

lemma kfor_append: "kfor f (xs @ ys) = kbind (kfor f xs) (\<lambda>_. kfor f ys)"
  by (induction xs) (simp_all add: kbind_kreturn_left kbind_assoc)

section \<open>Partial correctness and invariants\<close>

text \<open>
  \<open>hoare P m Q\<close>: from a state with \<open>P\<close>, if \<open>m\<close> returns, its value and final state satisfy
  \<open>Q\<close>. \<open>keeps I m\<close>: \<open>m\<close> keeps the state invariant \<open>I\<close>, both when it returns and when it
  goes to sleep (other processes then run in that state). \<open>safe P m\<close>: from \<open>P\<close>, \<open>m\<close> neither
  panics nor accesses memory out of range.
\<close>

definition hoare :: "('s \<Rightarrow> bool) \<Rightarrow> ('s, 'a) kop \<Rightarrow> ('a \<Rightarrow> 's \<Rightarrow> bool) \<Rightarrow> bool" where
  "hoare P m Q \<longleftrightarrow> (\<forall>s. P s \<longrightarrow> (\<forall>a s'. m s = Ret a s' \<longrightarrow> Q a s'))"

definition keeps :: "('s \<Rightarrow> bool) \<Rightarrow> ('s, 'a) kop \<Rightarrow> bool" where
  "keeps I m \<longleftrightarrow> (\<forall>s. I s \<longrightarrow>
     (\<forall>a s'. m s = Ret a s' \<longrightarrow> I s') \<and> (\<forall>c s'. m s = Sleeps c s' \<longrightarrow> I s'))"

definition safe :: "('s \<Rightarrow> bool) \<Rightarrow> ('s, 'a) kop \<Rightarrow> bool" where
  "safe P m \<longleftrightarrow> (\<forall>s. P s \<longrightarrow> (\<forall>e. m s \<noteq> Panic e \<and> m s \<noteq> Fault e))"

lemma hoareI: "(\<And>s a s'. P s \<Longrightarrow> m s = Ret a s' \<Longrightarrow> Q a s') \<Longrightarrow> hoare P m Q"
  by (auto simp: hoare_def)

lemma hoareD: "hoare P m Q \<Longrightarrow> P s \<Longrightarrow> m s = Ret a s' \<Longrightarrow> Q a s'"
  by (auto simp: hoare_def)

lemma hoare_kreturn [hoare_rules]: "hoare (Q a) (kreturn a) Q"
  by (simp add: hoare_def)

lemma hoare_kget [hoare_rules]: "hoare (\<lambda>s. Q (f s) s) (kget f) Q"
  by (simp add: hoare_def)

lemma hoare_kmod [hoare_rules]: "hoare (\<lambda>s. Q () (f s)) (kmod f) Q"
  by (simp add: hoare_def)

lemma hoare_panic [hoare_rules]: "hoare P (panic e) Q"
  by (simp add: hoare_def)

lemma hoare_fault [hoare_rules]: "hoare P (fault e) Q"
  by (simp add: hoare_def)

lemma hoare_sleep_on [hoare_rules]: "hoare P (sleep_on c) Q"
  by (simp add: hoare_def)

lemma hoare_kbind:
  assumes "hoare P m R" and "\<And>a. hoare (R a) (f a) Q"
  shows "hoare P (kbind m f) Q"
  unfolding hoare_def
proof (intro allI impI)
  fix s b s'' assume "P s" and "kbind m f s = Ret b s''"
  then obtain a s' where "m s = Ret a s'" and f: "f a s' = Ret b s''"
    by (auto elim: kbind_eq_RetE)
  with assms(1) \<open>P s\<close> have "R a s'" by (blast dest: hoareD)
  with assms(2) f show "Q b s''" by (blast dest: hoareD)
qed

lemma hoare_weaken: "hoare P' m Q' \<Longrightarrow> (\<And>s. P s \<Longrightarrow> P' s) \<Longrightarrow>
    (\<And>a s. Q' a s \<Longrightarrow> Q a s) \<Longrightarrow> hoare P m Q"
  unfolding hoare_def by blast

lemma keepsI:
  assumes "\<And>s a s'. I s \<Longrightarrow> m s = Ret a s' \<Longrightarrow> I s'"
    and "\<And>s c s'. I s \<Longrightarrow> m s = Sleeps c s' \<Longrightarrow> I s'"
  shows "keeps I m"
  unfolding keeps_def using assms by blast

lemma keepsD: "keeps I m \<Longrightarrow> I s \<Longrightarrow> m s = Ret a s' \<Longrightarrow> I s'"
  unfolding keeps_def by blast

lemma keeps_SleepsD: "keeps I m \<Longrightarrow> I s \<Longrightarrow> m s = Sleeps c s' \<Longrightarrow> I s'"
  unfolding keeps_def by blast

lemma keeps_kreturn [inv_rules, intro]: "keeps I (kreturn a)"
  by (simp add: keeps_def)

lemma keeps_kget [inv_rules, intro]: "keeps I (kget f)"
  by (simp add: keeps_def)

lemma keeps_panic [inv_rules, intro]: "keeps I (panic e)"
  by (simp add: keeps_def)

lemma keeps_fault [inv_rules, intro]: "keeps I (fault e)"
  by (simp add: keeps_def)

lemma keeps_sleep_on [inv_rules, intro]: "keeps I (sleep_on c)"
  by (simp add: keeps_def)

lemma keeps_kmod: "(\<And>s. I s \<Longrightarrow> I (f s)) \<Longrightarrow> keeps I (kmod f)"
  by (simp add: keeps_def)

lemma keeps_kbind [inv_rules]:
  assumes "keeps I m" and "\<And>a. keeps I (f a)"
  shows "keeps I (kbind m f)"
proof (rule keepsI)
  fix s a s' assume "I s" and "kbind m f s = Ret a s'"
  then obtain b t where "m s = Ret b t" and "f b t = Ret a s'"
    by (auto elim: kbind_eq_RetE)
  with assms \<open>I s\<close> show "I s'" by (blast dest: keepsD)
next
  fix s c s' assume I: "I s" and s: "kbind m f s = Sleeps c s'"
  show "I s'"
  proof (cases "m s")
    case (Ret a t)
    with s have "f a t = Sleeps c s'" by simp
    moreover from Ret I assms(1) have "I t" by (auto dest: keepsD)
    ultimately show ?thesis using assms(2) by (auto dest: keeps_SleepsD)
  next
    case (Sleeps c' t)
    with s I assms(1) show ?thesis by (auto dest: keeps_SleepsD)
  qed (use s in simp_all)
qed

lemma keeps_if [inv_rules]:
  "(b \<Longrightarrow> keeps I m) \<Longrightarrow> (\<not> b \<Longrightarrow> keeps I n) \<Longrightarrow> keeps I (if b then m else n)"
  by simp

lemma keeps_option [inv_rules]:
  "(x = None \<Longrightarrow> keeps I m) \<Longrightarrow> (\<And>y. x = Some y \<Longrightarrow> keeps I (f y)) \<Longrightarrow>
     keeps I (case x of None \<Rightarrow> m | Some y \<Rightarrow> f y)"
  by (cases x) auto

lemma keeps_prod [inv_rules]:
  "(\<And>a b. x = (a, b) \<Longrightarrow> keeps I (f a b)) \<Longrightarrow> keeps I (case x of (a, b) \<Rightarrow> f a b)"
  by (cases x) auto

lemma keeps_kfor [inv_rules]: "(\<And>x. x \<in> set xs \<Longrightarrow> keeps I (f x)) \<Longrightarrow> keeps I (kfor f xs)"
  by (induction xs) (auto intro!: keeps_kbind)

lemma keeps_conj: "keeps I m \<Longrightarrow> keeps J m \<Longrightarrow> keeps (\<lambda>s. I s \<and> J s) m"
  unfolding keeps_def by blast

section \<open>Operations that do not sleep\<close>

definition nosleep :: "('s, 'a) kop \<Rightarrow> bool" where
  "nosleep m \<longleftrightarrow> (\<forall>s c s'. m s \<noteq> Sleeps c s')"

lemma nosleepD: "nosleep m \<Longrightarrow> m s \<noteq> Sleeps c s'"
  by (simp add: nosleep_def)

lemma nosleep_basic [nosleep_rules]:
  "nosleep (kreturn a)" "nosleep (kget f)" "nosleep (kmod g)" "nosleep (panic e)" "nosleep (fault e)"
  by (simp_all add: nosleep_def)

lemma nosleep_kbind [nosleep_rules]: "nosleep m \<Longrightarrow> (\<And>a. nosleep (f a)) \<Longrightarrow> nosleep (kbind m f)"
  by (simp add: nosleep_def kbind_def split: outcome.split)

lemma nosleep_if [nosleep_rules]:
  "(b \<Longrightarrow> nosleep m) \<Longrightarrow> (\<not> b \<Longrightarrow> nosleep n) \<Longrightarrow> nosleep (if b then m else n)"
  by simp

lemma nosleep_option [nosleep_rules]:
  "(x = None \<Longrightarrow> nosleep m) \<Longrightarrow> (\<And>y. x = Some y \<Longrightarrow> nosleep (f y)) \<Longrightarrow>
     nosleep (case x of None \<Rightarrow> m | Some y \<Rightarrow> f y)"
  by (cases x) auto

lemma nosleep_kfor [nosleep_rules]: "(\<And>x. nosleep (f x)) \<Longrightarrow> nosleep (kfor f xs)"
  by (induction xs) (auto intro!: nosleep_kbind nosleep_basic)

section \<open>Arithmetic\<close>

lemma div_mod_eqI:
  fixes x :: nat
  assumes "x = k * d + t" and "t < d"
  shows "x div d = k" and "x mod d = t"
  using assms by simp_all

lemma div_eq_iff_range:
  fixes x :: nat
  assumes "0 < m"
  shows "x div m = b \<longleftrightarrow> b * m \<le> x \<and> x < b * m + m"
proof
  assume "x div m = b"
  then have "x = b * m + x mod m" by (metis div_mult_mod_eq)
  moreover have "x mod m < m" using assms by simp
  ultimately show "b * m \<le> x \<and> x < b * m + m" by linarith
next
  assume "b * m \<le> x \<and> x < b * m + m"
  then show "x div m = b" by (intro div_nat_eqI) (simp_all add: mult.commute)
qed

lemma unat_of_nat_32: "m < 2 ^ 32 \<Longrightarrow> unat (word_of_nat m :: uint) = m"
  by (simp add: unsigned_of_nat take_bit_nat_eq_self)

unbundle bit_operations_syntax

lemma unat_less_32: "unat (x::uint) < 2 ^ 32"
  using unsigned_less [of x, where 'a=nat] by simp

lemma unat_drop_bit_32: "unat (drop_bit k (x::uint)) = unat x div 2 ^ k"
  unfolding unat_drop_bit_eq by (rule drop_bit_eq_div)

lemma exp_less_32: "m < 32 \<Longrightarrow> (2::nat) ^ m < 2 ^ 32"
  by (intro power_strict_increasing) auto

lemma unat_exp_32: "m < 32 \<Longrightarrow> unat (2 ^ m :: uint) = 2 ^ m"
  using unat_of_nat_32 [OF exp_less_32, of m] by simp

lemma unat_exp_minus_1_32: "m < 32 \<Longrightarrow> unat (2 ^ m - 1 :: uint) = 2 ^ m - 1"
proof -
  assume "m < 32"
  then have "2 ^ m - 1 < (2 ^ 32 :: nat)" using exp_less_32 [of m] by linarith
  from unat_of_nat_32 [OF this] show ?thesis by (simp add: of_nat_diff)
qed

text \<open>Clearing the low bits rounds down to a multiple of the power of two.\<close>

lemma unat_and_not_mask: "unat ((x::uint) AND NOT (mask k)) = unat x div 2 ^ k * 2 ^ k"
proof -
  have e: "x AND NOT (mask k) = push_bit k (drop_bit k x)"
    by (rule bit_word_eqI) (auto simp: bit_simps)
  have "unat x div 2 ^ k * 2 ^ k < 2 ^ 32"
    using div_times_less_eq_dividend unat_less_32 by (rule le_less_trans)
  then show ?thesis
    unfolding e unsigned_push_bit_eq unat_drop_bit_32
    by (simp add: push_bit_eq_mult take_bit_nat_eq_self)
qed

lemma unat_and_exp_minus_1: "m < 32 \<Longrightarrow> unat ((x::uint) AND (2 ^ m - 1)) = unat x mod 2 ^ m"
  by (simp add: mask_eq_exp_minus_1 [symmetric] take_bit_eq_mask [symmetric] unsigned_take_bit_eq)
     (simp add: take_bit_eq_mod)

text \<open>Signed values.\<close>

lemma sint_small: "unat (w :: uint) < 2 ^ 31 \<Longrightarrow> sint w = int (unat w)"
proof -
  assume a: "unat w < 2 ^ 31"
  have "uint w = int (unat w)" by simp
  moreover have "int (unat w) < 2 ^ 31" using a by (metis of_nat_less_iff of_nat_numeral of_nat_power)
  moreover have "- (2 ^ 31) \<le> int (unat w)" by (rule order_trans [of _ 0]) simp_all
  ultimately show ?thesis unfolding sint_uint using signed_take_bit_int_eq_self [of 31 "int (unat w)"] by simp
qed

lemma unat_uminus_neg: "sint (x :: uint) < 0 \<Longrightarrow> unat (- x) = nat (- sint x)"
proof -
  assume n: "sint x < 0"
  have "- sint x < 2 ^ 32" using sint_greater_eq [of x] by simp
  then have "uint (word_of_int (- sint x) :: uint) = - sint x" using n by (subst uint_word_of_int) (simp add: take_bit_int_eq_self)
  moreover have "(word_of_int (- sint x) :: uint) = - x" by simp
  ultimately have "uint (- x) = - sint x" by simp
  then show ?thesis by (simp only: unat_eq_nat_uint)
qed

end
