(* ===== verification/CString.thy ===== *)
theory CString
  imports Prelude
begin

unbundle bit_operations_syntax

text \<open>
  The C string and memory routines of the kernel (\<^verbatim>\<open>source/string.c\<close>) and of the user library
  (\<^verbatim>\<open>uprogs/ulib.c\<close>), over a byte-addressed memory. Each routine is the loop of the source; the
  lemmas give its effect on memory or its result against the plain mathematical reading.
  Pointers are natural numbers: a C object never wraps around the end of the address space.
\<close>

section \<open>Memory\<close>

type_synonym cmem = "nat \<Rightarrow> byte"

text \<open>A 32-bit store through a \<^verbatim>\<open>uint32*\<close>, little endian.\<close>

definition store32 :: "nat \<Rightarrow> uint \<Rightarrow> cmem \<Rightarrow> cmem" where
  "store32 p v m = m(p := ucast v, p + 1 := ucast (drop_bit 8 v),
     p + 2 := ucast (drop_bit 16 v), p + 3 := ucast (drop_bit 24 v))"

text \<open>The bytes \<open>[p, p + n)\<close> of a memory.\<close>

definition bytes_at :: "cmem \<Rightarrow> nat \<Rightarrow> nat \<Rightarrow> byte list" where
  "bytes_at m p n = map (\<lambda>i. m (p + i)) [0..<n]"

text \<open>A NUL-terminated string in memory.\<close>

definition str_at :: "cmem \<Rightarrow> nat \<Rightarrow> byte list \<Rightarrow> bool" where
  "str_at m p xs \<longleftrightarrow> bytes_at m p (length xs) = xs \<and> 0 \<notin> set xs \<and> m (p + length xs) = 0"

section \<open>memset\<close>

text \<open>The three loops: bytes up to a word boundary, whole words, leftover bytes.\<close>

function memset_head :: "byte \<Rightarrow> int \<Rightarrow> nat \<Rightarrow> cmem \<Rightarrow> int \<times> nat \<times> cmem" where
  "memset_head c n p m =
     (if n > 0 \<and> p mod 4 \<noteq> 0 then memset_head c (n - 1) (p + 1) (m(p := c)) else (n, p, m))"
  by pat_completeness auto
termination
  by (relation "measure (\<lambda>(c, n, p, m). nat n)") auto

function memset_words :: "uint \<Rightarrow> int \<Rightarrow> nat \<Rightarrow> cmem \<Rightarrow> int \<times> nat \<times> cmem" where
  "memset_words v n p m =
     (if n \<ge> 4 then memset_words v (n - 4) (p + 4) (store32 p v m) else (n, p, m))"
  by pat_completeness auto
termination
  by (relation "measure (\<lambda>(c, n, p, m). nat n)") auto

function memset_tail :: "byte \<Rightarrow> int \<Rightarrow> nat \<Rightarrow> cmem \<Rightarrow> cmem" where
  "memset_tail c n p m = (if n > 0 then memset_tail c (n - 1) (p + 1) (m(p := c)) else m)"
  by pat_completeness auto
termination
  by (relation "measure (\<lambda>(c, n, p, m). nat n)") auto

declare memset_head.simps [simp del] memset_words.simps [simp del] memset_tail.simps [simp del]

definition splat :: "byte \<Rightarrow> uint" where
  "splat c = push_bit 24 (ucast c) OR push_bit 16 (ucast c) OR push_bit 8 (ucast c) OR ucast c"

definition memset :: "nat \<Rightarrow> int \<Rightarrow> int \<Rightarrow> cmem \<Rightarrow> cmem" where
  "memset dst v n m =
     (let c = word_of_int v :: byte;
          val = splat c;
          (n1, p1, m1) = memset_head c n dst m;
          (n2, p2, m2) = memset_words val n1 p1 m1
      in memset_tail c n2 p2 m2)"

section \<open>memcmp, memmove, memcpy\<close>

primrec memcmp_n :: "cmem \<Rightarrow> nat \<Rightarrow> nat \<Rightarrow> nat \<Rightarrow> int" where
  "memcmp_n m s1 s2 0 = 0"
| "memcmp_n m s1 s2 (Suc n) =
     (if m s1 \<noteq> m s2 then uint (m s1) - uint (m s2) else memcmp_n m (s1 + 1) (s2 + 1) n)"

definition memcmp :: "cmem \<Rightarrow> nat \<Rightarrow> nat \<Rightarrow> uint \<Rightarrow> int" where
  "memcmp m v1 v2 n = memcmp_n m v1 v2 (unat n)"

text \<open>\<^verbatim>\<open>while (n-- > 0) *--d = *--s\<close>, entered with both pointers one past the end.\<close>

primrec copy_down :: "nat \<Rightarrow> nat \<Rightarrow> nat \<Rightarrow> cmem \<Rightarrow> cmem" where
  "copy_down d s 0 m = m"
| "copy_down d s (Suc n) m = copy_down (d - 1) (s - 1) n (m(d - 1 := m (s - 1)))"

text \<open>\<^verbatim>\<open>while (n-- > 0) *d++ = *s++\<close>.\<close>

primrec copy_up :: "nat \<Rightarrow> nat \<Rightarrow> nat \<Rightarrow> cmem \<Rightarrow> cmem" where
  "copy_up d s 0 m = m"
| "copy_up d s (Suc n) m = copy_up (d + 1) (s + 1) n (m(d := m s))"

definition memmove :: "nat \<Rightarrow> nat \<Rightarrow> uint \<Rightarrow> cmem \<Rightarrow> cmem" where
  "memmove dst src n m =
     (if src < dst \<and> src + unat n > dst
      then copy_down (dst + unat n) (src + unat n) (unat n) m
      else copy_up dst src (unat n) m)"

definition memcpy :: "nat \<Rightarrow> nat \<Rightarrow> uint \<Rightarrow> cmem \<Rightarrow> cmem" where
  "memcpy dst src n m = memmove dst src n m"

text \<open>The user library's \<^verbatim>\<open>memmove\<close> only copies upwards, and takes a signed length.\<close>

definition ulib_memmove :: "nat \<Rightarrow> nat \<Rightarrow> int \<Rightarrow> cmem \<Rightarrow> cmem" where
  "ulib_memmove vdst vsrc n m = copy_up vdst vsrc (nat n) m"

section \<open>Strings\<close>

primrec strncmp_n :: "cmem \<Rightarrow> nat \<Rightarrow> nat \<Rightarrow> nat \<Rightarrow> int" where
  "strncmp_n m p q 0 = 0"
| "strncmp_n m p q (Suc n) =
     (if m p \<noteq> 0 \<and> m p = m q then strncmp_n m (p + 1) (q + 1) n
      else uint (m p) - uint (m q))"

definition strncmp :: "cmem \<Rightarrow> nat \<Rightarrow> nat \<Rightarrow> uint \<Rightarrow> int" where
  "strncmp m p q n = strncmp_n m p q (unat n)"

text \<open>The second loop of \<^verbatim>\<open>strncpy\<close>: \<^verbatim>\<open>while (n-- > 0) *s++ = 0\<close>.\<close>

primrec strncpy_pad :: "nat \<Rightarrow> nat \<Rightarrow> cmem \<Rightarrow> cmem" where
  "strncpy_pad s 0 m = m"
| "strncpy_pad s (Suc n) m = strncpy_pad (s + 1) n (m(s := 0))"

text \<open>The first loop: copy until a NUL was copied or \<open>n\<close> bytes were written.\<close>

primrec strncpy_n :: "nat \<Rightarrow> nat \<Rightarrow> nat \<Rightarrow> cmem \<Rightarrow> cmem" where
  "strncpy_n s t 0 m = m"
| "strncpy_n s t (Suc n) m =
     (let m' = m(s := m t)
      in if m t \<noteq> 0 then strncpy_n (s + 1) (t + 1) n m' else strncpy_pad (s + 1) n m')"

definition strncpy :: "nat \<Rightarrow> nat \<Rightarrow> int \<Rightarrow> cmem \<Rightarrow> cmem" where
  "strncpy s t n m = strncpy_n s t (nat n) m"

text \<open>The loop of \<^verbatim>\<open>safestrcpy\<close>: the pointer past the last byte written, and the memory.\<close>

primrec safestrcpy_n :: "nat \<Rightarrow> nat \<Rightarrow> nat \<Rightarrow> cmem \<Rightarrow> nat \<times> cmem" where
  "safestrcpy_n s t 0 m = (s, m)"
| "safestrcpy_n s t (Suc n) m =
     (let m' = m(s := m t)
      in if m t \<noteq> 0 then safestrcpy_n (s + 1) (t + 1) n m' else (s + 1, m'))"

definition safestrcpy :: "nat \<Rightarrow> nat \<Rightarrow> int \<Rightarrow> cmem \<Rightarrow> cmem" where
  "safestrcpy s t n m =
     (if n \<le> 0 then m
      else let (p, m') = safestrcpy_n s t (nat (n - 1)) m in m'(p := 0))"

text \<open>\<^verbatim>\<open>strlen\<close> runs until it meets a NUL byte; it does not return if there is none.\<close>

partial_function (option) strlen_from :: "cmem \<Rightarrow> nat \<Rightarrow> nat \<Rightarrow> nat option" where
  "strlen_from m s n = (if m (s + n) = 0 then Some n else strlen_from m s (n + 1))"

definition strlen :: "cmem \<Rightarrow> nat \<Rightarrow> nat option" where
  "strlen m s = strlen_from m s 0"

partial_function (option) strcmp :: "cmem \<Rightarrow> nat \<Rightarrow> nat \<Rightarrow> int option" where
  "strcmp m p q =
     (if m p \<noteq> 0 \<and> m p = m q then strcmp m (p + 1) (q + 1)
      else Some (uint (m p) - uint (m q)))"

partial_function (option) strcpy :: "nat \<Rightarrow> nat \<Rightarrow> cmem \<Rightarrow> cmem option" where
  "strcpy s t m =
     (let m' = m(s := m t) in if m t \<noteq> 0 then strcpy (s + 1) (t + 1) m' else Some m')"

text \<open>\<^verbatim>\<open>strchr\<close>: the outer option is termination, the inner one the null pointer.\<close>

partial_function (option) strchr :: "cmem \<Rightarrow> nat \<Rightarrow> byte \<Rightarrow> nat option option" where
  "strchr m s c =
     (if m s = 0 then Some None else if m s = c then Some (Some s) else strchr m (s + 1) c)"

text \<open>\<^verbatim>\<open>atoi\<close>: the accumulator is a C \<^verbatim>\<open>int\<close>, kept at its width.\<close>

partial_function (option) atoi_from :: "cmem \<Rightarrow> nat \<Rightarrow> uint \<Rightarrow> uint option" where
  "atoi_from m s n =
     (if 48 \<le> m s \<and> m s \<le> 57 then atoi_from m (s + 1) (n * 10 + ucast (m s) - 48)
      else Some n)"

definition atoi :: "cmem \<Rightarrow> nat \<Rightarrow> uint option" where
  "atoi m s = atoi_from m s 0"

section \<open>Division\<close>

text \<open>
  The shift-and-subtract division: one step for bit \<open>i\<close>, then the loop from bit 31 down to 0
  over the pair of remainder and quotient.
\<close>

definition div_step :: "uint \<Rightarrow> uint \<Rightarrow> nat \<Rightarrow> uint \<times> uint \<Rightarrow> uint \<times> uint" where
  "div_step n d i rq =
     (case rq of (r, q) \<Rightarrow>
        let r = push_bit 1 r;
            r = r OR (drop_bit i n AND 1)
        in if r \<ge> d then (r - d, q OR push_bit i 1) else (r, q))"

primrec div_loop :: "uint \<Rightarrow> uint \<Rightarrow> nat \<Rightarrow> uint \<times> uint \<Rightarrow> uint \<times> uint" where
  "div_loop n d 0 rq = rq"
| "div_loop n d (Suc i) rq = div_loop n d i (div_step n d i rq)"

definition cdiv :: "uint \<Rightarrow> uint \<Rightarrow> uint" where
  "cdiv n d = snd (div_loop n d 32 (0, 0))"

section \<open>Effect of the memory routines\<close>

lemma length_bytes_at [simp]: "length (bytes_at m p n) = n"
  by (simp add: bytes_at_def)

lemma bytes_at_0 [simp]: "bytes_at m p 0 = []"
  by (simp add: bytes_at_def)

lemma nth_bytes_at [simp]: "i < n \<Longrightarrow> bytes_at m p n ! i = m (p + i)"
  by (simp add: bytes_at_def)

lemma store32_splat:
  "store32 p (splat c) m = (\<lambda>a. if p \<le> a \<and> a < p + 4 then c else m a)"
proof -
  have b0: "(ucast (splat c) :: byte) = c"
    and b1: "(ucast (drop_bit 8 (splat c)) :: byte) = c"
    and b2: "(ucast (drop_bit 16 (splat c)) :: byte) = c"
    and b3: "(ucast (drop_bit 24 (splat c)) :: byte) = c"
    by (rule bit_word_eqI; auto simp: splat_def bit_simps dest: bit_imp_le_length)+
  have "p \<le> a \<and> a < p + 4 \<longleftrightarrow> a = p \<or> a = p + 1 \<or> a = p + 2 \<or> a = p + 3" for a
    by auto
  then show ?thesis
    by (auto simp: store32_def fun_eq_iff b0 b1 b2 b3)
qed

text \<open>Writing \<open>k\<close> bytes \<open>c\<close> from \<open>p\<close>; the loops of \<^verbatim>\<open>memset\<close> compose such writes.\<close>

definition fill :: "byte \<Rightarrow> nat \<Rightarrow> nat \<Rightarrow> cmem \<Rightarrow> cmem" where
  "fill c p k m = (\<lambda>a. if p \<le> a \<and> a < p + k then c else m a)"

lemma fill_0 [simp]: "fill c p 0 m = m"
  by (auto simp: fill_def fun_eq_iff)

lemma fill_fill: "fill c (p + j) k (fill c p j m) = fill c p (j + k) m"
  by (auto simp: fill_def fun_eq_iff)

lemma fill_upd: "fill c (Suc p) k (m(p := c)) = fill c p (Suc k) m"
  by (auto simp: fill_def fun_eq_iff)

lemma memset_head_fill:
  "\<exists>k. memset_head c n p m = (n - int k, p + k, fill c p k m) \<and> int k \<le> max 0 n"
proof (induction c n p m rule: memset_head.induct)
  case (1 c n p m)
  show ?case
  proof (cases "n > 0 \<and> p mod 4 \<noteq> 0")
    case True
    with "1.IH" obtain k where
      k: "memset_head c (n - 1) (p + 1) (m(p := c)) =
            (n - 1 - int k, p + 1 + k, fill c (p + 1) k (m(p := c)))" "int k \<le> max 0 (n - 1)"
      by blast
    with True show ?thesis
      by (subst memset_head.simps) (auto simp: fill_upd intro!: exI [of _ "Suc k"])
  next
    case False
    then show ?thesis
      by (subst memset_head.simps) (auto intro!: exI [of _ 0])
  qed
qed

lemma memset_words_fill:
  "\<exists>k. memset_words (splat c) n p m = (n - int k, p + k, fill c p k m) \<and> int k \<le> max 0 n"
proof (induction "splat c" n p m rule: memset_words.induct)
  case (1 n p m)
  show ?case
  proof (cases "n \<ge> 4")
    case True
    with "1.hyps" obtain k where
      k: "memset_words (splat c) (n - 4) (p + 4) (store32 p (splat c) m) =
            (n - 4 - int k, p + 4 + k, fill c (p + 4) k (store32 p (splat c) m))"
        "int k \<le> max 0 (n - 4)"
      by blast
    have "fill c (p + 4) k (store32 p (splat c) m) = fill c p (4 + k) m"
      by (auto simp: store32_splat fill_def fun_eq_iff)
    with k True show ?thesis
      by (subst memset_words.simps) (auto intro!: exI [of _ "4 + k"])
  next
    case False
    then show ?thesis
      by (subst memset_words.simps) (auto intro!: exI [of _ 0])
  qed
qed

lemma memset_tail_fill: "memset_tail c n p m = fill c p (nat n) m"
proof (induction c n p m rule: memset_tail.induct)
  case (1 c n p m)
  show ?case
  proof (cases "n > 0")
    case True
    then have "nat n = Suc (nat (n - 1))" by simp
    moreover from True "1.IH" have
      "memset_tail c (n - 1) (p + 1) (m(p := c)) = fill c (p + 1) (nat (n - 1)) (m(p := c))"
      by blast
    ultimately show ?thesis
      using True by (subst memset_tail.simps) (simp only: if_True fill_upd Suc_eq_plus1 [symmetric])
  next
    case False
    then show ?thesis by (subst memset_tail.simps) simp
  qed
qed

lemma memset_eq_fill: "memset dst v n m = fill (word_of_int v) dst (nat n) m"
proof -
  let ?c = "word_of_int v :: byte"
  obtain k1 where 1: "memset_head ?c n dst m = (n - int k1, dst + k1, fill ?c dst k1 m)"
    and k1: "int k1 \<le> max 0 n"
    using memset_head_fill by blast
  obtain k2 where 2: "memset_words (splat ?c) (n - int k1) (dst + k1) (fill ?c dst k1 m) =
       (n - int k1 - int k2, dst + k1 + k2, fill ?c (dst + k1) k2 (fill ?c dst k1 m))"
    and k2: "int k2 \<le> max 0 (n - int k1)"
    using memset_words_fill by blast
  have "k1 + k2 + nat (n - int k1 - int k2) = nat n"
    using k1 k2 by (auto simp: max_def split: if_splits)
  then show ?thesis
    by (simp add: memset_def Let_def 1 2 memset_tail_fill fill_fill add.assoc)
qed

lemma copy_up_frame: "a < d \<or> d + n \<le> a \<Longrightarrow> copy_up d s n m a = m a"
  by (induction n arbitrary: d s m) auto

lemma copy_up_copies:
  "d \<le> s \<or> s + n \<le> d \<Longrightarrow> i < n \<Longrightarrow> copy_up d s n m (d + i) = m (s + i)"
proof (induction n arbitrary: d s m i)
  case (Suc n)
  show ?case
  proof (cases i)
    case 0
    then show ?thesis by (simp add: copy_up_frame)
  next
    case j: (Suc j)
    with Suc.prems have "copy_up (d + 1) (s + 1) n (m(d := m s)) (d + 1 + j) =
        (m(d := m s)) (s + 1 + j)"
      by (intro Suc.IH) auto
    moreover have "s + 1 + j \<noteq> d"
      using Suc.prems j by auto
    ultimately show ?thesis using j by simp
  qed
qed simp

lemma copy_down_frame:
  "n \<le> d \<Longrightarrow> a < d - n \<or> d \<le> a \<Longrightarrow> copy_down d s n m a = m a"
proof (induction n arbitrary: d s m)
  case (Suc n)
  have "copy_down (d - 1) (s - 1) n (m(d - 1 := m (s - 1))) a = (m(d - 1 := m (s - 1))) a"
    using Suc.prems by (intro Suc.IH) auto
  with Suc.prems show ?case by auto
qed simp

lemma copy_down_copies:
  "s < d \<Longrightarrow> n \<le> s \<Longrightarrow> i < n \<Longrightarrow> copy_down d s n m (d - n + i) = m (s - n + i)"
proof (induction n arbitrary: d s m i)
  case (Suc n)
  show ?case
  proof (cases "i = n")
    case True
    with Suc.prems show ?thesis by (simp add: copy_down_frame)
  next
    case False
    with Suc.prems have "copy_down (d - 1) (s - 1) n (m(d - 1 := m (s - 1))) (d - 1 - n + i) =
        (m(d - 1 := m (s - 1))) (s - 1 - n + i)"
      by (intro Suc.IH) auto
    with Suc.prems False show ?thesis by simp
  qed
qed simp

section \<open>Strings in memory\<close>

lemma str_at_Nil [simp]: "str_at m p [] \<longleftrightarrow> m p = 0"
  by (simp add: str_at_def bytes_at_def)

lemma bytes_at_Suc: "bytes_at m p (Suc n) = m p # bytes_at m (Suc p) n"
  by (simp add: bytes_at_def upt_conv_Cons map_Suc_upt [symmetric] comp_def
      del: upt_Suc map_Suc_upt)

lemma str_at_Cons [simp]: "str_at m p (x # xs) \<longleftrightarrow> m p = x \<and> x \<noteq> 0 \<and> str_at m (Suc p) xs"
  by (auto simp: str_at_def bytes_at_Suc)

lemma str_at_upd: "str_at m p xs \<Longrightarrow> a < p \<or> p + length xs < a \<Longrightarrow> str_at (m(a := c)) p xs"
  by (induction xs arbitrary: p) auto

lemma strlen_from_str_at:
  "str_at m (p + k) xs \<Longrightarrow> strlen_from m p k = Some (k + length xs)"
proof (induction xs arbitrary: k)
  case Nil
  then show ?case by (subst strlen_from.simps) simp
next
  case (Cons x xs)
  then have "strlen_from m p (k + 1) = Some (k + 1 + length xs)"
    by (intro Cons.IH) simp
  with Cons.prems show ?case by (subst strlen_from.simps) simp
qed

lemma strncpy_pad_frame: "a < s \<or> s + n \<le> a \<Longrightarrow> strncpy_pad s n m a = m a"
  by (induction n arbitrary: s m) auto

lemma strncpy_pad_zero: "bytes_at (strncpy_pad s n m) s n = replicate n 0"
  by (induction n arbitrary: s m)
    (simp_all add: bytes_at_Suc strncpy_pad_frame)

lemma strncpy_n_frame: "a < s \<or> s + n \<le> a \<Longrightarrow> strncpy_n s t n m a = m a"
  by (induction n arbitrary: s t m) (auto simp: Let_def strncpy_pad_frame)

lemma strncpy_n_bytes:
  assumes "str_at m t xs" and "t + length xs < s \<or> s + n \<le> t"
  shows "bytes_at (strncpy_n s t n m) s n = take n (xs @ replicate n 0)"
  using assms
proof (induction xs arbitrary: s t n m)
  case Nil
  then show ?case
    by (cases n) (auto simp: bytes_at_Suc strncpy_pad_frame strncpy_pad_zero)
next
  case (Cons x xs)
  show ?case
  proof (cases n)
    case 0
    then show ?thesis by (simp add: bytes_at_def)
  next
    case (Suc k)
    from Cons.prems Suc have "str_at (m(s := x)) (Suc t) xs"
      by (intro str_at_upd) auto
    moreover have "Suc t + length xs < Suc s \<or> Suc s + k \<le> Suc t"
      using Cons.prems Suc by auto
    ultimately have "bytes_at (strncpy_n (Suc s) (Suc t) k (m(s := x))) (Suc s) k =
        take k (xs @ replicate k 0)"
      by (rule Cons.IH)
    moreover have "take k (xs @ replicate (Suc k) 0) = take k (xs @ replicate k 0)"
      by (simp add: take_append min_def del: replicate_Suc)
    ultimately show ?thesis
      using Cons.prems Suc by (simp add: bytes_at_Suc strncpy_n_frame)
  qed
qed

lemma safestrcpy_n_frame: "a < s \<Longrightarrow> snd (safestrcpy_n s t n m) a = m a"
  by (induction n arbitrary: s t m) (auto simp: Let_def)

lemma safestrcpy_n_str:
  assumes "str_at m t xs" and "t + length xs < s \<or> s + n \<le> t"
  shows "bytes_at (snd (safestrcpy_n s t n m)) s (min n (length xs)) = take n xs
    \<and> (n \<le> length xs \<longrightarrow> fst (safestrcpy_n s t n m) = s + n)
    \<and> (length xs < n \<longrightarrow> fst (safestrcpy_n s t n m) = s + Suc (length xs)
         \<and> snd (safestrcpy_n s t n m) (s + length xs) = 0)"
  using assms
proof (induction xs arbitrary: s t n m)
  case Nil
  then show ?case by (cases n) (auto simp: bytes_at_def)
next
  case (Cons x xs)
  show ?case
  proof (cases n)
    case 0
    then show ?thesis by (simp add: bytes_at_def)
  next
    case (Suc k)
    from Cons.prems Suc have "str_at (m(s := x)) (Suc t) xs"
      by (intro str_at_upd) auto
    moreover have "Suc t + length xs < Suc s \<or> Suc s + k \<le> Suc t"
      using Cons.prems Suc by auto
    note cond = calculation this
    define r where "r = safestrcpy_n (Suc s) (Suc t) k (m(s := x))"
    from cond have "bytes_at (snd r) (Suc s) (min k (length xs)) = take k xs
        \<and> (k \<le> length xs \<longrightarrow> fst r = Suc s + k)
        \<and> (length xs < k \<longrightarrow> fst r = Suc s + Suc (length xs) \<and> snd r (Suc s + length xs) = 0)"
      unfolding r_def by (rule Cons.IH)
    moreover have "snd r s = x"
      by (simp add: r_def safestrcpy_n_frame)
    moreover have "safestrcpy_n s t n m = r"
      using Cons.prems Suc by (simp add: r_def)
    ultimately show ?thesis
      using Suc by (auto simp: bytes_at_Suc)
  qed
qed

section \<open>Division\<close>

text \<open>
  After the bits from 31 down to \<open>i\<close>, the remainder is that of the top bits of \<open>n\<close> by \<open>d\<close>
  and the quotient holds theirs, shifted into place.
\<close>

definition div_inv :: "uint \<Rightarrow> uint \<Rightarrow> nat \<Rightarrow> uint \<times> uint \<Rightarrow> bool" where
  "div_inv n d i rq \<longleftrightarrow> unat (fst rq) = unat n div 2 ^ i mod unat d
     \<and> snd rq = push_bit i (word_of_nat (unat n div 2 ^ i div unat d))"

lemma unat_shift_in_bit:
  assumes "2 * unat r + 1 < 2 ^ 32"
  shows "unat ((push_bit 1 r OR (x AND 1)) :: uint) = 2 * unat r + unat x mod 2"
proof -
  have "push_bit 1 r AND (x AND 1) = 0"
    by (rule bit_word_eqI) (simp only: bit_and_iff bit_push_bit_iff bit_1_iff bit_0_eq, simp)
  then have "push_bit 1 r OR (x AND 1) = push_bit 1 r + (x AND 1)"
    by (simp add: disjunctive_add_eq_or)
  moreover have "unat (push_bit 1 r) = 2 * unat r"
    using assms by (simp add: push_bit_eq_mult unat_word_ariths)
  moreover have "unat (x AND 1) = unat x mod 2"
    by (simp add: and_one_eq unat_mod)
  ultimately show ?thesis
    using assms by (simp add: unat_word_ariths)
qed

lemma shift_in_quotient_bit:
  "push_bit (Suc i) (word_of_nat k) OR push_bit i 1 = push_bit i (word_of_nat (2 * k + 1) :: uint)"
proof -
  have "push_bit 1 (word_of_nat k :: uint) OR 1 = word_of_nat (2 * k + 1)"
  proof -
    have "push_bit 1 (word_of_nat k :: uint) AND 1 = 0"
      by (rule bit_word_eqI) (simp only: bit_and_iff bit_push_bit_iff bit_1_iff bit_0_eq, simp)
    then show ?thesis
      by (simp add: disjunctive_add_eq_or [symmetric] push_bit_eq_mult)
  qed
  moreover have "push_bit (Suc i) (word_of_nat k) OR push_bit i 1 =
      push_bit i (push_bit 1 (word_of_nat k :: uint) OR 1)"
    by (rule bit_word_eqI) (auto simp only: bit_or_iff bit_push_bit_iff bit_1_iff, auto)
  ultimately show ?thesis by simp
qed

lemma div_inv_step:
  assumes inv: "div_inv n d (Suc i) rq" and d: "0 < unat d"
  shows "div_inv n d i (div_step n d i rq)"
proof -
  obtain r q where rq: "rq = (r, q)" by (cases rq)
  define a where "a = unat n div 2 ^ Suc i"
  define b where "b = unat n div 2 ^ i mod 2"
  have r: "unat r = a mod unat d" and q: "q = push_bit (Suc i) (word_of_nat (a div unat d))"
    using inv by (simp_all add: div_inv_def rq a_def)
  have ab: "unat n div 2 ^ i = 2 * a + b"
    unfolding a_def b_def by (simp add: div_mult2_eq mult.commute [of 2])
  have n32: "unat n < 2 ^ 32" using unsigned_less [of n] by simp
  have "2 * a + b \<le> unat n" unfolding ab [symmetric] by (rule div_le_dividend)
  have "unat r \<le> a" by (simp add: r)
  have small: "2 * unat r + 1 < 2 ^ 32"
  proof -
    have "2 * unat r \<le> unat n" using \<open>unat r \<le> a\<close> \<open>2 * a + b \<le> unat n\<close> by linarith
    with n32 show ?thesis by simp presburger
  qed
  define r2 where "r2 = push_bit 1 r OR (drop_bit i n AND 1)"
  have r2: "unat r2 = 2 * (a mod unat d) + b"
    using unat_shift_in_bit [OF small, of "drop_bit i n"] unat_drop_bit_eq [of i n]
    unfolding r2_def r b_def by (simp only: drop_bit_eq_div)
  have eq: "2 * a + b = 2 * (a div unat d) * unat d + unat r2"
    unfolding r2 by (metis (no_types) ab_semigroup_mult_class.mult_ac(1) add.assoc
        add_mult_distrib2 div_mult_mod_eq)
  have r2_lt: "unat r2 < 2 * unat d"
  proof -
    have "a mod unat d < unat d" using d by simp
    moreover have "b \<le> 1" by (simp add: b_def)
    ultimately show ?thesis unfolding r2 using d by linarith
  qed
  show ?thesis
  proof (cases "d \<le> r2")
    case True
    then have le: "unat d \<le> unat r2" by (simp add: word_le_nat_alt)
    have "2 * a + b = (2 * (a div unat d) + 1) * unat d + (unat r2 - unat d)"
      using eq le by (simp add: algebra_simps)
    moreover have "unat r2 - unat d < unat d" using r2_lt le by linarith
    ultimately have "(2 * a + b) div unat d = 2 * (a div unat d) + 1"
      and "(2 * a + b) mod unat d = unat r2 - unat d"
      by (rule div_mod_eqI)+
    moreover have "div_step n d i rq = (r2 - d, q OR push_bit i 1)"
      using True unfolding div_step_def rq prod.case Let_def r2_def [symmetric] by (simp only: if_True)
    moreover have "unat (r2 - d) = unat r2 - unat d"
      using True by (simp add: unat_sub)
    ultimately show ?thesis
      unfolding div_inv_def ab q by (simp only: fst_conv snd_conv shift_in_quotient_bit)
  next
    case False
    then have lt: "unat r2 < unat d" by (simp add: word_le_nat_alt)
    then have "(2 * a + b) div unat d = 2 * (a div unat d)"
      and "(2 * a + b) mod unat d = unat r2"
      using eq d by simp_all
    moreover have "div_step n d i rq = (r2, q)"
      using False unfolding div_step_def rq prod.case Let_def r2_def [symmetric] by (simp only: if_False)
    ultimately show ?thesis
      using q by (simp add: div_inv_def ab push_bit_eq_mult mult_ac)
  qed
qed

lemma div_inv_loop: "div_inv n d i rq \<Longrightarrow> 0 < unat d \<Longrightarrow> div_inv n d 0 (div_loop n d i rq)"
proof (induction i arbitrary: rq)
  case (Suc i)
  then have "div_inv n d i (div_step n d i rq)" by (blast intro: div_inv_step)
  with Suc show ?case by simp
qed simp

lemma cdiv_word_div: "d \<noteq> 0 \<Longrightarrow> cdiv n d = n div d"
proof -
  assume "d \<noteq> 0"
  then have d: "0 < unat d" by (simp add: unat_gt_0)
  have "unat n < 2 ^ 32" using unsigned_less [of n] by simp
  then have "div_inv n d 32 (0, 0)" by (simp add: div_inv_def)
  from div_inv_loop [OF this d] have "cdiv n d = word_of_nat (unat n div unat d)"
    by (simp add: div_inv_def cdiv_def)
  also have "\<dots> = n div d" by (simp flip: unat_div)
  finally show ?thesis .
qed

lemma div_loop_by_zero:
  "i \<le> 32 \<Longrightarrow> snd (div_loop n 0 i (r, q)) = q OR mask i"
proof (induction i arbitrary: r q)
  case (Suc i)
  have "div_step n 0 i (r, q) = (fst (div_step n 0 i (r, q)), q OR push_bit i 1)"
    by (simp add: div_step_def Let_def)
  then have "snd (div_loop n 0 (Suc i) (r, q)) = (q OR push_bit i 1) OR mask i"
    using Suc.IH [of "fst (div_step n 0 i (r, q))" "q OR push_bit i 1"] Suc.prems by simp
  also have "\<dots> = q OR mask (Suc i)"
    by (rule bit_word_eqI) (auto simp: bit_simps less_Suc_eq)
  finally show ?case .
qed simp

section \<open>Properties\<close>

lemma memmove_eq:
  "memmove dst src n m =
     (\<lambda>a. if dst \<le> a \<and> a < dst + unat n then m (src + (a - dst)) else m a)"
proof (rule ext)
  fix a
  show "memmove dst src n m a =
      (if dst \<le> a \<and> a < dst + unat n then m (src + (a - dst)) else m a)"
  proof (cases "dst \<le> a \<and> a < dst + unat n")
    case True
    then obtain i where i: "a = dst + i" "i < unat n" by (auto simp: le_iff_add)
    show ?thesis
      using i copy_down_copies [of "src + unat n" "dst + unat n" "unat n" i m]
      by (auto simp: memmove_def copy_up_copies)
  next
    case False
    then show ?thesis by (auto simp: memmove_def copy_up_frame copy_down_frame)
  qed
qed

text \<open>
  The kernel's \<^verbatim>\<open>memmove\<close> copies correctly whatever the overlap of source and destination:
  afterwards the destination range holds the bytes the source range held before the call and no
  other byte has changed.
\<close>

theorem memmove_correct:
  "memmove dst src n m =
     (\<lambda>a. if dst \<le> a \<and> a < dst + unat n then m (src + (a - dst)) else m a)"
  by (rule memmove_eq)

text \<open>
  \<^verbatim>\<open>memset\<close>, whose loops write single bytes up to a word boundary, then whole 32-bit words,
  then the remaining bytes, sets exactly the bytes of \<open>[dst, dst + n)\<close> to the low byte of its
  value argument, and nothing when the length is not positive.
\<close>

theorem memset_correct:
  "memset dst v n m =
     (\<lambda>a. if dst \<le> a \<and> int a < int dst + n then word_of_int v else m a)"
  by (rule ext) (auto simp: memset_eq_fill fill_def)

text \<open>
  \<^verbatim>\<open>strncpy\<close> fills its \<open>n\<close>-byte field completely: the string (cut at \<open>n\<close> bytes), then NUL
  padding; no byte outside the field changes. This is what makes a directory entry's name field
  independent of its earlier contents.
\<close>

theorem strncpy_field:
  assumes "str_at m t xs" and "t + length xs < s \<or> s + nat n \<le> t"
  shows "bytes_at (strncpy s t n m) s (nat n) = take (nat n) (xs @ replicate (nat n) 0)
    \<and> (\<forall>a. a < s \<or> s + nat n \<le> a \<longrightarrow> strncpy s t n m a = m a)"
  using strncpy_n_bytes [OF assms] by (simp add: strncpy_def strncpy_n_frame)

theorem strncpy_field_witness:
  "bytes_at (strncpy 10 0 4 ((\<lambda>_. 0)(0 := 97, 1 := 98, 12 := 7))) 10 4 = [97, 98, 0, 0]"
proof -
  have "str_at ((\<lambda>_. 0)(0 := 97, 1 := 98, 12 := 7)) 0 [97, 98]" by simp
  from strncpy_field [OF this, of 10 4] show ?thesis by (simp add: numeral_eq_Suc)
qed

text \<open>
  \<^verbatim>\<open>safestrcpy\<close> with a positive size always leaves a NUL-terminated string in the destination:
  the source string cut at \<open>n - 1\<close> bytes.
\<close>

theorem safestrcpy_terminates_string:
  assumes "str_at m t xs" and "0 < n" and "t + length xs < s \<or> s + nat n \<le> t"
  shows "str_at (safestrcpy s t n m) s (take (nat (n - 1)) xs)"
proof -
  define k where "k = nat (n - 1)"
  define r where "r = safestrcpy_n s t k m"
  have n: "nat n = Suc k" using assms(2) by (simp add: k_def)
  have "t + length xs < s \<or> s + k \<le> t" using assms(3) n by auto
  note r = safestrcpy_n_str [OF assms(1) this, folded r_def]
  have eq: "safestrcpy s t n m = (snd r)(fst r := 0)"
    using assms(2) by (simp add: safestrcpy_def k_def r_def split_beta)
  have b: "bytes_at (snd r) s (length (take k xs)) = take k xs"
    using r by (simp add: min.commute)
  have "bytes_at ((snd r)(fst r := 0)) s (length (take k xs)) = take k xs"
  proof -
    have "fst r \<ge> s + length (take k xs)" using r by (cases "k \<le> length xs") auto
    then have "bytes_at ((snd r)(fst r := 0)) s (length (take k xs)) =
        bytes_at (snd r) s (length (take k xs))"
      by (auto simp: bytes_at_def)
    then show ?thesis using b by simp
  qed
  moreover have "((snd r)(fst r := 0)) (s + length (take k xs)) = 0"
    using r by (cases "k \<le> length xs") (auto simp: min_def)
  moreover have "0 \<notin> set (take k xs)"
    using assms(1) by (auto simp: str_at_def dest: in_set_takeD)
  ultimately show ?thesis by (simp add: str_at_def eq k_def)
qed

theorem safestrcpy_terminates_string_witness:
  "str_at (safestrcpy 10 0 3 ((\<lambda>_. 7)(0 := 97, 1 := 98, 2 := 99, 3 := 0))) 10 [97, 98]"
proof -
  have "str_at ((\<lambda>_. 7)(0 := 97, 1 := 98, 2 := 99, 3 := 0)) 0 [97, 98, 99]" by simp
  from safestrcpy_terminates_string [OF this, of 3 10] show ?thesis by (simp add: numeral_eq_Suc)
qed

text \<open>
  The kernel's shift-and-subtract \<^verbatim>\<open>div\<close> (the processor has no divide instruction) computes
  the unsigned 32-bit quotient for every non-zero divisor, and all ones for a zero divisor.
\<close>

theorem cdiv_correct: "cdiv n d = (if d = 0 then -1 else n div d)"
proof (cases "d = 0")
  case True
  then show ?thesis using div_loop_by_zero [of 32 n 0 0] by (simp add: cdiv_def mask_eq_exp_minus_1)
next
  case False
  then show ?thesis by (simp add: cdiv_word_div)
qed

end
