(* ===== verification/Buddy.thy ===== *)
theory Buddy
  imports Prelude
begin

unbundle bit_operations_syntax

text \<open>
  The buddy memory allocator (\<^verbatim>\<open>source/buddy.c\<close>): its control structure \<^verbatim>\<open>struct kmem\<close>, the
  array of marks (a 32-block bitmap and the two 16-bit links of a doubly linked list of non-empty
  marks), and every operation. The acquire/release pairs of \<^verbatim>\<open>kmalloc\<close> and \<^verbatim>\<open>kfree\<close> make each
  call one atomic step; the locks themselves are modelled in \<^verbatim>\<open>Spinlock\<close>. The correctness proofs
  are in \<^verbatim>\<open>Buddy_Proofs\<close>.
\<close>

section \<open>Data\<close>

abbreviation (input) MAX_ORD :: nat where "MAX_ORD \<equiv> 12"
abbreviation (input) MIN_ORD :: nat where "MIN_ORD \<equiv> 6"
abbreviation (input) N_ORD :: nat where "N_ORD \<equiv> 7"
abbreviation (input) PTE_SHIFT :: nat where "PTE_SHIFT \<equiv> 12"

record mark =
  lnks :: uint
  bitmap :: uint

definition PRE_LNK :: "uint \<Rightarrow> uint" where
  "PRE_LNK l = drop_bit 16 l"

definition NEXT_LNK :: "uint \<Rightarrow> uint" where
  "NEXT_LNK l = l AND 0xFFFF"

definition LNKS :: "uint \<Rightarrow> uint \<Rightarrow> uint" where
  "LNKS pre nxt = push_bit 16 pre OR (nxt AND 0xFFFF)"

abbreviation (input) NIL :: uint where "NIL \<equiv> 0xFFFF"

record order =
  head :: uint
  offset :: uint

text \<open>
  \<open>orders\<close> is the array of the seven orders, indexed from 0; \<open>marks\<close> is the array of marks at
  \<open>km_start\<close>, which the orders share, each from its own offset on.
\<close>

record kmem =
  km_start :: uint
  km_start_heap :: uint
  km_end :: uint
  km_orders :: "nat \<Rightarrow> order"
  km_marks :: "nat \<Rightarrow> mark"

section \<open>Access to marks and orders\<close>

definition get_order_rec :: "nat \<Rightarrow> 'z kmem_scheme \<Rightarrow> order" where
  "get_order_rec ord k = km_orders k (ord - MIN_ORD)"

definition set_head :: "nat \<Rightarrow> uint \<Rightarrow> 'z kmem_scheme \<Rightarrow> 'z kmem_scheme" where
  "set_head ord h k =
     k\<lparr>km_orders := (km_orders k)(ord - MIN_ORD := (km_orders k (ord - MIN_ORD))\<lparr>head := h\<rparr>)\<rparr>"

definition mark_index :: "nat \<Rightarrow> nat \<Rightarrow> 'z kmem_scheme \<Rightarrow> nat" where
  "mark_index ord idx k = unat (offset (get_order_rec ord k)) + idx"

definition get_mark :: "nat \<Rightarrow> nat \<Rightarrow> 'z kmem_scheme \<Rightarrow> mark" where
  "get_mark ord idx k = km_marks k (mark_index ord idx k)"

definition set_mark :: "nat \<Rightarrow> nat \<Rightarrow> mark \<Rightarrow> 'z kmem_scheme \<Rightarrow> 'z kmem_scheme" where
  "set_mark ord idx mk k = k\<lparr>km_marks := (km_marks k)(mark_index ord idx k := mk)\<rparr>"

definition set_lnks :: "nat \<Rightarrow> nat \<Rightarrow> uint \<Rightarrow> 'z kmem_scheme \<Rightarrow> 'z kmem_scheme" where
  "set_lnks ord idx l k = set_mark ord idx ((get_mark ord idx k)\<lparr>lnks := l\<rparr>) k"

definition set_bitmap :: "nat \<Rightarrow> nat \<Rightarrow> uint \<Rightarrow> 'z kmem_scheme \<Rightarrow> 'z kmem_scheme" where
  "set_bitmap ord idx b k = set_mark ord idx ((get_mark ord idx k)\<lparr>bitmap := b\<rparr>) k"

definition blkid2mem :: "nat \<Rightarrow> nat \<Rightarrow> 'z kmem_scheme \<Rightarrow> uint" where
  "blkid2mem ord blkid k = km_start_heap k + push_bit ord 1 * word_of_nat blkid"

definition mem2blkid :: "nat \<Rightarrow> uint \<Rightarrow> 'z kmem_scheme \<Rightarrow> nat" where
  "mem2blkid ord mem k = unat (drop_bit ord (mem - km_start_heap k))"

definition blk_bit :: "nat \<Rightarrow> uint" where
  "blk_bit blk_id = push_bit (blk_id mod 32) 1"

definition available :: "uint \<Rightarrow> nat \<Rightarrow> bool" where
  "available bm blk_id \<longleftrightarrow> bm AND blk_bit blk_id \<noteq> 0"

section \<open>Marking blocks\<close>

text \<open>Take an emptied mark out of the list of its order.\<close>

definition unlink_mark :: "nat \<Rightarrow> nat \<Rightarrow> 'z kmem_scheme \<Rightarrow> 'z kmem_scheme" where
  "unlink_mark ord idx k =
     (let l = lnks (get_mark ord idx k);
          prev = PRE_LNK l;
          nxt = NEXT_LNK l;
          k1 = (if prev \<noteq> NIL
                then set_lnks ord (unat prev)
                       (LNKS (PRE_LNK (lnks (get_mark ord (unat prev) k))) nxt) k
                else if head (get_order_rec ord k) = word_of_nat idx then set_head ord nxt k
                else k);
          k2 = (if nxt \<noteq> NIL
                then set_lnks ord (unat nxt)
                       (LNKS prev (NEXT_LNK (lnks (get_mark ord (unat nxt) k1)))) k1
                else k1)
      in set_lnks ord idx (LNKS NIL NIL) k2)"

definition unmark_blk :: "nat \<Rightarrow> nat \<Rightarrow> ('z kmem_scheme, unit) kop" where
  "unmark_blk ord blk_id =
     kbind (kget (get_mark ord (blk_id div 32))) (\<lambda>mk.
     if \<not> available (bitmap mk) blk_id then panic ''double alloc''
     else kbind (kmod (set_bitmap ord (blk_id div 32) (bitmap mk AND NOT (blk_bit blk_id)))) (\<lambda>_.
          if bitmap mk AND NOT (blk_bit blk_id) = 0 then kmod (unlink_mark ord (blk_id div 32))
          else kreturn ()))"

text \<open>Insert a mark that was empty at the head of the list of its order.\<close>

definition link_mark :: "nat \<Rightarrow> nat \<Rightarrow> 'z kmem_scheme \<Rightarrow> 'z kmem_scheme" where
  "link_mark ord idx k =
     (let h = head (get_order_rec ord k);
          k1 = set_lnks ord idx (LNKS NIL h) k;
          k2 = (if h \<noteq> NIL
                then set_lnks ord (unat h)
                       (LNKS (word_of_nat idx) (NEXT_LNK (lnks (get_mark ord (unat h) k1)))) k1
                else k1)
      in set_head ord (word_of_nat idx) k2)"

definition mark_blk :: "nat \<Rightarrow> nat \<Rightarrow> ('z kmem_scheme, unit) kop" where
  "mark_blk ord blk_id =
     kbind (kget (get_mark ord (blk_id div 32))) (\<lambda>mk.
     let insert = (bitmap mk = 0) in
     if available (bitmap mk) blk_id then panic ''double free''
     else kbind (kmod (set_bitmap ord (blk_id div 32) (bitmap mk OR blk_bit blk_id))) (\<lambda>_.
          if insert then kmod (link_mark ord (blk_id div 32)) else kreturn ()))"

text \<open>The scan of \<^verbatim>\<open>get_blk\<close> for the first set bit.\<close>

fun first_bit :: "uint \<Rightarrow> nat list \<Rightarrow> nat option" where
  "first_bit bm [] = None"
| "first_bit bm (i # is) = (if bm AND push_bit i 1 \<noteq> 0 then Some i else first_bit bm is)"

definition get_blk :: "nat \<Rightarrow> ('z kmem_scheme, uint) kop" where
  "get_blk ord =
     kbind (kget (\<lambda>k. head (get_order_rec ord k))) (\<lambda>h.
     kbind (kget (get_mark ord (unat h))) (\<lambda>mk.
     if bitmap mk = 0 then panic ''empty mark in the list''
     else case first_bit (bitmap mk) [0..<32] of
            None \<Rightarrow> kreturn 0
          | Some i \<Rightarrow>
              kbind (unmark_blk ord (unat h * 32 + i)) (\<lambda>_.
              kget (blkid2mem ord (unat h * 32 + i)))))"

section \<open>Allocation and freeing\<close>

text \<open>
  \<^verbatim>\<open>_kfree\<close>. An order above \<open>MAX_ORD\<close> would read \<^verbatim>\<open>kmem.orders\<close> out of bounds. The two tests
  on the bitmap are made before any change of state.
\<close>

function kfree_blk :: "uint \<Rightarrow> nat \<Rightarrow> ('z kmem_scheme, unit) kop" where
  "kfree_blk mem ord =
     (if ord > MAX_ORD then fault ''kmem.orders''
      else kbind (kget (mem2blkid ord mem)) (\<lambda>blk_id.
           kbind (kget (get_mark ord (blk_id div 32))) (\<lambda>mk.
           if available (bitmap mk) blk_id then panic ''kfree: double free''
           else let buddy_id = blk_id XOR 1 in
             if \<not> available (bitmap mk) buddy_id \<or> ord = MAX_ORD then mark_blk ord blk_id
             else kbind (unmark_blk ord buddy_id) (\<lambda>_.
                  kbind (kget (blkid2mem ord (blk_id - blk_id mod 2))) (\<lambda>parent.
                  kfree_blk parent (ord + 1))))))"
  by pat_completeness auto
termination
  by (relation "measure (\<lambda>(mem, ord). 13 - ord)") auto

declare kfree_blk.simps [simp del]

text \<open>\<^verbatim>\<open>_kmalloc\<close>: take a block of the order's list, or split a block of the next order.\<close>

function kmalloc_blk :: "nat \<Rightarrow> ('z kmem_scheme, uint) kop" where
  "kmalloc_blk ord =
     (if ord > MAX_ORD then fault ''kmem.orders''
      else kbind (kget (\<lambda>k. head (get_order_rec ord k))) (\<lambda>h.
           if h \<noteq> NIL then get_blk ord
           else if ord < MAX_ORD then
             kbind (kmalloc_blk (ord + 1)) (\<lambda>up.
             if up \<noteq> 0 then kbind (kfree_blk (up + push_bit ord 1) ord) (\<lambda>_. kreturn up)
             else kreturn up)
           else kreturn 0))"
  by pat_completeness auto
termination
  by (relation "measure (\<lambda>ord. 13 - ord)") auto

declare kmalloc_blk.simps [simp del]

definition kmalloc :: "int \<Rightarrow> ('z kmem_scheme, uint) kop" where
  "kmalloc ord =
     (if ord > int MAX_ORD \<or> ord < int MIN_ORD then panic ''kmalloc: order out of range''
      else kmalloc_blk (nat ord))"

definition kfree :: "uint \<Rightarrow> int \<Rightarrow> ('z kmem_scheme, unit) kop" where
  "kfree mem ord =
     (if ord > int MAX_ORD \<or> ord < int MIN_ORD \<or> mem AND (push_bit (nat ord) 1 - 1) \<noteq> 0
      then panic ''kfree: order out of range or memory unaligned''
      else kfree_blk mem (nat ord))"

definition free_page :: "uint \<Rightarrow> ('z kmem_scheme, unit) kop" where
  "free_page v = kfree v (int PTE_SHIFT)"

definition alloc_page :: "('z kmem_scheme, uint) kop" where
  "alloc_page = kmalloc (int PTE_SHIFT)"

section \<open>Initialisation\<close>

definition align_up :: "uint \<Rightarrow> uint \<Rightarrow> uint" where
  "align_up sz al = (sz + al - 1) AND NOT (al - 1)"

definition align_dn :: "uint \<Rightarrow> uint \<Rightarrow> uint" where
  "align_dn sz al = sz AND NOT (al - 1)"

text \<open>The inner loop of \<^verbatim>\<open>kmem_init2\<close>: clear the \<open>n\<close> marks of one order.\<close>

definition clear_marks :: "nat \<Rightarrow> nat \<Rightarrow> ('z kmem_scheme, unit) kop" where
  "clear_marks ord n =
     kfor (\<lambda>j. kmod (set_mark ord j \<lparr>lnks = LNKS NIL NIL, bitmap = 0\<rparr>)) [0..<n]"

text \<open>The outer loop, from the highest order down: returns the total number of marks.\<close>

fun init_orders :: "nat list \<Rightarrow> uint \<Rightarrow> uint \<Rightarrow> ('z kmem_scheme, uint) kop" where
  "init_orders [] tot n = kreturn tot"
| "init_orders (i # is) tot n =
     kbind (kmod (\<lambda>k. k\<lparr>km_orders := (km_orders k)(i := \<lparr>head = NIL, offset = tot\<rparr>)\<rparr>)) (\<lambda>_.
     kbind (clear_marks (i + MIN_ORD) (unat n)) (\<lambda>_.
     init_orders is (tot + n) (push_bit 1 n)))"

text \<open>
  The addresses of the last loop, \<open>start_heap\<close> up to \<open>end\<close> in steps of \<open>2 ^ MAX_ORD\<close>
  (the loop variable does not wrap: \<open>end\<close> is not within 4096 of \<open>2 ^ 32\<close>).
\<close>

definition heap_blocks :: "uint \<Rightarrow> uint \<Rightarrow> uint list" where
  "heap_blocks lo hi =
     map (\<lambda>j. lo + word_of_nat (j * 4096)) [0..<(unat hi - unat lo + 4095) div 4096]"

definition kmem_init2 :: "uint \<Rightarrow> uint \<Rightarrow> ('z kmem_scheme, unit) kop" where
  "kmem_init2 vstart vend =
     kbind (kmod (\<lambda>k. k\<lparr>km_start := vstart, km_end := vend\<rparr>)) (\<lambda>_.
     let len = vend - vstart; n = drop_bit (MAX_ORD + 5) len + 1 in
     kbind (init_orders (rev [0..<N_ORD]) 0 n) (\<lambda>tot.
     kbind (kmod (\<lambda>k. k\<lparr>km_start_heap := align_up (vstart + tot * 8) (push_bit MAX_ORD 1)\<rparr>)) (\<lambda>_.
     kbind (kget km_start_heap) (\<lambda>lo.
     kfor (\<lambda>i. kfree i (int MAX_ORD)) (heap_blocks lo vend)))))"

section \<open>Rounding a size up to an order\<close>

definition smear :: "uint \<Rightarrow> uint" where
  "smear v =
     (let v = v OR drop_bit 1 v;
          v = v OR drop_bit 2 v;
          v = v OR drop_bit 4 v;
          v = v OR drop_bit 8 v
      in v OR drop_bit 16 v)"

text \<open>The scan for the first set bit returns 32 when there is none.\<close>

definition lowest_bit :: "uint \<Rightarrow> nat" where
  "lowest_bit v = (case first_bit v [0..<32] of None \<Rightarrow> 32 | Some i \<Rightarrow> i)"

definition get_order :: "uint \<Rightarrow> ('z, nat) kop" where
  "get_order v =
     (let ord = lowest_bit (smear (v - 1) + 1)
      in if ord < MIN_ORD then kreturn MIN_ORD
         else if ord > MAX_ORD then panic ''order too big!''
         else kreturn ord)"

end
