(* ===== verification/Buddy_Proofs.thy ===== *)
theory Buddy_Proofs
  imports Buddy
begin

unbundle bit_operations_syntax

text \<open>
  Correctness of the buddy allocator. First the doubly linked lists: linking and unlinking a mark
  keep the list of each order equal to the list of its non-empty marks. On top of that, the state
  is abstracted to the set of free blocks, and allocation and freeing are shown to take exactly the
  block's memory out of the free memory and to put it back.
\<close>

section \<open>Links and bitmaps\<close>

lemma mask_16: "(0xFFFF :: uint) = mask 16"
  by (simp add: mask_eq_exp_minus_1)

lemma bit_small: "bit (p :: uint) i \<Longrightarrow> unat p < 65536 \<Longrightarrow> i < 16"
proof (rule ccontr)
  assume b: "bit p i" and p: "unat p < 65536" and i: "\<not> i < 16"
  have "(2::nat) ^ 16 \<le> 2 ^ i" using i by (intro power_increasing) auto
  with p have "unat p div 2 ^ i = 0" by simp
  moreover have "bit (unat p) i" using b bit_imp_le_length [OF b] by (simp add: bit_unsigned_iff)
  ultimately show False by (simp add: bit_iff_odd)
qed

lemma PRE_LNK_LNKS [simp]: "unat p < 65536 \<Longrightarrow> PRE_LNK (LNKS p q) = p"
  unfolding PRE_LNK_def LNKS_def mask_16
  by (rule bit_word_eqI) (auto simp: bit_simps dest: bit_small)

lemma NEXT_LNK_LNKS [simp]: "unat q < 65536 \<Longrightarrow> NEXT_LNK (LNKS p q) = q"
  unfolding NEXT_LNK_def LNKS_def mask_16
  by (rule bit_word_eqI) (auto simp: bit_simps dest: bit_small)

lemma available_bit: "available bm b \<longleftrightarrow> bit bm (b mod 32)"
  by (simp add: available_def blk_bit_def and_exp_eq_0_iff_not_bit)

lemma bit_blk_bit: "bit (blk_bit b) i \<longleftrightarrow> i = b mod 32"
  using bit_imp_le_length [of "blk_bit b" i]
  by (auto simp: blk_bit_def bit_simps)

section \<open>Frame rules for the accessors\<close>

lemma get_order_rec_set_mark [simp]: "get_order_rec d (set_mark e i mk k) = get_order_rec d k"
  by (simp add: get_order_rec_def set_mark_def)

lemma get_order_rec_set_lnks [simp]: "get_order_rec d (set_lnks e i l k) = get_order_rec d k"
  by (simp add: set_lnks_def)

lemma get_order_rec_set_bitmap [simp]: "get_order_rec d (set_bitmap e i l k) = get_order_rec d k"
  by (simp add: set_bitmap_def)

lemma offset_set_head [simp]:
  "offset (get_order_rec d (set_head e h k)) = offset (get_order_rec d k)"
  by (simp add: get_order_rec_def set_head_def)

lemma head_set_head:
  "6 \<le> d \<Longrightarrow> 6 \<le> e \<Longrightarrow>
     head (get_order_rec d (set_head e h k)) = (if d = e then h else head (get_order_rec d k))"
  by (auto simp: get_order_rec_def set_head_def)

lemma mark_index_set [simp]:
  "mark_index d i (set_mark e j mk k) = mark_index d i k"
  "mark_index d i (set_lnks e j l k) = mark_index d i k"
  "mark_index d i (set_bitmap e j b k) = mark_index d i k"
  "mark_index d i (set_head e h k) = mark_index d i k"
  by (simp_all add: mark_index_def)

lemma get_mark_set_mark:
  "get_mark d i (set_mark e j mk k) =
     (if mark_index d i k = mark_index e j k then mk else get_mark d i k)"
  by (simp add: get_mark_def) (simp add: set_mark_def)

lemma get_mark_set_head [simp]: "get_mark d i (set_head e h k) = get_mark d i k"
  by (simp add: get_mark_def) (simp add: set_head_def)

lemma lnks_set_lnks:
  "lnks (get_mark d i (set_lnks e j l k)) =
     (if mark_index d i k = mark_index e j k then l else lnks (get_mark d i k))"
  by (simp add: set_lnks_def get_mark_set_mark)

lemma bitmap_set_lnks [simp]: "bitmap (get_mark d i (set_lnks e j l k)) = bitmap (get_mark d i k)"
  by (simp add: set_lnks_def get_mark_set_mark) (simp add: get_mark_def)

lemma lnks_set_bitmap [simp]: "lnks (get_mark d i (set_bitmap e j b k)) = lnks (get_mark d i k)"
  by (simp add: set_bitmap_def get_mark_set_mark) (simp add: get_mark_def)

lemma bitmap_set_bitmap:
  "bitmap (get_mark d i (set_bitmap e j b k)) =
     (if mark_index d i k = mark_index e j k then b else bitmap (get_mark d i k))"
  by (simp add: set_bitmap_def get_mark_set_mark)

lemma start_heap_set [simp]:
  "km_start_heap (set_mark e j mk k) = km_start_heap k"
  "km_start_heap (set_lnks e j l k) = km_start_heap k"
  "km_start_heap (set_bitmap e j b k) = km_start_heap k"
  "km_start_heap (set_head e h k) = km_start_heap k"
  by (simp_all add: set_mark_def set_lnks_def set_bitmap_def set_head_def)

section \<open>Layout of the mark array\<close>

text \<open>
  Order \<open>d\<close> owns \<open>n * 2 ^ (12 - d)\<close> marks, placed after those of the higher orders, as
  \<^verbatim>\<open>kmem_init2\<close> lays them out. \<open>lo\<close> is the lowest order in use; a 16-bit link can name each of
  its marks.
\<close>

definition nmarks :: "nat \<Rightarrow> nat \<Rightarrow> nat" where
  "nmarks n d = n * 2 ^ (12 - d)"

definition layout :: "nat \<Rightarrow> nat \<Rightarrow> 'z kmem_scheme \<Rightarrow> bool" where
  "layout lo n k \<longleftrightarrow> 6 \<le> lo \<and> lo \<le> 12 \<and> nmarks n lo \<le> 65535
     \<and> (\<forall>d. lo \<le> d \<longrightarrow> d \<le> 12 \<longrightarrow> unat (offset (get_order_rec d k)) = n * (2 ^ (12 - d) - 1))"

lemma nmarks_mono: "lo \<le> d \<Longrightarrow> nmarks n d \<le> nmarks n lo"
  unfolding nmarks_def by (intro mult_le_mono2 power_increasing) auto

lemma nmarks_bound: "layout lo n k \<Longrightarrow> lo \<le> d \<Longrightarrow> nmarks n d \<le> 65535"
  using nmarks_mono [of lo d n] by (simp add: layout_def)

lemma layout_apart:
  assumes "layout lo n k" and "lo \<le> d" "d < e" "e \<le> 12" and "i < nmarks n d" "j < nmarks n e"
  shows "mark_index e j k < mark_index d i k"
proof -
  have "mark_index e j k = n * (2 ^ (12 - e) - 1) + j"
    and d: "mark_index d i k = n * (2 ^ (12 - d) - 1) + i"
    using assms by (auto simp: layout_def mark_index_def)
  then have "mark_index e j k < n * (2 ^ (12 - e) - 1) + n * 2 ^ (12 - e)"
    using assms(6) by (simp add: nmarks_def)
  also have "\<dots> = n * (2 ^ Suc (12 - e) - 1)"
    by (simp add: diff_mult_distrib2)
  also have "\<dots> \<le> n * (2 ^ (12 - d) - 1)"
    using assms(3,4) by (intro mult_le_mono2 diff_le_mono power_increasing) auto
  finally show ?thesis using d by simp
qed

lemma mark_index_inj:
  assumes "layout lo n k" and "lo \<le> d" "d \<le> 12" "lo \<le> e" "e \<le> 12"
    and "i < nmarks n d" "j < nmarks n e"
  shows "mark_index d i k = mark_index e j k \<longleftrightarrow> d = e \<and> i = j"
proof (cases d e rule: linorder_cases)
  case equal
  then show ?thesis by (auto simp: mark_index_def)
qed (use layout_apart [of lo n k] assms in fastforce)+

section \<open>The doubly linked lists\<close>

text \<open>
  \<open>fst_lnk xs q\<close> and \<open>lst_lnk p xs\<close>: the link to the first and to the last mark of a segment, or
  the neighbour outside when the segment is empty. \<open>chain\<close>: the links of a segment between the
  neighbours \<open>p\<close> and \<open>q\<close>.
\<close>

definition fst_lnk :: "nat list \<Rightarrow> uint \<Rightarrow> uint" where
  "fst_lnk xs q = (case xs of [] \<Rightarrow> q | i # _ \<Rightarrow> word_of_nat i)"

definition lst_lnk :: "uint \<Rightarrow> nat list \<Rightarrow> uint" where
  "lst_lnk p xs = (if xs = [] then p else word_of_nat (last xs))"

primrec chain :: "'z kmem_scheme \<Rightarrow> nat \<Rightarrow> uint \<Rightarrow> nat list \<Rightarrow> uint \<Rightarrow> bool" where
  "chain k d p [] q = True"
| "chain k d p (i # is) q =
     (lnks (get_mark d i k) = LNKS p (fst_lnk is q) \<and> chain k d (word_of_nat i) is q)"

definition linked :: "nat \<Rightarrow> nat \<Rightarrow> 'z kmem_scheme \<Rightarrow> nat list \<Rightarrow> bool" where
  "linked n d k L \<longleftrightarrow> distinct L \<and> (\<forall>i\<in>set L. i < nmarks n d)
     \<and> head (get_order_rec d k) = fst_lnk L NIL \<and> chain k d NIL L NIL"

lemma fst_lnk_simps [simp]:
  "fst_lnk [] q = q" "fst_lnk (i # is) q = word_of_nat i"
  by (simp_all add: fst_lnk_def)

lemma fst_lnk_append [simp]: "fst_lnk (xs @ ys) q = fst_lnk xs (fst_lnk ys q)"
  by (simp add: fst_lnk_def split: list.split)

lemma lst_lnk_simps [simp]:
  "lst_lnk p [] = p" "lst_lnk p (xs @ [x]) = word_of_nat x"
  "lst_lnk p (x # xs) = lst_lnk (word_of_nat x) xs"
  by (simp_all add: lst_lnk_def)

lemma chain_append:
  "chain k d p (xs @ ys) q \<longleftrightarrow> chain k d p xs (fst_lnk ys q) \<and> chain k d (lst_lnk p xs) ys q"
  by (induction xs arbitrary: p) auto

lemma chain_cong:
  "(\<And>i. i \<in> set L \<Longrightarrow> lnks (get_mark d i k') = lnks (get_mark d i k)) \<Longrightarrow>
     chain k' d p L q = chain k d p L q"
  by (induction L arbitrary: p) auto

lemma unat_idx [simp]: "i < 65535 \<Longrightarrow> unat (word_of_nat i :: uint) = i"
  by (simp add: unsigned_of_nat take_bit_nat_eq_self)

lemma unat_idx_small [simp]: "i < 65535 \<Longrightarrow> unat (word_of_nat i :: uint) < 65536"
  by simp

lemma idx_not_NIL: "i < 65535 \<Longrightarrow> (word_of_nat i :: uint) \<noteq> NIL"
proof
  assume "i < 65535" and "(word_of_nat i :: uint) = NIL"
  then have "unat (word_of_nat i :: uint) = unat NIL" by simp
  with \<open>i < 65535\<close> show False by simp
qed

lemma lst_lnk_cases:
  obtains "xs = []" | ys y where "xs = ys @ [y]"
  by (cases xs rule: rev_cases) auto

text \<open>Changing the links of one mark of order \<open>d\<close>, seen from the list of an order \<open>e\<close>.\<close>

lemma chain_set_lnks:
  assumes "layout lo n k" "lo \<le> d" "d \<le> 12" "lo \<le> e" "e \<le> 12" "j < nmarks n d"
    and "\<forall>i\<in>set L. i < nmarks n e" and "d \<noteq> e \<or> j \<notin> set L"
  shows "chain (set_lnks d j l k) e p L q = chain k e p L q"
  using assms by (intro chain_cong) (auto simp: lnks_set_lnks mark_index_inj)

lemma chain_set_head [simp]: "chain (set_head d h k) e p L q = chain k e p L q"
  by (intro chain_cong) simp

lemma chain_set_bitmap [simp]: "chain (set_bitmap d j b k) e p L q = chain k e p L q"
  by (intro chain_cong) simp

lemma layout_set [simp]:
  "layout lo n (set_lnks d j l k) = layout lo n k"
  "layout lo n (set_head d h k) = layout lo n k"
  "layout lo n (set_bitmap d j b k) = layout lo n k"
  by (simp_all add: layout_def)

lemma linked_set_lnks_other:
  assumes "layout lo n k" "lo \<le> d" "d \<le> 12" "lo \<le> e" "e \<le> 12" "j < nmarks n d" "d \<noteq> e"
  shows "linked n e (set_lnks d j l k) L = linked n e k L"
  using assms by (auto simp: linked_def chain_set_lnks)

lemma linked_set_head_other:
  assumes "layout lo n k" "lo \<le> d" "lo \<le> e" "d \<noteq> e"
  shows "linked n e (set_head d h k) L = linked n e k L"
  using assms by (auto simp: linked_def head_set_head layout_def)

lemma linked_set_bitmap [simp]: "linked n e (set_bitmap d j b k) L = linked n e k L"
  by (simp add: linked_def)

lemma linked_bounds:
  assumes "layout lo n k" "lo \<le> d" "linked n d k L" "i \<in> set L"
  shows "i < nmarks n d" and "i < 65535"
  using assms nmarks_bound [of lo n k d] by (auto simp: linked_def)

lemma bitmap_unlink_mark [simp]:
  "bitmap (get_mark e i (unlink_mark d j k)) = bitmap (get_mark e i k)"
  by (simp add: unlink_mark_def Let_def)

lemma bitmap_link_mark [simp]:
  "bitmap (get_mark e i (link_mark d j k)) = bitmap (get_mark e i k)"
  by (simp add: link_mark_def Let_def)

lemma layout_unlink_mark [simp]: "layout lo n (unlink_mark d j k) = layout lo n k"
  by (simp add: unlink_mark_def Let_def)

lemma layout_link_mark [simp]: "layout lo n (link_mark d j k) = layout lo n k"
  by (simp add: link_mark_def Let_def)

lemma start_heap_unlink_mark [simp]: "km_start_heap (unlink_mark d j k) = km_start_heap k"
  by (simp add: unlink_mark_def Let_def)

lemma start_heap_link_mark [simp]: "km_start_heap (link_mark d j k) = km_start_heap k"
  by (simp add: link_mark_def Let_def)

text \<open>The chain of a segment after its last mark got a new successor, or its first one a new
  predecessor.\<close>

lemma chain_new_succ:
  assumes "layout lo n k" "lo \<le> d" "d \<le> 12" "\<forall>i\<in>set (xs @ [x]). i < nmarks n d"
    and "distinct (xs @ [x])" and "chain k d p (xs @ [x]) q"
  shows "chain (set_lnks d x (LNKS (lst_lnk p xs) q') k) d p (xs @ [x]) q'"
  using assms by (simp add: chain_append chain_set_lnks lnks_set_lnks)

lemma chain_new_pred:
  assumes "layout lo n k" "lo \<le> d" "d \<le> 12" "\<forall>i\<in>set (y # ys). i < nmarks n d"
    and "distinct (y # ys)" and "chain k d p (y # ys) q"
  shows "chain (set_lnks d y (LNKS p' (fst_lnk ys q)) k) d p' (y # ys) q"
  using assms by (simp add: chain_set_lnks lnks_set_lnks)

lemma link_mark_linked:
  assumes lay: "layout lo n k" and d: "lo \<le> d" "d \<le> 12" and j: "j < nmarks n d"
    and L: "linked n d k L" and new: "j \<notin> set L"
  shows "linked n d (link_mark d j k) (j # L)"
proof -
  let ?k1 = "set_lnks d j (LNKS NIL (head (get_order_rec d k))) k"
  have ch1: "chain ?k1 d NIL L NIL" "\<forall>i\<in>set L. i < nmarks n d" "distinct L"
    and h: "head (get_order_rec d k) = fst_lnk L NIL"
    using assms by (auto simp: linked_def chain_set_lnks)
  have j1: "lnks (get_mark d j ?k1) = LNKS NIL (fst_lnk L NIL)"
    using h by (simp add: lnks_set_lnks)
  have d6: "6 \<le> d" using lay d by (simp add: layout_def)
  show ?thesis
  proof (cases L)
    case Nil
    then show ?thesis
      using j1 h j d6 by (simp add: linked_def link_mark_def Let_def head_set_head)
  next
    case (Cons y ys)
    have y: "y < 65535" using linked_bounds [OF lay d(1) L, of y] Cons by simp
    have "fst_lnk ys NIL = NEXT_LNK (lnks (get_mark d y ?k1))"
    proof -
      have "unat (fst_lnk ys NIL) < 65536"
        using linked_bounds(2) [OF lay d(1) L, of "hd ys"] Cons by (cases ys) auto
      then show ?thesis using ch1(1) Cons by simp
    qed
    moreover have "chain (set_lnks d y (LNKS (word_of_nat j) (fst_lnk ys NIL)) ?k1) d
        (word_of_nat j) (y # ys) NIL"
      using ch1 Cons lay d by (intro chain_new_pred) auto
    moreover have "y \<noteq> j" using new Cons by auto
    ultimately show ?thesis
      using Cons j1 h j d6 d lay y ch1(2,3) new
      by (simp add: linked_def link_mark_def Let_def head_set_head idx_not_NIL lnks_set_lnks
          mark_index_inj)
  qed
qed

lemma link_mark_linked_other:
  assumes "layout lo n k" "lo \<le> d" "d \<le> 12" "lo \<le> e" "e \<le> 12" "d \<noteq> e" "j < nmarks n d"
    and "linked n d k L"
  shows "linked n e (link_mark d j k) M = linked n e k M"
proof -
  have "head (get_order_rec d k) \<noteq> NIL \<Longrightarrow> unat (head (get_order_rec d k)) < nmarks n d"
    using assms linked_bounds [OF assms(1,2,8)] by (cases L) (auto simp: linked_def)
  then show ?thesis
    using assms
    by (simp add: link_mark_def Let_def linked_set_lnks_other linked_set_head_other)
qed

lemma unlink_mark_linked:
  assumes lay: "layout lo n k" and d: "lo \<le> d" "d \<le> 12"
    and L: "linked n d k (xs @ j # ys)"
  shows "linked n d (unlink_mark d j k) (xs @ ys)"
proof -
  define prev where "prev = lst_lnk NIL xs"
  define nxt where "nxt = fst_lnk ys NIL"
  note bnd = linked_bounds [OF lay d(1) L]
  have d6: "6 \<le> d" using lay d by (simp add: layout_def)
  have dist: "distinct (xs @ j # ys)" and rng: "\<forall>i\<in>set (xs @ j # ys). i < nmarks n d"
    and hd: "head (get_order_rec d k) = fst_lnk xs (word_of_nat j)"
    and cx: "chain k d NIL xs (word_of_nat j)" and cj: "lnks (get_mark d j k) = LNKS prev nxt"
    and cy: "chain k d (word_of_nat j) ys NIL"
    using L by (auto simp: linked_def chain_append prev_def nxt_def)
  have small: "unat prev < 65536" "unat nxt < 65536"
    using bnd(2) by (cases xs rule: rev_cases; cases ys; force simp: prev_def nxt_def)+
  define k1 where "k1 = (if prev \<noteq> NIL
      then set_lnks d (unat prev) (LNKS (PRE_LNK (lnks (get_mark d (unat prev) k))) nxt) k
      else if head (get_order_rec d k) = word_of_nat j then set_head d nxt k else k)"
  define k2 where "k2 = (if nxt \<noteq> NIL
      then set_lnks d (unat nxt) (LNKS prev (NEXT_LNK (lnks (get_mark d (unat nxt) k1)))) k1
      else k1)"
  have un: "unlink_mark d j k = set_lnks d j (LNKS NIL NIL) k2"
    using cj small by (simp add: unlink_mark_def Let_def k1_def k2_def)
  have lay1: "layout lo n k1" using lay by (simp add: k1_def)
  have k1: "chain k1 d NIL xs nxt \<and> chain k1 d (word_of_nat j) ys NIL
      \<and> head (get_order_rec d k1) = fst_lnk xs nxt"
  proof (cases xs rule: rev_cases)
    case Nil
    then show ?thesis using hd cy d6 by (simp add: k1_def prev_def head_set_head)
  next
    case (snoc xs' x)
    have px: "prev = word_of_nat x" "x < 65535" using snoc bnd(2) by (auto simp: prev_def)
    have pre: "PRE_LNK (lnks (get_mark d x k)) = lst_lnk NIL xs'"
      using cx snoc bnd(2) [of "last xs'"] by (cases xs' rule: rev_cases) (auto simp: chain_append)
    have "chain (set_lnks d x (LNKS (lst_lnk NIL xs') nxt) k) d NIL (xs' @ [x]) nxt"
      using lay d rng dist cx snoc by (intro chain_new_succ) auto
    moreover have "chain (set_lnks d x (LNKS (lst_lnk NIL xs') nxt) k) d (word_of_nat j) ys NIL"
      using lay d rng dist cy snoc by (subst chain_set_lnks) auto
    ultimately show ?thesis
      using px pre snoc hd by (cases xs') (simp_all add: k1_def idx_not_NIL)
  qed
  have k2: "chain k2 d NIL xs nxt \<and> chain k2 d prev ys NIL
      \<and> head (get_order_rec d k2) = fst_lnk xs nxt"
  proof (cases ys)
    case Nil
    then show ?thesis using k1 by (simp add: k2_def nxt_def)
  next
    case (Cons y ys')
    have ny: "nxt = word_of_nat y" "y < 65535" using Cons bnd(2) by (auto simp: nxt_def)
    have nx: "NEXT_LNK (lnks (get_mark d y k1)) = fst_lnk ys' NIL"
      using k1 Cons bnd(2) [of "hd ys'"] by (cases ys') auto
    have "chain (set_lnks d y (LNKS prev (fst_lnk ys' NIL)) k1) d prev (y # ys') NIL"
      using lay1 d rng dist k1 Cons by (intro chain_new_pred) auto
    moreover have "chain (set_lnks d y (LNKS prev (fst_lnk ys' NIL)) k1) d NIL xs nxt"
      using lay1 d rng dist k1 Cons by (subst chain_set_lnks) auto
    ultimately show ?thesis
      using ny nx Cons k1 by (simp add: k2_def idx_not_NIL)
  qed
  have lay2: "layout lo n k2" using lay1 by (simp add: k2_def)
  have "chain (set_lnks d j (LNKS NIL NIL) k2) d NIL (xs @ ys) NIL = chain k2 d NIL (xs @ ys) NIL"
    using lay2 d rng dist by (intro chain_set_lnks) auto
  then show ?thesis
    using k2 dist rng by (auto simp: un linked_def chain_append prev_def nxt_def)
qed

lemma unlink_mark_linked_other:
  assumes "layout lo n k" "lo \<le> d" "d \<le> 12" "lo \<le> e" "e \<le> 12" "d \<noteq> e"
    and "linked n d k (xs @ j # ys)"
  shows "linked n e (unlink_mark d j k) M = linked n e k M"
proof -
  note bnd = linked_bounds [OF assms(1,2,7)]
  have l: "lnks (get_mark d j k) = LNKS (lst_lnk NIL xs) (fst_lnk ys NIL)"
    using assms(7) by (simp add: linked_def chain_append)
  have "unat (lst_lnk NIL xs) < 65536" "unat (fst_lnk ys NIL) < 65536"
    and "lst_lnk NIL xs \<noteq> NIL \<Longrightarrow> unat (lst_lnk NIL xs) < nmarks n d"
    and "fst_lnk ys NIL \<noteq> NIL \<Longrightarrow> unat (fst_lnk ys NIL) < nmarks n d"
    using bnd by (cases xs rule: rev_cases; cases ys; force)+
  moreover have "j < nmarks n d" using bnd by simp
  ultimately show ?thesis
    using assms l
    by (simp add: unlink_mark_def Let_def linked_set_lnks_other linked_set_head_other)
qed

section \<open>Free blocks\<close>

text \<open>
  \<open>lists_inv\<close>: for every order in use, the list holds exactly its marks with a non-zero bitmap.
  \<open>free_set\<close>: the blocks (order, number) whose bit is set.
\<close>

definition nonempty_marks :: "nat \<Rightarrow> nat \<Rightarrow> 'z kmem_scheme \<Rightarrow> nat set" where
  "nonempty_marks n d k = {i. i < nmarks n d \<and> bitmap (get_mark d i k) \<noteq> 0}"

definition lists_inv :: "nat \<Rightarrow> nat \<Rightarrow> 'z kmem_scheme \<Rightarrow> bool" where
  "lists_inv lo n k \<longleftrightarrow> layout lo n k
     \<and> (\<forall>d. lo \<le> d \<longrightarrow> d \<le> 12 \<longrightarrow> (\<exists>L. linked n d k L \<and> set L = nonempty_marks n d k))"

definition free_set :: "nat \<Rightarrow> nat \<Rightarrow> 'z kmem_scheme \<Rightarrow> (nat \<times> nat) set" where
  "free_set lo n k = {(d, b). lo \<le> d \<and> d \<le> 12 \<and> b < 32 * nmarks n d
     \<and> bit (bitmap (get_mark d (b div 32) k)) (b mod 32)}"

lemma lists_inv_layout: "lists_inv lo n k \<Longrightarrow> layout lo n k"
  by (simp add: lists_inv_def)

lemma lists_invE:
  assumes "lists_inv lo n k" "lo \<le> d" "d \<le> 12"
  obtains L where "linked n d k L" and "set L = nonempty_marks n d k"
  using assms unfolding lists_inv_def by blast

lemma mem_free_set:
  "lo \<le> d \<Longrightarrow> d \<le> 12 \<Longrightarrow> b < 32 * nmarks n d \<Longrightarrow>
     (d, b) \<in> free_set lo n k \<longleftrightarrow> available (bitmap (get_mark d (b div 32) k)) b"
  by (simp add: free_set_def available_bit)

lemma div32_less: "b < 32 * m \<Longrightarrow> b div 32 < (m :: nat)"
  by simp

text \<open>The bitmap of one mark changes in one bit: effect on the set of free blocks.\<close>

lemma free_set_set_bitmap:
  assumes lay: "layout lo n k" and d: "lo \<le> d" "d \<le> 12" and b: "b < 32 * nmarks n d"
    and old: "bm = bitmap (get_mark d (b div 32) k)"
  shows "free_set lo n (set_bitmap d (b div 32) (bm OR blk_bit b) k) = insert (d, b) (free_set lo n k)"
    and "free_set lo n (set_bitmap d (b div 32) (bm AND NOT (blk_bit b)) k) = free_set lo n k - {(d, b)}"
proof -
  have idx: "mark_index e (c div 32) k = mark_index d (b div 32) k \<longleftrightarrow> e = d \<and> c div 32 = b div 32"
    if "lo \<le> e" "e \<le> 12" "c < 32 * nmarks n e" for e c
    using mark_index_inj [OF lay that(1,2) d, of "c div 32" "b div 32"] that b by simp
  have eq: "c = b" if "c div 32 = b div 32" "c mod 32 = b mod 32" for c
    using that by (metis div_mult_mod_eq)
  show "free_set lo n (set_bitmap d (b div 32) (bm OR blk_bit b) k) = insert (d, b) (free_set lo n k)"
    using d b by (auto simp: free_set_def bitmap_set_bitmap idx old bit_or_iff bit_blk_bit
        split: if_splits dest: eq)
  show "free_set lo n (set_bitmap d (b div 32) (bm AND NOT (blk_bit b)) k) = free_set lo n k - {(d, b)}"
    using d b by (auto simp: free_set_def bitmap_set_bitmap idx old bit_and_iff bit_not_iff
        bit_blk_bit split: if_splits dest: eq)
qed

lemma free_set_link_mark [simp]: "free_set lo n (link_mark d j k) = free_set lo n k"
  by (simp add: free_set_def)

lemma free_set_unlink_mark [simp]: "free_set lo n (unlink_mark d j k) = free_set lo n k"
  by (simp add: free_set_def)

lemma nonempty_marks_set_bitmap:
  assumes "layout lo n k" and "lo \<le> d" "d \<le> 12" "lo \<le> e" "e \<le> 12" and "j < nmarks n d"
  shows "nonempty_marks n e (set_bitmap d j bm k) =
    (if e = d then (if bm = 0 then nonempty_marks n d k - {j} else insert j (nonempty_marks n d k))
     else nonempty_marks n e k)"
  using assms by (auto simp: nonempty_marks_def bitmap_set_bitmap mark_index_inj)

lemma nonempty_marks_link [simp]:
  "nonempty_marks n e (link_mark d j k) = nonempty_marks n e k"
  "nonempty_marks n e (unlink_mark d j k) = nonempty_marks n e k"
  by (simp_all add: nonempty_marks_def)

lemma or_blk_bit_nonzero: "bm OR blk_bit b \<noteq> 0"
proof
  assume "bm OR blk_bit b = 0"
  then have "\<not> bit (bm OR blk_bit b) (b mod 32)" by simp
  then show False by (simp add: bit_or_iff bit_blk_bit)
qed

lemma mark_blk_spec:
  assumes inv: "lists_inv lo n k" and d: "lo \<le> d" "d \<le> 12" and b: "b < 32 * nmarks n d"
    and free: "(d, b) \<notin> free_set lo n k"
  shows "\<exists>k'. mark_blk d b k = Ret () k' \<and> lists_inv lo n k'
    \<and> free_set lo n k' = insert (d, b) (free_set lo n k) \<and> km_start_heap k' = km_start_heap k"
proof -
  define j where "j = b div 32"
  define bm where "bm = bitmap (get_mark d j k)"
  define k1 where "k1 = set_bitmap d j (bm OR blk_bit b) k"
  have lay: "layout lo n k" using inv by (rule lists_inv_layout)
  have j: "j < nmarks n d" using b by (simp add: j_def)
  have na: "\<not> available bm b" using free mem_free_set [OF d b, of k] by (simp add: bm_def j_def)
  have lay1: "layout lo n k1" using lay by (simp add: k1_def)
  have F: "free_set lo n k1 = insert (d, b) (free_set lo n k)"
    unfolding k1_def j_def using free_set_set_bitmap(1) [OF lay d b] by (simp add: bm_def j_def)
  have ne: "nonempty_marks n e k1 =
      (if e = d then insert j (nonempty_marks n d k) else nonempty_marks n e k)"
    if "lo \<le> e" "e \<le> 12" for e
    unfolding k1_def using nonempty_marks_set_bitmap [OF lay d that j] by (simp add: or_blk_bit_nonzero)
  define k' where "k' = (if bm = 0 then link_mark d j k1 else k1)"
  have run: "mark_blk d b k = Ret () k'"
    using na by (simp add: mark_blk_def Let_def k'_def k1_def bm_def j_def)
  have "\<exists>L. linked n e k' L \<and> set L = nonempty_marks n e k'" if e: "lo \<le> e" "e \<le> 12" for e
  proof -
    from inv e obtain M where M: "linked n e k M" "set M = nonempty_marks n e k" by (rule lists_invE)
    from inv d obtain L where L: "linked n d k L" "set L = nonempty_marks n d k" by (rule lists_invE)
    show ?thesis
    proof (cases "bm = 0")
      case True
      then have "j \<notin> set L" using L by (simp add: nonempty_marks_def bm_def)
      with L lay1 d j have "linked n d k' (j # L)"
        using True by (simp add: k'_def link_mark_linked k1_def)
      moreover have "linked n e k' M" if "e \<noteq> d"
        using True that lay1 d e j L M
        by (simp add: k'_def k1_def link_mark_linked_other [OF _ _ _ _ _ _ j, of lo _ e L])
      ultimately show ?thesis
        using ne [OF e] ne [OF d] L M True by (cases "e = d") (auto simp: k'_def)
    next
      case False
      then have "j \<in> nonempty_marks n d k" using j by (simp add: nonempty_marks_def bm_def)
      with False M ne [OF e] show ?thesis
        by (auto simp: k'_def k1_def intro!: exI [of _ M])
    qed
  qed
  then have "lists_inv lo n k'"
    using lay1 by (auto simp: lists_inv_def k'_def)
  moreover have "free_set lo n k' = free_set lo n k1" "km_start_heap k' = km_start_heap k"
    by (simp_all add: k'_def k1_def)
  ultimately show ?thesis using run F by simp
qed

lemma unmark_blk_spec:
  assumes inv: "lists_inv lo n k" and free: "(d, b) \<in> free_set lo n k"
  shows "\<exists>k'. unmark_blk d b k = Ret () k' \<and> lists_inv lo n k'
    \<and> free_set lo n k' = free_set lo n k - {(d, b)} \<and> km_start_heap k' = km_start_heap k"
proof -
  define j where "j = b div 32"
  define bm where "bm = bitmap (get_mark d j k)"
  define bm' where "bm' = bm AND NOT (blk_bit b)"
  define k1 where "k1 = set_bitmap d j bm' k"
  have d: "lo \<le> d" "d \<le> 12" and b: "b < 32 * nmarks n d" using free by (auto simp: free_set_def)
  have lay: "layout lo n k" using inv by (rule lists_inv_layout)
  have j: "j < nmarks n d" using b by (simp add: j_def)
  have av: "available bm b" using free mem_free_set [OF d b, of k] by (simp add: bm_def j_def)
  then have jne: "j \<in> nonempty_marks n d k"
    using j by (auto simp: nonempty_marks_def available_bit bm_def)
  have lay1: "layout lo n k1" using lay by (simp add: k1_def)
  have F: "free_set lo n k1 = free_set lo n k - {(d, b)}"
    unfolding k1_def j_def bm'_def using free_set_set_bitmap(2) [OF lay d b] by (simp add: bm_def j_def)
  have ne: "nonempty_marks n e k1 =
      (if e = d then if bm' = 0 then nonempty_marks n d k - {j} else nonempty_marks n d k
       else nonempty_marks n e k)"
    if "lo \<le> e" "e \<le> 12" for e
    unfolding k1_def using nonempty_marks_set_bitmap [OF lay d that j] jne by auto
  define k' where "k' = (if bm' = 0 then unlink_mark d j k1 else k1)"
  have run: "unmark_blk d b k = Ret () k'"
    using av by (simp add: unmark_blk_def k'_def k1_def bm'_def bm_def j_def)
  have "\<exists>L. linked n e k' L \<and> set L = nonempty_marks n e k'" if e: "lo \<le> e" "e \<le> 12" for e
  proof -
    from inv e obtain M where M: "linked n e k M" "set M = nonempty_marks n e k" by (rule lists_invE)
    from inv d obtain L where L: "linked n d k L" "set L = nonempty_marks n d k" by (rule lists_invE)
    show ?thesis
    proof (cases "bm' = 0")
      case True
      from L jne obtain xs ys where xy: "L = xs @ j # ys" by (metis split_list)
      have L1: "linked n d k1 (xs @ j # ys)" using L xy by (simp add: k1_def)
      have "linked n d k' (xs @ ys)"
        using unlink_mark_linked [OF lay1 d L1] True by (simp add: k'_def)
      moreover have "linked n e k' M" if "e \<noteq> d"
        using unlink_mark_linked_other [OF lay1 d e _ L1] True that M by (simp add: k'_def k1_def)
      moreover have "set (xs @ ys) = nonempty_marks n d k - {j}"
        using L xy by (auto simp: linked_def)
      ultimately show ?thesis
        using ne [OF e] ne [OF d] M True by (cases "e = d") (auto simp: k'_def)
    next
      case False
      with M ne [OF e] show ?thesis
        by (auto simp: k'_def k1_def intro!: exI [of _ M])
    qed
  qed
  then have "lists_inv lo n k'"
    using lay1 by (auto simp: lists_inv_def k'_def)
  moreover have "free_set lo n k' = free_set lo n k1" "km_start_heap k' = km_start_heap k"
    by (simp_all add: k'_def k1_def)
  ultimately show ?thesis using run F by simp
qed

section \<open>Memory of blocks\<close>

text \<open>
  The heap is counted in units of 64 bytes, the size of a block of order 6. A block of order \<open>d\<close>
  covers \<open>2 ^ (d - 6)\<close> units.
\<close>

definition blk_units :: "nat \<times> nat \<Rightarrow> nat set" where
  "blk_units x = {u. u div 2 ^ (fst x - 6) = snd x}"

definition free_units :: "nat \<Rightarrow> nat \<Rightarrow> 'z kmem_scheme \<Rightarrow> nat set" where
  "free_units lo n k = (\<Union>x\<in>free_set lo n k. blk_units x)"

text \<open>A heap of \<open>N\<close> pages from an aligned, non-null start.\<close>

definition heap_ok :: "nat \<Rightarrow> 'z kmem_scheme \<Rightarrow> bool" where
  "heap_ok N k \<longleftrightarrow> 0 < unat (km_start_heap k) \<and> unat (km_start_heap k) mod 4096 = 0
     \<and> unat (km_start_heap k) + N * 4096 \<le> 2 ^ 32"

text \<open>
  A well-formed set of free blocks: all inside the heap, pairwise disjoint, and never two free
  buddies below the maximal order (they would have been merged).
\<close>

definition blocks_wf :: "nat \<Rightarrow> (nat \<times> nat) set \<Rightarrow> bool" where
  "blocks_wf N F \<longleftrightarrow> (\<forall>(d, b)\<in>F. b < N * 2 ^ (12 - d))
     \<and> (\<forall>x\<in>F. \<forall>y\<in>F. x \<noteq> y \<longrightarrow> blk_units x \<inter> blk_units y = {})
     \<and> (\<forall>d b. (d, b) \<in> F \<longrightarrow> d < 12 \<longrightarrow> (d, b XOR 1) \<notin> F)"

definition buddy_inv :: "nat \<Rightarrow> nat \<Rightarrow> nat \<Rightarrow> 'z kmem_scheme \<Rightarrow> bool" where
  "buddy_inv lo n N k \<longleftrightarrow> lists_inv lo n k \<and> heap_ok N k \<and> N \<le> 32 * n
     \<and> blocks_wf N (free_set lo n k)"

lemma blk_units_nonempty: "blk_units (d, b) \<noteq> {}"
proof -
  have "b * 2 ^ (d - 6) \<in> blk_units (d, b)" by (simp add: blk_units_def)
  then show ?thesis by blast
qed

lemma blk_units_same_order: "b \<noteq> c \<Longrightarrow> blk_units (d, b) \<inter> blk_units (d, c) = {}"
  by (auto simp: blk_units_def)

lemma blk_units_split:
  "6 \<le> d \<Longrightarrow> blk_units (Suc d, p) = blk_units (d, 2 * p) \<union> blk_units (d, 2 * p + 1)"
proof -
  assume "6 \<le> d"
  then have "u div 2 ^ (Suc d - 6) = u div 2 ^ (d - 6) div 2" for u :: nat
  proof -
    have "(2::nat) ^ (Suc d - 6) = 2 ^ (d - 6) * 2" using \<open>6 \<le> d\<close> by (simp only: Suc_diff_le power_Suc2)
    then show ?thesis by (simp only: div_mult2_eq)
  qed
  then show ?thesis by (auto simp: blk_units_def)
qed

lemma xor_1_cases: "(b XOR Suc 0) = (if even b then Suc b else b - 1)"
  by (auto simp: xor_Suc_0_eq odd_pos)

lemma buddy_units:
  assumes "6 \<le> d"
  shows "blk_units (Suc d, b div 2) = blk_units (d, b) \<union> blk_units (d, b XOR 1)"
proof (cases "even b")
  case True
  then have "2 * (b div 2) = b" "b XOR 1 = b + 1" by (simp_all add: xor_1_cases)
  with blk_units_split [OF assms, of "b div 2"] show ?thesis by simp
next
  case False
  then have "2 * (b div 2) + 1 = b" by simp
  with False have "b XOR 1 = 2 * (b div 2)" by (simp add: xor_1_cases)
  with blk_units_split [OF assms, of "b div 2"] \<open>2 * (b div 2) + 1 = b\<close> show ?thesis
    by (simp add: Un_commute)
qed

lemma blocks_wfD:
  assumes "blocks_wf N F"
  shows "(d, b) \<in> F \<Longrightarrow> b < N * 2 ^ (12 - d)"
    and "x \<in> F \<Longrightarrow> y \<in> F \<Longrightarrow> x \<noteq> y \<Longrightarrow> blk_units x \<inter> blk_units y = {}"
    and "(d, b) \<in> F \<Longrightarrow> d < 12 \<Longrightarrow> (d, b XOR 1) \<notin> F"
  using assms unfolding blocks_wf_def by blast+

lemma blocks_wf_remove: "blocks_wf N F \<Longrightarrow> blocks_wf N (F - S)"
  unfolding blocks_wf_def by blast

lemma xor_1_involutive [simp]: "(b XOR Suc 0) XOR Suc 0 = b"
  by (simp add: xor.assoc)

lemma blocks_wf_insert:
  assumes "blocks_wf N F" and "b < N * 2 ^ (12 - d)"
    and "blk_units (d, b) \<inter> (\<Union>x\<in>F. blk_units x) = {}"
    and "d = 12 \<or> (d, b XOR 1) \<notin> F"
  shows "blocks_wf N (insert (d, b) F)"
proof -
  have "b XOR 1 \<noteq> b" by (cases b) (auto simp: xor_1_cases)
  then show ?thesis
    using assms unfolding blocks_wf_def by (auto 0 3)
qed

lemma heap_bound: "b < N * 2 ^ (12 - d) \<Longrightarrow> d \<le> 12 \<Longrightarrow> Suc b * 2 ^ d \<le> N * 4096"
proof -
  assume "b < N * 2 ^ (12 - d)" and d: "d \<le> 12"
  then have "Suc b * 2 ^ d \<le> N * 2 ^ (12 - d) * 2 ^ d" by (intro mult_le_mono1) simp
  also have "\<dots> = N * 2 ^ (12 - d + d)" by (simp only: mult.assoc power_add)
  also have "\<dots> = N * 4096" using d by simp
  finally show ?thesis .
qed

lemma unat_blkid2mem:
  assumes "heap_ok N k" and "b < N * 2 ^ (12 - d)" and "d \<le> 12"
  shows "unat (blkid2mem d b k) = unat (km_start_heap k) + b * 2 ^ d"
proof -
  have le: "Suc b * 2 ^ d \<le> N * 4096" using assms(2,3) by (rule heap_bound)
  have "b * 2 ^ d < Suc b * 2 ^ d" by simp
  then have "unat (km_start_heap k) + b * 2 ^ d < 2 ^ 32"
    using le assms(1) unfolding heap_ok_def by linarith
  moreover have "blkid2mem d b k = word_of_nat (unat (km_start_heap k) + b * 2 ^ d)"
    by (simp add: blkid2mem_def mult.commute)
  ultimately show ?thesis by (simp only: unat_of_nat_32)
qed

lemma mem2blkid_blkid2mem:
  assumes "heap_ok N k" and "b < N * 2 ^ (12 - d)" and "d \<le> 12"
  shows "mem2blkid d (blkid2mem d b k) k = b"
proof -
  have le: "Suc b * 2 ^ d \<le> N * 4096" using assms(2,3) by (rule heap_bound)
  have "b * 2 ^ d < Suc b * 2 ^ d" by simp
  then have "b * 2 ^ d < 2 ^ 32" using le assms(1) unfolding heap_ok_def by linarith
  moreover have "blkid2mem d b k - km_start_heap k = word_of_nat (b * 2 ^ d)"
    by (simp add: blkid2mem_def mult.commute)
  ultimately have "unat (blkid2mem d b k - km_start_heap k) = b * 2 ^ d"
    by (simp only: unat_of_nat_32)
  then show ?thesis
    by (simp only: mem2blkid_def unat_drop_bit_eq) (simp add: drop_bit_eq_div)
qed

lemma blkid2mem_parent: "blkid2mem d (b - b mod 2) k = blkid2mem (Suc d) (b div 2) k"
proof -
  have "b - b mod 2 = 2 * (b div 2)" by (simp add: minus_mod_eq_mult_div)
  then show ?thesis by (simp add: blkid2mem_def)
qed

lemma blkid2mem_upper_half:
  "blkid2mem d (2 * p) k + 2 ^ d = blkid2mem d (Suc (2 * p)) k"
  by (simp add: blkid2mem_def algebra_simps)

lemma blkid2mem_lower_half: "blkid2mem (Suc d) p k = blkid2mem d (2 * p) k"
  by (simp add: blkid2mem_def)

lemma blkid2mem_cong: "km_start_heap k' = km_start_heap k \<Longrightarrow> blkid2mem d b k' = blkid2mem d b k"
  by (simp add: blkid2mem_def)

lemma mem2blkid_cong: "km_start_heap k' = km_start_heap k \<Longrightarrow> mem2blkid d m k' = mem2blkid d m k"
  by (simp add: mem2blkid_def)

lemma heap_ok_cong: "heap_ok N k \<Longrightarrow> km_start_heap k' = km_start_heap k \<Longrightarrow> heap_ok N k'"
  by (simp add: heap_ok_def)

lemma nblocks_double: "d < 12 \<Longrightarrow> N * 2 ^ (12 - d) = 2 * (N * 2 ^ (12 - Suc d) :: nat)"
proof -
  assume "d < 12"
  then have "12 - d = Suc (12 - Suc d)" by simp
  then show ?thesis by (simp only: power_Suc mult.left_commute)
qed

lemma block_in_marks: "N \<le> 32 * n \<Longrightarrow> b < N * 2 ^ (12 - d) \<Longrightarrow> b < 32 * nmarks n d"
  unfolding nmarks_def by (metis less_le_trans mult.assoc mult_le_mono1)

section \<open>Freeing and allocating\<close>

lemma buddy_invD:
  assumes "buddy_inv lo n N k"
  shows "lists_inv lo n k" and "heap_ok N k" and "N \<le> 32 * n" and "blocks_wf N (free_set lo n k)"
    and "6 \<le> lo"
  using assms by (auto simp: buddy_inv_def lists_inv_def layout_def)

text \<open>
  \<open>freed k k' d b\<close>: the state \<open>k'\<close> is \<open>k\<close> with the memory of the block added to the free memory.
\<close>

definition freed :: "nat \<Rightarrow> nat \<Rightarrow> nat \<Rightarrow> 'z kmem_scheme \<Rightarrow> 'z kmem_scheme \<Rightarrow> nat \<Rightarrow> nat \<Rightarrow> bool" where
  "freed lo n N k k' d b \<longleftrightarrow> buddy_inv lo n N k' \<and> km_start_heap k' = km_start_heap k
     \<and> free_units lo n k' = free_units lo n k \<union> blk_units (d, b)"

lemma freed_insertI:
  assumes inv: "buddy_inv lo n N k" and k': "lists_inv lo n k'"
      "free_set lo n k' = insert (d, b) (free_set lo n k)" "km_start_heap k' = km_start_heap k"
    and b: "b < N * 2 ^ (12 - d)" and disj: "blk_units (d, b) \<inter> free_units lo n k = {}"
    and buddy: "d = 12 \<or> (d, b XOR 1) \<notin> free_set lo n k"
  shows "freed lo n N k k' d b"
proof -
  note inv' = buddy_invD [OF inv]
  have "blocks_wf N (free_set lo n k')"
    unfolding k'(2) using inv'(4) b disj buddy by (intro blocks_wf_insert) (simp_all add: free_units_def)
  then show ?thesis
    using k' inv'(3) heap_ok_cong [OF inv'(2) k'(3)]
    by (simp add: freed_def buddy_inv_def free_units_def Un_commute)
qed

text \<open>The buddy of a block below the top order is a block of the heap, marked in the same word of the bitmap.\<close>

lemma xor_1_less: "b < 2 * M \<Longrightarrow> b XOR Suc 0 < 2 * M" for b M :: nat
  by (auto simp: xor_1_cases elim!: evenE)

lemma buddy_bounds:
  fixes b N :: nat
  assumes "d < 12" and "b < N * 2 ^ (12 - d)"
  shows "b XOR 1 < N * 2 ^ (12 - d)" and "(b XOR 1) div 32 = b div 32"
proof -
  show "b XOR 1 < N * 2 ^ (12 - d)" using assms(2) xor_1_less unfolding nblocks_double [OF assms(1)] by simp
  have "(b XOR 1) div 2 = b div 2" unfolding One_nat_def xor_1_cases by (auto elim!: oddE)
  then have "(b XOR 1) div 2 div 16 = b div 2 div 16" by simp
  then show "(b XOR 1) div 32 = b div 32" by (simp add: div_mult2_eq [symmetric])
qed

text \<open>A block whose buddy is in use, or of the top order, goes to the list of its order.\<close>

lemma kfree_mark:
  assumes bi: "buddy_inv lo n N k" and d: "lo \<le> d" "d \<le> 12" and b: "b < N * 2 ^ (12 - d)"
    and disj: "blk_units (d, b) \<inter> free_units lo n k = {}"
    and buddy: "d = 12 \<or> (d, b XOR 1) \<notin> free_set lo n k"
  shows "\<exists>k'. kfree_blk (blkid2mem d b k) d k = Ret () k' \<and> freed lo n N k k' d b"
proof -
  note inv = buddy_invD [OF bi]
  have bm: "b < 32 * nmarks n d" using inv(3) b by (rule block_in_marks)
  have nf: "(d, b) \<notin> free_set lo n k" using disj blk_units_nonempty [of d b] by (auto simp: free_units_def)
  obtain k' where k': "mark_blk d b k = Ret () k'" "lists_inv lo n k'"
      "free_set lo n k' = insert (d, b) (free_set lo n k)" "km_start_heap k' = km_start_heap k"
    using mark_blk_spec [OF inv(1) d bm nf] by blast
  have "\<not> available (bitmap (get_mark d (b div 32) k)) (b XOR 1)" if "d \<noteq> 12"
  proof -
    have lt: "d < 12" using d that by simp
    have "b XOR 1 < 32 * nmarks n d" using inv(3) buddy_bounds(1) [OF lt b] by (rule block_in_marks)
    then show ?thesis
      using mem_free_set [OF d, of "b XOR 1" n k] buddy that buddy_bounds(2) [OF lt b] by simp
  qed
  then have "kfree_blk (blkid2mem d b k) d k = Ret () k'"
    using k'(1) nf d mem_free_set [OF d bm, of k] mem2blkid_blkid2mem [OF inv(2) b d(2)]
    by (subst kfree_blk.simps) (auto simp: Let_def)
  moreover have "freed lo n N k k' d b" by (rule freed_insertI [OF bi k'(2-4) b disj buddy])
  ultimately show ?thesis by blast
qed

lemma kfree_blk_spec:
  assumes "buddy_inv lo n N k" and "lo \<le> d" "d \<le> 12" and "b < N * 2 ^ (12 - d)"
    and "blk_units (d, b) \<inter> free_units lo n k = {}"
  shows "\<exists>k'. kfree_blk (blkid2mem d b k) d k = Ret () k' \<and> freed lo n N k k' d b"
  using assms
proof (induction "12 - d" arbitrary: d b k)
  case 0
  then show ?case by (intro kfree_mark) simp_all
next
  case (Suc x)
  note inv = buddy_invD [OF Suc.prems(1)]
  define c where "c = b XOR 1"
  have d12: "d < 12" and d6: "6 \<le> d" using Suc.hyps(2) Suc.prems(2) inv(5) by auto
  note bud = buddy_bounds [OF d12 Suc.prems(4), folded c_def]
  show ?case
  proof (cases "(d, c) \<in> free_set lo n k")
    case False
    then show ?thesis using Suc.prems by (intro kfree_mark) (simp_all add: c_def)
  next
    case True
    have bm: "b < 32 * nmarks n d" "c < 32 * nmarks n d"
      using inv(3) Suc.prems(4) bud(1) by (auto intro: block_in_marks)
    have nf: "(d, b) \<notin> free_set lo n k"
      using Suc.prems(5) blk_units_nonempty [of d b] by (auto simp: free_units_def)
    obtain k1 where k1: "unmark_blk d c k = Ret () k1" "lists_inv lo n k1"
        "free_set lo n k1 = free_set lo n k - {(d, c)}" "km_start_heap k1 = km_start_heap k"
      using unmark_blk_spec [OF inv(1) True] by blast
    have inv1: "buddy_inv lo n N k1"
      using k1 inv(3,4) heap_ok_cong [OF inv(2) k1(4)] by (simp add: buddy_inv_def blocks_wf_remove)
    have U: "free_units lo n k = free_units lo n k1 \<union> blk_units (d, c)"
      using True by (auto simp: free_units_def k1(3))
    have disj: "blk_units (d, c) \<inter> free_units lo n k1 = {}"
      using blocks_wfD(2) [OF inv(4) True] by (auto simp: free_units_def k1(3))
    have par: "blk_units (Suc d, b div 2) = blk_units (d, b) \<union> blk_units (d, c)"
      using buddy_units [OF d6] by (simp add: c_def)
    have "\<exists>k'. kfree_blk (blkid2mem (Suc d) (b div 2) k1) (Suc d) k1 = Ret () k'
        \<and> freed lo n N k1 k' (Suc d) (b div 2)"
      using Suc.hyps(2) Suc.prems(2,4,5) d12 inv1 U disj par nblocks_double [OF d12, of N]
      by (intro Suc.hyps(1)) auto
    then obtain k' where k': "kfree_blk (blkid2mem (Suc d) (b div 2) k1) (Suc d) k1 = Ret () k'"
        "freed lo n N k1 k' (Suc d) (b div 2)" by blast
    have "kfree_blk (blkid2mem d b k) d k = Ret () k'"
      using k'(1) k1(1) nf True d12 bud(2) mem_free_set [OF Suc.prems(2,3) bm(1), of k]
        mem_free_set [OF Suc.prems(2,3) bm(2), of k] mem2blkid_blkid2mem [OF inv(2) Suc.prems(4,3)]
      by (subst kfree_blk.simps) (simp add: Let_def c_def blkid2mem_parent)
    with k' k1(4) U par show ?thesis by (auto simp: freed_def)
  qed
qed

lemma first_bit_Some: "(\<exists>i\<in>set is. bit bm i) \<Longrightarrow> \<exists>i\<in>set is. first_bit bm is = Some i \<and> bit bm i"
  by (induction "is") (auto simp: and_exp_eq_0_iff_not_bit)

lemma nonzero_bit: "(bm :: uint) \<noteq> 0 \<Longrightarrow> \<exists>i\<in>set [0..<32]. bit bm i"
proof -
  assume "bm \<noteq> 0"
  then obtain i where "bit bm i" by (auto simp: bit_eq_iff)
  with bit_imp_le_length [of bm i] show ?thesis by auto
qed

text \<open>
  \<open>taken k k' d b\<close>: the state \<open>k'\<close> is \<open>k\<close> with the memory of the block, which was free, taken out.
\<close>

definition taken :: "nat \<Rightarrow> nat \<Rightarrow> nat \<Rightarrow> 'z kmem_scheme \<Rightarrow> 'z kmem_scheme \<Rightarrow> nat \<Rightarrow> nat \<Rightarrow> bool" where
  "taken lo n N k k' d b \<longleftrightarrow> buddy_inv lo n N k' \<and> km_start_heap k' = km_start_heap k
     \<and> b < N * 2 ^ (12 - d) \<and> blk_units (d, b) \<subseteq> free_units lo n k
     \<and> free_units lo n k' = free_units lo n k - blk_units (d, b)"

lemma remove_free_block:
  assumes inv: "buddy_inv lo n N k" and free: "(d, b) \<in> free_set lo n k"
    and k': "lists_inv lo n k'" "free_set lo n k' = free_set lo n k - {(d, b)}"
      "km_start_heap k' = km_start_heap k"
  shows "taken lo n N k k' d b"
proof -
  note inv' = buddy_invD [OF inv]
  have "free_units lo n k' = free_units lo n k - blk_units (d, b)"
    using blocks_wfD(2) [OF inv'(4) _ free] free by (auto simp: free_units_def k'(2))
  then show ?thesis
    using k' inv'(3,4) free blocks_wfD(1) [OF inv'(4) free] heap_ok_cong [OF inv'(2) k'(3)]
    by (auto simp: taken_def buddy_inv_def free_units_def intro: blocks_wf_remove)
qed

lemma get_blk_spec:
  assumes inv: "buddy_inv lo n N k" and d: "lo \<le> d" "d \<le> 12"
    and h: "head (get_order_rec d k) \<noteq> NIL"
  shows "\<exists>b k'. get_blk d k = Ret (blkid2mem d b k) k' \<and> taken lo n N k k' d b"
proof -
  note inv' = buddy_invD [OF inv]
  from inv'(1) d obtain L where L: "linked n d k L" "set L = nonempty_marks n d k"
    by (rule lists_invE)
  from h L obtain j L' where LC: "L = j # L'" by (cases L) (auto simp: linked_def)
  have j: "j < nmarks n d" "j < 65535"
    using linked_bounds [OF lists_inv_layout [OF inv'(1)] d(1) L(1)] LC by auto
  have hj: "unat (head (get_order_rec d k)) = j" using L j LC by (simp add: linked_def)
  have ne: "bitmap (get_mark d j k) \<noteq> 0" using L(2) LC by (auto simp: nonempty_marks_def)
  from first_bit_Some [OF nonzero_bit [OF ne]] obtain i where
    i: "i < 32" "first_bit (bitmap (get_mark d j k)) [0..<32] = Some i" "bit (bitmap (get_mark d j k)) i"
    by auto
  have free: "(d, j * 32 + i) \<in> free_set lo n k"
    using d j i by (auto simp: free_set_def)
  obtain k' where k': "unmark_blk d (j * 32 + i) k = Ret () k'" "lists_inv lo n k'"
      "free_set lo n k' = free_set lo n k - {(d, j * 32 + i)}" "km_start_heap k' = km_start_heap k"
    using unmark_blk_spec [OF inv'(1) free] by blast
  have "get_blk d k = Ret (blkid2mem d (j * 32 + i) k) k'"
    using hj ne i k' by (simp add: get_blk_def blkid2mem_cong [OF k'(4)])
  with remove_free_block [OF inv free k'(2-4)] show ?thesis by blast
qed

lemma empty_list_no_block:
  assumes "lists_inv lo n k" "lo \<le> d" "d \<le> 12" "head (get_order_rec d k) = NIL"
  shows "(d, b) \<notin> free_set lo n k"
proof
  assume f: "(d, b) \<in> free_set lo n k"
  from assms(1-3) obtain L where L: "linked n d k L" "set L = nonempty_marks n d k"
    by (rule lists_invE)
  have "b div 32 \<in> nonempty_marks n d k" using f by (auto simp: free_set_def nonempty_marks_def)
  with L obtain j L' where "L = j # L'" by (cases L) auto
  moreover from this have "j < 65535"
    using linked_bounds [OF lists_inv_layout [OF assms(1)] assms(2) L(1)] by auto
  ultimately show False using L(1) assms(4) by (simp add: linked_def idx_not_NIL)
qed

lemma blkid2mem_nonnull:
  assumes "heap_ok N k" and "b < N * 2 ^ (12 - d)" and "d \<le> 12"
  shows "blkid2mem d b k \<noteq> 0"
  using unat_blkid2mem [OF assms] assms(1) by (auto simp: heap_ok_def)

lemma kmalloc_blk_spec:
  assumes "buddy_inv lo n N k" and "lo \<le> d" "d \<le> 12"
  shows "(\<exists>b k'. kmalloc_blk d k = Ret (blkid2mem d b k) k' \<and> taken lo n N k k' d b)
    \<or> (kmalloc_blk d k = Ret 0 k \<and> (\<forall>e b. d \<le> e \<longrightarrow> (e, b) \<notin> free_set lo n k))"
  using assms
proof (induction "12 - d" arbitrary: d)
  case 0
  note inv = buddy_invD [OF "0.prems"(1)]
  show ?case
  proof (cases "head (get_order_rec d k) = NIL")
    case True
    then have "kmalloc_blk d k = Ret 0 k" using 0 by (subst kmalloc_blk.simps) simp
    moreover have "(e, b) \<notin> free_set lo n k" if "d \<le> e" for e b
      using empty_list_no_block [OF inv(1) "0.prems"(2,3) True] that 0 by (auto simp: free_set_def)
    ultimately show ?thesis by blast
  next
    case False
    with get_blk_spec [OF "0.prems" False] "0.prems" show ?thesis
      by (subst (1 2) kmalloc_blk.simps) auto
  qed
next
  case (Suc x)
  note inv = buddy_invD [OF Suc.prems(1)]
  have d12: "d < 12" and d6: "6 \<le> d" using Suc.hyps(2) Suc.prems(2) inv(5) by auto
  show ?case
  proof (cases "head (get_order_rec d k) = NIL")
    case False
    with get_blk_spec [OF Suc.prems False] Suc.prems show ?thesis
      by (subst (1 2) kmalloc_blk.simps) auto
  next
    case True
    have IH: "(\<exists>b k'. kmalloc_blk (Suc d) k = Ret (blkid2mem (Suc d) b k) k' \<and> taken lo n N k k' (Suc d) b)
      \<or> (kmalloc_blk (Suc d) k = Ret 0 k \<and> (\<forall>e b. Suc d \<le> e \<longrightarrow> (e, b) \<notin> free_set lo n k))"
      using Suc.hyps(2) Suc.prems d12 by (intro Suc.hyps(1)) auto
    then show ?thesis
    proof (elim disjE exE conjE)
      fix p k1 assume run: "kmalloc_blk (Suc d) k = Ret (blkid2mem (Suc d) p k) k1"
        and t: "taken lo n N k k1 (Suc d) p"
      have sh: "km_start_heap k1 = km_start_heap k" using t by (simp add: taken_def)
      have p2: "N * 2 ^ (12 - d) = 2 * (N * 2 ^ (12 - Suc d))"
        using d12 by (rule nblocks_double)
      have "p < N * 2 ^ (12 - Suc d)" using t by (simp only: taken_def)
      then have bnd: "2 * p + 1 < N * 2 ^ (12 - d)" unfolding p2 by linarith
      have split: "blk_units (Suc d, p) = blk_units (d, 2 * p) \<union> blk_units (d, 2 * p + 1)"
        by (rule blk_units_split [OF d6])
      have apart: "blk_units (d, 2 * p) \<inter> blk_units (d, 2 * p + 1) = {}"
        by (rule blk_units_same_order) simp
      have "blk_units (d, 2 * p + 1) \<inter> free_units lo n k1 = {}"
        using t split by (auto simp: taken_def)
      from kfree_blk_spec [OF _ Suc.prems(2,3) bnd this] t obtain k' where
        k': "kfree_blk (blkid2mem d (2 * p + 1) k1) d k1 = Ret () k'" "freed lo n N k1 k' d (2 * p + 1)"
        by (auto simp: taken_def)
      have "blkid2mem (Suc d) p k \<noteq> 0"
        using t inv(2) d12 by (intro blkid2mem_nonnull) (auto simp: taken_def)
      then have "kmalloc_blk d k = Ret (blkid2mem d (2 * p) k) k'"
        using True d12 run k'(1)
        by (subst kmalloc_blk.simps)
          (simp add: blkid2mem_upper_half blkid2mem_lower_half blkid2mem_cong [OF sh])
      moreover have "taken lo n N k k' d (2 * p)"
        using t k'(2) split apart bnd by (auto simp: taken_def freed_def)
      ultimately show ?thesis by blast
    next
      assume run: "kmalloc_blk (Suc d) k = Ret 0 k"
        and none: "\<forall>e b. Suc d \<le> e \<longrightarrow> (e, b) \<notin> free_set lo n k"
      have "kmalloc_blk d k = Ret 0 k"
        using True d12 run by (subst kmalloc_blk.simps) simp
      moreover have "(e, b) \<notin> free_set lo n k" if "d \<le> e" for e b
        using empty_list_no_block [OF inv(1) Suc.prems(2,3) True] that none
        by (cases "e = d") auto
      ultimately show ?thesis by blast
    qed
  qed
qed

section \<open>Initialisation\<close>

abbreviation empty_mark :: mark where
  "empty_mark \<equiv> \<lparr>lnks = LNKS NIL NIL, bitmap = 0\<rparr>"

lemma clear_marks_run:
  "clear_marks d n k = Ret () (k\<lparr>km_marks := (\<lambda>j.
     if mark_index d 0 k \<le> j \<and> j < mark_index d 0 k + n then empty_mark else km_marks k j)\<rparr>)"
proof (induction n)
  case 0
  have "(\<lambda>j. if mark_index d 0 k \<le> j \<and> j < mark_index d 0 k + 0 then empty_mark else km_marks k j) = km_marks k"
    by (auto simp: fun_eq_iff)
  then show ?case by (simp add: clear_marks_def)
next
  case (Suc n)
  have "clear_marks d (Suc n) k =
      kbind (clear_marks d n) (\<lambda>_. kbind (kmod (set_mark d n empty_mark)) (\<lambda>_. kreturn ())) k"
    by (simp add: clear_marks_def kfor_append)
  with Suc show ?case
    by (auto simp: set_mark_def mark_index_def get_order_rec_def fun_eq_iff)
qed

lemma clear_marks_frame:
  "mark_index d i (k\<lparr>km_marks := f\<rparr>) = mark_index d i k"
  "get_order_rec d (k\<lparr>km_marks := f\<rparr>) = get_order_rec d k"
  by (simp_all add: mark_index_def get_order_rec_def)

text \<open>
  The state after the loop over the orders \<open>m - 1, \<dots>, 0\<close>, entered with \<open>T\<close> marks laid out and
  \<open>c\<close> marks for the next order.
\<close>

definition laid_out :: "nat \<Rightarrow> nat \<Rightarrow> nat \<Rightarrow> 'z kmem_scheme \<Rightarrow> 'z kmem_scheme \<Rightarrow> bool" where
  "laid_out m T c k k' \<longleftrightarrow>
     (\<forall>i<m. head (km_orders k' i) = NIL \<and> unat (offset (km_orders k' i)) = T + c * (2 ^ (m - 1 - i) - 1))
     \<and> (\<forall>i\<ge>m. km_orders k' i = km_orders k i)
     \<and> (\<forall>j. T \<le> j \<longrightarrow> j < T + c * (2 ^ m - 1) \<longrightarrow> km_marks k' j = empty_mark)
     \<and> (\<forall>j. j < T \<longrightarrow> km_marks k' j = km_marks k j)"

lemma double_pow_minus_1: "c * (2 ^ Suc m - 1) = c + 2 * c * (2 ^ m - 1 :: nat)"
proof -
  obtain q where "(2::nat) ^ m = Suc q" by (cases "(2::nat) ^ m") auto
  then show ?thesis by simp
qed

lemma init_orders_run:
  "unat tot + unat c * (2 ^ m - 1) < 2 ^ 32 \<Longrightarrow> unat c * 2 ^ m < 2 ^ 32 \<Longrightarrow>
     \<exists>k'. init_orders (rev [0..<m]) tot c k = Ret (tot + c * (2 ^ m - 1)) k'
       \<and> laid_out m (unat tot) (unat c) k k' \<and> km_start k' = km_start k
       \<and> km_start_heap k' = km_start_heap k \<and> km_end k' = km_end k"
proof (induction m arbitrary: tot c k)
  case 0
  then show ?case by (simp add: laid_out_def)
next
  case (Suc m)
  define k1 where "k1 = k\<lparr>km_orders := (km_orders k)(m := \<lparr>head = NIL, offset = tot\<rparr>)\<rparr>"
  define k2 where "k2 = k1\<lparr>km_marks := (\<lambda>j. if unat tot \<le> j \<and> j < unat tot + unat c then empty_mark else km_marks k j)\<rparr>"
  have idx: "mark_index (m + 6) 0 k1 = unat tot"
    by (simp add: mark_index_def get_order_rec_def k1_def)
  have e1: "unat c * (2 ^ Suc m - 1) = unat c + 2 * unat c * (2 ^ m - 1)"
    by (rule double_pow_minus_1)
  have e2: "unat c * 2 ^ Suc m = 2 * unat c * 2 ^ m" by simp
  have "1 \<le> (2::nat) ^ m" by simp
  then have "2 * unat c \<le> 2 * unat c * 2 ^ m" by simp
  then have "2 * unat c < 2 ^ 32" "unat tot + unat c < 2 ^ 32"
    using Suc.prems unfolding e1 e2 by linarith+
  then have c2: "unat (push_bit 1 c) = 2 * unat c" and tc: "unat (tot + c) = unat tot + unat c"
    by (simp_all add: push_bit_eq_mult unat_word_ariths)
  have "unat (tot + c) + unat (push_bit 1 c) * (2 ^ m - 1) < 2 ^ 32"
    and "unat (push_bit 1 c) * 2 ^ m < 2 ^ 32"
    using Suc.prems unfolding c2 tc e1 e2 by simp_all
  from Suc.IH [OF this, of k2] obtain k' where
    k': "init_orders (rev [0..<m]) (tot + c) (push_bit 1 c) k2 =
          Ret (tot + c + push_bit 1 c * (2 ^ m - 1)) k'"
      "laid_out m (unat tot + unat c) (2 * unat c) k2 k'" "km_start k' = km_start k2"
      "km_start_heap k' = km_start_heap k2" "km_end k' = km_end k2"
    unfolding c2 tc by blast
  have k2': "k1\<lparr>km_marks := (\<lambda>j. if unat tot \<le> j \<and> j < unat tot + unat c then empty_mark
      else km_marks k1 j)\<rparr> = k2"
  proof -
    have km: "km_marks k1 = km_marks k" by (simp add: k1_def)
    show ?thesis unfolding k2_def km ..
  qed
  have "init_orders (rev [0..<Suc m]) tot c k =
      init_orders (rev [0..<m]) (tot + c) (push_bit 1 c) k2"
    by (simp add: k1_def [symmetric] clear_marks_run idx k2')
  also have "\<dots> = Ret (tot + c * (2 ^ Suc m - 1)) k'"
    unfolding k'(1) by (simp add: algebra_simps)
  finally have "init_orders (rev [0..<Suc m]) tot c k = Ret (tot + c * (2 ^ Suc m - 1)) k'" .
  moreover have "laid_out (Suc m) (unat tot) (unat c) k k'"
  proof -
    have off: "unat tot + unat c + 2 * unat c * (2 ^ (m - 1 - i) - 1) =
        unat tot + unat c * (2 ^ (Suc m - 1 - i) - 1)" if "i < m" for i
    proof -
      have "Suc m - 1 - i = Suc (m - 1 - i)" using that by simp
      then show ?thesis by (simp only: double_pow_minus_1 add.assoc)
    qed
    have "unat (offset (km_orders k' i)) = unat tot + unat c * (2 ^ (Suc m - 1 - i) - 1)
        \<and> head (km_orders k' i) = NIL" if "i < Suc m" for i
      using k'(2) that off [of i]
      by (cases "i = m") (auto simp: laid_out_def k2_def k1_def)
    moreover have "km_marks k' j = empty_mark"
      if "unat tot \<le> j" "j < unat tot + unat c * (2 ^ Suc m - 1)" for j
      using k'(2) that unfolding e1 by (cases "j < unat tot + unat c") (auto simp: laid_out_def k2_def)
    ultimately show ?thesis
      using k'(2) by (auto simp: laid_out_def k2_def k1_def)
  qed
  ultimately show ?case using k' by (auto simp: k2_def k1_def)
qed

text \<open>The freshly laid out allocator, before any memory is freed into it.\<close>

lemma laid_out_inv:
  assumes lay: "laid_out 7 0 n k k'" and lo: "6 \<le> lo" "lo \<le> 12" "nmarks n lo \<le> 65535"
  shows "lists_inv lo n k'" and "free_set lo n k' = {}"
proof -
  have off: "unat (offset (get_order_rec d k')) = n * (2 ^ (12 - d) - 1)"
    and hd: "head (get_order_rec d k') = NIL" if "6 \<le> d" "d \<le> 12" for d
  proof -
    have "d - 6 < 7" "7 - 1 - (d - 6) = 12 - d" using that by auto
    with lay show "unat (offset (get_order_rec d k')) = n * (2 ^ (12 - d) - 1)"
      "head (get_order_rec d k') = NIL"
      by (auto simp: laid_out_def get_order_rec_def)
  qed
  have zero: "bitmap (get_mark d i k') = 0" if "6 \<le> d" "d \<le> 12" "i < nmarks n d" for d i
  proof -
    have "mark_index d i k' < n * (2 ^ (12 - d) - 1) + n * 2 ^ (12 - d)"
      using off [OF that(1,2)] that(3) by (simp add: mark_index_def nmarks_def)
    also have "\<dots> = n * (2 ^ Suc (12 - d) - 1)"
      by (simp add: diff_mult_distrib2)
    also have "\<dots> \<le> n * (2 ^ 7 - 1)"
      using that(1) by (intro mult_le_mono2 diff_le_mono power_increasing) auto
    finally have "mark_index d i k' < 0 + n * (2 ^ 7 - 1)" by simp
    with lay have "km_marks k' (mark_index d i k') = empty_mark"
      unfolding laid_out_def by blast
    then show ?thesis by (simp add: get_mark_def)
  qed
  have "layout lo n k'" using lo off by (auto simp: layout_def)
  moreover have "linked n d k' [] \<and> set [] = nonempty_marks n d k'" if "lo \<le> d" "d \<le> 12" for d
    using that lo hd zero by (auto simp: linked_def nonempty_marks_def)
  ultimately show "lists_inv lo n k'" by (auto simp: lists_inv_def)
  show "free_set lo n k' = {}"
    using lo zero by (auto simp: free_set_def dest: div32_less)
qed

lemma heap_mem_aligned:
  assumes "heap_ok N k" and "b < N * 2 ^ (12 - d)" and "d \<le> 12"
  shows "blkid2mem d b k AND (push_bit d 1 - 1) = 0"
proof -
  have "unat (blkid2mem d b k) mod 2 ^ d = 0"
  proof -
    have "(2::nat) ^ d dvd 4096"
      using assms(3) le_imp_power_dvd [of d 12 "2::nat"] by simp
    moreover have "4096 dvd unat (km_start_heap k)" using assms(1) by (auto simp: heap_ok_def)
    ultimately have "2 ^ d dvd unat (km_start_heap k)" by (rule dvd_trans)
    then show ?thesis by (simp add: unat_blkid2mem [OF assms] mod_eq_0_iff_dvd)
  qed
  then have "take_bit d (unat (blkid2mem d b k)) = 0" by (simp add: take_bit_eq_mod)
  then have "take_bit d (blkid2mem d b k) = 0"
    by (metis unsigned_take_bit_eq unsigned_eq_0_iff)
  then show ?thesis
    by (simp add: take_bit_eq_mask mask_eq_exp_minus_1)
qed

lemma kfree_run:
  assumes "buddy_inv lo n N k" and "lo \<le> d" "d \<le> 12" and "b < N * 2 ^ (12 - d)"
    and "blk_units (d, b) \<inter> free_units lo n k = {}"
  shows "\<exists>k'. kfree (blkid2mem d b k) (int d) k = Ret () k' \<and> freed lo n N k k' d b"
  using kfree_blk_spec [OF assms] heap_mem_aligned [OF buddy_invD(2) [OF assms(1)] assms(4,3)]
    buddy_invD(5) [OF assms(1)] assms(2,3)
  by (simp add: kfree_def)

lemma kmalloc_run:
  assumes "buddy_inv lo n N k" and "lo \<le> d" "d \<le> 12"
  shows "(\<exists>b k'. kmalloc (int d) k = Ret (blkid2mem d b k) k' \<and> taken lo n N k k' d b)
    \<or> (kmalloc (int d) k = Ret 0 k \<and> (\<forall>e b. d \<le> e \<longrightarrow> (e, b) \<notin> free_set lo n k))"
  using kmalloc_blk_spec [OF assms] buddy_invD(5) [OF assms(1)] assms(2,3)
  by (simp add: kmalloc_def)

text \<open>The last loop of \<^verbatim>\<open>kmem_init2\<close>: free the first \<open>m\<close> pages into an empty allocator.\<close>

lemma free_pages_run:
  assumes "buddy_inv lo n N k" and "free_units lo n k = {}" and "m \<le> N"
  shows "\<exists>k'. kfor (\<lambda>i. kfree i 12) (map (\<lambda>j. km_start_heap k + word_of_nat (j * 4096)) [0..<m]) k = Ret () k'
    \<and> buddy_inv lo n N k' \<and> km_start_heap k' = km_start_heap k
    \<and> free_units lo n k' = {u. u div 64 < m}"
  using assms(3)
proof (induction m)
  case 0
  with assms show ?case by simp
next
  case (Suc m)
  from Suc obtain k1 where
    k1: "kfor (\<lambda>i. kfree i 12) (map (\<lambda>j. km_start_heap k + word_of_nat (j * 4096)) [0..<m]) k = Ret () k1"
      "buddy_inv lo n N k1" "km_start_heap k1 = km_start_heap k" "free_units lo n k1 = {u. u div 64 < m}"
    by auto
  have "lo \<le> 12" using k1(2) by (simp add: buddy_inv_def lists_inv_def layout_def)
  then obtain k' where k': "kfree (blkid2mem 12 m k1) 12 k1 = Ret () k'" "freed lo n N k1 k' 12 m"
    using kfree_run [OF k1(2), of 12 m] Suc.prems k1(4) by (auto simp: blk_units_def)
  have "blkid2mem 12 m k1 = km_start_heap k + word_of_nat (m * 4096)"
    by (simp add: blkid2mem_def k1(3))
  with k1 k' show ?case
    by (auto simp: kfor_append freed_def blk_units_def)
qed

text \<open>Rounding up to a power of two, when the sum does not wrap.\<close>

lemma unat_align_up:
  assumes "unat x + 2 ^ m \<le> 2 ^ 32" and "m < 32"
  shows "unat (align_up x (2 ^ m)) = (unat x + 2 ^ m - 1) div 2 ^ m * 2 ^ m"
proof -
  have "unat (x + (2 ^ m - 1)) = unat x + (2 ^ m - 1)"
    using assms unat_exp_minus_1_32 [of m] by (simp add: unat_word_ariths)
  then show ?thesis
    by (simp add: align_up_def add_diff_eq [symmetric] mask_eq_exp_minus_1 [symmetric] unat_and_not_mask)
qed

lemma unat_align_dn: "m < 32 \<Longrightarrow> unat (align_dn x (2 ^ m)) = unat x div 2 ^ m * 2 ^ m"
  by (simp add: align_dn_def mask_eq_exp_minus_1 [symmetric] unat_and_not_mask)

text \<open>
  \<^verbatim>\<open>kmem_init2\<close> on a page-aligned end that leaves room for the marks: the heap starts on the first
  page boundary after the marks, ends at \<open>vend\<close>, and all of it is free.
\<close>

definition fresh_heap :: "nat \<Rightarrow> nat \<Rightarrow> uint \<Rightarrow> uint \<Rightarrow> 'z kmem_scheme \<Rightarrow> bool" where
  "fresh_heap lo n vstart vend k \<longleftrightarrow>
     (let N = (unat vend - unat (km_start_heap k)) div 4096
      in buddy_inv lo n N k \<and> free_units lo n k = {u. u div 64 < N}
         \<and> unat (km_start_heap k) + N * 4096 = unat vend
         \<and> unat vstart + n * 1016 \<le> unat (km_start_heap k)
         \<and> unat (km_start_heap k) < unat vstart + n * 1016 + 4096)"

lemma kmem_init2_run:
  assumes n: "n = unat (drop_bit 17 (vend - vstart)) + 1" and lo: "6 \<le> lo" "lo \<le> 12" "nmarks n lo \<le> 65535"
    and al: "unat vend mod 4096 = 0" and room: "unat vstart + n * 1016 + 4095 < unat vend"
  shows "\<exists>k'. kmem_init2 vstart vend k = Ret () k' \<and> fresh_heap lo n vstart vend k'"
proof -
  define c where "c = drop_bit 17 (vend - vstart) + (1::uint)"
  have vlt: "unat vend < 2 ^ 32" by (rule unat_less_32)
  have len: "unat (vend - vstart) = unat vend - unat vstart"
    using room by (simp add: unat_sub word_le_nat_alt)
  have nlt: "n = (unat vend - unat vstart) div 2 ^ 17 + 1"
    by (simp add: n unat_drop_bit_32 len)
  then have n15: "n < 2 ^ 16" using vlt by (simp add: div_less_iff_less_mult)
  have c: "unat c = n"
    using n15 n by (simp add: c_def unat_word_ariths)
  define k0 where "k0 = k\<lparr>km_start := vstart, km_end := vend\<rparr>"
  from init_orders_run [of 0 c 7 k0] n15 c obtain k1 where
    k1: "init_orders (rev [0..<7]) 0 c k0 = Ret (c * 127) k1" "laid_out 7 0 n k0 k1"
    by auto
  define h where "h = align_up (vstart + c * 127 * 8) (2 ^ 12)"
  have base: "unat (vstart + c * 127 * 8) = unat vstart + n * 1016"
  proof -
    have "n * 1016 < 2 ^ 32" using n15 by simp
    then have "unat (c * 127 * 8) = n * 1016"
      using c by (simp add: mult.assoc unat_word_ariths)
    then show ?thesis using room vlt by (simp add: unat_word_ariths)
  qed
  have h: "unat h = (unat vstart + n * 1016 + 4095) div 4096 * 4096"
    using unat_align_up [of "vstart + c * 127 * 8" 12] room vlt unfolding h_def base by simp
  define N where "N = (unat vend - unat h) div 4096"
  obtain q where q: "unat vend = 4096 * q" using al by auto
  have hle: "unat h \<le> unat vend" using h room by simp
  have hN: "unat h + N * 4096 = unat vend"
    using hle by (simp add: N_def q h)
  define k2 where "k2 = k1\<lparr>km_start_heap := h\<rparr>"
  have lay: "laid_out 7 0 n k0 k2" using k1(2) by (simp add: laid_out_def k2_def)
  have hge: "unat vstart + n * 1016 \<le> unat h" "unat h < unat vstart + n * 1016 + 4096"
    unfolding h by simp_all
  have "N \<le> 32 * n"
  proof -
    have "N * 4096 \<le> unat vend - unat vstart" using hN hge by linarith
    then show ?thesis using nlt by simp
  qed
  moreover have "heap_ok N k2"
    using hN vlt hge(1) nlt by (simp add: heap_ok_def k2_def h)
  ultimately have inv: "buddy_inv lo n N k2" and none: "free_units lo n k2 = {}"
    using laid_out_inv [OF lay lo] by (simp_all add: buddy_inv_def blocks_wf_def free_units_def)
  have blocks: "heap_blocks h vend = map (\<lambda>j. km_start_heap k2 + word_of_nat (j * 4096)) [0..<N]"
  proof -
    have "(unat vend - unat h + 4095) div 4096 = N" using hN by auto
    then show ?thesis by (simp add: heap_blocks_def k2_def)
  qed
  from free_pages_run [OF inv none order_refl] obtain k' where
    k': "kfor (\<lambda>i. kfree i 12) (heap_blocks h vend) k2 = Ret () k'" "buddy_inv lo n N k'"
      "km_start_heap k' = h" "free_units lo n k' = {u. u div 64 < N}"
    unfolding blocks by (auto simp: k2_def)
  have "kmem_init2 vstart vend k = Ret () k'"
    using k1(1) k'(1)
    by (simp add: kmem_init2_def Let_def k0_def [symmetric] c_def [symmetric] push_bit_eq_mult
        k2_def h_def)
  then show ?thesis
    using k'(2-4) hN hge by (simp add: fresh_heap_def Let_def N_def)
qed

end
