(* ===== verification/Buddy_Spec.thy ===== *)
theory Buddy_Spec
  imports Buddy_Proofs
begin

unbundle bit_operations_syntax

text \<open>
  The contract of the buddy allocator, in terms of memory addresses: the locale \<open>allocator\<close> states
  what the rest of the kernel relies on, its clients' invariant is proved once inside it, and it is
  interpreted on \<^verbatim>\<open>kmalloc\<close> and \<^verbatim>\<open>kfree\<close>. The properties of the allocator follow: allocation,
  freeing, every run of a client, the start-up of the heap, and the rounding of sizes to orders.
\<close>

section \<open>The interface of a memory allocator\<close>

definition extent :: "uint \<Rightarrow> nat \<Rightarrow> nat set" where
  "extent p d = {unat p..<unat p + 2 ^ d}"

locale allocator =
  fixes alloc :: "nat \<Rightarrow> ('s, uint) kop"
    and dealloc :: "uint \<Rightarrow> nat \<Rightarrow> ('s, unit) kop"
    and good :: "'s \<Rightarrow> bool"
    and avail :: "'s \<Rightarrow> nat set"
    and order_ok :: "nat \<Rightarrow> bool"
    and block_ok :: "uint \<Rightarrow> nat \<Rightarrow> bool"
  assumes alloc_law: "good s \<Longrightarrow> order_ok d \<Longrightarrow>
      \<exists>p s'. alloc d s = Ret p s' \<and> good s' \<and>
        (if p = 0 then s' = s
         else block_ok p d \<and> extent p d \<subseteq> avail s \<and> avail s' = avail s - extent p d)"
    and dealloc_law: "good s \<Longrightarrow> order_ok d \<Longrightarrow> block_ok p d \<Longrightarrow> extent p d \<inter> avail s = {} \<Longrightarrow>
      \<exists>s'. dealloc p d s = Ret () s' \<and> good s' \<and> avail s' = avail s \<union> extent p d"
begin

text \<open>
  A client that holds the blocks \<open>A\<close> of the heap \<open>H\<close>: they are pairwise disjoint, disjoint from the
  free memory, and together with it they make up the whole heap.
\<close>

definition holds :: "nat set \<Rightarrow> (uint \<times> nat) set \<Rightarrow> 's \<Rightarrow> bool" where
  "holds H A s \<longleftrightarrow> good s
     \<and> (\<forall>(p, d)\<in>A. order_ok d \<and> block_ok p d \<and> extent p d \<inter> avail s = {})
     \<and> (\<forall>x\<in>A. \<forall>y\<in>A. x \<noteq> y \<longrightarrow> extent (fst x) (snd x) \<inter> extent (fst y) (snd y) = {})
     \<and> avail s \<union> (\<Union>(p, d)\<in>A. extent p d) = H"

lemma holds_alloc:
  assumes h: "holds H A s" and d: "order_ok d" and r: "alloc d s = Ret p s'" "p \<noteq> 0"
  shows "holds H (insert (p, d) A) s'"
    and "\<And>q e. (q, e) \<in> A \<Longrightarrow> extent p d \<inter> extent q e = {}"
proof -
  have good: "good s" using h by (simp add: holds_def)
  from alloc_law [OF good d] r have n: "good s'" "block_ok p d" "extent p d \<subseteq> avail s"
    "avail s' = avail s - extent p d" by auto
  show new: "extent p d \<inter> extent q e = {}" if "(q, e) \<in> A" for q e
    using h that n(3) by (fastforce simp: holds_def)
  have "avail s' \<union> (\<Union>(p, d)\<in>insert (p, d) A. extent p d) = H"
    using h n(3,4) by (auto simp: holds_def)
  moreover have "\<forall>x\<in>insert (p, d) A. \<forall>y\<in>insert (p, d) A. x \<noteq> y \<longrightarrow>
      extent (fst x) (snd x) \<inter> extent (fst y) (snd y) = {}"
  proof (intro ballI impI)
    fix x y assume "x \<in> insert (p, d) A" "y \<in> insert (p, d) A" "x \<noteq> y"
    then consider "x = (p, d)" "y \<in> A" | "y = (p, d)" "x \<in> A" | "x \<in> A" "y \<in> A" by blast
    then show "extent (fst x) (snd x) \<inter> extent (fst y) (snd y) = {}"
      using h new [of "fst y" "snd y"] new [of "fst x" "snd x"] \<open>x \<noteq> y\<close>
      by cases (simp_all add: Int_commute holds_def)
  qed
  moreover have "\<forall>(q, e)\<in>insert (p, d) A. order_ok e \<and> block_ok q e \<and> extent q e \<inter> avail s' = {}"
    using h d n by (auto simp: holds_def)
  ultimately show "holds H (insert (p, d) A) s'"
    using n(1) by (simp add: holds_def)
qed

lemma holds_dealloc:
  assumes h: "holds H A s" and x: "(p, d) \<in> A"
  shows "\<exists>s'. dealloc p d s = Ret () s' \<and> holds H (A - {(p, d)}) s'"
proof -
  have pre: "good s" "order_ok d" "block_ok p d" "extent p d \<inter> avail s = {}"
    using h x by (auto simp: holds_def)
  from dealloc_law [OF this] obtain s' where
    s': "dealloc p d s = Ret () s'" "good s'" "avail s' = avail s \<union> extent p d" by blast
  have apart: "extent p d \<inter> extent q e = {}" if "(q, e) \<in> A" "(q, e) \<noteq> (p, d)" for q e
    using h x that unfolding holds_def by force
  have "avail s' \<union> (\<Union>(p, d)\<in>A - {(p, d)}. extent p d) = H"
    using h x s'(3) by (auto simp: holds_def)
  moreover have "extent q e \<inter> avail s' = {}" if "(q, e) \<in> A - {(p, d)}" for q e
    using h that apart [of q e] s'(3) by (fastforce simp: holds_def)
  ultimately have "holds H (A - {(p, d)}) s'"
    using h s'(2) unfolding holds_def by blast
  with s'(1) show ?thesis by blast
qed

lemma alloc_total: "holds H A s \<Longrightarrow> order_ok d \<Longrightarrow> \<exists>p s'. alloc d s = Ret p s'"
  using alloc_law [of s d] by (auto simp: holds_def)

lemma holds_alloc_fail:
  "holds H A s \<Longrightarrow> order_ok d \<Longrightarrow> alloc d s = Ret 0 s' \<Longrightarrow> s' = s"
  using alloc_law [of s d] by (auto simp: holds_def)

lemma holds_disjoint:
  "holds H A s \<Longrightarrow> x \<in> A \<Longrightarrow> y \<in> A \<Longrightarrow> x \<noteq> y \<Longrightarrow> extent (fst x) (snd x) \<inter> extent (fst y) (snd y) = {}"
  by (simp add: holds_def)

text \<open>A block that is allocated and freed at once leaves the free memory as it was.\<close>

lemma alloc_dealloc:
  assumes "good s" and "order_ok d" and "alloc d s = Ret p s'" and "p \<noteq> 0"
  shows "\<exists>s''. dealloc p d s' = Ret () s'' \<and> good s'' \<and> avail s'' = avail s"
proof -
  from alloc_law [OF assms(1,2)] assms(3,4)
  have "good s'" "block_ok p d" "extent p d \<subseteq> avail s" "avail s' = avail s - extent p d" by auto
  moreover then have "extent p d \<inter> avail s' = {}" by blast
  ultimately show ?thesis using dealloc_law [of s' d p] assms(2) by auto
qed

end

section \<open>The buddy allocator is an allocator\<close>

text \<open>The free memory of a state, in bytes.\<close>

definition free_bytes :: "nat \<Rightarrow> nat \<Rightarrow> 'z kmem_scheme \<Rightarrow> nat set" where
  "free_bytes lo n k = {a. unat (km_start_heap k) \<le> a \<and> (a - unat (km_start_heap k)) div 64 \<in> free_units lo n k}"

definition heap_at :: "nat \<Rightarrow> nat \<Rightarrow> nat \<Rightarrow> uint \<Rightarrow> 'z kmem_scheme \<Rightarrow> bool" where
  "heap_at lo n N h k \<longleftrightarrow> buddy_inv lo n N k \<and> km_start_heap k = h"

definition heap_block :: "nat \<Rightarrow> uint \<Rightarrow> uint \<Rightarrow> nat \<Rightarrow> bool" where
  "heap_block N h p d \<longleftrightarrow> unat h \<le> unat p \<and> unat p + 2 ^ d \<le> unat h + N * 4096 \<and> unat p mod 2 ^ d = 0"

lemma extent_block:
  assumes "heap_ok N k" and "b < N * 2 ^ (12 - d)" and "6 \<le> d" "d \<le> 12"
  shows "extent (blkid2mem d b k) d =
    {a. unat (km_start_heap k) \<le> a \<and> (a - unat (km_start_heap k)) div 64 \<in> blk_units (d, b)}"
proof -
  define h where "h = unat (km_start_heap k)"
  have e: "unat (blkid2mem d b k) = h + b * 2 ^ d"
    using unat_blkid2mem [OF assms(1,2,4)] by (simp add: h_def mult.commute)
  have "(64::nat) * 2 ^ (d - 6) = 2 ^ (6 + (d - 6))" unfolding power_add by simp
  then have "(64::nat) * 2 ^ (d - 6) = 2 ^ d" using assms(3) by simp
  then have u: "(a - h) div 64 \<in> blk_units (d, b) \<longleftrightarrow> (a - h) div 2 ^ d = b" for a
    by (simp add: blk_units_def div_mult2_eq [symmetric])
  have "x div 2 ^ d = b \<longleftrightarrow> b * 2 ^ d \<le> x \<and> x < b * 2 ^ d + 2 ^ d" for x :: nat
    by (rule div_eq_iff_range) simp
  then show ?thesis
    unfolding h_def [symmetric] u extent_def e
    by (simp add: set_eq_iff le_diff_conv2 less_diff_conv2 algebra_simps cong: conj_cong)
      (meson add_leD1)
qed

lemma heap_block_id:
  assumes inv: "buddy_inv lo n N k" and p: "heap_block N (km_start_heap k) p d" and d: "d \<le> 12"
  obtains b where "b < N * 2 ^ (12 - d)" and "p = blkid2mem d b k"
proof -
  note ok = buddy_invD(2) [OF inv]
  define h where "h = unat (km_start_heap k)"
  define b where "b = (unat p - h) div 2 ^ d"
  have m: "(2::nat) ^ d * 2 ^ (12 - d) = 4096" using d by (simp add: power_add [symmetric])
  have "h mod 4096 = 0" using ok by (simp add: heap_ok_def h_def)
  then have "2 ^ d dvd h" using m by (metis dvd_triv_left dvd_trans mod_eq_0_iff_dvd)
  moreover have "2 ^ d dvd unat p" using p by (auto simp: heap_block_def)
  ultimately have "2 ^ d dvd unat p - h" by simp
  then have pb: "unat p = h + b * 2 ^ d"
    using p by (simp add: b_def heap_block_def h_def)
  have "b * 2 ^ d + 2 ^ d \<le> N * 4096" using p pb by (simp add: heap_block_def h_def)
  then have "Suc b * 2 ^ d \<le> N * 2 ^ (12 - d) * 2 ^ d" using m by (simp add: algebra_simps)
  then have b: "b < N * 2 ^ (12 - d)" by (simp only: mult_le_cancel2) simp
  moreover have "p = blkid2mem d b k"
    using unat_blkid2mem [OF ok b d] pb by (simp add: h_def mult.commute word_unat_eq_iff)
  ultimately show thesis by (rule that)
qed

lemma block_heap_block:
  assumes "heap_ok N k" and "b < N * 2 ^ (12 - d)" and "d \<le> 12"
  shows "heap_block N (km_start_heap k) (blkid2mem d b k) d" and "blkid2mem d b k \<noteq> 0"
proof -
  have m: "(2::nat) ^ d * 2 ^ (12 - d) = 4096" using assms(3) by (simp add: power_add [symmetric])
  have e: "unat (blkid2mem d b k) = unat (km_start_heap k) + b * 2 ^ d"
    using unat_blkid2mem [OF assms] by (simp add: mult.commute)
  have "Suc b * 2 ^ d \<le> N * 2 ^ (12 - d) * 2 ^ d" using assms(2) by (simp only: mult_le_cancel2) simp
  then have "b * 2 ^ d + 2 ^ d \<le> N * 4096" using m by (simp add: algebra_simps)
  moreover have "unat (km_start_heap k) mod 4096 = 0" using assms(1) by (simp add: heap_ok_def)
  then have "unat (km_start_heap k) mod 2 ^ d = 0"
    using m by (metis dvd_triv_left dvd_trans mod_eq_0_iff_dvd)
  ultimately show "heap_block N (km_start_heap k) (blkid2mem d b k) d"
    by (simp add: heap_block_def e)
  show "blkid2mem d b k \<noteq> 0" using e assms(1) by (auto simp: heap_ok_def)
qed

interpretation bud: allocator "\<lambda>d. kmalloc (int d)" "\<lambda>p d. kfree p (int d)" "heap_at lo n N h"
  "free_bytes lo n" "\<lambda>d. lo \<le> d \<and> d \<le> 12" "heap_block N h" for lo n N h
proof
  fix s :: "'a kmem_scheme" and d
  assume s: "heap_at lo n N h s" and d: "lo \<le> d \<and> d \<le> 12"
  have inv: "buddy_inv lo n N s" and h: "km_start_heap s = h" using s by (auto simp: heap_at_def)
  have d6: "6 \<le> d" using buddy_invD(5) [OF inv] d by simp
  show "\<exists>p s'. kmalloc (int d) s = Ret p s' \<and> heap_at lo n N h s' \<and>
      (if p = 0 then s' = s else heap_block N h p d \<and> extent p d \<subseteq> free_bytes lo n s
         \<and> free_bytes lo n s' = free_bytes lo n s - extent p d)"
    using kmalloc_run [OF inv, of d, OF conjunct1 [OF d] conjunct2 [OF d]]
  proof (elim disjE)
    assume "\<exists>b k'. kmalloc (int d) s = Ret (blkid2mem d b s) k' \<and> taken lo n N s k' d b"
    then obtain b k' where m: "kmalloc (int d) s = Ret (blkid2mem d b s) k'" and t: "taken lo n N s k' d b"
      by blast
    have b: "b < N * 2 ^ (12 - d)" using t by (simp add: taken_def)
    note blk = block_heap_block [OF buddy_invD(2) [OF inv] b] extent_block [OF buddy_invD(2) [OF inv] b d6]
    show ?thesis
      using m t d blk by (auto simp: taken_def heap_at_def h free_bytes_def)
  qed (use s d in auto)
next
  fix s :: "'a kmem_scheme" and d p
  assume s: "heap_at lo n N h s" and d: "lo \<le> d \<and> d \<le> 12" and p: "heap_block N h p d"
    and disj: "extent p d \<inter> free_bytes lo n s = {}"
  have inv: "buddy_inv lo n N s" and h: "km_start_heap s = h" using s by (auto simp: heap_at_def)
  have d6: "6 \<le> d" using buddy_invD(5) [OF inv] d by simp
  obtain b where b: "b < N * 2 ^ (12 - d)" "p = blkid2mem d b s"
    using heap_block_id [OF inv] p d h by blast
  note blk = extent_block [OF buddy_invD(2) [OF inv] b(1) d6]
  have "blk_units (d, b) \<inter> free_units lo n s = {}"
  proof (rule ccontr)
    assume "\<not> ?thesis"
    then obtain u where "u \<in> blk_units (d, b)" "u \<in> free_units lo n s" by blast
    then have "unat h + 64 * u \<in> extent p d \<inter> free_bytes lo n s"
      using blk d b(2) by (simp add: free_bytes_def h)
    with disj show False by blast
  qed
  from kfree_run [OF inv _ _ b(1) this] d obtain k' where
    "kfree p (int d) s = Ret () k'" "freed lo n N s k' d b" using b(2) by auto
  moreover then have "free_bytes lo n k' = free_bytes lo n s \<union> extent p d"
    using blk d b(2) by (auto simp: freed_def free_bytes_def h)
  ultimately show "\<exists>s'. kfree p (int d) s = Ret () s' \<and> heap_at lo n N h s'
      \<and> free_bytes lo n s' = free_bytes lo n s \<union> extent p d"
    using h by (auto simp: freed_def heap_at_def)
qed

section \<open>Runs of the kernel's clients\<close>

text \<open>
  Every sequence of calls that the rest of the kernel can make after start-up, with the blocks it
  holds: an allocation adds its block, and only held blocks are freed.
\<close>

inductive heap_run :: "nat \<Rightarrow> uint \<Rightarrow> uint \<Rightarrow> kmem \<Rightarrow> (uint \<times> nat) set \<Rightarrow> bool"
  for lo vstart vend where
  boot: "kmem_init2 vstart vend k0 = Ret () k \<Longrightarrow> heap_run lo vstart vend k {}"
| alloc: "heap_run lo vstart vend k A \<Longrightarrow> lo \<le> d \<Longrightarrow> d \<le> 12 \<Longrightarrow> kmalloc (int d) k = Ret p k' \<Longrightarrow>
    heap_run lo vstart vend k' (if p = 0 then A else insert (p, d) A)"
| free: "heap_run lo vstart vend k A \<Longrightarrow> (p, d) \<in> A \<Longrightarrow> kfree p (int d) k = Ret () k' \<Longrightarrow>
    heap_run lo vstart vend k' (A - {(p, d)})"

text \<open>The number of marks of the highest order, and what start-up needs of the memory it is given.\<close>

definition top_marks :: "uint \<Rightarrow> uint \<Rightarrow> nat" where
  "top_marks vstart vend = unat (drop_bit 17 (vend - vstart)) + 1"

definition boot_ok :: "nat \<Rightarrow> uint \<Rightarrow> uint \<Rightarrow> bool" where
  "boot_ok lo vstart vend \<longleftrightarrow> 6 \<le> lo \<and> lo \<le> 12 \<and> top_marks vstart vend * 2 ^ (12 - lo) \<le> 65535
     \<and> unat vend mod 4096 = 0 \<and> unat vstart + top_marks vstart vend * 1016 + 4095 < unat vend"

lemma boot_run:
  assumes "boot_ok lo vstart vend"
  shows "\<exists>k'. kmem_init2 vstart vend k = Ret () k'
    \<and> fresh_heap lo (top_marks vstart vend) vstart vend k'"
  using kmem_init2_run [of "top_marks vstart vend" vend vstart lo] assms
  by (simp add: boot_ok_def top_marks_def nmarks_def)

lemma fresh_heap_free_bytes:
  assumes "fresh_heap lo n vstart vend k"
  shows "free_bytes lo n k = {unat (km_start_heap k)..<unat vend}"
proof -
  define h where "h = unat (km_start_heap k)"
  define N where "N = (unat vend - h) div 4096"
  have f: "free_units lo n k = {u. u div 64 < N}" and v: "unat vend = h + N * 4096"
    using assms by (simp_all add: fresh_heap_def Let_def N_def h_def)
  have "(a - h) div 64 div 64 < N \<longleftrightarrow> a - h < N * 4096" for a
    by (simp add: div_mult2_eq [symmetric] div_less_iff_less_mult)
  moreover have "h \<le> a \<and> a - h < N * 4096 \<longleftrightarrow> h \<le> a \<and> a < h + N * 4096" for a by linarith
  ultimately show ?thesis
    unfolding free_bytes_def f v h_def [symmetric] atLeastLessThan_def lessThan_def atLeast_def
    by (simp only: mem_Collect_eq Collect_conj_eq [symmetric])
qed

text \<open>The heap that a run works on: its start and its number of pages.\<close>

definition run_state :: "nat \<Rightarrow> uint \<Rightarrow> uint \<Rightarrow> uint \<Rightarrow> (uint \<times> nat) set \<Rightarrow> kmem \<Rightarrow> bool" where
  "run_state lo vstart vend h A k \<longleftrightarrow>
     bud.holds lo (top_marks vstart vend) ((unat vend - unat h) div 4096) h {unat h..<unat vend} A k"

lemma heap_run_state:
  assumes ok: "boot_ok lo vstart vend" and run: "heap_run lo vstart vend k A"
  shows "\<exists>h. unat vstart + top_marks vstart vend * 1016 \<le> unat h \<and> run_state lo vstart vend h A k"
  using run
proof induction
  case (boot k0 k)
  then have f: "fresh_heap lo (top_marks vstart vend) vstart vend k" using boot_run [OF ok, of k0] by auto
  then have "run_state lo vstart vend (km_start_heap k) {} k"
    using fresh_heap_free_bytes [OF f]
    by (simp add: run_state_def bud.holds_def heap_at_def fresh_heap_def Let_def)
  with f show ?case by (auto simp: fresh_heap_def Let_def)
next
  case (alloc k A d p k')
  then obtain h where h: "unat vstart + top_marks vstart vend * 1016 \<le> unat h"
    and st: "run_state lo vstart vend h A k" by blast
  have "run_state lo vstart vend h (if p = 0 then A else insert (p, d) A) k'"
  proof (cases "p = 0")
    case True
    then have "k' = k"
      using bud.holds_alloc_fail [OF st [unfolded run_state_def]] alloc.hyps by blast
    with st True show ?thesis by simp
  next
    case False
    then show ?thesis
      using bud.holds_alloc(1) [OF st [unfolded run_state_def], of d p k'] alloc.hyps
      by (simp add: run_state_def)
  qed
  with h show ?case by blast
next
  case (free k A p d k')
  then obtain h where h: "unat vstart + top_marks vstart vend * 1016 \<le> unat h"
    and st: "run_state lo vstart vend h A k" by blast
  from bud.holds_dealloc [OF st [unfolded run_state_def] free.hyps(2)] free.hyps(3)
  have "run_state lo vstart vend h (A - {(p, d)}) k'" by (simp add: run_state_def)
  with h show ?case by blast
qed

section \<open>Rounding up to an order\<close>

lemma smear_step:
  assumes "\<And>i. bit v' i \<longleftrightarrow> (\<exists>j\<ge>i. j < i + m \<and> bit v j)"
  shows "bit (v' OR drop_bit m v') i \<longleftrightarrow> (\<exists>j\<ge>i. j < i + 2 * m \<and> bit (v::uint) j)"
proof
  assume "bit (v' OR drop_bit m v') i"
  then have "bit v' i \<or> bit v' (i + m)" by (auto simp: bit_simps add.commute)
  then show "\<exists>j\<ge>i. j < i + 2 * m \<and> bit v j"
    using assms by (smt (verit) add_lessD1 le_add1 le_trans mult_2 add.assoc trans_less_add1)
next
  assume "\<exists>j\<ge>i. j < i + 2 * m \<and> bit v j"
  then obtain j where j: "i \<le> j" "j < i + 2 * m" "bit v j" by blast
  show "bit (v' OR drop_bit m v') i"
  proof (cases "j < i + m")
    case True
    then have "bit v' i" using j assms by blast
    then show ?thesis by (simp add: bit_simps)
  next
    case False
    then have "bit v' (i + m)" using j assms [of "i + m"] by (auto intro!: exI [of _ j])
    then show ?thesis by (simp add: bit_simps add.commute)
  qed
qed

lemma bit_smear: "bit (smear v) i \<longleftrightarrow> (\<exists>j\<ge>i. bit v j)"
proof -
  have "bit v i \<longleftrightarrow> (\<exists>j\<ge>i. j < i + 1 \<and> bit v j)" for i
    by (metis Suc_eq_plus1 le_antisym less_Suc_eq_le order_refl)
  note s1 = smear_step [of v 1 v, OF this]
  note s2 = smear_step [OF s1, simplified]
  note s3 = smear_step [OF s2, simplified]
  note s4 = smear_step [OF s3, simplified]
  note s5 = smear_step [OF s4, simplified]
  have "bit (smear v) i \<longleftrightarrow> (\<exists>j\<ge>i. j < i + 32 \<and> bit v j)"
    using s5 [of i] unfolding smear_def Let_def by simp
  then show ?thesis using bit_imp_le_length [of v] by fastforce
qed

text \<open>A non-zero number has a highest bit, and smearing it gives the mask below it.\<close>

lemma highest_bit:
  "(x::nat) \<noteq> 0 \<Longrightarrow> \<exists>e. 2 ^ e \<le> x \<and> x < 2 ^ Suc e"
proof -
  assume "x \<noteq> 0"
  obtain e where "x < 2 ^ e" using less_exp by blast
  then have "\<exists>e. x < 2 ^ e" ..
  define m where "m = (LEAST e. x < 2 ^ e)"
  have m: "x < 2 ^ m" unfolding m_def using \<open>x < 2 ^ e\<close> by (rule LeastI)
  with \<open>x \<noteq> 0\<close> have "m \<noteq> 0" by (intro notI) simp
  then obtain e where e: "m = Suc e" by (cases m) auto
  then have "\<not> x < 2 ^ e" using not_less_Least [of e "\<lambda>e. x < 2 ^ e"] by (simp add: m_def)
  with m e show ?thesis by (auto simp: not_less)
qed

lemma smear_mask:
  assumes "2 ^ e \<le> unat x" and "unat x < 2 ^ Suc e"
  shows "smear x = mask (Suc e)"
proof (rule bit_word_eqI)
  fix i
  have b: "bit x j = bit (unat x) j" for j by (simp add: bit_unsigned_iff)
  have hi: "bit x e"
  proof -
    have "unat x div 2 ^ e = 1" using assms by (intro div_nat_eqI) auto
    then show ?thesis unfolding b by (simp add: bit_iff_odd)
  qed
  have above: "\<not> bit x j" if "e < j" for j
  proof -
    have "unat x < 2 ^ j" using assms(2) that power_increasing [of "Suc e" j "2::nat"] by simp
    then show ?thesis unfolding b by (simp add: bit_iff_odd)
  qed
  show "bit (smear x) i = bit (mask (Suc e) :: uint) i" if "i < LENGTH(32)"
    using hi above that by (auto simp: bit_smear bit_mask_iff less_Suc_eq_le) (meson le_trans linorder_not_le)
qed

lemma first_bit_exp: "e < 32 \<Longrightarrow> lowest_bit (2 ^ e) = e"
proof -
  have f: "first_bit (2 ^ e) xs = (if e \<in> set xs then Some e else None)"
    if "\<And>i. i \<in> set xs \<Longrightarrow> i < 32" for xs
    using that
  proof (induction xs)
    case (Cons i xs)
    have "(2 ^ e :: uint) AND push_bit i 1 \<noteq> 0 \<longleftrightarrow> i = e"
      using Cons.prems [of i]
      by (simp add: push_bit_of_1 and_exp_eq_0_iff_not_bit bit_exp_iff)
    with Cons show ?case by auto
  qed simp
  have "first_bit (2 ^ e) [0..<32] = (if e \<in> set [0..<32] then Some e else None)"
    by (rule f) auto
  then show "e < 32 \<Longrightarrow> ?thesis" by (simp add: lowest_bit_def)
qed

lemma lowest_bit_0: "lowest_bit 0 = 32"
proof -
  have "first_bit 0 xs = None" for xs by (induction xs) simp_all
  then show ?thesis by (simp add: lowest_bit_def)
qed

text \<open>The order of the rounded-up power of two, for a size above one.\<close>

lemma round_up_order:
  assumes "2 ^ e \<le> unat (v - 1)" and "unat (v - 1) < 2 ^ Suc e"
  shows "lowest_bit (smear (v - 1) + 1) = (if e < 31 then Suc e else 32)"
proof -
  have s: "smear (v - 1) + 1 = 2 ^ Suc e"
    using smear_mask [OF assms] by (simp add: mask_eq_exp_minus_1)
  show ?thesis
  proof (cases "e < 31")
    case True
    then show ?thesis unfolding s using first_bit_exp [of "Suc e"] by simp
  next
    case False
    then have "(2 ^ Suc e :: uint) = 0"
      using exp_eq_zero_iff [where 'a=32, of "Suc e"] by simp
    then show ?thesis unfolding s using False by (simp add: lowest_bit_0)
  qed
qed

text \<open>
  \<^verbatim>\<open>get_order\<close> returns the least order, from 6 on, whose blocks hold a non-zero size of at most
  a page, and panics on every other size (on zero too: \<^verbatim>\<open>v--\<close> wraps).
\<close>

theorem get_order_correct:
  "if 0 < unat v \<and> unat v \<le> 4096
   then \<exists>d. get_order v s = Ret d s \<and> 6 \<le> d \<and> d \<le> 12 \<and> unat v \<le> 2 ^ d \<and> (d = 6 \<or> 2 ^ (d - 1) < unat v)
   else get_order v s = Panic ''order too big!''"
proof (cases "v = 1")
  case True
  have "smear 0 = 0" by (simp add: smear_def)
  with True show ?thesis using first_bit_exp [of 0] by (simp add: get_order_def)
next
  case False
  then have "v - 1 \<noteq> 0" by simp
  then obtain e where e: "2 ^ e \<le> unat (v - 1)" "unat (v - 1) < 2 ^ Suc e"
    using highest_bit [of "unat (v - 1)"] by (auto simp: unsigned_eq_0_iff)
  note l = round_up_order [OF e]
  show ?thesis
  proof (cases "0 < unat v \<and> unat v \<le> 4096")
    case True
    then have u: "unat (v - 1) = unat v - 1" by (intro unat_minus_one) auto
    have "(2::nat) ^ e < 4096" using e(1) u True by linarith
    then have "(2::nat) ^ e < 2 ^ 12" by simp
    then have e12: "e < 12" by (rule power_less_imp_less_exp [rotated]) simp
    have "unat v \<le> 2 ^ Suc e" "2 ^ e < unat v" using e u True by simp_all
    moreover have "(2::nat) ^ Suc e \<le> 2 ^ 6" if "Suc e < 6" using that by (intro power_increasing) auto
    ultimately show ?thesis
      using True e12 l unfolding get_order_def Let_def l by (auto intro: order_trans)
  next
    case no: False
    have "4096 \<le> unat (v - 1)"
    proof (cases "v = 0")
      case False
      then show ?thesis using no by (simp add: unat_minus_one unsigned_eq_0_iff)
    qed (simp add: unsigned_minus_1_eq_mask mask_eq_exp_minus_1)
    then have "(2::nat) ^ 12 < 2 ^ Suc e" using e(2) by simp
    then have "12 < Suc e" by (rule power_less_imp_less_exp [rotated]) simp
    then show ?thesis using no l by (auto simp: get_order_def)
  qed
qed

section \<open>Properties of the allocator\<close>

text \<open>
  \<^verbatim>\<open>kmem_init2\<close> on page-aligned memory with room for the marks returns (no panic from the freeing
  of its pages) with the allocator's invariant, and the free memory is exactly the pages from the
  first boundary after the marks up to \<open>vend\<close>.
\<close>

theorem kmem_init2_correct:
  assumes "boot_ok lo vstart vend"
  shows "\<exists>k' N. kmem_init2 vstart vend k = Ret () k' \<and> buddy_inv lo (top_marks vstart vend) N k'
    \<and> unat (km_start_heap k') + N * 4096 = unat vend
    \<and> unat vstart + top_marks vstart vend * 127 * 8 \<le> unat (km_start_heap k')
    \<and> free_bytes lo (top_marks vstart vend) k' = {unat (km_start_heap k')..<unat vend}"
proof -
  obtain k' where k': "kmem_init2 vstart vend k = Ret () k'"
    and f: "fresh_heap lo (top_marks vstart vend) vstart vend k'"
    using boot_run [OF assms] by blast
  from fresh_heap_free_bytes [OF f] f k' show ?thesis
    by (auto simp: fresh_heap_def Let_def)
qed

lemma boot_ok_rpi2: "boot_ok 7 0x80100000 0x8C000000"
  by (simp add: boot_ok_def top_marks_def)

text \<open>The heap of the Raspberry Pi 2, on which the witnesses run.\<close>

lemma rpi2_heap:
  "\<exists>(k :: kmem) N d b. buddy_inv 7 (top_marks 0x80100000 0x8C000000) N k
     \<and> 7 \<le> d \<and> (d, b) \<in> free_set 7 (top_marks 0x80100000 0x8C000000) k"
proof -
  obtain k :: kmem where f: "fresh_heap 7 (top_marks 0x80100000 0x8C000000) 0x80100000 0x8C000000 k"
    using boot_run [OF boot_ok_rpi2] by blast
  then obtain N where N: "buddy_inv 7 (top_marks 0x80100000 0x8C000000) N k"
      "free_units 7 (top_marks 0x80100000 0x8C000000) k = {u. u div 64 < N}"
      "unat (km_start_heap k) + N * 4096 = 0x8C000000"
    unfolding fresh_heap_def Let_def by auto
  moreover have "unat (km_start_heap k) < 0x8C000000"
    using f by (simp add: fresh_heap_def Let_def top_marks_def)
  ultimately have "0 \<in> free_units 7 (top_marks 0x80100000 0x8C000000) k" by auto
  then obtain d b where "(d, b) \<in> free_set 7 (top_marks 0x80100000 0x8C000000) k"
    by (auto simp: free_units_def)
  then show ?thesis using N(1) by (auto simp: free_set_def)
qed

theorem kmem_init2_correct_witness:
  "boot_ok 7 0x80100000 0x8C000000 \<and>
   (\<exists>k' N. kmem_init2 0x80100000 0x8C000000
      \<lparr>km_start = 0, km_start_heap = 0, km_end = 0, km_orders = (\<lambda>_. \<lparr>head = 0, offset = 0\<rparr>),
       km_marks = (\<lambda>_. \<lparr>lnks = 0, bitmap = 0\<rparr>)\<rparr> = Ret () k'
     \<and> buddy_inv 7 (top_marks 0x80100000 0x8C000000) N k')"
  using boot_ok_rpi2 kmem_init2_correct [OF boot_ok_rpi2] by blast



text \<open>
  An allocation takes its block out of the free memory, and returns null only when no free block
  of its order or of a larger one is left.
\<close>

theorem kmalloc_correct:
  assumes "buddy_inv lo n N k" and "lo \<le> d" and "d \<le> 12"
  shows "\<exists>p k'. kmalloc (int d) k = Ret p k' \<and> buddy_inv lo n N k' \<and>
    (if p = 0 then k' = k \<and> (\<forall>e b. d \<le> e \<longrightarrow> (e, b) \<notin> free_set lo n k)
     else unat p mod 2 ^ d = 0 \<and> extent p d \<subseteq> free_bytes lo n k
        \<and> free_bytes lo n k' = free_bytes lo n k - extent p d)"
proof -
  have g: "heap_at lo n N (km_start_heap k) k" using assms(1) by (simp add: heap_at_def)
  from bud.alloc_law [OF g, of d] assms(2,3) obtain p k' where
    r: "kmalloc (int d) k = Ret p k'" "heap_at lo n N (km_start_heap k) k'"
      "if p = 0 then k' = k else heap_block N (km_start_heap k) p d \<and> extent p d \<subseteq> free_bytes lo n k
         \<and> free_bytes lo n k' = free_bytes lo n k - extent p d" by auto
  have "\<forall>e b. d \<le> e \<longrightarrow> (e, b) \<notin> free_set lo n k" if "p = 0"
    using kmalloc_run [OF assms] r(1) that block_heap_block(2) [OF buddy_invD(2) [OF assms(1)]] assms(3)
    by (auto simp: taken_def)
  with r show ?thesis by (auto simp: heap_at_def heap_block_def split: if_splits)
qed

theorem kmalloc_correct_witness:
  "\<exists>k N p k'. buddy_inv 7 (top_marks 0x80100000 0x8C000000) N k \<and> kmalloc 10 (k :: kmem) = Ret p k'
     \<and> buddy_inv 7 (top_marks 0x80100000 0x8C000000) N k'"
proof -
  obtain k :: kmem and N where "buddy_inv 7 (top_marks 0x80100000 0x8C000000) N k"
    using rpi2_heap by blast
  moreover from kmalloc_correct [OF this, of 10] obtain p k' where
    "kmalloc 10 k = Ret p k'" "buddy_inv 7 (top_marks 0x80100000 0x8C000000) N k'" by auto
  ultimately show ?thesis by blast
qed

text \<open>
  A block that is allocated and then freed gives the free memory back: splitting and merging
  cancel.
\<close>

theorem kmalloc_kfree_roundtrip:
  assumes "buddy_inv lo n N k" and "lo \<le> d" and "d \<le> 12" and "kmalloc (int d) k = Ret p k'" and "p \<noteq> 0"
  shows "\<exists>k''. kfree p (int d) k' = Ret () k'' \<and> buddy_inv lo n N k'' \<and> free_bytes lo n k'' = free_bytes lo n k"
proof -
  have "heap_at lo n N (km_start_heap k) k" using assms(1) by (simp add: heap_at_def)
  from bud.alloc_dealloc [OF this _ assms(4,5)] assms(2,3) show ?thesis by (auto simp: heap_at_def)
qed

theorem kmalloc_kfree_roundtrip_witness:
  "\<exists>(k :: kmem) N p k' k''. kmalloc 7 k = Ret p k' \<and> p \<noteq> 0 \<and> kfree p 7 k' = Ret () k''
     \<and> buddy_inv 7 (top_marks 0x80100000 0x8C000000) N k''
     \<and> free_bytes 7 (top_marks 0x80100000 0x8C000000) k'' = free_bytes 7 (top_marks 0x80100000 0x8C000000) k"
proof -
  obtain k :: kmem and N d b where k: "buddy_inv 7 (top_marks 0x80100000 0x8C000000) N k"
    and d: "7 \<le> d" "(d, b) \<in> free_set 7 (top_marks 0x80100000 0x8C000000) k" using rpi2_heap by blast
  from kmalloc_run [OF k, of 7] d obtain b k' where
    m: "kmalloc 7 k = Ret (blkid2mem 7 b k) k'" and t: "taken 7 (top_marks 0x80100000 0x8C000000) N k k' 7 b"
    by auto
  have "b < N * 2 ^ (12 - 7)" using t by (simp add: taken_def)
  then have p: "blkid2mem 7 b k \<noteq> 0" by (rule block_heap_block(2) [OF buddy_invD(2) [OF k]]) simp
  with kmalloc_kfree_roundtrip [OF k, of 7] m show ?thesis by fastforce
qed

text \<open>
  Freeing a block that is already free is detected, as are orders out of range and addresses
  that are not aligned to their order: each panics, and the allocator's state is never changed.
\<close>

theorem kfree_errors:
  assumes "buddy_inv lo n N k" and "(d, b) \<in> free_set lo n k"
  shows "kfree (blkid2mem d b k) (int d) k = Panic ''kfree: double free''
    \<and> (\<forall>p ord. ord < 6 \<or> 12 < ord \<or> unat p mod 2 ^ nat ord \<noteq> 0 \<longrightarrow>
        kfree p ord k = Panic ''kfree: order out of range or memory unaligned'')"
proof -
  have d: "lo \<le> d" "d \<le> 12" and bit: "bit (bitmap (get_mark d (b div 32) k)) (b mod 32)"
    using assms(2) by (auto simp: free_set_def)
  have "6 \<le> d" using d buddy_invD(5) [OF assms(1)] by simp
  have b: "b < N * 2 ^ (12 - d)"
    using buddy_invD(4) [OF assms(1)] assms(2) by (auto simp: blocks_wf_def)
  note ok = buddy_invD(2) [OF assms(1)]
  have "kfree_blk (blkid2mem d b k) d k = Panic ''kfree: double free''"
    using bit d mem2blkid_blkid2mem [OF ok b d(2)] by (subst kfree_blk.simps) (simp add: available_bit)
  then have "kfree (blkid2mem d b k) (int d) k = Panic ''kfree: double free''"
    using heap_mem_aligned [OF ok b d(2)] \<open>6 \<le> d\<close> d(2) by (simp add: kfree_def)
  moreover have "kfree p ord k = Panic ''kfree: order out of range or memory unaligned''"
    if "ord < 6 \<or> 12 < ord \<or> unat p mod 2 ^ nat ord \<noteq> 0" for p ord
  proof (cases "ord < 6 \<or> 12 < ord")
    case False
    then have "nat ord < 32" by linarith
    then show ?thesis
      using that False unat_and_exp_minus_1 [of "nat ord" p] by (auto simp: kfree_def)
  qed (auto simp: kfree_def)
  ultimately show ?thesis by blast
qed

theorem kfree_errors_witness:
  "\<exists>(k :: kmem) d b. kfree (blkid2mem d b k) (int d) k = Panic ''kfree: double free''
     \<and> kfree 1 12 k = Panic ''kfree: order out of range or memory unaligned''"
proof -
  obtain k :: kmem and N d b where "buddy_inv 7 (top_marks 0x80100000 0x8C000000) N k"
    "(d, b) \<in> free_set 7 (top_marks 0x80100000 0x8C000000) k" using rpi2_heap by blast
  from kfree_errors [OF this] show ?thesis by (intro exI conjI) auto
qed

text \<open>
  The links of a mark hold 16-bit mark numbers. On the Raspberry Pi 2 the order 6 has more marks
  than that: the order 7 is the smallest whose links never lose a bit.
\<close>

lemma LNKS_truncates: "PRE_LNK (LNKS i nxt) = i AND 0xFFFF"
proof -
  have "(0xFFFF :: uint) = mask 16" by (simp add: mask_eq_exp_minus_1)
  show ?thesis
    unfolding PRE_LNK_def LNKS_def \<open>0xFFFF = mask 16\<close> by (auto intro!: bit_word_eqI simp: bit_simps)
qed

theorem rpi2_order6_links:
  "nmarks (top_marks 0x80100000 0x8C000000) 6 = 97856
   \<and> PRE_LNK (LNKS 97855 nxt) = 32319
   \<and> nmarks (top_marks 0x80100000 0x8C000000) 7 < 65535"
  by (simp add: nmarks_def top_marks_def LNKS_truncates)

end
