(* ===== verification/Spinlock.thy ===== *)
theory Spinlock
  imports Prelude
begin

unbundle bit_operations_syntax

text \<open>
  Interrupt masking (\<^verbatim>\<open>source/arm.c\<close>) and spin locks (\<^verbatim>\<open>source/spinlock.c\<close>). The interrupt code
  is modelled as operations on one CPU; the locks as a step relation over all CPUs, in which one
  step is one instruction of the LDREX/STREX loop, so that the CPUs interleave as the hardware lets
  them. The exclusive monitor is the one of the ARM architecture: a load-exclusive reserves the
  word, any store to the word ends every reservation of it, and a store-exclusive succeeds only
  under a live reservation.
\<close>

section \<open>Interrupt masking\<close>

abbreviation (input) PSR_DISABLE_IRQ :: uint where "PSR_DISABLE_IRQ \<equiv> 0x80"
abbreviation (input) PSR_MASK :: uint where "PSR_MASK \<equiv> 0x1F"
abbreviation (input) PSR_MODE_USR :: uint where "PSR_MODE_USR \<equiv> 0x10"

record cpu =
  cpsr :: uint
  ncli :: int
  intena :: bool

definition cli :: "cpu \<Rightarrow> cpu" where
  "cli c = c\<lparr>cpsr := cpsr c OR PSR_DISABLE_IRQ\<rparr>"

definition sti :: "cpu \<Rightarrow> cpu" where
  "sti c = c\<lparr>cpsr := cpsr c AND NOT PSR_DISABLE_IRQ\<rparr>"

definition cpsr_usr :: "cpu \<Rightarrow> uint" where
  "cpsr_usr c = (cpsr c AND NOT PSR_MASK) OR PSR_MODE_USR"

definition int_enabled :: "cpu \<Rightarrow> bool" where
  "int_enabled c \<longleftrightarrow> cpsr c AND PSR_DISABLE_IRQ = 0"

definition pushcli :: "(cpu, unit) kop" where
  "pushcli =
     kbind (kget int_enabled) (\<lambda>enabled.
     kbind (kmod cli) (\<lambda>_.
     kbind (kget ncli) (\<lambda>n.
     kbind (kmod (\<lambda>c. c\<lparr>ncli := n + 1\<rparr>)) (\<lambda>_.
     if n = 0 then kmod (\<lambda>c. c\<lparr>intena := enabled\<rparr>) else kreturn ()))))"

definition popcli :: "(cpu, unit) kop" where
  "popcli =
     kbind (kget int_enabled) (\<lambda>enabled.
     if enabled then panic ''popcli - interruptible''
     else kbind (kmod (\<lambda>c. c\<lparr>ncli := ncli c - 1\<rparr>)) (\<lambda>_.
          kbind (kget (\<lambda>c. c)) (\<lambda>c.
          if ncli c < 0 then panic ''popcli -- ncli < 0''
          else if ncli c = 0 \<and> intena c then kmod sti
          else kreturn ())))"

text \<open>
  The walk up the call chain: \<open>rd\<close> reads a word of memory, \<open>fp\<close> points to a saved link register
  with the caller's frame pointer below it.
\<close>

fun getcallerpcs :: "(uint \<Rightarrow> uint) \<Rightarrow> uint \<Rightarrow> nat \<Rightarrow> uint list" where
  "getcallerpcs rd fp 0 = []"
| "getcallerpcs rd fp (Suc i) =
     (if fp = 0 \<or> fp < 0x80000000 \<or> fp = 0xFFFFFFFF then replicate (Suc i) 0
      else rd (fp - 4 + 4) # getcallerpcs rd (rd (fp - 4)) i)"

section \<open>Spin locks\<close>

record spinlock =
  locked :: uint
  lk_cpu :: "nat option"
  lk_pc0 :: uint

definition initlock :: "spinlock \<Rightarrow> spinlock" where
  "initlock lk = lk\<lparr>locked := 0, lk_cpu := None\<rparr>"

definition holding :: "nat \<Rightarrow> spinlock \<Rightarrow> bool" where
  "holding c lk \<longleftrightarrow> locked lk \<noteq> 0 \<and> lk_cpu lk = Some c"

text \<open>
  Where a CPU is in the lock code: outside it, at the label \<open>1:\<close> of \<^verbatim>\<open>acquire\<close>, after the LDREX
  with the loaded value, after a successful STREX, between the two stores of \<^verbatim>\<open>release\<close>, or
  before its \<^verbatim>\<open>popcli\<close>.
\<close>

datatype lkpc = Run | Spin nat | Loaded nat uint | Own nat | Rel nat | Pop

text \<open>
  The machine: the CPUs, the locks, the exclusive monitor of each CPU (the lock word it has
  reserved), where each CPU is, and the locks each CPU has acquired and not released (a record of
  the history that no instruction reads).
\<close>

record smp =
  cpus :: "nat \<Rightarrow> cpu"
  locks :: "nat \<Rightarrow> spinlock"
  excl :: "nat \<Rightarrow> nat option"
  pc :: "nat \<Rightarrow> lkpc"
  held :: "nat \<Rightarrow> nat set"

text \<open>A store to the word of a lock ends the reservations of that word.\<close>

definition store_locked :: "nat \<Rightarrow> uint \<Rightarrow> smp \<Rightarrow> smp" where
  "store_locked l v m =
     m\<lparr>locks := (locks m)(l := (locks m l)\<lparr>locked := v\<rparr>),
       excl := (\<lambda>c. if excl m c = Some l then None else excl m c)\<rparr>"

inductive lock_step :: "smp \<Rightarrow> smp \<Rightarrow> bool" where
  acquire_pushcli: "pc m c = Run \<Longrightarrow> pushcli (cpus m c) = Ret () k \<Longrightarrow>
    lock_step m (m\<lparr>cpus := (cpus m)(c := k), pc := (pc m)(c := Spin l)\<rparr>)"
| acquire_ldrex: "pc m c = Spin l \<Longrightarrow>
    lock_step m (m\<lparr>excl := (excl m)(c := Some l), pc := (pc m)(c := Loaded l (locked (locks m l)))\<rparr>)"
| acquire_spin: "pc m c = Loaded l v \<Longrightarrow> v \<noteq> 0 \<Longrightarrow>
    lock_step m (m\<lparr>pc := (pc m)(c := Spin l)\<rparr>)"
| acquire_strex: "pc m c = Loaded l 0 \<Longrightarrow> excl m c = Some l \<Longrightarrow>
    lock_step m ((store_locked l 1 m)\<lparr>pc := (pc m)(c := Own l)\<rparr>)"
| acquire_strex_fail: "pc m c = Loaded l 0 \<Longrightarrow> excl m c \<noteq> Some l \<Longrightarrow>
    lock_step m (m\<lparr>pc := (pc m)(c := Spin l)\<rparr>)"
| acquire_done: "pc m c = Own l \<Longrightarrow>
    lock_step m (m\<lparr>locks := (locks m)(l := (locks m l)\<lparr>lk_cpu := Some c\<rparr>),
      pc := (pc m)(c := Run), held := (held m)(c := insert l (held m c))\<rparr>)"
| release_cpu: "pc m c = Run \<Longrightarrow> l \<in> held m c \<Longrightarrow>
    lock_step m (m\<lparr>locks := (locks m)(l := (locks m l)\<lparr>lk_cpu := None, lk_pc0 := 0\<rparr>),
      pc := (pc m)(c := Rel l), held := (held m)(c := held m c - {l})\<rparr>)"
| release_store: "pc m c = Rel l \<Longrightarrow>
    lock_step m ((store_locked l 0 m)\<lparr>pc := (pc m)(c := Pop)\<rparr>)"
| release_popcli: "pc m c = Pop \<Longrightarrow> popcli (cpus m c) = Ret () k \<Longrightarrow>
    lock_step m (m\<lparr>cpus := (cpus m)(c := k), pc := (pc m)(c := Run)\<rparr>)"

text \<open>A machine at start: no CPU is in the lock code, every lock is free.\<close>

definition smp_start :: "smp \<Rightarrow> bool" where
  "smp_start m \<longleftrightarrow> (\<forall>l. locked (locks m l) = 0) \<and> (\<forall>c. pc m c = Run \<and> held m c = {} \<and> excl m c = None
     \<and> ncli (cpus m c) = 0)"

inductive smp_run :: "smp \<Rightarrow> bool" where
  start: "smp_start m \<Longrightarrow> smp_run m"
| step: "smp_run m \<Longrightarrow> lock_step m m' \<Longrightarrow> smp_run m'"

text \<open>CPU \<open>c\<close> is inside the critical section of lock \<open>l\<close>.\<close>

definition owns :: "smp \<Rightarrow> nat \<Rightarrow> nat \<Rightarrow> bool" where
  "owns m c l \<longleftrightarrow> pc m c = Own l \<or> l \<in> held m c \<or> pc m c = Rel l"

section \<open>Nesting of interrupt masking\<close>

lemma int_enabled_cli [simp]: "\<not> int_enabled (cli c)"
proof -
  have "bit ((cpsr c OR PSR_DISABLE_IRQ) AND PSR_DISABLE_IRQ) 7"
    by (simp add: bit_simps bit_numeral_rec)
  then show ?thesis unfolding int_enabled_def cli_def by (auto simp: bit_simps)
qed

lemma cli_sti: "int_enabled c \<Longrightarrow> sti (cli c) = c"
proof -
  assume "int_enabled c"
  then have off: "\<not> bit (cpsr c AND PSR_DISABLE_IRQ) i" for i by (simp add: int_enabled_def)
  have "((cpsr c OR PSR_DISABLE_IRQ) AND NOT PSR_DISABLE_IRQ) = cpsr c"
    by (rule bit_word_eqI) (use off in \<open>auto simp: bit_simps\<close>)
  then show ?thesis by (simp add: sti_def cli_def)
qed

lemma cli_idle: "\<not> int_enabled c \<Longrightarrow> cli c = c"
proof -
  assume *: "\<not> int_enabled c"
  have irq: "(0x80 :: uint) = 2 ^ 7" by simp
  have "bit (cpsr c) 7"
    using * unfolding int_enabled_def irq and_exp_eq_0_iff_not_bit by simp
  then have "cpsr c OR 2 ^ 7 = cpsr c"
    by (intro bit_word_eqI) (auto simp only: bit_or_iff bit_exp_iff)
  then show ?thesis by (simp add: cli_def)
qed

text \<open>The per-CPU invariant: inside a pushcli region interrupts are off.\<close>

definition cli_ok :: "cpu \<Rightarrow> bool" where
  "cli_ok c \<longleftrightarrow> 0 \<le> ncli c \<and> (0 < ncli c \<longrightarrow> \<not> int_enabled c)"

fun times :: "nat \<Rightarrow> ('s, unit) kop \<Rightarrow> ('s, unit) kop" where
  "times 0 m = kreturn ()"
| "times (Suc n) m = kbind m (\<lambda>_. times n m)"

lemma times_Suc_right: "times (Suc n) m = kbind (times n m) (\<lambda>_. m)"
proof (induction n)
  case 0
  have "kbind m (\<lambda>_. kreturn ()) = kbind m kreturn" by (rule arg_cong [of _ _ "kbind m"]) auto
  then have "kbind m (\<lambda>_. kreturn ()) = m" by (simp only: kbind_kreturn_right)
  then show ?case by (simp add: kbind_kreturn_left)
next
  case (Suc n)
  have "times (Suc (Suc n)) m = kbind m (\<lambda>_. times (Suc n) m)" by simp
  also have "\<dots> = kbind m (\<lambda>_. kbind (times n m) (\<lambda>_. m))" by (simp only: Suc)
  also have "\<dots> = kbind (times (Suc n) m) (\<lambda>_. m)" by (simp add: kbind_assoc)
  finally show ?case .
qed

lemma int_enabled_update [simp]: "int_enabled (c\<lparr>ncli := n\<rparr>) = int_enabled c"
  "int_enabled (c\<lparr>intena := b\<rparr>) = int_enabled c"
  by (simp_all add: int_enabled_def)

lemma pushcli_run:
  "pushcli c = Ret () ((cli c)\<lparr>intena := if ncli c = 0 then int_enabled c else intena c, ncli := ncli c + 1\<rparr>)"
  by (auto simp: pushcli_def cli_def)

lemma pushcli_inner: "cli_ok c \<Longrightarrow> 0 < ncli c \<Longrightarrow> pushcli c = Ret () (c\<lparr>ncli := ncli c + 1\<rparr>)"
  using cli_idle [of c] by (auto simp: pushcli_run cli_ok_def)

lemma popcli_outer: "\<not> int_enabled c \<Longrightarrow> ncli c = 1 \<Longrightarrow>
    popcli c = Ret () (if intena c then sti (c\<lparr>ncli := 0\<rparr>) else c\<lparr>ncli := 0\<rparr>)"
  by (simp add: popcli_def)

lemma popcli_inner: "\<not> int_enabled c \<Longrightarrow> 1 < ncli c \<Longrightarrow> popcli c = Ret () (c\<lparr>ncli := ncli c - 1\<rparr>)"
  by (simp add: popcli_def)

lemma times_push: "cli_ok c \<Longrightarrow> 0 < ncli c \<Longrightarrow> times n pushcli c = Ret () (c\<lparr>ncli := ncli c + int n\<rparr>)"
proof (induction n arbitrary: c)
  case (Suc n)
  have "cli_ok (c\<lparr>ncli := ncli c + 1\<rparr>)" using Suc.prems by (simp add: cli_ok_def)
  with Suc.IH [of "c\<lparr>ncli := ncli c + 1\<rparr>"] Suc.prems show ?case
    by (simp add: pushcli_inner algebra_simps)
qed simp

lemma times_pop: "\<not> int_enabled c \<Longrightarrow> int n < ncli c \<Longrightarrow> times n popcli c = Ret () (c\<lparr>ncli := ncli c - int n\<rparr>)"
proof (induction n arbitrary: c)
  case (Suc n)
  then show ?case
    using Suc.IH [of "c\<lparr>ncli := ncli c - 1\<rparr>"] by (simp add: popcli_inner algebra_simps)
qed simp

text \<open>
  \<open>n\<close> calls of \<^verbatim>\<open>pushcli\<close> followed by \<open>n\<close> of \<^verbatim>\<open>popcli\<close> never panic and restore the interrupt
  mask and the depth, whatever the depth they start from: it takes as many \<^verbatim>\<open>popcli\<close> to undo as
  there were \<^verbatim>\<open>pushcli\<close>, and interrupts that were off stay off.
\<close>

theorem pushcli_popcli_nest:
  assumes "cli_ok c"
  shows "\<exists>c'. kbind (times n pushcli) (\<lambda>_. times n popcli) c = Ret () c'
    \<and> cpsr c' = cpsr c \<and> ncli c' = ncli c"
proof (cases "0 < ncli c")
  case True
  then have "\<not> int_enabled c" using assms by (simp add: cli_ok_def)
  with True assms show ?thesis by (simp add: times_push times_pop)
next
  case False
  then have z: "ncli c = 0" using assms by (simp add: cli_ok_def)
  show ?thesis
  proof (cases n)
    case (Suc m)
    define d where "d = (cli c)\<lparr>intena := int_enabled c, ncli := 1\<rparr>"
    have d: "pushcli c = Ret () d" using z by (simp add: pushcli_run d_def)
    have "cli_ok d" by (simp add: cli_ok_def d_def)
    then have push: "times n pushcli c = Ret () (d\<lparr>ncli := 1 + int m\<rparr>)"
      using d times_push [of d m] by (simp add: Suc d_def)
    have "popcli d = Ret () (if int_enabled c then sti (d\<lparr>ncli := 0\<rparr>) else d\<lparr>ncli := 0\<rparr>)"
      by (subst popcli_outer) (simp_all add: d_def)
    moreover have "times n popcli (d\<lparr>ncli := 1 + int m\<rparr>) = popcli d"
      unfolding Suc times_Suc_right using times_pop [of "d\<lparr>ncli := 1 + int m\<rparr>" m]
      by (simp add: d_def)
    moreover have "cpsr (sti (d\<lparr>ncli := 0\<rparr>)) = cpsr c" if "int_enabled c"
    proof -
      have "cpsr (sti (d\<lparr>ncli := 0\<rparr>)) = cpsr (sti (cli c))" by (simp add: sti_def d_def)
      then show ?thesis by (simp only: cli_sti [OF that])
    qed
    moreover have "cpsr d = cpsr c" if "\<not> int_enabled c"
      using cli_idle [OF that] by (simp add: d_def)
    ultimately show ?thesis using push z by (auto simp: sti_def)
  qed simp
qed

theorem pushcli_popcli_nest_witness:
  "\<exists>c'. kbind (times 2 pushcli) (\<lambda>_. times 2 popcli) \<lparr>cpsr = 0x13, ncli = 0, intena = False\<rparr> = Ret () c'
    \<and> cpsr c' = 0x13 \<and> ncli c' = 0"
  using pushcli_popcli_nest [of "\<lparr>cpsr = 0x13, ncli = 0, intena = False\<rparr>" 2] by (simp add: cli_ok_def)

section \<open>Mutual exclusion\<close>

text \<open>
  The invariant of the lock code: a lock word is 1 exactly while some CPU owns the lock, at most one
  CPU owns it, no CPU is twice in a critical section of the same lock, and a live reservation means
  that the word still has the value the load-exclusive saw.
\<close>

definition lock_inv :: "smp \<Rightarrow> bool" where
  "lock_inv m \<longleftrightarrow>
     (\<forall>l. locked (locks m l) = (if \<exists>c. owns m c l then 1 else 0))
     \<and> (\<forall>l c d. owns m c l \<longrightarrow> owns m d l \<longrightarrow> c = d)
     \<and> (\<forall>c l. l \<in> held m c \<longrightarrow> pc m c \<noteq> Own l \<and> pc m c \<noteq> Rel l)
     \<and> (\<forall>c l v. pc m c = Loaded l v \<longrightarrow> excl m c = Some l \<longrightarrow> locked (locks m l) = v)"

lemma lock_invD:
  assumes "lock_inv m"
  shows "locked (locks m l) = (if \<exists>c. owns m c l then 1 else 0)"
    and "owns m c l \<Longrightarrow> owns m d l \<Longrightarrow> c = d"
    and "l \<in> held m c \<Longrightarrow> pc m c \<noteq> Own l \<and> pc m c \<noteq> Rel l"
    and "pc m c = Loaded l v \<Longrightarrow> excl m c = Some l \<Longrightarrow> locked (locks m l) = v"
  using assms unfolding lock_inv_def by blast+

text \<open>Steps that change neither the owners nor the lock words.\<close>

lemma lock_inv_frame:
  assumes "lock_inv m" and "\<And>c l. owns m' c l = owns m c l"
    and "\<And>l. locked (locks m' l) = locked (locks m l)"
    and "\<And>c l. l \<in> held m' c \<Longrightarrow> pc m' c \<noteq> Own l \<and> pc m' c \<noteq> Rel l"
    and "\<And>c l v. pc m' c = Loaded l v \<Longrightarrow> excl m' c = Some l \<Longrightarrow>
      locked (locks m l) = v \<or> (pc m c = Loaded l v \<and> excl m c = Some l)"
  shows "lock_inv m'"
  unfolding lock_inv_def assms(2,3)
proof (intro conjI allI impI)
  show "pc m' c \<noteq> Own l" "pc m' c \<noteq> Rel l" if "l \<in> held m' c" for c l
    using assms(4) [OF that] by auto
  show "locked (locks m l) = v" if "pc m' c = Loaded l v" "excl m' c = Some l" for c l v
    using assms(5) [OF that] lock_invD(4) [OF assms(1)] by blast
  show "locked (locks m l) = (if \<exists>c. owns m c l then 1 else 0)" for l
    by (rule lock_invD(1) [OF assms(1)])
  show "c = d" if "owns m c l" "owns m d l" for l c d
    using that by (rule lock_invD(2) [OF assms(1)])
qed

text \<open>The store-exclusive that takes a lock makes its CPU the one owner.\<close>

lemma lock_inv_take:
  assumes "pc m c = Loaded l 0" and "excl m c = Some l" and inv: "lock_inv m"
  shows "lock_inv ((store_locked l 1 m)\<lparr>pc := (pc m)(c := Own l)\<rparr>)" (is "lock_inv ?m")
  unfolding lock_inv_def
proof (intro conjI allI impI)
  have "locked (locks m l) = 0" using lock_invD(4) [OF inv] assms(1,2) by blast
  then have no: "\<not> owns m d l" for d
    using lock_invD(1) [OF inv, of l] by (auto split: if_splits)
  have o: "owns ?m d k \<longleftrightarrow> owns m d k \<or> d = c \<and> k = l" for d k
    using assms(1) by (auto simp: owns_def store_locked_def)
  show "locked (locks ?m k) = (if \<exists>d. owns ?m d k then 1 else 0)" for k
    unfolding o using lock_invD(1) [OF inv, of k] by (auto simp: store_locked_def)
  show "d = e" if "owns ?m d k" "owns ?m e k" for k d e
    using that no lock_invD(2) [OF inv] unfolding o by blast
  show "pc ?m d \<noteq> Own k" "pc ?m d \<noteq> Rel k" if "k \<in> held ?m d" for d k
    using that lock_invD(3) [OF inv, of k d] no [of c]
    by (auto simp: store_locked_def owns_def split: if_splits)
  show "locked (locks ?m k) = v" if "pc ?m d = Loaded k v" "excl ?m d = Some k" for d k v
    using that lock_invD(4) [OF inv] by (auto simp: store_locked_def split: if_splits)
qed

text \<open>The store of 0 that releases a lock leaves it without an owner.\<close>

lemma lock_inv_drop:
  assumes "pc m c = Rel l" and inv: "lock_inv m"
  shows "lock_inv ((store_locked l 0 m)\<lparr>pc := (pc m)(c := Pop)\<rparr>)" (is "lock_inv ?m")
  unfolding lock_inv_def
proof (intro conjI allI impI)
  have own: "owns m c l" using assms(1) by (simp add: owns_def)
  have o: "owns ?m d k \<longleftrightarrow> owns m d k \<and> \<not> (d = c \<and> k = l)" for d k
    using assms(1) lock_invD(3) [OF inv, of l c] by (auto simp: owns_def store_locked_def)
  show "locked (locks ?m k) = (if \<exists>d. owns ?m d k then 1 else 0)" for k
    unfolding o using lock_invD(1) [OF inv, of k] lock_invD(2) [OF inv own]
    by (auto simp: store_locked_def)
  show "d = e" if "owns ?m d k" "owns ?m e k" for k d e
    using that lock_invD(2) [OF inv] unfolding o by blast
  show "pc ?m d \<noteq> Own k" "pc ?m d \<noteq> Rel k" if "k \<in> held ?m d" for d k
    using that lock_invD(3) [OF inv, of k d]
    by (auto simp: store_locked_def split: if_splits)
  show "locked (locks ?m k) = v" if "pc ?m d = Loaded k v" "excl ?m d = Some k" for d k v
    using that lock_invD(4) [OF inv] by (auto simp: store_locked_def split: if_splits)
qed

lemma lock_inv_step:
  assumes "lock_step m m'" and "lock_inv m"
  shows "lock_inv m'"
  using assms
proof induction
  case (acquire_pushcli m c k l)
  show ?case
    by (rule lock_inv_frame [OF acquire_pushcli(3)])
      (use acquire_pushcli(1) lock_invD(3) [OF acquire_pushcli(3)] in \<open>auto simp: owns_def split: if_splits\<close>)
next
  case (acquire_ldrex m c l)
  show ?case
    by (rule lock_inv_frame [OF acquire_ldrex(2)])
      (use acquire_ldrex(1) lock_invD(3) [OF acquire_ldrex(2)] in \<open>auto simp: owns_def split: if_splits\<close>)
next
  case (acquire_spin m c l v)
  show ?case
    by (rule lock_inv_frame [OF acquire_spin(3)])
      (use acquire_spin(1) lock_invD(3) [OF acquire_spin(3)] in \<open>auto simp: owns_def split: if_splits\<close>)
next
  case (acquire_strex m c l)
  then show ?case by (rule lock_inv_take)
next
  case (acquire_strex_fail m c l)
  show ?case
    by (rule lock_inv_frame [OF acquire_strex_fail(3)])
      (use acquire_strex_fail(1) lock_invD(3) [OF acquire_strex_fail(3)] in \<open>auto simp: owns_def split: if_splits\<close>)
next
  case (acquire_done m c l)
  show ?case
    by (rule lock_inv_frame [OF acquire_done(2)])
      (use acquire_done(1) lock_invD(3) [OF acquire_done(2)] in \<open>auto simp: owns_def split: if_splits\<close>)
next
  case (release_cpu m c l)
  show ?case
    by (rule lock_inv_frame [OF release_cpu(3)])
      (use release_cpu(1,2) lock_invD(3) [OF release_cpu(3)] in \<open>auto simp: owns_def split: if_splits\<close>)
next
  case (release_store m c l)
  then show ?case by (rule lock_inv_drop)
next
  case (release_popcli m c k)
  show ?case
    by (rule lock_inv_frame [OF release_popcli(3)])
      (use release_popcli(1) lock_invD(3) [OF release_popcli(3)] in \<open>auto simp: owns_def split: if_splits\<close>)
qed

lemma smp_run_inv: "smp_run m \<Longrightarrow> lock_inv m"
proof (induction rule: smp_run.induct)
  case (start m)
  then show ?case by (auto simp: smp_start_def lock_inv_def owns_def)
qed (rule lock_inv_step)

text \<open>
  C3: in every reachable state of the machine, under every interleaving of the instructions of the
  CPUs, at most one CPU is in the critical section of a lock, and while one is, the lock word is set
  and no store-exclusive of another CPU on it can succeed.
\<close>

theorem mutual_exclusion:
  assumes "smp_run m" and "owns m c l"
  shows "locked (locks m l) = 1 \<and> (\<forall>d. owns m d l \<longrightarrow> d = c)
    \<and> (\<forall>d. pc m d = Loaded l 0 \<longrightarrow> excl m d \<noteq> Some l)"
proof -
  note inv = smp_run_inv [OF assms(1)]
  have "locked (locks m l) = 1" using lock_invD(1) [OF inv, of l] assms(2) by auto
  moreover have "\<forall>d. owns m d l \<longrightarrow> d = c" using lock_invD(2) [OF inv] assms(2) by blast
  moreover have "excl m d \<noteq> Some l" if "pc m d = Loaded l 0" for d
    using lock_invD(4) [OF inv that] \<open>locked (locks m l) = 1\<close> by auto
  ultimately show ?thesis by blast
qed

text \<open>A run in which CPU 0 acquires lock 0.\<close>

lemma acquire_example: "\<exists>m. smp_run m \<and> owns m 0 0"
proof -
  define c where "c = \<lparr>cpsr = 0x13, ncli = 0, intena = False\<rparr>"
  define m0 where "m0 = \<lparr>cpus = (\<lambda>_. c), locks = (\<lambda>_. \<lparr>locked = 0, lk_cpu = None, lk_pc0 = 0\<rparr>),
    excl = (\<lambda>_. None), pc = (\<lambda>_. Run), held = (\<lambda>_. {})\<rparr>"
  have "smp_run m0" by (rule smp_run.start) (simp add: smp_start_def m0_def c_def)
  moreover obtain k where "pushcli (cpus m0 0) = Ret () k" by (auto simp: pushcli_run)
  ultimately obtain m1 where m1: "smp_run m1" "pc m1 0 = Spin 0" "locked (locks m1 0) = 0"
    using lock_step.acquire_pushcli [of m0 0 k 0] smp_run.step
    by (fastforce simp: m0_def)
  then obtain m2 where m2: "smp_run m2" "pc m2 0 = Loaded 0 0" "excl m2 0 = Some 0"
    using lock_step.acquire_ldrex [of m1 0 0] smp_run.step by fastforce
  then have "smp_run ((store_locked 0 1 m2)\<lparr>pc := (pc m2)(0 := Own 0)\<rparr>)"
    using lock_step.acquire_strex smp_run.step by blast
  then show ?thesis by (intro exI conjI) (auto simp: owns_def)
qed

theorem mutual_exclusion_witness:
  "\<exists>m. smp_run m \<and> owns m 0 0 \<and> locked (locks m 0) = 1 \<and> \<not> owns m 1 0"
proof -
  obtain m where m: "smp_run m" "owns m 0 0" using acquire_example by blast
  from mutual_exclusion [OF this] m show ?thesis by (intro exI [of _ m]) auto
qed

text \<open>
  The depth of interrupt masking is the number of locks held, plus one inside the lock code: the
  popcli of a release never panics, and interrupts stay masked until the last release.
\<close>

definition depth_inv :: "smp \<Rightarrow> bool" where
  "depth_inv m \<longleftrightarrow> (\<forall>c. finite (held m c) \<and> cli_ok (cpus m c)
     \<and> ncli (cpus m c) = int (card (held m c)) + (if pc m c = Run then 0 else 1))"

lemma cli_ok_pushcli: "cli_ok c \<Longrightarrow> pushcli c = Ret () k \<Longrightarrow> cli_ok k \<and> ncli k = ncli c + 1"
  by (auto simp: pushcli_run cli_ok_def)

lemma cli_ok_popcli:
  assumes "cli_ok c" and "0 < ncli c"
  shows "\<exists>k. popcli c = Ret () k \<and> cli_ok k \<and> ncli k = ncli c - 1"
proof (cases "ncli c = 1")
  case True
  with assms show ?thesis by (auto simp: popcli_outer cli_ok_def sti_def)
next
  case False
  with assms show ?thesis by (auto simp: popcli_inner cli_ok_def)
qed

lemma depth_inv_step:
  assumes "lock_step m m'" and "lock_inv m" and "depth_inv m"
  shows "depth_inv m'"
  using assms
proof induction
  case (acquire_pushcli m c k l)
  then show ?case using cli_ok_pushcli [of "cpus m c" k] by (auto simp: depth_inv_def)
next
  case (acquire_done m c l)
  then have "l \<notin> held m c" using lock_invD(3) by blast
  with acquire_done show ?case by (auto simp: depth_inv_def)
next
  case (release_cpu m c l)
  then have "card (held m c) = Suc (card (held m c - {l}))"
    unfolding depth_inv_def by (intro card.remove) auto
  with release_cpu show ?case by (auto simp: depth_inv_def)
next
  case (release_popcli m c k)
  then have "cli_ok k \<and> ncli k = ncli (cpus m c) - 1"
    using cli_ok_popcli [of "cpus m c"] by (auto simp: depth_inv_def)
  with release_popcli show ?case by (auto simp: depth_inv_def)
qed (auto simp: depth_inv_def store_locked_def)

lemma smp_run_depth: "smp_run m \<Longrightarrow> depth_inv m"
proof (induction rule: smp_run.induct)
  case (start m)
  then show ?case by (auto simp: smp_start_def depth_inv_def cli_ok_def)
next
  case (step m m')
  then show ?case using depth_inv_step smp_run_inv by blast
qed

text \<open>
  A CPU that holds a lock, or is acquiring or releasing one, runs with interrupts masked, so no
  interrupt handler can spin on a lock its own CPU holds; and the \<^verbatim>\<open>popcli\<close> of a release never
  panics.
\<close>

theorem lock_holder_masked:
  assumes "smp_run m" and "held m c \<noteq> {} \<or> pc m c \<noteq> Run"
  shows "\<not> int_enabled (cpus m c) \<and> (\<exists>k. popcli (cpus m c) = Ret () k)"
proof -
  have d: "finite (held m c)" "cli_ok (cpus m c)"
    "ncli (cpus m c) = int (card (held m c)) + (if pc m c = Run then 0 else 1)"
    using smp_run_depth [OF assms(1)] by (auto simp: depth_inv_def)
  then have "0 < ncli (cpus m c)" using assms(2) by (auto simp: card_gt_0_iff)
  with d(2) cli_ok_popcli show ?thesis by (fastforce simp: cli_ok_def)
qed

theorem lock_holder_masked_witness:
  "\<exists>m. smp_run m \<and> owns m 0 0 \<and> \<not> int_enabled (cpus m 0)"
proof -
  obtain m where m: "smp_run m" "owns m 0 0" using acquire_example by blast
  then have "held m 0 \<noteq> {} \<or> pc m 0 \<noteq> Run" by (auto simp: owns_def)
  from lock_holder_masked [OF m(1) this] m show ?thesis by blast
qed

end
