(* ===== verification/Vm.thy ===== *)
theory Vm
  imports CString Buddy_Spec
begin

unbundle bit_operations_syntax

text \<open>
  Virtual memory (\<^verbatim>\<open>source/vm.c\<close>): two-level ARM page tables in kernel memory, their allocation
  (from a boot-time list, then from the buddy allocator), mapping, growing, shrinking, copying and
  freeing of user address spaces, and copying into them. The state extends the allocator's with the
  memory itself. Reading the program file (\<^verbatim>\<open>loaduvm\<close>) belongs to the file system's clients.
\<close>

section \<open>Memory words\<close>

definition ld32 :: "cmem \<Rightarrow> nat \<Rightarrow> uint" where
  "ld32 m p = ucast (m p) OR push_bit 8 (ucast (m (p + 1)))
     OR push_bit 16 (ucast (m (p + 2))) OR push_bit 24 (ucast (m (p + 3)))"

text \<open>
  The memory, the list of page tables set aside at start-up (a linked list through the free blocks
  themselves) and the translation table base register of each CPU.
\<close>

record vmem = kmem +
  pm :: cmem
  kpt_freelist :: uint
  ttbr0 :: "nat \<Rightarrow> uint"

definition load :: "uint \<Rightarrow> ('z vmem_scheme, uint) kop" where
  "load a = kget (\<lambda>s. ld32 (pm s) (unat a))"

definition store :: "uint \<Rightarrow> uint \<Rightarrow> ('z vmem_scheme, unit) kop" where
  "store a v = kmod (\<lambda>s. s\<lparr>pm := store32 (unat a) v (pm s)\<rparr>)"

definition zero_mem :: "uint \<Rightarrow> int \<Rightarrow> ('z vmem_scheme, unit) kop" where
  "zero_mem a n = kmod (\<lambda>s. s\<lparr>pm := memset (unat a) 0 n (pm s)\<rparr>)"

definition move_mem :: "uint \<Rightarrow> uint \<Rightarrow> uint \<Rightarrow> ('z vmem_scheme, unit) kop" where
  "move_mem d a n = kmod (\<lambda>s. s\<lparr>pm := memmove (unat d) (unat a) n (pm s)\<rparr>)"

section \<open>Constants and address arithmetic\<close>

abbreviation (input) KERNBASE :: uint where "KERNBASE \<equiv> 0x80000000"
abbreviation (input) KERNLINK :: uint where "KERNLINK \<equiv> 0x80000000"
abbreviation (input) HVECTORS :: uint where "HVECTORS \<equiv> 0xFFFF0000"
abbreviation (input) UADDR_SZ :: uint where "UADDR_SZ \<equiv> 0x10000000"
abbreviation (input) PTE_SZ :: uint where "PTE_SZ \<equiv> 0x1000"
abbreviation (input) PDE_SZ :: uint where "PDE_SZ \<equiv> 0x100000"
abbreviation (input) PT_SZ :: uint where "PT_SZ \<equiv> 0x400"
abbreviation (input) PE_TYPES :: uint where "PE_TYPES \<equiv> 3"
abbreviation (input) UPDE_TYPE :: uint where "UPDE_TYPE \<equiv> 1"
abbreviation (input) AP_KO :: uint where "AP_KO \<equiv> 1"
abbreviation (input) AP_KU :: uint where "AP_KU \<equiv> 3"

definition v2p :: "uint \<Rightarrow> uint" where "v2p a = a - KERNBASE"
definition p2v :: "uint \<Rightarrow> uint" where "p2v a = a + KERNBASE"

definition PDE_IDX :: "uint \<Rightarrow> uint" where "PDE_IDX v = drop_bit 20 v"
definition PTE_IDX :: "uint \<Rightarrow> uint" where "PTE_IDX v = drop_bit 12 v AND (256 - 1)"
definition PTE_ADDR :: "uint \<Rightarrow> uint" where "PTE_ADDR v = align_dn v PTE_SZ"
definition PT_ADDR :: "uint \<Rightarrow> uint" where "PT_ADDR v = align_dn v PT_SZ"
definition PTE_AP :: "uint \<Rightarrow> uint" where "PTE_AP pte = drop_bit 4 pte AND 3"

text \<open>The page table entry that \<^verbatim>\<open>mappages\<close> writes.\<close>

definition mk_pte :: "uint \<Rightarrow> uint \<Rightarrow> uint" where
  "mk_pte pa ap = pa OR push_bit 4 (ap AND 3) OR 8 OR 4 OR 2"

section \<open>Page table memory\<close>

definition init_vmm :: "('z vmem_scheme, unit) kop" where
  "init_vmm = kmod (\<lambda>s. s\<lparr>kpt_freelist := 0\<rparr>)"

definition kpt_put :: "uint \<Rightarrow> ('z vmem_scheme, unit) kop" where
  "kpt_put v =
     kbind (kget kpt_freelist) (\<lambda>next.
     kbind (store v next) (\<lambda>_.
     kmod (\<lambda>s. s\<lparr>kpt_freelist := v\<rparr>)))"

text \<open>\<^verbatim>\<open>P2V(KERNLINK)\<close> is a sum of 32-bit addresses.\<close>

definition kpt_free :: "uint \<Rightarrow> ('z vmem_scheme, unit) kop" where
  "kpt_free v = (if v \<ge> p2v KERNLINK then kfree v 10 else kpt_put v)"

text \<open>
  The values of a loop variable that runs from \<open>low\<close> in steps of \<open>sz\<close> while it is below \<open>hi\<close>, for a
  bound that is not within one step of the end of the address space.
\<close>

definition steps :: "uint \<Rightarrow> uint \<Rightarrow> nat \<Rightarrow> uint list" where
  "steps low hi sz = map (\<lambda>j. low + word_of_nat (j * sz)) [0..<(unat hi - unat low + (sz - 1)) div sz]"

definition kpt_freerange :: "uint \<Rightarrow> uint \<Rightarrow> ('z vmem_scheme, unit) kop" where
  "kpt_freerange low hi = kfor kpt_put (steps low hi 1024)"

definition kpt_alloc :: "('z vmem_scheme, uint) kop" where
  "kpt_alloc =
     kbind (kget kpt_freelist) (\<lambda>r.
     kbind (if r \<noteq> 0 then kbind (load r) (\<lambda>next. kmod (\<lambda>s. s\<lparr>kpt_freelist := next\<rparr>)) else kreturn ()) (\<lambda>_.
     kbind (if r = 0 then kbind (kmalloc 10) (\<lambda>q. if q = 0 then panic ''oom: kpt_alloc'' else kreturn q)
            else kreturn r) (\<lambda>q.
     kbind (zero_mem q 1024) (\<lambda>_.
     kreturn q))))"

section \<open>Walking and mapping\<close>

definition walkpgdir :: "uint \<Rightarrow> uint \<Rightarrow> bool \<Rightarrow> ('z vmem_scheme, uint) kop" where
  "walkpgdir pgdir va alloc =
     (let pde = pgdir + 4 * PDE_IDX va in
      kbind (load pde) (\<lambda>e.
      if e AND PE_TYPES \<noteq> 0 then kreturn (p2v (PT_ADDR e) + 4 * PTE_IDX va)
      else if \<not> alloc then kreturn 0
      else kbind kpt_alloc (\<lambda>pgtab.
           if pgtab = 0 then kreturn 0
           else kbind (zero_mem pgtab 1024) (\<lambda>_.
                kbind (store pde (v2p pgtab OR UPDE_TYPE)) (\<lambda>_.
                kreturn (pgtab + 4 * PTE_IDX va))))))"

text \<open>
  The loop of \<^verbatim>\<open>mappages\<close> leaves when \<open>a = last\<close>; both are page aligned, so that is after exactly
  \<open>(last - a) / PTE_SZ\<close> more rounds, also when the difference wraps.
\<close>

fun map_loop :: "nat \<Rightarrow> uint \<Rightarrow> uint \<Rightarrow> uint \<Rightarrow> uint \<Rightarrow> ('z vmem_scheme, int) kop" where
  "map_loop n pgdir a pa ap =
     kbind (walkpgdir pgdir a True) (\<lambda>pte.
     if pte = 0 then kreturn (-1)
     else kbind (load pte) (\<lambda>e.
          if e AND PE_TYPES \<noteq> 0 then panic ''remap''
          else kbind (store pte (mk_pte pa ap)) (\<lambda>_.
               case n of 0 \<Rightarrow> kreturn 0
               | Suc m \<Rightarrow> map_loop m pgdir (a + PTE_SZ) (pa + PTE_SZ) ap)))"

declare map_loop.simps [simp del]

definition mappages :: "uint \<Rightarrow> uint \<Rightarrow> uint \<Rightarrow> uint \<Rightarrow> uint \<Rightarrow> ('z vmem_scheme, int) kop" where
  "mappages pgdir va sz pa ap =
     (let a = align_dn va PTE_SZ; last = align_dn (va + sz - 1) PTE_SZ
      in map_loop (unat (last - a) div 4096) pgdir a pa ap)"

text \<open>The register write; the flush of caches and TLB has no effect on this state.\<close>

definition switchuvm :: "nat \<Rightarrow> uint \<Rightarrow> ('z vmem_scheme, unit) kop" where
  "switchuvm cpu pgdir =
     (if pgdir = 0 then panic ''switchuvm: no pgdir''
      else kmod (\<lambda>s. s\<lparr>ttbr0 := (ttbr0 s)(cpu := v2p pgdir OR 2 OR 8 OR 0x40)\<rparr>))"

definition inituvm :: "uint \<Rightarrow> uint \<Rightarrow> uint \<Rightarrow> ('z vmem_scheme, unit) kop" where
  "inituvm pgdir init sz =
     (if sz \<ge> PTE_SZ then panic ''inituvm: more than a page''
      else kbind alloc_page (\<lambda>mem.
           kbind (zero_mem mem 4096) (\<lambda>_.
           kbind (mappages pgdir 0 PTE_SZ (v2p mem) AP_KU) (\<lambda>_.
           move_mem mem init sz))))"

section \<open>Growing, shrinking, freeing and copying an address space\<close>

text \<open>
  The loop of \<^verbatim>\<open>deallocuvm\<close>. When there is no page table for \<open>a\<close>, the variable is rounded up to the
  next directory entry and then still advanced by a page. Near the end of the address space the variable
  could wrap around and the loop never end; user sizes are at most \<open>UADDR_SZ\<close>, so that branch is out of
  reach.
\<close>

function dealloc_loop :: "uint \<Rightarrow> uint \<Rightarrow> uint \<Rightarrow> ('z vmem_scheme, unit) kop" where
  "dealloc_loop pgdir a oldsz =
     (if \<not> a < oldsz then kreturn ()
      else if 2 ^ 32 \<le> unat a + 0x100000 + 0x1000 then fault ''deallocuvm does not terminate''
      else kbind (walkpgdir pgdir a False) (\<lambda>pte.
           if pte = 0 then dealloc_loop pgdir (align_up a PDE_SZ + PTE_SZ) oldsz
           else kbind (load pte) (\<lambda>e.
                kbind (if e AND PE_TYPES \<noteq> 0
                       then if PTE_ADDR e = 0 then panic ''deallocuvm''
                            else kbind (free_page (p2v (PTE_ADDR e))) (\<lambda>_. store pte 0)
                       else kreturn ()) (\<lambda>_.
                dealloc_loop pgdir (a + PTE_SZ) oldsz))))"
  by pat_completeness auto
termination
proof (relation "measure (\<lambda>(pgdir, a, oldsz). 2 ^ 32 - unat a)")
  fix pgdir a oldsz x :: uint
  assume w: "\<not> 2 ^ 32 \<le> unat a + 0x100000 + 0x1000"
  then have "unat (a + PTE_SZ) = unat a + 4096" by (simp add: unat_word_ariths)
  then show "((pgdir, a + PTE_SZ, oldsz), pgdir, a, oldsz) \<in> measure (\<lambda>(pgdir, a, oldsz). 2 ^ 32 - unat a)"
    using w by simp
next
  fix pgdir a oldsz x :: uint
  assume w: "\<not> 2 ^ 32 \<le> unat a + 0x100000 + 0x1000"
  then have u: "unat (align_up a PDE_SZ) = (unat a + 0xFFFFF) div 0x100000 * 0x100000"
    using unat_align_up [of a 20] by simp
  have "(unat a + 0xFFFFF) mod 0x100000 < 0x100000" by simp
  then have r: "unat a \<le> unat (align_up a PDE_SZ)" "unat (align_up a PDE_SZ) \<le> unat a + 0xFFFFF"
    unfolding u using div_mult_mod_eq [of "unat a + 0xFFFFF" "0x100000"] by linarith+
  then have "unat (align_up a PDE_SZ + PTE_SZ) = unat (align_up a PDE_SZ) + 4096"
    using w by (simp add: unat_word_ariths)
  then show "((pgdir, align_up a PDE_SZ + PTE_SZ, oldsz), pgdir, a, oldsz)
      \<in> measure (\<lambda>(pgdir, a, oldsz). 2 ^ 32 - unat a)"
    using w r by simp
qed auto

declare dealloc_loop.simps [simp del]

definition deallocuvm :: "uint \<Rightarrow> uint \<Rightarrow> uint \<Rightarrow> ('z vmem_scheme, uint) kop" where
  "deallocuvm pgdir oldsz newsz =
     (if newsz \<ge> oldsz then kreturn oldsz
      else kbind (dealloc_loop pgdir (align_up newsz PTE_SZ) oldsz) (\<lambda>_. kreturn newsz))"

text \<open>The loop of \<^verbatim>\<open>allocuvm\<close> over the pages; it returns whether every page could be allocated.\<close>

fun alloc_loop :: "uint \<Rightarrow> uint list \<Rightarrow> ('z vmem_scheme, bool) kop" where
  "alloc_loop pgdir [] = kreturn True"
| "alloc_loop pgdir (a # as) =
     kbind alloc_page (\<lambda>mem.
     if mem = 0 then kreturn False
     else kbind (zero_mem mem 4096) (\<lambda>_.
          kbind (mappages pgdir a PTE_SZ (v2p mem) AP_KU) (\<lambda>_.
          alloc_loop pgdir as)))"

definition allocuvm :: "uint \<Rightarrow> uint \<Rightarrow> uint \<Rightarrow> ('z vmem_scheme, uint) kop" where
  "allocuvm pgdir oldsz newsz =
     (if newsz \<ge> UADDR_SZ then kreturn 0
      else if newsz < oldsz then kreturn oldsz
      else kbind (alloc_loop pgdir (steps (align_up oldsz PTE_SZ) newsz 4096)) (\<lambda>ok.
           if ok then kreturn newsz
           else kbind (deallocuvm pgdir newsz oldsz) (\<lambda>_. kreturn 0)))"

definition free_table :: "uint \<Rightarrow> nat \<Rightarrow> ('z vmem_scheme, unit) kop" where
  "free_table pgdir i =
     kbind (load (pgdir + 4 * word_of_nat i)) (\<lambda>e.
     if e AND PE_TYPES \<noteq> 0 then kpt_free (p2v (PT_ADDR e)) else kreturn ())"

definition freevm :: "uint \<Rightarrow> ('z vmem_scheme, unit) kop" where
  "freevm pgdir =
     (if pgdir = 0 then panic ''freevm: no pgdir''
      else kbind (deallocuvm pgdir UADDR_SZ 0) (\<lambda>_.
           kbind (kfor (free_table pgdir) [0..<256]) (\<lambda>_.
           kpt_free pgdir)))"

definition clearpteu :: "uint \<Rightarrow> uint \<Rightarrow> ('z vmem_scheme, unit) kop" where
  "clearpteu pgdir uva =
     kbind (walkpgdir pgdir uva False) (\<lambda>pte.
     if pte = 0 then panic ''clearpteu''
     else kbind (load pte) (\<lambda>e. store pte ((e AND NOT (push_bit 4 3)) OR push_bit 4 AP_KO)))"

text \<open>The loop of \<^verbatim>\<open>copyuvm\<close>; it returns whether every page could be copied.\<close>

fun copy_loop :: "uint \<Rightarrow> uint \<Rightarrow> uint list \<Rightarrow> ('z vmem_scheme, bool) kop" where
  "copy_loop pgdir d [] = kreturn True"
| "copy_loop pgdir d (i # is) =
     kbind (walkpgdir pgdir i False) (\<lambda>pte.
     if pte = 0 then panic ''copyuvm: pte should exist''
     else kbind (load pte) (\<lambda>e.
          if e AND PE_TYPES = 0 then panic ''copyuvm: page not present''
          else kbind alloc_page (\<lambda>mem.
               if mem = 0 then kreturn False
               else kbind (move_mem mem (p2v (PTE_ADDR e)) PTE_SZ) (\<lambda>_.
                    kbind (mappages d i PTE_SZ (v2p mem) (PTE_AP e)) (\<lambda>r.
                    if r < 0 then kreturn False else copy_loop pgdir d is)))))"

definition copyuvm :: "uint \<Rightarrow> uint \<Rightarrow> ('z vmem_scheme, uint) kop" where
  "copyuvm pgdir sz =
     kbind kpt_alloc (\<lambda>d.
     if d = 0 then kreturn 0
     else kbind (copy_loop pgdir d (steps 0 sz 4096)) (\<lambda>ok.
          if ok then kreturn d
          else kbind (freevm d) (\<lambda>_. kreturn 0)))"

section \<open>User addresses\<close>

text \<open>\<^verbatim>\<open>uva2ka\<close> reads the entry without testing for a missing page table.\<close>

definition uva2ka :: "uint \<Rightarrow> uint \<Rightarrow> ('z vmem_scheme, uint) kop" where
  "uva2ka pgdir uva =
     kbind (walkpgdir pgdir uva False) (\<lambda>pte.
     if pte = 0 then fault ''uva2ka: null pte''
     else kbind (load pte) (\<lambda>e.
          if e AND PE_TYPES = 0 then kreturn 0
          else if PTE_AP e \<noteq> AP_KU then kreturn 0
          else kreturn (p2v (PTE_ADDR e))))"

definition copy_chunk :: "uint \<Rightarrow> uint \<Rightarrow> uint" where
  "copy_chunk va len =
     (let n = PTE_SZ - (va - align_dn va PTE_SZ) in if n > len then len else n)"

lemma page_offset: "unat (va - align_dn va 0x1000) = unat va mod 4096"
proof -
  have d: "unat (align_dn va (2 ^ 12)) = unat va div 2 ^ 12 * 2 ^ 12" by (rule unat_align_dn) simp
  then have "align_dn va (2 ^ 12) \<le> va" by (simp add: word_le_nat_alt)
  then have "unat (va - align_dn va (2 ^ 12)) = unat va - unat va div 2 ^ 12 * 2 ^ 12"
    using d by (simp add: unat_sub)
  then show ?thesis by (simp add: modulo_nat_def)
qed

lemma unat_copy_chunk: "unat (copy_chunk va len) = min (4096 - unat va mod 4096) (unat len)"
proof -
  have "va - align_dn va 0x1000 \<le> 0x1000"
    using page_offset [of va] by (simp add: word_le_nat_alt)
  then have "unat (0x1000 - (va - align_dn va 0x1000)) = 4096 - unat va mod 4096"
    by (simp add: unat_sub page_offset)
  then show ?thesis by (auto simp: copy_chunk_def Let_def word_less_nat_alt)
qed

function copyout :: "uint \<Rightarrow> uint \<Rightarrow> uint \<Rightarrow> uint \<Rightarrow> ('z vmem_scheme, int) kop" where
  "copyout pgdir va buf len =
     (if len = 0 then kreturn 0
      else let va0 = align_dn va PTE_SZ in
           kbind (uva2ka pgdir va0) (\<lambda>pa0.
           if pa0 = 0 then kreturn (-1)
           else let n = copy_chunk va len in
                kbind (move_mem (pa0 + (va - va0)) buf n) (\<lambda>_.
                copyout pgdir (va0 + PTE_SZ) (buf + n) (len - n))))"
  by pat_completeness auto
termination
proof (relation "measure (\<lambda>(pgdir, va, buf, len). unat len)")
  fix pgdir va buf len x xa xb xc
  assume "len \<noteq> (0 :: uint)" and "xb = copy_chunk va len"
  moreover then have "0 < unat len" by (simp add: unat_gt_0)
  ultimately have "0 < unat xb" "unat xb \<le> unat len"
    using unat_copy_chunk [of va len] by simp_all
  then have "unat (len - xb) < unat len" by (simp add: unat_sub word_le_nat_alt)
  then show "((pgdir, x + PTE_SZ, buf + xb, len - xb), pgdir, va, buf, len)
      \<in> measure (\<lambda>(pgdir, va, buf, len). unat len)" by simp
qed auto

declare copyout.simps [simp del]

section \<open>The kernel's own map\<close>

definition paging_init :: "uint \<Rightarrow> uint \<Rightarrow> uint \<Rightarrow> ('z vmem_scheme, unit) kop" where
  "paging_init kernel_pgtbl phy_low phy_hi =
     kbind (mappages kernel_pgtbl (p2v phy_low) (phy_hi - phy_low) phy_low AP_KU) (\<lambda>_. kreturn ())"

definition map_vectors :: "uint \<Rightarrow> uint \<Rightarrow> ('z vmem_scheme, unit) kop" where
  "map_vectors kernel_pgtbl vector_start =
     kbind (mappages kernel_pgtbl HVECTORS PTE_SZ vector_start AP_KO) (\<lambda>_. kreturn ())"

end
