(* ===== verification/Vm_Proofs.thy ===== *)
theory Vm_Proofs
  imports Vm
begin

unbundle bit_operations_syntax

text \<open>
  Correctness of the page table code: an address space as a map from user pages to entries, the
  invariant that its tables and frames are disjoint and not free, and what mapping, allocation and
  copying do to it.
\<close>

section \<open>Words in memory\<close>

lemma ld32_store32 [simp]: "ld32 (store32 p v m) p = v"
proof (rule bit_word_eqI)
  fix n assume n: "n < LENGTH(32)"
  have "24 + (n - 24) = n \<or> n - 16 < 8" using n by arith
  then show "bit (ld32 (store32 p v m) p) n = bit v n"
    using n by (auto simp: ld32_def store32_def bit_simps)
qed

lemma ld32_cong: "(\<And>a. p \<le> a \<Longrightarrow> a < p + 4 \<Longrightarrow> m' a = m a) \<Longrightarrow> ld32 m' p = ld32 m p"
  by (simp add: ld32_def)

lemma store32_other: "a < p \<or> p + 4 \<le> a \<Longrightarrow> store32 p v m a = m a"
  by (auto simp: store32_def)

lemma ld32_store32_other: "q + 4 \<le> p \<or> p + 4 \<le> q \<Longrightarrow> ld32 (store32 p v m) q = ld32 m q"
  by (rule ld32_cong) (auto intro: store32_other)

lemma ld32_fill0: "p \<le> q \<Longrightarrow> q + 4 \<le> p + k \<Longrightarrow> ld32 (fill 0 p k m) q = 0"
  by (simp add: ld32_def fill_def)

lemma ld32_fill_other: "q + 4 \<le> p \<or> p + k \<le> q \<Longrightarrow> ld32 (fill 0 p k m) q = ld32 m q"
  by (rule ld32_cong) (auto simp: fill_def)

lemma memset0_fill: "memset p 0 (int k) m = fill 0 p k m"
  by (simp add: memset_eq_fill)

section \<open>The allocator leaves memory alone\<close>

lemma more_set_mark [simp]: "kmem.more (set_mark d i mk k) = kmem.more k"
  by (simp add: set_mark_def)

lemma more_set_lnks [simp]: "kmem.more (set_lnks d i l k) = kmem.more k"
  by (simp add: set_lnks_def)

lemma more_set_bitmap [simp]: "kmem.more (set_bitmap d i l k) = kmem.more k"
  by (simp add: set_bitmap_def)

lemma more_set_head [simp]: "kmem.more (set_head d h k) = kmem.more k"
  by (simp add: set_head_def)

lemma more_unlink_mark [simp]: "kmem.more (unlink_mark d i k) = kmem.more k"
  by (simp add: unlink_mark_def Let_def)

lemma more_link_mark [simp]: "kmem.more (link_mark d i k) = kmem.more k"
  by (simp add: link_mark_def Let_def)

abbreviation (input) same_more :: "'z \<Rightarrow> 'z kmem_scheme \<Rightarrow> bool" where
  "same_more z \<equiv> \<lambda>k. kmem.more k = z"

lemma keeps_more_unmark [inv_rules]: "keeps (same_more z) (unmark_blk d b)"
  unfolding unmark_blk_def by (intro inv_rules keeps_kmod) simp_all

lemma keeps_more_mark [inv_rules]: "keeps (same_more z) (mark_blk d b)"
  unfolding mark_blk_def Let_def by (intro inv_rules keeps_kmod) simp_all

lemma keeps_more_get_blk [inv_rules]: "keeps (same_more z) (get_blk d)"
  unfolding get_blk_def by (intro inv_rules)

lemma keeps_more_kfree_blk [inv_rules]: "keeps (same_more z) (kfree_blk mem d)"
proof (induction mem d rule: kfree_blk.induct)
  case (1 mem d)
  show ?case
    by (subst kfree_blk.simps, unfold Let_def) (intro inv_rules "1.IH"; auto)
qed

lemma keeps_more_kmalloc_blk [inv_rules]: "keeps (same_more z) (kmalloc_blk d)"
proof (induction d rule: kmalloc_blk.induct)
  case (1 d)
  show ?case
    by (subst kmalloc_blk.simps) (intro inv_rules "1.IH"; auto)
qed

lemma keeps_more_kmalloc [inv_rules]: "keeps (same_more z) (kmalloc d)"
  unfolding kmalloc_def by (intro inv_rules)

lemma keeps_more_kfree [inv_rules]: "keeps (same_more z) (kfree p d)"
  unfolding kfree_def by (intro inv_rules)

lemma kmalloc_more: "kmalloc d s = Ret p s' \<Longrightarrow> kmem.more s' = kmem.more s"
  using keepsD [OF keeps_more_kmalloc [of "kmem.more s" d] refl] by simp

lemma same_more_vmem:
  assumes "kmem.more (s' :: 'z vmem_scheme) = kmem.more s"
  shows "pm s' = pm s" and "kpt_freelist s' = kpt_freelist s"
proof -
  show "pm s' = pm s" using assms by (cases s; cases s') simp
  show "kpt_freelist s' = kpt_freelist s" using assms by (cases s; cases s') simp
qed

text \<open>The allocator's invariant reads nothing of the memory.\<close>

lemma alloc_view_cong:
  assumes "km_orders k' = km_orders k" and "km_marks k' = km_marks k" and "km_start_heap k' = km_start_heap k"
  shows "buddy_inv lo n N k' = buddy_inv lo n N k" and "free_bytes lo n k' = free_bytes lo n k"
proof -
  have o: "get_order_rec d k' = get_order_rec d k" for d by (simp add: get_order_rec_def assms)
  have g: "get_mark d i k' = get_mark d i k" for d i
    by (simp add: get_mark_def mark_index_def o assms)
  have "chain k' d p L q = chain k d p L q" for d p L q by (induction L arbitrary: p) (simp_all add: g)
  then have "linked n d k' L = linked n d k L" for d L by (simp add: linked_def o)
  moreover have "nonempty_marks n d k' = nonempty_marks n d k" for d by (simp add: nonempty_marks_def g)
  ultimately have "lists_inv lo n k' = lists_inv lo n k" by (simp add: lists_inv_def layout_def o)
  moreover have f: "free_set lo n k' = free_set lo n k" by (simp add: free_set_def g)
  ultimately show "buddy_inv lo n N k' = buddy_inv lo n N k"
    by (simp add: buddy_inv_def heap_ok_def assms)
  show "free_bytes lo n k' = free_bytes lo n k"
    by (simp add: free_bytes_def free_units_def f assms)
qed

lemma buddy_inv_pm [simp]: "buddy_inv lo n N (s\<lparr>pm := m\<rparr>) = buddy_inv lo n N s"
  and free_bytes_pm [simp]: "free_bytes lo n (s\<lparr>pm := m\<rparr>) = free_bytes lo n s"
  by (rule alloc_view_cong; simp)+

lemma buddy_inv_freelist [simp]: "buddy_inv lo n N (s\<lparr>kpt_freelist := m\<rparr>) = buddy_inv lo n N s"
  and free_bytes_freelist [simp]: "free_bytes lo n (s\<lparr>kpt_freelist := m\<rparr>) = free_bytes lo n s"
  by (rule alloc_view_cong; simp)+

section \<open>Memory for page tables\<close>

primrec kpt_chain :: "cmem \<Rightarrow> uint \<Rightarrow> uint list \<Rightarrow> bool" where
  "kpt_chain m p [] \<longleftrightarrow> p = 0"
| "kpt_chain m p (x # xs) \<longleftrightarrow> p = x \<and> x \<noteq> 0 \<and> kpt_chain m (ld32 m (unat x)) xs"

text \<open>
  The bytes in \<open>P\<close> are in use: neither free in the allocator nor part of a block of the boot-time
  list, whose blocks are aligned, distinct and not free either.
\<close>

definition pt_inv :: "nat \<Rightarrow> nat \<Rightarrow> nat \<Rightarrow> nat set \<Rightarrow> 'z vmem_scheme \<Rightarrow> bool" where
  "pt_inv lo n N P s \<longleftrightarrow> buddy_inv lo n N s \<and> lo \<le> 10 \<and> P \<inter> free_bytes lo n s = {}
     \<and> (\<exists>xs. kpt_chain (pm s) (kpt_freelist s) xs \<and> distinct xs
          \<and> (\<forall>x\<in>set xs. unat x mod 1024 = 0 \<and> extent x 10 \<inter> free_bytes lo n s = {} \<and> extent x 10 \<inter> P = {}))"

lemma aligned_extents:
  assumes "unat x mod 2 ^ d = 0" and "unat y mod 2 ^ d = 0" and "x \<noteq> y"
  shows "extent x d \<inter> extent y d = {}"
proof (rule ccontr)
  assume "\<not> ?thesis"
  then obtain a where "a \<in> extent x d" "a \<in> extent y d" by blast
  then have a: "unat x \<le> a" "a < unat x + 2 ^ d" "unat y \<le> a" "a < unat y + 2 ^ d"
    by (auto simp: extent_def)
  obtain i j where ij: "unat x = 2 ^ d * i" "unat y = 2 ^ d * j" using assms by (auto elim!: dvdE simp: mod_eq_0_iff_dvd)
  have "a div 2 ^ d = i" "a div 2 ^ d = j"
    using a unfolding ij by (auto intro!: div_nat_eqI simp: algebra_simps)
  then have "unat x = unat y" using ij by simp
  then show False using assms(3) by (simp add: word_unat_eq_iff)
qed

lemma kpt_chain_cong:
  assumes "kpt_chain m p xs" and "\<And>x a. x \<in> set xs \<Longrightarrow> a \<in> extent x 10 \<Longrightarrow> m' a = m a"
  shows "kpt_chain m' p xs"
  using assms
proof (induction xs arbitrary: p)
  case (Cons x xs)
  have "ld32 m' (unat x) = ld32 m (unat x)"
    by (rule ld32_cong) (use Cons.prems(2) [of x] in \<open>simp add: extent_def\<close>)
  moreover have "kpt_chain m' (ld32 m (unat x)) xs"
    by (rule Cons.IH) (use Cons.prems in auto)
  ultimately show ?case using Cons.prems(1) by simp
qed simp

text \<open>Writing to memory in use, and giving memory up.\<close>

lemma pt_inv_write:
  assumes "pt_inv lo n N P s" and "\<And>a. a \<notin> P \<Longrightarrow> m a = pm s a"
  shows "pt_inv lo n N P (s\<lparr>pm := m\<rparr>)"
proof -
  obtain xs where xs: "kpt_chain (pm s) (kpt_freelist s) xs" "distinct xs"
    "\<forall>x\<in>set xs. unat x mod 1024 = 0 \<and> extent x 10 \<inter> free_bytes lo n s = {} \<and> extent x 10 \<inter> P = {}"
    using assms(1) by (auto simp: pt_inv_def)
  have "kpt_chain m (kpt_freelist s) xs"
    using xs(1) by (rule kpt_chain_cong) (use xs(3) assms(2) in blast)
  with xs assms(1) show ?thesis by (auto simp: pt_inv_def)
qed

lemma pt_inv_subset: "pt_inv lo n N P s \<Longrightarrow> Q \<subseteq> P \<Longrightarrow> pt_inv lo n N Q s"
  unfolding pt_inv_def by (elim conjE exE, intro conjI exI; blast)

text \<open>Allocating a block of the buddy allocator.\<close>

lemma kmalloc_spec:
  assumes inv: "pt_inv lo n N P s" and d: "10 \<le> d" "d \<le> 12"
  shows "(\<exists>r s'. kmalloc (int d) s = Ret r s' \<and> r \<noteq> 0 \<and> unat r mod 2 ^ d = 0 \<and> extent r d \<inter> P = {}
      \<and> pm s' = pm s \<and> pt_inv lo n N (P \<union> extent r d) s') \<or> kmalloc (int d) s = Ret 0 s"
proof -
  have b: "heap_at lo n N (km_start_heap s) s" "lo \<le> d \<and> d \<le> 12" using inv d by (auto simp: pt_inv_def heap_at_def)
  obtain r s' where r: "kmalloc (int d) s = Ret r s'" "buddy_inv lo n N s'"
    "if r = 0 then s' = s else heap_block N (km_start_heap s) r d \<and> extent r d \<subseteq> free_bytes lo n s
       \<and> free_bytes lo n s' = free_bytes lo n s - extent r d"
    using bud.alloc_law [OF b] by (auto simp: heap_at_def)
  note mem = same_more_vmem [OF kmalloc_more [OF r(1)]]
  obtain xs where xs: "kpt_chain (pm s) (kpt_freelist s) xs" "distinct xs"
    "\<forall>x\<in>set xs. unat x mod 1024 = 0 \<and> extent x 10 \<inter> free_bytes lo n s = {} \<and> extent x 10 \<inter> P = {}"
    using inv by (auto simp: pt_inv_def)
  show ?thesis
  proof (cases "r = 0")
    case False
    then have f: "extent r d \<subseteq> free_bytes lo n s" "free_bytes lo n s' = free_bytes lo n s - extent r d"
      and al: "unat r mod 2 ^ d = 0" using r(3) by (auto simp: heap_block_def)
    have P: "P \<inter> free_bytes lo n s = {}" using inv by (simp add: pt_inv_def)
    have "pt_inv lo n N (P \<union> extent r d) s'"
      unfolding pt_inv_def f(2)
    proof (intro conjI exI [of _ xs])
      show "(P \<union> extent r d) \<inter> (free_bytes lo n s - extent r d) = {}" using P by blast
      show "\<forall>x\<in>set xs. unat x mod 1024 = 0 \<and> extent x 10 \<inter> (free_bytes lo n s - extent r d) = {}
          \<and> extent x 10 \<inter> (P \<union> extent r d) = {}"
        using xs(3) f(1) by blast
    qed (use inv r(2) mem xs in \<open>auto simp: pt_inv_def\<close>)
    moreover have "extent r d \<inter> P = {}" using P f(1) by blast
    ultimately show ?thesis using False r(1) al mem by (intro disjI1 exI [of _ r] exI [of _ s']) simp
  qed (use r in auto)
qed

lemma alloc_page_spec:
  assumes "pt_inv lo n N P s"
  shows "(\<exists>r s'. alloc_page s = Ret r s' \<and> r \<noteq> 0 \<and> unat r mod 4096 = 0 \<and> extent r 12 \<inter> P = {}
      \<and> pm s' = pm s \<and> pt_inv lo n N (P \<union> extent r 12) s') \<or> alloc_page s = Ret 0 s"
  using kmalloc_spec [OF assms, of 12] by (simp add: alloc_page_def)

text \<open>
  A page table comes from the boot-time list or from the allocator, cleared; it is disjoint from
  everything in use. When no memory is left the kernel panics.
\<close>

lemma kpt_alloc_spec:
  assumes inv: "pt_inv lo n N P s"
  shows "(\<exists>r s'. kpt_alloc s = Ret r s' \<and> r \<noteq> 0 \<and> unat r mod 1024 = 0 \<and> extent r 10 \<inter> P = {}
      \<and> pm s' = fill 0 (unat r) 1024 (pm s) \<and> pt_inv lo n N (P \<union> extent r 10) s')
    \<or> kpt_alloc s = Panic ''oom: kpt_alloc''"
proof -
  obtain xs where xs: "kpt_chain (pm s) (kpt_freelist s) xs" "distinct xs"
    "\<forall>x\<in>set xs. unat x mod 1024 = 0 \<and> extent x 10 \<inter> free_bytes lo n s = {} \<and> extent x 10 \<inter> P = {}"
    using inv by (auto simp: pt_inv_def)
  have z: "zero_mem r 1024 t = Ret () (t\<lparr>pm := fill 0 (unat r) 1024 (pm t)\<rparr>)" for r and t :: "'a vmem_scheme"
    using memset0_fill [of "unat r" 1024] by (simp add: zero_mem_def)
  have out: "fill 0 (unat r) 1024 m a = m a" if "a \<notin> Q \<union> extent r 10" for r m a Q
    using that by (auto simp: fill_def extent_def)
  show ?thesis
  proof (cases xs)
    case Nil
    then have r0: "kpt_freelist s = 0" using xs(1) by simp
    consider (ok) r s' where "kmalloc 10 s = Ret r s'" "r \<noteq> 0" "unat r mod 1024 = 0" "extent r 10 \<inter> P = {}"
        "pm s' = pm s" "pt_inv lo n N (P \<union> extent r 10) s'" | (none) "kmalloc 10 s = Ret 0 s"
      using kmalloc_spec [OF inv, of 10] by auto
    then show ?thesis
    proof cases
      case ok
      have "kpt_alloc s = Ret r (s'\<lparr>pm := fill 0 (unat r) 1024 (pm s')\<rparr>)"
        using r0 ok by (simp add: kpt_alloc_def z)
      moreover have "pt_inv lo n N (P \<union> extent r 10) (s'\<lparr>pm := fill 0 (unat r) 1024 (pm s')\<rparr>)"
        using ok(6) by (rule pt_inv_write) (rule out)
      ultimately show ?thesis using ok by auto
    next
      case none
      then show ?thesis using r0 by (simp add: kpt_alloc_def)
    qed
  next
    case (Cons x ys)
    then have c: "kpt_freelist s = x" "x \<noteq> 0" "kpt_chain (pm s) (ld32 (pm s) (unat x)) ys" using xs(1) by auto
    define t where "t = s\<lparr>kpt_freelist := ld32 (pm s) (unat x)\<rparr>"
    have x: "unat x mod 1024 = 0" "extent x 10 \<inter> free_bytes lo n s = {}" "extent x 10 \<inter> P = {}"
      using xs(3) Cons by auto
    have "extent y 10 \<inter> extent x 10 = {}" if "y \<in> set ys" for y
      using aligned_extents [of y 10 x] that x(1) xs(2,3) Cons by auto
    then have "pt_inv lo n N (P \<union> extent x 10) t"
      using inv c x xs Cons unfolding pt_inv_def t_def
      by (intro conjI exI [of _ ys]) (auto simp: Int_Un_distrib Int_Un_distrib2)
    then have "pt_inv lo n N (P \<union> extent x 10) (t\<lparr>pm := fill 0 (unat x) 1024 (pm t)\<rparr>)"
      by (rule pt_inv_write) (rule out)
    moreover have "kpt_alloc s = Ret x (t\<lparr>pm := fill 0 (unat x) 1024 (pm t)\<rparr>)"
      using c by (simp add: kpt_alloc_def z load_def t_def)
    moreover have "pm t = pm s" by (simp add: t_def)
    ultimately show ?thesis using c x by auto
  qed
qed

section \<open>The page tables of an address space\<close>

definition pde_val :: "uint \<Rightarrow> nat \<Rightarrow> 'z vmem_scheme \<Rightarrow> uint" where
  "pde_val pd i s = ld32 (pm s) (unat pd + 4 * i)"

definition tbl :: "uint \<Rightarrow> nat \<Rightarrow> 'z vmem_scheme \<Rightarrow> uint option" where
  "tbl pd i s = (if pde_val pd i s AND 3 = 0 then None else Some (p2v (PT_ADDR (pde_val pd i s))))"

text \<open>The entry of user page \<open>pg\<close>, 0 when there is no page table for it.\<close>

definition pte_val :: "uint \<Rightarrow> nat \<Rightarrow> 'z vmem_scheme \<Rightarrow> uint" where
  "pte_val pd pg s = (case tbl pd (pg div 256) s of None \<Rightarrow> 0
     | Some t \<Rightarrow> ld32 (pm s) (unat t + 4 * (pg mod 256)))"

definition tables :: "uint \<Rightarrow> 'z vmem_scheme \<Rightarrow> nat set" where
  "tables pd s = extent pd 10 \<union> (\<Union>i<256. case tbl pd i s of None \<Rightarrow> {} | Some t \<Rightarrow> extent t 10)"

definition pd_ok :: "uint \<Rightarrow> 'z vmem_scheme \<Rightarrow> bool" where
  "pd_ok pd s \<longleftrightarrow> unat pd mod 1024 = 0 \<and> (\<forall>i<256. \<forall>t. tbl pd i s = Some t \<longrightarrow>
     t \<noteq> pd \<and> t \<noteq> 0 \<and> (\<forall>j<256. tbl pd j s = Some t \<longrightarrow> i = j))"

lemma tbl_aligned: "tbl pd i s = Some t \<Longrightarrow> unat t mod 1024 = 0"
proof -
  assume "tbl pd i s = Some t"
  then obtain e where t: "t = align_dn e (2 ^ 10) + 0x80000000"
    by (auto simp: tbl_def p2v_def PT_ADDR_def split: if_splits)
  have "unat (align_dn e (2 ^ 10)) mod 1024 = 0" using unat_align_dn [of 10 e] by simp
  moreover have "unat t = (unat (align_dn e (2 ^ 10)) + 0x80000000) mod 0x100000000"
    unfolding t by (simp add: unat_word_ariths)
  ultimately show ?thesis unfolding mod_eq_0_iff_dvd by (simp add: dvd_mod)
qed

lemma aligned_room: "unat (t :: uint) mod 1024 = 0 \<Longrightarrow> unat t + 1024 \<le> 2 ^ 32"
proof -
  assume "unat t mod 1024 = 0"
  then obtain q where q: "unat t = 1024 * q" by auto
  with unat_less_32 [of t] show ?thesis by simp
qed

lemma unat_entry:
  fixes t i :: uint
  assumes "unat t mod 1024 = 0" and "unat i < 256"
  shows "unat (t + 4 * i) = unat t + 4 * unat i"
proof -
  have "unat (4 * i) = 4 * unat i" using assms(2) by (simp add: unat_word_ariths)
  then show ?thesis using aligned_room [OF assms(1)] assms(2) by (simp add: unat_word_ariths)
qed

lemma unat_PTE_IDX: "unat (PTE_IDX va) = unat va div 4096 mod 256"
  using unat_and_exp_minus_1 [of 8 "drop_bit 12 va"] by (simp add: PTE_IDX_def unat_drop_bit_32)

lemma unat_PDE_IDX: "unat (PDE_IDX va) = unat va div 2 ^ 20"
  by (simp only: PDE_IDX_def unat_drop_bit_32)

lemma load_pde:
  assumes "unat pd mod 1024 = 0" and "unat va < 2 ^ 28"
  shows "load (pd + 4 * PDE_IDX va) s = Ret (pde_val pd (unat va div 2 ^ 20) s) s"
    and "unat (pd + 4 * PDE_IDX va) = unat pd + 4 * (unat va div 2 ^ 20)"
proof -
  have "unat (PDE_IDX va) < 256" using assms(2) by (simp add: unat_PDE_IDX less_mult_imp_div_less)
  from unat_entry [OF assms(1) this] show u: "unat (pd + 4 * PDE_IDX va) = unat pd + 4 * (unat va div 2 ^ 20)"
    by (simp add: unat_PDE_IDX)
  then show "load (pd + 4 * PDE_IDX va) s = Ret (pde_val pd (unat va div 2 ^ 20) s) s"
    by (simp add: load_def pde_val_def)
qed

lemma unat_pte:
  assumes "tbl pd i s = Some t"
  shows "unat (t + 4 * PTE_IDX va) = unat t + 4 * (unat va div 4096 mod 256)"
  using unat_entry [OF tbl_aligned [OF assms], of "PTE_IDX va"] by (simp add: unat_PTE_IDX)

lemma pte_nonzero:
  assumes "pd_ok pd s" and "i < 256" and "tbl pd i s = Some t"
  shows "t + 4 * PTE_IDX va \<noteq> 0"
proof -
  have "t \<noteq> 0" using assms by (auto simp: pd_ok_def)
  then have "0 < unat t" by (simp add: unat_gt_0)
  then have "0 < unat (t + 4 * PTE_IDX va)" using unat_pte [OF assms(3)] by simp
  then show ?thesis by auto
qed

text \<open>Looking an address up without allocating.\<close>

lemma walk_lookup:
  assumes "unat pd mod 1024 = 0" and "unat va < 2 ^ 28"
  shows "walkpgdir pd va False s =
    Ret (case tbl pd (unat va div 2 ^ 20) s of None \<Rightarrow> 0 | Some t \<Rightarrow> t + 4 * PTE_IDX va) s"
  using load_pde(1) [OF assms, of s] by (simp add: walkpgdir_def Let_def tbl_def)

lemma page_dir_index: "(unat va div 4096) div 256 = unat va div 2 ^ 20"
  by (simp add: div_mult2_eq [symmetric])

lemma load_pte:
  assumes "tbl pd (unat va div 2 ^ 20) s = Some t"
  shows "load (t + 4 * PTE_IDX va) s = Ret (pte_val pd (unat va div 4096) s) s"
  using assms unat_pte [OF assms, of va] page_dir_index [of va] by (simp add: load_def pte_val_def)

lemma tbl_subset_tables: "tbl pd i s = Some t \<Longrightarrow> i < 256 \<Longrightarrow> extent t 10 \<subseteq> tables pd s"
  by (auto simp: tables_def intro!: bexI [of _ i])

text \<open>What is read of the page tables only depends on the memory they occupy.\<close>

lemma pde_val_cong:
  "i < 256 \<Longrightarrow> (\<And>a. a \<in> extent pd 10 \<Longrightarrow> pm s' a = pm s a) \<Longrightarrow> pde_val pd i s' = pde_val pd i s"
  unfolding pde_val_def by (rule ld32_cong) (auto simp: extent_def)

lemma tables_cong:
  assumes "\<And>a. a \<in> tables pd s \<Longrightarrow> pm s' a = pm s a"
  shows "i < 256 \<Longrightarrow> tbl pd i s' = tbl pd i s" and "tables pd s' = tables pd s"
    and "pg < 65536 \<Longrightarrow> pte_val pd pg s' = pte_val pd pg s" and "pd_ok pd s' = pd_ok pd s"
proof -
  have "pde_val pd i s' = pde_val pd i s" if "i < 256" for i
    using that by (rule pde_val_cong) (use assms in \<open>auto simp: tables_def\<close>)
  then have t: "tbl pd i s' = tbl pd i s" if "i < 256" for i using that by (simp add: tbl_def)
  then show "i < 256 \<Longrightarrow> tbl pd i s' = tbl pd i s" for i by blast
  show "tables pd s' = tables pd s" by (auto simp: tables_def t)
  show "pd_ok pd s' = pd_ok pd s" by (auto simp: pd_ok_def t)
  show "pte_val pd pg s' = pte_val pd pg s" if "pg < 65536" for pg
  proof -
    have i: "pg div 256 < 256" using that by (simp add: less_mult_imp_div_less)
    show ?thesis
    proof (cases "tbl pd (pg div 256) s")
      case (Some a)
      have "ld32 (pm s') (unat a + 4 * (pg mod 256)) = ld32 (pm s) (unat a + 4 * (pg mod 256))"
      proof (rule ld32_cong)
        fix x assume "unat a + 4 * (pg mod 256) \<le> x" "x < unat a + 4 * (pg mod 256) + 4"
        moreover have "pg mod 256 < 256" by simp
        ultimately have "x \<in> extent a 10" by (simp add: extent_def)
        then show "pm s' x = pm s x" using tbl_subset_tables [OF Some i] assms by blast
      qed
      with Some show ?thesis by (simp add: pte_val_def t [OF i])
    qed (simp add: pte_val_def t [OF i])
  qed
qed

section \<open>Entries\<close>

lemma aligned_bits: "unat (x :: uint) mod 2 ^ k = 0 \<Longrightarrow> i < k \<Longrightarrow> \<not> bit x i"
proof -
  assume "unat x mod 2 ^ k = 0" and i: "i < k"
  then have "take_bit k (unat x) = 0" unfolding take_bit_eq_mod by simp
  then have "unat (take_bit k x) = 0" by (simp only: unsigned_take_bit_eq)
  then have "take_bit k x = 0" by (simp add: unsigned_eq_0_iff)
  then have "\<not> bit (take_bit k x) i" by simp
  with i show "\<not> bit x i" by (simp add: bit_take_bit_iff)
qed

lemma align_dn_mask: "align_dn x (2 ^ k) = x AND NOT (mask k)"
  by (simp add: align_dn_def mask_eq_exp_minus_1)

lemma type_bits: "x AND 3 = 0 \<longleftrightarrow> \<not> bit x 0 \<and> \<not> bit (x :: uint) 1"
proof -
  have m: "(3 :: uint) = mask 2" by (simp add: mask_eq_exp_minus_1)
  have "x AND mask 2 = 0 \<longleftrightarrow> (\<forall>i<2. \<not> bit x i)"
  proof
    assume "x AND mask 2 = 0"
    then have nb: "\<not> bit (x AND mask 2) i" for i by simp
    have "\<not> bit x i" if "i < 2" for i
      using nb [of i] that by (auto simp: bit_simps dest: bit_imp_le_length)
    then show "\<forall>i<2. \<not> bit x i" by blast
  qed (auto intro!: bit_word_eqI simp: bit_simps)
  then show ?thesis unfolding m by (auto simp: less_2_cases_iff)
qed

lemma v2p_aligned: "unat r mod 1024 = 0 \<Longrightarrow> unat (v2p r) mod 1024 = 0"
proof -
  assume r: "unat r mod 1024 = 0"
  have "v2p r = r + 0x80000000" by (simp add: v2p_def)
  then have "unat (v2p r) = (unat r + 0x80000000) mod 0x100000000" by (simp add: unat_word_ariths)
  with r show ?thesis unfolding mod_eq_0_iff_dvd by (simp add: dvd_mod)
qed

lemma new_pde:
  assumes "unat r mod 1024 = 0"
  shows "(v2p r OR 1) AND 3 \<noteq> 0" and "p2v (PT_ADDR (v2p r OR 1)) = r"
proof -
  show "(v2p r OR 1) AND 3 \<noteq> 0" by (simp add: type_bits bit_simps)
  have al: "\<not> bit (v2p r) i" if "i < 10" for i
    by (rule aligned_bits [of _ 10]) (use v2p_aligned [OF assms] that in simp_all)
  have "align_dn (v2p r OR 1) (2 ^ 10) = v2p r"
    unfolding align_dn_mask
    by (rule bit_word_eqI) (use al in \<open>auto simp: bit_or_iff bit_and_iff bit_not_iff bit_mask_iff bit_1_iff\<close>)
  then show "p2v (PT_ADDR (v2p r OR 1)) = r" by (simp add: PT_ADDR_def p2v_def v2p_def)
qed

lemma mk_pte_bits:
  "mk_pte pa ap = pa OR push_bit 4 (take_bit 2 ap) OR push_bit 3 1 OR push_bit 2 1 OR push_bit 1 1"
  by (simp add: mk_pte_def take_bit_eq_mask mask_eq_exp_minus_1 push_bit_eq_mult)

lemma mk_pte_fields:
  assumes "unat pa mod 4096 = 0"
  shows "mk_pte pa ap AND 3 \<noteq> 0" and "PTE_ADDR (mk_pte pa ap) = pa" and "PTE_AP (mk_pte pa ap) = ap AND 3"
proof -
  have al: "\<not> bit pa i" if "i < 12" for i
    by (rule aligned_bits [of _ 12]) (use assms that in simp_all)
  show "mk_pte pa ap AND 3 \<noteq> 0"
    unfolding mk_pte_bits type_bits by (simp add: bit_or_iff bit_push_bit_iff bit_1_iff)
  have "align_dn (mk_pte pa ap) (2 ^ 12) = pa"
    unfolding align_dn_mask mk_pte_bits
    by (rule bit_word_eqI)
      (use al in \<open>auto simp only: possible_bit_word bit_or_iff bit_and_iff bit_not_iff bit_mask_iff bit_push_bit_iff bit_take_bit_iff bit_1_iff\<close>)
  then show "PTE_ADDR (mk_pte pa ap) = pa" by (simp add: PTE_ADDR_def)
  have m: "(3 :: uint) = mask 2" by (simp add: mask_eq_exp_minus_1)
  have "drop_bit 4 (mk_pte pa ap) = drop_bit 4 pa OR drop_bit 4 (push_bit 4 (ap AND 3))"
    by (simp add: mk_pte_def drop_bit_or)
  moreover have "drop_bit 4 (push_bit 4 (ap AND mask 2)) = ap AND mask 2"
    by (rule bit_word_eqI) (auto simp: bit_simps)
  moreover have "(drop_bit 4 pa OR (ap AND mask 2)) AND mask 2 = ap AND mask 2"
    by (rule bit_word_eqI) (use al in \<open>auto simp: bit_simps\<close>)
  ultimately show "PTE_AP (mk_pte pa ap) = ap AND 3" by (simp add: PTE_AP_def m)
qed

section \<open>Mapping a page\<close>

text \<open>
  Memory in use besides the page tables is \<open>Q\<close>; \<open>space lo n N pd Q s\<close> is the invariant of an
  address space whose tables are disjoint from \<open>Q\<close>.
\<close>

definition space :: "nat \<Rightarrow> nat \<Rightarrow> nat \<Rightarrow> uint \<Rightarrow> nat set \<Rightarrow> 'z vmem_scheme \<Rightarrow> bool" where
  "space lo n N pd Q s \<longleftrightarrow> pd_ok pd s \<and> pt_inv lo n N (Q \<union> tables pd s) s \<and> Q \<inter> tables pd s = {}"

text \<open>\<open>remapped pd Q s s' f\<close>: the entries of \<open>s'\<close> are \<open>f\<close>, and memory \<open>Q\<close> is as in \<open>s\<close>.\<close>

definition remapped :: "uint \<Rightarrow> nat set \<Rightarrow> 'z vmem_scheme \<Rightarrow> 'z vmem_scheme \<Rightarrow> (nat \<Rightarrow> uint) \<Rightarrow> bool" where
  "remapped pd Q s s' f \<longleftrightarrow> (\<forall>pg<65536. pte_val pd pg s' = f pg) \<and> (\<forall>a\<in>Q. pm s' a = pm s a)"

text \<open>
  Installing a fresh, cleared page table at \<open>r\<close>: the directory has the new entry and its old ones, the
  tables are the old ones and \<open>r\<close>, and no page table entry changes.
\<close>

definition install :: "uint \<Rightarrow> nat \<Rightarrow> uint \<Rightarrow> 'z vmem_scheme \<Rightarrow> 'z vmem_scheme \<Rightarrow> bool" where
  "install pd i r s s' \<longleftrightarrow> pm s' = store32 (unat pd + 4 * i) (v2p r OR 1) (fill 0 (unat r) 1024 (pm s))
     \<and> i < 256 \<and> tbl pd i s = None \<and> pd_ok pd s
     \<and> r \<noteq> 0 \<and> unat r mod 1024 = 0 \<and> extent r 10 \<inter> tables pd s = {}"

lemma dir_slot: "i < 256 \<Longrightarrow> a \<notin> extent pd 10 \<Longrightarrow> a < unat pd + 4 * i \<or> unat pd + 4 * i + 4 \<le> a"
  by (auto simp: extent_def)

lemma dir_in_tables: "extent pd 10 \<subseteq> tables pd s"
  by (simp add: tables_def)

lemma install_old:
  assumes "install pd i r s s'" and "a \<notin> extent r 10" and "a < unat pd + 4 * i \<or> unat pd + 4 * i + 4 \<le> a"
  shows "pm s' a = pm s a"
  using assms by (auto simp: install_def store32_other fill_def extent_def)

lemma install_tbl:
  assumes ins: "install pd i r s s'" and j: "j < 256"
  shows "tbl pd j s' = (if j = i then Some r else tbl pd j s)"
proof -
  have "pde_val pd j s' = (if j = i then v2p r OR 1 else pde_val pd j s)"
  proof (cases "j = i")
    case True
    then show ?thesis using ins by (simp add: pde_val_def install_def)
  next
    case False
    have "ld32 (pm s') (unat pd + 4 * j) = ld32 (pm s) (unat pd + 4 * j)"
    proof (rule ld32_cong)
      fix a assume a: "unat pd + 4 * j \<le> a" "a < unat pd + 4 * j + 4"
      then have "a \<in> extent pd 10" using j by (simp add: extent_def)
      then have "a \<notin> extent r 10" using ins dir_in_tables [of pd s] by (auto simp: install_def)
      then show "pm s' a = pm s a" by (rule install_old [OF ins]) (use a False in linarith)
    qed
    then show ?thesis using False by (simp add: pde_val_def)
  qed
  then show ?thesis using ins new_pde [of r] by (cases "j = i") (simp_all add: tbl_def install_def)
qed

lemma install_tables:
  assumes ins: "install pd i r s s'"
  shows "tables pd s' = tables pd s \<union> extent r 10"
proof -
  have i: "i < 256" and none: "tbl pd i s = None" using ins by (simp_all add: install_def)
  have "(\<Union>j<256. case tbl pd j s' of None \<Rightarrow> {} | Some t \<Rightarrow> extent t 10)
      = (\<Union>j<256. (case tbl pd j s of None \<Rightarrow> {} | Some t \<Rightarrow> extent t 10) \<union> (if j = i then extent r 10 else {}))"
    by (rule SUP_cong) (auto simp: install_tbl [OF ins] none)
  also have "\<dots> = (\<Union>j<256. case tbl pd j s of None \<Rightarrow> {} | Some t \<Rightarrow> extent t 10) \<union> extent r 10"
    using i by (auto simp: UN_Un_distrib)
  finally show ?thesis by (simp add: tables_def Un_assoc)
qed

lemma install_pd_ok:
  assumes ins: "install pd i r s s'"
  shows "pd_ok pd s'"
proof -
  have "unat r \<in> extent r 10" by (simp add: extent_def)
  then have "unat r \<notin> tables pd s" using ins by (auto simp: install_def)
  then have "r \<noteq> pd \<and> (\<forall>j<256. tbl pd j s \<noteq> Some r)"
    using dir_in_tables [of pd s] tbl_subset_tables [of pd _ s r] \<open>unat r \<in> extent r 10\<close> by blast
  then show ?thesis
    using ins unfolding pd_ok_def install_def by (auto simp: install_tbl [OF ins] split: if_splits)
qed

lemma install_new_entry:
  assumes ins: "install pd i r s s'" and m: "m < 256"
  shows "ld32 (pm s') (unat r + 4 * m) = 0"
proof -
  have "ld32 (pm s') (unat r + 4 * m) = ld32 (fill 0 (unat r) 1024 (pm s)) (unat r + 4 * m)"
  proof (rule ld32_cong)
    fix a assume "unat r + 4 * m \<le> a" "a < unat r + 4 * m + 4"
    then have "a \<in> extent r 10" using m by (simp add: extent_def)
    then have "a \<notin> extent pd 10" using ins dir_in_tables [of pd s] by (auto simp: install_def)
    then show "pm s' a = fill 0 (unat r) 1024 (pm s) a"
      using ins dir_slot [of i a pd] by (simp add: install_def store32_other)
  qed
  also have "\<dots> = 0" by (rule ld32_fill0) (use m in simp_all)
  finally show ?thesis .
qed

lemma install_old_entry:
  assumes ins: "install pd i r s s'" and u: "tbl pd j s = Some u" and j: "j < 256" and m: "m < 256"
  shows "ld32 (pm s') (unat u + 4 * m) = ld32 (pm s) (unat u + 4 * m)"
proof (rule ld32_cong)
  have ok: "pd_ok pd s" and i: "i < 256" using ins by (simp_all add: install_def)
  fix a assume "unat u + 4 * m \<le> a" "a < unat u + 4 * m + 4"
  then have "a \<in> extent u 10" using m by (simp add: extent_def)
  moreover have "extent u 10 \<inter> extent pd 10 = {}"
    by (rule aligned_extents) (use ok u j tbl_aligned [OF u] in \<open>auto simp: pd_ok_def\<close>)
  moreover have "extent u 10 \<inter> extent r 10 = {}" using ins tbl_subset_tables [OF u j] by (auto simp: install_def)
  ultimately have "a \<notin> extent pd 10" "a \<notin> extent r 10" by blast+
  then show "pm s' a = pm s a" using dir_slot [OF i] by (intro install_old [OF ins])
qed

lemma install_pte:
  assumes ins: "install pd i r s s'" and "pg < 65536"
  shows "pte_val pd pg s' = pte_val pd pg s"
proof -
  have j: "pg div 256 < 256" using assms(2) by (simp add: less_mult_imp_div_less)
  consider "pg div 256 = i" | "pg div 256 \<noteq> i" "tbl pd (pg div 256) s = None"
    | u where "pg div 256 \<noteq> i" "tbl pd (pg div 256) s = Some u" by fastforce
  then show ?thesis
  proof cases
    case 1
    then show ?thesis
      using install_new_entry [OF ins, of "pg mod 256"] ins j by (simp add: pte_val_def install_tbl [OF ins] install_def)
  next
    case 2
    then show ?thesis using j by (simp add: pte_val_def install_tbl [OF ins])
  next
    case 3
    then show ?thesis
      using install_old_entry [OF ins 3(2) j, of "pg mod 256"] j by (simp add: pte_val_def install_tbl [OF ins])
  qed
qed

lemma new_table:
  assumes sp: "space lo n N pd Q s" and i: "i < 256" and none: "tbl pd i s = None"
    and r: "r \<noteq> 0" "unat r mod 1024 = 0" "extent r 10 \<inter> (Q \<union> tables pd s) = {}"
    and inv: "pt_inv lo n N (Q \<union> tables pd s \<union> extent r 10) s1"
    and mem: "pm s1 = fill 0 (unat r) 1024 (pm s)"
  defines "s' \<equiv> s1\<lparr>pm := store32 (unat pd + 4 * i) (v2p r OR 1) (pm s1)\<rparr>"
  shows "space lo n N pd Q s' \<and> tbl pd i s' = Some r \<and> remapped pd Q s s' (\<lambda>pg. pte_val pd pg s)"
proof -
  have ins: "install pd i r s s'" using sp i none r by (auto simp: install_def space_def s'_def mem)
  note T = install_tables [OF ins]
  have "pt_inv lo n N (Q \<union> tables pd s') s'"
    unfolding T
    by (subst s'_def, rule pt_inv_write [OF inv [unfolded Un_assoc]])
      (rule store32_other, use dir_slot [OF i] dir_in_tables in \<open>meson subsetD UnCI\<close>)
  moreover have "Q \<inter> tables pd s' = {}" using sp r(3) unfolding T by (auto simp: space_def)
  moreover have "pm s' a = pm s a" if "a \<in> Q" for a
  proof (rule install_old [OF ins])
    show "a \<notin> extent r 10" using that r(3) by blast
    have "a \<notin> extent pd 10" using that sp dir_in_tables [of pd s] by (auto simp: space_def)
    then show "a < unat pd + 4 * i \<or> unat pd + 4 * i + 4 \<le> a" by (rule dir_slot [OF i])
  qed
  ultimately show ?thesis
    using install_pd_ok [OF ins] install_pte [OF ins] by (simp add: space_def remapped_def install_tbl [OF ins i])
qed

lemma walk_alloc:
  assumes sp: "space lo n N pd Q s" and va: "unat va < 2 ^ 28"
  shows "walkpgdir pd va True s = Panic ''oom: kpt_alloc'' \<or>
    (\<exists>t s'. walkpgdir pd va True s = Ret (t + 4 * PTE_IDX va) s' \<and> space lo n N pd Q s'
      \<and> tbl pd (unat va div 2 ^ 20) s' = Some t \<and> remapped pd Q s s' (\<lambda>pg. pte_val pd pg s))"
proof -
  define i where "i = unat va div 2 ^ 20"
  have i: "i < 256" using va by (simp add: i_def less_mult_imp_div_less)
  have pd: "unat pd mod 1024 = 0" using sp by (auto simp: space_def pd_ok_def)
  note pde = load_pde(1) [OF pd va, of s, folded i_def] load_pde(2) [OF pd va, folded i_def]
  show ?thesis
  proof (cases "tbl pd i s")
    case (Some t)
    then have "walkpgdir pd va True s = Ret (t + 4 * PTE_IDX va) s"
      using pde(1) by (auto simp: walkpgdir_def Let_def tbl_def split: if_splits)
    with Some sp show ?thesis unfolding i_def [symmetric] by (auto simp: remapped_def)
  next
    case None
    then have e: "pde_val pd i s AND 3 = 0" by (auto simp: tbl_def split: if_splits)
    have inv: "pt_inv lo n N (Q \<union> tables pd s) s" using sp by (simp add: space_def)
    show ?thesis
      using kpt_alloc_spec [OF inv]
    proof (elim disjE exE conjE)
      assume "kpt_alloc s = Panic ''oom: kpt_alloc''"
      then show ?thesis using e pde(1) by (simp add: walkpgdir_def Let_def)
    next
      fix r s1
      assume ok: "kpt_alloc s = Ret r s1" "r \<noteq> 0" "unat r mod 1024 = 0"
          "extent r 10 \<inter> (Q \<union> tables pd s) = {}" "pm s1 = fill 0 (unat r) 1024 (pm s)"
          "pt_inv lo n N (Q \<union> tables pd s \<union> extent r 10) s1"
      have z: "zero_mem r 1024 s1 = Ret () s1"
      proof -
        have "fill 0 (unat r) 1024 (pm s1) = pm s1" unfolding ok(5) by (auto simp: fill_def fun_eq_iff)
        then show ?thesis using memset0_fill [of "unat r" 1024 "pm s1"] by (simp add: zero_mem_def)
      qed
      have "walkpgdir pd va True s =
          Ret (r + 4 * PTE_IDX va) (s1\<lparr>pm := store32 (unat pd + 4 * i) (v2p r OR 1) (pm s1)\<rparr>)"
        using e pde(1) ok(1,2) z pde(2) by (simp add: walkpgdir_def Let_def store_def)
      with new_table [OF sp i None ok(2,3,4,6,5)] show ?thesis unfolding i_def [symmetric] by blast
    qed
  qed
qed

text \<open>Writing one entry of an existing page table.\<close>

text \<open>A store into the table of page \<open>p\<close> changes its entry and no other.\<close>

lemma entry_in_table: "unat t + 4 * (p mod 256) \<le> a \<Longrightarrow> a < unat t + 4 * (p mod 256) + 4 \<Longrightarrow> a \<in> extent t 10"
  using mod_less_divisor [of 256 p] by (simp add: extent_def)

lemma pte_store:
  assumes ok: "pd_ok pd s" and p: "p < 65536" and tp: "tbl pd (p div 256) s = Some t"
    and s': "pm s' = store32 (unat t + 4 * (p mod 256)) e (pm s)"
    and tb: "\<And>j. j < 256 \<Longrightarrow> tbl pd j s' = tbl pd j s" and q: "q < 65536"
  shows "pte_val pd q s' = (if q = p then e else pte_val pd q s)"
proof (cases "q = p")
  case True
  then show ?thesis using tp tb [of "p div 256"] p by (simp add: pte_val_def s' less_mult_imp_div_less)
next
  case False
  have i: "p div 256 < 256" and j: "q div 256 < 256" using p q by (simp_all add: less_mult_imp_div_less)
  show ?thesis
  proof (cases "tbl pd (q div 256) s")
    case (Some u)
    have "ld32 (pm s') (unat u + 4 * (q mod 256)) = ld32 (pm s) (unat u + 4 * (q mod 256))"
    proof (cases "u = t")
      case True
      then have "q div 256 = p div 256" using ok Some tp i j by (auto simp: pd_ok_def)
      with False have "q mod 256 \<noteq> p mod 256" by (metis div_mult_mod_eq)
      with True show ?thesis
        unfolding s' by (auto intro!: ld32_store32_other simp: not_le)
    next
      case ut: False
      have ap: "extent u 10 \<inter> extent t 10 = {}"
        by (rule aligned_extents) (use ut tbl_aligned [OF tp] tbl_aligned [OF Some] in auto)
      show ?thesis
      proof (rule ld32_cong)
        fix a assume "unat u + 4 * (q mod 256) \<le> a" "a < unat u + 4 * (q mod 256) + 4"
        then have "a \<notin> extent t 10" using entry_in_table [of u q a] ap by blast
        then show "pm s' a = pm s a" unfolding s' by (intro store32_other) (meson entry_in_table not_less)
      qed
    qed
    with Some False show ?thesis by (simp add: pte_val_def tb [OF j])
  qed (use False in \<open>simp add: pte_val_def tb [OF j]\<close>)
qed

lemma store_pte:
  assumes sp: "space lo n N pd Q s" and va: "unat va < 2 ^ 28" and t: "tbl pd (unat va div 2 ^ 20) s = Some t"
  shows "\<exists>s'. store (t + 4 * PTE_IDX va) e s = Ret () s' \<and> space lo n N pd Q s'
    \<and> remapped pd Q s s' (\<lambda>pg. if pg = unat va div 4096 then e else pte_val pd pg s)"
proof -
  define p where "p = unat va div 4096"
  have p: "p < 65536" using va by (simp add: p_def less_mult_imp_div_less)
  have i: "p div 256 < 256" using p by (simp add: less_mult_imp_div_less)
  have tp: "tbl pd (p div 256) s = Some t" using t page_dir_index [of va] by (simp add: p_def)
  define s' where "s' = s\<lparr>pm := store32 (unat t + 4 * (p mod 256)) e (pm s)\<rparr>"
  have st: "store (t + 4 * PTE_IDX va) e s = Ret () s'"
    using unat_pte [OF t, of va] by (simp add: store_def s'_def p_def)
  have old: "pm s' a = pm s a" if "a \<notin> extent t 10" for a
    using entry_in_table [of t p a] that by (auto simp: s'_def intro!: store32_other) (meson not_less)
  note sub = tbl_subset_tables [OF tp i]
  have ok: "pd_ok pd s" using sp by (simp add: space_def)
  have apart: "extent t 10 \<inter> extent pd 10 = {}"
    by (rule aligned_extents) (use ok tp i tbl_aligned [OF tp] in \<open>auto simp: pd_ok_def\<close>)
  have "pde_val pd j s' = pde_val pd j s" if "j < 256" for j
    by (rule pde_val_cong [OF that]) (use old apart in blast)
  then have tb: "tbl pd j s' = tbl pd j s" if "j < 256" for j using that by (simp add: tbl_def)
  have T: "tables pd s' = tables pd s" by (auto simp: tables_def tb)
  have "pt_inv lo n N (Q \<union> tables pd s) s'"
    unfolding s'_def
    by (rule pt_inv_write) (use sp old sub in \<open>auto simp: space_def s'_def\<close>)
  moreover have "pd_ok pd s'" using ok by (auto simp: pd_ok_def tb)
  ultimately have "space lo n N pd Q s'" using sp by (simp add: space_def T)
  moreover have "pte_val pd q s' = (if q = p then e else pte_val pd q s)" if q: "q < 65536" for q
    by (rule pte_store [OF ok p tp _ tb q]) (simp_all add: s'_def)
  moreover have "pm s' a = pm s a" if "a \<in> Q" for a
    by (rule old) (use that sp sub in \<open>auto simp: space_def\<close>)
  ultimately show ?thesis using st by (auto simp: remapped_def p_def)
qed

lemma mappages_page:
  assumes sp: "space lo n N pd Q s" and va: "unat va < 2 ^ 28" "unat va mod 4096 = 0"
  shows "mappages pd va 0x1000 pa ap s = Panic ''oom: kpt_alloc'' \<or>
    (if pte_val pd (unat va div 4096) s AND 3 \<noteq> 0
     then mappages pd va 0x1000 pa ap s = Panic ''remap''
     else \<exists>s'. mappages pd va 0x1000 pa ap s = Ret 0 s' \<and> space lo n N pd Q s'
       \<and> remapped pd Q s s' (\<lambda>pg. if pg = unat va div 4096 then mk_pte pa ap else pte_val pd pg s))"
proof -
  define p where "p = unat va div 4096"
  have p: "p < 65536" using va by (simp add: p_def less_mult_imp_div_less)
  have i: "unat va div 2 ^ 20 < 256" using va by (simp add: less_mult_imp_div_less)
  have "unat (align_dn va (2 ^ 12)) = unat va"
    using va(2) unat_align_dn [of 12 va] by (auto simp: mod_eq_0_iff_dvd dvd_div_mult_self)
  then have a: "align_dn va 0x1000 = va" by (simp add: word_unat_eq_iff)
  have "unat (va + 0x1000 - 1) = unat va + 4095"
    using va(1) by (simp add: unat_word_ariths)
  then have "unat (align_dn (va + 0x1000 - 1) (2 ^ 12)) = (unat va + 4095) div 4096 * 4096"
    by (simp only: unat_align_dn) simp
  also have "\<dots> = unat va" using va(2) by auto
  finally have l: "align_dn (va + 0x1000 - 1) 0x1000 = va" by (simp add: word_unat_eq_iff)
  have run: "mappages pd va 0x1000 pa ap = map_loop 0 pd va pa ap"
    by (simp only: mappages_def Let_def a l) simp
  show ?thesis
    using walk_alloc [OF sp va(1)]
  proof (elim disjE exE conjE)
    assume "walkpgdir pd va True s = Panic ''oom: kpt_alloc''"
    then show ?thesis unfolding run by (simp add: map_loop.simps)
  next
    fix t s1
    assume w: "walkpgdir pd va True s = Ret (t + 4 * PTE_IDX va) s1" and sp1: "space lo n N pd Q s1"
      and t: "tbl pd (unat va div 2 ^ 20) s1 = Some t" and m1: "remapped pd Q s s1 (\<lambda>pg. pte_val pd pg s)"
    have nz: "t + 4 * PTE_IDX va \<noteq> 0" using sp1 i t by (intro pte_nonzero) (auto simp: space_def)
    have ld: "load (t + 4 * PTE_IDX va) s1 = Ret (pte_val pd p s) s1"
      using load_pte [OF t] m1 p by (simp add: remapped_def p_def)
    obtain s' where s': "store (t + 4 * PTE_IDX va) (mk_pte pa ap) s1 = Ret () s'" "space lo n N pd Q s'"
        "remapped pd Q s1 s' (\<lambda>pg. if pg = unat va div 4096 then mk_pte pa ap else pte_val pd pg s1)"
      using store_pte [OF sp1 va(1) t] by blast
    have "remapped pd Q s s' (\<lambda>pg. if pg = p then mk_pte pa ap else pte_val pd pg s)"
      using s'(3) m1 by (auto simp: remapped_def p_def)
    with w nz ld s'(1,2) show ?thesis
      unfolding run p_def [symmetric] by (auto simp: map_loop.simps)
  qed
qed

section \<open>The user's view of memory\<close>

definition frame_of :: "uint \<Rightarrow> uint" where
  "frame_of e = p2v (PTE_ADDR e)"

text \<open>The byte at user address \<open>va\<close>; \<open>None\<close> when the page is not accessible to the user.\<close>

definition user_byte :: "uint \<Rightarrow> nat \<Rightarrow> 'z vmem_scheme \<Rightarrow> byte option" where
  "user_byte pd va s =
     (let e = pte_val pd (va div 4096) s
      in if e AND 3 = 0 \<or> PTE_AP e \<noteq> 3 then None else Some (pm s (unat (frame_of e) + va mod 4096)))"

definition frames :: "uint \<Rightarrow> 'z vmem_scheme \<Rightarrow> nat set" where
  "frames pd s = (\<Union>pg\<in>{pg. pg < 65536 \<and> pte_val pd pg s AND 3 \<noteq> 0}. extent (frame_of (pte_val pd pg s)) 12)"

text \<open>
  A user address space: its tables, its frames and the rest \<open>R\<close> of the memory in use are disjoint,
  none of it is free, no frame is at the null pointer and none is mapped twice.
\<close>

definition user_space :: "nat \<Rightarrow> nat \<Rightarrow> nat \<Rightarrow> uint \<Rightarrow> nat set \<Rightarrow> 'z vmem_scheme \<Rightarrow> bool" where
  "user_space lo n N pd R s \<longleftrightarrow> space lo n N pd (R \<union> frames pd s) s \<and> R \<inter> frames pd s = {} \<and> 0 \<notin> frames pd s
     \<and> (\<forall>p<65536. \<forall>q<65536. p \<noteq> q \<longrightarrow> pte_val pd p s AND 3 \<noteq> 0 \<longrightarrow> pte_val pd q s AND 3 \<noteq> 0 \<longrightarrow>
          extent (frame_of (pte_val pd p s)) 12 \<inter> extent (frame_of (pte_val pd q s)) 12 = {})"

lemma frame_subset: "pg < 65536 \<Longrightarrow> pte_val pd pg s AND 3 \<noteq> 0 \<Longrightarrow> extent (frame_of (pte_val pd pg s)) 12 \<subseteq> frames pd s"
  by (auto simp: frames_def)

lemma v2p_aligned_page: "unat r mod 4096 = 0 \<Longrightarrow> unat (v2p r) mod 4096 = 0"
proof -
  assume r: "unat r mod 4096 = 0"
  have "v2p r = r + 0x80000000" by (simp add: v2p_def)
  then have "unat (v2p r) = (unat r + 0x80000000) mod 0x100000000" by (simp add: unat_word_ariths)
  with r show ?thesis unfolding mod_eq_0_iff_dvd by (simp add: dvd_mod)
qed

lemma fresh_pte:
  assumes "unat r mod 4096 = 0"
  shows "mk_pte (v2p r) ap AND 3 \<noteq> 0" and "frame_of (mk_pte (v2p r) ap) = r"
    and "PTE_AP (mk_pte (v2p r) ap) = ap AND 3"
  using mk_pte_fields [OF v2p_aligned_page [OF assms], of ap]
  by (simp_all add: frame_of_def p2v_def v2p_def)

text \<open>\<open>added pd p r s s'\<close>: the entries of \<open>s'\<close> are those of \<open>s\<close> but that the unmapped page \<open>p\<close> now has the frame \<open>r\<close>.\<close>

definition added :: "uint \<Rightarrow> nat \<Rightarrow> uint \<Rightarrow> 'y vmem_scheme \<Rightarrow> 'z vmem_scheme \<Rightarrow> bool" where
  "added pd p r s s' \<longleftrightarrow> p < 65536 \<and> pte_val pd p s AND 3 = 0 \<and> pte_val pd p s' AND 3 \<noteq> 0
     \<and> frame_of (pte_val pd p s') = r \<and> (\<forall>pg<65536. pg \<noteq> p \<longrightarrow> pte_val pd pg s' = pte_val pd pg s)"

lemma added_frames:
  assumes "added pd p r s s'"
  shows "frames pd s' = frames pd s \<union> extent r 12"
proof -
  define S where "S = {pg. pg < 65536 \<and> pte_val pd pg s AND 3 \<noteq> 0}"
  have S: "{pg. pg < 65536 \<and> pte_val pd pg s' AND 3 \<noteq> 0} = insert p S"
    using assms by (auto simp: S_def added_def)
  have "pte_val pd pg s' = pte_val pd pg s" if "pg \<in> S" for pg
    using that assms by (auto simp: S_def added_def)
  then have "(\<Union>pg\<in>S. extent (frame_of (pte_val pd pg s')) 12) = (\<Union>pg\<in>S. extent (frame_of (pte_val pd pg s)) 12)"
    by (intro SUP_cong refl) simp
  moreover have "frame_of (pte_val pd p s') = r" using assms by (simp add: added_def)
  ultimately show ?thesis unfolding frames_def S S_def [symmetric] by auto
qed

lemma added_other:
  assumes "added pd p r s s'" and "x < 65536" "x \<noteq> p" "pte_val pd x s' AND 3 \<noteq> 0"
  shows "extent (frame_of (pte_val pd x s')) 12 \<subseteq> frames pd s" and "pte_val pd x s' = pte_val pd x s"
  using assms frame_subset [of x pd s] by (simp_all add: added_def)

lemma user_space_added:
  assumes us: "user_space lo n N pd R s" and ad: "added pd p r s s'"
    and sp: "space lo n N pd (R \<union> frames pd s \<union> extent r 12) s'"
    and r: "extent r 12 \<inter> (R \<union> frames pd s) = {}" "r \<noteq> 0"
  shows "user_space lo n N pd R s'"
  unfolding user_space_def
proof (intro conjI allI impI)
  note fr = added_frames [OF ad]
  show "space lo n N pd (R \<union> frames pd s') s'" using sp by (simp add: fr Un_assoc)
  show "R \<inter> frames pd s' = {}" using us r(1) by (auto simp: fr user_space_def)
  have "0 < unat r" using r(2) by (simp add: unat_gt_0)
  then show "0 \<notin> frames pd s'" using us by (simp add: fr user_space_def extent_def)
  fix x y assume xy: "x < 65536" "y < 65536" "x \<noteq> y" "pte_val pd x s' AND 3 \<noteq> 0" "pte_val pd y s' AND 3 \<noteq> 0"
  have rp: "frame_of (pte_val pd p s') = r" using ad by (simp add: added_def)
  consider "x = p" "y \<noteq> p" | "x \<noteq> p" "y = p" | "x \<noteq> p" "y \<noteq> p" using xy(3) by blast
  then show "extent (frame_of (pte_val pd x s')) 12 \<inter> extent (frame_of (pte_val pd y s')) 12 = {}"
  proof cases
    case 1
    then show ?thesis using added_other(1) [OF ad xy(2) _ xy(5)] rp r(1) by blast
  next
    case 2
    then show ?thesis using added_other(1) [OF ad xy(1) _ xy(4)] rp r(1) by blast
  next
    case 3
    then show ?thesis
      using xy us added_other(2) [OF ad xy(1) _ xy(4)] added_other(2) [OF ad xy(2) _ xy(5)] by (simp add: user_space_def)
  qed
qed

text \<open>
  One round of \<^verbatim>\<open>allocuvm\<close> or \<^verbatim>\<open>copyuvm\<close>: a fresh page with contents \<open>c\<close> is mapped at an unmapped
  address; everything else the user sees stays.
\<close>

lemma map_fresh_page:
  assumes us: "user_space lo n N pd R s" and va: "unat va < 2 ^ 28" "unat va mod 4096 = 0"
    and un: "pte_val pd (unat va div 4096) s AND 3 = 0"
    and r: "unat r mod 4096 = 0" "extent r 12 \<inter> (R \<union> frames pd s \<union> tables pd s) = {}" "r \<noteq> 0"
    and inv: "pt_inv lo n N (R \<union> frames pd s \<union> tables pd s \<union> extent r 12) s1"
    and mem: "\<forall>a. a \<notin> extent r 12 \<longrightarrow> pm s1 a = pm s a"
  shows "mappages pd va 0x1000 (v2p r) ap s1 = Panic ''oom: kpt_alloc'' \<or>
    (\<exists>s'. mappages pd va 0x1000 (v2p r) ap s1 = Ret 0 s' \<and> user_space lo n N pd R s'
      \<and> (\<forall>pg<65536. pte_val pd pg s' = (if pg = unat va div 4096 then mk_pte (v2p r) ap else pte_val pd pg s))
      \<and> (\<forall>a\<in>R \<union> frames pd s \<union> extent r 12. pm s' a = pm s1 a))"
proof -
  define Q where "Q = R \<union> frames pd s \<union> extent r 12"
  define p where "p = unat va div 4096"
  have p: "p < 65536" using va by (simp add: p_def less_mult_imp_div_less)
  have keep: "pm s1 a = pm s a" if "a \<in> tables pd s" for a using that r(2) mem by blast
  note cong = tables_cong [OF keep]
  have "pt_inv lo n N (Q \<union> tables pd s) s1"
    by (rule pt_inv_subset [OF inv]) (auto simp: Q_def)
  moreover have "Q \<inter> tables pd s = {}"
    using us r(2) by (auto simp: user_space_def space_def Q_def)
  ultimately have "space lo n N pd Q s1"
    using us cong(2,4) by (simp add: space_def user_space_def)
  note mp = mappages_page [OF this va, of "v2p r" ap]
  have un1: "pte_val pd p s1 AND 3 = 0" using un cong(3) p by (simp add: p_def)
  show ?thesis
  proof (cases "mappages pd va 0x1000 (v2p r) ap s1 = Panic ''oom: kpt_alloc''")
    case False
    then obtain s' where s': "mappages pd va 0x1000 (v2p r) ap s1 = Ret 0 s'" "space lo n N pd Q s'"
      "remapped pd Q s1 s' (\<lambda>pg. if pg = unat va div 4096 then mk_pte (v2p r) ap else pte_val pd pg s1)"
      using mp un1 [unfolded p_def] by auto
    have e: "pte_val pd pg s' = (if pg = p then mk_pte (v2p r) ap else pte_val pd pg s)" if "pg < 65536" for pg
      using s'(3) that cong(3) by (auto simp: remapped_def p_def)
    have "added pd p r s s'" using p un fresh_pte [OF r(1), of ap] by (simp add: added_def e p_def)
    then have "user_space lo n N pd R s'"
      using s'(2) r(2,3) by (intro user_space_added [OF us]) (auto simp: Q_def)
    moreover have "\<forall>a\<in>R \<union> frames pd s \<union> extent r 12. pm s' a = pm s1 a"
      using s'(3) by (simp add: remapped_def Q_def)
    ultimately show ?thesis
      using s'(1) e unfolding p_def by (intro disjI2 exI [of _ s'] conjI) simp_all
  qed simp
qed

end
