(* ===== verification/Vm_Spec.thy ===== *)
theory Vm_Spec
  imports Vm_Proofs
begin

unbundle bit_operations_syntax

text \<open>
  What growing, copying and writing an address space does to the memory its user sees, and the
  properties of the virtual memory code.
\<close>

section \<open>Growing\<close>

text \<open>A fresh page changes what the user sees at that page only.\<close>

lemma user_byte_fresh:
  assumes us: "user_space lo n N pd R s"
    and r: "unat r mod 4096 = 0" "extent r 12 \<inter> (R \<union> frames pd s \<union> tables pd s) = {}"
    and mem: "\<forall>a. a \<notin> extent r 12 \<longrightarrow> pm s1 a = pm s a"
    and e: "\<forall>pg<65536. pte_val pd pg s' = (if pg = p then mk_pte (v2p r) ap else pte_val pd pg s)"
    and m: "\<forall>a\<in>R \<union> frames pd s \<union> extent r 12. pm s' a = pm s1 a"
    and va: "va < 2 ^ 28"
  shows "user_byte pd va s' = (if va div 4096 = p
    then if ap AND 3 = 3 then Some (pm s1 (unat r + va mod 4096)) else None
    else user_byte pd va s)"
proof -
  have pg: "va div 4096 < 65536" using va by (simp add: less_mult_imp_div_less)
  have off: "va mod 4096 < 4096" by simp
  show ?thesis
  proof (cases "va div 4096 = p")
    case True
    moreover have "unat r + va mod 4096 \<in> extent r 12" using off by (simp add: extent_def)
    ultimately show ?thesis
      using e pg fresh_pte [OF r(1), of ap] m by (auto simp: user_byte_def Let_def)
  next
    case False
    then have same: "pte_val pd (va div 4096) s' = pte_val pd (va div 4096) s" using e pg by simp
    show ?thesis
    proof (cases "pte_val pd (va div 4096) s AND 3 = 0")
      case nz: False
      define x where "x = unat (frame_of (pte_val pd (va div 4096) s)) + va mod 4096"
      have "x \<in> extent (frame_of (pte_val pd (va div 4096) s)) 12" using off by (simp add: x_def extent_def)
      then have "x \<in> frames pd s" using frame_subset [OF pg nz] by blast
      moreover then have "x \<notin> extent r 12" using r(2) by blast
      ultimately have "pm s' x = pm s x" using m mem by simp
      then show ?thesis using False same by (simp add: user_byte_def Let_def x_def)
    qed (use False same in \<open>simp add: user_byte_def\<close>)
  qed
qed

abbreviation (input) pages :: "uint list \<Rightarrow> nat set" where
  "pages as \<equiv> (\<lambda>a. unat a div 4096) ` set as"

definition page_list :: "uint \<Rightarrow> uint list \<Rightarrow> 'z vmem_scheme \<Rightarrow> bool" where
  "page_list pd as s \<longleftrightarrow> distinct as \<and> (\<forall>a\<in>set as. unat a < 2 ^ 28 \<and> unat a mod 4096 = 0
     \<and> pte_val pd (unat a div 4096) s AND 3 = 0)"

lemma page_list_tl:
  assumes "page_list pd (a # as) s"
    and "\<forall>pg<65536. pte_val pd pg s' = (if pg = unat a div 4096 then e else pte_val pd pg s)"
  shows "page_list pd as s'"
proof -
  have "pte_val pd (unat b div 4096) s' AND 3 = 0" if b: "b \<in> set as" for b
  proof -
    have "unat b < 2 ^ 28" "unat b mod 4096 = 0" "unat a mod 4096 = 0" "b \<noteq> a"
      "pte_val pd (unat b div 4096) s AND 3 = 0" using assms(1) b by (auto simp: page_list_def)
    moreover then have "unat b div 4096 \<noteq> unat a div 4096"
      by (metis div_mult_mod_eq word_unat_eq_iff)
    moreover have "unat b div 4096 < 65536" using \<open>unat b < 2 ^ 28\<close> by (simp add: less_mult_imp_div_less)
    ultimately show ?thesis using assms(2) by simp
  qed
  with assms(1) show ?thesis by (auto simp: page_list_def)
qed

lemma alloc_loop_spec:
  assumes "user_space lo n N pd R s" and "page_list pd as s"
  shows "alloc_loop pd as s = Panic ''oom: kpt_alloc'' \<or>
    (\<exists>ok s' bs. alloc_loop pd as s = Ret ok s' \<and> user_space lo n N pd R s'
      \<and> set bs \<subseteq> set as \<and> (ok \<longrightarrow> bs = as)
      \<and> (\<forall>va<2 ^ 28. user_byte pd va s' = (if va div 4096 \<in> pages bs then Some 0 else user_byte pd va s))
      \<and> (\<forall>x\<in>R. pm s' x = pm s x))"
  using assms
proof (induction as arbitrary: s)
  case Nil
  then show ?case by (intro disjI2 exI [of _ True] exI [of _ s] exI [of _ "[]"]) simp
next
  case (Cons a as)
  have inv: "pt_inv lo n N (R \<union> frames pd s \<union> tables pd s) s"
    using Cons.prems(1) by (simp add: user_space_def space_def)
  have a: "unat a < 2 ^ 28" "unat a mod 4096 = 0" "pte_val pd (unat a div 4096) s AND 3 = 0"
    using Cons.prems(2) by (auto simp: page_list_def)
  show ?case
    using alloc_page_spec [OF inv]
  proof (elim disjE exE conjE)
    assume "alloc_page s = Ret 0 s"
    then show ?thesis
      using Cons.prems(1) by (intro disjI2 exI [of _ False] exI [of _ s] exI [of _ "[]"]) simp
  next
    fix r s0
    assume r: "alloc_page s = Ret r s0" "r \<noteq> 0" "unat r mod 4096 = 0"
      "extent r 12 \<inter> (R \<union> frames pd s \<union> tables pd s) = {}" "pm s0 = pm s"
      "pt_inv lo n N (R \<union> frames pd s \<union> tables pd s \<union> extent r 12) s0"
    define s1 where "s1 = s0\<lparr>pm := fill 0 (unat r) 4096 (pm s)\<rparr>"
    have z: "zero_mem r 4096 s0 = Ret () s1"
      using memset0_fill [of "unat r" 4096 "pm s"] r(5) by (simp add: zero_mem_def s1_def)
    have mem: "\<forall>x. x \<notin> extent r 12 \<longrightarrow> pm s1 x = pm s x"
      by (auto simp: s1_def fill_def extent_def)
    have inv1: "pt_inv lo n N (R \<union> frames pd s \<union> tables pd s \<union> extent r 12) s1"
      unfolding s1_def by (rule pt_inv_write [OF r(6)]) (auto simp: fill_def extent_def r(5))
    note step = map_fresh_page [OF Cons.prems(1) a r(3,4,2) inv1 mem, of 3]
    show ?thesis
      using step
    proof (elim disjE exE conjE)
      assume "mappages pd a 0x1000 (v2p r) 3 s1 = Panic ''oom: kpt_alloc''"
      then show ?thesis using r(1,2) z by simp
    next
      fix s2
      assume m: "mappages pd a 0x1000 (v2p r) 3 s1 = Ret 0 s2" "user_space lo n N pd R s2"
        "\<forall>pg<65536. pte_val pd pg s2 = (if pg = unat a div 4096 then mk_pte (v2p r) 3 else pte_val pd pg s)"
        "\<forall>x\<in>R \<union> frames pd s \<union> extent r 12. pm s2 x = pm s1 x"
      have run: "alloc_loop pd (a # as) s = alloc_loop pd as s2"
        using r(1,2) z m(1) by simp
      have ub: "user_byte pd va s2 = (if va div 4096 = unat a div 4096 then Some 0 else user_byte pd va s)"
        if "va < 2 ^ 28" for va
        using user_byte_fresh [OF Cons.prems(1) r(3,4) mem m(3,4) that] by (simp add: s1_def fill_def)
      have R: "pm s2 x = pm s x" if "x \<in> R" for x
        using m(4) that r(4) mem by auto
      show ?thesis
        using Cons.IH [OF m(2) page_list_tl [OF Cons.prems(2) m(3)]] unfolding run
      proof (elim disjE exE conjE)
        fix ok s' bs
        assume h: "alloc_loop pd as s2 = Ret ok s'" "user_space lo n N pd R s'" "set bs \<subseteq> set as" "ok \<longrightarrow> bs = as"
          "\<forall>va<2 ^ 28. user_byte pd va s' = (if va div 4096 \<in> pages bs then Some 0 else user_byte pd va s2)"
          "\<forall>x\<in>R. pm s' x = pm s2 x"
        show "alloc_loop pd as s2 = Panic ''oom: kpt_alloc'' \<or> (\<exists>ok s' bs'. alloc_loop pd as s2 = Ret ok s'
          \<and> user_space lo n N pd R s' \<and> set bs' \<subseteq> set (a # as) \<and> (ok \<longrightarrow> bs' = a # as)
          \<and> (\<forall>va<2 ^ 28. user_byte pd va s' = (if va div 4096 \<in> pages bs' then Some 0 else user_byte pd va s))
          \<and> (\<forall>x\<in>R. pm s' x = pm s x))"
          using h R ub by (intro disjI2 exI [of _ ok] exI [of _ s'] exI [of _ "a # bs"] conjI) auto
      qed simp
    qed
  qed
qed

lemma steps_pages:
  assumes hi: "unat hi \<le> 2 ^ 28" and low: "unat low mod 4096 = 0"
  shows "distinct (steps low hi 4096)"
    and "a \<in> set (steps low hi 4096) \<Longrightarrow> unat a < unat hi \<and> unat a mod 4096 = 0 \<and> unat low \<le> unat a"
    and "pages (steps low hi 4096) = {unat low div 4096..<(unat hi + 4095) div 4096}"
proof -
  define k where "k = (unat hi - unat low + 4095) div 4096"
  obtain q where q: "unat low = 4096 * q" using low by auto
  have val: "unat (low + word_of_nat (j * 4096)) = unat low + j * 4096 \<and> unat low + j * 4096 < unat hi"
    if "j < k" for j
  proof -
    have "unat low + j * 4096 < unat hi" using that unfolding k_def by linarith
    then have lt: "j * 4096 < 2 ^ 32" "unat low + j * 4096 < 2 ^ 32" using hi by auto
    show ?thesis
      using unat_of_nat_32 [OF lt(1)] lt(2) \<open>unat low + j * 4096 < unat hi\<close>
      by (simp add: unat_word_ariths)
  qed
  have st: "steps low hi 4096 = map (\<lambda>j. low + word_of_nat (j * 4096)) [0..<k]"
    by (simp add: steps_def k_def)
  show "distinct (steps low hi 4096)"
    unfolding st distinct_map
  proof (intro conjI inj_onI)
    fix i j assume ij: "i \<in> set [0..<k]" "j \<in> set [0..<k]"
      and e: "low + word_of_nat (i * 4096) = low + word_of_nat (j * 4096)"
    then have "unat low + i * 4096 = unat low + j * 4096" using val [of i] val [of j] by (metis atLeastLessThan_iff set_upt)
    then show "i = j" by simp
  qed simp
  show "unat a < unat hi \<and> unat a mod 4096 = 0 \<and> unat low \<le> unat a" if "a \<in> set (steps low hi 4096)"
    using that val low unfolding st by (auto simp: q)
  have "pages (steps low hi 4096) = (\<lambda>j. unat (low + word_of_nat (j * 4096)) div 4096) ` {0..<k}"
    unfolding st by (simp only: set_map set_upt image_image)
  also have "\<dots> = (\<lambda>j. q + j) ` {0..<k}"
  proof (rule image_cong [OF refl])
    fix j assume "j \<in> {0..<k}"
    then have "unat (low + word_of_nat (j * 4096)) = 4096 * q + j * 4096" using val [of j] q by simp
    then show "unat (low + word_of_nat (j * 4096)) div 4096 = q + j" by simp
  qed
  also have "\<dots> = {q..<q + k}" by (simp add: add.commute)
  also have "q + k = (if unat low \<le> unat hi then (unat hi + 4095) div 4096 else q)"
    unfolding k_def q by auto
  finally show "pages (steps low hi 4096) = {unat low div 4096..<(unat hi + 4095) div 4096}"
    by (auto simp: q split: if_splits)
qed


section \<open>Writing to a user address space\<close>

text \<open>Replacing bytes inside the frame of one mapped page.\<close>

lemma user_write:
  assumes us: "user_space lo n N pd R s" and pg: "pg < 65536" "pte_val pd pg s AND 3 \<noteq> 0"
    and k: "off + k \<le> 4096" and f: "f = unat (frame_of (pte_val pd pg s))"
    and s'_def: "s' = s\<lparr>pm := \<lambda>a. if f + off \<le> a \<and> a < f + off + k then g (a - (f + off)) else pm s a\<rparr>"
  shows "user_space lo n N pd R s'" and "q < 65536 \<Longrightarrow> pte_val pd q s' = pte_val pd q s"
    and "x \<in> R \<Longrightarrow> pm s' x = pm s x"
    and "PTE_AP (pte_val pd pg s) = 3 \<Longrightarrow> va < 2 ^ 28 \<Longrightarrow> user_byte pd va s' =
      (if pg * 4096 + off \<le> va \<and> va < pg * 4096 + off + k then Some (g (va - (pg * 4096 + off))) else user_byte pd va s)"
proof -
  have in_f: "a \<in> frames pd s" if "f + off \<le> a" "a < f + off + k" for a
    using that k frame_subset [OF pg] by (auto simp: f extent_def subset_iff)
  have tab: "pm s' a = pm s a" if "a \<in> tables pd s" for a
    using that in_f us by (auto simp: s'_def user_space_def space_def)
  note cong = tables_cong [OF tab]
  show e: "pte_val pd q s' = pte_val pd q s" if "q < 65536" for q using cong(3) that by blast
  have fr: "frames pd s' = frames pd s" by (auto simp: frames_def e)
  have "pt_inv lo n N (R \<union> frames pd s \<union> tables pd s) s'"
    unfolding s'_def
    by (rule pt_inv_write) (use us in_f in \<open>auto simp: user_space_def space_def\<close>)
  then show "user_space lo n N pd R s'"
    using us cong(2,4) by (simp add: user_space_def space_def fr e)
  show "pm s' x = pm s x" if "x \<in> R" for x
    using that in_f us by (auto simp: s'_def user_space_def)
  show "user_byte pd va s' =
      (if pg * 4096 + off \<le> va \<and> va < pg * 4096 + off + k then Some (g (va - (pg * 4096 + off))) else user_byte pd va s)"
    if ap: "PTE_AP (pte_val pd pg s) = 3" and va: "va < 2 ^ 28" for va
  proof -
    define q where "q = va div 4096"
    define w where "w = va mod 4096"
    have vq: "va = q * 4096 + w" and w: "w < 4096" by (simp_all add: q_def w_def)
    have q: "q < 65536" using va by (simp add: q_def less_mult_imp_div_less)
    show ?thesis
    proof (cases "q = pg")
      case True
      have "f + off \<le> f + w \<and> f + w < f + off + k \<longleftrightarrow> pg * 4096 + off \<le> va \<and> va < pg * 4096 + off + k"
        using vq True by auto
      moreover have "va - (pg * 4096 + off) = f + w - (f + off)" using vq True by simp
      ultimately show ?thesis
        using True ap pg e [OF q] by (simp add: user_byte_def Let_def s'_def f q_def [symmetric] w_def [symmetric])
    next
      case False
      then have out: "\<not> (pg * 4096 + off \<le> va \<and> va < pg * 4096 + off + k)"
        using vq w k by auto
      show ?thesis
      proof (cases "pte_val pd q s AND 3 = 0")
        case nz: False
        have "extent (frame_of (pte_val pd q s)) 12 \<inter> extent (frame_of (pte_val pd pg s)) 12 = {}"
          using us False q pg nz by (simp add: user_space_def)
        then have "\<not> (f + off \<le> unat (frame_of (pte_val pd q s)) + w \<and> unat (frame_of (pte_val pd q s)) + w < f + off + k)"
          using w k by (auto simp: extent_def f disjoint_iff)
        then have "pm s' (unat (frame_of (pte_val pd q s)) + w) = pm s (unat (frame_of (pte_val pd q s)) + w)"
          by (auto simp: s'_def)
        then have "user_byte pd va s' = user_byte pd va s"
          using e [OF q] by (simp add: user_byte_def Let_def q_def [symmetric] w_def [symmetric])
        then show ?thesis using out by (simp only: if_False)
      qed (use out e [OF q] in \<open>simp add: user_byte_def Let_def q_def [symmetric]\<close>)
    qed
  qed
qed

lemma p2v_eq_v2p: "p2v x = v2p x"
  by (simp add: p2v_def v2p_def)

lemma uva2ka_mapped:
  assumes us: "user_space lo n N pd R s" and va: "unat va < 2 ^ 28"
    and e: "e = pte_val pd (unat va div 4096) s" "e AND 3 \<noteq> 0" "PTE_AP e = 3"
  shows "uva2ka pd va s = Ret (frame_of e) s" and "frame_of e \<noteq> 0"
proof -
  have ok: "pd_ok pd s" using us by (simp add: user_space_def space_def)
  have i: "unat va div 2 ^ 20 < 256" using va by (simp add: less_mult_imp_div_less)
  obtain t where t: "tbl pd (unat va div 2 ^ 20) s = Some t"
    using e page_dir_index [of va] by (auto simp: pte_val_def split: option.splits)
  have "unat pd mod 1024 = 0" using ok by (simp add: pd_ok_def)
  then have "walkpgdir pd va False s = Ret (t + 4 * PTE_IDX va) s"
    using walk_lookup [of pd va s] va t by simp
  then show "uva2ka pd va s = Ret (frame_of e) s"
    using pte_nonzero [OF ok i t, of va] load_pte [OF t] e by (simp add: uva2ka_def frame_of_def)
  have pg: "unat va div 4096 < 65536" using va by (simp add: less_mult_imp_div_less)
  have "0 \<notin> frames pd s" using us by (simp add: user_space_def)
  then have "0 \<notin> extent (frame_of e) 12" using frame_subset [OF pg] e by blast
  then show "frame_of e \<noteq> 0" by (auto simp: extent_def)
qed

lemma frame_top: "unat (frame_of e) + 4096 \<le> 2 ^ 32"
proof -
  have "unat (PTE_ADDR e) mod 4096 = 0" using unat_align_dn [of 12 e] by (simp add: PTE_ADDR_def)
  then have "unat (frame_of e) mod 4096 = 0"
    using v2p_aligned_page [of "PTE_ADDR e"] p2v_eq_v2p by (simp add: frame_of_def)
  then obtain k where "unat (frame_of e) = 4096 * k" by auto
  then show ?thesis using unat_less_32 [of "frame_of e"] by simp
qed

text \<open>\<open>copied pd va buf k R s s'\<close>: the \<open>k\<close> bytes at kernel address \<open>buf\<close> of \<open>s\<close> are at \<open>va\<close> in \<open>s'\<close>, and nothing else changed.\<close>

definition copied :: "uint \<Rightarrow> nat \<Rightarrow> nat \<Rightarrow> nat \<Rightarrow> nat set \<Rightarrow> 'z vmem_scheme \<Rightarrow> 'z vmem_scheme \<Rightarrow> bool" where
  "copied pd va buf k R s s' \<longleftrightarrow> (\<forall>x\<in>R. pm s' x = pm s x)
     \<and> (\<forall>x<2 ^ 28. user_byte pd x s' = (if va \<le> x \<and> x < va + k then Some (pm s (buf + (x - va))) else user_byte pd x s))"

lemma copied_trans:
  assumes s1: "copied pd va buf c R s s1" and s': "copied pd (va + c) (buf + c) (len - c) R s1 s'"
    and c: "c \<le> len" and R: "{buf..<buf + len} \<subseteq> R"
  shows "copied pd va buf len R s s'"
  unfolding copied_def
proof (intro conjI ballI allI impI)
  show "pm s' x = pm s x" if "x \<in> R" for x using s1 s' that by (simp add: copied_def)
  have kb: "pm s1 (buf + i) = pm s (buf + i)" if "i < len" for i
  proof -
    have "buf + i \<in> R" using R that by (intro subsetD [OF R]) simp
    then show ?thesis using s1 by (simp add: copied_def)
  qed
  show "user_byte pd x s' = (if va \<le> x \<and> x < va + len then Some (pm s (buf + (x - va))) else user_byte pd x s)"
    if x: "x < 2 ^ 28" for x
  proof (cases "va + c \<le> x \<and> x < va + len")
    case True
    then have "buf + c + (x - (va + c)) = buf + (x - va)" "x - va < len" "x < va + c + (len - c)" using c by auto
    then have "user_byte pd x s' = Some (pm s1 (buf + (x - va)))" using s' x True unfolding copied_def by auto
    then show ?thesis using kb [OF \<open>x - va < len\<close>] True by simp
  next
    case False
    then have "\<not> (va + c \<le> x \<and> x < va + c + (len - c))" using c by auto
    then have "user_byte pd x s' = user_byte pd x s1" using s' x unfolding copied_def by auto
    then show ?thesis using s1 x False c by (auto simp: copied_def)
  qed
qed

text \<open>One pass of the loop of \<^verbatim>\<open>copyout\<close> copies up to the end of the page.\<close>

lemma copyout_chunk:
  assumes us: "user_space lo n N pd R s" and va28: "unat va < 2 ^ 28" and ub: "user_byte pd (unat va) s \<noteq> None"
    and l0: "len \<noteq> 0"
  defines "c \<equiv> copy_chunk va len" and "va0 \<equiv> align_dn va 0x1000"
  shows "\<exists>pa s1. uva2ka pd va0 s = Ret pa s \<and> pa \<noteq> 0 \<and> move_mem (pa + (va - va0)) buf c s = Ret () s1
    \<and> user_space lo n N pd R s1 \<and> copied pd (unat va) (unat buf) (unat c) R s s1"
proof -
  define pg off where "pg = unat va div 4096" and "off = unat va mod 4096"
  define e where "e = pte_val pd pg s"
  define f where "f = unat (frame_of e)"
  define g where "g = (\<lambda>i. pm s (unat buf + i))"
  define s1 where "s1 = s\<lparr>pm := \<lambda>a. if f + off \<le> a \<and> a < f + off + unat c then g (a - (f + off)) else pm s a\<rparr>"
  have off: "off < 4096" and va: "unat va = pg * 4096 + off" by (simp_all add: off_def pg_def)
  have va0: "unat va0 = pg * 4096" using unat_align_dn [of 12 va] by (simp add: va0_def pg_def)
  have pg: "pg < 65536" using va28 by (simp add: pg_def less_mult_imp_div_less)
  have e: "e AND 3 \<noteq> 0" "PTE_AP e = 3"
    using ub by (auto simp: user_byte_def Let_def e_def pg_def split: if_splits)
  have "unat va0 < 2 ^ 28" "e = pte_val pd (unat va0 div 4096) s" using va va0 va28 by (simp_all add: e_def)
  note ka = uva2ka_mapped [OF us this e]
  have dst: "unat (frame_of e + (va - va0)) = f + off"
    using page_offset [of va] frame_top [of e] off by (simp add: va0_def off_def f_def unat_word_ariths)
  have mv: "move_mem (frame_of e + (va - va0)) buf c s = Ret () s1"
    by (simp only: move_mem_def kmod_apply dst memmove_eq s1_def g_def)
  have k: "off + unat c \<le> 4096" using off by (simp add: c_def unat_copy_chunk off_def)
  note uw = user_write [OF us pg e(1) [unfolded e_def] k, of f s1 g, folded e_def, OF f_def s1_def]
  have "user_byte pd x s1 = (if unat va \<le> x \<and> x < unat va + unat c
      then Some (pm s (unat buf + (x - unat va))) else user_byte pd x s)" if "x < 2 ^ 28" for x
    using uw(4) [OF e(2) that] by (simp add: g_def va)
  then have "copied pd (unat va) (unat buf) (unat c) R s s1" using uw(3) by (simp add: copied_def)
  then show ?thesis using ka mv uw(1) by blast
qed

text \<open>
  \<^verbatim>\<open>copyout\<close> of \<open>len\<close> bytes from kernel memory to mapped user pages, across any number of page
  boundaries, succeeds; afterwards the user sees exactly those bytes at \<open>va\<close>, every other user byte
  and the kernel memory are unchanged, and the address space keeps its invariant.
\<close>

lemma copyout_copied:
  assumes "user_space lo n N pd R s" and "unat va + unat len \<le> 2 ^ 28" and "unat buf + unat len < 2 ^ 32"
    and "{unat buf..<unat buf + unat len} \<subseteq> R"
    and "\<forall>x. unat va \<le> x \<longrightarrow> x < unat va + unat len \<longrightarrow> user_byte pd x s \<noteq> None"
  shows "\<exists>s'. copyout pd va buf len s = Ret 0 s' \<and> user_space lo n N pd R s' \<and> copied pd (unat va) (unat buf) (unat len) R s s'"
  using assms
proof (induction pd va buf len arbitrary: s rule: copyout.induct)
  case (1 pd va buf len)
  show ?case
  proof (cases "len = 0")
    case True
    with "1.prems" show ?thesis by (subst copyout.simps) (auto simp: copied_def)
  next
    case False
    then have l0: "0 < unat len" by (simp add: unat_gt_0)
    define va0 c where "va0 = align_dn va 0x1000" and "c = copy_chunk va len"
    have lt: "unat va < 2 ^ 28" using "1.prems"(2) l0 by linarith
    obtain pa s1 where ka: "uva2ka pd va0 s = Ret pa s" "pa \<noteq> 0" and mv: "move_mem (pa + (va - va0)) buf c s = Ret () s1"
      and us: "user_space lo n N pd R s1" and cp: "copied pd (unat va) (unat buf) (unat c) R s s1"
      using copyout_chunk [OF "1.prems"(1) lt _ False, of buf] "1.prems"(5) l0 by (auto simp: va0_def c_def)
    have run: "copyout pd va buf len s = copyout pd (va0 + 0x1000) (buf + c) (len - c) s1"
      using False ka mv by (subst copyout.simps) (simp add: Let_def va0_def c_def)
    have c: "unat c = min (4096 - unat va mod 4096) (unat len)" by (simp add: c_def unat_copy_chunk)
    then have cle: "unat c \<le> unat len" by simp
    have len': "unat (len - c) = unat len - unat c" using cle by (simp add: unat_sub word_le_nat_alt)
    have buf': "unat (buf + c) = unat buf + unat c" using "1.prems"(3) cle by (simp add: unat_word_ariths)
    have va0: "unat va0 = unat va div 4096 * 4096" using unat_align_dn [of 12 va] by (simp add: va0_def)
    have "\<exists>s'. copyout pd (va0 + 0x1000) (buf + c) (len - c) s1 = Ret 0 s' \<and> user_space lo n N pd R s'
        \<and> copied pd (unat va + unat c) (unat buf + unat c) (unat len - unat c) R s1 s'"
    proof (cases "len - c = 0")
      case True
      then have "unat len - unat c = 0" using len' by simp
      moreover have "copyout pd (va0 + 0x1000) (buf + c) (len - c) s1 = Ret 0 s1"
        by (subst copyout.simps) (simp add: True)
      ultimately show ?thesis using us by (auto simp: copied_def)
    next
      case nz: False
      then have "unat len - unat c \<noteq> 0" using len' by (auto simp: unsigned_eq_0_iff)
      then have "unat c = 4096 - unat va mod 4096" using c by (simp add: min_def split: if_splits)
      then have va': "unat (va0 + 0x1000) = unat va + unat c"
        using va0 lt by (simp add: unat_word_ariths minus_mod_eq_div_mult [symmetric] le_less_trans)
      show ?thesis
        unfolding va' [symmetric] buf' [symmetric] len' [symmetric] unfolding va0_def c_def
      proof (rule "1.IH" [OF False refl _ refl, of pa])
        show "user_space lo n N pd R s1" by (rule us)
      qed (use "1.prems" ka(2) cle va' buf' len' cp in \<open>auto simp: copied_def va0_def [symmetric] c_def [symmetric]\<close>)
    qed
    then show ?thesis unfolding run using copied_trans [OF cp _ cle "1.prems"(4)] by blast
  qed
qed

text \<open>
  C15: copying \<open>len\<close> bytes out to user addresses that are all mapped succeeds, makes exactly those user
  bytes the source bytes in order, across any number of pages, keeps the address space well formed and
  leaves every other user byte and the source as they were.
\<close>

theorem copyout_correct:
  assumes "user_space lo n N pd R s" and "unat va + unat len \<le> 2 ^ 28" and "unat buf + unat len < 2 ^ 32"
    and "{unat buf..<unat buf + unat len} \<subseteq> R"
    and "\<forall>x. unat va \<le> x \<longrightarrow> x < unat va + unat len \<longrightarrow> user_byte pd x s \<noteq> None"
  shows "\<exists>s'. copyout pd va buf len s = Ret 0 s' \<and> user_space lo n N pd R s' \<and> (\<forall>x\<in>R. pm s' x = pm s x)
    \<and> (\<forall>x<2 ^ 28. user_byte pd x s' = (if unat va \<le> x \<and> x < unat va + unat len
         then Some (pm s (unat buf + (x - unat va))) else user_byte pd x s))"
  using copyout_copied [OF assms] by (simp add: copied_def)

text \<open>
  Mapping one page at a user address writes exactly that entry: the address then translates to
  \<open>pa\<close> with the access permission \<open>ap\<close>, all other pages translate as before, memory in use outside
  the page tables is unchanged and the tables stay disjoint; an address that is already mapped panics.
\<close>

theorem mappages_correct:
  assumes "space lo n N pd Q s" and "unat va < 2 ^ 28" and "unat va mod 4096 = 0" and "unat pa mod 4096 = 0"
  shows "mappages pd va 0x1000 pa ap s = Panic ''oom: kpt_alloc'' \<or>
    (if pte_val pd (unat va div 4096) s AND 3 \<noteq> 0
     then mappages pd va 0x1000 pa ap s = Panic ''remap''
     else \<exists>s'. mappages pd va 0x1000 pa ap s = Ret 0 s' \<and> space lo n N pd Q s'
       \<and> PTE_ADDR (pte_val pd (unat va div 4096) s') = pa
       \<and> PTE_AP (pte_val pd (unat va div 4096) s') = ap AND 3
       \<and> (\<forall>pg<65536. pg \<noteq> unat va div 4096 \<longrightarrow> pte_val pd pg s' = pte_val pd pg s)
       \<and> (\<forall>a\<in>Q. pm s' a = pm s a))"
proof -
  have p: "unat va div 4096 < 65536" using assms(2) by (simp add: less_mult_imp_div_less)
  note f = mk_pte_fields [OF assms(4), of ap]
  show ?thesis
  proof (cases "mappages pd va 0x1000 pa ap s = Panic ''oom: kpt_alloc'' \<or> pte_val pd (unat va div 4096) s AND 3 \<noteq> 0")
    case True
    then show ?thesis using mappages_page [OF assms(1-3), of pa ap] by auto
  next
    case False
    then obtain s' where s': "mappages pd va 0x1000 pa ap s = Ret 0 s'" "space lo n N pd Q s'"
      "remapped pd Q s s' (\<lambda>pg. if pg = unat va div 4096 then mk_pte pa ap else pte_val pd pg s)"
      using mappages_page [OF assms(1-3), of pa ap] by auto
    have e: "pte_val pd (unat va div 4096) s' = mk_pte pa ap" using s'(3) p by (simp add: remapped_def)
    have "\<exists>s'. mappages pd va 0x1000 pa ap s = Ret 0 s' \<and> space lo n N pd Q s'
       \<and> PTE_ADDR (pte_val pd (unat va div 4096) s') = pa
       \<and> PTE_AP (pte_val pd (unat va div 4096) s') = ap AND 3
       \<and> (\<forall>pg<65536. pg \<noteq> unat va div 4096 \<longrightarrow> pte_val pd pg s' = pte_val pd pg s)
       \<and> (\<forall>a\<in>Q. pm s' a = pm s a)"
      using s' by (intro exI [of _ s']) (simp add: e f remapped_def)
    with False show ?thesis by simp
  qed
qed

text \<open>
  \<^verbatim>\<open>kpt_free\<close> always gives its block to the buddy allocator: the bound \<^verbatim>\<open>P2V(KERNLINK)\<close> it compares
  with wraps to zero, so the boot-time list it means to return blocks to is never used, whatever the
  address.
\<close>

theorem kpt_free_never_lists: "kpt_free v s = kfree v 10 s"
proof -
  have "p2v 0x80000000 = 0"
    unfolding p2v_def by (subst word_unat_eq_iff) (simp add: unat_word_ariths)
  then show ?thesis by (simp add: kpt_free_def)
qed

section \<open>An address space to evaluate the properties on\<close>

text \<open>
  A directory, one page table, one user page at address 0 and a kernel buffer, below the heap of the
  Raspberry Pi 2.
\<close>

definition ex_pd :: uint where "ex_pd = 0x80000400"
definition ex_pt :: uint where "ex_pt = 0x80000800"
definition ex_frame :: uint where "ex_frame = 0x80001000"
definition ex_R :: "nat set" where "ex_R = {0x80002000..<0x80002010}"

lemma example_space:
  "\<exists>(s :: vmem) N. user_space 7 (top_marks 0x80100000 0x8C000000) N ex_pd ex_R s
     \<and> (\<forall>x<4096. user_byte ex_pd x s = Some 0)
     \<and> (\<forall>pg<65536. pg \<noteq> 0 \<longrightarrow> pte_val ex_pd pg s AND 3 = 0) \<and> (\<forall>a\<in>ex_R. pm s a = 0)"
proof -
  define nn where "nn = top_marks 0x80100000 0x8C000000"
  obtain k :: vmem where f: "fresh_heap 7 nn 0x80100000 0x8C000000 k"
    using boot_run [OF boot_ok_rpi2] unfolding nn_def by blast
  then obtain N where N: "buddy_inv 7 nn N k" by (auto simp: fresh_heap_def Let_def)
  have "free_bytes 7 nn k = {unat (km_start_heap k)..<0x8C000000}"
    using fresh_heap_free_bytes [OF f] by simp
  moreover have "0x80100000 \<le> unat (km_start_heap k)" using f by (simp add: fresh_heap_def Let_def)
  ultimately have hi: "0x80100000 \<le> a" if "a \<in> free_bytes 7 nn k" for a using that by auto
  define s0 where "s0 = k\<lparr>pm := (\<lambda>_. 0), kpt_freelist := 0\<rparr>"
  define Q where "Q = ex_R \<union> extent ex_frame 12"
  have z: "ld32 (\<lambda>_. 0) a = 0" for a by (simp add: ld32_def)
  have none: "tbl ex_pd i s0 = None" for i by (simp add: tbl_def pde_val_def s0_def z)
  have pv: "pte_val ex_pd pg s0 = 0" for pg by (simp add: pte_val_def none)
  have T0: "tables ex_pd s0 = extent ex_pd 10" by (simp add: tables_def none)
  have inv: "pt_inv 7 nn N P s0" if "\<forall>a\<in>P. a < 0x80100000" for P
  proof -
    have "P \<inter> free_bytes 7 nn k = {}" using that hi by force
    moreover have "kpt_chain (pm s0) (kpt_freelist s0) []" by (simp add: s0_def)
    ultimately show ?thesis using N unfolding pt_inv_def by (auto simp: s0_def intro!: exI [of _ "[]"])
  qed
  have ext: "extent ex_pd 10 = {0x80000400..<0x80000800}" "extent ex_pt 10 = {0x80000800..<0x80000C00}"
    "extent ex_frame 12 = {0x80001000..<0x80002000}"
    by (simp_all add: extent_def ex_pd_def ex_pt_def ex_frame_def)
  have sp0: "space 7 nn N ex_pd Q s0"
    unfolding space_def T0 by (auto simp: pd_ok_def none Q_def ex_R_def ext ex_pd_def [symmetric] intro!: inv)
      (simp_all add: ex_pd_def)
  define s1 where "s1 = s0\<lparr>pm := store32 (unat ex_pd + 4 * 0) (v2p ex_pt OR 1) (pm s0)\<rparr>"
  have fr: "extent ex_pt 10 \<inter> (Q \<union> tables ex_pd s0) = {}" by (auto simp: T0 Q_def ex_R_def ext)
  have pt: "pt_inv 7 nn N (Q \<union> tables ex_pd s0 \<union> extent ex_pt 10) s0"
    by (rule inv) (auto simp: T0 Q_def ex_R_def ext)
  have fz: "pm s0 = fill 0 (unat ex_pt) 1024 (pm s0)" by (auto simp: s0_def fill_def fun_eq_iff)
  have s1: "space 7 nn N ex_pd Q s1" "tbl ex_pd 0 s1 = Some ex_pt" "\<forall>pg<65536. pte_val ex_pd pg s1 = 0"
    using new_table [OF sp0 _ none _ _ fr pt fz, of 0] by (simp_all add: ex_pt_def s1_def remapped_def pv)
  obtain s2 where s2': "space 7 nn N ex_pd Q s2"
    "remapped ex_pd Q s1 s2 (\<lambda>pg. if pg = unat (0 :: uint) div 4096 then mk_pte (v2p ex_frame) 3 else pte_val ex_pd pg s1)"
    using store_pte [OF s1(1), of 0 ex_pt "mk_pte (v2p ex_frame) 3"] s1(2) by auto
  then have s2: "space 7 nn N ex_pd Q s2"
    "\<forall>pg<65536. pte_val ex_pd pg s2 = (if pg = 0 then mk_pte (v2p ex_frame) 3 else 0)"
    using s1(3) by (auto simp: remapped_def)
  note fp = fresh_pte [of ex_frame 3]
  have "{pg. pg < 65536 \<and> pte_val ex_pd pg s2 AND 3 \<noteq> 0} = {0}"
  proof (intro set_eqI iffI)
    fix pg assume "pg \<in> {0 :: nat}"
    then show "pg \<in> {pg. pg < 65536 \<and> pte_val ex_pd pg s2 AND 3 \<noteq> 0}"
      using s2(2) fp(1) by (simp add: ex_frame_def)
  qed (use s2(2) in \<open>auto split: if_splits\<close>)
  then have F: "frames ex_pd s2 = extent ex_frame 12"
    using s2(2) fp(2) by (simp add: frames_def ex_frame_def)
  have "user_space 7 nn N ex_pd ex_R s2"
    unfolding user_space_def F Q_def [symmetric]
  proof (intro conjI)
    show "ex_R \<inter> extent ex_frame 12 = {}" "0 \<notin> extent ex_frame 12" by (auto simp: ext ex_R_def)
  qed (use s2 in \<open>auto split: if_splits\<close>)
  moreover have z2: "pm s2 a = 0" if "a \<in> Q" for a
  proof -
    have "pm s2 a = pm s1 a" using s2'(2) that by (simp add: remapped_def)
    also have "\<dots> = 0" using that by (auto simp: s1_def s0_def Q_def ext ex_R_def ex_pd_def store32_def)
    finally show ?thesis .
  qed
  moreover have "user_byte ex_pd x s2 = Some 0" if "x < 4096" for x
  proof -
    have "unat ex_frame + x \<in> Q" using that by (simp add: Q_def extent_def)
    from z2 [OF this] show ?thesis using that s2(2) fp by (auto simp: user_byte_def Let_def ex_frame_def)
  qed
  moreover have "\<forall>a\<in>ex_R. pm s2 a = 0" using z2 by (simp add: Q_def)
  ultimately show ?thesis using s2(2) unfolding nn_def by (intro exI [of _ s2] exI [of _ N]) auto
qed


theorem copyout_correct_witness:
  "\<exists>(s :: vmem) s'. copyout ex_pd 5 0x80002000 4 s = Ret 0 s' \<and> user_byte ex_pd 6 s' = Some (pm s 0x80002001)"
proof -
  obtain s :: vmem and N where s: "user_space 7 (top_marks 0x80100000 0x8C000000) N ex_pd ex_R s"
    "\<forall>x<4096. user_byte ex_pd x s = Some 0" using example_space by blast
  have "\<forall>x. unat (5 :: uint) \<le> x \<longrightarrow> x < unat (5 :: uint) + unat (4 :: uint) \<longrightarrow> user_byte ex_pd x s \<noteq> None"
    using s(2) by simp
  then obtain s' where "copyout ex_pd 5 0x80002000 4 s = Ret 0 s'"
    "\<forall>x<2 ^ 28. user_byte ex_pd x s' = (if unat (5 :: uint) \<le> x \<and> x < unat (5 :: uint) + unat (4 :: uint)
       then Some (pm s (unat (0x80002000 :: uint) + (x - unat (5 :: uint)))) else user_byte ex_pd x s)"
    using copyout_correct [OF s(1), of 5 4 "0x80002000"] by (auto simp: ex_R_def)
  then show ?thesis by (intro exI [of _ s] exI [of _ s']) simp
qed

theorem mappages_correct_witness:
  "\<exists>(s :: vmem). mappages ex_pd 0x5000 0x1000 0x7000 3 s = Panic ''oom: kpt_alloc'' \<or>
     (\<exists>s'. mappages ex_pd 0x5000 0x1000 0x7000 3 s = Ret 0 s' \<and> PTE_ADDR (pte_val ex_pd 5 s') = 0x7000)"
proof -
  obtain s :: vmem and N where s: "user_space 7 (top_marks 0x80100000 0x8C000000) N ex_pd ex_R s"
    "\<forall>pg<65536. pg \<noteq> 0 \<longrightarrow> pte_val ex_pd pg s AND 3 = 0" using example_space by blast
  have sp: "space 7 (top_marks 0x80100000 0x8C000000) N ex_pd (ex_R \<union> frames ex_pd s) s"
    using s(1) by (simp add: user_space_def)
  note run = mappages_correct [where va = "0x5000" and pa = "0x7000" and ap = 3, OF sp]
  show ?thesis by (rule exI [of _ s]) (use run s(2) in \<open>auto split: if_splits\<close>)
qed

end
