(* ===== verification/Proc.thy ===== *)
theory Proc
  imports Vm
begin

unbundle bit_operations_syntax

text \<open>
  The process table (\<^verbatim>\<open>source/proc.c\<close>): allocation of processes, sleep and wakeup, kill, wait, the
  table part of exit and fork, and the scheduler. Operations run between \<^verbatim>\<open>acquire(&ptable.lock)\<close> and
  \<^verbatim>\<open>release\<close> are one step each; \<^verbatim>\<open>sched\<close>'s tests of the lock and of the interrupt depth are the business
  of \<^verbatim>\<open>Spinlock\<close>. The parts of fork and exit that touch files are composed with these in the theory
  of the system calls.
\<close>

section \<open>State\<close>

abbreviation (input) NPROC :: nat where "NPROC \<equiv> 64"
abbreviation (input) KSTACKSIZE :: uint where "KSTACKSIZE \<equiv> 4096"

datatype procstate = UNUSED | EMBRYO | SLEEPING | RUNNABLE | RUNNING | ZOMBIE

text \<open>
  \<open>parent\<close>, \<open>ofile\<close> and \<open>cwd\<close> are indices into the tables of processes, files and inodes (\<open>None\<close> the
  null pointer); \<open>tf\<close> and \<open>context\<close> are addresses in the kernel stack.
\<close>

record proc =
  psz :: uint
  pgdir :: uint
  kstack :: uint
  pstate :: procstate
  pid :: int
  parent :: "nat option"
  tf :: uint
  ctxt :: uint
  pchan :: "chan option"
  killed :: bool
  ofile :: "nat \<Rightarrow> nat option"
  cwd :: "nat option"
  pname :: "byte list"

text \<open>\<open>this_cpu\<close> is the CPU that executes; \<^verbatim>\<open>curr_proc\<close> is its entry of \<open>cpu_proc\<close>.\<close>

record ptable = vmem +
  procs :: "nat \<Rightarrow> proc"
  nextpid :: int
  initproc :: "nat option"
  cpu_proc :: "nat \<Rightarrow> nat option"
  this_cpu :: nat

definition curr_proc :: "'z ptable_scheme \<Rightarrow> nat option" where
  "curr_proc s = cpu_proc s (this_cpu s)"

definition upd_proc :: "nat \<Rightarrow> (proc \<Rightarrow> proc) \<Rightarrow> ('z ptable_scheme, unit) kop" where
  "upd_proc p f = kmod (\<lambda>s. s\<lparr>procs := (procs s)(p := f (procs s p))\<rparr>)"

text \<open>The current process, where the code reads \<^verbatim>\<open>curr_proc\<close> through a pointer.\<close>

definition with_curr :: "(nat \<Rightarrow> ('z ptable_scheme, 'a) kop) \<Rightarrow> ('z ptable_scheme, 'a) kop" where
  "with_curr f = kbind (kget curr_proc) (\<lambda>c. case c of None \<Rightarrow> fault ''curr_proc'' | Some p \<Rightarrow> f p)"

section \<open>Allocation\<close>

fun find_proc :: "(proc \<Rightarrow> bool) \<Rightarrow> nat list \<Rightarrow> (nat \<Rightarrow> proc) \<Rightarrow> nat option" where
  "find_proc P [] ps = None"
| "find_proc P (p # is) ps = (if P (ps p) then Some p else find_proc P is ps)"

text \<open>
  The fake frames at the top of the new kernel stack: a trap frame of 72 bytes, \<open>trapret\<close>, the stack
  top, and a context of 40 bytes whose last word is where \<^verbatim>\<open>swtch\<close> returns to. \<open>trapret\<close> and
  \<open>forkret\<close> are addresses the linker assigns.
\<close>

definition setup_stack :: "uint \<Rightarrow> uint \<Rightarrow> nat \<Rightarrow> uint \<Rightarrow> ('z ptable_scheme, unit) kop" where
  "setup_stack trapret forkret p ks =
     (let sp1 = ks + KSTACKSIZE - 72; sp2 = sp1 - 4; sp3 = sp2 - 4; sp4 = sp3 - 40 in
      kbind (upd_proc p (\<lambda>q. q\<lparr>tf := sp1\<rparr>)) (\<lambda>_.
      kbind (store sp2 trapret) (\<lambda>_.
      kbind (store sp3 (ks + KSTACKSIZE)) (\<lambda>_.
      kbind (upd_proc p (\<lambda>q. q\<lparr>ctxt := sp4\<rparr>)) (\<lambda>_.
      kbind (zero_mem sp4 40) (\<lambda>_.
      store (sp4 + 36) (forkret + 4)))))))"

definition allocproc :: "uint \<Rightarrow> uint \<Rightarrow> ('z ptable_scheme, nat option) kop" where
  "allocproc trapret forkret =
     kbind (kget (\<lambda>s. find_proc (\<lambda>q. pstate q = UNUSED) [0..<NPROC] (procs s))) (\<lambda>r.
     case r of None \<Rightarrow> kreturn None
     | Some p \<Rightarrow>
         kbind (kget nextpid) (\<lambda>n.
         kbind (upd_proc p (\<lambda>q. q\<lparr>pstate := EMBRYO, pid := n\<rparr>)) (\<lambda>_.
         kbind (kmod (\<lambda>s. s\<lparr>nextpid := n + 1\<rparr>)) (\<lambda>_.
         kbind alloc_page (\<lambda>ks.
         kbind (upd_proc p (\<lambda>q. q\<lparr>kstack := ks\<rparr>)) (\<lambda>_.
         if ks = 0 then kbind (upd_proc p (\<lambda>q. q\<lparr>pstate := UNUSED\<rparr>)) (\<lambda>_. kreturn None)
         else kbind (setup_stack trapret forkret p ks) (\<lambda>_. kreturn (Some p))))))))"

section \<open>Sleeping and waking\<close>

definition sched :: "('z ptable_scheme, unit) kop" where
  "sched = with_curr (\<lambda>p.
     kbind (kget (\<lambda>s. pstate (procs s p))) (\<lambda>st.
     if st = RUNNING then panic ''sched running'' else kreturn ()))"

definition yield :: "('z ptable_scheme, unit) kop" where
  "yield = kbind (with_curr (\<lambda>p. upd_proc p (\<lambda>q. q\<lparr>pstate := RUNNABLE\<rparr>))) (\<lambda>_. sched)"

text \<open>
  \<^verbatim>\<open>sleep\<close> up to the switch to the scheduler; \<open>sleep_done\<close> is what the process does when it is
  scheduled again.
\<close>

definition sleep :: "chan \<Rightarrow> ('z ptable_scheme, 'a) kop" where
  "sleep ch =
     kbind (kget curr_proc) (\<lambda>c. case c of None \<Rightarrow> panic ''sleep'' | Some p \<Rightarrow>
     kbind (upd_proc p (\<lambda>q. q\<lparr>pchan := Some ch, pstate := SLEEPING\<rparr>)) (\<lambda>_.
     kbind sched (\<lambda>_. sleep_on ch)))"

definition sleep_done :: "('z ptable_scheme, unit) kop" where
  "sleep_done = with_curr (\<lambda>p. upd_proc p (\<lambda>q. q\<lparr>pchan := None\<rparr>))"

definition wake_one :: "chan \<Rightarrow> nat \<Rightarrow> ('z ptable_scheme, unit) kop" where
  "wake_one ch p =
     kbind (kget (\<lambda>s. procs s p)) (\<lambda>q.
     if pstate q = SLEEPING \<and> pchan q = Some ch then upd_proc p (\<lambda>q. q\<lparr>pstate := RUNNABLE\<rparr>)
     else kreturn ())"

definition wakeup1 :: "chan \<Rightarrow> ('z ptable_scheme, unit) kop" where
  "wakeup1 ch = kfor (wake_one ch) [0..<NPROC]"

definition wakeup :: "chan \<Rightarrow> ('z ptable_scheme, unit) kop" where
  "wakeup ch = wakeup1 ch"

definition kill :: "int \<Rightarrow> ('z ptable_scheme, int) kop" where
  "kill n =
     kbind (kget (\<lambda>s. find_proc (\<lambda>q. pid q = n) [0..<NPROC] (procs s))) (\<lambda>r.
     case r of None \<Rightarrow> kreturn (-1)
     | Some p \<Rightarrow>
         kbind (upd_proc p (\<lambda>q. q\<lparr>killed := True\<rparr>)) (\<lambda>_.
         kbind (kget (\<lambda>s. pstate (procs s p))) (\<lambda>st.
         kbind (if st = SLEEPING then upd_proc p (\<lambda>q. q\<lparr>pstate := RUNNABLE\<rparr>) else kreturn ()) (\<lambda>_.
         kreturn 0))))"

section \<open>The end of a process\<close>

text \<open>The loop of \<^verbatim>\<open>exit\<close> over the table, for one entry.\<close>

definition reparent :: "nat \<Rightarrow> nat \<Rightarrow> ('z ptable_scheme, unit) kop" where
  "reparent cp p =
     kbind (kget (\<lambda>s. procs s p)) (\<lambda>q.
     if parent q = Some cp then
       kbind (kget initproc) (\<lambda>i.
       kbind (upd_proc p (\<lambda>q. q\<lparr>parent := i\<rparr>)) (\<lambda>_.
       if pstate q = ZOMBIE then case i of None \<Rightarrow> kreturn () | Some ip \<Rightarrow> wakeup1 (ChProc ip)
       else kreturn ()))
     else kreturn ())"

text \<open>\<^verbatim>\<open>exit\<close> after the files are closed: the part under \<^verbatim>\<open>ptable.lock\<close>, up to the switch.\<close>

definition exit_table :: "('z ptable_scheme, unit) kop" where
  "exit_table = with_curr (\<lambda>cp.
     kbind (kget (\<lambda>s. parent (procs s cp))) (\<lambda>par.
     kbind (case par of None \<Rightarrow> kreturn () | Some q \<Rightarrow> wakeup1 (ChProc q)) (\<lambda>_.
     kbind (kfor (reparent cp) [0..<NPROC]) (\<lambda>_.
     kbind (upd_proc cp (\<lambda>q. q\<lparr>pstate := ZOMBIE\<rparr>)) (\<lambda>_.
     sched)))))"

definition reap :: "nat \<Rightarrow> ('z ptable_scheme, int) kop" where
  "reap p =
     kbind (kget (\<lambda>s. procs s p)) (\<lambda>q.
     kbind (free_page (kstack q)) (\<lambda>_.
     kbind (upd_proc p (\<lambda>q. q\<lparr>kstack := 0\<rparr>)) (\<lambda>_.
     kbind (freevm (pgdir q)) (\<lambda>_.
     kbind (upd_proc p (\<lambda>q. q\<lparr>pstate := UNUSED, pid := 0, parent := None, pname := [], killed := False\<rparr>)) (\<lambda>_.
     kreturn (pid q))))))"

text \<open>One scan of \<^verbatim>\<open>wait\<close>: the pid of a reaped child, or whether there are children at all.\<close>

fun wait_scan :: "nat \<Rightarrow> nat list \<Rightarrow> bool \<Rightarrow> ('z ptable_scheme, bool + int) kop" where
  "wait_scan cp [] havekids = kreturn (Inl havekids)"
| "wait_scan cp (p # is) havekids =
     kbind (kget (\<lambda>s. procs s p)) (\<lambda>q.
     if parent q \<noteq> Some cp then wait_scan cp is havekids
     else if pstate q = ZOMBIE then kbind (reap p) (\<lambda>n. kreturn (Inr n))
     else wait_scan cp is True)"

text \<open>\<^verbatim>\<open>wait\<close>: after a sleep it starts over.\<close>

definition wait :: "('z ptable_scheme, int) kop" where
  "wait = with_curr (\<lambda>cp.
     kbind (wait_scan cp [0..<NPROC] False) (\<lambda>r.
     case r of Inr n \<Rightarrow> kreturn n
     | Inl havekids \<Rightarrow>
         kbind (kget (\<lambda>s. killed (procs s cp))) (\<lambda>k.
         if \<not> havekids \<or> k then kreturn (-1) else sleep (ChProc cp))))"

section \<open>Scheduling\<close>

text \<open>
  One round of the loop of \<^verbatim>\<open>scheduler\<close> for table entry \<open>p\<close>: skip it, or make it the current process of
  the CPU. The result says whether the CPU switches to it; \<open>sched_back\<close> is what follows the switch back.
\<close>

definition sched_entry :: "nat \<Rightarrow> ('z ptable_scheme, bool) kop" where
  "sched_entry p =
     kbind (kget (\<lambda>s. procs s p)) (\<lambda>q.
     if pstate q \<noteq> RUNNABLE then kreturn False
     else kbind (kmod (\<lambda>s. s\<lparr>cpu_proc := (cpu_proc s)(this_cpu s := Some p)\<rparr>)) (\<lambda>_.
          kbind (kget this_cpu) (\<lambda>c.
          kbind (switchuvm c (pgdir q)) (\<lambda>_.
          kbind (upd_proc p (\<lambda>q. q\<lparr>pstate := RUNNING\<rparr>)) (\<lambda>_.
          kreturn True)))))"

definition sched_back :: "('z ptable_scheme, unit) kop" where
  "sched_back = kmod (\<lambda>s. s\<lparr>cpu_proc := (cpu_proc s)(this_cpu s := None)\<rparr>)"

text \<open>The scan over the table from entry \<open>p\<close> on, up to the next switch.\<close>

fun sched_scan :: "nat list \<Rightarrow> ('z ptable_scheme, nat option) kop" where
  "sched_scan [] = kreturn None"
| "sched_scan (p # is) = kbind (sched_entry p) (\<lambda>b. if b then kreturn (Some p) else sched_scan is)"

section \<open>The table part of fork\<close>

text \<open>
  \<^verbatim>\<open>fork\<close> after the address space was copied: the size, the parent, the trap frame with 0 in \<open>r0\<close> for
  the child, and at the end the new process made runnable under its name (\<^verbatim>\<open>safestrcpy\<close> into 16 bytes).
\<close>

definition fork_copy :: "nat \<Rightarrow> nat \<Rightarrow> uint \<Rightarrow> ('z ptable_scheme, unit) kop" where
  "fork_copy cp np pd =
     kbind (kget (\<lambda>s. procs s cp)) (\<lambda>c.
     kbind (upd_proc np (\<lambda>q. q\<lparr>pgdir := pd, psz := psz c, parent := Some cp\<rparr>)) (\<lambda>_.
     kbind (kget (\<lambda>s. tf (procs s np))) (\<lambda>ntf.
     kbind (move_mem ntf (tf c) 72) (\<lambda>_.
     store (ntf + 16) 0))))"

text \<open>\<^verbatim>\<open>fork\<close> when the address space could not be copied.\<close>

definition fork_undo :: "nat \<Rightarrow> ('z ptable_scheme, unit) kop" where
  "fork_undo np =
     kbind (kget (\<lambda>s. kstack (procs s np))) (\<lambda>ks.
     kbind (free_page ks) (\<lambda>_.
     upd_proc np (\<lambda>q. q\<lparr>kstack := 0, pstate := UNUSED\<rparr>)))"

definition fork_ready :: "nat \<Rightarrow> nat \<Rightarrow> ('z ptable_scheme, int) kop" where
  "fork_ready cp np =
     kbind (kget (\<lambda>s. pid (procs s np))) (\<lambda>n.
     kbind (upd_proc np (\<lambda>q. q\<lparr>pstate := RUNNABLE\<rparr>)) (\<lambda>_.
     kbind (kget (\<lambda>s. pname (procs s cp))) (\<lambda>nm.
     kbind (upd_proc np (\<lambda>q. q\<lparr>pname := take 15 nm\<rparr>)) (\<lambda>_.
     kreturn n))))"

definition growproc :: "int \<Rightarrow> ('z ptable_scheme, int) kop" where
  "growproc n = with_curr (\<lambda>cp.
     kbind (kget (\<lambda>s. procs s cp)) (\<lambda>q.
     let sz = psz q;
         finish = (\<lambda>sz'. kbind (upd_proc cp (\<lambda>q. q\<lparr>psz := sz'\<rparr>)) (\<lambda>_.
                   kbind (kget this_cpu) (\<lambda>c.
                   kbind (switchuvm c (pgdir q)) (\<lambda>_. kreturn 0))))
     in if n > 0 then
          kbind (allocuvm (pgdir q) sz (sz + word_of_int n)) (\<lambda>sz'.
          if sz' = 0 then kreturn (-1) else finish sz')
        else if n < 0 then
          kbind (deallocuvm (pgdir q) sz (sz + word_of_int n)) (\<lambda>sz'.
          if sz' = 0 then kreturn (-1) else finish sz')
        else finish sz))"

end
