(* ===== verification/Proc_Proofs.thy ===== *)
theory Proc_Proofs
  imports Proc Vm_Proofs
begin

unbundle bit_operations_syntax

text \<open>
  The process table as a state machine: the effect of each operation on the table, the step relation
  in which the CPUs interleave them, and the invariant that holds in every reachable state.
\<close>

section \<open>Virtual memory operations leave the process table alone\<close>

abbreviation (input) vmore :: "'z \<Rightarrow> 'z vmem_scheme \<Rightarrow> bool" where
  "vmore z \<equiv> \<lambda>s. vmem.more s = z"

lemma keeps_vmore:
  assumes "\<And>w. keeps (same_more w) m"
  shows "keeps (vmore z) (m :: ('z vmem_scheme, 'a) kop)"
proof (rule keepsI)
  have more: "vmem.more s' = vmem.more s" if "kmem.more s' = kmem.more s" for s s' :: "'z vmem_scheme"
    using that by (cases s; cases s') simp
  show "vmem.more s' = z" if "vmem.more s = z" "m s = Ret a s'" for s a s'
    using that(1) more [OF keepsD [OF assms refl that(2)]] by simp
  show "vmem.more s' = z" if "vmem.more s = z" "m s = Sleeps c s'" for s c s'
    using that(1) more [OF keeps_SleepsD [OF assms refl that(2)]] by simp
qed

lemma keeps_vmore_alloc [inv_rules]:
  "keeps (vmore z) (kmalloc d)" "keeps (vmore z) (kfree p d)" "keeps (vmore z) alloc_page" "keeps (vmore z) (free_page p)"
  unfolding alloc_page_def free_page_def by (rule keeps_vmore, intro inv_rules)+

lemma keeps_vmore_mem [inv_rules]:
  "keeps (vmore z) (load a)" "keeps (vmore z) (store a v)" "keeps (vmore z) (zero_mem a k)"
  "keeps (vmore z) (move_mem a b l)" "keeps (vmore z) (switchuvm c pd)"
  unfolding load_def store_def zero_mem_def move_mem_def switchuvm_def
  by (intro inv_rules keeps_kmod; simp)+

lemma keeps_vmore_kpt [inv_rules]:
  "keeps (vmore z) (kpt_put v)" "keeps (vmore z) (kpt_free v)" "keeps (vmore z) kpt_alloc"
  unfolding kpt_put_def kpt_free_def kpt_alloc_def by (intro inv_rules keeps_kmod; simp)+

lemma keeps_vmore_walk [inv_rules]: "keeps (vmore z) (walkpgdir pd va al)"
  unfolding walkpgdir_def Let_def by (intro inv_rules)

lemma keeps_vmore_dealloc_loop [inv_rules]: "keeps (vmore z) (dealloc_loop pd a hi)"
proof (induction pd a hi rule: dealloc_loop.induct)
  case (1 pd a hi)
  show ?case by (subst dealloc_loop.simps) (intro inv_rules "1.IH"; auto)
qed

lemma keeps_vmore_dealloc [inv_rules]: "keeps (vmore z) (deallocuvm pd hi lo)"
  unfolding deallocuvm_def by (intro inv_rules)

lemma keeps_vmore_freevm [inv_rules]: "keeps (vmore z) (freevm pd)"
  unfolding freevm_def free_table_def by (intro inv_rules)

lemma vmoreD: "keeps (vmore (vmem.more s)) m \<Longrightarrow> m s = Ret a s' \<Longrightarrow> vmem.more s' = vmem.more s"
  by (auto dest: keepsD)

lemma same_vmore:
  assumes "vmem.more (s' :: 'z ptable_scheme) = vmem.more s"
  shows "procs s' = procs s" "nextpid s' = nextpid s" "initproc s' = initproc s" "cpu_proc s' = cpu_proc s"
    "this_cpu s' = this_cpu s"
  using assms by (cases s; cases s'; simp)+

section \<open>Effect of the operations on the table\<close>

text \<open>The table part of a state.\<close>

lemma upd_proc_run [simp]: "upd_proc p f s = Ret () (s\<lparr>procs := (procs s)(p := f (procs s p))\<rparr>)"
  by (simp add: upd_proc_def)

lemma find_proc_Some:
  "find_proc P is ps = Some p \<Longrightarrow> p \<in> set is \<and> P (ps p)"
  by (induction "is") (auto split: if_splits)

lemma find_proc_None: "find_proc P is ps = None \<longleftrightarrow> (\<forall>p\<in>set is. \<not> P (ps p))"
  by (induction "is") auto

text \<open>A loop over the table that changes each entry on its own.\<close>

lemma kfor_entries:
  assumes "\<And>p s. f p s = Ret () (s\<lparr>procs := (procs s)(p := g (procs s p))\<rparr>)"
  shows "kfor f [0..<m] s = Ret () (s\<lparr>procs := \<lambda>p. if p < m then g (procs s p) else procs s p\<rparr>)"
proof (induction m)
  case (Suc m)
  have "(\<lambda>p. if p < m then g (procs s p) else procs s p)(m := g (procs s m)) =
      (\<lambda>p. if p < Suc m then g (procs s p) else procs s p)" by (auto simp: fun_eq_iff)
  then show ?case using Suc by (simp add: kfor_append assms)
qed simp

definition woken :: "chan \<Rightarrow> proc \<Rightarrow> proc" where
  "woken ch q = (if pstate q = SLEEPING \<and> pchan q = Some ch then q\<lparr>pstate := RUNNABLE\<rparr> else q)"

definition wake_all :: "chan \<Rightarrow> (nat \<Rightarrow> proc) \<Rightarrow> nat \<Rightarrow> proc" where
  "wake_all ch ps = (\<lambda>p. if p < 64 then woken ch (ps p) else ps p)"

lemma wakeup1_run: "wakeup1 ch s = Ret () (s\<lparr>procs := wake_all ch (procs s)\<rparr>)"
  unfolding wakeup1_def wake_all_def
  by (rule kfor_entries) (simp add: wake_one_def woken_def)

lemma woken_simps [simp]:
  "parent (woken ch q) = parent q" "pid (woken ch q) = pid q" "pchan (woken ch q) = pchan q"
  "pstate (woken ch q) = ZOMBIE \<longleftrightarrow> pstate q = ZOMBIE" "pstate (woken ch q) = UNUSED \<longleftrightarrow> pstate q = UNUSED"
  "pstate (woken ch q) = EMBRYO \<longleftrightarrow> pstate q = EMBRYO" "pstate (woken ch q) = RUNNING \<longleftrightarrow> pstate q = RUNNING"
  by (simp_all add: woken_def)

lemma woken_SLEEPING: "pstate (woken ch q) = SLEEPING \<Longrightarrow> pstate q = SLEEPING"
  by (simp add: woken_def split: if_splits)

lemma free_page_vmore: "free_page p s = Ret a s' \<Longrightarrow> vmem.more s' = vmem.more s"
  by (rule vmoreD [OF keeps_vmore_alloc(4)])

lemma alloc_page_vmore: "alloc_page s = Ret a s' \<Longrightarrow> vmem.more s' = vmem.more s"
  by (rule vmoreD [OF keeps_vmore_alloc(3)])

lemma freevm_vmore: "freevm pd s = Ret a s' \<Longrightarrow> vmem.more s' = vmem.more s"
  by (rule vmoreD [OF keeps_vmore_freevm])

text \<open>The parts of the state the scheduler's invariant is about.\<close>

definition table_of :: "'z ptable_scheme \<Rightarrow> (nat \<Rightarrow> proc) \<times> int \<times> nat option \<times> (nat \<Rightarrow> nat option)" where
  "table_of s = (procs s, nextpid s, initproc s, cpu_proc s)"

lemma table_of_vmore: "vmem.more s' = vmem.more s \<Longrightarrow> table_of s' = table_of s"
  using same_vmore [of s' s] by (simp add: table_of_def)

lemma reap_effect:
  assumes "reap p s = Ret n s'"
  shows "n = pid (procs s p)" and "table_of s' = ((procs s)(p := (procs s p)\<lparr>kstack := 0, pstate := UNUSED, pid := 0,
      parent := None, pname := [], killed := False\<rparr>), nextpid s, initproc s, cpu_proc s)"
proof -
  obtain s1 s2 where s1: "free_page (kstack (procs s p)) s = Ret () s1"
    and s2: "freevm (pgdir (procs s p)) (s1\<lparr>procs := (procs s1)(p := (procs s1 p)\<lparr>kstack := 0\<rparr>)\<rparr>) = Ret () s2"
    and n: "n = pid (procs s p)"
    and s': "s' = s2\<lparr>procs := (procs s2)(p := (procs s2 p)\<lparr>pstate := UNUSED, pid := 0, parent := None, pname := [], killed := False\<rparr>)\<rparr>"
    using assms unfolding reap_def by (auto elim!: kbind_eq_RetE)
  note e1 = same_vmore [OF free_page_vmore [OF s1]] and e2 = same_vmore [OF freevm_vmore [OF s2]]
  show "n = pid (procs s p)" by (rule n)
  show "table_of s' = ((procs s)(p := (procs s p)\<lparr>kstack := 0, pstate := UNUSED, pid := 0,
      parent := None, pname := [], killed := False\<rparr>), nextpid s, initproc s, cpu_proc s)"
    using e1 e2 by (simp add: s' table_of_def)
qed

lemma wait_scan_result:
  assumes "wait_scan cp is hk s = Ret r s'"
  shows "(r = Inl (hk \<or> (\<exists>p\<in>set is. parent (procs s p) = Some cp)) \<and> s' = s
      \<and> (\<forall>p\<in>set is. parent (procs s p) = Some cp \<longrightarrow> pstate (procs s p) \<noteq> ZOMBIE))
    \<or> (\<exists>p\<in>set is. \<exists>n. r = Inr n \<and> parent (procs s p) = Some cp \<and> pstate (procs s p) = ZOMBIE \<and> reap p s = Ret n s')"
  using assms
proof (induction "is" arbitrary: hk)
  case (Cons p ps)
  consider "parent (procs s p) \<noteq> Some cp" | "parent (procs s p) = Some cp" "pstate (procs s p) = ZOMBIE"
    | "parent (procs s p) = Some cp" "pstate (procs s p) \<noteq> ZOMBIE" by blast
  then show ?case
  proof cases
    case 1
    with Cons.prems Cons.IH [of hk] show ?thesis by auto
  next
    case 2
    then obtain n where "reap p s = Ret n s'" "r = Inr n"
      using Cons.prems by (auto elim!: kbind_eq_RetE)
    with 2 show ?thesis by auto
  next
    case 3
    with Cons.prems Cons.IH [of True] show ?thesis by auto
  qed
qed simp

lemma nosleep_buddy [nosleep_rules]:
  "nosleep (unmark_blk d b)" "nosleep (mark_blk d b)"
  unfolding unmark_blk_def mark_blk_def Let_def by (intro nosleep_rules)+

lemma nosleep_get_blk [nosleep_rules]: "nosleep (get_blk d)"
  unfolding get_blk_def by (intro nosleep_rules)

lemma nosleep_kfree_blk [nosleep_rules]: "nosleep (kfree_blk mem d)"
proof (induction mem d rule: kfree_blk.induct)
  case (1 mem d)
  show ?case by (subst kfree_blk.simps, unfold Let_def) (intro nosleep_rules "1.IH"; auto)
qed

lemma nosleep_kmalloc_blk [nosleep_rules]: "nosleep (kmalloc_blk d)"
proof (induction d rule: kmalloc_blk.induct)
  case (1 d)
  show ?case by (subst kmalloc_blk.simps) (intro nosleep_rules "1.IH"; auto)
qed

lemma nosleep_alloc [nosleep_rules]:
  "nosleep (kmalloc o')" "nosleep (kfree p o')" "nosleep alloc_page" "nosleep (free_page p)"
  unfolding alloc_page_def free_page_def kmalloc_def kfree_def by (intro nosleep_rules)+

lemma nosleep_vm [nosleep_rules]:
  "nosleep (load a)" "nosleep (store a v)" "nosleep (zero_mem a k)" "nosleep (move_mem a b l)" "nosleep (switchuvm c pd)"
  "nosleep (kpt_put v)" "nosleep (kpt_free v)" "nosleep kpt_alloc"
  unfolding load_def store_def zero_mem_def move_mem_def switchuvm_def kpt_put_def kpt_free_def kpt_alloc_def
  by (intro nosleep_rules)+

lemma nosleep_walk [nosleep_rules]: "nosleep (walkpgdir pd va al)"
  unfolding walkpgdir_def Let_def by (intro nosleep_rules)

lemma nosleep_dealloc_loop [nosleep_rules]: "nosleep (dealloc_loop pd a hi)"
proof (induction pd a hi rule: dealloc_loop.induct)
  case (1 pd a hi)
  show ?case by (subst dealloc_loop.simps) (intro nosleep_rules "1.IH"; auto)
qed

lemma nosleep_freevm [nosleep_rules]: "nosleep (freevm pd)"
  unfolding freevm_def free_table_def deallocuvm_def by (intro nosleep_rules)

lemma nosleep_reap [nosleep_rules]: "nosleep (reap p)"
  unfolding reap_def upd_proc_def by (intro nosleep_rules)

lemma nosleep_wait_scan [nosleep_rules]: "nosleep (wait_scan cp is hk)"
  by (induction "is" arbitrary: hk) (auto intro!: nosleep_rules)

text \<open>The current process, and control flow through it.\<close>

lemma with_curr_run: "curr_proc s = Some p \<Longrightarrow> with_curr f s = f p s"
  by (simp add: with_curr_def)

lemma sched_run: "curr_proc s = Some p \<Longrightarrow> pstate (procs s p) \<noteq> RUNNING \<Longrightarrow> sched s = Ret () s"
  by (simp add: sched_def with_curr_run)

lemma curr_proc_procs [simp]: "curr_proc (s\<lparr>procs := ps\<rparr>) = curr_proc s"
  by (simp add: curr_proc_def)

lemma yield_run:
  "curr_proc s = Some p \<Longrightarrow> yield s = Ret () (s\<lparr>procs := (procs s)(p := (procs s p)\<lparr>pstate := RUNNABLE\<rparr>)\<rparr>)"
  by (simp add: yield_def with_curr_run sched_run)

lemma sleep_run:
  "curr_proc s = Some p \<Longrightarrow>
   sleep ch s = Sleeps ch (s\<lparr>procs := (procs s)(p := (procs s p)\<lparr>pchan := Some ch, pstate := SLEEPING\<rparr>)\<rparr>)"
  by (simp add: sleep_def sched_run)

text \<open>The loop of \<^verbatim>\<open>exit\<close> that hands the children to init.\<close>

definition handed :: "nat \<Rightarrow> nat \<Rightarrow> nat \<Rightarrow> (nat \<Rightarrow> proc) \<Rightarrow> (nat \<Rightarrow> proc) \<Rightarrow> bool" where
  "handed cp ip m ps ps' \<longleftrightarrow> (\<forall>p. \<exists>st. ps' p = (ps p)\<lparr>pstate := st,
       parent := if p < m \<and> parent (ps p) = Some cp then Some ip else parent (ps p)\<rparr>
     \<and> (st = pstate (ps p) \<or> pstate (ps p) = SLEEPING \<and> pchan (ps p) = Some (ChProc ip) \<and> st = RUNNABLE))
   \<and> (\<forall>p q. p < m \<longrightarrow> parent (ps p) = Some cp \<longrightarrow> pstate (ps p) = ZOMBIE \<longrightarrow> q < 64 \<longrightarrow>
        pchan (ps q) = Some (ChProc ip) \<longrightarrow> pstate (ps' q) \<noteq> SLEEPING)"

lemma handedD:
  assumes "handed cp ip m ps ps'"
  obtains st where "ps' p = (ps p)\<lparr>pstate := st,
      parent := if p < m \<and> parent (ps p) = Some cp then Some ip else parent (ps p)\<rparr>"
    "st = pstate (ps p) \<or> pstate (ps p) = SLEEPING \<and> pchan (ps p) = Some (ChProc ip) \<and> st = RUNNABLE"
  using assms unfolding handed_def by blast

lemma handed_refl: "handed cp ip 0 ps ps"
  unfolding handed_def
proof (intro conjI allI impI)
  show "\<exists>st. ps p = (ps p)\<lparr>pstate := st, parent := if p < 0 \<and> parent (ps p) = Some cp then Some ip else parent (ps p)\<rparr>
     \<and> (st = pstate (ps p) \<or> pstate (ps p) = SLEEPING \<and> pchan (ps p) = Some (ChProc ip) \<and> st = RUNNABLE)" for p
    by (intro exI [of _ "pstate (ps p)"]) simp
qed simp

text \<open>The entry \<open>m\<close> handed over, and init woken when it is a zombie.\<close>

definition hand :: "nat \<Rightarrow> nat \<Rightarrow> nat \<Rightarrow> (nat \<Rightarrow> proc) \<Rightarrow> nat \<Rightarrow> proc" where
  "hand cp ip m ps =
     (if parent (ps m) = Some cp
      then (if pstate (ps m) = ZOMBIE then wake_all (ChProc ip) else id) (ps(m := (ps m)\<lparr>parent := Some ip\<rparr>))
      else ps)"

lemma reparent_run:
  "initproc s = Some ip \<Longrightarrow> reparent cp m s = Ret () (s\<lparr>procs := hand cp ip m (procs s)\<rparr>)"
  by (auto simp: reparent_def hand_def wakeup1_run)

lemma handed_Suc:
  assumes h: "handed cp ip m ps ps1"
  shows "handed cp ip (Suc m) ps (hand cp ip m ps1)"
proof -
  obtain st where st: "ps1 m = (ps m)\<lparr>pstate := st, parent := parent (ps m)\<rparr>"
      "st = pstate (ps m) \<or> pstate (ps m) = SLEEPING \<and> st = RUNNABLE"
    by (rule handedD [OF h, of m]) auto
  then have m: "parent (ps1 m) = parent (ps m)" "pstate (ps1 m) = ZOMBIE \<longleftrightarrow> pstate (ps m) = ZOMBIE" by auto
  show ?thesis
    unfolding handed_def
  proof (intro conjI allI impI)
    fix p
    obtain st where "ps1 p = (ps p)\<lparr>pstate := st, parent := if p < m \<and> parent (ps p) = Some cp then Some ip else parent (ps p)\<rparr>"
      "st = pstate (ps p) \<or> pstate (ps p) = SLEEPING \<and> pchan (ps p) = Some (ChProc ip) \<and> st = RUNNABLE"
      by (rule handedD [OF h])
    then show "\<exists>st. hand cp ip m ps1 p = (ps p)\<lparr>pstate := st,
         parent := if p < Suc m \<and> parent (ps p) = Some cp then Some ip else parent (ps p)\<rparr>
       \<and> (st = pstate (ps p) \<or> pstate (ps p) = SLEEPING \<and> pchan (ps p) = Some (ChProc ip) \<and> st = RUNNABLE)"
      by (intro exI [of _ "pstate (hand cp ip m ps1 p)"]) (auto simp: hand_def m(1) wake_all_def woken_def less_Suc_eq)
  next
    fix p q
    assume p: "p < Suc m" "parent (ps p) = Some cp" "pstate (ps p) = ZOMBIE"
      and q: "q < 64" "pchan (ps q) = Some (ChProc ip)"
    have qc: "pchan (ps1 q) = Some (ChProc ip)" by (rule handedD [OF h, of q]) (simp add: q)
    show "pstate (hand cp ip m ps1 q) \<noteq> SLEEPING"
    proof (cases "p = m")
      case True
      then show ?thesis using p q qc m by (auto simp: hand_def wake_all_def woken_def)
    next
      case False
      then have "p < m" using p(1) by simp
      then have "pstate (ps1 q) \<noteq> SLEEPING" using p(2,3) q h unfolding handed_def by blast
      then show ?thesis by (auto simp: hand_def wake_all_def dest!: woken_SLEEPING split: if_splits)
    qed
  qed
qed

lemma reparent_loop:
  assumes "initproc s = Some ip" and "m \<le> 64"
  shows "\<exists>ps'. kfor (reparent cp) [0..<m] s = Ret () (s\<lparr>procs := ps'\<rparr>) \<and> handed cp ip m (procs s) ps'"
  using assms(2)
proof (induction m)
  case 0
  then show ?case by (intro exI [of _ "procs s"]) (simp add: handed_refl)
next
  case (Suc m)
  then obtain ps where "kfor (reparent cp) [0..<m] s = Ret () (s\<lparr>procs := ps\<rparr>)" "handed cp ip m (procs s) ps"
    by auto
  then show ?case
    using handed_Suc reparent_run [of "s\<lparr>procs := ps\<rparr>" ip cp m] assms(1) by (auto simp: kfor_append)
qed

section \<open>The system of processes\<close>

text \<open>
  The steps of all CPUs, interleaved: a CPU without a process picks a runnable one; a process on a CPU
  calls an operation; one that sleeps, yields or exits gives its CPU back. An interrupt handler may wake
  processes on any CPU.
\<close>

abbreviation (input) on_cpu :: "nat \<Rightarrow> 'z ptable_scheme \<Rightarrow> 'z ptable_scheme" where
  "on_cpu c s \<equiv> s\<lparr>this_cpu := c\<rparr>"

inductive proc_step :: "'z ptable_scheme \<Rightarrow> 'z ptable_scheme \<Rightarrow> bool" where
  pick: "cpu_proc s c = None \<Longrightarrow> p < 64 \<Longrightarrow> sched_entry p (on_cpu c s) = Ret True s' \<Longrightarrow> proc_step s s'"
| wake: "wakeup ch (on_cpu c s) = Ret () s' \<Longrightarrow> proc_step s s'"
| killed: "kill n (on_cpu c s) = Ret r s' \<Longrightarrow> proc_step s s'"
| alloc: "cpu_proc s c = Some cp \<Longrightarrow> allocproc tr fr (on_cpu c s) = Ret r s' \<Longrightarrow> proc_step s s'"
| copied: "cpu_proc s c = Some cp \<Longrightarrow> np < 64 \<Longrightarrow> pstate (procs s np) = EMBRYO \<Longrightarrow>
    fork_copy cp np pd (on_cpu c s) = Ret () s' \<Longrightarrow> proc_step s s'"
| ready: "cpu_proc s c = Some cp \<Longrightarrow> np < 64 \<Longrightarrow> pstate (procs s np) = EMBRYO \<Longrightarrow>
    parent (procs s np) = Some cp \<Longrightarrow> fork_ready cp np (on_cpu c s) = Ret r s' \<Longrightarrow> proc_step s s'"
| undone: "cpu_proc s c = Some cp \<Longrightarrow> np < 64 \<Longrightarrow> pstate (procs s np) = EMBRYO \<Longrightarrow>
    fork_undo np (on_cpu c s) = Ret () s' \<Longrightarrow> proc_step s s'"
| waited: "cpu_proc s c = Some cp \<Longrightarrow> wait (on_cpu c s) = Ret r s' \<Longrightarrow> proc_step s s'"
| waits: "cpu_proc s c = Some cp \<Longrightarrow> wait (on_cpu c s) = Sleeps ch t \<Longrightarrow> sched_back t = Ret () s' \<Longrightarrow> proc_step s s'"
| sleeps: "cpu_proc s c = Some cp \<Longrightarrow> (sleep ch :: ('z ptable_scheme, unit) kop) (on_cpu c s) = Sleeps ch t \<Longrightarrow> sched_back t = Ret () s' \<Longrightarrow> proc_step s s'"
| slept: "cpu_proc s c = Some cp \<Longrightarrow> sleep_done (on_cpu c s) = Ret () s' \<Longrightarrow> proc_step s s'"
| yields: "cpu_proc s c = Some cp \<Longrightarrow> kbind yield (\<lambda>_. sched_back) (on_cpu c s) = Ret () s' \<Longrightarrow> proc_step s s'"
| exits: "cpu_proc s c = Some cp \<Longrightarrow> initproc s \<noteq> Some cp \<Longrightarrow>
    kbind exit_table (\<lambda>_. sched_back) (on_cpu c s) = Ret () s' \<Longrightarrow> proc_step s s'"

text \<open>
  The invariant of the table: each CPU runs a process that is marked running, no process runs on two
  CPUs and every running process has its CPU; process identifiers are positive, below the next one
  and unique; a sleeping process has a channel; init is alive; and the parent of every process
  but init is alive, so that an exited process has no children.
\<close>

definition alive :: "proc \<Rightarrow> bool" where
  "alive q \<longleftrightarrow> pstate q \<noteq> UNUSED \<and> pstate q \<noteq> EMBRYO \<and> pstate q \<noteq> ZOMBIE"

definition born :: "proc \<Rightarrow> bool" where
  "born q \<longleftrightarrow> pstate q \<noteq> UNUSED \<and> pstate q \<noteq> EMBRYO"

definition cpus_inv :: "(nat \<Rightarrow> proc) \<Rightarrow> (nat \<Rightarrow> nat option) \<Rightarrow> bool" where
  "cpus_inv ps cs \<longleftrightarrow> (\<forall>c p. cs c = Some p \<longrightarrow> p < 64 \<and> pstate (ps p) = RUNNING)
     \<and> (\<forall>c d p. cs c = Some p \<longrightarrow> cs d = Some p \<longrightarrow> c = d)
     \<and> (\<forall>p<64. pstate (ps p) = RUNNING \<longrightarrow> (\<exists>c. cs c = Some p))"

definition pids_inv :: "(nat \<Rightarrow> proc) \<Rightarrow> int \<Rightarrow> bool" where
  "pids_inv ps np \<longleftrightarrow> 0 < np \<and> (\<forall>p<64. pstate (ps p) \<noteq> UNUSED \<longrightarrow> 0 < pid (ps p) \<and> pid (ps p) < np)
     \<and> (\<forall>p<64. \<forall>q<64. pstate (ps p) \<noteq> UNUSED \<longrightarrow> pstate (ps q) \<noteq> UNUSED \<longrightarrow> pid (ps p) = pid (ps q) \<longrightarrow> p = q)"

definition family_inv :: "(nat \<Rightarrow> proc) \<Rightarrow> nat option \<Rightarrow> bool" where
  "family_inv ps i \<longleftrightarrow> (\<exists>ip<64. i = Some ip \<and> alive (ps ip)
     \<and> (\<forall>p<64. born (ps p) \<longrightarrow> p \<noteq> ip \<longrightarrow> (\<exists>q<64. parent (ps p) = Some q \<and> alive (ps q))))"

definition proc_inv :: "'z ptable_scheme \<Rightarrow> bool" where
  "proc_inv s \<longleftrightarrow> cpus_inv (procs s) (cpu_proc s) \<and> pids_inv (procs s) (nextpid s)
     \<and> family_inv (procs s) (initproc s) \<and> (\<forall>p<64. pstate (procs s p) = SLEEPING \<longrightarrow> pchan (procs s p) \<noteq> None)"

lemma proc_inv_table: "table_of s' = table_of s \<Longrightarrow> proc_inv s' = proc_inv s"
  by (simp add: table_of_def proc_inv_def)

text \<open>An entry whose state changes between living states that are not on a CPU keeps the invariant.\<close>

lemma proc_inv_entries:
  assumes inv: "proc_inv s"
    and t: "table_of s' = (ps', nextpid s, initproc s, cpu_proc s)"
    and same: "\<And>p. p < 64 \<Longrightarrow> pid (ps' p) = pid (procs s p) \<and> parent (ps' p) = parent (procs s p)
       \<and> (pstate (ps' p) = RUNNING \<longleftrightarrow> pstate (procs s p) = RUNNING)
       \<and> (pstate (ps' p) = UNUSED \<longleftrightarrow> pstate (procs s p) = UNUSED)
       \<and> (pstate (ps' p) = EMBRYO \<longleftrightarrow> pstate (procs s p) = EMBRYO)
       \<and> (pstate (ps' p) = ZOMBIE \<longleftrightarrow> pstate (procs s p) = ZOMBIE)
       \<and> (pstate (ps' p) = SLEEPING \<longrightarrow> pchan (ps' p) \<noteq> None)"
  shows "proc_inv s'"
proof -
  have s': "procs s' = ps'" "nextpid s' = nextpid s" "initproc s' = initproc s" "cpu_proc s' = cpu_proc s"
    using t by (auto simp: table_of_def)
  have al: "alive (ps' p) = alive (procs s p)" "born (ps' p) = born (procs s p)" if "p < 64" for p
    using same [OF that] by (simp_all add: alive_def born_def)
  have "cpus_inv ps' (cpu_proc s)"
  proof -
    have "cpus_inv (procs s) (cpu_proc s)" using inv by (simp add: proc_inv_def)
    then show ?thesis unfolding cpus_inv_def using same by auto
  qed
  moreover have "pids_inv ps' (nextpid s)" using inv same unfolding proc_inv_def pids_inv_def by metis
  moreover have "family_inv ps' (initproc s)" using inv same al unfolding proc_inv_def family_inv_def by metis
  ultimately show ?thesis using same by (simp add: proc_inv_def s')
qed

lemma proc_inv_wake_all:
  assumes "proc_inv s" and "table_of s' = (wake_all ch (procs s), nextpid s, initproc s, cpu_proc s)"
  shows "proc_inv s'"
  by (rule proc_inv_entries [OF assms])
    (use assms(1) woken_SLEEPING in \<open>auto simp: wake_all_def proc_inv_def\<close>)

lemma proc_invD:
  assumes "proc_inv s"
  shows "cpu_proc s c = Some p \<Longrightarrow> p < 64 \<and> pstate (procs s p) = RUNNING"
    and "cpu_proc s c = Some p \<Longrightarrow> cpu_proc s d = Some p \<Longrightarrow> c = d"
    and "p < 64 \<Longrightarrow> pstate (procs s p) = RUNNING \<Longrightarrow> \<exists>c. cpu_proc s c = Some p"
    and "p < 64 \<Longrightarrow> pstate (procs s p) = SLEEPING \<Longrightarrow> pchan (procs s p) \<noteq> None"
    and "pids_inv (procs s) (nextpid s)" and "family_inv (procs s) (initproc s)"
  using assms unfolding proc_inv_def cpus_inv_def by blast+

text \<open>An entry that is not alive changes, and stays not alive.\<close>

lemma proc_inv_dead_entry:
  assumes inv: "proc_inv s" and p: "p < 64" "\<not> alive (procs s p)"
    and t: "table_of s' = ((procs s)(p := q), np, initproc s, cpu_proc s)" and np: "nextpid s \<le> np"
    and q: "pstate q = UNUSED \<or> pstate q = EMBRYO \<and> 0 < pid q \<and> pid q < np
      \<and> (\<forall>r<64. r \<noteq> p \<longrightarrow> pstate (procs s r) \<noteq> UNUSED \<longrightarrow> pid (procs s r) \<noteq> pid q)"
  shows "proc_inv s'"
proof -
  have s': "procs s' = (procs s)(p := q)" "nextpid s' = np" "initproc s' = initproc s" "cpu_proc s' = cpu_proc s"
    using t by (auto simp: table_of_def)
  have nr: "pstate (procs s p) \<noteq> RUNNING" "pstate q \<noteq> RUNNING" "\<not> born q" "\<not> alive q" "pstate q \<noteq> SLEEPING"
    using p(2) q by (auto simp: alive_def born_def)
  have "cpus_inv ((procs s)(p := q)) (cpu_proc s)"
    using proc_invD(1-3) [OF inv] nr unfolding cpus_inv_def by (auto split: if_splits)
  moreover have "pids_inv ((procs s)(p := q)) np"
  proof -
    have pi: "0 < nextpid s" "\<And>r. r < 64 \<Longrightarrow> pstate (procs s r) \<noteq> UNUSED \<Longrightarrow> 0 < pid (procs s r) \<and> pid (procs s r) < np"
      "\<And>r r'. r < 64 \<Longrightarrow> r' < 64 \<Longrightarrow> pstate (procs s r) \<noteq> UNUSED \<Longrightarrow> pstate (procs s r') \<noteq> UNUSED \<Longrightarrow>
         pid (procs s r) = pid (procs s r') \<Longrightarrow> r = r'"
      using proc_invD(5) [OF inv] np unfolding pids_inv_def by force+
    show ?thesis unfolding pids_inv_def
    proof (intro conjI allI impI)
      show "0 < np" using pi(1) np by simp
      show "0 < pid (((procs s)(p := q)) r)" "pid (((procs s)(p := q)) r) < np"
        if "r < 64" "pstate (((procs s)(p := q)) r) \<noteq> UNUSED" for r
        using that pi(2) q by (auto split: if_splits)
      show "r = r'" if "r < 64" "r' < 64" "pstate (((procs s)(p := q)) r) \<noteq> UNUSED"
        "pstate (((procs s)(p := q)) r') \<noteq> UNUSED" "pid (((procs s)(p := q)) r) = pid (((procs s)(p := q)) r')" for r r'
        using that pi(3) q by (cases "r = p"; cases "r' = p") auto
    qed
  qed
  moreover have "family_inv ((procs s)(p := q)) (initproc s)"
  proof -
    obtain ip where ip: "ip < 64" "initproc s = Some ip" "alive (procs s ip)"
      "\<And>r. r < 64 \<Longrightarrow> born (procs s r) \<Longrightarrow> r \<noteq> ip \<Longrightarrow> \<exists>u<64. parent (procs s r) = Some u \<and> alive (procs s u)"
      using proc_invD(6) [OF inv] unfolding family_inv_def by blast
    have keep: "alive (((procs s)(p := q)) u)" if "alive (procs s u)" for u using that p(2) by auto
    show ?thesis
      unfolding family_inv_def
    proof (rule exI [of _ ip], intro conjI allI impI)
      fix r assume r: "r < 64" "born (((procs s)(p := q)) r)" "r \<noteq> ip"
      then have "r \<noteq> p" "born (procs s r)" using nr(3) by (auto split: if_splits)
      with ip(4) [OF r(1) _ r(3)] obtain u where "u < 64" "parent (procs s r) = Some u" "alive (procs s u)" by blast
      then show "\<exists>u<64. parent (((procs s)(p := q)) r) = Some u \<and> alive (((procs s)(p := q)) u)"
        using \<open>r \<noteq> p\<close> keep by auto
    qed (use ip keep in auto)
  qed
  moreover have "\<forall>r<64. pstate (((procs s)(p := q)) r) = SLEEPING \<longrightarrow> pchan (((procs s)(p := q)) r) \<noteq> None"
    using proc_invD(4) [OF inv] nr(5) by auto
  ultimately show ?thesis by (simp add: proc_inv_def s')
qed

text \<open>The process of a CPU leaves it and is not running any more, while the other entries run as before.\<close>

lemma cpus_inv_leave:
  assumes inv: "proc_inv s" and c: "cpu_proc s c = Some cp" and cp: "pstate (ps cp) \<noteq> RUNNING"
    and o: "\<And>p. p \<noteq> cp \<Longrightarrow> pstate (ps p) = RUNNING \<longleftrightarrow> pstate (procs s p) = RUNNING"
  shows "cpus_inv ps ((cpu_proc s)(c := None))"
  unfolding cpus_inv_def
proof (intro conjI allI impI)
  fix d p assume d: "((cpu_proc s)(c := None)) d = Some p"
  then have "d \<noteq> c" "cpu_proc s d = Some p" by (auto split: if_splits)
  then have "p \<noteq> cp" using proc_invD(2) [OF inv] c by blast
  then show "p < 64" "pstate (ps p) = RUNNING"
    using proc_invD(1) [OF inv \<open>cpu_proc s d = Some p\<close>] o by auto
next
  fix d e p assume "((cpu_proc s)(c := None)) d = Some p" "((cpu_proc s)(c := None)) e = Some p"
  then show "d = e" using proc_invD(2) [OF inv] by (auto split: if_splits)
next
  fix p assume p: "p < 64" "pstate (ps p) = RUNNING"
  then have "p \<noteq> cp" using cp by auto
  with p obtain d where "cpu_proc s d = Some p" using proc_invD(3) [OF inv] o by blast
  then show "\<exists>d. ((cpu_proc s)(c := None)) d = Some p" using \<open>p \<noteq> cp\<close> c by (auto intro!: exI [of _ d])
qed

text \<open>The current process of a CPU leaves it for a living state.\<close>

lemma proc_inv_leave:
  assumes inv: "proc_inv s" and c: "cpu_proc s c = Some cp"
    and t: "table_of s' = ((procs s)(cp := q), nextpid s, initproc s, (cpu_proc s)(c := None))"
    and q: "pid q = pid (procs s cp)" "parent q = parent (procs s cp)"
      "pstate q = RUNNABLE \<or> pstate q = SLEEPING \<and> pchan q \<noteq> None"
  shows "proc_inv s'"
proof -
  have s': "procs s' = (procs s)(cp := q)" "nextpid s' = nextpid s" "initproc s' = initproc s"
    "cpu_proc s' = (cpu_proc s)(c := None)"
    using t by (auto simp: table_of_def)
  note cp = proc_invD(1) [OF inv c]
  have al: "alive (((procs s)(cp := q)) r) = alive (procs s r)" "born (((procs s)(cp := q)) r) = born (procs s r)" for r
    using cp q(3) by (auto simp: alive_def born_def)
  have "cpus_inv ((procs s)(cp := q)) ((cpu_proc s)(c := None))"
    by (rule cpus_inv_leave [OF inv c]) (use q(3) in auto)
  moreover have "pids_inv ((procs s)(cp := q)) (nextpid s)"
  proof -
    have "pid (((procs s)(cp := q)) r) = pid (procs s r)"
      "pstate (((procs s)(cp := q)) r) = UNUSED \<longleftrightarrow> pstate (procs s r) = UNUSED" for r
      using q cp by auto
    then show ?thesis using proc_invD(5) [OF inv] by (simp add: pids_inv_def)
  qed
  moreover have "family_inv ((procs s)(cp := q)) (initproc s)"
  proof -
    have "parent (((procs s)(cp := q)) r) = parent (procs s r)" for r using q by auto
    then show ?thesis using proc_invD(6) [OF inv] by (simp only: family_inv_def al)
  qed
  ultimately show ?thesis using proc_invD(4) [OF inv] q(3) by (auto simp: proc_inv_def s')
qed

text \<open>A process exits: its children go to init, it becomes a zombie and leaves its CPU.\<close>

lemma proc_inv_exit:
  assumes inv: "proc_inv s" and c: "cpu_proc s c = Some cp" and ip: "initproc s = Some ip" "ip \<noteq> cp"
    and h: "handed cp ip 64 (procs s) ps"
    and t: "table_of s' = (ps(cp := (ps cp)\<lparr>pstate := ZOMBIE\<rparr>), nextpid s, initproc s, (cpu_proc s)(c := None))"
  shows "proc_inv s'"
proof -
  define ps' where "ps' = ps(cp := (ps cp)\<lparr>pstate := ZOMBIE\<rparr>)"
  have s': "procs s' = ps'" "nextpid s' = nextpid s" "initproc s' = initproc s" "cpu_proc s' = (cpu_proc s)(c := None)"
    using t by (auto simp: table_of_def ps'_def)
  note cp = proc_invD(1) [OF inv c]
  have e: "\<exists>st. ps p = (procs s p)\<lparr>pstate := st,
       parent := if p < 64 \<and> parent (procs s p) = Some cp then Some ip else parent (procs s p)\<rparr>
     \<and> (st = pstate (procs s p) \<or> pstate (procs s p) = SLEEPING \<and> st = RUNNABLE)" for p
    using h [unfolded handed_def, THEN conjunct1, THEN spec, of p] by blast
  have same: "pid (ps' p) = pid (procs s p)" "pchan (ps' p) = pchan (procs s p)" for p
    using e [of p] by (auto simp: ps'_def)
  have par: "parent (ps' p) = (if parent (procs s p) = Some cp then Some ip else parent (procs s p))" if "p < 64" for p
    using e [of p] that by (auto simp: ps'_def)
  have st: "pstate (ps' p) = RUNNING \<longleftrightarrow> pstate (procs s p) = RUNNING" "pstate (ps' p) = UNUSED \<longleftrightarrow> pstate (procs s p) = UNUSED"
    "alive (ps' p) = alive (procs s p)" "born (ps' p) = born (procs s p)"
    "pstate (ps' p) = SLEEPING \<Longrightarrow> pstate (procs s p) = SLEEPING" if "p \<noteq> cp" for p
    using e [of p] that by (auto simp: ps'_def alive_def born_def)
  have z: "pstate (ps' cp) = ZOMBIE" by (simp add: ps'_def)
  have "cpus_inv ps' ((cpu_proc s)(c := None))"
    by (rule cpus_inv_leave [OF inv c]) (use z st(1) in auto)
  moreover have "pids_inv ps' (nextpid s)"
  proof -
    have "pstate (ps' r) = UNUSED \<longleftrightarrow> pstate (procs s r) = UNUSED" for r
      using st(2) [of r] z cp by (cases "r = cp") auto
    then show ?thesis using proc_invD(5) [OF inv] by (simp add: pids_inv_def same)
  qed
  moreover have "family_inv ps' (initproc s)"
  proof -
    from proc_invD(6) [OF inv] ip(1) have i: "ip < 64" "alive (procs s ip)"
      "\<And>r. r < 64 \<Longrightarrow> born (procs s r) \<Longrightarrow> r \<noteq> ip \<Longrightarrow> \<exists>u<64. parent (procs s r) = Some u \<and> alive (procs s u)"
      unfolding family_inv_def by auto
    have a: "alive (ps' ip)" using st(3) ip(2) i(2) by simp
    show ?thesis
      unfolding family_inv_def
    proof (rule exI [of _ ip], intro conjI allI impI)
      fix r assume r: "r < 64" "born (ps' r)" "r \<noteq> ip"
      have "born (procs s r)" using r(2) st(4) [of r] cp by (cases "r = cp") (auto simp: born_def)
      then obtain u where u: "u < 64" "parent (procs s r) = Some u" "alive (procs s u)" using i(3) r by blast
      show "\<exists>u<64. parent (ps' r) = Some u \<and> alive (ps' u)"
        using par [OF r(1)] u a i(1) st(3) [of u] by (cases "u = cp") auto
    qed (use i ip a in auto)
  qed
  moreover have "\<forall>p<64. pstate (ps' p) = SLEEPING \<longrightarrow> pchan (ps' p) \<noteq> None"
  proof (intro allI impI)
    fix p assume p: "p < 64" "pstate (ps' p) = SLEEPING"
    then have "p \<noteq> cp" using z by auto
    then show "pchan (ps' p) \<noteq> None" using p st(5) proc_invD(4) [OF inv] same by simp
  qed
  ultimately show ?thesis by (simp add: proc_inv_def s')
qed

text \<open>A CPU takes a runnable process, or a new process becomes runnable.\<close>

lemma proc_inv_pick:
  assumes inv: "proc_inv s" and p: "p < 64" "pstate (procs s p) = RUNNABLE" and c: "cpu_proc s c = None"
    and t: "table_of s' = ((procs s)(p := (procs s p)\<lparr>pstate := RUNNING\<rparr>), nextpid s, initproc s, (cpu_proc s)(c := Some p))"
  shows "proc_inv s'"
proof -
  define ps' where "ps' = (procs s)(p := (procs s p)\<lparr>pstate := RUNNING\<rparr>)"
  have s': "procs s' = ps'" "nextpid s' = nextpid s" "initproc s' = initproc s" "cpu_proc s' = (cpu_proc s)(c := Some p)"
    using t by (auto simp: table_of_def ps'_def)
  have e: "pid (ps' r) = pid (procs s r)" "parent (ps' r) = parent (procs s r)" "alive (ps' r) = alive (procs s r)"
    "born (ps' r) = born (procs s r)" "pstate (ps' r) = UNUSED \<longleftrightarrow> pstate (procs s r) = UNUSED" for r
    using p by (auto simp: ps'_def alive_def born_def)
  have nc: "cpu_proc s d \<noteq> Some p" for d using proc_invD(1) [OF inv, of d p] p by auto
  have "cpus_inv ps' ((cpu_proc s)(c := Some p))"
    unfolding cpus_inv_def
  proof (intro conjI allI impI)
    fix d r assume "((cpu_proc s)(c := Some p)) d = Some r"
    then show "r < 64" "pstate (ps' r) = RUNNING"
      using proc_invD(1) [OF inv, of d r] p by (auto simp: ps'_def split: if_splits)
  next
    fix d e r assume "((cpu_proc s)(c := Some p)) d = Some r" "((cpu_proc s)(c := Some p)) e = Some r"
    then show "d = e" using proc_invD(2) [OF inv] nc by (auto split: if_splits)
  next
    fix r assume r: "r < 64" "pstate (ps' r) = RUNNING"
    show "\<exists>d. ((cpu_proc s)(c := Some p)) d = Some r"
    proof (cases "r = p")
      case False
      then obtain d where "cpu_proc s d = Some r" using r proc_invD(3) [OF inv] by (auto simp: ps'_def)
      then show ?thesis using c by (auto intro!: exI [of _ d])
    qed auto
  qed
  moreover have "pids_inv ps' (nextpid s)" using proc_invD(5) [OF inv] by (simp add: pids_inv_def e)
  moreover have "family_inv ps' (initproc s)" using proc_invD(6) [OF inv] by (simp add: family_inv_def e)
  ultimately show ?thesis using proc_invD(4) [OF inv] by (auto simp: proc_inv_def s' ps'_def)
qed

lemma proc_inv_born:
  assumes inv: "proc_inv s" and p: "p < 64" "pstate (procs s p) = EMBRYO" and c: "cpu_proc s c = Some cp"
    and q: "pstate q = RUNNABLE" "pid q = pid (procs s p)" "parent q = Some cp"
    and t: "table_of s' = ((procs s)(p := q), nextpid s, initproc s, cpu_proc s)"
  shows "proc_inv s'"
proof -
  define ps' where "ps' = (procs s)(p := q)"
  have s': "procs s' = ps'" "nextpid s' = nextpid s" "initproc s' = initproc s" "cpu_proc s' = cpu_proc s"
    using t by (auto simp: table_of_def ps'_def)
  note cp = proc_invD(1) [OF inv c]
  have ne: "cp \<noteq> p" using cp p by auto
  have pid: "pid (ps' r) = pid (procs s r)" and un: "pstate (ps' r) = UNUSED \<longleftrightarrow> pstate (procs s r) = UNUSED" for r
    using p q by (auto simp: ps'_def)
  have al: "alive (procs s r) \<Longrightarrow> alive (ps' r)" for r using q(1) by (auto simp: ps'_def alive_def)
  have "cpus_inv ps' (cpu_proc s)"
    using proc_invD(1-3) [OF inv] p q(1) unfolding cpus_inv_def ps'_def by (auto split: if_splits)
  moreover have "pids_inv ps' (nextpid s)" using proc_invD(5) [OF inv] by (simp add: pids_inv_def pid un)
  moreover have "family_inv ps' (initproc s)"
  proof -
    obtain ip where ip: "ip < 64" "initproc s = Some ip" "alive (procs s ip)"
      "\<And>r. r < 64 \<Longrightarrow> born (procs s r) \<Longrightarrow> r \<noteq> ip \<Longrightarrow> \<exists>u<64. parent (procs s r) = Some u \<and> alive (procs s u)"
      using proc_invD(6) [OF inv] unfolding family_inv_def by blast
    show ?thesis
      unfolding family_inv_def
    proof (rule exI [of _ ip], intro conjI allI impI)
      fix r assume r: "r < 64" "born (ps' r)" "r \<noteq> ip"
      show "\<exists>u<64. parent (ps' r) = Some u \<and> alive (ps' u)"
      proof (cases "r = p")
        case True
        have "alive (procs s cp)" using cp by (simp add: alive_def)
        then show ?thesis using True q(3) cp al by (auto simp: ps'_def)
      next
        case False
        then have "born (procs s r)" using r(2) by (simp add: ps'_def)
        then obtain u where "u < 64" "parent (procs s r) = Some u" "alive (procs s u)" using ip(4) r by blast
        then show ?thesis using False al by (auto simp: ps'_def)
      qed
    qed (use ip al in auto)
  qed
  ultimately show ?thesis using proc_invD(4) [OF inv] q(1) by (auto simp: proc_inv_def s' ps'_def)
qed

section \<open>Every step keeps the invariant\<close>

lemma switchuvm_vmore: "switchuvm c pd s = Ret a s' \<Longrightarrow> vmem.more s' = vmem.more s"
  by (rule vmoreD [OF keeps_vmore_mem(5)])

lemma sched_entry_effect:
  assumes "sched_entry p s = Ret True s'"
  shows "pstate (procs s p) = RUNNABLE"
    and "table_of s' = ((procs s)(p := (procs s p)\<lparr>pstate := RUNNING\<rparr>), nextpid s, initproc s,
      (cpu_proc s)(this_cpu s := Some p))"
proof -
  show r: "pstate (procs s p) = RUNNABLE"
    using assms by (auto simp: sched_entry_def split: if_splits elim!: kbind_eq_RetE)
  obtain t where t: "switchuvm (this_cpu s) (pgdir (procs s p)) (s\<lparr>cpu_proc := (cpu_proc s)(this_cpu s := Some p)\<rparr>) = Ret () t"
    and s': "s' = t\<lparr>procs := (procs t)(p := (procs t p)\<lparr>pstate := RUNNING\<rparr>)\<rparr>"
    using assms r by (auto simp: sched_entry_def elim!: kbind_eq_RetE)
  show "table_of s' = ((procs s)(p := (procs s p)\<lparr>pstate := RUNNING\<rparr>), nextpid s, initproc s,
      (cpu_proc s)(this_cpu s := Some p))"
    using same_vmore [OF switchuvm_vmore [OF t]] by (simp add: s' table_of_def)
qed

lemma kill_effect:
  assumes "kill n s = Ret r s'"
  shows "(r = -1 \<and> s' = s \<and> (\<forall>p<64. pid (procs s p) \<noteq> n)) \<or>
    (\<exists>p<64. r = 0 \<and> pid (procs s p) = n \<and> s' = s\<lparr>procs := (procs s)(p := (procs s p)\<lparr>killed := True,
       pstate := if pstate (procs s p) = SLEEPING then RUNNABLE else pstate (procs s p)\<rparr>)\<rparr>)"
proof (cases "find_proc (\<lambda>q. pid q = n) [0..<64] (procs s)")
  case None
  then have "\<forall>p<64. pid (procs s p) \<noteq> n" by (simp add: find_proc_None)
  moreover have "r = -1 \<and> s' = s" using assms None by (simp add: kill_def)
  ultimately show ?thesis by blast
next
  case (Some p)
  then have "p < 64" "pid (procs s p) = n" using find_proc_Some [OF Some] by auto
  moreover have "r = 0 \<and> s' = s\<lparr>procs := (procs s)(p := (procs s p)\<lparr>killed := True,
       pstate := if pstate (procs s p) = SLEEPING then RUNNABLE else pstate (procs s p)\<rparr>)\<rparr>"
    using assms Some by (auto simp: kill_def split: if_splits)
  ultimately show ?thesis by blast
qed

text \<open>A new process takes an unused entry and the next identifier, or leaves the entry unused.\<close>

lemma setup_stack_effect:
  assumes "setup_stack tr fr p ks s = Ret a s'"
  shows "table_of s' = ((procs s)(p := (procs s p)\<lparr>tf := ks + 4096 - 72, ctxt := ks + 4096 - 72 - 4 - 4 - 40\<rparr>),
    nextpid s, initproc s, cpu_proc s)"
  using assms by (simp add: setup_stack_def Let_def store_def zero_mem_def table_of_def) auto

lemma allocproc_effect:
  assumes "allocproc tr fr s = Ret r s'"
  shows "(r = None \<and> s' = s \<and> (\<forall>p<64. pstate (procs s p) \<noteq> UNUSED)) \<or>
    (\<exists>p q. p < 64 \<and> pstate (procs s p) = UNUSED \<and> table_of s' = ((procs s)(p := q), nextpid s + 1, initproc s, cpu_proc s)
       \<and> pid q = nextpid s \<and> killed q = killed (procs s p)
       \<and> (r = None \<and> pstate q = UNUSED \<or> r = Some p \<and> pstate q = EMBRYO \<and> kstack q \<noteq> 0
            \<and> tf q = kstack q + 4096 - 72 \<and> ctxt q = kstack q + 4096 - 120))"
proof (cases "find_proc (\<lambda>q. pstate q = UNUSED) [0..<64] (procs s)")
  case None
  then have "\<forall>p<64. pstate (procs s p) \<noteq> UNUSED" by (simp add: find_proc_None)
  moreover have "r = None \<and> s' = s" using assms None by (simp add: allocproc_def)
  ultimately show ?thesis by blast
next
  case (Some p)
  then have p: "p < 64" "pstate (procs s p) = UNUSED" using find_proc_Some [OF Some] by auto
  define s1 where "s1 = s\<lparr>procs := (procs s)(p := (procs s p)\<lparr>pstate := EMBRYO, pid := nextpid s\<rparr>), nextpid := nextpid s + 1\<rparr>"
  obtain ks s2 where al: "alloc_page s1 = Ret ks s2"
    and r: "(if ks = 0 then kbind (upd_proc p (\<lambda>q. q\<lparr>pstate := UNUSED\<rparr>)) (\<lambda>_. kreturn None)
       else kbind (setup_stack tr fr p ks) (\<lambda>_. kreturn (Some p)))
      (s2\<lparr>procs := (procs s2)(p := (procs s2 p)\<lparr>kstack := ks\<rparr>)\<rparr>) = Ret r s'"
    using assms Some by (auto simp: allocproc_def s1_def [symmetric] elim!: kbind_eq_RetE)
  note e = same_vmore [OF alloc_page_vmore [OF al]]
  show ?thesis
  proof (cases "ks = 0")
    case True
    then have "r = None" "s' = s2\<lparr>procs := (procs s2)(p := (procs s2 p)\<lparr>kstack := ks, pstate := UNUSED\<rparr>)\<rparr>"
      using r by auto
    with p e show ?thesis
      by (intro disjI2 exI [of _ p] exI [of _ "procs s' p"]) (simp add: table_of_def s1_def)
  next
    case False
    then have "r = Some p" and "setup_stack tr fr p ks (s2\<lparr>procs := (procs s2)(p := (procs s2 p)\<lparr>kstack := ks\<rparr>)\<rparr>) = Ret () s'"
      using r by (auto elim!: kbind_eq_RetE)
    with setup_stack_effect [OF this(2)] p e False show ?thesis
      by (intro disjI2 exI [of _ p] exI [of _ "procs s' p"]) (simp add: table_of_def s1_def)
  qed
qed

lemma wait_effect:
  assumes "curr_proc s = Some cp" and "wait s = Ret r s'"
  shows "(r = -1 \<and> s' = s \<and> ((\<forall>p<64. parent (procs s p) \<noteq> Some cp) \<or> killed (procs s cp))
      \<and> (\<forall>p<64. parent (procs s p) = Some cp \<longrightarrow> pstate (procs s p) \<noteq> ZOMBIE)) \<or>
    (\<exists>p<64. parent (procs s p) = Some cp \<and> pstate (procs s p) = ZOMBIE \<and> reap p s = Ret r s')"
proof -
  have w: "kbind (wait_scan cp [0..<64] False) (\<lambda>r. case r of Inr n \<Rightarrow> kreturn n
     | Inl havekids \<Rightarrow> kbind (kget (\<lambda>s. killed (procs s cp))) (\<lambda>k.
         if \<not> havekids \<or> k then kreturn (-1) else sleep (ChProc cp))) s = Ret r s'"
    using assms(2) unfolding wait_def with_curr_run [OF assms(1)] .
  then obtain x t where x: "wait_scan cp [0..<64] False s = Ret x t"
    and rest: "(case x of Inr n \<Rightarrow> kreturn n
     | Inl havekids \<Rightarrow> kbind (kget (\<lambda>s. killed (procs s cp))) (\<lambda>k.
         if \<not> havekids \<or> k then kreturn (-1) else sleep (ChProc cp))) t = Ret r s'"
    by (rule kbind_eq_RetE)
  show ?thesis
    using wait_scan_result [OF x]
  proof (elim disjE conjE bexE exE)
    assume "x = Inl (False \<or> (\<exists>p\<in>set [0..<64]. parent (procs s p) = Some cp))" "t = s"
      "\<forall>p\<in>set [0..<64]. parent (procs s p) = Some cp \<longrightarrow> pstate (procs s p) \<noteq> ZOMBIE"
    with rest assms(1) show ?thesis by (auto simp: sleep_run split: if_splits)
  next
    fix p n assume "p \<in> set [0..<64]" "x = Inr n" "parent (procs s p) = Some cp" "pstate (procs s p) = ZOMBIE" "reap p s = Ret n t"
    with rest show ?thesis by auto
  qed
qed

lemma wait_sleeps_effect:
  assumes "curr_proc s = Some cp" and "wait s = Sleeps ch t"
  shows "ch = ChProc cp" and "t = s\<lparr>procs := (procs s)(cp := (procs s cp)\<lparr>pchan := Some ch, pstate := SLEEPING\<rparr>)\<rparr>"
    and "\<exists>p<64. parent (procs s p) = Some cp" and "\<forall>p<64. parent (procs s p) = Some cp \<longrightarrow> pstate (procs s p) \<noteq> ZOMBIE"
proof -
  have w: "kbind (wait_scan cp [0..<64] False) (\<lambda>r. case r of Inr n \<Rightarrow> kreturn n
     | Inl havekids \<Rightarrow> kbind (kget (\<lambda>s. killed (procs s cp))) (\<lambda>k.
         if \<not> havekids \<or> k then kreturn (-1) else sleep (ChProc cp))) s = Sleeps ch t"
    using assms(2) unfolding wait_def with_curr_run [OF assms(1)] .
  then obtain x u where x: "wait_scan cp [0..<64] False s = Ret x u"
    and rest: "(case x of Inr n \<Rightarrow> kreturn n
     | Inl havekids \<Rightarrow> kbind (kget (\<lambda>s. killed (procs s cp))) (\<lambda>k.
         if \<not> havekids \<or> k then kreturn (-1) else sleep (ChProc cp))) u = Sleeps ch t"
    using nosleepD [OF nosleep_wait_scan, of cp "[0..<64]" False s ch t]
    by (elim kbind_eq_SleepsE) blast+
  have nl: "x \<noteq> Inr n" for n using rest by (cases x) auto
  then have us: "u = s" and x0: "x = Inl (\<exists>p\<in>set [0..<64]. parent (procs s p) = Some cp)"
    and nz: "\<forall>p<64. parent (procs s p) = Some cp \<longrightarrow> pstate (procs s p) \<noteq> ZOMBIE"
    using wait_scan_result [OF x] by auto
  have e: "\<exists>p<64. parent (procs s p) = Some cp"
  proof (rule ccontr)
    assume "\<not> ?thesis"
    then have "x = Inl False" using x0 by auto
    then show False using rest by simp
  qed
  then have x': "x = Inl True" using x0 by auto
  with us have "u = s" "x = Inl True" by simp_all
  then show "ch = ChProc cp" "t = s\<lparr>procs := (procs s)(cp := (procs s cp)\<lparr>pchan := Some ch, pstate := SLEEPING\<rparr>)\<rparr>"
    using rest assms(1) by (auto simp: sleep_run split: if_splits)
  show "\<exists>p<64. parent (procs s p) = Some cp" by (rule e)
  show "\<forall>p<64. parent (procs s p) = Some cp \<longrightarrow> pstate (procs s p) \<noteq> ZOMBIE" by (rule nz)
qed

lemma exit_table_effect:
  assumes c: "curr_proc s = Some cp" and ip: "initproc s = Some ip"
  shows "\<exists>ps1 ps. (ps1 = procs s \<or> (\<exists>ch. ps1 = wake_all ch (procs s))) \<and> handed cp ip 64 ps1 ps
    \<and> (\<forall>q. parent (procs s cp) = Some q \<longrightarrow> ps1 = wake_all (ChProc q) (procs s))
    \<and> exit_table s = Ret () (s\<lparr>procs := ps(cp := (ps cp)\<lparr>pstate := ZOMBIE\<rparr>)\<rparr>)"
proof -
  define ps1 where "ps1 = (case parent (procs s cp) of None \<Rightarrow> procs s | Some q \<Rightarrow> wake_all (ChProc q) (procs s))"
  have w: "(case parent (procs s cp) of None \<Rightarrow> kreturn () | Some q \<Rightarrow> wakeup1 (ChProc q)) s = Ret () (s\<lparr>procs := ps1\<rparr>)"
    by (simp add: ps1_def wakeup1_run split: option.split)
  obtain ps where ps: "kfor (reparent cp) [0..<64] (s\<lparr>procs := ps1\<rparr>) = Ret () (s\<lparr>procs := ps1, procs := ps\<rparr>)"
    and h: "handed cp ip 64 ps1 ps"
    using reparent_loop [of "s\<lparr>procs := ps1\<rparr>" ip 64 cp] ip by auto
  have "exit_table s = Ret () (s\<lparr>procs := ps(cp := (ps cp)\<lparr>pstate := ZOMBIE\<rparr>)\<rparr>)"
    using w ps c by (simp add: exit_table_def with_curr_run sched_run)
  moreover have "ps1 = procs s \<or> (\<exists>ch. ps1 = wake_all ch (procs s))" by (auto simp: ps1_def split: option.split)
  moreover have "\<forall>q. parent (procs s cp) = Some q \<longrightarrow> ps1 = wake_all (ChProc q) (procs s)" by (simp add: ps1_def)
  ultimately show ?thesis using h by blast
qed

lemma table_of_simps [simp]:
  "table_of (s\<lparr>procs := ps\<rparr>) = (ps, nextpid s, initproc s, cpu_proc s)" "table_of (on_cpu c s) = table_of s"
  by (simp_all add: table_of_def)

lemma fork_effects:
  "fork_copy cp np pd s = Ret () s' \<Longrightarrow> table_of s' = ((procs s)(np := (procs s np)\<lparr>pgdir := pd, psz := psz (procs s cp),
     parent := Some cp\<rparr>), nextpid s, initproc s, cpu_proc s)"
  "fork_ready cp np s = Ret n s' \<Longrightarrow> cp \<noteq> np \<Longrightarrow> s' = s\<lparr>procs := (procs s)(np := (procs s np)\<lparr>pstate := RUNNABLE,
     pname := take 15 (pname (procs s cp))\<rparr>)\<rparr> \<and> n = pid (procs s np)"
  "fork_undo np s = Ret () s' \<Longrightarrow> table_of s' = ((procs s)(np := (procs s np)\<lparr>kstack := 0, pstate := UNUSED\<rparr>),
     nextpid s, initproc s, cpu_proc s)"
proof -
  show "fork_copy cp np pd s = Ret () s' \<Longrightarrow> table_of s' = ((procs s)(np := (procs s np)\<lparr>pgdir := pd, psz := psz (procs s cp),
     parent := Some cp\<rparr>), nextpid s, initproc s, cpu_proc s)"
    by (auto simp: fork_copy_def move_mem_def store_def table_of_def)
  show "fork_ready cp np s = Ret n s' \<Longrightarrow> cp \<noteq> np \<Longrightarrow> s' = s\<lparr>procs := (procs s)(np := (procs s np)\<lparr>pstate := RUNNABLE,
     pname := take 15 (pname (procs s cp))\<rparr>)\<rparr> \<and> n = pid (procs s np)"
    by (simp add: fork_ready_def)
  show "fork_undo np s = Ret () s' \<Longrightarrow> table_of s' = ((procs s)(np := (procs s np)\<lparr>kstack := 0, pstate := UNUSED\<rparr>),
     nextpid s, initproc s, cpu_proc s)"
  proof -
    assume "fork_undo np s = Ret () s'"
    then obtain t where t: "free_page (kstack (procs s np)) s = Ret () t"
      and s': "s' = t\<lparr>procs := (procs t)(np := (procs t np)\<lparr>kstack := 0, pstate := UNUSED\<rparr>)\<rparr>"
      by (auto simp: fork_undo_def elim!: kbind_eq_RetE)
    show ?thesis using same_vmore [OF free_page_vmore [OF t]] by (simp add: s' table_of_def)
  qed
qed

text \<open>kill keeps the invariant: it marks the victim and lets a sleeper run again.\<close>

lemma proc_inv_kill:
  assumes asm: "kill n (on_cpu c s) = Ret r s'" "proc_inv s"
  shows "proc_inv s'"
proof -
  from kill_effect [OF asm(1)] show ?thesis
  proof (elim disjE conjE exE)
    assume "s' = on_cpu c s"
    then show ?thesis using asm(2) by (simp add: proc_inv_def)
  next
    fix p assume p: "p < 64" and s': "s' = (on_cpu c s)\<lparr>procs := (procs (on_cpu c s))(p := (procs (on_cpu c s) p)\<lparr>killed := True,
       pstate := if pstate (procs (on_cpu c s) p) = SLEEPING then RUNNABLE else pstate (procs (on_cpu c s) p)\<rparr>)\<rparr>"
    have pc: "pstate (procs s q) = SLEEPING \<Longrightarrow> q < 64 \<Longrightarrow> pchan (procs s q) \<noteq> None" for q
      using proc_invD(4) [OF asm(2)] by blast
    show ?thesis
    proof (rule proc_inv_entries [OF asm(2), of s' "procs s'"])
      show "table_of s' = (procs s', nextpid s, initproc s, cpu_proc s)" by (simp add: s' table_of_def)
    qed (cases "pstate (procs s p) = SLEEPING"; use pc in \<open>simp add: s'\<close>)
  qed
qed

text \<open>allocproc keeps the invariant on each of its exits: no free entry, no memory for the kernel stack, and success.\<close>

lemma proc_inv_allocproc:
  assumes asm: "cpu_proc s c = Some cp" "allocproc tr fr (on_cpu c s) = Ret r s'" "proc_inv s"
  shows "proc_inv s'"
proof -
  from allocproc_effect [OF asm(2)] show ?thesis
  proof (elim disjE conjE exE)
    assume "s' = on_cpu c s"
    then show ?thesis using asm(3) by (simp add: proc_inv_def)
  next
    fix p q
    assume p: "p < 64" "pstate (procs (on_cpu c s) p) = UNUSED" and q: "pid q = nextpid (on_cpu c s)"
      and t: "table_of s' = ((procs (on_cpu c s))(p := q), nextpid (on_cpu c s) + 1, initproc (on_cpu c s), cpu_proc (on_cpu c s))"
      and "pstate q = UNUSED"
    then show ?thesis
      by (intro proc_inv_dead_entry [OF asm(3) p(1) _ _ _, of s' q "nextpid s + 1"]) (auto simp: alive_def)
  next
    fix p q
    assume p: "p < 64" "pstate (procs (on_cpu c s) p) = UNUSED" and q: "pid q = nextpid (on_cpu c s)" "pstate q = EMBRYO"
      and t: "table_of s' = ((procs (on_cpu c s))(p := q), nextpid (on_cpu c s) + 1, initproc (on_cpu c s), cpu_proc (on_cpu c s))"
    have "0 < nextpid s" "\<forall>r<64. pstate (procs s r) \<noteq> UNUSED \<longrightarrow> pid (procs s r) < nextpid s"
      using proc_invD(5) [OF asm(3)] by (auto simp: pids_inv_def)
    then show ?thesis
      using p q t
      by (intro proc_inv_dead_entry [OF asm(3) p(1) _ _ _, of s' q "nextpid s + 1"]) (auto simp: alive_def)
  qed
qed

text \<open>The three parts of fork: the copy, the entry made runnable, and the entry given back.\<close>

lemma proc_inv_fork_copy:
  assumes asm: "cpu_proc s c = Some cp"
    "np < 64"
    "pstate (procs s np) = EMBRYO"
    "fork_copy cp np pd (on_cpu c s) = Ret () s'"
    "proc_inv s"
  shows "proc_inv s'"
proof -
  have pi: "0 < pid (procs s np)" "pid (procs s np) < nextpid s"
    "\<forall>r<64. r \<noteq> np \<longrightarrow> pstate (procs s r) \<noteq> UNUSED \<longrightarrow> pid (procs s r) \<noteq> pid (procs s np)"
    using proc_invD(5) [OF asm(5)] asm(2,3) by (auto simp: pids_inv_def)
  show ?thesis
    by (rule proc_inv_dead_entry [OF asm(5,2) _ _ order_refl])
      (use asm(3) fork_effects(1) [OF asm(4)] pi in \<open>auto simp: alive_def\<close>)
qed

lemma proc_inv_fork_ready:
  assumes asm: "cpu_proc s c = Some cp"
    "np < 64"
    "pstate (procs s np) = EMBRYO"
    "parent (procs s np) = Some cp"
    "fork_ready cp np (on_cpu c s) = Ret r s'"
    "proc_inv s"
  shows "proc_inv s'"
proof -
  have "cp \<noteq> np" using proc_invD(1) [OF asm(6,1)] asm(3) by auto
  then have s': "s' = (on_cpu c s)\<lparr>procs := (procs s)(np := (procs s np)\<lparr>pstate := RUNNABLE, pname := take 15 (pname (procs s cp))\<rparr>)\<rparr>"
    using fork_effects(2) [OF asm(5)] by simp
  show ?thesis
    by (rule proc_inv_born [OF asm(6,2,3,1), of "procs s' np"]) (use s' asm(4) in \<open>simp_all add: table_of_def\<close>)
qed

text \<open>A wait that returns, reaping a child or not, and the ways a process leaves its CPU.\<close>

lemma proc_inv_wait:
  assumes asm: "cpu_proc s c = Some cp" "wait (on_cpu c s) = Ret r s'" "proc_inv s"
  shows "proc_inv s'"
proof -
  have cur: "curr_proc (on_cpu c s) = Some cp" using asm(1) by (simp add: curr_proc_def)
  from wait_effect [OF cur asm(2)] show ?thesis
  proof (elim disjE conjE exE)
    fix p assume p: "p < 64" "pstate (procs (on_cpu c s) p) = ZOMBIE" "reap p (on_cpu c s) = Ret r s'"
    show ?thesis
      by (rule proc_inv_dead_entry [OF asm(3) p(1) _ _ order_refl])
        (use p(2) reap_effect(2) [OF p(3)] in \<open>auto simp: alive_def\<close>)
  qed (use asm(3) in \<open>simp_all add: proc_inv_def\<close>)
qed

lemma proc_inv_wait_sleeps:
  assumes asm: "cpu_proc s c = Some cp" "wait (on_cpu c s) = Sleeps ch t" "sched_back t = Ret () s'" "proc_inv s"
  shows "proc_inv s'"
proof -
  have cur: "curr_proc (on_cpu c s) = Some cp" using asm(1) by (simp add: curr_proc_def)
  show ?thesis
    by (rule proc_inv_leave [OF asm(4,1), of _ "(procs s cp)\<lparr>pchan := Some ch, pstate := SLEEPING\<rparr>"])
      (use wait_sleeps_effect(2) [OF cur asm(2)] asm(3) in \<open>auto simp: sched_back_def table_of_def\<close>)
qed

lemma proc_inv_sleep:
  fixes s :: "'z ptable_scheme"
  assumes asm: "cpu_proc s c = Some cp"
    "(sleep ch :: ('z ptable_scheme, unit) kop) (on_cpu c s) = Sleeps ch t"
    "sched_back t = Ret () s'"
    "proc_inv s"
  shows "proc_inv s'"
proof -
  have cur: "curr_proc (on_cpu c s) = Some cp" using asm(1) by (simp add: curr_proc_def)
  have t: "t = (on_cpu c s)\<lparr>procs := (procs s)(cp := (procs s cp)\<lparr>pchan := Some ch, pstate := SLEEPING\<rparr>)\<rparr>"
    using asm(2) unfolding sleep_run [OF cur] by simp
  show ?thesis
    by (rule proc_inv_leave [OF asm(4,1), of _ "(procs s cp)\<lparr>pchan := Some ch, pstate := SLEEPING\<rparr>"])
      (use t asm(3) in \<open>auto simp: sched_back_def table_of_def\<close>)
qed

lemma proc_inv_sleep_done:
  assumes asm: "cpu_proc s c = Some cp" "sleep_done (on_cpu c s) = Ret () s'" "proc_inv s"
  shows "proc_inv s'"
proof -
  have cur: "curr_proc (on_cpu c s) = Some cp" using asm(1) by (simp add: curr_proc_def)
  have s': "s' = (on_cpu c s)\<lparr>procs := (procs s)(cp := (procs s cp)\<lparr>pchan := None\<rparr>)\<rparr>"
    using asm(2) unfolding sleep_done_def with_curr_run [OF cur] by simp
  show ?thesis
    by (rule proc_inv_entries [OF asm(3), of _ "procs s'"])
      (use s' proc_invD(1) [OF asm(3,1)] proc_invD(4) [OF asm(3)] in \<open>auto simp: table_of_def\<close>)
qed

text \<open>exit: the children are handed to init before the process becomes a zombie.\<close>

lemma proc_inv_exit_table:
  assumes asm: "cpu_proc s c = Some cp"
    "initproc s \<noteq> Some cp"
    "kbind exit_table (\<lambda>_. sched_back) (on_cpu c s) = Ret () s'"
    "proc_inv s"
  shows "proc_inv s'"
proof -
  have cur: "curr_proc (on_cpu c s) = Some cp" using asm(1) by (simp add: curr_proc_def)
  obtain ip where ip: "initproc s = Some ip" "ip \<noteq> cp"
    using proc_invD(6) [OF asm(4)] asm(2) by (auto simp: family_inv_def)
  obtain ps1 ps where ps1: "ps1 = procs s \<or> (\<exists>ch. ps1 = wake_all ch (procs s))" and h: "handed cp ip 64 ps1 ps"
    and ex: "exit_table (on_cpu c s) = Ret () ((on_cpu c s)\<lparr>procs := ps(cp := (ps cp)\<lparr>pstate := ZOMBIE\<rparr>)\<rparr>)"
    using exit_table_effect [OF cur, of ip] ip(1) by auto
  define s1 where "s1 = s\<lparr>procs := ps1\<rparr>"
  have "proc_inv s1"
    using ps1
  proof (elim disjE exE)
    fix ch assume "ps1 = wake_all ch (procs s)"
    then show ?thesis by (intro proc_inv_wake_all [OF asm(4)]) (simp add: s1_def)
  qed (use asm(4) in \<open>simp add: s1_def\<close>)
  then show ?thesis
    by (rule proc_inv_exit [of s1 c cp ip ps]) (use asm(1,3) ip h ex in \<open>auto simp: s1_def sched_back_def table_of_def\<close>)
qed

lemma proc_step_inv:
  assumes "proc_step s s'" and "proc_inv s"
  shows "proc_inv s'"
  using assms
proof (induction rule: proc_step.induct)
  case (pick s c p s')
  show ?case
    by (rule proc_inv_pick [OF pick(4,2) _ pick(1)]) (use sched_entry_effect [OF pick(3)] in simp_all)
next
  case (wake ch c s s')
  show ?case
    by (rule proc_inv_wake_all [OF wake(2)]) (use wake(1) in \<open>auto simp: wakeup_def wakeup1_run\<close>)
next
  case (killed n c s r s')
  then show ?case by (rule proc_inv_kill)
next
  case (alloc s c cp tr fr r s')
  then show ?case by (rule proc_inv_allocproc)
next
  case (copied s c cp np pd s')
  then show ?case by (rule proc_inv_fork_copy)
next
  case (ready s c cp np r s')
  then show ?case by (rule proc_inv_fork_ready)
next
  case (undone s c cp np s')
  show ?case
    by (rule proc_inv_dead_entry [OF undone(5,2) _ _ order_refl])
      (use undone(3) fork_effects(3) [OF undone(4)] in \<open>auto simp: alive_def\<close>)
next
  case (waited s c cp r s')
  then show ?case by (rule proc_inv_wait)
next
  case (waits s c cp ch t s')
  then show ?case by (rule proc_inv_wait_sleeps)
next
  case (sleeps s c cp ch t s')
  then show ?case by (rule proc_inv_sleep)
next
  case (slept s c cp s')
  then show ?case by (rule proc_inv_sleep_done)
next
  case (yields s c cp s')
  have cur: "curr_proc (on_cpu c s) = Some cp" using yields(1) by (simp add: curr_proc_def)
  show ?case
    by (rule proc_inv_leave [OF yields(3,1), of _ "(procs s cp)\<lparr>pstate := RUNNABLE\<rparr>"])
      (use yield_run [OF cur] yields(2) in \<open>auto simp: sched_back_def table_of_def\<close>)
next
  case (exits s c cp s')
  then show ?case by (rule proc_inv_exit_table)
qed

section \<open>Properties of the process table\<close>

text \<open>The table as \<^verbatim>\<open>userinit\<close> leaves it: init is the only process, runnable, and no CPU runs anything.\<close>

definition booted :: "'z ptable_scheme \<Rightarrow> bool" where
  "booted s \<longleftrightarrow> initproc s = Some 0 \<and> nextpid s = 2 \<and> pstate (procs s 0) = RUNNABLE \<and> pid (procs s 0) = 1
     \<and> (\<forall>p. 0 < p \<longrightarrow> p < 64 \<longrightarrow> pstate (procs s p) = UNUSED) \<and> (\<forall>c. cpu_proc s c = None)"

lemma booted_inv: "booted s \<Longrightarrow> proc_inv s"
proof -
  assume b: "booted s"
  then have only: "p = 0" if "p < 64" "pstate (procs s p) \<noteq> UNUSED" for p
    using that unfolding booted_def by blast
  have "p = 0" if "p < 64" "pstate (procs s p) = st" "st \<noteq> UNUSED" for p st using only that by blast
  then show ?thesis
    using b only unfolding booted_def proc_inv_def cpus_inv_def pids_inv_def family_inv_def
    by (auto simp: alive_def born_def dest!: only)
qed

lemma proc_run_inv: "proc_step\<^sup>*\<^sup>* s s' \<Longrightarrow> proc_inv s \<Longrightarrow> proc_inv s'"
  by (induction rule: rtranclp_induct) (auto intro: proc_step_inv)


lemma wait_scan_eq:
  "wait_scan cp is hk s =
     (case find_proc (\<lambda>q. parent q = Some cp \<and> pstate q = ZOMBIE) is (procs s) of
        Some p \<Rightarrow> kbind (reap p) (\<lambda>n. kreturn (Inr n)) s
      | None \<Rightarrow> Ret (Inl (hk \<or> (\<exists>p\<in>set is. parent (procs s p) = Some cp))) s)"
  by (induction "is" arbitrary: hk) (auto split: option.split)

text \<open>
  \<^verbatim>\<open>wait\<close> is, in every case, one of three things: it reaps the first zombie child in table order; with
  no zombie child it returns -1 if there is no child at all or the process was killed; otherwise the
  process goes to sleep on its own entry.
\<close>

theorem wait_correct:
  assumes "curr_proc s = Some cp"
  shows "wait s =
    (case find_proc (\<lambda>q. parent q = Some cp \<and> pstate q = ZOMBIE) [0..<64] (procs s) of
       Some p \<Rightarrow> reap p s
     | None \<Rightarrow>
         if (\<forall>p<64. parent (procs s p) \<noteq> Some cp) \<or> killed (procs s cp) then Ret (-1) s
         else Sleeps (ChProc cp)
           (s\<lparr>procs := (procs s)(cp := (procs s cp)\<lparr>pchan := Some (ChProc cp), pstate := SLEEPING\<rparr>)\<rparr>))"
proof (cases "find_proc (\<lambda>q. parent q = Some cp \<and> pstate q = ZOMBIE) [0..<64] (procs s)")
  case None
  then have w: "wait_scan cp [0..<64] False s = Ret (Inl (\<exists>p\<in>set [0..<64]. parent (procs s p) = Some cp)) s"
    by (simp add: wait_scan_eq)
  show ?thesis
    unfolding wait_def with_curr_run [OF assms] kbind_Ret [of "wait_scan cp [0..<64] False" s, OF w] None
    by (auto simp: sleep_run [OF assms])
next
  case (Some p)
  have R: "kbind (kbind (reap p) (\<lambda>n. kreturn (Inr n))) K s = reap p s"
    if "\<And>n. K (Inr n) = kreturn n" for K :: "bool + int \<Rightarrow> ('a ptable_scheme, int) kop"
    unfolding kbind_assoc kbind_kreturn_left that kbind_kreturn_right ..
  have "wait_scan cp [0..<64] False s = kbind (reap p) (\<lambda>n. kreturn (Inr n)) s"
    using Some by (simp add: wait_scan_eq)
  then show ?thesis
    unfolding wait_def with_curr_run [OF assms] Some option.case
    by (subst kbind_cong_at [of _ s "kbind (reap p) (\<lambda>n. kreturn (Inr n))"]) (simp_all add: R)
qed

text \<open>
  An exiting process becomes a zombie, all its children become children of init, a parent that
  sleeps in wait is made runnable, and so is init if it inherits a zombie and sleeps in wait.
\<close>

theorem exit_table_correct:
  assumes "curr_proc s = Some cp" and "cp < 64" and "initproc s = Some ip" and "ip \<noteq> cp"
  shows "\<exists>s'. exit_table s = Ret () s' \<and> pstate (procs s' cp) = ZOMBIE
    \<and> (\<forall>p<64. parent (procs s' p) = (if parent (procs s p) = Some cp then Some ip else parent (procs s p)))
    \<and> (\<forall>q<64. q \<noteq> cp \<and> parent (procs s cp) = Some q \<and> pchan (procs s q) = Some (ChProc q) \<longrightarrow> pstate (procs s' q) \<noteq> SLEEPING)
    \<and> (\<forall>p<64. p \<noteq> cp \<and> parent (procs s p) = Some cp \<and> pstate (procs s p) = ZOMBIE \<and> ip < 64
         \<and> pchan (procs s ip) = Some (ChProc ip) \<longrightarrow> pstate (procs s' ip) \<noteq> SLEEPING)"
proof -
  obtain ps1 ps where w: "ps1 = procs s \<or> (\<exists>ch. ps1 = wake_all ch (procs s))"
    and h: "handed cp ip 64 ps1 ps" and pw: "\<forall>q. parent (procs s cp) = Some q \<longrightarrow> ps1 = wake_all (ChProc q) (procs s)"
    and ex: "exit_table s = Ret () (s\<lparr>procs := ps(cp := (ps cp)\<lparr>pstate := ZOMBIE\<rparr>)\<rparr>)"
    using exit_table_effect [OF assms(1,3)] by blast
  define s' where "s' = s\<lparr>procs := ps(cp := (ps cp)\<lparr>pstate := ZOMBIE\<rparr>)\<rparr>"
  have same: "parent (ps1 p) = parent (procs s p)" "pchan (ps1 p) = pchan (procs s p)"
    "pstate (ps1 p) = ZOMBIE \<longleftrightarrow> pstate (procs s p) = ZOMBIE" for p
    using w by (auto simp: wake_all_def split: if_splits)
  have e: "\<exists>st. ps p = (ps1 p)\<lparr>pstate := st, parent := if p < 64 \<and> parent (ps1 p) = Some cp then Some ip else parent (ps1 p)\<rparr>
     \<and> (st = pstate (ps1 p) \<or> pstate (ps1 p) = SLEEPING \<and> st = RUNNABLE)" for p
    using h [unfolded handed_def, THEN conjunct1, THEN spec, of p] by blast
  have "parent (procs s' p) = (if parent (procs s p) = Some cp then Some ip else parent (procs s p))" if "p < 64" for p
    using e [of p] that by (auto simp: s'_def same)
  moreover have "pstate (procs s' q) \<noteq> SLEEPING"
    if "q < 64" "q \<noteq> cp" "parent (procs s cp) = Some q" "pchan (procs s q) = Some (ChProc q)" for q
  proof -
    have "pstate (ps1 q) \<noteq> SLEEPING" using pw that by (auto simp: wake_all_def woken_def)
    then show ?thesis using e [of q] that(2) by (auto simp: s'_def)
  qed
  moreover have "pstate (procs s' ip) \<noteq> SLEEPING"
    if "p < 64" "parent (procs s p) = Some cp" "pstate (procs s p) = ZOMBIE" "ip < 64" "pchan (procs s ip) = Some (ChProc ip)" for p
    using h [unfolded handed_def, THEN conjunct2, rule_format, of p ip] that same assms(4) by (simp add: s'_def)
  ultimately show ?thesis using ex unfolding s'_def [symmetric] by (intro exI [of _ s']) (auto simp: s'_def)
qed

text \<open>
  \<^verbatim>\<open>kill(0)\<close> succeeds on an unused entry, whose identifier is 0, and marks it killed; the next process
  allocated there is born killed, because \<^verbatim>\<open>allocproc\<close> does not clear the mark.
\<close>

theorem kill_zero_taints_new_process:
  assumes "pid (procs s 0) = 0" and "pstate (procs s 0) = UNUSED"
  shows "\<exists>s1. kill 0 s = Ret 0 s1 \<and>
    (\<forall>r s2. allocproc tr fr s1 = Ret (Some r) s2 \<longrightarrow> r = 0 \<and> killed (procs s2 0))"
proof -
  define s1 where "s1 = s\<lparr>procs := (procs s)(0 := (procs s 0)\<lparr>killed := True\<rparr>)\<rparr>"
  have f: "find_proc (\<lambda>q. pid q = 0) [0..<64] (procs s) = Some 0"
    using assms by (simp add: upt_conv_Cons)
  have "kill 0 s = Ret 0 s1" using f assms by (simp add: kill_def s1_def)
  moreover have "r = 0 \<and> killed (procs s2 0)" if a: "allocproc tr fr s1 = Ret (Some r) s2" for r s2
  proof -
    obtain q where q: "pstate (procs s1 r) = UNUSED" "table_of s2 = ((procs s1)(r := q), nextpid s1 + 1, initproc s1, cpu_proc s1)"
      "killed q = killed (procs s1 r)" using allocproc_effect [OF a] by auto
    have "find_proc (\<lambda>q. pstate q = UNUSED) [0..<64] (procs s1) = Some 0"
      using assms by (simp add: s1_def upt_conv_Cons)
    then have "r = 0" using a by (auto simp: allocproc_def split: if_splits elim!: kbind_eq_RetE)
    then show ?thesis using q by (simp add: table_of_def s1_def)
  qed
  ultimately show ?thesis by blast
qed

section \<open>A process table to evaluate the properties on\<close>

definition ex_proc :: "procstate \<Rightarrow> int \<Rightarrow> nat option \<Rightarrow> proc" where
  "ex_proc st n par = \<lparr>psz = 4096, pgdir = 0x80004000, kstack = 0x80005000, pstate = st, pid = n, parent = par,
     tf = 0, ctxt = 0, pchan = None, killed = False, ofile = (\<lambda>_. None), cwd = None, pname = []\<rparr>"

definition ex_table :: "(nat \<Rightarrow> proc) \<Rightarrow> (nat \<Rightarrow> nat option) \<Rightarrow> ptable" where
  "ex_table ps cs = \<lparr>km_start = 0, km_start_heap = 0, km_end = 0, km_orders = (\<lambda>_. \<lparr>head = 0, offset = 0\<rparr>),
     km_marks = (\<lambda>_. \<lparr>lnks = 0, bitmap = 0\<rparr>), pm = (\<lambda>_. 0), kpt_freelist = 0, ttbr0 = (\<lambda>_. 0),
     procs = ps, nextpid = 2, initproc = Some 0, cpu_proc = cs, this_cpu = 0\<rparr>"

definition ex_boot :: ptable where
  "ex_boot = ex_table ((\<lambda>_. ex_proc UNUSED 0 None)(0 := ex_proc RUNNABLE 1 None)) (\<lambda>_. None)"

lemmas ex_defs = ex_boot_def ex_table_def ex_proc_def


theorem wait_correct_witness:
  "\<exists>t. wait (ex_table ((\<lambda>_. ex_proc UNUSED 0 None)(0 := ex_proc RUNNING 1 None, 5 := ex_proc RUNNABLE 2 (Some 0))) (\<lambda>_. Some 0))
     = Sleeps (ChProc 0) t"
proof -
  let ?s = "ex_table ((\<lambda>_. ex_proc UNUSED 0 None)(0 := ex_proc RUNNING 1 None, 5 := ex_proc RUNNABLE 2 (Some 0))) (\<lambda>_. Some 0)"
  have c: "curr_proc ?s = Some 0" by (simp add: curr_proc_def ex_defs)
  have f: "find_proc (\<lambda>q. parent q = Some 0 \<and> pstate q = ZOMBIE) [0..<64] (procs ?s) = None"
    by (auto simp: find_proc_None ex_defs)
  have k: "\<not> ((\<forall>p<64. parent (procs ?s p) \<noteq> Some 0) \<or> killed (procs ?s 0))"
    by (auto simp: ex_defs intro!: exI [of _ 5])
  show ?thesis using wait_correct [OF c] unfolding f using k by simp
qed

theorem exit_table_correct_witness:
  "\<exists>s'. exit_table (ex_table ((\<lambda>_. ex_proc UNUSED 0 None)(0 := ex_proc SLEEPING 1 None, 2 := ex_proc RUNNING 2 (Some 0),
      5 := ex_proc RUNNABLE 3 (Some 2))) (\<lambda>_. Some 2)) = Ret () s' \<and> parent (procs s' 5) = Some 0"
proof -
  let ?s = "ex_table ((\<lambda>_. ex_proc UNUSED 0 None)(0 := ex_proc SLEEPING 1 None, 2 := ex_proc RUNNING 2 (Some 0),
      5 := ex_proc RUNNABLE 3 (Some 2))) (\<lambda>_. Some 2)"
  have "curr_proc ?s = Some 2" "initproc ?s = Some 0" by (simp_all add: curr_proc_def ex_defs)
  from exit_table_correct [OF this(1) _ this(2)] obtain s' where
    "exit_table ?s = Ret () s'" "\<forall>p<64. parent (procs s' p) = (if parent (procs ?s p) = Some 2 then Some 0 else parent (procs ?s p))"
    by auto
  then show ?thesis by (intro exI [of _ s']) (simp add: ex_defs)
qed

theorem kill_zero_taints_new_process_witness:
  "\<exists>s1. kill 0 (ex_table (\<lambda>_. ex_proc UNUSED 0 None) (\<lambda>_. None)) = Ret 0 s1"
proof -
  let ?s = "ex_table (\<lambda>_. ex_proc UNUSED 0 None) (\<lambda>_. None)"
  have "pid (procs ?s 0) = 0" "pstate (procs ?s 0) = UNUSED" by (simp_all add: ex_defs)
  from kill_zero_taints_new_process [OF this] show ?thesis by blast
qed

end
