(* ===== verification/Bio.thy ===== *)
theory Bio
  imports Proc
begin

text \<open>
  The memory disk (\<^verbatim>\<open>source/memide.c\<close>) and the buffer cache (\<^verbatim>\<open>source/bio.c\<close>). The circular list through
  \<^verbatim>\<open>prev\<close> and \<^verbatim>\<open>next\<close> is the list of buffer numbers from \<^verbatim>\<open>head.next\<close> on, and the three flag bits of a
  buffer are three booleans. \<open>dtrace\<close> records every sector written; no code reads it, and it gives the
  disk at every instant, for the reasoning about crashes.
\<close>

section \<open>State\<close>

abbreviation (input) NBUF :: nat where "NBUF \<equiv> 10"
abbreviation (input) BSIZE :: nat where "BSIZE \<equiv> 512"
abbreviation (input) ROOTDEV :: uint where "ROOTDEV \<equiv> 1"

record buf =
  b_busy :: bool
  b_valid :: bool
  b_dirty :: bool
  b_dev :: uint
  b_sector :: uint
  b_data :: "byte list"

record bio = ptable +
  bufs :: "nat \<Rightarrow> buf"
  lru :: "nat list"
  memdisk :: "nat \<Rightarrow> byte list"
  disksize :: nat
  dtrace :: "(nat \<times> byte list) list"

definition upd_buf :: "nat \<Rightarrow> (buf \<Rightarrow> buf) \<Rightarrow> ('z bio_scheme, unit) kop" where
  "upd_buf b f = kmod (\<lambda>s. s\<lparr>bufs := (bufs s)(b := f (bufs s b))\<rparr>)"

section \<open>The disk\<close>

definition disk_write :: "nat \<Rightarrow> byte list \<Rightarrow> ('z bio_scheme, unit) kop" where
  "disk_write d v = kmod (\<lambda>s. s\<lparr>memdisk := (memdisk s)(d := v), dtrace := dtrace s @ [(d, v)]\<rparr>)"

definition iderw :: "nat \<Rightarrow> ('z bio_scheme, unit) kop" where
  "iderw b =
     kbind (kget (\<lambda>s. bufs s b)) (\<lambda>q.
     if \<not> b_busy q then panic ''iderw: buf not busy''
     else if b_valid q \<and> \<not> b_dirty q then panic ''iderw: nothing to do''
     else if b_dev q \<noteq> 1 then panic ''iderw: request not for disk 1''
     else kbind (kget disksize) (\<lambda>n.
          if unat (b_sector q) \<ge> n then panic ''iderw: sector out of range''
          else kbind (if b_dirty q
                      then kbind (upd_buf b (\<lambda>q. q\<lparr>b_dirty := False\<rparr>)) (\<lambda>_.
                           disk_write (unat (b_sector q)) (b_data q))
                      else kbind (kget (\<lambda>s. memdisk s (unat (b_sector q)))) (\<lambda>v.
                           upd_buf b (\<lambda>q. q\<lparr>b_data := v\<rparr>))) (\<lambda>_.
               upd_buf b (\<lambda>q. q\<lparr>b_valid := True\<rparr>))))"

section \<open>The buffer cache\<close>

text \<open>Each buffer is inserted after the head, so the last one comes first.\<close>

definition binit :: "('z bio_scheme, unit) kop" where
  "binit = kmod (\<lambda>s. s\<lparr>bufs := (\<lambda>b. if b < NBUF then (bufs s b)\<lparr>b_dev := -1\<rparr> else bufs s b), lru := rev [0..<NBUF]\<rparr>)"

fun find_buf :: "(buf \<Rightarrow> bool) \<Rightarrow> nat list \<Rightarrow> (nat \<Rightarrow> buf) \<Rightarrow> nat option" where
  "find_buf P [] bs = None"
| "find_buf P (b # is) bs = (if P (bs b) then Some b else find_buf P is bs)"

text \<open>A sleeping \<^verbatim>\<open>bget\<close> starts over when it is woken (\<^verbatim>\<open>goto loop\<close>).\<close>

definition bget :: "uint \<Rightarrow> uint \<Rightarrow> ('z bio_scheme, nat) kop" where
  "bget dev sector =
     kbind (kget (\<lambda>s. find_buf (\<lambda>q. b_dev q = dev \<and> b_sector q = sector) (lru s) (bufs s))) (\<lambda>r.
     case r of
       Some b \<Rightarrow>
         kbind (kget (\<lambda>s. b_busy (bufs s b))) (\<lambda>busy.
         if \<not> busy then kbind (upd_buf b (\<lambda>q. q\<lparr>b_busy := True\<rparr>)) (\<lambda>_. kreturn b)
         else sleep (ChBuf b))
     | None \<Rightarrow>
         kbind (kget (\<lambda>s. find_buf (\<lambda>q. \<not> b_busy q \<and> \<not> b_dirty q) (rev (lru s)) (bufs s))) (\<lambda>r.
         case r of
           Some b \<Rightarrow>
             kbind (upd_buf b (\<lambda>q. q\<lparr>b_dev := dev, b_sector := sector,
               b_busy := True, b_valid := False, b_dirty := False\<rparr>)) (\<lambda>_. kreturn b)
         | None \<Rightarrow> panic ''bget: no buffers''))"

definition bread :: "uint \<Rightarrow> uint \<Rightarrow> ('z bio_scheme, nat) kop" where
  "bread dev sector =
     kbind (bget dev sector) (\<lambda>b.
     kbind (kget (\<lambda>s. b_valid (bufs s b))) (\<lambda>v.
     kbind (if \<not> v then iderw b else kreturn ()) (\<lambda>_.
     kreturn b)))"

definition bwrite :: "nat \<Rightarrow> ('z bio_scheme, unit) kop" where
  "bwrite b =
     kbind (kget (\<lambda>s. b_busy (bufs s b))) (\<lambda>busy.
     if \<not> busy then panic ''bwrite''
     else kbind (upd_buf b (\<lambda>q. q\<lparr>b_dirty := True\<rparr>)) (\<lambda>_. iderw b))"

definition brelse :: "nat \<Rightarrow> ('z bio_scheme, unit) kop" where
  "brelse b =
     kbind (kget (\<lambda>s. b_busy (bufs s b))) (\<lambda>busy.
     if \<not> busy then panic ''brelse''
     else kbind (kmod (\<lambda>s. s\<lparr>lru := b # remove1 b (lru s)\<rparr>)) (\<lambda>_.
          kbind (upd_buf b (\<lambda>q. q\<lparr>b_busy := False\<rparr>)) (\<lambda>_.
          wakeup (ChBuf b))))"

text \<open>What callers do with a buffer they hold.\<close>

definition buf_data :: "nat \<Rightarrow> ('z bio_scheme, byte list) kop" where
  "buf_data b = kget (\<lambda>s. b_data (bufs s b))"

definition set_data :: "nat \<Rightarrow> byte list \<Rightarrow> ('z bio_scheme, unit) kop" where
  "set_data b v = upd_buf b (\<lambda>q. q\<lparr>b_data := v\<rparr>)"

text \<open>\<^verbatim>\<open>log_write\<close> keeps a modified buffer in the cache by setting its dirty flag.\<close>

definition mark_dirty :: "nat \<Rightarrow> ('z bio_scheme, unit) kop" where
  "mark_dirty b = upd_buf b (\<lambda>q. q\<lparr>b_dirty := True\<rparr>)"

section \<open>Cache coherence\<close>

text \<open>
  The invariant between operations: the list holds each buffer once, no two buffers hold the same
  sector, exactly the buffers of disk 1 are valid, a held or dirty buffer is valid, a valid buffer that
  is neither held nor dirty agrees with the disk, and every valid buffer and every sector has 512 bytes.
\<close>

definition bcache_inv :: "'z bio_scheme \<Rightarrow> bool" where
  "bcache_inv s \<longleftrightarrow> distinct (lru s) \<and> set (lru s) = {0..<NBUF} \<and> disksize s \<le> 2 ^ 23
     \<and> (\<forall>i<NBUF. \<forall>j<NBUF. b_valid (bufs s i) \<longrightarrow> b_valid (bufs s j) \<longrightarrow>
          b_sector (bufs s i) = b_sector (bufs s j) \<longrightarrow> i = j)
     \<and> (\<forall>i<NBUF. b_valid (bufs s i) \<longleftrightarrow> b_dev (bufs s i) = 1)
     \<and> (\<forall>i<NBUF. b_valid (bufs s i) \<longrightarrow> unat (b_sector (bufs s i)) < disksize s
          \<and> length (b_data (bufs s i)) = BSIZE)
     \<and> (\<forall>i<NBUF. b_valid (bufs s i) \<longrightarrow> \<not> b_busy (bufs s i) \<longrightarrow> \<not> b_dirty (bufs s i) \<longrightarrow>
          b_data (bufs s i) = memdisk s (unat (b_sector (bufs s i))))
     \<and> (\<forall>i<NBUF. b_busy (bufs s i) \<or> b_dirty (bufs s i) \<longrightarrow> b_valid (bufs s i))
     \<and> (\<forall>d<disksize s. length (memdisk s d) = BSIZE)"

text \<open>
  The buffer that holds a sector, and the contents of the sector as the kernel sees them: the cached copy
  if there is one, else the disk.
\<close>

definition cached :: "'z bio_scheme \<Rightarrow> nat \<Rightarrow> nat option" where
  "cached s d = find_buf (\<lambda>q. b_valid q \<and> unat (b_sector q) = d) (lru s) (bufs s)"

definition view :: "'z bio_scheme \<Rightarrow> nat \<Rightarrow> byte list" where
  "view s d = (case cached s d of Some b \<Rightarrow> b_data (bufs s b) | None \<Rightarrow> memdisk s d)"

text \<open>The sector a held buffer stands for, and the sectors whose buffer is dirty.\<close>

definition held :: "'z bio_scheme \<Rightarrow> nat \<rightharpoonup> nat" where
  "held s b = (if b < NBUF \<and> b_busy (bufs s b) then Some (unat (b_sector (bufs s b))) else None)"

definition dirty :: "'z bio_scheme \<Rightarrow> nat set" where
  "dirty s = {unat (b_sector (bufs s b)) |b. b < NBUF \<and> b_dirty (bufs s b)}"

text \<open>What an operation of the cache may change.\<close>

definition bio_frame :: "'z bio_scheme \<Rightarrow> 'z bio_scheme \<Rightarrow> bool" where
  "bio_frame s s' \<longleftrightarrow> (\<exists>P B L M T. s' = s\<lparr>procs := P, bufs := B, lru := L, memdisk := M, dtrace := T\<rparr>)"

end
