(* ===== verification/Bio_Proofs.thy ===== *)
theory Bio_Proofs
  imports Bio Proc_Proofs
begin

text \<open>
  The buffer cache as a store of sectors. \<open>block_store\<close> is the contract the log and the file system
  rely on, stated on an abstraction of the cache (the contents the kernel sees, the disk, the sectors
  held and the sectors dirty, and the sequence of disk writes); the read and update cycles every client
  uses are derived in it once. The interpretation shows that \<^verbatim>\<open>bio.c\<close> and \<^verbatim>\<open>memide.c\<close> satisfy it.
\<close>

section \<open>The contract\<close>

record store =
  a_size :: nat
  a_view :: "nat \<Rightarrow> byte list"
  a_disk :: "nat \<Rightarrow> byte list"
  a_held :: "nat \<rightharpoonup> nat"
  a_dirty :: "nat set"
  a_trace :: "(nat \<times> byte list) list"

locale block_store =
  fixes inv :: "'s \<Rightarrow> bool" and frame :: "'s \<Rightarrow> 's \<Rightarrow> bool" and abs :: "'s \<Rightarrow> store" and cap :: nat
    and rd :: "nat \<Rightarrow> ('s, nat) kop" and get :: "nat \<Rightarrow> ('s, byte list) kop"
    and put :: "nat \<Rightarrow> byte list \<Rightarrow> ('s, unit) kop"
    and wr :: "nat \<Rightarrow> ('s, unit) kop" and pin :: "nat \<Rightarrow> ('s, unit) kop" and rel :: "nat \<Rightarrow> ('s, unit) kop"
  assumes frame_refl: "frame s s"
    and frame_trans: "frame s t \<Longrightarrow> frame t u \<Longrightarrow> frame s u"
    and block_length: "inv s \<Longrightarrow> d < a_size (abs s) \<Longrightarrow> length (a_view (abs s) d) = 512"
    and clean: "inv s \<Longrightarrow> d \<notin> ran (a_held (abs s)) \<Longrightarrow> d \<notin> a_dirty (abs s) \<Longrightarrow>
      a_view (abs s) d = a_disk (abs s) d"
    and rd: "inv s \<Longrightarrow> d < a_size (abs s) \<Longrightarrow> d \<notin> ran (a_held (abs s)) \<Longrightarrow>
      d \<in> a_dirty (abs s) \<or> card (ran (a_held (abs s)) \<union> a_dirty (abs s)) < cap \<Longrightarrow>
      \<exists>b s'. rd d s = Ret b s' \<and> inv s' \<and> frame s s' \<and> a_held (abs s) b = None
        \<and> abs s' = (abs s)\<lparr>a_held := (a_held (abs s))(b \<mapsto> d)\<rparr>"
    and get: "inv s \<Longrightarrow> a_held (abs s) b = Some d \<Longrightarrow> get b s = Ret (a_view (abs s) d) s"
    and put: "inv s \<Longrightarrow> a_held (abs s) b = Some d \<Longrightarrow> length v = 512 \<Longrightarrow>
      \<exists>s'. put b v s = Ret () s' \<and> inv s' \<and> frame s s'
        \<and> abs s' = (abs s)\<lparr>a_view := (a_view (abs s))(d := v)\<rparr>"
    and wr: "inv s \<Longrightarrow> a_held (abs s) b = Some d \<Longrightarrow>
      \<exists>s'. wr b s = Ret () s' \<and> inv s' \<and> frame s s'
        \<and> abs s' = (abs s)\<lparr>a_disk := (a_disk (abs s))(d := a_view (abs s) d), a_dirty := a_dirty (abs s) - {d},
             a_trace := a_trace (abs s) @ [(d, a_view (abs s) d)]\<rparr>"
    and pin: "inv s \<Longrightarrow> a_held (abs s) b = Some d \<Longrightarrow>
      \<exists>s'. pin b s = Ret () s' \<and> inv s' \<and> frame s s'
        \<and> abs s' = (abs s)\<lparr>a_dirty := insert d (a_dirty (abs s))\<rparr>"
    and rel: "inv s \<Longrightarrow> a_held (abs s) b = Some d \<Longrightarrow>
      d \<in> a_dirty (abs s) \<or> a_view (abs s) d = a_disk (abs s) d \<Longrightarrow>
      \<exists>s'. rel b s = Ret () s' \<and> inv s' \<and> frame s s'
        \<and> abs s' = (abs s)\<lparr>a_held := (a_held (abs s))(b := None)\<rparr>"
begin

text \<open>Filling a held block and writing it through.\<close>

lemma put_wr:
  assumes "inv s" and h: "a_held (abs s) b = Some d" and "length v = 512"
  obtains t s' where "put b v s = Ret () t" and "wr b t = Ret () s'" and "inv s'" and "frame s s'"
    and "abs s' = (abs s)\<lparr>a_view := (a_view (abs s))(d := v), a_disk := (a_disk (abs s))(d := v),
      a_dirty := a_dirty (abs s) - {d}, a_trace := a_trace (abs s) @ [(d, v)]\<rparr>"
proof -
  obtain t where t: "put b v s = Ret () t" "inv t" "frame s t" "abs t = (abs s)\<lparr>a_view := (a_view (abs s))(d := v)\<rparr>"
    using put [OF assms] by blast
  then obtain s' where "wr b t = Ret () s'" "inv s'" "frame t s'"
    "abs s' = (abs t)\<lparr>a_disk := (a_disk (abs t))(d := a_view (abs t) d), a_dirty := a_dirty (abs t) - {d},
       a_trace := a_trace (abs t) @ [(d, a_view (abs t) d)]\<rparr>"
    using wr [of t b d] h by auto
  then show ?thesis using that t frame_trans by auto
qed

text \<open>Reading a sector: read, look, release.\<close>

lemma read_cycle:
  assumes "inv s" and "d < a_size (abs s)" and "d \<notin> ran (a_held (abs s))"
    and "d \<in> a_dirty (abs s) \<or> card (ran (a_held (abs s)) \<union> a_dirty (abs s)) < cap"
  shows "\<exists>s'. kbind (rd d) (\<lambda>b. kbind (get b) (\<lambda>v. kbind (rel b) (\<lambda>_. f v))) s = f (a_view (abs s) d) s'
    \<and> inv s' \<and> frame s s' \<and> abs s' = abs s"
proof -
  obtain b t where t: "rd d s = Ret b t" "inv t" "frame s t" "a_held (abs s) b = None"
    "abs t = (abs s)\<lparr>a_held := (a_held (abs s))(b \<mapsto> d)\<rparr>" using rd [OF assms] by blast
  have h: "a_held (abs t) b = Some d" by (simp add: t(5))
  have "d \<in> a_dirty (abs t) \<or> a_view (abs t) d = a_disk (abs t) d"
    using clean [OF assms(1,3)] by (auto simp: t(5))
  then obtain u where u: "rel b t = Ret () u" "inv u" "frame t u"
    "abs u = (abs t)\<lparr>a_held := (a_held (abs t))(b := None)\<rparr>" using rel [OF t(2) h] by blast
  have "(a_held (abs s))(b := None) = a_held (abs s)" using t(4) by (simp add: fun_upd_idem)
  then have "abs u = abs s" by (simp add: u(4) t(5))
  then show ?thesis using t u get [OF t(2) h] frame_trans by (intro exI [of _ u]) auto
qed

text \<open>Writing a sector through to the disk: read, modify, write, release.\<close>

lemma write_cycle:
  assumes "inv s" and "d < a_size (abs s)" and "d \<notin> ran (a_held (abs s))"
    and "d \<in> a_dirty (abs s) \<or> card (ran (a_held (abs s)) \<union> a_dirty (abs s)) < cap"
    and "length (f (a_view (abs s) d)) = 512"
  shows "\<exists>s'. kbind (rd d) (\<lambda>b. kbind (get b) (\<lambda>v. kbind (put b (f v)) (\<lambda>_. kbind (wr b) (\<lambda>_. rel b)))) s = Ret () s'
    \<and> inv s' \<and> frame s s'
    \<and> abs s' = (let v = f (a_view (abs s) d) in (abs s)\<lparr>a_view := (a_view (abs s))(d := v),
         a_disk := (a_disk (abs s))(d := v), a_dirty := a_dirty (abs s) - {d},
         a_trace := a_trace (abs s) @ [(d, v)]\<rparr>)"
proof -
  obtain b t where t: "rd d s = Ret b t" "inv t" "frame s t" "a_held (abs s) b = None"
    "abs t = (abs s)\<lparr>a_held := (a_held (abs s))(b \<mapsto> d)\<rparr>" using rd [OF assms(1-4)] by blast
  define v where "v = f (a_view (abs s) d)"
  have h: "a_held (abs t) b = Some d" by (simp add: t(5))
  have g: "get b t = Ret (a_view (abs s) d) t" using get [OF t(2) h] by (simp add: t(5))
  have len: "length v = 512" using assms(5) by (simp add: v_def)
  obtain u w where u: "put b v t = Ret () u" and w: "wr b u = Ret () w" "inv w" "frame t w"
    "abs w = (abs t)\<lparr>a_view := (a_view (abs t))(d := v), a_disk := (a_disk (abs t))(d := v),
       a_dirty := a_dirty (abs t) - {d}, a_trace := a_trace (abs t) @ [(d, v)]\<rparr>"
    by (rule put_wr [OF t(2) h len])
  have hw: "a_held (abs w) b = Some d" by (simp add: w(4) h)
  have "a_view (abs w) d = a_disk (abs w) d" by (simp add: w(4))
  then obtain x where x: "rel b w = Ret () x" "inv x" "frame w x"
    "abs x = (abs w)\<lparr>a_held := (a_held (abs w))(b := None)\<rparr>" using rel [OF w(2) hw] by blast
  have e: "(a_held (abs s))(b := None) = a_held (abs s)" using t(4) by (simp add: fun_upd_idem)
  have "frame s x" using t(3) w(3) x(3) frame_trans by blast
  moreover have "abs x = (abs s)\<lparr>a_view := (a_view (abs s))(d := v), a_disk := (a_disk (abs s))(d := v),
     a_dirty := a_dirty (abs s) - {d}, a_trace := a_trace (abs s) @ [(d, v)]\<rparr>"
    by (simp add: x(4) w(4) t(5) e)
  ultimately show ?thesis
    using t(1) g u w(1) x(1,2) by (intro exI [of _ x]) (simp add: Let_def flip: v_def)
qed

end

section \<open>The invariant of the cache\<close>

lemma bcacheD:
  assumes "bcache_inv s"
  shows "distinct (lru s)" "set (lru s) = {0..<10}" "disksize s \<le> 2 ^ 23"
    and "i < 10 \<Longrightarrow> j < 10 \<Longrightarrow> b_valid (bufs s i) \<Longrightarrow> b_valid (bufs s j) \<Longrightarrow>
      b_sector (bufs s i) = b_sector (bufs s j) \<Longrightarrow> i = j"
    and "i < 10 \<Longrightarrow> b_valid (bufs s i) \<longleftrightarrow> b_dev (bufs s i) = 1"
    and "i < 10 \<Longrightarrow> b_valid (bufs s i) \<Longrightarrow> unat (b_sector (bufs s i)) < disksize s"
    and "i < 10 \<Longrightarrow> b_valid (bufs s i) \<Longrightarrow> length (b_data (bufs s i)) = 512"
    and "i < 10 \<Longrightarrow> b_valid (bufs s i) \<Longrightarrow> \<not> b_busy (bufs s i) \<Longrightarrow> \<not> b_dirty (bufs s i) \<Longrightarrow>
      b_data (bufs s i) = memdisk s (unat (b_sector (bufs s i)))"
    and "i < 10 \<Longrightarrow> b_busy (bufs s i) \<Longrightarrow> b_valid (bufs s i)"
    and "i < 10 \<Longrightarrow> b_dirty (bufs s i) \<Longrightarrow> b_valid (bufs s i)"
    and "d < disksize s \<Longrightarrow> length (memdisk s d) = 512"
proof -
  note c = assms [unfolded bcache_inv_def]
  note c1 = c [THEN conjunct1] and r1 = c [THEN conjunct2]
  note c2 = r1 [THEN conjunct1] and r2 = r1 [THEN conjunct2]
  note c3 = r2 [THEN conjunct1] and r3 = r2 [THEN conjunct2]
  note c4 = r3 [THEN conjunct1] and r4 = r3 [THEN conjunct2]
  note c5 = r4 [THEN conjunct1] and r5 = r4 [THEN conjunct2]
  note c6 = r5 [THEN conjunct1] and r6 = r5 [THEN conjunct2]
  note c7 = r6 [THEN conjunct1] and r7 = r6 [THEN conjunct2]
  note c8 = r7 [THEN conjunct1] and c9 = r7 [THEN conjunct2]
  show "distinct (lru s)" "set (lru s) = {0..<10}" "disksize s \<le> 2 ^ 23" by (fact c1 c2 c3)+
  show "i < 10 \<Longrightarrow> j < 10 \<Longrightarrow> b_valid (bufs s i) \<Longrightarrow> b_valid (bufs s j) \<Longrightarrow>
      b_sector (bufs s i) = b_sector (bufs s j) \<Longrightarrow> i = j" by (rule c4 [rule_format])
  show "i < 10 \<Longrightarrow> b_valid (bufs s i) \<longleftrightarrow> b_dev (bufs s i) = 1" by (rule c5 [rule_format])
  show "i < 10 \<Longrightarrow> b_valid (bufs s i) \<Longrightarrow> unat (b_sector (bufs s i)) < disksize s"
    "i < 10 \<Longrightarrow> b_valid (bufs s i) \<Longrightarrow> length (b_data (bufs s i)) = 512"
    by (simp_all only: c6 [rule_format])
  show "i < 10 \<Longrightarrow> b_valid (bufs s i) \<Longrightarrow> \<not> b_busy (bufs s i) \<Longrightarrow> \<not> b_dirty (bufs s i) \<Longrightarrow>
      b_data (bufs s i) = memdisk s (unat (b_sector (bufs s i)))" by (rule c7 [rule_format])
  show "i < 10 \<Longrightarrow> b_busy (bufs s i) \<Longrightarrow> b_valid (bufs s i)"
    "i < 10 \<Longrightarrow> b_dirty (bufs s i) \<Longrightarrow> b_valid (bufs s i)"
    using c8 by blast+
  show "d < disksize s \<Longrightarrow> length (memdisk s d) = 512" by (rule c9 [rule_format])
qed

lemma find_buf_Some:
  "find_buf P is bs = Some b \<Longrightarrow> b \<in> set is \<and> P (bs b)"
  by (induction "is") (auto split: if_splits)

lemma find_buf_None: "find_buf P is bs = None \<longleftrightarrow> (\<forall>b\<in>set is. \<not> P (bs b))"
  by (induction "is") auto

lemma find_buf_unique:
  assumes "b \<in> set is" and "P (bs b)" and "\<forall>c\<in>set is. P (bs c) \<longrightarrow> c = b"
  shows "find_buf P is bs = Some b"
proof (cases "find_buf P is bs")
  case None
  then show ?thesis using assms(1,2) by (simp add: find_buf_None)
next
  case (Some c)
  then show ?thesis using find_buf_Some [OF Some] assms(3) by blast
qed

lemma cached_iff:
  assumes "bcache_inv s"
  shows "cached s d = Some b \<longleftrightarrow> b < 10 \<and> b_valid (bufs s b) \<and> unat (b_sector (bufs s b)) = d"
proof
  assume "cached s d = Some b"
  then show "b < 10 \<and> b_valid (bufs s b) \<and> unat (b_sector (bufs s b)) = d"
    using find_buf_Some bcacheD(2) [OF assms] unfolding cached_def by fastforce
next
  assume b: "b < 10 \<and> b_valid (bufs s b) \<and> unat (b_sector (bufs s b)) = d"
  have "c = b" if "c \<in> set (lru s)" "b_valid (bufs s c) \<and> unat (b_sector (bufs s c)) = d" for c
    by (rule bcacheD(4) [OF assms]) (use that b bcacheD(2) [OF assms] in \<open>simp_all add: word_unat_eq_iff\<close>)
  then have u: "\<forall>c\<in>set (lru s). b_valid (bufs s c) \<and> unat (b_sector (bufs s c)) = d \<longrightarrow> c = b" by blast
  show "cached s d = Some b"
    unfolding cached_def by (rule find_buf_unique [OF _ _ u]) (use b bcacheD(2) [OF assms] in simp_all)
qed

lemma cached_None:
  "bcache_inv s \<Longrightarrow> cached s d = None \<longleftrightarrow> (\<forall>b<10. b_valid (bufs s b) \<longrightarrow> unat (b_sector (bufs s b)) \<noteq> d)"
  using cached_iff [of s d] by (cases "cached s d") auto

lemma view_cached: "cached s d = Some b \<Longrightarrow> view s d = b_data (bufs s b)"
  by (simp add: view_def)

lemma view_uncached: "cached s d = None \<Longrightarrow> view s d = memdisk s d"
  by (simp add: view_def)

lemma cached_cong:
  assumes "bcache_inv s" and "bcache_inv s'"
    and "\<And>i. i < 10 \<Longrightarrow> b_valid (bufs s' i) = b_valid (bufs s i) \<and> b_sector (bufs s' i) = b_sector (bufs s i)"
  shows "cached s' d = cached s d"
proof -
  have "cached s' d = Some b \<longleftrightarrow> cached s d = Some b" for b
    unfolding cached_iff [OF assms(1)] cached_iff [OF assms(2)] using assms(3) [of b] by auto
  then show ?thesis by (cases "cached s d"; cases "cached s' d") auto
qed

lemma held_Some:
  assumes "bcache_inv s" and "held s b = Some d"
  shows "b < 10" "b_busy (bufs s b)" "b_valid (bufs s b)" "unat (b_sector (bufs s b)) = d" "d < disksize s"
    and "cached s d = Some b"
proof -
  show a: "b < 10" "b_busy (bufs s b)" "unat (b_sector (bufs s b)) = d"
    using assms(2) by (auto simp: held_def split: if_splits)
  then show v: "b_valid (bufs s b)" using bcacheD(9) [OF assms(1)] by blast
  then show "d < disksize s" "cached s d = Some b"
    using a bcacheD(6) [OF assms(1), of b] by (simp_all add: cached_iff [OF assms(1)])
qed

lemma held_dirty_iff:
  assumes "bcache_inv s" and "held s b = Some d"
  shows "d \<in> dirty s \<longleftrightarrow> b_dirty (bufs s b)"
proof
  note h = held_Some [OF assms]
  assume "d \<in> dirty s"
  then obtain i where i: "i < 10" "b_dirty (bufs s i)" "unat (b_sector (bufs s i)) = d" by (auto simp: dirty_def)
  then have "b_valid (bufs s i)" using bcacheD(10) [OF assms(1)] by blast
  then have "i = b" using bcacheD(4) [OF assms(1) i(1) h(1) _ h(3)] i h by (simp add: word_unat_eq_iff)
  then show "b_dirty (bufs s b)" using i by simp
qed (use held_Some [OF assms] in \<open>auto simp: dirty_def\<close>)

lemma find_buf_cong:
  "(\<And>b. b \<in> set is \<Longrightarrow> P (bs b) = Q (bs b)) \<Longrightarrow> find_buf P is bs = find_buf Q is bs"
  by (induction "is") auto

lemma find_sector:
  assumes "bcache_inv s" and "d < disksize s"
  shows "find_buf (\<lambda>q. b_dev q = 1 \<and> b_sector q = word_of_nat d) (lru s) (bufs s) = cached s d"
  unfolding cached_def
proof (rule find_buf_cong)
  fix b assume "b \<in> set (lru s)"
  then have "b < 10" using bcacheD(2) [OF assms(1)] by simp
  moreover have "unat (word_of_nat d :: uint) = d"
    by (rule unat_of_nat_32) (use assms(2) bcacheD(3) [OF assms(1)] in simp)
  ultimately show "(b_dev (bufs s b) = 1 \<and> b_sector (bufs s b) = word_of_nat d)
      = (b_valid (bufs s b) \<and> unat (b_sector (bufs s b)) = d)"
    using bcacheD(5) [OF assms(1), of b] by (auto simp: word_unat_eq_iff)
qed

lemma spare_exists:
  assumes "bcache_inv s" and "card (ran (held s) \<union> dirty s) < 10"
  shows "\<exists>b<10. \<not> b_busy (bufs s b) \<and> \<not> b_dirty (bufs s b)"
proof (rule ccontr)
  let ?f = "\<lambda>b. unat (b_sector (bufs s b))"
  assume "\<not> ?thesis"
  then have all: "b_busy (bufs s b) \<or> b_dirty (bufs s b)" if "b < 10" for b using that by blast
  then have v: "b_valid (bufs s b)" if "b < 10" for b using bcacheD(9,10) [OF assms(1)] that by blast
  have "inj_on ?f {0..<10}"
    by (rule inj_onI, rule bcacheD(4) [OF assms(1)]) (use v in \<open>simp_all add: word_unat_eq_iff\<close>)
  then have "card (?f ` {0..<10}) = 10" by (simp add: card_image)
  moreover have "?f ` {0..<10} = ran (held s) \<union> dirty s"
    using all by (auto simp: ran_def held_def dirty_def) blast
  ultimately show False using assms(2) by simp
qed

definition abs_bio :: "'z bio_scheme \<Rightarrow> store" where
  "abs_bio s = \<lparr>a_size = disksize s, a_view = view s, a_disk = memdisk s, a_held = held s,
     a_dirty = dirty s, a_trace = dtrace s\<rparr>"

lemma abs_bio_simps [simp]:
  "a_size (abs_bio s) = disksize s" "a_view (abs_bio s) = view s" "a_disk (abs_bio s) = memdisk s"
  "a_held (abs_bio s) = held s" "a_dirty (abs_bio s) = dirty s" "a_trace (abs_bio s) = dtrace s"
  by (simp_all add: abs_bio_def)

section \<open>The operations\<close>

text \<open>Changing one buffer, and the disk under it, keeps the invariant.\<close>

lemma bcache_upd:
  assumes "bcache_inv s" and "b < 10" and "distinct L" and "set L = {0..<10}"
    and "b_valid q \<longleftrightarrow> b_dev q = 1"
    and "b_valid q \<Longrightarrow> unat (b_sector q) < disksize s"
    and "b_valid q \<Longrightarrow> length (b_data q) = 512"
    and "\<And>i. b_valid q \<Longrightarrow> i < 10 \<Longrightarrow> i \<noteq> b \<Longrightarrow> b_valid (bufs s i) \<Longrightarrow> b_sector (bufs s i) \<noteq> b_sector q"
    and "b_valid q \<Longrightarrow> \<not> b_busy q \<Longrightarrow> \<not> b_dirty q \<Longrightarrow> b_data q = M (unat (b_sector q))"
    and "b_busy q \<or> b_dirty q \<Longrightarrow> b_valid q"
    and "\<And>d. d < disksize s \<Longrightarrow> length (M d) = 512"
    and "\<And>i. i < 10 \<Longrightarrow> i \<noteq> b \<Longrightarrow> b_valid (bufs s i) \<Longrightarrow> M (unat (b_sector (bufs s i))) = memdisk s (unat (b_sector (bufs s i)))"
  shows "bcache_inv (s\<lparr>procs := P, bufs := (bufs s)(b := q), lru := L, memdisk := M, dtrace := T\<rparr>)"
proof -
  note D = bcacheD [OF assms(1)]
  have "i = j" if "i < 10" "j < 10" "b_valid (((bufs s)(b := q)) i)" "b_valid (((bufs s)(b := q)) j)"
      "b_sector (((bufs s)(b := q)) i) = b_sector (((bufs s)(b := q)) j)" for i j
  proof (cases "i = b \<or> j = b")
    case True
    then show ?thesis using that assms(8) [of i] assms(8) [of j] by (auto split: if_splits)
  next
    case False
    then show ?thesis using that by (intro D(4)) auto
  qed
  moreover have "b_data (((bufs s)(b := q)) i) = M (unat (b_sector (((bufs s)(b := q)) i)))"
    if "i < 10" "b_valid (((bufs s)(b := q)) i)" "\<not> b_busy (((bufs s)(b := q)) i)" "\<not> b_dirty (((bufs s)(b := q)) i)" for i
    using that assms(9) assms(12) [of i] D(8) [of i] by (cases "i = b") simp_all
  moreover have "b_valid (((bufs s)(b := q)) i) \<longleftrightarrow> b_dev (((bufs s)(b := q)) i) = 1" if "i < 10" for i
    using that assms(5) D(5) [of i] by (cases "i = b") simp_all
  moreover have "unat (b_sector (((bufs s)(b := q)) i)) < disksize s \<and> length (b_data (((bufs s)(b := q)) i)) = 512"
    if "i < 10" "b_valid (((bufs s)(b := q)) i)" for i
    using that assms(6,7) D(6,7) [of i] by (cases "i = b") simp_all
  moreover have "b_valid (((bufs s)(b := q)) i)"
    if "i < 10" "b_busy (((bufs s)(b := q)) i) \<or> b_dirty (((bufs s)(b := q)) i)" for i
    using that assms(10) D(9,10) [of i] by (cases "i = b") auto
  moreover define t where "t = s\<lparr>procs := P, bufs := (bufs s)(b := q), lru := L, memdisk := M, dtrace := T\<rparr>"
  then have e: "bufs t = (bufs s)(b := q)" "lru t = L" "memdisk t = M" "disksize t = disksize s" by simp_all
  ultimately show ?thesis
    unfolding t_def [symmetric] bcache_inv_def e using assms(3,4,11) D(3) by blast
qed

lemma bcache_upd_buf:
  assumes "bcache_inv s" and "b < 10"
    and "b_valid q \<longleftrightarrow> b_dev q = 1"
    and "b_valid q \<Longrightarrow> unat (b_sector q) < disksize s"
    and "b_valid q \<Longrightarrow> length (b_data q) = 512"
    and "\<And>i. b_valid q \<Longrightarrow> i < 10 \<Longrightarrow> i \<noteq> b \<Longrightarrow> b_valid (bufs s i) \<Longrightarrow> b_sector (bufs s i) \<noteq> b_sector q"
    and "b_valid q \<Longrightarrow> \<not> b_busy q \<Longrightarrow> \<not> b_dirty q \<Longrightarrow> b_data q = memdisk s (unat (b_sector q))"
    and "b_busy q \<or> b_dirty q \<Longrightarrow> b_valid q"
  shows "bcache_inv (s\<lparr>bufs := (bufs s)(b := q)\<rparr>)"
  using bcache_upd [OF assms(1,2) bcacheD(1,2) [OF assms(1)] assms(3-8) bcacheD(11) [OF assms(1)] refl, where P = "procs s" and T = "dtrace s"]
  by simp

lemma iderw_read:
  assumes "b_busy (bufs s b)" "\<not> b_valid (bufs s b)" "\<not> b_dirty (bufs s b)" "b_dev (bufs s b) = 1"
    and "unat (b_sector (bufs s b)) < disksize s"
  shows "iderw b s = Ret () (s\<lparr>bufs := (bufs s)(b := (bufs s b)\<lparr>b_data := memdisk s (unat (b_sector (bufs s b))), b_valid := True\<rparr>)\<rparr>)"
  using assms by (simp add: iderw_def upd_buf_def)

lemma bread_hit:
  assumes "bcache_inv s" and "d < disksize s" and "cached s d = Some b" and "\<not> b_busy (bufs s b)"
  shows "bread 1 (word_of_nat d) s = Ret b (s\<lparr>bufs := (bufs s)(b := (bufs s b)\<lparr>b_busy := True\<rparr>)\<rparr>)"
  using assms cached_iff [OF assms(1), of d b]
  by (simp add: bread_def bget_def find_sector upd_buf_def)

lemma bread_miss:
  assumes "bcache_inv s" and "d < disksize s" and "cached s d = None"
    and "find_buf (\<lambda>q. \<not> b_busy q \<and> \<not> b_dirty q) (rev (lru s)) (bufs s) = Some b"
  shows "bread 1 (word_of_nat d) s = Ret b (s\<lparr>bufs := (bufs s)(b := (bufs s b)\<lparr>b_dev := 1,
     b_sector := word_of_nat d, b_busy := True, b_dirty := False, b_data := memdisk s d, b_valid := True\<rparr>)\<rparr>)"
proof -
  define t where "t = s\<lparr>bufs := (bufs s)(b := (bufs s b)\<lparr>b_dev := 1, b_sector := word_of_nat d, b_busy := True,
     b_valid := False, b_dirty := False\<rparr>)\<rparr>"
  have u: "unat (word_of_nat d :: uint) = d"
    by (rule unat_of_nat_32) (use assms(2) bcacheD(3) [OF assms(1)] in simp)
  have g: "bget 1 (word_of_nat d) s = Ret b t"
    using assms by (simp add: bget_def find_sector upd_buf_def t_def)
  have "iderw b t = Ret () (t\<lparr>bufs := (bufs t)(b := (bufs t b)\<lparr>b_data := memdisk t (unat (b_sector (bufs t b))), b_valid := True\<rparr>)\<rparr>)"
    by (rule iderw_read) (use u assms(2) in \<open>simp_all add: t_def\<close>)
  then show ?thesis using g by (simp add: bread_def) (simp add: t_def u)
qed

lemma bio_frame_refl: "bio_frame s s"
  unfolding bio_frame_def by (rule exI [of _ "procs s"], rule exI [of _ "bufs s"], rule exI [of _ "lru s"],
    rule exI [of _ "memdisk s"], rule exI [of _ "dtrace s"]) simp

lemma bio_frame_trans: "bio_frame s t \<Longrightarrow> bio_frame t u \<Longrightarrow> bio_frame s u"
  unfolding bio_frame_def by (elim exE) (simp, blast)

lemma bio_frame_upd: "bio_frame s (s\<lparr>procs := P, bufs := B, lru := L, memdisk := M, dtrace := T\<rparr>)"
  unfolding bio_frame_def by blast

lemma bio_frame_bufs: "bio_frame s (s\<lparr>bufs := B\<rparr>)"
  using bio_frame_upd [where s = s and P = "procs s" and B = B and L = "lru s" and M = "memdisk s" and T = "dtrace s"] by simp

lemma held_upd:
  "b < 10 \<Longrightarrow> held (s\<lparr>bufs := (bufs s)(b := q)\<rparr>) = (held s)(b := if b_busy q then Some (unat (b_sector q)) else None)"
  by (rule ext) (simp add: held_def)

lemma dirty_same:
  assumes "\<And>i. i < 10 \<Longrightarrow> b_dirty (bufs s' i) = b_dirty (bufs s i) \<and> (b_dirty (bufs s i) \<longrightarrow> b_sector (bufs s' i) = b_sector (bufs s i))"
  shows "dirty s' = dirty s"
  unfolding dirty_def using assms by auto metis+

text \<open>A read of a cached sector holds its buffer.\<close>

lemma bread_abs_hit:
  assumes "bcache_inv s" and "d < disksize s" and "d \<notin> ran (held s)"
    and Some: "cached s d = Some b"
  shows "\<exists>b s'. bread 1 (word_of_nat d) s = Ret b s' \<and> bcache_inv s' \<and> bio_frame s s' \<and> held s b = None
    \<and> abs_bio s' = (abs_bio s)\<lparr>a_held := (held s)(b \<mapsto> d)\<rparr>"
proof -
  have b: "b < 10" "b_valid (bufs s b)" "unat (b_sector (bufs s b)) = d" using Some by (simp_all add: cached_iff [OF assms(1)])
  have nb: "\<not> b_busy (bufs s b)"
    using assms(3) b ranI [of "held s" b d] by (auto simp: held_def)
  define s' where "s' = s\<lparr>bufs := (bufs s)(b := (bufs s b)\<lparr>b_busy := True\<rparr>)\<rparr>"
  have i: "bcache_inv s'" unfolding s'_def
    by (rule bcache_upd_buf [OF assms(1) b(1)])
       (use b bcacheD(5-7) [OF assms(1) b(1)] bcacheD(4) [OF assms(1) b(1)] in \<open>auto, metis\<close>)
  have c: "cached s' x = cached s x" for x
    by (rule cached_cong [OF assms(1) i]) (simp add: s'_def)
  have "view s' = view s"
    by (rule ext) (simp add: view_def c, simp add: s'_def split: option.split)
  moreover have "held s' = (held s)(b \<mapsto> d)" unfolding s'_def by (simp add: held_upd b)
  moreover have "dirty s' = dirty s" by (rule dirty_same) (simp add: s'_def)
  ultimately have "abs_bio s' = (abs_bio s)\<lparr>a_held := (held s)(b \<mapsto> d)\<rparr>" by (simp add: abs_bio_def s'_def)
  then show ?thesis
    using bread_hit [OF assms(1,2) Some nb] i nb bio_frame_bufs
    by (intro exI [of _ b] exI [of _ s']) (auto simp: s'_def held_def)
qed

text \<open>A clean, idle buffer that is refilled from the disk changes the contents of no sector.\<close>

lemma view_refill:
  assumes "bcache_inv s" and "b < 10" "\<not> b_busy (bufs s b)" "\<not> b_dirty (bufs s b)"
    and None: "cached s d = None" and u: "unat (word_of_nat d :: uint) = d"
  defines "s' \<equiv> s\<lparr>bufs := (bufs s)(b := (bufs s b)\<lparr>b_dev := 1,
     b_sector := word_of_nat d, b_busy := True, b_dirty := False, b_data := memdisk s d, b_valid := True\<rparr>)\<rparr>"
  assumes i: "bcache_inv s'"
  shows "view s' x = view s x"
proof (cases "x = d")
  case True
  have "cached s' d = Some b" using assms(2) u by (simp add: cached_iff [OF i]) (simp add: s'_def u)
  then show ?thesis using True by (simp add: view_def None) (simp add: s'_def)
next
  case xd: False
  have o: "c \<noteq> b \<Longrightarrow> bufs s' c = bufs s c" for c by (simp add: s'_def)
  show ?thesis
  proof (cases "cached s' x")
    case (Some c)
    then have c: "c < 10" "b_valid (bufs s' c)" "unat (b_sector (bufs s' c)) = x" by (simp_all add: cached_iff [OF i])
    with xd u have "c \<noteq> b" by (auto simp: s'_def)
    then have "cached s x = Some c" using c o by (simp add: cached_iff [OF assms(1)])
    then show ?thesis using Some \<open>c \<noteq> b\<close> o by (simp add: view_def)
  next
    case N: None
    then have m: "view s' x = memdisk s x" by (simp add: view_def) (simp add: s'_def)
    show ?thesis
    proof (cases "cached s x")
      case (Some c)
      then have c: "c < 10" "b_valid (bufs s c)" "unat (b_sector (bufs s c)) = x" by (simp_all add: cached_iff [OF assms(1)])
      then have "c = b" using N o [of c] unfolding cached_None [OF i] by metis
      then show ?thesis using m Some assms(2-4) c bcacheD(8) [OF assms(1,2)] by (simp add: view_def)
    qed (simp add: m view_uncached)
  qed
qed

lemma bread_abs:
  assumes "bcache_inv s" and "d < disksize s" and "d \<notin> ran (held s)"
    and "d \<in> dirty s \<or> card (ran (held s) \<union> dirty s) < 10"
  shows "\<exists>b s'. bread 1 (word_of_nat d) s = Ret b s' \<and> bcache_inv s' \<and> bio_frame s s' \<and> held s b = None
    \<and> abs_bio s' = (abs_bio s)\<lparr>a_held := (held s)(b \<mapsto> d)\<rparr>"
proof (cases "cached s d")
  case (Some b)
  then show ?thesis by (rule bread_abs_hit [OF assms(1-3)])
next
  case None
  then have nd: "d \<notin> dirty s" using bcacheD(10) [OF assms(1)] by (auto simp: dirty_def cached_None [OF assms(1)])
  then obtain c where "c < 10" "\<not> b_busy (bufs s c) \<and> \<not> b_dirty (bufs s c)"
    using spare_exists [OF assms(1)] assms(4) by blast
  then obtain b where f: "find_buf (\<lambda>q. \<not> b_busy q \<and> \<not> b_dirty q) (rev (lru s)) (bufs s) = Some b"
    using find_buf_None [of "\<lambda>q. \<not> b_busy q \<and> \<not> b_dirty q" "rev (lru s)" "bufs s"] bcacheD(2) [OF assms(1)]
    by (cases "find_buf (\<lambda>q. \<not> b_busy q \<and> \<not> b_dirty q) (rev (lru s)) (bufs s)") auto
  then have b: "b < 10" "\<not> b_busy (bufs s b)" "\<not> b_dirty (bufs s b)"
    using find_buf_Some [OF f] bcacheD(2) [OF assms(1)] by auto
  have u: "unat (word_of_nat d :: uint) = d"
    by (rule unat_of_nat_32) (use assms(2) bcacheD(3) [OF assms(1)] in simp)
  define s' where "s' = s\<lparr>bufs := (bufs s)(b := (bufs s b)\<lparr>b_dev := 1,
     b_sector := word_of_nat d, b_busy := True, b_dirty := False, b_data := memdisk s d, b_valid := True\<rparr>)\<rparr>"
  have i: "bcache_inv s'" unfolding s'_def
    by (rule bcache_upd_buf [OF assms(1) b(1)])
       (use u assms(2) bcacheD(11) [OF assms(1)] None cached_None [OF assms(1)] in auto)
  have "view s' x = view s x" for x
    using view_refill [OF assms(1) b None u] i unfolding s'_def by blast
  moreover have "held s' = (held s)(b \<mapsto> d)" unfolding s'_def by (simp add: held_upd b u)
  moreover have "dirty s' = dirty s" by (rule dirty_same) (simp add: s'_def b)
  ultimately have "abs_bio s' = (abs_bio s)\<lparr>a_held := (held s)(b \<mapsto> d)\<rparr>"
    by (simp add: abs_bio_def s'_def fun_eq_iff)
  then show ?thesis
    using bread_miss [OF assms(1,2) None f] i b bio_frame_bufs
    by (intro exI [of _ b] exI [of _ s']) (auto simp: s'_def held_def)
qed

text \<open>
  An update of a held buffer that keeps its sector and its flags of validity and holding; \<open>M\<close> is the
  disk after it.
\<close>

lemma held_buf_upd:
  assumes "bcache_inv s" and "held s b = Some d"
    and q: "b_valid q" "b_dev q = 1" "b_sector q = b_sector (bufs s b)" "b_busy q" "length (b_data q) = 512"
    and M: "M = memdisk s \<or> M = (memdisk s)(d := b_data q)"
    and s'_def: "s' = s\<lparr>bufs := (bufs s)(b := q), memdisk := M, dtrace := T\<rparr>"
  shows "bcache_inv s'" and "view s' = (view s)(d := b_data q)" and "held s' = held s"
    and "dirty s' = (if b_dirty q then insert d (dirty s) else dirty s - {d})"
    and "bio_frame s s'"
proof -
  note h = held_Some [OF assms(1,2)]
  have e: "s' = s\<lparr>procs := procs s, bufs := (bufs s)(b := q), lru := lru s, memdisk := M, dtrace := T\<rparr>"
    unfolding s'_def by simp
  have other: "unat (b_sector (bufs s i)) \<noteq> d" if "i < 10" "i \<noteq> b" "b_valid (bufs s i)" for i
    using that h bcacheD(4) [OF assms(1), of i b] by (auto simp: word_unat_eq_iff)
  show i: "bcache_inv s'" unfolding e
    by (rule bcache_upd [OF assms(1) h(1) bcacheD(1,2) [OF assms(1)]])
       (use q M h other bcacheD(11) [OF assms(1)] in \<open>auto simp: word_unat_eq_iff\<close>)
  have c: "cached s' x = cached s x" for x
    by (rule cached_cong [OF assms(1) i]) (simp add: s'_def q h)
  show "view s' = (view s)(d := b_data q)"
  proof
    fix x
    show "view s' x = ((view s)(d := b_data q)) x"
    proof (cases "x = d")
      case True
      then show ?thesis by (simp add: view_def c h) (simp add: s'_def)
    next
      case False
      have "cached s x \<noteq> Some b" using h(4) False by (auto simp: cached_iff [OF assms(1)])
      then show ?thesis using False M
        by (simp add: view_def c) (auto simp: s'_def split: option.split)
    qed
  qed
  show "held s' = held s" by (rule ext) (simp add: held_def s'_def q h)
  show "dirty s' = (if b_dirty q then insert d (dirty s) else dirty s - {d})"
  proof (rule set_eqI)
    fix x
    have "x \<in> dirty s' \<longleftrightarrow> (b_dirty q \<and> x = d) \<or> (\<exists>i<10. i \<noteq> b \<and> b_dirty (bufs s i) \<and> unat (b_sector (bufs s i)) = x)"
      using h(1,4) q(3) by (auto simp: dirty_def s'_def split: if_splits)
    moreover have "x \<in> dirty s \<longleftrightarrow> (b_dirty (bufs s b) \<and> x = d) \<or> (\<exists>i<10. i \<noteq> b \<and> b_dirty (bufs s i) \<and> unat (b_sector (bufs s i)) = x)"
      using h(1,4) by (auto simp: dirty_def)
    moreover have "\<not> (\<exists>i<10. i \<noteq> b \<and> b_dirty (bufs s i) \<and> unat (b_sector (bufs s i)) = d)"
      using other bcacheD(10) [OF assms(1)] by blast
    ultimately show "x \<in> dirty s' \<longleftrightarrow> x \<in> (if b_dirty q then insert d (dirty s) else dirty s - {d})" by auto
  qed
  show "bio_frame s s'" unfolding e by (rule bio_frame_upd)
qed

lemma set_data_abs:
  assumes "bcache_inv s" and "held s b = Some d" and "length v = 512"
  shows "\<exists>s'. set_data b v s = Ret () s' \<and> bcache_inv s' \<and> bio_frame s s'
    \<and> abs_bio s' = (abs_bio s)\<lparr>a_view := (view s)(d := v)\<rparr>"
proof -
  note h = held_Some [OF assms(1,2)]
  note U = held_buf_upd [OF assms(1,2) _ _ _ _ _ _ refl, where q = "(bufs s b)\<lparr>b_data := v\<rparr>" and M = "memdisk s" and T = "dtrace s"]
  have p: "b_dev (bufs s b) = 1" using bcacheD(5) [OF assms(1) h(1)] h(3) by simp
  note d = held_dirty_iff [OF assms(1,2)]
  let ?s = "s\<lparr>bufs := (bufs s)(b := (bufs s b)\<lparr>b_data := v\<rparr>)\<rparr>"
  have "dirty ?s = dirty s" using U(4) h p assms(3) d by (auto simp: insert_absorb)
  then have "abs_bio ?s = (abs_bio s)\<lparr>a_view := (view s)(d := v)\<rparr>"
    using U h p assms(3) by (simp add: abs_bio_def)
  then show ?thesis using U h p assms(3)
    by (intro exI [of _ ?s]) (simp add: set_data_def upd_buf_def)
qed

lemma mark_dirty_abs:
  assumes "bcache_inv s" and "held s b = Some d"
  shows "\<exists>s'. mark_dirty b s = Ret () s' \<and> bcache_inv s' \<and> bio_frame s s'
    \<and> abs_bio s' = (abs_bio s)\<lparr>a_dirty := insert d (dirty s)\<rparr>"
proof -
  note h = held_Some [OF assms(1,2)]
  note U = held_buf_upd [OF assms(1,2) _ _ _ _ _ _ refl, where q = "(bufs s b)\<lparr>b_dirty := True\<rparr>" and M = "memdisk s" and T = "dtrace s"]
  have p: "b_dev (bufs s b) = 1" "length (b_data (bufs s b)) = 512" "view s d = b_data (bufs s b)"
    using bcacheD(5,7) [OF assms(1) h(1)] h by (simp_all add: view_cached)
  let ?s = "s\<lparr>bufs := (bufs s)(b := (bufs s b)\<lparr>b_dirty := True\<rparr>)\<rparr>"
  have "(view s)(d := b_data (bufs s b)) = view s" using p(3) by auto
  then have "abs_bio ?s = (abs_bio s)\<lparr>a_dirty := insert d (dirty s)\<rparr>"
    using U h p by (simp add: abs_bio_def)
  then show ?thesis using U h p by (intro exI [of _ ?s]) (simp add: mark_dirty_def upd_buf_def)
qed

lemma bwrite_abs:
  assumes "bcache_inv s" and "held s b = Some d"
  shows "\<exists>s'. bwrite b s = Ret () s' \<and> bcache_inv s' \<and> bio_frame s s'
    \<and> abs_bio s' = (abs_bio s)\<lparr>a_disk := (memdisk s)(d := view s d), a_dirty := dirty s - {d},
        a_trace := dtrace s @ [(d, view s d)]\<rparr>"
proof -
  note h = held_Some [OF assms(1,2)]
  have p: "b_dev (bufs s b) = 1" "length (b_data (bufs s b)) = 512" "view s d = b_data (bufs s b)"
    using bcacheD(5,7) [OF assms(1) h(1)] h by (simp_all add: view_cached)
  let ?q = "(bufs s b)\<lparr>b_dirty := False, b_valid := True\<rparr>"
  let ?M = "(memdisk s)(d := view s d)" and ?T = "dtrace s @ [(d, view s d)]"
  note U = held_buf_upd [OF assms(1,2) _ _ _ _ _ _ refl, where q = ?q and M = ?M and T = ?T]
  let ?s = "s\<lparr>bufs := (bufs s)(b := ?q), memdisk := ?M, dtrace := ?T\<rparr>"
  have "(view s)(d := b_data (bufs s b)) = view s" using p(3) by auto
  then have "abs_bio ?s = (abs_bio s)\<lparr>a_disk := ?M, a_dirty := dirty s - {d}, a_trace := ?T\<rparr>"
    using U h p by (simp add: abs_bio_def)
  moreover have "bwrite b s = Ret () ?s"
    using h p by (simp add: bwrite_def iderw_def upd_buf_def disk_write_def)
  ultimately show ?thesis using U h p by (intro exI [of _ ?s]) simp
qed

lemma brelse_abs:
  assumes "bcache_inv s" and "held s b = Some d" and "d \<in> dirty s \<or> view s d = memdisk s d"
  shows "\<exists>s'. brelse b s = Ret () s' \<and> bcache_inv s' \<and> bio_frame s s'
    \<and> abs_bio s' = (abs_bio s)\<lparr>a_held := (held s)(b := None)\<rparr>"
proof -
  note h = held_Some [OF assms(1,2)]
  have p: "b_dev (bufs s b) = 1" "length (b_data (bufs s b)) = 512" "view s d = b_data (bufs s b)"
    using bcacheD(5,7) [OF assms(1) h(1)] h by (simp_all add: view_cached)
  note dd = held_dirty_iff [OF assms(1,2)]
  define s' where "s' = s\<lparr>procs := wake_all (ChBuf b) (procs s), bufs := (bufs s)(b := (bufs s b)\<lparr>b_busy := False\<rparr>),
     lru := b # remove1 b (lru s), memdisk := memdisk s, dtrace := dtrace s\<rparr>"
  have i: "bcache_inv s'" unfolding s'_def
    by (rule bcache_upd [OF assms(1) h(1)])
       (use h p dd assms(3) bcacheD(1,2,4,11) [OF assms(1)] in \<open>auto simp: distinct_remove1\<close>)
  have c: "cached s' x = cached s x" for x by (rule cached_cong [OF assms(1) i]) (simp add: s'_def)
  have "view s' = view s" by (rule ext) (simp add: view_def c, simp add: s'_def split: option.split)
  moreover have "held s' = (held s)(b := None)" by (rule ext) (simp add: held_def s'_def)
  moreover have "dirty s' = dirty s" by (rule dirty_same) (simp add: s'_def)
  ultimately have "abs_bio s' = (abs_bio s)\<lparr>a_held := (held s)(b := None)\<rparr>" by (simp add: abs_bio_def s'_def)
  moreover have "brelse b s = Ret () s'"
    using h by (simp add: brelse_def upd_buf_def wakeup_def wakeup1_run s'_def)
  moreover have "bio_frame s s'" unfolding s'_def by (rule bio_frame_upd)
  ultimately show ?thesis using i by blast
qed

section \<open>The cache implements the contract\<close>

interpretation bc: block_store bcache_inv bio_frame abs_bio 10 "\<lambda>d. bread 1 (word_of_nat d)" buf_data set_data bwrite mark_dirty brelse
proof (unfold_locales, goal_cases)
  case (3 s d)
  then show ?case
  proof (cases "cached s d")
    case (Some b)
    then show ?thesis using 3 bcacheD(7) [OF 3(1), of b] cached_iff [OF 3(1), of d b] by (simp add: view_cached)
  qed (use bcacheD(11) [OF 3(1)] 3 in \<open>simp add: view_def\<close>)
next
  case (4 s d)
  show ?case
  proof (cases "cached s d")
    case (Some b)
    then have b: "b < 10" "b_valid (bufs s b)" "unat (b_sector (bufs s b)) = d" by (simp_all add: cached_iff [OF 4(1)])
    then have "held s b = None" using 4(2) ranI [of "held s" b d] by (auto simp: held_def split: if_splits)
    then have "\<not> b_busy (bufs s b)" using b by (auto simp: held_def split: if_splits)
    moreover have "\<not> b_dirty (bufs s b)" using 4(3) b by (auto simp: dirty_def)
    ultimately show ?thesis using Some b bcacheD(8) [OF 4(1) b(1,2)] by (simp add: view_def)
  qed (simp add: view_def)
next
  case (6 s b d)
  then show ?case using held_Some(6) [OF 6(1), of b d] by (simp add: buf_data_def view_def)
qed (simp_all add: bio_frame_refl bread_abs set_data_abs bwrite_abs mark_dirty_abs brelse_abs, rule bio_frame_trans)

text \<open>At start-up no buffer holds a sector.\<close>

lemma binit_inv:
  assumes "\<forall>b<10. \<not> b_busy (bufs s b) \<and> \<not> b_valid (bufs s b) \<and> \<not> b_dirty (bufs s b)"
    and "disksize s \<le> 2 ^ 23" and "\<forall>d<disksize s. length (memdisk s d) = 512"
  shows "\<exists>s'. binit s = Ret () s' \<and> bcache_inv s' \<and> bio_frame s s'
    \<and> abs_bio s' = \<lparr>a_size = disksize s, a_view = memdisk s, a_disk = memdisk s, a_held = Map.empty, a_dirty = {}, a_trace = dtrace s\<rparr>"
proof -
  define s' where "s' = s\<lparr>procs := procs s, bufs := (\<lambda>b. if b < 10 then (bufs s b)\<lparr>b_dev := -1\<rparr> else bufs s b), lru := rev [0..<10],
     memdisk := memdisk s, dtrace := dtrace s\<rparr>"
  have "binit s = Ret () s'" by (simp add: binit_def s'_def)
  moreover have i: "bcache_inv s'"
    unfolding bcache_inv_def s'_def using assms by (auto simp del: upt_rec_numeral)
  moreover have "bio_frame s s'" unfolding s'_def by (rule bio_frame_upd)
  moreover have "cached s' d = None" for d
    unfolding cached_None [OF i] using assms(1) by (simp add: s'_def)
  then have "view s' = memdisk s" by (intro ext) (simp add: view_def, simp add: s'_def)
  moreover have "held s' = Map.empty" "dirty s' = {}" using assms(1) by (auto simp: held_def dirty_def s'_def)
  ultimately show ?thesis by (intro exI [of _ s']) (simp add: abs_bio_def, simp add: s'_def)
qed

section \<open>Properties\<close>

text \<open>
  C38: reading a sector that nobody holds, while a buffer is left, returns a buffer held by the caller with
  the contents of the sector as last written by the kernel; recycling a buffer for it loses no data: the
  disk and the contents of every sector stay as they were.
\<close>

theorem bread_correct:
  assumes "bcache_inv s" and "d < disksize s" and "d \<notin> ran (held s)"
    and "d \<in> dirty s \<or> card (ran (held s) \<union> dirty s) < 10"
  shows "\<exists>b s'. bread 1 (word_of_nat d) s = Ret b s' \<and> bcache_inv s' \<and> held s' = (held s)(b \<mapsto> d) \<and> held s b = None
    \<and> b_data (bufs s' b) = view s d \<and> view s' = view s \<and> memdisk s' = memdisk s \<and> dirty s' = dirty s"
proof -
  obtain b s' where s': "bread 1 (word_of_nat d) s = Ret b s'" "bcache_inv s'" "held s b = None"
    "abs_bio s' = (abs_bio s)\<lparr>a_held := (held s)(b \<mapsto> d)\<rparr>" using bread_abs [OF assms] by blast
  then have e: "view s' = view s" "memdisk s' = memdisk s" "dirty s' = dirty s" "held s' = (held s)(b \<mapsto> d)"
    by (simp_all add: abs_bio_def)
  moreover have "b_data (bufs s' b) = view s' d"
    using held_Some(6) [OF s'(2), of b d] e(4) by (simp add: view_cached)
  ultimately show ?thesis using s'(1-3) by (intro exI [of _ b] exI [of _ s']) simp
qed

text \<open>
  The cycle read, modify, write, release of a sector writes it through to the disk and to nothing
  else, and leaves no buffer held.
\<close>

theorem sector_update_correct:
  assumes "bcache_inv s" and "d < disksize s" and "d \<notin> ran (held s)"
    and "d \<in> dirty s \<or> card (ran (held s) \<union> dirty s) < 10" and "length (f (view s d)) = 512"
  shows "\<exists>s'. kbind (bread 1 (word_of_nat d)) (\<lambda>b. kbind (buf_data b) (\<lambda>v. kbind (set_data b (f v)) (\<lambda>_.
       kbind (bwrite b) (\<lambda>_. brelse b)))) s = Ret () s'
    \<and> bcache_inv s' \<and> memdisk s' = (memdisk s)(d := f (view s d)) \<and> view s' = (view s)(d := f (view s d))
    \<and> held s' = held s"
proof -
  obtain s' where s': "kbind (bread 1 (word_of_nat d)) (\<lambda>b. kbind (buf_data b) (\<lambda>v. kbind (set_data b (f v)) (\<lambda>_.
       kbind (bwrite b) (\<lambda>_. brelse b)))) s = Ret () s'" "bcache_inv s'"
    "abs_bio s' = (let v = f (view s d) in (abs_bio s)\<lparr>a_view := (view s)(d := v), a_disk := (memdisk s)(d := v),
       a_dirty := dirty s - {d}, a_trace := dtrace s @ [(d, v)]\<rparr>)"
    using bc.write_cycle [of s d f] assms by auto
  then show ?thesis by (intro exI [of _ s']) (simp add: Let_def abs_bio_def)
qed

text \<open>
  When every buffer is held or dirty, reading a sector that is not cached panics: a transaction that
  has modified ten sectors leaves none to read the next one with.
\<close>

theorem bread_no_buffers:
  assumes "bcache_inv s" and "d < disksize s" and "cached s d = None"
    and "\<forall>b<10. b_busy (bufs s b) \<or> b_dirty (bufs s b)"
  shows "bread 1 (word_of_nat d) s = Panic ''bget: no buffers''"
proof -
  have "find_buf (\<lambda>q. \<not> b_busy q \<and> \<not> b_dirty q) (rev (lru s)) (bufs s) = None"
    using assms(4) bcacheD(2) [OF assms(1)] by (auto simp: find_buf_None)
  then show ?thesis using assms(1-3) by (simp add: bread_def bget_def find_sector)
qed

text \<open>A disk of 16 sectors and an empty cache to evaluate the properties on, and a cache full of dirty sectors.\<close>

definition ex_buf :: "bool \<Rightarrow> uint \<Rightarrow> buf" where
  "ex_buf v d = \<lparr>b_busy = False, b_valid = v, b_dirty = v, b_dev = (if v then 1 else -1), b_sector = d, b_data = replicate 512 7\<rparr>"

definition ex_bio :: "(nat \<Rightarrow> buf) \<Rightarrow> bio" where
  "ex_bio B = ptable.extend ex_boot (bio.fields B [0..<10] (\<lambda>d. replicate 512 (word_of_nat d)) 16 [])"

lemma ex_bio_sel:
  "bufs (ex_bio B) = B" "lru (ex_bio B) = [0..<10]" "disksize (ex_bio B) = 16"
  "memdisk (ex_bio B) = (\<lambda>d. replicate 512 (word_of_nat d))"
  by (simp_all add: ex_bio_def ptable.defs bio.defs)

lemma ex_bio_empty:
  "bcache_inv (ex_bio (\<lambda>_. ex_buf False 0))" "held (ex_bio (\<lambda>_. ex_buf False 0)) = Map.empty" "dirty (ex_bio (\<lambda>_. ex_buf False 0)) = {}"
  "view (ex_bio (\<lambda>_. ex_buf False 0)) d = replicate 512 (word_of_nat d)"
proof -
  show i: "bcache_inv (ex_bio (\<lambda>_. ex_buf False 0))"
    unfolding bcache_inv_def ex_bio_sel by (simp add: ex_buf_def del: upt_rec_numeral)
  show "held (ex_bio (\<lambda>_. ex_buf False 0)) = Map.empty" "dirty (ex_bio (\<lambda>_. ex_buf False 0)) = {}"
    by (auto simp: held_def dirty_def ex_bio_sel ex_buf_def)
  show "view (ex_bio (\<lambda>_. ex_buf False 0)) d = replicate 512 (word_of_nat d)"
    by (subst view_uncached) (unfold cached_None [OF i] ex_bio_sel, simp_all add: ex_buf_def)
qed

lemma ex_bio_full: "bcache_inv (ex_bio (\<lambda>b. ex_buf True (word_of_nat b)))"
  unfolding bcache_inv_def ex_bio_sel by (auto simp: ex_buf_def word_unat_eq_iff unat_of_nat_32 simp del: upt_rec_numeral)

theorem bread_correct_witness:
  "\<exists>b s'. bread 1 (word_of_nat 5) (ex_bio (\<lambda>_. ex_buf False 0)) = Ret b s' \<and> b_data (bufs s' b) = replicate 512 5"
  using bread_correct [of "ex_bio (\<lambda>_. ex_buf False 0)" 5] by (auto simp: ex_bio_empty ex_bio_sel)

theorem sector_update_correct_witness:
  "\<exists>s'. kbind (bread 1 (word_of_nat 5)) (\<lambda>b. kbind (buf_data b) (\<lambda>v. kbind (set_data b (rev v)) (\<lambda>_.
       kbind (bwrite b) (\<lambda>_. brelse b)))) (ex_bio (\<lambda>_. ex_buf False 0)) = Ret () s' \<and> memdisk s' 5 = rev (replicate 512 5)"
  using sector_update_correct [of "ex_bio (\<lambda>_. ex_buf False 0)" 5 rev] by (auto simp: ex_bio_empty ex_bio_sel)

theorem bread_no_buffers_witness:
  "bread 1 (word_of_nat 12) (ex_bio (\<lambda>b. ex_buf True (word_of_nat b))) = Panic ''bget: no buffers''"
  by (rule bread_no_buffers [OF ex_bio_full])
     (unfold cached_None [OF ex_bio_full] ex_bio_sel, simp_all add: ex_buf_def unat_of_nat_32)

end
