(* ===== verification/Layout.thy ===== *)
theory Layout
  imports Prelude
begin

unbundle bit_operations_syntax

text \<open>
  The on-disk format (\<^verbatim>\<open>include/fs.h\<close>): little-endian fields of a block, the super block, disk inodes
  and directory entries, with the round trips between the structures and their bytes.
\<close>

section \<open>Bytes\<close>

definition splice :: "byte list \<Rightarrow> nat \<Rightarrow> byte list \<Rightarrow> byte list" where
  "splice v off bs = take off v @ bs @ drop (off + length bs) v"

definition bytes32 :: "uint \<Rightarrow> byte list" where
  "bytes32 w = [ucast w, ucast (drop_bit 8 w), ucast (drop_bit 16 w), ucast (drop_bit 24 w)]"

definition bytes16 :: "uint16 \<Rightarrow> byte list" where
  "bytes16 w = [ucast w, ucast (drop_bit 8 w)]"

definition get32 :: "byte list \<Rightarrow> nat \<Rightarrow> uint" where
  "get32 v p = ucast (v ! p) OR push_bit 8 (ucast (v ! (p + 1)))
     OR push_bit 16 (ucast (v ! (p + 2))) OR push_bit 24 (ucast (v ! (p + 3)))"

definition get16 :: "byte list \<Rightarrow> nat \<Rightarrow> uint16" where
  "get16 v p = ucast (v ! p) OR push_bit 8 (ucast (v ! (p + 1)))"

definition put32 :: "byte list \<Rightarrow> nat \<Rightarrow> uint \<Rightarrow> byte list" where
  "put32 v p w = splice v p (bytes32 w)"

section \<open>Structures\<close>

record superblock =
  sb_size :: uint
  sb_nblocks :: uint
  sb_ninodes :: uint
  sb_nlog :: uint

definition dec_super :: "byte list \<Rightarrow> superblock" where
  "dec_super v = \<lparr>sb_size = get32 v 0, sb_nblocks = get32 v 4, sb_ninodes = get32 v 8, sb_nlog = get32 v 12\<rparr>"

definition enc_super :: "superblock \<Rightarrow> byte list" where
  "enc_super b = bytes32 (sb_size b) @ bytes32 (sb_nblocks b) @ bytes32 (sb_ninodes b) @ bytes32 (sb_nlog b)"

abbreviation (input) NDIRECT :: nat where "NDIRECT \<equiv> 12"
abbreviation (input) NINDIRECT :: nat where "NINDIRECT \<equiv> 128"
abbreviation (input) IPB :: nat where "IPB \<equiv> 8"
abbreviation (input) BPB :: nat where "BPB \<equiv> 4096"
abbreviation (input) DIRSIZ :: nat where "DIRSIZ \<equiv> 14"

record dinode =
  d_type :: uint16
  d_major :: uint16
  d_minor :: uint16
  d_nlink :: uint16
  d_size :: uint
  d_addrs :: "uint list"

definition dec_dinode :: "byte list \<Rightarrow> nat \<Rightarrow> dinode" where
  "dec_dinode v p = \<lparr>d_type = get16 v p, d_major = get16 v (p + 2), d_minor = get16 v (p + 4),
     d_nlink = get16 v (p + 6), d_size = get32 v (p + 8),
     d_addrs = map (\<lambda>i. get32 v (p + 12 + 4 * i)) [0..<NDIRECT + 1]\<rparr>"

definition enc_dinode :: "dinode \<Rightarrow> byte list" where
  "enc_dinode d = bytes16 (d_type d) @ bytes16 (d_major d) @ bytes16 (d_minor d) @ bytes16 (d_nlink d)
     @ bytes32 (d_size d) @ concat (map bytes32 (d_addrs d))"

definition IBLOCK :: "nat \<Rightarrow> nat" where "IBLOCK i = i div IPB + 2"

definition BBLOCK :: "nat \<Rightarrow> nat \<Rightarrow> nat" where "BBLOCK b ninodes = b div BPB + ninodes div IPB + 3"

record dirent =
  de_inum :: uint16
  de_name :: "byte list"

definition dec_dirent :: "byte list \<Rightarrow> dirent" where
  "dec_dirent v = \<lparr>de_inum = get16 v 0, de_name = take DIRSIZ (drop 2 v)\<rparr>"

definition enc_dirent :: "dirent \<Rightarrow> byte list" where
  "enc_dirent e = bytes16 (de_inum e) @ de_name e"

section \<open>Round trips\<close>

lemma length_bytes [simp]: "length (bytes32 w) = 4" "length (bytes16 h) = 2"
  by (simp_all add: bytes32_def bytes16_def)

lemma length_splice [simp]: "off + length bs \<le> length v \<Longrightarrow> length (splice v off bs) = length v"
  by (simp add: splice_def)

lemma length_put32 [simp]: "p + 4 \<le> length v \<Longrightarrow> length (put32 v p w) = length v"
  by (simp add: put32_def)

lemma nth_splice:
  "off + length bs \<le> length v \<Longrightarrow> splice v off bs ! k =
     (if off \<le> k \<and> k < off + length bs then bs ! (k - off) else v ! k)"
  unfolding splice_def by (auto simp: nth_append not_le)

lemma get32_cong: "(\<And>k. k < 4 \<Longrightarrow> v ! (p + k) = v' ! (p' + k)) \<Longrightarrow> get32 v p = get32 v' p'"
proof -
  assume h: "\<And>k. k < 4 \<Longrightarrow> v ! (p + k) = v' ! (p' + k)"
  show "get32 v p = get32 v' p'"
    unfolding get32_def using h [of 0] h [of 1] h [of 2] h [of 3] by simp
qed

lemma get32_bytes: "get32 (bytes32 w) 0 = w"
proof (rule bit_word_eqI)
  fix n assume n: "n < LENGTH(32)"
  then have "n < 8 \<or> n = 8 + (n - 8) \<and> n - 8 < 8 \<or> n = 16 + (n - 16) \<and> n - 16 < 8 \<or> n = 24 + (n - 24) \<and> n - 24 < 8" by auto
  then show "bit (get32 (bytes32 w) 0) n = bit w n"
    using n by (auto simp: get32_def bytes32_def bit_simps)
qed

lemma get16_cong: "v ! p = v' ! p' \<Longrightarrow> v ! (p + 1) = v' ! (p' + 1) \<Longrightarrow> get16 v p = get16 v' p'"
  unfolding get16_def by simp

lemma get16_bytes: "get16 (bytes16 w) 0 = w"
proof (rule bit_word_eqI)
  fix n assume n: "n < LENGTH(16)"
  then have "n < 8 \<or> n = 8 + (n - 8) \<and> n - 8 < 8" by auto
  then show "bit (get16 (bytes16 w) 0) n = bit w n"
    using n by (auto simp: get16_def bytes16_def bit_simps)
qed

text \<open>Fields of a concatenation of fields.\<close>

lemma get_append:
  "length xs \<le> p \<Longrightarrow> get32 (xs @ ys) p = get32 ys (p - length xs)"
  "length xs \<le> p \<Longrightarrow> get16 (xs @ ys) p = get16 ys (p - length xs)"
  by (auto intro!: get32_cong get16_cong simp: nth_append Suc_diff_le)

lemma get_first:
  "get32 (bytes32 w @ ys) 0 = w" "get16 (bytes16 h @ ys) 0 = h"
  using get32_cong [of "bytes32 w @ ys" 0 "bytes32 w" 0] get16_cong [of "bytes16 h @ ys" 0 "bytes16 h" 0]
  by (simp_all add: get32_bytes get16_bytes nth_append)

text \<open>Fields of a block of which a part was overwritten.\<close>

lemma get_splice_in:
  assumes "off + length bs \<le> length v"
  shows "off \<le> p \<Longrightarrow> p + 4 \<le> off + length bs \<Longrightarrow> get32 (splice v off bs) p = get32 bs (p - off)"
    and "off \<le> p \<Longrightarrow> p + 2 \<le> off + length bs \<Longrightarrow> get16 (splice v off bs) p = get16 bs (p - off)"
  using assms by (auto intro!: get32_cong get16_cong simp: nth_splice Suc_diff_le)

lemma get_splice_out:
  assumes "off + length bs \<le> length v"
  shows "p + 4 \<le> off \<or> off + length bs \<le> p \<Longrightarrow> get32 (splice v off bs) p = get32 v p"
    and "p + 2 \<le> off \<or> off + length bs \<le> p \<Longrightarrow> get16 (splice v off bs) p = get16 v p"
  using assms by (auto intro!: get32_cong get16_cong simp: nth_splice)

lemma get32_put32:
  "p + 4 \<le> length v \<Longrightarrow> get32 (put32 v p w) p = w"
  "p + 4 \<le> length v \<Longrightarrow> q + 4 \<le> p \<or> p + 4 \<le> q \<Longrightarrow> get32 (put32 v p w) q = get32 v q"
  using get_splice_in(1) [of p "bytes32 w" v p] get_splice_out(1) [of p "bytes32 w" v q]
  by (simp_all add: put32_def get32_bytes)

lemma get32_concat:
  "i < length ws \<Longrightarrow> get32 (concat (map bytes32 ws) @ ys) (4 * i) = ws ! i"
proof (induction ws arbitrary: i)
  case (Cons w ws)
  show ?case
  proof (cases i)
    case (Suc j)
    then show ?thesis using Cons by (simp add: get_append)
  qed (simp add: get_first)
qed simp

lemma length_concat_bytes32: "length (concat (map bytes32 ws)) = 4 * length ws"
  by (induction ws) simp_all

lemma length_enc_dinode: "length (d_addrs d) = 13 \<Longrightarrow> length (enc_dinode d) = 64"
  by (simp add: enc_dinode_def length_concat_bytes32)

lemma dec_super_enc: "dec_super (enc_super b @ ys) = b"
  by (simp add: dec_super_def enc_super_def get_append get_first)

lemma dec_dinode_enc:
  assumes "length (d_addrs d) = 13"
  shows "dec_dinode (enc_dinode d) 0 = d"
proof -
  have "map (\<lambda>i. get32 (enc_dinode d) (12 + 4 * i)) [0..<13] = d_addrs d"
  proof (rule nth_equalityI)
    fix i assume "i < length (map (\<lambda>i. get32 (enc_dinode d) (12 + 4 * i)) [0..<13])"
    then have i: "i < 13" by simp
    have "get32 (enc_dinode d) (12 + 4 * i) = get32 (concat (map bytes32 (d_addrs d)) @ []) (4 * i)"
      unfolding enc_dinode_def by (simp add: get_append)
    then show "map (\<lambda>i. get32 (enc_dinode d) (12 + 4 * i)) [0..<13] ! i = d_addrs d ! i"
      using i assms get32_concat [of i "d_addrs d" "[]"] by (simp del: upt_rec_numeral)
  qed (simp add: assms)
  then show ?thesis
    by (simp add: dec_dinode_def del: upt_rec_numeral) (simp add: enc_dinode_def get_append get_first)
qed

lemma dec_dinode_splice_in:
  assumes "off + length bs \<le> length v" and "off \<le> p" and "p + 64 \<le> off + length bs"
  shows "dec_dinode (splice v off bs) p = dec_dinode bs (p - off)"
  unfolding dec_dinode_def using assms by (simp add: get_splice_in Suc_diff_le del: upt_rec_numeral)

lemma dec_dinode_splice_out:
  assumes "off + length bs \<le> length v" and "p + 64 \<le> off \<or> off + length bs \<le> p"
  shows "dec_dinode (splice v off bs) p = dec_dinode v p"
  unfolding dec_dinode_def using assms by (auto simp: get_splice_out simp del: upt_rec_numeral)

text \<open>
  Writing a disk inode into its slot of a block and reading it back gives the inode, and no other slot
  of the block changes; directory entries and the super block survive the same round trip.
\<close>

theorem dinode_slot_roundtrip:
  assumes "length v = 512" and "i < 8" and "length (d_addrs d) = 13"
  shows "dec_dinode (splice v (64 * i) (enc_dinode d)) (64 * i) = d
    \<and> (\<forall>j<8. j \<noteq> i \<longrightarrow> dec_dinode (splice v (64 * i) (enc_dinode d)) (64 * j) = dec_dinode v (64 * j))
    \<and> (length (de_name e) = 14 \<longrightarrow> dec_dirent (enc_dirent e) = e) \<and> dec_super (enc_super b @ drop 16 v) = b"
proof -
  note l = length_enc_dinode [OF assms(3)]
  have "dec_dinode (splice v (64 * i) (enc_dinode d)) (64 * i) = d"
    using assms l by (simp add: dec_dinode_splice_in dec_dinode_enc)
  moreover have "dec_dinode (splice v (64 * i) (enc_dinode d)) (64 * j) = dec_dinode v (64 * j)" if "j < 8" "j \<noteq> i" for j
  proof (rule dec_dinode_splice_out)
    show "64 * j + 64 \<le> 64 * i \<or> 64 * i + length (enc_dinode d) \<le> 64 * j"
      using that assms(2) l by (cases "j < i") auto
  qed (use assms l in simp)
  ultimately show ?thesis
    by (auto simp: dec_super_enc dec_dirent_def enc_dirent_def get_first)
qed

theorem dinode_slot_roundtrip_witness:
  "dec_dinode (splice (replicate 512 0) (64 * 3) (enc_dinode \<lparr>d_type = 2, d_major = 0, d_minor = 0, d_nlink = 1,
      d_size = 700, d_addrs = replicate 13 9\<rparr>)) (64 * 3)
    = \<lparr>d_type = 2, d_major = 0, d_minor = 0, d_nlink = 1, d_size = 700, d_addrs = replicate 13 9\<rparr>"
  using dinode_slot_roundtrip [of "replicate 512 0" 3 "\<lparr>d_type = 2, d_major = 0, d_minor = 0, d_nlink = 1,
      d_size = 700, d_addrs = replicate 13 9\<rparr>"] by simp

end
