(* ===== verification/Log.thy ===== *)
theory Log
  imports Bio Layout
begin

text \<open>
  The redo log (\<^verbatim>\<open>source/log.c\<close>): begin, log a block, commit, recover. The C \<^verbatim>\<open>int\<close> fields of
  \<^verbatim>\<open>struct log\<close> are integers; where the code passes one as an unsigned sector number it is converted to
  a word, and what it reads from the disk is read as a signed 32-bit value. An index into \<^verbatim>\<open>sector[]\<close> out
  of range is a fault.
\<close>

abbreviation (input) LOGSIZE :: nat where "LOGSIZE \<equiv> 10"

record logst = bio +
  log_start :: int
  log_size :: int
  log_busy :: bool
  log_dev :: uint
  lh_n :: int
  lh_sector :: "nat \<Rightarrow> int"

definition readsb :: "uint \<Rightarrow> ('z bio_scheme, superblock) kop" where
  "readsb dev =
     kbind (bread dev 1) (\<lambda>bp.
     kbind (buf_data bp) (\<lambda>v.
     kbind (brelse bp) (\<lambda>_.
     kreturn (dec_super v))))"

text \<open>One access to \<^verbatim>\<open>log.lh.sector[i]\<close>.\<close>

definition get_sector :: "nat \<Rightarrow> ('z logst_scheme, int) kop" where
  "get_sector i = (if i < LOGSIZE then kget (\<lambda>s. lh_sector s i) else fault ''log.lh.sector'')"

definition set_sector :: "nat \<Rightarrow> int \<Rightarrow> ('z logst_scheme, unit) kop" where
  "set_sector i d = (if i < LOGSIZE then kmod (\<lambda>s. s\<lparr>lh_sector := (lh_sector s)(i := d)\<rparr>) else fault ''log.lh.sector'')"

definition install_one :: "nat \<Rightarrow> ('z logst_scheme, unit) kop" where
  "install_one tail =
     kbind (kget log_dev) (\<lambda>dev.
     kbind (kget log_start) (\<lambda>start.
     kbind (bread dev (word_of_int (start + int tail + 1))) (\<lambda>lbuf.
     kbind (get_sector tail) (\<lambda>d.
     kbind (bread dev (word_of_int d)) (\<lambda>dbuf.
     kbind (buf_data lbuf) (\<lambda>v.
     kbind (set_data dbuf v) (\<lambda>_.
     kbind (bwrite dbuf) (\<lambda>_.
     kbind (brelse lbuf) (\<lambda>_.
     brelse dbuf)))))))))"

definition install_trans :: "('z logst_scheme, unit) kop" where
  "install_trans = kbind (kget lh_n) (\<lambda>n. kfor install_one [0..<nat n])"

definition read_head :: "('z logst_scheme, unit) kop" where
  "read_head =
     kbind (kget log_dev) (\<lambda>dev.
     kbind (kget log_start) (\<lambda>start.
     kbind (bread dev (word_of_int start)) (\<lambda>buf.
     kbind (buf_data buf) (\<lambda>v.
     kbind (kmod (\<lambda>s. s\<lparr>lh_n := sint (get32 v 0)\<rparr>)) (\<lambda>_.
     kbind (kget lh_n) (\<lambda>n.
     kbind (kfor (\<lambda>i. set_sector i (sint (get32 v (4 + 4 * i)))) [0..<nat n]) (\<lambda>_.
     brelse buf)))))))"

text \<open>The header block with the in-memory header written over it.\<close>

fun put_sectors :: "(nat \<Rightarrow> int) \<Rightarrow> nat \<Rightarrow> byte list \<Rightarrow> byte list" where
  "put_sectors sec 0 v = v"
| "put_sectors sec (Suc i) v = put32 (put_sectors sec i v) (4 + 4 * i) (word_of_int (sec i))"

definition write_head :: "('z logst_scheme, unit) kop" where
  "write_head =
     kbind (kget log_dev) (\<lambda>dev.
     kbind (kget log_start) (\<lambda>start.
     kbind (bread dev (word_of_int start)) (\<lambda>buf.
     kbind (buf_data buf) (\<lambda>v.
     kbind (kget lh_n) (\<lambda>n.
     kbind (kget lh_sector) (\<lambda>sec.
     kbind (if nat n \<le> LOGSIZE then set_data buf (put_sectors sec (nat n) (put32 v 0 (word_of_int n)))
            else fault ''log.lh.sector'') (\<lambda>_.
     kbind (bwrite buf) (\<lambda>_.
     brelse buf))))))))"

definition recover_from_log :: "('z logst_scheme, unit) kop" where
  "recover_from_log =
     kbind read_head (\<lambda>_.
     kbind install_trans (\<lambda>_.
     kbind (kmod (\<lambda>s. s\<lparr>lh_n := 0\<rparr>)) (\<lambda>_.
     write_head)))"

definition initlog :: "('z logst_scheme, unit) kop" where
  "initlog =
     (if 4 * (LOGSIZE + 1) \<ge> BSIZE then panic ''initlog: too big logheader''
      else kbind (readsb ROOTDEV) (\<lambda>sb.
           kbind (kmod (\<lambda>s. s\<lparr>log_start := sint (sb_size sb - sb_nlog sb), log_size := sint (sb_nlog sb),
             log_dev := ROOTDEV\<rparr>)) (\<lambda>_.
           recover_from_log)))"

text \<open>A sleeping \<^verbatim>\<open>begin_trans\<close> tests again when it is woken.\<close>

definition begin_trans :: "('z logst_scheme, unit) kop" where
  "begin_trans =
     kbind (kget log_busy) (\<lambda>busy.
     if busy then sleep ChLog
     else kmod (\<lambda>s. s\<lparr>log_busy := True\<rparr>))"

definition commit_trans :: "('z logst_scheme, unit) kop" where
  "commit_trans =
     kbind (kget lh_n) (\<lambda>n.
     kbind (if n > 0 then
              kbind write_head (\<lambda>_.
              kbind install_trans (\<lambda>_.
              kbind (kmod (\<lambda>s. s\<lparr>lh_n := 0\<rparr>)) (\<lambda>_.
              write_head)))
            else kreturn ()) (\<lambda>_.
     kbind (kmod (\<lambda>s. s\<lparr>log_busy := False\<rparr>)) (\<lambda>_.
     wakeup ChLog)))"

text \<open>The slot of a sector in the header: its own if it was logged before, else the next one.\<close>

fun log_slot :: "(nat \<Rightarrow> int) \<Rightarrow> uint \<Rightarrow> nat list \<Rightarrow> nat \<Rightarrow> nat" where
  "log_slot sec d [] n = n"
| "log_slot sec d (i # is) n = (if word_of_int (sec i) = d then i else log_slot sec d is n)"

definition log_write :: "nat \<Rightarrow> ('z logst_scheme, unit) kop" where
  "log_write b =
     kbind (kget lh_n) (\<lambda>n.
     kbind (kget log_size) (\<lambda>size.
     if n \<ge> int LOGSIZE \<or> n \<ge> size - 1 then panic ''too big a transaction''
     else
       kbind (kget log_busy) (\<lambda>busy.
       if \<not> busy then panic ''write outside of trans''
       else
         kbind (kget (\<lambda>s. bufs s b)) (\<lambda>q.
         kbind (kget (\<lambda>s. log_slot (lh_sector s) (b_sector q) [0..<nat n] (nat n))) (\<lambda>i.
         kbind (set_sector i (sint (b_sector q))) (\<lambda>_.
         kbind (kget log_start) (\<lambda>start.
         kbind (bread (b_dev q) (word_of_int (start + int i + 1))) (\<lambda>lbuf.
         kbind (buf_data b) (\<lambda>v.
         kbind (set_data lbuf v) (\<lambda>_.
         kbind (bwrite lbuf) (\<lambda>_.
         kbind (brelse lbuf) (\<lambda>_.
         kbind (if int i = n then kmod (\<lambda>s. s\<lparr>lh_n := n + 1\<rparr>) else kreturn ()) (\<lambda>_.
         mark_dirty b)))))))))))))"

end
