(* ===== verification/Log_Proofs.thy ===== *)
theory Log_Proofs
  imports Log Bio_Proofs
begin

text \<open>
  Crash safety of the log. A crash leaves the disk as it is after some prefix of the sector writes made
  so far; the next start-up runs \<^verbatim>\<open>initlog\<close> on it. \<open>recovered\<close> is what recovery makes of a disk image,
  as a function; the lemmas show that the code computes it, that no prefix of the writes of recovery
  changes it, and that along a transaction it jumps from the old contents to the new at the write of the
  header.
\<close>

section \<open>Disk images\<close>

definition apply_writes :: "(nat \<Rightarrow> byte list) \<Rightarrow> (nat \<times> byte list) list \<Rightarrow> nat \<Rightarrow> byte list" where
  "apply_writes M W = foldl (\<lambda>m (d, v). m(d := v)) M W"

lemma apply_writes_simps [simp]:
  "apply_writes M [] = M" "apply_writes M ((d, v) # W) = apply_writes (M(d := v)) W"
  "apply_writes M (W @ W') = apply_writes (apply_writes M W) W'"
  by (simp_all add: apply_writes_def)

lemma apply_writes_other: "d \<notin> fst ` set W \<Longrightarrow> apply_writes M W d = M d"
  by (induction W arbitrary: M) (auto simp: image_iff)

lemma apply_writes_same: "d \<in> fst ` set W \<Longrightarrow> apply_writes M W d = apply_writes M' W d"
proof (induction W arbitrary: M M')
  case (Cons w W)
  obtain e v where w: "w = (e, v)" by force
  show ?case
  proof (cases "d \<in> fst ` set W")
    case True
    then show ?thesis using Cons.IH w by auto
  next
    case False
    with Cons.prems w have "d = e" by auto
    with False show ?thesis by (simp add: w apply_writes_other)
  qed
qed simp

lemma apply_writes_absorb:
  assumes "fst ` set P \<subseteq> fst ` set W"
  shows "apply_writes (apply_writes M P) W = apply_writes M W"
proof
  fix d
  show "apply_writes (apply_writes M P) W d = apply_writes M W d"
  proof (cases "d \<in> fst ` set W")
    case False
    then have "d \<notin> fst ` set P" using assms by blast
    with False show ?thesis by (simp add: apply_writes_other)
  qed (rule apply_writes_same)
qed

text \<open>The sectors named in a header block, and the writes the log on a disk stands for.\<close>

definition hdr_secs :: "byte list \<Rightarrow> nat list" where
  "hdr_secs v = map (\<lambda>i. unat (get32 v (4 + 4 * i))) [0..<nat (sint (get32 v 0))]"

definition log_img :: "nat \<Rightarrow> (nat \<Rightarrow> byte list) \<Rightarrow> (nat \<times> byte list) list" where
  "log_img S M = map (\<lambda>i. (hdr_secs (M S) ! i, M (S + 1 + i))) [0..<length (hdr_secs (M S))]"

definition recovered :: "nat \<Rightarrow> (nat \<Rightarrow> byte list) \<Rightarrow> nat \<Rightarrow> byte list" where
  "recovered S M = apply_writes M (log_img S M)"

text \<open>
  A log area of \<open>Z\<close> sectors from \<open>S\<close> on whose header fits into it and names sectors before it.
\<close>

definition wf_log :: "nat \<Rightarrow> nat \<Rightarrow> (nat \<Rightarrow> byte list) \<Rightarrow> bool" where
  "wf_log S Z M \<longleftrightarrow> length (hdr_secs (M S)) \<le> 10 \<and> length (hdr_secs (M S)) < Z \<and> set (hdr_secs (M S)) \<subseteq> {..<S}"

lemma fst_log_img: "fst ` set (log_img S M) = set (hdr_secs (M S))"
proof -
  have "map fst (log_img S M) = hdr_secs (M S)"
    by (rule nth_equalityI) (simp_all add: log_img_def)
  then show ?thesis by (metis set_map)
qed

lemma log_img_cong:
  assumes "M' S = M S" and "\<And>d. S < d \<Longrightarrow> M' d = M d"
  shows "log_img S M' = log_img S M"
  unfolding log_img_def assms(1) using assms(2) by simp

text \<open>Interrupted installation is invisible to recovery.\<close>

lemma recovered_install:
  assumes "set (hdr_secs (M S)) \<subseteq> {..<S}" and "set P \<subseteq> set (log_img S M)"
  shows "recovered S (apply_writes M P) = recovered S M"
proof -
  have f: "fst ` set P \<subseteq> set (hdr_secs (M S))" using assms(2) fst_log_img by blast
  have "log_img S (apply_writes M P) = log_img S M"
    by (rule log_img_cong; rule apply_writes_other) (use f assms(1) in fastforce)+
  then show ?thesis
    unfolding recovered_def using f apply_writes_absorb [of P "log_img S M" M] by (simp add: fst_log_img)
qed

lemma recovered_empty: "hdr_secs (M S) = [] \<Longrightarrow> recovered S M = M"
  by (simp add: recovered_def log_img_def)

lemma put_sectors_length: "4 + 4 * n \<le> length v \<Longrightarrow> length (put_sectors sec n v) = length v"
  by (induction n) simp_all

lemma put_sectors_get:
  assumes "4 + 4 * n \<le> length v"
  shows "i < n \<Longrightarrow> get32 (put_sectors sec n v) (4 + 4 * i) = word_of_int (sec i)"
    and "get32 (put_sectors sec n v) 0 = get32 v 0"
  using assms
proof (induction n)
  case (Suc n)
  { case 1
    then show ?case using Suc.IH(1) by (cases "i = n") (simp_all add: get32_put32 put_sectors_length) }
  { case 2
    then show ?case using Suc.IH(2) by (simp add: get32_put32 put_sectors_length) }
qed simp_all

text \<open>The block \<^verbatim>\<open>write_head\<close> writes.\<close>

definition hdr_block :: "(nat \<Rightarrow> int) \<Rightarrow> nat \<Rightarrow> byte list \<Rightarrow> byte list" where
  "hdr_block sec n v = put_sectors sec n (put32 v 0 (word_of_nat n))"

lemma hdr_block_length: "length v = 512 \<Longrightarrow> n \<le> 10 \<Longrightarrow> length (hdr_block sec n v) = 512"
  by (simp add: hdr_block_def put_sectors_length)

lemma hdr_secs_block:
  assumes "length v = 512" and "n \<le> 10" and "\<And>i. i < n \<Longrightarrow> sec i = int (d i) \<and> d i < 2 ^ 31"
  shows "hdr_secs (hdr_block sec n v) = map d [0..<n]"
proof -
  have "sint (word_of_nat n :: uint) = int n"
    using assms(2) by (simp add: signed_of_nat signed_take_bit_int_eq_self)
  moreover have "get32 (hdr_block sec n v) 0 = word_of_nat n"
    unfolding hdr_block_def using assms(1,2) by (simp add: put_sectors_get get32_put32)
  moreover have "unat (get32 (hdr_block sec n v) (4 + 4 * i)) = d i" if "i < n" for i
    unfolding hdr_block_def using assms(1,2) assms(3) [OF that] that
    by (simp add: put_sectors_get unat_of_nat_32)
  ultimately show ?thesis unfolding hdr_secs_def by simp
qed

section \<open>Running the log code\<close>

text \<open>The cache operations do not touch the log's own variables, nor these the cache.\<close>

lemma bio_frame_log:
  assumes "bio_frame s s'"
  shows "log_start s' = log_start s" "log_size s' = log_size s" "log_dev s' = log_dev s" "log_busy s' = log_busy s"
    "lh_n s' = lh_n s" "lh_sector s' = lh_sector s" "disksize s' = disksize s"
  using assms unfolding bio_frame_def by auto

lemma log_upd_abs [simp]:
  "abs_bio (s\<lparr>lh_n := x\<rparr>) = abs_bio s" "abs_bio (s\<lparr>lh_sector := y\<rparr>) = abs_bio s"
  "abs_bio (s\<lparr>log_busy := z\<rparr>) = abs_bio s" "abs_bio (s\<lparr>log_start := a, log_size := c, log_dev := e\<rparr>) = abs_bio s"
  by (simp_all add: abs_bio_def view_def cached_def held_def dirty_def fun_eq_iff split: option.split)

lemma procs_upd [simp]:
  "abs_bio (s\<lparr>procs := P\<rparr>) = abs_bio s" "bcache_inv (s\<lparr>procs := P\<rparr>) = bcache_inv s"
  by (simp_all add: abs_bio_def view_def cached_def held_def dirty_def bcache_inv_def fun_eq_iff split: option.split)

lemma log_upd_inv [simp]:
  "bcache_inv (s\<lparr>lh_n := x\<rparr>) = bcache_inv s" "bcache_inv (s\<lparr>lh_sector := y\<rparr>) = bcache_inv s"
  "bcache_inv (s\<lparr>log_busy := z\<rparr>) = bcache_inv s" "bcache_inv (s\<lparr>log_start := a, log_size := c, log_dev := e\<rparr>) = bcache_inv s"
  by (simp_all add: bcache_inv_def)

text \<open>The log's variables describe a log area of \<open>Z\<close> sectors at \<open>S\<close> on the disk, and no buffer is held.\<close>

definition log_at :: "nat \<Rightarrow> nat \<Rightarrow> 'z logst_scheme \<Rightarrow> bool" where
  "log_at S Z s \<longleftrightarrow> bcache_inv s \<and> log_start s = int S \<and> log_size s = int Z \<and> log_dev s = 1
     \<and> 0 < Z \<and> S + Z \<le> disksize s \<and> held s = Map.empty"

lemma log_atD:
  assumes "log_at S Z s"
  shows "bcache_inv s" "log_start s = int S" "log_size s = int Z" "log_dev s = 1" "0 < Z" "S + Z \<le> disksize s"
    "held s = Map.empty"
  using assms by (simp_all add: log_at_def)

lemma log_at_frame:
  assumes "log_at S Z s" and "bio_frame s s'" and "bcache_inv s'" and "held s' = Map.empty"
  shows "log_at S Z s'"
  using assms bio_frame_log [OF assms(2)] by (simp add: log_at_def)

lemma card_dirty:
  assumes "bcache_inv s"
  shows "finite (dirty s)"
proof -
  have "dirty s \<subseteq> (\<lambda>b. unat (b_sector (bufs s b))) ` {..<10}" by (auto simp: dirty_def)
  then show ?thesis by (rule finite_subset) simp
qed

lemma install_one_run:
  assumes "log_at S Z s" and "i < 10" and "i + 1 < Z" and "lh_sector s i = int d" and "d < S"
    and "dirty s \<subseteq> {..<S}" and "card (dirty s) < 9 \<or> card (dirty s) = 9 \<and> d \<in> dirty s"
  shows "\<exists>s'. install_one i s = Ret () s' \<and> log_at S Z s' \<and> bio_frame s s'
    \<and> abs_bio s' = (let v = memdisk s (S + 1 + i) in (abs_bio s)\<lparr>a_view := (view s)(d := v), a_disk := (memdisk s)(d := v),
         a_dirty := dirty s - {d}, a_trace := dtrace s @ [(d, v)]\<rparr>)"
proof -
  note L = log_atD [OF assms(1)]
  define l where "l = S + 1 + i"
  have l: "l < disksize s" "l \<notin> dirty s" "S < l" using L(6) assms(3,6) by (auto simp: l_def)
  have "view s l = memdisk s l" using bc.clean [OF L(1), of l] L(7) l by simp
  define v where "v = memdisk s l"
  obtain lb t where t: "bread 1 (word_of_nat l) s = Ret lb t" "bcache_inv t" "bio_frame s t"
    "abs_bio t = (abs_bio s)\<lparr>a_held := [lb \<mapsto> l]\<rparr>"
    using bc.rd [OF L(1), of l] l L(7) assms(7) by auto
  note T = t(4) [THEN arg_cong, of a_held, simplified] t(4) [THEN arg_cong, of a_dirty, simplified]
    t(4) [THEN arg_cong, of a_view, simplified] t(4) [THEN arg_cong, of a_disk, simplified]
    t(4) [THEN arg_cong, of a_size, simplified]
  have "card (insert l (dirty s)) = Suc (card (dirty s))" using card_dirty [OF L(1)] l by simp
  then have cap: "d \<in> dirty s \<or> card (ran [lb \<mapsto> l] \<union> dirty s) < 10" using assms(7) by auto
  obtain db u where u: "bread 1 (word_of_nat d) t = Ret db u" "bcache_inv u" "bio_frame t u" "held t db = None"
    "abs_bio u = (abs_bio t)\<lparr>a_held := (held t)(db \<mapsto> d)\<rparr>"
    using bc.rd [OF t(2), of d] cap T assms(5) L(6) l by auto
  have ne: "db \<noteq> lb" using u(4) T(1) by auto
  have hl: "a_held (abs_bio u) lb = Some l" "a_held (abs_bio u) db = Some d"
    using u(5) T(1) ne by simp_all
  have g: "buf_data lb u = Ret v u"
    using bc.get [OF u(2) hl(1)] u(5) T(3) \<open>view s l = memdisk s l\<close> by (simp add: v_def)
  have len: "length v = 512" using bcacheD(11) [OF L(1), of l] l by (simp add: v_def)
  obtain w x where w: "set_data db v u = Ret () w" and x: "bwrite db w = Ret () x" "bcache_inv x" "bio_frame u x"
    "abs_bio x = (abs_bio u)\<lparr>a_view := (a_view (abs_bio u))(d := v), a_disk := (a_disk (abs_bio u))(d := v),
       a_dirty := a_dirty (abs_bio u) - {d}, a_trace := a_trace (abs_bio u) @ [(d, v)]\<rparr>"
    by (rule bc.put_wr [OF u(2) hl(2) len])
  have hx: "a_held (abs_bio x) lb = Some l" "a_held (abs_bio x) db = Some d" using x(4) hl by simp_all
  have "a_view (abs_bio x) l = a_disk (abs_bio x) l"
    using \<open>view s l = memdisk s l\<close> l assms(5) by (simp add: x(4) u(5) t(4))
  then obtain y where y: "brelse lb x = Ret () y" "bcache_inv y" "bio_frame x y"
    "abs_bio y = (abs_bio x)\<lparr>a_held := (a_held (abs_bio x))(lb := None)\<rparr>" using bc.rel [OF x(2) hx(1)] by auto
  have hy: "a_held (abs_bio y) db = Some d" using y(4) hx ne by simp
  have "a_view (abs_bio y) d = a_disk (abs_bio y) d" by (simp add: y(4) x(4))
  then obtain z where z: "brelse db y = Ret () z" "bcache_inv z" "bio_frame y z"
    "abs_bio z = (abs_bio y)\<lparr>a_held := (a_held (abs_bio y))(db := None)\<rparr>" using bc.rel [OF y(2) hy] by auto
  have fr: "bio_frame s z" using t(3) u(3) x(3) y(3) z(3) by (blast intro: bio_frame_trans)
  have az: "abs_bio z = (abs_bio s)\<lparr>a_view := (view s)(d := v), a_disk := (memdisk s)(d := v),
       a_dirty := dirty s - {d}, a_trace := dtrace s @ [(d, v)]\<rparr>"
    using ne L(7) T(1) by (simp add: z(4) y(4) x(4) u(5) t(4) fun_upd_twist)
  have "held z = Map.empty" using az [THEN arg_cong, of a_held] L(7) by simp
  then have at: "log_at S Z z" by (rule log_at_frame [OF assms(1) fr z(2)])
  have e: "word_of_int (int S + int i + 1) = (word_of_nat l :: uint)"
    "word_of_int (lh_sector t i) = (word_of_nat d :: uint)"
    using bio_frame_log(6) [OF t(3)] assms(4) by (simp_all add: l_def)
  have "install_one i s = Ret () z"
    unfolding install_one_def get_sector_def
    using t(1) u(1) g w x(1) y(1) z(1) assms(2) L(2,4) by (simp add: e del: of_int_add)
  then show ?thesis using at fr az by (intro exI [of _ z]) (simp add: Let_def v_def l_def)
qed

lemma install_loop_run:
  assumes "log_at S Z s" and "\<forall>i\<in>set is. i < 10 \<and> i + 1 < Z \<and> lh_sector s i = int (d i) \<and> d i < S"
    and "dirty s \<subseteq> {..<S}" and "card (dirty s) < 9 \<or> card (dirty s) = 9 \<and> (\<forall>i\<in>set is. d i \<in> dirty s)"
  shows "\<exists>s'. kfor install_one is s = Ret () s' \<and> log_at S Z s' \<and> bio_frame s s'
    \<and> abs_bio s' = (let W = map (\<lambda>i. (d i, memdisk s (S + 1 + i))) is in (abs_bio s)\<lparr>a_view := apply_writes (view s) W,
         a_disk := apply_writes (memdisk s) W, a_dirty := dirty s - d ` set is, a_trace := dtrace s @ W\<rparr>)"
  using assms
proof (induction "is" arbitrary: s)
  case Nil
  then show ?case by (intro exI [of _ s]) (simp add: bio_frame_refl Let_def abs_bio_def)
next
  case (Cons i "is")
  let ?v = "memdisk s (S + 1 + i)"
  have i: "i < 10" "i + 1 < Z" "lh_sector s i = int (d i)" "d i < S" using Cons.prems(2) by simp_all
  have c: "card (dirty s) < 9 \<or> card (dirty s) = 9 \<and> d i \<in> dirty s" using Cons.prems(4) by auto
  obtain t where t: "install_one i s = Ret () t" "log_at S Z t" "bio_frame s t"
    "abs_bio t = (abs_bio s)\<lparr>a_view := (view s)(d i := ?v), a_disk := (memdisk s)(d i := ?v),
       a_dirty := dirty s - {d i}, a_trace := dtrace s @ [(d i, ?v)]\<rparr>"
    using install_one_run [OF Cons.prems(1) i Cons.prems(3) c] by (auto simp: Let_def)
  have T: "view t = (view s)(d i := ?v)" "memdisk t = (memdisk s)(d i := ?v)" "dirty t = dirty s - {d i}"
    "dtrace t = dtrace s @ [(d i, ?v)]" using t(4) by (simp_all add: abs_bio_def)
  have a: "card (dirty t) < 9"
    using c card_dirty [OF log_atD(1) [OF Cons.prems(1)]] card_Diff1_less [of "dirty s" "d i"]
      card_Diff1_le [of "dirty s" "d i"] by (auto simp: T(3))
  have b1: "\<forall>i\<in>set is. i < 10 \<and> i + 1 < Z \<and> lh_sector t i = int (d i) \<and> d i < S"
    using Cons.prems(2) unfolding bio_frame_log(6) [OF t(3)] by simp
  have b2: "dirty t \<subseteq> {..<S}" using Cons.prems(3) T(3) by blast
  have b3: "card (dirty t) < 9 \<or> card (dirty t) = 9 \<and> (\<forall>i\<in>set is. d i \<in> dirty t)" using a by simp
  obtain u where u: "kfor install_one is t = Ret () u" "log_at S Z u" "bio_frame t u"
    "abs_bio u = (let W = map (\<lambda>i. (d i, memdisk t (S + 1 + i))) is in (abs_bio t)\<lparr>a_view := apply_writes (view t) W,
         a_disk := apply_writes (memdisk t) W, a_dirty := dirty t - d ` set is, a_trace := dtrace t @ W\<rparr>)"
    using Cons.IH [OF t(2) b1 b2 b3] by (elim exE conjE)
  have e: "dirty s - {d i} - d ` set is = dirty s - d ` set (i # is)" by auto
  have m: "map (\<lambda>j. (d j, memdisk t (S + 1 + j))) is = map (\<lambda>j. (d j, memdisk s (S + 1 + j))) is"
    using i(4) by (simp add: T(2))
  have "abs_bio u = (let W = map (\<lambda>i. (d i, memdisk s (S + 1 + i))) (i # is) in (abs_bio s)\<lparr>a_view := apply_writes (view s) W,
         a_disk := apply_writes (memdisk s) W, a_dirty := dirty s - d ` set (i # is), a_trace := dtrace s @ W\<rparr>)"
    unfolding u(4) m unfolding Let_def t(4) T e by simp
  then show ?case using t(1,3) u(1,2,3) by (intro exI [of _ u]) (auto intro: bio_frame_trans)
qed

lemma write_head_run:
  assumes "log_at S Z s" and "lh_n s = int n" and "n \<le> 10" and "dirty s \<subseteq> {..<S}" and "card (dirty s) \<le> 9"
  shows "\<exists>s'. write_head s = Ret () s' \<and> log_at S Z s' \<and> bio_frame s s'
    \<and> abs_bio s' = (let h = hdr_block (lh_sector s) n (memdisk s S) in (abs_bio s)\<lparr>a_view := (view s)(S := h),
         a_disk := (memdisk s)(S := h), a_trace := dtrace s @ [(S, h)]\<rparr>)"
proof -
  note L = log_atD [OF assms(1)]
  have S: "S < disksize s" "S \<notin> dirty s" using L(5,6) assms(4) by auto
  have v: "view s S = memdisk s S" "length (memdisk s S) = 512"
    using bc.clean [OF L(1), of S] L(7) S bcacheD(11) [OF L(1) S(1)] by simp_all
  let ?f = "hdr_block (lh_sector s) n"
  obtain s' where s': "kbind (bread 1 (word_of_nat S)) (\<lambda>b. kbind (buf_data b) (\<lambda>v. kbind (set_data b (?f v)) (\<lambda>_.
       kbind (bwrite b) (\<lambda>_. brelse b)))) s = Ret () s'" "bcache_inv s'" "bio_frame s s'"
    "abs_bio s' = (let v = ?f (view s S) in (abs_bio s)\<lparr>a_view := (view s)(S := v), a_disk := (memdisk s)(S := v),
       a_dirty := dirty s - {S}, a_trace := dtrace s @ [(S, v)]\<rparr>)"
    using bc.write_cycle [of s S ?f] L(1,7) S v assms(3,5) by (auto simp: hdr_block_length)
  have "held s' = Map.empty" using s'(4) [THEN arg_cong, of a_held] L(7) by (simp add: Let_def)
  then have "log_at S Z s'" by (rule log_at_frame [OF assms(1) s'(3,2)])
  moreover have "write_head s = Ret () s'"
  proof -
    obtain b t where bt: "bread 1 (word_of_nat S) s = Ret b t" "bio_frame s t"
      using bc.rd [OF L(1), of S] S L(7) assms(5) by auto
    show ?thesis
      using s'(1) bt L(2,4) bio_frame_log [OF bt(2)] assms(2,3)
      by (simp add: write_head_def buf_data_def hdr_block_def)
  qed
  ultimately show ?thesis using s'(3,4) S(2) v by (intro exI [of _ s']) (simp add: Let_def)
qed

lemma log_upd_sel [simp]:
  "held (s\<lparr>lh_n := x\<rparr>) = held s" "held (s\<lparr>lh_sector := y\<rparr>) = held s" "held (s\<lparr>log_busy := z\<rparr>) = held s"
  "dirty (s\<lparr>lh_n := x\<rparr>) = dirty s" "dirty (s\<lparr>lh_sector := y\<rparr>) = dirty s" "dirty (s\<lparr>log_busy := z\<rparr>) = dirty s"
  "view (s\<lparr>lh_n := x\<rparr>) = view s" "view (s\<lparr>lh_sector := y\<rparr>) = view s" "view (s\<lparr>log_busy := z\<rparr>) = view s"
  by (simp_all flip: abs_bio_simps)

lemma log_at_upd [simp]:
  "log_at S Z (s\<lparr>lh_n := x\<rparr>) = log_at S Z s" "log_at S Z (s\<lparr>lh_sector := y\<rparr>) = log_at S Z s"
  "log_at S Z (s\<lparr>log_busy := z\<rparr>) = log_at S Z s"
  by (simp_all add: log_at_def)

lemma set_sectors_run:
  "\<forall>i\<in>set is. i < 10 \<Longrightarrow> kfor (\<lambda>i. set_sector i (f i)) is s = Ret () (s\<lparr>lh_sector := \<lambda>j. if j \<in> set is then f j else lh_sector s j\<rparr>)"
proof (induction "is" arbitrary: s)
  case (Cons i "is")
  have "(\<lambda>j. if j \<in> set is then f j else ((lh_sector s)(i := f i)) j) = (\<lambda>j. if j \<in> set (i # is) then f j else lh_sector s j)"
    by auto
  then show ?case using Cons by (simp add: set_sector_def cong: if_cong)
qed simp

lemma read_head_run:
  assumes "log_at S Z s" and "dirty s = {}" and "wf_log S Z (memdisk s)"
  shows "\<exists>s'. read_head s = Ret () s' \<and> log_at S Z s' \<and> abs_bio s' = abs_bio s \<and> log_busy s' = log_busy s
    \<and> nat (lh_n s') = length (hdr_secs (memdisk s S))
    \<and> (\<forall>i<length (hdr_secs (memdisk s S)). lh_sector s' i = int (hdr_secs (memdisk s S) ! i))"
proof -
  note L = log_atD [OF assms(1)]
  define v where "v = memdisk s S"
  define n where "n = nat (sint (get32 v 0))"
  have len: "length (hdr_secs v) = n" by (simp add: hdr_secs_def n_def)
  have n: "n \<le> 10" and sub: "set (hdr_secs v) \<subseteq> {..<S}"
    using assms(3) len by (simp_all add: wf_log_def v_def)
  have S: "S < disksize s" using L(5,6) by simp
  have vs: "view s S = v" using bc.clean [OF L(1), of S] assms(2) L(7) by (simp add: v_def)
  obtain b t where t: "bread 1 (word_of_nat S) s = Ret b t" "bcache_inv t" "bio_frame s t" "held s b = None"
    "abs_bio t = (abs_bio s)\<lparr>a_held := (held s)(b \<mapsto> S)\<rparr>"
    using bc.rd [OF L(1), of S] S L(7) assms(2) by auto
  have g: "buf_data b t = Ret v t" using bc.get [OF t(2), of b S] t(5) vs by simp
  define u where "u = t\<lparr>lh_n := sint (get32 v 0), lh_sector := \<lambda>j. if j \<in> set [0..<n] then sint (get32 v (4 + 4 * j)) else lh_sector t j\<rparr>"
  have u: "bcache_inv u" "abs_bio u = abs_bio t" by (simp_all add: u_def t(2))
  have hu: "a_held (abs_bio u) b = Some S" "a_view (abs_bio u) S = a_disk (abs_bio u) S"
    unfolding u(2) t(5) using vs by (simp_all add: v_def)
  obtain w where w: "brelse b u = Ret () w" "bcache_inv w" "bio_frame u w"
    "abs_bio w = (abs_bio u)\<lparr>a_held := (a_held (abs_bio u))(b := None)\<rparr>" using bc.rel [OF u(1) hu(1)] hu(2) by auto
  have aw: "abs_bio w = abs_bio s" unfolding w(4) u(2) t(5) using L(7) by (simp add: abs_bio_def)
  have "kfor (\<lambda>i. set_sector i (sint (get32 v (4 + 4 * i)))) [0..<n] (t\<lparr>lh_n := sint (get32 v 0)\<rparr>) = Ret () u"
    by (subst set_sectors_run) (use n in \<open>auto simp: u_def simp del: upt_rec_numeral cong: if_cong\<close>)
  then have r: "read_head s = Ret () w"
    unfolding read_head_def using t(1) g w(1) L(2,4) by (simp add: n_def [symmetric])
  have fr: "log_start w = log_start s" "log_size w = log_size s" "log_dev w = log_dev s" "disksize w = disksize s" "log_busy w = log_busy s"
    "lh_n w = sint (get32 v 0)" "lh_sector w = lh_sector u"
    using bio_frame_log [OF w(3)] bio_frame_log [OF t(3)] by (simp_all add: u_def)
  have "held w = held s" using aw by (simp add: abs_bio_def)
  then have "log_at S Z w" using L w(2) fr by (simp add: log_at_def)
  moreover have "lh_sector w i = int (hdr_secs v ! i)" if i: "i < n" for i
  proof -
    have e: "hdr_secs v ! i = unat (get32 v (4 + 4 * i))" using i by (simp add: hdr_secs_def n_def)
    then have "unat (get32 v (4 + 4 * i)) < S" using sub nth_mem [of i "hdr_secs v"] i len by auto
    then have "unat (get32 v (4 + 4 * i)) < 2 ^ 31" using S bcacheD(3) [OF L(1)] by simp
    then show ?thesis using i e by (simp add: fr(7) u_def sint_small)
  qed
  ultimately show ?thesis
    using r aw len fr(5,6) by (intro exI [of _ w]) (simp add: v_def [symmetric] n_def [symmetric])
qed

lemma install_trans_run:
  assumes "log_at S Z s" and "nat (lh_n s) = n" and "n \<le> 10" and "n < Z"
    and "\<forall>i<n. lh_sector s i = int (d i) \<and> d i < S"
    and "dirty s \<subseteq> {..<S}" and "card (dirty s) < 9 \<or> card (dirty s) = 9 \<and> (\<forall>i<n. d i \<in> dirty s)"
  shows "\<exists>s'. install_trans s = Ret () s' \<and> log_at S Z s' \<and> bio_frame s s'
    \<and> abs_bio s' = (let W = map (\<lambda>i. (d i, memdisk s (S + 1 + i))) [0..<n] in (abs_bio s)\<lparr>a_view := apply_writes (view s) W,
         a_disk := apply_writes (memdisk s) W, a_dirty := dirty s - d ` {..<n}, a_trace := dtrace s @ W\<rparr>)"
proof -
  have "\<forall>i\<in>set [0..<n]. i < 10 \<and> i + 1 < Z \<and> lh_sector s i = int (d i) \<and> d i < S" using assms(3-5) by auto
  moreover have "card (dirty s) < 9 \<or> card (dirty s) = 9 \<and> (\<forall>i\<in>set [0..<n]. d i \<in> dirty s)" using assms(7) by auto
  ultimately have "\<exists>s'. kfor install_one [0..<n] s = Ret () s' \<and> log_at S Z s' \<and> bio_frame s s'
    \<and> abs_bio s' = (let W = map (\<lambda>i. (d i, memdisk s (S + 1 + i))) [0..<n] in (abs_bio s)\<lparr>a_view := apply_writes (view s) W,
         a_disk := apply_writes (memdisk s) W, a_dirty := dirty s - d ` set [0..<n], a_trace := dtrace s @ W\<rparr>)"
    by (intro install_loop_run [OF assms(1) _ assms(6)])
  moreover have "install_trans s = kfor install_one [0..<n] s" using assms(2) by (simp add: install_trans_def)
  moreover have "set [0..<n] = {..<n}" by auto
  ultimately show ?thesis by simp
qed

text \<open>Recovery installs the log and clears it.\<close>

lemma recover_run:
  assumes "log_at S Z s" and "dirty s = {}" and "wf_log S Z (memdisk s)"
  shows "\<exists>s' h. recover_from_log s = Ret () s' \<and> log_at S Z s' \<and> dirty s' = {} \<and> hdr_secs h = [] \<and> lh_n s' = 0
    \<and> log_busy s' = log_busy s
    \<and> memdisk s' = (recovered S (memdisk s))(S := h) \<and> dtrace s' = dtrace s @ log_img S (memdisk s) @ [(S, h)]"
proof -
  let ?M = "memdisk s"
  define secs where "secs = hdr_secs (?M S)"
  have w: "length secs \<le> 10" "length secs < Z" "set secs \<subseteq> {..<S}" using assms(3) by (simp_all add: wf_log_def secs_def)
  obtain t where t: "read_head s = Ret () t" "log_at S Z t" "abs_bio t = abs_bio s" "log_busy t = log_busy s"
    "nat (lh_n t) = length secs" "\<forall>i<length secs. lh_sector t i = int (secs ! i)"
    using read_head_run [OF assms] unfolding secs_def by auto
  have T: "memdisk t = ?M" "dirty t = {}" "view t = view s" "dtrace t = dtrace s" using t(3) assms(2) by (simp_all add: abs_bio_def)
  have c: "\<forall>i<length secs. lh_sector t i = int (secs ! i) \<and> secs ! i < S" using t(6) w(3) nth_mem by blast
  have img: "map (\<lambda>i. (secs ! i, ?M (S + 1 + i))) [0..<length secs] = log_img S ?M" by (simp add: log_img_def secs_def)
  have "dirty t \<subseteq> {..<S}" "card (dirty t) < 9 \<or> card (dirty t) = 9 \<and> (\<forall>i<length secs. secs ! i \<in> dirty t)" using T(2) by simp_all
  then obtain u where u: "install_trans t = Ret () u" "log_at S Z u" "bio_frame t u"
    "abs_bio u = (abs_bio t)\<lparr>a_view := apply_writes (view s) (log_img S ?M), a_disk := recovered S ?M,
       a_dirty := {}, a_trace := dtrace s @ log_img S ?M\<rparr>"
    using install_trans_run [OF t(2,5) w(1,2) c] unfolding T img by (auto simp: Let_def recovered_def)
  have U: "memdisk u = recovered S ?M" "dirty u = {}" "dtrace u = dtrace s @ log_img S ?M" using u(4) by (simp_all add: abs_bio_def)
  let ?u = "u\<lparr>lh_n := 0\<rparr>" and ?h = "hdr_block (lh_sector u) 0 (memdisk u S)"
  obtain x where x: "write_head ?u = Ret () x" "log_at S Z x" "bio_frame ?u x"
    "abs_bio x = (abs_bio u)\<lparr>a_view := (view u)(S := ?h), a_disk := (memdisk u)(S := ?h), a_trace := dtrace u @ [(S, ?h)]\<rparr>"
    using write_head_run [of S Z ?u 0] u(2) U(2) by (auto simp: Let_def)
  have "length (memdisk u S) = 512"
    using bcacheD(11) [OF log_atD(1) [OF u(2)], of S] log_atD(5,6) [OF u(2)] by simp
  then have h: "hdr_secs ?h = []" by (simp add: hdr_secs_block)
  have X: "memdisk x = (recovered S ?M)(S := ?h)" "dirty x = {}" "dtrace x = dtrace s @ log_img S ?M @ [(S, ?h)]"
    using x(4) U by (simp_all add: abs_bio_def)
  have "lh_n x = 0" "log_busy x = log_busy s"
    using bio_frame_log(4,5) [OF x(3)] bio_frame_log(4) [OF u(3)] t(4) by simp_all
  moreover have "recover_from_log s = Ret () x" using t(1) u(1) x(1) by (simp add: recover_from_log_def)
  ultimately show ?thesis using x(2) X h by blast
qed

lemma readsb_run:
  assumes "bcache_inv s" and "1 < disksize s" and "1 \<notin> ran (held s)"
    and "1 \<in> dirty s \<or> card (ran (held s) \<union> dirty s) < 10"
  shows "\<exists>s'. readsb 1 s = Ret (dec_super (view s 1)) s' \<and> bcache_inv s' \<and> bio_frame s s' \<and> abs_bio s' = abs_bio s"
  using bc.read_cycle [of s 1 "\<lambda>v. kreturn (dec_super v)"] assms by (auto simp: readsb_def)

text \<open>The super block of an image gives the log area.\<close>

definition sb_at :: "nat \<Rightarrow> nat \<Rightarrow> (nat \<Rightarrow> byte list) \<Rightarrow> bool" where
  "sb_at S Z M \<longleftrightarrow> 1 < S \<and> 0 < Z \<and> sint (sb_size (dec_super (M 1)) - sb_nlog (dec_super (M 1))) = int S
     \<and> sint (sb_nlog (dec_super (M 1))) = int Z"

lemma initlog_run:
  assumes "bcache_inv s" and "held s = Map.empty" and "dirty s = {}" and "sb_at S Z (memdisk s)"
    and "S + Z \<le> disksize s" and "wf_log S Z (memdisk s)"
  shows "\<exists>s' h. initlog s = Ret () s' \<and> log_at S Z s' \<and> dirty s' = {} \<and> hdr_secs h = [] \<and> lh_n s' = 0
    \<and> log_busy s' = log_busy s
    \<and> memdisk s' = (recovered S (memdisk s))(S := h) \<and> dtrace s' = dtrace s @ log_img S (memdisk s) @ [(S, h)]"
proof -
  have 1: "1 < S" "0 < Z" "1 < disksize s" using assms(4,5) by (auto simp: sb_at_def)
  have v: "view s 1 = memdisk s 1" using bc.clean [OF assms(1), of 1] assms(2,3) by simp
  obtain t where t: "readsb 1 s = Ret (dec_super (memdisk s 1)) t" "bcache_inv t" "bio_frame s t" "abs_bio t = abs_bio s"
    using readsb_run [of s] assms(1,2,3) 1 v by auto
  define u where "u = t\<lparr>log_start := int S, log_size := int Z, log_dev := 1\<rparr>"
  have ua: "abs_bio u = abs_bio s" "bcache_inv u" by (simp_all add: u_def t(2,4))
  have ur: "held u = Map.empty" "dirty u = {}" "memdisk u = memdisk s" "disksize u = disksize s" "dtrace u = dtrace s"
    using ua(1) assms(2,3) by (simp_all add: abs_bio_def)
  have lb: "log_busy u = log_busy s" using bio_frame_log(4) [OF t(3)] by (simp add: u_def)
  have "log_at S Z u" using 1 assms(5) ua(2) ur by (simp add: log_at_def) (simp add: u_def)
  moreover have "wf_log S Z (memdisk u)" using assms(6) ur by simp
  ultimately obtain s' h where "recover_from_log u = Ret () s' \<and> log_at S Z s' \<and> dirty s' = {} \<and> hdr_secs h = [] \<and> lh_n s' = 0
    \<and> log_busy s' = log_busy u
    \<and> memdisk s' = (recovered S (memdisk u))(S := h) \<and> dtrace s' = dtrace u @ log_img S (memdisk u) @ [(S, h)]"
    using recover_run [of S Z u] ur(2) by auto
  moreover have "initlog s = recover_from_log u"
    using t(1) assms(4) by (simp add: initlog_def sb_at_def u_def)
  ultimately show ?thesis unfolding ur lb by auto
qed

lemma log_slot_spec:
  "log_slot sec w is n = i \<Longrightarrow> i \<in> set is \<and> word_of_int (sec i) = w \<or> i = n \<and> (\<forall>j\<in>set is. word_of_int (sec j) \<noteq> w)"
  by (induction "is") (auto split: if_splits)

text \<open>The search of \<^verbatim>\<open>log_write\<close> finds the slot that already holds the sector, or the next free one.\<close>

lemma log_slot_secs:
  assumes "\<forall>i<length secs. h i = int (secs ! i)" and "set secs \<subseteq> {..<S}" and "d < S" and "S < 2 ^ 32"
  defines "i \<equiv> log_slot h (word_of_nat d) [0..<length secs] (length secs)"
  shows "i < length secs \<and> secs ! i = d \<or> i = length secs \<and> d \<notin> set secs"
proof -
  have "word_of_int (h j) = (word_of_nat d :: uint) \<longleftrightarrow> secs ! j = d" if "j < length secs" for j
  proof -
    have "secs ! j < S" using that assms(2) nth_mem by blast
    then have "secs ! j < 2 ^ 32" "d < 2 ^ 32" using assms(3,4) by simp_all
    then show ?thesis using assms(1) that unat_of_nat_32 by (metis of_int_of_nat_eq)
  qed
  then show ?thesis
    using log_slot_spec [of h "word_of_nat d" "[0..<length secs]" "length secs" i] unfolding i_def [symmetric]
    by (auto simp: in_set_conv_nth)
qed

lemma log_write_run:
  assumes "bcache_inv s" and "held s = [b \<mapsto> d]" and "log_start s = int S" and "log_size s = int Z" and "log_busy s"
    and "lh_n s = int (length secs)" and "length secs < 10" and "length secs + 1 < Z" and "S + Z \<le> disksize s"
    and "\<forall>i<length secs. lh_sector s i = int (secs ! i)" and "set secs \<subseteq> {..<S}" and "d < S"
    and "dirty s \<subseteq> {..<S}" and "card (insert d (dirty s)) < 10"
  shows "\<exists>s' i. log_write b s = Ret () s' \<and> bcache_inv s'
    \<and> (i < length secs \<and> secs ! i = d \<or> i = length secs \<and> d \<notin> set secs)
    \<and> abs_bio s' = (abs_bio s)\<lparr>a_view := (view s)(S + 1 + i := view s d), a_disk := (memdisk s)(S + 1 + i := view s d),
         a_dirty := insert d (dirty s), a_trace := dtrace s @ [(S + 1 + i, view s d)]\<rparr>
    \<and> lh_n s' = int (if i = length secs then Suc (length secs) else length secs) \<and> lh_sector s' = (lh_sector s)(i := int d)
    \<and> log_start s' = log_start s \<and> log_size s' = log_size s \<and> log_dev s' = log_dev s \<and> log_busy s'"
proof -
  note D = bcacheD [OF assms(1)]
  let ?n = "length secs"
  have hb: "held s b = Some d" using assms(2) by simp
  note h = held_Some [OF assms(1) hb]
  have small: "d < 2 ^ 31" using assms(8,9,12) D(3) by simp
  have bs: "b_sector (bufs s b) = word_of_nat d" "b_dev (bufs s b) = 1" "sint (b_sector (bufs s b)) = int d"
    using h(1,3,4) D(5) sint_small [of "b_sector (bufs s b)"] small by auto
  define i where "i = log_slot (lh_sector s) (word_of_nat d) [0..<?n] ?n"
  have i: "i < ?n \<and> secs ! i = d \<or> i = ?n \<and> d \<notin> set secs"
    using log_slot_secs [OF assms(10,11,12), folded i_def] assms(8,9) D(3) by simp
  then have i10: "i < 10" "i \<le> ?n" using assms(7) by auto
  define l where "l = S + 1 + i"
  have l: "l < disksize s" "l \<noteq> d" "l \<notin> dirty s" "S < l" using i10 assms(8,9,12,13) by (auto simp: l_def)
  define t where "t = s\<lparr>lh_sector := (lh_sector s)(i := int d)\<rparr>"
  have t: "bcache_inv t" "abs_bio t = abs_bio s" by (simp_all add: t_def assms(1))
  obtain lb u where u: "bread 1 (word_of_nat l) t = Ret lb u" "bcache_inv u" "bio_frame t u" "held s lb = None"
    "abs_bio u = (abs_bio s)\<lparr>a_held := (held s)(lb \<mapsto> l)\<rparr>"
    using bc.rd [OF t(1), of l] l assms(2,14) unfolding t(2) by auto
  have ne: "lb \<noteq> b" using u(4) hb by auto
  have hu: "a_held (abs_bio u) lb = Some l" "a_held (abs_bio u) b = Some d" using ne hb by (simp_all add: u(5))
  have g: "buf_data b u = Ret (view s d) u" using bc.get [OF u(2) hu(2)] by (simp add: u(5))
  have "length (view s d) = 512" using bc.block_length [OF assms(1), of d] h(5) by simp
  then obtain w x where w: "set_data lb (view s d) u = Ret () w" and x: "bwrite lb w = Ret () x" "bcache_inv x" "bio_frame u x"
    "abs_bio x = (abs_bio u)\<lparr>a_view := (a_view (abs_bio u))(l := view s d), a_disk := (a_disk (abs_bio u))(l := view s d),
       a_dirty := a_dirty (abs_bio u) - {l}, a_trace := a_trace (abs_bio u) @ [(l, view s d)]\<rparr>"
    by (rule bc.put_wr [OF u(2) hu(1)])
  have hx: "a_held (abs_bio x) lb = Some l" "a_held (abs_bio x) b = Some d" using x(4) hu by simp_all
  have "a_view (abs_bio x) l = a_disk (abs_bio x) l" by (simp add: x(4))
  then obtain y where y: "brelse lb x = Ret () y" "bcache_inv y" "bio_frame x y"
    "abs_bio y = (abs_bio x)\<lparr>a_held := (a_held (abs_bio x))(lb := None)\<rparr>" using bc.rel [OF x(2) hx(1)] by auto
  define y' where "y' = (if i = ?n then y\<lparr>lh_n := int ?n + 1\<rparr> else y)"
  have y': "bcache_inv y'" "abs_bio y' = abs_bio y" by (simp_all add: y'_def y(2))
  have hy: "a_held (abs_bio y') b = Some d" using y(4) hx ne y'(2) by simp
  obtain z where z: "mark_dirty b y' = Ret () z" "bcache_inv z" "bio_frame y' z"
    "abs_bio z = (abs_bio y')\<lparr>a_dirty := insert d (a_dirty (abs_bio y'))\<rparr>" using bc.pin [OF y'(1) hy] by auto
  have az: "abs_bio z = (abs_bio s)\<lparr>a_view := (view s)(l := view s d), a_disk := (memdisk s)(l := view s d),
         a_dirty := insert d (dirty s), a_trace := dtrace s @ [(l, view s d)]\<rparr>"
    unfolding z(4) y'(2) y(4) x(4) u(5) using l u(4) ne
    by (simp add: fun_upd_idem)
  have "bio_frame t y" using u(3) x(3) y(3) by (blast intro: bio_frame_trans)
  note f = bio_frame_log [OF this] bio_frame_log [OF z(3)]
  have "log_start z = log_start s \<and> log_size z = log_size s \<and> log_dev z = log_dev s \<and> log_busy z"
    "lh_n z = int (if i = ?n then Suc ?n else ?n)" "lh_sector z = (lh_sector s)(i := int d)"
    using f assms(5,6) by (simp_all add: y'_def t_def)
  moreover have "log_write b s = Ret () z"
  proof -
    have "word_of_int (int S + int i + 1) = (word_of_nat l :: uint)" by (simp add: l_def)
    moreover have "(if int i = int ?n then kmod (\<lambda>s. s\<lparr>lh_n := int ?n + 1\<rparr>) else kreturn ()) y = Ret () y'"
      by (simp add: y'_def)
    moreover have "log_start t = int S" by (simp add: t_def assms(3))
    ultimately show ?thesis
      unfolding log_write_def set_sector_def using assms(3-8) bs i10 u(1) g w x(1) y(1) z(1)
      by (simp add: i_def [symmetric] t_def [symmetric] del: of_int_add split del: if_split)
  qed
  ultimately show ?thesis using z(2) az i by (intro exI [of _ z] exI [of _ i]) (simp add: l_def)
qed

section \<open>Transactions\<close>

text \<open>
  A transaction as the comment before \<^verbatim>\<open>log_write\<close> prescribes it: between \<^verbatim>\<open>begin_trans\<close> and
  \<^verbatim>\<open>commit_trans\<close>, each block is read, modified, logged and released.
\<close>

definition txn_block :: "nat \<times> byte list \<Rightarrow> ('z logst_scheme, unit) kop" where
  "txn_block = (\<lambda>(d, v). kbind (bread 1 (word_of_nat d)) (\<lambda>b.
     kbind (set_data b v) (\<lambda>_.
     kbind (log_write b) (\<lambda>_.
     brelse b))))"

definition transaction :: "(nat \<times> byte list) list \<Rightarrow> ('z logst_scheme, unit) kop" where
  "transaction ups = kbind begin_trans (\<lambda>_. kbind (kfor txn_block ups) (\<lambda>_. commit_trans))"

text \<open>
  The state in the middle of a transaction that has logged \<open>ups\<close>: only log blocks have been written to
  the disk, they hold the new contents, and the sectors of the header are the dirty ones.
\<close>

definition in_txn :: "nat \<Rightarrow> nat \<Rightarrow> (nat \<Rightarrow> byte list) \<Rightarrow> (nat \<times> byte list) list \<Rightarrow> (nat \<times> byte list) list \<Rightarrow>
    nat list \<Rightarrow> 'z logst_scheme \<Rightarrow> bool" where
  "in_txn S Z M T ups secs s \<longleftrightarrow> log_at S Z s \<and> log_busy s \<and> lh_n s = int (length secs)
     \<and> (\<forall>i<length secs. lh_sector s i = int (secs ! i)) \<and> distinct secs \<and> set secs = fst ` set ups
     \<and> set secs \<subseteq> {..<S} \<and> dirty s = set secs \<and> (\<forall>d<S. view s d = apply_writes M ups d)
     \<and> (\<forall>i<length secs. memdisk s (S + 1 + i) = view s (secs ! i))
     \<and> (\<exists>W. dtrace s = T @ W \<and> memdisk s = apply_writes M W \<and> fst ` set W \<subseteq> {S<..})"

lemma in_txnD:
  assumes "in_txn S Z M T ups secs s"
  shows "log_at S Z s" "log_busy s" "lh_n s = int (length secs)"
    "\<forall>i<length secs. lh_sector s i = int (secs ! i)" "distinct secs" "set secs = fst ` set ups"
    "set secs \<subseteq> {..<S}" "dirty s = set secs" "\<forall>d<S. view s d = apply_writes M ups d"
    "\<forall>i<length secs. memdisk s (S + 1 + i) = view s (secs ! i)"
    "\<exists>W. dtrace s = T @ W \<and> memdisk s = apply_writes M W \<and> fst ` set W \<subseteq> {S<..}"
  using assms unfolding in_txn_def by - (elim conjE, assumption)+

lemma txn_block_run:
  assumes "in_txn S Z M T ups secs s" and "d < S" and "length v = 512"
    and "card (insert d (fst ` set ups)) \<le> 9" and "card (insert d (fst ` set ups)) + 1 < Z"
  shows "\<exists>s' secs'. txn_block (d, v) s = Ret () s' \<and> in_txn S Z M T (ups @ [(d, v)]) secs' s'"
proof -
  note I = in_txnD [OF assms(1)] and L = log_atD [OF in_txnD(1) [OF assms(1)]]
  have len: "length secs = card (fst ` set ups)" using I(5,6) distinct_card by fastforce
  have le: "card (fst ` set ups) \<le> card (insert d (fst ` set ups))" by (rule card_insert_le) 
  have dd: "d < disksize s" using L(6) assms(2) by simp
  have c9: "card (dirty s) < 10" using I(6,8) le assms(4) by simp
  obtain b t where t: "bread 1 (word_of_nat d) s = Ret b t" "bcache_inv t" "bio_frame s t"
    "abs_bio t = (abs_bio s)\<lparr>a_held := [b \<mapsto> d]\<rparr>" using bc.rd [OF L(1), of d] dd c9 L(7) by auto
  have ht: "a_held (abs_bio t) b = Some d" by (simp add: t(4))
  obtain u where u: "set_data b v t = Ret () u" "bcache_inv u" "bio_frame t u"
    "abs_bio u = (abs_bio t)\<lparr>a_view := (a_view (abs_bio t))(d := v)\<rparr>" using bc.put [OF t(2) ht assms(3)] by auto
  have U: "held u = [b \<mapsto> d]" "view u = (view s)(d := v)" "memdisk u = memdisk s" "dirty u = set secs" "dtrace u = dtrace s"
    "disksize u = disksize s" using u(4) t(4) I(8) by (simp_all add: abs_bio_def)
  have "bio_frame s u" using t(3) u(3) by (rule bio_frame_trans)
  note F = bio_frame_log [OF this]
  obtain w i where w: "log_write b u = Ret () w" "bcache_inv w"
    "i < length secs \<and> secs ! i = d \<or> i = length secs \<and> d \<notin> set secs"
    "abs_bio w = (abs_bio u)\<lparr>a_view := (view u)(S + 1 + i := v), a_disk := (memdisk s)(S + 1 + i := v),
         a_dirty := insert d (set secs), a_trace := dtrace s @ [(S + 1 + i, v)]\<rparr>"
    "lh_n w = int (if i = length secs then Suc (length secs) else length secs)" "lh_sector w = (lh_sector s)(i := int d)"
    "log_start w = int S \<and> log_size w = int Z \<and> log_dev w = 1 \<and> log_busy w"
    using log_write_run [of u b d S Z secs] u(2) U F L(2,3,4,6) I(2,3,4,6,7) len le assms(2,4,5) by fastforce
  have hw: "a_held (abs_bio w) b = Some d" "d \<in> a_dirty (abs_bio w)" by (simp_all add: w(4) U(1))
  obtain x where x: "brelse b w = Ret () x" "bcache_inv x" "bio_frame w x"
    "abs_bio x = (abs_bio w)\<lparr>a_held := (a_held (abs_bio w))(b := None)\<rparr>" using bc.rel [OF w(2) hw(1)] hw(2) by auto
  have X: "held x = Map.empty" "view x = (view s)(d := v, S + 1 + i := v)" "memdisk x = (memdisk s)(S + 1 + i := v)"
    "dirty x = insert d (set secs)" "dtrace x = dtrace s @ [(S + 1 + i, v)]" "disksize x = disksize s"
    using x(4) w(4) U by (simp_all add: abs_bio_def)
  note Fx = bio_frame_log [OF x(3)]
  define secs' where "secs' = (if i = length secs then secs @ [d] else secs)"
  have n': "length secs' = (if i = length secs then Suc (length secs) else length secs)"
    and s': "set secs' = insert d (set secs)" "distinct secs'" "i < length secs'" "secs' ! i = d"
    and sj: "\<And>j. j < length secs' \<Longrightarrow> j \<noteq> i \<Longrightarrow> j < length secs \<and> secs' ! j = secs ! j \<and> secs ! j \<noteq> d"
    using w(3) I(5) by (auto simp: secs'_def nth_append nth_eq_iff_index_eq dest: nth_mem split: if_splits)
  have "log_at S Z x" using x(2) X(1,6) L(5,6) w(7) Fx by (simp add: log_at_def)
  moreover have "lh_sector x j = int (secs' ! j)" if "j < length secs'" for j
    using that sj [of j] s'(4) I(4) w(6) Fx(6) by (cases "j = i") simp_all
  moreover have "view x e = apply_writes M (ups @ [(d, v)]) e" if "e < S" for e
    using that I(9) by (simp add: X(2))
  moreover have "memdisk x (S + 1 + j) = view x (secs' ! j)" if "j < length secs'" for j
  proof (cases "j = i")
    case True
    then show ?thesis using s'(4) assms(2) by (simp add: X)
  next
    case False
    then have "j < length secs" "secs' ! j = secs ! j" "secs ! j \<noteq> d" using sj that by blast+
    moreover have "secs ! j < S" using I(7) calculation(1) nth_mem by blast
    ultimately show ?thesis using False I(10) by (simp add: X)
  qed
  moreover have "\<exists>W. dtrace x = T @ W \<and> memdisk x = apply_writes M W \<and> fst ` set W \<subseteq> {S<..}"
  proof -
    obtain W where "dtrace s = T @ W" "memdisk s = apply_writes M W" "fst ` set W \<subseteq> {S<..}" using I(11) by blast
    then show ?thesis by (intro exI [of _ "W @ [(S + 1 + i, v)]"]) (auto simp: X)
  qed
  ultimately have "in_txn S Z M T (ups @ [(d, v)]) secs' x"
    unfolding in_txn_def using w(5,7) Fx n' s'(1,2) I(6,7) assms(2) X(4) by auto
  moreover have "txn_block (d, v) s = Ret () x" using t(1) u(1) w(1) x(1) by (simp add: txn_block_def)
  ultimately show ?thesis by blast
qed

lemma txn_blocks_run:
  assumes "in_txn S Z M T done secs s" and "\<forall>(d, v)\<in>set ups. d < S \<and> length v = 512"
    and "card (fst ` set (done @ ups)) \<le> 9" and "card (fst ` set (done @ ups)) + 1 < Z"
  shows "\<exists>s' secs'. kfor txn_block ups s = Ret () s' \<and> in_txn S Z M T (done @ ups) secs' s'"
  using assms
proof (induction ups arbitrary: "done" secs s)
  case (Cons w ups)
  obtain d v where w: "w = (d, v)" by force
  have "card (insert d (fst ` set done)) \<le> card (fst ` set (done @ w # ups))"
    by (rule card_mono) (auto simp: w)
  then obtain t secs1 where t: "txn_block (d, v) s = Ret () t" "in_txn S Z M T (done @ [(d, v)]) secs1 t"
    using txn_block_run [OF Cons.prems(1), of d v] Cons.prems(2-4) w by auto
  show ?case using Cons.IH [OF t(2)] Cons.prems(2-4) t(1) by (simp add: w)
qed auto

lemma apply_writes_fun:
  "\<forall>(e, v)\<in>set P. v = g e \<Longrightarrow> apply_writes X P d = (if d \<in> fst ` set P then g d else X d)"
proof (induction P arbitrary: X)
  case (Cons w P)
  obtain a b where "w = (a, b)" by force
  with Cons show ?case by (cases "d \<in> fst ` set P") auto
qed simp

text \<open>The images a crash can leave while a transaction runs, and what recovery makes of them.\<close>

lemma crash_before_commit:
  fixes k :: nat
  assumes "hdr_secs (M S) = []" and "fst ` set W \<subseteq> {S<..}" and "0 < Z"
  defines "I \<equiv> apply_writes M (take k W)"
  shows "wf_log S Z I" and "\<forall>d\<le>S. I d = M d" and "\<forall>d<S. recovered S I d = M d"
proof -
  have f: "fst ` set (take k W) \<subseteq> {S<..}" using assms(2) set_take_subset [of k W] by blast
  show I: "\<forall>d\<le>S. I d = M d"
    unfolding I_def using f by (auto intro!: apply_writes_other simp: subset_iff)
  then have "hdr_secs (I S) = []" using assms(1) by simp
  then show "wf_log S Z I" "\<forall>d<S. recovered S I d = M d"
    using I assms(3) by (simp_all add: wf_log_def recovered_empty)
qed

lemma crash_after_commit:
  fixes k :: nat
  assumes "hdr_secs h = secs" and "hdr_secs h0 = []" and "length secs \<le> 10" and "length secs < Z" and "set secs \<subseteq> {..<S}"
    and "\<forall>i<length secs. N (S + 1 + i) = g (secs ! i)" and "\<forall>d<S. d \<notin> set secs \<longrightarrow> N d = g d"
  defines "P \<equiv> map (\<lambda>i. (secs ! i, N (S + 1 + i))) [0..<length secs]"
  defines "I \<equiv> apply_writes N (take (Suc k) ((S, h) # P @ [(S, h0)]))"
  shows "wf_log S Z I" and "\<forall>d<S. recovered S I d = g d" and "d < S \<Longrightarrow> d \<notin> set secs \<Longrightarrow> I d = N d"
proof -
  let ?N = "N(S := h)"
  have P: "log_img S ?N = P" "fst ` set P = set secs"
    using fst_log_img [of S ?N] by (simp_all add: log_img_def P_def assms(1))
  have Pg: "\<forall>(e, v)\<in>set P. v = g e" using assms(6) by (auto simp: P_def)
  have rec: "recovered S ?N d = g d" if "d < S" for d
    unfolding recovered_def P(1) apply_writes_fun [OF Pg] P(2) using that assms(7) by auto
  have "I = apply_writes ?N (take k P) \<or> I = (apply_writes ?N P)(S := h0)"
    by (cases "k \<le> length P") (simp_all add: I_def)
  moreover have "wf_log S Z I \<and> (\<forall>d<S. recovered S I d = g d) \<and> (d < S \<longrightarrow> d \<notin> set secs \<longrightarrow> I d = N d)"
    if I: "I = apply_writes ?N (take k P)"
  proof -
    have sub: "set (take k P) \<subseteq> set P" by (rule set_take_subset)
    have f: "fst ` set (take k P) \<subseteq> set secs" using sub P(2) by blast
    then have "I S = h" unfolding I using assms(5) by (subst apply_writes_other) auto
    moreover have "recovered S I = recovered S ?N"
      unfolding I by (rule recovered_install) (use sub P assms(1,5) in simp_all)
    moreover have "I d = N d" if "d < S" "d \<notin> set secs"
      unfolding I using f that by (subst apply_writes_other) auto
    ultimately show ?thesis using assms(1,3,4,5) rec by (simp add: wf_log_def)
  qed
  moreover have "wf_log S Z I \<and> (\<forall>d<S. recovered S I d = g d) \<and> (d < S \<longrightarrow> d \<notin> set secs \<longrightarrow> I d = N d)"
    if I: "I = (apply_writes ?N P)(S := h0)"
  proof -
    have e: "hdr_secs (I S) = []" by (simp add: I assms(2))
    have "I e = g e" if "e < S" for e using rec [OF that] that by (simp add: I recovered_def P(1))
    then show ?thesis using e assms(4,7) by (auto simp: wf_log_def recovered_empty)
  qed
  ultimately show "wf_log S Z I" "\<forall>d<S. recovered S I d = g d" "d < S \<Longrightarrow> d \<notin> set secs \<Longrightarrow> I d = N d" by auto
qed

text \<open>The log between transactions.\<close>

definition log_idle :: "nat \<Rightarrow> nat \<Rightarrow> 'z logst_scheme \<Rightarrow> bool" where
  "log_idle S Z s \<longleftrightarrow> log_at S Z s \<and> \<not> log_busy s \<and> lh_n s = 0 \<and> dirty s = {} \<and> hdr_secs (memdisk s S) = []"

lemma commit_run:
  assumes "in_txn S Z M T ups secs s" and "secs \<noteq> []" and "length secs \<le> 9" and "length secs < Z"
  shows "\<exists>s' h h0. commit_trans s = Ret () s' \<and> log_idle S Z s' \<and> hdr_secs h = secs \<and> hdr_secs h0 = []
    \<and> dtrace s' = dtrace s @ (S, h) # map (\<lambda>i. (secs ! i, memdisk s (S + 1 + i))) [0..<length secs] @ [(S, h0)]
    \<and> memdisk s' = apply_writes (memdisk s) ((S, h) # map (\<lambda>i. (secs ! i, memdisk s (S + 1 + i))) [0..<length secs] @ [(S, h0)])"
proof -
  note I = in_txnD [OF assms(1)] and L = log_atD [OF in_txnD(1) [OF assms(1)]]
  let ?n = "length secs" and ?P = "map (\<lambda>i. (secs ! i, memdisk s (S + 1 + i))) [0..<length secs]"
  have card: "card (set secs) = ?n" using I(5) by (rule distinct_card)
  define h where "h = hdr_block (lh_sector s) ?n (memdisk s S)"
  obtain t where t: "write_head s = Ret () t" "log_at S Z t" "bio_frame s t"
    "abs_bio t = (abs_bio s)\<lparr>a_view := (view s)(S := h), a_disk := (memdisk s)(S := h), a_trace := dtrace s @ [(S, h)]\<rparr>"
    using write_head_run [OF I(1,3)] assms(3) I(7,8) card by (auto simp: Let_def h_def)
  have T: "memdisk t = (memdisk s)(S := h)" "dirty t = set secs" "dtrace t = dtrace s @ [(S, h)]"
    using t(4) I(8) by (simp_all add: abs_bio_def)
  have PT: "map (\<lambda>i. (secs ! i, memdisk t (S + 1 + i))) [0..<?n] = ?P" by (simp add: T(1))
  have c: "\<forall>i<?n. lh_sector t i = int (secs ! i) \<and> secs ! i < S"
    using I(4,7) nth_mem bio_frame_log(6) [OF t(3)] by fastforce
  have "nat (lh_n t) = ?n" using I(3) bio_frame_log(5) [OF t(3)] by simp
  moreover have "dirty t \<subseteq> {..<S}" "card (dirty t) < 9 \<or> card (dirty t) = 9 \<and> (\<forall>i<?n. secs ! i \<in> dirty t)"
    using T(2) I(7) card assms(3) by auto
  ultimately obtain u where u: "install_trans t = Ret () u" "log_at S Z u" "bio_frame t u"
    "abs_bio u = (let W = ?P in (abs_bio t)\<lparr>a_view := apply_writes (view t) W, a_disk := apply_writes (memdisk t) W,
       a_dirty := dirty t - (\<lambda>i. secs ! i) ` {..<?n}, a_trace := dtrace t @ W\<rparr>)"
    using install_trans_run [OF t(2) _ _ assms(4) c, unfolded PT] assms(3) by fastforce
  have "(\<lambda>i. secs ! i) ` {..<?n} = set secs" by (auto simp: set_conv_nth)
  then have U: "memdisk u = apply_writes (memdisk t) ?P" "dirty u = {}" "dtrace u = dtrace t @ ?P"
    using u(4) T(2) by (simp_all add: abs_bio_def Let_def)
  define h0 where "h0 = hdr_block (lh_sector u) 0 (memdisk u S)"
  let ?u = "u\<lparr>lh_n := 0\<rparr>"
  obtain x where x: "write_head ?u = Ret () x" "log_at S Z x" "bio_frame ?u x"
    "abs_bio x = (abs_bio u)\<lparr>a_view := (view u)(S := h0), a_disk := (memdisk u)(S := h0), a_trace := dtrace u @ [(S, h0)]\<rparr>"
    using write_head_run [of S Z ?u 0] u(2) U(2) by (auto simp: Let_def h0_def)
  have X: "memdisk x = (memdisk u)(S := h0)" "dirty x = {}" "dtrace x = dtrace u @ [(S, h0)]"
    using x(4) U(2) by (simp_all add: abs_bio_def)
  define y where "y = x\<lparr>log_busy := False, procs := wake_all ChLog (procs x)\<rparr>"
  have ay: "abs_bio y = abs_bio x" "bcache_inv y = bcache_inv x"
    by (simp_all add: y_def)
  have Y: "held y = held x" "dirty y = dirty x" "disksize y = disksize x" using ay(1) by (simp_all add: abs_bio_def)
  have cm: "commit_trans s = Ret () y"
    using t(1) u(1) x(1) I(3) assms(2)
    by (simp add: commit_trans_def wakeup_def wakeup1_run y_def)
  have S: "S < disksize s" "S < disksize u" "S < 2 ^ 31"
    using L(5,6) log_atD(5,6) [OF u(2)] bcacheD(3) [OF L(1)] by simp_all
  have hs: "hdr_secs h = secs"
    unfolding h_def by (subst hdr_secs_block [where d = "\<lambda>i. secs ! i"])
      (use bcacheD(11) [OF L(1) S(1)] assms(3) I(4,7) S(3) nth_mem in \<open>fastforce simp: map_nth\<close>)+
  have h0s: "hdr_secs h0 = []"
    unfolding h0_def using bcacheD(11) [OF log_atD(1) [OF u(2)] S(2)] by (simp add: hdr_secs_block)
  have "log_at S Z y \<and> dirty y = {} \<and> memdisk y = memdisk x \<and> dtrace y = dtrace x"
    using x(2) X(2) Y ay(2) unfolding log_at_def by (simp add: y_def)
  moreover have "lh_n y = 0" "\<not> log_busy y" using bio_frame_log(5) [OF x(3)] by (simp_all add: y_def)
  ultimately have "log_idle S Z y" using X(1) h0s by (simp add: log_idle_def)
  moreover have "dtrace y = dtrace s @ (S, h) # ?P @ [(S, h0)]"
    "memdisk y = apply_writes (memdisk s) ((S, h) # ?P @ [(S, h0)])"
    by (simp_all add: y_def X U T)
  ultimately show ?thesis using cm hs h0s by blast
qed

lemma begin_run:
  assumes "log_idle S Z s"
  shows "begin_trans s = Ret () (s\<lparr>log_busy := True\<rparr>)"
    and "in_txn S Z (memdisk s) (dtrace s) [] [] (s\<lparr>log_busy := True\<rparr>)"
proof -
  have i: "log_at S Z s" "\<not> log_busy s" "lh_n s = 0" "dirty s = {}" using assms by (simp_all add: log_idle_def)
  note L = log_atD [OF i(1)]
  show "begin_trans s = Ret () (s\<lparr>log_busy := True\<rparr>)" using i(2) by (simp add: begin_trans_def)
  have "view s d = memdisk s d" for d using bc.clean [OF L(1), of d] i(4) L(7) by simp
  then show "in_txn S Z (memdisk s) (dtrace s) [] [] (s\<lparr>log_busy := True\<rparr>)"
    using i by (simp add: in_txn_def)
qed

text \<open>
  \<open>atomic_trace S Z M ups W c\<close>: after a crash at any point of the writes \<open>W\<close> the log is well formed, and the
  recovery gives the old contents up to the write \<open>c\<close> and the new ones from there on.
\<close>

definition atomic_trace :: "nat \<Rightarrow> nat \<Rightarrow> (nat \<Rightarrow> byte list) \<Rightarrow> (nat \<times> byte list) list \<Rightarrow> (nat \<times> byte list) list \<Rightarrow> nat \<Rightarrow> bool" where
  "atomic_trace S Z M ups W c \<longleftrightarrow> (ups = [] \<or> c < length W)
     \<and> (\<forall>k. wf_log S Z (apply_writes M (take k W))
        \<and> (\<forall>d<S. recovered S (apply_writes M (take k W)) d = (if k \<le> c then M d else apply_writes M ups d))
        \<and> (\<forall>d<S. d \<notin> fst ` set ups \<longrightarrow> apply_writes M (take k W) d = M d))"

text \<open>A transaction that wrote nothing only wakes the waiters.\<close>

lemma commit_empty:
  assumes idle: "log_idle S Z s" and I: "in_txn S Z (memdisk s) (dtrace s) [] secs (s\<lparr>log_busy := True\<rparr>)"
  shows "\<exists>s'. commit_trans (s\<lparr>log_busy := True\<rparr>) = Ret () s' \<and> log_idle S Z s' \<and> dtrace s' = dtrace s \<and> memdisk s' = memdisk s"
proof -
  let ?t = "s\<lparr>log_busy := True\<rparr>"
  define y where "y = ?t\<lparr>log_busy := False, procs := wake_all ChLog (procs ?t)\<rparr>"
  have "secs = []" using in_txnD(6) [OF I] by simp
  then have c: "commit_trans ?t = Ret () y"
    using in_txnD(3) [OF I] by (simp add: commit_trans_def wakeup_def wakeup1_run y_def)
  have ay: "abs_bio y = abs_bio ?t" "bcache_inv y = bcache_inv ?t" by (simp_all add: y_def)
  have "held y = held ?t" "dirty y = dirty ?t" "disksize y = disksize ?t" using ay(1) by (simp_all add: abs_bio_def)
  then have "log_idle S Z y"
    using idle ay(2) in_txnD(1) [OF I] unfolding log_idle_def log_at_def by (simp add: y_def)
  with c show ?thesis by (intro exI [of _ y]) (simp add: y_def)
qed

text \<open>The commit makes the updates of the transaction durable at the write of the header.\<close>

lemma commit_atomic:
  assumes idle: "log_idle S Z s" and T: "in_txn S Z (memdisk s) (dtrace s) ups secs t" and ne: "ups \<noteq> []"
    and card: "card (fst ` set ups) \<le> 9" "card (fst ` set ups) + 1 < Z"
  shows "\<exists>s' W c. commit_trans t = Ret () s' \<and> log_idle S Z s' \<and> dtrace s' = dtrace s @ W
    \<and> (\<forall>d<S. memdisk s' d = apply_writes (memdisk s) ups d) \<and> atomic_trace S Z (memdisk s) ups W c"
proof -
  let ?M = "memdisk s"
  let ?g = "apply_writes ?M ups"
  have idle: "hdr_secs (?M S) = []" "0 < Z" using idle by (simp_all add: log_idle_def log_at_def)
  note I = in_txnD [OF T]
  have n: "length secs = card (fst ` set ups)" using I(5,6) distinct_card by fastforce
  obtain W1 where W1: "dtrace t = dtrace s @ W1" "memdisk t = apply_writes ?M W1" "fst ` set W1 \<subseteq> {S<..}" using I(11) by blast
  note before = crash_before_commit [where M = "memdisk s" and S = S, OF idle(1) W1(3) idle(2)]
  have "secs \<noteq> []" using I(6) ne by auto
  then obtain s' h h0 where s': "commit_trans t = Ret () s'" "log_idle S Z s'" "hdr_secs h = secs" "hdr_secs h0 = []"
    "dtrace s' = dtrace t @ (S, h) # map (\<lambda>i. (secs ! i, memdisk t (S + 1 + i))) [0..<length secs] @ [(S, h0)]"
    "memdisk s' = apply_writes (memdisk t) ((S, h) # map (\<lambda>i. (secs ! i, memdisk t (S + 1 + i))) [0..<length secs] @ [(S, h0)])"
    using commit_run [OF T] n card by auto
  let ?R = "(S, h) # map (\<lambda>i. (secs ! i, memdisk t (S + 1 + i))) [0..<length secs] @ [(S, h0)]"
  have g: "\<forall>i<length secs. memdisk t (S + 1 + i) = ?g (secs ! i)"
    using I(7,9,10) nth_mem by (metis lessThan_iff subsetD)
  have o: "\<forall>d<S. d \<notin> set secs \<longrightarrow> memdisk t d = ?g d"
  proof (intro allI impI)
    fix d assume d: "d < S" "d \<notin> set secs"
    then have "d \<notin> fst ` set W1" "d \<notin> fst ` set ups" using W1(3) I(6) by auto
    then show "memdisk t d = ?g d" unfolding W1(2) by (simp add: apply_writes_other)
  qed
  have l: "length secs \<le> 10" "length secs < Z" using n card by simp_all
  note after = crash_after_commit [OF s'(3,4) l I(7) g o]
  have "wf_log S Z (apply_writes ?M (take k (W1 @ ?R)))
      \<and> (\<forall>d<S. recovered S (apply_writes ?M (take k (W1 @ ?R))) d = (if k \<le> length W1 then ?M d else ?g d))
      \<and> (\<forall>d<S. d \<notin> fst ` set ups \<longrightarrow> apply_writes ?M (take k (W1 @ ?R)) d = ?M d)" for k
  proof (cases "k \<le> length W1")
    case True
    then show ?thesis using before [of k] by simp
  next
    case False
    then obtain j where j: "k = length W1 + Suc j" by (metis less_iff_Suc_add not_less add_Suc_right)
    have e: "apply_writes ?M (take k (W1 @ ?R)) = apply_writes (memdisk t) (take (Suc j) ?R)"
      unfolding W1(2) by (simp add: j)
    have "\<forall>d<S. d \<notin> fst ` set ups \<longrightarrow> memdisk t d = ?M d"
      using o I(6) apply_writes_other [of _ ups ?M] by auto
    then show ?thesis unfolding e using after(1,2) [of j] after(3) [where k = j] False I(6) by simp
  qed
  then have "atomic_trace S Z ?M ups (W1 @ ?R) (length W1)" by (simp add: atomic_trace_def)
  moreover have "\<forall>d<S. memdisk s' d = ?g d"
    using after(2) [of "Suc (length secs)"] s'(2,6) by (simp add: log_idle_def recovered_empty)
  ultimately show ?thesis
    using s'(1,2,5) W1(1) by (intro exI [of _ s'] exI [of _ "W1 @ ?R"] exI [of _ "length W1"]) simp
qed

lemma transaction_run:
  assumes "log_idle S Z s" and "\<forall>(d, v)\<in>set ups. d < S \<and> length v = 512"
    and "card (fst ` set ups) \<le> 9" and "card (fst ` set ups) + 1 < Z"
  shows "\<exists>s' W c. transaction ups s = Ret () s' \<and> log_idle S Z s' \<and> dtrace s' = dtrace s @ W
    \<and> (\<forall>d<S. memdisk s' d = apply_writes (memdisk s) ups d) \<and> (ups = [] \<or> c < length W)
    \<and> (\<forall>k. wf_log S Z (apply_writes (memdisk s) (take k W))
        \<and> (\<forall>d<S. recovered S (apply_writes (memdisk s) (take k W)) d = (if k \<le> c then memdisk s d else apply_writes (memdisk s) ups d))
        \<and> (\<forall>d<S. d \<notin> fst ` set ups \<longrightarrow> apply_writes (memdisk s) (take k W) d = memdisk s d))"
proof -
  let ?M = "memdisk s"
  have idle: "hdr_secs (?M S) = []" "0 < Z" using assms(1) by (simp_all add: log_idle_def log_at_def)
  note B = begin_run [OF assms(1)]
  obtain t secs where t: "kfor txn_block ups (s\<lparr>log_busy := True\<rparr>) = Ret () t" "in_txn S Z ?M (dtrace s) ups secs t"
    using txn_blocks_run [OF B(2) assms(2)] assms(3,4) by auto
  have tr: "transaction ups s = commit_trans t" using B(1) t(1) by (simp add: transaction_def)
  have "\<exists>s' W c. commit_trans t = Ret () s' \<and> log_idle S Z s' \<and> dtrace s' = dtrace s @ W
    \<and> (\<forall>d<S. memdisk s' d = apply_writes ?M ups d) \<and> atomic_trace S Z ?M ups W c"
  proof (cases "ups = []")
    case True
    then have ts: "t = s\<lparr>log_busy := True\<rparr>" using t(1) by simp
    obtain s' where "commit_trans t = Ret () s'" "log_idle S Z s'" "dtrace s' = dtrace s" "memdisk s' = ?M"
      using commit_empty [OF assms(1)] t(2) True unfolding ts by blast
    then show ?thesis
      using True idle by (intro exI [of _ s'] exI [of _ "[]"] exI [of _ 0]) (simp add: atomic_trace_def recovered_empty wf_log_def)
  qed (rule commit_atomic [OF assms(1) t(2) _ assms(3,4)])
  then show ?thesis unfolding tr atomic_trace_def .
qed

section \<open>Properties\<close>

text \<open>
  C6: a transaction on an idle log runs to completion, writes all its blocks to their home sectors, leaves
  every other sector below the log unchanged and the log idle again.
\<close>

theorem transaction_correct:
  assumes "log_idle S Z s" and "\<forall>(d, v)\<in>set ups. d < S \<and> length v = 512"
    and "card (fst ` set ups) \<le> 9" and "card (fst ` set ups) + 1 < Z"
  shows "\<exists>s'. transaction ups s = Ret () s' \<and> log_idle S Z s' \<and> (\<forall>d<S. memdisk s' d = apply_writes (memdisk s) ups d)"
  using transaction_run [OF assms] by auto

text \<open>The state of a machine started again on the disk image \<open>M\<close> of \<open>n\<close> sectors.\<close>

definition rebooted :: "(nat \<Rightarrow> byte list) \<Rightarrow> nat \<Rightarrow> 'z logst_scheme \<Rightarrow> bool" where
  "rebooted M n s \<longleftrightarrow> bcache_inv s \<and> held s = Map.empty \<and> dirty s = {} \<and> memdisk s = M \<and> disksize s = n"

text \<open>
  C1: a transaction is atomic under crashes: if the machine stops after any number \<open>k\<close> of the sector writes
  the transaction makes and is started again, recovery returns, and the disk below the log holds either
  the contents before the transaction, or all of its updates; the updates from the write of the log header
  on, and so whenever the transaction has returned.
\<close>

theorem crash_atomic:
  assumes "log_idle S Z s" and "sb_at S Z (memdisk s)" and "\<forall>(d, v)\<in>set ups. d < S \<and> d \<noteq> 1 \<and> length v = 512"
    and "card (fst ` set ups) \<le> 9" and "card (fst ` set ups) + 1 < Z"
  shows "\<exists>s' W c. transaction ups s = Ret () s' \<and> dtrace s' = dtrace s @ W \<and> (ups = [] \<or> c < length W)
    \<and> (\<forall>k t. rebooted (apply_writes (memdisk s) (take k W)) (disksize s) (t :: 'z logst_scheme) \<longrightarrow>
        (\<exists>t'. initlog t = Ret () t' \<and> (\<forall>d<S. memdisk t' d = (if k \<le> c then memdisk s d else apply_writes (memdisk s) ups d))))"
proof -
  have ok: "\<forall>(d, v)\<in>set ups. d < S \<and> length v = 512" using assms(3) by auto
  obtain s' W c where s': "transaction ups s = Ret () s'" "dtrace s' = dtrace s @ W" "ups = [] \<or> c < length W"
    and r: "\<forall>k. wf_log S Z (apply_writes (memdisk s) (take k W))
        \<and> (\<forall>d<S. recovered S (apply_writes (memdisk s) (take k W)) d = (if k \<le> c then memdisk s d else apply_writes (memdisk s) ups d))
        \<and> (\<forall>d<S. d \<notin> fst ` set ups \<longrightarrow> apply_writes (memdisk s) (take k W) d = memdisk s d)"
    using transaction_run [OF assms(1) ok assms(4,5)] by blast
  have "\<exists>t'. initlog t = Ret () t' \<and> (\<forall>d<S. memdisk t' d = (if k \<le> c then memdisk s d else apply_writes (memdisk s) ups d))"
    if t: "rebooted (apply_writes (memdisk s) (take k W)) (disksize s) t" for k and t :: "'z logst_scheme"
  proof -
    let ?I = "apply_writes (memdisk s) (take k W)"
    have b: "bcache_inv t" "held t = Map.empty" "dirty t = {}" "memdisk t = ?I" "disksize t = disksize s"
      using t by (simp_all add: rebooted_def)
    have "1 < S" "1 \<notin> fst ` set ups" using assms(2,3) by (auto simp: sb_at_def)
    then have "?I 1 = memdisk s 1" using r by blast
    then have sb: "sb_at S Z (memdisk t)" using assms(2) b(4) by (simp add: sb_at_def)
    have sz: "S + Z \<le> disksize t" using assms(1) b(5) by (simp add: log_idle_def log_at_def)
    have wf: "wf_log S Z (memdisk t)" using r b(4) by simp
    obtain t' h where t': "initlog t = Ret () t'" "memdisk t' = (recovered S (memdisk t))(S := h)"
      using initlog_run [OF b(1-3) sb sz wf] by blast
    have "\<forall>d<S. memdisk t' d = (if k \<le> c then memdisk s d else apply_writes (memdisk s) ups d)"
      using r [rule_format, of k] by (simp add: t'(2) b(4))
    with t'(1) show ?thesis by blast
  qed
  with s' show ?thesis by blast
qed

text \<open>
  C14: recovery itself survives crashes: stopped after any number of its writes and started again, it ends
  with the same contents below the log as if it had not been stopped, and with an idle log.
\<close>

theorem recovery_restartable:
  assumes "rebooted M n (s :: 'z logst_scheme)" and "sb_at S Z M" and "wf_log S Z M" and "S + Z \<le> n" and "1 \<notin> set (hdr_secs (M S))"
  shows "\<exists>s' W. initlog s = Ret () s' \<and> dtrace s' = dtrace s @ W \<and> hdr_secs (memdisk s' S) = []
    \<and> (\<forall>d<S. memdisk s' d = recovered S M d)
    \<and> (\<forall>k t. rebooted (apply_writes M (take k W)) n (t :: 'z logst_scheme) \<longrightarrow>
        (\<exists>t'. initlog t = Ret () t' \<and> (\<forall>d<S. memdisk t' d = recovered S M d)))"
proof -
  have b: "bcache_inv s" "held s = Map.empty" "dirty s = {}" "memdisk s = M" "disksize s = n"
    using assms(1) by (simp_all add: rebooted_def)
  obtain s' h where s': "initlog s = Ret () s'" "hdr_secs h = []" "memdisk s' = (recovered S M)(S := h)"
    "dtrace s' = dtrace s @ log_img S M @ [(S, h)]"
    using initlog_run [OF b(1-3), unfolded b(4,5), OF assms(2,4,3)] by blast
  have sub: "set (hdr_secs (M S)) \<subseteq> {..<S}" using assms(3) by (simp add: wf_log_def)
  have "\<exists>t'. initlog t = Ret () t' \<and> (\<forall>d<S. memdisk t' d = recovered S M d)"
    if t: "rebooted (apply_writes M (take k (log_img S M @ [(S, h)]))) n t" for k and t :: "'z logst_scheme"
  proof -
    let ?I = "apply_writes M (take k (log_img S M @ [(S, h)]))"
    have c: "bcache_inv t" "held t = Map.empty" "dirty t = {}" "memdisk t = ?I" "disksize t = n"
      using t by (simp_all add: rebooted_def)
    have "sb_at S Z ?I \<and> wf_log S Z ?I \<and> (\<forall>d<S. recovered S ?I d = recovered S M d)"
    proof (cases "k \<le> length (log_img S M)")
      case True
      then have e: "?I = apply_writes M (take k (log_img S M))" by simp
      have sb: "set (take k (log_img S M)) \<subseteq> set (log_img S M)" by (rule set_take_subset)
      then have f: "fst ` set (take k (log_img S M)) \<subseteq> set (hdr_secs (M S))" using fst_log_img by blast
      then have "?I S = M S" "?I 1 = M 1" unfolding e using sub assms(5) by (auto intro!: apply_writes_other)
      then show ?thesis using recovered_install [OF sub sb] assms(2,3) e by (simp add: sb_at_def wf_log_def)
    next
      case False
      then have e: "?I = (recovered S M)(S := h)" by (simp add: recovered_def)
      have "recovered S M 1 = M 1" unfolding recovered_def using assms(5) fst_log_img by (metis apply_writes_other)
      then show ?thesis unfolding e using assms(2) s'(2) by (auto simp: sb_at_def wf_log_def recovered_empty)
    qed
    then obtain t' h' where "initlog t = Ret () t'" "memdisk t' = (recovered S ?I)(S := h')" "\<forall>d<S. recovered S ?I d = recovered S M d"
      using initlog_run [OF c(1-3), unfolded c(4,5), of S Z] assms(4) by blast
    then show ?thesis by auto
  qed
  then show ?thesis using s' by (intro exI [of _ s'] exI [of _ "log_img S M @ [(S, h)]"]) auto
qed

section \<open>A disk to evaluate the properties on\<close>

text \<open>A disk of 16 sectors with a log of 12 sectors from sector 4 on; \<open>h\<close> is the header of the log.\<close>

definition ex_image :: "byte list \<Rightarrow> nat \<Rightarrow> byte list" where
  "ex_image h d = (if d = 1 then enc_super \<lparr>sb_size = 16, sb_nblocks = 1, sb_ninodes = 8, sb_nlog = 12\<rparr> @ replicate 496 0
     else if d = 4 then h else if d = 5 then replicate 512 9 else replicate 512 0)"

definition ex_log :: "byte list \<Rightarrow> logst" where
  "ex_log h = bio.extend (ptable.extend ex_boot (bio.fields (\<lambda>_. ex_buf False 0) [0..<10] (ex_image h) 16 []))
     (logst.fields 4 12 False 1 0 (\<lambda>_. 0))"

lemma ex_log_sel:
  "bufs (ex_log h) = (\<lambda>_. ex_buf False 0)" "lru (ex_log h) = [0..<10]" "disksize (ex_log h) = 16" "memdisk (ex_log h) = ex_image h"
  "log_start (ex_log h) = 4" "log_size (ex_log h) = 12" "log_busy (ex_log h) = False" "log_dev (ex_log h) = 1" "lh_n (ex_log h) = 0"
  by (simp_all add: ex_log_def ptable.defs bio.defs logst.defs)

lemma ex_log_rebooted: "length h = 512 \<Longrightarrow> rebooted (ex_image h) 16 (ex_log h)"
  unfolding rebooted_def bcache_inv_def ex_log_sel held_def dirty_def
  by (simp add: ex_buf_def ex_image_def enc_super_def del: upt_rec_numeral)

lemma ex_image_sb: "sb_at 4 12 (ex_image h)"
  by (simp add: sb_at_def ex_image_def dec_super_enc)

lemma hdr_secs_zero: "hdr_secs (replicate 512 0) = []"
  by (simp add: hdr_secs_def get32_def)

lemma ex_log_idle: "log_idle 4 12 (ex_log (replicate 512 0))"
  using ex_log_rebooted [of "replicate 512 0"] hdr_secs_zero
  by (simp add: log_idle_def log_at_def rebooted_def ex_log_sel ex_image_def)

theorem transaction_correct_witness:
  "\<exists>s'. transaction [(2, replicate 512 7), (3, replicate 512 8)] (ex_log (replicate 512 0)) = Ret () s'
     \<and> memdisk s' 2 = replicate 512 7"
  using transaction_correct [OF ex_log_idle, of "[(2, replicate 512 7), (3, replicate 512 8)]"] by auto

theorem crash_atomic_witness:
  "\<exists>s' W c. transaction [(2, replicate 512 7), (3, replicate 512 8)] (ex_log (replicate 512 0)) = Ret () s'
    \<and> dtrace s' = dtrace (ex_log (replicate 512 0)) @ W \<and> c < length W
    \<and> (\<forall>k t. rebooted (apply_writes (ex_image (replicate 512 0)) (take k W)) 16 (t :: logst) \<longrightarrow>
        (\<exists>t'. initlog t = Ret () t' \<and> memdisk t' 2 = (if k \<le> c then replicate 512 0 else replicate 512 7)))"
proof -
  let ?ups = "[(2::nat, replicate 512 7), (3, replicate 512 (8::byte))]"
  have sb: "sb_at 4 12 (memdisk (ex_log (replicate 512 0)))" by (simp add: ex_log_sel ex_image_sb)
  have ups: "\<forall>(d, v)\<in>set ?ups. d < 4 \<and> d \<noteq> 1 \<and> length v = 512" by auto
  have c: "card (fst ` set ?ups) \<le> 9" "card (fst ` set ?ups) + 1 < 12" by simp_all
  obtain s' W c where w: "transaction ?ups (ex_log (replicate 512 0)) = Ret () s'" "dtrace s' = dtrace (ex_log (replicate 512 0)) @ W"
    "c < length W" and r: "\<forall>k t. rebooted (apply_writes (ex_image (replicate 512 0)) (take k W)) 16 (t :: logst) \<longrightarrow>
        (\<exists>t'. initlog t = Ret () t' \<and> (\<forall>d<4. memdisk t' d = (if k \<le> c then ex_image (replicate 512 0) d
           else apply_writes (ex_image (replicate 512 0)) ?ups d)))"
    using crash_atomic [OF ex_log_idle sb ups c] unfolding ex_log_sel by blast
  have "apply_writes (ex_image (replicate 512 0)) ?ups 2 = replicate 512 7" "ex_image (replicate 512 0) 2 = replicate 512 0"
    by (simp_all add: ex_image_def)
  with w r show ?thesis by (metis (no_types, lifting) numeral_less_iff semiring_norm(76,78))
qed

theorem recovery_restartable_witness:
  "\<exists>s'. initlog (ex_log (hdr_block (\<lambda>_. 2) 1 (replicate 512 0))) = Ret () s' \<and> memdisk s' 2 = replicate 512 9"
proof -
  let ?h = "hdr_block (\<lambda>_. 2) 1 (replicate 512 0)"
  have h: "length ?h = 512" "hdr_secs ?h = [2]"
    using hdr_secs_block [of "replicate 512 0" 1 "\<lambda>_. 2" "\<lambda>_. 2"] by (simp_all add: hdr_block_length)
  have wf: "wf_log 4 12 (ex_image ?h)" "1 \<notin> set (hdr_secs (ex_image ?h 4))" using h(2) by (simp_all add: wf_log_def ex_image_def)
  have "recovered 4 (ex_image ?h) 2 = replicate 512 9"
    using h(2) by (simp add: recovered_def log_img_def ex_image_def)
  moreover obtain s' where "initlog (ex_log ?h) = Ret () s'" "\<forall>d<4. memdisk s' d = recovered 4 (ex_image ?h) d"
    using recovery_restartable [OF ex_log_rebooted [OF h(1)] ex_image_sb wf(1) _ wf(2)] by auto
  ultimately show ?thesis by auto
qed

end
