(* ===== verification/Fs.thy ===== *)
theory Fs
  imports Log CString
begin

unbundle bit_operations_syntax

text \<open>
  The file system (\<^verbatim>\<open>source/fs.c\<close>): blocks, inodes, file contents, directories and path names. Inode
  pointers are indices into the inode cache, \<open>None\<close> where the code tests for the null pointer. The
  destination of a read is returned as the bytes written there, the source of a write is passed as the
  bytes it holds. Names are byte lists. The device switch \<^verbatim>\<open>devsw\<close> is an argument of the operations that
  call through it.
\<close>

section \<open>State\<close>

abbreviation (input) NINODE :: nat where "NINODE \<equiv> 50"
abbreviation (input) NDEV :: nat where "NDEV \<equiv> 10"
abbreviation (input) ROOTINO :: uint where "ROOTINO \<equiv> 1"
abbreviation (input) MAXFILE :: nat where "MAXFILE \<equiv> NDIRECT + NINDIRECT"
abbreviation (input) T_DIR :: uint16 where "T_DIR \<equiv> 1"
abbreviation (input) T_FILE :: uint16 where "T_FILE \<equiv> 2"
abbreviation (input) T_DEV :: uint16 where "T_DEV \<equiv> 3"

record inode =
  i_dev :: uint
  i_inum :: uint
  i_ref :: int
  i_busy :: bool
  i_valid :: bool
  i_type :: uint16
  i_major :: uint16
  i_minor :: uint16
  i_nlink :: uint16
  i_size :: uint
  i_addrs :: "uint list"

record fsst = logst +
  inodes :: "nat \<Rightarrow> inode"

text \<open>The device switch: what reading \<open>n\<close> bytes gives, and what writing bytes does.\<close>

record 's devsw =
  dev_read :: "nat \<Rightarrow> (nat \<Rightarrow> uint \<Rightarrow> ('s, int \<times> byte list) kop) option"
  dev_write :: "nat \<Rightarrow> (nat \<Rightarrow> byte list \<Rightarrow> uint \<Rightarrow> ('s, int) kop) option"

definition upd_inode :: "nat \<Rightarrow> (inode \<Rightarrow> inode) \<Rightarrow> ('z fsst_scheme, unit) kop" where
  "upd_inode ip f = kmod (\<lambda>s. s\<lparr>inodes := (inodes s)(ip := f (inodes s ip))\<rparr>)"

section \<open>Blocks\<close>

definition bzero :: "uint \<Rightarrow> uint \<Rightarrow> ('z logst_scheme, unit) kop" where
  "bzero dev bno =
     kbind (bread dev bno) (\<lambda>bp.
     kbind (set_data bp (replicate BSIZE 0)) (\<lambda>_.
     kbind (log_write bp) (\<lambda>_.
     brelse bp)))"

text \<open>Bit \<open>bi\<close> of a bitmap block.\<close>

definition bmap_bit :: "byte list \<Rightarrow> nat \<Rightarrow> bool" where
  "bmap_bit v bi \<longleftrightarrow> v ! (bi div 8) AND push_bit (bi mod 8) 1 \<noteq> 0"

definition set_bit_in :: "byte list \<Rightarrow> nat \<Rightarrow> byte list" where
  "set_bit_in v bi = v[bi div 8 := v ! (bi div 8) OR push_bit (bi mod 8) 1]"

definition clear_bit_in :: "byte list \<Rightarrow> nat \<Rightarrow> byte list" where
  "clear_bit_in v bi = v[bi div 8 := v ! (bi div 8) AND NOT (push_bit (bi mod 8) 1)]"

text \<open>The scan of one bitmap block for a free block, and the loop over the bitmap blocks.\<close>

fun free_bit :: "byte list \<Rightarrow> nat \<Rightarrow> nat \<Rightarrow> nat list \<Rightarrow> nat option" where
  "free_bit v b sz [] = None"
| "free_bit v b sz (bi # bs) =
     (if b + bi < sz then if \<not> bmap_bit v bi then Some bi else free_bit v b sz bs else None)"

fun balloc_scan :: "uint \<Rightarrow> superblock \<Rightarrow> nat list \<Rightarrow> ('z logst_scheme, uint) kop" where
  "balloc_scan dev sb [] = panic ''balloc: out of blocks''"
| "balloc_scan dev sb (k # ks) =
     kbind (bread dev (word_of_nat (BBLOCK (k * BPB) (unat (sb_ninodes sb))))) (\<lambda>bp.
     kbind (buf_data bp) (\<lambda>v.
     case free_bit v (k * BPB) (unat (sb_size sb)) [0..<BPB] of
       Some bi \<Rightarrow>
         kbind (set_data bp (set_bit_in v bi)) (\<lambda>_.
         kbind (log_write bp) (\<lambda>_.
         kbind (brelse bp) (\<lambda>_.
         kbind (bzero dev (word_of_nat (k * BPB + bi))) (\<lambda>_.
         kreturn (word_of_nat (k * BPB + bi))))))
     | None \<Rightarrow> kbind (brelse bp) (\<lambda>_. balloc_scan dev sb ks)))"

definition balloc :: "uint \<Rightarrow> ('z logst_scheme, uint) kop" where
  "balloc dev =
     kbind (readsb dev) (\<lambda>sb.
     balloc_scan dev sb [0..<(unat (sb_size sb) + BPB - 1) div BPB])"

definition bfree :: "uint \<Rightarrow> uint \<Rightarrow> ('z logst_scheme, unit) kop" where
  "bfree dev b =
     kbind (readsb dev) (\<lambda>sb.
     kbind (bread dev (word_of_nat (BBLOCK (unat b) (unat (sb_ninodes sb))))) (\<lambda>bp.
     kbind (buf_data bp) (\<lambda>v.
     let bi = unat b mod BPB in
     if \<not> bmap_bit v bi then panic ''freeing free block''
     else
       kbind (set_data bp (clear_bit_in v bi)) (\<lambda>_.
       kbind (log_write bp) (\<lambda>_.
       brelse bp)))))"

section \<open>Inodes\<close>

text \<open>The slot of an inode in its block.\<close>

definition ioff :: "uint \<Rightarrow> nat" where "ioff inum = 64 * (unat inum mod IPB)"

definition iblock :: "uint \<Rightarrow> uint" where "iblock inum = word_of_nat (IBLOCK (unat inum))"

fun find_inode :: "(inode \<Rightarrow> bool) \<Rightarrow> nat list \<Rightarrow> (nat \<Rightarrow> inode) \<Rightarrow> nat option" where
  "find_inode P [] ns = None"
| "find_inode P (i # is) ns = (if P (ns i) then Some i else find_inode P is ns)"

definition iget :: "uint \<Rightarrow> uint \<Rightarrow> ('z fsst_scheme, nat) kop" where
  "iget dev inum =
     kbind (kget (\<lambda>s. find_inode (\<lambda>ip. i_ref ip > 0 \<and> i_dev ip = dev \<and> i_inum ip = inum) [0..<NINODE] (inodes s))) (\<lambda>r.
     case r of
       Some ip \<Rightarrow> kbind (upd_inode ip (\<lambda>n. n\<lparr>i_ref := i_ref n + 1\<rparr>)) (\<lambda>_. kreturn ip)
     | None \<Rightarrow>
         kbind (kget (\<lambda>s. find_inode (\<lambda>ip. i_ref ip = 0) [0..<NINODE] (inodes s))) (\<lambda>r.
         case r of
           None \<Rightarrow> panic ''iget: no inodes''
         | Some ip \<Rightarrow>
             kbind (upd_inode ip (\<lambda>n. n\<lparr>i_dev := dev, i_inum := inum, i_ref := 1, i_busy := False, i_valid := False\<rparr>)) (\<lambda>_.
             kreturn ip)))"

definition zero_dinode :: dinode where
  "zero_dinode = \<lparr>d_type = 0, d_major = 0, d_minor = 0, d_nlink = 0, d_size = 0, d_addrs = replicate 13 0\<rparr>"

fun ialloc_scan :: "uint \<Rightarrow> uint16 \<Rightarrow> nat list \<Rightarrow> ('z fsst_scheme, nat) kop" where
  "ialloc_scan dev type [] = panic ''ialloc: no inodes''"
| "ialloc_scan dev type (inum # is) =
     (let n = word_of_nat inum in
      kbind (bread dev (iblock n)) (\<lambda>bp.
      kbind (buf_data bp) (\<lambda>v.
      if d_type (dec_dinode v (ioff n)) = 0 then
        kbind (set_data bp (splice v (ioff n) (enc_dinode (zero_dinode\<lparr>d_type := type\<rparr>)))) (\<lambda>_.
        kbind (log_write bp) (\<lambda>_.
        kbind (brelse bp) (\<lambda>_.
        iget dev n)))
      else kbind (brelse bp) (\<lambda>_. ialloc_scan dev type is))))"

definition ialloc :: "uint \<Rightarrow> uint16 \<Rightarrow> ('z fsst_scheme, nat) kop" where
  "ialloc dev type = kbind (readsb dev) (\<lambda>sb. ialloc_scan dev type [1..<unat (sb_ninodes sb)])"

definition to_dinode :: "inode \<Rightarrow> dinode" where
  "to_dinode n = \<lparr>d_type = i_type n, d_major = i_major n, d_minor = i_minor n, d_nlink = i_nlink n,
     d_size = i_size n, d_addrs = i_addrs n\<rparr>"

definition iupdate :: "nat \<Rightarrow> ('z fsst_scheme, unit) kop" where
  "iupdate ip =
     kbind (kget (\<lambda>s. inodes s ip)) (\<lambda>n.
     kbind (bread (i_dev n) (iblock (i_inum n))) (\<lambda>bp.
     kbind (buf_data bp) (\<lambda>v.
     kbind (set_data bp (splice v (ioff (i_inum n)) (enc_dinode (to_dinode n)))) (\<lambda>_.
     kbind (log_write bp) (\<lambda>_.
     brelse bp)))))"

definition idup :: "nat \<Rightarrow> ('z fsst_scheme, nat) kop" where
  "idup ip = kbind (upd_inode ip (\<lambda>n. n\<lparr>i_ref := i_ref n + 1\<rparr>)) (\<lambda>_. kreturn ip)"

text \<open>A sleeping \<^verbatim>\<open>ilock\<close> tests again when it is woken.\<close>

definition ilock :: "nat option \<Rightarrow> ('z fsst_scheme, unit) kop" where
  "ilock p = (case p of None \<Rightarrow> panic ''ilock'' | Some ip \<Rightarrow>
     kbind (kget (\<lambda>s. inodes s ip)) (\<lambda>n.
     if i_ref n < 1 then panic ''ilock''
     else if i_busy n then sleep (ChInode ip)
     else
       kbind (upd_inode ip (\<lambda>n. n\<lparr>i_busy := True\<rparr>)) (\<lambda>_.
       if i_valid n then kreturn ()
       else
         kbind (bread (i_dev n) (iblock (i_inum n))) (\<lambda>bp.
         kbind (buf_data bp) (\<lambda>v.
         let d = dec_dinode v (ioff (i_inum n)) in
         kbind (upd_inode ip (\<lambda>n. n\<lparr>i_type := d_type d, i_major := d_major d, i_minor := d_minor d,
           i_nlink := d_nlink d, i_size := d_size d, i_addrs := d_addrs d\<rparr>)) (\<lambda>_.
         kbind (brelse bp) (\<lambda>_.
         kbind (upd_inode ip (\<lambda>n. n\<lparr>i_valid := True\<rparr>)) (\<lambda>_.
         if d_type d = 0 then panic ''ilock: no type'' else kreturn ()))))))))"

definition iunlock :: "nat option \<Rightarrow> ('z fsst_scheme, unit) kop" where
  "iunlock p = (case p of None \<Rightarrow> panic ''iunlock'' | Some ip \<Rightarrow>
     kbind (kget (\<lambda>s. inodes s ip)) (\<lambda>n.
     if \<not> i_busy n \<or> i_ref n < 1 then panic ''iunlock''
     else
       kbind (upd_inode ip (\<lambda>n. n\<lparr>i_busy := False\<rparr>)) (\<lambda>_.
       wakeup (ChInode ip))))"

section \<open>Contents\<close>

definition set_addr :: "nat \<Rightarrow> nat \<Rightarrow> uint \<Rightarrow> ('z fsst_scheme, unit) kop" where
  "set_addr ip i a = upd_inode ip (\<lambda>n. n\<lparr>i_addrs := (i_addrs n)[i := a]\<rparr>)"

definition bmap :: "nat \<Rightarrow> uint \<Rightarrow> ('z fsst_scheme, uint) kop" where
  "bmap ip bn =
     kbind (kget (\<lambda>s. inodes s ip)) (\<lambda>n.
     if unat bn < NDIRECT then
       let addr = i_addrs n ! unat bn in
       if addr = 0 then
         kbind (balloc (i_dev n)) (\<lambda>addr.
         kbind (set_addr ip (unat bn) addr) (\<lambda>_.
         kreturn addr))
       else kreturn addr
     else
       let bn = unat bn - NDIRECT in
       if bn < NINDIRECT then
         kbind (let addr = i_addrs n ! NDIRECT in
                if addr = 0 then
                  kbind (balloc (i_dev n)) (\<lambda>addr.
                  kbind (set_addr ip NDIRECT addr) (\<lambda>_.
                  kreturn addr))
                else kreturn addr) (\<lambda>addr.
         kbind (bread (i_dev n) addr) (\<lambda>bp.
         kbind (buf_data bp) (\<lambda>v.
         let addr = get32 v (4 * bn) in
         kbind (if addr = 0 then
                  kbind (balloc (i_dev n)) (\<lambda>addr.
                  kbind (buf_data bp) (\<lambda>v.
                  kbind (set_data bp (put32 v (4 * bn) addr)) (\<lambda>_.
                  kbind (log_write bp) (\<lambda>_.
                  kreturn addr))))
                else kreturn addr) (\<lambda>addr.
         kbind (brelse bp) (\<lambda>_.
         kreturn addr)))))
       else panic ''bmap: out of range'')"

definition trunc_direct :: "nat \<Rightarrow> nat \<Rightarrow> ('z fsst_scheme, unit) kop" where
  "trunc_direct ip i =
     kbind (kget (\<lambda>s. inodes s ip)) (\<lambda>n.
     if i_addrs n ! i \<noteq> 0 then
       kbind (bfree (i_dev n) (i_addrs n ! i)) (\<lambda>_.
       set_addr ip i 0)
     else kreturn ())"

definition trunc_indirect :: "uint \<Rightarrow> nat \<Rightarrow> nat \<Rightarrow> ('z fsst_scheme, unit) kop" where
  "trunc_indirect dev bp j =
     kbind (buf_data bp) (\<lambda>v.
     if get32 v (4 * j) \<noteq> 0 then bfree dev (get32 v (4 * j)) else kreturn ())"

definition itrunc :: "nat \<Rightarrow> ('z fsst_scheme, unit) kop" where
  "itrunc ip =
     kbind (kfor (trunc_direct ip) [0..<NDIRECT]) (\<lambda>_.
     kbind (kget (\<lambda>s. inodes s ip)) (\<lambda>n.
     kbind (if i_addrs n ! NDIRECT \<noteq> 0 then
              kbind (bread (i_dev n) (i_addrs n ! NDIRECT)) (\<lambda>bp.
              kbind (kfor (trunc_indirect (i_dev n) bp) [0..<NINDIRECT]) (\<lambda>_.
              kbind (brelse bp) (\<lambda>_.
              kbind (bfree (i_dev n) (i_addrs n ! NDIRECT)) (\<lambda>_.
              set_addr ip NDIRECT 0))))
            else kreturn ()) (\<lambda>_.
     kbind (upd_inode ip (\<lambda>n. n\<lparr>i_size := 0\<rparr>)) (\<lambda>_.
     iupdate ip))))"

definition iput :: "nat \<Rightarrow> ('z fsst_scheme, unit) kop" where
  "iput ip =
     kbind (kget (\<lambda>s. inodes s ip)) (\<lambda>n.
     kbind (if i_ref n = 1 \<and> i_valid n \<and> i_nlink n = 0 then
              if i_busy n then panic ''iput busy''
              else
                kbind (upd_inode ip (\<lambda>n. n\<lparr>i_busy := True\<rparr>)) (\<lambda>_.
                kbind (itrunc ip) (\<lambda>_.
                kbind (upd_inode ip (\<lambda>n. n\<lparr>i_type := 0\<rparr>)) (\<lambda>_.
                kbind (iupdate ip) (\<lambda>_.
                kbind (upd_inode ip (\<lambda>n. n\<lparr>i_busy := False, i_valid := False\<rparr>)) (\<lambda>_.
                wakeup (ChInode ip))))))
            else kreturn ()) (\<lambda>_.
     upd_inode ip (\<lambda>n. n\<lparr>i_ref := i_ref n - 1\<rparr>)))"

definition iunlockput :: "nat \<Rightarrow> ('z fsst_scheme, unit) kop" where
  "iunlockput ip = kbind (iunlock (Some ip)) (\<lambda>_. iput ip)"

record stat =
  st_type :: uint16
  st_dev :: uint
  st_ino :: uint
  st_nlink :: uint16
  st_size :: uint

definition stati :: "nat \<Rightarrow> ('z fsst_scheme, stat) kop" where
  "stati ip = kget (\<lambda>s. let n = inodes s ip in
     \<lparr>st_type = i_type n, st_dev = i_dev n, st_ino = i_inum n, st_nlink = i_nlink n, st_size = i_size n\<rparr>)"

text \<open>The bytes of the current block that a transfer of \<open>r\<close> more bytes at \<open>off\<close> covers.\<close>

definition chunk :: "uint \<Rightarrow> uint \<Rightarrow> uint" where
  "chunk off r = (let a = r; b = 512 - off mod 512 in if a < b then a else b)"

lemma chunk_bounds: "r \<noteq> 0 \<Longrightarrow> chunk off r \<noteq> 0 \<and> chunk off r \<le> r"
proof -
  assume r: "r \<noteq> 0"
  have "unat (off mod 512) < 512" by (simp add: unat_mod)
  then have "(512 :: uint) - off mod 512 \<noteq> 0" by auto
  with r show ?thesis by (auto simp: chunk_def Let_def)
qed

lemma chunk_decreases: "r \<noteq> 0 \<Longrightarrow> unat (r - chunk off r) < unat r"
proof -
  assume r: "r \<noteq> 0"
  have c: "unat (chunk off r) \<le> unat r" "unat (chunk off r) \<noteq> 0"
    using chunk_bounds [OF r, of off] by (simp_all add: word_le_nat_alt unat_eq_0)
  then have "unat (r - chunk off r) = unat r - unat (chunk off r)" by (simp add: unat_sub_if')
  with c show ?thesis by simp
qed

function read_loop :: "nat \<Rightarrow> uint \<Rightarrow> uint \<Rightarrow> ('z fsst_scheme, byte list) kop" where
  "read_loop ip off r =
     (if r = 0 then kreturn []
      else
        kbind (bmap ip (off div 512)) (\<lambda>addr.
        kbind (kget (\<lambda>s. i_dev (inodes s ip))) (\<lambda>dev.
        kbind (bread dev addr) (\<lambda>bp.
        kbind (buf_data bp) (\<lambda>v.
        kbind (brelse bp) (\<lambda>_.
        kbind (read_loop ip (off + chunk off r) (r - chunk off r)) (\<lambda>rest.
        kreturn (take (unat (chunk off r)) (drop (unat (off mod 512)) v) @ rest)))))))) "
  by pat_completeness auto
termination
  by (relation "measure (\<lambda>(ip, off, r). unat r)") (auto simp: chunk_decreases)

declare read_loop.simps [simp del]

definition readi :: "'z fsst_scheme devsw \<Rightarrow> nat \<Rightarrow> uint \<Rightarrow> uint \<Rightarrow> ('z fsst_scheme, int \<times> byte list) kop" where
  "readi dv ip off n =
     kbind (kget (\<lambda>s. inodes s ip)) (\<lambda>q.
     if i_type q = T_DEV then
       if sint (i_major q) < 0 \<or> sint (i_major q) \<ge> int NDEV then kreturn (-1, [])
       else (case dev_read dv (nat (sint (i_major q))) of None \<Rightarrow> kreturn (-1, []) | Some f \<Rightarrow> f ip n)
     else if off > i_size q \<or> off + n < off then kreturn (-1, [])
     else
       let n = (if off + n > i_size q then i_size q - off else n) in
       kbind (read_loop ip off n) (\<lambda>bs.
       kreturn (sint n, bs)))"

function write_loop :: "nat \<Rightarrow> byte list \<Rightarrow> uint \<Rightarrow> uint \<Rightarrow> ('z fsst_scheme, unit) kop" where
  "write_loop ip src off r =
     (if r = 0 then kreturn ()
      else
        kbind (bmap ip (off div 512)) (\<lambda>addr.
        kbind (kget (\<lambda>s. i_dev (inodes s ip))) (\<lambda>dev.
        kbind (bread dev addr) (\<lambda>bp.
        kbind (buf_data bp) (\<lambda>v.
        kbind (set_data bp (splice v (unat (off mod 512)) (take (unat (chunk off r)) src))) (\<lambda>_.
        kbind (log_write bp) (\<lambda>_.
        kbind (brelse bp) (\<lambda>_.
        write_loop ip (drop (unat (chunk off r)) src) (off + chunk off r) (r - chunk off r)))))))))"
  by pat_completeness auto
termination
  by (relation "measure (\<lambda>(ip, src, off, r). unat r)") (auto simp: chunk_decreases)

declare write_loop.simps [simp del]

definition writei :: "'z fsst_scheme devsw \<Rightarrow> nat \<Rightarrow> byte list \<Rightarrow> uint \<Rightarrow> uint \<Rightarrow> ('z fsst_scheme, int) kop" where
  "writei dv ip src off n =
     kbind (kget (\<lambda>s. inodes s ip)) (\<lambda>q.
     if i_type q = T_DEV then
       if sint (i_major q) < 0 \<or> sint (i_major q) \<ge> int NDEV then kreturn (-1)
       else (case dev_write dv (nat (sint (i_major q))) of None \<Rightarrow> kreturn (-1) | Some f \<Rightarrow> f ip src n)
     else if off > i_size q \<or> off + n < off then kreturn (-1)
     else if off + n > word_of_nat (MAXFILE * BSIZE) then kreturn (-1)
     else
       kbind (write_loop ip src off n) (\<lambda>_.
       kbind (kget (\<lambda>s. i_size (inodes s ip))) (\<lambda>sz.
       kbind (if n > 0 \<and> off + n > sz
              then kbind (upd_inode ip (\<lambda>q. q\<lparr>i_size := off + n\<rparr>)) (\<lambda>_. iupdate ip)
              else kreturn ()) (\<lambda>_.
       kreturn (sint n)))))"

section \<open>Directories\<close>

text \<open>Two byte strings placed in memory for the string routines: one at 0, one at 65536.\<close>

definition place :: "byte list \<Rightarrow> byte list \<Rightarrow> cmem" where
  "place s t a = (if a < 65536 then if a < length s then s ! a else 0
     else if a - 65536 < length t then t ! (a - 65536) else 0)"

definition namecmp :: "byte list \<Rightarrow> byte list \<Rightarrow> int" where
  "namecmp s t = strncmp (place s t) 0 65536 14"

text \<open>The 14 bytes \<^verbatim>\<open>strncpy(de.name, name, DIRSIZ)\<close> leaves in the entry.\<close>

definition name_field :: "byte list \<Rightarrow> byte list" where
  "name_field name = bytes_at (strncpy 65536 0 14 (place name [])) 65536 DIRSIZ"

text \<open>
  Reading one entry, as both directory loops do. The loop of \<^verbatim>\<open>dirlookup\<close> returns the inode found and its
  offset; the loop of \<^verbatim>\<open>dirlink\<close> the offset of the first empty entry or the end of the directory.
\<close>

definition read_entry :: "'z fsst_scheme devsw \<Rightarrow> nat \<Rightarrow> uint \<Rightarrow> ('z fsst_scheme, dirent) kop" where
  "read_entry dv dp off =
     kbind (readi dv dp off 16) (\<lambda>(r, bs).
     if r \<noteq> 16 then panic ''dirlink read'' else kreturn (dec_dirent bs))"

fun dirlookup_loop :: "'z fsst_scheme devsw \<Rightarrow> nat \<Rightarrow> byte list \<Rightarrow> nat list \<Rightarrow> ('z fsst_scheme, (nat \<times> uint) option) kop" where
  "dirlookup_loop dv dp name [] = kreturn None"
| "dirlookup_loop dv dp name (k # ks) =
     kbind (read_entry dv dp (word_of_nat (16 * k))) (\<lambda>de.
     if de_inum de = 0 then dirlookup_loop dv dp name ks
     else if namecmp name (de_name de) = 0 then
       kbind (kget (\<lambda>s. i_dev (inodes s dp))) (\<lambda>dev.
       kbind (iget dev (ucast (de_inum de))) (\<lambda>ip.
       kreturn (Some (ip, word_of_nat (16 * k)))))
     else dirlookup_loop dv dp name ks)"

text \<open>The offsets \<^verbatim>\<open>off = 0, 16, ...\<close> below the size of the directory, as entry numbers.\<close>

definition entries :: "uint \<Rightarrow> nat list" where
  "entries sz = [0..<(unat sz + 15) div 16]"

definition dirlookup :: "'z fsst_scheme devsw \<Rightarrow> nat \<Rightarrow> byte list \<Rightarrow> ('z fsst_scheme, (nat \<times> uint) option) kop" where
  "dirlookup dv dp name =
     kbind (kget (\<lambda>s. inodes s dp)) (\<lambda>n.
     if i_type n \<noteq> T_DIR then panic ''dirlookup not DIR''
     else dirlookup_loop dv dp name (entries (i_size n)))"

fun empty_entry :: "'z fsst_scheme devsw \<Rightarrow> nat \<Rightarrow> nat list \<Rightarrow> uint \<Rightarrow> ('z fsst_scheme, uint) kop" where
  "empty_entry dv dp [] lst = kreturn lst"
| "empty_entry dv dp (k # ks) lst =
     kbind (read_entry dv dp (word_of_nat (16 * k))) (\<lambda>de.
     if de_inum de = 0 then kreturn (word_of_nat (16 * k)) else empty_entry dv dp ks lst)"

definition dirlink :: "'z fsst_scheme devsw \<Rightarrow> nat \<Rightarrow> byte list \<Rightarrow> uint \<Rightarrow> ('z fsst_scheme, int) kop" where
  "dirlink dv dp name inum =
     kbind (dirlookup dv dp name) (\<lambda>r.
     case r of
       Some (ip, _) \<Rightarrow> kbind (iput ip) (\<lambda>_. kreturn (-1))
     | None \<Rightarrow>
         kbind (kget (\<lambda>s. i_size (inodes s dp))) (\<lambda>sz.
         kbind (empty_entry dv dp (entries sz) (word_of_nat (16 * length (entries sz)))) (\<lambda>off.
         kbind (writei dv dp (enc_dirent \<lparr>de_inum = ucast inum, de_name = name_field name\<rparr>) off 16) (\<lambda>r.
         if r \<noteq> 16 then panic ''dirlink'' else kreturn 0))))"

section \<open>Path names\<close>

abbreviation (input) slash :: byte where "slash \<equiv> 47"

text \<open>
  A path is the bytes before its terminating NUL. The result is the rest of the path and the name buffer
  after the call; the bytes of the buffer that are not written keep their old contents.
\<close>

definition skipelem :: "byte list \<Rightarrow> byte list \<Rightarrow> (byte list \<times> byte list) option" where
  "skipelem path name =
     (let p = dropWhile (\<lambda>c. c = slash) path in
      if p = [] then None
      else
        let el = takeWhile (\<lambda>c. c \<noteq> slash) p in
        Some (dropWhile (\<lambda>c. c = slash) (dropWhile (\<lambda>c. c \<noteq> slash) p),
          if length el \<ge> DIRSIZ then splice name 0 (take DIRSIZ el)
          else splice name 0 (el @ [0])))"

lemma skipelem_shorter: "skipelem path name = Some (p, n) \<Longrightarrow> length p < length path"
proof -
  assume h: "skipelem path name = Some (p, n)"
  let ?q = "dropWhile (\<lambda>c. c = slash) path"
  have q: "?q \<noteq> []" and p: "p = dropWhile (\<lambda>c. c = slash) (dropWhile (\<lambda>c. c \<noteq> slash) ?q)"
    using h by (auto simp: skipelem_def Let_def split: if_splits)
  have "hd ?q \<noteq> slash" using q hd_dropWhile by blast
  then have "length (dropWhile (\<lambda>c. c \<noteq> slash) ?q) < length ?q"
    using q length_dropWhile_le [of "\<lambda>c. c \<noteq> slash" "tl ?q"] by (cases ?q) auto
  moreover have "length ?q \<le> length path" by (rule length_dropWhile_le)
  moreover have "length p \<le> length (dropWhile (\<lambda>c. c \<noteq> slash) ?q)" unfolding p by (rule length_dropWhile_le)
  ultimately show ?thesis by simp
qed

function namex_loop :: "'z fsst_scheme devsw \<Rightarrow> nat \<Rightarrow> byte list \<Rightarrow> bool \<Rightarrow> byte list \<Rightarrow> ('z fsst_scheme, nat option \<times> byte list) kop" where
  "namex_loop dv ip path par name =
     (case skipelem path name of
        None \<Rightarrow>
          if par then kbind (iput ip) (\<lambda>_. kreturn (None, name))
          else kreturn (Some ip, name)
      | Some (path, name) \<Rightarrow>
          kbind (ilock (Some ip)) (\<lambda>_.
          kbind (kget (\<lambda>s. i_type (inodes s ip))) (\<lambda>ty.
          if ty \<noteq> T_DIR then kbind (iunlockput ip) (\<lambda>_. kreturn (None, name))
          else if par \<and> path = [] then kbind (iunlock (Some ip)) (\<lambda>_. kreturn (Some ip, name))
          else
            kbind (dirlookup dv ip name) (\<lambda>r.
            case r of
              None \<Rightarrow> kbind (iunlockput ip) (\<lambda>_. kreturn (None, name))
            | Some (nxt, _) \<Rightarrow>
                kbind (iunlockput ip) (\<lambda>_.
                namex_loop dv nxt path par name)))))"
  by pat_completeness auto
termination
  by (relation "measure (\<lambda>(dv, ip, path, par, name). length path)") (auto simp: skipelem_shorter)

declare namex_loop.simps [simp del]

definition namex :: "'z fsst_scheme devsw \<Rightarrow> byte list \<Rightarrow> bool \<Rightarrow> byte list \<Rightarrow> ('z fsst_scheme, nat option \<times> byte list) kop" where
  "namex dv path par name =
     kbind (if path \<noteq> [] \<and> hd path = slash then iget ROOTDEV ROOTINO
            else with_curr (\<lambda>p. kbind (kget (\<lambda>s. cwd (procs s p))) (\<lambda>c.
                 case c of None \<Rightarrow> fault ''cwd'' | Some ip \<Rightarrow> idup ip))) (\<lambda>ip.
     namex_loop dv ip path par name)"

definition namei :: "'z fsst_scheme devsw \<Rightarrow> byte list \<Rightarrow> ('z fsst_scheme, nat option) kop" where
  "namei dv path = kbind (namex dv path False (replicate DIRSIZ 0)) (\<lambda>(r, _). kreturn r)"

definition nameiparent :: "'z fsst_scheme devsw \<Rightarrow> byte list \<Rightarrow> byte list \<Rightarrow> ('z fsst_scheme, nat option \<times> byte list) kop" where
  "nameiparent dv path name = namex dv path True name"

end
