(* ===== verification/Name_Proofs.thy ===== *)
theory Name_Proofs
  imports Fs
begin

text \<open>
  Names: the names \<^verbatim>\<open>namex\<close> looks up are the elements of the path, cut at 14 bytes, and a directory entry is
  found under exactly the names that agree with its own in the first 14 bytes.
\<close>

section \<open>Path elements\<close>

text \<open>The text between slashes, and the elements of a path: the pieces that are not empty.\<close>

fun pieces :: "byte list \<Rightarrow> byte list list" where
  "pieces [] = [[]]"
| "pieces (c # cs) = (if c = slash then [] # pieces cs else (c # hd (pieces cs)) # tl (pieces cs))"

definition elements :: "byte list \<Rightarrow> byte list list" where
  "elements path = filter (\<lambda>e. e \<noteq> []) (pieces path)"

text \<open>A name buffer of 14 bytes holds the bytes before its first NUL.\<close>

definition cstr :: "byte list \<Rightarrow> byte list" where
  "cstr xs = takeWhile (\<lambda>c. c \<noteq> 0) xs"

text \<open>The names that the loop of \<^verbatim>\<open>namex\<close> finds in its buffer, one per call of \<^verbatim>\<open>skipelem\<close>.\<close>

function names_seen :: "byte list \<Rightarrow> byte list \<Rightarrow> byte list list" where
  "names_seen path name =
     (case skipelem path name of None \<Rightarrow> [] | Some (path', name') \<Rightarrow> cstr name' # names_seen path' name')"
  by pat_completeness auto
termination
  by (relation "measure (\<lambda>(path, name). length path)") (auto simp: skipelem_shorter)

declare names_seen.simps [simp del]

lemma pieces_nonempty [simp]: "pieces cs \<noteq> []"
  by (induction cs) auto

lemma elements_slash [simp]: "elements (slash # cs) = elements cs"
  by (simp add: elements_def)

lemma elements_dropWhile: "elements (dropWhile (\<lambda>c. c = slash) cs) = elements cs"
  by (induction cs) (auto simp: elements_def)

lemma elements_piece:
  "elements cs = filter (\<lambda>e. e \<noteq> []) [takeWhile (\<lambda>c. c \<noteq> slash) cs] @ elements (dropWhile (\<lambda>c. c \<noteq> slash) cs)"
proof -
  have "hd (pieces cs) = takeWhile (\<lambda>c. c \<noteq> slash) cs
    \<and> filter (\<lambda>e. e \<noteq> []) (tl (pieces cs)) = elements (dropWhile (\<lambda>c. c \<noteq> slash) cs)"
    by (induction cs) (auto simp: elements_def)
  moreover have "elements cs = filter (\<lambda>e. e \<noteq> []) (hd (pieces cs) # tl (pieces cs))" by (simp add: elements_def)
  ultimately show ?thesis by simp
qed

lemma elements_Nil: "elements [] = []"
  by (simp add: elements_def)

lemma skipelem_None: "skipelem path name = None \<Longrightarrow> elements path = []"
proof -
  assume "skipelem path name = None"
  then have "dropWhile (\<lambda>c. c = slash) path = []" unfolding skipelem_def Let_def by (metis option.distinct(1))
  then show ?thesis using elements_dropWhile [of path] elements_Nil by metis
qed

lemma cstr_no_nul: "0 \<notin> set xs \<Longrightarrow> cstr (xs @ 0 # ys) = xs" "0 \<notin> set xs \<Longrightarrow> cstr xs = xs"
  unfolding cstr_def by (induction xs) auto

lemma skipelem_Some:
  assumes "skipelem path name = Some (path', name')" and "0 \<notin> set path" and "length name = 14"
  shows "\<exists>e. elements path = e # elements path' \<and> cstr name' = take 14 e \<and> length name' = 14 \<and> 0 \<notin> set path'"
proof -
  let ?p = "dropWhile (\<lambda>c. c = slash) path"
  let ?e = "takeWhile (\<lambda>c. c \<noteq> slash) ?p"
  have ne: "?p \<noteq> []" and p': "path' = dropWhile (\<lambda>c. c = slash) (dropWhile (\<lambda>c. c \<noteq> slash) ?p)"
    and n': "name' = (if length ?e \<ge> DIRSIZ then splice name 0 (take DIRSIZ ?e) else splice name 0 (?e @ [0]))"
    using assms(1) by (auto simp: skipelem_def Let_def split: if_splits)
  have "hd ?p \<noteq> slash" using ne hd_dropWhile by blast
  then have "?e \<noteq> []" using ne by (cases ?p) auto
  then have el: "elements path = ?e # elements path'"
    using elements_piece [of ?p] by (simp add: elements_dropWhile p')
  have "set ?p \<subseteq> set path" "set ?e \<subseteq> set ?p" by (auto dest: set_dropWhileD set_takeWhileD)
  then have z: "0 \<notin> set ?e" "0 \<notin> set (take 14 ?e)" using assms(2) by (auto dest: in_set_takeD)
  have "cstr name' = take 14 ?e \<and> length name' = 14"
  proof (cases "length ?e \<ge> 14")
    case True
    then show ?thesis using assms(3) z(2) by (simp add: n' splice_def cstr_no_nul(2))
  next
    case False
    then show ?thesis using assms(3) z(1) by (simp add: n' splice_def cstr_no_nul(1))
  qed
  moreover have "0 \<notin> set path'" unfolding p' using assms(2) by (meson set_dropWhileD)
  ultimately show ?thesis using el by blast
qed

lemma names_seen_elements:
  "0 \<notin> set path \<Longrightarrow> length name = 14 \<Longrightarrow> names_seen path name = map (take 14) (elements path)"
proof (induction path name rule: names_seen.induct)
  case (1 path name)
  show ?case
  proof (cases "skipelem path name")
    case None
    then show ?thesis by (simp add: names_seen.simps skipelem_None)
  next
    case (Some r)
    obtain path' name' where r: "r = (path', name')" by fastforce
    obtain e where "elements path = e # elements path'" "cstr name' = take 14 e" "length name' = 14" "0 \<notin> set path'"
      using skipelem_Some [OF Some [unfolded r] 1(2,3)] by blast
    then show ?thesis using 1(1) [OF Some r [symmetric]] Some r by (simp add: names_seen.simps [of path])
  qed
qed

section \<open>Names in directory entries\<close>

lemma strncmp_n_zero:
  "strncmp_n m p q n = 0 \<longleftrightarrow> cstr (bytes_at m p n) = cstr (bytes_at m q n)"
proof (induction n arbitrary: p q)
  case (Suc n)
  then show ?case by (auto simp: bytes_at_Suc cstr_def word_uint_eq_iff)
qed simp

text \<open>The first \<open>n\<close> bytes of a C string in a field padded with NUL.\<close>

lemma cstr_take_pad: "cstr (take n (xs @ replicate n 0)) = take n (cstr xs)"
proof (induction n arbitrary: xs)
  case (Suc n)
  show ?case
  proof (cases xs)
    case (Cons x ys)
    have "take n (ys @ replicate (Suc n) 0) = take n (ys @ replicate n 0)"
      by (simp only: take_append take_replicate) simp
    then show ?thesis using Cons Suc [of ys] by (simp add: cstr_def)
  qed (simp add: cstr_def)
qed (simp add: cstr_def)

lemma place_first: "bytes_at (place xs ys) 0 14 = take 14 (xs @ replicate 14 0)"
  by (rule nth_equalityI) (auto simp: place_def nth_append)

lemma place_second: "bytes_at (place xs ys) 65536 14 = take 14 (ys @ replicate 14 0)"
  by (rule nth_equalityI) (auto simp: place_def nth_append)

lemma namecmp_zero: "namecmp xs ys = 0 \<longleftrightarrow> take 14 (cstr xs) = take 14 (cstr ys)"
  by (simp add: namecmp_def strncmp_def strncmp_n_zero place_first place_second cstr_take_pad del: take_append)

lemma cstr_at: "length xs < 65536 \<Longrightarrow> str_at (place xs []) 0 (cstr xs)"
proof -
  assume l: "length xs < 65536"
  have t: "cstr xs = take (length (cstr xs)) xs" unfolding cstr_def by (rule takeWhile_eq_take)
  have le: "length (cstr xs) \<le> length xs" unfolding cstr_def by (rule length_takeWhile_le)
  have b: "bytes_at (place xs []) 0 (length (cstr xs)) = cstr xs"
    by (subst (2) t, rule nth_equalityI) (use l le in \<open>auto simp: place_def\<close>)
  have "place xs [] (length (cstr xs)) = 0"
  proof (cases "length (cstr xs) < length xs")
    case True
    then have "xs ! length (cstr xs) = 0" unfolding cstr_def using nth_length_takeWhile by fastforce
    then show ?thesis using True l by (simp add: place_def)
  qed (use l le in \<open>simp add: place_def\<close>)
  moreover have "0 \<notin> set (cstr xs)" unfolding cstr_def by (auto dest: set_takeWhileD)
  ultimately show ?thesis using b by (simp add: str_at_def)
qed

lemma name_field_eq: "length xs < 65536 \<Longrightarrow> name_field xs = take 14 (cstr xs @ replicate 14 0)"
proof -
  assume l: "length xs < 65536"
  have "length (cstr xs) \<le> length xs" unfolding cstr_def by (rule length_takeWhile_le)
  then show ?thesis using strncpy_n_bytes [OF cstr_at [OF l], of 65536 14] l by (simp add: name_field_def strncpy_def)
qed

lemma cstr_idem: "cstr (cstr xs) = cstr xs"
  by (simp add: cstr_def)

section \<open>Properties\<close>

text \<open>
  C37: the names \<^verbatim>\<open>namex\<close> looks up are exactly the elements of the path between its slashes, each cut at 14
  bytes, whatever the number of slashes and whatever the name buffer held before.
\<close>

theorem path_elements_correct:
  assumes "0 \<notin> set path" and "length name = 14"
  shows "names_seen path name = map (take 14) (elements path)"
  by (rule names_seen_elements [OF assms])

text \<open>
  A directory entry written for a name is read back, and a lookup matches it under a name if and only if
  the two agree in their first 14 bytes.
\<close>

theorem dirent_name_roundtrip:
  assumes "length nm < 65536"
  shows "dec_dirent (enc_dirent \<lparr>de_inum = i, de_name = name_field nm\<rparr>) = \<lparr>de_inum = i, de_name = name_field nm\<rparr>
    \<and> (namecmp name (name_field nm) = 0 \<longleftrightarrow> take 14 (cstr name) = take 14 (cstr nm))"
proof
  have "length (name_field nm) = 14" by (simp add: name_field_eq [OF assms])
  then show "dec_dirent (enc_dirent \<lparr>de_inum = i, de_name = name_field nm\<rparr>) = \<lparr>de_inum = i, de_name = name_field nm\<rparr>"
    by (simp add: dec_dirent_def enc_dirent_def get_first)
  have "take 14 (cstr (name_field nm)) = take 14 (cstr nm)"
    by (simp add: name_field_eq [OF assms] cstr_take_pad cstr_idem del: take_append)
  then show "namecmp name (name_field nm) = 0 \<longleftrightarrow> take 14 (cstr name) = take 14 (cstr nm)" by (simp add: namecmp_zero)
qed

theorem path_elements_correct_witness:
  "names_seen [47, 97, 47, 47, 98, 99] (replicate 14 0) = [[97], [98, 99]]"
  using path_elements_correct [of "[47, 97, 47, 47, 98, 99]" "replicate 14 0"] by (simp add: elements_def)

theorem dirent_name_roundtrip_witness: "namecmp [97, 98] (name_field [97, 98]) = 0 \<and> namecmp [97] (name_field [97, 98]) \<noteq> 0"
  using dirent_name_roundtrip [of "[97, 98]" 0 "[97, 98]"] dirent_name_roundtrip [of "[97, 98]" 0 "[97]"] by (simp add: cstr_def)

end
