(* ===== verification/File.thy ===== *)
theory File
  imports Fs
begin

text \<open>
  Open files (\<^verbatim>\<open>source/file.c\<close>) and pipes (\<^verbatim>\<open>source/pipe.c\<close>). A file pointer is an index into the file
  table; a pipe is known by the address of its block from the kernel's allocator. Reads return the bytes
  put at the destination, writes take the bytes of the source.
\<close>

section \<open>State\<close>

abbreviation (input) NFILE :: nat where "NFILE \<equiv> 100"
abbreviation (input) PIPESIZE :: nat where "PIPESIZE \<equiv> 512"

datatype ftype = FD_NONE | FD_PIPE | FD_INODE

record kfile =
  f_type :: ftype
  f_ref :: int
  f_readable :: bool
  f_writable :: bool
  f_pipe :: uint
  f_ip :: nat
  f_off :: uint

record pipe =
  p_data :: "byte list"
  p_nread :: uint
  p_nwrite :: uint
  p_readopen :: bool
  p_writeopen :: bool

record filest = fsst +
  files :: "nat \<Rightarrow> kfile"
  pipes :: "uint \<Rightarrow> pipe"

definition upd_file :: "nat \<Rightarrow> (kfile \<Rightarrow> kfile) \<Rightarrow> ('z filest_scheme, unit) kop" where
  "upd_file f g = kmod (\<lambda>s. s\<lparr>files := (files s)(f := g (files s f))\<rparr>)"

definition upd_pipe :: "uint \<Rightarrow> (pipe \<Rightarrow> pipe) \<Rightarrow> ('z filest_scheme, unit) kop" where
  "upd_pipe p g = kmod (\<lambda>s. s\<lparr>pipes := (pipes s)(p := g (pipes s p))\<rparr>)"

section \<open>Pipes\<close>

text \<open>\<^verbatim>\<open>sizeof(struct pipe)\<close>: a lock of 52 bytes, the data and four words.\<close>

abbreviation (input) SIZEOF_PIPE :: uint where "SIZEOF_PIPE \<equiv> 580"

definition pipeclose :: "uint \<Rightarrow> bool \<Rightarrow> ('z filest_scheme, unit) kop" where
  "pipeclose p writable =
     kbind (if writable
            then kbind (upd_pipe p (\<lambda>q. q\<lparr>p_writeopen := False\<rparr>)) (\<lambda>_. wakeup (ChPipeRead (unat p)))
            else kbind (upd_pipe p (\<lambda>q. q\<lparr>p_readopen := False\<rparr>)) (\<lambda>_. wakeup (ChPipeWrite (unat p)))) (\<lambda>_.
     kbind (kget (\<lambda>s. pipes s p)) (\<lambda>q.
     if \<not> p_readopen q \<and> \<not> p_writeopen q
     then kbind (get_order SIZEOF_PIPE) (\<lambda>ord. kfree p (int ord))
     else kreturn ()))"

text \<open>One byte in and one byte out, as the two copy loops do it.\<close>

definition pipe_full :: "pipe \<Rightarrow> bool" where
  "pipe_full q \<longleftrightarrow> p_nwrite q = p_nread q + word_of_nat PIPESIZE"

definition pipe_empty :: "pipe \<Rightarrow> bool" where
  "pipe_empty q \<longleftrightarrow> p_nread q = p_nwrite q"

definition pipe_put :: "byte \<Rightarrow> pipe \<Rightarrow> pipe" where
  "pipe_put c q = q\<lparr>p_data := (p_data q)[unat (p_nwrite q) mod PIPESIZE := c], p_nwrite := p_nwrite q + 1\<rparr>"

definition pipe_get :: "pipe \<Rightarrow> byte \<times> pipe" where
  "pipe_get q = (p_data q ! (unat (p_nread q) mod PIPESIZE), q\<lparr>p_nread := p_nread q + 1\<rparr>)"

text \<open>The copy loop of \<^verbatim>\<open>pipewrite\<close> up to a full pipe: the bytes that are left.\<close>

fun pipe_fill :: "byte list \<Rightarrow> pipe \<Rightarrow> byte list \<times> pipe" where
  "pipe_fill [] q = ([], q)"
| "pipe_fill (c # cs) q = (if pipe_full q then (c # cs, q) else pipe_fill cs (pipe_put c q))"

text \<open>
  \<open>pipewrite p cs n\<close> with the bytes \<open>cs\<close> left of \<open>n\<close>. When the pipe is full the writer sleeps, and when it
  is woken it goes on with \<open>pipewrite p cs' n\<close> for the bytes \<open>cs'\<close> that were left.
\<close>

definition pipewrite :: "uint \<Rightarrow> byte list \<Rightarrow> int \<Rightarrow> ('z filest_scheme, int) kop" where
  "pipewrite p cs n =
     kbind (kget (\<lambda>s. pipe_fill cs (pipes s p))) (\<lambda>(rest, q).
     kbind (upd_pipe p (\<lambda>_. q)) (\<lambda>_.
     if rest = [] then kbind (wakeup (ChPipeRead (unat p))) (\<lambda>_. kreturn n)
     else if \<not> p_readopen q then kreturn (-1)
     else kbind (wakeup (ChPipeRead (unat p))) (\<lambda>_. sleep (ChPipeWrite (unat p)))))"

fun pipe_drain :: "nat \<Rightarrow> pipe \<Rightarrow> byte list \<times> pipe" where
  "pipe_drain 0 q = ([], q)"
| "pipe_drain (Suc n) q =
     (if pipe_empty q then ([], q)
      else let (c, q') = pipe_get q; (cs, q'') = pipe_drain n q' in (c # cs, q''))"

text \<open>A sleeping \<^verbatim>\<open>piperead\<close> starts over when it is woken.\<close>

definition piperead :: "uint \<Rightarrow> int \<Rightarrow> ('z filest_scheme, int \<times> byte list) kop" where
  "piperead p n =
     kbind (kget (\<lambda>s. pipes s p)) (\<lambda>q.
     if pipe_empty q \<and> p_writeopen q then
       with_curr (\<lambda>cp. kbind (kget (\<lambda>s. killed (procs s cp))) (\<lambda>k.
       if k then kreturn (-1, []) else sleep (ChPipeRead (unat p))))
     else
       let (cs, q') = pipe_drain (nat n) q in
       kbind (upd_pipe p (\<lambda>_. q')) (\<lambda>_.
       kbind (wakeup (ChPipeWrite (unat p))) (\<lambda>_.
       kreturn (int (length cs), cs))))"

section \<open>Files\<close>

fun find_file :: "(kfile \<Rightarrow> bool) \<Rightarrow> nat list \<Rightarrow> (nat \<Rightarrow> kfile) \<Rightarrow> nat option" where
  "find_file P [] fs = None"
| "find_file P (f # is) fs = (if P (fs f) then Some f else find_file P is fs)"

definition filealloc :: "('z filest_scheme, nat option) kop" where
  "filealloc =
     kbind (kget (\<lambda>s. find_file (\<lambda>f. f_ref f = 0) [0..<NFILE] (files s))) (\<lambda>r.
     case r of
       Some f \<Rightarrow> kbind (upd_file f (\<lambda>q. q\<lparr>f_ref := 1\<rparr>)) (\<lambda>_. kreturn (Some f))
     | None \<Rightarrow> kreturn None)"

definition filedup :: "nat \<Rightarrow> ('z filest_scheme, nat) kop" where
  "filedup f =
     kbind (kget (\<lambda>s. f_ref (files s f))) (\<lambda>r.
     if r < 1 then panic ''filedup''
     else kbind (upd_file f (\<lambda>q. q\<lparr>f_ref := f_ref q + 1\<rparr>)) (\<lambda>_. kreturn f))"

definition fileclose :: "nat \<Rightarrow> ('z filest_scheme, unit) kop" where
  "fileclose f =
     kbind (kget (\<lambda>s. files s f)) (\<lambda>q.
     if f_ref q < 1 then panic ''fileclose''
     else
       kbind (upd_file f (\<lambda>q. q\<lparr>f_ref := f_ref q - 1\<rparr>)) (\<lambda>_.
       if f_ref q - 1 > 0 then kreturn ()
       else
         kbind (upd_file f (\<lambda>q. q\<lparr>f_ref := 0, f_type := FD_NONE\<rparr>)) (\<lambda>_.
         case f_type q of
           FD_PIPE \<Rightarrow> pipeclose (f_pipe q) (f_writable q)
         | FD_INODE \<Rightarrow> kbind begin_trans (\<lambda>_. kbind (iput (f_ip q)) (\<lambda>_. commit_trans))
         | FD_NONE \<Rightarrow> kreturn ())))"

definition filestat :: "nat \<Rightarrow> ('z filest_scheme, stat option) kop" where
  "filestat f =
     kbind (kget (\<lambda>s. files s f)) (\<lambda>q.
     if f_type q = FD_INODE then
       kbind (ilock (Some (f_ip q))) (\<lambda>_.
       kbind (stati (f_ip q)) (\<lambda>st.
       kbind (iunlock (Some (f_ip q))) (\<lambda>_.
       kreturn (Some st))))
     else kreturn None)"

definition fileread :: "'z filest_scheme devsw \<Rightarrow> nat \<Rightarrow> int \<Rightarrow> ('z filest_scheme, int \<times> byte list) kop" where
  "fileread dv f n =
     kbind (kget (\<lambda>s. files s f)) (\<lambda>q.
     if \<not> f_readable q then kreturn (-1, [])
     else case f_type q of
         FD_PIPE \<Rightarrow> piperead (f_pipe q) n
       | FD_INODE \<Rightarrow>
           kbind (ilock (Some (f_ip q))) (\<lambda>_.
           kbind (kget (\<lambda>s. f_off (files s f))) (\<lambda>off.
           kbind (readi dv (f_ip q) off (word_of_int n)) (\<lambda>(r, bs).
           kbind (if r > 0 then upd_file f (\<lambda>q. q\<lparr>f_off := f_off q + word_of_int r\<rparr>) else kreturn ()) (\<lambda>_.
           kbind (iunlock (Some (f_ip q))) (\<lambda>_.
           kreturn (r, bs))))))
       | FD_NONE \<Rightarrow> panic ''fileread'')"

text \<open>The largest write of one transaction: \<^verbatim>\<open>((LOGSIZE - 1 - 1 - 2) / 2) * 512\<close>.\<close>

definition max_write :: int where "max_write = (int LOGSIZE - 1 - 1 - 2) div 2 * 512"

text \<open>The loop of \<^verbatim>\<open>filewrite\<close> at byte \<open>i\<close> of \<open>n\<close>: the index at which it ends.\<close>

function filewrite_loop :: "'z filest_scheme devsw \<Rightarrow> nat \<Rightarrow> byte list \<Rightarrow> int \<Rightarrow> int \<Rightarrow> ('z filest_scheme, int) kop" where
  "filewrite_loop dv f src i n =
     (if i < n then
        let n1 = (if n - i > max_write then max_write else n - i) in
        kbind begin_trans (\<lambda>_.
        kbind (kget (\<lambda>s. files s f)) (\<lambda>q.
        kbind (ilock (Some (f_ip q))) (\<lambda>_.
        kbind (writei dv (f_ip q) (drop (nat i) src) (f_off q) (word_of_int n1)) (\<lambda>r.
        kbind (if r > 0 then upd_file f (\<lambda>q. q\<lparr>f_off := f_off q + word_of_int r\<rparr>) else kreturn ()) (\<lambda>_.
        kbind (iunlock (Some (f_ip q))) (\<lambda>_.
        kbind commit_trans (\<lambda>_.
        if r < 0 then kreturn i
        else if r \<noteq> n1 then panic ''short filewrite''
        else filewrite_loop dv f src (i + n1) n)))))))
      else kreturn i)"
  by pat_completeness auto
termination
  by (relation "measure (\<lambda>(dv, f, src, i, n). nat (n - i))") (auto simp: max_write_def)

declare filewrite_loop.simps [simp del]

definition filewrite :: "'z filest_scheme devsw \<Rightarrow> nat \<Rightarrow> byte list \<Rightarrow> int \<Rightarrow> ('z filest_scheme, int) kop" where
  "filewrite dv f src n =
     kbind (kget (\<lambda>s. files s f)) (\<lambda>q.
     if \<not> f_writable q then kreturn (-1)
     else case f_type q of
         FD_PIPE \<Rightarrow> pipewrite (f_pipe q) (take (nat n) src) n
       | FD_INODE \<Rightarrow> kbind (filewrite_loop dv f src 0 n) (\<lambda>i. kreturn (if i = n then n else -1))
       | FD_NONE \<Rightarrow> panic ''filewrite'')"

text \<open>\<^verbatim>\<open>pipealloc\<close>: the two files, or \<open>None\<close> after giving back what it had got.\<close>

definition close_opt :: "nat option \<Rightarrow> ('z filest_scheme, unit) kop" where
  "close_opt f = (case f of None \<Rightarrow> kreturn () | Some f \<Rightarrow> fileclose f)"

definition pipealloc :: "('z filest_scheme, (nat \<times> nat) option) kop" where
  "pipealloc =
     kbind filealloc (\<lambda>f0.
     case f0 of
       None \<Rightarrow> kreturn None
     | Some a \<Rightarrow>
         kbind filealloc (\<lambda>f1.
         case f1 of
           None \<Rightarrow> kbind (close_opt f0) (\<lambda>_. kreturn None)
         | Some b \<Rightarrow>
             kbind (get_order SIZEOF_PIPE) (\<lambda>ord.
             kbind (kmalloc (int ord)) (\<lambda>p.
             if p = 0 then
               kbind (close_opt f0) (\<lambda>_.
               kbind (close_opt f1) (\<lambda>_.
               kreturn None))
             else
               kbind (upd_pipe p (\<lambda>q. q\<lparr>p_readopen := True, p_writeopen := True, p_nwrite := 0, p_nread := 0\<rparr>)) (\<lambda>_.
               kbind (upd_file a (\<lambda>q. q\<lparr>f_type := FD_PIPE, f_readable := True, f_writable := False, f_pipe := p\<rparr>)) (\<lambda>_.
               kbind (upd_file b (\<lambda>q. q\<lparr>f_type := FD_PIPE, f_readable := False, f_writable := True, f_pipe := p\<rparr>)) (\<lambda>_.
               kreturn (Some (a, b)))))))))"

end
