(* ===== verification/Console.thy ===== *)
theory Console
  imports File Spinlock
begin

unbundle bit_operations_syntax

text \<open>
  The console (\<^verbatim>\<open>source/console.c\<close>): output to the serial port and to the frame buffer, formatted printing,
  line editing on input, and the console device. The transmit register of the serial port
  (\<^verbatim>\<open>uartputc\<close> of \<^verbatim>\<open>source/uart.c\<close>) is the list of bytes sent. The frame buffer is a function of the
  pixel's column and row.
\<close>

section \<open>State\<close>

abbreviation (input) N_CALLSTK :: nat where "N_CALLSTK \<equiv> 15"
abbreviation (input) INPUT_BUF :: nat where "INPUT_BUF \<equiv> 128"
abbreviation (input) BACKSPACE :: int where "BACKSPACE \<equiv> 0x100"
abbreviation (input) framewidth :: uint where "framewidth \<equiv> 1024"
abbreviation (input) frameheight :: uint where "frameheight \<equiv> 768"
abbreviation (input) fontwidth :: uint where "fontwidth \<equiv> 8"
abbreviation (input) fontheight :: uint where "fontheight \<equiv> 16"

record input =
  in_buf :: "byte list"
  in_r :: uint
  in_w :: uint
  in_e :: uint

record consst = filest +
  cons_in :: input
  uart_out :: "byte list"
  panicked :: bool
  cursor_x :: uint
  cursor_y :: uint
  gpucolour :: uint16
  fb :: "nat \<Rightarrow> nat \<Rightarrow> uint16"

definition upd_input :: "(input \<Rightarrow> input) \<Rightarrow> ('z consst_scheme, unit) kop" where
  "upd_input f = kmod (\<lambda>s. s\<lparr>cons_in := f (cons_in s)\<rparr>)"

section \<open>The frame buffer\<close>

definition setgpucolour :: "uint16 \<Rightarrow> ('z consst_scheme, unit) kop" where
  "setgpucolour c = kmod (\<lambda>s. s\<lparr>gpucolour := c\<rparr>)"

definition drawpixel :: "uint \<Rightarrow> uint \<Rightarrow> ('z consst_scheme, unit) kop" where
  "drawpixel x y =
     (if x \<ge> framewidth \<or> y \<ge> frameheight then kreturn ()
      else kmod (\<lambda>s. s\<lparr>fb := (fb s)(unat x := (fb s (unat x))(unat y := gpucolour s))\<rparr>))"

definition drawcursor :: "uint \<Rightarrow> uint \<Rightarrow> ('z consst_scheme, unit) kop" where
  "drawcursor x y = kfor (\<lambda>row. kfor (\<lambda>b. drawpixel (x + word_of_nat b) (y + word_of_nat row)) [0..<8]) [0..<15]"

text \<open>The font is the contents of a binary file linked into the kernel.\<close>

definition drawcharacter :: "(nat \<Rightarrow> byte) \<Rightarrow> byte \<Rightarrow> uint \<Rightarrow> uint \<Rightarrow> ('z consst_scheme, unit) kop" where
  "drawcharacter font c x y =
     (if c > 127 then kreturn ()
      else kfor (\<lambda>row. kfor (\<lambda>b.
             if bit (font (unat c * 16 + row)) b then drawpixel (x + word_of_nat b) (y + word_of_nat row) else kreturn ())
             [0..<8]) [0..<15])"

text \<open>Scrolling: every line of text moves up by one, and the last line is cleared.\<close>

definition scroll :: "('z consst_scheme, unit) kop" where
  "scroll =
     kbind (kmod (\<lambda>s. s\<lparr>fb := (\<lambda>x y. if x < unat framewidth \<and> y < unat frameheight - unat fontheight
        then fb s x (y + unat fontheight) else fb s x y)\<rparr>)) (\<lambda>_.
     kbind (kmod (\<lambda>s. s\<lparr>cursor_y := frameheight - fontheight\<rparr>)) (\<lambda>_.
     kbind (setgpucolour 0) (\<lambda>_.
     kbind (kget (\<lambda>s. (cursor_x s, cursor_y s))) (\<lambda>(cx, cy).
     kbind (kfor (\<lambda>x. drawcursor x cy) (steps cx framewidth (unat fontwidth))) (\<lambda>_.
     kbind (setgpucolour 0xffff) (\<lambda>_.
     kmod (\<lambda>s. s\<lparr>cursor_x := 0\<rparr>)))))))"

definition newline :: "('z consst_scheme, unit) kop" where
  "newline =
     kbind (kmod (\<lambda>s. s\<lparr>cursor_x := 0, cursor_y := cursor_y s + fontheight\<rparr>)) (\<lambda>_.
     kbind (kget cursor_y) (\<lambda>cy.
     if cy \<ge> frameheight then scroll else kreturn ()))"

definition gpuputc :: "(nat \<Rightarrow> byte) \<Rightarrow> uint \<Rightarrow> ('z consst_scheme, unit) kop" where
  "gpuputc font c =
     (if c = 10 then newline
      else if c = word_of_int BACKSPACE then
        kbind (kget cursor_x) (\<lambda>cx.
        if cx > 0 then
          kbind (kmod (\<lambda>s. s\<lparr>cursor_x := cx - fontwidth\<rparr>)) (\<lambda>_.
          kbind (setgpucolour 0) (\<lambda>_.
          kbind (kget cursor_y) (\<lambda>cy.
          kbind (drawcursor (cx - fontwidth) cy) (\<lambda>_.
          setgpucolour 0xffff))))
        else kreturn ())
      else
        kbind (setgpucolour 0) (\<lambda>_.
        kbind (kget (\<lambda>s. (cursor_x s, cursor_y s))) (\<lambda>(cx, cy).
        kbind (drawcursor cx cy) (\<lambda>_.
        kbind (setgpucolour 0xffff) (\<lambda>_.
        kbind (if c \<noteq> 32 then drawcharacter font (ucast c) cx cy else kreturn ()) (\<lambda>_.
        kbind (kmod (\<lambda>s. s\<lparr>cursor_x := cx + fontwidth\<rparr>)) (\<lambda>_.
        kbind (kget cursor_x) (\<lambda>cx.
        if cx \<ge> framewidth then newline else kreturn ()))))))))"

section \<open>Output\<close>

definition uartputc :: "uint \<Rightarrow> ('z consst_scheme, unit) kop" where
  "uartputc c = kmod (\<lambda>s. s\<lparr>uart_out := uart_out s @ (if c = 10 then [13, 10] else [ucast c])\<rparr>)"

text \<open>After a panic, \<^verbatim>\<open>consputc\<close> never returns.\<close>

definition consputc :: "int \<Rightarrow> ('z consst_scheme, unit) kop" where
  "consputc c =
     kbind (kget panicked) (\<lambda>p.
     if p then panic ''halted''
     else if c = BACKSPACE then kbind (uartputc 8) (\<lambda>_. kbind (uartputc 32) (\<lambda>_. uartputc 8))
     else if c = 4 then kbind (uartputc 94) (\<lambda>_. uartputc 68)
     else uartputc (word_of_int c))"

definition digits :: "byte list" where
  "digits = map (\<lambda>c. word_of_nat (of_char c)) ''0123456789abcdef''"

text \<open>
  The digit loop of \<^verbatim>\<open>printint\<close>, least significant digit first, into a buffer with room for \<open>n\<close> more
  bytes; \<open>None\<close> is a write past its end.
\<close>

fun digit_loop :: "nat \<Rightarrow> uint \<Rightarrow> uint \<Rightarrow> byte list option" where
  "digit_loop 0 x b = None"
| "digit_loop (Suc n) x b =
     (let y = cdiv x b; d = digits ! unat (x - y * b) in
      if y = 0 then Some [d]
      else case digit_loop n y b of None \<Rightarrow> None | Some ds \<Rightarrow> Some (d # ds))"

definition printint_buf :: "uint \<Rightarrow> uint \<Rightarrow> bool \<Rightarrow> byte list option" where
  "printint_buf xx b sign =
     (let neg = (sign \<and> sint xx < 0); x = (if neg then - xx else xx) in
      case digit_loop 16 x b of
        None \<Rightarrow> None
      | Some ds \<Rightarrow> if neg then if length ds < 16 then Some (ds @ [45]) else None else Some ds)"

definition printint :: "uint \<Rightarrow> uint \<Rightarrow> bool \<Rightarrow> ('z consst_scheme, unit) kop" where
  "printint xx b sign =
     (case printint_buf xx b sign of
        None \<Rightarrow> fault ''printint''
      | Some ds \<Rightarrow> kfor (\<lambda>c. consputc (uint c)) (rev ds))"

text \<open>The arguments of \<^verbatim>\<open>cprintf\<close>: words, and strings (\<open>None\<close> the null pointer).\<close>

datatype parg = PInt uint | PStr "byte list option"

fun print_str :: "byte list option \<Rightarrow> byte list" where
  "print_str None = map (\<lambda>c. word_of_nat (of_char c)) ''(null)''"
| "print_str (Some s) = s"

fun cprintf_loop :: "byte list \<Rightarrow> parg list \<Rightarrow> ('z consst_scheme, unit) kop" where
  "cprintf_loop [] as = kreturn ()"
| "cprintf_loop [c] as = (if c \<noteq> 37 then consputc (uint c) else kreturn ())"
| "cprintf_loop (c # d # cs) as =
     (if c \<noteq> 37 then kbind (consputc (uint c)) (\<lambda>_. cprintf_loop (d # cs) as)
      else if d = 100 then
        (case as of PInt x # as \<Rightarrow> kbind (printint x 10 True) (\<lambda>_. cprintf_loop cs as) | _ \<Rightarrow> fault ''cprintf'')
      else if d = 120 \<or> d = 112 then
        (case as of PInt x # as \<Rightarrow> kbind (printint x 16 False) (\<lambda>_. cprintf_loop cs as) | _ \<Rightarrow> fault ''cprintf'')
      else if d = 115 then
        (case as of PStr s # as \<Rightarrow> kbind (kfor (\<lambda>c. consputc (uint c)) (print_str s)) (\<lambda>_. cprintf_loop cs as) | _ \<Rightarrow> fault ''cprintf'')
      else if d = 37 then kbind (consputc 37) (\<lambda>_. cprintf_loop cs as)
      else kbind (consputc 37) (\<lambda>_. kbind (consputc (uint d)) (\<lambda>_. cprintf_loop cs as)))"

definition cprintf :: "byte list option \<Rightarrow> parg list \<Rightarrow> ('z consst_scheme, unit) kop" where
  "cprintf fmt as = (case fmt of None \<Rightarrow> panic ''null fmt'' | Some f \<Rightarrow> cprintf_loop f as)"

text \<open>ASCII text as bytes.\<close>

definition txt_bytes :: "string \<Rightarrow> byte list" where
  "txt_bytes = map (\<lambda>c. word_of_nat (of_char c))"

definition nl :: "string \<Rightarrow> byte list" where "nl s = txt_bytes s @ [10]"

section \<open>Input\<close>

text \<open>
  The call stack (\<^verbatim>\<open>show_callstk\<close> of \<^verbatim>\<open>source/arm.c\<close>), from the innermost of the 15 frames outwards; \<open>fp\<close> is
  the frame pointer at the call.
\<close>

definition show_callstk :: "uint \<Rightarrow> string \<Rightarrow> ('z consst_scheme, unit) kop" where
  "show_callstk fp m =
     kbind (cprintf (Some (nl ''%s'')) [PStr (Some (txt_bytes m))]) (\<lambda>_.
     kbind (kget (\<lambda>s. getcallerpcs (\<lambda>a. ld32 (pm s) (unat a)) fp N_CALLSTK)) (\<lambda>pcs.
     kfor (\<lambda>i. cprintf (Some (nl ''%d: 0x%x'')) [PInt (word_of_nat (i + 1)), PInt (pcs ! i)]) (rev [0..<N_CALLSTK])))"

fun state_name :: "procstate \<Rightarrow> string" where
  "state_name UNUSED = ''unused''"
| "state_name EMBRYO = ''embryo''"
| "state_name SLEEPING = ''sleep ''"
| "state_name RUNNABLE = ''runble''"
| "state_name RUNNING = ''run   ''"
| "state_name ZOMBIE = ''zombie''"

definition procdump_one :: "nat \<Rightarrow> ('z consst_scheme, unit) kop" where
  "procdump_one p =
     kbind (kget (\<lambda>s. procs s p)) (\<lambda>q.
     if pstate q = UNUSED then kreturn ()
     else cprintf (Some (txt_bytes ''%d %s %s'' @ [10]))
            [PInt (word_of_int (pid q)), PStr (Some (txt_bytes (state_name (pstate q)))), PStr (Some (pname q))])"

definition procdump :: "uint \<Rightarrow> ('z consst_scheme, unit) kop" where
  "procdump fp =
     kbind (kfor procdump_one [0..<NPROC]) (\<lambda>_.
     show_callstk fp (''procdump: '' @ [CHR 0x0A]))"

text \<open>Kill line: from the edit index back to the write index or a newline; at most 128 characters.\<close>

fun kill_line :: "nat \<Rightarrow> ('z consst_scheme, unit) kop" where
  "kill_line 0 = kreturn ()"
| "kill_line (Suc n) =
     kbind (kget cons_in) (\<lambda>i.
     if in_e i \<noteq> in_w i \<and> in_buf i ! (unat (in_e i - 1) mod INPUT_BUF) \<noteq> 10 then
       kbind (upd_input (\<lambda>i. i\<lparr>in_e := in_e i - 1\<rparr>)) (\<lambda>_.
       kbind (consputc BACKSPACE) (\<lambda>_.
       kill_line n))
     else kreturn ())"

definition consoleintr_char :: "uint \<Rightarrow> int \<Rightarrow> ('z consst_scheme, unit) kop" where
  "consoleintr_char fp c =
     (if c = 16 then procdump fp
      else if c = 21 then kbind (kget cons_in) (\<lambda>i. kill_line (unat (in_e i - in_w i)))
      else if c = 8 \<or> c = 127 then
        kbind (kget cons_in) (\<lambda>i.
        if in_e i \<noteq> in_w i then
          kbind (upd_input (\<lambda>i. i\<lparr>in_e := in_e i - 1\<rparr>)) (\<lambda>_.
          consputc BACKSPACE)
        else kreturn ())
      else
        kbind (kget cons_in) (\<lambda>i.
        if c \<noteq> 0 \<and> in_e i - in_r i < word_of_nat INPUT_BUF then
          if c = 10 then kreturn ()
          else
            let c = (if c = 13 then 10 else c) in
            kbind (upd_input (\<lambda>i. i\<lparr>in_buf := (in_buf i)[unat (in_e i) mod INPUT_BUF := word_of_int c],
              in_e := in_e i + 1\<rparr>)) (\<lambda>_.
            kbind (consputc c) (\<lambda>_.
            kbind (kget cons_in) (\<lambda>i.
            if c = 10 \<or> c = 4 \<or> in_e i = in_r i + word_of_nat INPUT_BUF then
              kbind (upd_input (\<lambda>i. i\<lparr>in_w := in_e i\<rparr>)) (\<lambda>_.
              wakeup ChInput)
            else kreturn ())))
        else kreturn ()))"

text \<open>The characters the serial port has ready, in order.\<close>

definition consoleintr :: "uint \<Rightarrow> byte list \<Rightarrow> ('z consst_scheme, unit) kop" where
  "consoleintr fp cs = kfor (\<lambda>c. consoleintr_char fp (uint c)) cs"

section \<open>The console device\<close>

text \<open>
  The copy loop of \<^verbatim>\<open>consoleread\<close> with \<open>n\<close> of \<open>target\<close> bytes left: the bytes copied and the input after it,
  or \<open>None\<close> when it has to wait with the bytes copied so far.
\<close>

fun cons_copy :: "nat \<Rightarrow> nat \<Rightarrow> input \<Rightarrow> bool \<times> byte list \<times> input" where
  "cons_copy 0 target i = (True, [], i)"
| "cons_copy (Suc n) target i =
     (if in_r i = in_w i then (False, [], i)
      else
        let c = in_buf i ! (unat (in_r i) mod INPUT_BUF); i' = i\<lparr>in_r := in_r i + 1\<rparr> in
        if c = 4 then (True, [], if Suc n < target then i else i')
        else if c = 10 then (True, [c], i')
        else case cons_copy n target i' of (b, cs, i'') \<Rightarrow> (b, c # cs, i''))"

text \<open>
  \<open>got\<close> are the bytes copied before the last sleep; a reader that is woken goes on with the bytes copied so
  far.
\<close>

definition consoleread_from :: "nat \<Rightarrow> byte list \<Rightarrow> nat \<Rightarrow> ('z consst_scheme, int \<times> byte list) kop" where
  "consoleread_from ip got target =
     kbind (kget (\<lambda>s. cons_copy (target - length got) target (cons_in s))) (\<lambda>(fin, cs, i).
     kbind (upd_input (\<lambda>_. i)) (\<lambda>_.
     if fin then kbind (ilock (Some ip)) (\<lambda>_. kreturn (int (length (got @ cs)), got @ cs))
     else
       with_curr (\<lambda>cp. kbind (kget (\<lambda>s. killed (procs s cp))) (\<lambda>k.
       if k then kbind (ilock (Some ip)) (\<lambda>_. kreturn (-1, got @ cs)) else sleep ChInput))))"

definition consoleread :: "nat \<Rightarrow> uint \<Rightarrow> ('z consst_scheme, int \<times> byte list) kop" where
  "consoleread ip n =
     kbind (iunlock (Some ip)) (\<lambda>_.
     consoleread_from ip [] (nat (sint n)))"

definition consolewrite :: "nat \<Rightarrow> byte list \<Rightarrow> uint \<Rightarrow> ('z consst_scheme, int) kop" where
  "consolewrite ip buf n =
     kbind (iunlock (Some ip)) (\<lambda>_.
     kbind (kfor (\<lambda>c. consputc (uint c)) (take (nat (sint n)) buf)) (\<lambda>_.
     kbind (ilock (Some ip)) (\<lambda>_.
     kreturn (sint n))))"

text \<open>The device switch after \<^verbatim>\<open>consoleinit\<close>: device 1 is the console.\<close>

definition console_devsw :: "'z consst_scheme devsw" where
  "console_devsw = \<lparr>dev_read = (\<lambda>m. if m = 1 then Some consoleread else None),
     dev_write = (\<lambda>m. if m = 1 then Some consolewrite else None)\<rparr>"

definition consoleinit :: "('z consst_scheme, unit) kop" where
  "consoleinit = kmod (\<lambda>s. s\<lparr>cons_in := \<lparr>in_buf = replicate INPUT_BUF 0, in_r = 0, in_w = 0, in_e = 0\<rparr>,
     panicked := False, cursor_x := 0, cursor_y := 0\<rparr>)"

end
