(* ===== verification/Exec.thy ===== *)
theory Exec
  imports Console
begin

unbundle bit_operations_syntax

text \<open>
  The life of a process: the first process, fork and exit with their files (\<^verbatim>\<open>source/proc.c\<close>), and
  \<^verbatim>\<open>exec\<close> (\<^verbatim>\<open>source/exec.c\<close>, \<^verbatim>\<open>loaduvm\<close> of \<^verbatim>\<open>source/vm.c\<close>). Memory of the current process is accessed at its
  user addresses through its page table, as the hardware does; an access to an address that is not
  mapped is a fault.
\<close>

section \<open>State\<close>

abbreviation (input) NOFILE :: nat where "NOFILE \<equiv> 16"
abbreviation (input) MAXARG :: nat where "MAXARG \<equiv> 32"
abbreviation (input) NCPU :: nat where "NCPU \<equiv> 4"

record sysst = consst +
  ticks :: uint
  cpu_enabled :: "nat \<Rightarrow> int"
  first_ret :: bool

section \<open>User memory\<close>

definition put_mem :: "uint \<Rightarrow> byte list \<Rightarrow> ('z vmem_scheme, unit) kop" where
  "put_mem a bs = kmod (\<lambda>s. s\<lparr>pm := (\<lambda>x. if unat a \<le> x \<and> x < unat a + length bs then bs ! (x - unat a) else pm s x)\<rparr>)"

definition user_pa :: "uint \<Rightarrow> ('z ptable_scheme, uint) kop" where
  "user_pa va = with_curr (\<lambda>cp.
     kbind (kget (\<lambda>s. pgdir (procs s cp))) (\<lambda>pd.
     kbind (walkpgdir pd va False) (\<lambda>pte.
     if pte = 0 then fault ''data abort''
     else kbind (load pte) (\<lambda>e.
          if e AND PE_TYPES = 0 then fault ''data abort''
          else kreturn (p2v (PTE_ADDR e) + (va AND 0xFFF))))))"

fun user_bytes :: "uint \<Rightarrow> nat \<Rightarrow> ('z ptable_scheme, byte list) kop" where
  "user_bytes va 0 = kreturn []"
| "user_bytes va (Suc n) =
     kbind (user_pa va) (\<lambda>a.
     kbind (kget (\<lambda>s. pm s (unat a))) (\<lambda>c.
     kbind (user_bytes (va + 1) n) (\<lambda>cs.
     kreturn (c # cs))))"

fun put_user :: "uint \<Rightarrow> byte list \<Rightarrow> ('z ptable_scheme, unit) kop" where
  "put_user va [] = kreturn ()"
| "put_user va (c # cs) =
     kbind (user_pa va) (\<lambda>a.
     kbind (put_mem a [c]) (\<lambda>_.
     put_user (va + 1) cs))"

section \<open>Loading programs\<close>

fun loaduvm_loop :: "'z fsst_scheme devsw \<Rightarrow> uint \<Rightarrow> uint \<Rightarrow> nat \<Rightarrow> uint \<Rightarrow> uint \<Rightarrow> uint list \<Rightarrow> ('z fsst_scheme, int) kop" where
  "loaduvm_loop dv pd addr ip fo sz [] = kreturn 0"
| "loaduvm_loop dv pd addr ip fo sz (i # is) =
     kbind (walkpgdir pd (addr + i) False) (\<lambda>pte.
     if pte = 0 then panic ''loaduvm: address should exist''
     else
       kbind (load pte) (\<lambda>e.
       let n = (if sz - i < PTE_SZ then sz - i else PTE_SZ) in
       kbind (readi dv ip (fo + i) n) (\<lambda>(r, bs).
       kbind (put_mem (p2v (PTE_ADDR e)) bs) (\<lambda>_.
       if word_of_int r \<noteq> n then kreturn (-1)
       else loaduvm_loop dv pd addr ip fo sz is))))"

definition loaduvm :: "'z fsst_scheme devsw \<Rightarrow> uint \<Rightarrow> uint \<Rightarrow> nat \<Rightarrow> uint \<Rightarrow> uint \<Rightarrow> ('z fsst_scheme, int) kop" where
  "loaduvm dv pd addr ip fo sz =
     (if addr mod PTE_SZ \<noteq> 0 then panic ''loaduvm: addr must be page aligned''
      else loaduvm_loop dv pd addr ip fo sz (steps 0 sz 4096))"

text \<open>\<^verbatim>\<open>copyout\<close> of bytes given as a list.\<close>

function copyout_bytes :: "uint \<Rightarrow> uint \<Rightarrow> byte list \<Rightarrow> ('z vmem_scheme, int) kop" where
  "copyout_bytes pd va bs =
     (if bs = [] then kreturn 0
      else
        let va0 = align_dn va PTE_SZ; n = min (length bs) (unat (PTE_SZ - (va - va0))) in
        kbind (uva2ka pd va0) (\<lambda>pa0.
        if pa0 = 0 then kreturn (-1)
        else
          kbind (put_mem (pa0 + (va - va0)) (take n bs)) (\<lambda>_.
          if n = 0 then fault ''copyout'' else copyout_bytes pd (va0 + PTE_SZ) (drop n bs))))"
  by pat_completeness auto
termination
  by (relation "measure (\<lambda>(pd, va, bs). length bs)") (auto simp: min_def)

declare copyout_bytes.simps [simp del]

text \<open>The fields of the ELF header and of a program header that \<^verbatim>\<open>exec\<close> uses.\<close>

record elfhdr =
  e_magic :: uint
  e_entry :: uint
  e_phoff :: uint
  e_phnum :: nat

record proghdr =
  ph_type :: uint
  ph_off :: uint
  ph_vaddr :: uint
  ph_filesz :: uint
  ph_memsz :: uint

definition dec_elfhdr :: "byte list \<Rightarrow> elfhdr" where
  "dec_elfhdr v = \<lparr>e_magic = get32 v 0, e_entry = get32 v 24, e_phoff = get32 v 28, e_phnum = unat (get16 v 44)\<rparr>"

definition dec_proghdr :: "byte list \<Rightarrow> proghdr" where
  "dec_proghdr v = \<lparr>ph_type = get32 v 0, ph_off = get32 v 4, ph_vaddr = get32 v 8, ph_filesz = get32 v 16, ph_memsz = get32 v 20\<rparr>"

text \<open>The loop over the program headers: the size of the image, or \<open>None\<close> for \<^verbatim>\<open>goto bad\<close>.\<close>

fun exec_segments :: "'z fsst_scheme devsw \<Rightarrow> uint \<Rightarrow> nat \<Rightarrow> nat \<Rightarrow> uint \<Rightarrow> uint \<Rightarrow> ('z fsst_scheme, uint option) kop" where
  "exec_segments dv pd ip 0 off sz = kreturn (Some sz)"
| "exec_segments dv pd ip (Suc k) off sz =
     kbind (readi dv ip off 32) (\<lambda>(r, bs).
     if r \<noteq> 32 then kreturn None
     else
       let ph = dec_proghdr bs in
       if ph_type ph \<noteq> 1 then exec_segments dv pd ip k (off + 32) sz
       else if ph_memsz ph < ph_filesz ph then kreturn None
       else
         kbind (allocuvm pd sz (ph_vaddr ph + ph_memsz ph)) (\<lambda>sz'.
         if sz' = 0 then kreturn None
         else
           kbind (loaduvm dv pd (ph_vaddr ph) ip (ph_off ph) (ph_filesz ph)) (\<lambda>r.
           if r < 0 then kreturn None
           else exec_segments dv pd ip k (off + 32) sz')))"

text \<open>The argument strings on the user stack: their addresses and the stack pointer below them.\<close>

fun push_args :: "uint \<Rightarrow> byte list list \<Rightarrow> nat \<Rightarrow> uint \<Rightarrow> ('z vmem_scheme, (uint list \<times> uint) option) kop" where
  "push_args pd [] argc sp = kreturn (Some ([], sp))"
| "push_args pd (s # ss) argc sp =
     (if argc \<ge> MAXARG then kreturn None
      else
        let sp' = (sp - word_of_nat (length s + 1)) AND NOT 3 in
        kbind (copyout_bytes pd sp' (s @ [0])) (\<lambda>r.
        if r < 0 then kreturn None
        else
          kbind (push_args pd ss (argc + 1) sp') (\<lambda>r.
          kreturn (case r of None \<Rightarrow> None | Some (as, sp'') \<Rightarrow> Some (sp' # as, sp'')))))"

definition exec_bad :: "uint \<Rightarrow> nat option \<Rightarrow> ('z fsst_scheme, int) kop" where
  "exec_bad pd ip =
     kbind (if pd \<noteq> 0 then freevm pd else kreturn ()) (\<lambda>_.
     kbind (case ip of Some i \<Rightarrow> iunlockput i | None \<Rightarrow> kreturn ()) (\<lambda>_.
     kreturn (-1)))"

text \<open>The last element of a path, as the loop of \<^verbatim>\<open>exec\<close> finds it.\<close>

definition last_elem :: "byte list \<Rightarrow> byte list" where
  "last_elem path = rev (takeWhile (\<lambda>c. c \<noteq> slash) (rev path))"

text \<open>\<^verbatim>\<open>exec\<close> from the stack on, when the file is loaded and its inode released.\<close>

definition exec_stack :: "byte list \<Rightarrow> byte list list \<Rightarrow> elfhdr \<Rightarrow> uint \<Rightarrow> uint \<Rightarrow> ('z fsst_scheme, int) kop" where
  "exec_stack path argv elf pd sz =
     (let sz0 = align_up sz PTE_SZ in
      kbind (allocuvm pd sz0 (sz0 + 2 * PTE_SZ)) (\<lambda>sz.
      if sz = 0 then exec_bad pd None
      else
        kbind (clearpteu pd (sz - 2 * PTE_SZ)) (\<lambda>_.
        kbind (push_args pd argv 0 sz) (\<lambda>r.
        case r of
          None \<Rightarrow> exec_bad pd None
        | Some (as, sp) \<Rightarrow>
            let argc = length as; sp' = sp - word_of_nat ((argc + 1) * 4) in
            with_curr (\<lambda>cp.
            kbind (kget (\<lambda>s. tf (procs s cp))) (\<lambda>t.
            kbind (store (t + 16) (word_of_nat argc)) (\<lambda>_.
            kbind (store (t + 20) sp') (\<lambda>_.
            kbind (copyout_bytes pd sp' (concat (map bytes32 (as @ [0])))) (\<lambda>r.
            if r < 0 then exec_bad pd None
            else
              kbind (upd_proc cp (\<lambda>q. q\<lparr>pname := take 15 (last_elem path)\<rparr>)) (\<lambda>_.
              kbind (kget (\<lambda>s. pgdir (procs s cp))) (\<lambda>oldpd.
              kbind (upd_proc cp (\<lambda>q. q\<lparr>pgdir := pd, psz := sz\<rparr>)) (\<lambda>_.
              kbind (store (t + 68) (e_entry elf)) (\<lambda>_.
              kbind (store t sp') (\<lambda>_.
              kbind (kget this_cpu) (\<lambda>c.
              kbind (switchuvm c pd) (\<lambda>_.
              kbind (freevm oldpd) (\<lambda>_.
              kreturn 0)))))))))))))))))"

text \<open>
  \<^verbatim>\<open>readi(...) < sizeof(elf)\<close> compares as unsigned numbers, so an error of \<^verbatim>\<open>readi\<close> passes the test and
  the header is whatever was on the stack.
\<close>

definition exec :: "'z fsst_scheme devsw \<Rightarrow> byte list \<Rightarrow> byte list list \<Rightarrow> ('z fsst_scheme, int) kop" where
  "exec dv path argv =
     kbind (namei dv path) (\<lambda>r.
     case r of
       None \<Rightarrow> kreturn (-1)
     | Some ip \<Rightarrow>
         kbind (ilock (Some ip)) (\<lambda>_.
         kbind (readi dv ip 0 52) (\<lambda>(r, bs).
         if (word_of_int r :: uint) < 52 then exec_bad 0 (Some ip)
         else if length bs < 52 then fault ''elf''
         else
           let elf = dec_elfhdr bs in
           if e_magic elf \<noteq> 0x464C457F then exec_bad 0 (Some ip)
           else
             kbind kpt_alloc (\<lambda>pd.
             if pd = 0 then exec_bad 0 (Some ip)
             else
               kbind (exec_segments dv pd ip (e_phnum elf) (e_phoff elf) 0) (\<lambda>r.
               case r of
                 None \<Rightarrow> exec_bad pd (Some ip)
               | Some sz \<Rightarrow> kbind (iunlockput ip) (\<lambda>_. exec_stack path argv elf pd sz))))))"

section \<open>Processes\<close>

definition fork_file :: "nat \<Rightarrow> nat \<Rightarrow> nat \<Rightarrow> ('z filest_scheme, unit) kop" where
  "fork_file cp np i =
     kbind (kget (\<lambda>s. ofile (procs s cp) i)) (\<lambda>f.
     case f of
       None \<Rightarrow> kreturn ()
     | Some f \<Rightarrow> kbind (filedup f) (\<lambda>f. upd_proc np (\<lambda>q. q\<lparr>ofile := (ofile q)(i := Some f)\<rparr>)))"

definition fork :: "uint \<Rightarrow> uint \<Rightarrow> ('z filest_scheme, int) kop" where
  "fork trapret forkret =
     kbind (allocproc trapret forkret) (\<lambda>r.
     case r of
       None \<Rightarrow> kreturn (-1)
     | Some np \<Rightarrow>
         with_curr (\<lambda>cp.
         kbind (kget (\<lambda>s. procs s cp)) (\<lambda>c.
         kbind (copyuvm (pgdir c) (psz c)) (\<lambda>pd.
         kbind (upd_proc np (\<lambda>q. q\<lparr>pgdir := pd\<rparr>)) (\<lambda>_.
         if pd = 0 then kbind (fork_undo np) (\<lambda>_. kreturn (-1))
         else
           kbind (fork_copy cp np pd) (\<lambda>_.
           kbind (kfor (fork_file cp np) [0..<NOFILE]) (\<lambda>_.
           kbind (kget (\<lambda>s. cwd (procs s cp))) (\<lambda>d.
           kbind (case d of None \<Rightarrow> fault ''idup'' | Some ip \<Rightarrow> idup ip) (\<lambda>ip.
           kbind (upd_proc np (\<lambda>q. q\<lparr>cwd := Some ip\<rparr>)) (\<lambda>_.
           fork_ready cp np))))))))))"

definition exit_file :: "nat \<Rightarrow> nat \<Rightarrow> ('z filest_scheme, unit) kop" where
  "exit_file cp fd =
     kbind (kget (\<lambda>s. ofile (procs s cp) fd)) (\<lambda>f.
     case f of
       None \<Rightarrow> kreturn ()
     | Some f \<Rightarrow> kbind (fileclose f) (\<lambda>_. upd_proc cp (\<lambda>q. q\<lparr>ofile := (ofile q)(fd := None)\<rparr>)))"

definition exit :: "('z filest_scheme, unit) kop" where
  "exit = with_curr (\<lambda>cp.
     kbind (kget initproc) (\<lambda>ip.
     if ip = Some cp then panic ''init exiting''
     else
       kbind (kfor (exit_file cp) [0..<NOFILE]) (\<lambda>_.
       kbind (kget (\<lambda>s. cwd (procs s cp))) (\<lambda>d.
       kbind (case d of None \<Rightarrow> fault ''iput'' | Some ip \<Rightarrow> iput ip) (\<lambda>_.
       kbind (upd_proc cp (\<lambda>q. q\<lparr>cwd := None\<rparr>)) (\<lambda>_.
       exit_table))))))"

text \<open>
  \<open>init\<close> and \<open>len\<close> are the address and size of the linked-in \<^verbatim>\<open>initcode\<close>, \<open>err\<close> the address of
  \<^verbatim>\<open>error_init\<close>, \<open>psr\<close> the result of \<^verbatim>\<open>cpsr_usr\<close>.
\<close>

definition userinit :: "'z fsst_scheme devsw \<Rightarrow> uint \<Rightarrow> uint \<Rightarrow> uint \<Rightarrow> uint \<Rightarrow> uint \<Rightarrow> uint \<Rightarrow> ('z fsst_scheme, unit) kop" where
  "userinit dv trapret forkret init len err psr =
     kbind (allocproc trapret forkret) (\<lambda>r.
     kbind (kmod (\<lambda>s. s\<lparr>initproc := r\<rparr>)) (\<lambda>_.
     case r of
       None \<Rightarrow> fault ''userinit''
     | Some p \<Rightarrow>
         kbind kpt_alloc (\<lambda>pd.
         kbind (upd_proc p (\<lambda>q. q\<lparr>pgdir := pd\<rparr>)) (\<lambda>_.
         if pd = 0 then panic ''userinit: out of memory?''
         else
           kbind (inituvm pd init len) (\<lambda>_.
           kbind (upd_proc p (\<lambda>q. q\<lparr>psz := PTE_SZ\<rparr>)) (\<lambda>_.
           kbind (kget (\<lambda>s. tf (procs s p))) (\<lambda>t.
           kbind (zero_mem t 72) (\<lambda>_.
           kbind (store (t + 8) err) (\<lambda>_.
           kbind (store (t + 12) psr) (\<lambda>_.
           kbind (store t PTE_SZ) (\<lambda>_.
           kbind (store (t + 4) 0) (\<lambda>_.
           kbind (store (t + 68) 0) (\<lambda>_.
           kbind (upd_proc p (\<lambda>q. q\<lparr>pname := txt_bytes ''initcode''\<rparr>)) (\<lambda>_.
           kbind (namei dv [slash]) (\<lambda>d.
           upd_proc p (\<lambda>q. q\<lparr>cwd := d, pstate := RUNNABLE\<rparr>))))))))))))))))"

definition forkret :: "('z sysst_scheme, unit) kop" where
  "forkret =
     kbind (kget first_ret) (\<lambda>f.
     if f then kbind (kmod (\<lambda>s. s\<lparr>first_ret := False\<rparr>)) (\<lambda>_. initlog)
     else kreturn ())"

end
