(* ===== verification/Syscalls.thy ===== *)
theory Syscalls
  imports Exec
begin

unbundle bit_operations_syntax

text \<open>
  System calls: arguments and dispatch (\<^verbatim>\<open>source/syscall.c\<close>), the calls on processes
  (\<^verbatim>\<open>source/sysproc.c\<close>, \<^verbatim>\<open>cpuutil\<close> of \<^verbatim>\<open>source/main.c\<close>) and on files (\<^verbatim>\<open>source/sysfile.c\<close>). A call
  that fails returns -1; the tests of the code that can never fail (\<^verbatim>\<open>argint\<close> always returns 0) are left
  out.
\<close>

section \<open>Arguments\<close>

definition proc_sz :: "('z ptable_scheme, uint) kop" where
  "proc_sz = with_curr (\<lambda>cp. kget (\<lambda>s. psz (procs s cp)))"

definition fetchint :: "uint \<Rightarrow> ('z ptable_scheme, uint option) kop" where
  "fetchint addr =
     kbind proc_sz (\<lambda>sz.
     if addr \<ge> sz \<or> addr + 4 > sz then kreturn None
     else kbind (user_bytes addr 4) (\<lambda>bs. kreturn (Some (get32 bs 0))))"

text \<open>The scan of \<^verbatim>\<open>fetchstr\<close> over \<open>n\<close> bytes: the bytes before the NUL.\<close>

fun str_scan :: "uint \<Rightarrow> nat \<Rightarrow> ('z ptable_scheme, byte list option) kop" where
  "str_scan s 0 = kreturn None"
| "str_scan s (Suc n) =
     kbind (user_pa s) (\<lambda>a.
     kbind (kget (\<lambda>t. pm t (unat a))) (\<lambda>c.
     if c = 0 then kreturn (Some [])
     else kbind (str_scan (s + 1) n) (\<lambda>r. kreturn (map_option (Cons c) r))))"

definition fetchstr :: "uint \<Rightarrow> ('z ptable_scheme, byte list option) kop" where
  "fetchstr addr =
     kbind proc_sz (\<lambda>sz.
     if addr \<ge> sz then kreturn None
     else str_scan addr (unat (sz - addr)))"

definition argint :: "nat \<Rightarrow> ('z ptable_scheme, uint) kop" where
  "argint n =
     (if n > 3 then panic ''too many system call parameters''
      else with_curr (\<lambda>cp.
           kbind (kget (\<lambda>s. tf (procs s cp))) (\<lambda>t.
           load (t + 20 + 4 * word_of_nat n))))"

definition argptr :: "nat \<Rightarrow> int \<Rightarrow> ('z ptable_scheme, uint option) kop" where
  "argptr n sz =
     kbind (argint n) (\<lambda>i.
     kbind proc_sz (\<lambda>psz.
     kreturn (if i \<ge> psz \<or> i + word_of_int sz > psz then None else Some i)))"

definition argstr :: "nat \<Rightarrow> ('z ptable_scheme, byte list option) kop" where
  "argstr n = kbind (argint n) fetchstr"

definition argfd :: "nat \<Rightarrow> ('z ptable_scheme, (nat \<times> nat) option) kop" where
  "argfd n =
     kbind (argint n) (\<lambda>fd.
     if sint fd < 0 \<or> sint fd \<ge> int NOFILE then kreturn None
     else with_curr (\<lambda>cp.
          kbind (kget (\<lambda>s. ofile (procs s cp) (unat fd))) (\<lambda>f.
          kreturn (case f of None \<Rightarrow> None | Some f \<Rightarrow> Some (unat fd, f)))))"

fun free_fd :: "(nat \<Rightarrow> nat option) \<Rightarrow> nat list \<Rightarrow> nat option" where
  "free_fd tab [] = None"
| "free_fd tab (fd # fds) = (if tab fd = None then Some fd else free_fd tab fds)"

definition fdalloc :: "nat \<Rightarrow> ('z ptable_scheme, nat option) kop" where
  "fdalloc f = with_curr (\<lambda>cp.
     kbind (kget (\<lambda>s. free_fd (ofile (procs s cp)) [0..<NOFILE])) (\<lambda>r.
     case r of
       None \<Rightarrow> kreturn None
     | Some fd \<Rightarrow> kbind (upd_proc cp (\<lambda>q. q\<lparr>ofile := (ofile q)(fd := Some f)\<rparr>)) (\<lambda>_. kreturn (Some fd))))"

section \<open>File calls\<close>

definition sys_dup :: "('z filest_scheme, int) kop" where
  "sys_dup =
     kbind (argfd 0) (\<lambda>r.
     case r of
       None \<Rightarrow> kreturn (-1)
     | Some (_, f) \<Rightarrow>
         kbind (fdalloc f) (\<lambda>r.
         case r of
           None \<Rightarrow> kreturn (-1)
         | Some fd \<Rightarrow> kbind (filedup f) (\<lambda>_. kreturn (int fd))))"

definition sys_read :: "'z filest_scheme devsw \<Rightarrow> ('z filest_scheme, int) kop" where
  "sys_read dv =
     kbind (argfd 0) (\<lambda>r.
     case r of
       None \<Rightarrow> kreturn (-1)
     | Some (_, f) \<Rightarrow>
         kbind (argint 2) (\<lambda>n.
         kbind (argptr 1 (sint n)) (\<lambda>p.
         case p of
           None \<Rightarrow> kreturn (-1)
         | Some p \<Rightarrow>
             kbind (fileread dv f (sint n)) (\<lambda>(r, bs).
             kbind (put_user p bs) (\<lambda>_.
             kreturn r)))))"

definition sys_write :: "'z filest_scheme devsw \<Rightarrow> ('z filest_scheme, int) kop" where
  "sys_write dv =
     kbind (argfd 0) (\<lambda>r.
     case r of
       None \<Rightarrow> kreturn (-1)
     | Some (_, f) \<Rightarrow>
         kbind (argint 2) (\<lambda>n.
         kbind (argptr 1 (sint n)) (\<lambda>p.
         case p of
           None \<Rightarrow> kreturn (-1)
         | Some p \<Rightarrow>
             kbind (user_bytes p (nat (sint n))) (\<lambda>bs.
             filewrite dv f bs (sint n)))))"

definition sys_close :: "('z filest_scheme, int) kop" where
  "sys_close =
     kbind (argfd 0) (\<lambda>r.
     case r of
       None \<Rightarrow> kreturn (-1)
     | Some (fd, f) \<Rightarrow>
         kbind (with_curr (\<lambda>cp. upd_proc cp (\<lambda>q. q\<lparr>ofile := (ofile q)(fd := None)\<rparr>))) (\<lambda>_.
         kbind (fileclose f) (\<lambda>_.
         kreturn 0)))"

text \<open>\<^verbatim>\<open>struct stat\<close> in user memory: the fields at offsets 0, 4, 8, 12 and 16.\<close>

definition put_stat :: "uint \<Rightarrow> stat \<Rightarrow> ('z ptable_scheme, unit) kop" where
  "put_stat p st =
     kbind (put_user (p + 4) (bytes32 (st_dev st))) (\<lambda>_.
     kbind (put_user (p + 8) (bytes32 (st_ino st))) (\<lambda>_.
     kbind (put_user p (bytes16 (st_type st))) (\<lambda>_.
     kbind (put_user (p + 12) (bytes16 (st_nlink st))) (\<lambda>_.
     put_user (p + 16) (bytes32 (st_size st))))))"

definition sys_fstat :: "('z filest_scheme, int) kop" where
  "sys_fstat =
     kbind (argfd 0) (\<lambda>r.
     case r of
       None \<Rightarrow> kreturn (-1)
     | Some (_, f) \<Rightarrow>
         kbind (argptr 1 20) (\<lambda>p.
         case p of
           None \<Rightarrow> kreturn (-1)
         | Some p \<Rightarrow>
             kbind (filestat f) (\<lambda>st.
             case st of
               None \<Rightarrow> kreturn (-1)
             | Some st \<Rightarrow> kbind (put_stat p st) (\<lambda>_. kreturn 0))))"

definition add_nlink :: "nat \<Rightarrow> uint16 \<Rightarrow> ('z fsst_scheme, unit) kop" where
  "add_nlink ip d = upd_inode ip (\<lambda>n. n\<lparr>i_nlink := i_nlink n + d\<rparr>)"

text \<open>The exit of \<^verbatim>\<open>sys_link\<close> that takes the new link back.\<close>

definition link_bad :: "nat \<Rightarrow> ('z fsst_scheme, int) kop" where
  "link_bad ip =
     kbind (ilock (Some ip)) (\<lambda>_.
     kbind (add_nlink ip (-1)) (\<lambda>_.
     kbind (iupdate ip) (\<lambda>_.
     kbind (iunlockput ip) (\<lambda>_.
     kbind commit_trans (\<lambda>_.
     kreturn (-1))))))"

definition link_to :: "'z fsst_scheme devsw \<Rightarrow> nat \<Rightarrow> byte list \<Rightarrow> ('z fsst_scheme, int) kop" where
  "link_to dv ip new =
     kbind (nameiparent dv new (replicate DIRSIZ 0)) (\<lambda>(r, name).
     case r of
       None \<Rightarrow> link_bad ip
     | Some dp \<Rightarrow>
         kbind (ilock (Some dp)) (\<lambda>_.
         kbind (kget (\<lambda>s. (i_dev (inodes s dp), i_dev (inodes s ip), i_inum (inodes s ip)))) (\<lambda>(dd, di, inum).
         kbind (if dd \<noteq> di then kreturn (-1) else dirlink dv dp name inum) (\<lambda>r.
         if r < 0 then kbind (iunlockput dp) (\<lambda>_. link_bad ip)
         else
           kbind (iunlockput dp) (\<lambda>_.
           kbind (iput ip) (\<lambda>_.
           kbind commit_trans (\<lambda>_.
           kreturn 0)))))))"

definition sys_link :: "'z fsst_scheme devsw \<Rightarrow> ('z fsst_scheme, int) kop" where
  "sys_link dv =
     kbind (argstr 0) (\<lambda>old.
     case old of None \<Rightarrow> kreturn (-1) | Some old \<Rightarrow>
     kbind (argstr 1) (\<lambda>new.
     case new of None \<Rightarrow> kreturn (-1) | Some new \<Rightarrow>
     kbind (namei dv old) (\<lambda>r.
     case r of None \<Rightarrow> kreturn (-1) | Some ip \<Rightarrow>
       kbind begin_trans (\<lambda>_.
       kbind (ilock (Some ip)) (\<lambda>_.
       kbind (kget (\<lambda>s. i_type (inodes s ip))) (\<lambda>ty.
       if ty = T_DIR then
         kbind (iunlockput ip) (\<lambda>_.
         kbind commit_trans (\<lambda>_.
         kreturn (-1)))
       else
         kbind (add_nlink ip 1) (\<lambda>_.
         kbind (iupdate ip) (\<lambda>_.
         kbind (iunlock (Some ip)) (\<lambda>_.
         link_to dv ip new)))))))))"

text \<open>The entries of a directory after \<^verbatim>\<open>.\<close> and \<^verbatim>\<open>..\<close> are all empty.\<close>

fun isdirempty_loop :: "'z fsst_scheme devsw \<Rightarrow> nat \<Rightarrow> nat list \<Rightarrow> ('z fsst_scheme, bool) kop" where
  "isdirempty_loop dv dp [] = kreturn True"
| "isdirempty_loop dv dp (k # ks) =
     kbind (readi dv dp (word_of_nat (16 * k)) 16) (\<lambda>(r, bs).
     if r \<noteq> 16 then panic ''isdirempty: readi''
     else if de_inum (dec_dirent bs) \<noteq> 0 then kreturn False
     else isdirempty_loop dv dp ks)"

definition isdirempty :: "'z fsst_scheme devsw \<Rightarrow> nat \<Rightarrow> ('z fsst_scheme, bool) kop" where
  "isdirempty dv dp =
     kbind (kget (\<lambda>s. i_size (inodes s dp))) (\<lambda>sz.
     isdirempty_loop dv dp (drop 2 (entries sz)))"

definition unlink_bad :: "nat \<Rightarrow> ('z fsst_scheme, int) kop" where
  "unlink_bad dp = kbind (iunlockput dp) (\<lambda>_. kbind commit_trans (\<lambda>_. kreturn (-1)))"

definition sys_unlink :: "'z fsst_scheme devsw \<Rightarrow> ('z fsst_scheme, int) kop" where
  "sys_unlink dv =
     kbind (argstr 0) (\<lambda>path.
     case path of None \<Rightarrow> kreturn (-1) | Some path \<Rightarrow>
     kbind (nameiparent dv path (replicate DIRSIZ 0)) (\<lambda>(r, name).
     case r of None \<Rightarrow> kreturn (-1) | Some dp \<Rightarrow>
       kbind begin_trans (\<lambda>_.
       kbind (ilock (Some dp)) (\<lambda>_.
       if namecmp name [46] = 0 \<or> namecmp name [46, 46] = 0 then unlink_bad dp
       else
         kbind (dirlookup dv dp name) (\<lambda>r.
         case r of None \<Rightarrow> unlink_bad dp | Some (ip, off) \<Rightarrow>
           kbind (ilock (Some ip)) (\<lambda>_.
           kbind (kget (\<lambda>s. inodes s ip)) (\<lambda>n.
           if sint (i_nlink n) < 1 then panic ''unlink: nlink < 1''
           else
             kbind (if i_type n = T_DIR then isdirempty dv ip else kreturn True) (\<lambda>e.
             if \<not> e then kbind (iunlockput ip) (\<lambda>_. unlink_bad dp)
             else
               kbind (writei dv dp (replicate 16 0) off 16) (\<lambda>r.
               if r \<noteq> 16 then panic ''unlink: writei''
               else
                 kbind (if i_type n = T_DIR then kbind (add_nlink dp (-1)) (\<lambda>_. iupdate dp) else kreturn ()) (\<lambda>_.
                 kbind (iunlockput dp) (\<lambda>_.
                 kbind (add_nlink ip (-1)) (\<lambda>_.
                 kbind (iupdate ip) (\<lambda>_.
                 kbind (iunlockput ip) (\<lambda>_.
                 kbind commit_trans (\<lambda>_.
                 kreturn 0)))))))))))))))"

text \<open>\<^verbatim>\<open>create\<close> returns the locked inode.\<close>

definition create :: "'z fsst_scheme devsw \<Rightarrow> byte list \<Rightarrow> uint16 \<Rightarrow> uint16 \<Rightarrow> uint16 \<Rightarrow> ('z fsst_scheme, nat option) kop" where
  "create dv path type major minor =
     kbind (nameiparent dv path (replicate DIRSIZ 0)) (\<lambda>(r, name).
     case r of None \<Rightarrow> kreturn None | Some dp \<Rightarrow>
       kbind (ilock (Some dp)) (\<lambda>_.
       kbind (dirlookup dv dp name) (\<lambda>r.
       case r of
         Some (ip, _) \<Rightarrow>
           kbind (iunlockput dp) (\<lambda>_.
           kbind (ilock (Some ip)) (\<lambda>_.
           kbind (kget (\<lambda>s. i_type (inodes s ip))) (\<lambda>ty.
           if type = T_FILE \<and> ty = T_FILE then kreturn (Some ip)
           else kbind (iunlockput ip) (\<lambda>_. kreturn None))))
       | None \<Rightarrow>
           kbind (kget (\<lambda>s. inodes s dp)) (\<lambda>d.
           kbind (ialloc (i_dev d) type) (\<lambda>ip.
           kbind (ilock (Some ip)) (\<lambda>_.
           kbind (upd_inode ip (\<lambda>n. n\<lparr>i_major := major, i_minor := minor, i_nlink := 1\<rparr>)) (\<lambda>_.
           kbind (iupdate ip) (\<lambda>_.
           kbind (kget (\<lambda>s. i_inum (inodes s ip))) (\<lambda>inum.
           kbind (if type = T_DIR then
                    kbind (add_nlink dp 1) (\<lambda>_.
                    kbind (iupdate dp) (\<lambda>_.
                    kbind (dirlink dv ip [46] inum) (\<lambda>r1.
                    if r1 < 0 then panic ''create dots''
                    else
                      kbind (dirlink dv ip [46, 46] (i_inum d)) (\<lambda>r2.
                      if r2 < 0 then panic ''create dots'' else kreturn ()))))
                  else kreturn ()) (\<lambda>_.
           kbind (dirlink dv dp name inum) (\<lambda>r.
           if r < 0 then panic ''create: dirlink''
           else kbind (iunlockput dp) (\<lambda>_. kreturn (Some ip)))))))))))))"

definition open_file :: "nat \<Rightarrow> uint \<Rightarrow> ('z filest_scheme, int) kop" where
  "open_file ip omode =
     kbind filealloc (\<lambda>r.
     case r of
       None \<Rightarrow> kbind (iunlockput ip) (\<lambda>_. kreturn (-1))
     | Some f \<Rightarrow>
         kbind (fdalloc f) (\<lambda>r.
         case r of
           None \<Rightarrow>
             kbind (fileclose f) (\<lambda>_.
             kbind (iunlockput ip) (\<lambda>_.
             kreturn (-1)))
         | Some fd \<Rightarrow>
             kbind (iunlock (Some ip)) (\<lambda>_.
             kbind (upd_file f (\<lambda>q. q\<lparr>f_type := FD_INODE, f_ip := ip, f_off := 0,
               f_readable := (omode AND 1 = 0), f_writable := (omode AND 1 \<noteq> 0 \<or> omode AND 2 \<noteq> 0)\<rparr>)) (\<lambda>_.
             kreturn (int fd)))))"

definition sys_open :: "'z filest_scheme devsw \<Rightarrow> ('z filest_scheme, int) kop" where
  "sys_open dv =
     kbind (argstr 0) (\<lambda>path.
     case path of None \<Rightarrow> kreturn (-1) | Some path \<Rightarrow>
     kbind (argint 1) (\<lambda>omode.
     if omode AND 0x200 \<noteq> 0 then
       kbind begin_trans (\<lambda>_.
       kbind (create dv path T_FILE 0 0) (\<lambda>ip.
       kbind commit_trans (\<lambda>_.
       case ip of None \<Rightarrow> kreturn (-1) | Some ip \<Rightarrow> open_file ip omode)))
     else
       kbind (namei dv path) (\<lambda>r.
       case r of None \<Rightarrow> kreturn (-1) | Some ip \<Rightarrow>
         kbind (ilock (Some ip)) (\<lambda>_.
         kbind (kget (\<lambda>s. i_type (inodes s ip))) (\<lambda>ty.
         if ty = T_DIR \<and> omode \<noteq> 0 then kbind (iunlockput ip) (\<lambda>_. kreturn (-1))
         else open_file ip omode)))))"

definition sys_mkdir :: "'z fsst_scheme devsw \<Rightarrow> ('z fsst_scheme, int) kop" where
  "sys_mkdir dv =
     kbind begin_trans (\<lambda>_.
     kbind (argstr 0) (\<lambda>path.
     kbind (case path of None \<Rightarrow> kreturn None | Some path \<Rightarrow> create dv path T_DIR 0 0) (\<lambda>r.
     case r of
       None \<Rightarrow> kbind commit_trans (\<lambda>_. kreturn (-1))
     | Some ip \<Rightarrow>
         kbind (iunlockput ip) (\<lambda>_.
         kbind commit_trans (\<lambda>_.
         kreturn 0)))))"

definition sys_mknod :: "'z fsst_scheme devsw \<Rightarrow> ('z fsst_scheme, int) kop" where
  "sys_mknod dv =
     kbind begin_trans (\<lambda>_.
     kbind (argstr 0) (\<lambda>path.
     kbind (case path of
              None \<Rightarrow> kreturn None
            | Some path \<Rightarrow>
                kbind (argint 1) (\<lambda>major.
                kbind (argint 2) (\<lambda>minor.
                create dv path T_DEV (ucast major) (ucast minor)))) (\<lambda>r.
     case r of
       None \<Rightarrow> kbind commit_trans (\<lambda>_. kreturn (-1))
     | Some ip \<Rightarrow>
         kbind (iunlockput ip) (\<lambda>_.
         kbind commit_trans (\<lambda>_.
         kreturn 0)))))"

definition sys_chdir :: "'z fsst_scheme devsw \<Rightarrow> ('z fsst_scheme, int) kop" where
  "sys_chdir dv =
     kbind (argstr 0) (\<lambda>path.
     case path of None \<Rightarrow> kreturn (-1) | Some path \<Rightarrow>
     kbind (namei dv path) (\<lambda>r.
     case r of None \<Rightarrow> kreturn (-1) | Some ip \<Rightarrow>
       kbind (ilock (Some ip)) (\<lambda>_.
       kbind (kget (\<lambda>s. i_type (inodes s ip))) (\<lambda>ty.
       if ty \<noteq> T_DIR then kbind (iunlockput ip) (\<lambda>_. kreturn (-1))
       else
         kbind (iunlock (Some ip)) (\<lambda>_.
         with_curr (\<lambda>cp.
         kbind (kget (\<lambda>s. cwd (procs s cp))) (\<lambda>d.
         kbind (case d of None \<Rightarrow> fault ''iput'' | Some old \<Rightarrow> iput old) (\<lambda>_.
         kbind (upd_proc cp (\<lambda>q. q\<lparr>cwd := Some ip\<rparr>)) (\<lambda>_.
         kreturn 0)))))))))"

text \<open>The argument vector of \<^verbatim>\<open>exec\<close>: at most 31 strings before the null pointer.\<close>

fun fetch_argv :: "uint \<Rightarrow> nat list \<Rightarrow> ('z ptable_scheme, byte list list option) kop" where
  "fetch_argv uargv [] = kreturn None"
| "fetch_argv uargv (i # is) =
     kbind (fetchint (uargv + 4 * word_of_nat i)) (\<lambda>r.
     case r of None \<Rightarrow> kreturn None | Some uarg \<Rightarrow>
       if uarg = 0 then kreturn (Some [])
       else
         kbind (fetchstr uarg) (\<lambda>r.
         case r of None \<Rightarrow> kreturn None | Some a \<Rightarrow>
           kbind (fetch_argv uargv is) (\<lambda>r.
           kreturn (map_option (Cons a) r))))"

definition sys_exec :: "'z fsst_scheme devsw \<Rightarrow> ('z fsst_scheme, int) kop" where
  "sys_exec dv =
     kbind (argstr 0) (\<lambda>path.
     case path of None \<Rightarrow> kreturn (-1) | Some path \<Rightarrow>
     kbind (argint 1) (\<lambda>uargv.
     kbind (fetch_argv uargv [0..<MAXARG]) (\<lambda>r.
     case r of None \<Rightarrow> kreturn (-1) | Some argv \<Rightarrow> exec dv path argv)))"

definition sys_pipe :: "('z filest_scheme, int) kop" where
  "sys_pipe =
     kbind (argptr 0 8) (\<lambda>p.
     case p of None \<Rightarrow> kreturn (-1) | Some p \<Rightarrow>
     kbind pipealloc (\<lambda>r.
     case r of None \<Rightarrow> kreturn (-1) | Some (rf, wrf) \<Rightarrow>
       kbind (fdalloc rf) (\<lambda>r0.
       case r0 of
         None \<Rightarrow>
           kbind (fileclose rf) (\<lambda>_.
           kbind (fileclose wrf) (\<lambda>_.
           kreturn (-1)))
       | Some fd0 \<Rightarrow>
           kbind (fdalloc wrf) (\<lambda>r1.
           case r1 of
             None \<Rightarrow>
               kbind (with_curr (\<lambda>cp. upd_proc cp (\<lambda>q. q\<lparr>ofile := (ofile q)(fd0 := None)\<rparr>))) (\<lambda>_.
               kbind (fileclose rf) (\<lambda>_.
               kbind (fileclose wrf) (\<lambda>_.
               kreturn (-1))))
           | Some fd1 \<Rightarrow>
               kbind (put_user p (bytes32 (word_of_nat fd0))) (\<lambda>_.
               kbind (put_user (p + 4) (bytes32 (word_of_nat fd1))) (\<lambda>_.
               kreturn 0))))))"

section \<open>Process calls\<close>

definition sys_kill :: "('z ptable_scheme, int) kop" where
  "sys_kill = kbind (argint 0) (\<lambda>p. kill (sint p))"

definition sys_getpid :: "('z ptable_scheme, int) kop" where
  "sys_getpid = with_curr (\<lambda>cp. kget (\<lambda>s. pid (procs s cp)))"

definition sys_sbrk :: "('z ptable_scheme, int) kop" where
  "sys_sbrk =
     kbind (argint 0) (\<lambda>n.
     kbind proc_sz (\<lambda>addr.
     kbind (growproc (sint n)) (\<lambda>r.
     if r < 0 then kreturn (-1) else kreturn (sint addr))))"

text \<open>\<open>t0\<close> is the tick count when the call started; a sleeping caller tests again when it is woken.\<close>

definition sys_sleep_from :: "uint \<Rightarrow> uint \<Rightarrow> ('z sysst_scheme, int) kop" where
  "sys_sleep_from t0 n =
     kbind (kget ticks) (\<lambda>t.
     if t - t0 < n then
       with_curr (\<lambda>cp. kbind (kget (\<lambda>s. killed (procs s cp))) (\<lambda>k.
       if k then kreturn (-1) else sleep ChTicks))
     else kreturn 0)"

definition sys_sleep :: "('z sysst_scheme, int) kop" where
  "sys_sleep =
     kbind (argint 0) (\<lambda>n.
     kbind (kget ticks) (\<lambda>t0.
     sys_sleep_from t0 n))"

definition sys_uptime :: "('z sysst_scheme, int) kop" where
  "sys_uptime = kget (\<lambda>s. sint (ticks s))"

text \<open>The tick interrupt, without the registers of the timer.\<close>

definition timer3intr :: "('z sysst_scheme, unit) kop" where
  "timer3intr = kbind (kmod (\<lambda>s. s\<lparr>ticks := ticks s + 1\<rparr>)) (\<lambda>_. wakeup ChTicks)"

text \<open>An access to \<^verbatim>\<open>cpus[i].enabled\<close>.\<close>

definition get_enabled :: "int \<Rightarrow> ('z sysst_scheme, int) kop" where
  "get_enabled i = (if 0 \<le> i \<and> i < int NCPU then kget (\<lambda>s. cpu_enabled s (nat i)) else fault ''cpus'')"

fun count_on :: "int \<Rightarrow> nat list \<Rightarrow> int \<Rightarrow> ('z sysst_scheme, int) kop" where
  "count_on cpunum [] acc = kreturn acc"
| "count_on cpunum (i # is) acc =
     (if int i \<noteq> cpunum then kbind (get_enabled (int NCPU)) (\<lambda>e. count_on cpunum is (acc + e))
      else count_on cpunum is acc)"

definition cpuutil :: "int \<Rightarrow> int \<Rightarrow> int \<Rightarrow> ('z sysst_scheme, int) kop" where
  "cpuutil cpunum mode enabled =
     (if mode = 0 then get_enabled cpunum
      else if mode = 1 then
        if cpunum < 0 \<or> cpunum \<ge> int NCPU then
          kbind (cprintf (Some (nl ''setcore: cpu %d not available.'')) [PInt (word_of_int cpunum)]) (\<lambda>_. kreturn (-1))
        else
          kbind (if enabled = 0 then
                   kbind (kget this_cpu) (\<lambda>c.
                   kbind (if cpunum = int c then
                            kbind (cprintf (Some (nl ''setcore: cpu %d is running this process.'')) [PInt (word_of_int cpunum)]) (\<lambda>_.
                            cprintf (Some (nl ''         It will turned off after this process.'')) [])
                          else kreturn ()) (\<lambda>_.
                   kbind (count_on cpunum [0..<NCPU] 0) (\<lambda>k.
                   if k = 0 then
                     kbind (cprintf (Some (nl ''setcore: cpu %d is the last running core!'')) [PInt (word_of_int cpunum)]) (\<lambda>_.
                     kreturn False)
                   else kreturn True)))
                 else kreturn True) (\<lambda>go.
          if \<not> go then kreturn (-1)
          else if enabled \<noteq> 0 \<and> enabled \<noteq> 1 then
            kbind (cprintf (Some (nl ''setcore: invalid argument %d'')) [PInt (word_of_int cpunum)]) (\<lambda>_. kreturn (-1))
          else
            kbind (kmod (\<lambda>s. s\<lparr>cpu_enabled := (cpu_enabled s)(nat cpunum := enabled)\<rparr>)) (\<lambda>_.
            kbind (cprintf (Some (nl ''setcore: set core[%d].enabled to %d'')) [PInt (word_of_int cpunum), PInt (word_of_int enabled)]) (\<lambda>_.
            kreturn 0)))
      else kbind (cprintf (Some (nl ''setcore: invalid mode %d'')) [PInt (word_of_int cpunum)]) (\<lambda>_. kreturn (-1)))"

definition sys_cpuutil :: "('z sysst_scheme, int) kop" where
  "sys_cpuutil =
     kbind (argint 0) (\<lambda>cpunum.
     kbind (argint 1) (\<lambda>mode.
     kbind (argint 2) (\<lambda>enabled.
     cpuutil (sint cpunum) (sint mode) (sint enabled))))"

section \<open>Dispatch\<close>

text \<open>
  The table has the entries 0 to 22, entry 0 null; \<open>trapret\<close> and \<open>fret\<close> are the addresses \<^verbatim>\<open>fork\<close> needs.
  Exit does not return to its caller, so the value after it is never used.
\<close>

definition sys_table :: "'z sysst_scheme devsw \<Rightarrow> uint \<Rightarrow> uint \<Rightarrow> nat \<Rightarrow> ('z sysst_scheme, int) kop option" where
  "sys_table dv trapret fret n =
     [None, Some (fork trapret fret), Some (kbind exit (\<lambda>_. kreturn 0)), Some wait, Some sys_pipe, Some (sys_read dv), Some sys_kill,
      Some (sys_exec dv), Some sys_fstat, Some (sys_chdir dv), Some sys_dup, Some sys_getpid, Some sys_sbrk, Some sys_sleep,
      Some sys_uptime, Some (sys_open dv), Some (sys_write dv), Some (sys_mknod dv), Some (sys_unlink dv), Some (sys_link dv),
      Some (sys_mkdir dv), Some sys_close, Some sys_cpuutil] ! n"

abbreviation (input) NSYSCALLS :: nat where "NSYSCALLS \<equiv> 23"

definition syscall :: "'z sysst_scheme devsw \<Rightarrow> uint \<Rightarrow> uint \<Rightarrow> ('z sysst_scheme, unit) kop" where
  "syscall dv trapret fret = with_curr (\<lambda>cp.
     kbind (kget (\<lambda>s. tf (procs s cp))) (\<lambda>t.
     kbind (load (t + 16)) (\<lambda>r0.
     let num = sint r0 in
     let unknown =
       kbind (kget (\<lambda>s. procs s cp)) (\<lambda>q.
       kbind (cprintf (Some (nl ''%d %s: unknown sys call %d''))
         [PInt (word_of_int (pid q)), PStr (Some (pname q)), PInt r0]) (\<lambda>_.
       kbind (kget (\<lambda>s. tf (procs s cp))) (\<lambda>t.
       store (t + 16) (-1)))) in
     if num > 0 \<and> num \<le> int NSYSCALLS then
       if num = int NSYSCALLS then fault ''syscalls''
       else case sys_table dv trapret fret (nat num) of
           None \<Rightarrow> unknown
         | Some f \<Rightarrow>
             kbind f (\<lambda>ret.
             if num \<noteq> 7 then
               kbind (kget (\<lambda>s. tf (procs s cp))) (\<lambda>t.
               store (t + 16) (word_of_int ret))
             else kreturn ())
     else unknown)))"

definition swi_handler :: "'z sysst_scheme devsw \<Rightarrow> uint \<Rightarrow> uint \<Rightarrow> uint \<Rightarrow> ('z sysst_scheme, unit) kop" where
  "swi_handler dv trapret fret r =
     kbind (with_curr (\<lambda>cp. upd_proc cp (\<lambda>q. q\<lparr>tf := r\<rparr>))) (\<lambda>_.
     syscall dv trapret fret)"

end
