(* ===== verification/Trap.thy ===== *)
theory Trap
  imports Syscalls
begin

unbundle bit_operations_syntax

text \<open>
  Exception handlers (\<^verbatim>\<open>source/trap.c\<close>): the trap frame dump, the handlers that report an unexpected
  exception, and the interrupt handler. The saved registers are read from the trap frame in memory, in
  the order of \<^verbatim>\<open>struct trapframe\<close>; the fault registers of the processor and the pending registers of the
  interrupt controller are arguments.
\<close>

section \<open>State\<close>

text \<open>The status register and interrupt nesting of every CPU.\<close>

record trapst = sysst +
  cpu_regs :: "nat \<Rightarrow> cpu"

definition mask_irq :: "('z trapst_scheme, unit) kop" where
  "mask_irq = kmod (\<lambda>s. s\<lparr>cpu_regs := (cpu_regs s)(this_cpu s := cli (cpu_regs s (this_cpu s)))\<rparr>)"

section \<open>Dumps\<close>

definition dump_regs :: "string list \<Rightarrow> uint \<Rightarrow> ('z consst_scheme, unit) kop" where
  "dump_regs names a =
     kfor (\<lambda>i. kbind (load (a + 4 * word_of_nat i)) (\<lambda>v. cprintf (Some (nl (names ! i @ '': 0x%x''))) [PInt v]))
       [0..<length names]"

definition dump_trapframe :: "uint \<Rightarrow> ('z consst_scheme, unit) kop" where
  "dump_trapframe t = dump_regs
     ['' sp_usr'', '' lr_usr'', ''r14_svc'', ''   spsr'', ''     r0'', ''     r1'', ''     r2'', ''     r3'', ''     r4'',
      ''     r5'', ''     r6'', ''     r7'', ''     r8'', ''     r9'', ''    r10'', ''    r11'', ''    r12'', ''     pc''] t"

definition dump_context :: "uint \<Rightarrow> ('z consst_scheme, unit) kop" where
  "dump_context c = dump_regs
     [''     cr4'', ''     cr5'', ''     cr6'', ''     cr7'', ''     cr8'', ''     cr9'', ''    cr10'', ''    cr11'',
      ''    cr12'', ''     clr''] c"

section \<open>Unexpected exceptions\<close>

text \<open>The saved program counter is the last of the 18 words of the frame.\<close>

definition report_at :: "string \<Rightarrow> uint \<Rightarrow> ('z trapst_scheme, unit) kop" where
  "report_at m r =
     kbind mask_irq (\<lambda>_.
     kbind (load (r + 68)) (\<lambda>pc.
     cprintf (Some (nl m)) [PInt pc]))"

definition reset_handler :: "uint \<Rightarrow> ('z trapst_scheme, unit) kop" where
  "reset_handler = report_at ''reset at: 0x%x ''"

definition und_handler :: "uint \<Rightarrow> ('z trapst_scheme, unit) kop" where
  "und_handler = report_at ''und at: 0x%x ''"

definition na_handler :: "uint \<Rightarrow> ('z trapst_scheme, unit) kop" where
  "na_handler = report_at ''n/a at: 0x%x ''"

definition fiq_handler :: "uint \<Rightarrow> ('z trapst_scheme, unit) kop" where
  "fiq_handler = report_at ''fiq at: 0x%x ''"

definition dabort_handler :: "uint \<Rightarrow> uint \<Rightarrow> uint \<Rightarrow> uint \<Rightarrow> ('z trapst_scheme, unit) kop" where
  "dabort_handler fp dfs fa r =
     kbind mask_irq (\<lambda>_.
     kbind (load (r + 68)) (\<lambda>pc.
     kbind (cprintf (Some (nl ''data abort: instruction 0x%x, fault addr 0x%x, reason 0x%x '')) [PInt pc, PInt fa, PInt dfs]) (\<lambda>_.
     kbind (dump_trapframe r) (\<lambda>_.
     show_callstk fp ''Stack dump for data exception.''))))"

definition iabort_handler :: "uint \<Rightarrow> uint \<Rightarrow> ('z trapst_scheme, unit) kop" where
  "iabort_handler ifs r =
     kbind mask_irq (\<lambda>_.
     kbind (load (r + 68)) (\<lambda>pc.
     kbind (cprintf (Some (nl ''prefetch abort at: 0x%x (reason: 0x%x)'')) [PInt pc, PInt ifs]) (\<lambda>_.
     dump_trapframe r)))"

section \<open>Interrupts\<close>

text \<open>
  One test of the loop in \<^verbatim>\<open>irq_handler\<close>: the three pending registers of its condition, the two reads of
  \<^verbatim>\<open>IRQ_pending_1\<close> in its body and the characters the serial port has then. \<^verbatim>\<open>IRQ_TIMER3\<close> is bit 3 and
  \<^verbatim>\<open>IRQ_MINIUART\<close> bit 29. The handler returns at the first test that finds nothing pending; a list that
  ends before that stands for an interrupt that stays pending.
\<close>

record irq_round =
  ir_basic :: uint
  ir_p1 :: uint
  ir_p2 :: uint
  ir_p1_timer :: uint
  ir_p1_uart :: uint
  ir_chars :: "byte list"

definition miniuartintr :: "uint \<Rightarrow> byte list \<Rightarrow> ('z consst_scheme, unit) kop" where
  "miniuartintr fp cs = consoleintr fp cs"

fun irq_loop :: "uint \<Rightarrow> irq_round list \<Rightarrow> ('z trapst_scheme, bool) kop" where
  "irq_loop fp [] = kreturn False"
| "irq_loop fp (r # rs) =
     (if ir_basic r = 0 \<and> ir_p1 r = 0 \<and> ir_p2 r = 0 then kreturn True
      else
        kbind (if bit (ir_p1_timer r) 3 then timer3intr else kreturn ()) (\<lambda>_.
        kbind (if bit (ir_p1_uart r) 29 then miniuartintr fp (ir_chars r) else kreturn ()) (\<lambda>_.
        irq_loop fp rs)))"

definition irq_handler :: "uint \<Rightarrow> irq_round list \<Rightarrow> uint \<Rightarrow> ('z trapst_scheme, bool) kop" where
  "irq_handler fp rs r =
     kbind (kget curr_proc) (\<lambda>c.
     kbind (case c of None \<Rightarrow> kreturn () | Some p \<Rightarrow> upd_proc p (\<lambda>q. q\<lparr>tf := r\<rparr>)) (\<lambda>_.
     irq_loop fp rs))"

end
