(* ===== verification/Block_Proofs.thy ===== *)
theory Block_Proofs
  imports Fs Log_Proofs
begin

unbundle bit_operations_syntax

text \<open>
  Blocks inside a transaction: reading and updating one block of the file system, and the allocation of
  blocks in the bitmap.
\<close>

section \<open>What the lower layers leave alone\<close>

text \<open>The buffer cache and the log do not touch the state of the layers above.\<close>

named_theorems lmore_rules

lemma keeps_lmore_basic [lmore_rules]:
  fixes X :: 'z
  shows "keeps (\<lambda>s :: 'z logst_scheme. logst.more s = X) (upd_proc p f)"
    "keeps (\<lambda>s :: 'z logst_scheme. logst.more s = X) (upd_buf b g)"
    "keeps (\<lambda>s :: 'z logst_scheme. logst.more s = X) (disk_write d v)"
    "keeps (\<lambda>s :: 'z logst_scheme. logst.more s = X) (kmod (\<lambda>s. s\<lparr>lru := L s\<rparr>))"
    "keeps (\<lambda>s :: 'z logst_scheme. logst.more s = X) (kmod (\<lambda>s. s\<lparr>lh_n := N s\<rparr>))"
    "keeps (\<lambda>s :: 'z logst_scheme. logst.more s = X) (kmod (\<lambda>s. s\<lparr>lh_sector := SS s\<rparr>))"
    "keeps (\<lambda>s :: 'z logst_scheme. logst.more s = X) (kmod (\<lambda>s. s\<lparr>log_busy := B s\<rparr>))"
  by (auto simp: upd_proc_def upd_buf_def disk_write_def intro!: keeps_kmod)

lemma keeps_lmore_proc [lmore_rules]:
  fixes X :: 'z
  shows "keeps (\<lambda>s :: 'z logst_scheme. logst.more s = X) (wakeup ch)" "keeps (\<lambda>s :: 'z logst_scheme. logst.more s = X) (sleep ch)"
  unfolding wakeup_def wakeup1_def wake_one_def sleep_def sched_def with_curr_def
  by (intro inv_rules lmore_rules)+

lemma keeps_lmore_bio [lmore_rules]:
  fixes X :: 'z
  shows "keeps (\<lambda>s :: 'z logst_scheme. logst.more s = X) (bread dev d)" "keeps (\<lambda>s :: 'z logst_scheme. logst.more s = X) (bwrite b)"
    "keeps (\<lambda>s :: 'z logst_scheme. logst.more s = X) (brelse b)" "keeps (\<lambda>s :: 'z logst_scheme. logst.more s = X) (buf_data b)"
    "keeps (\<lambda>s :: 'z logst_scheme. logst.more s = X) (set_data b v)" "keeps (\<lambda>s :: 'z logst_scheme. logst.more s = X) (mark_dirty b)"
  unfolding bread_def bget_def iderw_def bwrite_def brelse_def buf_data_def set_data_def mark_dirty_def
  by (intro inv_rules lmore_rules)+

lemma keeps_lmore_log [lmore_rules]:
  fixes X :: 'z
  shows "keeps (\<lambda>s :: 'z logst_scheme. logst.more s = X) (log_write b)"
  unfolding log_write_def set_sector_def by (intro inv_rules lmore_rules)+

lemma inodes_lmore: "logst.more s = logst.more t \<Longrightarrow> inodes s = inodes (t :: 'z fsst_scheme)"
  by (cases s, cases t) (simp add: logst.defs)

section \<open>An open transaction\<close>

text \<open>A transaction in a log of \<open>Z\<close> sectors at \<open>S\<close> has logged the blocks \<open>D\<close>, and no buffer is held.\<close>

definition open_txn :: "nat \<Rightarrow> nat \<Rightarrow> nat set \<Rightarrow> 'z logst_scheme \<Rightarrow> bool" where
  "open_txn S Z D s \<longleftrightarrow> (\<exists>M T ups secs. in_txn S Z M T ups secs s \<and> set secs = D)"

text \<open>There is room in the log for the blocks \<open>D\<close>.\<close>

definition log_room :: "nat \<Rightarrow> nat set \<Rightarrow> bool" where
  "log_room Z D \<longleftrightarrow> finite D \<and> card D \<le> 9 \<and> card D + 1 < Z"

lemma open_txnD:
  assumes "open_txn S Z D s"
  shows "bcache_inv s" "held s = Map.empty" "dirty s = D" "D \<subseteq> {..<S}" "S < disksize s" "log_at S Z s"
proof -
  obtain M T ups secs where i: "in_txn S Z M T ups secs s" "set secs = D" using assms unfolding open_txn_def by blast
  show "log_at S Z s" by (rule in_txnD(1) [OF i(1)])
  then show "bcache_inv s" "held s = Map.empty" "S < disksize s" by (auto simp: log_at_def)
  show "dirty s = D" "D \<subseteq> {..<S}" using in_txnD(7,8) [OF i(1)] i(2) by simp_all
qed

lemma open_txn_cong:
  assumes "open_txn S Z D s" and "abs_bio s' = abs_bio s" and "bcache_inv s'" and "bio_frame s s'"
  shows "open_txn S Z D s'"
proof -
  obtain M T ups secs where i: "in_txn S Z M T ups secs s" "set secs = D" using assms(1) unfolding open_txn_def by blast
  have e: "view s' = view s" "memdisk s' = memdisk s" "dirty s' = dirty s" "dtrace s' = dtrace s" "held s' = held s"
    using assms(2) by (simp_all add: abs_bio_def)
  have "log_at S Z s'" using log_at_frame [OF in_txnD(1) [OF i(1)] assms(4,3)] log_atD(7) [OF in_txnD(1) [OF i(1)]] e(5) by simp
  then have "in_txn S Z M T ups secs s'" using i(1) bio_frame_log [OF assms(4)] unfolding in_txn_def e by metis
  then show ?thesis using i(2) unfolding open_txn_def by blast
qed

lemma bio_frame_lmore: "bio_frame s s' \<Longrightarrow> logst.more s' = logst.more s"
  unfolding bio_frame_def by auto

text \<open>Reading a block.\<close>

lemma txn_read:
  assumes "open_txn S Z D s" and "d < S" and "card D \<le> 9"
  shows "\<exists>s'. kbind (bread 1 (word_of_nat d)) (\<lambda>b. kbind (buf_data b) (\<lambda>v. kbind (brelse b) (\<lambda>_. f v))) s = f (view s d) s'
    \<and> open_txn S Z D s' \<and> view s' = view s \<and> logst.more s' = logst.more s"
proof -
  note O = open_txnD [OF assms(1)]
  obtain s' where "kbind (bread 1 (word_of_nat d)) (\<lambda>b. kbind (buf_data b) (\<lambda>v. kbind (brelse b) (\<lambda>_. f v))) s = f (view s d) s'"
    "bcache_inv s'" "bio_frame s s'" "abs_bio s' = abs_bio s"
    using bc.read_cycle [OF O(1), of d f] O(2-5) assms(2,3) by auto
  moreover from this have "view s' = view s" by (simp add: abs_bio_def)
  ultimately show ?thesis using open_txn_cong [OF assms(1)] bio_frame_lmore by blast
qed

lemma txn_block_open:
  assumes "open_txn S Z D s" and "d < S" and "length v = 512" and "log_room Z (insert d D)"
  shows "\<exists>s'. txn_block (d, v) s = Ret () s' \<and> open_txn S Z (insert d D) s'
    \<and> (\<forall>e<S. view s' e = (if e = d then v else view s e)) \<and> logst.more s' = logst.more s"
proof -
  obtain M T ups secs where i: "in_txn S Z M T ups secs s" "set secs = D" using assms(1) unfolding open_txn_def by blast
  have u: "fst ` set ups = D" using in_txnD(6) [OF i(1)] i(2) by simp
  obtain s' secs' where r: "txn_block (d, v) s = Ret () s'" "in_txn S Z M T (ups @ [(d, v)]) secs' s'"
    using txn_block_run [OF i(1) assms(2,3)] assms(4) u by (auto simp: log_room_def)
  have "set secs' = insert d D" using in_txnD(6) [OF r(2)] u by simp
  moreover have "view s' e = (if e = d then v else view s e)" if "e < S" for e
    using in_txnD(9) [OF r(2)] in_txnD(9) [OF i(1)] that by simp
  moreover have "logst.more s' = logst.more s"
  proof -
    have "keeps (\<lambda>t. logst.more t = logst.more s) (txn_block (d, v))"
      unfolding txn_block_def prod.case by (intro inv_rules lmore_rules)
    then show ?thesis by (rule keepsD) (use r(1) in simp_all)
  qed
  ultimately show ?thesis using r unfolding open_txn_def by blast
qed

text \<open>A block that has been read may be released, or modified, logged and released.\<close>

lemma txn_held:
  assumes "open_txn S Z D s" and "d < S" and "card D \<le> 9"
  obtains b t where "bread 1 (word_of_nat d) s = Ret b t" and "buf_data b t = Ret (view s d) t"
    and "\<exists>s'. brelse b t = Ret () s' \<and> open_txn S Z D s' \<and> view s' = view s \<and> logst.more s' = logst.more s"
    and "\<And>v. length v = 512 \<Longrightarrow> log_room Z (insert d D) \<Longrightarrow>
      \<exists>s'. kbind (set_data b v) (\<lambda>_. kbind (log_write b) (\<lambda>_. brelse b)) t = Ret () s' \<and> open_txn S Z (insert d D) s'
        \<and> (\<forall>e<S. view s' e = (if e = d then v else view s e)) \<and> logst.more s' = logst.more s"
proof -
  note O = open_txnD [OF assms(1)]
  obtain b t where t: "bread 1 (word_of_nat d) s = Ret b t" "bcache_inv t" "abs_bio t = (abs_bio s)\<lparr>a_held := [b \<mapsto> d]\<rparr>"
    using bc.rd [OF O(1), of d] O(2-5) assms(2,3) by auto
  have g: "buf_data b t = Ret (view s d) t" using bc.get [OF t(2), of b d] by (simp add: t(3))
  have rel: "\<exists>s'. brelse b t = Ret () s' \<and> open_txn S Z D s' \<and> view s' = view s \<and> logst.more s' = logst.more s"
    using txn_read [OF assms, of "\<lambda>_. kreturn ()"] t(1) g by (simp add: kbind_kreturn_right)
  have upd: "\<exists>s'. kbind (set_data b v) (\<lambda>_. kbind (log_write b) (\<lambda>_. brelse b)) t = Ret () s' \<and> open_txn S Z (insert d D) s'
        \<and> (\<forall>e<S. view s' e = (if e = d then v else view s e)) \<and> logst.more s' = logst.more s"
    if "length v = 512" "log_room Z (insert d D)" for v
    using txn_block_open [OF assms(1,2) that] t(1) by (simp add: txn_block_def)
  show thesis by (rule that [OF t(1) g rel upd])
qed

text \<open>Updating a block: read, modify, log, release, and go on.\<close>

lemma txn_update:
  assumes "open_txn S Z D s" and "d < S" and "length (g (view s d)) = 512" and "log_room Z (insert d D)"
  shows "\<exists>s'. kbind (bread 1 (word_of_nat d)) (\<lambda>b. kbind (buf_data b) (\<lambda>v. kbind (set_data b (g v)) (\<lambda>_.
      kbind (log_write b) (\<lambda>_. kbind (brelse b) (\<lambda>_. k))))) s = k s' \<and> open_txn S Z (insert d D) s'
    \<and> (\<forall>e<S. view s' e = (if e = d then g (view s d) else view s e)) \<and> logst.more s' = logst.more s"
proof -
  have "card D \<le> card (insert d D)" using assms(4) by (intro card_mono) (auto simp: log_room_def)
  then have c: "card D \<le> 9" using assms(4) by (simp add: log_room_def)
  obtain b t where t: "bread 1 (word_of_nat d) s = Ret b t" "buf_data b t = Ret (view s d) t"
    and u: "\<exists>s'. kbind (set_data b (g (view s d))) (\<lambda>_. kbind (log_write b) (\<lambda>_. brelse b)) t = Ret () s' \<and> open_txn S Z (insert d D) s'
        \<and> (\<forall>e<S. view s' e = (if e = d then g (view s d) else view s e)) \<and> logst.more s' = logst.more s"
    using txn_held [OF assms(1,2) c] assms(3,4) by metis
  then obtain s' where s': "kbind (set_data b (g (view s d))) (\<lambda>_. kbind (log_write b) (\<lambda>_. brelse b)) t = Ret () s'"
    "open_txn S Z (insert d D) s'" "\<forall>e<S. view s' e = (if e = d then g (view s d) else view s e)" "logst.more s' = logst.more s" by blast
  have "kbind (kbind (set_data b (g (view s d))) (\<lambda>_. kbind (log_write b) (\<lambda>_. brelse b))) (\<lambda>_. k) t = k s'"
    by (rule kbind_Ret) (rule s'(1))
  then show ?thesis using t s'(2-4) by (intro exI [of _ s']) (simp add: kbind_assoc)
qed

lemma log_room_mono: "log_room Z E \<Longrightarrow> D \<subseteq> E \<Longrightarrow> log_room Z D"
  unfolding log_room_def by (meson card_mono finite_subset le_trans add_le_mono1 le_less_trans)

lemma log_roomI: "open_txn S Z D s \<Longrightarrow> card D + card E \<le> 9 \<Longrightarrow> card D + card E + 1 < Z \<Longrightarrow> finite E \<Longrightarrow> log_room Z (E \<union> D)"
  using open_txnD(4) [of S Z D s] card_Un_le [of E D] finite_subset [of D "{..<S}"] by (auto simp: log_room_def)

lemma readsb_txn:
  assumes "open_txn S Z D s" and "1 < S" and "card D \<le> 9"
  shows "\<exists>s'. kbind (readsb 1) f s = f (dec_super (view s 1)) s' \<and> open_txn S Z D s' \<and> view s' = view s \<and> logst.more s' = logst.more s"
  using txn_read [OF assms(1,2,3), of "\<lambda>v. f (dec_super v)"] by (simp add: readsb_def kbind_assoc kbind_kreturn_left)

section \<open>The bitmap\<close>

definition fs_size :: "'z bio_scheme \<Rightarrow> nat" where
  "fs_size s = unat (sb_size (dec_super (view s 1)))"

definition fs_ninodes :: "'z bio_scheme \<Rightarrow> nat" where
  "fs_ninodes s = unat (sb_ninodes (dec_super (view s 1)))"

text \<open>The bitmap block of a block, and whether the bitmap says the block is in use.\<close>

definition bm_block :: "'z bio_scheme \<Rightarrow> nat \<Rightarrow> nat" where
  "bm_block s b = BBLOCK b (fs_ninodes s)"

definition in_use :: "'z bio_scheme \<Rightarrow> nat \<Rightarrow> bool" where
  "in_use s b \<longleftrightarrow> bmap_bit (view s (bm_block s b)) (b mod BPB)"

text \<open>The blocks that are free are data blocks: not the super block, the bitmap or the log.\<close>

definition bitmap_ok :: "nat \<Rightarrow> 'z bio_scheme \<Rightarrow> bool" where
  "bitmap_ok S s \<longleftrightarrow> 1 < S \<and> (\<forall>b<fs_size s. bm_block s b < S \<and> bm_block s b \<noteq> 1)
     \<and> (\<forall>c<fs_size s. \<not> in_use s c \<longrightarrow> c < S \<and> c \<noteq> 1 \<and> (\<forall>b<fs_size s. c \<noteq> bm_block s b))"

lemma bmap_bit_iff: "bmap_bit v i \<longleftrightarrow> bit (v ! (i div 8)) (i mod 8)"
proof -
  have "bmap_bit v i \<longleftrightarrow> v ! (i div 8) AND 2 ^ (i mod 8) \<noteq> 0" by (simp add: bmap_bit_def push_bit_eq_mult)
  then show ?thesis by (simp add: and_exp_eq_0_iff_not_bit)
qed

lemma div_mod_8: "i div 8 = j div 8 \<and> i mod 8 = j mod 8 \<longleftrightarrow> i = (j :: nat)"
  by (metis div_mult_mod_eq)

lemma bmap_bit_set: "i < 8 * length v \<Longrightarrow> bmap_bit (set_bit_in v i) j \<longleftrightarrow> j = i \<or> bmap_bit v j"
proof -
  assume "i < 8 * length v"
  then have "i div 8 < length v" by auto
  moreover have "bit (push_bit (i mod 8) (1 :: byte)) (j mod 8) \<longleftrightarrow> i mod 8 = j mod 8"
    by (auto simp: bit_simps)
  ultimately show ?thesis
    unfolding bmap_bit_iff set_bit_in_def using div_mod_8 [of i j] by (auto simp: nth_list_update bit_or_iff)
qed

lemma bmap_bit_clear: "i < 8 * length v \<Longrightarrow> bmap_bit (clear_bit_in v i) j \<longleftrightarrow> j \<noteq> i \<and> bmap_bit v j"
proof -
  assume "i < 8 * length v"
  then have "i div 8 < length v" by auto
  moreover have "bit (NOT (push_bit (i mod 8) (1 :: byte))) (j mod 8) \<longleftrightarrow> i mod 8 \<noteq> j mod 8"
    by (auto simp: bit_simps)
  ultimately show ?thesis
    unfolding bmap_bit_iff clear_bit_in_def using div_mod_8 [of i j] by (auto simp: nth_list_update bit_and_iff)
qed

lemma free_bit_Some: "free_bit v b sz is = Some i \<Longrightarrow> i \<in> set is \<and> b + i < sz \<and> \<not> bmap_bit v i"
  by (induction "is") (auto split: if_splits)

lemma free_bit_None:
  "free_bit v b sz is = None \<Longrightarrow> sorted is \<Longrightarrow> i \<in> set is \<Longrightarrow> b + i < sz \<Longrightarrow> bmap_bit v i"
  by (induction "is") (auto split: if_splits)

lemma bm_block_region: "c div BPB = k \<Longrightarrow> BBLOCK (k * BPB) n = BBLOCK c n"
  by (simp add: BBLOCK_def)

text \<open>What the allocation of block \<open>c\<close> does.\<close>

definition allocated :: "nat \<Rightarrow> nat \<Rightarrow> nat set \<Rightarrow> 'z logst_scheme \<Rightarrow> nat \<Rightarrow> 'z logst_scheme \<Rightarrow> bool" where
  "allocated S Z D s c s' \<longleftrightarrow> c < fs_size s \<and> \<not> in_use s c \<and> open_txn S Z ({c, bm_block s c} \<union> D) s'
     \<and> view s' c = replicate BSIZE 0 \<and> view s' (bm_block s c) = set_bit_in (view s (bm_block s c)) (c mod BPB)
     \<and> (\<forall>e<S. e \<noteq> c \<longrightarrow> e \<noteq> bm_block s c \<longrightarrow> view s' e = view s e) \<and> logst.more s' = logst.more s"

lemma bzero_txn:
  assumes "open_txn S Z D s" and "d < S" and "log_room Z (insert d D)"
  shows "\<exists>s'. bzero 1 (word_of_nat d) s = Ret () s' \<and> open_txn S Z (insert d D) s'
    \<and> (\<forall>e<S. view s' e = (if e = d then replicate BSIZE 0 else view s e)) \<and> logst.more s' = logst.more s"
  using txn_block_open [OF assms(1,2) _ assms(3), of "replicate BSIZE 0"] by (simp add: txn_block_def bzero_def)

text \<open>A bitmap block with a free bit: the bit is set and the block it stands for is cleared.\<close>

lemma balloc_scan_take:
  assumes op: "open_txn S Z D s" and ok: "bitmap_ok S s" and D: "card D + 2 \<le> 9" "card D + 3 < Z" and k: "k * BPB < fs_size s"
    and Some: "free_bit (view s (BBLOCK (k * BPB) (fs_ninodes s))) (k * BPB) (fs_size s) [0..<BPB] = Some i"
  shows "\<exists>c s'. balloc_scan 1 (dec_super (view s 1)) (k # ks) s = Ret (word_of_nat c) s' \<and> allocated S Z D s c s'"
proof -
  let ?bb = "BBLOCK (k * BPB) (fs_ninodes s)" and ?c = "k * BPB + i"
  have sb: "unat (sb_ninodes (dec_super (view s 1))) = fs_ninodes s" "unat (sb_size (dec_super (view s 1))) = fs_size s"
    by (simp_all add: fs_ninodes_def fs_size_def)
  have kb: "bm_block s (k * BPB) = ?bb" "?bb < S" using ok k by (auto simp: bitmap_ok_def bm_block_def)
  have c9: "card D \<le> 9" using D by simp
  obtain b t where t: "bread 1 (word_of_nat ?bb) s = Ret b t" "buf_data b t = Ret (view s ?bb) t"
    and upd: "\<And>v. length v = 512 \<Longrightarrow> log_room Z (insert ?bb D) \<Longrightarrow>
      \<exists>s'. kbind (set_data b v) (\<lambda>_. kbind (log_write b) (\<lambda>_. brelse b)) t = Ret () s' \<and> open_txn S Z (insert ?bb D) s'
        \<and> (\<forall>e<S. view s' e = (if e = ?bb then v else view s e)) \<and> logst.more s' = logst.more s"
    by (rule txn_held [OF op kb(2) c9]) (rule that)
  have len: "length (view s ?bb) = 512"
    using bc.block_length [OF open_txnD(1) [OF op], of ?bb] open_txnD(5) [OF op] kb(2) by simp
  have i: "i < BPB" "?c < fs_size s" "\<not> bmap_bit (view s ?bb) i" using free_bit_Some [OF Some] by auto
  have cm: "?c div BPB = k" "?c mod BPB = i" using i(1) by simp_all
  then have cb: "bm_block s ?c = ?bb" using bm_block_region [OF cm(1)] by (simp add: bm_block_def)
  then have free: "\<not> in_use s ?c" using i(3) cm(2) by (simp add: in_use_def)
  then have "?c < S \<and> (\<forall>b<fs_size s. ?c \<noteq> bm_block s b)" using ok i(2) unfolding bitmap_ok_def by blast
  with k have cS: "?c < S" "?c \<noteq> ?bb" using kb(1) by metis+
  have room: "log_room Z ({?c, ?bb} \<union> D)"
    by (rule log_roomI [OF op]) (use D cS(2) in simp_all)
  obtain u where u: "kbind (set_data b (set_bit_in (view s ?bb) i)) (\<lambda>_. kbind (log_write b) (\<lambda>_. brelse b)) t = Ret () u"
    "open_txn S Z (insert ?bb D) u" "\<forall>e<S. view u e = (if e = ?bb then set_bit_in (view s ?bb) i else view s e)"
    "logst.more u = logst.more s"
    using upd [of "set_bit_in (view s ?bb) i"] log_room_mono [OF room, of "insert ?bb D"] len by (auto simp: set_bit_in_def)
  obtain w where w: "bzero 1 (word_of_nat ?c) u = Ret () w" "open_txn S Z (insert ?c (insert ?bb D)) w"
    "\<forall>e<S. view w e = (if e = ?c then replicate BSIZE 0 else view u e)" "logst.more w = logst.more u"
    using bzero_txn [OF u(2) cS(1)] room by auto
  have "allocated S Z D s ?c w"
    unfolding allocated_def cb cm using i(2) free w(2-4) u(3,4) cS kb(2) by auto
  moreover have "kbind (kbind (set_data b (set_bit_in (view s ?bb) i)) (\<lambda>_. kbind (log_write b) (\<lambda>_. brelse b)))
      (\<lambda>_. kbind (bzero 1 (word_of_nat ?c)) (\<lambda>_. kreturn (word_of_nat ?c))) t = Ret (word_of_nat ?c) w"
    by (rule trans [OF kbind_Ret], rule u(1)) (simp add: w(1) del: of_nat_add of_nat_mult)
  then have "balloc_scan 1 (dec_super (view s 1)) (k # ks) s = Ret (word_of_nat ?c) w"
    using t Some by (simp add: sb kbind_assoc del: One_nat_def of_nat_add of_nat_mult)
  ultimately show ?thesis by blast
qed

lemma balloc_scan_run:
  assumes "open_txn S Z D s" and "bitmap_ok S s" and "card D + 2 \<le> 9" and "card D + 3 < Z"
    and "c0 < fs_size s" and "\<not> in_use s c0" and "c0 div BPB \<in> set ks" and "\<forall>k\<in>set ks. k * BPB < fs_size s"
  shows "\<exists>c s'. balloc_scan 1 (dec_super (view s 1)) ks s = Ret (word_of_nat c) s' \<and> allocated S Z D s c s'"
  using assms
proof (induction ks arbitrary: s)
  case (Cons k ks)
  let ?n = "fs_ninodes s" and ?sz = "fs_size s"
  let ?bb = "BBLOCK (k * BPB) ?n"
  show ?case
  proof (cases "free_bit (view s ?bb) (k * BPB) ?sz [0..<BPB]")
    case None
    have sb: "unat (sb_ninodes (dec_super (view s 1))) = ?n" "unat (sb_size (dec_super (view s 1))) = ?sz"
      by (simp_all add: fs_ninodes_def fs_size_def)
    have kb: "?bb < S" using Cons.prems(2,8) by (auto simp: bitmap_ok_def bm_block_def)
    have c9: "card D \<le> 9" using Cons.prems(3) by simp
    obtain b t where t: "bread 1 (word_of_nat ?bb) s = Ret b t" "buf_data b t = Ret (view s ?bb) t"
      and rel: "\<exists>s'. brelse b t = Ret () s' \<and> open_txn S Z D s' \<and> view s' = view s \<and> logst.more s' = logst.more s"
      by (rule txn_held [OF Cons.prems(1) kb c9]) (rule that)
    have "c0 div BPB \<noteq> k"
    proof
      assume k: "c0 div BPB = k"
      then have "c0 = k * BPB + c0 mod BPB" by (metis div_mult_mod_eq)
      then have "bmap_bit (view s ?bb) (c0 mod BPB)" using free_bit_None [OF None, of "c0 mod BPB"] Cons.prems(5) by simp
      then show False using Cons.prems(6) bm_block_region [OF k] by (simp add: in_use_def bm_block_def)
    qed
    then have in_ks: "c0 div BPB \<in> set ks" using Cons.prems(7) by simp
    obtain u where u: "brelse b t = Ret () u" "open_txn S Z D u" "view u = view s" "logst.more u = logst.more s" using rel by blast
    have same: "fs_size u = ?sz" "fs_ninodes u = ?n" "\<And>c. bm_block u c = bm_block s c" "\<And>c. in_use u c = in_use s c"
      by (simp_all add: fs_size_def fs_ninodes_def bm_block_def in_use_def u(3))
    have ok: "bitmap_ok S u" using Cons.prems(2) by (simp add: bitmap_ok_def same)
    have "\<exists>c s'. balloc_scan 1 (dec_super (view s 1)) ks u = Ret (word_of_nat c) s' \<and> allocated S Z D s c s'"
      using Cons.IH [OF u(2) ok Cons.prems(3,4)] Cons.prems(5,6,8) in_ks unfolding allocated_def same u(3,4) by simp
    then show ?thesis using t u(1) None by (simp add: sb del: One_nat_def)
  next
    case (Some i)
    then show ?thesis using Cons.prems(8) by (intro balloc_scan_take [OF Cons.prems(1-4)]) simp_all
  qed
qed simp

text \<open>The bitmap after an allocation and after a release.\<close>

lemma allocated_bitmap:
  assumes "allocated S Z D s c s'" and "bitmap_ok S s" and "open_txn S Z D s"
  shows "fs_size s' = fs_size s" "bm_block s' b = bm_block s b" "b < fs_size s \<Longrightarrow> in_use s' b \<longleftrightarrow> b = c \<or> in_use s b"
    "bitmap_ok S s'"
proof -
  have c: "c < fs_size s" "\<not> in_use s c" "c < S" "c \<noteq> 1" "\<forall>b<fs_size s. c \<noteq> bm_block s b"
    using assms(1,2) by (auto simp: allocated_def bitmap_ok_def)
  have bb: "bm_block s b < S" "bm_block s b \<noteq> 1" if "b < fs_size s" for b using that assms(2) by (auto simp: bitmap_ok_def)
  have "\<forall>e<S. e \<noteq> c \<longrightarrow> e \<noteq> bm_block s c \<longrightarrow> view s' e = view s e" "1 < S"
    using assms(1,2) unfolding allocated_def bitmap_ok_def by blast+
  then have "view s' 1 = view s 1" using c(4) bb(2) [OF c(1)] by metis
  then show sz: "fs_size s' = fs_size s" and bm: "bm_block s' b = bm_block s b" for b
    by (simp_all add: fs_size_def bm_block_def fs_ninodes_def)
  have len: "length (view s (bm_block s c)) = 512"
    using bc.block_length [OF open_txnD(1) [OF assms(3)], of "bm_block s c"] open_txnD(5) [OF assms(3)] bb [OF c(1)] by simp
  show iu: "in_use s' b \<longleftrightarrow> b = c \<or> in_use s b" if b: "b < fs_size s" for b
  proof (cases "bm_block s b = bm_block s c")
    case True
    then have "b div BPB = c div BPB" by (simp add: bm_block_def BBLOCK_def)
    then have "b mod BPB = c mod BPB \<longleftrightarrow> b = c" by (metis div_mult_mod_eq)
    then show ?thesis using True assms(1) len by (simp add: in_use_def bm allocated_def bmap_bit_set)
  next
    case False
    then have "view s' (bm_block s b) = view s (bm_block s b)" using assms(1) bb [OF b] c(5) b by (auto simp: allocated_def)
    then show ?thesis using False by (auto simp: in_use_def bm)
  qed
  show "bitmap_ok S s'" using assms(2) iu by (auto simp: bitmap_ok_def sz bm)
qed

lemma bfree_run:
  assumes "open_txn S Z D s" and "bitmap_ok S s" and "b < fs_size s" and "in_use s b" and "log_room Z (insert (bm_block s b) D)"
  shows "\<exists>s'. bfree 1 (word_of_nat b) s = Ret () s' \<and> open_txn S Z (insert (bm_block s b) D) s'
    \<and> (\<forall>e<S. view s' e = (if e = bm_block s b then clear_bit_in (view s (bm_block s b)) (b mod BPB) else view s e))
    \<and> logst.more s' = logst.more s"
proof -
  have b32: "unat (word_of_nat b :: uint) = b"
    using assms(3) unat_less_32 [of "sb_size (dec_super (view s 1))"] by (intro unat_of_nat_32) (simp add: fs_size_def)
  have bb: "bm_block s b < S" "1 < S" using assms(2,3) by (auto simp: bitmap_ok_def)
  have "card D \<le> card (insert (bm_block s b) D)" using assms(5) by (intro card_mono) (auto simp: log_room_def)
  then have c9: "card D \<le> 9" using assms(5) by (simp add: log_room_def)
  let ?f = "\<lambda>sb. kbind (bread 1 (word_of_nat (BBLOCK b (unat (sb_ninodes sb))))) (\<lambda>bp. kbind (buf_data bp) (\<lambda>v.
     if \<not> bmap_bit v (b mod BPB) then panic ''freeing free block''
     else kbind (set_data bp (clear_bit_in v (b mod BPB))) (\<lambda>_. kbind (log_write bp) (\<lambda>_. brelse bp))))"
  obtain u where u: "kbind (readsb 1) ?f s = ?f (dec_super (view s 1)) u" "open_txn S Z D u" "view u = view s" "logst.more u = logst.more s"
    using readsb_txn [OF assms(1) bb(2) c9, of ?f] by blast
  obtain q t where t: "bread 1 (word_of_nat (bm_block s b)) u = Ret q t" "buf_data q t = Ret (view u (bm_block s b)) t"
    and "\<exists>s'. brelse q t = Ret () s' \<and> open_txn S Z D s' \<and> view s' = view u \<and> logst.more s' = logst.more u"
    and upd: "\<And>v. length v = 512 \<Longrightarrow> log_room Z (insert (bm_block s b) D) \<Longrightarrow>
      \<exists>s'. kbind (set_data q v) (\<lambda>_. kbind (log_write q) (\<lambda>_. brelse q)) t = Ret () s' \<and> open_txn S Z (insert (bm_block s b) D) s'
        \<and> (\<forall>e<S. view s' e = (if e = bm_block s b then v else view u e)) \<and> logst.more s' = logst.more u"
    by (rule txn_held [OF u(2) bb(1) c9]) (rule that)
  have len: "length (clear_bit_in (view s (bm_block s b)) (b mod BPB)) = 512"
    using bc.block_length [OF open_txnD(1) [OF assms(1)], of "bm_block s b"] open_txnD(5) [OF assms(1)] bb by (simp add: clear_bit_in_def)
  obtain s' where s': "kbind (set_data q (clear_bit_in (view s (bm_block s b)) (b mod BPB))) (\<lambda>_. kbind (log_write q) (\<lambda>_. brelse q)) t = Ret () s'"
    "open_txn S Z (insert (bm_block s b) D) s'"
    "\<forall>e<S. view s' e = (if e = bm_block s b then clear_bit_in (view s (bm_block s b)) (b mod BPB) else view u e)" "logst.more s' = logst.more u"
    using upd [OF len assms(5)] by blast
  have bs: "BBLOCK b (unat (sb_ninodes (dec_super (view s 1)))) = bm_block s b" by (simp add: bm_block_def fs_ninodes_def)
  have iu: "bmap_bit (view s (bm_block s b)) (b mod BPB)" using assms(4) by (simp add: in_use_def)
  have "bfree 1 (word_of_nat b) s = ?f (dec_super (view s 1)) u" using u(1) by (simp add: bfree_def b32 Let_def)
  also have "\<dots> = Ret () s'" unfolding bs using t s'(1) iu by (simp add: u(3))
  finally show ?thesis using s'(2-4) u(3,4) by auto
qed

section \<open>Properties\<close>

text \<open>
  C33: inside a transaction, and while some block is free, the allocator returns a block that was free, marks it in
  the bitmap and zeroes it; every other block of the file system and the state of every other block in the
  bitmap are unchanged, and so is everything above the log.
\<close>

theorem balloc_correct:
  assumes "open_txn S Z D s" and "bitmap_ok S s" and "card D + 2 \<le> 9" and "card D + 3 < Z"
    and "c0 < fs_size s" and "\<not> in_use s c0"
  shows "\<exists>c s'. balloc 1 s = Ret (word_of_nat c) s' \<and> c < fs_size s \<and> \<not> in_use s c \<and> in_use s' c
    \<and> view s' c = replicate 512 0 \<and> (\<forall>b<fs_size s. b \<noteq> c \<longrightarrow> in_use s' b = in_use s b)
    \<and> (\<forall>e<S. e \<noteq> c \<longrightarrow> e \<noteq> bm_block s c \<longrightarrow> view s' e = view s e)
    \<and> open_txn S Z ({c, bm_block s c} \<union> D) s' \<and> bitmap_ok S s' \<and> logst.more s' = logst.more s"
proof -
  have "1 < S" "card D \<le> 9" using assms(2,3) by (auto simp: bitmap_ok_def)
  then obtain u where u: "balloc 1 s = balloc_scan 1 (dec_super (view s 1)) [0..<(fs_size s + BPB - 1) div BPB] u"
    "open_txn S Z D u" "view u = view s" "logst.more u = logst.more s"
    using readsb_txn [OF assms(1), of "\<lambda>sb. balloc_scan 1 sb [0..<(unat (sb_size sb) + BPB - 1) div BPB]"]
    by (auto simp: balloc_def fs_size_def)
  have same: "fs_size u = fs_size s" "\<And>c. bm_block u c = bm_block s c" "\<And>c. in_use u c = in_use s c"
    by (simp_all add: fs_size_def fs_ninodes_def bm_block_def in_use_def u(3))
  have ok: "bitmap_ok S u" using assms(2) by (simp add: bitmap_ok_def same)
  have "c0 div BPB \<in> set [0..<(fs_size s + BPB - 1) div BPB]" using assms(5) by auto
  moreover have "\<forall>k\<in>set [0..<(fs_size s + BPB - 1) div BPB]. k * BPB < fs_size s" by auto
  ultimately obtain c s' where r: "balloc 1 s = Ret (word_of_nat c) s'" "allocated S Z D u c s'"
    using balloc_scan_run [OF u(2) ok assms(3,4), of c0] assms(5,6) unfolding same u(1,3) by blast
  then have a: "allocated S Z D s c s'" unfolding allocated_def same u(3,4) by blast
  note b = allocated_bitmap [OF a assms(2,1)]
  show ?thesis using r(1) a b(3,4) unfolding allocated_def by blast
qed

text \<open>
  Releasing a block that is in use clears its bit in the bitmap and changes nothing else; releasing a block
  that is free already is caught.
\<close>

theorem bfree_correct:
  assumes "open_txn S Z D s" and "bitmap_ok S s" and "b < fs_size s" and "log_room Z (insert (bm_block s b) D)"
  shows "if in_use s b
    then \<exists>s'. bfree 1 (word_of_nat b) s = Ret () s' \<and> \<not> in_use s' b \<and> (\<forall>c<fs_size s. c \<noteq> b \<longrightarrow> in_use s' c = in_use s c)
      \<and> (\<forall>e<S. e \<noteq> bm_block s b \<longrightarrow> view s' e = view s e) \<and> open_txn S Z (insert (bm_block s b) D) s' \<and> logst.more s' = logst.more s
    else bfree 1 (word_of_nat b) s = Panic ''freeing free block''"
proof (cases "in_use s b")
  case True
  have bb: "bm_block s c < S" "bm_block s c \<noteq> 1" if "c < fs_size s" for c using that assms(2) by (auto simp: bitmap_ok_def)
  obtain s' where s': "bfree 1 (word_of_nat b) s = Ret () s'" "open_txn S Z (insert (bm_block s b) D) s'"
    "\<forall>e<S. view s' e = (if e = bm_block s b then clear_bit_in (view s (bm_block s b)) (b mod BPB) else view s e)" "logst.more s' = logst.more s"
    using bfree_run [OF assms(1-3) True assms(4)] by blast
  have "view s' 1 = view s 1" using s'(3) bb(2) [OF assms(3)] assms(2) by (simp add: bitmap_ok_def)
  then have bm: "bm_block s' c = bm_block s c" for c by (simp add: bm_block_def fs_ninodes_def)
  have len: "length (view s (bm_block s b)) = 512"
    using bc.block_length [OF open_txnD(1) [OF assms(1)], of "bm_block s b"] open_txnD(5) [OF assms(1)] bb [OF assms(3)] by simp
  have "in_use s' c \<longleftrightarrow> c \<noteq> b \<and> in_use s c" if c: "c < fs_size s" for c
  proof (cases "bm_block s c = bm_block s b")
    case True
    then have "c div BPB = b div BPB" by (simp add: bm_block_def BBLOCK_def)
    then have "c mod BPB = b mod BPB \<longleftrightarrow> c = b" by (metis div_mult_mod_eq)
    then show ?thesis using True s'(3) bb [OF assms(3)] len by (simp add: in_use_def bm bmap_bit_clear)
  next
    case False
    then show ?thesis using s'(3) bb [OF c] by (auto simp: in_use_def bm)
  qed
  then show ?thesis using s' True assms(3) by (simp add: bb(1))
next
  case False
  have b32: "unat (word_of_nat b :: uint) = b"
    using assms(3) unat_less_32 [of "sb_size (dec_super (view s 1))"] by (intro unat_of_nat_32) (simp add: fs_size_def)
  have bb: "bm_block s b < S" "1 < S" using assms(2,3) by (auto simp: bitmap_ok_def)
  have "card D \<le> card (insert (bm_block s b) D)" using assms(4) by (intro card_mono) (auto simp: log_room_def)
  then have c9: "card D \<le> 9" using assms(4) by (simp add: log_room_def)
  let ?f = "\<lambda>sb. kbind (bread 1 (word_of_nat (BBLOCK b (unat (sb_ninodes sb))))) (\<lambda>bp. kbind (buf_data bp) (\<lambda>v.
     if \<not> bmap_bit v (b mod BPB) then panic ''freeing free block''
     else kbind (set_data bp (clear_bit_in v (b mod BPB))) (\<lambda>_. kbind (log_write bp) (\<lambda>_. brelse bp))))"
  obtain u where u: "kbind (readsb 1) ?f s = ?f (dec_super (view s 1)) u" "open_txn S Z D u" "view u = view s"
    using readsb_txn [OF assms(1) bb(2) c9, of ?f] by blast
  obtain q t where t: "bread 1 (word_of_nat (bm_block s b)) u = Ret q t" "buf_data q t = Ret (view u (bm_block s b)) t"
    by (rule txn_held [OF u(2) bb(1) c9]) blast
  have bs: "BBLOCK b (unat (sb_ninodes (dec_super (view s 1)))) = bm_block s b" by (simp add: bm_block_def fs_ninodes_def)
  have "bfree 1 (word_of_nat b) s = ?f (dec_super (view s 1)) u" using u(1) by (simp add: bfree_def b32 Let_def)
  also have "\<dots> = Panic ''freeing free block''" unfolding bs using t False by (simp add: u(3) in_use_def)
  finally show ?thesis using False by simp
qed

section \<open>A file system to evaluate the properties on\<close>

text \<open>
  A disk of 32 sectors: the super block, the inodes of block 2, the bitmap in block 4, data from block 5 on and
  the log from sector 20 on. Inode 1 is a file of 1000 bytes in the blocks 5 and 6.
\<close>

definition ex_dinode :: dinode where
  "ex_dinode = \<lparr>d_type = 2, d_major = 0, d_minor = 0, d_nlink = 1, d_size = 1000, d_addrs = [5, 6] @ replicate 11 0\<rparr>"

definition ex_disk :: "nat \<Rightarrow> byte list" where
  "ex_disk d =
     (if d = 1 then enc_super \<lparr>sb_size = 32, sb_nblocks = 15, sb_ninodes = 8, sb_nlog = 12\<rparr> @ replicate 496 0
      else if d = 2 then splice (replicate 512 0) 64 (enc_dinode ex_dinode)
      else if d = 4 then [0x7F, 0, 0xF0, 0xFF] @ replicate 508 0
      else if d = 5 then replicate 512 65 else if d = 6 then replicate 512 66
      else replicate 512 0)"

definition ex_inode :: inode where
  "ex_inode = \<lparr>i_dev = 0, i_inum = 0, i_ref = 0, i_busy = False, i_valid = False, i_type = 0, i_major = 0, i_minor = 0,
     i_nlink = 0, i_size = 0, i_addrs = replicate 13 0\<rparr>"

definition ex_fs :: "bool \<Rightarrow> (nat \<Rightarrow> inode) \<Rightarrow> fsst" where
  "ex_fs busy ns = logst.extend (bio.extend (ptable.extend ex_boot
     (bio.fields (\<lambda>_. ex_buf False 0) [0..<10] ex_disk 32 [])) (logst.fields 20 12 busy 1 0 (\<lambda>_. 0))) (fsst.fields ns)"

lemma ex_fs_sel:
  "bufs (ex_fs busy ns) = (\<lambda>_. ex_buf False 0)" "lru (ex_fs busy ns) = [0..<10]" "disksize (ex_fs busy ns) = 32" "memdisk (ex_fs busy ns) = ex_disk"
  "dtrace (ex_fs busy ns) = []" "log_start (ex_fs busy ns) = 20" "log_size (ex_fs busy ns) = 12" "log_busy (ex_fs busy ns) = busy"
  "log_dev (ex_fs busy ns) = 1" "lh_n (ex_fs busy ns) = 0" "inodes (ex_fs busy ns) = ns" "procs (ex_fs busy ns) = procs ex_boot"
  by (simp_all add: ex_fs_def ptable.defs bio.defs logst.defs fsst.defs)

lemma length_ex_disk: "length (ex_disk d) = 512"
  by (simp add: ex_disk_def enc_super_def length_enc_dinode ex_dinode_def)

lemma ex_fs_cache: "bcache_inv (ex_fs busy ns)" "held (ex_fs busy ns) = Map.empty" "dirty (ex_fs busy ns) = {}" "view (ex_fs busy ns) = ex_disk"
proof -
  show i: "bcache_inv (ex_fs busy ns)"
    unfolding bcache_inv_def ex_fs_sel by (simp add: ex_buf_def length_ex_disk del: upt_rec_numeral)
  show "held (ex_fs busy ns) = Map.empty" "dirty (ex_fs busy ns) = {}" by (auto simp: held_def dirty_def ex_fs_sel ex_buf_def)
  show "view (ex_fs busy ns) = ex_disk"
    by (rule ext, subst view_uncached) (unfold cached_None [OF i] ex_fs_sel, simp_all add: ex_buf_def)
qed

lemma ex_fs_open: "open_txn 20 12 {} (ex_fs True ns)"
proof -
  have "in_txn 20 12 ex_disk [] [] [] (ex_fs True ns)"
    using ex_fs_cache [of True ns] by (simp add: in_txn_def log_at_def ex_fs_sel)
  then show ?thesis unfolding open_txn_def by fastforce
qed

lemma ex_fs_super: "fs_size (ex_fs busy ns) = 32" "fs_ninodes (ex_fs busy ns) = 8" "b < 32 \<Longrightarrow> bm_block (ex_fs busy ns) b = 4"
  by (simp_all add: fs_size_def fs_ninodes_def bm_block_def BBLOCK_def ex_fs_cache ex_disk_def dec_super_enc)

lemma ex_fs_in_use: "b < 32 \<Longrightarrow> in_use (ex_fs busy ns) b \<longleftrightarrow> b < 7 \<or> 20 \<le> b"
proof -
  have "\<forall>b\<in>set [0..<32]. bmap_bit ([0x7F, 0, 0xF0, 0xFF] @ replicate 508 0) b \<longleftrightarrow> b < 7 \<or> 20 \<le> b"
    unfolding bmap_bit_def by code_simp
  then show "b < 32 \<Longrightarrow> in_use (ex_fs busy ns) b \<longleftrightarrow> b < 7 \<or> 20 \<le> b"
    by (simp add: in_use_def ex_fs_super ex_fs_cache ex_disk_def)
qed

lemma ex_fs_bitmap: "bitmap_ok 20 (ex_fs busy ns)"
  unfolding bitmap_ok_def ex_fs_super(1) by (auto simp: ex_fs_super ex_fs_in_use)

theorem balloc_correct_witness:
  "\<exists>c s'. balloc 1 (ex_fs True (\<lambda>_. ex_inode)) = Ret (word_of_nat c) s' \<and> 7 \<le> c \<and> c < 20 \<and> view s' c = replicate 512 0"
proof -
  let ?s = "ex_fs True (\<lambda>_. ex_inode)"
  obtain c s' where "balloc 1 ?s = Ret (word_of_nat c) s'" "c < fs_size ?s" "\<not> in_use ?s c" "view s' c = replicate 512 0"
    using balloc_correct [OF ex_fs_open ex_fs_bitmap, of 7 "\<lambda>_. ex_inode"] by (auto simp: ex_fs_super ex_fs_in_use)
  then show ?thesis by (intro exI [of _ c] exI [of _ s']) (simp add: ex_fs_super ex_fs_in_use)
qed

theorem bfree_correct_witness:
  "(\<exists>s'. bfree 1 (word_of_nat 5) (ex_fs True (\<lambda>_. ex_inode)) = Ret () s' \<and> \<not> in_use s' 5)
   \<and> bfree 1 (word_of_nat 9) (ex_fs True (\<lambda>_. ex_inode)) = Panic ''freeing free block''"
  using bfree_correct [OF ex_fs_open ex_fs_bitmap, of 5 "\<lambda>_. ex_inode"] bfree_correct [OF ex_fs_open ex_fs_bitmap, of 9 "\<lambda>_. ex_inode"]
  by (auto simp: ex_fs_super ex_fs_in_use log_room_def)

end
