(* ===== verification/Inode_Proofs.thy ===== *)
theory Inode_Proofs
  imports Block_Proofs
begin

unbundle bit_operations_syntax

text \<open>
  Inodes: the cache has at most one entry per inode, an inode that is written back is read back, and reading
  and writing a file is reading and writing its bytes.
\<close>

section \<open>The inode cache\<close>

definition icache_ok :: "'z fsst_scheme \<Rightarrow> bool" where
  "icache_ok s \<longleftrightarrow> (\<forall>i<NINODE. 0 \<le> i_ref (inodes s i))
     \<and> (\<forall>i<NINODE. \<forall>j<NINODE. 0 < i_ref (inodes s i) \<longrightarrow> 0 < i_ref (inodes s j) \<longrightarrow>
          i_dev (inodes s i) = i_dev (inodes s j) \<longrightarrow> i_inum (inodes s i) = i_inum (inodes s j) \<longrightarrow> i = j)"

definition is_inode :: "uint \<Rightarrow> uint \<Rightarrow> inode \<Rightarrow> bool" where
  "is_inode dev inum n \<longleftrightarrow> 0 < i_ref n \<and> i_dev n = dev \<and> i_inum n = inum"

lemma find_inode_Some: "find_inode P is ns = Some i \<Longrightarrow> i \<in> set is \<and> P (ns i)"
  by (induction "is") (auto split: if_splits)

lemma find_inode_None: "find_inode P is ns = None \<longleftrightarrow> (\<forall>i\<in>set is. \<not> P (ns i))"
  by (induction "is") auto

lemma upd_inode_run: "upd_inode ip f s = Ret () (s\<lparr>inodes := (inodes s)(ip := f (inodes s ip))\<rparr>)"
  by (simp add: upd_inode_def)

text \<open>
  C34: the inode cache returns the one entry of an inode: the cached entry with one more reference and its
  contents untouched, or a recycled entry without contents; at most one entry stands for an inode at any
  time, and the cache panics exactly when every entry is referenced and none is the inode's.
\<close>

theorem iget_correct:
  assumes "icache_ok s"
  shows "if \<exists>i<NINODE. is_inode dev inum (inodes s i) \<or> i_ref (inodes s i) = 0
    then \<exists>ip s'. iget dev inum s = Ret ip s' \<and> ip < NINODE \<and> is_inode dev inum (inodes s' ip) \<and> icache_ok s'
      \<and> (\<forall>j. j \<noteq> ip \<longrightarrow> inodes s' j = inodes s j) \<and> logst.truncate s' = logst.truncate s
      \<and> (if \<exists>i<NINODE. is_inode dev inum (inodes s i)
         then is_inode dev inum (inodes s ip) \<and> inodes s' ip = (inodes s ip)\<lparr>i_ref := i_ref (inodes s ip) + 1\<rparr>
         else i_ref (inodes s ip) = 0 \<and> i_ref (inodes s' ip) = 1 \<and> \<not> i_busy (inodes s' ip) \<and> \<not> i_valid (inodes s' ip))
    else iget dev inum s = Panic ''iget: no inodes''"
proof (cases "find_inode (is_inode dev inum) [0..<NINODE] (inodes s)")
  case (Some ip)
  let ?s = "s\<lparr>inodes := (inodes s)(ip := (inodes s ip)\<lparr>i_ref := i_ref (inodes s ip) + 1\<rparr>)\<rparr>"
  have i: "ip < NINODE" "is_inode dev inum (inodes s ip)" using find_inode_Some [OF Some] by auto
  have "icache_ok ?s" using assms i unfolding icache_ok_def is_inode_def by auto
  moreover have "iget dev inum s = Ret ip ?s"
    using Some by (simp add: iget_def upd_inode_run is_inode_def [abs_def])
  ultimately show ?thesis using i by (auto simp: is_inode_def logst.defs)
next
  case none: None
  then have no: "\<not> (\<exists>i<NINODE. is_inode dev inum (inodes s i))" by (auto simp: find_inode_None)
  show ?thesis
  proof (cases "find_inode (\<lambda>n. i_ref n = 0) [0..<NINODE] (inodes s)")
    case (Some ip)
    let ?n = "(inodes s ip)\<lparr>i_dev := dev, i_inum := inum, i_ref := 1, i_busy := False, i_valid := False\<rparr>"
    let ?s = "s\<lparr>inodes := (inodes s)(ip := ?n)\<rparr>"
    have i: "ip < NINODE" "i_ref (inodes s ip) = 0" using find_inode_Some [OF Some] by auto
    have "icache_ok ?s" using assms no unfolding icache_ok_def is_inode_def by auto
    moreover have "iget dev inum s = Ret ip ?s"
      using none Some by (simp add: iget_def upd_inode_run is_inode_def [abs_def])
    ultimately show ?thesis using i no by (auto simp: is_inode_def logst.defs)
  next
    case None
    then have "\<not> (\<exists>i<NINODE. i_ref (inodes s i) = 0)" by (auto simp: find_inode_None)
    then show ?thesis using none None no by (auto simp: iget_def is_inode_def [abs_def])
  qed
qed

section \<open>Reading blocks\<close>

text \<open>A cache in which no buffer is held and one more sector can be brought in.\<close>

definition calm :: "'z logst_scheme \<Rightarrow> bool" where
  "calm s \<longleftrightarrow> bcache_inv s \<and> held s = Map.empty \<and> card (dirty s) \<le> 9"

lemma calm_txn: "open_txn S Z D s \<Longrightarrow> card D \<le> 9 \<Longrightarrow> calm s"
  using open_txnD [of S Z D s] by (simp add: calm_def)

text \<open>Two states that differ only in which sectors are cached.\<close>

definition same_fs :: "'z logst_scheme \<Rightarrow> 'z logst_scheme \<Rightarrow> bool" where
  "same_fs s t \<longleftrightarrow> abs_bio t = abs_bio s \<and> bio_frame s t \<and> bcache_inv t"

lemma same_fsD:
  assumes "same_fs s t"
  shows "view t = view s" "disksize t = disksize s" "logst.more t = logst.more s" "calm s \<Longrightarrow> calm t" "open_txn S Z D s \<Longrightarrow> open_txn S Z D t"
  using assms open_txn_cong [of S Z D s t] bio_frame_lmore [of s t] bio_frame_log(7) [of s t]
  by (auto simp: same_fs_def calm_def abs_bio_def)

lemma same_fs_trans: "same_fs s t \<Longrightarrow> same_fs t u \<Longrightarrow> same_fs s u"
  unfolding same_fs_def using bio_frame_trans by auto

lemma same_fs_refl: "bcache_inv s \<Longrightarrow> same_fs s s"
  by (simp add: same_fs_def bio_frame_refl)

lemma calm_held:
  assumes "calm s" and "d < disksize s"
  obtains b t s' where "bread 1 (word_of_nat d) s = Ret b t" and "buf_data b t = Ret (view s d) t" and "brelse b t = Ret () s'" and "same_fs s s'"
proof -
  have i: "bcache_inv s" "held s = Map.empty" "card (dirty s) < 10" using assms(1) by (simp_all add: calm_def)
  obtain b t where t: "bread 1 (word_of_nat d) s = Ret b t" "bcache_inv t" "abs_bio t = (abs_bio s)\<lparr>a_held := [b \<mapsto> d]\<rparr>"
    using bc.rd [OF i(1), of d] i assms(2) by auto
  have g: "buf_data b t = Ret (view s d) t" using bc.get [OF t(2), of b d] by (simp add: t(3))
  obtain s' where "kbind (bread 1 (word_of_nat d)) (\<lambda>b. kbind (buf_data b) (\<lambda>v. kbind (brelse b) (\<lambda>_. kreturn ()))) s = Ret () s'"
    "bcache_inv s'" "bio_frame s s'" "abs_bio s' = abs_bio s"
    using bc.read_cycle [OF i(1), of d "\<lambda>_. kreturn ()"] i assms(2) by auto
  then have "brelse b t = Ret () s'" "same_fs s s'" using t(1) g by (simp_all add: kbind_kreturn_right same_fs_def)
  with t(1) g show thesis by (rule that)
qed

lemma inodes_upd [simp]:
  "abs_bio (s\<lparr>inodes := N\<rparr>) = abs_bio s" "bcache_inv (s\<lparr>inodes := N\<rparr>) = bcache_inv s" "view (s\<lparr>inodes := N\<rparr>) = view s"
  "held (s\<lparr>inodes := N\<rparr>) = held s" "dirty (s\<lparr>inodes := N\<rparr>) = dirty s" "calm (s\<lparr>inodes := N\<rparr>) = calm s"
proof -
  show a: "abs_bio (s\<lparr>inodes := N\<rparr>) = abs_bio s" "bcache_inv (s\<lparr>inodes := N\<rparr>) = bcache_inv s"
    by (simp_all add: abs_bio_def view_def cached_def held_def dirty_def bcache_inv_def fun_eq_iff split: option.split)
  then show b: "view (s\<lparr>inodes := N\<rparr>) = view s" "held (s\<lparr>inodes := N\<rparr>) = held s" "dirty (s\<lparr>inodes := N\<rparr>) = dirty s"
    by (simp_all add: abs_bio_def)
  then show "calm (s\<lparr>inodes := N\<rparr>) = calm s" using a by (simp add: calm_def)
qed

section \<open>Inodes on the disk\<close>

lemma iblock_eq: "iblock i = word_of_nat (IBLOCK (unat i))"
  by (simp add: iblock_def)

lemma iupdate_run:
  assumes "open_txn S Z D s" and "i_dev (inodes s ip) = 1" and "length (i_addrs (inodes s ip)) = 13"
    and "IBLOCK (unat (i_inum (inodes s ip))) < S" and "log_room Z (insert (IBLOCK (unat (i_inum (inodes s ip)))) D)"
  shows "\<exists>s'. iupdate ip s = Ret () s' \<and> open_txn S Z (insert (IBLOCK (unat (i_inum (inodes s ip)))) D) s' \<and> inodes s' = inodes s
    \<and> (\<forall>e<S. view s' e = (if e = IBLOCK (unat (i_inum (inodes s ip)))
         then splice (view s e) (ioff (i_inum (inodes s ip))) (enc_dinode (to_dinode (inodes s ip))) else view s e))"
proof -
  let ?n = "inodes s ip"
  let ?d = "IBLOCK (unat (i_inum ?n))"
  let ?g = "\<lambda>v. splice v (ioff (i_inum ?n)) (enc_dinode (to_dinode ?n))"
  have "length (view s ?d) = 512"
    using bc.block_length [OF open_txnD(1) [OF assms(1)], of ?d] open_txnD(5) [OF assms(1)] assms(4) by simp
  then have len: "length (?g (view s ?d)) = 512" using assms(3) by (simp add: length_enc_dinode to_dinode_def ioff_def)
  obtain s' where s': "kbind (bread 1 (word_of_nat ?d)) (\<lambda>b. kbind (buf_data b) (\<lambda>v. kbind (set_data b (?g v)) (\<lambda>_.
      kbind (log_write b) (\<lambda>_. kbind (brelse b) (\<lambda>_. kreturn ()))))) s = Ret () s'" "open_txn S Z (insert ?d D) s'"
    "\<forall>e<S. view s' e = (if e = ?d then ?g (view s ?d) else view s e)" "logst.more s' = logst.more s"
    using txn_update [where g = ?g and k = "kreturn ()", OF assms(1,4) len assms(5)] by auto
  have "iupdate ip s = Ret () s'" using s'(1) assms(2) by (simp add: iupdate_def iblock_eq kbind_kreturn_right)
  then show ?thesis using s'(2,3) inodes_lmore [OF s'(4)] by (intro exI [of _ s']) auto
qed

lemma ilock_load:
  assumes "calm s" and "i_dev (inodes s ip) = 1" and "1 \<le> i_ref (inodes s ip)" and "\<not> i_busy (inodes s ip)" and "\<not> i_valid (inodes s ip)"
    and "IBLOCK (unat (i_inum (inodes s ip))) < disksize s"
    and "d = dec_dinode (view s (IBLOCK (unat (i_inum (inodes s ip))))) (ioff (i_inum (inodes s ip)))" and "d_type d \<noteq> 0"
  shows "\<exists>s'. ilock (Some ip) s = Ret () s' \<and> to_dinode (inodes s' ip) = d \<and> i_valid (inodes s' ip) \<and> i_busy (inodes s' ip)
    \<and> (\<forall>j. j \<noteq> ip \<longrightarrow> inodes s' j = inodes s j) \<and> view s' = view s"
proof -
  let ?n = "inodes s ip"
  let ?s = "s\<lparr>inodes := (inodes s)(ip := ?n\<lparr>i_busy := True\<rparr>)\<rparr>"
  have i: "bcache_inv ?s" "held ?s = Map.empty" "card (dirty ?s) < 10" using assms(1) by (simp_all add: calm_def)
  let ?b = "IBLOCK (unat (i_inum ?n))"
  have db: "?b < a_size (abs_bio ?s)" using assms(6) by (simp add: abs_bio_def)
  obtain b t where t: "bread 1 (word_of_nat ?b) ?s = Ret b t" "bcache_inv t" "bio_frame ?s t" "abs_bio t = (abs_bio s)\<lparr>a_held := [b \<mapsto> ?b]\<rparr>"
    using bc.rd [OF i(1) db] i by auto
  have ti: "inodes t = inodes ?s" using bio_frame_lmore [OF t(3)] by (rule inodes_lmore)
  have g: "buf_data b t = Ret (view s ?b) t" using bc.get [OF t(2), of b ?b] by (simp add: t(4))
  let ?t = "t\<lparr>inodes := (inodes t)(ip := ?n\<lparr>i_busy := True, i_type := d_type d, i_major := d_major d, i_minor := d_minor d,
           i_nlink := d_nlink d, i_size := d_size d, i_addrs := d_addrs d\<rparr>)\<rparr>"
  have at: "bcache_inv ?t" "abs_bio ?t = (abs_bio s)\<lparr>a_held := [b \<mapsto> ?b]\<rparr>" using t by simp_all
  have clean: "?b \<in> a_dirty (abs_bio ?t) \<or> a_view (abs_bio ?t) ?b = a_disk (abs_bio ?t) ?b"
    unfolding at(2) using bc.clean [of s ?b] assms(1) by (auto simp: calm_def)
  obtain u where u: "brelse b ?t = Ret () u" "bcache_inv u" "bio_frame ?t u" "abs_bio u = (abs_bio ?t)\<lparr>a_held := (a_held (abs_bio ?t))(b := None)\<rparr>"
    using bc.rel [OF at(1) _ clean, of b] unfolding at(2) by auto
  have ui: "inodes u = inodes ?t" using bio_frame_lmore [OF u(3)] by (rule inodes_lmore)
  have uv: "view u = view s" using u(4) unfolding at(2) by (simp add: abs_bio_def)
  let ?u = "u\<lparr>inodes := (inodes u)(ip := (inodes u ip)\<lparr>i_valid := True\<rparr>)\<rparr>"
  have "ilock (Some ip) s = Ret () ?u"
    using assms(2-5,7,8) t(1) g u(1) ti ui by (simp add: ilock_def upd_inode_run iblock_eq Let_def)
  moreover have "to_dinode (inodes ?u ip) = d" by (simp add: ui to_dinode_def)
  ultimately show ?thesis using uv ui ti by simp
qed

text \<open>
  C12: an inode that is written back in a transaction is what a later lock loads: all of its fields come back, and the
  other inodes of the block are as they were.
\<close>

theorem inode_persist:
  fixes s :: "'z fsst_scheme"
  assumes "open_txn S Z D s" and "i_dev (inodes s ip) = 1" and "length (i_addrs (inodes s ip)) = 13"
    and "IBLOCK (unat (i_inum (inodes s ip))) < S" and "log_room Z (insert (IBLOCK (unat (i_inum (inodes s ip)))) D)"
    and "i_type (inodes s ip) \<noteq> 0"
  shows "\<exists>s'. iupdate ip s = Ret () s' \<and> (\<forall>(t :: 'z fsst_scheme) jp. calm t \<and> S < disksize t
      \<and> view t (IBLOCK (unat (i_inum (inodes s ip)))) = view s' (IBLOCK (unat (i_inum (inodes s ip))))
      \<and> is_inode 1 (i_inum (inodes s ip)) (inodes t jp) \<and> \<not> i_busy (inodes t jp) \<and> \<not> i_valid (inodes t jp) \<longrightarrow>
        (\<exists>t'. ilock (Some jp) t = Ret () t' \<and> i_type (inodes t' jp) = i_type (inodes s ip) \<and> i_major (inodes t' jp) = i_major (inodes s ip)
          \<and> i_minor (inodes t' jp) = i_minor (inodes s ip) \<and> i_nlink (inodes t' jp) = i_nlink (inodes s ip)
          \<and> i_size (inodes t' jp) = i_size (inodes s ip) \<and> i_addrs (inodes t' jp) = i_addrs (inodes s ip)))
    \<and> (\<forall>inum. inum \<noteq> i_inum (inodes s ip) \<longrightarrow> IBLOCK (unat inum) < S \<longrightarrow>
        dec_dinode (view s' (IBLOCK (unat inum))) (ioff inum) = dec_dinode (view s (IBLOCK (unat inum))) (ioff inum))"
proof -
  let ?n = "inodes s ip"
  let ?i = "i_inum ?n"
  let ?b = "IBLOCK (unat ?i)"
  let ?v = "splice (view s ?b) (ioff ?i) (enc_dinode (to_dinode ?n))"
  obtain s' where s': "iupdate ip s = Ret () s'" "\<forall>e<S. view s' e = (if e = ?b then splice (view s e) (ioff ?i) (enc_dinode (to_dinode ?n)) else view s e)"
    using iupdate_run [OF assms(1-5)] by blast
  have vb: "view s' ?b = ?v" using s'(2) assms(4) by simp
  have len: "length (view s ?b) = 512"
    using bc.block_length [OF open_txnD(1) [OF assms(1)], of ?b] open_txnD(5) [OF assms(1)] assms(4) by simp
  have le: "length (enc_dinode (to_dinode ?n)) = 64" using assms(3) by (simp add: length_enc_dinode to_dinode_def)
  have off: "ioff ?i + 64 \<le> 512" unfolding ioff_def using mod_less_divisor [of 8 "unat ?i"] by linarith
  have dec: "dec_dinode ?v (ioff ?i) = to_dinode ?n"
    using dec_dinode_splice_in [of "ioff ?i" "enc_dinode (to_dinode ?n)" "view s ?b" "ioff ?i"] len le off assms(3)
    by (simp add: dec_dinode_enc to_dinode_def)
  have load: "\<exists>t'. ilock (Some jp) t = Ret () t' \<and> to_dinode (inodes t' jp) = to_dinode ?n"
    if t: "calm t" "S < disksize t" "view t ?b = view s' ?b" "is_inode 1 ?i (inodes t jp)" "\<not> i_busy (inodes t jp)" "\<not> i_valid (inodes t jp)"
    for t :: "'z fsst_scheme" and jp
  proof -
    have q: "i_dev (inodes t jp) = 1" "1 \<le> i_ref (inodes t jp)" "i_inum (inodes t jp) = ?i" using t(4) by (auto simp: is_inode_def)
    have e: "to_dinode ?n = dec_dinode (view t (IBLOCK (unat (i_inum (inodes t jp))))) (ioff (i_inum (inodes t jp)))"
      by (simp add: q(3) t(3) vb dec)
    have "IBLOCK (unat (i_inum (inodes t jp))) < disksize t" "d_type (to_dinode ?n) \<noteq> 0"
      using q(3) assms(4,6) t(2) by (simp_all add: to_dinode_def)
    then show ?thesis using ilock_load [OF t(1) q(1,2) t(5,6) _ e] by blast
  qed
  have other: "dec_dinode (view s' (IBLOCK (unat j))) (ioff j) = dec_dinode (view s (IBLOCK (unat j))) (ioff j)"
    if j: "j \<noteq> ?i" "IBLOCK (unat j) < S" for j
  proof (cases "IBLOCK (unat j) = ?b")
    case True
    then have "unat j div 8 = unat ?i div 8" by (simp add: IBLOCK_def)
    moreover have "unat j \<noteq> unat ?i" using j(1) by (simp add: word_unat_eq_iff)
    ultimately have "unat j mod 8 \<noteq> unat ?i mod 8" by (metis div_mult_mod_eq)
    then have "ioff j + 64 \<le> ioff ?i \<or> ioff ?i + 64 \<le> ioff j" unfolding ioff_def by linarith
    then show ?thesis unfolding True vb using dec_dinode_splice_out [of "ioff ?i" "enc_dinode (to_dinode ?n)" "view s ?b" "ioff j"] len le off by simp
  qed (use s'(2) j in simp)
  have "\<exists>t'. ilock (Some jp) t = Ret () t' \<and> i_type (inodes t' jp) = i_type ?n \<and> i_major (inodes t' jp) = i_major ?n
          \<and> i_minor (inodes t' jp) = i_minor ?n \<and> i_nlink (inodes t' jp) = i_nlink ?n
          \<and> i_size (inodes t' jp) = i_size ?n \<and> i_addrs (inodes t' jp) = i_addrs ?n"
    if "calm t" "S < disksize t" "view t ?b = view s' ?b" "is_inode 1 ?i (inodes t jp)" "\<not> i_busy (inodes t jp)" "\<not> i_valid (inodes t jp)"
    for t :: "'z fsst_scheme" and jp
    using load [OF that] by (auto simp: to_dinode_def)
  then show ?thesis using s'(1) other by blast
qed

end
