(* ===== verification/Content_Proofs.thy ===== *)
theory Content_Proofs
  imports Inode_Proofs
begin

unbundle bit_operations_syntax

text \<open>
  File contents: the bytes of a file in its direct and indirect blocks, and that reading and overwriting
  transfers exactly the bytes asked for.
\<close>

section \<open>The blocks of a file\<close>

definition blk_of :: "'z logst_scheme \<Rightarrow> inode \<Rightarrow> nat \<Rightarrow> uint" where
  "blk_of s n k = (if k < NDIRECT then i_addrs n ! k
     else get32 (view s (unat (i_addrs n ! NDIRECT))) (4 * (k - NDIRECT)))"

text \<open>Block \<open>k\<close> of the file is allocated, in the part of the disk below \<open>L\<close>.\<close>

definition mapped :: "nat \<Rightarrow> 'z logst_scheme \<Rightarrow> inode \<Rightarrow> nat \<Rightarrow> bool" where
  "mapped L s n k \<longleftrightarrow> k < MAXFILE \<and> blk_of s n k \<noteq> 0 \<and> unat (blk_of s n k) < L
     \<and> (NDIRECT \<le> k \<longrightarrow> i_addrs n ! NDIRECT \<noteq> 0 \<and> unat (i_addrs n ! NDIRECT) < L)"

definition file_byte :: "'z logst_scheme \<Rightarrow> inode \<Rightarrow> nat \<Rightarrow> byte" where
  "file_byte s n j = view s (unat (blk_of s n (j div BSIZE))) ! (j mod BSIZE)"

lemma blk_of_view: "view t = view s \<Longrightarrow> blk_of t n k = blk_of s n k" "view t = view s \<Longrightarrow> mapped L t n k = mapped L s n k"
  "view t = view s \<Longrightarrow> file_byte t n j = file_byte s n j"
  by (simp_all add: blk_of_def mapped_def file_byte_def)

lemma bmap_mapped:
  assumes "calm s" and "L \<le> disksize s" and "i_dev (inodes s ip) = 1" and "mapped L s (inodes s ip) k"
  shows "\<exists>s'. bmap ip (word_of_nat k) s = Ret (blk_of s (inodes s ip) k) s' \<and> same_fs s s'"
proof -
  let ?n = "inodes s ip"
  have k: "unat (word_of_nat k :: uint) = k" using assms(4) by (intro unat_of_nat_32) (simp add: mapped_def)
  show ?thesis
  proof (cases "k < 12")
    case True
    then have "bmap ip (word_of_nat k) s = Ret (blk_of s ?n k) s" using assms(4) by (simp add: bmap_def k mapped_def blk_of_def Let_def)
    then show ?thesis using assms(1) same_fs_refl by (auto simp: calm_def)
  next
    case False
    let ?i = "i_addrs ?n ! NDIRECT"
    have m: "k - 12 < 128" "?i \<noteq> 0" "unat ?i < disksize s" "blk_of s ?n k = get32 (view s (unat ?i)) (4 * (k - 12))" "blk_of s ?n k \<noteq> 0"
      using assms(2,4) False by (auto simp: mapped_def blk_of_def)
    obtain b t s' where r: "bread 1 (word_of_nat (unat ?i)) s = Ret b t" "buf_data b t = Ret (view s (unat ?i)) t" "brelse b t = Ret () s'" "same_fs s s'"
      by (rule calm_held [OF assms(1) m(3)])
    have "bmap ip (word_of_nat k) s = Ret (blk_of s ?n k) s'"
      using False m r assms(3) by (simp add: bmap_def k Let_def)
    then show ?thesis using r(4) by blast
  qed
qed

section \<open>Reading\<close>

lemma unat_chunk: "unat (chunk off r) = min (unat r) (BSIZE - unat off mod BSIZE)"
proof -
  have "unat (off mod 512) = unat off mod 512" by (simp add: unat_mod)
  moreover have "unat off mod 512 < 512" by simp
  ultimately have "unat (512 - off mod 512) = 512 - unat off mod 512" by (subst unat_sub) (simp_all add: word_le_nat_alt)
  then show ?thesis by (simp add: chunk_def Let_def word_less_nat_alt min_def)
qed

lemma same_block:
  assumes "a mod 512 + i < (512 :: nat)"
  shows "(a + i) div 512 = a div 512" "(a + i) mod 512 = a mod 512 + i"
  using div_mod_eqI [of "a + i" "a div 512" 512 "a mod 512 + i"] assms by simp_all

text \<open>The part of a block that a transfer covers, as bytes of the file.\<close>

lemma chunk_bytes:
  assumes "length v = 512" and "c \<le> 512 - o' mod 512" and "\<And>j. j div 512 = o' div 512 \<Longrightarrow> f j = v ! (j mod 512)"
  shows "take c (drop (o' mod 512) v) = map f [o'..<o' + c]"
proof (rule nth_equalityI)
  show "length (take c (drop (o' mod 512) v)) = length (map f [o'..<o' + c])" using assms(1,2) by simp
  fix i assume "i < length (take c (drop (o' mod 512) v))"
  then have i: "i < c" "o' mod 512 + i < 512" using assms(1,2) by auto
  note b = same_block [OF i(2)]
  then show "take c (drop (o' mod 512) v) ! i = map f [o'..<o' + c] ! i" using i b assms(1,3) by simp
qed

text \<open>The loop of \<^verbatim>\<open>readi\<close> on a range of mapped blocks.\<close>

lemma read_loop_run:
  fixes s :: "'z fsst_scheme"
  assumes "calm s" and "L \<le> disksize s" and "i_dev (inodes s ip) = 1" and "unat off + unat r < 2 ^ 31"
    and "\<forall>k. unat off div BSIZE \<le> k \<longrightarrow> k * BSIZE < unat off + unat r \<longrightarrow> mapped L s (inodes s ip) k"
  shows "\<exists>s'. read_loop ip off r s = Ret (map (file_byte s (inodes s ip)) [unat off..<unat off + unat r]) s' \<and> same_fs s s'"
  using assms
proof (induction "unat r" arbitrary: off r s rule: less_induct)
  case less
  show ?case
  proof (cases "r = 0")
    case True
    then show ?thesis using less.prems(1) same_fs_refl by (auto simp: read_loop.simps [of ip off] calm_def)
  next
    case False
    let ?n = "inodes s ip" and ?c = "chunk off r" and ?k = "unat off div BSIZE"
    have r0: "0 < unat r" using False by (simp add: unat_gt_0)
    have c: "unat ?c = min (unat r) (512 - unat off mod 512)" by (rule unat_chunk)
    have c': "0 < unat ?c" "unat ?c \<le> unat r" "unat ?c \<le> 512 - unat off mod 512" using r0 unfolding c by auto
    have k: "off div 512 = word_of_nat ?k" 
      using unat_less_32 [of off] by (simp add: word_unat_eq_iff unat_div unat_of_nat_32)
    have m: "mapped L s ?n ?k" using less.prems(5) r0 div_times_less_eq_dividend [of "unat off" 512] by simp
    obtain t where t: "bmap ip (off div 512) s = Ret (blk_of s ?n ?k) t" "same_fs s t"
      using bmap_mapped [OF less.prems(1-3) m] unfolding k by blast
    have ti: "inodes t = inodes s" using same_fsD(3) [OF t(2)] by (rule inodes_lmore)
    let ?d = "unat (blk_of s ?n ?k)"
    have d: "?d < disksize t" using m less.prems(2) same_fsD(2) [OF t(2)] by (simp add: mapped_def)
    obtain b u w where u: "bread 1 (word_of_nat ?d) t = Ret b u" "buf_data b u = Ret (view t ?d) u" "brelse b u = Ret () w" "same_fs t w"
      by (rule calm_held [OF same_fsD(4) [OF t(2) less.prems(1)] d])
    have sw: "same_fs s w" using t(2) u(4) by (rule same_fs_trans)
    have wi: "inodes w = inodes s" using same_fsD(3) [OF sw] by (rule inodes_lmore)
    have off': "unat (off + ?c) = unat off + unat ?c" using less.prems(4) c' by (subst unat_add_lem [THEN iffD1]) simp_all
    have r': "unat (r - ?c) = unat r - unat ?c" using c'(2) by (simp add: unat_sub word_le_nat_alt)
    have "unat off div 512 \<le> (unat off + unat ?c) div 512" by (rule div_le_mono) simp
    then have maps: "\<forall>k. unat (off + ?c) div BSIZE \<le> k \<longrightarrow> k * BSIZE < unat (off + ?c) + unat (r - ?c) \<longrightarrow> mapped L w (inodes w ip) k"
      using less.prems(5) c'(2) unfolding off' r' wi blk_of_view(2) [OF same_fsD(1) [OF sw]] by auto
    obtain x where x: "read_loop ip (off + ?c) (r - ?c) w = Ret (map (file_byte w (inodes w ip)) [unat (off + ?c)..<unat (off + ?c) + unat (r - ?c)]) x" "same_fs w x"
      using less.hyps [of "r - ?c" w "off + ?c"] chunk_decreases [OF False, of off] same_fsD(4) [OF sw less.prems(1)] same_fsD(2) [OF sw]
        less.prems(2-4) maps c'(2) unfolding wi off' r' by auto
    have lv: "length (view t ?d) = 512" using bc.block_length [of s ?d] less.prems(1) d same_fsD(1,2) [OF t(2)] by (simp add: calm_def)
    have "take (unat ?c) (drop (unat (off mod 512)) (view t ?d)) = map (file_byte s ?n) [unat off..<unat off + unat ?c]"
      using chunk_bytes [OF lv c'(3), of "file_byte s ?n"] same_fsD(1) [OF t(2)] by (simp add: unat_mod file_byte_def)
    moreover have "[unat off..<unat off + unat r] = [unat off..<unat off + unat ?c] @ [unat off + unat ?c..<unat off + unat r]"
      using c'(2) upt_add_eq_append [of "unat off" "unat off + unat ?c" "unat r - unat ?c"] by simp
    ultimately have "read_loop ip off r s = Ret (map (file_byte s ?n) [unat off..<unat off + unat r]) x"
      using False t(1) u x(1) less.prems(3) c'(2)
      by (simp add: read_loop.simps [of ip off r] ti wi off' r' blk_of_view(3) [OF same_fsD(1) [OF sw]])
    then show ?thesis using same_fs_trans [OF sw x(2)] by blast
  qed
qed

section \<open>Writing\<close>

text \<open>
  The blocks of a file are its own: distinct, and none of them is the block of indirect addresses. \<open>K\<close> is the
  number of blocks.
\<close>

definition own_blocks :: "nat \<Rightarrow> 'z logst_scheme \<Rightarrow> inode \<Rightarrow> nat \<Rightarrow> bool" where
  "own_blocks L s n K \<longleftrightarrow> (\<forall>k<K. mapped L s n k) \<and> inj_on (\<lambda>k. blk_of s n k) {..<K}
     \<and> (\<forall>k<K. NDIRECT < K \<longrightarrow> blk_of s n k \<noteq> i_addrs n ! NDIRECT)"

text \<open>The blocks a transfer of \<open>r\<close> bytes at \<open>off\<close> touches.\<close>

definition touched :: "'z logst_scheme \<Rightarrow> inode \<Rightarrow> nat \<Rightarrow> nat \<Rightarrow> nat set" where
  "touched s n off r = (\<lambda>j. unat (blk_of s n (j div BSIZE))) ` {off..<off + r}"

text \<open>Overwriting the data blocks of a file leaves the map of the file as it is.\<close>

lemma blk_of_frame:
  assumes "own_blocks L s n K" and "A \<subseteq> (\<lambda>k. unat (blk_of s n k)) ` {..<K}" and "\<forall>e<L. e \<notin> A \<longrightarrow> view t e = view s e"
  shows "k < K \<Longrightarrow> blk_of t n k = blk_of s n k" "own_blocks L t n K"
proof -
  have e: "blk_of t n k = blk_of s n k" if "k < K" for k
  proof (cases "k < 12")
    case False
    then have K: "12 < K" "unat (i_addrs n ! 12) < L" using that assms(1) by (auto simp: own_blocks_def mapped_def)
    have "unat (i_addrs n ! 12) \<notin> (\<lambda>k. unat (blk_of s n k)) ` {..<K}"
      using assms(1) K(1) by (auto simp: own_blocks_def word_unat_eq_iff)
    then have "unat (i_addrs n ! 12) \<notin> A" using assms(2) by blast
    then show ?thesis using False K(2) assms(3) by (simp add: blk_of_def)
  qed (simp add: blk_of_def)
  then show "k < K \<Longrightarrow> blk_of t n k = blk_of s n k" by blast
  have "inj_on (\<lambda>k. blk_of t n k) {..<K} = inj_on (\<lambda>k. blk_of s n k) {..<K}" by (rule inj_on_cong) (simp add: e)
  then show "own_blocks L t n K" using assms(1) e by (simp add: own_blocks_def mapped_def)
qed

lemma touched_own: "a + r \<le> K * BSIZE \<Longrightarrow> touched s n a r \<subseteq> (\<lambda>k. unat (blk_of s n k)) ` {..<K}"
  by (auto simp: touched_def less_mult_imp_div_less)

lemma block_split:
  assumes "a div 512 = b div (512 :: nat)"
  shows "a \<le> b \<longleftrightarrow> a mod 512 \<le> b mod 512" "b < a + c \<longleftrightarrow> b mod 512 < a mod 512 + c" "b mod 512 - a mod 512 = b - a"
  using div_mult_mod_eq [of a 512] div_mult_mod_eq [of b 512] assms by linarith+

text \<open>One round of the loop: part of block \<open>a div 512\<close> is overwritten.\<close>

lemma file_byte_splice:
  assumes "own_blocks L s n K" and "a div 512 < K" and "a mod 512 + c \<le> 512" and "length (take c src) = c"
    and "length (view s (unat (blk_of s n (a div 512)))) = 512"
    and "\<forall>e<L. view t e = (if e = unat (blk_of s n (a div 512)) then splice (view s e) (a mod 512) (take c src) else view s e)"
    and "j < K * 512"
  shows "file_byte t n j = (if a \<le> j \<and> j < a + c then src ! (j - a) else file_byte s n j)"
proof -
  let ?k = "a div 512" and ?m = "j div 512"
  have fr: "\<forall>e<L. e \<notin> {unat (blk_of s n ?k)} \<longrightarrow> view t e = view s e" using assms(6) by simp
  have sub: "{unat (blk_of s n ?k)} \<subseteq> (\<lambda>k. unat (blk_of s n k)) ` {..<K}" using assms(2) by auto
  have m: "?m < K" using assms(7) by (simp add: less_mult_imp_div_less)
  note b = blk_of_frame(1) [OF assms(1) sub fr m]
  have mL: "unat (blk_of s n ?m) < L" using assms(1) m by (auto simp: own_blocks_def mapped_def)
  show ?thesis
  proof (cases "?m = ?k")
    case True
    note sp = block_split [OF True [symmetric]]
    have v: "view t (unat (blk_of s n ?k)) = splice (view s (unat (blk_of s n ?k))) (a mod 512) (take c src)"
      using assms(6) mL True by simp
    have jm: "j mod 512 < 512" by simp
    have "file_byte t n j = splice (view s (unat (blk_of s n ?k))) (a mod 512) (take c src) ! (j mod 512)"
      using b v True by (simp add: file_byte_def)
    also have "\<dots> = (if a mod 512 \<le> j mod 512 \<and> j mod 512 < a mod 512 + c then take c src ! (j mod 512 - a mod 512)
        else view s (unat (blk_of s n ?k)) ! (j mod 512))"
      using assms(3-5) jm by (subst nth_splice) simp_all
    also have "\<dots> = (if a \<le> j \<and> j < a + c then src ! (j - a) else file_byte s n j)"
      unfolding sp(1) [symmetric] sp(2) [symmetric] sp(3) file_byte_def True by auto
    finally show ?thesis .
  next
    case False
    then have "blk_of s n ?m \<noteq> blk_of s n ?k" using assms(1,2) m by (auto simp: own_blocks_def inj_on_def)
    then have "view t (unat (blk_of s n ?m)) = view s (unat (blk_of s n ?m))" using fr mL by (simp add: word_unat_eq_iff)
    moreover have "\<not> (a \<le> j \<and> j < a + c)"
    proof
      assume h: "a \<le> j \<and> j < a + c"
      then have "a mod 512 + (j - a) < 512" using assms(3) by linarith
      then have "(a + (j - a)) div 512 = a div 512" by (rule same_block)
      then show False using False h by simp
    qed
    ultimately show ?thesis by (auto simp: file_byte_def b)
  qed
qed

text \<open>One round writes part of one block of the file; the rest of the loop runs from there.\<close>

lemma write_round:
  fixes s :: "'z fsst_scheme"
  assumes "open_txn S Z D s" and "i_dev (inodes s ip) = 1" and "mapped S s (inodes s ip) k" and "off div 512 = word_of_nat k"
    and "d = unat (blk_of s (inodes s ip) k)" and "log_room Z (insert d D)" and "r \<noteq> 0" and "length (take (unat (chunk off r)) src) = unat (chunk off r)"
  shows "\<exists>u. write_loop ip src off r s = write_loop ip (drop (unat (chunk off r)) src) (off + chunk off r) (r - chunk off r) u
    \<and> open_txn S Z (insert d D) u \<and> inodes u = inodes s
    \<and> (\<forall>e<S. view u e = (if e = d then splice (view s e) (unat off mod 512) (take (unat (chunk off r)) src) else view s e))"
proof -
  let ?n = "inodes s ip" and ?c = "chunk off r"
  have rm: "log_room Z D" using assms(6) by (rule log_room_mono) blast
  then have c9: "card D \<le> 9" by (simp add: log_room_def)
  have SL: "S \<le> disksize s" using open_txnD(5) [OF assms(1)] by simp
  obtain t where t: "bmap ip (off div 512) s = Ret (blk_of s ?n k) t" "same_fs s t"
    using bmap_mapped [OF calm_txn [OF assms(1) c9] SL assms(2,3)] unfolding assms(4) by blast
  have ti: "inodes t = inodes s" using same_fsD(3) [OF t(2)] by (rule inodes_lmore)
  have dS: "d < S" using assms(3,5) by (simp add: mapped_def)
  have lv: "length (view s d) = 512" using bc.block_length [OF open_txnD(1) [OF assms(1)], of d] SL dS by simp
  let ?v = "splice (view s d) (unat off mod 512) (take (unat ?c) src)"
  have "unat off mod 512 < 512" by simp
  then have "unat off mod 512 + unat ?c \<le> 512" unfolding unat_chunk by linarith
  then have lsv: "length ?v = 512" using lv assms(8) by simp
  obtain b w where w: "bread 1 (word_of_nat d) t = Ret b w" "buf_data b w = Ret (view t d) w"
    and "\<exists>s'. brelse b w = Ret () s' \<and> open_txn S Z D s' \<and> view s' = view t \<and> logst.more s' = logst.more t"
    and upd: "\<And>v. length v = 512 \<Longrightarrow> log_room Z (insert d D) \<Longrightarrow>
      \<exists>s'. kbind (set_data b v) (\<lambda>_. kbind (log_write b) (\<lambda>_. brelse b)) w = Ret () s' \<and> open_txn S Z (insert d D) s'
        \<and> (\<forall>e<S. view s' e = (if e = d then v else view t e)) \<and> logst.more s' = logst.more t"
    by (rule txn_held [OF same_fsD(5) [OF t(2) assms(1)] dS c9]) (rule that)
  obtain u where u: "kbind (set_data b ?v) (\<lambda>_. kbind (log_write b) (\<lambda>_. brelse b)) w = Ret () u" "open_txn S Z (insert d D) u"
    "\<forall>e<S. view u e = (if e = d then ?v else view t e)" "logst.more u = logst.more t"
    using upd [OF lsv assms(6)] by blast
  have ui: "inodes u = inodes s" using inodes_lmore [OF u(4)] ti by simp
  have "write_loop ip src off r s = kbind (kbind (set_data b ?v) (\<lambda>_. kbind (log_write b) (\<lambda>_. brelse b)))
      (\<lambda>_. write_loop ip (drop (unat ?c) src) (off + ?c) (r - ?c)) w"
    using assms(2,5,7) t w(1,2) ti same_fsD(1) [OF t(2)] by (simp add: write_loop.simps [of ip src off r] kbind_assoc unat_mod)
  also have "\<dots> = write_loop ip (drop (unat ?c) src) (off + ?c) (r - ?c) u" using u(1) by (simp only: kbind_Ret)
  finally show ?thesis using u(2,3) ui same_fsD(1) [OF t(2)] by (intro exI [of _ u]) auto
qed

lemma touched_round:
  assumes "0 < c" and "c \<le> r" and "a mod 512 + c \<le> 512" and "a + r \<le> K * 512" and "\<And>k. k < K \<Longrightarrow> blk_of u n k = blk_of s n k"
  shows "touched s n a r = insert (unat (blk_of s n (a div 512))) (touched u n (a + c) (r - c))"
proof -
  let ?f = "\<lambda>j. unat (blk_of s n (j div 512))"
  have "{a..<a + r} = {a..<a + c} \<union> {a + c..<a + c + (r - c)}" using assms(2) by auto
  then have "touched s n a r = ?f ` {a..<a + c} \<union> ?f ` {a + c..<a + c + (r - c)}" by (simp add: touched_def image_Un)
  moreover have "?f ` {a..<a + c} = {?f a}"
  proof -
    have "?f j = ?f a" if "j \<in> {a..<a + c}" for j using that assms(3) same_block(1) [of a "j - a"] by auto
    then have "?f ` {a..<a + c} = (\<lambda>_. ?f a) ` {a..<a + c}" by (rule image_cong [OF refl])
    then show ?thesis using assms(1) by (simp add: image_constant_conv)
  qed
  moreover have "?f ` {a + c..<a + c + (r - c)} = touched u n (a + c) (r - c)"
    unfolding touched_def using assms(2,4) by (intro image_cong) (auto simp: assms(5) less_mult_imp_div_less)
  ultimately show ?thesis by simp
qed

lemma write_loop_run:
  fixes s :: "'z fsst_scheme"
  assumes "open_txn S Z D s" and "i_dev (inodes s ip) = 1" and "own_blocks S s (inodes s ip) K"
    and "unat off + unat r \<le> K * 512" and "K \<le> MAXFILE" and "unat r \<le> length src" and "log_room Z (touched s (inodes s ip) (unat off) (unat r) \<union> D)"
  shows "\<exists>s'. write_loop ip src off r s = Ret () s' \<and> open_txn S Z (touched s (inodes s ip) (unat off) (unat r) \<union> D) s'
    \<and> inodes s' = inodes s \<and> (\<forall>e<S. e \<notin> touched s (inodes s ip) (unat off) (unat r) \<longrightarrow> view s' e = view s e)
    \<and> (\<forall>j<K * 512. file_byte s' (inodes s ip) j =
          (if unat off \<le> j \<and> j < unat off + unat r then src ! (j - unat off) else file_byte s (inodes s ip) j))"
  using assms
proof (induction "unat r" arbitrary: D off r s src rule: less_induct)
  case less
  let ?n = "inodes s ip"
  show ?case
  proof (cases "r = 0")
    case True
    then show ?thesis using less.prems(1) by (auto simp: write_loop.simps [of ip src off] touched_def)
  next
    case False
    let ?a = "unat off" and ?c = "unat (chunk off r)" and ?k = "unat off div 512"
    let ?d = "unat (blk_of s ?n ?k)"
    have r0: "0 < unat r" using False by (simp add: unat_gt_0)
    then have c: "0 < ?c" "?c \<le> unat r" "?a mod 512 + ?c \<le> 512" unfolding unat_chunk by auto
    have k: "off div 512 = word_of_nat ?k" using unat_less_32 [of off] by (simp add: word_unat_eq_iff unat_div unat_of_nat_32)
    have kK: "?k < K" using less.prems(4) r0 by (simp add: less_mult_imp_div_less)
    then have m: "mapped S s ?n ?k" using less.prems(3) by (simp add: own_blocks_def)
    have "?d \<in> touched s ?n ?a (unat r)" using r0 unfolding touched_def by (intro image_eqI [of _ _ ?a]) simp_all
    then have rm: "log_room Z (insert ?d D)" using less.prems(7) by (intro log_room_mono [OF less.prems(7)]) blast
    have lt: "length (take ?c src) = ?c" using c(2) less.prems(6) by simp
    obtain u where u: "write_loop ip src off r s = write_loop ip (drop ?c src) (off + chunk off r) (r - chunk off r) u"
      "open_txn S Z (insert ?d D) u" "inodes u = inodes s"
      "\<forall>e<S. view u e = (if e = ?d then splice (view s e) (?a mod 512) (take ?c src) else view s e)"
      using write_round [OF less.prems(1,2) m k refl rm False lt] by blast
    have lv: "length (view s ?d) = 512"
      using bc.block_length [OF open_txnD(1) [OF less.prems(1)], of ?d] open_txnD(5) [OF less.prems(1)] m by (simp add: mapped_def)
    have fb: "file_byte u ?n j = (if ?a \<le> j \<and> j < ?a + ?c then src ! (j - ?a) else file_byte s ?n j)" if "j < K * 512" for j
      by (rule file_byte_splice [OF less.prems(3) kK c(3) lt lv u(4) that])
    have fr: "\<forall>e<S. e \<notin> {?d} \<longrightarrow> view u e = view s e" using u(4) by simp
    have "{?d} \<subseteq> (\<lambda>k. unat (blk_of s ?n k)) ` {..<K}" using kK by auto
    note bf = blk_of_frame [OF less.prems(3) this fr]
    have off': "unat (off + chunk off r) = ?a + ?c" using less.prems(4,5) c by (subst unat_add_lem [THEN iffD1]) simp_all
    have r': "unat (r - chunk off r) = unat r - ?c" using c(2) by (simp add: unat_sub word_le_nat_alt)
    have split: "touched s ?n ?a (unat r) = insert ?d (touched u ?n (?a + ?c) (unat r - ?c))"
      by (rule touched_round [OF c less.prems(4)]) (rule bf(1))
    have room': "log_room Z (touched u ?n (?a + ?c) (unat r - ?c) \<union> insert ?d D)"
      using less.prems(7) unfolding split by (simp add: Un_commute)
    have prem: "unat (r - chunk off r) < unat r" "open_txn S Z (insert ?d D) u" "i_dev (inodes u ip) = 1" "own_blocks S u (inodes u ip) K"
      "unat (off + chunk off r) + unat (r - chunk off r) \<le> K * 512" "K \<le> MAXFILE" "unat (r - chunk off r) \<le> length (drop ?c src)"
      "log_room Z (touched u (inodes u ip) (unat (off + chunk off r)) (unat (r - chunk off r)) \<union> insert ?d D)"
      using chunk_decreases [OF False, of off] u(2) less.prems(2,4-6) bf(2) room' c(2) unfolding u(3) off' r' by simp_all
    obtain x where x: "write_loop ip (drop ?c src) (off + chunk off r) (r - chunk off r) u = Ret () x"
      "open_txn S Z (touched u ?n (?a + ?c) (unat r - ?c) \<union> insert ?d D) x" "inodes x = inodes s"
      "\<forall>e<S. e \<notin> touched u ?n (?a + ?c) (unat r - ?c) \<longrightarrow> view x e = view u e"
      "\<forall>j<K * 512. file_byte x ?n j = (if ?a + ?c \<le> j \<and> j < ?a + ?c + (unat r - ?c) then drop ?c src ! (j - (?a + ?c)) else file_byte u ?n j)"
      using less.hyps [OF prem, unfolded u(3) off' r'] by blast
    have "file_byte x ?n j = (if ?a \<le> j \<and> j < ?a + unat r then src ! (j - ?a) else file_byte s ?n j)" if "j < K * 512" for j
      using x(5) [rule_format, OF that] fb [OF that] c(2) less.prems(6) by auto
    moreover have "view x e = view s e" if "e < S" "e \<notin> touched s ?n ?a (unat r)" for e
      using x(4) fr that unfolding split by auto
    moreover have "open_txn S Z (touched s ?n ?a (unat r) \<union> D) x" using x(2) unfolding split by simp
    ultimately show ?thesis using x(1,3) u(1) by (intro exI [of _ x]) simp
  qed
qed

lemma open_txn_inodes [simp]: "open_txn S Z D (s\<lparr>inodes := N\<rparr>) = open_txn S Z D s"
  by (simp add: open_txn_def in_txn_def log_at_def)

section \<open>Whole operations\<close>

lemma add_wraps: "off + n < off \<longleftrightarrow> 2 ^ 32 \<le> unat off + unat n" for off n :: uint
  using unat_less_32 [of n] by (auto simp: word_less_nat_alt unat_plus_if')

text \<open>
  C11: reading a file whose blocks are all allocated returns exactly the bytes of the file from the offset on, as many as
  were asked for or as there are up to the size of the file, and their number; the file system is unchanged. A
  range that starts after the end or wraps around is refused.
\<close>

theorem readi_correct:
  fixes s :: "'z fsst_scheme"
  assumes "calm s" and "L \<le> disksize s" and "i_dev (inodes s ip) = 1" and "i_type (inodes s ip) \<noteq> T_DEV"
    and "unat (i_size (inodes s ip)) \<le> MAXFILE * BSIZE" and "\<forall>k. k * BSIZE < unat (i_size (inodes s ip)) \<longrightarrow> mapped L s (inodes s ip) k"
  shows "if unat (i_size (inodes s ip)) < unat off \<or> 2 ^ 32 \<le> unat off + unat n then readi dv ip off n s = Ret (-1, []) s
    else \<exists>s'. readi dv ip off n s = Ret (int (min (unat n) (unat (i_size (inodes s ip)) - unat off)),
        map (file_byte s (inodes s ip)) [unat off..<min (unat off + unat n) (unat (i_size (inodes s ip)))]) s' \<and> same_fs s s'"
proof -
  let ?q = "inodes s ip"
  let ?sz = "i_size ?q"
  let ?m = "if off + n > ?sz then ?sz - off else n"
  have wrap: "off + n < off \<longleftrightarrow> 2 ^ 32 \<le> unat off + unat n" by (rule add_wraps)
  show ?thesis
  proof (cases "unat ?sz < unat off \<or> 2 ^ 32 \<le> unat off + unat n")
    case True
    then show ?thesis using assms(4) wrap by (simp add: readi_def word_less_nat_alt)
  next
    case False
    have sum: "unat (off + n) = unat off + unat n" using False by (subst unat_add_lem [THEN iffD1]) simp_all
    have m: "unat ?m = min (unat n) (unat ?sz - unat off)"
      using False by (auto simp: word_less_nat_alt sum unat_sub word_le_nat_alt)
    have ub: "unat off + unat ?m = min (unat off + unat n) (unat ?sz)" using False unfolding m by auto
    have lt: "unat off + unat ?m < 2 ^ 31" using assms(5) unfolding ub by simp
    obtain s' where s': "read_loop ip off ?m s = Ret (map (file_byte s ?q) [unat off..<unat off + unat ?m]) s'" "same_fs s s'"
      using read_loop_run [OF assms(1-3) lt] assms(6) unfolding ub by (metis min_less_iff_conj)
    have "sint ?m = int (unat ?m)" using lt by (intro sint_small) simp
    then have "readi dv ip off n s = Ret (int (unat ?m), map (file_byte s ?q) [unat off..<unat off + unat ?m]) s'"
      using False assms(4) wrap s'(1) by (simp add: readi_def word_less_nat_alt Let_def)
    then show ?thesis using False s'(2) unfolding ub unfolding m by auto
  qed
qed

text \<open>The inode of the file is stored outside of its blocks.\<close>

definition apart :: "nat \<Rightarrow> 'z logst_scheme \<Rightarrow> inode \<Rightarrow> nat \<Rightarrow> bool" where
  "apart b s n K \<longleftrightarrow> (\<forall>k<K. unat (blk_of s n k) \<noteq> b) \<and> (NDIRECT < K \<longrightarrow> unat (i_addrs n ! NDIRECT) \<noteq> b)"

lemma file_byte_apart:
  assumes "own_blocks L s n K" and "apart b s n K" and "\<forall>e<L. e \<noteq> b \<longrightarrow> view t e = view s e"
    and "i_addrs n' = i_addrs n" and "j < K * 512"
  shows "file_byte t n' j = file_byte s n j"
proof -
  let ?k = "j div 512"
  have k: "?k < K" using assms(5) by (simp add: less_mult_imp_div_less)
  then have m: "mapped L s n ?k" using assms(1) by (simp add: own_blocks_def)
  have "blk_of t n' ?k = blk_of s n ?k"
    using m k assms(2,3) by (auto simp: blk_of_def mapped_def apart_def assms(4))
  then show ?thesis using m k assms(2,3) by (simp add: file_byte_def mapped_def apart_def)
qed


section \<open>Examples\<close>

text \<open>A file of 1000 bytes in the blocks 5 and 6, whose inode is entry 3 of the cache.\<close>

definition ex_cache :: "nat \<Rightarrow> inode" where
  "ex_cache = (\<lambda>_. ex_inode)(3 := ex_inode\<lparr>i_dev := 1, i_inum := 1, i_ref := 1, i_busy := True, i_valid := True, i_type := 2,
     i_nlink := 1, i_size := 1000, i_addrs := [5, 6] @ replicate 11 0\<rparr>)"

lemma ex_cache_sel:
  "i_dev (ex_cache 3) = 1" "i_inum (ex_cache 3) = 1" "i_type (ex_cache 3) = 2" "i_size (ex_cache 3) = 1000"
  "i_addrs (ex_cache 3) = [5, 6] @ replicate 11 0" "i_ref (ex_cache 3) = 1"
  by (simp_all add: ex_cache_def)

lemma ex_blk: "blk_of s (ex_cache 3) 0 = 5" "blk_of s (ex_cache 3) 1 = 6"
  by (simp_all add: blk_of_def ex_cache_sel)

lemma ex_own: "own_blocks 20 s (ex_cache 3) 2" "apart 2 s (ex_cache 3) 2"
proof -
  have two: "k < 2 \<longleftrightarrow> k = 0 \<or> k = 1" for k :: nat by auto
  have "mapped 20 s (ex_cache 3) 0" "mapped 20 s (ex_cache 3) 1" by (simp_all add: mapped_def ex_blk del: One_nat_def)
  moreover have "inj_on (blk_of s (ex_cache 3)) {..<2}" by (auto simp: inj_on_def two ex_blk simp del: One_nat_def)
  ultimately show "own_blocks 20 s (ex_cache 3) 2" by (auto simp: own_blocks_def two simp del: One_nat_def)
  show "apart 2 s (ex_cache 3) 2" by (auto simp: apart_def two ex_blk simp del: One_nat_def)
qed

text \<open>A cache in which every entry is referenced.\<close>

lemma ex_iblock: "IBLOCK 0 = 2" "IBLOCK (Suc 0) = 2"
  by (simp_all add: IBLOCK_def)

definition ex_full :: "nat \<Rightarrow> inode" where
  "ex_full i = ex_inode\<lparr>i_dev := 1, i_inum := word_of_nat (100 + i), i_ref := 1\<rparr>"

lemma ex_full_inum: "i < 50 \<Longrightarrow> unat (i_inum (ex_full i)) = 100 + i"
  unfolding ex_full_def by (simp add: unat_of_nat_32 del: of_nat_add)

lemma ex_full_ref: "i_ref (ex_full i) = 1"
  by (simp add: ex_full_def)

lemma ex_icache: "icache_ok (ex_fs busy ex_cache)" "icache_ok (ex_fs busy ex_full)"
proof -
  have "i_ref (ex_cache i) = (if i = 3 then 1 else 0)" for i by (simp add: ex_cache_def ex_inode_def)
  then show "icache_ok (ex_fs busy ex_cache)" by (simp add: icache_ok_def ex_fs_sel)
  have inj: "i = j" if "i < 50" "j < 50" "i_inum (ex_full i) = i_inum (ex_full j)" for i j
    using ex_full_inum [OF that(1)] ex_full_inum [OF that(2)] arg_cong [OF that(3), of unat] by linarith
  show "icache_ok (ex_fs busy ex_full)"
    unfolding icache_ok_def ex_fs_sel ex_full_ref by (intro conjI allI impI) (simp, rule inj)
qed

theorem iget_correct_witness:
  "(\<exists>s'. iget 1 1 (ex_fs False ex_cache) = Ret 3 s' \<and> i_ref (inodes s' 3) = 2)
   \<and> iget 1 7 (ex_fs False ex_full) = Panic ''iget: no inodes''"
proof
  have e: "is_inode 1 1 (ex_cache i) \<longleftrightarrow> i = 3" for i by (simp add: is_inode_def ex_cache_def ex_inode_def)
  show "\<exists>s'. iget 1 1 (ex_fs False ex_cache) = Ret 3 s' \<and> i_ref (inodes s' 3) = 2"
  proof -
    have "\<exists>i<NINODE. is_inode 1 1 (inodes (ex_fs False ex_cache) i)" by (simp add: ex_fs_sel e exI [of _ 3])
    then obtain ip s' where "iget 1 1 (ex_fs False ex_cache) = Ret ip s'" "is_inode 1 1 (inodes (ex_fs False ex_cache) ip)"
      "inodes s' ip = (inodes (ex_fs False ex_cache) ip)\<lparr>i_ref := i_ref (inodes (ex_fs False ex_cache) ip) + 1\<rparr>"
      using iget_correct [OF ex_icache(1) [of False], of 1 1] by (auto split: if_splits)
    then show ?thesis by (auto simp: ex_fs_sel e ex_cache_sel)
  qed
  have "\<not> is_inode 1 7 (ex_full i) \<and> i_ref (ex_full i) \<noteq> 0" if "i < 50" for i
    using ex_full_inum [OF that] by (auto simp: is_inode_def ex_full_ref)
  then show "iget 1 7 (ex_fs False ex_full) = Panic ''iget: no inodes''"
    using iget_correct [OF ex_icache(2) [of False], of 1 7] by (simp add: ex_fs_sel)
qed

theorem inode_persist_witness:
  "\<exists>s'. iupdate 3 (ex_fs True ex_cache) = Ret () s' \<and> dec_dinode (view s' 2) 0 = dec_dinode (ex_disk 2) 0"
proof -
  let ?s = "ex_fs True ex_cache"
  have p: "i_dev (inodes ?s 3) = 1" "length (i_addrs (inodes ?s 3)) = 13" "IBLOCK (unat (i_inum (inodes ?s 3))) < 20"
    "log_room 12 (insert (IBLOCK (unat (i_inum (inodes ?s 3)))) {})" "i_type (inodes ?s 3) \<noteq> 0"
    by (simp_all add: ex_fs_sel ex_cache_sel ex_iblock log_room_def)
  obtain s' where s': "iupdate 3 ?s = Ret () s'"
    "\<forall>inum. inum \<noteq> i_inum (inodes ?s 3) \<longrightarrow> IBLOCK (unat inum) < 20 \<longrightarrow>
        dec_dinode (view s' (IBLOCK (unat inum))) (ioff inum) = dec_dinode (view ?s (IBLOCK (unat inum))) (ioff inum)"
    using inode_persist [OF ex_fs_open p] by blast
  have "dec_dinode (view s' 2) 0 = dec_dinode (ex_disk 2) 0"
    using s'(2) [rule_format, of 0] by (simp add: ex_fs_sel ex_cache_sel ex_iblock ioff_def ex_fs_cache)
  with s'(1) show ?thesis by blast
qed

definition ex_devsw :: "fsst devsw" where
  "ex_devsw = \<lparr>dev_read = \<lambda>_. None, dev_write = \<lambda>_. None\<rparr>"

theorem readi_correct_witness:
  "(\<exists>s'. readi ex_devsw 3 998 100 (ex_fs False ex_cache) = Ret (2, [66, 66]) s')
   \<and> readi ex_devsw 3 1001 1 (ex_fs False ex_cache) = Ret (-1, []) (ex_fs False ex_cache)"
proof -
  let ?s = "ex_fs False ex_cache"
  have c: "calm ?s" by (simp add: calm_def ex_fs_cache)
  have m: "\<forall>k. k * BSIZE < unat (i_size (inodes ?s 3)) \<longrightarrow> mapped 20 ?s (inodes ?s 3) k"
    using ex_own(1) [of ?s] by (auto simp: own_blocks_def ex_fs_sel ex_cache_sel)
  have p: "(20 :: nat) \<le> disksize ?s" "i_dev (inodes ?s 3) = 1" "i_type (inodes ?s 3) \<noteq> T_DEV" "unat (i_size (inodes ?s 3)) \<le> MAXFILE * BSIZE"
    by (simp_all add: ex_fs_sel ex_cache_sel)
  note rd = readi_correct [OF c p m, where dv = ex_devsw]
  have u: "[998..<1000] = [998, 999 :: nat]" by (simp add: upt_rec)
  have b: "file_byte ?s (ex_cache 3) 998 = 66" "file_byte ?s (ex_cache 3) 999 = 66"
    by (simp_all add: file_byte_def ex_blk [unfolded One_nat_def] ex_fs_cache ex_disk_def)
  show ?thesis using rd [where off = 998 and n = 100] rd [where off = 1001 and n = 1] by (auto simp: ex_fs_sel ex_cache_sel u b)
qed


end
