(* ===== verification/Ring.thy ===== *)
theory Ring
  imports Prelude
begin

text \<open>
  Ring buffers with free-running 32-bit counters, as pipes and the console input use them: an array of
  \<open>N\<close> bytes, a counter of the bytes taken out and a counter of the bytes put in, both used modulo \<open>N\<close> as
  indices and never reset. The counters wrap at \<open>2 ^ 32\<close>; as \<open>N\<close> divides that, the ring does not notice.
  The interface of a bounded queue is a locale, with the batch operations proved once inside it.
\<close>

section \<open>Contents\<close>

definition ring :: "nat \<Rightarrow> byte list \<Rightarrow> uint \<Rightarrow> uint \<Rightarrow> byte list" where
  "ring N d r w = map (\<lambda>i. d ! (unat (r + word_of_nat i) mod N)) [0..<unat (w - r)]"

text \<open>\<open>N\<close> is a size that works: positive, and a divisor of the range of the counters.\<close>

definition ring_size :: "nat \<Rightarrow> bool" where
  "ring_size N \<longleftrightarrow> 0 < N \<and> N dvd 2 ^ 32 \<and> N < 2 ^ 32"

lemma length_ring [simp]: "length (ring N d r w) = unat (w - r)"
  by (simp add: ring_def)

lemma ring_size_cases [simp]: "ring_size 512" "ring_size 128"
  by (simp_all add: ring_size_def)

lemma ring_index: "ring_size N \<Longrightarrow> unat (r + word_of_nat i :: uint) mod N = (unat r + i) mod N"
proof -
  assume "ring_size N"
  then have d: "N dvd 2 ^ 32" by (simp add: ring_size_def)
  have "unat (r + word_of_nat i :: uint) = (unat r + i) mod 2 ^ 32"
    by (simp add: unat_word_ariths unat_of_nat mod_simps take_bit_eq_mod)
  then show ?thesis using d by (simp add: mod_mod_cancel)
qed

text \<open>The index of a byte that is put in differs from those of the bytes that are still in the ring.\<close>

lemma ring_index_neq:
  fixes r w :: uint
  assumes "ring_size N" and "i < unat (w - r)" and "unat (w - r) < N"
  shows "unat (r + word_of_nat i) mod N \<noteq> unat w mod N"
proof -
  let ?n = "unat (w - r)"
  have "(unat r + i) mod N \<noteq> (unat r + ?n) mod N"
  proof
    assume "(unat r + i) mod N = (unat r + ?n) mod N"
    then have "(unat r + ?n - (unat r + i)) mod N = 0" using assms(2) by (intro mod_eq_dvd_iff_nat [THEN iffD1, THEN dvd_imp_mod_0]) auto
    then show False using assms(2,3) by simp
  qed
  moreover have "unat w mod N = (unat r + ?n) mod N" using ring_index [OF assms(1), of r ?n] by simp
  ultimately show ?thesis by (simp add: ring_index [OF assms(1)])
qed

lemma unat_Suc_diff:
  fixes r w :: uint
  assumes "unat (w - r) < 2 ^ 32 - 1"
  shows "unat (w + 1 - r) = Suc (unat (w - r))"
proof -
  have e: "w + 1 - r = (w - r) + 1" by simp
  have "unat ((w - r) + 1) = Suc (unat (w - r))" using assms by (subst unat_word_ariths) simp
  then show ?thesis by (simp only: e)
qed

lemma unat_pred_Suc: "x \<noteq> 0 \<Longrightarrow> unat (x :: uint) = Suc (unat (x - 1))"
  by (simp add: unat_minus_one unat_eq_0 [symmetric])

lemma ring_put:
  assumes "ring_size N" and "length d = N" and "unat (w - r) < N"
  shows "ring N (d[unat w mod N := c]) r (w + 1) = ring N d r w @ [c]" "unat (w + 1 - r) = Suc (unat (w - r))"
proof -
  have N: "0 < N" "N < 2 ^ 32" using assms(1) by (simp_all add: ring_size_def)
  show l: "unat (w + 1 - r) = Suc (unat (w - r))" by (rule unat_Suc_diff) (use N assms(3) in simp)
  have "unat w mod N < length d" using N assms(2) by simp
  moreover have "map (\<lambda>i. d[unat w mod N := c] ! (unat (r + word_of_nat i) mod N)) [0..<unat (w - r)] = ring N d r w"
    unfolding ring_def by (rule map_cong) (auto dest: ring_index_neq [OF assms(1) _ assms(3)])
  ultimately show "ring N (d[unat w mod N := c]) r (w + 1) = ring N d r w @ [c]"
    by (subst ring_def, simp add: l)
qed

lemma ring_get:
  assumes "r \<noteq> w"
  shows "ring N d r w = d ! (unat r mod N) # ring N d (r + 1) w" "unat (w - r) = Suc (unat (w - (r + 1)))"
proof -
  have e: "w - (r + 1) = w - r - 1" by simp
  have "w - r \<noteq> 0" using assms by simp
  then show l: "unat (w - r) = Suc (unat (w - (r + 1)))" unfolding e by (rule unat_pred_Suc)
  have "[0..<Suc k] = 0 # map Suc [0..<k]" for k by (simp add: map_Suc_upt upt_conv_Cons)
  then show "ring N d r w = d ! (unat r mod N) # ring N d (r + 1) w"
    by (simp add: ring_def l comp_def ac_simps)
qed

text \<open>Taking back the byte put in last.\<close>

lemma ring_unput:
  assumes "r \<noteq> w"
  shows "ring N d r (w - 1) = butlast (ring N d r w)" "unat (w - r) = Suc (unat (w - 1 - r))"
proof -
  have e: "w - 1 - r = w - r - 1" by simp
  have "w - r \<noteq> 0" using assms by simp
  then show l: "unat (w - r) = Suc (unat (w - 1 - r))" unfolding e by (rule unat_pred_Suc)
  show "ring N d r (w - 1) = butlast (ring N d r w)" by (simp add: ring_def l)
qed

lemma ring_last:
  assumes "r \<noteq> w"
  shows "last (ring N d r w) = d ! (unat (w - 1) mod N)"
proof -
  have "w - 1 = r + word_of_nat (unat (w - 1 - r))" by simp
  then show ?thesis by (simp add: ring_def ring_unput(2) [OF assms])
qed

lemma ring_split:
  assumes "unat (m - r) \<le> unat (w - r)"
  shows "ring N d r w = ring N d r m @ ring N d m w" "unat (w - m) = unat (w - r) - unat (m - r)"
proof -
  have e: "w - m = (w - r) - (m - r)" by simp
  show l: "unat (w - m) = unat (w - r) - unat (m - r)" using assms unfolding e by (intro unat_sub) (simp add: word_le_nat_alt)
  have "map (\<lambda>i. d ! (unat (r + word_of_nat i) mod N)) [unat (m - r)..<unat (w - r)] = ring N d m w"
  proof -
    have "r + word_of_nat (i + unat (m - r)) = m + word_of_nat i" for i :: nat by simp
    moreover have "[unat (m - r)..<unat (w - r)] = map (\<lambda>i. i + unat (m - r)) [0..<unat (w - m)]"
      using l assms by (simp add: map_add_upt)
    ultimately show ?thesis by (simp add: ring_def comp_def add.commute)
  qed
  moreover have "[0..<unat (w - r)] = [0..<unat (m - r)] @ [unat (m - r)..<unat (w - r)]"
    using assms upt_add_eq_append [of 0 "unat (m - r)" "unat (w - r) - unat (m - r)"] by simp
  ultimately show "ring N d r w = ring N d r m @ ring N d m w" by (simp add: ring_def)
qed

section \<open>Bounded queues\<close>

locale bounded_queue =
  fixes ok :: "'q \<Rightarrow> bool" and cont :: "'q \<Rightarrow> 'a list" and cap :: nat
    and full :: "'q \<Rightarrow> bool" and empty :: "'q \<Rightarrow> bool"
    and put :: "'a \<Rightarrow> 'q \<Rightarrow> 'q" and get :: "'q \<Rightarrow> 'a \<times> 'q"
    and fill :: "'a list \<Rightarrow> 'q \<Rightarrow> 'a list \<times> 'q" and drain :: "nat \<Rightarrow> 'q \<Rightarrow> 'a list \<times> 'q"
  assumes bounded: "ok q \<Longrightarrow> length (cont q) \<le> cap"
    and full_iff: "ok q \<Longrightarrow> full q \<longleftrightarrow> length (cont q) = cap"
    and empty_iff: "ok q \<Longrightarrow> empty q \<longleftrightarrow> cont q = []"
    and put_ok: "ok q \<Longrightarrow> \<not> full q \<Longrightarrow> ok (put c q)"
    and put_cont: "ok q \<Longrightarrow> \<not> full q \<Longrightarrow> cont (put c q) = cont q @ [c]"
    and get_ok: "ok q \<Longrightarrow> \<not> empty q \<Longrightarrow> ok (snd (get q))"
    and get_cont: "ok q \<Longrightarrow> \<not> empty q \<Longrightarrow> cont q = fst (get q) # cont (snd (get q))"
    and fill_Nil: "fill [] q = ([], q)"
    and fill_Cons: "fill (c # cs) q = (if full q then (c # cs, q) else fill cs (put c q))"
    and drain_0: "drain 0 q = ([], q)"
    and drain_Suc: "drain (Suc n) q = (if empty q then ([], q)
      else (fst (get q) # fst (drain n (snd (get q))), snd (drain n (snd (get q)))))"
begin

lemma fill_spec:
  "ok q \<Longrightarrow> ok (snd (fill cs q)) \<and> cont (snd (fill cs q)) = cont q @ take (cap - length (cont q)) cs
     \<and> fst (fill cs q) = drop (cap - length (cont q)) cs"
proof (induction cs arbitrary: q)
  case Nil
  then show ?case by (simp add: fill_Nil)
next
  case (Cons c cs)
  show ?case
  proof (cases "full q")
    case True
    then show ?thesis using Cons.prems by (simp add: fill_Cons full_iff)
  next
    case False
    then have "length (cont q) < cap" using bounded [OF Cons.prems] full_iff [OF Cons.prems] by simp
    then have "cap - length (cont q) = Suc (cap - Suc (length (cont q)))" by simp
    then show ?thesis
      using Cons.IH [OF put_ok [OF Cons.prems False, of c]] False
      by (simp add: fill_Cons put_cont [OF Cons.prems])
  qed
qed

lemma drain_spec:
  "ok q \<Longrightarrow> ok (snd (drain n q)) \<and> cont (snd (drain n q)) = drop n (cont q) \<and> fst (drain n q) = take n (cont q)"
proof (induction n arbitrary: q)
  case 0
  then show ?case by (simp add: drain_0)
next
  case (Suc n)
  show ?case
  proof (cases "empty q")
    case True
    then show ?thesis using Suc.prems by (simp add: drain_Suc empty_iff)
  next
    case False
    then show ?thesis
      using Suc.IH [OF get_ok [OF Suc.prems False]] get_cont [OF Suc.prems False] by (simp add: drain_Suc)
  qed
qed

end

end
