(* ===== verification/Pipe_Proofs.thy ===== *)
theory Pipe_Proofs
  imports File Ring Block_Proofs
begin

text \<open>
  Pipes are bounded first-in first-out queues: the ring buffer of a pipe is an instance of the queue
  interface, what readers get is what writers put, in order, under every interleaving of reads and writes,
  and a writer blocked on a full pipe goes on after a read.
\<close>

section \<open>The ring of a pipe\<close>

definition pipe_cont :: "pipe \<Rightarrow> byte list" where
  "pipe_cont q = ring PIPESIZE (p_data q) (p_nread q) (p_nwrite q)"

definition pipe_ok :: "pipe \<Rightarrow> bool" where
  "pipe_ok q \<longleftrightarrow> length (p_data q) = PIPESIZE \<and> unat (p_nwrite q - p_nread q) \<le> PIPESIZE"

lemma pipe_full_iff: "pipe_full q \<longleftrightarrow> unat (p_nwrite q - p_nread q) = PIPESIZE"
proof
  assume "unat (p_nwrite q - p_nread q) = PIPESIZE"
  then have "p_nwrite q - p_nread q = word_of_nat PIPESIZE" by (simp add: word_unat_eq_iff)
  then show "pipe_full q" by (simp add: pipe_full_def algebra_simps)
qed (simp add: pipe_full_def)

interpretation pq: bounded_queue pipe_ok pipe_cont 512 pipe_full pipe_empty pipe_put pipe_get pipe_fill pipe_drain
proof unfold_locales
  fix q :: pipe and c :: byte
  assume ok: "pipe_ok q"
  show "length (pipe_cont q) \<le> 512" using ok by (simp add: pipe_ok_def pipe_cont_def)
  show "pipe_full q \<longleftrightarrow> length (pipe_cont q) = 512" by (simp add: pipe_full_iff pipe_cont_def)
  show "pipe_empty q \<longleftrightarrow> pipe_cont q = []"
    by (simp add: pipe_empty_def length_0_conv [symmetric] pipe_cont_def unat_eq_0 del: length_0_conv) auto
  {
    assume "\<not> pipe_full q"
    then have "length (p_data q) = 512" "unat (p_nwrite q - p_nread q) < 512"
      using ok by (auto simp: pipe_ok_def pipe_full_iff)
    note r = ring_put [OF ring_size_cases(1) this]
    show "pipe_ok (pipe_put c q)" "pipe_cont (pipe_put c q) = pipe_cont q @ [c]"
      using r ok \<open>unat (p_nwrite q - p_nread q) < 512\<close> by (simp_all add: pipe_ok_def pipe_put_def pipe_cont_def)
  }
  {
    assume "\<not> pipe_empty q"
    then have "p_nread q \<noteq> p_nwrite q" by (simp add: pipe_empty_def)
    note r = ring_get [OF this]
    show "pipe_ok (snd (pipe_get q))" "pipe_cont q = fst (pipe_get q) # pipe_cont (snd (pipe_get q))"
      using r ok by (simp_all add: pipe_ok_def pipe_get_def pipe_cont_def)
  }
qed (simp_all add: Let_def split_beta)

section \<open>Reads and writes\<close>

lemma pipes_procs_upd [simp]: "pipes (s\<lparr>procs := P\<rparr>) = pipes s"
  by (cases s) (simp add: ptable.defs vmem.defs kmem.defs)

lemma wakeup_run: "wakeup ch s = Ret () (s\<lparr>procs := wake_all ch (procs s)\<rparr>)"
  by (simp add: wakeup_def wakeup1_run)

lemma upd_pipe_run: "upd_pipe p (\<lambda>_. q) s = Ret () (s\<lparr>pipes := (pipes s)(p := q)\<rparr>)"
  by (simp add: upd_pipe_def)

text \<open>The bytes of \<open>cs\<close> that \<^verbatim>\<open>pipewrite\<close> puts in before it returns or sleeps.\<close>

definition accepted :: "byte list \<Rightarrow> pipe \<Rightarrow> byte list" where
  "accepted cs q = take (length cs - length (fst (pipe_fill cs q))) cs"

lemma accepted_eq: "pipe_ok q \<Longrightarrow> accepted cs q = take (512 - length (pipe_cont q)) cs"
  using pq.fill_spec [of q cs] by (cases "length cs \<le> 512 - length (pipe_cont q)") (simp_all add: accepted_def)

lemma pipewrite_run:
  assumes "curr_proc s = Some cp"
  shows "pipewrite p cs n s =
    (let (rest, q) = pipe_fill cs (pipes s p); t = s\<lparr>pipes := (pipes s)(p := q)\<rparr> in
     if rest = [] then Ret n (t\<lparr>procs := wake_all (ChPipeRead (unat p)) (procs s)\<rparr>)
     else if \<not> p_readopen q then Ret (-1) t
     else Sleeps (ChPipeWrite (unat p)) (t\<lparr>procs := (wake_all (ChPipeRead (unat p)) (procs s))
       (cp := (wake_all (ChPipeRead (unat p)) (procs s) cp)\<lparr>pchan := Some (ChPipeWrite (unat p)), pstate := SLEEPING\<rparr>)\<rparr>))"
proof -
  have c: "curr_proc (s\<lparr>pipes := P\<rparr>) = Some cp" for P using assms by (simp add: curr_proc_def)
  obtain rest q where e: "pipe_fill cs (pipes s p) = (rest, q)" by fastforce
  show ?thesis
    by (simp add: pipewrite_def e upd_pipe_run wakeup_run Let_def sleep_run c)
qed

lemma piperead_run:
  "piperead p n s =
    (if pipe_empty (pipes s p) \<and> p_writeopen (pipes s p) then
       case curr_proc s of None \<Rightarrow> Fault ''curr_proc'' | Some cp \<Rightarrow>
         if killed (procs s cp) then Ret (-1, []) s else sleep (ChPipeRead (unat p)) s
     else let (cs, q) = pipe_drain (nat n) (pipes s p) in
       Ret (int (length cs), cs) (s\<lparr>pipes := (pipes s)(p := q), procs := wake_all (ChPipeWrite (unat p)) (procs s)\<rparr>))"
proof -
  obtain cs q where e: "pipe_drain (nat n) (pipes s p) = (cs, q)" by fastforce
  show ?thesis
  proof (cases "pipe_empty (pipes s p) \<and> p_writeopen (pipes s p)")
    case True
    then show ?thesis by (cases "curr_proc s") (simp_all add: piperead_def with_curr_def)
  next
    case False
    then show ?thesis by (simp only: piperead_def kbind_Ret [OF kget_apply] if_False Let_def e case_prod_conv
      kbind_Ret [OF upd_pipe_run] kbind_Ret [OF wakeup_run] kreturn_apply) (simp add: upd_pipe_def)
  qed
qed

lemma pipewrite_pipe:
  assumes "pipewrite p cs n s = Ret r u \<or> pipewrite p cs n s = Sleeps ch u"
  shows "pipes u p = snd (pipe_fill cs (pipes s p))"
proof (cases "curr_proc s")
  case None
  then show ?thesis using assms
    by (auto simp: pipewrite_def upd_pipe_run wakeup_run sleep_def curr_proc_def split: prod.splits if_splits)
next
  case (Some cp)
  then show ?thesis using assms by (auto simp: pipewrite_run Let_def split: prod.splits if_splits)
qed

lemma piperead_pipe:
  assumes "piperead p n s = Ret (r, bs) u" and ok: "pipe_ok (pipes s p)"
  shows "pipe_ok (pipes u p) \<and> pipe_cont (pipes s p) = bs @ pipe_cont (pipes u p)"
proof (cases "pipe_empty (pipes s p) \<and> p_writeopen (pipes s p)")
  case True
  then have "bs = [] \<and> u = s" using assms(1)
    by (auto simp: piperead_run sleep_def split: option.splits if_splits elim!: kbind_eq_RetE)
  then show ?thesis using ok by simp
next
  case False
  then have "pipes u p = snd (pipe_drain (nat n) (pipes s p)) \<and> bs = fst (pipe_drain (nat n) (pipes s p))"
    using assms(1) by (auto simp: piperead_run split: prod.splits)
  then show ?thesis using pq.drain_spec [OF ok, of "nat n"] by simp
qed

section \<open>Every interleaving\<close>

text \<open>
  A history of one pipe: what was put in and what was taken out while calls of \<^verbatim>\<open>pipewrite\<close> and
  \<^verbatim>\<open>piperead\<close> by any processes and steps of the rest of the kernel, which may close an end but does not
  touch the buffer, follow each other. A writer that sleeps takes up its call again with a later step, so
  writes of several processes may interleave byte for byte.
\<close>

inductive pipe_run :: "uint \<Rightarrow> 'z filest_scheme \<Rightarrow> byte list \<Rightarrow> byte list \<Rightarrow> 'z filest_scheme \<Rightarrow> bool" for p s where
  pipe_start: "pipe_run p s [] [] s"
| pipe_write: "pipe_run p s W R t \<Longrightarrow> pipewrite p cs n t = Ret r u \<or> pipewrite p cs n t = Sleeps ch u \<Longrightarrow>
    pipe_run p s (W @ accepted cs (pipes t p)) R u"
| pipe_read: "pipe_run p s W R t \<Longrightarrow> piperead p n t = Ret (r, bs) u \<Longrightarrow> pipe_run p s W (R @ bs) u"
| pipe_other: "pipe_run p s W R t \<Longrightarrow> p_data (pipes u p) = p_data (pipes t p) \<Longrightarrow> p_nread (pipes u p) = p_nread (pipes t p) \<Longrightarrow>
    p_nwrite (pipes u p) = p_nwrite (pipes t p) \<Longrightarrow> pipe_run p s W R u"

lemma pipe_run_cont:
  "pipe_run p s W R t \<Longrightarrow> pipe_ok (pipes s p) \<Longrightarrow> pipe_cont (pipes s p) = [] \<Longrightarrow>
     pipe_ok (pipes t p) \<and> W = R @ pipe_cont (pipes t p)"
proof (induction rule: pipe_run.induct)
  case (pipe_write W R t cs n r u ch)
  then have ok: "pipe_ok (pipes t p)" by simp
  have "pipes u p = snd (pipe_fill cs (pipes t p))" by (rule pipewrite_pipe [OF pipe_write.hyps(2)])
  then show ?case using pipe_write pq.fill_spec [OF ok, of cs] accepted_eq [OF ok, of cs] by simp
next
  case (pipe_read W R t n r bs u)
  then show ?case using piperead_pipe [OF pipe_read.hyps(2)] by auto
qed (auto simp: pipe_ok_def pipe_cont_def)

section \<open>Properties\<close>

text \<open>
  C9: a pipe is a first-in first-out queue of at most 512 bytes under every interleaving of reads and writes,
  across the wrap-around of its counters: whatever was put in since the pipe was made is what was taken
  out followed by what is still in the buffer.
\<close>

theorem pipe_fifo:
  assumes "pipe_run p s W R t" and "length (p_data (pipes s p)) = 512" and "p_nread (pipes s p) = 0" and "p_nwrite (pipes s p) = 0"
  shows "W = R @ pipe_cont (pipes t p) \<and> length (pipe_cont (pipes t p)) \<le> 512"
proof -
  have "pipe_ok (pipes s p)" "pipe_cont (pipes s p) = []"
    using assms(2-4) by (simp_all add: pipe_ok_def pipe_cont_def ring_def)
  from pipe_run_cont [OF assms(1) this] show ?thesis using pq.bounded by blast
qed

text \<open>
  C39: no lost wakeup on a full pipe: while a writer sleeps because the pipe is full, a read of \<open>n > 0\<close> bytes
  returns the first \<open>n\<close> bytes (all of them when \<open>n\<close> is larger) and makes the writer runnable, and
  the writer's call then takes as many bytes as were read: it returns if that is all of them.
\<close>

theorem pipe_progress:
  assumes "pipe_ok (pipes s p)" and "pipe_full (pipes s p)" and "0 < n"
    and "w < 64" and "pstate (procs s w) = SLEEPING" and "pchan (procs s w) = Some (ChPipeWrite (unat p))"
  shows "\<exists>bs u. piperead p n s = Ret (int (length bs), bs) u \<and> bs = take (nat n) (pipe_cont (pipes s p)) \<and> bs \<noteq> []
    \<and> pstate (procs u w) = RUNNABLE
    \<and> (\<forall>u' cs m. pipes u' p = pipes u p \<and> curr_proc u' = Some w \<and> length cs \<le> length bs \<longrightarrow>
        (\<exists>v. pipewrite p cs m u' = Ret m v \<and> pipe_cont (pipes v p) = drop (nat n) (pipe_cont (pipes s p)) @ cs))"
proof -
  let ?q = "pipes s p"
  have len: "length (pipe_cont ?q) = 512" using assms(1,2) pq.full_iff by blast
  then have ne: "\<not> pipe_empty ?q" using pq.empty_iff [OF assms(1)] by auto
  let ?d = "pipe_drain (nat n) ?q"
  let ?u = "s\<lparr>pipes := (pipes s)(p := snd ?d), procs := wake_all (ChPipeWrite (unat p)) (procs s)\<rparr>"
  have d: "pipe_ok (snd ?d)" "pipe_cont (snd ?d) = drop (nat n) (pipe_cont ?q)" "fst ?d = take (nat n) (pipe_cont ?q)"
    using pq.drain_spec [OF assms(1), of "nat n"] by auto
  have r: "piperead p n s = Ret (int (length (fst ?d)), fst ?d) ?u" using ne by (simp add: piperead_run split_beta)
  have w: "pstate (procs ?u w) = RUNNABLE" using assms(4-6) by (simp add: wake_all_def woken_def)
  have "\<exists>v. pipewrite p cs m u' = Ret m v \<and> pipe_cont (pipes v p) = drop (nat n) (pipe_cont ?q) @ cs"
    if h: "pipes u' p = pipes ?u p" "curr_proc u' = Some w" "length cs \<le> length (fst ?d)" for u' cs m
  proof -
    have q: "pipes u' p = snd ?d" using h(1) by simp
    have room: "length cs \<le> 512 - length (pipe_cont (snd ?d))" using h(3) len d(2,3) by auto
    have f: "fst (pipe_fill cs (snd ?d)) = []" "pipe_cont (snd (pipe_fill cs (snd ?d))) = drop (nat n) (pipe_cont ?q) @ cs"
      using pq.fill_spec [OF d(1), of cs] room d(2) by simp_all
    show ?thesis using f by (simp add: pipewrite_run [OF h(2)] q Let_def split_beta)
  qed
  moreover have "fst ?d \<noteq> []" using assms(3) len d(3) by (auto simp: take_eq_Nil)
  ultimately show ?thesis using r w d(3) by blast
qed

section \<open>A pipe to evaluate the properties on\<close>

text \<open>Process 0 runs, process 1 sleeps for room in the pipe at address 64.\<close>

definition ex_file :: kfile where
  "ex_file = \<lparr>f_type = FD_NONE, f_ref = 0, f_readable = False, f_writable = False, f_pipe = 0, f_ip = 0, f_off = 0\<rparr>"

definition ex_files :: "pipe \<Rightarrow> filest" where
  "ex_files q = (fsst.extend (logst.extend (ex_log (replicate 512 0)) (fsst.fields (\<lambda>_. ex_inode)))
     (filest.fields (\<lambda>_. ex_file) (\<lambda>_. q)))
     \<lparr>procs := (\<lambda>_. ex_proc UNUSED 0 None)(0 := ex_proc RUNNING 1 None,
        1 := (ex_proc SLEEPING 2 (Some 0))\<lparr>pchan := Some (ChPipeWrite 64)\<rparr>), cpu_proc := (\<lambda>_. Some 0)\<rparr>"

lemma ex_files_sel:
  "pipes (ex_files q) = (\<lambda>_. q)" "curr_proc (ex_files q) = Some 0"
  "procs (ex_files q) 1 = (ex_proc SLEEPING 2 (Some 0))\<lparr>pchan := Some (ChPipeWrite 64)\<rparr>"
  by (simp_all add: ex_files_def fsst.defs filest.defs logst.defs curr_proc_def)

definition ex_pipe :: "uint \<Rightarrow> pipe" where
  "ex_pipe n = \<lparr>p_data = replicate 512 7, p_nread = 0, p_nwrite = n, p_readopen = True, p_writeopen = True\<rparr>"

theorem pipe_fifo_witness:
  "\<exists>u v. pipewrite 64 [1, 2] 2 (ex_files (ex_pipe 0)) = Ret 2 u \<and> piperead 64 1 u = Ret (1, [1]) v
     \<and> [1, 2] = [1] @ pipe_cont (pipes v 64)"
proof -
  let ?s = "ex_files (ex_pipe 0)"
  have f: "fst (pipe_fill [1, 2] (ex_pipe 0)) = []" by (simp add: ex_pipe_def pipe_full_def pipe_put_def)
  obtain u where u: "pipewrite 64 [1, 2] 2 ?s = Ret 2 u"
    by (simp only: pipewrite_run [OF ex_files_sel(2)] ex_files_sel split_beta Let_def f if_True refl)
  have q: "pipes u 64 = snd (pipe_fill [1, 2] (ex_pipe 0))" using pipewrite_pipe [of 64 "[1, 2]" 2 ?s] u by (simp add: ex_files_sel)
  obtain v where v: "piperead 64 1 u = Ret (1, [1]) v"
    by (simp add: piperead_run q ex_pipe_def pipe_full_def pipe_put_def pipe_empty_def pipe_get_def Let_def)
  have a: "accepted [1, 2] (pipes ?s 64) = [1, 2]" by (simp add: accepted_def ex_files_sel ex_pipe_def pipe_full_def pipe_put_def)
  have "pipe_run 64 ?s [1, 2] [] u" using pipe_write [OF pipe_start, of 64 "[1, 2]" 2 ?s 2 u] u a by simp
  then have "pipe_run 64 ?s [1, 2] [1] v" using pipe_read [OF _ v] by fastforce
  from pipe_fifo [OF this] have "[1, 2] = [1] @ pipe_cont (pipes v 64)" by (simp add: ex_files_sel ex_pipe_def)
  with u v show ?thesis by blast
qed

theorem pipe_progress_witness:
  "\<exists>u. piperead 64 3 (ex_files (ex_pipe 512)) = Ret (3, [7, 7, 7]) u \<and> pstate (procs u 1) = RUNNABLE"
proof -
  let ?s = "ex_files (ex_pipe 512)"
  have q: "pipe_ok (pipes ?s 64)" "pipe_full (pipes ?s 64)" by (simp_all add: ex_files_sel ex_pipe_def pipe_ok_def pipe_full_def)
  have c: "take (nat 3) (pipe_cont (pipes ?s 64)) = [7, 7, 7]"
    by (simp add: ex_files_sel ex_pipe_def pipe_cont_def ring_def take_map take_upt numeral_3_eq_3)
  have w: "pstate (procs ?s 1) = SLEEPING" "pchan (procs ?s 1) = Some (ChPipeWrite (unat (64 :: uint)))"
    unfolding ex_files_sel by (simp_all add: ex_proc_def)
  show ?thesis using pipe_progress [OF q _ _ w, of 3] unfolding c by auto
qed

end
