(* ===== verification/Console_Proofs.thy ===== *)
theory Console_Proofs
  imports Console Pipe_Proofs
begin

text \<open>
  The console: numbers are printed as numerals and never overrun the buffer of \<^verbatim>\<open>printint\<close>, the cursor and
  the pixels stay inside the frame, the editing of an input line is the editing of a list, and what is
  typed is what is read.
\<close>

section \<open>Printing\<close>

text \<open>An operation that only sends bytes to the serial port.\<close>

definition prints :: "('z consst_scheme, unit) kop \<Rightarrow> bool" where
  "prints m \<longleftrightarrow> (\<forall>s. \<not> panicked s \<longrightarrow> (\<exists>out. m s = Ret () (s\<lparr>uart_out := uart_out s @ out\<rparr>)))"

named_theorems prints_rules

lemma printsE:
  assumes "prints m" and "\<not> panicked s"
  obtains out where "m s = Ret () (s\<lparr>uart_out := uart_out s @ out\<rparr>)"
  using assms unfolding prints_def by blast

lemma prints_kreturn [prints_rules]: "prints (kreturn ())"
  unfolding prints_def by (auto intro!: exI [of _ "[]"])

lemma prints_kbind [prints_rules]: "prints m \<Longrightarrow> prints n \<Longrightarrow> prints (kbind m (\<lambda>_. n))"
  unfolding prints_def
proof (intro allI impI)
  fix s :: "'a consst_scheme"
  assume m: "\<forall>s. \<not> panicked s \<longrightarrow> (\<exists>out. m s = Ret () (s\<lparr>uart_out := uart_out s @ out\<rparr>))"
    and n: "\<forall>s. \<not> panicked s \<longrightarrow> (\<exists>out. n s = Ret () (s\<lparr>uart_out := uart_out s @ out\<rparr>))" and p: "\<not> panicked s"
  obtain out where o: "m s = Ret () (s\<lparr>uart_out := uart_out s @ out\<rparr>)" using m p by blast
  obtain out' where "n (s\<lparr>uart_out := uart_out s @ out\<rparr>) = Ret () (s\<lparr>uart_out := (uart_out s @ out) @ out'\<rparr>)"
    using n [rule_format, of "s\<lparr>uart_out := uart_out s @ out\<rparr>"] p by auto
  then show "\<exists>out. kbind m (\<lambda>_. n) s = Ret () (s\<lparr>uart_out := uart_out s @ out\<rparr>)" using o by auto
qed

lemma prints_kget [prints_rules]: "(\<And>x. prints (n x)) \<Longrightarrow> prints (kbind (kget f) n)"
  unfolding prints_def by simp

lemma prints_kfor [prints_rules]: "(\<And>x. prints (f x)) \<Longrightarrow> prints (kfor f xs)"
  by (induction xs) (auto intro: prints_rules)

lemma uartputc_run: "uartputc c s = Ret () (s\<lparr>uart_out := uart_out s @ (if c = 10 then [13, 10] else [ucast c])\<rparr>)"
  by (simp add: uartputc_def)

lemma prints_uartputc [prints_rules]: "prints (uartputc c)"
  unfolding prints_def by (auto simp: uartputc_run)

lemma prints_consputc [prints_rules]: "prints (consputc c)"
proof -
  have "prints (if c = BACKSPACE then kbind (uartputc 8) (\<lambda>_. kbind (uartputc 32) (\<lambda>_. uartputc 8))
     else if c = 4 then kbind (uartputc 94) (\<lambda>_. uartputc 68) else uartputc (word_of_int c))"
    by (auto intro!: prints_rules)
  then show ?thesis by (simp add: prints_def consputc_def)
qed

lemma ucast_ucast_id_8: "ucast (ucast (c :: byte) :: uint) = c"
  by (rule bit_word_eqI) (simp add: bit_simps)

text \<open>A byte that is not a control character of the console is sent as it is.\<close>

lemma consputc_plain:
  "\<not> panicked s \<Longrightarrow> c \<noteq> 4 \<Longrightarrow> c \<noteq> 10 \<Longrightarrow> consputc (uint (c :: byte)) s = Ret () (s\<lparr>uart_out := uart_out s @ [c]\<rparr>)"
proof -
  assume p: "\<not> panicked s" and c: "c \<noteq> 4" "c \<noteq> 10"
  have lt: "uint c < 256" using unsigned_less [of c] by simp
  have "uint c \<noteq> 4" "(word_of_int (uint c) :: uint) \<noteq> 10"
  proof -
    show "uint c \<noteq> 4" using c(1) by (metis word_of_int_uint word_of_int_numeral)
    have "(word_of_int (uint c) :: uint) = ucast c" by simp
    moreover have "ucast c \<noteq> (10 :: uint)"
    proof
      assume "ucast c = (10 :: uint)"
      then have "ucast (ucast c :: uint) = (10 :: byte)" by simp
      then show False using c(2) by (simp only: ucast_ucast_id_8)
    qed
    ultimately show "(word_of_int (uint c) :: uint) \<noteq> 10" by simp
  qed
  then show ?thesis using p lt by (simp add: consputc_def uartputc_run ucast_ucast_id_8)
qed

lemma kfor_plain:
  "\<not> panicked s \<Longrightarrow> 4 \<notin> set cs \<Longrightarrow> 10 \<notin> set cs \<Longrightarrow>
     kfor (\<lambda>c. consputc (uint c)) cs s = Ret () (s\<lparr>uart_out := uart_out s @ cs\<rparr>)"
proof (induction cs arbitrary: s)
  case (Cons c cs)
  then show ?case by (simp add: consputc_plain)
qed simp

section \<open>Numbers\<close>

text \<open>The numeral of a number: its digits, the most significant first.\<close>

function numeral_of :: "nat \<Rightarrow> nat \<Rightarrow> byte list" where
  "numeral_of b n = (if b < 2 \<or> n < b then [digits ! n] else numeral_of b (n div b) @ [digits ! (n mod b)])"
  by pat_completeness auto
termination
  by (relation "measure snd") auto

declare numeral_of.simps [simp del]

lemma digit_loop_numeral:
  "2 \<le> unat b \<Longrightarrow> unat x < unat b ^ n \<Longrightarrow> 0 < n \<Longrightarrow> digit_loop n x b = Some (rev (numeral_of (unat b) (unat x)))"
proof (induction n arbitrary: x)
  case (Suc n)
  then have b: "b \<noteq> 0" by auto
  have y: "cdiv x b = x div b" using b by (simp add: cdiv_word_div)
  have d: "unat (x - x div b * b) = unat x mod unat b"
    by (simp only: minus_div_mult_eq_mod unat_mod)
  show ?case
  proof (cases "x div b = 0")
    case True
    then have "unat x div unat b = 0" by (metis unat_0 unat_div)
    then have "unat x < unat b" using Suc.prems(1) by (simp add: div_eq_0_iff)
    then show ?thesis using True Suc.prems(1) d by (simp add: Let_def y numeral_of.simps)
  next
    case False
    then have ge: "unat b \<le> unat x" by (metis div_less leI unat_0 unat_div unat_eq_zero)
    have "unat (x div b) < unat b ^ n" using Suc.prems(1,2) by (simp add: unat_div less_mult_imp_div_less mult.commute)
    moreover have "0 < n" using Suc.prems(2) ge by (cases n) auto
    ultimately have "digit_loop n (x div b) b = Some (rev (numeral_of (unat b) (unat x div unat b)))"
      using Suc.IH [of "x div b"] Suc.prems(1) by (simp add: unat_div)
    then show ?thesis using False Suc.prems(1) ge d by (simp add: Let_def y numeral_of.simps [of _ "unat x"])
  qed
qed simp

lemma digits_range: "i < 16 \<Longrightarrow> 47 < digits ! i"
proof -
  have "\<forall>i\<in>set [0..<16]. 47 < digits ! i" unfolding digits_def by code_simp
  then show "i < 16 \<Longrightarrow> 47 < digits ! i" by simp
qed

lemma numeral_of_plain: "2 \<le> b \<Longrightarrow> b \<le> 16 \<Longrightarrow> c \<in> set (numeral_of b n) \<Longrightarrow> 47 < c"
proof (induction b n rule: numeral_of.induct)
  case (1 b n)
  show ?case
  proof (cases "n < b")
    case True
    then show ?thesis using "1.prems" digits_range [of n] by (simp add: numeral_of.simps [of b n])
  next
    case False
    have "n mod b < 16" using "1.prems"(1,2) by (meson less_le_trans mod_less_divisor zero_less_numeral less_le_trans)
    then show ?thesis using "1.prems" "1.IH" False digits_range [of "n mod b"] by (auto simp: numeral_of.simps [of b n])
  qed
qed

lemma length_numeral_of: "2 \<le> b \<Longrightarrow> n < b ^ k \<Longrightarrow> 0 < k \<Longrightarrow> length (numeral_of b n) \<le> k"
proof (induction k arbitrary: n)
  case (Suc k)
  show ?case
  proof (cases "n < b")
    case False
    then have "0 < k" using Suc.prems(2) by (cases k) auto
    moreover have "n div b < b ^ k" using Suc.prems(1,2) by (simp add: less_mult_imp_div_less mult.commute)
    ultimately show ?thesis using Suc.IH [of "n div b"] Suc.prems(1) False by (simp add: numeral_of.simps [of b n])
  qed (simp add: numeral_of.simps)
qed simp

text \<open>The text of a number as \<^verbatim>\<open>printint\<close> is asked to print it.\<close>

definition number_text :: "uint \<Rightarrow> nat \<Rightarrow> bool \<Rightarrow> byte list" where
  "number_text x b sign =
     (if sign \<and> sint x < 0 then 45 # numeral_of b (nat (- sint x)) else numeral_of b (unat x))"

lemma printint_run:
  assumes "\<not> panicked s" and "10 \<le> unat b" and "unat b \<le> 16"
  shows "printint x b sign s = Ret () (s\<lparr>uart_out := uart_out s @ number_text x (unat b) sign\<rparr>)"
proof -
  let ?neg = "sign \<and> sint x < 0"
  let ?y = "if ?neg then - x else x"
  have lt: "unat ?y < unat b ^ 10"
    using unat_less_32 [of ?y] power_mono [OF assms(2), of 10] by simp
  also have "\<dots> \<le> unat b ^ 16" using assms(2) by (intro power_increasing) simp_all
  finally have l: "digit_loop 16 ?y b = Some (rev (numeral_of (unat b) (unat ?y)))"
    using assms(2) by (intro digit_loop_numeral) simp_all
  have "length (numeral_of (unat b) (unat ?y)) \<le> 10" using assms(2) lt by (intro length_numeral_of) simp_all
  note l = l this
  have buf: "printint_buf x b sign = Some (rev (number_text x (unat b) sign))"
    using l by (auto simp: printint_buf_def number_text_def Let_def unat_uminus_neg)
  have "4 \<notin> set (numeral_of (unat b) n)" "10 \<notin> set (numeral_of (unat b) n)" for n
    using numeral_of_plain [of "unat b" 4 n] numeral_of_plain [of "unat b" 10 n] assms(2,3) by auto
  then have "4 \<notin> set (number_text x (unat b) sign)" "10 \<notin> set (number_text x (unat b) sign)"
    by (simp_all add: number_text_def)
  then show ?thesis using kfor_plain [OF assms(1)] by (simp add: printint_def buf)
qed

lemma prints_printint [prints_rules]: "prints (printint x 10 sign)" "prints (printint x 16 sign)"
  unfolding prints_def using printint_run [of _ 10 x sign] printint_run [of _ 16 x sign] by auto

text \<open>Formats whose arguments have the types the format asks for.\<close>

fun fmt_ok :: "byte list \<Rightarrow> parg list \<Rightarrow> bool" where
  "fmt_ok [] as = True"
| "fmt_ok [c] as = True"
| "fmt_ok (c # d # cs) as =
     (if c \<noteq> 37 then fmt_ok (d # cs) as
      else if d = 100 \<or> d = 120 \<or> d = 112 then (case as of PInt x # as \<Rightarrow> fmt_ok cs as | _ \<Rightarrow> False)
      else if d = 115 then (case as of PStr x # as \<Rightarrow> fmt_ok cs as | _ \<Rightarrow> False)
      else fmt_ok cs as)"

lemma prints_cprintf_loop: "fmt_ok f as \<Longrightarrow> prints (cprintf_loop f as)"
  by (induction f as rule: cprintf_loop.induct) (auto intro!: prints_rules split: list.splits parg.splits)

lemma prints_cprintf [prints_rules]: "fmt_ok f as \<Longrightarrow> prints (cprintf (Some f) as)"
  by (simp add: cprintf_def prints_cprintf_loop)

lemma prints_procdump [prints_rules]: "prints (procdump fp)"
proof -
  have "prints (procdump_one p)" for p
    unfolding procdump_one_def by (rule prints_rules) (auto intro!: prints_rules simp: txt_bytes_def)
  moreover have "prints (show_callstk fp m)" for m
    unfolding show_callstk_def by (auto intro!: prints_rules simp: nl_def txt_bytes_def)
  ultimately show ?thesis unfolding procdump_def by (auto intro!: prints_rules)
qed

section \<open>Line editing\<close>

text \<open>
  The input buffer as two lists: the characters of complete lines, which a reader may take, and those of
  the line that is being typed.
\<close>

definition typed :: "input \<Rightarrow> byte list" where
  "typed i = ring INPUT_BUF (in_buf i) (in_r i) (in_e i)"

definition ready :: "input \<Rightarrow> nat" where
  "ready i = unat (in_w i - in_r i)"

definition cons_abs :: "input \<Rightarrow> byte list \<times> byte list" where
  "cons_abs i = (take (ready i) (typed i), drop (ready i) (typed i))"

definition cons_ok :: "input \<Rightarrow> bool" where
  "cons_ok i \<longleftrightarrow> length (in_buf i) = INPUT_BUF \<and> ready i \<le> length (typed i) \<and> length (typed i) \<le> INPUT_BUF
     \<and> 4 \<notin> set (drop (ready i) (typed i)) \<and> 10 \<notin> set (drop (ready i) (typed i))"

text \<open>What a character does to the two lists.\<close>

fun edit :: "byte list \<times> byte list \<Rightarrow> byte \<Rightarrow> byte list \<times> byte list" where
  "edit (com, line) c =
     (if c = 16 then (com, line)
      else if c = 21 then (com, [])
      else if c = 8 \<or> c = 127 then (com, butlast line)
      else if c = 0 \<or> c = 10 \<or> length com + length line \<ge> INPUT_BUF then (com, line)
      else let d = (if c = 13 then 10 else c); l = line @ [d] in
        if d = 10 \<or> d = 4 \<or> length com + length l = INPUT_BUF then (com @ l, []) else (com, l))"

lemma upd_input_run: "upd_input f s = Ret () (s\<lparr>cons_in := f (cons_in s)\<rparr>)"
  by (simp add: upd_input_def)

lemma cons_line_nonempty: "cons_ok i \<Longrightarrow> in_e i \<noteq> in_w i \<longleftrightarrow> ready i < length (typed i)"
proof -
  assume ok: "cons_ok i"
  have "unat (in_w i - in_r i) = unat (in_e i - in_r i) \<longleftrightarrow> in_w i = in_e i"
    using word_unat_eq_iff [of "in_w i - in_r i" "in_e i - in_r i"] by simp
  then have "ready i = length (typed i) \<longleftrightarrow> in_w i = in_e i" by (simp add: ready_def typed_def)
  moreover have "ready i \<le> length (typed i)" using ok by (simp add: cons_ok_def)
  ultimately show ?thesis by (metis le_neq_implies_less less_irrefl)
qed

text \<open>Taking back the last character of an unfinished line.\<close>

lemma cons_back:
  assumes "cons_ok i" and "in_e i \<noteq> in_w i"
  shows "typed (i\<lparr>in_e := in_e i - 1\<rparr>) = butlast (typed i)" "ready (i\<lparr>in_e := in_e i - 1\<rparr>) = ready i"
    "cons_ok (i\<lparr>in_e := in_e i - 1\<rparr>)" "last (typed i) = in_buf i ! (unat (in_e i - 1) mod INPUT_BUF)"
proof -
  have lt: "ready i < length (typed i)" using cons_line_nonempty [OF assms(1)] assms(2) by simp
  then have ne: "in_r i \<noteq> in_e i" by (auto simp: typed_def ready_def)
  show t: "typed (i\<lparr>in_e := in_e i - 1\<rparr>) = butlast (typed i)" using ring_unput(1) [OF ne] by (simp add: typed_def)
  show r: "ready (i\<lparr>in_e := in_e i - 1\<rparr>) = ready i" by (simp add: ready_def)
  show "last (typed i) = in_buf i ! (unat (in_e i - 1) mod INPUT_BUF)" using ring_last [OF ne] by (simp add: typed_def)
  have "set (drop (ready i) (butlast (typed i))) \<subseteq> set (drop (ready i) (typed i))"
    by (auto simp: drop_butlast dest: in_set_butlastD)
  then show "cons_ok (i\<lparr>in_e := in_e i - 1\<rparr>)" using assms(1) lt unfolding cons_ok_def t r by auto
qed

lemma kill_line_run:
  assumes "cons_ok (cons_in s)" and "\<not> panicked s" and "n = length (typed (cons_in s)) - ready (cons_in s)"
  shows "\<exists>out e. kill_line n s = Ret () (s\<lparr>cons_in := (cons_in s)\<lparr>in_e := e\<rparr>, uart_out := out\<rparr>)
    \<and> cons_ok ((cons_in s)\<lparr>in_e := e\<rparr>) \<and> typed ((cons_in s)\<lparr>in_e := e\<rparr>) = take (ready (cons_in s)) (typed (cons_in s))"
  using assms
proof (induction n arbitrary: s)
  case 0
  then show ?case by (intro exI [of _ "uart_out s"] exI [of _ "in_e (cons_in s)"]) simp
next
  case (Suc n)
  let ?i = "cons_in s" and ?i' = "(cons_in s)\<lparr>in_e := in_e (cons_in s) - 1\<rparr>"
  have lt: "ready ?i < length (typed ?i)" using Suc.prems(3) by simp
  then have ne: "in_e ?i \<noteq> in_w ?i" using cons_line_nonempty [OF Suc.prems(1)] by simp
  note b = cons_back [OF Suc.prems(1) ne]
  have "last (typed ?i) \<in> set (drop (ready ?i) (typed ?i))" using lt by (metis drop_eq_Nil last_drop last_in_set not_le)
  then have n10: "in_buf ?i ! (unat (in_e ?i - 1) mod INPUT_BUF) \<noteq> 10" using Suc.prems(1) b(4) by (auto simp: cons_ok_def)
  obtain out where o: "consputc BACKSPACE (s\<lparr>cons_in := ?i'\<rparr>) = Ret () (s\<lparr>cons_in := ?i', uart_out := uart_out s @ out\<rparr>)"
    using printsE [OF prints_consputc [of BACKSPACE], of "s\<lparr>cons_in := ?i'\<rparr>"] Suc.prems(2) by auto
  have "\<exists>out' e. kill_line n (s\<lparr>cons_in := ?i', uart_out := uart_out s @ out\<rparr>) = Ret () (s\<lparr>cons_in := ?i'\<lparr>in_e := e\<rparr>, uart_out := out'\<rparr>)
      \<and> cons_ok (?i'\<lparr>in_e := e\<rparr>) \<and> typed (?i'\<lparr>in_e := e\<rparr>) = take (ready ?i) (butlast (typed ?i))"
  proof -
    have "n = length (butlast (typed ?i)) - ready ?i" using Suc.prems(3) by simp
    then show ?thesis using Suc.IH [of "s\<lparr>cons_in := ?i', uart_out := uart_out s @ out\<rparr>"] b(1-3) Suc.prems(2) by simp
  qed
  then obtain out' e where r: "kill_line n (s\<lparr>cons_in := ?i', uart_out := uart_out s @ out\<rparr>) = Ret () (s\<lparr>cons_in := ?i'\<lparr>in_e := e\<rparr>, uart_out := out'\<rparr>)"
    "cons_ok (?i'\<lparr>in_e := e\<rparr>)" "typed (?i'\<lparr>in_e := e\<rparr>) = take (ready ?i) (butlast (typed ?i))" by blast
  have "take (ready ?i) (butlast (typed ?i)) = take (ready ?i) (typed ?i)" using lt by (simp add: take_butlast)
  moreover have "kill_line (Suc n) s = Ret () (s\<lparr>cons_in := ?i\<lparr>in_e := e\<rparr>, uart_out := out'\<rparr>)"
    using ne n10 r(1) by (simp add: upd_input_run o)
  ultimately show ?case using r(2,3) by auto
qed

text \<open>Typing a character into a buffer that has room, and finishing the line.\<close>

abbreviation (input) type_in :: "byte \<Rightarrow> input \<Rightarrow> input" where
  "type_in d i \<equiv> i\<lparr>in_buf := (in_buf i)[unat (in_e i) mod INPUT_BUF := d], in_e := in_e i + 1\<rparr>"

lemma cons_type:
  assumes "cons_ok i" and "length (typed i) < INPUT_BUF"
  shows "typed (type_in d i) = typed i @ [d]" "ready (type_in d i) = ready i" "length (in_buf (type_in d i)) = INPUT_BUF"
  using ring_put(1) [OF ring_size_cases(2), of "in_buf i" "in_e i" "in_r i" d] assms
  by (simp_all add: typed_def ready_def cons_ok_def)

lemma cons_commit:
  "length (typed i) \<le> INPUT_BUF \<Longrightarrow> length (in_buf i) = INPUT_BUF \<Longrightarrow>
     cons_ok (i\<lparr>in_w := in_e i\<rparr>) \<and> cons_abs (i\<lparr>in_w := in_e i\<rparr>) = (typed i, [])"
  by (simp add: cons_ok_def cons_abs_def typed_def ready_def)

lemma key_codes:
  fixes c :: byte
  shows "uint c = 16 \<longleftrightarrow> c = 16" "uint c = 21 \<longleftrightarrow> c = 21" "uint c = 8 \<longleftrightarrow> c = 8" "uint c = 127 \<longleftrightarrow> c = 127"
    "uint c = 10 \<longleftrightarrow> c = 10" "uint c = 13 \<longleftrightarrow> c = 13" "uint c = 4 \<longleftrightarrow> c = 4" "uint c = 0 \<longleftrightarrow> c = 0"
  by (simp_all add: word_uint_eq_iff)

lemma typed_len: "length (typed i) = unat (in_e i - in_r i)"
  by (simp add: typed_def)

lemma cons_abs_len: "cons_ok i \<Longrightarrow> length (fst (cons_abs i)) + length (snd (cons_abs i)) = length (typed i)"
  by (simp add: cons_abs_def cons_ok_def)

text \<open>The buffer is full after the next character exactly when the indices are a whole buffer apart.\<close>

lemma cons_full:
  assumes "length (typed i) < INPUT_BUF"
  shows "in_e i + 1 = in_r i + word_of_nat INPUT_BUF \<longleftrightarrow> length (typed i) + 1 = INPUT_BUF"
proof -
  have "in_e i + 1 = in_r i + word_of_nat INPUT_BUF \<longleftrightarrow> in_e i + 1 - in_r i = word_of_nat INPUT_BUF"
    by (auto simp: algebra_simps)
  also have "\<dots> \<longleftrightarrow> unat (in_e i + 1 - in_r i) = INPUT_BUF" by (simp add: word_unat_eq_iff)
  also have "unat (in_e i + 1 - in_r i) = Suc (unat (in_e i - in_r i))"
    using assms typed_len [of i] by (intro unat_Suc_diff) simp
  finally show ?thesis by (simp add: typed_len)
qed

text \<open>The cases of the handler: control-U, backspace and delete, and a character that is typed in.\<close>

lemma consoleintr_kill_line:
  assumes ok: "cons_ok (cons_in s)" and np: "\<not> panicked s"
  shows "\<exists>s'. consoleintr_char fp 21 s = Ret () s' \<and> \<not> panicked s' \<and> cons_ok (cons_in s')
    \<and> cons_abs (cons_in s') = edit (cons_abs (cons_in s)) 21"
proof -
  let ?i = "cons_in s"
  have "ready ?i \<le> length (typed ?i)" using ok by (simp add: cons_ok_def)
  then have "length (typed ?i) - ready ?i = unat (in_e ?i - in_w ?i)"
    using ring_split(2) [of "in_w ?i" "in_r ?i" "in_e ?i"] by (simp add: typed_def ready_def)
  then obtain out e where k: "kill_line (unat (in_e ?i - in_w ?i)) s = Ret () (s\<lparr>cons_in := ?i\<lparr>in_e := e\<rparr>, uart_out := out\<rparr>)"
    "cons_ok (?i\<lparr>in_e := e\<rparr>)" "typed (?i\<lparr>in_e := e\<rparr>) = take (ready ?i) (typed ?i)"
    using kill_line_run [OF ok np] by metis
  have "ready (?i\<lparr>in_e := e\<rparr>) = ready ?i" by (simp add: ready_def)
  then show ?thesis using k np by (simp add: consoleintr_char_def cons_abs_def)
qed

lemma consoleintr_erase:
  assumes ok: "cons_ok (cons_in s)" and np: "\<not> panicked s" and c: "c = 8 \<or> c = 127"
  shows "\<exists>s'. consoleintr_char fp (uint c) s = Ret () s' \<and> \<not> panicked s' \<and> cons_ok (cons_in s')
    \<and> cons_abs (cons_in s') = edit (cons_abs (cons_in s)) c"
proof (cases "in_e (cons_in s) = in_w (cons_in s)")
  case True
  then have "\<not> ready (cons_in s) < length (typed (cons_in s))" using cons_line_nonempty [OF ok] by simp
  then show ?thesis using c True ok np by (auto simp: consoleintr_char_def key_codes cons_abs_def)
next
  case False
  let ?i = "cons_in s"
  note b = cons_back [OF ok False]
  have lt: "ready ?i < length (typed ?i)" using cons_line_nonempty [OF ok] False by simp
  obtain out where o: "consputc BACKSPACE (s\<lparr>cons_in := ?i\<lparr>in_e := in_e ?i - 1\<rparr>\<rparr>)
      = Ret () (s\<lparr>cons_in := ?i\<lparr>in_e := in_e ?i - 1\<rparr>, uart_out := uart_out s @ out\<rparr>)"
    using printsE [OF prints_consputc [of BACKSPACE], of "s\<lparr>cons_in := ?i\<lparr>in_e := in_e ?i - 1\<rparr>\<rparr>"] np by auto
  have "edit (cons_abs ?i) c = cons_abs (?i\<lparr>in_e := in_e ?i - 1\<rparr>)"
    using c lt by (auto simp: cons_abs_def b(1,2) drop_butlast take_butlast)
  then show ?thesis using c False o b(3) np by (auto simp: consoleintr_char_def key_codes upd_input_run)
qed

lemma consoleintr_type:
  assumes ok: "cons_ok (cons_in s)" and np: "\<not> panicked s" and rm: "length (typed (cons_in s)) < INPUT_BUF"
    and c: "c \<noteq> 16" "c \<noteq> 21" "c \<noteq> 8" "c \<noteq> 127" "c \<noteq> 0" "c \<noteq> 10"
  shows "\<exists>s'. consoleintr_char fp (uint c) s = Ret () s' \<and> \<not> panicked s' \<and> cons_ok (cons_in s')
    \<and> cons_abs (cons_in s') = edit (cons_abs (cons_in s)) c"
proof -
  let ?i = "cons_in s" and ?d = "if c = 13 then 10 else c"
  let ?t = "s\<lparr>cons_in := type_in ?d ?i\<rparr>"
  let ?fin = "?d = 10 \<or> ?d = 4 \<or> in_e ?i + 1 = in_r ?i + word_of_nat INPUT_BUF"
  have rl: "ready ?i \<le> length (typed ?i)" using ok by (simp add: cons_ok_def)
  have d: "(if uint c = 13 then 10 else uint c) = uint ?d" by (simp add: key_codes)
  note t = cons_type [OF ok rm, of ?d]
  obtain out where o: "consputc (uint ?d) ?t = Ret () (?t\<lparr>uart_out := uart_out s @ out\<rparr>)"
    using printsE [OF prints_consputc [of "uint ?d"], of ?t] np by auto
  have room: "in_e ?i - in_r ?i < word_of_nat INPUT_BUF" using rm by (simp add: typed_len word_less_nat_alt)
  have n0: "uint c \<noteq> 0" "uint c \<noteq> 10" "uint c \<noteq> 16" "uint c \<noteq> 21" "\<not> (uint c = 8 \<or> uint c = 127)"
    using c by (simp_all add: key_codes)
  have run: "consoleintr_char fp (uint c) s =
      (if ?fin then Ret () (?t\<lparr>cons_in := (type_in ?d ?i)\<lparr>in_w := in_e ?i + 1\<rparr>, uart_out := uart_out s @ out,
         procs := wake_all ChInput (procs s)\<rparr>) else Ret () (?t\<lparr>uart_out := uart_out s @ out\<rparr>))"
    unfolding consoleintr_char_def using n0 room o
    by (simp add: Let_def d upd_input_run wakeup_run key_codes(7))
  have abs: "edit (cons_abs ?i) c = (if ?fin then (typed ?i @ [?d], []) else (fst (cons_abs ?i), snd (cons_abs ?i) @ [?d]))"
    using c rm cons_abs_len [OF ok] unfolding cons_full [OF rm] by (simp add: cons_abs_def Let_def)
  show ?thesis
  proof (cases ?fin)
    case True
    have "cons_ok ((type_in ?d ?i)\<lparr>in_w := in_e ?i + 1\<rparr>) \<and> cons_abs ((type_in ?d ?i)\<lparr>in_w := in_e ?i + 1\<rparr>) = (typed ?i @ [?d], [])"
      using cons_commit [of "type_in ?d ?i"] t(1,3) rm by simp
    then show ?thesis unfolding run abs if_P [OF True] using np by simp
  next
    case False
    have "cons_ok (type_in ?d ?i)" using t ok rm rl False by (simp add: cons_ok_def)
    moreover have "cons_abs (type_in ?d ?i) = (fst (cons_abs ?i), snd (cons_abs ?i) @ [?d])"
      using rl by (simp only: cons_abs_def t(1,2)) simp
    ultimately show ?thesis unfolding run abs if_not_P [OF False] using np by simp
  qed
qed

lemma consoleintr_char_run:
  assumes ok: "cons_ok (cons_in s)" and np: "\<not> panicked s"
  shows "\<exists>s'. consoleintr_char fp (uint c) s = Ret () s' \<and> \<not> panicked s' \<and> cons_ok (cons_in s')
    \<and> cons_abs (cons_in s') = edit (cons_abs (cons_in s)) c"
proof -
  consider "c = 16" | "c = 21" | "c = 8 \<or> c = 127" | "c \<noteq> 16" "c \<noteq> 21" "c \<noteq> 8" "c \<noteq> 127" by blast
  then show ?thesis
  proof cases
    case 1
    obtain out where "procdump fp s = Ret () (s\<lparr>uart_out := uart_out s @ out\<rparr>)" by (rule printsE [OF prints_procdump np])
    then show ?thesis using 1 ok np by (simp add: consoleintr_char_def cons_abs_def)
  next
    case 2
    then show ?thesis using consoleintr_kill_line [OF ok np] by simp
  next
    case 3
    then show ?thesis by (rule consoleintr_erase [OF ok np])
  next
    case 4
    show ?thesis
    proof (cases "c = 0 \<or> c = 10 \<or> \<not> length (typed (cons_in s)) < INPUT_BUF")
      case True
      then have "edit (cons_abs (cons_in s)) c = cons_abs (cons_in s)"
        using 4 cons_abs_len [OF ok] by (cases "cons_abs (cons_in s)") auto
      moreover have "consoleintr_char fp (uint c) s = Ret () s"
        using True 4 by (auto simp: consoleintr_char_def key_codes typed_len word_less_nat_alt)
      ultimately show ?thesis using ok np by auto
    next
      case False
      then show ?thesis using consoleintr_type [OF ok np _ 4] by blast
    qed
  qed
qed

lemma consoleintr_run:
  "cons_ok (cons_in s) \<Longrightarrow> \<not> panicked s \<Longrightarrow>
   \<exists>s'. consoleintr fp cs s = Ret () s' \<and> \<not> panicked s' \<and> cons_ok (cons_in s') \<and> cons_abs (cons_in s') = foldl edit (cons_abs (cons_in s)) cs"
proof (induction cs arbitrary: s)
  case (Cons c cs)
  obtain s1 where 1: "consoleintr_char fp (uint c) s = Ret () s1" "\<not> panicked s1" "cons_ok (cons_in s1)"
    "cons_abs (cons_in s1) = edit (cons_abs (cons_in s)) c"
    using consoleintr_char_run [OF Cons.prems] by blast
  obtain s2 where "consoleintr fp cs s1 = Ret () s2" "\<not> panicked s2" "cons_ok (cons_in s2)"
    "cons_abs (cons_in s2) = foldl edit (cons_abs (cons_in s1)) cs"
    using Cons.IH [OF 1(3,2)] by blast
  then show ?case using 1(1,4) by (simp add: consoleintr_def)
qed (simp add: consoleintr_def)

section \<open>Reading a line\<close>

lemma cons_get:
  assumes "cons_ok i" and "fst (cons_abs i) = c # cs"
  shows "in_r i \<noteq> in_w i" "in_buf i ! (unat (in_r i) mod INPUT_BUF) = c"
    "cons_ok (i\<lparr>in_r := in_r i + 1\<rparr>)" "cons_abs (i\<lparr>in_r := in_r i + 1\<rparr>) = (cs, snd (cons_abs i))"
proof -
  let ?i = "i\<lparr>in_r := in_r i + 1\<rparr>"
  have k: "0 < ready i" "typed i \<noteq> []" using assms(2) by (cases "ready i"; auto simp: cons_abs_def)+
  then have rw: "in_r i \<noteq> in_w i" and re: "in_r i \<noteq> in_e i" by (auto simp: ready_def typed_def ring_def)
  then show "in_r i \<noteq> in_w i" by simp
  have t: "typed i = in_buf i ! (unat (in_r i) mod INPUT_BUF) # typed ?i" using ring_get(1) [OF re] by (simp add: typed_def)
  have r: "ready i = Suc (ready ?i)" using ring_get(2) [OF rw] by (simp add: ready_def)
  show "in_buf i ! (unat (in_r i) mod INPUT_BUF) = c" "cons_abs ?i = (cs, snd (cons_abs i))"
    using assms(2) t r by (simp_all add: cons_abs_def)
  show "cons_ok ?i" using assms(1) t r by (simp add: cons_ok_def)
qed

lemma cons_copy_line:
  "cons_ok i \<Longrightarrow> fst (cons_abs i) = cs @ 10 # rest \<Longrightarrow> 4 \<notin> set cs \<Longrightarrow> 10 \<notin> set cs \<Longrightarrow> length cs < n \<Longrightarrow>
   \<exists>i'. cons_copy n target i = (True, cs @ [10], i') \<and> cons_ok i' \<and> cons_abs i' = (rest, snd (cons_abs i))"
proof (induction cs arbitrary: i n)
  case Nil
  then obtain m where n: "n = Suc m" by (cases n) auto
  note g = cons_get [OF Nil.prems(1), of 10 rest]
  show ?case using Nil.prems(2) g by (simp add: n Let_def)
next
  case (Cons c cs)
  then obtain m where n: "n = Suc m" by (cases n) auto
  have f: "fst (cons_abs i) = c # (cs @ 10 # rest)" using Cons.prems(2) by simp
  note g = cons_get [OF Cons.prems(1) f]
  obtain i' where "cons_copy m target (i\<lparr>in_r := in_r i + 1\<rparr>) = (True, cs @ [10], i')" "cons_ok i'" "cons_abs i' = (rest, snd (cons_abs i))"
    using Cons.IH [OF g(3), of m] g(4) Cons.prems(3-5) n by auto
  then show ?case using g(1,2) Cons.prems(3,4) by (simp add: n Let_def)
qed

lemma edit_plain:
  "set cs \<inter> {0, 4, 8, 10, 13, 16, 21, 127} = {} \<Longrightarrow> length (l @ cs) < INPUT_BUF \<Longrightarrow> foldl edit ([], l) cs = ([], l @ cs)"
proof (induction cs arbitrary: l)
  case (Cons c cs)
  then have "edit ([], l) c = ([], l @ [c])" by (simp add: Let_def)
  then show ?case using Cons.IH [of "l @ [c]"] Cons.prems by simp
qed simp

section \<open>The frame\<close>

text \<open>The cursor is on a character cell of the frame.\<close>

definition cursor_ok :: "'z consst_scheme \<Rightarrow> bool" where
  "cursor_ok s \<longleftrightarrow> unat (cursor_x s) mod 8 = 0 \<and> unat (cursor_x s) < 1024 \<and> unat (cursor_y s) mod 16 = 0 \<and> unat (cursor_y s) < 768"

text \<open>An operation that draws: it returns, leaves the cursor and changes no pixel outside the frame.\<close>

definition draws :: "('z consst_scheme, unit) kop \<Rightarrow> bool" where
  "draws m \<longleftrightarrow> (\<forall>s. \<exists>F g. m s = Ret () (s\<lparr>gpucolour := g, fb := F\<rparr>) \<and> (\<forall>x y. \<not> (x < 1024 \<and> y < 768) \<longrightarrow> F x y = fb s x y))"

named_theorems draws_rules

lemma drawsE:
  assumes "draws m"
  obtains F g where "m s = Ret () (s\<lparr>gpucolour := g, fb := F\<rparr>)" "\<And>x y. \<not> (x < 1024 \<and> y < 768) \<Longrightarrow> F x y = fb s x y"
  using assms unfolding draws_def by metis

lemma draws_kreturn [draws_rules]: "draws (kreturn ())"
  unfolding draws_def by (intro allI, rule_tac x = "fb s" in exI, rule_tac x = "gpucolour s" in exI) simp

lemma draws_kbind [draws_rules]:
  assumes "draws m" and "draws n"
  shows "draws (kbind m (\<lambda>_. n))"
  unfolding draws_def
proof
  fix s :: "'a consst_scheme"
  obtain F g where 1: "m s = Ret () (s\<lparr>gpucolour := g, fb := F\<rparr>)" "\<And>x y. \<not> (x < 1024 \<and> y < 768) \<Longrightarrow> F x y = fb s x y"
    using drawsE [OF assms(1)] by blast
  obtain F' g' where 2: "n (s\<lparr>gpucolour := g, fb := F\<rparr>) = Ret () (s\<lparr>gpucolour := g', fb := F'\<rparr>)"
    "\<And>x y. \<not> (x < 1024 \<and> y < 768) \<Longrightarrow> F' x y = F x y"
    using drawsE [OF assms(2), of "s\<lparr>gpucolour := g, fb := F\<rparr>"] by auto
  show "\<exists>F g. kbind m (\<lambda>_. n) s = Ret () (s\<lparr>gpucolour := g, fb := F\<rparr>) \<and> (\<forall>x y. \<not> (x < 1024 \<and> y < 768) \<longrightarrow> F x y = fb s x y)"
    using 1 2 by (intro exI [of _ F'] exI [of _ g']) simp
qed

lemma draws_kfor [draws_rules]: "(\<And>x. draws (f x)) \<Longrightarrow> draws (kfor f xs)"
  by (induction xs) (auto intro: draws_rules)

lemma draws_if [draws_rules]: "draws m \<Longrightarrow> draws n \<Longrightarrow> draws (if b then m else n)"
  by simp

lemma draws_colour [draws_rules]: "draws (setgpucolour c)"
  unfolding draws_def setgpucolour_def by (intro allI, rule_tac x = "fb s" in exI, rule_tac x = c in exI) simp

lemma draws_pixel [draws_rules]: "draws (drawpixel x y)"
proof (cases "x \<ge> framewidth \<or> y \<ge> frameheight")
  case True
  then show ?thesis by (simp add: drawpixel_def draws_kreturn)
next
  case False
  then have "unat x < 1024" "unat y < 768" by (simp_all add: not_le word_less_nat_alt)
  then show ?thesis using False unfolding draws_def drawpixel_def
    by (intro allI, rule_tac x = "(fb s)(unat x := (fb s (unat x))(unat y := gpucolour s))" in exI,
        rule_tac x = "gpucolour s" in exI) auto
qed

lemma draws_cells [draws_rules]: "draws (drawcursor x y)" "draws (drawcharacter font c x y)"
  unfolding drawcursor_def drawcharacter_def by (auto intro!: draws_rules)

text \<open>Outside the frame, the frame buffer of two states agrees.\<close>

definition same_outside :: "'z consst_scheme \<Rightarrow> 'z consst_scheme \<Rightarrow> bool" where
  "same_outside s t \<longleftrightarrow> (\<forall>x y. \<not> (x < 1024 \<and> y < 768) \<longrightarrow> fb t x y = fb s x y)"

lemma scroll_run:
  "\<exists>s'. scroll s = Ret () s' \<and> cursor_x s' = 0 \<and> cursor_y s' = frameheight - fontheight \<and> same_outside s s'"
proof -
  let ?F = "\<lambda>x y. if x < unat framewidth \<and> y < unat frameheight - unat fontheight then fb s x (y + unat fontheight) else fb s x y"
  let ?t = "s\<lparr>fb := ?F, cursor_y := frameheight - fontheight, gpucolour := 0\<rparr>"
  have "draws (kfor (\<lambda>x. drawcursor x (cursor_y ?t)) (steps (cursor_x ?t) framewidth (unat fontwidth)))"
    by (intro draws_rules)
  then obtain F g where d: "kfor (\<lambda>x. drawcursor x (cursor_y ?t)) (steps (cursor_x ?t) framewidth (unat fontwidth)) ?t
      = Ret () (?t\<lparr>gpucolour := g, fb := F\<rparr>)" "\<And>x y. \<not> (x < 1024 \<and> y < 768) \<Longrightarrow> F x y = fb ?t x y"
    by (rule drawsE [where s = ?t]) blast
  have "scroll s = Ret () (?t\<lparr>gpucolour := 0xffff, fb := F, cursor_x := 0\<rparr>)"
    using d(1) by (simp add: scroll_def setgpucolour_def)
  moreover have "same_outside s (?t\<lparr>gpucolour := 0xffff, fb := F, cursor_x := 0\<rparr>)"
    using d(2) by (auto simp: same_outside_def)
  ultimately show ?thesis by simp
qed

lemma newline_run:
  assumes "unat (cursor_y s) mod 16 = 0" and "unat (cursor_y s) < 768"
  shows "\<exists>s'. newline s = Ret () s' \<and> cursor_ok s' \<and> same_outside s s'"
proof -
  let ?t = "s\<lparr>cursor_x := 0, cursor_y := cursor_y s + fontheight\<rparr>"
  have y: "unat (cursor_y s + 16) = unat (cursor_y s) + 16" using assms(2) by (subst unat_word_ariths) simp
  show ?thesis
  proof (cases "cursor_y s + 16 \<ge> frameheight")
    case True
    then show ?thesis using scroll_run [of ?t] by (auto simp: newline_def cursor_ok_def same_outside_def)
  next
    case False
    then have "unat (cursor_y s) + 16 < 768" by (simp add: word_le_nat_alt y)
    moreover have "(unat (cursor_y s) + 16) mod 16 = 0" using assms(1) by simp
    ultimately show ?thesis using False by (simp add: newline_def cursor_ok_def same_outside_def y)
  qed
qed

lemma gpuputc_run:
  assumes "cursor_ok s"
  shows "\<exists>s'. gpuputc font c s = Ret () s' \<and> cursor_ok s' \<and> same_outside s s'"
proof -
  have x: "unat (cursor_x s) mod 8 = 0" "unat (cursor_x s) < 1024" and y: "unat (cursor_y s) mod 16 = 0" "unat (cursor_y s) < 768"
    using assms by (simp_all add: cursor_ok_def)
  consider "c = 10" | "c = word_of_int BACKSPACE" "cursor_x s > 0" | "c = word_of_int BACKSPACE" "cursor_x s = 0"
    | "c \<noteq> 10" "c \<noteq> word_of_int BACKSPACE" by (metis word_neq_0_conv)
  then show ?thesis
  proof cases
    case 1
    then show ?thesis using newline_run [OF y] by (simp add: gpuputc_def)
  next
    case 2
    have ge: "8 \<le> unat (cursor_x s)" using x(1) 2(2) by (metis dvd_imp_le mod_0_imp_dvd unat_gt_0 word_gt_0)
    then have u: "unat (cursor_x s - 8) = unat (cursor_x s) - 8" by (simp add: unat_sub word_le_nat_alt)
    let ?t = "s\<lparr>cursor_x := cursor_x s - fontwidth, gpucolour := 0\<rparr>"
    obtain F g where d: "drawcursor (cursor_x s - fontwidth) (cursor_y s) ?t = Ret () (?t\<lparr>gpucolour := g, fb := F\<rparr>)"
      "\<And>x y. \<not> (x < 1024 \<and> y < 768) \<Longrightarrow> F x y = fb ?t x y"
      by (rule drawsE [OF draws_cells(1), where s = ?t]) blast
    have "gpuputc font c s = Ret () (?t\<lparr>gpucolour := 0xffff, fb := F\<rparr>)"
      using 2 d(1) by (simp add: gpuputc_def setgpucolour_def)
    moreover have "(unat (cursor_x s) - 8) mod 8 = 0" using x(1) ge by (metis le_mod_geq)
    ultimately show ?thesis using x y d(2) u by (simp add: cursor_ok_def same_outside_def)
  next
    case 3
    then show ?thesis using assms by (simp add: gpuputc_def same_outside_def)
  next
    case 4
    have u: "unat (cursor_x s + 8) = unat (cursor_x s) + 8" using x(2) by (subst unat_word_ariths) simp
    let ?m = "kbind (setgpucolour 0) (\<lambda>_. kbind (drawcursor (cursor_x s) (cursor_y s)) (\<lambda>_. kbind (setgpucolour 0xffff) (\<lambda>_.
      if c \<noteq> 32 then drawcharacter font (ucast c) (cursor_x s) (cursor_y s) else kreturn ())))"
    have "draws ?m" by (intro draws_rules)
    then obtain F g where d: "?m s = Ret () (s\<lparr>gpucolour := g, fb := F\<rparr>)" "\<And>x y. \<not> (x < 1024 \<and> y < 768) \<Longrightarrow> F x y = fb s x y"
      by (rule drawsE [where s = s]) blast
    let ?t = "s\<lparr>gpucolour := g, fb := F, cursor_x := cursor_x s + fontwidth\<rparr>"
    have run: "gpuputc font c s = (if cursor_x s + fontwidth \<ge> framewidth then newline ?t else Ret () ?t)"
    proof -
      let ?k = "kbind (kmod (\<lambda>t. t\<lparr>cursor_x := cursor_x s + fontwidth\<rparr>)) (\<lambda>_.
        kbind (kget cursor_x) (\<lambda>cx. if cx \<ge> framewidth then newline else kreturn ()))"
      have "gpuputc font c s = kbind ?m (\<lambda>_. ?k) s" using 4 by (simp add: gpuputc_def kbind_assoc setgpucolour_def)
      also have "\<dots> = ?k (s\<lparr>gpucolour := g, fb := F\<rparr>)" by (rule kbind_Ret [where m = ?m, OF d(1)])
      finally show ?thesis by simp
    qed
    show ?thesis
    proof (cases "cursor_x s + fontwidth \<ge> framewidth")
      case True
      then show ?thesis using newline_run [of ?t] y d(2) unfolding run by (auto simp: same_outside_def)
    next
      case False
      then have "unat (cursor_x s) + 8 < 1024" by (simp add: word_le_nat_alt u)
      then show ?thesis using False x y u d(2) unfolding run by (auto simp: cursor_ok_def same_outside_def)
    qed
  qed
qed

section \<open>Properties\<close>

text \<open>
  The kernel's number printing is right for every 32-bit value and every base from ten to sixteen, \<^verbatim>\<open>INT_MIN\<close>
  included: it sends the sign and the numeral, and its buffer of sixteen bytes is never overrun.
\<close>

theorem printint_correct:
  assumes "\<not> panicked s" and "10 \<le> unat b" and "unat b \<le> 16"
  shows "printint x b sign s = Ret () (s\<lparr>uart_out := uart_out s @ number_text x (unat b) sign\<rparr>)"
  by (rule printint_run [OF assms])

text \<open>
  C23: the editing of console input refines the editing of a list, whatever the characters are and wherever the
  counters stand: the handler returns, the buffer never holds more than 128 characters, erasing never
  reaches a finished line, a finished or full line becomes ready for readers at once.
\<close>

theorem console_edit:
  assumes "cons_ok (cons_in s)" and "\<not> panicked s"
  shows "\<exists>s'. consoleintr fp cs s = Ret () s' \<and> cons_ok (cons_in s')
    \<and> cons_abs (cons_in s') = foldl edit (cons_abs (cons_in s)) cs"
  using consoleintr_run [OF assms] by blast

text \<open>
  C24: what is typed is what is read: printing characters typed into an empty buffer and ended by the return
  key are handed to the next reader whose buffer has room for them, with a newline at the end, and the
  input is empty again.
\<close>

theorem console_line_roundtrip:
  fixes s :: "'z consst_scheme"
  assumes "cons_ok (cons_in s)" and "typed (cons_in s) = []" and "\<not> panicked s"
    and "set cs \<inter> {0, 4, 8, 10, 13, 16, 21, 127} = {}" and "length cs < 128" and "int (length cs) < sint n"
  shows "\<exists>s1. consoleintr fp (cs @ [13]) s = Ret () s1 \<and> (\<forall>t :: 'z consst_scheme. cons_in t = cons_in s1 \<and> i_busy (inodes t ip)
      \<and> i_valid (inodes t ip) \<and> 1 \<le> i_ref (inodes t ip) \<longrightarrow>
    (\<exists>t'. consoleread ip n t = Ret (int (length cs) + 1, cs @ [10]) t' \<and> typed (cons_in t') = []))"
proof -
  have "cons_abs (cons_in s) = ([], [])" using assms(1,2) by (simp add: cons_abs_def)
  moreover have "foldl edit ([], []) (cs @ [13]) = (cs @ [10], [])" using edit_plain [OF assms(4), of "[]"] assms(5) by (simp add: Let_def)
  ultimately obtain s1 where 1: "consoleintr fp (cs @ [13]) s = Ret () s1" "cons_ok (cons_in s1)" "cons_abs (cons_in s1) = (cs @ [10], [])"
    using consoleintr_run [OF assms(1,3), of fp "cs @ [13]"] by auto
  have n: "length cs < nat (sint n)" using assms(6) by simp
  have plain: "4 \<notin> set cs" "10 \<notin> set cs" using assms(4) by auto
  obtain i' where c: "cons_copy (nat (sint n)) (nat (sint n)) (cons_in s1) = (True, cs @ [10], i')" "cons_ok i'" "cons_abs i' = ([], [])"
    using cons_copy_line [OF 1(2), of cs "[]", OF _ plain n] 1(3) by auto
  have "typed i' = []" using c(3) append_take_drop_id [of "ready i'" "typed i'"] by (auto simp: cons_abs_def)
  moreover have "\<exists>t'. consoleread ip n t = Ret (int (length cs) + 1, cs @ [10]) t' \<and> cons_in t' = i'"
    if t: "cons_in t = cons_in s1" "i_busy (inodes t ip)" "i_valid (inodes t ip)" "1 \<le> i_ref (inodes t ip)" for t :: "'z consst_scheme"
    using t c(1) by (simp add: consoleread_def consoleread_from_def iunlock_def ilock_def upd_inode_def wakeup_run upd_input_run)
  ultimately show ?thesis using 1(1) by blast
qed

text \<open>
  Drawing a character keeps the cursor on a cell of the frame, scrolling included, and never writes outside
  the 1024 by 768 pixels.
\<close>

theorem gpuputc_in_frame:
  assumes "cursor_ok s"
  shows "\<exists>s'. gpuputc font c s = Ret () s' \<and> cursor_ok s' \<and> same_outside s s'"
  by (rule gpuputc_run [OF assms])

section \<open>A console to evaluate the properties on\<close>

definition ex_cons :: consst where
  "ex_cons = filest.extend (ex_files (ex_pipe 0))
     (consst.fields \<lparr>in_buf = replicate 128 0, in_r = 0, in_w = 0, in_e = 0\<rparr> [] False 0 0 0xffff (\<lambda>_ _. 0))"

lemma ex_cons_sel:
  "cons_in ex_cons = \<lparr>in_buf = replicate 128 0, in_r = 0, in_w = 0, in_e = 0\<rparr>" "\<not> panicked ex_cons" "uart_out ex_cons = []"
  "cursor_x ex_cons = 0" "cursor_y ex_cons = 0"
  by (simp_all add: ex_cons_def filest.defs consst.defs)

lemma ex_cons_ok: "cons_ok (cons_in ex_cons)" "typed (cons_in ex_cons) = []" "cons_abs (cons_in ex_cons) = ([], [])" "cursor_ok ex_cons"
  by (simp_all add: ex_cons_sel cons_ok_def typed_def ready_def ring_def cons_abs_def cursor_ok_def)

theorem printint_correct_witness: "\<exists>s. printint (- 42) 10 True ex_cons = Ret () s \<and> uart_out s = [45, 52, 50]"
proof -
  have "sint (- 42 :: uint) = - 42" by simp
  then have "number_text (- 42) 10 True = [45, 52, 50]"
    by (simp add: number_text_def numeral_of.simps digits_def)
  then show ?thesis using printint_correct [OF ex_cons_sel(2), of 10 "- 42" True] by (simp add: ex_cons_sel)
qed

theorem console_edit_witness:
  "\<exists>s. consoleintr 0 [104, 120, 8, 105, 13] ex_cons = Ret () s \<and> cons_abs (cons_in s) = ([104, 105, 10], [])"
  using console_edit [OF ex_cons_ok(1) ex_cons_sel(2), of 0 "[104, 120, 8, 105, 13]"] by (auto simp: ex_cons_ok(3) Let_def)

theorem console_line_roundtrip_witness:
  "\<exists>s1. consoleintr 0 ([104, 105] @ [13]) ex_cons = Ret () s1 \<and> (\<exists>t t' :: consst. cons_in t = cons_in s1 \<and>
     consoleread 3 100 t = Ret (3, [104, 105, 10]) t' \<and> typed (cons_in t') = [])"
proof -
  obtain s1 where 1: "consoleintr 0 ([104, 105] @ [13]) ex_cons = Ret () s1"
    and r: "\<forall>t :: consst. cons_in t = cons_in s1 \<and> i_busy (inodes t 3) \<and> i_valid (inodes t 3) \<and> 1 \<le> i_ref (inodes t 3) \<longrightarrow>
      (\<exists>t'. consoleread 3 100 t = Ret (int (length [104 :: byte, 105]) + 1, [104, 105] @ [10]) t' \<and> typed (cons_in t') = [])"
    using console_line_roundtrip [OF ex_cons_ok(1,2) ex_cons_sel(2), of "[104, 105]" 100 0 3] by auto
  let ?t = "s1\<lparr>inodes := (\<lambda>_. ex_inode\<lparr>i_busy := True, i_valid := True, i_ref := 1\<rparr>)\<rparr>"
  obtain t' where "consoleread 3 100 ?t = Ret (3, [104, 105, 10]) t'" "typed (cons_in t') = []"
    using r [rule_format, of ?t] by auto
  then show ?thesis using 1 by (intro exI [of _ s1] conjI exI [of _ ?t] exI [of _ t']) simp_all
qed

theorem gpuputc_in_frame_witness: "\<exists>s'. gpuputc (\<lambda>_. 0xFF) 65 ex_cons = Ret () s' \<and> cursor_ok s'"
  using gpuputc_in_frame [OF ex_cons_ok(4), of "\<lambda>_. 0xFF" 65] by blast

end
