(* ===== verification/Syscall_Proofs.thy ===== *)
theory Syscall_Proofs
  imports Trap Vm_Spec Content_Proofs Console_Proofs
begin

unbundle bit_operations_syntax

text \<open>
  The boundary between user programs and the kernel: the arguments of system calls stay inside the memory of the
  process, and what the kernel does when a program passes the tests with a bad number or leaves a removed directory.
\<close>

section \<open>Arguments in user memory\<close>

text \<open>The current process runs in an address space in which all of its memory is mapped.\<close>

definition user_proc :: "nat \<Rightarrow> 'z ptable_scheme \<Rightarrow> bool" where
  "user_proc cp s \<longleftrightarrow> curr_proc s = Some cp \<and> unat (psz (procs s cp)) \<le> 2 ^ 28
     \<and> pd_ok (pgdir (procs s cp)) s
     \<and> (\<forall>x<unat (psz (procs s cp)). user_byte (pgdir (procs s cp)) x s \<noteq> None)"

definition mem_byte :: "nat \<Rightarrow> 'z ptable_scheme \<Rightarrow> nat \<Rightarrow> byte" where
  "mem_byte cp s x = the (user_byte (pgdir (procs s cp)) x s)"

lemma user_pa_run:
  assumes "user_proc cp s" and "unat va < unat (psz (procs s cp))"
  shows "\<exists>a. user_pa va s = Ret a s \<and> pm s (unat a) = mem_byte cp s (unat va)"
proof -
  let ?pd = "pgdir (procs s cp)"
  let ?e = "pte_val ?pd (unat va div 4096) s"
  have va: "unat va < 2 ^ 28" and ub: "user_byte ?pd (unat va) s \<noteq> None" and cp: "curr_proc s = Some cp"
    using assms by (auto simp: user_proc_def)
  have e: "?e AND 3 \<noteq> 0" "mem_byte cp s (unat va) = pm s (unat (frame_of ?e) + unat va mod 4096)"
    using ub by (auto simp: user_byte_def mem_byte_def Let_def split: if_splits)
  have ok: "pd_ok ?pd s" using assms(1) by (simp add: user_proc_def)
  have i: "unat va div 2 ^ 20 < 256" using va by (simp add: less_mult_imp_div_less)
  obtain t where t: "tbl ?pd (unat va div 2 ^ 20) s = Some t"
    using e page_dir_index [of va] by (auto simp: pte_val_def split: option.splits)
  have "unat ?pd mod 1024 = 0" using ok by (simp add: pd_ok_def)
  then have w: "walkpgdir ?pd va False s = Ret (t + 4 * PTE_IDX va) s" using walk_lookup [of ?pd va s] va t by simp
  have run: "user_pa va s = Ret (p2v (PTE_ADDR ?e) + (va AND 0xFFF)) s"
    using pte_nonzero [OF ok i t, of va] load_pte [OF t] e(1) w by (simp add: user_pa_def with_curr_def cp)
  have "unat (p2v (PTE_ADDR ?e) + (va AND 0xFFF)) = unat (frame_of ?e) + unat va mod 4096"
  proof -
    have "unat (PTE_ADDR ?e) mod 4096 = 0" using unat_align_dn [of 12 ?e] by (simp add: PTE_ADDR_def)
    then have f: "unat (frame_of ?e) mod 4096 = 0"
      using v2p_aligned_page [of "PTE_ADDR ?e"] by (simp add: frame_of_def p2v_eq_v2p)
    have "va AND 0xFFF = take_bit 12 va" by (simp add: take_bit_eq_mask mask_eq_exp_minus_1)
    then have m: "unat (va AND 0xFFF) = unat va mod 4096" by (simp add: take_bit_eq_mod unat_mod)
    obtain k where "unat (frame_of ?e) = 4096 * k" using f by auto
    then have le: "unat (frame_of ?e) + 4096 \<le> 2 ^ 32" using unat_less_32 [of "frame_of ?e"] by simp
    have "unat va mod 4096 < 4096" by simp
    then have "unat (frame_of ?e) + unat va mod 4096 < 2 ^ 32" using le by linarith
    then show ?thesis unfolding frame_of_def [symmetric] using m by (subst unat_add_lem [THEN iffD1]) simp_all
  qed
  then show ?thesis using run e(2) by auto
qed

text \<open>The C string at the start of a run of bytes, when it ends within them.\<close>

definition c_string :: "byte list \<Rightarrow> byte list option" where
  "c_string bs = (if 0 \<in> set bs then Some (takeWhile (\<lambda>c. c \<noteq> 0) bs) else None)"

lemma c_string_simps: "c_string [] = None" "c_string (c # cs) = (if c = 0 then Some [] else map_option (Cons c) (c_string cs))"
  by (auto simp: c_string_def)

lemma str_scan_run:
  assumes "user_proc cp s" and "unat a + n \<le> unat (psz (procs s cp))"
  shows "str_scan a n s = Ret (c_string (map (mem_byte cp s) [unat a..<unat a + n])) s"
  using assms(2)
proof (induction n arbitrary: a)
  case (Suc n)
  let ?f = "mem_byte cp s"
  have sz: "unat (psz (procs s cp)) \<le> 2 ^ 28" using assms(1) by (simp add: user_proc_def)
  obtain b where b: "user_pa a s = Ret b s" "pm s (unat b) = ?f (unat a)" using user_pa_run [OF assms(1), of a] Suc.prems by auto
  have a1: "unat (a + 1) = unat a + 1" using Suc.prems sz by (subst unat_add_lem [THEN iffD1]) simp_all
  have up: "[unat a..<unat a + Suc n] = unat a # [unat (a + 1)..<unat (a + 1) + n]" unfolding a1 by (simp add: upt_conv_Cons)
  have "str_scan (a + 1) n s = Ret (c_string (map ?f [unat (a + 1)..<unat (a + 1) + n])) s"
    using Suc.prems by (intro Suc.IH) (simp add: a1)
  then show ?case using b unfolding up by (simp add: c_string_simps)
qed (simp add: c_string_simps)


lemma mod_32_signed:
  assumes "k < 2 ^ 28" and "- (2 ^ 31) \<le> sz" and "sz < 2 ^ 31"
  shows "(int k + sz) mod 2 ^ 32 = (if 0 \<le> int k + sz then int k + sz else int k + sz + 2 ^ 32)"
  using mod_pos_pos_trivial [of "int k + sz + 2 ^ 32" "2 ^ 32"] assms by simp

lemma range_test:
  assumes "i < p \<Longrightarrow> int x = (if 0 \<le> int i + sz then int i + sz else int i + sz + 2 ^ 32)" and "p \<le> 2 ^ 28" and "- (2 ^ 31) \<le> sz"
  shows "p \<le> i \<or> p < x \<longleftrightarrow> \<not> (i < p \<and> 0 \<le> int i + sz \<and> int i + sz \<le> int p)"
proof (cases "i < p")
  case True
  then show ?thesis using assms(1) [OF True] assms(2,3) by (cases "0 \<le> int i + sz") auto
qed simp


section \<open>Leaving a removed directory\<close>

text \<open>The last reference to a removed file is dropped while no transaction is open.\<close>

lemma bfree_outside:
  assumes "calm s" and "\<not> log_busy s" and "lh_n s = 0" and "1 < log_size s" and "1 < disksize s"
    and "b < 2 ^ 32" and "in_use s b" and "bm_block s b < disksize s"
  shows "bfree 1 (word_of_nat b) s = Panic ''write outside of trans''"
proof -
  have b32: "unat (word_of_nat b :: uint) = b" using assms(6) by (intro unat_of_nat_32) simp
  obtain q t u where t: "bread 1 (word_of_nat 1) s = Ret q t" "buf_data q t = Ret (view s 1) t" "brelse q t = Ret () u" "same_fs s u"
    by (rule calm_held [OF assms(1,5)])
  have sb: "readsb 1 s = Ret (dec_super (view s 1)) u" using t by (simp add: readsb_def del: One_nat_def)
  have cu: "calm u" "view u = view s" "disksize u = disksize s" using same_fsD [OF t(4)] assms(1) by simp_all
  have i: "bcache_inv u" "Bio.held u = Map.empty" "card (dirty u) < 10" using cu(1) by (simp_all add: calm_def)
  obtain p w where w: "bread 1 (word_of_nat (bm_block s b)) u = Ret p w" "bcache_inv w" "bio_frame u w" "abs_bio w = (abs_bio u)\<lparr>a_held := [p \<mapsto> bm_block s b]\<rparr>"
    using bc.rd [OF i(1), of "bm_block s b"] i assms(8) cu(3) by auto
  have g: "buf_data p w = Ret (view s (bm_block s b)) w" using bc.get [OF w(2), of p "bm_block s b"] cu(2) by (simp add: w(4))
  have l: "\<not> log_busy w" "lh_n w = 0" "log_size w = log_size s"
    using bio_frame_log [OF w(3)] t(4) assms(2,3) by (auto simp: same_fs_def dest: bio_frame_log)
  have bs: "BBLOCK b (unat (sb_ninodes (dec_super (view s 1)))) = bm_block s b" by (simp add: bm_block_def fs_ninodes_def)
  have "bmap_bit (view s (bm_block s b)) (b mod BPB)" using assms(7) by (simp add: in_use_def)
  then show ?thesis
    using sb w(1) g l assms(4) by (simp add: bfree_def b32 Let_def bs set_data_def upd_buf_def log_write_def del: One_nat_def)
qed

lemma iput_outside:
  assumes "calm s" and "\<not> log_busy s" and "lh_n s = 0" and "1 < log_size s" and "1 < disksize s"
    and "i_ref (inodes s ip) = 1" and "i_valid (inodes s ip)" and "i_nlink (inodes s ip) = 0" and "\<not> i_busy (inodes s ip)"
    and "i_dev (inodes s ip) = 1" and "b = unat (i_addrs (inodes s ip) ! 0)" and "b \<noteq> 0" and "in_use s b" and "bm_block s b < disksize s"
  shows "iput ip s = Panic ''write outside of trans''"
proof -
  let ?t = "s\<lparr>inodes := (inodes s)(ip := (inodes s ip)\<lparr>i_busy := True\<rparr>)\<rparr>"
  have v: "in_use ?t c = in_use s c" "bm_block ?t c = bm_block s c" for c by (simp_all add: in_use_def bm_block_def fs_ninodes_def)
  have "bfree 1 (word_of_nat b) ?t = Panic ''write outside of trans''"
    using assms(1-5,13,14) unat_less_32 [of "i_addrs (inodes s ip) ! 0"] by (intro bfree_outside) (simp_all add: v assms(11))
  then have "bfree 1 (i_addrs (inodes s ip) ! 0) ?t = Panic ''write outside of trans''" unfolding assms(11) by simp
  moreover have "i_addrs (inodes s ip) ! 0 \<noteq> 0" using assms(11,12) by auto
  ultimately have "trunc_direct ip 0 ?t = Panic ''write outside of trans''" using assms(10) by (simp add: trunc_direct_def)
  then have "itrunc ip ?t = Panic ''write outside of trans''" by (simp add: itrunc_def upt_rec)
  then show ?thesis using assms(6-9) by (simp add: iput_def upd_inode_run)
qed


section \<open>Dispatch\<close>

text \<open>
  The dispatcher runs the routine of the numbers 1 to 22 and stores its result, except for exec, into the saved
  register; numbers that are not positive or above 23 store -1. Number 23 passes the test and reads past the table.
\<close>

theorem syscall_dispatch:
  assumes "curr_proc s = Some cp" and "\<not> panicked s" and "num = sint (ld32 (pm s) (unat (tf (procs s cp) + 16)))"
  shows "if 1 \<le> num \<and> num \<le> 22 then
      \<exists>f. sys_table dv tr fr (nat num) = Some f \<and> syscall dv tr fr s =
        kbind f (\<lambda>r. if num \<noteq> 7 then kbind (kget (\<lambda>t. tf (procs t cp))) (\<lambda>t. store (t + 16) (word_of_int r)) else kreturn ()) s
    else if num = 23 then syscall dv tr fr s = Fault ''syscalls''
    else \<exists>out. syscall dv tr fr s = Ret () (s\<lparr>uart_out := out, pm := store32 (unat (tf (procs s cp) + 16)) (-1) (pm s)\<rparr>)"
proof -
  consider "1 \<le> num \<and> num \<le> 22" | "num = 23" | "num \<le> 0 \<or> 23 < num" by linarith
  then show ?thesis
  proof cases
    case 1
    then have "nat num \<in> set [1..<23]" by auto
    then obtain f where f: "sys_table dv tr fr (nat num) = Some f" by (auto simp: sys_table_def upt_rec)
    then show ?thesis using 1 assms(1,3) by (simp add: syscall_def with_curr_def load_def Let_def)
  next
    case 2
    then show ?thesis using assms(1,3) by (simp add: syscall_def with_curr_def load_def Let_def)
  next
    case 3
    let ?c = "cprintf (Some (nl ''%d %s: unknown sys call %d''))
         [PInt (word_of_int (pid (procs s cp))), PStr (Some (pname (procs s cp))), PInt (ld32 (pm s) (unat (tf (procs s cp) + 16)))]"
    have "prints ?c" by (rule prints_cprintf) (simp add: nl_def txt_bytes_def)
    then obtain out where "?c s = Ret () (s\<lparr>uart_out := out\<rparr>)" using assms(2) by (auto simp: prints_def)
    then show ?thesis using 3 assms(1,3) by (auto simp: syscall_def with_curr_def load_def store_def Let_def)
  qed
qed

section \<open>Examples\<close>

text \<open>Process 0 runs in the address space of the example of \<^verbatim>\<open>vm.c\<close>, with its trap frame in the kernel buffer.\<close>

lemma ex_user:
  "\<exists>s :: ptable. user_proc 0 s \<and> psz (procs s 0) = 4096 \<and> (\<forall>x<4096. mem_byte 0 s x = 0)
     \<and> tf (procs s 0) = 0x80001FF0 \<and> (\<forall>a\<in>ex_R. pm s a = 0)"
proof -
  obtain v :: vmem and N where v: "user_space 7 (top_marks 0x80100000 0x8C000000) N ex_pd ex_R v"
    "\<forall>x<4096. user_byte ex_pd x v = Some 0" "\<forall>a\<in>ex_R. pm v a = 0" using example_space by blast
  let ?p = "(ex_proc RUNNING 1 None)\<lparr>pgdir := ex_pd, tf := 0x80001FF0\<rparr>"
  define s where "s = (vmem.extend v (vmem.more ex_boot))\<lparr>procs := \<lambda>_. ?p, cpu_proc := \<lambda>_. Some 0\<rparr>"
  have sel: "pm s = pm v" "curr_proc s = Some 0" "procs s 0 = ?p" by (simp_all add: s_def vmem.defs curr_proc_def)
  have t: "tbl pd i s = tbl pd i v" for pd i by (simp add: tbl_def pde_val_def sel)
  have e: "pte_val pd pg s = pte_val pd pg v" for pd pg by (simp add: pte_val_def t sel split: option.split)
  have b: "user_byte pd x s = user_byte pd x v" for pd x by (simp add: user_byte_def e sel Let_def)
  have "pd_ok ex_pd s" using v(1) by (simp add: user_space_def space_def pd_ok_def t)
  then have "user_proc 0 s" using v(2) by (simp add: user_proc_def sel b ex_proc_def)
  then show ?thesis using v(2,3) by (intro exI [of _ s]) (simp add: sel mem_byte_def b ex_proc_def)
qed



definition ex_leave :: filest where
  "ex_leave = (fsst.extend (ex_fs False (ex_cache(3 := (ex_cache 3)\<lparr>i_busy := False, i_nlink := 0\<rparr>)))
     (filest.fields (\<lambda>_. ex_file) (\<lambda>_. ex_pipe 0)))
     \<lparr>procs := \<lambda>_. (ex_proc RUNNING 1 None)\<lparr>cwd := Some 3\<rparr>, cpu_proc := \<lambda>_. Some 1, initproc := Some 0\<rparr>"


definition ex_call :: "byte \<Rightarrow> sysst" where
  "ex_call n = (consst.extend ex_cons (sysst.fields 0 (\<lambda>_. 1) False))\<lparr>pm := (\<lambda>_. 0)(16 := n)\<rparr>"

theorem syscall_dispatch_witness:
  "syscall \<lparr>dev_read = \<lambda>_. None, dev_write = \<lambda>_. None\<rparr> 0 0 (ex_call 23) = Fault ''syscalls''
   \<and> (\<exists>s. syscall \<lparr>dev_read = \<lambda>_. None, dev_write = \<lambda>_. None\<rparr> 0 0 (ex_call 0) = Ret () s)"
proof -
  have c: "curr_proc (ex_call n) = Some 0" "\<not> panicked (ex_call n)" "tf (procs (ex_call n) 0) = 0" "pm (ex_call n) = (\<lambda>_. 0)(16 := n)" for n
    by (simp_all add: ex_call_def ex_cons_def ex_files_def consst.defs filest.defs curr_proc_def ex_proc_def)
  let ?dv = "\<lparr>dev_read = \<lambda>_. None, dev_write = \<lambda>_. None\<rparr> :: sysst devsw"
  have n: "sint (ld32 (pm (ex_call 23)) 16) = 23" "sint (ld32 (pm (ex_call 0)) 16) = 0" by (simp_all add: c ld32_def)
  show ?thesis
    using syscall_dispatch [OF c(1) [of 23] c(2) [of 23] refl, of ?dv 0 0] syscall_dispatch [OF c(1) [of 0] c(2) [of 0] refl, of ?dv 0 0]
    unfolding c(3) by (auto simp: n)
qed

end
