(* ===== verification/Fd.thy ===== *)
theory Fd
  imports Syscall_Proofs
begin

text \<open>
  The descriptors of all processes against the file table. Most of the kernel touches neither; that part is
  shown once, operation by operation, as \<open>inert\<close>. The operations that do touch them are the business of
  \<^verbatim>\<open>Fd_Proofs\<close>.
\<close>

section \<open>What inert V D code leaves alone\<close>

text \<open>
  \<open>fdv\<close> is what the bookkeeping of descriptors depends on: the reference count and the type of every file,
  the descriptors of every process and who runs. \<open>deads\<close> are the processes that may not have descriptors.
\<close>

definition fdv :: "'z filest_scheme \<Rightarrow> (nat \<Rightarrow> int \<times> ftype) \<times> (nat \<Rightarrow> nat \<Rightarrow> nat option) \<times> nat option" where
  "fdv s = ((\<lambda>f. (f_ref (files s f), f_type (files s f))), (\<lambda>p. ofile (procs s p)), curr_proc s)"

definition deads :: "'z filest_scheme \<Rightarrow> nat set" where
  "deads s = {p. \<not> alive (procs s p)}"

definition fdfix :: "(nat \<Rightarrow> int \<times> ftype) \<times> (nat \<Rightarrow> nat \<Rightarrow> nat option) \<times> nat option \<Rightarrow> nat set \<Rightarrow> 'z filest_scheme \<Rightarrow> bool" where
  "fdfix V D s \<longleftrightarrow> fdv s = V \<and> deads s \<subseteq> D"

text \<open>The panics of \<^verbatim>\<open>file.c\<close> that a wrong reference count or a file without a type would cause.\<close>

definition fd_panics :: "string set" where
  "fd_panics = {''filedup'', ''fileclose'', ''fileread'', ''filewrite''}"

text \<open>
  \<open>fdspec P m Q S\<close>: from \<open>P\<close>, \<open>m\<close> returns with \<open>Q\<close>, goes to sleep in \<open>S\<close>, or stops, but not with one of these
  panics. Code is \<open>inert\<close> when it keeps what is fixed by \<open>V\<close> and \<open>D\<close>.
\<close>

definition fdspec :: "('s \<Rightarrow> bool) \<Rightarrow> ('s, 'a) kop \<Rightarrow> ('a \<Rightarrow> 's \<Rightarrow> bool) \<Rightarrow> ('s \<Rightarrow> bool) \<Rightarrow> bool" where
  "fdspec P m Q S \<longleftrightarrow> (\<forall>s. P s \<longrightarrow> (case m s of Ret a s' \<Rightarrow> Q a s' | Panic e \<Rightarrow> e \<notin> fd_panics | Fault e \<Rightarrow> True | Sleeps c s' \<Rightarrow> S s'))"

definition inert :: "(nat \<Rightarrow> int \<times> ftype) \<times> (nat \<Rightarrow> nat \<Rightarrow> nat option) \<times> nat option \<Rightarrow> nat set \<Rightarrow> ('z filest_scheme, 'a) kop \<Rightarrow> bool" where
  "inert V D m \<longleftrightarrow> fdspec (fdfix V D) m (\<lambda>_. fdfix V D) (fdfix V D)"

named_theorems inert_rules

lemma fdspecI:
  assumes "\<And>s a s'. P s \<Longrightarrow> m s = Ret a s' \<Longrightarrow> Q a s'" and "\<And>s c s'. P s \<Longrightarrow> m s = Sleeps c s' \<Longrightarrow> S s'"
    and "\<And>s e. P s \<Longrightarrow> m s = Panic e \<Longrightarrow> e \<notin> fd_panics"
  shows "fdspec P m Q S"
  using assms by (auto simp: fdspec_def split: outcome.split)

lemma fdspecD:
  assumes "fdspec P m Q S" and "P s"
  shows "m s = Ret a s' \<Longrightarrow> Q a s'" and "m s = Sleeps c s' \<Longrightarrow> S s'" and "m s = Panic e \<Longrightarrow> e \<notin> fd_panics"
  using assms unfolding fdspec_def by (metis outcome.simps)+

lemma fdspec_basic:
  "(\<And>s. P s \<Longrightarrow> Q a s) \<Longrightarrow> fdspec P (kreturn a) Q S" "(\<And>s. P s \<Longrightarrow> Q a s) \<Longrightarrow> fdspec P (Ret a) Q S"
  "(\<And>s. P s \<Longrightarrow> Q (g s) s) \<Longrightarrow> fdspec P (kget g) Q S" "fdspec P (fault e) Q S"
  "(\<And>s. P s \<Longrightarrow> S s) \<Longrightarrow> fdspec P (sleep_on c) Q S" "e \<notin> fd_panics \<Longrightarrow> fdspec P (panic e) Q S"
  by (auto intro!: fdspecI)

lemma fdspec_kmod: "(\<And>s. P s \<Longrightarrow> Q () (u s)) \<Longrightarrow> fdspec P (kmod u) Q S"
  by (auto intro!: fdspecI)

lemma fdspec_kbind:
  assumes "fdspec P m R S" and "\<And>a. fdspec (R a) (f a) Q S"
  shows "fdspec P (kbind m f) Q S"
proof (rule fdspecI)
  fix s assume P: "P s"
  note m = fdspecD [OF assms(1) P]
  show "Q b s'" if "kbind m f s = Ret b s'" for b s'
    using that m(1) fdspecD(1) [OF assms(2)] by (auto elim!: kbind_eq_RetE)
  show "S s'" if "kbind m f s = Sleeps c s'" for c s'
    using that m(1,2) fdspecD(2) [OF assms(2)] by (auto elim!: kbind_eq_SleepsE)
  show "e \<notin> fd_panics" if "kbind m f s = Panic e" for e
    using that m(1,3) fdspecD(3) [OF assms(2)] by (cases "m s") auto
qed

lemma fdspec_kget:
  assumes "\<And>s. P s \<Longrightarrow> fdspec P (f (g s)) Q S"
  shows "fdspec P (kbind (kget g) f) Q S"
  using fdspecD [OF assms] by (intro fdspecI) simp_all

lemma fdspec_weaken: "fdspec P' m Q' S' \<Longrightarrow> (\<And>s. P s \<Longrightarrow> P' s) \<Longrightarrow> (\<And>a s. Q' a s \<Longrightarrow> Q a s) \<Longrightarrow> (\<And>s. S' s \<Longrightarrow> S s) \<Longrightarrow> fdspec P m Q S"
  by (rule fdspecI) (blast dest: fdspecD)+

lemma inert_basic [inert_rules]:
  "inert V D (kreturn a)" "inert V D (Ret a)" "inert V D (kget g)" "inert V D (fault e)" "inert V D (sleep_on c)"
  unfolding inert_def by (intro fdspec_basic; simp)+

lemma inert_panic [inert_rules]: "e \<notin> fd_panics \<Longrightarrow> inert V D (panic e)"
  unfolding inert_def by (rule fdspec_basic(6))

lemma inert_kmod: "(\<And>s. fdfix V D s \<Longrightarrow> fdfix V D (g s)) \<Longrightarrow> inert V D (kmod g)"
  unfolding inert_def by (rule fdspec_kmod)

lemma inert_kget_bind: "(\<And>s. fdfix V D s \<Longrightarrow> inert V D (f (g s))) \<Longrightarrow> inert V D (kbind (kget g) f)"
  unfolding inert_def by (rule fdspec_kget)

lemma inert_kbind [inert_rules]: "inert V D m \<Longrightarrow> (\<And>a. inert V D (f a)) \<Longrightarrow> inert V D (kbind m f)"
  unfolding inert_def by (rule fdspec_kbind)

lemma inert_if [inert_rules]: "(b \<Longrightarrow> inert V D m) \<Longrightarrow> (\<not> b \<Longrightarrow> inert V D n) \<Longrightarrow> inert V D (if b then m else n)"
  by simp

lemma inert_option [inert_rules]:
  "(x = None \<Longrightarrow> inert V D m) \<Longrightarrow> (\<And>y. x = Some y \<Longrightarrow> inert V D (f y)) \<Longrightarrow> inert V D (case x of None \<Rightarrow> m | Some y \<Rightarrow> f y)"
  by (cases x) auto

lemma inert_prod [inert_rules]: "(\<And>a b. x = (a, b) \<Longrightarrow> inert V D (f a b)) \<Longrightarrow> inert V D (case x of (a, b) \<Rightarrow> f a b)"
  by (cases x) auto

lemma inert_sum [inert_rules]:
  "(\<And>a. x = Inl a \<Longrightarrow> inert V D (f a)) \<Longrightarrow> (\<And>b. x = Inr b \<Longrightarrow> inert V D (g b)) \<Longrightarrow> inert V D (case x of Inl a \<Rightarrow> f a | Inr b \<Rightarrow> g b)"
  by (cases x) auto

lemma inert_nat [inert_rules]:
  "(x = 0 \<Longrightarrow> inert V D m) \<Longrightarrow> (\<And>k. x = Suc k \<Longrightarrow> inert V D (f k)) \<Longrightarrow> inert V D (case x of 0 \<Rightarrow> m | Suc k \<Rightarrow> f k)"
  by (cases x) auto

lemma inert_kfor [inert_rules]: "(\<And>x. x \<in> set xs \<Longrightarrow> inert V D (f x)) \<Longrightarrow> inert V D (kfor f xs)"
  by (induction xs) (auto intro!: inert_rules)

lemma fd_panics_iff [simp]: "e \<in> fd_panics \<longleftrightarrow> e = ''filedup'' \<or> e = ''fileclose'' \<or> e = ''fileread'' \<or> e = ''filewrite''"
  by (simp add: fd_panics_def)

section \<open>Memory\<close>

text \<open>The memory layers keep everything above them.\<close>

lemma fdv_kmore: "kmem.more s' = kmem.more s \<Longrightarrow> fdv s' = fdv s \<and> deads s' = deads s"
  by (cases s; cases s') (simp add: fdv_def deads_def curr_proc_def)

lemma fdv_vmore: "vmem.more s' = vmem.more s \<Longrightarrow> fdv s' = fdv s \<and> deads s' = deads s"
  by (cases s; cases s') (simp add: fdv_def deads_def curr_proc_def)

lemma inert_kmore: "(\<And>s. kmem.more (g s) = kmem.more s) \<Longrightarrow> inert V D (kmod g)"
  by (intro inert_kmod) (metis fdfix_def fdv_kmore)

lemma inert_vmore: "(\<And>s. vmem.more (g s) = vmem.more s) \<Longrightarrow> inert V D (kmod g)"
  by (intro inert_kmod) (metis fdfix_def fdv_vmore)

lemma inert_buddy [inert_rules]: "inert V D (unmark_blk d b)" "inert V D (mark_blk d b)"
  unfolding unmark_blk_def mark_blk_def Let_def by (intro inert_rules inert_kmore; simp)+

lemma inert_get_blk [inert_rules]: "inert V D (get_blk d)"
  unfolding get_blk_def by (intro inert_rules; simp)

lemma inert_kfree_blk [inert_rules]: "inert V D (kfree_blk mem d)"
proof (induction mem d rule: kfree_blk.induct)
  case (1 mem d)
  show ?case by (subst kfree_blk.simps, unfold Let_def) (intro inert_rules "1.IH"; auto)
qed

lemma inert_kmalloc_blk [inert_rules]: "inert V D (kmalloc_blk d)"
proof (induction d rule: kmalloc_blk.induct)
  case (1 d)
  show ?case by (subst kmalloc_blk.simps) (intro inert_rules "1.IH"; auto)
qed

lemma inert_alloc [inert_rules]:
  "inert V D (kmalloc d)" "inert V D (kfree p d)" "inert V D alloc_page" "inert V D (free_page p)" "inert V D (get_order v)"
  unfolding alloc_page_def free_page_def kmalloc_def kfree_def get_order_def Let_def by (intro inert_rules; simp)+

lemma inert_mem [inert_rules]:
  "inert V D (load a)" "inert V D (store a v)" "inert V D (zero_mem a n)" "inert V D (move_mem a b l)" "inert V D (switchuvm c pd)" "inert V D (put_mem a bs)"
  "inert V D (kpt_put a)" "inert V D (kpt_free a)" "inert V D kpt_alloc"
  unfolding load_def store_def zero_mem_def move_mem_def switchuvm_def put_mem_def kpt_put_def kpt_free_def kpt_alloc_def
  by (intro inert_rules inert_vmore; simp)+

lemma inert_walkpgdir [inert_rules]: "inert V D (walkpgdir pd va al)"
  unfolding walkpgdir_def Let_def by (intro inert_rules)

lemma inert_map_loop [inert_rules]: "inert V D (map_loop n pd a pa ap)"
  by (induction n arbitrary: a pa; subst map_loop.simps) (intro inert_rules; auto)+

lemma inert_mappages [inert_rules]: "inert V D (mappages pd va sz pa ap)"
  unfolding mappages_def Let_def by (intro inert_rules)

lemma inert_dealloc_loop [inert_rules]: "inert V D (dealloc_loop pd a hi)"
proof (induction pd a hi rule: dealloc_loop.induct)
  case (1 pd a hi)
  show ?case by (subst dealloc_loop.simps) (intro inert_rules "1.IH"; auto)
qed

lemma inert_alloc_loop [inert_rules]: "inert V D (alloc_loop pd as)"
  by (induction "as") (auto intro!: inert_rules)

lemma inert_uvm [inert_rules]: "inert V D (deallocuvm pd hi lo)" "inert V D (allocuvm pd lo hi)"
  unfolding deallocuvm_def allocuvm_def by (intro inert_rules)+

lemma inert_freevm [inert_rules]: "inert V D (freevm pd)" "inert V D (clearpteu pd a)" "inert V D (uva2ka pd a)"
  unfolding freevm_def free_table_def clearpteu_def uva2ka_def by (intro inert_rules; simp)+

lemma inert_copy_loop [inert_rules]: "inert V D (copy_loop pd d is)"
  by (induction "is") (auto intro!: inert_rules)

lemma inert_copyuvm [inert_rules]: "inert V D (copyuvm pd sz)"
  unfolding copyuvm_def by (intro inert_rules)

section \<open>Processes\<close>

lemma inert_upd_proc:
  assumes "\<And>q. ofile (g q) = ofile q" and "\<And>q. p \<notin> D \<Longrightarrow> alive q \<Longrightarrow> alive (g q)"
  shows "inert V D (upd_proc p g)"
  unfolding upd_proc_def
proof (rule inert_kmod)
  fix s assume s: "fdfix V D s"
  have "alive (g (procs s p))" if "p \<notin> D" using assms(2) that s by (auto simp: fdfix_def deads_def)
  then show "fdfix V D (s\<lparr>procs := (procs s)(p := g (procs s p))\<rparr>)"
    using s assms(1) by (auto simp: fdfix_def fdv_def deads_def curr_proc_def)
qed

lemma inert_with_curr [inert_rules]: "(\<And>p. inert V D (f p)) \<Longrightarrow> inert V D (with_curr f)"
  unfolding with_curr_def by (intro inert_rules)

lemma inert_wakeup [inert_rules]: "inert V D (wakeup ch)" "inert V D (wakeup1 ch)" "inert V D (sleep ch)"
  unfolding wakeup_def wakeup1_def wake_one_def sleep_def sched_def
  by (intro inert_rules inert_upd_proc; simp add: alive_def)+

lemma inert_kill [inert_rules]: "inert V D (kill n)" "inert V D (growproc n)"
  unfolding kill_def growproc_def Let_def by (intro inert_rules inert_upd_proc; simp add: alive_def)+

lemma fdfix_dead: "fdfix V D s \<Longrightarrow> \<not> alive (procs s p) \<Longrightarrow> p \<in> D"
  by (auto simp: fdfix_def deads_def)

text \<open>A dead entry of the table may change its state to another dead one.\<close>

lemma inert_reap: "p \<in> D \<Longrightarrow> inert V D (reap p)"
  unfolding reap_def by (intro inert_rules inert_upd_proc; simp)

lemma inert_wait_scan [inert_rules]: "inert V D (wait_scan cp is hk)"
proof (induction "is" arbitrary: hk)
  case (Cons p "is")
  show ?case
    unfolding wait_scan.simps
    by (intro inert_kget_bind inert_rules inert_reap Cons.IH) (auto intro: fdfix_dead simp: alive_def)
qed (auto intro!: inert_rules)

lemma inert_wait [inert_rules]: "inert V D wait"
  unfolding wait_def by (intro inert_rules)

lemma inert_nextpid [inert_rules]: "inert V D (kmod (\<lambda>s. s\<lparr>nextpid := n s\<rparr>))"
  by (rule inert_kmod) (simp add: fdfix_def fdv_def deads_def curr_proc_def)

lemma inert_allocproc [inert_rules]: "inert V D (allocproc tr fr)"
  unfolding allocproc_def setup_stack_def Let_def
proof (rule inert_kget_bind, goal_cases)
  case (1 s)
  have "p \<in> D" if "find_proc (\<lambda>q. pstate q = UNUSED) [0..<64] (procs s) = Some p" for p
    using find_proc_Some [OF that] fdfix_dead [OF 1, of p] by (simp add: alive_def)
  then show ?case by (intro inert_rules inert_upd_proc) simp_all
qed

section \<open>Disk\<close>

lemma fdfix_upd [simp]:
  "fdfix V D (s\<lparr>bufs := x1\<rparr>) = fdfix V D s" "fdfix V D (s\<lparr>lru := x2\<rparr>) = fdfix V D s"
  "fdfix V D (s\<lparr>memdisk := x3\<rparr>) = fdfix V D s" "fdfix V D (s\<lparr>dtrace := x4\<rparr>) = fdfix V D s"
  "fdfix V D (s\<lparr>log_busy := x5\<rparr>) = fdfix V D s" "fdfix V D (s\<lparr>lh_n := x6\<rparr>) = fdfix V D s"
  "fdfix V D (s\<lparr>lh_sector := x7\<rparr>) = fdfix V D s" "fdfix V D (s\<lparr>log_start := x8\<rparr>) = fdfix V D s"
  "fdfix V D (s\<lparr>log_size := x9\<rparr>) = fdfix V D s" "fdfix V D (s\<lparr>log_dev := x10\<rparr>) = fdfix V D s"
  "fdfix V D (s\<lparr>inodes := x11\<rparr>) = fdfix V D s" "fdfix V D (s\<lparr>pipes := x12\<rparr>) = fdfix V D s"
  by (simp_all add: fdfix_def fdv_def deads_def curr_proc_def)

lemma inert_buf [inert_rules]:
  "inert V D (upd_buf b g)" "inert V D (disk_write d v)" "inert V D (kmod (\<lambda>s. s\<lparr>lru := L s\<rparr>))"
  "inert V D (kmod (\<lambda>s. s\<lparr>lh_n := N s\<rparr>))" "inert V D (kmod (\<lambda>s. s\<lparr>lh_sector := S s\<rparr>))"
  "inert V D (kmod (\<lambda>s. s\<lparr>log_busy := B s\<rparr>))" "inert V D (upd_inode ip h)" "inert V D (upd_pipe p k)"
  unfolding upd_buf_def disk_write_def upd_inode_def upd_pipe_def by (intro inert_kmod; simp)+

lemma inert_bio [inert_rules]:
  "inert V D (bread dev d)" "inert V D (bwrite b)" "inert V D (brelse b)" "inert V D (buf_data b)" "inert V D (set_data b v)" "inert V D (mark_dirty b)"
  unfolding bread_def bget_def iderw_def bwrite_def brelse_def buf_data_def set_data_def mark_dirty_def
  by (intro inert_rules; simp)+

lemma inert_log [inert_rules]:
  "inert V D (log_write b)" "inert V D begin_trans" "inert V D (install_one i)" "inert V D write_head"
  unfolding log_write_def begin_trans_def install_one_def write_head_def set_sector_def get_sector_def
  by (intro inert_rules; simp)+

lemma inert_commit [inert_rules]: "inert V D commit_trans"
  unfolding commit_trans_def install_trans_def by (intro inert_rules)

section \<open>Files on disk\<close>

lemma inert_bzero [inert_rules]: "inert V D (bzero dev b)"
  unfolding bzero_def by (intro inert_rules)

lemma inert_balloc_scan [inert_rules]: "inert V D (balloc_scan dev sb ks)"
  by (induction ks; subst balloc_scan.simps; intro inert_rules) simp_all

lemma inert_blocks [inert_rules]: "inert V D (readsb dev)" "inert V D (balloc dev)" "inert V D (bfree dev b)"
  unfolding readsb_def balloc_def bfree_def Let_def by (intro inert_rules; simp)+

lemma inert_inodes [inert_rules]: "inert V D (iget dev inum)" "inert V D (iupdate ip)" "inert V D (idup ip)" "inert V D (ilock r)" "inert V D (iunlock r)"
  unfolding iget_def iupdate_def idup_def ilock_def iunlock_def Let_def by (intro inert_rules; simp)+

lemma inert_ialloc_scan [inert_rules]: "inert V D (ialloc_scan dev ty is)"
  by (induction "is"; simp only: ialloc_scan.simps Let_def; intro inert_rules) simp_all

lemma inert_bmap [inert_rules]:
  "inert V D (ialloc dev ty)" "inert V D (bmap ip bn)" "inert V D (itrunc ip)" "inert V D (stati ip)"
  unfolding ialloc_def bmap_def itrunc_def trunc_direct_def trunc_indirect_def set_addr_def stati_def Let_def
  by (intro inert_rules; simp)+

lemma inert_iput [inert_rules]: "inert V D (iput ip)" "inert V D (iunlockput ip)"
  unfolding iput_def iunlockput_def Let_def by (intro inert_rules; simp)+

lemma inert_read_loop [inert_rules]: "inert V D (read_loop ip off n)"
proof (induction ip off n rule: read_loop.induct)
  case (1 ip off n)
  show ?case by (subst read_loop.simps) (intro inert_rules "1.IH"; auto)
qed

lemma inert_write_loop [inert_rules]: "inert V D (write_loop ip src off n)"
proof (induction ip src off n rule: write_loop.induct)
  case (1 ip src off n)
  show ?case by (subst write_loop.simps) (intro inert_rules "1.IH"; auto)
qed

text \<open>The devices that the switch names must be inert themselves; those of the console are.\<close>

definition inert_dev :: "(nat \<Rightarrow> int \<times> ftype) \<times> (nat \<Rightarrow> nat \<Rightarrow> nat option) \<times> nat option \<Rightarrow> nat set \<Rightarrow> 'z filest_scheme devsw \<Rightarrow> bool" where
  "inert_dev V D dv \<longleftrightarrow> (\<forall>m f ip n. dev_read dv m = Some f \<longrightarrow> inert V D (f ip n))
     \<and> (\<forall>m f ip src n. dev_write dv m = Some f \<longrightarrow> inert V D (f ip src n))"

lemma inert_devD:
  "inert_dev V D dv \<Longrightarrow> dev_read dv m = Some f \<Longrightarrow> inert V D (f ip n)"
  "inert_dev V D dv \<Longrightarrow> dev_write dv m = Some h \<Longrightarrow> inert V D (h ip src n)"
  by (simp_all add: inert_dev_def)

lemma inert_readi [inert_rules]: "inert_dev V D dv \<Longrightarrow> inert V D (readi dv ip off n)"
  unfolding readi_def Let_def by (intro inert_rules) (auto dest: inert_devD)

lemma inert_writei [inert_rules]: "inert_dev V D dv \<Longrightarrow> inert V D (writei dv ip src off n)"
  unfolding writei_def by (intro inert_rules) (auto dest: inert_devD)

lemma inert_read_entry [inert_rules]: "inert_dev V D dv \<Longrightarrow> inert V D (read_entry dv dp off)"
  unfolding read_entry_def by (intro inert_rules) simp_all

lemma inert_dirlookup_loop [inert_rules]: "inert_dev V D dv \<Longrightarrow> inert V D (dirlookup_loop dv dp name ks)"
  by (induction ks; subst dirlookup_loop.simps; intro inert_rules) simp_all

lemma inert_empty_entry [inert_rules]: "inert_dev V D dv \<Longrightarrow> inert V D (empty_entry dv dp ks lst)"
  by (induction ks; subst empty_entry.simps; intro inert_rules) simp_all

lemma inert_dirlookup [inert_rules]: "inert_dev V D dv \<Longrightarrow> inert V D (dirlookup dv dp name)"
  unfolding dirlookup_def by (intro inert_rules) simp_all

lemma inert_dirlink [inert_rules]: "inert_dev V D dv \<Longrightarrow> inert V D (dirlink dv dp name inum)"
  unfolding dirlink_def by (intro inert_rules) simp_all

lemma inert_namex_loop [inert_rules]: "inert_dev V D dv \<Longrightarrow> inert V D (namex_loop dv ip path par name)"
proof (induction dv ip path par name rule: namex_loop.induct)
  case (1 dv ip path par name)
  show ?case by (subst namex_loop.simps) (intro inert_rules "1.IH"; use "1.prems" in auto)
qed

lemma inert_namei [inert_rules]:
  "inert_dev V D dv \<Longrightarrow> inert V D (namei dv path)" "inert_dev V D dv \<Longrightarrow> inert V D (nameiparent dv path name)"
  unfolding namei_def nameiparent_def namex_def by (intro inert_rules; simp)+

section \<open>The console\<close>

lemma inert_cons [inert_rules]: "inert V D (kmod (\<lambda>s :: 'z consst_scheme. s\<lparr>uart_out := u s\<rparr>))" "inert V D (upd_input g)"
  unfolding upd_input_def by (rule inert_kmod; simp add: fdfix_def fdv_def deads_def curr_proc_def)+

lemma inert_uartputc [inert_rules]: "inert V D (uartputc c)"
  unfolding uartputc_def by (intro inert_rules)

lemma inert_consputc [inert_rules]: "inert V D (consputc c)"
  unfolding consputc_def by (intro inert_rules) simp_all

lemma inert_printint [inert_rules]: "inert V D (printint x b sg)"
  unfolding printint_def by (intro inert_rules)

lemma inert_args [inert_rules]:
  "inert V D m \<Longrightarrow> (\<And>x as'. as = PInt x # as' \<Longrightarrow> inert V D (f x as')) \<Longrightarrow> inert V D (case as of PInt x # as' \<Rightarrow> f x as' | _ \<Rightarrow> m)"
  "inert V D m \<Longrightarrow> (\<And>t as'. as = PStr t # as' \<Longrightarrow> inert V D (g t as')) \<Longrightarrow> inert V D (case as of PStr t # as' \<Rightarrow> g t as' | _ \<Rightarrow> m)"
  by (auto split: list.split parg.split)

lemma inert_cprintf_loop [inert_rules]: "inert V D (cprintf_loop cs as)"
  by (induction cs "as" rule: cprintf_loop.induct; simp only: cprintf_loop.simps; intro inert_rules) simp_all

lemma inert_cprintf [inert_rules]: "inert V D (cprintf fmt as)"
  unfolding cprintf_def by (intro inert_rules) simp_all

lemma inert_console: "inert_dev V D console_devsw"
  unfolding inert_dev_def console_devsw_def consoleread_def consoleread_from_def consolewrite_def
  by (auto intro!: inert_rules split: if_splits)

section \<open>Programs\<close>

lemma inert_user_pa [inert_rules]: "inert V D (user_pa va)"
  unfolding user_pa_def by (intro inert_rules)

lemma inert_user_bytes [inert_rules]: "inert V D (user_bytes va n)"
  by (induction n arbitrary: va; subst user_bytes.simps; intro inert_rules) simp_all

lemma inert_put_user [inert_rules]: "inert V D (put_user va cs)"
  by (induction cs arbitrary: va; subst put_user.simps; intro inert_rules) simp_all

lemma inert_loaduvm_loop [inert_rules]: "inert_dev V D dv \<Longrightarrow> inert V D (loaduvm_loop dv pd addr ip fo sz is)"
  by (induction "is"; simp only: loaduvm_loop.simps Let_def; intro inert_rules) simp_all

lemma inert_loaduvm [inert_rules]: "inert_dev V D dv \<Longrightarrow> inert V D (loaduvm dv pd addr ip fo sz)"
  unfolding loaduvm_def by (intro inert_rules) simp_all

lemma inert_copyout_bytes [inert_rules]: "inert V D (copyout_bytes pd va bs)"
proof (induction pd va bs rule: copyout_bytes.induct)
  case (1 pd va bs)
  show ?case by (subst copyout_bytes.simps, unfold Let_def) (intro inert_rules "1.IH"; auto)
qed

lemma inert_exec_segments [inert_rules]: "inert_dev V D dv \<Longrightarrow> inert V D (exec_segments dv pd ip k off sz)"
  by (induction k arbitrary: off sz; simp only: exec_segments.simps Let_def; intro inert_rules) simp_all

lemma inert_push_args [inert_rules]: "inert V D (push_args pd ss argc sp)"
  by (induction ss arbitrary: argc sp; simp only: push_args.simps Let_def; intro inert_rules) simp_all

lemma inert_exec_bad [inert_rules]: "inert V D (exec_bad pd ip)"
  unfolding exec_bad_def by (intro inert_rules)

lemma inert_exec_stack [inert_rules]: "inert V D (exec_stack path argv elf pd sz)"
  unfolding exec_stack_def Let_def by (intro inert_rules inert_upd_proc) (simp_all add: alive_def)

lemma inert_exec [inert_rules]: "inert_dev V D dv \<Longrightarrow> inert V D (exec dv path argv)"
  unfolding exec_def Let_def by (intro inert_rules) simp_all

section \<open>System calls\<close>

lemma inert_proc_sz [inert_rules]: "inert V D proc_sz" "inert V D (fetchint a)" "inert V D (argint n)"
  unfolding proc_sz_def fetchint_def argint_def by (intro inert_rules; simp)+

lemma inert_str_scan [inert_rules]: "inert V D (str_scan a n)"
  by (induction n arbitrary: a; subst str_scan.simps; intro inert_rules) simp_all

lemma inert_arg [inert_rules]: "inert V D (fetchstr a)" "inert V D (argptr n sz)" "inert V D (argstr n)" "inert V D (argfd n)"
  unfolding fetchstr_def argptr_def argstr_def argfd_def proc_sz_def by (intro inert_rules)+

lemma inert_fetch_argv [inert_rules]: "inert V D (fetch_argv a is)"
  by (induction "is"; subst fetch_argv.simps; intro inert_rules) simp_all

lemma inert_isdirempty_loop [inert_rules]: "inert_dev V D dv \<Longrightarrow> inert V D (isdirempty_loop dv dp ks)"
  by (induction ks; subst isdirempty_loop.simps; intro inert_rules) simp_all

lemma inert_nlink [inert_rules]: "inert V D (add_nlink ip d)" "inert V D (link_bad ip)" "inert V D (unlink_bad ip)"
  unfolding link_bad_def unlink_bad_def add_nlink_def by (intro inert_rules)+

lemma inert_isdirempty [inert_rules]: "inert_dev V D dv \<Longrightarrow> inert V D (isdirempty dv dp)"
  unfolding isdirempty_def by (intro inert_rules)

lemma inert_link_to [inert_rules]: "inert_dev V D dv \<Longrightarrow> inert V D (link_to dv ip new)"
  unfolding link_to_def by (intro inert_rules)

lemma inert_create [inert_rules]: "inert_dev V D dv \<Longrightarrow> inert V D (create dv path ty mj mn)"
  unfolding create_def by (intro inert_rules) simp_all

lemma inert_sys_link [inert_rules]: "inert_dev V D dv \<Longrightarrow> inert V D (sys_link dv)"
  unfolding sys_link_def by (intro inert_rules)

lemma inert_sys_unlink [inert_rules]: "inert_dev V D dv \<Longrightarrow> inert V D (sys_unlink dv)"
  unfolding sys_unlink_def by (intro inert_rules) simp_all

lemma inert_sys_mkdir [inert_rules]: "inert_dev V D dv \<Longrightarrow> inert V D (sys_mkdir dv)"
  unfolding sys_mkdir_def by (intro inert_rules)

lemma inert_sys_mknod [inert_rules]: "inert_dev V D dv \<Longrightarrow> inert V D (sys_mknod dv)"
  unfolding sys_mknod_def by (intro inert_rules)

lemma inert_sys_exec [inert_rules]: "inert_dev V D dv \<Longrightarrow> inert V D (sys_exec dv)"
  unfolding sys_exec_def by (intro inert_rules)

lemma inert_sys_chdir [inert_rules]: "inert_dev V D dv \<Longrightarrow> inert V D (sys_chdir dv)"
  unfolding sys_chdir_def by (intro inert_rules inert_upd_proc) (simp_all add: alive_def)

lemma inert_sys_proc [inert_rules]:
  "inert V D sys_kill" "inert V D sys_getpid" "inert V D sys_sbrk" "inert V D sys_sleep" "inert V D sys_uptime"
  unfolding sys_kill_def sys_getpid_def sys_sbrk_def sys_sleep_def sys_sleep_from_def sys_uptime_def by (intro inert_rules)+

lemma inert_count_on [inert_rules]: "inert V D (count_on c is acc)"
  by (induction "is" arbitrary: acc; simp only: count_on.simps get_enabled_def; intro inert_rules) simp_all

lemma inert_sys_cpuutil [inert_rules]: "inert V D sys_cpuutil"
  unfolding sys_cpuutil_def cpuutil_def get_enabled_def
  by (intro inert_rules inert_kmod) (simp add: fdfix_def fdv_def deads_def curr_proc_def)

lemma inert_put_stat [inert_rules]: "inert V D (put_stat p st)" "inert V D (filestat f)"
  unfolding put_stat_def filestat_def by (intro inert_rules)+

lemma inert_sys_fstat [inert_rules]: "inert V D sys_fstat"
  unfolding sys_fstat_def by (intro inert_rules)

text \<open>Reading and writing move the offset of a file; what they need is that the file has a type.\<close>

lemma inert_offset [inert_rules]: "inert V D (upd_file f (\<lambda>q. q\<lparr>f_off := h q\<rparr>))"
  unfolding upd_file_def by (rule inert_kmod) (auto simp: fdfix_def fdv_def deads_def curr_proc_def)

lemma inert_pipe_io [inert_rules]: "inert V D (pipewrite p cs n)" "inert V D (piperead p n)" "inert V D (pipeclose p w)"
  unfolding pipewrite_def piperead_def pipeclose_def Let_def by (intro inert_rules)+

lemma inert_filewrite_loop [inert_rules]: "inert_dev V D dv \<Longrightarrow> inert V D (filewrite_loop dv f src i n)"
proof (induction dv f src i n rule: filewrite_loop.induct)
  case (1 dv f src i n)
  show ?case by (subst filewrite_loop.simps, unfold Let_def) (intro inert_rules "1.IH"; use "1.prems" in auto)
qed

lemma inert_fileread:
  assumes "inert_dev V D dv" and "snd (fst V f) \<noteq> FD_NONE"
  shows "inert V D (fileread dv f n)"
  unfolding fileread_def
proof (rule inert_kget_bind, goal_cases)
  case (1 s)
  then have "f_type (files s f) \<noteq> FD_NONE" using assms(2) by (auto simp: fdfix_def fdv_def)
  then show ?case using assms(1) by (cases "f_type (files s f)") (auto intro!: inert_rules)
qed

lemma inert_filewrite:
  assumes "inert_dev V D dv" and "snd (fst V f) \<noteq> FD_NONE"
  shows "inert V D (filewrite dv f src n)"
  unfolding filewrite_def
proof (rule inert_kget_bind, goal_cases)
  case (1 s)
  then have "f_type (files s f) \<noteq> FD_NONE" using assms(2) by (auto simp: fdfix_def fdv_def)
  then show ?case using assms(1) by (cases "f_type (files s f)") (auto intro!: inert_rules)
qed

end
