(* ===== verification/Fd_Proofs.thy ===== *)
theory Fd_Proofs
  imports Fd
begin

text \<open>
  The reference counts of the file table: every system call leaves each count equal to the number of
  descriptors, over all processes, that name the file. A system call is run on its \<open>view\<close>, the part of the
  state that the counts depend on; the operations of \<^verbatim>\<open>file.c\<close> become updates of the view, and everything
  else leaves it alone (\<open>inert\<close>).
\<close>

section \<open>The invariant\<close>

definition holders :: "(nat \<Rightarrow> nat \<Rightarrow> nat option) \<Rightarrow> nat \<Rightarrow> (nat \<times> nat) set" where
  "holders tab f = {(p, fd). tab p fd = Some f}"

text \<open>
  The invariant on a view: \<open>X\<close> counts the references that the running call has in hand, \<open>T\<close> has the files it
  has got and not yet given a type, and the processes of \<open>D\<close> have no descriptors.
\<close>

definition vok :: "(nat \<Rightarrow> int) \<Rightarrow> nat set \<Rightarrow> (nat \<Rightarrow> int \<times> ftype) \<Rightarrow> (nat \<Rightarrow> nat \<Rightarrow> nat option) \<Rightarrow> nat option \<Rightarrow> nat set \<Rightarrow> bool" where
  "vok X T F tab c D \<longleftrightarrow>
     (\<forall>f<NFILE. fst (F f) = int (card (holders tab f)) + X f)
     \<and> (\<forall>f<NFILE. snd (F f) \<noteq> FD_NONE \<longleftrightarrow> f \<notin> T \<and> fst (F f) > 0)
     \<and> (\<forall>p fd f. tab p fd = Some f \<longrightarrow> p < NPROC \<and> fd < NOFILE \<and> f < NFILE)
     \<and> (\<forall>p\<in>D. tab p = Map.empty)
     \<and> (\<forall>cp. c = Some cp \<longrightarrow> cp < NPROC \<and> cp \<notin> D)"

text \<open>
  The invariant between system calls: the count of a file is the number of its descriptors, the files with a
  type are those with a descriptor, descriptors are in range, only live processes have any, and the running
  process is a live entry of the table.
\<close>

definition fd_ok :: "'z filest_scheme \<Rightarrow> bool" where
  "fd_ok s \<longleftrightarrow> vok (\<lambda>_. 0) {} (\<lambda>f. (f_ref (files s f), f_type (files s f))) (\<lambda>p. ofile (procs s p)) (curr_proc s) (deads s)"

text \<open>The state in which \<^verbatim>\<open>exit\<close> may sleep: the caller still names one file that it has already closed.\<close>

definition fd_closing :: "'z filest_scheme \<Rightarrow> bool" where
  "fd_closing s \<longleftrightarrow> (\<exists>f. vok ((\<lambda>_. 0)(f := -1)) {} (\<lambda>f. (f_ref (files s f), f_type (files s f))) (\<lambda>p. ofile (procs s p)) (curr_proc s) (deads s))"

text \<open>The state that \<^verbatim>\<open>exit\<close> leaves for the scheduler: the same counts, and the caller has no descriptor any more.\<close>

definition fd_left :: "'z filest_scheme \<Rightarrow> bool" where
  "fd_left s \<longleftrightarrow> vok (\<lambda>_. 0) {} (\<lambda>f. (f_ref (files s f), f_type (files s f))) (\<lambda>p. ofile (procs s p)) None (deads s)
     \<and> (\<forall>cp. curr_proc s = Some cp \<longrightarrow> ofile (procs s cp) = Map.empty)"

lemma vok_D:
  assumes "vok X T F tab c D"
  shows "f < NFILE \<Longrightarrow> fst (F f) = int (card (holders tab f)) + X f"
    and "f < NFILE \<Longrightarrow> snd (F f) \<noteq> FD_NONE \<longleftrightarrow> f \<notin> T \<and> fst (F f) > 0"
    and "tab p fd = Some f \<Longrightarrow> p < NPROC \<and> fd < NOFILE \<and> f < NFILE"
    and "p \<in> D \<Longrightarrow> tab p = Map.empty"
    and "c = Some cp \<Longrightarrow> cp < NPROC \<and> cp \<notin> D"
  using assms unfolding vok_def by blast+

lemma finite_holders: "vok X T F tab c D \<Longrightarrow> finite (holders tab f)"
  by (rule finite_subset [of _ "{..<NPROC} \<times> {..<NOFILE}"]) (auto simp: holders_def dest: vok_D(3))

text \<open>An open descriptor keeps its file.\<close>

lemma held_ref:
  assumes "vok X T F tab c D" and "tab p fd = Some f" and "0 \<le> X f"
  shows "1 \<le> fst (F f)" and "f < NFILE"
proof -
  show f: "f < NFILE" using vok_D(3) [OF assms(1,2)] by simp
  have "(p, fd) \<in> holders tab f" using assms(2) by (simp add: holders_def)
  then have "0 < card (holders tab f)" using finite_holders [OF assms(1), of f] card_gt_0_iff by blast
  then show "1 \<le> fst (F f)" using vok_D(1) [OF assms(1) f] assms(3) by simp
qed

lemma vok_dead_mono: "vok X T F tab c D \<Longrightarrow> D' \<subseteq> D \<Longrightarrow> vok X T F tab c D'"
  unfolding vok_def by blast

text \<open>The updates of a view.\<close>

lemma vok_alloc:
  assumes "vok X T F tab c D" and "f < NFILE" and "fst (F f) = 0"
  shows "vok (X(f := X f + 1)) (insert f T) (F(f := (1, snd (F f)))) tab c D"
proof -
  have "snd (F f) = FD_NONE" using vok_D(2) [OF assms(1,2)] assms(3) by simp
  then show ?thesis using assms unfolding vok_def by auto
qed

lemma vok_type:
  assumes "vok X T F tab c D" and "f < NFILE" and "0 < fst (F f)" and "ty \<noteq> FD_NONE"
  shows "vok X (T - {f}) (F(f := (fst (F f), ty))) tab c D"
  using assms unfolding vok_def by auto

lemma vok_dup:
  assumes "vok X T F tab c D" and "f < NFILE" and "1 \<le> fst (F f)"
  shows "vok (X(f := X f + 1)) T (F(f := (fst (F f) + 1, snd (F f)))) tab c D"
  using assms unfolding vok_def by auto

definition closed :: "nat \<Rightarrow> (nat \<Rightarrow> int \<times> ftype) \<Rightarrow> nat \<Rightarrow> int \<times> ftype" where
  "closed f F = F(f := if fst (F f) > 1 then (fst (F f) - 1, snd (F f)) else (0, FD_NONE))"

lemma vok_close:
  assumes "vok X T F tab c D" and "f < NFILE" and "1 \<le> fst (F f)" and "f \<in> T \<Longrightarrow> fst (F f) = 1"
  shows "vok (X(f := X f - 1)) (T - {f}) (closed f F) tab c D"
  using assms unfolding vok_def closed_def by auto

lemma holders_set:
  "holders (tab(p := (tab p)(fd := Some f))) g =
     (if g = f then insert (p, fd) (holders tab g) else holders tab g - {(p, fd)})"
  by (auto simp: holders_def split: if_splits)

lemma holders_clear: "holders (tab(p := (tab p)(fd := None))) g = holders tab g - {(p, fd)}"
  by (auto simp: holders_def split: if_splits)

lemma vok_setfd:
  assumes "vok X T F tab c D" and "tab p fd = None" and "p < NPROC" "fd < NOFILE" "f < NFILE" "p \<notin> D"
  shows "vok (X(f := X f - 1)) T F (tab(p := (tab p)(fd := Some f))) c D"
proof -
  have new: "(p, fd) \<notin> holders tab g" for g using assms(2) by (simp add: holders_def)
  have "card (insert (p, fd) (holders tab f)) = Suc (card (holders tab f))"
    using finite_holders [OF assms(1)] new by simp
  then show ?thesis using assms new unfolding vok_def holders_set by auto
qed

lemma vok_clearfd:
  assumes "vok X T F tab c D" and "tab p fd = Some f"
  shows "vok (X(f := X f + 1)) T F (tab(p := (tab p)(fd := None))) c D"
proof -
  have mem: "(p, fd) \<in> holders tab g \<longleftrightarrow> g = f" for g using assms(2) by (auto simp: holders_def)
  have "card (holders tab f) = Suc (card (holders tab f - {(p, fd)}))"
    using card.remove [OF finite_holders [OF assms(1)]] mem by blast
  then show ?thesis using assms mem unfolding vok_def holders_clear by auto
qed

lemma hand_zero [simp]: "(\<lambda>_. 0)(f := 0) = (\<lambda>_. 0 :: int)" "(\<lambda>_. 0)(f := a, g := 0) = (\<lambda>_. 0 :: int)(f := a, g := 0)"
  by auto

section \<open>Running a call on its view\<close>

text \<open>What a call may leave: the invariant; and the same while \<^verbatim>\<open>exit\<close> closes its files.\<close>

lemma fd_okI: "fdfix (F, tab, c) D s \<Longrightarrow> vok (\<lambda>_. 0) {} F tab c D \<Longrightarrow> fd_ok s"
  unfolding fd_ok_def fdfix_def fdv_def by (auto intro: vok_dead_mono)

lemma fd_closingI: "fdfix (F, tab, c) D s \<Longrightarrow> vok ((\<lambda>_. 0)(f := -1)) {} F tab c D \<Longrightarrow> fd_closing s"
  unfolding fd_closing_def fdfix_def fdv_def by (auto intro: vok_dead_mono)

lemma fd_view:
  assumes "fdfix (F, tab, c) D s"
  shows "f_ref (files s f) = fst (F f)" "f_type (files s f) = snd (F f)" "ofile (procs s p) = tab p" "curr_proc s = c"
    and "p \<notin> D \<Longrightarrow> alive (procs s p)"
  using assms by (auto simp: fdfix_def fdv_def deads_def)

lemma fdspec_inert:
  assumes "inert V D m" and "\<And>a. fdspec (fdfix V D) (f a) Q S" and "nosleep m \<or> (\<forall>s. fdfix V D s \<longrightarrow> S s)"
  shows "fdspec (fdfix V D) (kbind m f) Q S"
proof (rule fdspec_kbind [OF _ assms(2)])
  show "fdspec (fdfix V D) m (\<lambda>_. fdfix V D) S"
    using assms(1,3) unfolding inert_def by (intro fdspecI) (auto dest: fdspecD nosleepD)
qed

lemma fdspec_step:
  assumes "fdspec P m R S" and "\<And>a. R a = (\<lambda>s. A a \<and> P' a s)" and "\<And>a. A a \<Longrightarrow> fdspec (P' a) (f a) Q S"
  shows "fdspec P (kbind m f) Q S"
proof (rule fdspec_kbind [OF assms(1)])
  show "fdspec (R a) (f a) Q S" for a
    unfolding assms(2) by (cases "A a") (auto simp: assms(3), simp add: fdspec_def)
qed

lemma fdspec_curr:
  assumes "\<And>cp. c = Some cp \<Longrightarrow> fdspec (fdfix (F, tab, c) D) (f cp) Q S"
  shows "fdspec (fdfix (F, tab, c) D) (with_curr f) Q S"
  unfolding with_curr_def
proof (rule fdspec_kget)
  fix s assume "fdfix (F, tab, c) D s"
  then show "fdspec (fdfix (F, tab, c) D) (case curr_proc s of None \<Rightarrow> fault ''curr_proc'' | Some p \<Rightarrow> f p) Q S"
    using assms by (auto simp: fd_view(4) fdspec_basic split: option.split)
qed

text \<open>The operations on the tables.\<close>

lemma fdfix_file: "fdfix (F, tab, c) D s \<Longrightarrow> (f_ref (g (files s f)), f_type (g (files s f))) = v \<Longrightarrow>
    fdfix (F(f := v), tab, c) D (s\<lparr>files := (files s)(f := g (files s f))\<rparr>)"
  by (auto simp: fdfix_def fdv_def deads_def curr_proc_def)

lemma fdspec_upd_file:
  assumes "\<And>q. f_ref q = fst (F f) \<Longrightarrow> f_type q = snd (F f) \<Longrightarrow> (f_ref (g q), f_type (g q)) = v"
  shows "fdspec (fdfix (F, tab, c) D) (upd_file f g) (\<lambda>_. fdfix (F(f := v), tab, c) D) S"
  unfolding upd_file_def by (rule fdspec_kmod) (rule fdfix_file, assumption, simp add: assms fd_view)

lemma fdspec_upd_ofile:
  "fdspec (fdfix (F, tab, c) D) (upd_proc p (\<lambda>q. q\<lparr>ofile := (ofile q)(fd := v)\<rparr>)) (\<lambda>_. fdfix (F, tab(p := (tab p)(fd := v)), c) D) S"
  unfolding upd_proc_def by (rule fdspec_kmod) (auto simp: fdfix_def fdv_def deads_def curr_proc_def alive_def)

lemma find_file_Some: "find_file P is fs = Some f \<Longrightarrow> f \<in> set is \<and> P (fs f)"
  by (induction "is") (auto split: if_splits)

lemma free_fd_Some: "free_fd tab is = Some fd \<Longrightarrow> fd \<in> set is \<and> tab fd = None"
  by (induction "is") (auto split: if_splits)

text \<open>A file from the table, a descriptor of the caller, one more and one less reference.\<close>

lemma fdspec_filealloc:
  "fdspec (fdfix (F, tab, c) D) filealloc
     (\<lambda>r s. (\<forall>f. r = Some f \<longrightarrow> f < NFILE \<and> fst (F f) = 0)
        \<and> fdfix (case r of None \<Rightarrow> F | Some f \<Rightarrow> F(f := (1, snd (F f))), tab, c) D s) S"
  unfolding filealloc_def
proof (rule fdspec_kget)
  fix s assume s: "fdfix (F, tab, c) D s"
  show "fdspec (fdfix (F, tab, c) D)
      (case find_file (\<lambda>f. f_ref f = 0) [0..<NFILE] (files s) of None \<Rightarrow> kreturn None
       | Some f \<Rightarrow> kbind (upd_file f (\<lambda>q. q\<lparr>f_ref := 1\<rparr>)) (\<lambda>_. kreturn (Some f)))
      (\<lambda>r s. (\<forall>f. r = Some f \<longrightarrow> f < NFILE \<and> fst (F f) = 0)
        \<and> fdfix (case r of None \<Rightarrow> F | Some f \<Rightarrow> F(f := (1, snd (F f))), tab, c) D s) S"
  proof (cases "find_file (\<lambda>f. f_ref f = 0) [0..<NFILE] (files s)")
    case (Some f)
    have "f < NFILE" "fst (F f) = 0" using find_file_Some [OF Some] fd_view(1) [OF s, of f] by auto
    then show ?thesis
      unfolding Some option.case by (intro fdspec_kbind [OF fdspec_upd_file] fdspec_basic) simp_all
  qed (simp add: fdspec_def)
qed

lemma fdspec_fdalloc:
  "fdspec (fdfix (F, tab, Some cp) D) (fdalloc f)
     (\<lambda>r s. (\<forall>fd. r = Some fd \<longrightarrow> fd < NOFILE \<and> tab cp fd = None)
        \<and> fdfix (F, case r of None \<Rightarrow> tab | Some fd \<Rightarrow> tab(cp := (tab cp)(fd := Some f)), Some cp) D s) S"
  unfolding fdalloc_def
proof (rule fdspec_curr, rule fdspec_kget, goal_cases)
  case (1 cp' s)
  then have cp: "cp' = cp" and o: "ofile (procs s cp) = tab cp" using fd_view(3) [OF 1(2)] by simp_all
  show ?case
  proof (cases "free_fd (tab cp) [0..<NOFILE]")
    case (Some fd)
    have "fd < NOFILE" "tab cp fd = None" using free_fd_Some [OF Some] by simp_all
    then show ?thesis
      unfolding cp o Some option.case by (intro fdspec_kbind [OF fdspec_upd_ofile] fdspec_basic) simp_all
  qed (simp add: cp o fdspec_def)
qed

lemma fdspec_filedup:
  assumes "1 \<le> fst (F f)"
  shows "fdspec (fdfix (F, tab, c) D) (filedup f) (\<lambda>_. fdfix (F(f := (fst (F f) + 1, snd (F f))), tab, c) D) S"
  unfolding filedup_def
proof (rule fdspec_kget, goal_cases)
  case (1 s)
  then have "\<not> f_ref (files s f) < 1" using assms fd_view(1) [OF 1, of f] by simp
  then show ?case by (auto intro!: fdspec_kbind [OF fdspec_upd_file] fdspec_basic)
qed

lemma nosleep_get_order [nosleep_rules]: "nosleep (get_order v)" "nosleep (upd_pipe p g)" "nosleep (wakeup ch)"
  unfolding get_order_def upd_pipe_def wakeup_def wakeup1_def wake_one_def upd_proc_def Let_def by (intro nosleep_rules)+

lemma nosleep_pipeclose [nosleep_rules]: "nosleep (pipeclose p w)"
  unfolding pipeclose_def by (intro nosleep_rules)

text \<open>Closing needs an open file; it may sleep, for the log or the inode, once the count is down.\<close>

lemma fdspec_fileclose:
  assumes "1 \<le> fst (F f)" and "\<And>s. snd (F f) = FD_INODE \<Longrightarrow> fdfix (closed f F, tab, c) D s \<Longrightarrow> S s"
  shows "fdspec (fdfix (F, tab, c) D) (fileclose f) (\<lambda>_. fdfix (closed f F, tab, c) D) S"
  unfolding fileclose_def
proof (rule fdspec_kget, goal_cases)
  case (1 s)
  note v = fd_view(1,2) [OF 1, of f]
  show ?case
  proof (cases "fst (F f) = 1")
    case False
    then show ?thesis
      using assms(1) v by (auto simp: closed_def intro!: fdspec_kbind [OF fdspec_upd_file] fdspec_basic)
  next
    case True
    let ?rest = "case snd (F f) of FD_NONE \<Rightarrow> kreturn () | FD_PIPE \<Rightarrow> pipeclose (f_pipe (files s f)) (f_writable (files s f))
        | FD_INODE \<Rightarrow> kbind begin_trans (\<lambda>_. kbind (iput (f_ip (files s f))) (\<lambda>_. commit_trans))"
    let ?V = "(F(f := (0, snd (F f)), f := (0, FD_NONE)), tab, c)"
    have c: "closed f F = F(f := (0, snd (F f)), f := (0, FD_NONE))" using True by (simp add: closed_def)
    have "inert ?V D ?rest" by (cases "snd (F f)") (auto intro!: inert_rules)
    moreover have "nosleep ?rest" if "snd (F f) \<noteq> FD_INODE" using that by (cases "snd (F f)") (auto intro!: nosleep_rules)
    ultimately have e: "fdspec (fdfix ?V D) ?rest (\<lambda>_. fdfix ?V D) S"
      using assms(2) unfolding c inert_def
      by (intro fdspecI) (blast dest: fdspecD nosleepD)+
    show ?thesis
      using v True e unfolding c
      by (auto intro!: fdspec_kbind [OF fdspec_upd_file])
  qed
qed

section \<open>Reading, writing, duplicating and closing\<close>

lemma fdspec_fd_ok:
  fixes m :: "('z filest_scheme, 'a) kop"
  assumes "\<And>F tab c D. vok (\<lambda>_. 0) {} F tab c D \<Longrightarrow> fdspec (fdfix (F, tab, c) D) m Q S"
  shows "fdspec fd_ok m Q S"
proof (rule fdspecI)
  fix s :: "'z filest_scheme" assume "fd_ok s"
  then have "fdspec (fdfix (fdv s) (deads s)) m Q S" unfolding fd_ok_def fdv_def by (rule assms)
  note m = fdspecD [OF this, of s, unfolded fdfix_def, simplified]
  show "Q a s'" if "m s = Ret a s'" for a s' using m(1) [OF that] .
  show "S s'" if "m s = Sleeps c s'" for c s' using m(2) [OF that] .
  show "e \<notin> fd_panics" if "m s = Panic e" for e using m(3) [OF that] by simp
qed

lemma fd_ok_inert:
  assumes "\<And>V D. inert V D m"
  shows "fdspec fd_ok m (\<lambda>_. fd_ok) fd_ok"
proof (rule fdspec_fd_ok)
  fix F tab c D assume "vok (\<lambda>_. 0) {} F tab c D"
  then show "fdspec (fdfix (F, tab, c) D) m (\<lambda>_. fd_ok) fd_ok"
    using assms [of "(F, tab, c)" D, unfolded inert_def] by (elim fdspec_weaken) (auto intro: fd_okI)
qed

lemma fdspec_option: "(x = None \<Longrightarrow> fdspec P m Q S) \<Longrightarrow> (\<And>y. x = Some y \<Longrightarrow> fdspec P (f y) Q S) \<Longrightarrow>
    fdspec P (case x of None \<Rightarrow> m | Some y \<Rightarrow> f y) Q S"
  by (cases x) auto

lemma fdspec_if: "(b \<Longrightarrow> fdspec P m Q S) \<Longrightarrow> (\<not> b \<Longrightarrow> fdspec P n Q S) \<Longrightarrow> fdspec P (if b then m else n) Q S"
  by simp

lemma nosleep_arg [nosleep_rules]: "nosleep (with_curr (\<lambda>p. kget (g p)))" "nosleep (argint n)" "nosleep (argfd n)"
  unfolding argfd_def argint_def with_curr_def by (intro nosleep_rules)+

lemma fdspec_argfd:
  "fdspec (fdfix (F, tab, c) D) (argfd n)
     (\<lambda>r s. (\<forall>fd f. r = Some (fd, f) \<longrightarrow> (\<exists>cp. c = Some cp \<and> tab cp fd = Some f)) \<and> fdfix (F, tab, c) D s) S"
  unfolding argfd_def
  by (intro fdspec_inert inert_rules)
    (auto intro!: fdspec_curr fdspec_kget fdspec_basic nosleep_rules simp: fd_view split: option.splits)

lemma fd_ok_sys_dup: "fdspec fd_ok sys_dup (\<lambda>_. fd_ok) fd_ok"
  unfolding sys_dup_def
proof (intro fdspec_fd_ok fdspec_step [OF fdspec_argfd refl] fdspec_option, goal_cases)
  case (1 F tab c D a)
  then show ?case by (auto intro!: fdspec_basic fd_okI)
next
  case (2 F tab c D a y)
  obtain fd f cp where y: "y = (fd, f)" and c: "c = Some cp" and t: "tab cp fd = Some f" using 2 by (cases y) auto
  note f = held_ref [OF 2(1) t, simplified]
  show ?case
    unfolding y prod.case c
  proof (rule fdspec_step [OF fdspec_fdalloc refl], rule fdspec_option, goal_cases)
    case (1 r)
    then show ?case using 2(1) c by (auto intro!: fdspec_basic fd_okI)
  next
    case (2 r new)
    have "vok ((\<lambda>_. 0)(f := -1)) {} F (tab(cp := (tab cp)(new := Some f))) (Some cp) D"
      using vok_setfd [OF \<open>vok _ _ _ _ _ _\<close>] 2 f(2) vok_D(5) [OF \<open>vok _ _ _ _ _ _\<close>] c by fastforce
    from vok_dup [OF this f(2,1)] show ?case
      using 2 f by (auto intro!: fdspec_kbind [OF fdspec_filedup] fdspec_basic elim!: fd_okI)
  qed
qed

lemma fd_ok_sys_close: "fdspec fd_ok sys_close (\<lambda>_. fd_ok) fd_ok"
  unfolding sys_close_def
proof (intro fdspec_fd_ok fdspec_step [OF fdspec_argfd refl] fdspec_option, goal_cases)
  case (1 F tab c D a)
  then show ?case by (auto intro!: fdspec_basic fd_okI)
next
  case (2 F tab c D a y)
  obtain fd f cp where y: "y = (fd, f)" and c: "c = Some cp" and t: "tab cp fd = Some f" using 2 by (cases y) auto
  note f = held_ref [OF 2(1) t, simplified]
  let ?tab = "tab(cp := (tab cp)(fd := None))"
  have ok: "vok (\<lambda>_. 0) {} (closed f F) ?tab c D"
    using vok_close [OF vok_clearfd [OF 2(1) t] f(2,1)] by simp
  show ?case
    unfolding y prod.case
  proof (rule fdspec_kbind)
    show "fdspec (fdfix (F, tab, c) D) (with_curr (\<lambda>cp. upd_proc cp (\<lambda>q. q\<lparr>ofile := (ofile q)(fd := None)\<rparr>)))
        (\<lambda>_. fdfix (F, ?tab, c) D) fd_ok"
      using c by (intro fdspec_curr) (auto intro: fdspec_upd_ofile)
    show "fdspec (fdfix (F, ?tab, c) D) (kbind (fileclose f) (\<lambda>_. kreturn 0)) (\<lambda>_. fd_ok) fd_ok"
      using f ok by (intro fdspec_kbind [OF fdspec_fileclose] fdspec_basic) (auto elim: fd_okI)
  qed
qed

lemma fd_ok_sys_io:
  assumes "\<And>V D. inert_dev V D dv"
  shows "fdspec fd_ok (sys_read dv) (\<lambda>_. fd_ok) fd_ok" and "fdspec fd_ok (sys_write dv) (\<lambda>_. fd_ok) fd_ok"
proof -
  have io: "inert (F, tab, c) D (fileread dv f n)" "inert (F, tab, c) D (filewrite dv f src n)"
    if "vok (\<lambda>_. 0) {} F tab c D" and "tab cp fd = Some f" for F tab c D cp fd f n src
    using vok_D(2) [OF that(1), of f] held_ref [OF that, simplified] assms
    by (auto intro!: inert_fileread inert_filewrite)
  show "fdspec fd_ok (sys_read dv) (\<lambda>_. fd_ok) fd_ok"
    unfolding sys_read_def
  proof (intro fdspec_fd_ok fdspec_step [OF fdspec_argfd refl] fdspec_option, goal_cases)
    case (2 F tab c D a y)
    then have "inert (F, tab, c) D (case y of (_, f) \<Rightarrow> kbind (argint 2) (\<lambda>n. kbind (argptr 1 (sint n)) (\<lambda>p.
        case p of None \<Rightarrow> kreturn (- 1)
        | Some p \<Rightarrow> kbind (fileread dv f (sint n)) (\<lambda>(r, bs). kbind (put_user p bs) (\<lambda>_. kreturn r)))))"
      using io by (cases y) (auto intro!: inert_rules)
    then show ?case unfolding inert_def by (rule fdspec_weaken) (auto intro: fd_okI [OF _ 2(1)])
  qed (auto intro!: fdspec_basic fd_okI)
  show "fdspec fd_ok (sys_write dv) (\<lambda>_. fd_ok) fd_ok"
    unfolding sys_write_def
  proof (intro fdspec_fd_ok fdspec_step [OF fdspec_argfd refl] fdspec_option, goal_cases)
    case (2 F tab c D a y)
    then have "inert (F, tab, c) D (case y of (_, f) \<Rightarrow> kbind (argint 2) (\<lambda>n. kbind (argptr 1 (sint n)) (\<lambda>p.
        case p of None \<Rightarrow> kreturn (- 1)
        | Some p \<Rightarrow> kbind (user_bytes p (nat (sint n))) (\<lambda>bs. filewrite dv f bs (sint n)))))"
      using io by (cases y) (auto intro!: inert_rules)
    then show ?case unfolding inert_def by (rule fdspec_weaken) (auto intro: fd_okI [OF _ 2(1)])
  qed (auto intro!: fdspec_basic fd_okI)
qed

section \<open>Opening files and pipes\<close>

lemma fdspec_no_curr: "fdspec (fdfix (F, tab, None) D) (kbind (fdalloc f) g) Q S"
proof (rule fdspec_kbind)
  show "fdspec (fdfix (F, tab, None) D) (fdalloc f) (\<lambda>_ _. False) S" unfolding fdalloc_def by (rule fdspec_curr) simp
qed (simp add: fdspec_def)

lemma fdspec_pre:
  assumes "vok (\<lambda>_. 0) {} F tab c D" and "inert (F, tab, c) D m" and "\<And>a. fdspec (fdfix (F, tab, c) D) (f a) Q fd_ok"
  shows "fdspec (fdfix (F, tab, c) D) (kbind m f) Q fd_ok"
  using assms(2,3) by (rule fdspec_inert) (auto intro: fd_okI [OF _ assms(1)])

lemma fdspec_post:
  assumes "vok (\<lambda>_. 0) {} F tab c D" and "inert (F, tab, c) D m"
  shows "fdspec (fdfix (F, tab, c) D) m (\<lambda>_. fd_ok) fd_ok"
  using assms(2) unfolding inert_def by (rule fdspec_weaken) (auto intro: fd_okI [OF _ assms(1)])

lemma nosleep_iunlock [nosleep_rules]: "nosleep (upd_inode ip g)" "nosleep (iunlock r)" "nosleep (idup ip)"
  unfolding iunlock_def idup_def upd_inode_def by (intro nosleep_rules)+

text \<open>A file that was just taken from the table has no type; it gets one, or it goes back.\<close>

lemma vok_fresh:
  assumes "vok (\<lambda>_. 0) {} F tab c D" and "f < NFILE" and "fst (F f) = 0"
  shows "F f = (0, FD_NONE)" and "vok ((\<lambda>_. 0)(f := 1)) {f} (F(f := (1, FD_NONE))) tab c D"
proof -
  show F: "F f = (0, FD_NONE)" using vok_D(2) [OF assms(1,2)] assms(3) by (cases "F f") simp
  show "vok ((\<lambda>_. 0)(f := 1)) {f} (F(f := (1, FD_NONE))) tab c D" using vok_alloc [OF assms] F by simp
qed

lemma closed_fresh: "F f = (0, FD_NONE) \<Longrightarrow> closed f (F(f := (1, t))) = F"
  by (auto simp: closed_def)

lemma fdspec_close_fresh:
  assumes "F f = (0, FD_NONE)" and "\<And>s. t = FD_INODE \<Longrightarrow> fdfix (F, tab, c) D s \<Longrightarrow> S s"
  shows "fdspec (fdfix (F(f := (1, t)), tab, c) D) (fileclose f) (\<lambda>_. fdfix (F, tab, c) D) S"
  using fdspec_fileclose [of "F(f := (1, t))" f tab c D S] closed_fresh [of F f] assms by simp

lemma fd_ok_open_file:
  assumes "vok (\<lambda>_. 0) {} F tab c D"
  shows "fdspec (fdfix (F, tab, c) D) (open_file ip omode) (\<lambda>_. fd_ok) fd_ok"
  unfolding open_file_def
proof (rule fdspec_step [OF fdspec_filealloc refl], rule fdspec_option, goal_cases)
  case (1 r)
  then show ?case using assms by (auto intro!: fdspec_post inert_rules)
next
  case (2 r f)
  then have f: "f < NFILE" "fst (F f) = 0" by auto
  note fresh = vok_fresh [OF assms f]
  show ?case
  proof (cases c)
    case None
    then show ?thesis using fdspec_no_curr by auto
  next
    case (Some cp)
    show ?thesis
      unfolding 2(2) Some option.case
    proof (rule fdspec_step [OF fdspec_fdalloc refl], rule fdspec_option, goal_cases)
      case (1 r)
      have cl: "fdspec (fdfix (F(f := (1, FD_NONE)), tab, Some cp) D) (fileclose f) (\<lambda>_. fdfix (F, tab, Some cp) D) fd_ok"
        using fresh(1) by (rule fdspec_close_fresh) simp
      have "fdspec (fdfix (F, tab, Some cp) D) (kbind (iunlockput ip) (\<lambda>_. kreturn (-1))) (\<lambda>_. fd_ok) fd_ok"
        using assms Some by (intro fdspec_post inert_rules) simp
      then show ?case using 1 fresh(1) by (auto intro!: fdspec_kbind [OF cl])
    next
      case (2 r fd)
      let ?tab = "tab(cp := (tab cp)(fd := Some f))"
      have ok: "vok (\<lambda>_. 0) {f} (F(f := (1, FD_NONE))) ?tab (Some cp) D"
        using vok_setfd [OF fresh(2), of cp fd f] vok_D(5) [OF assms] 2 f Some by auto
      have "vok (\<lambda>_. 0) {} (F(f := (1, FD_INODE))) ?tab (Some cp) D"
        using vok_type [OF ok f(1), of FD_INODE] by simp
      then show ?case
        using 2 fresh(1)
        by (auto intro!: fdspec_inert fdspec_kbind [OF fdspec_upd_file] fdspec_basic inert_rules nosleep_rules elim: fd_okI)
    qed
  qed
qed

lemma fd_ok_sys_open:
  assumes "\<And>V D. inert_dev V D dv"
  shows "fdspec fd_ok (sys_open dv) (\<lambda>_. fd_ok) fd_ok"
  unfolding sys_open_def
proof (rule fdspec_fd_ok, goal_cases)
  case (1 F tab c D)
  show ?case
    by (intro fdspec_pre [OF 1] fdspec_option fdspec_if fd_ok_open_file [OF 1]) (auto intro!: fdspec_post [OF 1] inert_rules assms)
qed

text \<open>\<^verbatim>\<open>pipealloc\<close> gives two fresh files, or leaves the table as it was.\<close>

lemma fdspec_pipealloc:
  assumes "vok (\<lambda>_. 0) {} F tab c D"
  shows "fdspec (fdfix (F, tab, c) D) pipealloc
     (\<lambda>r s. (\<forall>a b. r = Some (a, b) \<longrightarrow> a \<noteq> b \<and> a < NFILE \<and> b < NFILE \<and> F a = (0, FD_NONE) \<and> F b = (0, FD_NONE))
        \<and> fdfix (case r of None \<Rightarrow> F | Some (a, b) \<Rightarrow> F(a := (1, FD_PIPE), b := (1, FD_PIPE)), tab, c) D s) S"
  (is "fdspec _ _ ?Q _")
  unfolding pipealloc_def
proof (rule fdspec_step [OF fdspec_filealloc refl], rule fdspec_option, goal_cases)
  case (1 r)
  then show ?case by (auto intro!: fdspec_basic)
next
  case (2 r a)
  then have a: "a < NFILE" "fst (F a) = 0" by auto
  note fa = vok_fresh(1) [OF assms a]
  let ?F = "F(a := (1, FD_NONE))"
  show ?case
    unfolding 2(2) option.case fa snd_conv
  proof (rule fdspec_step [OF fdspec_filealloc refl], rule fdspec_option, goal_cases)
    case (1 r)
    have cl: "fdspec (fdfix (?F, tab, c) D) (fileclose a) (\<lambda>_. fdfix (F, tab, c) D) S" using fa by (rule fdspec_close_fresh) simp
    show ?case using 1 by (auto simp: close_opt_def intro!: fdspec_basic fdspec_kbind [OF cl])
  next
    case (2 r' b)
    then have b: "b < NFILE" "fst (F b) = 0" "a \<noteq> b" by (auto split: if_splits)
    note fb = vok_fresh(1) [OF assms b(1,2)]
    let ?G = "?F(b := (1, FD_NONE))"
    have ca: "fdspec (fdfix (?G, tab, c) D) (fileclose a) (\<lambda>_. fdfix (F(b := (1, FD_NONE)), tab, c) D) S"
      using fdspec_close_fresh [of "F(b := (1, FD_NONE))" a FD_NONE tab c D S] fa b(3) by (simp add: fun_upd_twist)
    have cb: "fdspec (fdfix (F(b := (1, FD_NONE)), tab, c) D) (fileclose b) (\<lambda>_. fdfix (F, tab, c) D) S"
      using fb by (rule fdspec_close_fresh) simp
    have undo: "fdspec (fdfix (?G, tab, c) D) (kbind (close_opt r) (\<lambda>_. kbind (close_opt r') (\<lambda>_. kreturn None))) ?Q S"
      using \<open>r = Some a\<close> 2(2) by (auto simp: close_opt_def intro!: fdspec_kbind [OF ca] fdspec_kbind [OF cb] fdspec_basic)
    have two: "fdspec (fdfix (?G, tab, c) D)
        (kbind (upd_file a (\<lambda>q. q\<lparr>f_type := FD_PIPE, f_readable := True, f_writable := False, f_pipe := p\<rparr>)) (\<lambda>_.
         kbind (upd_file b (\<lambda>q. q\<lparr>f_type := FD_PIPE, f_readable := False, f_writable := True, f_pipe := p\<rparr>)) (\<lambda>_.
         kreturn (Some (a, b))))) ?Q S" for p
      using a b fa fb
      by (intro fdspec_kbind [OF fdspec_upd_file [where v = "(1, FD_PIPE)"]] fdspec_basic) (auto simp: fun_upd_twist)
    have G: "?F(b := (1, snd (?F b))) = ?G" using b(3) fb by simp
    show ?case
      unfolding 2(2) option.case G
      by (intro fdspec_inert [where m = "get_order v" for v] fdspec_inert [where m = "kmalloc n" for n]
          fdspec_inert [where m = "upd_pipe p g" for p g] fdspec_if two undo [unfolded \<open>r = Some a\<close> 2(2)])
        (intro inert_rules disjI1 nosleep_rules)+
  qed
qed

text \<open>The two ends of a pipe without descriptors are closed again.\<close>

lemma fdspec_close_pipe:
  assumes "vok (\<lambda>_. 0) {} F tab c D" and "F a = (0, FD_NONE)" "F b = (0, FD_NONE)" "a \<noteq> b"
  shows "fdspec (fdfix (F(a := (1, FD_PIPE), b := (1, FD_PIPE)), tab, c) D)
      (kbind (fileclose a) (\<lambda>_. kbind (fileclose b) (\<lambda>_. kreturn (- 1)))) (\<lambda>_. fd_ok) S"
proof (rule fdspec_kbind)
  show "fdspec (fdfix (F(a := (1, FD_PIPE), b := (1, FD_PIPE)), tab, c) D) (fileclose a) (\<lambda>_. fdfix (F(b := (1, FD_PIPE)), tab, c) D) S"
    using fdspec_close_fresh [of "F(b := (1, FD_PIPE))" a FD_PIPE tab c D S] assms(2,4) by (simp add: fun_upd_twist)
  have cb: "fdspec (fdfix (F(b := (1, FD_PIPE)), tab, c) D) (fileclose b) (\<lambda>_. fdfix (F, tab, c) D) S"
    using assms(3) by (rule fdspec_close_fresh) simp
  show "fdspec (fdfix (F(b := (1, FD_PIPE)), tab, c) D) (kbind (fileclose b) (\<lambda>_. kreturn (- 1))) (\<lambda>_. fd_ok) S"
    by (intro fdspec_kbind [OF cb] fdspec_basic) (rule fd_okI [OF _ assms(1)])
qed

lemma vok_pipe:
  assumes "vok (\<lambda>_. 0) {} F tab (Some cp) D" and "a < NFILE" "b < NFILE" "F a = (0, FD_NONE)" "F b = (0, FD_NONE)" "a \<noteq> b"
    and "fd0 < NOFILE" "tab cp fd0 = None" "fd1 < NOFILE" "((tab cp)(fd0 := Some a)) fd1 = None"
  shows "vok (\<lambda>_. 0) {} (F(a := (1, FD_PIPE), b := (1, FD_PIPE))) (tab(cp := (tab cp)(fd0 := Some a, fd1 := Some b))) (Some cp) D"
proof -
  note cp = vok_D(5) [OF assms(1) refl]
  have "vok ((\<lambda>_. 0)(a := 1)) {} (F(a := (1, FD_PIPE))) tab (Some cp) D"
    using vok_type [OF vok_alloc [OF assms(1,2)], of a FD_PIPE] assms(2,4) by simp
  from vok_type [OF vok_alloc [OF this assms(3)], of b FD_PIPE]
  have two: "vok ((\<lambda>_. 0)(a := 1, b := 1)) {} (F(a := (1, FD_PIPE), b := (1, FD_PIPE))) tab (Some cp) D"
    using assms(3,5,6) by simp
  show ?thesis
    using vok_setfd [OF vok_setfd [OF two assms(8), of a], of cp fd1 b] cp assms by (simp add: fun_upd_twist)
qed

lemma fd_ok_sys_pipe: "fdspec fd_ok sys_pipe (\<lambda>_. fd_ok) fd_ok"
  unfolding sys_pipe_def
proof (rule fdspec_fd_ok, goal_cases)
  case (1 F tab c D)
  note ok = 1
  show ?case
  proof (intro fdspec_step [OF fdspec_pipealloc [OF ok] refl] fdspec_pre [OF ok] fdspec_option inert_rules, goal_cases)
    case (3 p q r ab)
    then obtain a b where ab: "ab = (a, b)" "r = Some (a, b)" by (cases ab) auto
    then have f: "a \<noteq> b" "a < NFILE" "b < NFILE" "F a = (0, FD_NONE)" "F b = (0, FD_NONE)" using 3 by auto
    show ?case
    proof (cases c)
      case None
      then show ?thesis using fdspec_no_curr ab by auto
    next
      case (Some cp)
      note ok' = ok [unfolded Some] and close = fdspec_close_pipe [OF ok [unfolded Some] f(4,5,1)]
      show ?thesis
        unfolding ab option.case prod.case Some
      proof (intro fdspec_step [OF fdspec_fdalloc refl] fdspec_option, goal_cases)
        case (1 r0)
        then show ?case using close by simp
      next
        case (2 r0 fd0 r1)
        then have t: "(tab cp)(fd0 := None) = tab cp" by auto
        have "fdspec (fdfix (F(a := (1, FD_PIPE), b := (1, FD_PIPE)), tab(cp := (tab cp)(fd0 := Some a)), Some cp) D)
            (with_curr (\<lambda>cp. upd_proc cp (\<lambda>q. q\<lparr>ofile := (ofile q)(fd0 := None)\<rparr>)))
            (\<lambda>_. fdfix (F(a := (1, FD_PIPE), b := (1, FD_PIPE)), tab, Some cp) D) fd_ok"
          using fdspec_upd_ofile [of _ "tab(cp := (tab cp)(fd0 := Some a))" "Some cp" D cp fd0 None fd_ok] t
          by (intro fdspec_curr) simp
        then show ?case using 2 close by (auto intro!: fdspec_kbind [where m = "with_curr h" for h])
      next
        case (3 r0 fd0 r1 fd1)
        then have "vok (\<lambda>_. 0) {} (F(a := (1, FD_PIPE), b := (1, FD_PIPE))) (tab(cp := (tab cp)(fd0 := Some a, fd1 := Some b))) (Some cp) D"
          using f by (intro vok_pipe [OF ok']) auto
        then show ?case using 3 by (auto intro!: fdspec_post inert_rules)
      qed
    qed
  qed (use ok in \<open>auto intro!: fdspec_basic elim: fd_okI\<close>)
qed

section \<open>Fork\<close>

lemma fdspec_ex: "(\<And>x. A x \<Longrightarrow> fdspec (P x) m Q S) \<Longrightarrow> fdspec (\<lambda>s. \<exists>x. A x \<and> P x s) m Q S"
  unfolding fdspec_def by blast

lemma fdspec_kfor_upt:
  assumes "\<And>i. i < n \<Longrightarrow> fdspec (P i) (f i) (\<lambda>_. P (Suc i)) S" and "a \<le> n"
  shows "fdspec (P a) (kfor f [a..<n]) (\<lambda>_. P n) S"
  using assms(2)
proof (induction rule: inc_induct)
  case base
  then show ?case by (auto intro: fdspec_basic)
next
  case (step i)
  then show ?case using assms(1) [of i] by (auto simp: upt_conv_Cons intro: fdspec_kbind)
qed

text \<open>A new process comes from the dead entries of the table.\<close>

lemma allocproc_Some:
  assumes "allocproc tr fr s = Ret (Some np) s'"
  shows "np < NPROC" and "\<not> alive (procs s np)"
proof -
  have "find_proc (\<lambda>q. pstate q = UNUSED) [0..<NPROC] (procs s) = Some np"
    using assms unfolding allocproc_def by (auto elim!: kbind_eq_RetE split: option.splits if_splits)
  from find_proc_Some [OF this] show "np < NPROC" "\<not> alive (procs s np)" by (auto simp: alive_def)
qed

lemma fdspec_allocproc:
  assumes "vok (\<lambda>_. 0) {} F tab c D"
  shows "fdspec (fdfix (F, tab, c) D) (allocproc tr fr)
     (\<lambda>r s. (\<forall>np. r = Some np \<longrightarrow> np < NPROC \<and> np \<in> D) \<and> fdfix (F, tab, c) D s) fd_ok"
proof (rule fdspecI)
  fix s :: "'a filest_scheme" assume s: "fdfix (F, tab, c) D s"
  note m = fdspecD [OF inert_allocproc [unfolded inert_def] s]
  show "(\<forall>np. r = Some np \<longrightarrow> np < NPROC \<and> np \<in> D) \<and> fdfix (F, tab, c) D s'" if "allocproc tr fr s = Ret r s'" for r s'
    using m(1) [OF that] that allocproc_Some [of tr fr s] fdfix_dead [OF s] by blast
  show "fd_ok s'" if "allocproc tr fr s = Sleeps ch s'" for ch s' using m(2) [OF that] assms by (rule fd_okI)
  show "e \<notin> fd_panics" if "allocproc tr fr s = Panic e" for e using m(3) [OF that] .
qed

lemma fdspec_fork_file:
  assumes "vok (\<lambda>_. 0) {} F tab (Some cp) (D - {np})" and "np \<in> D" "np < NPROC" and "tab np i = None"
  shows "fdspec (fdfix (F, tab, Some cp) D) (fork_file cp np i)
     (\<lambda>_ s. \<exists>F'. vok (\<lambda>_. 0) {} F' (tab(np := (tab np)(i := tab cp i))) (Some cp) (D - {np})
        \<and> fdfix (F', tab(np := (tab np)(i := tab cp i)), Some cp) D s) S"
  unfolding fork_file_def
proof (rule fdspec_kget, goal_cases)
  case (1 s)
  note view = fd_view(3) [OF 1, of cp]
  show ?case
  proof (cases "tab cp i")
    case None
    then have "tab(np := (tab np)(i := tab cp i)) = tab" using assms(4) by (simp add: fun_eq_iff)
    then show ?thesis using None view assms(1) by (auto intro!: fdspec_basic)
  next
    case (Some f)
    note f = held_ref [OF assms(1) Some, simplified]
    have i: "i < NOFILE" using vok_D(3) [OF assms(1) Some] by simp
    let ?F = "F(f := (fst (F f) + 1, snd (F f)))"
    have "vok (\<lambda>_. 0) {} ?F (tab(np := (tab np)(i := Some f))) (Some cp) (D - {np})"
      using vok_setfd [OF vok_dup [OF assms(1) f(2,1)] assms(4,3) i f(2)] by simp
    moreover have "fdspec (fdfix (F, tab, Some cp) D) (kbind (filedup f) (\<lambda>f. upd_proc np (\<lambda>q. q\<lparr>ofile := (ofile q)(i := Some f)\<rparr>)))
        (\<lambda>_. fdfix (?F, tab(np := (tab np)(i := Some f)), Some cp) D) S"
    proof (rule fdspec_kbind)
      show "fdspec (fdfix (F, tab, Some cp) D) (filedup f) (\<lambda>r s. r = f \<and> fdfix (?F, tab, Some cp) D s) S"
        using fdspec_filedup [of F f tab "Some cp" D S] f(1)
        by (intro fdspecI) (auto dest: fdspecD simp: filedup_def elim!: kbind_eq_RetE split: if_splits)
      show "fdspec (\<lambda>s. r = f \<and> fdfix (?F, tab, Some cp) D s) (upd_proc np (\<lambda>q. q\<lparr>ofile := (ofile q)(i := Some r)\<rparr>))
          (\<lambda>_. fdfix (?F, tab(np := (tab np)(i := Some f)), Some cp) D) S" for r
        by (cases "r = f") (simp_all add: fdspec_upd_ofile, simp add: fdspec_def)
    qed
    ultimately show ?thesis unfolding Some view option.case by (auto elim: fdspec_weaken)
  qed
qed

text \<open>The child's table after \<open>i\<close> steps of the loop.\<close>

lemma fdspec_fork_files:
  assumes "vok (\<lambda>_. 0) {} F tab (Some cp) D" and "np \<in> D" "np < NPROC"
  shows "fdspec (fdfix (F, tab, Some cp) D) (kfor (fork_file cp np) [0..<NOFILE])
     (\<lambda>_ s. \<exists>F'. vok (\<lambda>_. 0) {} F' (tab(np := tab cp)) (Some cp) (D - {np}) \<and> fdfix (F', tab(np := tab cp), Some cp) D s) S"
proof -
  define row where "row i = (\<lambda>j. if j < i then tab cp j else None)" for i
  define P where "P i s \<longleftrightarrow> (\<exists>F'. vok (\<lambda>_. 0) {} F' (tab(np := row i)) (Some cp) (D - {np}) \<and> fdfix (F', tab(np := row i), Some cp) D s)"
    for i and s :: "'a filest_scheme"
  have cp: "cp \<noteq> np" using vok_D(5) [OF assms(1) refl] assms(2) by auto
  have row: "(row i)(i := tab cp i) = row (Suc i)" for i by (auto simp: row_def less_Suc_eq)
  have "fdspec (P i) (fork_file cp np i) (\<lambda>_. P (Suc i)) S" if "i < NOFILE" for i
    unfolding P_def
  proof (rule fdspec_ex)
    fix F' assume "vok (\<lambda>_. 0) {} F' (tab(np := row i)) (Some cp) (D - {np})"
    from fdspec_fork_file [OF this assms(2,3), of i S]
    show "fdspec (fdfix (F', tab(np := row i), Some cp) D) (fork_file cp np i)
        (\<lambda>_ s. \<exists>F'. vok (\<lambda>_. 0) {} F' (tab(np := row (Suc i))) (Some cp) (D - {np}) \<and> fdfix (F', tab(np := row (Suc i)), Some cp) D s) S"
      using cp row [of i] by (simp add: row_def)
  qed
  then have "fdspec (P 0) (kfor (fork_file cp np) [0..<NOFILE]) (\<lambda>_. P NOFILE) S" by (rule fdspec_kfor_upt) simp_all
  moreover have "P 0 s" if "fdfix (F, tab, Some cp) D s" for s
  proof -
    have "tab(np := row 0) = tab" using vok_D(4) [OF assms(1,2)] by (auto simp: row_def fun_eq_iff)
    then show ?thesis using that vok_dead_mono [OF assms(1), of "D - {np}"] by (auto simp: P_def)
  qed
  moreover have "row NOFILE = tab cp"
  proof
    show "row NOFILE j = tab cp j" for j using vok_D(3) [OF assms(1), of cp j] by (cases "tab cp j") (auto simp: row_def)
  qed
  ultimately show ?thesis by (auto simp: P_def elim: fdspec_weaken)
qed

lemma fdspec_revive: "fdspec (fdfix V D) (upd_proc p (\<lambda>q. q\<lparr>pstate := RUNNABLE\<rparr>)) (\<lambda>_. fdfix V (D - {p})) S"
  unfolding upd_proc_def by (rule fdspec_kmod) (auto simp: fdfix_def fdv_def deads_def curr_proc_def alive_def)

lemma fdspec_fork_ready:
  assumes "vok (\<lambda>_. 0) {} F tab c (D - {np})"
  shows "fdspec (fdfix (F, tab, c) D) (fork_ready cp np) (\<lambda>_. fd_ok) S"
  unfolding fork_ready_def
proof (rule fdspec_inert, intro inert_rules, rule fdspec_kbind [OF fdspec_revive], intro fdspec_inert inert_rules inert_upd_proc fdspec_basic)
  show "fd_ok s" if "fdfix (F, tab, c) (D - {np}) s" for s using that assms by (rule fd_okI)
qed (auto simp: alive_def upd_proc_def intro!: nosleep_rules)

lemma fd_ok_fork: "fdspec fd_ok (fork tr fr) (\<lambda>_. fd_ok) fd_ok"
  unfolding fork_def
proof (rule fdspec_fd_ok, goal_cases)
  case (1 F tab c D)
  note ok = 1
  show ?case
  proof (intro fdspec_step [OF fdspec_allocproc [OF ok] refl] fdspec_option fdspec_curr, goal_cases)
    case (2 r np cp)
    then have np: "np < NPROC" "np \<in> D" and c: "c = Some cp" by auto
    note ok' = ok [unfolded c]
    have tail: "fdspec (fdfix (F', tab(np := tab cp), Some cp) D)
        (kbind (kget (\<lambda>s. cwd (procs s cp))) (\<lambda>d. kbind (case d of None \<Rightarrow> fault ''idup'' | Some ip \<Rightarrow> idup ip) (\<lambda>ip.
         kbind (upd_proc np (\<lambda>q. q\<lparr>cwd := Some ip\<rparr>)) (\<lambda>_. fork_ready cp np)))) (\<lambda>_. fd_ok) fd_ok"
      if "vok (\<lambda>_. 0) {} F' (tab(np := tab cp)) (Some cp) (D - {np})" for F'
      using that by (intro fdspec_inert inert_rules inert_upd_proc fdspec_fork_ready)
        (auto simp: alive_def upd_proc_def intro!: nosleep_rules)
    have files: "fdspec (fdfix (F, tab, Some cp) D)
        (kbind (kfor (fork_file cp np) [0..<NOFILE]) (\<lambda>_.
         kbind (kget (\<lambda>s. cwd (procs s cp))) (\<lambda>d. kbind (case d of None \<Rightarrow> fault ''idup'' | Some ip \<Rightarrow> idup ip) (\<lambda>ip.
         kbind (upd_proc np (\<lambda>q. q\<lparr>cwd := Some ip\<rparr>)) (\<lambda>_. fork_ready cp np))))) (\<lambda>_. fd_ok) fd_ok"
      by (intro fdspec_kbind [OF fdspec_fork_files [OF ok' np(2,1)]] fdspec_ex tail)
    show ?case
      unfolding c
      by (intro fdspec_pre [OF ok'] fdspec_if files)
        (use np in \<open>auto simp: fork_undo_def fork_copy_def alive_def intro!: inert_rules inert_upd_proc fdspec_post [OF ok']\<close>)
  qed (use ok in \<open>auto intro!: fdspec_basic elim: fd_okI\<close>)
qed

section \<open>Exit\<close>

text \<open>One file of the caller: it is closed first and leaves the table after that, so a sleep in between sees one reference too few.\<close>

lemma fdspec_exit_file:
  assumes "vok (\<lambda>_. 0) {} F tab (Some cp) D"
  shows "fdspec (fdfix (F, tab, Some cp) D) (exit_file cp fd)
     (\<lambda>_ s. \<exists>F'. vok (\<lambda>_. 0) {} F' (tab(cp := (tab cp)(fd := None))) (Some cp) D
        \<and> fdfix (F', tab(cp := (tab cp)(fd := None)), Some cp) D s) (\<lambda>s. fd_ok s \<or> fd_closing s)"
  unfolding exit_file_def
proof (rule fdspec_kget, goal_cases)
  case (1 s)
  note view = fd_view(3) [OF 1, of cp]
  show ?case
  proof (cases "tab cp fd")
    case None
    then have "tab(cp := (tab cp)(fd := None)) = tab" by (simp add: fun_eq_iff)
    then show ?thesis using None view assms by (auto intro!: fdspec_basic)
  next
    case (Some f)
    note f = held_ref [OF assms Some, simplified]
    have mid: "vok ((\<lambda>_. 0)(f := - 1)) {} (closed f F) tab (Some cp) D" using vok_close [OF assms f(2,1)] by simp
    have "vok (\<lambda>_. 0) {} (closed f F) (tab(cp := (tab cp)(fd := None))) (Some cp) D" using vok_clearfd [OF mid Some] by simp
    moreover have "fdspec (fdfix (F, tab, Some cp) D) (kbind (fileclose f) (\<lambda>_. upd_proc cp (\<lambda>q. q\<lparr>ofile := (ofile q)(fd := None)\<rparr>)))
        (\<lambda>_. fdfix (closed f F, tab(cp := (tab cp)(fd := None)), Some cp) D) (\<lambda>s. fd_ok s \<or> fd_closing s)"
      using f(1) by (intro fdspec_kbind [OF fdspec_fileclose fdspec_upd_ofile] disjI2 fd_closingI [OF _ mid])
    ultimately show ?thesis unfolding Some view option.case by (auto elim: fdspec_weaken)
  qed
qed

lemma fdspec_exit_files:
  assumes "vok (\<lambda>_. 0) {} F tab (Some cp) D"
  shows "fdspec (fdfix (F, tab, Some cp) D) (kfor (exit_file cp) [0..<NOFILE])
     (\<lambda>_ s. \<exists>F'. vok (\<lambda>_. 0) {} F' (tab(cp := Map.empty)) (Some cp) D \<and> fdfix (F', tab(cp := Map.empty), Some cp) D s)
     (\<lambda>s. fd_ok s \<or> fd_closing s)"
proof -
  define row where "row i = (\<lambda>j. if j < i then None else tab cp j)" for i
  define P where "P i s \<longleftrightarrow> (\<exists>F'. vok (\<lambda>_. 0) {} F' (tab(cp := row i)) (Some cp) D \<and> fdfix (F', tab(cp := row i), Some cp) D s)"
    for i and s :: "'a filest_scheme"
  have row: "(row i)(i := None) = row (Suc i)" for i by (auto simp: row_def less_Suc_eq)
  have "fdspec (P i) (exit_file cp i) (\<lambda>_. P (Suc i)) (\<lambda>s. fd_ok s \<or> fd_closing s)" if "i < NOFILE" for i
    unfolding P_def
  proof (rule fdspec_ex)
    fix F' assume "vok (\<lambda>_. 0) {} F' (tab(cp := row i)) (Some cp) D"
    from fdspec_exit_file [OF this, of i]
    show "fdspec (fdfix (F', tab(cp := row i), Some cp) D) (exit_file cp i)
        (\<lambda>_ s. \<exists>F'. vok (\<lambda>_. 0) {} F' (tab(cp := row (Suc i))) (Some cp) D \<and> fdfix (F', tab(cp := row (Suc i)), Some cp) D s)
        (\<lambda>s. fd_ok s \<or> fd_closing s)"
      using row [of i] by simp
  qed
  then have "fdspec (P 0) (kfor (exit_file cp) [0..<NOFILE]) (\<lambda>_. P NOFILE) (\<lambda>s. fd_ok s \<or> fd_closing s)"
    by (rule fdspec_kfor_upt) simp_all
  moreover have "row 0 = tab cp" by (simp add: row_def)
  moreover have "row NOFILE = Map.empty"
  proof
    show "row NOFILE j = None" for j using vok_D(3) [OF assms, of cp j] by (cases "tab cp j") (auto simp: row_def)
  qed
  moreover have "P 0 s" if "fdfix (F, tab, Some cp) D s" for s
    using that assms calculation(2) by (auto simp: P_def)
  ultimately show ?thesis by (elim fdspec_weaken) (auto simp: P_def)
qed

lemma inert_reparent [inert_rules]: "inert V D (reparent cp p)"
  unfolding reparent_def by (intro inert_rules inert_upd_proc) (auto simp: alive_def)

lemma fdspec_zombie: "fdspec (fdfix V D) (upd_proc p (\<lambda>q. q\<lparr>pstate := ZOMBIE\<rparr>)) (\<lambda>_. fdfix V (insert p D)) S"
  unfolding upd_proc_def by (rule fdspec_kmod) (auto simp: fdfix_def fdv_def deads_def curr_proc_def alive_def)

lemma inert_sched [inert_rules]: "inert V D sched"
  unfolding sched_def by (intro inert_rules) simp

lemma fd_leftI:
  assumes "fdfix (F, tab, Some cp) (insert cp D) s" and "vok (\<lambda>_. 0) {} F tab (Some cp) D" and "tab cp = Map.empty"
  shows "fd_left s"
proof -
  have "vok (\<lambda>_. 0) {} F tab None (insert cp D)" using assms(2,3) by (auto simp: vok_def)
  then show ?thesis using assms(1,3) by (auto simp: fd_left_def fdfix_def fdv_def intro: vok_dead_mono)
qed

lemma fdspec_exit_table:
  assumes "vok (\<lambda>_. 0) {} F tab (Some cp) D" and "tab cp = Map.empty"
  shows "fdspec (fdfix (F, tab, Some cp) D) exit_table (\<lambda>_. fd_left) (\<lambda>s. fd_ok s \<or> fd_closing s)"
  unfolding exit_table_def
proof (rule fdspec_curr, goal_cases)
  case (1 cp')
  then have cp: "cp' = cp" by simp
  have z: "fdspec (fdfix (F, tab, Some cp) D) (kbind (upd_proc cp (\<lambda>q. q\<lparr>pstate := ZOMBIE\<rparr>)) (\<lambda>_. sched)) (\<lambda>_. fd_left) (\<lambda>s. fd_ok s \<or> fd_closing s)"
  proof (rule fdspec_kbind [OF fdspec_zombie])
    have "nosleep sched" unfolding sched_def with_curr_def by (intro nosleep_rules)
    then show "fdspec (fdfix (F, tab, Some cp) (insert cp D)) sched (\<lambda>_. fd_left) (\<lambda>s. fd_ok s \<or> fd_closing s)"
      using fdspecD [OF inert_sched [unfolded inert_def]] by (intro fdspecI) (blast intro: fd_leftI [OF _ assms] dest: nosleepD)+
  qed
  show ?case
    unfolding cp by (intro fdspec_inert [where m = "kfor g xs" for g xs] fdspec_inert [where m = "kget g" for g]
        fdspec_inert [where m = "case x of None \<Rightarrow> y | Some z \<Rightarrow> wakeup1 (h z)" for x y h] z inert_rules)
      (auto intro: fd_okI [OF _ assms(1)])
qed

lemma fd_ok_exit: "fdspec fd_ok exit (\<lambda>_. fd_left) (\<lambda>s. fd_ok s \<or> fd_closing s)"
  unfolding exit_def
proof (intro fdspec_fd_ok fdspec_curr, goal_cases)
  case (1 F tab c D cp)
  then have ok: "vok (\<lambda>_. 0) {} F tab (Some cp) D" by simp
  have tail: "fdspec (fdfix (F', tab(cp := Map.empty), Some cp) D)
      (kbind (kget (\<lambda>s. cwd (procs s cp))) (\<lambda>d. kbind (case d of None \<Rightarrow> fault ''iput'' | Some ip \<Rightarrow> iput ip) (\<lambda>_.
       kbind (upd_proc cp (\<lambda>q. q\<lparr>cwd := None\<rparr>)) (\<lambda>_. exit_table)))) (\<lambda>_. fd_left) (\<lambda>s. fd_ok s \<or> fd_closing s)"
    if ok': "vok (\<lambda>_. 0) {} F' (tab(cp := Map.empty)) (Some cp) D" for F'
    by (intro fdspec_inert inert_rules inert_upd_proc fdspec_exit_table [OF ok'])
      (auto simp: alive_def intro: fd_okI [OF _ ok'])
  show ?case
    unfolding 1(2)
    by (intro fdspec_inert [where m = "kget g" for g] fdspec_if fdspec_kbind [OF fdspec_exit_files [OF ok]] fdspec_ex tail)
      (auto intro!: inert_rules fdspec_basic nosleep_rules)
qed

section \<open>Every system call\<close>

text \<open>The states that a call may return in, and those that it may sleep in.\<close>

abbreviation (input) fd_after :: "'z filest_scheme \<Rightarrow> bool" where
  "fd_after s \<equiv> fd_ok s \<or> fd_left s"

abbreviation (input) fd_asleep :: "'z filest_scheme \<Rightarrow> bool" where
  "fd_asleep s \<equiv> fd_ok s \<or> fd_closing s"

lemma fd_ok_keep: "fdspec fd_ok m (\<lambda>_. fd_ok) fd_ok \<Longrightarrow> fdspec fd_ok m (\<lambda>_. fd_after) fd_asleep"
  by (erule fdspec_weaken) auto

lemma fd_after_inert:
  fixes m :: "('z filest_scheme, 'a) kop"
  assumes "\<And>V D. inert V D m" and "nosleep m"
  shows "fdspec fd_after m (\<lambda>_. fd_after) S"
proof (rule fdspecI)
  fix s :: "'z filest_scheme" assume s: "fd_after s"
  have "fdfix (fdv s) (deads s) s" by (simp add: fdfix_def)
  note m = fdspecD [OF assms(1) [of "fdv s" "deads s", unfolded inert_def] this]
  show "fd_after s'" if "m s = Ret a s'" for a s'
  proof -
    have v: "fdfix (fdv s) (deads s) s'" by (rule m(1) [OF that])
    then have e: "(\<lambda>f. (f_ref (files s' f), f_type (files s' f))) = (\<lambda>f. (f_ref (files s f), f_type (files s f)))"
      "(\<lambda>p. ofile (procs s' p)) = (\<lambda>p. ofile (procs s p))" "curr_proc s' = curr_proc s" "deads s' \<subseteq> deads s"
      by (simp_all add: fdfix_def fdv_def)
    have "fd_left s'" if "fd_left s"
      using that vok_dead_mono [OF _ e(4)] fun_cong [OF e(2)] unfolding fd_left_def e by simp
    then show ?thesis using s v fd_okI [of _ _ _ "deads s" s'] unfolding fd_ok_def fdv_def by blast
  qed
  show "S s'" if "m s = Sleeps c s'" for c s' using that nosleepD [OF assms(2)] by auto
  show "e \<notin> fd_panics" if "m s = Panic e" for e using m(3) [OF that] .
qed

lemma sys_table_ok:
  assumes "\<And>V D. inert_dev V D dv" and "sys_table dv tr fr n = Some f" and "n < 23"
  shows "fdspec fd_ok f (\<lambda>_. fd_after) fd_asleep"
proof -
  let ?inert = "{wait, sys_kill, sys_exec dv, sys_fstat, sys_chdir dv, sys_getpid, sys_sbrk, sys_sleep, sys_uptime, sys_mknod dv,
       sys_unlink dv, sys_link dv, sys_mkdir dv, sys_cpuutil}"
  let ?files = "{fork tr fr, sys_pipe, sys_read dv, sys_write dv, sys_dup, sys_open dv, sys_close}"
  have "n \<in> set [0..<23]" using assms(3) by simp
  then have f: "f \<in> insert (kbind exit (\<lambda>_. kreturn 0)) (?inert \<union> ?files)" using assms(2) by (auto simp: sys_table_def upt_rec)
  have "fdspec fd_ok f (\<lambda>_. fd_ok) fd_ok" if "f \<in> ?inert"
    using that by (intro fd_ok_inert) (auto intro: inert_rules assms(1))
  moreover have "fdspec fd_ok f (\<lambda>_. fd_ok) fd_ok" if "f \<in> ?files"
    using that fd_ok_fork fd_ok_sys_pipe fd_ok_sys_io [OF assms(1)] fd_ok_sys_dup fd_ok_sys_open [OF assms(1)] fd_ok_sys_close by auto
  moreover have "fdspec fd_ok (kbind exit (\<lambda>_. kreturn 0)) (\<lambda>_. fd_after) fd_asleep"
    by (rule fdspec_kbind [OF fd_ok_exit]) (auto intro: fdspec_basic)
  ultimately show ?thesis using f fd_ok_keep [of f] by (elim insertE UnE) simp_all
qed

lemma fdspec_ok_pre:
  assumes "\<And>V D. inert V D m" and "\<And>a. fdspec fd_ok (f a) Q fd_asleep"
  shows "fdspec fd_ok (kbind m f) Q fd_asleep"
  by (rule fdspec_kbind [OF _ assms(2)]) (rule fdspec_weaken [OF fd_ok_inert [OF assms(1)]]; simp)

lemma fd_ok_syscall:
  assumes "\<And>V D. inert_dev V D dv"
  shows "fdspec fd_ok (syscall dv tr fr) (\<lambda>_. fd_after) fd_asleep"
proof -
  have ret: "fdspec fd_after (if n \<noteq> (7 :: int) then kbind (kget (\<lambda>s. tf (procs s cp))) (\<lambda>t. store (t + 16) v) else kreturn ()) (\<lambda>_. fd_after) fd_asleep"
    for n cp v by (intro fd_after_inert inert_rules nosleep_rules)
  have unk: "fdspec fd_ok (kbind (kget (\<lambda>s. procs s cp)) (\<lambda>q. kbind (cprintf m (as q)) (\<lambda>_.
      kbind (kget (\<lambda>s. tf (procs s cp))) (\<lambda>t. store (t + 16) (- 1))))) (\<lambda>_. fd_after) fd_asleep" for cp m "as"
    by (intro fd_ok_keep fd_ok_inert inert_rules)
  show ?thesis
    unfolding syscall_def with_curr_def Let_def
    by (intro fdspec_ok_pre inert_rules fdspec_option fdspec_if fdspec_basic unk fdspec_kbind [OF sys_table_ok [OF assms] ret])
      auto
qed

lemma fd_ok_swi_handler:
  assumes "\<And>V D. inert_dev V D dv"
  shows "fdspec fd_ok (swi_handler dv tr fr r) (\<lambda>_. fd_after) fd_asleep"
  unfolding swi_handler_def
  by (intro fdspec_ok_pre inert_rules inert_upd_proc fd_ok_syscall assms) (auto simp: alive_def)



section \<open>Example\<close>

text \<open>Process 0 has file 0 open and calls \<^verbatim>\<open>dup\<close>.\<close>

definition ex_dup :: sysst where
  "ex_dup = (ex_call 10)
     \<lparr>procs := \<lambda>p. if p = 0 then (ex_proc RUNNING 1 None)\<lparr>ofile := [0 \<mapsto> 0]\<rparr> else ex_proc UNUSED 0 None,
      cpu_proc := \<lambda>_. Some 0,
      files := \<lambda>f. if f = 0 then ex_file\<lparr>f_type := FD_INODE, f_ref := 1\<rparr> else ex_file\<rparr>"

lemma ex_dup_ok: "fd_ok ex_dup"
proof -
  have "holders (\<lambda>p. ofile (procs ex_dup p)) f = (if f = 0 then {(0, 0)} else {})" for f
    by (auto simp: holders_def ex_dup_def ex_proc_def split: if_splits)
  then show ?thesis
    unfolding fd_ok_def vok_def by (auto simp: ex_dup_def ex_proc_def ex_file_def deads_def alive_def curr_proc_def split: if_splits)
qed

lemma ex_dup_run: "\<exists>s'. swi_handler console_devsw 0 0 0 ex_dup = Ret () s' \<and> ofile (procs s' 0) 1 = Some 0 \<and> f_ref (files s' 0) = 2"
proof -
  define s1 where "s1 = ex_dup\<lparr>procs := (procs ex_dup)(0 := (procs ex_dup 0)\<lparr>tf := 0\<rparr>)\<rparr>"
  have s1: "curr_proc s1 = Some 0" "pm s1 = (\<lambda>_. 0)(16 := 10)" "tf (procs s1 0) = 0" "ofile (procs s1 0) = [0 \<mapsto> 0]" "f_ref (files s1 0) = 1"
    by (simp_all add: s1_def ex_dup_def curr_proc_def ex_call_def consst.defs ex_proc_def)
  have "curr_proc ex_dup = Some 0" by (simp add: ex_dup_def curr_proc_def)
  then have swi: "swi_handler console_devsw 0 0 0 ex_dup = syscall console_devsw 0 0 s1"
    by (simp add: swi_handler_def with_curr_def upd_proc_def s1_def)
  define s2 where "s2 = s1\<lparr>procs := (procs s1)(0 := (procs s1 0)\<lparr>ofile := [0 \<mapsto> 0, 1 \<mapsto> 0]\<rparr>)\<rparr>"
  define s3 where "s3 = s2\<lparr>files := (files s2)(0 := (files s2 0)\<lparr>f_ref := 2\<rparr>)\<rparr>"
  have "fdalloc 0 s1 = Ret (Some 1) s2" by (simp add: fdalloc_def with_curr_def s1 upd_proc_def s2_def upt_rec)
  moreover have "filedup 0 s2 = Ret 0 s3" by (simp add: filedup_def upd_file_def s3_def s2_def s1)
  moreover have "argfd 0 s1 = Ret (Some (0, 0)) s1" by (simp add: argfd_def argint_def with_curr_def s1 load_def ld32_def)
  ultimately have "sys_dup s1 = Ret 1 s3" by (simp add: sys_dup_def)
  moreover have "tf (procs s3 0) = 0" "ofile (procs s3 0) 1 = Some 0" "f_ref (files s3 0) = 2" by (simp_all add: s3_def s2_def s1)
  ultimately show ?thesis
    unfolding swi by (simp add: syscall_def with_curr_def s1 load_def ld32_def Let_def sys_table_def store_def)
qed



end
