(* ===== verification/Grep.thy ===== *)
theory Grep
  imports Prelude
begin

text \<open>
  The pattern search of \<^verbatim>\<open>uprogs/grep.c\<close>: the matcher on C strings (lists of bytes without the final NUL) and the
  loop over the lines of a file. The results of the successive \<^verbatim>\<open>read\<close> calls are an argument of the loop, its
  output the list of lines written.
\<close>

section \<open>The matcher\<close>

text \<open>
  An empty list is a pointer to the NUL. The characters are the bytes 42 (star), 36 (dollar), 46 (dot) and 94
  (caret).
\<close>

function matchhere :: "byte list \<Rightarrow> byte list \<Rightarrow> bool" and matchstar :: "byte \<Rightarrow> byte list \<Rightarrow> byte list \<Rightarrow> bool" where
  "matchhere re text =
     (case re of [] \<Rightarrow> True
      | c # re' \<Rightarrow>
          if re' \<noteq> [] \<and> hd re' = 42 then matchstar c (tl re') text
          else if c = 36 \<and> re' = [] then text = []
          else case text of [] \<Rightarrow> False | x # text' \<Rightarrow> if c = 46 \<or> c = x then matchhere re' text' else False)"
| "matchstar c re text =
     (if matchhere re text then True
      else case text of [] \<Rightarrow> False | x # text' \<Rightarrow> if x = c \<or> c = 46 then matchstar c re text' else False)"
  by pat_completeness auto
termination
  by (relation "inv_image (less_than <*lex*> less_than)
       (\<lambda>z. case z of Inl (re, t) \<Rightarrow> (2 * length re, length t) | Inr (c, re, t) \<Rightarrow> (2 * length re + 1, length t))")
    (auto simp: neq_Nil_conv)

declare matchhere.simps [simp del] matchstar.simps [simp del]

text \<open>The loop of \<^verbatim>\<open>match\<close> over the suffixes of the text, the empty one included.\<close>

fun match_from :: "byte list \<Rightarrow> byte list \<Rightarrow> bool" where
  "match_from re [] = matchhere re []"
| "match_from re (x # text) = (if matchhere re (x # text) then True else match_from re text)"

definition match :: "byte list \<Rightarrow> byte list \<Rightarrow> bool" where
  "match re text = (if re \<noteq> [] \<and> hd re = 94 then matchhere (tl re) text else match_from re text)"

section \<open>The lines of a file\<close>

text \<open>
  \<^verbatim>\<open>strchr(p, '\n')\<close> in the buffer: the distance to the next newline, \<open>Some None\<close> at a NUL, and \<open>None\<close>
  when neither comes before the end of the array.
\<close>

fun find_newline :: "byte list \<Rightarrow> nat option option" where
  "find_newline [] = None"
| "find_newline (c # cs) = (if c = 0 then Some None else if c = 10 then Some (Some 0) else map_option (map_option Suc) (find_newline cs))"

lemma find_newline_Some: "find_newline bs = Some (Some k) \<Longrightarrow> k < length bs"
  by (induction bs arbitrary: k) (auto split: if_splits)

text \<open>The inner loop from position \<open>p\<close> on: the lines written, the buffer and the position it stops at.\<close>

function grep_lines :: "byte list \<Rightarrow> byte list \<Rightarrow> nat \<Rightarrow> (byte list list \<times> byte list \<times> nat) option" where
  "grep_lines re buf p =
     (case find_newline (drop p buf) of
        None \<Rightarrow> None
      | Some None \<Rightarrow> Some ([], buf, p)
      | Some (Some k) \<Rightarrow>
          if match re (take k (drop p buf))
          then map_option (\<lambda>(out, b, q). (take (k + 1) (drop p buf) # out, b, q)) (grep_lines re buf (p + k + 1))
          else grep_lines re (buf[p + k := 0]) (p + k + 1))"
  by pat_completeness auto
termination
  by (relation "measure (\<lambda>(re, buf, p). length buf - p)") (auto dest: find_newline_Some)

declare grep_lines.simps [simp del]

text \<open>
  \<^verbatim>\<open>grep\<close> on the results of its reads, a read of no bytes ending it; \<open>None\<close> when it leaves the array, whose size is
  1024. The count \<^verbatim>\<open>m\<close> is signed.
\<close>

fun grep :: "byte list \<Rightarrow> byte list \<Rightarrow> int \<Rightarrow> byte list list \<Rightarrow> byte list list option" where
  "grep re buf m [] = Some []"
| "grep re buf m (bs # reads) =
     (if bs = [] then Some []
      else if m < 0 \<or> m + int (length bs) > 1024 then None
      else
        let buf1 = take (nat m) buf @ bs @ drop (nat m + length bs) buf; m1 = m + int (length bs) in
        case grep_lines re buf1 0 of
          None \<Rightarrow> None
        | Some (out, buf2, p) \<Rightarrow>
            let m2 = (if p = 0 then 0 else m1);
                m3 = (if m2 > 0 then m2 - int p else m2);
                buf3 = (if m2 > 0 then take (nat m3) (drop p buf2) @ drop (nat m3) buf2 else buf2)
            in map_option (append out) (grep re buf3 m3 reads))"

section \<open>What a pattern means\<close>

datatype item = One byte | Star byte | Eol

fun items :: "byte list \<Rightarrow> item list" where
  "items [] = []"
| "items [c] = [if c = 36 then Eol else One c]"
| "items (c # d # re) = (if d = 42 then Star c # items re else One c # items (d # re))"

definition fits :: "byte \<Rightarrow> byte \<Rightarrow> bool" where
  "fits c x \<longleftrightarrow> c = 46 \<or> c = x"

text \<open>\<open>denotes is m r\<close>: the items match the text \<open>m\<close> when \<open>r\<close> follows it.\<close>

inductive denotes :: "item list \<Rightarrow> byte list \<Rightarrow> byte list \<Rightarrow> bool" where
  nil: "denotes [] [] r"
| one: "fits c x \<Longrightarrow> denotes is m r \<Longrightarrow> denotes (One c # is) (x # m) r"
| star: "(\<forall>x\<in>set xs. fits c x) \<Longrightarrow> denotes is m r \<Longrightarrow> denotes (Star c # is) (xs @ m) r"
| eol: "denotes [Eol] [] []"

inductive_simps denotes_simps: "denotes [] m r" "denotes (One c # is) m r" "denotes (Star c # is) m r" "denotes (Eol # is) m r"

definition at_start :: "item list \<Rightarrow> byte list \<Rightarrow> bool" where
  "at_start is text \<longleftrightarrow> (\<exists>m r. text = m @ r \<and> denotes is m r)"

lemma at_startI: "denotes is m r \<Longrightarrow> at_start is (m @ r)"
  by (auto simp: at_start_def)

lemma at_start_simps:
  "at_start [] text"
  "at_start (One c # is) text \<longleftrightarrow> (\<exists>x t. text = x # t \<and> fits c x \<and> at_start is t)"
  "at_start [Eol] text \<longleftrightarrow> text = []"
proof -
  show "at_start [] text" "at_start [Eol] text \<longleftrightarrow> text = []" by (auto simp: at_start_def denotes_simps)
  have "at_start (One c # is) (x # t)" if f: "fits c x" and a: "at_start is t" for x t
  proof -
    obtain m r where t: "t = m @ r" "denotes is m r" using a by (auto simp: at_start_def)
    show ?thesis using at_startI [OF one [OF f t(2)]] t(1) by simp
  qed
  moreover have "\<exists>x t. text = x # t \<and> fits c x \<and> at_start is t" if "at_start (One c # is) text"
    using that at_startI by (auto simp: at_start_def [of "One c # is"] denotes_simps)
  ultimately show "at_start (One c # is) text \<longleftrightarrow> (\<exists>x t. text = x # t \<and> fits c x \<and> at_start is t)" by blast
qed

lemma at_start_star:
  "at_start (Star c # is) text \<longleftrightarrow> at_start is text \<or> (\<exists>x t. text = x # t \<and> fits c x \<and> at_start (Star c # is) t)"
proof
  assume "at_start (Star c # is) text"
  then obtain xs m r where h: "text = (xs @ m) @ r" "\<forall>x\<in>set xs. fits c x" "denotes is m r" by (auto simp: at_start_def denotes_simps)
  show "at_start is text \<or> (\<exists>x t. text = x # t \<and> fits c x \<and> at_start (Star c # is) t)"
  proof (cases xs)
    case (Cons x ys)
    then have "at_start (Star c # is) ((ys @ m) @ r)" using h by (intro at_startI star) auto
    then show ?thesis using Cons h by auto
  qed (use h in \<open>auto simp: at_start_def\<close>)
next
  assume "at_start is text \<or> (\<exists>x t. text = x # t \<and> fits c x \<and> at_start (Star c # is) t)"
  then show "at_start (Star c # is) text"
  proof
    assume "at_start is text"
    then obtain m r where "text = m @ r" "denotes is m r" by (auto simp: at_start_def)
    then have "denotes (Star c # is) ([] @ m) r" by (intro star) auto
    then show ?thesis using \<open>text = m @ r\<close> by (auto simp: at_start_def)
  next
    assume "\<exists>x t. text = x # t \<and> fits c x \<and> at_start (Star c # is) t"
    then obtain x xs m r where h: "text = x # (xs @ m) @ r" "fits c x" "\<forall>x\<in>set xs. fits c x" "denotes is m r"
      by (auto simp: at_start_def denotes_simps)
    then have "denotes (Star c # is) ((x # xs) @ m) r" by (intro star) auto
    from at_startI [OF this] show ?thesis using h(1) by simp
  qed
qed

lemma matchhere_items:
  "matchhere re t \<longleftrightarrow> at_start (items re) t"
  "matchstar c re t \<longleftrightarrow> at_start (Star c # items re) t"
proof (induction re t and c re t rule: matchhere_matchstar.induct)
  case (1 re t)
  note here = this
  show ?case
  proof (cases re rule: items.cases)
    case 1
    then show ?thesis by (simp add: matchhere.simps at_start_simps)
  next
    case (2 c)
    then show ?thesis using here by (auto simp: matchhere.simps [of "[c]"] at_start_simps fits_def split: list.splits)
  next
    case (3 c d re')
    then show ?thesis using here by (auto simp: matchhere.simps [of "c # d # re'"] at_start_simps fits_def split: list.splits)
  qed
next
  case (2 c re t)
  then show ?case by (subst at_start_star) (auto simp: matchstar.simps [of c re t] fits_def split: list.splits)
qed

lemma match_from_suffix: "match_from re t \<longleftrightarrow> (\<exists>a b. t = a @ b \<and> matchhere re b)"
proof (induction t)
  case (Cons x t)
  have "(\<exists>a b. x # t = a @ b \<and> matchhere re b) \<longleftrightarrow> matchhere re (x # t) \<or> (\<exists>a b. t = a @ b \<and> matchhere re b)"
    by (auto simp: Cons_eq_append_conv)
  then show ?case using Cons.IH by simp
qed simp

text \<open>
  C30: the matcher decides what the pattern means: a pattern that starts with a caret matches a line if and only if the
  items after it denote a prefix of the line, any other if and only if they denote a part of the line, where a dollar
  at the end of the pattern asks for the end of the line, a star for any number of repetitions and a dot for any
  character.
\<close>

theorem match_correct:
  "match re text \<longleftrightarrow>
     (if re \<noteq> [] \<and> hd re = 94 then \<exists>m r. text = m @ r \<and> denotes (items (tl re)) m r
      else \<exists>a m r. text = a @ m @ r \<and> denotes (items re) m r)"
  by (auto simp: match_def match_from_suffix matchhere_items at_start_def)

section \<open>Lines\<close>

text \<open>A text of whole lines.\<close>

definition line_ok :: "byte list \<Rightarrow> bool" where
  "line_ok l \<longleftrightarrow> 0 \<notin> set l \<and> 10 \<notin> set l"

definition unlines :: "byte list list \<Rightarrow> byte list" where
  "unlines ls = concat (map (\<lambda>l. l @ [10]) ls)"

lemma find_newline_line: "line_ok l \<Longrightarrow> find_newline (l @ 10 # bs) = Some (Some (length l))"
  by (induction l) (auto simp: line_ok_def)

text \<open>The inner loop on whole lines after which a NUL follows.\<close>

lemma grep_lines_run:
  assumes "drop p buf = unlines ls @ 0 # rest" and "p \<le> length buf" and "\<forall>l\<in>set ls. line_ok l"
  shows "\<exists>buf'. grep_lines re buf p = Some (map (\<lambda>l. l @ [10]) (filter (match re) ls), buf', p + length (unlines ls))
    \<and> length buf' = length buf"
  using assms
proof (induction ls arbitrary: p buf)
  case Nil
  then show ?case by (simp add: grep_lines.simps [of re] unlines_def)
next
  case (Cons l ls)
  have d: "drop p buf = l @ 10 # unlines ls @ 0 # rest" using Cons.prems(1) by (simp add: unlines_def)
  have lo: "line_ok l" using Cons.prems(3) by simp
  have n: "length buf - p = length l + 1 + length (unlines ls @ 0 # rest)" using arg_cong [OF d, of length] by simp
  let ?q = "p + length l + 1"
  have d1: "drop ?q b = unlines ls @ 0 # rest" if "drop (Suc (p + length l)) b = drop (Suc (p + length l)) buf" for b
  proof -
    have "drop ?q buf = drop (length l + 1) (drop p buf)" by (simp add: add.commute add.assoc)
    then show ?thesis using that unfolding d by simp
  qed
  have tk: "take (length l) (drop p buf) = l" "take (length l + 1) (drop p buf) = l @ [10]" unfolding d by simp_all
  have q: "?q \<le> length b" if "length b = length buf" for b using n that by simp
  show ?case
  proof (cases "match re l")
    case True
    obtain b where "grep_lines re buf ?q = Some (map (\<lambda>l. l @ [10]) (filter (match re) ls), b, ?q + length (unlines ls))" "length b = length buf"
      using Cons.IH [OF d1 q] Cons.prems(3) by auto
    then show ?thesis using True by (simp add: grep_lines.simps [of re buf p] d find_newline_line [OF lo] unlines_def)
  next
    case False
    let ?b = "buf[p + length l := 0]"
    have dr: "drop (Suc (p + length l)) ?b = drop (Suc (p + length l)) buf" by simp
    obtain b where "grep_lines re ?b ?q = Some (map (\<lambda>l. l @ [10]) (filter (match re) ls), b, ?q + length (unlines ls))" "length b = length buf"
      using Cons.IH [OF d1 [OF dr] q] Cons.prems(3) by auto
    then show ?thesis using False by (simp add: grep_lines.simps [of re buf p] d find_newline_line [OF lo] unlines_def)
  qed
qed


text \<open>
  With two reads the bytes of the first that lie after the second are still in the buffer, and the second search
  runs into them: the unfinished line \<^verbatim>\<open>c\<close>, continued by \<^verbatim>\<open>d\<close>, is completed by the old line \<^verbatim>\<open>bb\<close>. The count is
  negative afterwards, and the next read is stored in front of the array.
\<close>

lemma grep_stale_line:
  "grep [46] (replicate 1024 0) 0 [[97, 10, 98, 98, 10, 99], [100]] = Some [[97, 10], [98, 98, 10], [99, 100, 98, 98, 10]]"
  "grep [46] (replicate 1024 0) 0 [[97, 10, 98, 98, 10, 99], [100], [101]] = None"
proof -
  define r :: "byte list" where "r = replicate 1017 0"
  have b: "replicate 1024 0 = 0 # 0 # 0 # 0 # 0 # 0 # 0 # r" unfolding r_def by (simp add: numeral_eq_Suc)
  have m: "match [46] (x # t)" for x t by (simp add: match_def matchhere.simps match_from.simps)
  note ev = grep_lines.simps [of "[46]"] m
  show "grep [46] (replicate 1024 0) 0 [[97, 10, 98, 98, 10, 99], [100]] = Some [[97, 10], [98, 98, 10], [99, 100, 98, 98, 10]]"
    unfolding b by (simp add: ev)
  show "grep [46] (replicate 1024 0) 0 [[97, 10, 98, 98, 10, 99], [100], [101]] = None"
    unfolding b by (simp add: ev)
qed


end
