(* ===== verification/Shell.thy ===== *)
theory Shell
  imports Prelude
begin

text \<open>
  The command parser of \<^verbatim>\<open>uprogs/sh.c\<close>. The line is the list of its bytes before the NUL; pointers into it are
  positions, and \<^verbatim>\<open>es\<close> is its length. A syntax error is a value. The recursion of the four parse functions is
  bounded by fuel; \<open>parsecmd\<close> starts with fuel that always suffices.
\<close>

section \<open>Tokens\<close>

definition whitespace :: "byte list" where "whitespace = [32, 9, 13, 10, 11]"
definition symbols :: "byte list" where "symbols = [60, 124, 62, 38, 59, 40, 41]"

text \<open>The byte at a position, the NUL at the end.\<close>

definition chr_at :: "byte list \<Rightarrow> nat \<Rightarrow> byte" where
  "chr_at b p = (if p < length b then b ! p else 0)"

text \<open>The loops over white space and over the characters of a word.\<close>

function skip_ws :: "byte list \<Rightarrow> nat \<Rightarrow> nat" where
  "skip_ws b p = (if p < length b \<and> b ! p \<in> set whitespace then skip_ws b (p + 1) else p)"
  by pat_completeness auto
termination by (relation "measure (\<lambda>(b, p). length b - p)") auto

declare skip_ws.simps [simp del]

function skip_word :: "byte list \<Rightarrow> nat \<Rightarrow> nat" where
  "skip_word b p = (if p < length b \<and> b ! p \<notin> set whitespace \<and> b ! p \<notin> set symbols then skip_word b (p + 1) else p)"
  by pat_completeness auto
termination by (relation "measure (\<lambda>(b, p). length b - p)") auto

declare skip_word.simps [simp del]

record token =
  t_kind :: byte
  t_q :: nat
  t_eq :: nat
  t_rest :: nat

text \<open>
  The kind of a token is its symbol, 43 (plus) for the append symbol, 97 (the letter a) for a word and 0 at the end;
  \<open>t_rest\<close> is the new value of \<^verbatim>\<open>*ps\<close>.
\<close>

definition gettoken :: "byte list \<Rightarrow> nat \<Rightarrow> token" where
  "gettoken b p =
     (let q = skip_ws b p; c = chr_at b q;
          (ret, s) = (if c = 0 then (c, q)
                      else if c \<in> {124, 40, 41, 59, 38, 60} then (c, q + 1)
                      else if c = 62 then if chr_at b (q + 1) = 62 then (43, q + 2) else (c, q + 1)
                      else (97, skip_word b q))
      in \<lparr>t_kind = ret, t_q = q, t_eq = s, t_rest = skip_ws b s\<rparr>)"

text \<open>\<^verbatim>\<open>peek\<close> moves \<^verbatim>\<open>*ps\<close> over white space, which is the second result.\<close>

definition peek :: "byte list \<Rightarrow> nat \<Rightarrow> byte list \<Rightarrow> bool \<times> nat" where
  "peek b p toks = (let s = skip_ws b p in (chr_at b s \<noteq> 0 \<and> chr_at b s \<in> set toks, s))"

lemma skip_ws_le: "p \<le> skip_ws b p"
  by (induction b p rule: skip_ws.induct) (subst skip_ws.simps, auto)

lemma skip_word_le: "p \<le> skip_word b p"
  by (induction b p rule: skip_word.induct) (subst skip_word.simps, auto)

lemma skip_ws_stop: "skip_ws b p < length b \<Longrightarrow> b ! skip_ws b p \<notin> set whitespace"
proof (induction b p rule: skip_ws.induct)
  case (1 b p)
  then show ?case by (subst skip_ws.simps, subst (asm) (2) skip_ws.simps) auto
qed

lemma gettoken_sel:
  "t_q (gettoken b p) = skip_ws b p" "t_rest (gettoken b p) = skip_ws b (t_eq (gettoken b p))"
  "t_q (gettoken b p) \<le> t_eq (gettoken b p)" "t_kind (gettoken b p) \<noteq> 0 \<Longrightarrow> t_q (gettoken b p) < t_eq (gettoken b p)"
proof -
  let ?q = "skip_ws b p"
  have "?q < skip_word b ?q" if "chr_at b ?q \<noteq> 0" "chr_at b ?q \<notin> set symbols"
    using that skip_ws_stop [of b p] skip_word_le [of "?q + 1" b]
    by (subst skip_word.simps) (auto simp: chr_at_def split: if_splits)
  then show "t_q (gettoken b p) = ?q" "t_rest (gettoken b p) = skip_ws b (t_eq (gettoken b p))"
    "t_q (gettoken b p) \<le> t_eq (gettoken b p)" "t_kind (gettoken b p) \<noteq> 0 \<Longrightarrow> t_q (gettoken b p) < t_eq (gettoken b p)"
    using skip_word_le [of ?q b] by (auto simp: gettoken_def Let_def symbols_def split: if_splits)
qed

lemma gettoken_le: "p \<le> t_rest (gettoken b p)" "t_kind (gettoken b p) \<noteq> 0 \<Longrightarrow> p < t_rest (gettoken b p)"
  using gettoken_sel [of b p] skip_ws_le [of p b] skip_ws_le [of "t_eq (gettoken b p)" b] by (auto intro: order_trans)

lemma peek_snd [simp]: "snd (peek b p toks) = skip_ws b p"
  by (simp add: peek_def Let_def)

lemma skip_ws_idem [simp]: "skip_ws b (skip_ws b p) = skip_ws b p"
  using skip_ws_stop [of b p] by (subst skip_ws.simps) auto

lemma peek_token: "fst (peek b p toks) \<Longrightarrow> t_kind (gettoken b (skip_ws b p)) \<noteq> 0"
  by (auto simp: peek_def gettoken_def Let_def)

lemma gettoken_in: "t_kind (gettoken b p) \<noteq> 0 \<Longrightarrow> p < length b"
  using skip_ws_le [of p b] by (auto simp: gettoken_def Let_def chr_at_def split: if_splits)

lemma peek_in: "fst (peek b p toks) \<Longrightarrow> p < length b"
  using skip_ws_le [of p b] by (auto simp: peek_def Let_def chr_at_def split: if_splits)

lemma peek_step: "fst (peek b p toks) \<Longrightarrow> p < t_rest (gettoken b (skip_ws b p))"
  using gettoken_le(2) [of b "skip_ws b p"] peek_token [of b p toks] skip_ws_le [of p b] by simp

section \<open>Commands\<close>

text \<open>Words are pairs of positions, as \<^verbatim>\<open>argv[i]\<close> and \<^verbatim>\<open>eargv[i]\<close> or \<^verbatim>\<open>file\<close> and \<^verbatim>\<open>efile\<close> are.\<close>

datatype cmd =
    EXEC "(nat \<times> nat) list"
  | REDIR cmd "nat \<times> nat" nat nat
  | PIPE cmd cmd
  | LIST cmd cmd
  | BACK cmd

datatype parse_error = Syntax string | Out_of_fuel

type_synonym 'a presult = "parse_error + 'a"

definition pbind :: "'a presult \<Rightarrow> ('a \<Rightarrow> 'b presult) \<Rightarrow> 'b presult" where
  "pbind r f = (case r of Inl e \<Rightarrow> Inl e | Inr x \<Rightarrow> f x)"

lemma pbind_simps [simp]: "pbind (Inl e) f = Inl e" "pbind (Inr x) f = f x"
  by (simp_all add: pbind_def)

lemma pbind_cong [fundef_cong]: "r = r' \<Longrightarrow> (\<And>x. r' = Inr x \<Longrightarrow> f x = g x) \<Longrightarrow> pbind r f = pbind r' g"
  by (cases r') simp_all

text \<open>A redirection: the file, the open mode (0 or \<^verbatim>\<open>O_WRONLY|O_CREATE\<close>, for append too) and the descriptor.\<close>

definition redir_of :: "token \<Rightarrow> token \<Rightarrow> (nat \<times> nat) \<times> nat \<times> nat" where
  "redir_of tok w = ((t_q w, t_eq w), if t_kind tok = 60 then (0, 0) else (0x201, 1))"

definition add_redirs :: "((nat \<times> nat) \<times> nat \<times> nat) list \<Rightarrow> cmd \<Rightarrow> cmd" where
  "add_redirs rs c = foldl (\<lambda>c (w, mode, fd). REDIR c w mode fd) c rs"

text \<open>
  \<^verbatim>\<open>parseredirs\<close> returns the redirections and the new position: the caller wraps its command in them, which
  \<^verbatim>\<open>parseexec\<close> may still extend by arguments.
\<close>

function parseredirs :: "byte list \<Rightarrow> nat \<Rightarrow> (((nat \<times> nat) \<times> nat \<times> nat) list \<times> nat) presult" where
  "parseredirs b p =
     (let s = skip_ws b p in
      if fst (peek b p [60, 62]) then
        let tok = gettoken b s; w = gettoken b (t_rest tok) in
        if t_kind w \<noteq> 97 then Inl (Syntax ''missing file for redirection'')
        else pbind (parseredirs b (t_rest w)) (\<lambda>(rs, p). Inr (redir_of tok w # rs, p))
      else Inr ([], s))"
  by pat_completeness auto
termination
proof (relation "measure (\<lambda>(b, p). length b - p)", goal_cases)
  case (2 b p s tok w)
  then show ?case using peek_in [of b p] peek_step [of b p] gettoken_le(1) [of "t_rest tok" b] by fastforce
qed simp

declare parseredirs.simps [simp del]

text \<open>The loop of \<^verbatim>\<open>parseexec\<close> over the arguments, with the redirections between them.\<close>

function exec_args :: "byte list \<Rightarrow> nat \<Rightarrow> nat \<Rightarrow> ((nat \<times> nat) list \<times> ((nat \<times> nat) \<times> nat \<times> nat) list \<times> nat) presult" where
  "exec_args b p argc =
     (let s = skip_ws b p in
      if fst (peek b p [124, 41, 38, 59]) then Inr ([], [], s)
      else
        let tok = gettoken b s in
        if t_kind tok = 0 then Inr ([], [], t_rest tok)
        else if t_kind tok \<noteq> 97 then Inl (Syntax ''syntax'')
        else if argc + 1 \<ge> 10 then Inl (Syntax ''too many args'')
        else pbind (parseredirs b (t_rest tok)) (\<lambda>(rs, p).
             pbind (exec_args b p (argc + 1)) (\<lambda>(as, rs', p).
             Inr ((t_q tok, t_eq tok) # as, rs @ rs', p))))"
  by pat_completeness auto
termination
  by (relation "measure (\<lambda>(b, p, argc). 10 - argc)") auto

declare exec_args.simps [simp del]

text \<open>The loop of \<^verbatim>\<open>parseline\<close> over the ampersands.\<close>

function parse_back :: "byte list \<Rightarrow> nat \<Rightarrow> cmd \<Rightarrow> cmd \<times> nat" where
  "parse_back b p c =
     (if fst (peek b p [38]) then parse_back b (t_rest (gettoken b (skip_ws b p))) (BACK c) else (c, skip_ws b p))"
  by pat_completeness auto
termination
  by (relation "measure (\<lambda>(b, p, c). length b - p)") (auto intro!: diff_less_mono2 peek_step peek_in)

declare parse_back.simps [simp del]

fun parseline :: "nat \<Rightarrow> byte list \<Rightarrow> nat \<Rightarrow> (cmd \<times> nat) presult"
  and parsepipe :: "nat \<Rightarrow> byte list \<Rightarrow> nat \<Rightarrow> (cmd \<times> nat) presult"
  and parseexec :: "nat \<Rightarrow> byte list \<Rightarrow> nat \<Rightarrow> (cmd \<times> nat) presult"
  and parseblock :: "nat \<Rightarrow> byte list \<Rightarrow> nat \<Rightarrow> (cmd \<times> nat) presult" where
  "parseline 0 b p = Inl Out_of_fuel"
| "parseline (Suc n) b p =
     pbind (parsepipe n b p) (\<lambda>(c, p).
     let (c, p) = parse_back b p c; s = skip_ws b p in
     if fst (peek b p [59]) then
       pbind (parseline n b (t_rest (gettoken b s))) (\<lambda>(r, p). Inr (LIST c r, p))
     else Inr (c, s))"
| "parsepipe 0 b p = Inl Out_of_fuel"
| "parsepipe (Suc n) b p =
     pbind (parseexec n b p) (\<lambda>(c, p).
     let s = skip_ws b p in
     if fst (peek b p [124]) then
       pbind (parsepipe n b (t_rest (gettoken b s))) (\<lambda>(r, p). Inr (PIPE c r, p))
     else Inr (c, s))"
| "parseexec 0 b p = Inl Out_of_fuel"
| "parseexec (Suc n) b p =
     (if fst (peek b p [40]) then parseblock n b (skip_ws b p)
      else
        pbind (parseredirs b (skip_ws b p)) (\<lambda>(rs, p).
        pbind (exec_args b p 0) (\<lambda>(as, rs', p).
        Inr (add_redirs (rs @ rs') (EXEC as), p))))"
| "parseblock 0 b p = Inl Out_of_fuel"
| "parseblock (Suc n) b p =
     (if \<not> fst (peek b p [40]) then Inl (Syntax ''parseblock'')
      else
        pbind (parseline n b (t_rest (gettoken b (skip_ws b p)))) (\<lambda>(c, p).
        if \<not> fst (peek b p [41]) then Inl (Syntax ''syntax - missing )'')
        else
          pbind (parseredirs b (t_rest (gettoken b (skip_ws b p)))) (\<lambda>(rs, p).
          Inr (add_redirs rs c, p))))"

text \<open>
  \<^verbatim>\<open>nulterminate\<close> stores a NUL at the end of every word, in a memory that holds the line and its NUL.
\<close>

fun nulterminate :: "cmd \<Rightarrow> byte list \<Rightarrow> byte list" where
  "nulterminate (EXEC as) m = foldl (\<lambda>m (q, eq). m[eq := 0]) m as"
| "nulterminate (REDIR c (q, eq) mode fd) m = (nulterminate c m)[eq := 0]"
| "nulterminate (PIPE l r) m = nulterminate r (nulterminate l m)"
| "nulterminate (LIST l r) m = nulterminate r (nulterminate l m)"
| "nulterminate (BACK c) m = nulterminate c m"

definition parsecmd :: "byte list \<Rightarrow> (cmd \<times> byte list) presult" where
  "parsecmd b =
     pbind (parseline (4 * length b + 4) b 0) (\<lambda>(c, p).
     if skip_ws b p \<noteq> length b then Inl (Syntax ''syntax'')
     else Inr (c, nulterminate c (b @ [0])))"

text \<open>The C string at a position of the memory.\<close>

definition cstr :: "byte list \<Rightarrow> nat \<Rightarrow> byte list" where
  "cstr m q = takeWhile (\<lambda>c. c \<noteq> 0) (drop q m)"

end
