(* ===== verification/Shell_Proofs.thy ===== *)
theory Shell_Proofs
  imports Shell
begin

text \<open>
  The shell's parser always returns, and it inverts the printing of commands: every command tree, printed with the
  parentheses it needs, is parsed back to itself.
\<close>

section \<open>The parser returns\<close>

lemma pbind_InrE:
  assumes "pbind r f = Inr y"
  obtains x where "r = Inr x" and "f x = Inr y"
  using assms by (cases r) auto

lemma pbind_Inl_iff: "pbind r f = Inl e \<longleftrightarrow> r = Inl e \<or> (\<exists>x. r = Inr x \<and> f x = Inl e)"
  by (cases r) auto

lemma parseredirs_le: "parseredirs b p = Inr (rs, p') \<Longrightarrow> p \<le> p'"
proof (induction b p arbitrary: rs p' rule: parseredirs.induct)
  case (1 b p)
  let ?t = "gettoken b (skip_ws b p)"
  let ?w = "gettoken b (t_rest ?t)"
  show ?case
  proof (cases "fst (peek b p [60, 62]) \<and> t_kind ?w = 97")
    case True
    then obtain rs' where r: "parseredirs b (t_rest ?w) = Inr (rs', p')"
      using "1.prems" by (auto simp: parseredirs.simps [of b p] Let_def elim!: pbind_InrE split: if_splits)
    then have "t_rest ?w \<le> p'" using "1.IH" True by auto
    then show ?thesis using peek_step [of b p] gettoken_le(1) [of "t_rest ?t" b] True by fastforce
  next
    case False
    then show ?thesis using "1.prems" skip_ws_le [of p b] by (auto simp: parseredirs.simps [of b p] Let_def split: if_splits)
  qed
qed

lemma parseredirs_fuel: "parseredirs b p \<noteq> Inl Out_of_fuel"
  by (induction b p rule: parseredirs.induct) (subst parseredirs.simps, auto simp: Let_def pbind_Inl_iff)

lemma exec_args_le: "exec_args b p argc = Inr (as, rs, p') \<Longrightarrow> p \<le> p'"
proof (induction b p argc arbitrary: as rs p' rule: exec_args.induct)
  case (1 b p argc)
  let ?t = "gettoken b (skip_ws b p)"
  have le: "p \<le> t_rest ?t" using skip_ws_le [of p b] gettoken_le(1) [of "skip_ws b p" b] by simp
  show ?case
  proof (cases "fst (peek b p [124, 41, 38, 59]) \<or> t_kind ?t = 0")
    case True
    then show ?thesis using "1.prems" le skip_ws_le [of p b] by (auto simp: exec_args.simps [of b p] Let_def split: if_splits)
  next
    case False
    then obtain rs1 p1 as' rs' where r: "parseredirs b (t_rest ?t) = Inr (rs1, p1)" "exec_args b p1 (argc + 1) = Inr (as', rs', p')"
      and k: "t_kind ?t = 97" "\<not> 10 \<le> argc + 1"
      using "1.prems" by (auto simp: exec_args.simps [of b p] Let_def elim!: pbind_InrE split: if_splits)
    have "p1 \<le> p'" using "1.IH" r False k by auto
    then show ?thesis using parseredirs_le [OF r(1)] le by simp
  qed
qed

lemma exec_args_fuel: "exec_args b p argc \<noteq> Inl Out_of_fuel"
  by (induction b p argc rule: exec_args.induct) (subst exec_args.simps, auto simp: Let_def pbind_Inl_iff parseredirs_fuel)

lemma parse_back_le: "p \<le> snd (parse_back b p c)"
proof (induction b p c rule: parse_back.induct)
  case (1 b p c)
  then show ?case using peek_step [of b p "[38]"] skip_ws_le [of p b] by (auto simp: parse_back.simps [of b p c])
qed

lemma peek_next: "fst (peek b p toks) \<Longrightarrow> p < t_rest (gettoken b (skip_ws b p)) \<and> p < length b"
  using peek_step peek_in by blast

lemma parse_le:
  "parseline n b p = Inr (c, p') \<Longrightarrow> p \<le> p'"
  "parsepipe n b p = Inr (c, p') \<Longrightarrow> p \<le> p'"
  "parseexec n b p = Inr (c, p') \<Longrightarrow> p \<le> p'"
  "parseblock n b p = Inr (c, p') \<Longrightarrow> p \<le> p'"
proof (induction n b p and n b p and n b p and n b p arbitrary: c p' and c p' and c p' and c p'
    rule: parseline_parsepipe_parseexec_parseblock.induct)
  case (2 n b p)
  obtain c1 p1 where r: "parsepipe n b p = Inr (c1, p1)" using "2.prems" by (auto elim: pbind_InrE)
  obtain c2 p2 where bk: "parse_back b p1 c1 = (c2, p2)" by (cases "parse_back b p1 c1")
  have le: "p \<le> p2" using "2.IH"(1) [OF r] parse_back_le [of p1 b c1] bk by simp
  show ?case
  proof (cases "fst (peek b p2 [59])")
    case True
    then obtain d where "parseline n b (t_rest (gettoken b (skip_ws b p2))) = Inr (d, p')"
      using "2.prems" r bk by (auto elim: pbind_InrE)
    then have "t_rest (gettoken b (skip_ws b p2)) \<le> p'" using "2.IH"(2) [OF r refl bk [symmetric] refl refl True] by simp
    then show ?thesis using peek_next [OF True] le by simp
  qed (use "2.prems" r bk le skip_ws_le [of p2 b] in auto)
next
  case (4 n b p)
  obtain c1 p1 where r: "parseexec n b p = Inr (c1, p1)" using "4.prems" by (auto elim: pbind_InrE)
  have le: "p \<le> p1" using "4.IH"(1) [OF r] .
  show ?case
  proof (cases "fst (peek b p1 [124])")
    case True
    then obtain d where "parsepipe n b (t_rest (gettoken b (skip_ws b p1))) = Inr (d, p')"
      using "4.prems" r by (auto simp: Let_def elim: pbind_InrE)
    then have "t_rest (gettoken b (skip_ws b p1)) \<le> p'" using "4.IH"(2) [OF r] True by auto
    then show ?thesis using peek_next [OF True] le by simp
  qed (use "4.prems" r le skip_ws_le [of p1 b] in \<open>auto simp: Let_def\<close>)
next
  case (6 n b p)
  show ?case
  proof (cases "fst (peek b p [40])")
    case True
    then show ?thesis using "6.IH" "6.prems" skip_ws_le [of p b] by fastforce
  next
    case False
    then obtain rs p1 as rs' where "parseredirs b (skip_ws b p) = Inr (rs, p1)" "exec_args b p1 0 = Inr (as, rs', p')"
      using "6.prems" by (auto elim!: pbind_InrE)
    then show ?thesis using parseredirs_le exec_args_le skip_ws_le [of p b] by (metis order_trans)
  qed
next
  case (8 n b p)
  let ?s = "t_rest (gettoken b (skip_ws b p))"
  have pk: "fst (peek b p [40])" using "8.prems" by (auto split: if_splits)
  obtain c1 p1 where r: "parseline n b ?s = Inr (c1, p1)" using "8.prems" pk by (auto elim: pbind_InrE)
  have le: "?s \<le> p1" using "8.IH" pk r by auto
  have pk1: "fst (peek b p1 [41])" using "8.prems" pk r by (auto split: if_splits)
  obtain rs where "parseredirs b (t_rest (gettoken b (skip_ws b p1))) = Inr (rs, p')" using "8.prems" pk r pk1 by (auto elim: pbind_InrE)
  then show ?case using parseredirs_le peek_next [OF pk] peek_next [OF pk1] le by fastforce
qed simp_all

lemma parse_fuel:
  "4 * (length b - p) + 4 \<le> n \<Longrightarrow> parseline n b p \<noteq> Inl Out_of_fuel"
  "4 * (length b - p) + 3 \<le> n \<Longrightarrow> parsepipe n b p \<noteq> Inl Out_of_fuel"
  "4 * (length b - p) + 2 \<le> n \<Longrightarrow> parseexec n b p \<noteq> Inl Out_of_fuel"
  "4 * (length b - p) + 1 \<le> n \<Longrightarrow> parseblock n b p \<noteq> Inl Out_of_fuel"
proof (induction n b p and n b p and n b p and n b p rule: parseline_parsepipe_parseexec_parseblock.induct)
  case (2 n b p)
  have "parseline n b (t_rest (gettoken b (skip_ws b p2))) \<noteq> Inl Out_of_fuel"
    if r: "parsepipe n b p = Inr (c1, p1)" and bk: "parse_back b p1 c1 = (c2, p2)" and pk: "fst (peek b p2 [59])" for c1 p1 c2 p2
  proof -
    have "p \<le> p2" using parse_le(2) [OF r] parse_back_le [of p1 b c1] bk by simp
    then have "4 * (length b - t_rest (gettoken b (skip_ws b p2))) + 4 \<le> n" using peek_next [OF pk] "2.prems" by linarith
    then show ?thesis using "2.IH"(2) [OF r refl bk [symmetric] refl refl pk] by simp
  qed
  then show ?case using "2.IH"(1) "2.prems" by (auto simp: pbind_Inl_iff Let_def split: prod.splits if_splits)
next
  case (4 n b p)
  have "parsepipe n b (t_rest (gettoken b (skip_ws b p1))) \<noteq> Inl Out_of_fuel"
    if r: "parseexec n b p = Inr (c1, p1)" and pk: "fst (peek b p1 [124])" for c1 p1
  proof -
    have "4 * (length b - t_rest (gettoken b (skip_ws b p1))) + 3 \<le> n" using parse_le(3) [OF r] peek_next [OF pk] "4.prems" by linarith
    then show ?thesis using "4.IH"(2) [OF r] pk by auto
  qed
  then show ?case using "4.IH"(1) "4.prems" by (auto simp: pbind_Inl_iff Let_def split: prod.splits if_splits)
next
  case (6 n b p)
  then show ?case using skip_ws_le [of p b] by (auto simp: pbind_Inl_iff parseredirs_fuel exec_args_fuel)
next
  case (8 n b p)
  show ?case
  proof (cases "fst (peek b p [40])")
    case True
    have "4 * (length b - t_rest (gettoken b (skip_ws b p))) + 4 \<le> n" using peek_next [OF True] "8.prems" by linarith
    then show ?thesis using "8.IH" True by (auto simp: pbind_Inl_iff parseredirs_fuel split: if_splits)
  qed simp
qed simp_all

text \<open>
  C31: the parser returns on every line: the fuel it starts with is enough, so its result is a command or one of the
  syntax errors.
\<close>

theorem parsecmd_returns: "parsecmd b \<noteq> Inl Out_of_fuel"
  using parse_fuel(1) [of b 0 "4 * length b + 4"] by (auto simp: parsecmd_def pbind_Inl_iff split: if_splits)

section \<open>Commands and their text\<close>

text \<open>Command trees over strings: what a parsed command says once its words are C strings.\<close>

datatype scmd =
    SExec "byte list list"
  | SRedir scmd "byte list" nat nat
  | SPipe scmd scmd
  | SList scmd scmd
  | SBack scmd

fun cview :: "byte list \<Rightarrow> cmd \<Rightarrow> scmd" where
  "cview m (EXEC as) = SExec (map (\<lambda>(q, eq). cstr m q) as)"
| "cview m (REDIR c (q, eq) mode fd) = SRedir (cview m c) (cstr m q) mode fd"
| "cview m (PIPE l r) = SPipe (cview m l) (cview m r)"
| "cview m (LIST l r) = SList (cview m l) (cview m r)"
| "cview m (BACK c) = SBack (cview m c)"

definition wordchar :: "byte \<Rightarrow> bool" where
  "wordchar c \<longleftrightarrow> c \<noteq> 0 \<and> c \<notin> set whitespace \<and> c \<notin> set symbols"

definition word_ok :: "byte list \<Rightarrow> bool" where
  "word_ok w \<longleftrightarrow> w \<noteq> [] \<and> (\<forall>c\<in>set w. wordchar c)"

text \<open>The redirections the grammar has: input, and output that creates the file.\<close>

definition redir_ok :: "byte list \<times> nat \<times> nat \<Rightarrow> bool" where
  "redir_ok r \<longleftrightarrow> word_ok (fst r) \<and> (snd r = (0, 0) \<or> snd r = (0x201, 1))"

fun scmd_ok :: "scmd \<Rightarrow> bool" where
  "scmd_ok (SExec ws) = (length ws < 10 \<and> (\<forall>w\<in>set ws. word_ok w))"
| "scmd_ok (SRedir c f mode fd) = (redir_ok (f, mode, fd) \<and> scmd_ok c)"
| "scmd_ok (SPipe l r) = (scmd_ok l \<and> scmd_ok r)"
| "scmd_ok (SList l r) = (scmd_ok l \<and> scmd_ok r)"
| "scmd_ok (SBack c) = scmd_ok c"

text \<open>
  The text of a command at a level: 0 for a line, 1 for what an ampersand may follow, 2 for a pipeline, 3 for one
  side of a bar. A command below its level is put in parentheses.
\<close>

definition paren :: "bool \<Rightarrow> byte list \<Rightarrow> byte list" where
  "paren b t = (if b then 40 # t @ [41] else t)"

definition show_redir :: "byte list \<times> nat \<times> nat \<Rightarrow> byte list" where
  "show_redir r = (if snd r = (0, 0) then 60 else 62) # fst r @ [32]"

fun show_cmd :: "nat \<Rightarrow> scmd \<Rightarrow> byte list" where
  "show_cmd l (SExec ws) = concat (map (\<lambda>w. w @ [32]) ws)"
| "show_cmd l (SRedir c f mode fd) = show_cmd 3 c @ show_redir (f, mode, fd)"
| "show_cmd l (SPipe a b) = paren (2 < l) (show_cmd 3 a @ 124 # show_cmd 2 b)"
| "show_cmd l (SList a b) = paren (0 < l) (show_cmd 1 a @ 59 # show_cmd 0 b)"
| "show_cmd l (SBack a) = paren (1 < l) (show_cmd 1 a @ [38])"

section \<open>Positions\<close>

text \<open>\<open>at b p t\<close>: the text \<open>t\<close> is what is left of the line at position \<open>p\<close>.\<close>

definition at :: "byte list \<Rightarrow> nat \<Rightarrow> byte list \<Rightarrow> bool" where
  "at b p t \<longleftrightarrow> (\<exists>pre. b = pre @ t \<and> p = length pre)"

lemma at_append: "at b p (xs @ t) \<Longrightarrow> at b (p + length xs) t"
  unfolding at_def by (metis append_assoc length_append)

lemma at_Cons: "at b p (c # t) \<Longrightarrow> at b (p + 1) t \<and> p < length b \<and> b ! p = c"
  using at_append [of b p "[c]" t] by (auto simp: at_def)

lemma at_Nil: "at b p [] \<longleftrightarrow> p = length b"
  by (auto simp: at_def)

lemma at_length: "at b p t \<Longrightarrow> length b = p + length t"
  by (auto simp: at_def)

lemma chr_at_at: "at b p (c # t) \<Longrightarrow> chr_at b p = c" "at b p [] \<Longrightarrow> chr_at b p = 0"
  by (auto simp: chr_at_def at_Nil dest: at_Cons)

text \<open>The text does not start with white space.\<close>

definition nows :: "byte list \<Rightarrow> bool" where
  "nows t \<longleftrightarrow> t = [] \<or> hd t \<notin> set whitespace"

lemma skip_ws_at: "at b p t \<Longrightarrow> nows t \<Longrightarrow> skip_ws b p = p"
  using at_Cons [of b p] by (subst skip_ws.simps, cases t) (auto simp: nows_def at_Nil)

lemma skip_ws_space: "at b p (32 # t) \<Longrightarrow> nows t \<Longrightarrow> skip_ws b p = p + 1"
  using at_Cons [of b p 32 t] skip_ws_at [of b "p + 1" t] by (subst skip_ws.simps) (simp add: whitespace_def)

lemma skip_word_at:
  assumes "\<forall>c\<in>set w. wordchar c" and "at b p (w @ 32 # t)"
  shows "skip_word b p = p + length w"
  using assms
proof (induction w arbitrary: p)
  case Nil
  then show ?case using at_Cons [of b p 32 t] by (subst skip_word.simps) (simp add: whitespace_def)
next
  case (Cons c w)
  have "skip_word b (p + 1) = p + 1 + length w" using Cons at_Cons [of b p c "w @ 32 # t"] by simp
  then show ?case using Cons.prems at_Cons [of b p c "w @ 32 # t"] by (subst skip_word.simps) (auto simp: wordchar_def)
qed

lemma peek_at: "at b p t \<Longrightarrow> nows t \<Longrightarrow> 0 \<notin> set toks \<Longrightarrow> fst (peek b p toks) \<longleftrightarrow> t \<noteq> [] \<and> hd t \<noteq> 0 \<and> hd t \<in> set toks"
  by (cases t) (auto simp: peek_def skip_ws_at chr_at_at)

lemma gettoken_symbol:
  assumes "at b p (c # t)" and "c \<in> {124, 40, 41, 59, 38, 60}" and "nows t"
  shows "gettoken b p = \<lparr>t_kind = c, t_q = p, t_eq = p + 1, t_rest = p + 1\<rparr>"
proof -
  have "nows (c # t)" using assms(2) by (auto simp: nows_def whitespace_def)
  then show ?thesis using assms at_Cons [OF assms(1)] skip_ws_at [of b "p + 1" t]
    by (auto simp: gettoken_def skip_ws_at [OF assms(1)] chr_at_at(1) [OF assms(1)])
qed

lemma gettoken_gt:
  assumes "at b p (62 # t)" and "nows t" and "t \<noteq> [] \<Longrightarrow> hd t \<noteq> 62"
  shows "gettoken b p = \<lparr>t_kind = 62, t_q = p, t_eq = p + 1, t_rest = p + 1\<rparr>"
proof -
  have n: "nows (62 # t)" by (auto simp: nows_def whitespace_def)
  have "chr_at b (p + 1) \<noteq> 62" using at_Cons [OF assms(1)] assms(3) by (cases t) (auto simp: chr_at_at)
  then show ?thesis using assms n at_Cons [OF assms(1)] skip_ws_at [of b "p + 1" t]
    by (auto simp: gettoken_def skip_ws_at [OF assms(1)] chr_at_at(1) [OF assms(1)])
qed

lemma gettoken_word:
  assumes "at b p (w @ 32 # t)" and "word_ok w" and "nows t"
  shows "gettoken b p = \<lparr>t_kind = 97, t_q = p, t_eq = p + length w, t_rest = p + length w + 1\<rparr>"
proof -
  obtain c w' where w: "w = c # w'" "wordchar c" using assms(2) by (cases w) (auto simp: word_ok_def)
  have a: "at b p (c # w' @ 32 # t)" using assms(1) w by simp
  have n: "nows (c # w' @ 32 # t)" using w by (simp add: nows_def wordchar_def)
  have "skip_ws b (p + length w) = p + length w + 1" using skip_ws_space [OF at_append [OF assms(1)] assms(3)] .
  moreover have "skip_word b p = p + length w" using skip_word_at [OF _ assms(1)] assms(2) by (simp add: word_ok_def)
  ultimately show ?thesis using w
    by (auto simp: gettoken_def skip_ws_at [OF a n] chr_at_at(1) [OF a] wordchar_def symbols_def)
qed

section \<open>Printed commands are parsed back\<close>

text \<open>The word between two positions, where the character after it does not belong to it.\<close>

definition reads :: "byte list \<Rightarrow> nat \<times> nat \<Rightarrow> byte list \<Rightarrow> bool" where
  "reads b w f \<longleftrightarrow> (\<exists>t. at b (fst w) (f @ t) \<and> snd w = fst w + length f \<and> word_ok f \<and> (t = [] \<or> \<not> wordchar (hd t)))"

fun means :: "byte list \<Rightarrow> cmd \<Rightarrow> scmd \<Rightarrow> bool" where
  "means b (EXEC as) c \<longleftrightarrow> (\<exists>ws. c = SExec ws \<and> list_all2 (reads b) as ws)"
| "means b (REDIR t w mode fd) c \<longleftrightarrow> (\<exists>c' f. c = SRedir c' f mode fd \<and> reads b w f \<and> means b t c')"
| "means b (PIPE l r) c \<longleftrightarrow> (\<exists>c' d. c = SPipe c' d \<and> means b l c' \<and> means b r d)"
| "means b (LIST l r) c \<longleftrightarrow> (\<exists>c' d. c = SList c' d \<and> means b l c' \<and> means b r d)"
| "means b (BACK t) c \<longleftrightarrow> (\<exists>c'. c = SBack c' \<and> means b t c')"

definition redir_means :: "byte list \<Rightarrow> (nat \<times> nat) \<times> nat \<times> nat \<Rightarrow> byte list \<times> nat \<times> nat \<Rightarrow> bool" where
  "redir_means b r sr \<longleftrightarrow> reads b (fst r) (fst sr) \<and> snd r = snd sr"

definition sredirs :: "(byte list \<times> nat \<times> nat) list \<Rightarrow> scmd \<Rightarrow> scmd" where
  "sredirs rs c = foldl (\<lambda>c (f, mode, fd). SRedir c f mode fd) c rs"

lemma means_add_redirs: "list_all2 (redir_means b) rs srs \<Longrightarrow> means b t c \<Longrightarrow> means b (add_redirs rs t) (sredirs srs c)"
  by (induction rs srs arbitrary: t c rule: list_all2_induct)
    (auto simp: add_redirs_def sredirs_def redir_means_def split: prod.splits)

lemma redir_token:
  assumes "at b p (show_redir r @ t)" and "redir_ok r" and "nows t"
  shows "\<exists>tok w. gettoken b p = tok \<and> t_rest tok = p + 1 \<and> gettoken b (p + 1) = w \<and> t_kind w = 97
    \<and> redir_means b (redir_of tok w) r \<and> at b (t_rest w) t \<and> fst (peek b p [60, 62]) \<and> skip_ws b p = p"
proof -
  obtain f m where r: "r = (f, m)" "word_ok f" "m = (0, 0) \<or> m = (0x201, 1)" using assms(2) by (cases r) (auto simp: redir_ok_def)
  let ?c = "if m = (0, 0) then 60 else 62 :: byte"
  have a: "at b p (?c # f @ 32 # t)" using assms(1) r by (simp add: show_redir_def)
  obtain x f' where f: "f = x # f'" "wordchar x" using r(2) by (cases f) (auto simp: word_ok_def)
  have n: "nows (f @ 32 # t)" "nows (?c # f @ 32 # t)" using f by (auto simp: nows_def wordchar_def whitespace_def)
  have a1: "at b (p + 1) (f @ 32 # t)" using at_Cons [OF a] by simp
  have tok: "gettoken b p = \<lparr>t_kind = ?c, t_q = p, t_eq = p + 1, t_rest = p + 1\<rparr>"
  proof (cases "m = (0, 0)")
    case True
    then show ?thesis using gettoken_symbol [OF a _ n(1)] by simp
  next
    case False
    moreover have "x \<noteq> 62" using f(2) by (auto simp: wordchar_def symbols_def)
    ultimately show ?thesis using gettoken_gt [of b p "f @ 32 # t"] a n(1) f(1) by simp
  qed
  note w = gettoken_word [OF a1 r(2) assms(3)]
  have "reads b (p + 1, p + 1 + length f) f" using a1 r(2) unfolding reads_def
    by (intro exI [of _ "32 # t"]) (simp add: wordchar_def whitespace_def)
  moreover have "at b (p + 1 + length f + 1) t" using at_append [OF a1] at_Cons by fastforce
  moreover have "fst (peek b p [60, 62])" using peek_at [OF a n(2), of "[60, 62]"] by simp
  ultimately show ?thesis using tok w r(1,3) skip_ws_at [OF a n(2)] by (auto simp: redir_means_def redir_of_def)
qed

lemma parseredirs_show:
  assumes "at b p (concat (map show_redir srs) @ t)" and "\<forall>r\<in>set srs. redir_ok r" and "nows t" and "t \<noteq> [] \<Longrightarrow> hd t \<notin> {60, 62}"
  shows "\<exists>rs p'. parseredirs b p = Inr (rs, p') \<and> at b p' t \<and> list_all2 (redir_means b) rs srs"
  using assms
proof (induction srs arbitrary: p)
  case Nil
  then have a: "at b p t" by simp
  then have "\<not> fst (peek b p [60, 62])" using peek_at [OF a Nil.prems(3), of "[60, 62]"] Nil.prems(4) by auto
  then show ?case using a skip_ws_at [OF a Nil.prems(3)] by (simp add: parseredirs.simps [of b p])
next
  case (Cons r srs)
  let ?t = "concat (map show_redir srs) @ t"
  have "nows ?t" using Cons.prems(3) by (cases srs) (auto simp: nows_def show_redir_def whitespace_def)
  then obtain tok w where k: "gettoken b p = tok" "t_rest tok = p + 1" "gettoken b (p + 1) = w" "t_kind w = 97"
    "redir_means b (redir_of tok w) r" "at b (t_rest w) ?t" "fst (peek b p [60, 62])" "skip_ws b p = p"
    using redir_token [of b p r ?t] Cons.prems(1,2) by auto
  obtain rs p' where "parseredirs b (t_rest w) = Inr (rs, p')" "at b p' t" "list_all2 (redir_means b) rs srs"
    using Cons.IH [OF k(6)] Cons.prems(2-4) by auto
  then show ?case using k by (subst parseredirs.simps) (simp add: Let_def)
qed

text \<open>What may follow a command: the end of the line or a symbol that ends it.\<close>

definition follow :: "byte list \<Rightarrow> byte list \<Rightarrow> bool" where
  "follow cs t \<longleftrightarrow> t = [] \<or> hd t \<in> set cs"

abbreviation (input) "exec_end \<equiv> [124, 41, 38, 59] :: byte list"

lemma follow_nows: "follow cs t \<Longrightarrow> set cs \<subseteq> set exec_end \<Longrightarrow> nows t"
  by (auto simp: follow_def nows_def whitespace_def)

lemma follow_redirs: "follow cs t \<Longrightarrow> set cs \<subseteq> set exec_end \<Longrightarrow> t \<noteq> [] \<Longrightarrow> hd t \<notin> {60, 62}"
  by (auto simp: follow_def)

abbreviation (input) "words_text ws \<equiv> concat (map (\<lambda>w. w @ [32]) ws) :: byte list"
abbreviation (input) "redirs_text rs \<equiv> concat (map show_redir rs)"

lemma word_start: "word_ok w \<Longrightarrow> nows (w @ t) \<and> hd (w @ t) \<notin> {60, 62} \<and> hd (w @ t) \<notin> set exec_end \<and> hd (w @ t) \<noteq> 40"
  by (cases w) (auto simp: word_ok_def wordchar_def nows_def symbols_def)

lemma exec_args_show:
  assumes "at b p (words_text ws @ redirs_text srs @ t)" and "\<forall>w\<in>set ws. word_ok w" and "\<forall>r\<in>set srs. redir_ok r" and "follow exec_end t"
    and "argc + length ws < 10" and "ws = [] \<Longrightarrow> srs = []"
  shows "\<exists>as rs p'. exec_args b p argc = Inr (as, rs, p') \<and> at b p' t \<and> list_all2 (reads b) as ws \<and> list_all2 (redir_means b) rs srs"
  using assms
proof (induction ws arbitrary: p argc srs)
  case Nil
  then have a: "at b p t" by simp
  have n: "nows t" using follow_nows [OF Nil.prems(4)] by simp
  show ?case
  proof (cases t)
    case Nil
    then have "gettoken b p = \<lparr>t_kind = 0, t_q = p, t_eq = p, t_rest = p\<rparr>"
      using a skip_ws_at [OF a n] by (simp add: gettoken_def chr_at_at(2))
    then show ?thesis using a n Nil peek_at [OF a n, of exec_end] skip_ws_at [OF a n] Nil.prems(6)
      by (subst exec_args.simps) (simp add: Let_def)
  next
    case (Cons c t')
    then have "fst (peek b p exec_end)" using peek_at [OF a n, of exec_end] Nil.prems(4) by (auto simp: follow_def)
    then show ?thesis using a skip_ws_at [OF a n] Nil.prems(6) by (subst exec_args.simps) (simp add: Let_def)
  qed
next
  case (Cons w ws)
  have w: "word_ok w" using Cons.prems(2) by simp
  let ?t = "words_text ws @ redirs_text srs @ t"
  have a: "at b p (w @ 32 # ?t)" using Cons.prems(1) by simp
  note ws = word_start [OF w, of "32 # ?t"]
  have n: "nows ?t" using follow_nows [OF Cons.prems(4)] Cons.prems(2)
    by (cases ws; cases srs) (auto simp: nows_def show_redir_def whitespace_def word_ok_def wordchar_def hd_append)
  note tok = gettoken_word [OF a w n]
  have pk: "\<not> fst (peek b p exec_end)" "skip_ws b p = p" using peek_at [OF a, of exec_end] ws skip_ws_at [OF a] by auto
  have a1: "at b (p + length w + 1) ?t" using at_append [OF a] at_Cons by fastforce
  have rd: "reads b (p, p + length w) w" unfolding reads_def using a w by (intro exI [of _ "32 # ?t"]) (simp add: wordchar_def whitespace_def)
  have "\<exists>rs1 p1 as rs2 p'. parseredirs b (p + length w + 1) = Inr (rs1, p1) \<and> exec_args b p1 (argc + 1) = Inr (as, rs2, p')
    \<and> at b p' t \<and> list_all2 (reads b) as ws \<and> list_all2 (redir_means b) (rs1 @ rs2) srs"
  proof (cases ws)
    case Nil
    then obtain rs1 p1 where r: "parseredirs b (p + length w + 1) = Inr (rs1, p1)" "at b p1 t" "list_all2 (redir_means b) rs1 srs"
      using parseredirs_show [of b "p + length w + 1" srs t] a1 Cons.prems(3) follow_nows [OF Cons.prems(4)] follow_redirs [OF Cons.prems(4)] by auto
    then show ?thesis using Cons.IH [of p1 "[]" "argc + 1"] Cons.prems(2,4,5) Nil by fastforce
  next
    case (Cons v vs)
    then have "word_ok v" using Cons.prems(2) by simp
    note vs = word_start [OF this, of "32 # words_text vs @ redirs_text srs @ t"]
    obtain rs1 p1 where r: "parseredirs b (p + length w + 1) = Inr (rs1, p1)" "at b p1 ?t" "list_all2 (redir_means b) rs1 []"
      using parseredirs_show [of b "p + length w + 1" "[]" ?t] a1 n vs Cons by auto
    then show ?thesis using Cons.IH [OF r(2), of "argc + 1"] Cons.prems(2-5) Cons by auto
  qed
  then show ?case using tok pk rd Cons.prems(5) by (subst exec_args.simps) (auto simp: Let_def)
qed

text \<open>
  The four levels of the grammar: each parse function reads the text of its level, wherever it stands in the line
  and whatever follows it. An ampersand may follow what is parsed before \<open>parse_back\<close>.
\<close>

definition parses_exec :: "scmd \<Rightarrow> bool" where
  "parses_exec c \<longleftrightarrow> (\<forall>b p srs t n. at b p (show_cmd 3 c @ redirs_text srs @ t) \<and> (\<forall>r\<in>set srs. redir_ok r) \<and> follow exec_end t
     \<and> 4 * (length b - p) + 2 \<le> n \<longrightarrow>
       (\<exists>x p'. parseexec n b p = Inr (x, p') \<and> at b p' t \<and> means b x (sredirs srs c)))"

definition parses_pipe :: "scmd \<Rightarrow> bool" where
  "parses_pipe c \<longleftrightarrow> (\<forall>b p t n. at b p (show_cmd 2 c @ t) \<and> follow [41, 38, 59] t \<and> 4 * (length b - p) + 3 \<le> n \<longrightarrow>
       (\<exists>x p'. parsepipe n b p = Inr (x, p') \<and> at b p' t \<and> means b x c))"

definition parses_back :: "scmd \<Rightarrow> bool" where
  "parses_back c \<longleftrightarrow> (\<forall>b p t n. at b p (show_cmd 1 c @ t) \<and> follow [41, 38, 59] t \<and> 4 * (length b - p) + 3 \<le> n \<longrightarrow>
       (\<exists>y q x p'. parsepipe n b p = Inr (y, q) \<and> parse_back b q y = parse_back b p' x \<and> at b p' t \<and> means b x c))"

definition parses_line :: "scmd \<Rightarrow> bool" where
  "parses_line c \<longleftrightarrow> (\<forall>b p t n. at b p (show_cmd 0 c @ t) \<and> follow [41] t \<and> 4 * (length b - p) + 4 \<le> n \<longrightarrow>
       (\<exists>x p'. parseline n b p = Inr (x, p') \<and> at b p' t \<and> means b x c))"

lemma parses_back_pipe: "parses_pipe c \<Longrightarrow> show_cmd 1 c = show_cmd 2 c \<Longrightarrow> parses_back c"
  unfolding parses_pipe_def parses_back_def by metis

text \<open>The text of a command does not start with white space.\<close>

lemma nows_Cons: "nows (c # t) \<longleftrightarrow> c \<notin> set whitespace"
  by (simp add: nows_def)

lemma nows_show: "scmd_ok c \<Longrightarrow> nows t \<Longrightarrow> nows (show_cmd l c @ t)"
proof (induction c arbitrary: l t)
  case (SExec ws)
  then show ?case by (cases ws) (auto simp: nows_def word_ok_def wordchar_def hd_append)
next
  case (SRedir c f mode fd)
  have "nows (show_redir (f, mode, fd) @ t)" by (auto simp: nows_def show_redir_def whitespace_def)
  then show ?case using SRedir by simp
qed (simp_all add: paren_def nows_Cons whitespace_def)

lemma nows_redirs: "nows t \<Longrightarrow> nows (redirs_text srs @ t)"
  by (cases srs) (auto simp: nows_def show_redir_def whitespace_def)

lemma exec_start:
  assumes "\<forall>w\<in>set ws. word_ok w" and "follow exec_end t"
  shows "words_text ws @ redirs_text srs @ t = [] \<or> hd (words_text ws @ redirs_text srs @ t) \<noteq> 40"
proof (cases ws)
  case Nil
  then show ?thesis using assms(2) by (cases srs) (auto simp: show_redir_def follow_def)
next
  case (Cons w vs)
  then show ?thesis using assms(1) word_start [of w "32 # words_text vs @ redirs_text srs @ t"] by simp
qed

lemma no_paren: "t = [] \<or> hd t \<noteq> 40 \<Longrightarrow> at b p t \<Longrightarrow> nows t \<Longrightarrow> \<not> fst (peek b p [40])"
  using peek_at [of b p t "[40]"] by auto

lemma parses_exec_SExec: "scmd_ok (SExec ws) \<Longrightarrow> parses_exec (SExec ws)"
  unfolding parses_exec_def
proof (intro allI impI, elim conjE)
  fix b p srs t n
  assume ok: "scmd_ok (SExec ws)" and a: "at b p (show_cmd 3 (SExec ws) @ redirs_text srs @ t)" and r: "\<forall>r\<in>set srs. redir_ok r"
    and f: "follow exec_end t" and n: "4 * (length b - p) + 2 \<le> n"
  note nt = follow_nows [OF f] follow_redirs [OF f]
  have nw: "nows (show_cmd 3 (SExec ws) @ redirs_text srs @ t)"
    by (rule nows_show [OF ok nows_redirs]) (use nt(1) in simp)
  have hd: "show_cmd 3 (SExec ws) @ redirs_text srs @ t = [] \<or> hd (show_cmd 3 (SExec ws) @ redirs_text srs @ t) \<noteq> 40"
    using exec_start [OF _ f, of ws srs] ok by simp
  obtain m where m: "n = Suc m" using n by (cases n) auto
  have s: "skip_ws b p = p" by (rule skip_ws_at [OF a nw])
  show "\<exists>x p'. parseexec n b p = Inr (x, p') \<and> at b p' t \<and> means b x (sredirs srs (SExec ws))"
  proof (cases ws)
    case Nil
    then obtain rs q where q: "parseredirs b p = Inr (rs, q)" "at b q t" "list_all2 (redir_means b) rs srs"
      using parseredirs_show [of b p srs t] a r nt by auto
    obtain as rs2 p' where e: "exec_args b q 0 = Inr (as, rs2, p')" "at b p' t" "list_all2 (reads b) as []" "list_all2 (redir_means b) rs2 []"
      using exec_args_show [of b q "[]" "[]" t 0] q(2) f by auto
    then show ?thesis using q no_paren [OF hd a nw] m s Nil means_add_redirs [OF q(3), of "EXEC []" "SExec []"] by auto
  next
    case (Cons w vs)
    have "word_ok w" using ok Cons by simp
    note st = word_start [OF this, of "32 # words_text vs @ redirs_text srs @ t"]
    obtain rs q where q: "parseredirs b p = Inr (rs, q)" "at b q (words_text ws @ redirs_text srs @ t)" "list_all2 (redir_means b) rs []"
      using parseredirs_show [of b p "[]" "words_text ws @ redirs_text srs @ t"] a nw st Cons by auto
    obtain as rs2 p' where e: "exec_args b q 0 = Inr (as, rs2, p')" "at b p' t" "list_all2 (reads b) as ws" "list_all2 (redir_means b) rs2 srs"
      using exec_args_show [OF q(2) _ r f, of 0] ok Cons by auto
    have "means b (EXEC as) (SExec ws)" using e(3) by simp
    then show ?thesis using q e no_paren [OF hd a nw] m s means_add_redirs [OF e(4)] by simp
  qed
qed

lemma parses_exec_SRedir:
  assumes "parses_exec c" and "redir_ok (f, mode, fd)"
  shows "parses_exec (SRedir c f mode fd)"
  unfolding parses_exec_def
proof (intro allI impI, elim conjE)
  fix b p srs t n
  assume h: "at b p (show_cmd 3 (SRedir c f mode fd) @ redirs_text srs @ t)" "\<forall>r\<in>set srs. redir_ok r" "follow exec_end t" "4 * (length b - p) + 2 \<le> n"
  then have "at b p (show_cmd 3 c @ redirs_text ((f, mode, fd) # srs) @ t)" "\<forall>r\<in>set ((f, mode, fd) # srs). redir_ok r"
    using assms(2) by simp_all
  then obtain x p' where "parseexec n b p = Inr (x, p')" "at b p' t" "means b x (sredirs ((f, mode, fd) # srs) c)"
    using assms(1) h(3,4) unfolding parses_exec_def by blast
  then show "\<exists>x p'. parseexec n b p = Inr (x, p') \<and> at b p' t \<and> means b x (sredirs srs (SRedir c f mode fd))"
    by (auto simp: sredirs_def)
qed

text \<open>A command in parentheses.\<close>

lemma parses_exec_block:
  assumes "parses_line c" and "scmd_ok c" and "show_cmd 3 c = 40 # show_cmd 0 c @ [41]"
  shows "parses_exec c"
  unfolding parses_exec_def
proof (intro allI impI, elim conjE)
  fix b p srs t n
  assume h: "at b p (show_cmd 3 c @ redirs_text srs @ t)" "\<forall>r\<in>set srs. redir_ok r" "follow exec_end t" "4 * (length b - p) + 2 \<le> n"
  let ?t1 = "41 # redirs_text srs @ t"
  have a: "at b p (40 # show_cmd 0 c @ ?t1)" using h(1) assms(3) by simp
  have n: "nows (40 # show_cmd 0 c @ ?t1)" by (simp add: nows_def whitespace_def)
  have n1: "nows ?t1" by (simp add: nows_def whitespace_def)
  have pk: "fst (peek b p [40])" "skip_ws b p = p" using peek_at [OF a n, of "[40]"] skip_ws_at [OF a n] by simp_all
  have g: "t_rest (gettoken b p) = p + 1" using gettoken_symbol [OF a] nows_show [OF assms(2) n1] by simp
  have a1: "at b (p + 1) (show_cmd 0 c @ ?t1)" using at_Cons [OF a] by simp
  obtain m where m: "n = Suc (Suc m)" "4 * (length b - (p + 1)) + 4 \<le> m" using h(4) at_length [OF a] by (cases n; cases "n - 1") auto
  obtain x q where x: "parseline m b (p + 1) = Inr (x, q)" "at b q ?t1" "means b x c"
    using assms(1) a1 m(2) unfolding parses_line_def follow_def by fastforce
  have pk1: "fst (peek b q [41])" "skip_ws b q = q" using peek_at [OF x(2) n1, of "[41]"] skip_ws_at [OF x(2) n1] by simp_all
  have g1: "t_rest (gettoken b q) = q + 1" using gettoken_symbol [OF x(2)] nows_redirs follow_nows [OF h(3)] by simp
  have a2: "at b (q + 1) (redirs_text srs @ t)" using at_Cons [OF x(2)] by simp
  obtain rs p' where r: "parseredirs b (q + 1) = Inr (rs, p')" "at b p' t" "list_all2 (redir_means b) rs srs"
    using parseredirs_show [OF a2 h(2)] follow_nows [OF h(3)] follow_redirs [OF h(3)] by auto
  show "\<exists>x p'. parseexec n b p = Inr (x, p') \<and> at b p' t \<and> means b x (sredirs srs c)"
    using m(1) pk g x pk1 g1 r means_add_redirs [OF r(3) x(3)] by simp
qed

lemma follow_mono: "follow cs t \<Longrightarrow> set cs \<subseteq> set ds \<Longrightarrow> follow ds t"
  by (auto simp: follow_def)

lemma peek_follow: "at b p t \<Longrightarrow> follow cs t \<Longrightarrow> set cs \<subseteq> set exec_end \<Longrightarrow> c \<notin> set cs \<Longrightarrow> c \<noteq> 0 \<Longrightarrow> \<not> fst (peek b p [c]) \<and> skip_ws b p = p"
  using peek_at [of b p t "[c]"] skip_ws_at [of b p t] follow_nows [of cs t] by (auto simp: follow_def)

lemma peek_symbol:
  assumes "at b p (c # t)" and "c \<in> {124, 59, 38}" and "nows t"
  shows "fst (peek b p [c])" "skip_ws b p = p" "t_rest (gettoken b p) = p + 1" "at b (p + 1) t"
proof -
  have n: "nows (c # t)" using assms(2) by (auto simp: nows_Cons whitespace_def)
  show "fst (peek b p [c])" using peek_at [OF assms(1) n, of "[c]"] assms(2) by auto
  show "skip_ws b p = p" by (rule skip_ws_at [OF assms(1) n])
  show "t_rest (gettoken b p) = p + 1" using gettoken_symbol [OF assms(1) _ assms(3)] assms(2) by auto
  show "at b (p + 1) t" using at_Cons [OF assms(1)] by simp
qed

lemma parses_pipe_exec:
  assumes "parses_exec c" and "show_cmd 2 c = show_cmd 3 c"
  shows "parses_pipe c"
  unfolding parses_pipe_def
proof (intro allI impI, elim conjE)
  fix b p t n
  assume h: "at b p (show_cmd 2 c @ t)" "follow [41, 38, 59] t" "4 * (length b - p) + 3 \<le> n"
  obtain m where m: "n = Suc m" "4 * (length b - p) + 2 \<le> m" using h(3) by (cases n) auto
  have "follow exec_end t" using follow_mono [OF h(2)] by auto
  then obtain x p' where x: "parseexec m b p = Inr (x, p')" "at b p' t" "means b x (sredirs [] c)"
    using assms(1) h(1) m(2) unfolding parses_exec_def assms(2) by (metis (no_types, lifting) append_Nil concat.simps(1) empty_iff list.set(1) list.simps(8))
  then show "\<exists>x p'. parsepipe n b p = Inr (x, p') \<and> at b p' t \<and> means b x c"
    using m(1) peek_follow [OF x(2) h(2), of 124] by (simp add: sredirs_def)
qed

lemma parses_pipe_SPipe:
  assumes "parses_exec l" and "parses_pipe r" and "scmd_ok r"
  shows "parses_pipe (SPipe l r)"
  unfolding parses_pipe_def
proof (intro allI impI, elim conjE)
  fix b p t n
  assume h: "at b p (show_cmd 2 (SPipe l r) @ t)" "follow [41, 38, 59] t" "4 * (length b - p) + 3 \<le> n"
  have a: "at b p (show_cmd 3 l @ redirs_text [] @ 124 # show_cmd 2 r @ t)" using h(1) by (simp add: paren_def)
  obtain m where m: "n = Suc m" "4 * (length b - p) + 2 \<le> m" using h(3) by (cases n) auto
  obtain x q where x: "parseexec m b p = Inr (x, q)" "at b q (124 # show_cmd 2 r @ t)" "means b x (sredirs [] l)"
    using assms(1) a m(2) unfolding parses_exec_def follow_def by fastforce
  have "nows (show_cmd 2 r @ t)" using nows_show [OF assms(3)] follow_nows [OF h(2)] by simp
  note s = peek_symbol [OF x(2) _ this]
  have "q + 1 \<le> length b" "p \<le> q" using at_length [OF x(2)] parse_le(3) [OF x(1)] by simp_all
  then have "4 * (length b - (q + 1)) + 3 \<le> m" using m(2) by linarith
  then obtain y p' where y: "parsepipe m b (q + 1) = Inr (y, p')" "at b p' t" "means b y r"
    using assms(2) s(4) h(2) unfolding parses_pipe_def by blast
  then show "\<exists>x p'. parsepipe n b p = Inr (x, p') \<and> at b p' t \<and> means b x (SPipe l r)"
    using m(1) x s(1-3) by (simp add: sredirs_def)
qed

lemma parses_back_SBack:
  assumes "parses_back c"
  shows "parses_back (SBack c)"
  unfolding parses_back_def
proof (intro allI impI, elim conjE)
  fix b p t n
  assume h: "at b p (show_cmd 1 (SBack c) @ t)" "follow [41, 38, 59] t" "4 * (length b - p) + 3 \<le> n"
  have "at b p (show_cmd 1 c @ 38 # t)" using h(1) by (simp add: paren_def)
  moreover have "follow [41, 38, 59] (38 # t)" by (simp add: follow_def)
  ultimately obtain y q x p' where x: "parsepipe n b p = Inr (y, q)" "parse_back b q y = parse_back b p' x" "at b p' (38 # t)" "means b x c"
    using assms h(3) unfolding parses_back_def by blast
  have "nows t" using follow_nows [OF h(2)] by simp
  note s = peek_symbol [OF x(3) _ this]
  have "parse_back b p' x = parse_back b (p' + 1) (BACK x)" using s by (subst parse_back.simps) simp
  moreover have "means b (BACK x) (SBack c)" "at b (p' + 1) t" using x(4) s(4) by simp_all
  ultimately show "\<exists>y q x p'. parsepipe n b p = Inr (y, q) \<and> parse_back b q y = parse_back b p' x \<and> at b p' t \<and> means b x (SBack c)"
    using x(1,2) by metis
qed

lemma parse_back_stop: "at b p t \<Longrightarrow> follow [41, 59] t \<Longrightarrow> parse_back b p x = (x, p)"
  using peek_follow [of b p t "[41, 59]" 38] by (subst parse_back.simps) simp

lemma parses_line_back:
  assumes "parses_back c" and "show_cmd 0 c = show_cmd 1 c"
  shows "parses_line c"
  unfolding parses_line_def
proof (intro allI impI, elim conjE)
  fix b p t n
  assume h: "at b p (show_cmd 0 c @ t)" "follow [41] t" "4 * (length b - p) + 4 \<le> n"
  obtain m where m: "n = Suc m" "4 * (length b - p) + 3 \<le> m" using h(3) by (cases n) auto
  have f: "follow [41, 59] t" "follow [41, 38, 59] t" using h(2) by (auto simp: follow_def)
  obtain y q x p' where x: "parsepipe m b p = Inr (y, q)" "parse_back b q y = parse_back b p' x" "at b p' t" "means b x c"
    using assms(1) h(1) f(2) m(2) unfolding parses_back_def assms(2) by blast
  then show "\<exists>x p'. parseline n b p = Inr (x, p') \<and> at b p' t \<and> means b x c"
    using m(1) parse_back_stop [OF x(3) f(1)] peek_follow [OF x(3) h(2), of 59] by simp
qed

lemma parses_line_SList:
  assumes "parses_back l" and "parses_line r" and "scmd_ok r"
  shows "parses_line (SList l r)"
  unfolding parses_line_def
proof (intro allI impI, elim conjE)
  fix b p t n
  assume h: "at b p (show_cmd 0 (SList l r) @ t)" "follow [41] t" "4 * (length b - p) + 4 \<le> n"
  obtain m where m: "n = Suc m" "4 * (length b - p) + 3 \<le> m" using h(3) by (cases n) auto
  let ?t = "59 # show_cmd 0 r @ t"
  have a: "at b p (show_cmd 1 l @ ?t)" using h(1) by (simp add: paren_def)
  have f: "follow [41, 59] ?t" "follow [41, 38, 59] ?t" by (auto simp: follow_def)
  obtain y q x p1 where x: "parsepipe m b p = Inr (y, q)" "parse_back b q y = parse_back b p1 x" "at b p1 ?t" "means b x l"
    using assms(1) a f(2) m(2) unfolding parses_back_def by blast
  have bk: "parse_back b q y = (x, p1)" using x(2) parse_back_stop [OF x(3) f(1)] by simp
  have "nows (show_cmd 0 r @ t)" using nows_show [OF assms(3)] follow_nows [OF h(2)] by simp
  note s = peek_symbol [OF x(3) _ this]
  have "p1 + 1 \<le> length b" "p \<le> p1" using at_length [OF x(3)] parse_le(2) [OF x(1)] parse_back_le [of q b y] bk by simp_all
  then have "4 * (length b - (p1 + 1)) + 4 \<le> m" using m(2) by linarith
  then obtain z p' where z: "parseline m b (p1 + 1) = Inr (z, p')" "at b p' t" "means b z r"
    using assms(2) s(4) h(2) unfolding parses_line_def by blast
  then show "\<exists>x p'. parseline n b p = Inr (x, p') \<and> at b p' t \<and> means b x (SList l r)"
    using m(1) x(1,4) bk s(1-3) by simp
qed

lemma parses_all: "scmd_ok c \<Longrightarrow> parses_exec c \<and> parses_pipe c \<and> parses_back c \<and> parses_line c"
proof (induction c)
  case (SExec ws)
  then have e: "parses_exec (SExec ws)" by (rule parses_exec_SExec)
  then show ?case using parses_pipe_exec [OF e] parses_back_pipe parses_line_back by simp
next
  case (SRedir c f mode fd)
  then have e: "parses_exec (SRedir c f mode fd)" by (intro parses_exec_SRedir) simp_all
  then show ?case using parses_pipe_exec [OF e] parses_back_pipe parses_line_back by simp
next
  case (SPipe l r)
  have p: "parses_pipe (SPipe l r)" using SPipe by (intro parses_pipe_SPipe) simp_all
  then have b: "parses_back (SPipe l r)" by (rule parses_back_pipe) (simp add: paren_def)
  then have n: "parses_line (SPipe l r)" by (rule parses_line_back) (simp add: paren_def)
  have "parses_exec (SPipe l r)" by (rule parses_exec_block [OF n SPipe.prems]) (simp add: paren_def)
  with p b n show ?case by simp
next
  case (SList l r)
  have n: "parses_line (SList l r)" using SList by (intro parses_line_SList) simp_all
  have e: "parses_exec (SList l r)" by (rule parses_exec_block [OF n SList.prems]) (simp add: paren_def)
  have p: "parses_pipe (SList l r)" by (rule parses_pipe_exec [OF e]) (simp add: paren_def)
  then have "parses_back (SList l r)" by (rule parses_back_pipe) (simp add: paren_def)
  with n e p show ?case by simp
next
  case (SBack c)
  have b: "parses_back (SBack c)" using SBack by (intro parses_back_SBack) simp
  then have n: "parses_line (SBack c)" by (rule parses_line_back) (simp add: paren_def)
  have e: "parses_exec (SBack c)" by (rule parses_exec_block [OF n SBack.prems]) (simp add: paren_def)
  have "parses_pipe (SBack c)" by (rule parses_pipe_exec [OF e]) (simp add: paren_def)
  with b n e show ?case by simp
qed

section \<open>The words as C strings\<close>

text \<open>The positions at which \<open>nulterminate\<close> stores.\<close>

fun word_ends :: "cmd \<Rightarrow> nat set" where
  "word_ends (EXEC as) = snd ` set as"
| "word_ends (REDIR c w mode fd) = insert (snd w) (word_ends c)"
| "word_ends (PIPE l r) = word_ends l \<union> word_ends r"
| "word_ends (LIST l r) = word_ends l \<union> word_ends r"
| "word_ends (BACK c) = word_ends c"

lemma foldl_ends:
  fixes m :: "byte list"
  shows "length (foldl (\<lambda>m (q, eq). m[eq := 0]) m as) = length m
    \<and> (\<forall>i<length m. foldl (\<lambda>m (q, eq). m[eq := 0]) m as ! i = (if i \<in> snd ` set as then 0 else m ! i))"
proof (induction as arbitrary: m)
  case (Cons w as)
  then show ?case using Cons.IH [of "m[snd w := 0]"] by (cases w) (simp add: nth_list_update)
qed simp

lemma nulterminate_nth:
  "length (nulterminate c m) = length m \<and> (\<forall>i<length m. nulterminate c m ! i = (if i \<in> word_ends c then 0 else m ! i))"
proof (induction c m rule: nulterminate.induct)
  case (1 as m)
  show ?case using foldl_ends [of m as] by simp
next
  case (2 c q eq mode fd m)
  then have len: "length (nulterminate c m) = length m" by simp
  then show ?case using 2 by (cases "eq < length m") (auto simp: nth_list_update list_update_beyond)
qed simp_all

text \<open>The end of a word is not inside another one.\<close>

lemma reads_cstr:
  assumes "reads b w f" and "length m = length b + 1" and "\<forall>i<length m. m ! i = (if i \<in> E then 0 else (b @ [0]) ! i)"
    and "snd w \<in> E" and "\<forall>e\<in>E. e < length b \<longrightarrow> \<not> wordchar (b ! e)"
  shows "cstr m (fst w) = f"
proof -
  obtain pre t where t: "b = pre @ f @ t" "fst w = length pre" "snd w = length pre + length f" "\<forall>c\<in>set f. wordchar c"
    using assms(1) by (auto simp: reads_def at_def word_ok_def)
  have "drop (fst w) m = f @ 0 # drop (snd w + 1) m"
  proof (rule nth_equalityI)
    show "length (drop (fst w) m) = length (f @ 0 # drop (snd w + 1) m)" using assms(2) t(1-3) by simp
    fix i assume i: "i < length (drop (fst w) m)"
    show "drop (fst w) m ! i = (f @ 0 # drop (snd w + 1) m) ! i"
    proof (cases "i < length f")
      case True
      have "b ! (length pre + i) = f ! i" using t(1) True by (simp add: nth_append)
      moreover from this have "length pre + i \<notin> E" using assms(5) t(1,4) True by (metis add_less_cancel_left length_append nth_mem trans_less_add1)
      ultimately show ?thesis using assms(2,3) t(1,2) True by (simp add: nth_append)
    next
      case False
      then show ?thesis using assms(2-4) t i by (cases "i = length f") (auto simp: nth_append nth_Cons')
    qed
  qed
  then show ?thesis using t(4) by (simp add: cstr_def takeWhile_append2 wordchar_def)
qed

lemma means_ends: "means b t c \<Longrightarrow> e \<in> word_ends t \<Longrightarrow> e < length b \<Longrightarrow> \<not> wordchar (b ! e)"
proof (induction t arbitrary: c)
  case (EXEC as)
  then obtain w f where "w \<in> set as" "e = snd w" "reads b w f" by (fastforce simp: list_all2_conv_all_nth in_set_conv_nth)
  then show ?case using EXEC.prems(3) by (auto simp: reads_def at_def nth_append hd_conv_nth)
next
  case (REDIR t w mode fd)
  then show ?case by (auto simp: reads_def at_def nth_append hd_conv_nth)
qed auto

lemma means_cview:
  assumes "length m = length b + 1" and "\<forall>i<length m. m ! i = (if i \<in> E then 0 else (b @ [0]) ! i)" and "\<forall>e\<in>E. e < length b \<longrightarrow> \<not> wordchar (b ! e)"
  shows "means b t c \<Longrightarrow> word_ends t \<subseteq> E \<Longrightarrow> cview m t = c"
proof (induction t arbitrary: c)
  case (EXEC as)
  then obtain ws where ws: "c = SExec ws" "list_all2 (reads b) as ws" by auto
  have "map (\<lambda>(q, eq). cstr m q) as = ws"
    using reads_cstr [OF _ assms(1,2) _ assms(3)] ws(2) EXEC.prems(2)
    by (auto simp: list_all2_conv_all_nth list_eq_iff_nth_eq split_beta image_subset_iff)
  then show ?case using ws(1) by simp
next
  case (REDIR t w mode fd)
  then show ?case using reads_cstr [OF _ assms(1,2) _ assms(3), of w] by (cases w) auto
qed auto

lemma parsecmd_show:
  assumes "scmd_ok c"
  shows "\<exists>t m. parsecmd (show_cmd 0 c) = Inr (t, m) \<and> cview m t = c"
proof -
  let ?b = "show_cmd 0 c"
  have a: "at ?b 0 (?b @ [])" by (simp add: at_def)
  obtain t p where t: "parseline (4 * length ?b + 4) ?b 0 = Inr (t, p)" "at ?b p []" "means ?b t c"
    using parses_all [OF assms] a unfolding parses_line_def follow_def by fastforce
  have p: "skip_ws ?b p = length ?b" using skip_ws_at [OF t(2)] t(2) by (simp add: nows_def at_Nil)
  let ?m = "nulterminate t (?b @ [0])"
  have "cview ?m t = c"
    by (rule means_cview [where b = ?b and E = "word_ends t"]) (use nulterminate_nth [of t "?b @ [0]"] means_ends [OF t(3)] t(3) in auto)
  then show ?thesis using t(1) p by (simp add: parsecmd_def)
qed

text \<open>
  The shell parses every command as it is meant: for every tree of simple commands, redirections, pipelines, lists
  and background commands, the text of the tree (with parentheses where the grammar needs them) is accepted and the
  parsed command, its words read as C strings from the line in which the parser has put their NULs, is the tree.
\<close>

theorem parsecmd_roundtrip:
  assumes "scmd_ok c"
  shows "\<exists>t m. parsecmd (show_cmd 0 c) = Inr (t, m) \<and> cview m t = c"
  by (rule parsecmd_show [OF assms])

theorem parsecmd_roundtrip_witness:
  "\<exists>t m. parsecmd (show_cmd 0 (SBack (SPipe (SRedir (SExec [[97]]) [102] 0 0) (SExec [[98], [99]])))) = Inr (t, m)
    \<and> cview m t = SBack (SPipe (SRedir (SExec [[97]]) [102] 0 0) (SExec [[98], [99]]))"
  by (rule parsecmd_roundtrip) (simp add: word_ok_def redir_ok_def wordchar_def whitespace_def symbols_def)

end
