(* ===== verification/Shell_Run.thy ===== *)
theory Shell_Run
  imports Shell_Proofs
begin

text \<open>
  Running commands (\<^verbatim>\<open>runcmd\<close> and the main loop of \<^verbatim>\<open>uprogs/sh.c\<close>): the descriptors every program is started with. A process
  of the shell is the tree of the system calls it makes; what the kernel may refuse is an argument.
\<close>

section \<open>Descriptors\<close>

text \<open>
  What a descriptor may refer to: what the shell was given, a file opened by a redirection, or an end of the pipe that
  was made at a node of the command, which is named by the way to it from the root.
\<close>

datatype obj =
    Inherited nat
  | Opened "byte list" nat
  | PipeR "nat list"
  | PipeW "nat list"

type_synonym fdtable = "obj option list"

text \<open>The lowest free descriptor, as \<^verbatim>\<open>fdalloc\<close> of the kernel finds it.\<close>

fun fd_free :: "fdtable \<Rightarrow> nat option" where
  "fd_free [] = None"
| "fd_free (None # t) = Some 0"
| "fd_free (Some f # t) = (case fd_free t of None \<Rightarrow> None | Some i \<Rightarrow> Some (i + 1))"

definition fd_alloc :: "obj \<Rightarrow> fdtable \<Rightarrow> (nat \<times> fdtable) option" where
  "fd_alloc f t = (case fd_free t of None \<Rightarrow> None | Some i \<Rightarrow> Some (i, t[i := Some f]))"

definition fd_close :: "nat \<Rightarrow> fdtable \<Rightarrow> fdtable" where
  "fd_close fd t = t[fd := None]"

definition fd_dup :: "nat \<Rightarrow> fdtable \<Rightarrow> fdtable" where
  "fd_dup fd t =
     (case if fd < length t then t ! fd else None of
        None \<Rightarrow> t
      | Some f \<Rightarrow> case fd_alloc f t of None \<Rightarrow> t | Some (i, t) \<Rightarrow> t)"

definition fd_pipe :: "nat list \<Rightarrow> fdtable \<Rightarrow> (nat \<times> nat \<times> fdtable) option" where
  "fd_pipe pos t =
     (case fd_alloc (PipeR pos) t of
        None \<Rightarrow> None
      | Some (p0, t1) \<Rightarrow>
          case fd_alloc (PipeW pos) t1 of
            None \<Rightarrow> None
          | Some (p1, t2) \<Rightarrow> Some (p0, p1, t2))"

section \<open>Processes\<close>

text \<open>
  What a process does from a point on: it exits, replaces itself by a program (or goes on when that fails), prints a
  message on descriptor 2, forks (the child, the parent, and the parent when there is no process left) or waits for a
  child, with the descriptors it then has.
\<close>

datatype behaviour =
    Exit
  | Exec "byte list list" fdtable behaviour
  | Msg string "byte list" behaviour
  | Fork behaviour behaviour behaviour
  | Wait fdtable behaviour

definition sh_panic :: "string \<Rightarrow> behaviour" where
  "sh_panic s = Msg s [] Exit"

definition fork1 :: "behaviour \<Rightarrow> behaviour \<Rightarrow> behaviour" where
  "fork1 child parent = Fork child parent (sh_panic ''fork'')"

text \<open>\<open>openf\<close> and \<open>pipef\<close> say which files can be opened and at which nodes a pipe can be made.\<close>

fun runcmd :: "(byte list \<Rightarrow> nat \<Rightarrow> bool) \<Rightarrow> (nat list \<Rightarrow> bool) \<Rightarrow> byte list \<Rightarrow> cmd \<Rightarrow> nat list \<Rightarrow> fdtable \<Rightarrow> behaviour" where
  "runcmd openf pipef m (EXEC as) pos t =
     (case as of
        [] \<Rightarrow> Exit
      | (q, eq) # _ \<Rightarrow> Exec (map (\<lambda>(q, eq). cstr m q) as) t (Msg ''exec %s failed'' (cstr m q) Exit))"
| "runcmd openf pipef m (REDIR c (q, eq) mode fd) pos t =
     (case if openf (cstr m q) mode then fd_alloc (Opened (cstr m q) mode) (fd_close fd t) else None of
        None \<Rightarrow> Msg ''open %s failed'' (cstr m q) Exit
      | Some (_, t) \<Rightarrow> runcmd openf pipef m c (pos @ [0]) t)"
| "runcmd openf pipef m (LIST l r) pos t =
     fork1 (runcmd openf pipef m l (pos @ [0]) t) (Wait t (runcmd openf pipef m r (pos @ [1]) t))"
| "runcmd openf pipef m (PIPE l r) pos t =
     (case if pipef pos then fd_pipe pos t else None of
        None \<Rightarrow> sh_panic ''pipe''
      | Some (p0, p1, t) \<Rightarrow>
          fork1 (runcmd openf pipef m l (pos @ [0]) (fd_close p1 (fd_close p0 (fd_dup p1 (fd_close 1 t)))))
            (fork1 (runcmd openf pipef m r (pos @ [1]) (fd_close p1 (fd_close p0 (fd_dup p0 (fd_close 0 t)))))
              (let t = fd_close p1 (fd_close p0 t) in Wait t (Wait t Exit))))"
| "runcmd openf pipef m (BACK c) pos t = fork1 (runcmd openf pipef m c (pos @ [0]) t) Exit"

section \<open>The main loop\<close>

text \<open>
  \<^verbatim>\<open>gets\<close> of \<^verbatim>\<open>ulib.c\<close> on the bytes that are left of the standard input: the bytes it stores before the NUL, at most
  \<open>n\<close>, and the rest.
\<close>

fun gets_loop :: "nat \<Rightarrow> byte list \<Rightarrow> byte list \<times> byte list" where
  "gets_loop 0 inp = ([], inp)"
| "gets_loop (Suc n) [] = ([], [])"
| "gets_loop (Suc n) (c # inp) =
     (if c = 10 \<or> c = 13 then ([c], inp)
      else let (l, rest) = gets_loop n inp in (c # l, rest))"

definition gets :: "nat \<Rightarrow> byte list \<Rightarrow> byte list \<times> byte list" where
  "gets n inp = gets_loop (n - 1) inp"

text \<open>What the shell does with a line: it changes its directory or forks a process for the command.\<close>

datatype job = Chdir "byte list" | Run "byte list"

definition sh_job :: "byte list \<Rightarrow> job" where
  "sh_job line =
     (if take 3 line = [99, 100, 32] then Chdir (drop 3 (butlast line)) else Run line)"

lemma gets_loop_rest: "length (snd (gets_loop n inp)) + length (fst (gets_loop n inp)) = length inp"
  by (induction n inp rule: gets_loop.induct) (auto simp: split_beta)

function sh_main :: "byte list \<Rightarrow> job list" where
  "sh_main inp =
     (let (buf, rest) = gets 100 inp; line = takeWhile (\<lambda>c. c \<noteq> 0) buf in
      if line = [] then [] else sh_job line # sh_main rest)"
  by pat_completeness auto
termination
proof (relation "measure length", goal_cases)
  case (2 inp x buf rest line)
  then have "buf = fst (gets 100 inp)" "rest = snd (gets 100 inp)" "buf \<noteq> []" by (auto dest: sym)
  then show ?case using gets_loop_rest [of 99 inp] by (simp add: gets_def) (cases "fst (gets_loop 99 inp)"; simp)
qed simp

declare sh_main.simps [simp del]

section \<open>The programs of a command\<close>

text \<open>
  What a command means: its programs from left to right, each with its standard input, output and error. A redirection
  of a file that cannot be opened runs nothing.
\<close>

fun programs :: "(byte list \<Rightarrow> nat \<Rightarrow> bool) \<Rightarrow> scmd \<Rightarrow> nat list \<Rightarrow> obj \<Rightarrow> obj \<Rightarrow> obj \<Rightarrow> (byte list list \<times> obj \<times> obj \<times> obj) list" where
  "programs openf (SExec ws) pos i o' e = (if ws = [] then [] else [(ws, i, o', e)])"
| "programs openf (SRedir c f mode fd) pos i o' e =
     (if \<not> openf f mode then []
      else if fd = 0 then programs openf c (pos @ [0]) (Opened f mode) o' e
      else programs openf c (pos @ [0]) i (Opened f mode) e)"
| "programs openf (SPipe l r) pos i o' e =
     programs openf l (pos @ [0]) i (PipeW pos) e @ programs openf r (pos @ [1]) (PipeR pos) o' e"
| "programs openf (SList l r) pos i o' e = programs openf l (pos @ [0]) i o' e @ programs openf r (pos @ [1]) i o' e"
| "programs openf (SBack c) pos i o' e = programs openf c (pos @ [0]) i o' e"

text \<open>The programs a process and its children start, and the descriptors they hold while they wait.\<close>

fun execs :: "behaviour \<Rightarrow> (byte list list \<times> fdtable) list" where
  "execs Exit = []"
| "execs (Exec ws t b) = (ws, t) # execs b"
| "execs (Msg s w b) = execs b"
| "execs (Fork c p f) = execs c @ execs p"
| "execs (Wait t b) = execs b"

fun waits :: "behaviour \<Rightarrow> fdtable list" where
  "waits Exit = []"
| "waits (Exec ws t b) = waits b"
| "waits (Msg s w b) = waits b"
| "waits (Fork c p f) = waits c @ waits p"
| "waits (Wait t b) = t # waits b"

text \<open>A table of 16 descriptors of which only the first three are open.\<close>

definition std :: "obj \<Rightarrow> obj \<Rightarrow> obj \<Rightarrow> fdtable" where
  "std i o' e = [Some i, Some o', Some e] @ replicate 13 None"

fun redir_fds :: "cmd \<Rightarrow> bool" where
  "redir_fds (EXEC as) = True"
| "redir_fds (REDIR c w mode fd) = (fd < 2 \<and> redir_fds c)"
| "redir_fds (PIPE l r) = (redir_fds l \<and> redir_fds r)"
| "redir_fds (LIST l r) = (redir_fds l \<and> redir_fds r)"
| "redir_fds (BACK c) = redir_fds c"

lemmas fd_defs = std_def fd_close_def fd_alloc_def fd_dup_def fd_pipe_def

lemma std_redir:
  "fd_alloc f (fd_close 0 (std i o' e)) = Some (0, std f o' e)"
  "fd_alloc f (fd_close (Suc 0) (std i o' e)) = Some (1, std i f e)"
  by (simp_all add: fd_defs)

lemma std_pipe:
  obtains t where "fd_pipe pos (std i o' e) = Some (3, 4, t)" and "fd_close 4 (fd_close 3 (fd_dup 4 (fd_close 1 t))) = std i (PipeW pos) e"
    and "fd_close 4 (fd_close 3 (fd_dup 3 (fd_close 0 t))) = std (PipeR pos) o' e" and "fd_close 4 (fd_close 3 t) = std i o' e"
  by (rule that [of "[Some i, Some o', Some e, Some (PipeR pos), Some (PipeW pos)] @ replicate 11 None"])
    (simp_all add: fd_defs numeral_eq_Suc)

lemma runcmd_programs:
  assumes "redir_fds c"
  shows "execs (runcmd openf (\<lambda>_. True) m c pos (std i o' e)) = map (\<lambda>(ws, i, o', e). (ws, std i o' e)) (programs openf (cview m c) pos i o' e)
    \<and> (\<forall>t\<in>set (waits (runcmd openf (\<lambda>_. True) m c pos (std i o' e))). \<exists>i o' e. t = std i o' e)"
  using assms
proof (induction c arbitrary: pos i o' e)
  case (EXEC as)
  then show ?case by (cases as) (auto split: prod.splits)
next
  case (REDIR c w mode fd)
  obtain q eq where w: "w = (q, eq)" by (cases w)
  have "fd = 0 \<or> fd = 1" using REDIR.prems by auto
  then show ?case using REDIR w by (auto simp: std_redir)
next
  case (PIPE l r)
  obtain t where "fd_pipe pos (std i o' e) = Some (3, 4, t)" "fd_close 4 (fd_close 3 (fd_dup 4 (fd_close 1 t))) = std i (PipeW pos) e"
    "fd_close 4 (fd_close 3 (fd_dup 3 (fd_close 0 t))) = std (PipeR pos) o' e" "fd_close 4 (fd_close 3 t) = std i o' e"
    by (rule std_pipe)
  then show ?case using PIPE by (auto simp: fork1_def Let_def)
qed (auto simp: fork1_def)

lemma scmd_ok_fds: "scmd_ok (cview m c) \<Longrightarrow> redir_fds c"
  by (induction c) (auto simp: redir_ok_def)

text \<open>
  C29: The shell runs what the line says: for every command tree, the text of the tree is parsed and run so that exactly the
  programs of the tree are started, from left to right, each with the standard input and output that redirections and
  pipes give it and with no other descriptor open; and while a process of the shell waits for a child, it holds no end
  of a pipe but those that are its standard descriptors.
\<close>

theorem shell_wiring:
  assumes "scmd_ok c"
  shows "\<exists>t m. parsecmd (show_cmd 0 c) = Inr (t, m)
    \<and> execs (runcmd openf (\<lambda>_. True) m t [] (std i o' e)) = map (\<lambda>(ws, i, o', e). (ws, std i o' e)) (programs openf c [] i o' e)
    \<and> (\<forall>t'\<in>set (waits (runcmd openf (\<lambda>_. True) m t [] (std i o' e))). \<forall>k. 3 \<le> k \<and> k < 16 \<longrightarrow> t' ! k = None)"
proof -
  obtain t m where t: "parsecmd (show_cmd 0 c) = Inr (t, m)" "cview m t = c" using parsecmd_show [OF assms] by blast
  have "redir_fds t" using scmd_ok_fds [of m t] assms t(2) by simp
  moreover have "std i o' e ! k = None" if "3 \<le> k" "k < 16" for i o' e k using that by (auto simp: std_def nth_append)
  ultimately show ?thesis using t runcmd_programs [of t openf m "[]" i o' e] by fastforce
qed

theorem shell_wiring_witness:
  "\<exists>t m. parsecmd (show_cmd 0 (SPipe (SExec [[97]]) (SRedir (SExec [[98]]) [102] 0x201 1))) = Inr (t, m)
    \<and> execs (runcmd (\<lambda>_ _. True) (\<lambda>_. True) m t [] (std (Inherited 0) (Inherited 1) (Inherited 2))) =
      [([[97]], std (Inherited 0) (PipeW []) (Inherited 2)), ([[98]], std (PipeR []) (Opened [102] 0x201) (Inherited 2))]"
  using shell_wiring [of "SPipe (SExec [[97]]) (SRedir (SExec [[98]]) [102] 0x201 1)" "\<lambda>_ _. True" "Inherited 0" "Inherited 1" "Inherited 2"]
  by (simp add: word_ok_def redir_ok_def wordchar_def whitespace_def symbols_def) blast

text \<open>
  The loop reads whole lines: typed lines of at most 98 bytes are run one after the other, those that begin with cd and
  a space as changes of the directory.
\<close>

lemma gets_loop_line: "length l < n \<Longrightarrow> \<forall>c\<in>set l. c \<noteq> 10 \<and> c \<noteq> 13 \<Longrightarrow> gets_loop n (l @ 10 # rest) = (l @ [10], rest)"
proof (induction l arbitrary: n)
  case Nil
  then show ?case by (cases n) simp_all
next
  case (Cons c l)
  then show ?case by (cases n) simp_all
qed

definition line_ok :: "byte list \<Rightarrow> bool" where
  "line_ok l \<longleftrightarrow> length l \<le> 98 \<and> (\<forall>c\<in>set l. c \<noteq> 10 \<and> c \<noteq> 13 \<and> c \<noteq> 0)"

lemma sh_main_lines:
  assumes "\<forall>l\<in>set ls. line_ok l"
  shows "sh_main (concat (map (\<lambda>l. l @ [10]) ls)) =
    map (\<lambda>l. if take 3 (l @ [10]) = [99, 100, 32] then Chdir (drop 3 l) else Run (l @ [10])) ls"
  using assms
proof (induction ls)
  case Nil
  then show ?case by (subst sh_main.simps) (simp add: gets_def numeral_eq_Suc)
next
  case (Cons l ls)
  then have l: "length l < 99" "\<forall>c\<in>set l. c \<noteq> 10 \<and> c \<noteq> 13" "takeWhile (\<lambda>c. c \<noteq> 0) (l @ [10]) = l @ [10]"
    by (auto simp: line_ok_def)
  then show ?case using Cons gets_loop_line [OF l(1,2)] by (subst sh_main.simps) (simp add: gets_def sh_job_def)
qed

end
