(* ===== verification/Umalloc.thy ===== *)
theory Umalloc
  imports Prelude
begin

text \<open>
  The allocator of user programs (\<^verbatim>\<open>uprogs/umalloc.c\<close>): a circular list of free blocks in the order of their
  addresses. Addresses and sizes count headers of 8 bytes, the unit of the code's pointer arithmetic; the break of
  the process is a multiple of it, as \<^verbatim>\<open>exec\<close> leaves it and \<^verbatim>\<open>morecore\<close> keeps it. A loop that does not end has no
  result.
\<close>

section \<open>State\<close>

text \<open>
  The two fields of the header at an address, the static variables \<^verbatim>\<open>freep\<close> and \<^verbatim>\<open>base\<close> (its address), and the break
  of the process. Sizes stay below the size of the address space, so that their sums do not wrap.
\<close>

record umem =
  h_ptr :: "nat \<Rightarrow> nat"
  h_size :: "nat \<Rightarrow> nat"
  freep :: nat
  base :: nat
  brk :: nat

definition set_ptr :: "nat \<Rightarrow> nat \<Rightarrow> umem \<Rightarrow> umem" where
  "set_ptr p v m = m\<lparr>h_ptr := (h_ptr m)(p := v)\<rparr>"

definition set_size :: "nat \<Rightarrow> nat \<Rightarrow> umem \<Rightarrow> umem" where
  "set_size p v m = m\<lparr>h_size := (h_size m)(p := v)\<rparr>"

lemma set_sel [simp]:
  "h_ptr (set_ptr p v m) = (h_ptr m)(p := v)" "h_size (set_ptr p v m) = h_size m" "freep (set_ptr p v m) = freep m"
  "base (set_ptr p v m) = base m" "brk (set_ptr p v m) = brk m"
  "h_ptr (set_size p v m) = h_ptr m" "h_size (set_size p v m) = (h_size m)(p := v)" "freep (set_size p v m) = freep m"
  "base (set_size p v m) = base m" "brk (set_size p v m) = brk m"
  by (simp_all add: set_ptr_def set_size_def)

section \<open>Freeing\<close>

text \<open>The loop over the list for the block before \<open>bp\<close>.\<close>

partial_function (option) find_slot :: "umem \<Rightarrow> nat \<Rightarrow> nat \<Rightarrow> nat option" where
  "find_slot m bp p =
     (if p < bp \<and> bp < h_ptr m p then Some p
      else if h_ptr m p \<le> p \<and> (p < bp \<or> bp < h_ptr m p) then Some p
      else find_slot m bp (h_ptr m p))"

text \<open>The two tests for a neighbour: the block after \<open>bp\<close> is joined to it, then \<open>bp\<close> to the block before.\<close>

definition join_up :: "nat \<Rightarrow> nat \<Rightarrow> umem \<Rightarrow> umem" where
  "join_up bp p m =
     (if bp + h_size m bp = h_ptr m p
      then set_ptr bp (h_ptr m (h_ptr m p)) (set_size bp (h_size m bp + h_size m (h_ptr m p)) m)
      else set_ptr bp (h_ptr m p) m)"

definition join_down :: "nat \<Rightarrow> nat \<Rightarrow> umem \<Rightarrow> umem" where
  "join_down bp p m =
     (if p + h_size m p = bp
      then set_ptr p (h_ptr m bp) (set_size p (h_size m p + h_size m bp) m)
      else set_ptr p bp m)"

definition free :: "nat \<Rightarrow> umem \<Rightarrow> umem option" where
  "free ap m =
     (let bp = ap - 1 in
      case find_slot m bp (freep m) of
        None \<Rightarrow> None
      | Some p \<Rightarrow> Some ((join_down bp p (join_up bp p m))\<lparr>freep := p\<rparr>))"

section \<open>Allocating\<close>

text \<open>
  \<^verbatim>\<open>sbrk\<close> of the kernel, by way of \<^verbatim>\<open>growproc\<close>: the old break, or \<open>None\<close> when the process may not have the new one. Its
  argument is a signed number of bytes. \<open>grant\<close> says for which breaks the kernel has the pages; no break reaches
  \<^verbatim>\<open>UADDR_SZ\<close>, which is \<open>0x2000000\<close> headers. To shrink below zero is to ask for a break above the present one, which
  leaves it as it is, and to shrink to zero fails.
\<close>

definition sbrk :: "(nat \<Rightarrow> bool) \<Rightarrow> int \<Rightarrow> umem \<Rightarrow> (nat \<times> umem) option" where
  "sbrk grant n m =
     (let new = int (brk m) + n div 8 in
      if n > 0 then
        if new \<ge> 0x2000000 \<or> \<not> grant (nat new) then None else Some (brk m, m\<lparr>brk := nat new\<rparr>)
      else if new < 0 then Some (brk m, m)
      else if n < 0 \<and> new = 0 then None
      else Some (brk m, m\<lparr>brk := nat new\<rparr>))"

text \<open>The result is \<open>None\<close> when the loop of \<open>free\<close> does not end, and the flag says whether there is more memory.\<close>

definition morecore :: "(nat \<Rightarrow> bool) \<Rightarrow> nat \<Rightarrow> umem \<Rightarrow> (bool \<times> umem) option" where
  "morecore grant nu m =
     (let nu = (if nu < 4096 then 4096 else nu) in
      case sbrk grant (sint (word_of_nat nu * 8 :: uint)) m of
        None \<Rightarrow> Some (False, m)
      | Some (hp, m) \<Rightarrow>
          case free (hp + 1) (set_size hp nu m) of
            None \<Rightarrow> None
          | Some m \<Rightarrow> Some (True, m))"

text \<open>Taking a block at \<open>p\<close> after \<open>prevp\<close>: all of it, or its tail.\<close>

definition take_block :: "nat \<Rightarrow> nat \<Rightarrow> nat \<Rightarrow> umem \<Rightarrow> nat \<times> umem" where
  "take_block nunits prevp p m =
     (if h_size m p = nunits then (p + 1, (set_ptr prevp (h_ptr m p) m)\<lparr>freep := prevp\<rparr>)
      else
        let m1 = set_size p (h_size m p - nunits) m; q = p + h_size m1 p
        in (q + 1, (set_size q nunits m1)\<lparr>freep := prevp\<rparr>))"

partial_function (option) malloc_loop :: "(nat \<Rightarrow> bool) \<Rightarrow> nat \<Rightarrow> nat \<Rightarrow> nat \<Rightarrow> umem \<Rightarrow> (nat \<times> umem) option" where
  "malloc_loop grant nunits prevp p m =
     (if h_size m p \<ge> nunits then Some (take_block nunits prevp p m)
      else if p = freep m then
        case morecore grant nunits m of
          None \<Rightarrow> None
        | Some (ok, m) \<Rightarrow> if ok then malloc_loop grant nunits (freep m) (h_ptr m (freep m)) m else Some (0, m)
      else malloc_loop grant nunits p (h_ptr m p) m)"

definition malloc :: "(nat \<Rightarrow> bool) \<Rightarrow> uint \<Rightarrow> umem \<Rightarrow> (nat \<times> umem) option" where
  "malloc grant nbytes m =
     (let nunits = unat ((nbytes + 8 - 1) div 8 + 1);
          m = (if freep m = 0 then (set_size (base m) 0 (set_ptr (base m) (base m) m))\<lparr>freep := base m\<rparr> else m)
      in malloc_loop grant nunits (freep m) (h_ptr m (freep m)) m)"

end
