(* ===== verification/Umalloc_Proofs.thy ===== *)
theory Umalloc_Proofs
  imports Umalloc "HOL-Library.Disjoint_Sets"
begin

text \<open>
  The free list is a cycle of blocks in the order of their addresses, none of which touches the next; allocation and
  freeing return, keep the list so, and move exactly the block they are about between the program and the list.
\<close>

section \<open>Paths\<close>

primrec path :: "(nat \<Rightarrow> nat) \<Rightarrow> nat \<Rightarrow> nat list \<Rightarrow> nat \<Rightarrow> bool" where
  "path f x [] y \<longleftrightarrow> x = y"
| "path f x (a # as) y \<longleftrightarrow> a = x \<and> path f (f x) as y"

lemma path_append [simp]: "path f x (as @ bs) z \<longleftrightarrow> (\<exists>y. path f x as y \<and> path f y bs z)"
  by (induction as arbitrary: x) auto

lemma path_upd [simp]: "u \<notin> set as \<Longrightarrow> path (f(u := v)) x as y \<longleftrightarrow> path f x as y"
  by (induction as arbitrary: x) auto

lemma path_cong: "(\<And>x. x \<in> set as \<Longrightarrow> f x = g x) \<Longrightarrow> path f x as y \<longleftrightarrow> path g x as y"
  by (induction as arbitrary: x) auto

lemma path_map: "path f x as y \<Longrightarrow> map f as = tl (as @ [y])"
proof (induction as arbitrary: x)
  case (Cons a as)
  then show ?case by (cases as) auto
qed simp

section \<open>The invariant\<close>

definition gap :: "nat \<times> nat \<Rightarrow> nat \<times> nat \<Rightarrow> bool" where
  "gap x y \<longleftrightarrow> fst x + snd x < fst y"

definition units :: "(nat \<times> nat) list \<Rightarrow> nat set" where
  "units bs = (\<Union>(a, s)\<in>set bs. {a..<a + s})"

definition nodes :: "umem \<Rightarrow> (nat \<times> nat) list \<Rightarrow> nat list" where
  "nodes m bs = base m # map fst bs"

lemma nodes_append [simp]: "nodes m (us @ vs) = nodes m us @ map fst vs"
  by (simp add: nodes_def)

lemma nodes_sel [simp]:
  "nodes (m\<lparr>freep := x\<rparr>) xs = nodes m xs" "nodes (m\<lparr>brk := x\<rparr>) xs = nodes m xs"
  "nodes (set_ptr x y m) xs = nodes m xs" "nodes (set_size x y m) xs = nodes m xs"
  by (simp_all add: nodes_def)

definition uinv :: "nat \<Rightarrow> umem \<Rightarrow> (nat \<times> nat) list \<Rightarrow> bool" where
  "uinv lo m bs \<longleftrightarrow> 0 < base m \<and> base m < lo \<and> h_size m (base m) = 0 \<and> path (h_ptr m) (base m) (nodes m bs) (base m)
     \<and> sorted_wrt gap bs \<and> (\<forall>(a, s)\<in>set bs. 0 < s \<and> lo \<le> a \<and> a + s \<le> brk m \<and> h_size m a = s)
     \<and> freep m \<in> set (nodes m bs)"

lemma units_append [simp]: "units (bs @ cs) = units bs \<union> units cs" "units (x # cs) = {fst x..<fst x + snd x} \<union> units cs" "units [] = {}"
  by (auto simp: units_def split: prod.splits)

lemma uinvI:
  assumes "0 < base m" and "base m < lo" and "h_size m (base m) = 0" and "path (h_ptr m) (base m) (nodes m bs) (base m)" and "sorted_wrt gap bs"
    and "\<And>a s. (a, s) \<in> set bs \<Longrightarrow> 0 < s \<and> lo \<le> a \<and> a + s \<le> brk m \<and> h_size m a = s" and "freep m \<in> set (nodes m bs)"
  shows "uinv lo m bs"
  using assms by (auto simp: uinv_def)

lemma uinvD:
  assumes "uinv lo m bs"
  shows "0 < base m" "base m < lo" "h_size m (base m) = 0" "path (h_ptr m) (base m) (nodes m bs) (base m)" "sorted_wrt gap bs"
    "freep m \<in> set (nodes m bs)" "(a, s) \<in> set bs \<Longrightarrow> 0 < s \<and> lo \<le> a \<and> a + s \<le> brk m \<and> h_size m a = s"
  using assms by (auto simp: uinv_def)

lemma uinv_sorted:
  assumes "uinv lo m bs"
  shows "sorted_wrt (<) (nodes m bs)" "distinct (nodes m bs)"
proof -
  have "sorted_wrt (<) (map fst bs)" using assms unfolding uinv_def sorted_wrt_map by (auto simp: gap_def elim: sorted_wrt_mono_rel [rotated])
  then show s: "sorted_wrt (<) (nodes m bs)" using assms by (fastforce simp: nodes_def uinv_def)
  then show "distinct (nodes m bs)" by (simp add: strict_sorted_iff)
qed

section \<open>Freeing\<close>

text \<open>The search ends at the last node below the block, from whatever node it starts.\<close>

lemma find_slot_up:
  assumes "path (h_ptr m) p (ps @ [q]) r" and "sorted_wrt (<) (ps @ [q])" and "q < bp" and "bp < r \<or> r \<le> q"
  shows "find_slot m bp p = Some q"
  using assms(1,2)
proof (induction ps arbitrary: p)
  case Nil
  then show ?case using assms(3,4) by (subst find_slot.simps) auto
next
  case (Cons x ps)
  have x: "x = p" "path (h_ptr m) (h_ptr m p) (ps @ [q]) r" using Cons.prems(1) by auto
  then have "h_ptr m p \<in> set (ps @ [q])" by (cases ps) auto
  then have "p < h_ptr m p" "h_ptr m p < bp" using Cons.prems(2) x(1) assms(3) by (auto simp: sorted_wrt_append)
  then show ?case using Cons.IH [OF x(2)] Cons.prems(2) by (subst find_slot.simps) auto
qed

lemma find_slot_wrap:
  assumes "path (h_ptr m) p ps b" and "\<forall>x\<in>set ps. bp < x" and "b < bp" and "sorted_wrt (<) ps"
  shows "find_slot m bp p = find_slot m bp b"
  using assms
proof (induction ps arbitrary: p)
  case (Cons x ps)
  have x: "x = p" "path (h_ptr m) (h_ptr m p) ps b" using Cons.prems(1) by auto
  then have "h_ptr m p \<in> insert b (set ps)" by (cases ps) auto
  then have "find_slot m bp p = find_slot m bp (h_ptr m p)"
    using Cons.prems(2-4) x(1) by (subst find_slot.simps) auto
  then show ?case using Cons.IH [OF x(2)] Cons.prems(2-4) by simp
qed simp

text \<open>A block that is not on the list lies between two blocks of it.\<close>

lemma split_around:
  assumes "sorted_wrt gap bs" and "\<forall>(a, s)\<in>set bs. 0 < s" and "{bp..<bp + n} \<inter> units bs = {}" and "0 < n"
  obtains us vs where "bs = us @ vs" and "\<forall>(a, s)\<in>set us. a + s \<le> bp" and "\<forall>(a, s)\<in>set vs. bp + n \<le> a"
proof -
  have sep: "a + s \<le> bp \<or> bp + n \<le> a" if "(a, s) \<in> set bs" for a s
  proof (rule ccontr)
    assume "\<not> ?thesis"
    then have "max a bp \<in> {bp..<bp + n}" "max a bp \<in> {a..<a + s}" using that assms(2,4) by auto
    moreover have "{a..<a + s} \<subseteq> units bs" using that by (force simp: units_def)
    ultimately show False using assms(3) by blast
  qed
  have "\<exists>us vs. bs = us @ vs \<and> (\<forall>(a, s)\<in>set us. a + s \<le> bp) \<and> (\<forall>(a, s)\<in>set vs. bp + n \<le> a)"
    using assms(1) sep
  proof (induction bs)
    case (Cons x bs)
    obtain a s where x: "x = (a, s)" by (cases x)
    show ?case
    proof (cases "a + s \<le> bp")
      case True
      obtain us vs where "bs = us @ vs" "\<forall>(a, s)\<in>set us. a + s \<le> bp" "\<forall>(a, s)\<in>set vs. bp + n \<le> a"
        using Cons.IH Cons.prems by auto
      then show ?thesis using True x by (intro exI [of _ "x # us"] exI [of _ vs]) auto
    next
      case False
      then have "bp + n \<le> a" using Cons.prems(2) [of a s] x by auto
      moreover have "\<forall>y\<in>set bs. a < fst y" using Cons.prems(1) x by (auto simp: gap_def)
      ultimately show ?thesis using x by (intro exI [of _ "[]"] exI [of _ "x # bs"]) force
    qed
  qed simp
  then show thesis using that by blast
qed

lemma nodes_below:
  assumes "uinv lo m (us @ vs)" and "\<forall>(a, s)\<in>set us. a + s \<le> bp" and "lo \<le> bp" and "x \<in> set (nodes m us)"
  shows "x < bp"
proof -
  have "0 < s" if "(a, s) \<in> set us" for a s using uinvD(7) [OF assms(1), of a s] that by simp
  moreover have "base m < bp" using uinvD(2) [OF assms(1)] assms(3) by simp
  ultimately show ?thesis using assms(2,4) unfolding nodes_def by fastforce
qed

text \<open>The state around the block: the nodes below it, of which the last is \<open>p\<close>, and those above.\<close>

lemma find_slot_run:
  assumes "uinv lo m (us @ vs)" and "\<forall>(a, s)\<in>set us. a + s \<le> bp" and "\<forall>(a, s)\<in>set vs. bp < a" and "lo \<le> bp"
    and "nodes m us = ps @ [p]"
  shows "find_slot m bp (freep m) = Some p" "path (h_ptr m) (base m) ps p" "path (h_ptr m) (h_ptr m p) (map fst vs) (base m)"
proof -
  have nd: "nodes m (us @ vs) = ps @ [p] @ map fst vs" using assms(5) by simp
  then have c: "path (h_ptr m) (base m) (ps @ [p] @ map fst vs) (base m)" using assms(1) unfolding uinv_def by simp
  then show c1: "path (h_ptr m) (base m) ps p" "path (h_ptr m) (h_ptr m p) (map fst vs) (base m)" by auto
  have srt: "sorted_wrt (<) ((ps @ [p]) @ map fst vs)" using uinv_sorted(1) [OF assms(1)] unfolding nd by simp
  have b: "base m < bp" using assms(1,4) by (simp add: uinv_def)
  have below: "x < bp" if "x \<in> set (ps @ [p])" for x using nodes_below [OF assms(1,2,4), of x] that assms(5) by simp
  have r: "bp < h_ptr m p \<or> h_ptr m p \<le> p"
  proof (cases vs)
    case Nil
    moreover have "base m \<le> p" using assms(5) srt by (cases ps) (auto simp: nodes_def)
    ultimately show ?thesis using c1(2) by simp
  qed (use c1(2) assms(3) in force)
  have up: "find_slot m bp x = Some p" if "path (h_ptr m) x (qs @ [p]) (h_ptr m p)" "ps @ [p] = as @ qs @ [p]" for x as qs
    using find_slot_up [OF that(1) _ below r] srt that(2) by (simp add: sorted_wrt_append)
  have start: "find_slot m bp (base m) = Some p" using up [of "base m" ps "[]"] c1(1) by auto
  have "freep m \<in> set (ps @ [p]) \<union> fst ` set vs" using uinvD(6) [OF assms(1)] unfolding nd by auto
  then show "find_slot m bp (freep m) = Some p"
  proof
    assume "freep m \<in> set (ps @ [p])"
    then obtain as zs where z: "ps @ [p] = as @ freep m # zs" by (meson split_list)
    then obtain qs where q: "freep m # zs = qs @ [p]" by (metis append_butlast_last_id last_appendR last_snoc list.distinct(1))
    have "path (h_ptr m) (freep m) (qs @ [p]) (h_ptr m p)"
    proof -
      have "path (h_ptr m) (base m) (as @ freep m # zs) (h_ptr m p)" using c1(1) z [symmetric] by auto
      then show ?thesis using q by (cases qs) auto
    qed
    then show ?thesis using up z q by metis
  next
    assume "freep m \<in> fst ` set vs"
    then obtain as zs where z: "map fst vs = as @ freep m # zs" by (metis image_set split_list)
    have "path (h_ptr m) (freep m) (freep m # zs) (base m)" using c1(2) z by auto
    moreover have "sorted_wrt (<) (freep m # zs)" using srt z by (simp add: sorted_wrt_append)
    moreover have "\<forall>x\<in>set (freep m # zs). bp < x"
    proof -
      have "set (freep m # zs) \<subseteq> fst ` set vs" using arg_cong [OF z, of set] by auto
      then show ?thesis using assms(3) by fastforce
    qed
    ultimately show ?thesis using find_slot_wrap [of m "freep m" "freep m # zs" "base m" bp] b start by simp
  qed
qed

text \<open>Memory that an operation does not touch.\<close>

definition unchanged :: "nat set \<Rightarrow> umem \<Rightarrow> umem \<Rightarrow> bool" where
  "unchanged W m m' \<longleftrightarrow> (\<forall>x. x \<notin> W \<longrightarrow> h_ptr m' x = h_ptr m x \<and> h_size m' x = h_size m x)"

lemma unchanged_trans: "unchanged W m m' \<Longrightarrow> unchanged V m' m'' \<Longrightarrow> unchanged (W \<union> V) m m''"
  by (simp add: unchanged_def)

lemma join_up_run:
  assumes "uinv lo m (us @ vs)" and "\<forall>(a, s)\<in>set us. a + s \<le> bp" and "\<forall>(a, s)\<in>set vs. bp + h_size m bp \<le> a" and "0 < h_size m bp"
    and "lo \<le> bp" and "bp + h_size m bp \<le> brk m" and "path (h_ptr m) (h_ptr m p) (map fst vs) (base m)" and "nodes m us = ps @ [p]"
  shows "\<exists>n vs' r. join_up bp p m = set_ptr bp r (set_size bp n m) \<and> path (h_ptr m) r (map fst vs') (base m) \<and> h_size m bp \<le> n
    \<and> {bp..<bp + n} \<union> units vs' = {bp..<bp + h_size m bp} \<union> units vs \<and> sorted_wrt gap ((bp, n) # vs') \<and> set vs' \<subseteq> set vs \<and> bp + n \<le> brk m"
proof (cases "bp + h_size m bp = h_ptr m p")
  case True
  have "base m < lo" using assms(1) by (simp add: uinv_def)
  then obtain s ws where v: "vs = (bp + h_size m bp, s) # ws" using assms(5,7) True by (cases vs) auto
  have s: "h_size m (h_ptr m p) = s" "bp + h_size m bp + s \<le> brk m" using assms(1) v True by (auto simp: uinv_def)
  have "sorted_wrt gap vs" using assms(1) by (simp add: uinv_def sorted_wrt_append)
  then have "sorted_wrt gap ((bp, h_size m bp + s) # ws)" using v by (auto simp: gap_def)
  moreover have "path (h_ptr m) (h_ptr m (h_ptr m p)) (map fst ws) (base m)" using assms(7) v True by simp
  moreover have "{bp..<bp + (h_size m bp + s)} \<union> units ws = {bp..<bp + h_size m bp} \<union> units vs" using v by auto
  ultimately show ?thesis using True s v
    by (intro exI [of _ "h_size m bp + s"] exI [of _ ws] exI [of _ "h_ptr m (h_ptr m p)"]) (auto simp: join_up_def)
next
  case False
  have "sorted_wrt gap ((bp, h_size m bp) # vs)"
  proof (cases vs)
    case (Cons v ws)
    have "fst v = h_ptr m p" using assms(7) Cons by simp
    then have "bp + h_size m bp < fst v" using assms(3) False Cons by (cases v) auto
    moreover have "sorted_wrt gap vs" using assms(1) by (simp add: uinv_def sorted_wrt_append)
    ultimately show ?thesis using Cons by (auto simp: gap_def)
  qed simp
  then show ?thesis using False assms(6,7)
    by (intro exI [of _ "h_size m bp"] exI [of _ vs] exI [of _ "h_ptr m p"]) (simp add: join_up_def set_size_def)
qed

lemma nodes_last: "nodes m us = ps @ [p] \<Longrightarrow> us = [] \<and> ps = [] \<and> p = base m \<or> (\<exists>ws s. us = ws @ [(p, s)] \<and> ps = nodes m ws)"
proof (cases us rule: rev_cases)
  case (snoc ws x)
  assume "nodes m us = ps @ [p]"
  then have "ps = nodes m ws" "p = fst x" using snoc by (auto simp: nodes_def)
  then show ?thesis using snoc by (cases x) auto
qed (simp add: nodes_def)

text \<open>The invariant after \<open>bp\<close> is joined to the block below it, and after it becomes a block of its own.\<close>

lemma uinv_joined:
  assumes "uinv lo m (ws @ (p, s) # vs)" and "set vs' \<subseteq> set vs" and "sorted_wrt gap ((p + s, n) # vs')" and "p + s + n \<le> brk m"
    and "path (h_ptr m) r (map fst vs') (base m)"
  shows "uinv lo ((set_ptr p r (set_size p (s + n) (set_ptr (p + s) r (set_size (p + s) n m))))\<lparr>freep := p\<rparr>) (ws @ (p, s + n) # vs')"
proof -
  have srt: "sorted_wrt gap (ws @ (p, s) # vs)" using uinvD(5) [OF assms(1)] .
  have s: "0 < s" "lo \<le> p" using uinvD(7) [OF assms(1), of p s] by auto
  have b: "base m < lo" using uinvD(2) [OF assms(1)] .
  have ws: "a + c < p" if "(a, c) \<in> set ws" for a c using srt that by (auto simp: sorted_wrt_append gap_def)
  have vs: "p + s + n < a" if "(a, c) \<in> set vs'" for a c using assms(3) that by (auto simp: gap_def)
  have nin: "p \<notin> set (nodes m ws)" "p + s \<notin> set (nodes m ws)" "p \<notin> fst ` set vs'" "p + s \<notin> fst ` set vs'"
    using b s ws vs by (fastforce simp: nodes_def)+
  have "sorted_wrt gap (ws @ (p, s + n) # vs')"
    using srt assms(2,3) by (fastforce simp: sorted_wrt_append gap_def)
  moreover have "path (h_ptr m) (base m) (nodes m ws) p" using uinvD(4) [OF assms(1)] by (auto simp: nodes_def)
  moreover have blk: "0 < c \<and> lo \<le> a \<and> a + c \<le> brk m \<and> h_size m a = c \<and> a \<noteq> p \<and> a \<noteq> p + s" if "(a, c) \<in> set ws \<union> set vs'" for a c
    using uinvD(7) [OF assms(1), of a c] that assms(2) ws [of a c] vs [of a c] s by auto
  ultimately show ?thesis
  proof (intro uinvI, goal_cases)
    case (6 a c)
    then show ?case using blk [of a c] assms(4) s by auto
  qed (use assms(5) b s uinvD(1,3) [OF assms(1)] nin in \<open>auto simp: nodes_def\<close>)
qed

lemma uinv_inserted:
  assumes "uinv lo m (us @ vs)" and "set vs' \<subseteq> set vs" and "sorted_wrt gap ((bp, n) # vs')" and "bp + n \<le> brk m" and "0 < n" and "lo \<le> bp"
    and "path (h_ptr m) r (map fst vs') (base m)" and "path (h_ptr m) (base m) ps p" and "nodes m us = ps @ [p]" and "p + h_size m p \<noteq> bp"
    and "\<forall>(a, s)\<in>set us. a + s \<le> bp"
  shows "uinv lo ((set_ptr p bp (set_ptr bp r (set_size bp n m)))\<lparr>freep := p\<rparr>) (us @ (bp, n) # vs')"
proof -
  have srt: "sorted_wrt gap us" using uinvD(5) [OF assms(1)] by (simp add: sorted_wrt_append)
  have b: "base m < lo" using uinvD(2) [OF assms(1)] .
  have blk: "0 < c \<and> lo \<le> a \<and> a + c \<le> brk m \<and> h_size m a = c" if "(a, c) \<in> set us \<union> set vs'" for a c
    using uinvD(7) [OF assms(1), of a c] that assms(2) by auto
  have us: "a + c < bp" if ac: "(a, c) \<in> set us" for a c
  proof (cases "a = p")
    case True
    then show ?thesis using assms(10,11) blk [of a c] ac by force
  next
    case False
    then obtain ws s where "us = ws @ [(p, s)]" using nodes_last [OF assms(9)] ac by auto
    then have "a + c < p" "p < bp" using ac False srt assms(11) blk [of p s] by (auto simp: sorted_wrt_append gap_def)
    then show ?thesis by simp
  qed
  have vs: "bp + n < a" if "(a, c) \<in> set vs'" for a c using assms(3) that by (auto simp: gap_def)
  have "distinct (ps @ [p])" using uinv_sorted(2) [OF assms(1)] assms(9) by simp
  moreover have "p < bp" using nodes_below [OF assms(1,11,6), of p] assms(9) by simp
  moreover have "bp \<notin> set (ps @ [p])" using nodes_below [OF assms(1,11,6), of bp] assms(9) by auto
  ultimately have nin: "p \<notin> set ps" "bp \<notin> set ps" "bp \<noteq> p" "p \<notin> fst ` set vs'" "bp \<notin> fst ` set vs'" using vs by fastforce+
  have "sorted_wrt gap (us @ (bp, n) # vs')" using srt assms(3) us vs by (fastforce simp: sorted_wrt_append gap_def)
  moreover have "path ((h_ptr m)(bp := r, p := bp)) (base m) ((ps @ [p]) @ bp # map fst vs') (base m)"
    using assms(7,8) nin by (auto intro: exI [of _ p])
  moreover have "h_size m (base m) = 0" "base m \<noteq> bp" using uinvD(3) [OF assms(1)] b assms(6) by auto
  ultimately show ?thesis
  proof (intro uinvI, goal_cases)
    case (6 a c)
    then show ?case using blk [of a c] assms(4-6) us [of a c] vs [of a c] by auto
  qed (use assms(9) b uinvD(1) [OF assms(1)] in auto)
qed

text \<open>
  Freeing a block outside of the free memory adds its units to the free memory, joined with its neighbours, and
  touches no memory but that of free blocks.
\<close>

lemma free_run:
  assumes "uinv lo m bs" and "lo \<le> bp" and "0 < h_size m bp" and "bp + h_size m bp \<le> brk m" and "{bp..<bp + h_size m bp} \<inter> units bs = {}"
  shows "\<exists>m' bs'. free (bp + 1) m = Some m' \<and> uinv lo m' bs' \<and> units bs' = units bs \<union> {bp..<bp + h_size m bp}
    \<and> base m' = base m \<and> brk m' = brk m \<and> unchanged (insert (base m) (units bs')) m m'"
proof -
  have pos: "\<forall>(a, s)\<in>set bs. 0 < s" using uinvD(7) [OF assms(1)] by blast
  obtain us vs where bs: "bs = us @ vs" "\<forall>(a, s)\<in>set us. a + s \<le> bp" "\<forall>(a, s)\<in>set vs. bp + h_size m bp \<le> a"
    by (rule split_around [OF uinvD(5) [OF assms(1)] pos assms(5,3)])
  note inv = assms(1) [unfolded bs(1)]
  obtain ps p where ps: "nodes m us = ps @ [p]" by (metis nodes_def append_butlast_last_id list.distinct(1))
  have vs: "\<forall>(a, s)\<in>set vs. bp < a" using bs(3) assms(3) by fastforce
  note fs = find_slot_run [OF inv bs(2) vs assms(2) ps]
  obtain n vs' r where j: "join_up bp p m = set_ptr bp r (set_size bp n m)" "path (h_ptr m) r (map fst vs') (base m)" "h_size m bp \<le> n"
    "{bp..<bp + n} \<union> units vs' = {bp..<bp + h_size m bp} \<union> units vs" "sorted_wrt gap ((bp, n) # vs')" "set vs' \<subseteq> set vs" "bp + n \<le> brk m"
    using join_up_run [OF inv bs(2,3) assms(3,2,4) fs(3) ps] by blast
  let ?m = "(join_down bp p (set_ptr bp r (set_size bp n m)))\<lparr>freep := p\<rparr>"
  have fr: "free (bp + 1) m = Some ?m" using fs(1) j(1) by (simp add: free_def)
  have pb: "p < bp" using nodes_below [OF inv bs(2) assms(2), of p] ps by simp
  have n: "0 < n" using j(3) assms(3) by simp
  show ?thesis
  proof (cases "p + h_size m p = bp")
    case True
    then obtain ws s where u: "us = ws @ [(p, s)]" "ps = nodes m ws" using nodes_last [OF ps] uinvD(2,3) [OF assms(1)] assms(2) by auto
    have s: "h_size m p = s" using uinvD(7) [OF inv, of p s] u(1) by simp
    have m: "?m = (set_ptr p r (set_size p (s + n) (set_ptr bp r (set_size bp n m))))\<lparr>freep := p\<rparr>"
      using True pb s by (simp add: join_down_def)
    have "uinv lo ?m (ws @ (p, s + n) # vs')" unfolding m
      using uinv_joined [of lo m ws p s vs vs' n r] inv u(1) j True s by simp
    moreover have "units (ws @ (p, s + n) # vs') = units bs \<union> {bp..<bp + h_size m bp}"
    proof -
      have "{p..<p + (s + n)} = {p..<p + s} \<union> {bp..<bp + n}" using True s by auto
      then show ?thesis using j(4) bs(1) u(1) by auto
    qed
    moreover have "unchanged (insert (base m) (units (ws @ (p, s + n) # vs'))) m ?m" unfolding m unchanged_def using True s n by auto
    ultimately show ?thesis using fr m by auto
  next
    case False
    have m: "?m = (set_ptr p bp (set_ptr bp r (set_size bp n m)))\<lparr>freep := p\<rparr>" using False pb by (simp add: join_down_def)
    have inv': "uinv lo ?m (us @ (bp, n) # vs')" unfolding m
      by (rule uinv_inserted [OF inv j(6,5,7) n assms(2) j(2) fs(2) ps False bs(2)])
    moreover have "units (us @ (bp, n) # vs') = units bs \<union> {bp..<bp + h_size m bp}" using j(4) bs(1) by auto
    moreover have "p \<in> insert (base m) (units us)"
      using nodes_last [OF ps] uinvD(7) [OF inv, of p] by fastforce
    then have "unchanged (insert (base m) (units (us @ (bp, n) # vs'))) m ?m" unfolding m unchanged_def using n by auto
    ultimately show ?thesis using fr m by auto
  qed
qed

section \<open>Allocating\<close>

text \<open>The node before a block is the only one that points to it.\<close>

lemma prev_unique:
  assumes "uinv lo m bs" and "x \<in> set (nodes m bs)" and "y \<in> set (nodes m bs)" and "h_ptr m x = h_ptr m y"
  shows "x = y"
proof -
  have "map (h_ptr m) (nodes m bs) = tl (nodes m bs @ [base m])" using path_map [OF uinvD(4) [OF assms(1)]] .
  then have "distinct (map (h_ptr m) (nodes m bs))" using uinv_sorted(2) [OF assms(1)] by (simp add: nodes_def)
  then show ?thesis using assms(2-4) by (auto simp: distinct_map dest: inj_onD)
qed

text \<open>A block that is taken whole leaves the list; of a larger one the tail is cut off.\<close>

lemma uinv_unlinked:
  assumes inv: "uinv lo m (us @ (p, s) # vs)" and ps: "nodes m us = ps @ [prevp]"
  shows "uinv lo ((set_ptr prevp (h_ptr m p) m)\<lparr>freep := prevp\<rparr>) (us @ vs)"
proof (intro uinvI, goal_cases)
  have blk: "0 < c \<and> lo \<le> a \<and> a + c \<le> brk m \<and> h_size m a = c" if "(a, c) \<in> set (us @ (p, s) # vs)" for a c
    using uinvD(7) [OF inv that] .
  have dn: "distinct (nodes m us @ p # map fst vs)" using uinv_sorted(2) [OF inv] by simp
  have c: "path (h_ptr m) (base m) ps prevp" "path (h_ptr m) (h_ptr m p) (map fst vs) (base m)"
    using uinvD(4) [OF inv] ps by auto
  {
    case 4
    show ?case using c ps dn by (auto intro: exI [of _ prevp])
  next
    case 5
    show ?case using uinvD(5) [OF inv] by (auto simp: sorted_wrt_append)
  next
    case (6 a s)
    then show ?case using blk [of a s] by auto
  }
qed (use uinvD(1-3) [OF inv] ps in auto)

lemma free_apart:
  assumes "uinv lo m (us @ (p, s) # vs)"
  shows "units us \<inter> {p..<p + s} = {}" "units vs \<inter> {p..<p + s} = {}"
  using uinvD(5) [OF assms] by (fastforce simp: units_def sorted_wrt_append gap_def)+

lemma uinv_cut:
  assumes inv: "uinv lo m (us @ (p, s) # vs)" and n: "0 < n" "n < s" and ps: "nodes m us = ps @ [prevp]"
  shows "uinv lo ((set_size (p + (s - n)) n (set_size p (s - n) m))\<lparr>freep := prevp\<rparr>) (us @ (p, s - n) # vs)"
proof (intro uinvI, goal_cases)
  have blk: "0 < c \<and> lo \<le> a \<and> a + c \<le> brk m \<and> h_size m a = c" if "(a, c) \<in> set (us @ (p, s) # vs)" for a c
    using uinvD(7) [OF inv that] .
  {
    case 3
    show ?case using uinvD(2,3) [OF inv] blk [of p s] by auto
  next
    case 4
    show ?case using uinvD(4) [OF inv] by auto
  next
    case 5
    show ?case using uinvD(5) [OF inv] by (fastforce simp: sorted_wrt_append gap_def)
  next
    case (6 a c)
    have "a \<notin> {p..<p + s}" if ac: "(a, c) \<in> set us \<union> set vs"
    proof -
      have "a \<in> units us \<union> units vs" using ac blk [of a c] by (force simp: units_def)
      then show ?thesis using free_apart [OF inv] by auto
    qed
    then show ?case using 6 blk [of a c] blk [of p s] n by auto
  }
qed (use uinvD(1-3) [OF inv] ps in auto)

lemma take_block_run:
  assumes "uinv lo m bs" and "(p, s) \<in> set bs" and "0 < n" and "n \<le> s" and "prevp \<in> set (nodes m bs)" and "h_ptr m prevp = p"
  shows "\<exists>q m' bs'. take_block n prevp p m = (q + 1, m') \<and> uinv lo m' bs' \<and> {q..<q + n} \<subseteq> units bs \<and> units bs' = units bs - {q..<q + n}
    \<and> h_size m' q = n \<and> base m' = base m \<and> brk m' = brk m \<and> unchanged (insert (base m) (units bs)) m m'"
proof -
  obtain us vs where bs: "bs = us @ (p, s) # vs" using assms(2) by (meson split_list)
  obtain ps pr where ps: "nodes m us = ps @ [pr]" by (metis nodes_def append_butlast_last_id list.distinct(1))
  note inv = assms(1) [unfolded bs]
  have "h_ptr m pr = p" using uinvD(4) [OF inv] ps by auto
  then have "prevp = pr" using prev_unique [OF assms(1,5)] assms(6) ps bs by simp
  note c = ps [folded this]
  have blk: "0 < c \<and> lo \<le> a \<and> a + c \<le> brk m \<and> h_size m a = c" if "(a, c) \<in> set bs" for a c using uinvD(7) [OF assms(1) that] .
  note dj = free_apart [OF inv]
  have pv: "prevp \<in> insert (base m) (units us)" using nodes_last [OF c] blk bs by fastforce
  show ?thesis
  proof (cases "s = n")
    case True
    let ?m = "(set_ptr prevp (h_ptr m p) m)\<lparr>freep := prevp\<rparr>"
    have "take_block n prevp p m = (p + 1, ?m)" using blk [OF assms(2)] True by (simp add: take_block_def)
    moreover have "unchanged (insert (base m) (units bs)) m ?m" using pv bs by (auto simp: unchanged_def)
    moreover have "units (us @ vs) = units bs - {p..<p + n}" using dj True bs by auto
    ultimately show ?thesis using True blk [OF assms(2)] bs uinv_unlinked [OF inv c]
      by (intro exI [of _ p] exI [of _ ?m] exI [of _ "us @ vs"]) auto
  next
    case False
    let ?q = "p + (s - n)"
    let ?m = "(set_size ?q n (set_size p (s - n) m))\<lparr>freep := prevp\<rparr>"
    have lt: "n < s" "?q + n = p + s" using False assms(4) by auto
    have "take_block n prevp p m = (?q + 1, ?m)" using blk [OF assms(2)] False assms(4) by (simp add: take_block_def Let_def)
    moreover have "unchanged (insert (base m) (units bs)) m ?m" using bs lt assms(3) by (auto simp: unchanged_def)
    moreover have "units (us @ (p, s - n) # vs) = units bs - {?q..<?q + n}"
    proof -
      have "{?q..<?q + n} \<subseteq> {p..<p + s}" "{p..<p + (s - n)} = {p..<p + s} - {?q..<?q + n}" using lt by auto
      then show ?thesis unfolding bs units_append fst_conv snd_conv using dj by blast
    qed
    moreover have "{?q..<?q + n} \<subseteq> units bs" "h_size ?m ?q = n" using bs lt by auto
    ultimately show ?thesis using uinv_cut [OF inv assms(3) lt(1) c]
      by (intro exI [of _ ?q] exI [of _ ?m] exI [of _ "us @ (p, s - n) # vs"]) auto
  qed
qed

text \<open>The loop goes round the list once: it takes a block that is large enough, or asks for more memory.\<close>

lemma malloc_loop_path:
  assumes "path (h_ptr m) p (cs @ [freep m]) r" and "freep m \<notin> set cs" and "h_ptr m prevp = p"
  shows "(\<exists>pv x. x \<in> set (cs @ [freep m]) \<and> n \<le> h_size m x \<and> pv \<in> insert prevp (set cs) \<and> h_ptr m pv = x
      \<and> malloc_loop grant n prevp p m = Some (take_block n pv x m))
    \<or> (\<forall>x\<in>set (cs @ [freep m]). h_size m x < n) \<and> malloc_loop grant n prevp p m =
        (case morecore grant n m of None \<Rightarrow> None
         | Some (ok, m) \<Rightarrow> if ok then malloc_loop grant n (freep m) (h_ptr m (freep m)) m else Some (0, m))"
  using assms
proof (induction cs arbitrary: prevp p)
  case Nil
  then show ?case by (cases "n \<le> h_size m p"; subst malloc_loop.simps) (auto simp: malloc_loop.simps [of grant n prevp p m])
next
  case (Cons c cs)
  have c: "c = p" "path (h_ptr m) (h_ptr m p) (cs @ [freep m]) r" "p \<noteq> freep m" "freep m \<notin> set cs" using Cons.prems by auto
  show ?case
  proof (cases "n \<le> h_size m p")
    case True
    then have "malloc_loop grant n prevp p m = Some (take_block n prevp p m)" by (subst malloc_loop.simps) simp
    then show ?thesis using True c(1) Cons.prems(3) by fastforce
  next
    case False
    then have l: "malloc_loop grant n prevp p m = malloc_loop grant n p (h_ptr m p) m" using c(3) by (subst malloc_loop.simps) simp
    show ?thesis using Cons.IH [OF c(2,4) refl] False c(1) unfolding l by (elim disjE) fastforce+
  qed
qed

lemma malloc_loop_scan:
  assumes "uinv lo m bs" and "0 < n"
  shows "(\<exists>pv x s. (x, s) \<in> set bs \<and> n \<le> s \<and> pv \<in> set (nodes m bs) \<and> h_ptr m pv = x
      \<and> malloc_loop grant n (freep m) (h_ptr m (freep m)) m = Some (take_block n pv x m))
    \<or> (\<forall>(a, s)\<in>set bs. s < n) \<and> malloc_loop grant n (freep m) (h_ptr m (freep m)) m =
        (case morecore grant n m of None \<Rightarrow> None
         | Some (ok, m) \<Rightarrow> if ok then malloc_loop grant n (freep m) (h_ptr m (freep m)) m else Some (0, m))"
proof -
  obtain as zs where z: "nodes m bs = as @ freep m # zs" using uinvD(6) [OF assms(1)] by (meson split_list)
  have "path (h_ptr m) (h_ptr m (freep m)) ((zs @ as) @ [freep m]) (h_ptr m (freep m))" using uinvD(4) [OF assms(1)] z by auto
  moreover have "freep m \<notin> set (zs @ as)" using uinv_sorted(2) [OF assms(1)] z by auto
  moreover have st: "set ((zs @ as) @ [freep m]) = set (nodes m bs)" "insert (freep m) (set (zs @ as)) = set (nodes m bs)" using z by auto
  moreover have "x \<noteq> base m" if "n \<le> h_size m x" for x using that assms(2) uinvD(3) [OF assms(1)] by auto
  moreover have "(a, h_size m a) \<in> set bs" if "a \<in> set (nodes m bs)" "a \<noteq> base m" for a
    using that uinvD(7) [OF assms(1)] by (auto simp: nodes_def)
  moreover have "h_size m a = s \<and> a \<in> set (nodes m bs)" if "(a, s) \<in> set bs" for a s using that uinvD(7) [OF assms(1), of a s] by (force simp: nodes_def)
  ultimately show ?thesis using malloc_loop_path [of m "h_ptr m (freep m)" "zs @ as" "h_ptr m (freep m)" "freep m" n grant]
    unfolding st by blast
qed

text \<open>Free blocks do not touch, so a run of free memory lies in one of them.\<close>

lemma units_in_block:
  assumes "sorted_wrt gap bs" and "{a..<a + n} \<subseteq> units bs" and "0 < n"
  shows "\<exists>(b, s)\<in>set bs. n \<le> s"
proof -
  have "a \<in> units bs" using assms(2,3) by auto
  then obtain b s where b: "(b, s) \<in> set bs" "b \<le> a" "a < b + s" by (auto simp: units_def)
  have "a + n \<le> b + s"
  proof (rule ccontr)
    assume "\<not> ?thesis"
    then have "b + s \<in> units bs" using b assms(2) by auto
    then obtain c t where c: "(c, t) \<in> set bs" "c \<le> b + s" "b + s < c + t" by (auto simp: units_def)
    have "(b, s) = (c, t) \<or> gap (b, s) (c, t) \<or> gap (c, t) (b, s)"
      using assms(1) b(1) c(1) by (metis in_set_conv_nth linorder_neqE_nat sorted_wrt_iff_nth_less)
    then show False using b c by (auto simp: gap_def)
  qed
  then show ?thesis using b by (intro bexI [of _ "(b, s)"]) auto
qed

lemma sint_units:
  assumes "k < 2 ^ 28"
  shows "sint (word_of_nat k * 8 :: uint) = int k * 8"
proof -
  have "(word_of_nat k * 8 :: uint) = word_of_int (int k * 8)" by simp
  then show ?thesis using assms by (simp only: sint_sbintrunc') (subst signed_take_bit_int_eq_self; simp)
qed

lemma morecore_run:
  assumes "uinv lo m bs" and "n < 2 ^ 28" and "lo \<le> brk m"
  shows "morecore grant n m = Some (False, m) \<or> (\<exists>m' bs'. morecore grant n m = Some (True, m') \<and> uinv lo m' bs' \<and> brk m + n \<le> brk m'
    \<and> units bs' = units bs \<union> {brk m..<brk m'} \<and> base m' = base m \<and> unchanged (insert (base m) (units bs')) m m')"
proof -
  define k where "k = (if n < 4096 then 4096 else n)"
  let ?b = "brk m + k"
  have k: "n \<le> k" "0 < k" "k < 2 ^ 28" using assms(2) by (simp_all add: k_def)
  have sz: "sint (word_of_nat k * 8 :: uint) = int k * 8" using sint_units [OF k(3)] .
  have new: "int (brk m) + (int k * 8) div 8 = int ?b" "int k * 8 > 0" using k(2) by simp_all
  show ?thesis
  proof (cases "?b < 0x2000000 \<and> grant ?b")
    case False
    then have "morecore grant n m = Some (False, m)" unfolding morecore_def Let_def k_def [symmetric] sz sbrk_def new using nat_int [of ?b] new(2) by auto
    then show ?thesis ..
  next
    case True
    let ?m = "set_size (brk m) k (m\<lparr>brk := ?b\<rparr>)"
    have "sbrk grant (int k * 8) m = Some (brk m, m\<lparr>brk := ?b\<rparr>)" unfolding sbrk_def Let_def new nat_int using True new(2) by auto
    then have mc: "morecore grant n m = (case free (brk m + 1) ?m of None \<Rightarrow> None | Some m \<Rightarrow> Some (True, m))"
      unfolding morecore_def Let_def k_def [symmetric] sz by simp
    have blk: "0 < c \<and> lo \<le> a \<and> a + c \<le> brk m \<and> h_size m a = c" if "(a, c) \<in> set bs" for a c using uinvD(7) [OF assms(1) that] .
    have "uinv lo ?m bs"
    proof (intro uinvI, goal_cases)
      case (6 a c)
      then show ?case using blk [of a c] by auto
    qed (use uinvD(1-6) [OF assms(1)] assms(3) in auto)
    moreover have "{brk m..<?b} \<inter> units bs = {}" using blk by (fastforce simp: units_def)
    ultimately obtain m' bs' where m': "free (brk m + 1) ?m = Some m'" "uinv lo m' bs'" "units bs' = units bs \<union> {brk m..<?b}"
      "base m' = base m" "brk m' = ?b" "unchanged (insert (base m) (units bs')) ?m m'"
      using free_run [of lo ?m bs "brk m"] assms(3) k(2) by auto
    moreover have "unchanged (insert (base m) (units bs')) m ?m" using m'(3) k(2) by (auto simp: unchanged_def)
    ultimately show ?thesis using mc unchanged_trans [of _ m ?m _ m'] k(1) by (intro disjI2 exI [of _ m'] exI [of _ bs']) fastforce
  qed
qed

lemma malloc_loop_run:
  assumes "uinv lo m bs" and "0 < n" and "n < 2 ^ 28" and "lo \<le> brk m"
  shows "malloc_loop grant n (freep m) (h_ptr m (freep m)) m = Some (0, m)
    \<or> (\<exists>q m' bs'. malloc_loop grant n (freep m) (h_ptr m (freep m)) m = Some (q + 1, m') \<and> uinv lo m' bs' \<and> brk m \<le> brk m'
      \<and> {q..<q + n} \<subseteq> units bs \<union> {brk m..<brk m'} \<and> units bs' = units bs \<union> {brk m..<brk m'} - {q..<q + n} \<and> h_size m' q = n
      \<and> base m' = base m \<and> unchanged (insert (base m) (units bs \<union> {brk m..<brk m'})) m m')"
    (is "?loop m = _ \<or> ?got m")
proof -
  have take: "\<exists>q m'' bs''. Some (take_block n pv x m') = Some (q + 1, m'') \<and> uinv lo m'' bs'' \<and> {q..<q + n} \<subseteq> units bs'
      \<and> units bs'' = units bs' - {q..<q + n} \<and> h_size m'' q = n \<and> base m'' = base m' \<and> brk m'' = brk m'
      \<and> unchanged (insert (base m') (units bs')) m' m''"
    if "uinv lo m' bs'" "(x, s) \<in> set bs'" "n \<le> s" "pv \<in> set (nodes m' bs')" "h_ptr m' pv = x" for m' bs' x s pv
    using take_block_run [OF that(1,2) assms(2) that(3,4,5)] by (elim exE conjE) (simp, blast)
  consider (fit) pv x s where "(x, s) \<in> set bs" "n \<le> s" "pv \<in> set (nodes m bs)" "h_ptr m pv = x" "?loop m = Some (take_block n pv x m)"
    | (full) "?loop m = (case morecore grant n m of None \<Rightarrow> None | Some (ok, m) \<Rightarrow> if ok then ?loop m else Some (0, m))"
    using malloc_loop_scan [OF assms(1,2), of grant] by blast
  then show ?thesis
  proof cases
    case fit
    then show ?thesis using take [OF assms(1) fit(1-4)] by (intro disjI2) auto
  next
    case full
    consider "morecore grant n m = Some (False, m)" | (more) m' bs' where "morecore grant n m = Some (True, m')" "uinv lo m' bs'"
      "brk m + n \<le> brk m'" "units bs' = units bs \<union> {brk m..<brk m'}" "base m' = base m" "unchanged (insert (base m) (units bs')) m m'"
      using morecore_run [OF assms(1,3,4), of grant] by blast
    then show ?thesis
    proof cases
      case more
      have "{brk m..<brk m + n} \<subseteq> units bs'" unfolding more(4) using more(3) by fastforce
      from units_in_block [OF uinvD(5) [OF more(2)] this assms(2)] have "\<not> (\<forall>(a, s)\<in>set bs'. s < n)" by fastforce
      then obtain pv x s where f: "(x, s) \<in> set bs'" "n \<le> s" "pv \<in> set (nodes m' bs')" "h_ptr m' pv = x" "?loop m' = Some (take_block n pv x m')"
        using malloc_loop_scan [OF more(2) assms(2), of grant] by blast
      obtain q m'' bs'' where g: "?loop m' = Some (q + 1, m'')" "uinv lo m'' bs''" "{q..<q + n} \<subseteq> units bs'" "units bs'' = units bs' - {q..<q + n}"
        "h_size m'' q = n" "base m'' = base m'" "brk m'' = brk m'" "unchanged (insert (base m') (units bs')) m' m''"
        using take [OF more(2) f(1-4)] f(5) by auto
      have "?loop m = Some (q + 1, m'')" using full more(1) g(1) by simp
      moreover have "unchanged (insert (base m) (units bs')) m m''" using unchanged_trans [OF more(6)] g(8) more(5) by fastforce
      ultimately have "?got m" using g more(3-5) by (intro exI [of _ q] exI [of _ m''] exI [of _ bs'']) auto
      then show ?thesis ..
    qed (use full in simp)
  qed
qed

lemma nunits_unat:
  assumes "unat nbytes < 2 ^ 31 - 16"
  shows "unat ((nbytes + 8 - 1) div 8 + 1 :: uint) = (unat nbytes + 7) div 8 + 1"
proof -
  have "unat (nbytes + 8 - 1) = unat nbytes + 7" using assms by (simp add: unat_word_ariths)
  then show ?thesis using assms by (simp add: unat_word_ariths unat_div)
qed

text \<open>The sum wraps for the largest requests: they get the one unit of a request for nothing.\<close>

lemma nunits_wrap:
  assumes "2 ^ 32 - 7 \<le> unat (nbytes :: uint)"
  shows "unat ((nbytes + 8 - 1) div 8 + 1) = 1"
proof -
  have "unat nbytes < 2 ^ 32" using unsigned_less [of nbytes, where ?'a = nat] by simp
  then have "unat (nbytes + 7) = unat nbytes + 7 - 2 ^ 32" "unat nbytes + 7 - 2 ^ 32 < 8" using assms by (simp_all add: unat_word_ariths mod_if)
  then have "unat ((nbytes + 7) div 8) = 0" by (simp add: unat_div)
  then have "(nbytes + 7) div 8 = 0" by (simp only: unat_eq_zero)
  then show ?thesis by (simp add: add.commute)
qed

section \<open>Programs\<close>

text \<open>
  The blocks a program holds are pairs of the address it got and the number of bytes it asked for; \<open>block\<close> is the memory
  of one, its header included.
\<close>

definition block :: "nat \<times> uint \<Rightarrow> nat set" where
  "block h = {fst h - 1..<fst h + (unat (snd h) + 7) div 8}"

definition held :: "(nat \<times> uint) set \<Rightarrow> nat set" where
  "held A = (\<Union>h\<in>A. block h)"

text \<open>
  A run of a program: it starts before the first allocation with the break at the end of its data, allocates, frees
  blocks it holds, and writes to memory of its own, which is that after the headers of the blocks it holds and that
  below \<open>lo\<close> but for the variable \<open>base\<close>.
\<close>

inductive urun :: "nat \<Rightarrow> umem \<Rightarrow> (nat \<times> uint) set \<Rightarrow> bool" for lo where
  start: "freep m = 0 \<Longrightarrow> 0 < base m \<Longrightarrow> base m < lo \<Longrightarrow> brk m = lo \<Longrightarrow> urun lo m {}"
| alloc: "urun lo m A \<Longrightarrow> unat nbytes < 2 ^ 31 - 16 \<Longrightarrow> malloc grant nbytes m = Some (p, m') \<Longrightarrow>
    urun lo m' (if p = 0 then A else insert (p, nbytes) A)"
| dealloc: "urun lo m A \<Longrightarrow> h \<in> A \<Longrightarrow> free (fst h) m = Some m' \<Longrightarrow> urun lo m' (A - {h})"
| store: "urun lo m A \<Longrightarrow> freep m' = freep m \<Longrightarrow> base m' = base m \<Longrightarrow> brk m' = brk m \<Longrightarrow>
    unchanged ({..<lo} - {base m} \<union> (\<Union>(p, n)\<in>A. block (p, n) - {p - 1})) m m' \<Longrightarrow> urun lo m' A"

definition uheld :: "nat \<Rightarrow> umem \<Rightarrow> (nat \<times> uint) set \<Rightarrow> bool" where
  "uheld lo m A \<longleftrightarrow> lo \<le> brk m
     \<and> (\<forall>(p, n)\<in>A. lo < p \<and> unat n < 2 ^ 31 - 16 \<and> h_size m (p - 1) = (unat n + 7) div 8 + 1)
     \<and> disjoint_family_on block A"

definition ustate :: "nat \<Rightarrow> umem \<Rightarrow> (nat \<times> nat) list \<Rightarrow> (nat \<times> uint) set \<Rightarrow> bool" where
  "ustate lo m bs A \<longleftrightarrow> uinv lo m bs \<and> uheld lo m A \<and> units bs \<inter> held A = {} \<and> units bs \<union> held A = {lo..<brk m}"

lemma units_heap: "uinv lo m bs \<Longrightarrow> units bs \<subseteq> {lo..<brk m}"
  using uinvD(7) by (fastforce simp: units_def)

lemma uinv_unchanged:
  assumes "uinv lo m bs" and "unchanged W m m'" and "W \<inter> insert (base m) (units bs) = {}"
    and "freep m' = freep m" and "base m' = base m" and "brk m' = brk m"
  shows "uinv lo m' bs"
proof -
  have "a \<in> units bs" if "(a, s) \<in> set bs" for a s using uinvD(7) [OF assms(1) that] that by (force simp: units_def)
  then have "x \<in> insert (base m) (units bs)" if "x \<in> set (nodes m bs)" for x using that by (force simp: nodes_def)
  then have eq: "h_ptr m' x = h_ptr m x" "h_size m' x = h_size m x" if "x \<in> set (nodes m bs)" for x
    using that assms(2,3) by (auto simp: unchanged_def)
  have nd: "nodes m' bs = nodes m bs" using assms(5) by (simp add: nodes_def)
  show ?thesis
  proof (intro uinvI, goal_cases)
    case 4
    show ?case unfolding nd assms(5) using uinvD(4) [OF assms(1)] path_cong [of "nodes m bs" "h_ptr m'" "h_ptr m"] eq(1) by blast
  next
    case (6 a s)
    moreover have "a \<in> set (nodes m bs)" using 6 by (force simp: nodes_def)
    ultimately show ?case using uinvD(7) [OF assms(1), of a s] eq(2) [of a] assms(6) by simp
  qed (use uinvD(1-6) [OF assms(1)] assms(4,5) nd eq(2) [of "base m"] in \<open>auto simp: nodes_def\<close>)
qed

lemma uheldD:
  assumes "uheld lo m A"
  shows "lo \<le> brk m" "disjoint_family_on block A"
    "(p, n) \<in> A \<Longrightarrow> lo < p \<and> unat n < 2 ^ 31 - 16 \<and> h_size m (p - 1) = (unat n + 7) div 8 + 1"
  using assms by (auto simp: uheld_def)

lemma uheld_unchanged:
  assumes "uheld lo m A" and "unchanged W m m'" and "\<And>p n. (p, n) \<in> A \<Longrightarrow> p - 1 \<notin> W" and "brk m \<le> brk m'"
  shows "uheld lo m' A"
  unfolding uheld_def
proof (intro conjI ballI)
  show "lo \<le> brk m'" "disjoint_family_on block A" using uheldD(1,2) [OF assms(1)] assms(4) by auto
  fix h
  assume "h \<in> A"
  then show "case h of (p, n) \<Rightarrow> lo < p \<and> unat n < 2 ^ 31 - 16 \<and> h_size m' (p - 1) = (unat n + 7) div 8 + 1"
    using uheldD(3) [OF assms(1)] assms(2,3) by (cases h) (simp add: unchanged_def)
qed

lemma header_held: "(p, n) \<in> A \<Longrightarrow> 0 < p \<Longrightarrow> p - 1 \<in> held A"
  by (force simp: held_def block_def)

lemma malloc_run:
  assumes "ustate lo m bs A" and "unat nbytes < 2 ^ 31 - 16"
  shows "malloc grant nbytes m = Some (0, m)
    \<or> (\<exists>p m' bs'. malloc grant nbytes m = Some (p, m') \<and> 0 < p \<and> ustate lo m' bs' (insert (p, nbytes) A))"
proof -
  let ?n = "(unat nbytes + 7) div 8 + 1"
  have st: "uinv lo m bs" "uheld lo m A" "units bs \<inter> held A = {}" "units bs \<union> held A = {lo..<brk m}" using assms(1) by (simp_all add: ustate_def)
  have n: "0 < ?n" "?n < 2 ^ 28" using assms(2) by simp_all
  have "freep m \<noteq> 0" using uinvD(1,6) [OF st(1)] uinvD(2,7) [OF st(1)] by (force simp: nodes_def)
  then have ml: "malloc grant nbytes m = malloc_loop grant ?n (freep m) (h_ptr m (freep m)) m"
    using nunits_unat [OF assms(2)] by (simp add: malloc_def)
  from malloc_loop_run [OF st(1) n uheldD(1) [OF st(2)], of grant, folded ml] show ?thesis
  proof (elim disjE exE conjE)
    fix q m' bs'
    assume r: "malloc grant nbytes m = Some (q + 1, m')" "uinv lo m' bs'" "brk m \<le> brk m'"
      "{q..<q + ?n} \<subseteq> units bs \<union> {brk m..<brk m'}" "units bs' = units bs \<union> {brk m..<brk m'} - {q..<q + ?n}" "h_size m' q = ?n"
      "base m' = base m" "unchanged (insert (base m) (units bs \<union> {brk m..<brk m'})) m m'"
    have b: "block (q + 1, nbytes) = {q..<q + ?n}" by (auto simp: block_def)
    have hb: "held A \<subseteq> {lo..<brk m}" using st(4) by blast
    have dj: "{q..<q + ?n} \<inter> held A = {}" using r(4) st(3) hb by fastforce
    have lo: "lo \<le> q"
    proof -
      have "q \<in> units bs \<union> {brk m..<brk m'}" using r(4) by (auto simp: subset_iff)
      then show ?thesis using units_heap [OF st(1)] uheldD(1) [OF st(2)] by auto
    qed
    have "p - 1 \<notin> insert (base m) (units bs \<union> {brk m..<brk m'})" if "(p, n) \<in> A" for p n
      using header_held [OF that] uheldD(3) [OF st(2) that] hb st(3) uinvD(2) [OF st(1)] by fastforce
    then have h: "uheld lo m' A" by (rule uheld_unchanged [OF st(2) r(8) _ r(3)])
    have "disjoint_family_on block (insert (q + 1, nbytes) A)"
      using uheldD(2) [OF h] dj b by (fastforce simp: disjoint_family_on_def held_def)
    then have "uheld lo m' (insert (q + 1, nbytes) A)" using h r(6) assms(2) lo by (simp add: uheld_def)
    moreover have hi: "held (insert (q + 1, nbytes) A) = {q..<q + ?n} \<union> held A" using b by (simp add: held_def)
    moreover have "units bs' \<inter> held (insert (q + 1, nbytes) A) = {}"
      unfolding hi r(5) using st(3) hb by fastforce
    moreover have "units bs' \<union> held (insert (q + 1, nbytes) A) = {lo..<brk m'}"
    proof -
      have "{lo..<brk m'} = {lo..<brk m} \<union> {brk m..<brk m'}" using r(3) uheldD(1) [OF st(2)] by auto
      then show ?thesis unfolding hi r(5) using st(4) r(4) by blast
    qed
    ultimately have "ustate lo m' bs' (insert (q + 1, nbytes) A)" using r(2) unfolding ustate_def by blast
    then show ?thesis using r(1) by fastforce
  qed simp
qed

lemma free_held_run:
  assumes "ustate lo m bs A" and "h \<in> A"
  shows "\<exists>m' bs'. free (fst h) m = Some m' \<and> ustate lo m' bs' (A - {h})"
proof -
  have st: "uinv lo m bs" "uheld lo m A" "units bs \<inter> held A = {}" "units bs \<union> held A = {lo..<brk m}" using assms(1) by (simp_all add: ustate_def)
  obtain p n where h: "h = (p, n)" by (cases h)
  have p: "lo < p" "h_size m (p - 1) = (unat n + 7) div 8 + 1" using uheldD(3) [OF st(2)] assms(2) h by auto
  have b: "{p - 1..<p - 1 + h_size m (p - 1)} = block h" "p - 1 + 1 = p" using p h by (auto simp: block_def)
  have bh: "block h \<subseteq> held A" using assms(2) by (auto simp: held_def)
  have le: "lo \<le> p - 1" using p(1) by simp
  have dn: "block h \<inter> units bs = {}" using bh st(3) by blast
  have "p - 1 + h_size m (p - 1) \<le> brk m"
  proof -
    have "p - 1 + h_size m (p - 1) - 1 \<in> block h" using p by (auto simp: b(1) [symmetric])
    then have "p - 1 + h_size m (p - 1) - 1 \<in> {lo..<brk m}" using bh st(4) by blast
    then show ?thesis by auto
  qed
  then obtain m' bs' where f: "free p m = Some m'" "uinv lo m' bs'" "units bs' = units bs \<union> block h" "base m' = base m" "brk m' = brk m"
    "unchanged (insert (base m) (units bs')) m m'"
    using free_run [OF st(1), of "p - 1"] le p(2) dn unfolding b by auto
  have dj: "held (A - {h}) \<inter> block h = {}" "held A = held (A - {h}) \<union> block h"
    using uheldD(2) [OF st(2)] assms(2) by (auto simp: held_def disjoint_family_on_def)
  have hm: "uheld lo m (A - {h})" using st(2) by (auto simp: uheld_def disjoint_family_on_def)
  have "p' - 1 \<notin> insert (base m) (units bs')" if "(p', n') \<in> A - {h}" for p' n'
  proof -
    have "p' - 1 \<in> held (A - {h})" "lo \<le> p' - 1" using header_held [OF that] uheldD(3) [OF st(2), of p' n'] that by auto
    then show ?thesis using dj st(3) f(3) uinvD(2) [OF st(1)] by auto
  qed
  then have "uheld lo m' (A - {h})" by (rule uheld_unchanged [OF hm f(6)]) (simp_all add: f(5))
  then show ?thesis using f h st(3,4) dj unfolding ustate_def by (intro exI [of _ m'] exI [of _ bs']) auto
qed

text \<open>The first allocation makes the list.\<close>

definition ustart :: "nat \<Rightarrow> umem \<Rightarrow> bool" where
  "ustart lo m \<longleftrightarrow> freep m = 0 \<and> 0 < base m \<and> base m < lo \<and> brk m = lo"

lemma malloc_first:
  assumes "ustart lo m"
  shows "\<exists>m'. ustate lo m' [] {} \<and> (\<forall>grant nbytes. malloc grant nbytes m = malloc grant nbytes m')"
proof -
  let ?m = "(set_size (base m) 0 (set_ptr (base m) (base m) m))\<lparr>freep := base m\<rparr>"
  have "ustate lo ?m [] {}" using assms by (simp add: ustart_def ustate_def uinv_def uheld_def held_def nodes_def disjoint_family_on_def)
  moreover have "malloc grant nbytes m = malloc grant nbytes ?m" for grant nbytes using assms by (simp add: malloc_def ustart_def)
  ultimately show ?thesis by blast
qed

lemma urun_inv: "urun lo m A \<Longrightarrow> ustart lo m \<and> A = {} \<or> (\<exists>bs. ustate lo m bs A)"
proof (induction rule: urun.induct)
  case (alloc m A nbytes grant p m')
  then obtain m1 bs where m1: "ustate lo m1 bs A" "malloc grant nbytes m1 = Some (p, m')" using malloc_first by metis
  then show ?case using malloc_run [OF m1(1) alloc.hyps(2), of grant] by auto
next
  case (dealloc m A h m')
  then obtain bs where "ustate lo m bs A" by auto
  then show ?case using free_held_run [OF _ dealloc.hyps(2)] dealloc.hyps(3) by fastforce
next
  case (store m A m')
  let ?W = "{..<lo} - {base m} \<union> (\<Union>(p, n)\<in>A. block (p, n) - {p - 1})"
  show ?case
  proof (cases "\<exists>bs. ustate lo m bs A")
    case True
    then obtain bs where st: "uinv lo m bs" "uheld lo m A" "units bs \<inter> held A = {}" "units bs \<union> held A = {lo..<brk m}" by (auto simp: ustate_def)
    have hb: "held A \<subseteq> {lo..<brk m}" using st(4) by blast
    have W: "?W \<subseteq> {..<lo} - {base m} \<union> held A" by (auto simp: held_def)
    have "?W \<inter> insert (base m) (units bs) = {}" using W st(3) hb uinvD(2) [OF st(1)] units_heap [OF st(1)] by fastforce
    then have "uinv lo m' bs" using uinv_unchanged [OF st(1) store.hyps(5)] store.hyps(2-4) by blast
    moreover have "p - 1 \<notin> ?W" if "(p, n) \<in> A" for p n
      using uheldD(2) [OF st(2)] uheldD(3) [OF st(2) that] that by (fastforce simp: disjoint_family_on_def block_def)
    then have "uheld lo m' A" by (rule uheld_unchanged [OF st(2) store.hyps(5)]) (simp_all add: store.hyps(4))
    ultimately show ?thesis using st(3,4) store.hyps(4) by (auto simp: ustate_def)
  qed (use store in \<open>auto simp: ustart_def\<close>)
qed (simp add: ustart_def)

lemma malloc_fits:
  assumes "ustate lo m bs A" and "unat nbytes < 2 ^ 31 - 16" and "{a..<a + (unat nbytes + 7) div 8 + 1} \<subseteq> units bs"
  shows "\<exists>p m'. malloc grant nbytes m = Some (p, m') \<and> p \<noteq> 0 \<and> brk m' = brk m"
proof -
  let ?n = "(unat nbytes + 7) div 8 + 1"
  have inv: "uinv lo m bs" using assms(1) by (simp add: ustate_def)
  have "freep m \<noteq> 0" using uinvD(1,2,6,7) [OF inv] by (force simp: nodes_def)
  then have ml: "malloc grant nbytes m = malloc_loop grant ?n (freep m) (h_ptr m (freep m)) m"
    using nunits_unat [OF assms(2)] by (simp add: malloc_def)
  have "{a..<a + ?n} \<subseteq> units bs" using assms(3) by (simp add: add.assoc)
  from units_in_block [OF uinvD(5) [OF inv] this] have "\<not> (\<forall>(a, s)\<in>set bs. s < ?n)" by fastforce
  then obtain pv x s where f: "(x, s) \<in> set bs" "?n \<le> s" "pv \<in> set (nodes m bs)" "h_ptr m pv = x" "malloc grant nbytes m = Some (take_block ?n pv x m)"
    using malloc_loop_scan [OF inv, of ?n grant] unfolding ml by auto
  then show ?thesis using take_block_run [OF inv f(1) _ f(2-4)] by fastforce
qed

section \<open>Properties\<close>

text \<open>A program that allocates once.\<close>

definition umem0 :: umem where
  "umem0 = \<lparr>h_ptr = \<lambda>_. 0, h_size = \<lambda>_. 0, freep = 0, base = 1, brk = 2\<rparr>"

lemma malloc_example: "\<exists>m'. malloc (\<lambda>_. True) 8 umem0 = Some (4097, m') \<and> brk m' = 4098"
  by (simp add: malloc_def malloc_loop.simps morecore_def sbrk_def free_def find_slot.simps join_up_def join_down_def take_block_def umem0_def)

lemma urun_example: "\<exists>m. urun 2 m {(4097, 8)} \<and> brk m = 4098"
proof -
  obtain m where m: "malloc (\<lambda>_. True) 8 umem0 = Some (4097, m)" "brk m = 4098" using malloc_example by blast
  have "urun 2 umem0 {}" by (rule urun.start) (simp_all add: umem0_def)
  then show ?thesis using urun.alloc [of 2 umem0 "{}" 8 _ 4097 m] m by auto
qed



text \<open>
  C22: The allocator loses no memory: in every such run, when the heap has a run of units outside the blocks held that is
  long enough for a request and its header, \<^verbatim>\<open>malloc\<close> serves the request without asking the kernel for memory, however the
  run came about from blocks freed in any order.
\<close>

theorem umalloc_reuse:
  assumes "urun lo m A" and "unat nbytes < 2 ^ 31 - 16" and "{a..<a + (unat nbytes + 7) div 8 + 1} \<subseteq> {lo..<brk m} - held A"
  shows "\<exists>p m'. malloc grant nbytes m = Some (p, m') \<and> p \<noteq> 0 \<and> brk m' = brk m"
proof -
  have "lo < brk m" using assms(3) by (auto simp: subset_iff)
  then obtain bs where st: "ustate lo m bs A" using urun_inv [OF assms(1)] by (auto simp: ustart_def)
  then have "{lo..<brk m} - held A = units bs" by (auto simp: ustate_def)
  then show ?thesis using malloc_fits [OF st assms(2)] assms(3) by simp
qed

theorem umalloc_reuse_witness:
  "\<exists>m p m'. urun 2 m {(4097, 8)} \<and> malloc (\<lambda>_. False) 100 m = Some (p, m') \<and> p \<noteq> 0 \<and> brk m' = brk m"
proof -
  obtain m where m: "urun 2 m {(4097, 8)}" "brk m = 4098" using urun_example by blast
  have "\<exists>p m'. malloc (\<lambda>_. False) 100 m = Some (p, m') \<and> p \<noteq> 0 \<and> brk m' = brk m"
    by (rule umalloc_reuse [OF m(1), of _ 2]) (auto simp: m(2) held_def block_def)
  then show ?thesis using m(1) by blast
qed

end
