(* ===== verification/Mkfs.thy ===== *)
theory Mkfs
  imports Layout
begin

unbundle bit_operations_syntax

text \<open>
  The tool that makes the disk image (\<^verbatim>\<open>uprogs/mkfs.c\<close>): it lays out the super block, the inodes, the bitmap and the
  blocks of the files it is given. The operations are those of the kernel's monad; a failed assertion and an exit with
  an error message are panics; the progress messages are left out. The host is little endian, as the build machine is, and its files of sectors behave as
  arrays that grow when they are written.
\<close>

section \<open>State\<close>

text \<open>The image file, of which \<open>img_end\<close> sectors are written so far, and the static variables.\<close>

record mkfsst =
  img :: "nat \<Rightarrow> byte list"
  img_end :: nat
  freeblock :: uint
  usedblocks :: uint
  freeinode :: uint

abbreviation (input) mk_nblocks :: nat where "mk_nblocks \<equiv> 985"
abbreviation (input) mk_nlog :: nat where "mk_nlog \<equiv> 10"
abbreviation (input) mk_ninodes :: nat where "mk_ninodes \<equiv> 200"
abbreviation (input) mk_size :: nat where "mk_size \<equiv> 1024"

definition zeroes :: "byte list" where
  "zeroes = replicate 512 0"

definition mkfs0 :: mkfsst where
  "mkfs0 = \<lparr>img = \<lambda>_. zeroes, img_end = 0, freeblock = 0, usedblocks = 0, freeinode = 1\<rparr>"

text \<open>The value whose bytes in memory are those of \<open>x\<close> from the lowest to the highest.\<close>

definition xshort :: "uint16 \<Rightarrow> uint16" where
  "xshort x = get16 [ucast x, ucast (drop_bit 8 x)] 0"

definition xint :: "uint \<Rightarrow> uint" where
  "xint x = get32 [ucast x, ucast (drop_bit 8 x), ucast (drop_bit 16 x), ucast (drop_bit 24 x)] 0"

section \<open>Sectors and inodes\<close>

definition wsect :: "uint \<Rightarrow> byte list \<Rightarrow> (mkfsst, unit) kop" where
  "wsect sec buf = kmod (\<lambda>s. s\<lparr>img := (img s)(unat sec := buf), img_end := max (img_end s) (unat sec + 1)\<rparr>)"

definition rsect :: "uint \<Rightarrow> (mkfsst, byte list) kop" where
  "rsect sec =
     kbind (kget img_end) (\<lambda>e.
     if e \<le> unat sec then panic ''read'' else kget (\<lambda>s. img s (unat sec)))"

definition i2b :: "uint \<Rightarrow> uint" where
  "i2b inum = inum div word_of_nat IPB + 2"

definition winode :: "uint \<Rightarrow> dinode \<Rightarrow> (mkfsst, unit) kop" where
  "winode inum ip =
     kbind (rsect (i2b inum)) (\<lambda>buf.
     wsect (i2b inum) (splice buf (64 * (unat inum mod IPB)) (enc_dinode ip)))"

definition rinode :: "uint \<Rightarrow> (mkfsst, dinode) kop" where
  "rinode inum = kbind (rsect (i2b inum)) (\<lambda>buf. kreturn (dec_dinode buf (64 * (unat inum mod IPB))))"

definition mkfs_ialloc :: "uint16 \<Rightarrow> (mkfsst, uint) kop" where
  "mkfs_ialloc type =
     kbind (kget freeinode) (\<lambda>inum.
     kbind (kmod (\<lambda>s. s\<lparr>freeinode := inum + 1\<rparr>)) (\<lambda>_.
     kbind (winode inum \<lparr>d_type = xshort type, d_major = 0, d_minor = 0, d_nlink = xshort 1, d_size = xint 0,
       d_addrs = replicate 13 0\<rparr>) (\<lambda>_.
     kreturn inum)))"

definition mkfs_balloc :: "uint \<Rightarrow> (mkfsst, unit) kop" where
  "mkfs_balloc used =
     (if unat used \<ge> 512 * 8 then panic ''used < 512*8''
      else wsect (word_of_nat (mk_ninodes div IPB + 3))
        (foldl (\<lambda>buf i. buf[i div 8 := buf ! (i div 8) OR push_bit (i mod 8) 1]) zeroes [0..<unat used]))"

section \<open>Appending to a file\<close>

definition new_block :: "(mkfsst, uint) kop" where
  "new_block =
     kbind (kget freeblock) (\<lambda>b.
     kbind (kmod (\<lambda>s. s\<lparr>freeblock := b + 1, usedblocks := usedblocks s + 1\<rparr>)) (\<lambda>_.
     kreturn b))"

text \<open>Entry \<open>i\<close> of the addresses of an inode gets a block when it has none.\<close>

definition alloc_addr :: "dinode \<Rightarrow> nat \<Rightarrow> (mkfsst, dinode) kop" where
  "alloc_addr din i =
     (if xint (d_addrs din ! i) = 0
      then kbind new_block (\<lambda>b. kreturn (din\<lparr>d_addrs := (d_addrs din)[i := xint b]\<rparr>))
      else kreturn din)"

text \<open>The number of block \<open>fbn\<close> of the file, which is allocated with the indirect block when it has none.\<close>

definition get_block :: "dinode \<Rightarrow> uint \<Rightarrow> (mkfsst, uint \<times> dinode) kop" where
  "get_block din fbn =
     (if fbn < word_of_nat NDIRECT then
        kbind (alloc_addr din (unat fbn)) (\<lambda>din.
        kreturn (xint (d_addrs din ! unat fbn), din))
      else
        kbind (alloc_addr din NDIRECT) (\<lambda>din.
        kbind (rsect (xint (d_addrs din ! NDIRECT))) (\<lambda>indirect.
        let p = 4 * unat (fbn - word_of_nat NDIRECT) in
        kbind (if get32 indirect p = 0
               then kbind new_block (\<lambda>b.
                    kbind (wsect (xint (d_addrs din ! NDIRECT)) (put32 indirect p (xint b))) (\<lambda>_.
                    kreturn (put32 indirect p (xint b))))
               else kreturn indirect) (\<lambda>indirect.
        kreturn (xint (get32 indirect p), din)))))"

lemma block_rest: "unat ((off div 512 + 1) * 512 - off :: uint) = 512 - unat off mod 512"
proof -
  have eq: "(off div 512 + 1) * 512 - off = 512 - off mod 512"
    using div_mult_mod_eq [of off 512] by (simp add: algebra_simps)
  have "unat (off mod 512) = unat off mod 512" by (simp add: unat_mod)
  moreover have "unat off mod 512 < 512" by simp
  ultimately show ?thesis unfolding eq by (simp add: unat_sub word_le_nat_alt)
qed

lemma block_rest_sum: "unat (off div 512 * 512 + 512 - off :: uint) = 512 - unat off mod 512"
  using block_rest [of off] by (simp only: distrib_right mult_1)

function iappend_loop :: "dinode \<Rightarrow> uint \<Rightarrow> byte list \<Rightarrow> (mkfsst, dinode \<times> uint) kop" where
  "iappend_loop din off p =
     (if p = [] then kreturn (din, off)
      else
        let fbn = off div 512; n1 = min (length p) (unat ((fbn + 1) * 512 - off)) in
        if fbn \<ge> word_of_nat (NDIRECT + NINDIRECT) then panic ''fbn < MAXFILE''
        else
          kbind (get_block din fbn) (\<lambda>(x, din).
          kbind (rsect x) (\<lambda>buf.
          kbind (wsect x (splice buf (unat (off - fbn * 512)) (take n1 p))) (\<lambda>_.
          iappend_loop din (off + word_of_nat n1) (drop n1 p)))))"
  by pat_completeness auto
termination
  by (relation "measure (\<lambda>(din, off, p). length p)") (auto simp: block_rest_sum)

declare iappend_loop.simps [simp del]

definition iappend :: "uint \<Rightarrow> byte list \<Rightarrow> (mkfsst, unit) kop" where
  "iappend inum p =
     kbind (rinode inum) (\<lambda>din.
     kbind (iappend_loop din (xint (d_size din)) p) (\<lambda>(din, off).
     winode inum (din\<lparr>d_size := xint off\<rparr>)))"

section \<open>The image\<close>

definition mkfs_start :: "(mkfsst, unit) kop" where
  "mkfs_start =
     (let bitblocks = mk_size div (512 * 8) + 1; used = mk_ninodes div IPB + 3 + bitblocks in
      kbind (kmod (\<lambda>s. s\<lparr>usedblocks := word_of_nat used, freeblock := word_of_nat used\<rparr>)) (\<lambda>_.
      if mk_nblocks + used + mk_nlog \<noteq> mk_size then panic ''nblocks + usedblocks + nlog == size''
      else
        kbind (kfor (\<lambda>i. wsect (word_of_nat i) zeroes) [0..<mk_nblocks + used + mk_nlog]) (\<lambda>_.
        wsect 1 (splice zeroes 0 (enc_super \<lparr>sb_size = xint (word_of_nat mk_size), sb_nblocks = xint (word_of_nat mk_nblocks),
          sb_ninodes = xint (word_of_nat mk_ninodes), sb_nlog = xint (word_of_nat mk_nlog)\<rparr>)))))"

text \<open>
  A directory entry with a name of at most 14 bytes that is filled up with zeroes, as by the \<^verbatim>\<open>bzero\<close> before and by
  \<^verbatim>\<open>strncpy\<close>.
\<close>

definition entry :: "uint \<Rightarrow> byte list \<Rightarrow> byte list" where
  "entry inum name = enc_dirent \<lparr>de_inum = xshort (ucast inum), de_name = take DIRSIZ (name @ replicate DIRSIZ 0)\<rparr>"

text \<open>
  One file of the command line: its name, and the pieces that reading it yields, or \<open>None\<close> when it cannot be opened.
\<close>

type_synonym input = "byte list \<times> byte list list option"

definition skip_underscore :: "byte list \<Rightarrow> byte list" where
  "skip_underscore name = (if name \<noteq> [] \<and> hd name = 95 then tl name else name)"

definition add_file :: "uint \<Rightarrow> input \<Rightarrow> (mkfsst, unit) kop" where
  "add_file rootino f =
     (if 47 \<in> set (fst f) then panic ''index(argv[i], '/') == 0''
      else case snd f of
        None \<Rightarrow> panic ''open''
      | Some reads \<Rightarrow>
          kbind (mkfs_ialloc 2) (\<lambda>inum.
          kbind (iappend rootino (entry inum (skip_underscore (fst f)))) (\<lambda>_.
          kfor (iappend inum) reads)))"

definition fix_root :: "uint \<Rightarrow> (mkfsst, unit) kop" where
  "fix_root rootino =
     kbind (rinode rootino) (\<lambda>din.
     let off = (xint (d_size din) div 512 + 1) * 512 in
     winode rootino (din\<lparr>d_size := xint off\<rparr>))"

definition mkfs_main :: "input list \<Rightarrow> (mkfsst, unit) kop" where
  "mkfs_main files =
     kbind mkfs_start (\<lambda>_.
     kbind (mkfs_ialloc 1) (\<lambda>rootino.
     if rootino \<noteq> 1 then panic ''rootino == ROOTINO''
     else
       kbind (iappend rootino (entry rootino [46])) (\<lambda>_.
       kbind (iappend rootino (entry rootino [46, 46])) (\<lambda>_.
       kbind (kfor (add_file rootino) files) (\<lambda>_.
       kbind (fix_root rootino) (\<lambda>_.
       kbind (kget usedblocks) mkfs_balloc))))))"

end
