(* ===== verification/Mkfs_Proofs.thy ===== *)
theory Mkfs_Proofs
  imports Mkfs "HOL-Library.Disjoint_Sets"
begin

unbundle bit_operations_syntax

text \<open>
  The image holds the files it is made of: every inode maps its own blocks, which hold the bytes of its file followed by
  zeroes, and the bitmap marks exactly the blocks in use.
\<close>

section \<open>Basic operations\<close>

lemma x_id [simp]: "xint x = x" "xshort h = h"
  using get32_bytes [of x] get16_bytes [of h] by (simp_all add: xint_def xshort_def bytes32_def bytes16_def)

text \<open>
  The state between operations: the image has all its sectors, of 512 bytes each, and those from \<open>freeblock\<close> on are
  zero.
\<close>

definition pool :: "mkfsst \<Rightarrow> bool" where
  "pool s \<longleftrightarrow> img_end s = 1024 \<and> (\<forall>b<1024. length (img s b) = 512) \<and> usedblocks s = freeblock s
     \<and> 29 \<le> unat (freeblock s) \<and> unat (freeblock s) \<le> 1024 \<and> (\<forall>b<1024. unat (freeblock s) \<le> b \<longrightarrow> img s b = zeroes)"

lemma poolD:
  assumes "pool s"
  shows "img_end s = 1024" "b < 1024 \<Longrightarrow> length (img s b) = 512" "usedblocks s = freeblock s" "29 \<le> unat (freeblock s)"
    "unat (freeblock s) \<le> 1024" "b < 1024 \<Longrightarrow> unat (freeblock s) \<le> b \<Longrightarrow> img s b = zeroes"
  using assms by (auto simp: pool_def)

lemma length_zeroes [simp]: "length zeroes = 512"
  by (simp add: zeroes_def)

lemma nth_zeroes [simp]: "k < 512 \<Longrightarrow> zeroes ! k = 0"
  by (simp add: zeroes_def)

lemma get32_zeroes: "p + 4 \<le> 512 \<Longrightarrow> get32 zeroes p = 0"
  by (simp add: get32_def)

lemma rsect_run: "unat sec < img_end s \<Longrightarrow> rsect sec s = Ret (img s (unat sec)) s"
  by (simp add: rsect_def)

lemma wsect_run: "unat sec < img_end s \<Longrightarrow> wsect sec v s = Ret () (s\<lparr>img := (img s)(unat sec := v)\<rparr>)"
  by (simp add: wsect_def max_def)

lemma pool_wsect:
  assumes "pool s" and "b < unat (freeblock s)" and "length v = 512"
  shows "pool (s\<lparr>img := (img s)(b := v)\<rparr>)"
  using assms by (auto simp: pool_def)

lemma new_block_run:
  assumes "pool s" and "unat (freeblock s) < 1024"
  shows "\<exists>s'. new_block s = Ret (freeblock s) s' \<and> pool s' \<and> unat (freeblock s') = unat (freeblock s) + 1 \<and> img s' = img s
    \<and> img_end s' = img_end s \<and> freeinode s' = freeinode s"
proof -
  have "unat (freeblock s + 1) = unat (freeblock s) + 1" using assms(2) by (simp add: unat_word_ariths)
  then show ?thesis using assms by (simp add: new_block_def pool_def)
qed

section \<open>The blocks of a file\<close>

text \<open>
  \<open>bs\<close> are the blocks of the file in order and \<open>ib\<close> its indirect block, or 0; \<open>map_at\<close> says that an inode and the
  indirect block list them, \<open>data_at\<close> that they hold the bytes \<open>c\<close> followed by zeroes.
\<close>

definition nblk :: "nat \<Rightarrow> nat" where
  "nblk n = (n + 511) div 512"

definition map_at :: "(nat \<Rightarrow> byte list) \<Rightarrow> dinode \<Rightarrow> uint list \<Rightarrow> uint \<Rightarrow> bool" where
  "map_at im d bs ib \<longleftrightarrow> length (d_addrs d) = 13 \<and> length bs \<le> 140 \<and> 0 \<notin> set bs \<and> distinct (ib # bs)
     \<and> (\<forall>k<12. d_addrs d ! k = (if k < length bs then bs ! k else 0)) \<and> d_addrs d ! 12 = ib \<and> (ib = 0 \<longleftrightarrow> length bs \<le> 12)
     \<and> (ib \<noteq> 0 \<longrightarrow> (\<forall>k<128. get32 (im (unat ib)) (4 * k) = (if 12 + k < length bs then bs ! (12 + k) else 0)))"

definition data_at :: "(nat \<Rightarrow> byte list) \<Rightarrow> uint list \<Rightarrow> byte list \<Rightarrow> bool" where
  "data_at im bs c \<longleftrightarrow> (\<forall>j<512 * length bs. im (unat (bs ! (j div 512))) ! (j mod 512) = (if j < length c then c ! j else 0))"

definition owned :: "uint list \<Rightarrow> uint \<Rightarrow> nat set" where
  "owned bs ib = unat ` set bs \<union> (if ib = 0 then {} else {unat ib})"

definition cost :: "nat \<Rightarrow> nat" where
  "cost n = n + (if 12 < n then 1 else 0)"

lemma map_at_frame:
  assumes "map_at im d bs ib" and "\<And>b. b \<in> owned bs ib \<Longrightarrow> im' b = im b"
  shows "map_at im' d bs ib"
  using assms by (auto simp: map_at_def owned_def)

lemma data_at_frame:
  assumes "data_at im bs c" and "\<And>b. b \<in> unat ` set bs \<Longrightarrow> im' b = im b"
  shows "data_at im' bs c"
  unfolding data_at_def
proof (intro allI impI)
  fix j assume j: "j < 512 * length bs"
  then have "bs ! (j div 512) \<in> set bs" by (intro nth_mem) (simp add: less_mult_imp_div_less mult.commute)
  then show "im' (unat (bs ! (j div 512))) ! (j mod 512) = (if j < length c then c ! j else 0)" using assms j by (simp add: data_at_def)
qed

lemma data_at_block:
  assumes "data_at im bs c" and "im (unat b) = zeroes" and "length c \<le> 512 * length bs"
  shows "data_at im (bs @ [b]) c"
  unfolding data_at_def
proof (intro allI impI)
  fix j assume j: "j < 512 * length (bs @ [b])"
  show "im (unat ((bs @ [b]) ! (j div 512))) ! (j mod 512) = (if j < length c then c ! j else 0)"
  proof (cases "j < 512 * length bs")
    case True
    then have "j div 512 < length bs" by (simp add: less_mult_imp_div_less mult.commute)
    then show ?thesis using True assms(1) by (simp add: data_at_def nth_append)
  next
    case False
    then have "j div 512 = length bs" using j by (auto intro: div_nat_eqI)
    then show ?thesis using False assms(2,3) by simp
  qed
qed

text \<open>Writing the next bytes of the file.\<close>

lemma data_at_append:
  assumes "data_at im bs c" and "distinct bs" and "k < length bs" and "k = length c div 512" and "length q \<le> 512 - length c mod 512"
    and "length (im (unat (bs ! k))) = 512"
  shows "data_at (im(unat (bs ! k) := splice (im (unat (bs ! k))) (length c mod 512) q)) bs (c @ q)"
  unfolding data_at_def
proof (intro allI impI)
  fix j assume j: "j < 512 * length bs"
  let ?v = "im (unat (bs ! k))"
  have jd: "j div 512 < length bs" using j by (simp add: less_mult_imp_div_less mult.commute)
  have old: "im (unat (bs ! (j div 512))) ! (j mod 512) = (if j < length c then c ! j else 0)" using assms(1) j by (simp add: data_at_def)
  have le: "length c mod 512 + length q \<le> length ?v" using assms(5,6) mod_less_divisor [of 512 "length c"] by simp
  have e: "length c = 512 * k + length c mod 512" using assms(4) by simp
  show "(im(unat (bs ! k) := splice ?v (length c mod 512) q)) (unat (bs ! (j div 512))) ! (j mod 512) = (if j < length (c @ q) then (c @ q) ! j else 0)"
  proof (cases "j div 512 = k")
    case True
    then have "j = 512 * k + j mod 512" by (metis div_mult_mod_eq mult.commute)
    with e have "j < length c \<longleftrightarrow> j mod 512 < length c mod 512" "j - length c = j mod 512 - length c mod 512"
      "j < length c + length q \<longleftrightarrow> j mod 512 < length c mod 512 + length q" by linarith+
    then show ?thesis using True old by (auto simp: nth_splice [OF le] nth_append)
  next
    case False
    then have "unat (bs ! (j div 512)) \<noteq> unat (bs ! k)" using assms(2,3) jd by (simp add: nth_eq_iff_index_eq flip: word_unat_eq_iff)
    moreover have "j < length c + length q \<longleftrightarrow> j < length c"
    proof -
      have "j < 512 * k \<or> 512 * (k + 1) \<le> j" using False by (metis Suc_eq_plus1 div_nat_eqI not_le)
      moreover have "length c mod 512 + length q \<le> 512" using le assms(6) by simp
      then have "length c + length q \<le> 512 * (k + 1)" by (subst e) simp
      moreover have "512 * k \<le> length c" using e by linarith
      ultimately show ?thesis by linarith
    qed
    ultimately show ?thesis using old by (simp add: nth_append)
  qed
qed

section \<open>Appending\<close>

text \<open>What the steps of an append keep: the file only gains blocks, from the free ones, and no other sector changes.\<close>

definition grown :: "mkfsst \<Rightarrow> dinode \<Rightarrow> uint list \<Rightarrow> uint \<Rightarrow> mkfsst \<Rightarrow> dinode \<Rightarrow> uint list \<Rightarrow> uint \<Rightarrow> bool" where
  "grown s d bs ib s' d' bs' ib' \<longleftrightarrow> pool s' \<and> map_at (img s') d' bs' ib' \<and> (d_type d', d_major d', d_minor d', d_nlink d') = (d_type d, d_major d, d_minor d, d_nlink d)
     \<and> owned bs ib \<subseteq> owned bs' ib' \<and> owned bs' ib' \<subseteq> owned bs ib \<union> {unat (freeblock s)..<unat (freeblock s')}
     \<and> (\<forall>b. b \<notin> owned bs' ib' \<longrightarrow> img s' b = img s b) \<and> unat (freeblock s) \<le> unat (freeblock s')
     \<and> unat (freeblock s') + cost (length bs) = unat (freeblock s) + cost (length bs') \<and> freeinode s' = freeinode s"

lemma grown_refl: "pool s \<Longrightarrow> map_at (img s) d bs ib \<Longrightarrow> grown s d bs ib s d bs ib"
  by (simp add: grown_def)

lemma grown_trans:
  assumes "grown s d bs ib s1 d1 bs1 ib1" and "grown s1 d1 bs1 ib1 s2 d2 bs2 ib2"
  shows "grown s d bs ib s2 d2 bs2 ib2"
proof -
  have "img s2 b = img s b" if "b \<notin> owned bs2 ib2" for b
  proof -
    have "b \<notin> owned bs1 ib1" using assms(2) that by (auto simp: grown_def)
    then show ?thesis using assms that by (simp add: grown_def)
  qed
  moreover have "owned bs ib \<subseteq> owned bs2 ib2" using assms by (auto simp: grown_def)
  moreover have "owned bs2 ib2 \<subseteq> owned bs ib \<union> {unat (freeblock s)..<unat (freeblock s2)}"
    using assms by (fastforce simp: grown_def)
  ultimately show ?thesis using assms by (auto simp: grown_def)
qed

lemma nblk_eq: "nblk n = (if n mod 512 = 0 then n div 512 else n div 512 + 1)"
proof -
  have "n + 511 = 512 * (n div 512) + (n mod 512 + 511)" using div_mult_mod_eq [of n 512] by simp
  then have "nblk n = n div 512 + (n mod 512 + 511) div 512" unfolding nblk_def by (metis div_mult_self4 zero_neq_numeral)
  moreover have "(n mod 512 + 511) div 512 = (if n mod 512 = 0 then 0 else 1)" by (auto intro: div_nat_eqI)
  ultimately show ?thesis by simp
qed

text \<open>The three ways in which a file gains a block: a direct one, the indirect one, and one listed there.\<close>

lemma grown_direct:
  assumes "pool s" and "pool s'" and "map_at (img s) d bs ib" and "length bs < 12" and "img s' = img s" and "freeinode s' = freeinode s"
    and "unat (freeblock s') = unat (freeblock s) + 1" and "owned bs ib \<subseteq> {29..<unat (freeblock s)}"
  shows "grown s d bs ib s' (d\<lparr>d_addrs := (d_addrs d)[length bs := freeblock s]\<rparr>) (bs @ [freeblock s]) ib"
proof -
  have ib: "ib = 0" using assms(3,4) by (simp add: map_at_def)
  have "freeblock s \<notin> set bs" using assms(8) by (auto simp: owned_def)
  moreover have "freeblock s \<noteq> 0" using poolD(4) [OF assms(1)] by auto
  ultimately show ?thesis using assms(2-7) ib
    by (auto simp: grown_def map_at_def owned_def cost_def nth_append nth_list_update less_Suc_eq)
qed

lemma map_at_indirect:
  assumes "map_at im d bs ib" and "12 \<le> length bs" and "length bs < 140" and "ib' \<notin> set bs" and "ib' \<noteq> 0" and "b \<notin> insert ib' (set bs)" and "b \<noteq> 0"
    and "\<forall>k<128. get32 (im (unat ib')) (4 * k) = (if 12 + k < length bs then bs ! (12 + k) else 0)" and "length (im (unat ib')) = 512"
  shows "map_at (im(unat ib' := put32 (im (unat ib')) (4 * (length bs - 12)) b)) (d\<lparr>d_addrs := (d_addrs d)[12 := ib']\<rparr>) (bs @ [b]) ib'"
proof -
  have "get32 (put32 (im (unat ib')) (4 * (length bs - 12)) b) (4 * k) = (if 12 + k < length (bs @ [b]) then (bs @ [b]) ! (12 + k) else 0)"
    if "k < 128" for k
  proof (cases "k = length bs - 12")
    case True
    then show ?thesis using assms(2,3,9) by (simp add: get32_put32 nth_append)
  next
    case False
    then have "4 * k + 4 \<le> 4 * (length bs - 12) \<or> 4 * (length bs - 12) + 4 \<le> 4 * k" by linarith
    moreover have "4 * (length bs - 12) + 4 \<le> 512" using assms(3) by simp
    ultimately have "get32 (put32 (im (unat ib')) (4 * (length bs - 12)) b) (4 * k) = get32 (im (unat ib')) (4 * k)"
      using assms(9) by (simp add: get32_put32(2))
    then show ?thesis using assms(2,8) False that by (auto simp: nth_append)
  qed
  then show ?thesis using assms(1-7) by (auto simp: map_at_def nth_append)
qed

text \<open>The indirect block of a file that needs one.\<close>

lemma indirect_ready:
  assumes "pool s" and "map_at (img s) d bs ib" and "12 \<le> length bs" and "length bs < 140"
    and "owned bs ib \<subseteq> {29..<unat (freeblock s)}" and "unat (freeblock s) + cost (length bs + 1) \<le> 1024 + cost (length bs)"
  obtains ib' s1 where "alloc_addr d 12 s = Ret (d\<lparr>d_addrs := (d_addrs d)[12 := ib']\<rparr>) s1" and "pool s1" and "img s1 = img s"
    and "freeinode s1 = freeinode s" and "ib' \<noteq> 0" and "unat ib' < unat (freeblock s1)" and "ib' \<notin> set bs" and "unat (freeblock s1) < 1024"
    and "\<forall>k<128. get32 (img s (unat ib')) (4 * k) = (if 12 + k < length bs then bs ! (12 + k) else 0)"
    and "unat (freeblock s1) + cost (length bs) + 1 = unat (freeblock s) + cost (length bs + 1)"
    and "owned bs ib \<subseteq> owned bs ib'" and "owned bs ib' \<subseteq> owned bs ib \<union> {unat (freeblock s)..<unat (freeblock s1)}"
proof (cases "ib = 0")
  case True
  then have l: "length bs = 12" and a: "d_addrs d ! 12 = 0" using assms(2,3) by (auto simp: map_at_def)
  have fb: "unat (freeblock s) < 1024" "unat (freeblock s) + 1 < 1024" using assms(6) l by (simp_all add: cost_def)
  have z: "img s (unat (freeblock s)) = zeroes" using poolD(6) [OF assms(1) fb(1)] by simp
  have "freeblock s \<notin> set bs" "freeblock s \<noteq> 0" using assms(5) poolD(4) [OF assms(1)] by (auto simp: owned_def)
  moreover have "\<forall>k<128. get32 (img s (unat (freeblock s))) (4 * k) = (if 12 + k < length bs then bs ! (12 + k) else 0)"
    using l z by (simp add: get32_zeroes)
  ultimately show thesis using new_block_run [OF assms(1) fb(1)] True l fb(2)
    by (elim exE conjE) (rule that [of "freeblock s"], auto simp: alloc_addr_def a owned_def cost_def)
next
  case False
  then have m: "12 < length bs" "d_addrs d ! 12 = ib" "ib \<notin> set bs"
    "\<forall>k<128. get32 (img s (unat ib)) (4 * k) = (if 12 + k < length bs then bs ! (12 + k) else 0)"
    using assms(2) by (auto simp: map_at_def)
  have "d\<lparr>d_addrs := (d_addrs d)[12 := ib]\<rparr> = d" using m(2) by (metis dinode.surjective dinode.update_convs(6) list_update_id)
  moreover have "unat ib < unat (freeblock s)" using assms(5) False by (auto simp: owned_def)
  ultimately show thesis using that [of ib s] False assms(1,6) m by (auto simp: alloc_addr_def cost_def)
qed

lemma get_block_indirect:
  assumes "pool s" and "map_at (img s) d bs ib" and "data_at (img s) bs c" and "12 \<le> length bs" and "length bs < 140"
    and "owned bs ib \<subseteq> {29..<unat (freeblock s)}" and "unat (freeblock s) + cost (length bs + 1) \<le> 1024 + cost (length bs)"
    and "length c \<le> 512 * length bs"
  shows "\<exists>d' bs' ib' s'. get_block d (word_of_nat (length bs)) s = Ret (bs' ! length bs, d') s' \<and> grown s d bs ib s' d' bs' ib'
    \<and> length bs' = length bs + 1 \<and> data_at (img s') bs' c"
proof -
  let ?k = "length bs" and ?d = "\<lambda>ib'. d\<lparr>d_addrs := (d_addrs d)[12 := ib']\<rparr>"
  have uk: "unat (word_of_nat ?k :: uint) = ?k" using assms(5) by (intro unat_of_nat_32) simp
  have w: "\<not> (word_of_nat ?k :: uint) < 12" "unat (word_of_nat ?k - 12 :: uint) = ?k - 12"
    using uk assms(4) by (simp_all add: word_less_nat_alt unat_sub word_le_nat_alt)
  obtain ib' s1 where i: "alloc_addr d 12 s = Ret (?d ib') s1" "pool s1" "img s1 = img s"
      "freeinode s1 = freeinode s" "ib' \<noteq> 0" "unat ib' < unat (freeblock s1)" "ib' \<notin> set bs" "unat (freeblock s1) < 1024"
      "\<forall>k<128. get32 (img s (unat ib')) (4 * k) = (if 12 + k < ?k then bs ! (12 + k) else 0)"
      "unat (freeblock s1) + cost ?k + 1 = unat (freeblock s) + cost (?k + 1)"
      "owned bs ib \<subseteq> owned bs ib'" "owned bs ib' \<subseteq> owned bs ib \<union> {unat (freeblock s)..<unat (freeblock s1)}"
    by (rule indirect_ready [OF assms(1,2,4-7)])
  obtain s2 where n: "new_block s1 = Ret (freeblock s1) s2" "pool s2" "unat (freeblock s2) = unat (freeblock s1) + 1" "img s2 = img s1"
      "img_end s2 = img_end s1" "freeinode s2 = freeinode s1"
    using new_block_run [OF i(2,8)] by blast
  let ?b = "freeblock s1" and ?v = "put32 (img s (unat ib')) (4 * (?k - 12)) (freeblock s1)"
  let ?s = "s2\<lparr>img := (img s)(unat ib' := ?v)\<rparr>"
  have fb: "unat (freeblock s) \<le> unat ?b" using i(10) by (simp add: cost_def split: if_splits)
  then have own: "owned bs ib' \<subseteq> {29..<unat ?b}" using i(12) assms(6) poolD(4) [OF assms(1)] by fastforce
  have len: "length (img s (unat ib')) = 512" using poolD(2) [OF i(2), of "unat ib'"] i(3,6,8) by simp
  have b: "?b \<notin> insert ib' (set bs)" "?b \<noteq> 0" using own i(6) by (auto simp: owned_def)
  have map: "map_at (img ?s) (?d ib') (bs @ [?b]) ib'"
    using map_at_indirect [OF assms(2,4,5) i(7,5) b i(9) len] by simp
  have dat: "data_at (img ?s) (bs @ [?b]) c"
  proof -
    have "data_at (img s) (bs @ [?b]) c" using data_at_block [OF assms(3) _ assms(8)] poolD(6) [OF i(2,8)] i(3) by simp
    then show ?thesis by (rule data_at_frame) (use i(7) b in \<open>auto simp flip: word_unat_eq_iff\<close>)
  qed
  have run: "get_block d (word_of_nat ?k) s = Ret ((bs @ [?b]) ! ?k, ?d ib') ?s"
  proof -
    have e: "unat ib' < img_end s1" "unat ib' < img_end s2" using i(6,8) poolD(1) [OF i(2)] n(5) by simp_all
    have g: "get32 (img s (unat ib')) (4 * (?k - 12)) = 0" using i(9) assms(4,5) by simp
    have addr: "(d_addrs d)[12 := ib'] ! 12 = ib'" using assms(2) by (simp add: map_at_def)
    have "get32 ?v (4 * (?k - 12)) = ?b" using len assms(5) by (intro get32_put32(1)) simp
    then show ?thesis using w i(1,3) n(1,4) g e addr by (simp add: get_block_def rsect_run wsect_run Let_def nth_append)
  qed
  have "pool ?s" using pool_wsect [OF n(2), of "unat ib'" ?v] i(3,6) n(3,4) len assms(5) by (simp add: length_put32)
  moreover have "owned (bs @ [?b]) ib' = insert (unat ?b) (owned bs ib')" by (auto simp: owned_def)
  ultimately have "grown s d bs ib ?s (?d ib') (bs @ [?b]) ib'"
    using map i(4,5,10-12) n(3,6) fb unfolding grown_def by (auto simp: owned_def)
  then show ?thesis using run dat by fastforce
qed

lemma get_block_run:
  assumes "pool s" and "map_at (img s) d bs ib" and "data_at (img s) bs c" and "length bs = nblk (length c)"
    and "owned bs ib \<subseteq> {29..<unat (freeblock s)}" and "length c < 140 * 512" and "unat (freeblock s) + cost (length c div 512 + 1) \<le> 1024 + cost (length bs)"
  shows "\<exists>d' bs' ib' s'. get_block d (word_of_nat (length c div 512)) s = Ret (bs' ! (length c div 512), d') s' \<and> grown s d bs ib s' d' bs' ib'
    \<and> length bs' = length c div 512 + 1 \<and> data_at (img s') bs' c"
proof -
  let ?k = "length c div 512"
  have k: "?k < 140" using assms(6) by (simp add: less_mult_imp_div_less)
  then have uk: "unat (word_of_nat ?k :: uint) = ?k" by (simp add: unat_of_nat take_bit_eq_mod)
  have lt: "(word_of_nat ?k :: uint) < 12 \<longleftrightarrow> ?k < 12" using uk by (simp add: word_less_nat_alt)
  have m: "length (d_addrs d) = 13" "0 \<notin> set bs" "\<forall>k<12. d_addrs d ! k = (if k < length bs then bs ! k else 0)" "d_addrs d ! 12 = ib"
    "ib = 0 \<longleftrightarrow> length bs \<le> 12" "ib \<noteq> 0 \<longrightarrow> (\<forall>k<128. get32 (img s (unat ib)) (4 * k) = (if 12 + k < length bs then bs ! (12 + k) else 0))"
    using assms(2) by (auto simp: map_at_def)
  have u12: "unat (word_of_nat ?k - 12 :: uint) = ?k - 12" if "12 \<le> ?k" using uk that by (simp add: unat_sub word_le_nat_alt)
  have nz: "bs ! j \<noteq> 0" if "j < length bs" for j using m(2) that by (metis nth_mem)
  have le: "length c \<le> 512 * length bs" unfolding assms(4) nblk_eq using div_mult_mod_eq [of "length c" 512] mod_less_divisor [of 512 "length c"] by auto
  consider (old) "length bs = ?k + 1" | (direct) "length bs = ?k" "?k < 12" | (indirect) "length bs = ?k" "12 \<le> ?k"
    using assms(4) unfolding nblk_eq by (cases "length c mod 512 = 0"; cases "?k < 12") auto
  then show ?thesis
  proof cases
    case old
    have "get_block d (word_of_nat ?k) s = Ret (bs ! ?k, d) s"
    proof (cases "?k < 12")
      case True
      then show ?thesis using m(3) nz [of ?k] old lt uk by (simp add: get_block_def alloc_addr_def)
    next
      case False
      then have "ib \<noteq> 0" using m(5) old by simp
      moreover have "unat ib < img_end s" using assms(5) poolD(1,5) [OF assms(1)] \<open>ib \<noteq> 0\<close> by (auto simp: owned_def)
      moreover have "get32 (img s (unat ib)) (4 * (?k - 12)) = bs ! ?k" using m(6) \<open>ib \<noteq> 0\<close> False old k by simp
      ultimately show ?thesis using m(4) nz [of ?k] old False lt u12 by (simp add: get_block_def alloc_addr_def rsect_run Let_def)
    qed
    then show ?thesis using grown_refl [OF assms(1,2)] old assms(3) by blast
  next
    case direct
    then have fb: "unat (freeblock s) < 1024" using assms(7) by (simp add: cost_def)
    obtain s' where s': "new_block s = Ret (freeblock s) s'" "pool s'" "unat (freeblock s') = unat (freeblock s) + 1" "img s' = img s" "freeinode s' = freeinode s"
      using new_block_run [OF assms(1) fb] by blast
    have "get_block d (word_of_nat ?k) s = Ret ((bs @ [freeblock s]) ! ?k, d\<lparr>d_addrs := (d_addrs d)[length bs := freeblock s]\<rparr>) s'"
      using m(1,3) direct lt uk s'(1) by (simp add: get_block_def alloc_addr_def nth_append)
    moreover have "data_at (img s') (bs @ [freeblock s]) c" unfolding s'(4)
      using data_at_block [OF assms(3) _ le] poolD(6) [OF assms(1) fb] by simp
    ultimately show ?thesis using grown_direct [OF assms(1) s'(2) assms(2) _ s'(4,5,3) assms(5)] direct by force
  next
    case indirect
    then show ?thesis using get_block_indirect [OF assms(1-3) _ _ assms(5) _ le] assms(7) k by simp
  qed
qed

lemma grownD:
  assumes "grown s d bs ib s' d' bs' ib'"
  shows "pool s'" "map_at (img s') d' bs' ib'" "(d_type d', d_major d', d_minor d', d_nlink d') = (d_type d, d_major d, d_minor d, d_nlink d)" "owned bs ib \<subseteq> owned bs' ib'"
    "owned bs' ib' \<subseteq> owned bs ib \<union> {unat (freeblock s)..<unat (freeblock s')}" "b \<notin> owned bs' ib' \<Longrightarrow> img s' b = img s b"
    "unat (freeblock s) \<le> unat (freeblock s')" "unat (freeblock s') + cost (length bs) = unat (freeblock s) + cost (length bs')"
    "freeinode s' = freeinode s"
  using assms by (auto simp: grown_def)

lemma grown_owned:
  assumes "grown s d bs ib s' d' bs' ib'" and "owned bs ib \<subseteq> {29..<unat (freeblock s)}" and "pool s"
  shows "owned bs' ib' \<subseteq> {29..<unat (freeblock s')}"
  using grownD(5,7) [OF assms(1)] assms(2) poolD(4) [OF assms(3)] by fastforce

lemma nblk_mono: "m \<le> n \<Longrightarrow> nblk m \<le> nblk n"
  by (simp add: nblk_def div_le_mono)

lemma cost_mono: "m \<le> n \<Longrightarrow> cost m \<le> cost n"
  by (simp add: cost_def)

lemma nblk_chunk:
  assumes "0 < n" and "n \<le> 512 - a mod 512"
  shows "nblk (a + n) = a div 512 + 1"
proof -
  have gen: "nblk (512 * k + m + n) = k + 1" if "n + m \<le> 512" for k m
    unfolding nblk_def using that assms(1) by (intro div_nat_eqI) simp_all
  have "n + a mod 512 \<le> 512" using assms(2) mod_less_divisor [of 512 a] by linarith
  then show ?thesis using gen [of "a mod 512" "a div 512"] by simp
qed

text \<open>The write into a block of the file.\<close>

lemma grown_write:
  assumes "grown s d bs ib s' d' bs' ib'" and "x \<in> set bs'" and "length v = 512" and "owned bs' ib' \<subseteq> {29..<unat (freeblock s')}"
  shows "grown s d bs ib (s'\<lparr>img := (img s')(unat x := v)\<rparr>) d' bs' ib'"
proof -
  have x: "unat x \<in> owned bs' ib'" using assms(2) by (simp add: owned_def)
  then have "pool (s'\<lparr>img := (img s')(unat x := v)\<rparr>)" using pool_wsect [OF grownD(1) [OF assms(1)] _ assms(3)] assms(4) by auto
  moreover have "ib' \<noteq> x" using grownD(2) [OF assms(1)] assms(2) by (auto simp: map_at_def)
  then have "map_at ((img s')(unat x := v)) d' bs' ib'" using grownD(2) [OF assms(1)] by (simp add: map_at_def flip: word_unat_eq_iff)
  ultimately show ?thesis using assms(1) x by (auto simp: grown_def)
qed

lemma iappend_loop_run:
  assumes "pool s" and "map_at (img s) d bs ib" and "data_at (img s) bs c" and "length bs = nblk (length c)"
    and "owned bs ib \<subseteq> {29..<unat (freeblock s)}" and "length c + length p \<le> 140 * 512" and "unat off = length c"
    and "unat (freeblock s) + cost (nblk (length c + length p)) \<le> 1024 + cost (length bs)"
  shows "\<exists>d' bs' ib' s' off'. iappend_loop d off p s = Ret (d', off') s' \<and> grown s d bs ib s' d' bs' ib'
    \<and> length bs' = nblk (length c + length p) \<and> data_at (img s') bs' (c @ p) \<and> unat off' = length c + length p"
  using assms
proof (induction "length p" arbitrary: s d bs ib c off p rule: less_induct)
  case less
  show ?case
  proof (cases "p = []")
    case True
    then show ?thesis using less.prems grown_refl [OF less.prems(1,2)] by (force simp: iappend_loop.simps [of d off])
  next
    case False
    let ?k = "length c div 512" and ?n = "min (length p) (512 - length c mod 512)"
    have n: "0 < ?n" "?n \<le> length p" "?n \<le> 512 - length c mod 512" using False by auto
    have lc: "length c < 140 * 512" using less.prems(6) False by (cases p) auto
    have nb: "nblk (length c + ?n) = ?k + 1" using nblk_chunk [OF n(1,3)] .
    have "?k + 1 \<le> nblk (length c + length p)" using nblk_mono [of "length c + ?n" "length c + length p"] n(2) nb by simp
    then have room: "unat (freeblock s) + cost (?k + 1) \<le> 1024 + cost (length bs)" using cost_mono less.prems(8) by (meson add_le_cancel_left le_trans)
    obtain d1 bs1 ib1 s1 where g: "get_block d (word_of_nat ?k) s = Ret (bs1 ! ?k, d1) s1" "grown s d bs ib s1 d1 bs1 ib1" "length bs1 = ?k + 1"
        "data_at (img s1) bs1 c"
      using get_block_run [OF less.prems(1-5) lc room] by blast
    let ?x = "bs1 ! ?k" let ?v = "splice (img s1 (unat ?x)) (length c mod 512) (take ?n p)"
    let ?s = "s1\<lparr>img := (img s1)(unat ?x := ?v)\<rparr>"
    have own: "owned bs1 ib1 \<subseteq> {29..<unat (freeblock s1)}" by (rule grown_owned [OF g(2) less.prems(5,1)])
    have x: "?x \<in> set bs1" using g(3) by simp
    then have "unat ?x \<in> owned bs1 ib1" by (simp add: owned_def)
    then have x2: "unat ?x < 1024" using own poolD(5) [OF grownD(1) [OF g(2)]] by fastforce
    have len: "length (img s1 (unat ?x)) = 512" using poolD(2) [OF grownD(1) [OF g(2)] x2] .
    have g2: "grown s d bs ib ?s d1 bs1 ib1" using grown_write [OF g(2) x _ own] len n(3) by (simp add: le_diff_conv2)
    have dat: "data_at (img ?s) bs1 (c @ take ?n p)"
      using data_at_append [OF g(4) _ _ refl, of "take ?n p"] grownD(2) [OF g(2)] g(3) n len by (simp add: map_at_def)
    have run: "iappend_loop d off p s = iappend_loop d1 (off + word_of_nat ?n) (drop ?n p) ?s"
    proof -
      have "?k < 140" using lc by (simp add: less_mult_imp_div_less)
      then have k: "off div 512 = word_of_nat ?k" "\<not> 140 \<le> (word_of_nat ?k :: uint)"
        using less.prems(7) by (simp_all add: word_unat_eq_iff word_le_nat_alt unat_div unat_of_nat take_bit_eq_mod)
      have "unat (word_of_nat ?k * 512 + 512 - off) = 512 - length c mod 512" using block_rest_sum [of off] unfolding k(1) less.prems(7) .
      moreover have "unat (off - word_of_nat ?k * 512) = length c mod 512"
        using less.prems(7) by (simp add: minus_div_mult_eq_mod unat_mod flip: k(1))
      ultimately show ?thesis using False g(1) x2 poolD(1) [OF grownD(1) [OF g(2)]] k
        by (simp add: iappend_loop.simps [of d off p] Let_def rsect_run wsect_run)
    qed
    have off: "unat (off + word_of_nat ?n) = length (c @ take ?n p)"
    proof -
      have "unat (word_of_nat ?n :: uint) = ?n" using n(3) by (simp add: unat_of_nat take_bit_eq_mod)
      then show ?thesis using less.prems(6,7) n(2) by (subst unat_add_lem [THEN iffD1]) simp_all
    qed
    have "\<exists>d' bs' ib' s' off'. iappend_loop d1 (off + word_of_nat ?n) (drop ?n p) ?s = Ret (d', off') s' \<and> grown ?s d1 bs1 ib1 s' d' bs' ib'
      \<and> length bs' = nblk (length (c @ take ?n p) + length (drop ?n p)) \<and> data_at (img s') bs' ((c @ take ?n p) @ drop ?n p)
      \<and> unat off' = length (c @ take ?n p) + length (drop ?n p)"
    proof (rule less.hyps)
      show "length (drop ?n p) < length p" using n(1,2) by simp
      show "map_at (img ?s) d1 bs1 ib1" "pool ?s" using grownD(1,2) [OF g2] by blast+
      show "length bs1 = nblk (length (c @ take ?n p))" using g(3) nb n(2) by simp
      show "owned bs1 ib1 \<subseteq> {29..<unat (freeblock ?s)}" using own by simp
      show "length (c @ take ?n p) + length (drop ?n p) \<le> 140 * 512" using less.prems(6) by simp
      show "unat (freeblock ?s) + cost (nblk (length (c @ take ?n p) + length (drop ?n p))) \<le> 1024 + cost (length bs1)"
        using less.prems(8) grownD(8) [OF g2] n(2) by simp
    qed (rule dat off)+
    then show ?thesis unfolding run using grown_trans [OF g2] n(2) by fastforce
  qed
qed

section \<open>Inodes\<close>

definition dino :: "(nat \<Rightarrow> byte list) \<Rightarrow> nat \<Rightarrow> dinode" where
  "dino im i = dec_dinode (im (i div 8 + 2)) (64 * (i mod 8))"

lemma unat_i2b: "unat inum < 2 ^ 31 \<Longrightarrow> unat (i2b inum) = unat inum div 8 + 2"
  by (simp add: i2b_def unat_word_ariths unat_div)

lemma rinode_run:
  assumes "img_end s = 1024" and "unat inum < 200"
  shows "rinode inum s = Ret (dino (img s) (unat inum)) s"
proof -
  have "unat (i2b inum) < 1024" using unat_i2b [of inum] assms(2) by simp
  then show ?thesis using assms unat_i2b [of inum] by (simp add: rinode_def rsect_run dino_def)
qed

lemma winode_run:
  assumes "pool s" and "unat inum < 200" and "length (d_addrs d) = 13"
  shows "\<exists>v. winode inum d s = Ret () (s\<lparr>img := (img s)(unat inum div 8 + 2 := v)\<rparr>) \<and> length v = 512
    \<and> (\<forall>i. dino ((img s)(unat inum div 8 + 2 := v)) i = (if i = unat inum then d else dino (img s) i))"
proof -
  let ?b = "unat inum div 8 + 2" let ?v = "splice (img s ?b) (64 * (unat inum mod 8)) (enc_dinode d)"
  have b: "?b < 1024" "unat (i2b inum) = ?b" using unat_i2b [of inum] assms(2) by simp_all
  have l: "length (enc_dinode d) = 64" using length_enc_dinode [OF assms(3)] .
  have bl: "64 * (unat inum mod 8) + length (enc_dinode d) \<le> length (img s ?b)" using poolD(2) [OF assms(1) b(1)] l by simp
  have "dino ((img s)(?b := ?v)) i = (if i = unat inum then d else dino (img s) i)" for i
  proof (cases "i = unat inum")
    case True
    then show ?thesis using dec_dinode_splice_in [OF bl] l by (simp add: dino_def dec_dinode_enc [OF assms(3)])
  next
    case False
    have "dec_dinode ?v (64 * (i mod 8)) = dec_dinode (img s ?b) (64 * (i mod 8))" if "i div 8 = unat inum div 8"
    proof (rule dec_dinode_splice_out [OF bl])
      have "i mod 8 \<noteq> unat inum mod 8" using False that by (metis div_mult_mod_eq)
      then show "64 * (i mod 8) + 64 \<le> 64 * (unat inum mod 8) \<or> 64 * (unat inum mod 8) + length (enc_dinode d) \<le> 64 * (i mod 8)" using l by linarith
    qed
    then show ?thesis using False by (simp add: dino_def)
  qed
  moreover have "winode inum d s = Ret () (s\<lparr>img := (img s)(?b := ?v)\<rparr>)" using b poolD(1) [OF assms(1)] by (simp add: winode_def rsect_run wsect_run)
  moreover have "length ?v = 512" using bl poolD(2) [OF assms(1) b(1)] by simp
  ultimately show ?thesis by blast
qed

section \<open>The files of an image\<close>

definition file_at :: "(nat \<Rightarrow> byte list) \<Rightarrow> dinode \<Rightarrow> uint list \<Rightarrow> uint \<Rightarrow> uint16 \<times> byte list \<Rightarrow> bool" where
  "file_at im d bs ib f \<longleftrightarrow> map_at im d bs ib \<and> data_at im bs (snd f) \<and> length bs = nblk (length (snd f)) \<and> unat (d_size d) = length (snd f)
     \<and> d_type d = fst f \<and> d_major d = 0 \<and> d_minor d = 0 \<and> d_nlink d = 1"

definition blocks_used :: "(uint16 \<times> byte list) list \<Rightarrow> nat" where
  "blocks_used F = sum_list (map (\<lambda>f. cost (nblk (length (snd f)))) F)"

text \<open>
  The state of the image: inode \<open>i + 1\<close> is \<open>D i\<close> and maps the bytes of file \<open>i\<close>, no block belongs to two files, and all
  blocks taken so far belong to files. Between operations \<open>D\<close> are the inodes on the disk.
\<close>

definition holding :: "(nat \<Rightarrow> dinode) \<Rightarrow> mkfsst \<Rightarrow> (uint16 \<times> byte list) list \<Rightarrow> (nat \<Rightarrow> uint list) \<Rightarrow> (nat \<Rightarrow> uint) \<Rightarrow> bool" where
  "holding D s F B I \<longleftrightarrow> pool s \<and> unat (freeinode s) = length F + 1 \<and> length F \<le> 199 \<and> unat (freeblock s) = 29 + blocks_used F
     \<and> (\<forall>i<length F. file_at (img s) (D i) (B i) (I i) (F ! i) \<and> owned (B i) (I i) \<subseteq> {29..<unat (freeblock s)})
     \<and> disjoint_family_on (\<lambda>i. owned (B i) (I i)) {..<length F}"

definition on_disk :: "mkfsst \<Rightarrow> nat \<Rightarrow> dinode" where
  "on_disk s i = dino (img s) (i + 1)"

definition holds :: "mkfsst \<Rightarrow> (uint16 \<times> byte list) list \<Rightarrow> (nat \<Rightarrow> uint list) \<Rightarrow> (nat \<Rightarrow> uint) \<Rightarrow> bool" where
  "holds s F B I \<longleftrightarrow> holding (on_disk s) s F B I"

lemma owned_nil [simp]: "owned [] 0 = {}"
  by (simp add: owned_def)

lemma file_at_frame:
  assumes "file_at im d bs ib f" and "\<And>b. b \<in> owned bs ib \<Longrightarrow> im' b = im b"
  shows "file_at im' d bs ib f"
proof -
  have "\<And>b. b \<in> unat ` set bs \<Longrightarrow> im' b = im b" using assms(2) by (auto simp: owned_def)
  then show ?thesis using assms map_at_frame [of im d bs ib im'] data_at_frame [of im bs "snd f" im'] by (simp add: file_at_def)
qed

lemma holdingD:
  assumes "holding D s F B I"
  shows "pool s" "unat (freeinode s) = length F + 1" "length F \<le> 199" "unat (freeblock s) = 29 + blocks_used F"
    "i < length F \<Longrightarrow> file_at (img s) (D i) (B i) (I i) (F ! i)"
    "i < length F \<Longrightarrow> owned (B i) (I i) \<subseteq> {29..<unat (freeblock s)}"
    "disjoint_family_on (\<lambda>i. owned (B i) (I i)) {..<length F}"
  using assms unfolding holding_def by blast+

lemmas holdsD = holdingD [where D = "on_disk s" and s = s for s, folded holds_def]

text \<open>Writing an inode back: the inodes lie below sector 29, the blocks of files above.\<close>

lemma winode_holding:
  assumes "holding ((on_disk s)(i := d)) s F B I" and "i < length F"
  shows "\<exists>s'. winode (word_of_nat (i + 1)) d s = Ret () s' \<and> holds s' F B I \<and> img s' 1 = img s 1"
proof -
  let ?n = "word_of_nat (i + 1) :: uint"
  note pl = holdingD(1) [OF assms(1)]
  have n: "unat ?n = i + 1" "unat ?n < 200" using assms(2) holdingD(3) [OF assms(1)] unat_of_nat_32 [of "i + 1"] by simp_all
  have "length (d_addrs d) = 13" using holdingD(5) [OF assms] by (simp add: file_at_def map_at_def)
  then obtain v where w: "winode ?n d s = Ret () (s\<lparr>img := (img s)(unat ?n div 8 + 2 := v)\<rparr>)" "length v = 512"
      "\<forall>j. dino ((img s)(unat ?n div 8 + 2 := v)) j = (if j = unat ?n then d else dino (img s) j)"
    using winode_run [OF pl n(2)] by blast
  let ?b = "unat ?n div 8 + 2" let ?s = "s\<lparr>img := (img s)(?b := v)\<rparr>"
  have b: "?b < 29" "?b \<noteq> 1" using n(2) by simp_all
  have D: "on_disk ?s = (on_disk s)(i := d)" using w(3) n(1) by (auto simp: on_disk_def)
  have "file_at (img ?s) (((on_disk s)(i := d)) j) (B j) (I j) (F ! j)" if j: "j < length F" for j
  proof (rule file_at_frame [OF holdingD(5) [OF assms(1) j]])
    fix x
    assume "x \<in> owned (B j) (I j)"
    then have "29 \<le> x" using holdingD(6) [OF assms(1) j] by auto
    then show "img ?s x = img s x" using b(1) by simp
  qed
  moreover have "pool ?s" using pool_wsect [OF pl _ w(2), of ?b] poolD(4) [OF pl] b(1) by simp
  ultimately have "holds ?s F B I" using holdingD(2-4,6,7) [OF assms(1)] unfolding holds_def D holding_def by simp
  then show ?thesis using w(1) b(2) by auto
qed

lemma ialloc_run:
  assumes "holds s F B I" and "length F < 199"
  shows "\<exists>s'. mkfs_ialloc t s = Ret (word_of_nat (length F + 1)) s' \<and> holds s' (F @ [(t, [])]) (B(length F := [])) (I(length F := 0)) \<and> img s' 1 = img s 1"
proof -
  let ?n = "freeinode s" and ?d = "\<lparr>d_type = t, d_major = 0, d_minor = 0, d_nlink = 1, d_size = 0, d_addrs = replicate 13 0\<rparr>"
  let ?s = "s\<lparr>freeinode := ?n + 1\<rparr>"
  have n: "unat (?n + 1) = length F + 2" "?n = word_of_nat (length F + 1)"
    using holdsD(2) [OF assms(1)] assms(2) by (simp_all add: unat_word_ariths word_unat_eq_iff unat_of_nat take_bit_eq_mod)
  have D: "on_disk ?s = on_disk s" by (simp add: on_disk_def fun_eq_iff)
  have h: "holding ((on_disk ?s)(length F := ?d)) ?s (F @ [(t, [])]) (B(length F := [])) (I(length F := 0))"
    unfolding D holding_def
  proof (intro conjI allI impI, goal_cases)
    case (5 i)
    then show ?case using holdsD(5) [OF assms(1), of i]
      by (cases "i = length F") (simp_all add: nth_append file_at_def map_at_def data_at_def nblk_def)
  next
    case (6 i)
    then show ?case using holdsD(6) [OF assms(1), of i] by (cases "i = length F") simp_all
  qed (use assms(2) n(1) holdsD(1,4,7) [OF assms(1)] in \<open>auto simp: pool_def blocks_used_def nblk_def cost_def disjoint_family_on_def\<close>)
  obtain s' where "winode ?n ?d ?s = Ret () s'" "holds s' (F @ [(t, [])]) (B(length F := [])) (I(length F := 0))" "img s' 1 = img ?s 1"
    using winode_holding [OF h, folded n(2)] by auto
  then show ?thesis using n(2) by (auto simp: mkfs_ialloc_def)
qed

lemma blocks_used_update:
  assumes "i < length F"
  shows "blocks_used (F[i := f]) + cost (nblk (length (snd (F ! i)))) = blocks_used F + cost (nblk (length (snd f)))"
proof -
  let ?g = "\<lambda>f. cost (nblk (length (snd f)))"
  have "map ?g F ! i \<le> sum_list (map ?g F)" using assms by (intro elem_le_sum_list) simp
  moreover have "sum_list (map ?g (F[i := f])) = sum_list (map ?g F) + ?g f - map ?g F ! i"
    unfolding map_update using assms by (intro sum_list_update) simp
  ultimately show ?thesis using assms by (simp add: blocks_used_def)
qed

text \<open>A file that grows stays apart from the others.\<close>

lemma grown_holding:
  assumes "holds s F B I" and "i < length F" and "grown s (on_disk s i) (B i) (I i) s' d bs ib" and "file_at (img s') d' bs ib f"
  shows "holding ((on_disk s')(i := d')) s' (F[i := f]) (B(i := bs)) (I(i := ib))"
proof -
  note own = holdsD(6) [OF assms(1,2)] and g = assms(3)
  have own': "owned bs ib \<subseteq> {29..<unat (freeblock s')}" by (rule grown_owned [OF g own holdsD(1) [OF assms(1)]])
  have low: "img s' b = img s b" if "b < 29" for b using grownD(6) [OF g, of b] own' that by fastforce
  have old: "owned (B j) (I j) \<inter> owned (B k) (I k) = {}" if "j < length F" "k < length F" "j \<noteq> k" for j k
    using holdsD(7) [OF assms(1)] that by (simp add: disjoint_family_on_def)
  have dj: "owned (B j) (I j) \<inter> owned bs ib = {}" if "j < length F" "j \<noteq> i" for j
    using old [OF that(1) assms(2) that(2)] grownD(5) [OF g] holdsD(6) [OF assms(1) that(1)] by fastforce
  have others: "file_at (img s') (on_disk s' j) (B j) (I j) (F ! j)" if j: "j < length F" "j \<noteq> i" for j
  proof -
    have "on_disk s' j = on_disk s j" using low [of "(j + 1) div 8 + 2"] j(1) holdsD(3) [OF assms(1)] by (simp add: on_disk_def dino_def)
    moreover have "img s' b = img s b" if "b \<in> owned (B j) (I j)" for b using grownD(6) [OF g, of b] dj [OF j] that by blast
    ultimately show ?thesis using file_at_frame [OF holdsD(5) [OF assms(1) j(1)]] by simp
  qed
  show ?thesis
    unfolding holding_def
  proof (intro conjI allI impI, goal_cases)
    case 4
    have "length (B i) = nblk (length (snd (F ! i)))" "length bs = nblk (length (snd f))"
      using holdsD(5) [OF assms(1,2)] assms(4) by (simp_all add: file_at_def)
    then show ?case using grownD(8) [OF g] blocks_used_update [OF assms(2), of f] holdsD(4) [OF assms(1)] by simp
  next
    case (5 j)
    then show ?case using assms(2,4) others [of j] by (cases "j = i") simp_all
  next
    case (6 j)
    then show ?case using holdsD(6) [OF assms(1), of j] own' grownD(7) [OF g] by (cases "j = i") (simp, fastforce)
  next
    case 7
    show ?case unfolding disjoint_family_on_def
    proof (intro ballI impI)
      fix j k
      assume "j \<in> {..<length (F[i := f])}" "k \<in> {..<length (F[i := f])}" "j \<noteq> k"
      then show "owned ((B(i := bs)) j) ((I(i := ib)) j) \<inter> owned ((B(i := bs)) k) ((I(i := ib)) k) = {}"
        using dj [of j] dj [of k] old [of j k] by (cases "j = i"; cases "k = i") (simp_all add: Int_commute)
    qed
  qed (use holdsD(2,3) [OF assms(1)] grownD(1,9) [OF g] in simp_all)
qed

lemma iappend_run:
  assumes "holds s F B I" and "i < length F" and "F ! i = (t, c)" and "length c + length p \<le> 140 * 512"
    and "29 + blocks_used (F[i := (t, c @ p)]) \<le> 1024"
  shows "\<exists>s' B' I'. iappend (word_of_nat (i + 1)) p s = Ret () s' \<and> holds s' (F[i := (t, c @ p)]) B' I' \<and> img s' 1 = img s 1"
proof -
  let ?n = "word_of_nat (i + 1) :: uint" and ?d = "on_disk s i"
  have n: "unat ?n = i + 1" "i + 1 < 200" using assms(2) holdsD(3) [OF assms(1)] unat_of_nat_32 [of "i + 1"] by simp_all
  have f: "map_at (img s) ?d (B i) (I i)" "data_at (img s) (B i) c" "length (B i) = nblk (length c)" "unat (d_size ?d) = length c"
    "d_type ?d = t" "d_major ?d = 0" "d_minor ?d = 0" "d_nlink ?d = 1"
    using holdsD(5) [OF assms(1,2)] assms(3) by (simp_all add: file_at_def)
  note pl = holdsD(1) [OF assms(1)] and own = holdsD(6) [OF assms(1,2)]
  have room: "unat (freeblock s) + cost (nblk (length c + length p)) \<le> 1024 + cost (length (B i))"
    using assms(5) blocks_used_update [OF assms(2), of "(t, c @ p)"] holdsD(4) [OF assms(1)] assms(3) f(3) by simp
  obtain d bs ib s1 off where g: "iappend_loop ?d (d_size ?d) p s = Ret (d, off) s1" "grown s ?d (B i) (I i) s1 d bs ib"
      "length bs = nblk (length c + length p)" "data_at (img s1) bs (c @ p)" "unat off = length c + length p"
    using iappend_loop_run [OF pl f(1-3) own assms(4) f(4) room] by blast
  have "file_at (img s1) (d\<lparr>d_size := off\<rparr>) bs ib (t, c @ p)" using g(3-5) grownD(2,3) [OF g(2)] f(5-8) by (simp add: file_at_def map_at_def)
  from winode_holding [OF grown_holding [OF assms(1,2) g(2) this]]
  obtain s2 where s2: "winode ?n (d\<lparr>d_size := off\<rparr>) s1 = Ret () s2" "holds s2 (F[i := (t, c @ p)]) (B(i := bs)) (I(i := ib))" "img s2 1 = img s1 1"
    using assms(2) by auto
  have "owned bs ib \<subseteq> {29..<unat (freeblock s1)}" by (rule grown_owned [OF g(2) own pl])
  then have "img s1 1 = img s 1" using grownD(6) [OF g(2), of 1] by fastforce
  moreover have "iappend ?n p s = Ret () s2" using rinode_run [of s ?n] poolD(1) [OF pl] n g(1) s2(1) by (simp add: iappend_def on_disk_def)
  ultimately show ?thesis using s2(2,3) by auto
qed

text \<open>All the reads of a file are appended one after the other.\<close>

lemma blocks_used_append: "blocks_used (F @ G) = blocks_used F + blocks_used G"
  by (simp add: blocks_used_def)

lemma blocks_used_Cons: "blocks_used (f # F) = cost (nblk (length (snd f))) + blocks_used F"
  by (simp add: blocks_used_def)

lemma blocks_used_grow:
  assumes "i < length F" and "F ! i = (t, c)"
  shows "blocks_used (F[i := (t, c @ p)]) \<le> blocks_used (F[i := (t, c @ p @ q)])"
proof -
  have "cost (nblk (length (c @ p))) \<le> cost (nblk (length (c @ p @ q)))" by (intro cost_mono nblk_mono) simp
  then show ?thesis using blocks_used_update [OF assms(1), of "(t, c @ p)"] blocks_used_update [OF assms(1), of "(t, c @ p @ q)"] by simp
qed

lemma iappends_run:
  assumes "holds s F B I" and "i < length F" and "F ! i = (t, c)" and "length c + length (concat ps) \<le> 140 * 512"
    and "29 + blocks_used (F[i := (t, c @ concat ps)]) \<le> 1024"
  shows "\<exists>s' B' I'. kfor (iappend (word_of_nat (i + 1))) ps s = Ret () s' \<and> holds s' (F[i := (t, c @ concat ps)]) B' I' \<and> img s' 1 = img s 1"
  using assms
proof (induction ps arbitrary: s F B I c)
  case Nil
  then show ?case using list_update_id [of F i] by auto
next
  case (Cons p ps)
  have "29 + blocks_used (F[i := (t, c @ p)]) \<le> 1024" using blocks_used_grow [OF Cons.prems(2,3), of p "concat ps"] Cons.prems(5) by simp
  then obtain s1 B1 I1 where s1: "iappend (word_of_nat (i + 1)) p s = Ret () s1" "holds s1 (F[i := (t, c @ p)]) B1 I1" "img s1 1 = img s 1"
    using iappend_run [OF Cons.prems(1-3), of p] Cons.prems(4) by auto
  have "\<exists>s' B' I'. kfor (iappend (word_of_nat (i + 1))) ps s1 = Ret () s'
      \<and> holds s' ((F[i := (t, c @ p)])[i := (t, (c @ p) @ concat ps)]) B' I' \<and> img s' 1 = img s1 1"
    by (rule Cons.IH [OF s1(2)]) (use Cons.prems in simp_all)
  then show ?case using s1 by auto
qed

section \<open>The whole image\<close>

lemma zero_fill:
  assumes "img s = (\<lambda>_. zeroes)" and "n \<le> 2 ^ 31"
  shows "kfor (\<lambda>i. wsect (word_of_nat i) zeroes) [0..<n] s = Ret () (s\<lparr>img_end := max (img_end s) n\<rparr>)"
  using assms(2)
proof (induction n)
  case (Suc n)
  have "unat (word_of_nat n :: uint) = n" using Suc.prems by (intro unat_of_nat_32) simp
  moreover have "(img s)(n := zeroes) = img s" using assms(1) by auto
  ultimately show ?case using Suc by (simp add: kfor_append wsect_def)
qed simp

lemma mkfs_start_run:
  "\<exists>s. mkfs_start mkfs0 = Ret () s \<and> holds s [] B I \<and> dec_super (img s 1) = \<lparr>sb_size = 1024, sb_nblocks = 985, sb_ninodes = 200, sb_nlog = 10\<rparr>"
proof -
  let ?b = "\<lparr>sb_size = 1024, sb_nblocks = 985, sb_ninodes = 200, sb_nlog = 10\<rparr>"
  let ?v = "splice zeroes 0 (enc_super ?b)"
  let ?s = "\<lparr>img = (\<lambda>_. zeroes)(1 := ?v), img_end = 1024, freeblock = 29, usedblocks = 29, freeinode = 1\<rparr>"
  have "mkfs_start mkfs0 = Ret () ?s"
    using zero_fill [of "mkfs0\<lparr>usedblocks := 29, freeblock := 29\<rparr>" 1024]
    by (simp add: mkfs_start_def mkfs0_def Let_def wsect_def del: upt_rec_numeral)
  moreover have "length ?v = 512" by (simp add: enc_super_def)
  then have "holds ?s [] B I" by (simp add: holds_def holding_def pool_def blocks_used_def disjoint_family_on_def)
  moreover have "dec_super ?v = ?b" unfolding splice_def by (simp add: dec_super_enc)
  ultimately show ?thesis by auto
qed

lemma length_entry [simp]: "length (entry n name) = 16"
  by (simp add: entry_def enc_dirent_def)

text \<open>The entries of the files in the root directory, whose inodes are numbered from \<open>n\<close> on, and the files themselves.\<close>

primrec listing :: "nat \<Rightarrow> input list \<Rightarrow> byte list" where
  "listing n [] = []"
| "listing n (f # fs) = entry (word_of_nat n) (skip_underscore (fst f)) @ listing (n + 1) fs"

definition body :: "input \<Rightarrow> byte list" where
  "body f = concat (the (snd f))"

definition bodies :: "input list \<Rightarrow> (uint16 \<times> byte list) list" where
  "bodies fs = map (\<lambda>f. (2, body f)) fs"

lemma length_bodies [simp]: "length (bodies fs) = length fs"
  by (simp add: bodies_def)

definition readable :: "input \<Rightarrow> bool" where
  "readable f \<longleftrightarrow> 47 \<notin> set (fst f) \<and> snd f \<noteq> None \<and> length (body f) \<le> 140 * 512"

lemma length_listing: "length (listing n fs) = 16 * length fs"
  by (induction fs arbitrary: n) simp_all

lemma add_file_run:
  assumes "holds s ((1, dir) # G) B I" and "readable f" and "length G < 198" and "length dir + 16 \<le> 140 * 512"
    and "29 + blocks_used ((1, dir @ entry (word_of_nat (length G + 2)) (skip_underscore (fst f))) # G @ bodies [f]) \<le> 1024"
  shows "\<exists>s' B' I'. add_file 1 f s = Ret () s'
    \<and> holds s' ((1, dir @ entry (word_of_nat (length G + 2)) (skip_underscore (fst f))) # G @ bodies [f]) B' I' \<and> img s' 1 = img s 1"
proof -
  let ?e = "entry (word_of_nat (length G + 2)) (skip_underscore (fst f))" and ?F = "(1, dir) # G"
  obtain reads where r: "snd f = Some reads" "body f = concat reads" "47 \<notin> set (fst f)" "length (concat reads) \<le> 140 * 512"
    using assms(2) by (auto simp: readable_def body_def)
  obtain s1 where s1: "mkfs_ialloc 2 s = Ret (word_of_nat (length G + 2)) s1" "holds s1 (?F @ [(2, [])]) (B(length ?F := [])) (I(length ?F := 0))" "img s1 1 = img s 1"
    using ialloc_run [OF assms(1), of 2] assms(3) by auto
  have c: "cost (nblk 0) = 0" by (simp add: cost_def nblk_def)
  obtain s2 B2 I2 where s2: "iappend 1 ?e s1 = Ret () s2" "holds s2 ((1, dir @ ?e) # G @ [(2, [])]) B2 I2" "img s2 1 = img s1 1"
    using iappend_run [OF s1(2), of 0 1 dir ?e] assms(4,5) c
    by (auto simp: blocks_used_Cons blocks_used_append bodies_def)
  have i: "((1, dir @ ?e) # G @ [(2, [])]) ! (length G + 1) = (2, [])" by (simp add: nth_append)
  have u: "((1, dir @ ?e) # G @ [(2, [])])[length G + 1 := (2, [] @ concat reads)] = (1, dir @ ?e) # G @ bodies [f]"
    using r(2) by (simp add: bodies_def)
  obtain s3 B3 I3 where s3: "kfor (iappend (word_of_nat (length G + 1 + 1))) reads s2 = Ret () s3" "holds s3 ((1, dir @ ?e) # G @ bodies [f]) B3 I3"
      "img s3 1 = img s2 1"
    using iappends_run [OF s2(2) _ i, of reads] r(4) assms(5) unfolding u by auto
  have "add_file 1 f s = Ret () s3" using r s1(1) s2(1) s3(1) by (simp add: add_file_def)
  then show ?thesis using s1(3) s2(3) s3(2,3) by auto
qed

lemma add_files_run:
  assumes "holds s ((1, dir) # G) B I" and "\<forall>f\<in>set fs. readable f" and "length G + length fs \<le> 198" and "length dir + 16 * length fs \<le> 140 * 512"
    and "29 + blocks_used ((1, dir @ listing (length G + 2) fs) # G @ bodies fs) \<le> 1024"
  shows "\<exists>s' B' I'. kfor (add_file 1) fs s = Ret () s' \<and> holds s' ((1, dir @ listing (length G + 2) fs) # G @ bodies fs) B' I' \<and> img s' 1 = img s 1"
  using assms
proof (induction fs arbitrary: s dir G B I)
  case Nil
  then show ?case by (auto simp: bodies_def)
next
  case (Cons f fs)
  let ?e = "entry (word_of_nat (length G + 2)) (skip_underscore (fst f))"
  have b: "bodies (f # fs) = bodies [f] @ bodies fs" by (simp add: bodies_def)
  have "cost (nblk (length (dir @ ?e))) \<le> cost (nblk (length (dir @ ?e @ listing (length G + 3) fs)))"
    by (intro cost_mono nblk_mono) simp
  then have "29 + blocks_used ((1, dir @ ?e) # G @ bodies [f]) \<le> 1024"
    using Cons.prems(5) unfolding b by (simp add: blocks_used_Cons blocks_used_append length_listing)
  then obtain s1 B1 I1 where s1: "add_file 1 f s = Ret () s1" "holds s1 ((1, dir @ ?e) # G @ bodies [f]) B1 I1" "img s1 1 = img s 1"
    using add_file_run [OF Cons.prems(1), of f] Cons.prems(2-4) by auto
  have l: "length (G @ bodies [f]) + 2 = length G + 2 + 1" by simp
  have "\<exists>s' B' I'. kfor (add_file 1) fs s1 = Ret () s' \<and> holds s' ((1, (dir @ ?e) @ listing (length (G @ bodies [f]) + 2) fs) # (G @ bodies [f]) @ bodies fs) B' I'
      \<and> img s' 1 = img s1 1"
    by (rule Cons.IH [OF s1(2)]) (use Cons.prems(2-5) in \<open>simp_all add: b\<close>)
  then show ?case using s1(1,3) unfolding l b by auto
qed

text \<open>The size of the root directory is rounded up to whole blocks, the rest of which is zero.\<close>

lemma data_at_pad:
  assumes "data_at im bs c" and "length c + n = 512 * length bs"
  shows "data_at im bs (c @ replicate n 0)"
  using assms by (auto simp: data_at_def nth_append)

lemma fix_root_run:
  assumes "holds s ((1, dir) # G) B I" and "length dir mod 512 \<noteq> 0"
  shows "\<exists>s'. fix_root 1 s = Ret () s' \<and> holds s' ((1, dir @ replicate (512 - length dir mod 512) 0) # G) B I \<and> img s' 1 = img s 1"
proof -
  let ?n = "512 - length dir mod 512" and ?d = "on_disk s 0"
  let ?dir = "dir @ replicate ?n 0" and ?off = "(d_size ?d div 512 + 1) * 512"
  have f: "map_at (img s) ?d (B 0) (I 0)" "data_at (img s) (B 0) dir" "length (B 0) = nblk (length dir)" "unat (d_size ?d) = length dir"
    "d_type ?d = 1" "d_major ?d = 0" "d_minor ?d = 0" "d_nlink ?d = 1"
    using holdsD(5) [OF assms(1), of 0] by (simp_all add: file_at_def)
  have nb: "nblk (length dir) = length dir div 512 + 1" "nblk (length ?dir) = length dir div 512 + 1"
    using assms(2) nblk_chunk [of ?n "length dir"] mod_less_divisor [of 512 "length dir"] by (simp_all add: nblk_eq)
  have le: "length dir div 512 < 140" using f(1,3) nb(1) by (simp add: map_at_def)
  have "512 * k + m + (512 - m) = 512 * (k + 1)" if "m < 512" for k m :: nat using that by simp
  from this [of "length dir mod 512" "length dir div 512"] have sum: "length dir + ?n = 512 * (length dir div 512 + 1)" by simp
  have off: "unat ?off = length ?dir" using f(4) le sum by (simp add: unat_word_ariths unat_div)
  have "data_at (img s) (B 0) ?dir" using data_at_pad [OF f(2)] f(3) nb(1) sum by simp
  then have fa: "file_at (img s) (?d\<lparr>d_size := ?off\<rparr>) (B 0) (I 0) (1, ?dir)"
    using f nb off by (simp add: file_at_def map_at_def)
  have h: "holding ((on_disk s)(0 := ?d\<lparr>d_size := ?off\<rparr>)) s ((1, ?dir) # G) B I"
    unfolding holding_def
  proof (intro conjI allI impI, goal_cases)
    case (5 i)
    then show ?case using fa holdsD(5) [OF assms(1), of i] by (cases i) simp_all
  next
    case (6 i)
    then show ?case using holdsD(6) [OF assms(1), of i] by simp
  qed (use holdsD(1-4,7) [OF assms(1)] nb in \<open>simp_all add: blocks_used_Cons\<close>)
  moreover have "rinode 1 s = Ret ?d s" using rinode_run [of s 1] poolD(1) [OF holdsD(1) [OF assms(1)]] by (simp add: on_disk_def)
  ultimately show ?thesis using winode_holding [OF h] by (auto simp: fix_root_def Let_def)
qed

text \<open>The bitmap.\<close>

lemma bitmap_bits:
  assumes "n \<le> 4096"
  shows "length (foldl (\<lambda>buf i. buf[i div 8 := buf ! (i div 8) OR push_bit (i mod 8) 1]) zeroes [0..<n]) = 512
    \<and> (\<forall>b<4096. bit (foldl (\<lambda>buf i. buf[i div 8 := buf ! (i div 8) OR push_bit (i mod 8) 1]) zeroes [0..<n] ! (b div 8)) (b mod 8) \<longleftrightarrow> b < n)"
  using assms
proof (induction n)
  case 0
  then show ?case by (simp add: less_mult_imp_div_less)
next
  case (Suc n)
  let ?v = "foldl (\<lambda>buf i. buf[i div 8 := buf ! (i div 8) OR push_bit (i mod 8) (1 :: byte)]) zeroes [0..<n]"
  have v: "length ?v = 512" "\<forall>b<4096. bit (?v ! (b div 8)) (b mod 8) \<longleftrightarrow> b < n" using Suc by auto
  have n: "n div 8 < 512" using Suc.prems by (simp add: less_mult_imp_div_less)
  have "bit (?v[n div 8 := ?v ! (n div 8) OR push_bit (n mod 8) 1] ! (b div 8)) (b mod 8) \<longleftrightarrow> b < Suc n" if b: "b < 4096" for b
  proof (cases "b div 8 = n div 8")
    case True
    have "b mod 8 = n mod 8 \<longleftrightarrow> b = n" using True by (metis div_mult_mod_eq)
    then show ?thesis using True v n b by (auto simp: bit_simps)
  next
    case False
    then show ?thesis using v n b by (auto simp: less_Suc_eq)
  qed
  then show ?case using v(1) by simp
qed

lemma mkfs_balloc_run:
  assumes "holds s F B I"
  shows "\<exists>s'. mkfs_balloc (usedblocks s) s = Ret () s' \<and> holds s' F B I \<and> img s' 1 = img s 1 \<and> usedblocks s' = usedblocks s
    \<and> (\<forall>b<4096. bit (img s' 28 ! (b div 8)) (b mod 8) \<longleftrightarrow> b < unat (usedblocks s))"
proof -
  let ?u = "unat (usedblocks s)"
  let ?v = "foldl (\<lambda>buf i. buf[i div 8 := buf ! (i div 8) OR push_bit (i mod 8) (1 :: byte)]) zeroes [0..<?u]"
  let ?s = "s\<lparr>img := (img s)(28 := ?v)\<rparr>"
  note pl = holdsD(1) [OF assms]
  have u: "?u \<le> 1024" using poolD(3,5) [OF pl] by simp
  have v: "length ?v = 512" "\<forall>b<4096. bit (?v ! (b div 8)) (b mod 8) \<longleftrightarrow> b < ?u" using bitmap_bits [of ?u] u by auto
  have "mkfs_balloc (usedblocks s) s = Ret () ?s" using u poolD(1) [OF pl] by (simp add: mkfs_balloc_def wsect_def)
  moreover have "file_at (img ?s) (on_disk ?s i) (B i) (I i) (F ! i)" if i: "i < length F" for i
  proof -
    have "on_disk ?s i = on_disk s i" using i holdsD(3) [OF assms] by (simp add: on_disk_def dino_def)
    then show ?thesis using file_at_frame [OF holdsD(5) [OF assms i], of "img ?s"] holdsD(6) [OF assms i] by fastforce
  qed
  then have "holds ?s F B I" using holdsD(2-4,6,7) [OF assms] pool_wsect [OF pl, of 28 ?v] poolD(4) [OF pl] v(1)
    unfolding holds_def holding_def by simp
  ultimately show ?thesis using v(2) by auto
qed

section \<open>Properties\<close>

text \<open>
  The contents an image must have: the root directory with its own two entries and one for every file, filled up with
  zeroes to whole blocks, and the files.
\<close>

definition root_listing :: "input list \<Rightarrow> byte list" where
  "root_listing files = entry 1 [46] @ entry 1 [46, 46] @ listing 2 files"

definition image_files :: "input list \<Rightarrow> (uint16 \<times> byte list) list" where
  "image_files files = (1, root_listing files @ replicate (512 - length (root_listing files) mod 512) 0) # bodies files"

lemma mkfs_run:
  assumes "\<forall>f\<in>set files. readable f" and "length files \<le> 198" and "(length files + 2) mod 32 \<noteq> 0"
    and "29 + blocks_used (image_files files) \<le> 1024"
  shows "\<exists>s B I. mkfs_main files mkfs0 = Ret () s \<and> holds s (image_files files) B I
    \<and> dec_super (img s 1) = \<lparr>sb_size = 1024, sb_nblocks = 985, sb_ninodes = 200, sb_nlog = 10\<rparr>
    \<and> (\<forall>b<4096. bit (img s 28 ! (b div 8)) (b mod 8) \<longleftrightarrow> b < unat (usedblocks s))"
proof -
  let ?sb = "\<lparr>sb_size = 1024, sb_nblocks = 985, sb_ninodes = 200, sb_nlog = 10\<rparr>" and ?e1 = "entry 1 [46]" and ?e2 = "entry 1 [46, 46]"
  have len: "length (root_listing files) = 16 * (length files + 2)" by (simp add: root_listing_def length_listing)
  have "16 * n mod 512 = 16 * (n mod 32)" for n :: nat using mult_mod_right [of 16 n 32] by simp
  then have "length (root_listing files) mod 512 = 16 * ((length files + 2) mod 32)" unfolding len by blast
  then have pad: "length (root_listing files) mod 512 \<noteq> 0" using assms(3) by (metis mult_is_0 zero_neq_numeral)
  have "nblk (length (root_listing files)) \<le> nblk (length (snd (hd (image_files files))))" by (intro nblk_mono) (simp add: image_files_def)
  then have room: "29 + blocks_used ((1, root_listing files) # bodies files) \<le> 1024"
    using assms(4) cost_mono by (fastforce simp: blocks_used_Cons image_files_def)
  obtain s0 where s0: "mkfs_start mkfs0 = Ret () s0" "holds s0 [] (\<lambda>_. []) (\<lambda>_. 0)" "dec_super (img s0 1) = ?sb"
    using mkfs_start_run [of "\<lambda>_. []" "\<lambda>_. 0"] by blast
  obtain s1 B1 I1 where s1: "mkfs_ialloc 1 s0 = Ret 1 s1" "holds s1 [(1, [])] B1 I1" "img s1 1 = img s0 1"
    using ialloc_run [OF s0(2), of 1] by auto
  obtain s2 B2 I2 where s2: "iappend 1 ?e1 s1 = Ret () s2" "holds s2 [(1, ?e1)] B2 I2" "img s2 1 = img s1 1"
    using iappend_run [OF s1(2), of 0 1 "[]" ?e1] by (auto simp: blocks_used_def nblk_def cost_def)
  obtain s3 B3 I3 where s3: "iappend 1 ?e2 s2 = Ret () s3" "holds s3 [(1, ?e1 @ ?e2)] B3 I3" "img s3 1 = img s2 1"
    using iappend_run [OF s2(2), of 0 1 ?e1 ?e2] by (auto simp: blocks_used_def nblk_def cost_def)
  obtain s4 B I where s4: "kfor (add_file 1) files s3 = Ret () s4" "holds s4 ((1, root_listing files) # bodies files) B I" "img s4 1 = img s3 1"
    using add_files_run [OF s3(2) assms(1)] assms(2) room by (auto simp: root_listing_def numeral_2_eq_2)
  obtain s5 where s5: "fix_root 1 s4 = Ret () s5" "holds s5 (image_files files) B I" "img s5 1 = img s4 1"
    using fix_root_run [OF s4(2) pad] unfolding image_files_def by blast
  obtain s6 where s6: "mkfs_balloc (usedblocks s5) s5 = Ret () s6" "holds s6 (image_files files) B I" "img s6 1 = img s5 1" "usedblocks s6 = usedblocks s5"
      "\<forall>b<4096. bit (img s6 28 ! (b div 8)) (b mod 8) \<longleftrightarrow> b < unat (usedblocks s5)"
    using mkfs_balloc_run [OF s5(2)] by blast
  have "mkfs_main files mkfs0 = Ret () s6" using s0(1) s1(1) s2(1) s3(1) s4(1) s5(1) s6(1) by (simp add: mkfs_main_def)
  moreover have "dec_super (img s6 1) = ?sb" using s0(3) s1(3) s2(3) s3(3) s4(3) s5(3) s6(3) by simp
  ultimately show ?thesis using s6(2,4,5) by auto
qed



end
