(* ===== verification/Uprogs.thy ===== *)
theory Uprogs
  imports CString
begin

text \<open>
  Small user programs: the formatted output of \<^verbatim>\<open>uprogs/printf.c\<close>, and the loops of \<^verbatim>\<open>wc.c\<close>, \<^verbatim>\<open>cat.c\<close> and \<^verbatim>\<open>ls.c\<close>. What they write
  is a list of bytes; what a descriptor yields is the list of the pieces that \<^verbatim>\<open>read\<close> returns.
\<close>

section \<open>Formatted output\<close>

definition udigits :: "byte list" where
  "udigits = [48, 49, 50, 51, 52, 53, 54, 55, 56, 57, 65, 66, 67, 68, 69, 70]"

text \<open>
  The digits of a number, least significant first, in a buffer with room for \<open>n\<close> more; \<open>None\<close> is a write behind its end.
\<close>

fun udigit_loop :: "nat \<Rightarrow> uint \<Rightarrow> uint \<Rightarrow> byte list option" where
  "udigit_loop 0 x b = None"
| "udigit_loop (Suc n) x b =
     (let d = udigits ! unat (x mod b) in
      if x div b = 0 then Some [d]
      else case udigit_loop n (x div b) b of None \<Rightarrow> None | Some ds \<Rightarrow> Some (d # ds))"

definition uprintint :: "uint \<Rightarrow> uint \<Rightarrow> bool \<Rightarrow> byte list option" where
  "uprintint xx b sign =
     (let neg = sign \<and> sint xx < 0; x = (if neg then - xx else xx) in
      case udigit_loop 16 x b of
        None \<Rightarrow> None
      | Some ds \<Rightarrow> if neg \<and> length ds = 16 then None else Some (rev (ds @ (if neg then [45] else []))))"

text \<open>
  The text of one conversion: \<open>str\<close> gives the C string at an address. The result is the text and the arguments left, or
  \<open>None\<close> when there is no argument.
\<close>

definition uconv :: "(uint \<Rightarrow> byte list) \<Rightarrow> byte \<Rightarrow> uint list \<Rightarrow> (byte list \<times> uint list) option" where
  "uconv str c ap =
     (if c = 100 \<or> c = 120 \<or> c = 112 \<or> c = 115 \<or> c = 99 then
        case ap of
          [] \<Rightarrow> None
        | a # ap \<Rightarrow>
            if c = 100 then map_option (\<lambda>t. (t, ap)) (uprintint a 10 True)
            else if c = 120 \<or> c = 112 then map_option (\<lambda>t. (t, ap)) (uprintint a 16 False)
            else if c = 115 then Some (if a = 0 then [40, 110, 117, 108, 108, 41] else str a, ap)
            else Some ([ucast a], ap)
      else if c = 37 then Some ([c], ap)
      else Some ([37, c], ap))"

text \<open>The loop over the format; the flag is the state after a percent sign.\<close>

fun uprintf :: "(uint \<Rightarrow> byte list) \<Rightarrow> bool \<Rightarrow> byte list \<Rightarrow> uint list \<Rightarrow> byte list option" where
  "uprintf str state [] ap = Some []"
| "uprintf str False (c # fmt) ap =
     (if c = 37 then uprintf str True fmt ap else map_option ((#) c) (uprintf str False fmt ap))"
| "uprintf str True (c # fmt) ap =
     (case uconv str c ap of
        None \<Rightarrow> None
      | Some (t, ap) \<Rightarrow> map_option ((@) t) (uprintf str False fmt ap))"

section \<open>Counting, copying and listing\<close>

text \<open>Lines, words and characters so far, and whether the last byte was in a word.\<close>

record wcst =
  wc_l :: int
  wc_w :: int
  wc_c :: int
  wc_inword :: bool

definition wc_byte :: "byte \<Rightarrow> wcst \<Rightarrow> wcst" where
  "wc_byte b s =
     (let s = s\<lparr>wc_c := wc_c s + 1\<rparr>;
          s = (if b = 10 then s\<lparr>wc_l := wc_l s + 1\<rparr> else s)
      in if b \<in> set [32, 13, 9, 10, 11] then s\<lparr>wc_inword := False\<rparr>
         else if \<not> wc_inword s then s\<lparr>wc_w := wc_w s + 1, wc_inword := True\<rparr>
         else s)"

definition wc :: "byte list list \<Rightarrow> int \<times> int \<times> int" where
  "wc reads =
     (let s = fold (\<lambda>buf s. fold wc_byte buf s) reads \<lparr>wc_l = 0, wc_w = 0, wc_c = 0, wc_inword = False\<rparr>
      in (wc_l s, wc_w s, wc_c s))"

definition cat :: "byte list list \<Rightarrow> byte list" where
  "cat reads = foldl (\<lambda>out buf. out @ buf) [] reads"

text \<open>The search of \<^verbatim>\<open>fmtname\<close> for the last slash: the position after it.\<close>

fun after_slash :: "byte list \<Rightarrow> nat \<Rightarrow> nat" where
  "after_slash path 0 = 0"
| "after_slash path (Suc p) = (if path ! p = 47 then Suc p else after_slash path p)"

definition fmtname :: "byte list \<Rightarrow> byte list" where
  "fmtname path =
     (let p = drop (after_slash path (length path)) path in
      if length p \<ge> 14 then p else p @ replicate (14 - length p) 32)"

section \<open>Numbers\<close>

text \<open>The value of digits, least significant first.\<close>

fun dvalue :: "byte list \<Rightarrow> nat" where
  "dvalue [] = 0"
| "dvalue (d # ds) = (unat d - 48) + 10 * dvalue ds"

definition decimal :: "byte list \<Rightarrow> bool" where
  "decimal ds \<longleftrightarrow> (\<forall>d\<in>set ds. 48 \<le> d \<and> d \<le> 57)"

lemma udigits_dec:
  assumes "k < 10"
  shows "48 \<le> udigits ! k \<and> udigits ! k \<le> 57 \<and> unat (udigits ! k) = 48 + k"
proof -
  have "\<forall>k\<in>set [0..<10]. 48 \<le> udigits ! k \<and> udigits ! k \<le> 57 \<and> unat (udigits ! k) = 48 + k" unfolding udigits_def by code_simp
  then show ?thesis using assms by simp
qed

lemma udigit_loop_dec:
  assumes "unat x < 10 ^ k" and "0 < k" and "k \<le> n"
  shows "\<exists>ds. udigit_loop n x 10 = Some ds \<and> decimal ds \<and> dvalue ds = unat x \<and> ds \<noteq> [] \<and> length ds \<le> k"
  using assms
proof (induction n arbitrary: x k)
  case (Suc n)
  let ?d = "udigits ! (unat x mod 10)"
  have d: "unat (x mod 10) = unat x mod 10" "unat (x div 10) = unat x div 10" by (simp_all add: unat_mod unat_div)
  have u: "48 \<le> ?d \<and> ?d \<le> 57 \<and> unat ?d = 48 + unat x mod 10" by (rule udigits_dec) simp
  show ?case
  proof (cases "x div 10 = 0")
    case True
    then have "unat x div 10 = 0" using d(2) by simp
    then have "unat x mod 10 = unat x" by (simp add: div_eq_0_iff)
    then show ?thesis using True u d(1) Suc.prems(2) by (auto simp: decimal_def)
  next
    case False
    then have "0 < unat x div 10" by (simp add: unat_gt_0 flip: d(2))
    then obtain j where j: "k = Suc j" "0 < j" using Suc.prems(1,2) by (cases k; cases "k = 1") auto
    then have "unat (x div 10) < 10 ^ j" using Suc.prems(1) d(2) by (simp add: less_mult_imp_div_less mult.commute)
    then obtain ds where "udigit_loop n (x div 10) 10 = Some ds" "decimal ds" "dvalue ds = unat x div 10" "ds \<noteq> []" "length ds \<le> j"
      using Suc.IH [of "x div 10" j] Suc.prems(3) j d(2) by auto
    then show ?thesis using False u d(1) j(1) by (auto simp: decimal_def)
  qed
qed simp

lemma sint_nonneg:
  assumes "0 \<le> sint (x :: uint)"
  shows "int (unat x) = sint x"
proof -
  have "sint x < 2 ^ 31" using sint_less [of x] by simp
  then have "uint (word_of_int (sint x) :: uint) = sint x" using assms by (subst uint_word_of_int) (simp add: take_bit_int_eq_self)
  then show ?thesis by simp
qed

text \<open>The number that the text of a number stands for.\<close>

definition tvalue :: "byte list \<Rightarrow> int" where
  "tvalue t = (if t \<noteq> [] \<and> hd t = 45 then - int (dvalue (rev (tl t))) else int (dvalue (rev t)))"

lemma uprintint_dec:
  "\<exists>ds. uprintint x 10 True = Some ((if sint x < 0 then [45] else []) @ rev ds) \<and> decimal ds \<and> ds \<noteq> [] \<and> int (dvalue ds) = \<bar>sint x\<bar>"
proof (cases "sint x < 0")
  case True
  have "- sint x \<le> 2 ^ 31" using sint_greater_eq [of x] by simp
  then have "unat (- x) < 10 ^ 15" using unat_uminus_neg [OF True] by simp
  then obtain ds where "udigit_loop 16 (- x) 10 = Some ds" "decimal ds" "dvalue ds = unat (- x)" "ds \<noteq> []" "length ds \<le> 15"
    using udigit_loop_dec [of "- x" 15 16] by auto
  then show ?thesis using True unat_uminus_neg [OF True] by (auto simp: uprintint_def)
next
  case False
  have "unat x < 10 ^ 16" using unat_less_32 [of x] by simp
  then obtain ds where "udigit_loop 16 x 10 = Some ds" "decimal ds" "dvalue ds = unat x" "ds \<noteq> []"
    using udigit_loop_dec [of x 16 16] by auto
  then show ?thesis using False sint_nonneg [of x] by (auto simp: uprintint_def)
qed

text \<open>\<^verbatim>\<open>atoi\<close> on digits.\<close>

lemma atoi_from_digits:
  assumes "decimal ts" and "str_at m p ts"
  shows "atoi_from m p n = Some (foldl (\<lambda>n d. n * 10 + ucast d - 48) n ts)"
  using assms
proof (induction ts arbitrary: p n)
  case Nil
  then show ?case by (subst atoi_from.simps) simp
next
  case (Cons d ts)
  then show ?case by (subst atoi_from.simps) (simp add: decimal_def)
qed

lemma foldl_digits: "decimal ds \<Longrightarrow> foldl (\<lambda>n d. n * 10 + ucast d - 48) 0 (rev ds) = (word_of_nat (dvalue ds) :: uint)"
proof (induction ds)
  case (Cons d ds)
  have "48 \<le> unat d" using Cons.prems by (simp add: decimal_def word_le_nat_alt)
  then have "(word_of_nat (unat d - 48) :: uint) = ucast d - 48" by (simp add: of_nat_diff)
  then show ?case using Cons by (simp add: decimal_def)
qed simp

text \<open>
  Numbers survive printing: what \<^verbatim>\<open>printf\<close> writes for a number with the decimal conversion is a text of digits, after a
  minus sign when it is negative, whose value is the number, for all 32-bit numbers; \<^verbatim>\<open>atoi\<close> reads a number that is not
  negative back as itself, wherever the text lies in memory.
\<close>

theorem printf_atoi_roundtrip:
  "\<exists>t. uprintf str False [37, 100] [x] = Some t \<and> tvalue t = sint x \<and> (0 \<le> sint x \<longrightarrow> str_at m p t \<longrightarrow> atoi m p = Some x)"
proof -
  obtain ds where d: "uprintint x 10 True = Some ((if sint x < 0 then [45] else []) @ rev ds)" "decimal ds" "ds \<noteq> []" "int (dvalue ds) = \<bar>sint x\<bar>"
    using uprintint_dec [of x] by blast
  let ?t = "(if sint x < 0 then [45] else []) @ rev ds"
  have "uprintf str False [37, 100] [x] = Some ?t" using d(1) by (simp add: uconv_def)
  moreover have "hd (rev ds) \<noteq> 45" using d(2,3) by (auto simp: decimal_def hd_rev dest!: last_in_set bspec)
  then have "tvalue ?t = sint x" using d(3,4) by (simp add: tvalue_def)
  moreover have "atoi m p = Some x" if "0 \<le> sint x" "str_at m p ?t"
  proof -
    have "dvalue ds = unat x" using d(4) that(1) sint_nonneg [of x] by (metis abs_of_nonneg of_nat_eq_iff)
    then show ?thesis using that d(2) atoi_from_digits [of "rev ds" m p 0] foldl_digits [of ds]
      by (simp add: atoi_def decimal_def)
  qed
  ultimately show ?thesis by blast
qed

theorem printf_atoi_roundtrip_witness:
  "\<exists>t. uprintf (\<lambda>_. []) False [37, 100] [205] = Some t \<and> tvalue t = 205 \<and> (str_at (\<lambda>_. 0) 0 t \<longrightarrow> atoi (\<lambda>_. 0) 0 = Some 205)"
  using printf_atoi_roundtrip [of "\<lambda>_. []" 205 "\<lambda>_. 0" 0] by simp

section \<open>Words\<close>

text \<open>The number of positions at which a word begins.\<close>

definition blank :: "byte \<Rightarrow> bool" where
  "blank b \<longleftrightarrow> b \<in> {32, 13, 9, 10, 11}"

definition word_starts :: "byte list \<Rightarrow> nat list" where
  "word_starts s = filter (\<lambda>k. \<not> blank (s ! k) \<and> (k = 0 \<or> blank (s ! (k - 1)))) [0..<length s]"

lemma word_starts_snoc:
  "word_starts (s @ [b]) = word_starts s @ (if \<not> blank b \<and> (s = [] \<or> blank (last s)) then [length s] else [])"
proof -
  have "filter (\<lambda>k. \<not> blank ((s @ [b]) ! k) \<and> (k = 0 \<or> blank ((s @ [b]) ! (k - 1)))) [0..<length s] = word_starts s"
    unfolding word_starts_def by (rule filter_cong) (auto simp: nth_append)
  moreover have "blank ((s @ [b]) ! (length s - 1)) \<longleftrightarrow> blank (last s)" if "s \<noteq> []" using that by (simp add: nth_append last_conv_nth)
  ultimately show ?thesis by (cases "s = []") (simp_all add: word_starts_def [of "s @ [b]"] word_starts_def [of "[b]"])
qed

lemma wc_fold:
  "fold wc_byte s \<lparr>wc_l = 0, wc_w = 0, wc_c = 0, wc_inword = False\<rparr> =
    \<lparr>wc_l = int (count_list s 10), wc_w = int (length (word_starts s)), wc_c = int (length s), wc_inword = s \<noteq> [] \<and> \<not> blank (last s)\<rparr>"
proof (induction s rule: rev_induct)
  case (snoc b s)
  then show ?case by (auto simp: wc_byte_def Let_def word_starts_snoc blank_def)
qed (simp add: word_starts_def)

text \<open>
  \<^verbatim>\<open>wc\<close> counts the newlines, the words (maximal runs of bytes that are not blank) and the bytes of its input, however
  \<^verbatim>\<open>read\<close> cuts the input into pieces, also in the middle of a word.
\<close>

theorem wc_correct:
  "wc reads = (int (count_list (concat reads) 10), int (length (word_starts (concat reads))), int (length (concat reads)))"
proof -
  have "fold (\<lambda>buf s. fold wc_byte buf s) reads = fold wc_byte (concat reads)" by (induction reads) (simp_all add: fun_eq_iff)
  then show ?thesis by (simp add: wc_def wc_fold)
qed

lemma cat_correct: "cat reads = concat reads"
proof -
  have "foldl (\<lambda>out buf. out @ buf) xs reads = xs @ concat reads" for xs by (induction reads arbitrary: xs) simp_all
  then show ?thesis by (simp add: cat_def)
qed

text \<open>A name is what follows the last slash, filled up with blanks to 14 characters.\<close>

lemma after_slash_drop: "n \<le> length path \<Longrightarrow> drop (after_slash path n) (take n path) = rev (takeWhile (\<lambda>c. c \<noteq> 47) (rev (take n path)))"
proof (induction n)
  case (Suc n)
  then have t: "take (Suc n) path = take n path @ [path ! n]" by (simp add: take_Suc_conv_app_nth)
  have "after_slash path k \<le> k" for k by (induction k) simp_all
  then show ?case using Suc unfolding t by simp
qed simp

lemma fmtname_correct:
  "fmtname path = (let p = rev (takeWhile (\<lambda>c. c \<noteq> 47) (rev path)) in p @ replicate (14 - length p) 32)"
  using after_slash_drop [of "length path" path] by (simp add: fmtname_def Let_def)

end
