(* ===== verification/Sched.thy ===== *)
theory Sched
  imports Spinlock Proc
begin

text \<open>
  Switching processes under \<^verbatim>\<open>ptable.lock\<close>: \<^verbatim>\<open>sched\<close>, \<^verbatim>\<open>yield\<close>, \<^verbatim>\<open>sleep\<close>, \<^verbatim>\<open>forkret\<close>, the end of \<^verbatim>\<open>exit\<close> and \<^verbatim>\<open>scheduler\<close> of \<^verbatim>\<open>source/proc.c\<close> with their
  locks and the interrupt masking of the CPUs, which the theory \<^verbatim>\<open>Proc\<close> leaves out. One step is the code up to the next change of a lock or of
  the running process; \<^verbatim>\<open>Spinlock\<close> has what an acquisition does in detail. The critical sections of \<^verbatim>\<open>wakeup\<close> (which \<^verbatim>\<open>exit\<close> has before it marks itself,
  and interrupt handlers and \<^verbatim>\<open>kill\<close> have anywhere), of a \<^verbatim>\<open>wait\<close> that need not sleep and of \<^verbatim>\<open>fork\<close> are one step per entry they change, taken when the lock is free:
  their masking cancels out.
\<close>

section \<open>State\<close>

text \<open>Which call a process is in when it calls \<^verbatim>\<open>sched\<close>; locks other than \<^verbatim>\<open>ptable.lock\<close> have numbers.\<close>

datatype kont = KYield | KSleep nat | KWait | KExit

text \<open>
  Where a process is: without locks; with one lock; back from \<^verbatim>\<open>yield\<close> or \<^verbatim>\<open>wait\<close>; in \<^verbatim>\<open>sleep\<close> with both locks; before \<^verbatim>\<open>sched\<close>; switched out in it, with the
  value of its local \<^verbatim>\<open>intena\<close>; back from it; before \<^verbatim>\<open>sleep\<close> takes its lock again; new, and at the start of \<^verbatim>\<open>forkret\<close>; or gone.
\<close>

datatype ppc = Free | InLock nat | Returned | SleepRel nat | AtSched kont | Out kont bool | Back kont | Retake nat | New | NewRel | Dead

text \<open>Where a scheduler is: at the top of its loop, before \<^verbatim>\<open>acquire\<close>, scanning the table with the lock, or switched to a process.\<close>

datatype spc = Top | Want | Scan | Gone

text \<open>
  \<open>ena\<close> remembers whether interrupts were enabled when the process took its first lock; no code reads it.
\<close>

record schedst =
  ck :: "nat \<Rightarrow> cpu"
  running :: "nat \<Rightarrow> nat option"
  tlock :: "nat option"
  lks :: "nat \<Rightarrow> nat option"
  spc_of :: "nat \<Rightarrow> spc"
  ppc_of :: "nat \<Rightarrow> ppc"
  pst :: "nat \<Rightarrow> procstate"
  ena :: "nat \<Rightarrow> bool"
  bad :: "string option"

section \<open>Steps\<close>

text \<open>The tests at the start of \<^verbatim>\<open>sched\<close>, in their order.\<close>

definition sched_check :: "nat \<Rightarrow> nat \<Rightarrow> schedst \<Rightarrow> string option" where
  "sched_check c p s =
     (if tlock s \<noteq> Some c then Some ''sched ptable.lock''
      else if ncli (ck s c) \<noteq> 1 then Some ''sched locks''
      else if pst s p = RUNNING then Some ''sched running''
      else if int_enabled (ck s c) then Some ''sched interruptible''
      else None)"

text \<open>\<open>at c p x s\<close>: CPU \<open>c\<close> runs process \<open>p\<close>, which is at \<open>x\<close>. A process moves on with \<open>goto\<close>.\<close>

definition at :: "nat \<Rightarrow> nat \<Rightarrow> ppc \<Rightarrow> schedst \<Rightarrow> bool" where
  "at c p x s \<longleftrightarrow> running s c = Some p \<and> ppc_of s p = x"

definition goto :: "nat \<Rightarrow> ppc \<Rightarrow> schedst \<Rightarrow> schedst" where
  "goto p x s = s\<lparr>ppc_of := (ppc_of s)(p := x)\<rparr>"

definition set_ck :: "nat \<Rightarrow> cpu \<Rightarrow> schedst \<Rightarrow> schedst" where
  "set_ck c k s = s\<lparr>ck := (ck s)(c := k)\<rparr>"

definition set_pst :: "nat \<Rightarrow> procstate \<Rightarrow> schedst \<Rightarrow> schedst" where
  "set_pst p q s = s\<lparr>pst := (pst s)(p := q)\<rparr>"

definition note_ena :: "nat \<Rightarrow> nat \<Rightarrow> schedst \<Rightarrow> schedst" where
  "note_ena c p s = s\<lparr>ena := (ena s)(p := int_enabled (ck s c))\<rparr>"

text \<open>The places at which a CPU is about to release a lock.\<close>

definition releasing :: "nat \<Rightarrow> schedst \<Rightarrow> bool" where
  "releasing c s \<longleftrightarrow> (running s c = None \<and> spc_of s c = Scan) \<or> (\<exists>p l. at c p (InLock l) s \<or> at c p (SleepRel l) s)
     \<or> (\<exists>p k. at c p (Back k) s) \<or> (\<exists>p. at c p NewRel s)"

inductive sched_step :: "schedst \<Rightarrow> schedst \<Rightarrow> bool" where
  irq: "at c p Free s \<Longrightarrow> k \<in> {cli (ck s c), sti (ck s c)} \<Longrightarrow> sched_step s (set_ck c k s)"
| acquire: "at c p Free s \<Longrightarrow> lks s l = None \<Longrightarrow> pushcli (ck s c) = Ret () k \<Longrightarrow>
    sched_step s (goto p (InLock l) (set_ck c k (note_ena c p s))\<lparr>lks := (lks s)(l := Some c)\<rparr>)"
| release: "at c p (InLock l) s \<Longrightarrow> popcli (ck s c) = Ret () k \<Longrightarrow>
    sched_step s (goto p Free (set_ck c k s)\<lparr>lks := (lks s)(l := None)\<rparr>)"
| wakeup: "tlock s = None \<Longrightarrow> pst s q = SLEEPING \<Longrightarrow> sched_step s (set_pst q RUNNABLE s)"
| yield: "at c p Free s \<Longrightarrow> tlock s = None \<Longrightarrow> pushcli (ck s c) = Ret () k \<Longrightarrow>
    sched_step s (goto p (AtSched KYield) (set_pst p RUNNABLE (set_ck c k (note_ena c p s)))\<lparr>tlock := Some c\<rparr>)"
| exit: "at c p Free s \<Longrightarrow> tlock s = None \<Longrightarrow> pushcli (ck s c) = Ret () k \<Longrightarrow>
    sched_step s (goto p (AtSched KExit) (set_pst p ZOMBIE (set_ck c k (note_ena c p s)))\<lparr>tlock := Some c\<rparr>)"
| sleep_acquire: "at c p (InLock l) s \<Longrightarrow> tlock s = None \<Longrightarrow> pushcli (ck s c) = Ret () k \<Longrightarrow>
    sched_step s (goto p (SleepRel l) (set_ck c k s)\<lparr>tlock := Some c\<rparr>)"
| sleep_release: "at c p (SleepRel l) s \<Longrightarrow> popcli (ck s c) = Ret () k \<Longrightarrow>
    sched_step s (goto p (AtSched (KSleep l)) (set_pst p SLEEPING (set_ck c k s))\<lparr>lks := (lks s)(l := None)\<rparr>)"
| wait_sleep: "at c p Free s \<Longrightarrow> tlock s = None \<Longrightarrow> pushcli (ck s c) = Ret () k \<Longrightarrow>
    sched_step s (goto p (AtSched KWait) (set_pst p SLEEPING (set_ck c k (note_ena c p s)))\<lparr>tlock := Some c\<rparr>)"
| sched: "at c p (AtSched x) s \<Longrightarrow> sched_check c p s = None \<Longrightarrow>
    sched_step s (goto p (Out x (intena (ck s c))) s\<lparr>running := (running s)(c := None), spc_of := (spc_of s)(c := Scan)\<rparr>)"
| sched_panic: "at c p (AtSched x) s \<Longrightarrow> sched_check c p s = Some e \<Longrightarrow> sched_step s (s\<lparr>bad := Some e\<rparr>)"
| yield_done: "at c p (Back KYield) s \<Longrightarrow> popcli (ck s c) = Ret () k \<Longrightarrow>
    sched_step s (goto p Returned (set_ck c k s)\<lparr>tlock := None\<rparr>)"
| return: "at c p Returned s \<Longrightarrow> sched_step s (goto p Free s)"
| sleep_woken: "at c p (Back (KSleep l)) s \<Longrightarrow> popcli (ck s c) = Ret () k \<Longrightarrow>
    sched_step s (goto p (Retake l) (set_ck c k s)\<lparr>tlock := None\<rparr>)"
| sleep_retake: "at c p (Retake l) s \<Longrightarrow> lks s l = None \<Longrightarrow> pushcli (ck s c) = Ret () k \<Longrightarrow>
    sched_step s (goto p (InLock l) (set_ck c k s)\<lparr>lks := (lks s)(l := Some c)\<rparr>)"
| wait_again: "at c p (Back KWait) s \<Longrightarrow> sched_step s (goto p (AtSched KWait) (set_pst p SLEEPING s))"
| wait_done: "at c p (Back KWait) s \<Longrightarrow> popcli (ck s c) = Ret () k \<Longrightarrow>
    sched_step s (goto p Returned (set_ck c k s)\<lparr>tlock := None\<rparr>)"
| exit_panic: "at c p (Back KExit) s \<Longrightarrow> sched_step s (s\<lparr>bad := Some ''zombie exit''\<rparr>)"
| forkret: "at c p NewRel s \<Longrightarrow> popcli (ck s c) = Ret () k \<Longrightarrow>
    sched_step s (goto p Free (set_ck c k s)\<lparr>tlock := None\<rparr>)"
| release_panic: "releasing c s \<Longrightarrow> popcli (ck s c) = Panic e \<Longrightarrow> sched_step s (s\<lparr>bad := Some e\<rparr>)"
| loop_sti: "running s c = None \<Longrightarrow> spc_of s c = Top \<Longrightarrow>
    sched_step s (set_ck c (sti (ck s c)) s\<lparr>spc_of := (spc_of s)(c := Want)\<rparr>)"
| loop_acquire: "running s c = None \<Longrightarrow> spc_of s c = Want \<Longrightarrow> tlock s = None \<Longrightarrow> pushcli (ck s c) = Ret () k \<Longrightarrow>
    sched_step s (set_ck c k s\<lparr>tlock := Some c, spc_of := (spc_of s)(c := Scan)\<rparr>)"
| pick_new: "running s c = None \<Longrightarrow> spc_of s c = Scan \<Longrightarrow> pst s p = RUNNABLE \<Longrightarrow> ppc_of s p = New \<Longrightarrow>
    sched_step s (goto p NewRel (set_pst p RUNNING s)\<lparr>running := (running s)(c := Some p), spc_of := (spc_of s)(c := Gone)\<rparr>)"
| pick: "running s c = None \<Longrightarrow> spc_of s c = Scan \<Longrightarrow> pst s p = RUNNABLE \<Longrightarrow> ppc_of s p = Out x b \<Longrightarrow>
    sched_step s (goto p (Back x) (set_pst p RUNNING (set_ck c ((ck s c)\<lparr>intena := b\<rparr>) s))
      \<lparr>running := (running s)(c := Some p), spc_of := (spc_of s)(c := Gone)\<rparr>)"
| loop_release: "running s c = None \<Longrightarrow> spc_of s c = Scan \<Longrightarrow> popcli (ck s c) = Ret () k \<Longrightarrow>
    sched_step s (set_ck c k s\<lparr>tlock := None, spc_of := (spc_of s)(c := Top)\<rparr>)"
| reap: "at c p Free s \<and> tlock s = None \<or> at c p (Back KWait) s \<Longrightarrow> pst s q = ZOMBIE \<Longrightarrow> ppc_of s q = Out x b \<Longrightarrow>
    sched_step s (goto q Dead (set_pst q UNUSED s))"
| fork: "at c p Free s \<Longrightarrow> tlock s = None \<Longrightarrow> pst s q = UNUSED \<Longrightarrow> ppc_of s q = Dead \<Longrightarrow>
    sched_step s (goto q New (set_pst q RUNNABLE s))"

text \<open>At start every CPU is at the top of its scheduler and one process is new.\<close>

definition sched_init :: "schedst \<Rightarrow> bool" where
  "sched_init s \<longleftrightarrow> (\<forall>c. running s c = None \<and> spc_of s c = Top \<and> ncli (ck s c) = 0) \<and> tlock s = None \<and> (\<forall>l. lks s l = None)
     \<and> ppc_of s 0 = New \<and> pst s 0 = RUNNABLE \<and> (\<forall>p. p \<noteq> 0 \<longrightarrow> ppc_of s p = Dead \<and> pst s p = UNUSED) \<and> bad s = None"

inductive sched_run :: "schedst \<Rightarrow> bool" where
  init: "sched_init s \<Longrightarrow> sched_run s"
| step: "sched_run s \<Longrightarrow> sched_step s s' \<Longrightarrow> sched_run s'"

end
