(* ===== verification/Sched_Proofs.thy ===== *)
theory Sched_Proofs
  imports Sched
begin

text \<open>
  The tests of \<^verbatim>\<open>sched\<close> and \<^verbatim>\<open>popcli\<close> never fail, on any interleaving of CPUs and processes, and a process that is switched out and goes on,
  maybe on another CPU, finds the interrupts as it left them.
\<close>

section \<open>Masking\<close>

lemma push:
  assumes "pushcli c = Ret () k"
  shows "ncli k = ncli c + 1" and "\<not> int_enabled k" and "intena k = (if ncli c = 0 then int_enabled c else intena c)"
proof -
  have "k = (cli c)\<lparr>intena := if ncli c = 0 then int_enabled c else intena c, ncli := ncli c + 1\<rparr>"
    using assms by (simp add: pushcli_run)
  then show "ncli k = ncli c + 1" "\<not> int_enabled k" "intena k = (if ncli c = 0 then int_enabled c else intena c)" by simp_all
qed

lemma sti_fields [simp]: "int_enabled (sti c)" "ncli (sti c) = ncli c" "intena (sti c) = intena c"
  by (simp_all add: int_enabled_def sti_def ac_simps)

lemma cli_fields [simp]: "ncli (cli c) = ncli c"
  by (simp add: cli_def)

lemma pop_last:
  assumes "popcli c = Ret () k" and "\<not> int_enabled c" and "ncli c = 1"
  shows "ncli k = 0" and "int_enabled k = intena c"
  using assms by (auto simp: popcli_outer split: if_splits)

lemma pop_inner:
  assumes "popcli c = Ret () k" and "\<not> int_enabled c" and "ncli c = 2"
  shows "ncli k = 1" and "\<not> int_enabled k" and "intena k = intena c"
  using assms by (auto simp: popcli_inner)

lemma pop_no_panic: "\<not> int_enabled c \<Longrightarrow> 1 \<le> ncli c \<Longrightarrow> popcli c \<noteq> Panic e"
  by (auto simp: popcli_def)

section \<open>The invariant\<close>

text \<open>
  What holds of a CPU whose process is at a place: the masking depth is the number of locks held, interrupts are off while there
  are any, and \<^verbatim>\<open>intena\<close> is what will be restored. \<open>T\<close> says that the CPU has \<^verbatim>\<open>ptable.lock\<close>, \<open>L\<close> are the other locks it has.
\<close>

fun proc_ctx :: "ppc \<Rightarrow> cpu \<Rightarrow> bool \<Rightarrow> nat set \<Rightarrow> procstate \<Rightarrow> bool \<Rightarrow> bool" where
  "proc_ctx Free k T L q e \<longleftrightarrow> ncli k = 0 \<and> \<not> T \<and> L = {} \<and> q = RUNNING"
| "proc_ctx Returned k T L q e \<longleftrightarrow> ncli k = 0 \<and> \<not> T \<and> L = {} \<and> q = RUNNING \<and> int_enabled k = e"
| "proc_ctx (InLock l) k T L q e \<longleftrightarrow> ncli k = 1 \<and> \<not> int_enabled k \<and> \<not> T \<and> L = {l} \<and> q = RUNNING \<and> intena k = e"
| "proc_ctx (SleepRel l) k T L q e \<longleftrightarrow> ncli k = 2 \<and> \<not> int_enabled k \<and> T \<and> L = {l} \<and> q = RUNNING \<and> intena k = e"
| "proc_ctx (AtSched x) k T L q e \<longleftrightarrow> ncli k = 1 \<and> \<not> int_enabled k \<and> T \<and> L = {} \<and> q \<in> {RUNNABLE, SLEEPING, ZOMBIE} \<and> intena k = e \<and> (x = KExit \<longrightarrow> q = ZOMBIE)"
| "proc_ctx (Back x) k T L q e \<longleftrightarrow> x \<noteq> KExit \<and> ncli k = 1 \<and> \<not> int_enabled k \<and> T \<and> L = {} \<and> q = RUNNING \<and> intena k = e"
| "proc_ctx (Retake l) k T L q e \<longleftrightarrow> ncli k = 0 \<and> \<not> T \<and> L = {} \<and> q = RUNNING \<and> int_enabled k = e"
| "proc_ctx NewRel k T L q e \<longleftrightarrow> ncli k = 1 \<and> \<not> int_enabled k \<and> T \<and> L = {} \<and> q = RUNNING"
| "proc_ctx New k T L q e \<longleftrightarrow> False"
| "proc_ctx (Out x b) k T L q e \<longleftrightarrow> False"
| "proc_ctx Dead k T L q e \<longleftrightarrow> False"

fun loop_ctx :: "spc \<Rightarrow> cpu \<Rightarrow> bool \<Rightarrow> nat set \<Rightarrow> bool" where
  "loop_ctx Top k T L \<longleftrightarrow> ncli k = 0 \<and> \<not> T \<and> L = {}"
| "loop_ctx Want k T L \<longleftrightarrow> ncli k = 0 \<and> \<not> T \<and> L = {}"
| "loop_ctx Scan k T L \<longleftrightarrow> ncli k = 1 \<and> \<not> int_enabled k \<and> T \<and> L = {}"
| "loop_ctx Gone k T L \<longleftrightarrow> False"

definition cpu_ctx :: "nat \<Rightarrow> schedst \<Rightarrow> bool" where
  "cpu_ctx c s \<longleftrightarrow>
     (case running s c of
        None \<Rightarrow> loop_ctx (spc_of s c) (ck s c) (tlock s = Some c) {l. lks s l = Some c}
      | Some p \<Rightarrow> proc_ctx (ppc_of s p) (ck s c) (tlock s = Some c) {l. lks s l = Some c} (pst s p) (ena s p))"

text \<open>A process that no CPU runs is new, gone, or switched out with the value to restore; it is not marked running.\<close>

fun off_ctx :: "ppc \<Rightarrow> procstate \<Rightarrow> bool \<Rightarrow> bool" where
  "off_ctx New q e \<longleftrightarrow> q = RUNNABLE"
| "off_ctx Dead q e \<longleftrightarrow> q = UNUSED"
| "off_ctx (Out x b) q e \<longleftrightarrow> b = e \<and> q \<noteq> RUNNING \<and> q \<noteq> UNUSED \<and> (x = KExit \<longrightarrow> q = ZOMBIE)"
| "off_ctx _ q e \<longleftrightarrow> False"

definition sched_inv :: "schedst \<Rightarrow> bool" where
  "sched_inv s \<longleftrightarrow> (\<forall>c. cpu_ctx c s) \<and> (\<forall>c d p. running s c = Some p \<longrightarrow> running s d = Some p \<longrightarrow> c = d)
     \<and> (\<forall>p. (\<forall>c. running s c \<noteq> Some p) \<longrightarrow> off_ctx (ppc_of s p) (pst s p) (ena s p)) \<and> bad s = None"

lemma sched_invD:
  assumes "sched_inv s"
  shows "cpu_ctx c s" and "running s c = Some p \<Longrightarrow> running s d = Some p \<Longrightarrow> c = d"
    and "(\<And>c. running s c \<noteq> Some p) \<Longrightarrow> off_ctx (ppc_of s p) (pst s p) (ena s p)" and "bad s = None"
  using assms unfolding sched_inv_def by blast+

lemma at_ctx:
  assumes "sched_inv s" and "at c p x s"
  shows "proc_ctx x (ck s c) (tlock s = Some c) {l. lks s l = Some c} (pst s p) (ena s p)"
    and "running s d = Some p \<longleftrightarrow> d = c"
  using sched_invD(1) [OF assms(1), of c] sched_invD(2) [OF assms(1), of c p d] assms(2) by (auto simp: at_def cpu_ctx_def)

lemma at_lock:
  assumes "sched_inv s" and "at c p (InLock l) s \<or> at c p (SleepRel l) s"
  shows "lks s l = Some c"
  using at_ctx(1) [OF assms(1)] assms(2) by fastforce

text \<open>A process whose place is not one of a process on a CPU is on none.\<close>

lemma not_running:
  assumes "sched_inv s" and "ppc_of s p \<in> {New, Dead} \<or> (\<exists>x b. ppc_of s p = Out x b)"
  shows "running s c \<noteq> Some p"
  using sched_invD(1) [OF assms(1), of c] assms(2) by (auto simp: cpu_ctx_def)

text \<open>
  One CPU moves: the others keep their context, because the locks only pass between nobody and this CPU, and the processes other than
  the one it ran and the one it runs keep theirs.
\<close>

lemma sched_inv_move:
  assumes "sched_inv s" and "cpu_ctx c s'" and "bad s' = None"
    and "\<And>d. d \<noteq> c \<Longrightarrow> ck s' d = ck s d \<and> spc_of s' d = spc_of s d \<and> running s' d = running s d"
    and "\<And>d. d \<noteq> c \<Longrightarrow> tlock s' = Some d \<longleftrightarrow> tlock s = Some d" and "\<And>d l. d \<noteq> c \<Longrightarrow> lks s' l = Some d \<longleftrightarrow> lks s l = Some d"
    and "\<And>p d. d \<noteq> c \<Longrightarrow> running s d = Some p \<Longrightarrow> ppc_of s' p = ppc_of s p \<and> pst s' p = pst s p \<and> ena s' p = ena s p"
    and "\<And>p. running s' c = Some p \<Longrightarrow> running s c \<noteq> Some p \<Longrightarrow> \<forall>d. running s d \<noteq> Some p"
    and "\<And>p. (\<And>d. running s' d \<noteq> Some p) \<Longrightarrow> off_ctx (ppc_of s' p) (pst s' p) (ena s' p)"
  shows "sched_inv s'"
proof -
  have "cpu_ctx d s'" for d
  proof (cases "d = c")
    case False
    then show ?thesis using sched_invD(1) [OF assms(1), of d] assms(4-7) by (auto simp: cpu_ctx_def split: option.splits)
  qed (use assms(2) in simp)
  moreover have "d = e" if "running s' d = Some p" "running s' e = Some p" for d e p
    using that sched_invD(2) [OF assms(1), of d p e] assms(4) assms(8) [of p] by (cases "d = c"; cases "e = c") metis+
  ultimately show ?thesis using assms(3,9) unfolding sched_inv_def by blast
qed

lemmas move_simps = goto_def set_ck_def set_pst_def note_ena_def at_def cpu_ctx_def

text \<open>The steps of a process that stays on its CPU.\<close>

lemma sched_inv_stay:
  assumes "sched_inv s" and "at c p x s" and "running s' = running s" and "spc_of s' = spc_of s" and "bad s' = None"
    and "\<And>d. d \<noteq> c \<Longrightarrow> ck s' d = ck s d" and "\<And>d. d \<noteq> c \<Longrightarrow> tlock s' = Some d \<longleftrightarrow> tlock s = Some d"
    and "\<And>d l. d \<noteq> c \<Longrightarrow> lks s' l = Some d \<longleftrightarrow> lks s l = Some d"
    and "\<And>q. q \<noteq> p \<Longrightarrow> ppc_of s' q = ppc_of s q \<and> pst s' q = pst s q \<and> ena s' q = ena s q"
    and "proc_ctx (ppc_of s' p) (ck s' c) (tlock s' = Some c) {l. lks s' l = Some c} (pst s' p) (ena s' p)"
  shows "sched_inv s'"
proof (rule sched_inv_move [OF assms(1), of c])
  have r: "running s c = Some p" using assms(2) by (simp add: at_def)
  note alone = at_ctx(2) [OF assms(1,2)]
  show "cpu_ctx c s'" using assms(3,10) r by (simp add: cpu_ctx_def)
  show "ppc_of s' q = ppc_of s q \<and> pst s' q = pst s q \<and> ena s' q = ena s q" if "d \<noteq> c" "running s d = Some q" for q d
    using that alone [of d] assms(9) [of q] by auto
  show "off_ctx (ppc_of s' q) (pst s' q) (ena s' q)" if "\<And>d. running s' d \<noteq> Some q" for q
  proof -
    have "q \<noteq> p" using that [of c] r assms(3) by auto
    then show ?thesis using sched_invD(3) [OF assms(1), of q] that assms(3) assms(9) [of q] by simp
  qed
qed (use assms in auto)

lemma stay_lock:
  assumes inv: "sched_inv s"
  shows "at c p Free s \<Longrightarrow> k \<in> {cli (ck s c), sti (ck s c)} \<Longrightarrow> sched_inv (set_ck c k s)"
    and "at c p Free s \<Longrightarrow> lks s l = None \<Longrightarrow> pushcli (ck s c) = Ret () k \<Longrightarrow>
      sched_inv (goto p (InLock l) (set_ck c k (note_ena c p s))\<lparr>lks := (lks s)(l := Some c)\<rparr>)"
    and "at c p (InLock l) s \<Longrightarrow> popcli (ck s c) = Ret () k \<Longrightarrow> sched_inv (goto p Free (set_ck c k s)\<lparr>lks := (lks s)(l := None)\<rparr>)"
    and "at c p (Retake l) s \<Longrightarrow> lks s l = None \<Longrightarrow> pushcli (ck s c) = Ret () k \<Longrightarrow>
      sched_inv (goto p (InLock l) (set_ck c k s)\<lparr>lks := (lks s)(l := Some c)\<rparr>)"
proof -
  note b = sched_invD(4) [OF inv]
  show "sched_inv (set_ck c k s)" if a: "at c p Free s" and "k \<in> {cli (ck s c), sti (ck s c)}"
    using at_ctx(1) [OF inv a] that b by (intro sched_inv_stay [OF inv a]) (auto simp: move_simps)
  show "sched_inv (goto p (InLock l) (set_ck c k (note_ena c p s))\<lparr>lks := (lks s)(l := Some c)\<rparr>)"
    if a: "at c p Free s" and "lks s l = None" "pushcli (ck s c) = Ret () k"
    using at_ctx(1) [OF inv a] that(2) push [OF that(3)] b by (intro sched_inv_stay [OF inv a]) (auto simp: move_simps)
  show "sched_inv (goto p Free (set_ck c k s)\<lparr>lks := (lks s)(l := None)\<rparr>)"
    if a: "at c p (InLock l) s" and "popcli (ck s c) = Ret () k"
    using at_ctx(1) [OF inv a] pop_last [OF that(2)] at_lock [OF inv disjI1 [OF a]] b by (intro sched_inv_stay [OF inv a]) (auto simp: move_simps)
  show "sched_inv (goto p (InLock l) (set_ck c k s)\<lparr>lks := (lks s)(l := Some c)\<rparr>)"
    if a: "at c p (Retake l) s" and "lks s l = None" "pushcli (ck s c) = Ret () k"
    using at_ctx(1) [OF inv a] that(2) push [OF that(3)] b by (intro sched_inv_stay [OF inv a]) (auto simp: move_simps)
qed

lemma stay_sched:
  assumes inv: "sched_inv s"
  shows "at c p Free s \<Longrightarrow> tlock s = None \<Longrightarrow> pushcli (ck s c) = Ret () k \<Longrightarrow> q \<in> {RUNNABLE, SLEEPING, ZOMBIE} \<Longrightarrow> (x = KExit \<longrightarrow> q = ZOMBIE) \<Longrightarrow>
      sched_inv (goto p (AtSched x) (set_pst p q (set_ck c k (note_ena c p s)))\<lparr>tlock := Some c\<rparr>)"
    and "at c p (InLock l) s \<Longrightarrow> tlock s = None \<Longrightarrow> pushcli (ck s c) = Ret () k \<Longrightarrow>
      sched_inv (goto p (SleepRel l) (set_ck c k s)\<lparr>tlock := Some c\<rparr>)"
    and "at c p (SleepRel l) s \<Longrightarrow> popcli (ck s c) = Ret () k \<Longrightarrow>
      sched_inv (goto p (AtSched (KSleep l)) (set_pst p SLEEPING (set_ck c k s))\<lparr>lks := (lks s)(l := None)\<rparr>)"
proof -
  note b = sched_invD(4) [OF inv]
  show "sched_inv (goto p (AtSched x) (set_pst p q (set_ck c k (note_ena c p s)))\<lparr>tlock := Some c\<rparr>)"
    if a: "at c p Free s" and "tlock s = None" "pushcli (ck s c) = Ret () k" "q \<in> {RUNNABLE, SLEEPING, ZOMBIE}" "x = KExit \<longrightarrow> q = ZOMBIE"
    using at_ctx(1) [OF inv a] that(2,4,5) push [OF that(3)] b by (intro sched_inv_stay [OF inv a]) (auto simp: move_simps)
  show "sched_inv (goto p (SleepRel l) (set_ck c k s)\<lparr>tlock := Some c\<rparr>)"
    if a: "at c p (InLock l) s" and "tlock s = None" "pushcli (ck s c) = Ret () k"
    using at_ctx(1) [OF inv a] that(2) push [OF that(3)] b by (intro sched_inv_stay [OF inv a]) (auto simp: move_simps)
  show "sched_inv (goto p (AtSched (KSleep l)) (set_pst p SLEEPING (set_ck c k s))\<lparr>lks := (lks s)(l := None)\<rparr>)"
    if a: "at c p (SleepRel l) s" and "popcli (ck s c) = Ret () k"
    using at_ctx(1) [OF inv a] pop_inner [OF that(2)] at_lock [OF inv disjI2 [OF a]] b
    by (intro sched_inv_stay [OF inv a]) (auto simp: move_simps)
qed

lemma stay_back:
  assumes inv: "sched_inv s"
  shows "at c p (Back x) s \<Longrightarrow> popcli (ck s c) = Ret () k \<Longrightarrow> z = Returned \<or> z = Retake l \<Longrightarrow>
      sched_inv (goto p z (set_ck c k s)\<lparr>tlock := None\<rparr>)"
    and "at c p (Back KWait) s \<Longrightarrow> sched_inv (goto p (AtSched KWait) (set_pst p SLEEPING s))"
    and "at c p NewRel s \<Longrightarrow> popcli (ck s c) = Ret () k \<Longrightarrow> sched_inv (goto p Free (set_ck c k s)\<lparr>tlock := None\<rparr>)"
    and "at c p Returned s \<Longrightarrow> sched_inv (goto p Free s)"
proof -
  note b = sched_invD(4) [OF inv]
  show "sched_inv (goto p z (set_ck c k s)\<lparr>tlock := None\<rparr>)"
    if a: "at c p (Back x) s" and "popcli (ck s c) = Ret () k" "z = Returned \<or> z = Retake l"
    using at_ctx(1) [OF inv a] that(3) pop_last [OF that(2)] b by (intro sched_inv_stay [OF inv a]) (auto simp: move_simps)
  show "sched_inv (goto p Free (set_ck c k s)\<lparr>tlock := None\<rparr>)" if a: "at c p NewRel s" and "popcli (ck s c) = Ret () k"
    using at_ctx(1) [OF inv a] pop_last [OF that(2)] b by (intro sched_inv_stay [OF inv a]) (auto simp: move_simps)
  show "sched_inv (goto p (AtSched KWait) (set_pst p SLEEPING s))" if a: "at c p (Back KWait) s"
    using at_ctx(1) [OF inv a] b by (intro sched_inv_stay [OF inv a]) (auto simp: move_simps)
  show "sched_inv (goto p Free s)" if a: "at c p Returned s"
    using at_ctx(1) [OF inv a] b by (intro sched_inv_stay [OF inv a]) (auto simp: move_simps)
qed

text \<open>The steps that change what runs on a CPU.\<close>

lemma leave_cpu:
  assumes inv: "sched_inv s" and a: "at c p (AtSched x) s"
  shows "sched_inv (goto p (Out x (intena (ck s c))) s\<lparr>running := (running s)(c := None), spc_of := (spc_of s)(c := Scan)\<rparr>)"
proof (rule sched_inv_move [OF inv, of c], goal_cases)
  case (8 q)
  show ?case
  proof (cases "q = p")
    case True
    then show ?thesis using at_ctx(1) [OF inv a] by (auto simp: move_simps)
  next
    case False
    have "running s d \<noteq> Some q" for d using 8 [of d] a False by (cases "d = c") (auto simp: move_simps)
    then show ?thesis using sched_invD(3) [OF inv, of q] False by (simp add: move_simps)
  qed
qed (use at_ctx [OF inv a] sched_invD(4) [OF inv] a in \<open>auto simp: move_simps\<close>)

lemma enter_cpu:
  assumes inv: "sched_inv s" and r: "running s c = None" "spc_of s c = Scan" and p: "pst s p = RUNNABLE"
  shows "ppc_of s p = New \<Longrightarrow>
      sched_inv (goto p NewRel (set_pst p RUNNING s)\<lparr>running := (running s)(c := Some p), spc_of := (spc_of s)(c := Gone)\<rparr>)"
    and "ppc_of s p = Out x b \<Longrightarrow>
      sched_inv (goto p (Back x) (set_pst p RUNNING (set_ck c ((ck s c)\<lparr>intena := b\<rparr>) s))
        \<lparr>running := (running s)(c := Some p), spc_of := (spc_of s)(c := Gone)\<rparr>)"
proof -
  have ctx: "loop_ctx Scan (ck s c) (tlock s = Some c) {l. lks s l = Some c}"
    using sched_invD(1) [OF inv, of c] r by (simp add: cpu_ctx_def)
  note b = sched_invD(4) [OF inv]
  show "sched_inv (goto p NewRel (set_pst p RUNNING s)\<lparr>running := (running s)(c := Some p), spc_of := (spc_of s)(c := Gone)\<rparr>)"
    if n: "ppc_of s p = New"
  proof (rule sched_inv_move [OF inv, of c], goal_cases)
    case (8 q)
    have "running s d \<noteq> Some q" "q \<noteq> p" for d using 8 [of d] 8 [of c] r(1) by (cases "d = c"; auto simp: move_simps)+
    then show ?case using sched_invD(3) [OF inv, of q] by (simp add: move_simps)
  qed (use not_running [OF inv] n ctx b r in \<open>auto simp: move_simps\<close>)
  show "sched_inv (goto p (Back x) (set_pst p RUNNING (set_ck c ((ck s c)\<lparr>intena := b\<rparr>) s))
      \<lparr>running := (running s)(c := Some p), spc_of := (spc_of s)(c := Gone)\<rparr>)" if n: "ppc_of s p = Out x b"
  proof (rule sched_inv_move [OF inv, of c], goal_cases)
    case 1
    have "off_ctx (Out x b) (pst s p) (ena s p)" using sched_invD(3) [OF inv, of p] not_running [OF inv] n by metis
    then show ?case using ctx p by (auto simp: move_simps)
  next
    case (8 q)
    have "running s d \<noteq> Some q" "q \<noteq> p" for d using 8 [of d] 8 [of c] r(1) by (cases "d = c"; auto simp: move_simps)+
    then show ?case using sched_invD(3) [OF inv, of q] by (simp add: move_simps)
  qed (use not_running [OF inv] n ctx b r in \<open>auto simp: move_simps\<close>)
qed

text \<open>The steps of a scheduler that keeps its CPU.\<close>

lemma loop_moves:
  assumes inv: "sched_inv s" and r: "running s c = None"
  shows "spc_of s c = Top \<Longrightarrow> sched_inv (set_ck c (sti (ck s c)) s\<lparr>spc_of := (spc_of s)(c := Want)\<rparr>)"
    and "spc_of s c = Want \<Longrightarrow> tlock s = None \<Longrightarrow> pushcli (ck s c) = Ret () k \<Longrightarrow>
      sched_inv (set_ck c k s\<lparr>tlock := Some c, spc_of := (spc_of s)(c := Scan)\<rparr>)"
    and "spc_of s c = Scan \<Longrightarrow> popcli (ck s c) = Ret () k \<Longrightarrow>
      sched_inv (set_ck c k s\<lparr>tlock := None, spc_of := (spc_of s)(c := Top)\<rparr>)"
proof -
  have ctx: "loop_ctx (spc_of s c) (ck s c) (tlock s = Some c) {l. lks s l = Some c}"
    using sched_invD(1) [OF inv, of c] r by (simp add: cpu_ctx_def)
  note b = sched_invD(4) [OF inv] and off = sched_invD(3) [OF inv]
  show "sched_inv (set_ck c (sti (ck s c)) s\<lparr>spc_of := (spc_of s)(c := Want)\<rparr>)" if "spc_of s c = Top"
    by (rule sched_inv_move [OF inv, of c]) (use ctx b off r that in \<open>auto simp: move_simps\<close>)
  show "sched_inv (set_ck c k s\<lparr>tlock := Some c, spc_of := (spc_of s)(c := Scan)\<rparr>)"
    if "spc_of s c = Want" "tlock s = None" "pushcli (ck s c) = Ret () k"
    by (rule sched_inv_move [OF inv, of c]) (use ctx b off r that(1,2) push [OF that(3)] in \<open>auto simp: move_simps\<close>)
  show "sched_inv (set_ck c k s\<lparr>tlock := None, spc_of := (spc_of s)(c := Top)\<rparr>)"
    if "spc_of s c = Scan" "popcli (ck s c) = Ret () k"
    by (rule sched_inv_move [OF inv, of c]) (use ctx b off r that(1) pop_last [OF that(2)] in \<open>auto simp: move_simps\<close>)
qed

text \<open>The steps that change an entry of the table whose process is on no CPU.\<close>

lemma sched_inv_entry:
  assumes inv: "sched_inv s" and "\<And>c. running s c \<noteq> Some q" and "off_ctx x v (ena s q)"
  shows "sched_inv (goto q x (set_pst q v s))"
proof -
  have "cpu_ctx c (goto q x (set_pst q v s))" for c
    using sched_invD(1) [OF inv, of c] assms(2) [of c] by (auto simp: move_simps split: option.splits)
  then show ?thesis using inv assms(3) unfolding sched_inv_def by (auto simp: move_simps)
qed

lemma goto_same: "ppc_of s q = x \<Longrightarrow> goto q x (set_pst q v s) = set_pst q v s"
  by (cases s) (simp add: goto_def set_pst_def fun_upd_idem)

lemma sched_inv_wakeup:
  assumes inv: "sched_inv s" and "tlock s = None" and q: "pst s q = SLEEPING"
  shows "sched_inv (set_pst q RUNNABLE s)"
proof -
  have off: "running s c \<noteq> Some q" for c
    using sched_invD(1) [OF inv, of c] assms(2) q by (cases "ppc_of s q") (auto simp: cpu_ctx_def)
  have "off_ctx (ppc_of s q) SLEEPING (ena s q)" using sched_invD(3) [OF inv off] q by simp
  then have "off_ctx (ppc_of s q) RUNNABLE (ena s q)" by (cases "ppc_of s q") auto
  from sched_inv_entry [OF inv off this] show ?thesis by (simp add: goto_same)
qed

lemma sched_inv_table:
  assumes inv: "sched_inv s"
  shows "ppc_of s q = Out x b \<Longrightarrow> sched_inv (goto q Dead (set_pst q UNUSED s))"
    and "ppc_of s q = Dead \<Longrightarrow> sched_inv (goto q New (set_pst q RUNNABLE s))"
  using not_running [OF inv, of q] by (auto intro!: sched_inv_entry [OF inv])

lemma sched_ok:
  assumes "sched_inv s" and "at c p (AtSched x) s"
  shows "sched_check c p s = None"
  using at_ctx(1) [OF assms] by (auto simp: sched_check_def)

lemma release_ok:
  assumes inv: "sched_inv s" and "releasing c s"
  shows "popcli (ck s c) \<noteq> Panic e"
proof -
  have "\<not> int_enabled (ck s c) \<and> 1 \<le> ncli (ck s c)"
    using assms(2) sched_invD(1) [OF inv, of c] unfolding releasing_def
    by (auto dest!: at_ctx(1) [OF inv] simp: cpu_ctx_def)
  then show ?thesis using pop_no_panic by blast
qed

lemma sched_inv_step: "sched_step s s' \<Longrightarrow> sched_inv s \<Longrightarrow> sched_inv s'"
proof (induction rule: sched_step.induct)
  case (release_panic c s e)
  then show ?case using release_ok by blast
next
  case (exit_panic c p s)
  then show ?case using at_ctx(1) by fastforce
next
  case (sched_panic c p x s e)
  then show ?case using sched_ok by fastforce
qed (auto intro: stay_lock stay_sched stay_back leave_cpu enter_cpu loop_moves sched_inv_wakeup sched_inv_table)

lemma sched_inv_run: "sched_run s \<Longrightarrow> sched_inv s"
proof (induction rule: sched_run.induct)
  case (init s)
  have "off_ctx (ppc_of s p) (pst s p) (ena s p)" for p using init by (cases "p = 0") (auto simp: sched_init_def)
  then show ?case using init by (auto simp: sched_init_def sched_inv_def cpu_ctx_def)
qed (rule sched_inv_step)

text \<open>
  C5: switching under the table lock. In every state that the CPUs and processes reach, whatever the interleaving, no test of \<^verbatim>\<open>sched\<close>
  (the lock held, no other lock, state changed, interrupts off), of \<^verbatim>\<open>popcli\<close> or of \<^verbatim>\<open>exit\<close> (a zombie runs again) has failed; and when \<^verbatim>\<open>yield\<close> or \<^verbatim>\<open>wait\<close> returns, or a
  process has its lock back after \<^verbatim>\<open>sleep\<close>, on whichever CPU, the interrupts are enabled, or will be at the release, exactly if they
  were before.
\<close>

theorem sched_discipline:
  assumes "sched_run s"
  shows "bad s = None
    \<and> (\<forall>c p. at c p Returned s \<longrightarrow> int_enabled (ck s c) = ena s p \<and> ncli (ck s c) = 0)
    \<and> (\<forall>c p l. at c p (InLock l) s \<longrightarrow> lks s l = Some c \<and> intena (ck s c) = ena s p \<and> \<not> int_enabled (ck s c))
    \<and> (\<forall>c p x. at c p (AtSched x) s \<longrightarrow> sched_check c p s = None)"
proof -
  have inv: "sched_inv s" by (rule sched_inv_run [OF assms])
  show ?thesis using sched_invD(4) [OF inv] at_ctx(1) [OF inv] at_lock [OF inv] sched_ok [OF inv] by fastforce
qed

section \<open>Example\<close>

text \<open>CPU 0 starts the first process, which then yields and comes back.\<close>

definition ex_cpu :: "uint \<Rightarrow> int \<Rightarrow> bool \<Rightarrow> cpu" where
  "ex_cpu w n b = \<lparr>cpsr = w, ncli = n, intena = b\<rparr>"

definition ex_sched :: "cpu \<Rightarrow> nat option \<Rightarrow> nat option \<Rightarrow> spc \<Rightarrow> ppc \<Rightarrow> procstate \<Rightarrow> bool \<Rightarrow> schedst" where
  "ex_sched k r t x y q e = \<lparr>ck = (\<lambda>_. ex_cpu 0 0 False)(0 := k), running = (\<lambda>_. None)(0 := r), tlock = t, lks = \<lambda>_. None,
     spc_of = (\<lambda>_. Top)(0 := x), ppc_of = (\<lambda>_. Dead)(0 := y), pst = (\<lambda>_. UNUSED)(0 := q), ena = (\<lambda>_. False)(0 := e), bad = None\<rparr>"

lemma ex_push: "pushcli (ex_cpu 0 0 b) = Ret () (ex_cpu 0x80 1 True)"
  by (simp add: pushcli_run ex_cpu_def cli_def int_enabled_def)

lemma ex_pop: "popcli (ex_cpu 0x80 1 True) = Ret () (ex_cpu 0 0 True)"
proof -
  have "\<not> int_enabled (ex_cpu 0x80 1 True)" by (simp add: ex_cpu_def int_enabled_def)
  then show ?thesis by (simp add: popcli_outer ex_cpu_def sti_def)
qed

lemma ex_sched_run: "sched_run (ex_sched (ex_cpu 0 0 True) (Some 0) None Gone Returned RUNNING True)"
proof -
  let ?k = "ex_cpu 0 0 True" and ?l = "ex_cpu 0x80 1 True"
  note simps = ex_sched_def goto_def set_ck_def set_pst_def note_ena_def at_def
  have en: "int_enabled ?k" "\<not> int_enabled ?l" "sti (ex_cpu 0 0 False) = ex_cpu 0 0 False" "ncli ?l = 1" "?l\<lparr>intena := True\<rparr> = ?l" "intena ?l"
    by (simp_all add: ex_cpu_def int_enabled_def sti_def)
  have "sched_run (ex_sched (ex_cpu 0 0 False) None None Top New RUNNABLE False)"
    by (rule sched_run.init) (simp add: sched_init_def ex_sched_def ex_cpu_def)
  moreover have "sched_step (ex_sched (ex_cpu 0 0 False) None None Top New RUNNABLE False) (ex_sched (ex_cpu 0 0 False) None None Want New RUNNABLE False)"
    using sched_step.loop_sti [of "ex_sched (ex_cpu 0 0 False) None None Top New RUNNABLE False" 0] en(3) by (simp add: simps)
  moreover have "sched_step (ex_sched (ex_cpu 0 0 False) None None Want New RUNNABLE False) (ex_sched ?l None (Some 0) Scan New RUNNABLE False)"
    using sched_step.loop_acquire [of "ex_sched (ex_cpu 0 0 False) None None Want New RUNNABLE False" 0 ?l] ex_push by (simp add: simps)
  moreover have "sched_step (ex_sched ?l None (Some 0) Scan New RUNNABLE False) (ex_sched ?l (Some 0) (Some 0) Gone NewRel RUNNING False)"
    using sched_step.pick_new [of "ex_sched ?l None (Some 0) Scan New RUNNABLE False" 0 0] by (simp add: simps)
  moreover have "sched_step (ex_sched ?l (Some 0) (Some 0) Gone NewRel RUNNING False) (ex_sched ?k (Some 0) None Gone Free RUNNING False)"
    using sched_step.forkret [of 0 0 "ex_sched ?l (Some 0) (Some 0) Gone NewRel RUNNING False" ?k] ex_pop by (simp add: simps)
  moreover have "sched_step (ex_sched ?k (Some 0) None Gone Free RUNNING False) (ex_sched ?l (Some 0) (Some 0) Gone (AtSched KYield) RUNNABLE True)"
    using sched_step.yield [of 0 0 "ex_sched ?k (Some 0) None Gone Free RUNNING False" ?l] ex_push en(1) by (simp add: simps)
  moreover have "sched_step (ex_sched ?l (Some 0) (Some 0) Gone (AtSched KYield) RUNNABLE True) (ex_sched ?l None (Some 0) Scan (Out KYield True) RUNNABLE True)"
    using sched_step.sched [of 0 0 KYield "ex_sched ?l (Some 0) (Some 0) Gone (AtSched KYield) RUNNABLE True"] en
    by (simp add: simps sched_check_def)
  moreover have "sched_step (ex_sched ?l None (Some 0) Scan (Out KYield True) RUNNABLE True) (ex_sched ?l (Some 0) (Some 0) Gone (Back KYield) RUNNING True)"
    using sched_step.pick [of "ex_sched ?l None (Some 0) Scan (Out KYield True) RUNNABLE True" 0 0 KYield True] en(5) by (simp add: simps)
  moreover have "sched_step (ex_sched ?l (Some 0) (Some 0) Gone (Back KYield) RUNNING True) (ex_sched ?k (Some 0) None Gone Returned RUNNING True)"
    using sched_step.yield_done [of 0 0 "ex_sched ?l (Some 0) (Some 0) Gone (Back KYield) RUNNING True" ?k] ex_pop by (simp add: simps)
  ultimately show ?thesis by (meson sched_run.step)
qed

theorem sched_discipline_witness: "\<exists>s. sched_run s \<and> at 0 0 Returned s \<and> int_enabled (ck s 0) = ena s 0 \<and> bad s = None"
proof -
  let ?s = "ex_sched (ex_cpu 0 0 True) (Some 0) None Gone Returned RUNNING True"
  have "at 0 0 Returned ?s" by (simp add: at_def ex_sched_def)
  then show ?thesis using ex_sched_run sched_discipline [OF ex_sched_run] by blast
qed

end
