(* ===== verification/Boot.thy ===== *)
theory Boot
  imports Vm
begin

unbundle bit_operations_syntax

text \<open>
  The page tables of the start-up code (\<^verbatim>\<open>source/start.c\<close>): sections of one megabyte in two tables, one for addresses below
  256 megabytes and one for those above, as the processor is set up to use them.
\<close>

section \<open>The tables\<close>

record boottbl =
  kernel_pgtbl :: "nat \<Rightarrow> uint"
  user_pgtbl :: "nat \<Rightarrow> uint"

abbreviation (input) NUM_UPDE :: uint where "NUM_UPDE \<equiv> 0x100"

definition boot_pde :: "uint \<Rightarrow> bool \<Rightarrow> uint" where
  "boot_pde phy dev_mem =
     (if \<not> dev_mem then push_bit 20 phy OR (push_bit 10 AP_KO OR 8 OR 4 OR 2)
      else push_bit 20 phy OR (push_bit 10 AP_KO OR 2))"

fun bootpgtbl_loop :: "nat \<Rightarrow> uint \<Rightarrow> uint \<Rightarrow> bool \<Rightarrow> boottbl \<Rightarrow> boottbl" where
  "bootpgtbl_loop 0 virt phy dev_mem t = t"
| "bootpgtbl_loop (Suc n) virt phy dev_mem t =
     bootpgtbl_loop n (virt + 1) (phy + 1) dev_mem
       (if virt < NUM_UPDE then t\<lparr>user_pgtbl := (user_pgtbl t)(unat virt := boot_pde phy dev_mem)\<rparr>
        else t\<lparr>kernel_pgtbl := (kernel_pgtbl t)(unat virt := boot_pde phy dev_mem)\<rparr>)"

definition set_bootpgtbl :: "uint \<Rightarrow> uint \<Rightarrow> uint \<Rightarrow> bool \<Rightarrow> boottbl \<Rightarrow> boottbl" where
  "set_bootpgtbl virt phy len dev_mem =
     bootpgtbl_loop (unat (drop_bit 20 len)) (drop_bit 20 virt) (drop_bit 20 phy) dev_mem"

abbreviation (input) INIT_KERN_SZ :: uint where "INIT_KERN_SZ \<equiv> 0x100000"
abbreviation (input) GPUMEMBASE :: uint where "GPUMEMBASE \<equiv> 0x40000000"
abbreviation (input) GPUMEMSIZE :: uint where "GPUMEMSIZE \<equiv> 0x40000000"
abbreviation (input) DEVSPACE :: uint where "DEVSPACE \<equiv> 0xFE000000"
abbreviation (input) DEV_MEM_SZ :: uint where "DEV_MEM_SZ \<equiv> 0x1000000"
abbreviation (input) PHYSIO :: uint where "PHYSIO \<equiv> 0x3F000000"

definition init_pgtbl :: "boottbl \<Rightarrow> boottbl" where
  "init_pgtbl t =
     set_bootpgtbl DEVSPACE PHYSIO DEV_MEM_SZ True
       (set_bootpgtbl GPUMEMBASE GPUMEMBASE GPUMEMSIZE True
         (set_bootpgtbl KERNBASE 0 INIT_KERN_SZ False
           (set_bootpgtbl 0 0 INIT_KERN_SZ False t)))"

text \<open>
  What the memory unit does with a section entry once \<^verbatim>\<open>load_pgtlb\<close> has set the split at \<^verbatim>\<open>UADDR_BITS\<close>: the physical
  address, whether the memory is cached, and the access permission; no entry is a fault.
\<close>

definition mmu :: "boottbl \<Rightarrow> uint \<Rightarrow> (uint \<times> bool \<times> uint) option" where
  "mmu t va =
     (let pde = (if va < UADDR_SZ then user_pgtbl t else kernel_pgtbl t) (unat (drop_bit 20 va)) in
      if pde AND PE_TYPES = 2
      then Some (pde AND 0xFFF00000 OR va AND 0xFFFFF, pde AND 8 \<noteq> 0, drop_bit 10 pde AND 3)
      else None)"

section \<open>What is mapped\<close>

definition pde_of :: "boottbl \<Rightarrow> nat \<Rightarrow> uint" where
  "pde_of t k = (if k < 256 then user_pgtbl t k else kernel_pgtbl t k)"

lemma pde_of_loop:
  assumes "unat virt + n \<le> 4096"
  shows "pde_of (bootpgtbl_loop n virt phy d t) k =
    (if unat virt \<le> k \<and> k < unat virt + n then boot_pde (phy + word_of_nat (k - unat virt)) d else pde_of t k)"
  using assms
proof (induction n arbitrary: virt phy t)
  case (Suc n)
  let ?t = "if virt < 0x100 then t\<lparr>user_pgtbl := (user_pgtbl t)(unat virt := boot_pde phy d)\<rparr>
        else t\<lparr>kernel_pgtbl := (kernel_pgtbl t)(unat virt := boot_pde phy d)\<rparr>"
  have v: "unat (virt + 1) = unat virt + 1" using Suc.prems by (simp add: unat_word_ariths)
  have t: "pde_of ?t k = (if k = unat virt then boot_pde phy d else pde_of t k)" by (auto simp: pde_of_def word_less_nat_alt)
  have p: "phy + 1 + word_of_nat (k - Suc (unat virt)) = phy + word_of_nat (k - unat virt)" if "unat virt < k"
    using less_imp_Suc_add [OF that] by auto
  show ?case
  proof (cases "unat virt < k")
    case True
    then show ?thesis using Suc.IH [of "virt + 1" "phy + 1" ?t] Suc.prems v t p [OF True] by simp
  next
    case False
    then show ?thesis using Suc.IH [of "virt + 1" "phy + 1" ?t] Suc.prems v t by (cases "k = unat virt") simp_all
  qed
qed auto

text \<open>The address that an entry gives, and its attributes.\<close>

lemma and_masks: "(x :: uint) AND 3 = take_bit 2 x" "x AND 0xFFFFF = take_bit 20 x" "x AND 0xFFF00000 = push_bit 20 (drop_bit 20 x)"
proof -
  have "(0xFFF00000 :: uint) = NOT (mask 20)" by (simp add: mask_eq_exp_minus_1 not_eq_complement)
  moreover have "x AND NOT (mask 20) = push_bit 20 (drop_bit 20 x)" by (auto intro!: bit_word_eqI simp: bit_simps)
  ultimately show "x AND 0xFFF00000 = push_bit 20 (drop_bit 20 x)" by simp
qed (simp_all add: take_bit_eq_mask mask_eq_exp_minus_1)

lemma boot_pde_bits:
  "boot_pde phy d AND 3 = 2" "boot_pde phy d AND 8 \<noteq> 0 \<longleftrightarrow> \<not> d" "drop_bit 10 (boot_pde phy d) AND 3 = 1"
  "boot_pde phy d AND 0xFFF00000 = push_bit 20 phy"
proof -
  show "boot_pde phy d AND 3 = 2" by (simp add: boot_pde_def and_masks take_bit_push_bit)
  have "x AND 8 \<noteq> 0 \<longleftrightarrow> bit x 3" for x :: uint
    using and_exp_eq_0_iff_not_bit [of x 3] by simp
  then show "boot_pde phy d AND 8 \<noteq> 0 \<longleftrightarrow> \<not> d" by (simp add: boot_pde_def bit_simps)
  show "drop_bit 10 (boot_pde phy d) AND 3 = 1" 
    by (simp add: boot_pde_def and_masks) (auto intro!: bit_word_eqI simp: bit_simps)
  show "boot_pde phy d AND 0xFFF00000 = push_bit 20 phy"
    by (simp add: boot_pde_def and_masks) (auto intro!: bit_word_eqI simp: bit_simps)
qed

lemma section_address: "push_bit 20 (drop_bit 20 va + d) OR va AND 0xFFFFF = va + push_bit 20 d" for va d :: uint
proof -
  have "push_bit 20 y OR take_bit 20 va = push_bit 20 y + take_bit 20 va" for y :: uint
    by (rule disjunctive_add [symmetric]) (auto simp: bit_simps)
  from this [of "drop_bit 20 va + d"]
  have "push_bit 20 (drop_bit 20 va + d) OR va AND 0xFFFFF = push_bit 20 (drop_bit 20 va) + take_bit 20 va + push_bit 20 d"
    by (simp only: and_masks push_bit_add ac_simps)
  then show ?thesis by (simp only: bits_ident)
qed

text \<open>The map of one range.\<close>

lemma mmu_range:
  assumes "unat (drop_bit 20 virt) + unat (drop_bit 20 len) \<le> 4096"
  shows "mmu (set_bootpgtbl virt phy len d t) va =
    (if unat (drop_bit 20 virt) \<le> unat va div 2 ^ 20 \<and> unat va div 2 ^ 20 < unat (drop_bit 20 virt) + unat (drop_bit 20 len)
     then Some (va + push_bit 20 (drop_bit 20 phy - drop_bit 20 virt), \<not> d, AP_KO) else mmu t va)"
proof -
  let ?k = "unat (drop_bit 20 va)" and ?t = "set_bootpgtbl virt phy len d t"
  have k: "?k = unat va div 2 ^ 20" by (simp add: unat_drop_bit_32)
  have lt: "va < 0x10000000 \<longleftrightarrow> ?k < 256" unfolding k by (auto simp: word_less_nat_alt less_mult_imp_div_less dest: div_le_mono [of "2 ^ 28" _ "2 ^ 20"])
  have m: "mmu u va = (if pde_of u ?k AND 3 = 2 then Some (pde_of u ?k AND 0xFFF00000 OR va AND 0xFFFFF, pde_of u ?k AND 8 \<noteq> 0, drop_bit 10 (pde_of u ?k) AND 3) else None)" for u
    using lt by (simp add: mmu_def pde_of_def Let_def)
  have e: "pde_of ?t ?k = (if unat (drop_bit 20 virt) \<le> ?k \<and> ?k < unat (drop_bit 20 virt) + unat (drop_bit 20 len)
      then boot_pde (drop_bit 20 phy + word_of_nat (?k - unat (drop_bit 20 virt))) d else pde_of t ?k)"
    unfolding set_bootpgtbl_def by (rule pde_of_loop [OF assms])
  have p: "drop_bit 20 phy + word_of_nat (?k - unat (drop_bit 20 virt)) = drop_bit 20 va + (drop_bit 20 phy - drop_bit 20 virt)" if "unat (drop_bit 20 virt) \<le> ?k"
    using that by (simp add: of_nat_diff)
  have "push_bit 20 (drop_bit 20 phy + word_of_nat (?k - unat (drop_bit 20 virt))) OR va AND 0xFFFFF = va + push_bit 20 (drop_bit 20 phy - drop_bit 20 virt)"
    if "unat (drop_bit 20 virt) \<le> ?k" unfolding p [OF that] by (rule section_address)
  then show ?thesis unfolding m e k [symmetric] by (simp add: boot_pde_bits del: of_nat_diff)
qed

text \<open>
  C16: After the start-up code, with tables that were empty, exactly four ranges are mapped, all for the kernel only: the
  first megabyte at its own address and at \<^verbatim>\<open>KERNBASE\<close>, both cached; the gigabyte of the graphics processor at its own address
  and the registers of the devices at \<^verbatim>\<open>DEVSPACE\<close>, neither of them cached. Every other address faults.
\<close>

theorem boot_map_correct:
  "mmu (init_pgtbl \<lparr>kernel_pgtbl = \<lambda>_. 0, user_pgtbl = \<lambda>_. 0\<rparr>) va =
    (if va < 0x100000 then Some (va, True, AP_KO)
     else if 0x40000000 \<le> va \<and> va < KERNBASE then Some (va, False, AP_KO)
     else if KERNBASE \<le> va \<and> va < KERNBASE + 0x100000 then Some (va - KERNBASE, True, AP_KO)
     else if DEVSPACE \<le> va \<and> va < DEVSPACE + 0x1000000 then Some (va - DEVSPACE + PHYSIO, False, AP_KO)
     else None)"
proof -
  let ?z = "\<lparr>kernel_pgtbl = \<lambda>_. 0, user_pgtbl = \<lambda>_. 0\<rparr> :: boottbl"
  have z: "mmu ?z va = None" by (simp add: mmu_def)
  have d: "unat va div 1048576 < k \<longleftrightarrow> unat va < k * 1048576" "k \<le> unat va div 1048576 \<longleftrightarrow> k * 1048576 \<le> unat va" for k
    by (simp_all add: div_less_iff_less_mult less_eq_div_iff_mult_less_eq)
  show ?thesis unfolding init_pgtbl_def
    by (subst mmu_range, simp, subst mmu_range, simp, subst mmu_range, simp, subst mmu_range, simp)
      (simp add: z d word_less_nat_alt word_le_nat_alt div_eq_0_iff)
qed

end
