(* ===== verification/Start.thy ===== *)
theory Start
  imports Boot CString Trap Vm_Proofs
begin

unbundle bit_operations_syntax

text \<open>
  Start-up on four CPUs (\<^verbatim>\<open>start\<close> and \<^verbatim>\<open>load_pgtlb\<close> of \<^verbatim>\<open>source/start.c\<close>, \<^verbatim>\<open>source/cache.c\<close>) as interleaved steps: CPU 0 builds the
  page tables and releases the others, and every CPU sets up its control registers instruction by instruction. The stacks of the
  exception modes (\<^verbatim>\<open>stack_init\<close> of \<^verbatim>\<open>source/trap.c\<close>).
\<close>

section \<open>Control registers\<close>

datatype cpreg = ACTLR | DACR | TTBCR | TTBR0 | TTBR1 | SCTLR

text \<open>
  Instructions: writes of a register, bits set in one by a read and a write, maintenance operations with their coprocessor
  register numbers (\<^verbatim>\<open>CRn\<close>, \<^verbatim>\<open>CRm\<close>, \<^verbatim>\<open>opc2\<close>), the barriers, and the loops over the data cache in assembly.
\<close>

datatype cpins = MCR cpreg uint | ORR cpreg uint | MAINT nat nat nat | DSB | ISB | INVAL_DCACHE | CLEAN_DCACHE

text \<open>
  The registers of a CPU. After a change of the translation registers the translation buffer is stale; it is usable again once
  it has been invalidated and the two barriers have passed.
\<close>

datatype tlb = Stale | Invalidated | Complete | Usable

record cp15 =
  cp :: "cpreg \<Rightarrow> uint"
  tlb_state :: tlb

fun exec_ins :: "cpins \<Rightarrow> cp15 \<Rightarrow> cp15" where
  "exec_ins (MCR r v) s = s\<lparr>cp := (cp s)(r := v), tlb_state := (if r \<in> {DACR, TTBCR, TTBR0, TTBR1} then Stale else tlb_state s)\<rparr>"
| "exec_ins (ORR r v) s = s\<lparr>cp := (cp s)(r := cp s r OR v)\<rparr>"
| "exec_ins (MAINT n m op2) s = (if (n, m, op2) = (8, 7, 0) then s\<lparr>tlb_state := Invalidated\<rparr> else s)"
| "exec_ins DSB s = (if tlb_state s = Invalidated then s\<lparr>tlb_state := Complete\<rparr> else s)"
| "exec_ins ISB s = (if tlb_state s = Complete then s\<lparr>tlb_state := Usable\<rparr> else s)"
| "exec_ins INVAL_DCACHE s = s"
| "exec_ins CLEAN_DCACHE s = s"

definition flush_dcache_all :: "cpins list" where
  "flush_dcache_all = [CLEAN_DCACHE, DSB]"

definition invalidate_icache_all :: "cpins list" where
  "invalidate_icache_all = [MAINT 7 5 0, MAINT 7 5 6, DSB, ISB]"

definition invalidate_tlb :: "cpins list" where
  "invalidate_tlb = [MAINT 8 7 0, MAINT 8 6 0, MAINT 8 5 0, DSB, ISB]"

definition flush_all :: "cpins list" where
  "flush_all = invalidate_tlb @ [INVAL_DCACHE] @ invalidate_icache_all"

text \<open>\<^verbatim>\<open>32 - UADDR_BITS\<close> is 4.\<close>

definition load_pgtlb :: "uint \<Rightarrow> uint \<Rightarrow> cpins list" where
  "load_pgtlb kern_pgtbl usr_pgtbl =
     [ORR ACTLR (push_bit 6 1), MCR DACR 0x55555555, MCR TTBCR (32 - 28), MCR TTBR1 (kern_pgtbl OR 0x02 OR 0x08 OR 0x40),
      MCR TTBR0 (usr_pgtbl OR 0x02 OR 0x08 OR 0x40)] @ flush_all @
     [ORR SCTLR (1 OR push_bit 11 1 OR push_bit 12 1 OR push_bit 13 1)] @ flush_all"

section \<open>All CPUs\<close>

text \<open>What a CPU still has to do in \<^verbatim>\<open>start\<close>.\<close>

datatype phase =
    Build "(boottbl \<Rightarrow> boottbl) list"
  | Spin
  | Load "cpins list"
  | Clear
  | Main

record startst =
  phase :: "nat \<Rightarrow> phase"
  ctrl :: "nat \<Rightarrow> cp15"
  tables :: boottbl
  mpwait :: int
  lowmem :: "nat \<Rightarrow> byte"

definition boot_calls :: "(boottbl \<Rightarrow> boottbl) list" where
  "boot_calls =
     [set_bootpgtbl 0 0 INIT_KERN_SZ False, set_bootpgtbl KERNBASE 0 INIT_KERN_SZ False,
      set_bootpgtbl GPUMEMBASE GPUMEMBASE GPUMEMSIZE True, set_bootpgtbl DEVSPACE PHYSIO DEV_MEM_SZ True]"

text \<open>\<open>kp\<close> and \<open>up\<close> are the addresses of the two tables, \<open>edata\<close> and \<open>ebss\<close> those of the uninitialised data; the linker assigns them.\<close>

inductive start_step :: "uint \<Rightarrow> uint \<Rightarrow> nat \<Rightarrow> nat \<Rightarrow> startst \<Rightarrow> startst \<Rightarrow> bool" for kp up edata ebss where
  build: "phase s c = Build (f # fs) \<Longrightarrow>
    start_step kp up edata ebss s (s\<lparr>tables := f (tables s), phase := (phase s)(c := Build fs)\<rparr>)"
| release: "phase s c = Build [] \<Longrightarrow>
    start_step kp up edata ebss s (s\<lparr>mpwait := 0, phase := (phase s)(c := Load (load_pgtlb kp up))\<rparr>)"
| spin: "phase s c = Spin \<Longrightarrow> mpwait s \<noteq> 0 \<Longrightarrow> start_step kp up edata ebss s s"
| go: "phase s c = Spin \<Longrightarrow> mpwait s = 0 \<Longrightarrow>
    start_step kp up edata ebss s (s\<lparr>phase := (phase s)(c := Load (load_pgtlb kp up))\<rparr>)"
| ins: "phase s c = Load (i # is) \<Longrightarrow>
    start_step kp up edata ebss s (s\<lparr>ctrl := (ctrl s)(c := exec_ins i (ctrl s c)), phase := (phase s)(c := Load is)\<rparr>)"
| loaded: "phase s c = Load [] \<Longrightarrow>
    start_step kp up edata ebss s (s\<lparr>phase := (phase s)(c := if c = 0 then Clear else Main)\<rparr>)"
| clear_bss: "phase s c = Clear \<Longrightarrow>
    start_step kp up edata ebss s (s\<lparr>lowmem := memset edata 0 (int ebss - int edata) (lowmem s), phase := (phase s)(c := Main)\<rparr>)"

text \<open>The entry code has switched off the memory units.\<close>

definition start_init :: "boottbl \<Rightarrow> startst \<Rightarrow> bool" where
  "start_init t s \<longleftrightarrow> (\<forall>c. phase s c = (if c = 0 then Build boot_calls else Spin)) \<and> (\<forall>c. \<not> bit (cp (ctrl s c) SCTLR) 0)
     \<and> tables s = t \<and> mpwait s = 1"

definition start_reach :: "uint \<Rightarrow> uint \<Rightarrow> nat \<Rightarrow> nat \<Rightarrow> boottbl \<Rightarrow> startst \<Rightarrow> bool" where
  "start_reach kp up edata ebss t s \<longleftrightarrow> (\<exists>s0. start_init t s0 \<and> (start_step kp up edata ebss)\<^sup>*\<^sup>* s0 s)"

section \<open>Stacks of the exception modes\<close>

record modest = trapst +
  mode_sp :: "nat \<Rightarrow> uint \<Rightarrow> uint"

definition set_stk :: "uint \<Rightarrow> uint \<Rightarrow> ('z modest_scheme, unit) kop" where
  "set_stk mode a = kmod (\<lambda>s. s\<lparr>mode_sp := (mode_sp s)(this_cpu s := (mode_sp s (this_cpu s))(mode := a))\<rparr>)"

definition stack_init :: "('z modest_scheme, unit) kop" where
  "stack_init =
     kfor (\<lambda>mode.
       kbind alloc_page (\<lambda>stk.
       if stk = 0 then panic ''failed to alloc memory for irq stack'' else set_stk mode stk)) [0x11, 0x12, 0x17, 0x1B]"

end
