(* ===== verification/Kmain.thy ===== *)
theory Kmain
  imports Start
begin

text \<open>
  The start of the kernel on the first CPU (\<^verbatim>\<open>kmain\<close> of \<^verbatim>\<open>source/main.c\<close>) up to the scheduler. \<^verbatim>\<open>uartinit\<close> and \<^verbatim>\<open>timer3init\<close> set registers (\<^verbatim>\<open>Board\<close>), the request for
  the memory size is a mailbox message (\<^verbatim>\<open>Mailbox\<close>) whose answer is an argument; \<^verbatim>\<open>kmem_init\<close>, \<^verbatim>\<open>pinit\<close>, \<^verbatim>\<open>fileinit\<close> and \<^verbatim>\<open>iinit\<close> only name their locks, and
  \<^verbatim>\<open>ideinit\<close> notes where the linked-in disk image is; \<^verbatim>\<open>enable_interrupts\<close> and \<^verbatim>\<open>sti\<close> change the interrupt mask only.
\<close>

abbreviation (input) INIT_KERNMAP :: uint where "INIT_KERNMAP \<equiv> 0x100000"
abbreviation (input) PA_STOP :: uint where "PA_STOP \<equiv> 0x0C000000"

text \<open>
  \<open>kpd\<close> and \<open>kend\<close> are the addresses of \<^verbatim>\<open>_kernel_pgtbl\<close> and \<^verbatim>\<open>end\<close>, which the linker assigns. The memory between the end of the kernel and the
  first megabyte, which the boot tables map, becomes page tables; with them the rest of memory is mapped and handed to the allocator.
\<close>

definition kmain_mem :: "uint \<Rightarrow> uint \<Rightarrow> ('z vmem_scheme, unit) kop" where
  "kmain_mem kpd kend =
     kbind init_vmm (\<lambda>_.
     kbind (kpt_freerange (align_up kend PT_SZ) (p2v INIT_KERNMAP)) (\<lambda>_.
     kbind (paging_init kpd INIT_KERNMAP PA_STOP) (\<lambda>_.
     kmem_init2 (p2v INIT_KERNMAP) (p2v PA_STOP))))"

text \<open>
  The vectors are the first page of memory, mapped a second time at \<^verbatim>\<open>HVECTORS\<close>; the word written through that mapping is there.
\<close>

definition trap_init :: "uint \<Rightarrow> uint \<Rightarrow> ('z modest_scheme, unit) kop" where
  "trap_init kpd trap_reset =
     kbind (map_vectors kpd 0) (\<lambda>_.
     kbind (store (p2v 0 + 4 * 8) trap_reset) (\<lambda>_.
     stack_init))"

text \<open>Everything after the first messages.\<close>

definition kmain_init :: "uint \<Rightarrow> uint \<Rightarrow> uint \<Rightarrow> uint \<Rightarrow> uint \<Rightarrow> uint \<Rightarrow> uint \<Rightarrow> uint \<Rightarrow> uint \<Rightarrow> ('z modest_scheme, unit) kop" where
  "kmain_init kpd kend trap_reset tret fret init len err psr =
     kbind (kmain_mem kpd kend) (\<lambda>_.
     kbind (trap_init kpd trap_reset) (\<lambda>_.
     kbind binit (\<lambda>_.
     userinit console_devsw tret fret init len err psr)))"

text \<open>The answer to the request for the memory size: its base and size, or none.\<close>

definition kmain_hello :: "(uint \<times> uint) option \<Rightarrow> ('z consst_scheme, unit) kop" where
  "kmain_hello mp =
     (case mp of
        Some (base, sz) \<Rightarrow>
          kbind (cprintf (Some (txt_bytes ''MEMORY:'' @ [13, 10])) []) (\<lambda>_.
          kbind (cprintf (Some (txt_bytes ''Base address: 0x%x'' @ [13, 10])) [PInt base]) (\<lambda>_.
          cprintf (Some (txt_bytes ''Size: %d byte'' @ [13, 10])) [PInt sz]))
      | None \<Rightarrow> cprintf (Some (txt_bytes ''Mailbox error'' @ [13, 10])) [])"

definition kmain :: "(uint \<times> uint) option \<Rightarrow> uint \<Rightarrow> uint \<Rightarrow> uint \<Rightarrow> uint \<Rightarrow> uint \<Rightarrow> uint \<Rightarrow> uint \<Rightarrow> uint \<Rightarrow> uint \<Rightarrow>
    ('z modest_scheme, unit) kop" where
  "kmain mp kpd kend trap_reset tret fret init len err psr =
     kbind (kmod (\<lambda>s. s\<lparr>cpu_enabled := (cpu_enabled s)(0 := 1)\<rparr>)) (\<lambda>_.
     kbind consoleinit (\<lambda>_.
     kbind (kmain_hello mp) (\<lambda>_.
     kmain_init kpd kend trap_reset tret fret init len err psr)))"

text \<open>
  The other CPUs, when the first one has ended their wait for \<^verbatim>\<open>mpwait\<close>: they are off at first and take stacks for the exception modes of their own.
\<close>

definition mpmain :: "nat \<Rightarrow> ('z modest_scheme, unit) kop" where
  "mpmain cpunum = kbind (kmod (\<lambda>s. s\<lparr>cpu_enabled := (cpu_enabled s)(cpunum := 0)\<rparr>)) (\<lambda>_. stack_init)"

end
