(* ===== verification/Start_Proofs.thy ===== *)
theory Start_Proofs
  imports Start Proc_Proofs
begin

unbundle bit_operations_syntax

text \<open>
  Start-up is safe: no CPU turns its memory unit on before the tables are complete and its own registers and translation
  buffer are ready. The stacks of the exception modes are pages of their own.
\<close>

section \<open>The memory unit\<close>

text \<open>The registers that translation depends on, as \<^verbatim>\<open>mmu\<close> of \<^verbatim>\<open>Boot\<close> takes them for granted.\<close>

definition paged :: "uint \<Rightarrow> uint \<Rightarrow> cp15 \<Rightarrow> bool" where
  "paged kp up r \<longleftrightarrow> cp r TTBCR = 4 \<and> cp r TTBR1 = kp OR 0x4A \<and> cp r TTBR0 = up OR 0x4A \<and> cp r DACR = 0x55555555
     \<and> bit (cp r ACTLR) 6 \<and> tlb_state r \<noteq> Stale"

definition mmu_on :: "cp15 \<Rightarrow> bool" where
  "mmu_on r \<longleftrightarrow> bit (cp r SCTLR) 0"

lemma flush_keeps:
  assumes "set is \<subseteq> set flush_all"
  shows "cp (fold exec_ins is r) = cp r" and "tlb_state r \<noteq> Stale \<Longrightarrow> tlb_state (fold exec_ins is r) \<noteq> Stale"
proof -
  have "cp (fold exec_ins is r) = cp r \<and> (tlb_state r \<noteq> Stale \<longrightarrow> tlb_state (fold exec_ins is r) \<noteq> Stale)"
    using assms
  proof (induction "is" arbitrary: r)
    case (Cons i "is")
    have "cp (exec_ins i r) = cp r \<and> (tlb_state r \<noteq> Stale \<longrightarrow> tlb_state (exec_ins i r) \<noteq> Stale)"
      using Cons.prems by (auto simp: flush_all_def invalidate_tlb_def invalidate_icache_all_def split: if_splits)
    then show ?case using Cons.IH [of "exec_ins i r"] Cons.prems by auto
  qed simp
  then show "cp (fold exec_ins is r) = cp r" "tlb_state r \<noteq> Stale \<Longrightarrow> tlb_state (fold exec_ins is r) \<noteq> Stale" by auto
qed

text \<open>The instructions before the one that turns the unit on, and what they leave.\<close>

definition prepare :: "uint \<Rightarrow> uint \<Rightarrow> cpins list" where
  "prepare kp up =
     [ORR ACTLR (push_bit 6 1), MCR DACR 0x55555555, MCR TTBCR (32 - 28), MCR TTBR1 (kp OR 0x02 OR 0x08 OR 0x40),
      MCR TTBR0 (up OR 0x02 OR 0x08 OR 0x40)] @ flush_all"

definition turn_on :: cpins where
  "turn_on = ORR SCTLR (1 OR push_bit 11 1 OR push_bit 12 1 OR push_bit 13 1)"

lemma load_split: "load_pgtlb kp up = prepare kp up @ turn_on # flush_all"
  by (simp add: load_pgtlb_def prepare_def turn_on_def)

lemma prepare_off:
  assumes "set is \<subseteq> set (prepare kp up)"
  shows "cp (fold exec_ins is r) SCTLR = cp r SCTLR"
  using assms
proof (induction "is" arbitrary: r)
  case (Cons i "is")
  have "cp (exec_ins i r) SCTLR = cp r SCTLR"
    using Cons.prems by (auto simp: prepare_def flush_all_def invalidate_tlb_def invalidate_icache_all_def)
  then show ?case using Cons.IH [of "exec_ins i r"] Cons.prems by simp
qed simp

lemma prepared: "paged kp up (exec_ins turn_on (fold exec_ins (prepare kp up) r))"
proof -
  have "x OR 2 OR 8 OR 64 = x OR (0x4A :: uint)" for x by (simp add: or.assoc)
  moreover have "bit (x OR 64) 6" for x :: uint by (simp add: bit_simps)
  ultimately show ?thesis
    by (simp add: paged_def prepare_def turn_on_def flush_all_def invalidate_tlb_def invalidate_icache_all_def)
qed

lemma load_prefix:
  assumes "load_pgtlb kp up = pre @ is" and "\<not> mmu_on r" and "mmu_on (fold exec_ins pre r)"
  shows "paged kp up (fold exec_ins pre r)"
proof -
  consider ys where "prepare kp up = pre @ ys" | ys where "pre = prepare kp up @ turn_on # ys" "flush_all = ys @ is"
    using assms(1) unfolding load_split append_eq_append_conv2 by (auto simp: Cons_eq_append_conv)
  then show ?thesis
  proof cases
    case 1
    then have "set pre \<subseteq> set (prepare kp up)" by (metis set_append Un_upper1)
    then show ?thesis using prepare_off assms(2,3) by (simp add: mmu_on_def)
  next
    case 2
    have "set ys \<subseteq> set flush_all" unfolding 2(2) by simp
    then show ?thesis using flush_keeps [of ys] prepared [of kp up r] 2(1) by (simp add: paged_def)
  qed
qed

section \<open>The invariant\<close>

fun cpu_ok :: "uint \<Rightarrow> uint \<Rightarrow> boottbl \<Rightarrow> nat \<Rightarrow> startst \<Rightarrow> phase \<Rightarrow> bool" where
  "cpu_ok kp up t c s (Build fs) \<longleftrightarrow> c = 0 \<and> mpwait s \<noteq> 0 \<and> \<not> mmu_on (ctrl s c) \<and> fold (\<lambda>f. f) fs (tables s) = init_pgtbl t"
| "cpu_ok kp up t c s Spin \<longleftrightarrow> \<not> mmu_on (ctrl s c)"
| "cpu_ok kp up t c s (Load is) \<longleftrightarrow> mpwait s = 0 \<and> (\<exists>pre r. load_pgtlb kp up = pre @ is \<and> \<not> mmu_on r \<and> ctrl s c = fold exec_ins pre r)"
| "cpu_ok kp up t c s Clear \<longleftrightarrow> mpwait s = 0 \<and> (\<exists>r. \<not> mmu_on r \<and> ctrl s c = fold exec_ins (load_pgtlb kp up) r)"
| "cpu_ok kp up t c s Main \<longleftrightarrow> mpwait s = 0 \<and> (\<exists>r. \<not> mmu_on r \<and> ctrl s c = fold exec_ins (load_pgtlb kp up) r)"

definition start_inv :: "uint \<Rightarrow> uint \<Rightarrow> boottbl \<Rightarrow> startst \<Rightarrow> bool" where
  "start_inv kp up t s \<longleftrightarrow> (\<forall>c. cpu_ok kp up t c s (phase s c)) \<and> (mpwait s = 0 \<longrightarrow> tables s = init_pgtbl t)"

text \<open>A step of one CPU leaves the others as they were, when it does not release them and the tables do not change under them.\<close>

lemma cpu_ok_other:
  assumes "cpu_ok kp up t d s p" and "ctrl s' d = ctrl s d" and "mpwait s' = mpwait s" and "\<And>fs. p = Build fs \<Longrightarrow> tables s' = tables s"
  shows "cpu_ok kp up t d s' p"
  using assms by (cases p) auto

lemma start_inv_init: "start_init t s \<Longrightarrow> start_inv kp up t s"
  by (auto simp: start_init_def start_inv_def mmu_on_def boot_calls_def init_pgtbl_def)

lemma start_inv_step:
  assumes "start_step kp up edata ebss s s'" and "start_inv kp up t s"
  shows "start_inv kp up t s'"
  using assms
proof (cases rule: start_step.cases)
  case (build c f fs)
  then have c: "c = 0" "cpu_ok kp up t c s (Build (f # fs))" using assms(2) unfolding start_inv_def by (metis cpu_ok.simps(1))+
  have "cpu_ok kp up t d s' (phase s d)" if "d \<noteq> c" for d
  proof (rule cpu_ok_other [of _ _ _ _ s])
    show "cpu_ok kp up t d s (phase s d)" using assms(2) by (simp add: start_inv_def)
    then show "tables s' = tables s" if "phase s d = Build fs" for fs using that \<open>d \<noteq> c\<close> c(1) by simp
  qed (use build in simp_all)
  then show ?thesis using c build by (auto simp: start_inv_def)
next
  case (release c)
  then have c: "c = 0" "cpu_ok kp up t c s (Build [])" using assms(2) unfolding start_inv_def by (metis cpu_ok.simps(1))+
  have "cpu_ok kp up t d s' (phase s d)" if "d \<noteq> c" for d
  proof -
    have "cpu_ok kp up t d s (phase s d)" using assms(2) by (simp add: start_inv_def)
    then show ?thesis using that c release by (cases "phase s d") auto
  qed
  moreover have "cpu_ok kp up t c s' (Load (load_pgtlb kp up))"
    using c(2) release by (auto intro: exI [of _ "[]"])
  ultimately show ?thesis using c release by (auto simp: start_inv_def)
next
  case (ins c i "is")
  have "cpu_ok kp up t c s (Load (i # is))" using assms(2) ins unfolding start_inv_def by metis
  then obtain pre r where "mpwait s = 0" "load_pgtlb kp up = (pre @ [i]) @ is" "\<not> mmu_on r" "ctrl s c = fold exec_ins pre r" by auto
  then have "cpu_ok kp up t c s' (Load is)" using ins by (auto intro!: exI [of _ "pre @ [i]"] exI [of _ r])
  then show ?thesis using assms(2) ins cpu_ok_other [of kp up t _ s _ s'] by (auto simp: start_inv_def)
next
  case (go c)
  have "cpu_ok kp up t c s Spin" using assms(2) go unfolding start_inv_def by metis
  then have "cpu_ok kp up t c s' (Load (load_pgtlb kp up))" using go by (auto intro: exI [of _ "[]"])
  then show ?thesis using assms(2) go cpu_ok_other [of kp up t _ s _ s'] by (auto simp: start_inv_def)
next
  case (loaded c)
  have "cpu_ok kp up t c s (Load [])" using assms(2) loaded unfolding start_inv_def by metis
  then have "cpu_ok kp up t c s' (if c = 0 then Clear else Main)" using loaded by auto
  then show ?thesis using assms(2) loaded cpu_ok_other [of kp up t _ s _ s'] by (auto simp: start_inv_def)
next
  case (clear_bss c)
  have "cpu_ok kp up t c s Clear" using assms(2) clear_bss unfolding start_inv_def by metis
  then have "cpu_ok kp up t c s' Main" using clear_bss by auto
  then show ?thesis using assms(2) clear_bss cpu_ok_other [of kp up t _ s _ s'] by (auto simp: start_inv_def)
qed auto

text \<open>
  C17: start-up of all CPUs. In every state that any interleaving of the CPUs reaches, a CPU with its memory unit on
  translates with the complete boot tables: these are finished, its table registers and the split between them are
  set, domain checks and coherency are on, and its translation buffer has nothing from before.
\<close>

theorem start_mmu_safe:
  assumes "start_reach kp up edata ebss t s" and "mmu_on (ctrl s c)"
  shows "tables s = init_pgtbl t \<and> paged kp up (ctrl s c)"
proof -
  obtain s0 where s0: "start_init t s0" "(start_step kp up edata ebss)\<^sup>*\<^sup>* s0 s" using assms(1) by (auto simp: start_reach_def)
  from s0(2) have "start_inv kp up t s"
    by induction (use start_inv_init [OF s0(1)] start_inv_step in auto)
  then have i: "cpu_ok kp up t c s (phase s c)" "mpwait s = 0 \<Longrightarrow> tables s = init_pgtbl t" by (auto simp: start_inv_def)
  show ?thesis
    using i assms(2) load_prefix [of kp up] load_prefix [of kp up "load_pgtlb kp up" "[]"] by (cases "phase s c") auto
qed

section \<open>Stacks of the exception modes\<close>

lemma pt_inv_mode_sp [simp]: "pt_inv lo n N P (s\<lparr>mode_sp := x\<rparr>) = pt_inv lo n N P s"
proof -
  have "buddy_inv lo n N (s\<lparr>mode_sp := x\<rparr>) = buddy_inv lo n N s" "free_bytes lo n (s\<lparr>mode_sp := x\<rparr>) = free_bytes lo n s"
    by (rule alloc_view_cong; simp)+
  then show ?thesis by (simp add: pt_inv_def)
qed

lemma alloc_page_modes:
  fixes s :: "'z modest_scheme"
  assumes "alloc_page s = Ret a s'"
  shows "mode_sp s' = mode_sp s" and "this_cpu s' = this_cpu s"
  using alloc_page_vmore [OF assms] by (cases s; cases s'; simp)+

text \<open>\<open>own_pages\<close> says that the modes of a list have pages of their own.\<close>

definition own_pages :: "nat set \<Rightarrow> uint list \<Rightarrow> (uint \<Rightarrow> uint) \<Rightarrow> bool" where
  "own_pages P ms sp \<longleftrightarrow> (\<forall>m\<in>set ms. sp m \<noteq> 0 \<and> unat (sp m) mod 4096 = 0 \<and> extent (sp m) 12 \<inter> P = {})
     \<and> (\<forall>m\<in>set ms. \<forall>k\<in>set ms. m \<noteq> k \<longrightarrow> extent (sp m) 12 \<inter> extent (sp k) 12 = {})"

definition stack_for :: "uint \<Rightarrow> ('z modest_scheme, unit) kop" where
  "stack_for mode =
     kbind alloc_page (\<lambda>stk. if stk = 0 then panic ''failed to alloc memory for irq stack'' else set_stk mode stk)"

lemma stacks_run:
  assumes "pt_inv lo n N P s" and "distinct ms"
  shows "kfor stack_for ms s = Panic ''failed to alloc memory for irq stack''
    \<or> (\<exists>s'. kfor stack_for ms s = Ret () s' \<and> this_cpu s' = this_cpu s \<and> own_pages P ms (mode_sp s' (this_cpu s))
         \<and> (\<forall>m. m \<notin> set ms \<longrightarrow> mode_sp s' (this_cpu s) m = mode_sp s (this_cpu s) m))"
  using assms
proof (induction ms arbitrary: s P)
  case Nil
  then show ?case by (simp add: own_pages_def)
next
  case (Cons m ms)
  consider "alloc_page s = Ret 0 s"
    | r s1 where "alloc_page s = Ret r s1" "r \<noteq> 0" "unat r mod 4096 = 0" "extent r 12 \<inter> P = {}" "pt_inv lo n N (P \<union> extent r 12) s1"
    using alloc_page_spec [OF Cons.prems(1)] by (elim disjE exE conjE) auto
  then show ?case
  proof cases
    case 1
    then show ?thesis by (simp add: stack_for_def)
  next
    case 2
    note same = alloc_page_modes [OF 2(1)]
    define s2 where "s2 = s1\<lparr>mode_sp := (mode_sp s1)(this_cpu s1 := (mode_sp s1 (this_cpu s1))(m := r))\<rparr>"
    have run: "kfor stack_for (m # ms) s = kfor stack_for ms s2" using 2(1,2) by (simp add: stack_for_def set_stk_def s2_def)
    have s2: "this_cpu s2 = this_cpu s" "mode_sp s2 (this_cpu s) = (mode_sp s (this_cpu s))(m := r)"
      using same by (simp_all add: s2_def)
    have m: "m \<notin> set ms" "distinct ms" using Cons.prems(2) by simp_all
    have "pt_inv lo n N (P \<union> extent r 12) s2" using 2(5) by (simp add: s2_def)
    from Cons.IH [OF this m(2)] show ?thesis
    proof (elim disjE exE conjE)
      fix s' assume s': "kfor stack_for ms s2 = Ret () s'" "this_cpu s' = this_cpu s2" "own_pages (P \<union> extent r 12) ms (mode_sp s' (this_cpu s2))"
        "\<forall>k. k \<notin> set ms \<longrightarrow> mode_sp s' (this_cpu s2) k = mode_sp s2 (this_cpu s2) k"
      let ?sp = "mode_sp s' (this_cpu s)"
      have sp: "?sp m = r" "k \<notin> set (m # ms) \<Longrightarrow> ?sp k = mode_sp s (this_cpu s) k" for k using s'(4) m(1) s2 by auto
      have "own_pages P (m # ms) ?sp" using s'(3) sp(1) 2(2,3,4) s2(1) unfolding own_pages_def by (auto simp: Int_commute)
      then show ?thesis using s'(1,2) s2(1) sp(2) unfolding run by auto
    qed (use run in metis)
  qed
qed

text \<open>
  The stacks of the exception modes. \<^verbatim>\<open>stack_init\<close> panics when memory runs out; otherwise each mode has a page of its own,
  disjoint from the others and from all memory in use. The stack pointer is the first address of the page, though, so
  that the four words which the interrupt entry pushes (16 bytes below it) lie outside of the page.
\<close>

theorem stack_init_pages:
  assumes "pt_inv lo n N P s"
  shows "stack_init s = Panic ''failed to alloc memory for irq stack''
    \<or> (\<exists>s'. stack_init s = Ret () s' \<and> own_pages P [0x11, 0x12, 0x17, 0x1B] (mode_sp s' (this_cpu s))
         \<and> (\<forall>m\<in>{0x11, 0x12, 0x17, 0x1B}. let sp = mode_sp s' (this_cpu s) m in {unat sp - 16..<unat sp} \<inter> extent sp 12 = {}))"
proof -
  have "stack_init = kfor stack_for [0x11, 0x12, 0x17, 0x1B]" unfolding stack_init_def stack_for_def ..
  moreover have "{unat sp - 16..<unat sp} \<inter> extent sp 12 = {}" for sp by (auto simp: extent_def)
  moreover have "distinct [0x11, 0x12, 0x17, 0x1B :: uint]" by simp
  ultimately show ?thesis using stacks_run [OF assms] unfolding Let_def by metis
qed

section \<open>Examples\<close>

lemma run_build:
  "phase s c = Build fs \<Longrightarrow> (start_step kp up edata ebss)\<^sup>*\<^sup>* s (s\<lparr>tables := fold (\<lambda>f. f) fs (tables s), phase := (phase s)(c := Build [])\<rparr>)"
proof (induction fs arbitrary: s)
  case (Cons f fs)
  let ?s = "s\<lparr>tables := f (tables s), phase := (phase s)(c := Build fs)\<rparr>"
  have "start_step kp up edata ebss s ?s" using Cons.prems by (rule start_step.build)
  moreover have "(start_step kp up edata ebss)\<^sup>*\<^sup>* ?s (s\<lparr>tables := fold (\<lambda>f. f) (f # fs) (tables s), phase := (phase s)(c := Build [])\<rparr>)"
    using Cons.IH [of ?s] by (simp del: fun_upd_apply add: fun_upd_same)
  ultimately show ?case by (rule converse_rtranclp_into_rtranclp)
qed (simp add: fun_upd_idem)

lemma run_load:
  "phase s c = Load (xs @ ys) \<Longrightarrow>
     (start_step kp up edata ebss)\<^sup>*\<^sup>* s (s\<lparr>ctrl := (ctrl s)(c := fold exec_ins xs (ctrl s c)), phase := (phase s)(c := Load ys)\<rparr>)"
proof (induction xs arbitrary: s)
  case (Cons i xs)
  let ?s = "s\<lparr>ctrl := (ctrl s)(c := exec_ins i (ctrl s c)), phase := (phase s)(c := Load (xs @ ys))\<rparr>"
  have "start_step kp up edata ebss s ?s" using Cons.prems by (intro start_step.ins) simp
  moreover have "(start_step kp up edata ebss)\<^sup>*\<^sup>* ?s (s\<lparr>ctrl := (ctrl s)(c := fold exec_ins (i # xs) (ctrl s c)), phase := (phase s)(c := Load ys)\<rparr>)"
    using Cons.IH [of ?s] by (simp del: fun_upd_apply add: fun_upd_same)
  ultimately show ?case by (rule converse_rtranclp_into_rtranclp)
qed (simp add: fun_upd_idem)

definition ex_start :: startst where
  "ex_start = \<lparr>phase = \<lambda>c. if c = 0 then Build boot_calls else Spin, ctrl = \<lambda>_. \<lparr>cp = \<lambda>_. 0, tlb_state = Stale\<rparr>,
     tables = \<lparr>kernel_pgtbl = \<lambda>_. 0, user_pgtbl = \<lambda>_. 0\<rparr>, mpwait = 1, lowmem = \<lambda>_. 0\<rparr>"

lemma ex_start_runs:
  "\<exists>s. start_reach 0x4000 0x8000 0x9000 0xA000 (tables ex_start) s \<and> mmu_on (ctrl s 0)"
proof -
  let ?step = "start_step 0x4000 0x8000 0x9000 0xA000"
  define s1 where "s1 = ex_start\<lparr>tables := fold (\<lambda>f. f) boot_calls (tables ex_start), phase := (phase ex_start)(0 := Build [])\<rparr>"
  define s2 where "s2 = s1\<lparr>mpwait := 0, phase := (phase s1)(0 := Load (load_pgtlb 0x4000 0x8000))\<rparr>"
  define s3 where "s3 = s2\<lparr>ctrl := (ctrl s2)(0 := fold exec_ins (prepare 0x4000 0x8000 @ [turn_on]) (ctrl s2 0)), phase := (phase s2)(0 := Load flush_all)\<rparr>"
  have "?step\<^sup>*\<^sup>* ex_start s1" unfolding s1_def by (rule run_build) (simp add: ex_start_def)
  moreover have "?step s1 s2" unfolding s2_def by (rule start_step.release) (simp add: s1_def)
  moreover have "?step\<^sup>*\<^sup>* s2 s3" unfolding s3_def by (rule run_load) (simp add: s2_def load_split)
  ultimately have "?step\<^sup>*\<^sup>* ex_start s3" by auto
  moreover have "start_init (tables ex_start) ex_start" by (simp add: start_init_def ex_start_def)
  moreover have "mmu_on (ctrl s3 0)" by (simp add: s3_def mmu_on_def turn_on_def bit_simps)
  ultimately show ?thesis by (auto simp: start_reach_def)
qed

theorem start_mmu_safe_witness:
  "\<exists>s. start_reach 0x4000 0x8000 0x9000 0xA000 (tables ex_start) s \<and> mmu_on (ctrl s 0) \<and> paged 0x4000 0x8000 (ctrl s 0)"
  using ex_start_runs start_mmu_safe [where c = 0] by blast

theorem stack_init_pages_witness:
  "\<exists>s :: modest. stack_init s = Panic ''failed to alloc memory for irq stack''
     \<or> (\<exists>s'. stack_init s = Ret () s' \<and> own_pages {0x80000000..<0x80100000} [0x11, 0x12, 0x17, 0x1B] (mode_sp s' (this_cpu s)))"
proof -
  obtain k :: modest where f: "fresh_heap 7 (top_marks 0x80100000 0x8C000000) 0x80100000 0x8C000000 k"
    using boot_run [OF boot_ok_rpi2] by blast
  then obtain N where N: "buddy_inv 7 (top_marks 0x80100000 0x8C000000) N k" by (auto simp: fresh_heap_def Let_def)
  have "0x80100000 \<le> unat (km_start_heap k)" using f by (simp add: fresh_heap_def Let_def)
  then have d: "{0x80000000..<0x80100000} \<inter> free_bytes 7 (top_marks 0x80100000 0x8C000000) k = {}"
    using fresh_heap_free_bytes [OF f] by auto
  have "pt_inv 7 (top_marks 0x80100000 0x8C000000) N {0x80000000..<0x80100000} (k\<lparr>kpt_freelist := 0\<rparr>)"
    using N d unfolding pt_inv_def by (auto intro!: exI [of _ "[]"])
  from stack_init_pages [OF this] show ?thesis by blast
qed

end
