(* ===== verification/Kmain_Proofs.thy ===== *)
theory Kmain_Proofs
  imports Kmain Start_Proofs
begin

unbundle bit_operations_syntax

text \<open>
  The kernel's own mappings and the state of the allocators after start-up.
\<close>

section \<open>The memory of the kernel's page tables\<close>

text \<open>
  A stage of the mapping of memory: \<open>k\<close> pages are mapped; the directory at \<open>kp\<close> has the tables \<open>ts\<close>, in order, and their entries are those of
  the first \<open>k\<close> pages above the first megabyte; the tables \<open>xs\<close> are free. All tables are aligned blocks between \<open>lo\<close> and the first megabyte, and nothing but
  them and the entries of the directory has changed since \<open>m0\<close>.
\<close>

definition pt_blocks :: "nat \<Rightarrow> uint list \<Rightarrow> bool" where
  "pt_blocks lo xs \<longleftrightarrow> distinct xs \<and> (\<forall>x\<in>set xs. unat x mod 1024 = 0 \<and> lo \<le> unat x \<and> unat x + 1024 \<le> 0x80100000)"

definition kpte :: "nat \<Rightarrow> nat \<Rightarrow> uint" where
  "kpte k i = (if i < k then mk_pte (word_of_nat (0x100000 + i * 4096)) AP_KU else 0)"

definition kmapped :: "nat \<Rightarrow> nat \<Rightarrow> cmem \<Rightarrow> nat \<Rightarrow> uint list \<Rightarrow> uint list \<Rightarrow> uint \<Rightarrow> cmem \<Rightarrow> bool" where
  "kmapped kp lo m0 k ts xs fl m \<longleftrightarrow> pt_blocks lo (ts @ xs) \<and> kpt_chain m fl xs
     \<and> (\<forall>i<length ts. ld32 m (kp + 4 * (0x801 + i)) = v2p (ts ! i) OR 1)
     \<and> (\<forall>i<length ts. \<forall>j<256. ld32 m (unat (ts ! i) + 4 * j) = kpte k (i * 256 + j))
     \<and> (\<forall>a. a \<notin> {lo..<0x80100000} \<union> {kp + 4 * 0x801..<kp + 4 * (0x801 + length ts)} \<longrightarrow> m a = m0 a)"

lemma pt_blocksD:
  assumes "pt_blocks lo xs" and "x \<in> set xs"
  shows "unat x mod 1024 = 0" and "lo \<le> unat x" and "unat x + 1024 \<le> 0x80100000"
  using assms by (auto simp: pt_blocks_def)

lemma pt_blocks_apart:
  assumes "pt_blocks lo xs" and "x \<in> set xs" and "y \<in> set xs" and "x \<noteq> y"
  shows "unat x + 1024 \<le> unat y \<or> unat y + 1024 \<le> unat x"
proof -
  have "1024 dvd unat x" "1024 dvd unat y" using pt_blocksD(1) [OF assms(1)] assms(2,3) by (auto simp: mod_eq_0_iff_dvd)
  then obtain i j where ij: "unat x = 1024 * i" "unat y = 1024 * j" by (elim dvdE)
  then have "i \<noteq> j" using assms(4) by (auto simp: word_unat_eq_iff)
  then show ?thesis unfolding ij by arith
qed

text \<open>Taking the first free block for the next entry of the directory.\<close>

lemma kmapped_take:
  assumes k: "kmapped kp lo m0 (256 * length ts) ts (y # ys) fl m" and kp: "kp + 16384 \<le> lo" and n: "length ts < 191"
  shows "kmapped kp lo m0 (256 * length ts) (ts @ [y]) ys (ld32 m (unat y))
    (store32 (kp + 4 * (0x801 + length ts)) (v2p y OR 1) (fill 0 (unat y) 1024 m))"
proof -
  let ?p = "kp + 4 * (0x801 + length ts)" and ?m = "store32 (kp + 4 * (0x801 + length ts)) (v2p y OR 1) (fill 0 (unat y) 1024 m)"
  have b: "pt_blocks lo (ts @ y # ys)" and c: "kpt_chain m fl (y # ys)" using k by (auto simp: kmapped_def)
  note y = pt_blocksD [OF b, of y]
  have p: "?p + 4 \<le> lo" using kp n by simp
  have new: "ld32 ?m q = ld32 m q" if "lo \<le> q" "q + 4 \<le> unat y \<or> unat y + 1024 \<le> q" for q
    using that p by (simp add: ld32_store32_other ld32_fill_other)
  have apart: "unat x + 1024 \<le> unat y \<or> unat y + 1024 \<le> unat x" if "x \<in> set ts \<union> set ys" for x
    using pt_blocks_apart [OF b, of x y] that b by (auto simp: pt_blocks_def)
  have "kpt_chain ?m (ld32 m (unat y)) ys"
  proof (rule kpt_chain_cong)
    show "kpt_chain m (ld32 m (unat y)) ys" using c by simp
    show "?m a = m a" if "x \<in> set ys" "a \<in> extent x 10" for x a
      using that apart [of x] pt_blocksD(2) [OF b, of x] p by (auto simp: extent_def store32_other fill_def)
  qed
  moreover have "ld32 ?m (kp + 4 * (0x801 + i)) = v2p ((ts @ [y]) ! i) OR 1" if "i < length (ts @ [y])" for i
  proof (cases "i = length ts")
    case False
    then have "i < length ts" using that by simp
    then show ?thesis using k p y by (simp add: kmapped_def nth_append ld32_store32_other ld32_fill_other)
  qed simp
  moreover have "ld32 ?m (unat ((ts @ [y]) ! i) + 4 * j) = kpte (256 * length ts) (i * 256 + j)" if "i < length (ts @ [y])" "j < 256" for i j
  proof (cases "i = length ts")
    case True
    then show ?thesis using that(2) p y by (simp add: ld32_store32_other ld32_fill0 kpte_def)
  next
    case False
    then have i: "i < length ts" using that by simp
    have "ld32 ?m (unat (ts ! i) + 4 * j) = ld32 m (unat (ts ! i) + 4 * j)"
      by (rule new) (use i that(2) apart [of "ts ! i"] pt_blocksD(2) [OF b, of "ts ! i"] in auto)
    then show ?thesis using k i that(2) by (simp add: kmapped_def nth_append)
  qed
  moreover have "?m a = m0 a" if "a \<notin> {lo..<0x80100000} \<union> {kp + 4 * 0x801..<kp + 4 * (0x801 + length (ts @ [y]))}" for a
    using that k y by (auto simp: kmapped_def store32_other fill_def)
  ultimately show ?thesis using b unfolding kmapped_def by simp
qed

text \<open>Writing the entry of the next page.\<close>

lemma ld32_slot: "h \<noteq> j \<Longrightarrow> ld32 (store32 (t + 4 * j) v m) (t + 4 * h) = ld32 m (t + 4 * h)" for h j :: nat
  by (rule ld32_store32_other) arith

lemma kmapped_put:
  assumes k: "kmapped kp lo m0 k ts xs fl m" and kp: "kp + 16384 \<le> lo" and n: "k < 256 * length ts" "length ts \<le> 191"
  shows "kmapped kp lo m0 (Suc k) ts xs fl (store32 (unat (ts ! (k div 256)) + 4 * (k mod 256)) (mk_pte (word_of_nat (0x100000 + k * 4096)) AP_KU) m)"
proof -
  let ?i = "k div 256" and ?j = "k mod 256"
  let ?m = "store32 (unat (ts ! ?i) + 4 * ?j) (mk_pte (word_of_nat (0x100000 + k * 4096)) AP_KU) m"
  have b: "pt_blocks lo (ts @ xs)" using k by (simp add: kmapped_def)
  have i: "?i < length ts" and j: "?j < 256" using n by (simp_all add: less_mult_imp_div_less mult.commute)
  note t = pt_blocksD [OF b, of "ts ! ?i"]
  have ti: "ts ! ?i \<in> set (ts @ xs)" using i by simp
  have apart: "unat x + 1024 \<le> unat (ts ! ?i) \<or> unat (ts ! ?i) + 1024 \<le> unat x" if "x \<in> set (ts @ xs)" "x \<noteq> ts ! ?i" for x
    using pt_blocks_apart [OF b that(1) ti that(2)] .
  have "kpt_chain ?m fl xs"
  proof (rule kpt_chain_cong)
    show "kpt_chain m fl xs" using k by (simp add: kmapped_def)
    show "?m a = m a" if "x \<in> set xs" "a \<in> extent x 10" for x a
    proof -
      have "ts ! ?i \<in> set ts" using i by simp
      then have "x \<noteq> ts ! ?i" using b that(1) by (auto simp: pt_blocks_def)
      then show ?thesis using that apart [of x] j by (auto simp: extent_def intro!: store32_other)
    qed
  qed
  moreover have "ld32 ?m (kp + 4 * (0x801 + l)) = v2p (ts ! l) OR 1" if "l < length ts" for l
    using k that t(2) i kp n(2) by (simp add: kmapped_def ld32_store32_other)
  moreover have "ld32 ?m (unat (ts ! l) + 4 * h) = kpte (Suc k) (l * 256 + h)" if l: "l < length ts" and h: "h < 256" for l h
  proof (cases "l = ?i \<and> h = ?j")
    case True
    then show ?thesis by (simp add: kpte_def)
  next
    case False
    then have ne: "l * 256 + h \<noteq> k" using h by auto
    have "ld32 ?m (unat (ts ! l) + 4 * h) = ld32 m (unat (ts ! l) + 4 * h)"
    proof (cases "l = ?i")
      case True
      then show ?thesis using False by (simp add: ld32_slot)
    next
      case False
      then have "ts ! l \<noteq> ts ! ?i" using b i l by (simp add: pt_blocks_def nth_eq_iff_index_eq)
      then show ?thesis using apart [of "ts ! l"] l h j by (intro ld32_store32_other) auto
    qed
    then show ?thesis using k l h ne by (simp add: kmapped_def kpte_def less_Suc_eq)
  qed
  moreover have "?m a = m0 a" if "a \<notin> {lo..<0x80100000} \<union> {kp + 4 * 0x801..<kp + 4 * (0x801 + length ts)}" for a
  proof -
    have "a < unat (ts ! ?i) + 4 * ?j \<or> unat (ts ! ?i) + 4 * ?j + 4 \<le> a" using that t(2,3) i j by auto
    then show ?thesis using that k by (simp add: kmapped_def store32_other)
  qed
  ultimately show ?thesis using b unfolding kmapped_def by simp
qed

section \<open>Mapping memory\<close>

text \<open>The addresses of the \<open>k\<close>-th page above the first megabyte.\<close>

definition kva :: "nat \<Rightarrow> uint" where
  "kva k = 0x80100000 + word_of_nat (k * 4096)"

lemma unat_kva: "k < 48896 \<Longrightarrow> unat (kva k) = 0x80100000 + k * 4096"
  by (simp add: kva_def unat_word_ariths unat_of_nat)

lemma kva_index:
  assumes "k < 48896"
  shows "unat (PDE_IDX (kva k)) = 0x801 + k div 256" and "unat (PTE_IDX (kva k)) = k mod 256"
proof -
  have u: "unat (kva k) div 4096 = 0x80100 + k" using unat_kva [OF assms] by (simp add: div_mult_self2 [symmetric])
  have "unat (kva k) div 2 ^ 20 = (0x80100 + k) div 256" unfolding u [symmetric] by (simp add: div_mult2_eq [symmetric])
  also have "\<dots> = 0x801 + k div 256" using div_mult_self2 [of 256 k "0x801"] by (simp add: add.commute)
  finally show "unat (PDE_IDX (kva k)) = 0x801 + k div 256" by (simp add: unat_PDE_IDX)
  have "(0x80100 + k) mod 256 = k mod 256" using mod_mult_self2 [of k 256 "0x801"] by (simp add: add.commute)
  then show "unat (PTE_IDX (kva k)) = k mod 256" by (simp add: unat_PTE_IDX u)
qed

lemma kva_Suc: "kva k + 0x1000 = kva (Suc k)"
  by (simp add: kva_def algebra_simps)

text \<open>The walk to the page finds its table, or takes the next free one.\<close>

definition kdir :: "uint \<Rightarrow> nat \<Rightarrow> cmem \<Rightarrow> bool" where
  "kdir kpd lo m \<longleftrightarrow> unat kpd + 16384 \<le> lo \<and> 0 < lo \<and> lo \<le> 0x80100000 \<and> (\<forall>i<191. ld32 m (unat kpd + 4 * (0x801 + i)) AND 3 = 0)"

lemma unat_kpde:
  assumes "kdir kpd lo m0" and "k < 48896"
  shows "unat (kpd + 4 * PDE_IDX (kva k)) = unat kpd + 4 * (0x801 + k div 256)"
proof -
  have "k div 256 < 191" using assms(2) by (simp add: less_mult_imp_div_less)
  then have "unat (4 * PDE_IDX (kva k)) = 4 * (0x801 + k div 256)" using kva_index(1) [OF assms(2)] by (simp add: unat_word_ariths)
  then show ?thesis using assms(1) \<open>k div 256 < 191\<close> by (simp add: unat_word_ariths kdir_def)
qed

lemma unat_kslot:
  assumes "pt_blocks lo xs" and "t \<in> set xs" and "k < 48896"
  shows "unat (t + 4 * PTE_IDX (kva k)) = unat t + 4 * (k mod 256)"
  using unat_entry [OF pt_blocksD(1) [OF assms(1,2)], of "PTE_IDX (kva k)"] kva_index(2) [OF assms(3)] by simp

lemma kwalk_have:
  assumes d: "kdir kpd lo m0" and k: "kmapped (unat kpd) lo m0 k ts xs (kpt_freelist s) (pm s)" "k < 256 * length ts" "length ts \<le> 191"
  shows "walkpgdir kpd (kva k) True s = Ret (ts ! (k div 256) + 4 * PTE_IDX (kva k)) s"
proof -
  have i: "k div 256 < length ts" using k by (simp add: less_mult_imp_div_less mult.commute)
  have "ld32 (pm s) (unat (kpd + 4 * PDE_IDX (kva k))) = v2p (ts ! (k div 256)) OR 1"
    using unat_kpde [OF d, of k] k i by (simp add: kmapped_def)
  moreover have "unat (ts ! (k div 256)) mod 1024 = 0" using pt_blocksD(1) [of lo "ts @ xs" "ts ! (k div 256)"] k i by (simp add: kmapped_def)
  ultimately show ?thesis using new_pde [of "ts ! (k div 256)"] by (simp add: walkpgdir_def Let_def load_def)
qed

lemma kwalk_take:
  assumes d: "kdir kpd lo m0" and k: "kmapped (unat kpd) lo m0 (256 * length ts) ts (y # ys) (kpt_freelist s) (pm s)" "length ts < 191"
  shows "\<exists>s'. walkpgdir kpd (kva (256 * length ts)) True s = Ret (y + 4 * PTE_IDX (kva (256 * length ts))) s'
    \<and> kmapped (unat kpd) lo m0 (256 * length ts) (ts @ [y]) ys (kpt_freelist s') (pm s')
    \<and> s' = s\<lparr>pm := pm s', kpt_freelist := kpt_freelist s'\<rparr>"
proof -
  let ?k = "256 * length ts"
  define s' where "s' = s\<lparr>kpt_freelist := ld32 (pm s) (unat y),
    pm := store32 (unat kpd + 4 * (0x801 + length ts)) (v2p y OR 1) (fill 0 (unat y) 1024 (pm s))\<rparr>"
  have y: "kpt_freelist s = y" "y \<noteq> 0" using k by (auto simp: kmapped_def)
  have p: "unat (kpd + 4 * PDE_IDX (kva ?k)) = unat kpd + 4 * (0x801 + length ts)" using unat_kpde [OF d, of ?k] k by simp
  have "ld32 (pm s) (unat kpd + 4 * (0x801 + length ts)) = ld32 m0 (unat kpd + 4 * (0x801 + length ts))"
    by (rule ld32_cong) (use k d in \<open>auto simp: kmapped_def kdir_def\<close>)
  then have "ld32 (pm s) (unat kpd + 4 * (0x801 + length ts)) AND 3 = 0" using d k(2) by (simp add: kdir_def)
  moreover have "fill 0 a n (fill 0 a n m) = fill 0 a n m" for a n m by (auto simp: fill_def)
  ultimately have "walkpgdir kpd (kva ?k) True s = Ret (y + 4 * PTE_IDX (kva ?k)) s'"
    using y memset0_fill [of "unat y" 1024] by (simp add: walkpgdir_def Let_def load_def p kpt_alloc_def zero_mem_def store_def s'_def)
  moreover have "kmapped (unat kpd) lo m0 ?k (ts @ [y]) ys (kpt_freelist s') (pm s')"
    using kmapped_take [OF k(1) _ k(2)] d by (simp add: s'_def kdir_def)
  ultimately show ?thesis by (auto simp: s'_def)
qed

text \<open>A stage as a predicate on states: the next page to map is \<open>k\<close> and the blocks taken from \<open>bs\<close> are as many as the pages before it need.\<close>

definition kstage :: "uint \<Rightarrow> nat \<Rightarrow> 'z vmem_scheme \<Rightarrow> uint list \<Rightarrow> nat \<Rightarrow> 'z vmem_scheme \<Rightarrow> bool" where
  "kstage kpd lo s0 bs k s \<longleftrightarrow>
     kmapped (unat kpd) lo (pm s0) k (take ((k + 255) div 256) bs) (drop ((k + 255) div 256) bs) (kpt_freelist s) (pm s)
     \<and> s = s0\<lparr>pm := pm s, kpt_freelist := kpt_freelist s\<rparr>"

lemma kstage_write:
  assumes d: "kdir kpd lo (pm s0)" and st: "kmapped (unat kpd) lo (pm s0) k ts xs (kpt_freelist s) (pm s)"
    and k: "k < 48896" "k < 256 * length ts" "length ts \<le> 191"
  shows "ts ! (k div 256) + 4 * PTE_IDX (kva k) \<noteq> 0" and "load (ts ! (k div 256) + 4 * PTE_IDX (kva k)) s = Ret 0 s"
    and "store (ts ! (k div 256) + 4 * PTE_IDX (kva k)) (mk_pte (word_of_nat (0x100000 + k * 4096)) AP_KU) s
      = Ret () (s\<lparr>pm := store32 (unat (ts ! (k div 256)) + 4 * (k mod 256)) (mk_pte (word_of_nat (0x100000 + k * 4096)) AP_KU) (pm s)\<rparr>)"
proof -
  have i: "k div 256 < length ts" using k by (simp add: less_mult_imp_div_less mult.commute)
  have b: "pt_blocks lo (ts @ xs)" using st by (simp add: kmapped_def)
  have t: "ts ! (k div 256) \<in> set (ts @ xs)" using i by simp
  note u = unat_kslot [OF b t k(1)]
  have "0 < unat (ts ! (k div 256) + 4 * PTE_IDX (kva k))" using u pt_blocksD(2) [OF b t] d by (simp add: kdir_def)
  then show "ts ! (k div 256) + 4 * PTE_IDX (kva k) \<noteq> 0" by auto
  have "ld32 (pm s) (unat (ts ! (k div 256)) + 4 * (k mod 256)) = kpte k (k div 256 * 256 + k mod 256)"
    using st i by (simp add: kmapped_def del: div_mult_mod_eq)
  then show "load (ts ! (k div 256) + 4 * PTE_IDX (kva k)) s = Ret 0 s" by (simp add: load_def u kpte_def)
  show "store (ts ! (k div 256) + 4 * PTE_IDX (kva k)) (mk_pte (word_of_nat (0x100000 + k * 4096)) AP_KU) s
      = Ret () (s\<lparr>pm := store32 (unat (ts ! (k div 256)) + 4 * (k mod 256)) (mk_pte (word_of_nat (0x100000 + k * 4096)) AP_KU) (pm s)\<rparr>)"
    by (simp only: store_def u kmod_def)
qed

lemma div_up: "(k + 255) div 256 = (if k mod 256 = 0 then k div 256 else Suc (k div 256))" for k :: nat
proof -
  define q r where "q = k div 256" and "r = k mod 256"
  have k: "k = q * 256 + r" and "r < 256" by (simp_all add: q_def r_def)
  then show ?thesis unfolding q_def [symmetric] r_def [symmetric] by (intro div_nat_eqI) auto
qed

lemma less_div_up: "k < 256 * Suc (k div 256)" for k :: nat
proof -
  have "k mod 256 < 256" by simp
  then show ?thesis using div_mult_mod_eq [of k 256] unfolding mult_Suc_right by linarith
qed

lemma kstage_walk:
  fixes s :: "'z vmem_scheme"
  assumes d: "kdir kpd lo (pm s0)" and st: "kstage kpd lo s0 bs k s" and k: "k < 48896" "191 \<le> length bs"
  shows "\<exists>s1. walkpgdir kpd (kva k) True s = Ret (bs ! (k div 256) + 4 * PTE_IDX (kva k)) s1
    \<and> kmapped (unat kpd) lo (pm s0) k (take (Suc (k div 256)) bs) (drop (Suc (k div 256)) bs) (kpt_freelist s1) (pm s1)
    \<and> s1 = s0\<lparr>pm := pm s1, kpt_freelist := kpt_freelist s1\<rparr>"
proof (cases "k mod 256 = 0")
  case False
  then have n: "(k + 255) div 256 = Suc (k div 256)" by (simp add: div_up)
  have "k div 256 < 191" using k(1) by (simp add: less_mult_imp_div_less)
  moreover note less_div_up [of k]
  ultimately have "walkpgdir kpd (kva k) True s = Ret (take (Suc (k div 256)) bs ! (k div 256) + 4 * PTE_IDX (kva k)) s"
    using st k(2) n by (intro kwalk_have [OF d]) (auto simp: kstage_def)
  then show ?thesis using st n by (auto simp: kstage_def)
next
  case True
  then obtain i where i: "k = 256 * i" by auto
  then have n: "(k + 255) div 256 = i" "k div 256 = i" and l: "i < 191" using k(1) by auto
  then have bs: "drop i bs = bs ! i # drop (Suc i) bs" "length (take i bs) = i" using k(2) by (simp_all add: Cons_nth_drop_Suc)
  have "kmapped (unat kpd) lo (pm s0) (256 * length (take i bs)) (take i bs) (bs ! i # drop (Suc i) bs) (kpt_freelist s) (pm s)"
    using st bs unfolding kstage_def by (simp add: n i)
  from kwalk_take [OF d this] l bs(2) i obtain s1 where
    "walkpgdir kpd (kva k) True s = Ret (bs ! i + 4 * PTE_IDX (kva k)) s1"
    "kmapped (unat kpd) lo (pm s0) k (take i bs @ [bs ! i]) (drop (Suc i) bs) (kpt_freelist s1) (pm s1)"
    "s1 = s\<lparr>pm := pm s1, kpt_freelist := kpt_freelist s1\<rparr>" by auto
  moreover have "take i bs @ [bs ! i] = take (Suc i) bs" using l k(2) by (simp add: take_Suc_conv_app_nth)
  moreover have "s = s0\<lparr>pm := pm s, kpt_freelist := kpt_freelist s\<rparr>" using st by (simp add: kstage_def)
  ultimately show ?thesis unfolding n(2) by (intro exI [of _ s1]) (cases s0; cases s; cases s1; simp)
qed

text \<open>One round of the loop of \<^verbatim>\<open>mappages\<close>.\<close>

lemma map_page:
  fixes s :: "'z vmem_scheme"
  assumes d: "kdir kpd lo (pm s0)" and l: "191 \<le> length bs" and st: "kstage kpd lo s0 bs k s" and k: "k < 48896"
  shows "\<exists>s'. kstage kpd lo s0 bs (Suc k) s' \<and> map_loop n kpd (kva k) (word_of_nat (0x100000 + k * 4096)) AP_KU s =
    (case n of 0 \<Rightarrow> Ret 0 s' | Suc m \<Rightarrow> map_loop m kpd (kva (Suc k)) (word_of_nat (0x100000 + Suc k * 4096)) AP_KU s')"
proof -
  let ?ts = "take (Suc (k div 256)) bs" and ?e = "mk_pte (word_of_nat (0x100000 + k * 4096)) AP_KU"
  obtain s1 where w: "walkpgdir kpd (kva k) True s = Ret (bs ! (k div 256) + 4 * PTE_IDX (kva k)) s1"
    and m: "kmapped (unat kpd) lo (pm s0) k ?ts (drop (Suc (k div 256)) bs) (kpt_freelist s1) (pm s1)"
    and s1: "s1 = s0\<lparr>pm := pm s1, kpt_freelist := kpt_freelist s1\<rparr>"
    using kstage_walk [OF d st k l] by blast
  have "k div 256 < 191" using k by (simp add: less_mult_imp_div_less)
  then have len: "length ?ts = Suc (k div 256)" "Suc (k div 256) \<le> 191" using l by auto
  have nth: "?ts ! (k div 256) = bs ! (k div 256)" by simp
  have kl: "k < 256 * length ?ts" "length ?ts \<le> 191" using less_div_up [of k] len by simp_all
  note wr = kstage_write [OF d m k kl, unfolded nth]
  define s' where "s' = s1\<lparr>pm := store32 (unat (bs ! (k div 256)) + 4 * (k mod 256)) ?e (pm s1)\<rparr>"
  have "(Suc k + 255) div 256 = Suc (k div 256)" using div_add_self2 [of 256 k] by simp
  moreover have "kmapped (unat kpd) lo (pm s0) (Suc k) ?ts (drop (Suc (k div 256)) bs) (kpt_freelist s') (pm s')"
    using kmapped_put [OF m _ kl, unfolded nth] d by (simp add: s'_def kdir_def)
  moreover have "s' = s0\<lparr>pm := pm s', kpt_freelist := kpt_freelist s'\<rparr>" using s1 by (cases s0; cases s1) (simp add: s'_def)
  ultimately have "kstage kpd lo s0 bs (Suc k) s'" unfolding kstage_def by simp
  moreover have "map_loop n kpd (kva k) (word_of_nat (0x100000 + k * 4096)) AP_KU s =
      (case n of 0 \<Rightarrow> Ret 0 s' | Suc m \<Rightarrow> map_loop m kpd (kva (Suc k)) (word_of_nat (0x100000 + Suc k * 4096)) AP_KU s')"
    using w wr by (subst map_loop.simps) (simp add: s'_def kva_Suc algebra_simps split: nat.split)
  ultimately show ?thesis by blast
qed

lemma map_loop_kernel:
  fixes s :: "'z vmem_scheme"
  assumes d: "kdir kpd lo (pm s0)" and l: "191 \<le> length bs" and st: "kstage kpd lo s0 bs k s" and n: "k + n = 48895"
  shows "\<exists>s'. map_loop n kpd (kva k) (word_of_nat (0x100000 + k * 4096)) AP_KU s = Ret 0 s' \<and> kstage kpd lo s0 bs 48896 s'"
  using st n
proof (induction n arbitrary: k s)
  case (0 k s)
  then obtain s' where "map_loop 0 kpd (kva k) (word_of_nat (0x100000 + k * 4096)) AP_KU s = Ret 0 s'" "kstage kpd lo s0 bs (Suc k) s'"
    using map_page [OF d l 0(1), of 0] by (auto simp: kreturn_def)
  then show ?case using 0(2) by auto
next
  case (Suc n k s)
  then obtain s' where "map_loop (Suc n) kpd (kva k) (word_of_nat (0x100000 + k * 4096)) AP_KU s
      = map_loop n kpd (kva (Suc k)) (word_of_nat (0x100000 + Suc k * 4096)) AP_KU s'" "kstage kpd lo s0 bs (Suc k) s'"
    using map_page [OF d l Suc(2), of "Suc n"] by auto
  then show ?case using Suc.IH [of "Suc k" s'] Suc.prems(2) by auto
qed

section \<open>The list of free tables\<close>

lemma kpt_put_chain:
  assumes "pt_blocks lo (y # xs)" and "0 < lo" and "kpt_chain (pm s) (kpt_freelist s) xs"
  shows "kpt_put y s = Ret () (s\<lparr>pm := store32 (unat y) (kpt_freelist s) (pm s), kpt_freelist := y\<rparr>)"
    and "kpt_chain (store32 (unat y) (kpt_freelist s) (pm s)) y (y # xs)"
proof -
  show "kpt_put y s = Ret () (s\<lparr>pm := store32 (unat y) (kpt_freelist s) (pm s), kpt_freelist := y\<rparr>)"
    by (simp add: kpt_put_def store_def)
  have "kpt_chain (store32 (unat y) (kpt_freelist s) (pm s)) (kpt_freelist s) xs"
  proof (rule kpt_chain_cong [OF assms(3)])
    show "store32 (unat y) (kpt_freelist s) (pm s) a = pm s a" if "x \<in> set xs" "a \<in> extent x 10" for x a
    proof (rule store32_other)
      have "x \<noteq> y" using assms(1) that(1) by (auto simp: pt_blocks_def)
      then show "a < unat y \<or> unat y + 4 \<le> a" using that pt_blocks_apart [OF assms(1), of x y] by (auto simp: extent_def)
    qed
  qed
  moreover have "y \<noteq> 0" using pt_blocksD(2) [OF assms(1), of y] assms(2) by auto
  ultimately show "kpt_chain (store32 (unat y) (kpt_freelist s) (pm s)) y (y # xs)" by simp
qed

lemma kfor_kpt_put:
  fixes s :: "'z vmem_scheme"
  assumes "pt_blocks lo (rev bs @ xs)" and "0 < lo" and "kpt_chain (pm s) (kpt_freelist s) xs"
  shows "\<exists>s'. kfor kpt_put bs s = Ret () s' \<and> kpt_chain (pm s') (kpt_freelist s') (rev bs @ xs)
    \<and> s' = s\<lparr>pm := pm s', kpt_freelist := kpt_freelist s'\<rparr> \<and> (\<forall>a. a \<notin> {lo..<0x80100000} \<longrightarrow> pm s' a = pm s a)"
  using assms
proof (induction bs arbitrary: s xs)
  case Nil
  then show ?case by (auto simp: kreturn_def)
next
  case (Cons y bs)
  define t where "t = s\<lparr>pm := store32 (unat y) (kpt_freelist s) (pm s), kpt_freelist := y\<rparr>"
  have b: "pt_blocks lo (rev bs @ y # xs)" using Cons.prems(1) by simp
  then have "pt_blocks lo (y # xs)" by (auto simp: pt_blocks_def)
  note put = kpt_put_chain [OF this Cons.prems(2,3)]
  have "kpt_chain (pm t) (kpt_freelist t) (y # xs)" using put(2) by (simp add: t_def)
  from Cons.IH [OF b Cons.prems(2) this] obtain s' where
    s': "kfor kpt_put bs t = Ret () s'" "kpt_chain (pm s') (kpt_freelist s') (rev bs @ y # xs)"
      "s' = t\<lparr>pm := pm s', kpt_freelist := kpt_freelist s'\<rparr>" "\<And>a. a \<notin> {lo..<0x80100000} \<Longrightarrow> pm s' a = pm t a" by blast
  moreover have "pm t a = pm s a" if "a \<notin> {lo..<0x80100000}" for a
  proof -
    have "a < unat y \<or> unat y + 4 \<le> a" using that pt_blocksD(2,3) [OF b, of y] by auto
    then show ?thesis by (simp add: t_def store32_other)
  qed
  ultimately show ?case using put(1) by (intro exI [of _ s']) (auto simp: t_def)
qed

lemma steps_blocks:
  assumes "unat low mod 1024 = 0" and "unat low \<le> 0x80100000"
  shows "pt_blocks (unat low) (steps low 0x80100000 1024)" and "length (steps low 0x80100000 1024) = (0x80100000 - unat low) div 1024"
proof -
  define n where "n = (0x80100000 - unat low) div 1024"
  have "1024 dvd 0x80100000 - unat low" using assms by (simp add: mod_eq_0_iff_dvd dvd_diff_nat)
  then have n: "n * 1024 = 0x80100000 - unat low" by (simp add: n_def)
  then have "(0x80100000 - unat low + (1024 - 1)) div 1024 = n" by (intro div_nat_eqI) auto
  then have st: "steps low 0x80100000 1024 = map (\<lambda>j. low + word_of_nat (j * 1024)) [0..<n]" by (simp add: steps_def)
  show "length (steps low 0x80100000 1024) = (0x80100000 - unat low) div 1024" by (simp add: st n_def)
  have u: "unat (low + word_of_nat (j * 1024)) = unat low + j * 1024" if "j < n" for j
    using that n assms(2) by (simp add: unat_word_ariths unat_of_nat)
  have "inj_on (\<lambda>j. low + word_of_nat (j * 1024)) {0..<n}"
  proof (rule inj_onI)
    fix i j assume ij: "i \<in> {0..<n}" "j \<in> {0..<n}" "low + word_of_nat (i * 1024) = low + word_of_nat (j * 1024)"
    then have "unat low + i * 1024 = unat low + j * 1024" using u [of i] u [of j] by (metis atLeastLessThan_iff)
    then show "i = j" by simp
  qed
  moreover have "(unat low + j * 1024) mod 1024 = 0" for j using assms(1) by simp
  moreover have "unat low + j * 1024 + 1024 \<le> 0x80100000" if "j < n" for j using that n by simp
  ultimately show "pt_blocks (unat low) (steps low 0x80100000 1024)"
    unfolding pt_blocks_def st by (auto simp: distinct_map u simp del: of_nat_mult)
qed

section \<open>Memory after start-up\<close>

lemma keeps_more_init_orders [inv_rules]: "keeps (same_more z) (init_orders is tot n)"
proof (induction "is" tot n rule: init_orders.induct)
  case (2 i "is" tot n)
  show ?case unfolding init_orders.simps clear_marks_def by (intro inv_rules keeps_kmod 2) simp_all
qed (simp only: init_orders.simps keeps_kreturn)

lemma kmem_init2_more:
  assumes "kmem_init2 a b s = Ret () s'"
  shows "kmem.more s' = kmem.more s"
proof -
  have "keeps (same_more (kmem.more s)) (kmem_init2 a b)"
    unfolding kmem_init2_def Let_def by (intro inv_rules keeps_kmod) simp_all
  from keepsD [OF this refl] assms show ?thesis by simp
qed

text \<open>
  What the linker and the boot tables provide: the kernel ends far enough below the first megabyte to leave room for the page tables of the rest of
  memory and four more, the directory is in it, and it has no entries for the rest of memory and for the vectors.
\<close>

definition image_ok :: "uint \<Rightarrow> uint \<Rightarrow> 'z vmem_scheme \<Rightarrow> bool" where
  "image_ok kpd kend s \<longleftrightarrow> 0x80000000 \<le> unat kpd \<and> unat kpd mod 16384 = 0 \<and> unat kpd + 16384 \<le> unat kend \<and> unat kend + 196 * 1024 \<le> 0x80100000
     \<and> (\<forall>i. 0x801 \<le> i \<and> i < 0x8C0 \<or> i = 0xFFF \<longrightarrow> pde_val kpd i s AND 3 = 0)"

abbreviation (input) tab_mem :: "uint \<Rightarrow> nat" where
  "tab_mem kend \<equiv> unat (align_up kend PT_SZ)"

abbreviation (input) tab_blocks :: "uint \<Rightarrow> uint list" where
  "tab_blocks kend \<equiv> rev (steps (align_up kend PT_SZ) 0x80100000 1024)"

lemma image_okD:
  assumes "image_ok kpd kend s"
  shows "kdir kpd (tab_mem kend) (pm s)" and "unat kend \<le> tab_mem kend" and "pt_blocks (tab_mem kend) (tab_blocks kend)"
    and "195 \<le> length (tab_blocks kend)"
proof -
  have u: "tab_mem kend = (unat kend + 1023) div 1024 * 1024" using unat_align_up [of kend 10] assms by (simp add: image_ok_def)
  show le: "unat kend \<le> tab_mem kend" unfolding u by simp
  have hi: "tab_mem kend \<le> unat kend + 1023" unfolding u using div_times_less_eq_dividend [of "unat kend + 1023" 1024] by simp
  have al: "tab_mem kend mod 1024 = 0" unfolding u by simp
  note b = steps_blocks [of "align_up kend PT_SZ", OF al]
  have top: "tab_mem kend + 195 * 1024 \<le> 0x80100000" using hi assms by (simp add: image_ok_def)
  then show "pt_blocks (tab_mem kend) (tab_blocks kend)" using b(1) by (simp add: pt_blocks_def)
  have "195 \<le> (0x80100000 - tab_mem kend) div 1024" using top by (simp add: less_eq_div_iff_mult_less_eq)
  then show "195 \<le> length (tab_blocks kend)" using b(2) top by simp
  have "ld32 (pm s) (unat kpd + 4 * (0x801 + i)) AND 3 = 0" if "i < 191" for i
    using assms that unfolding image_ok_def pde_val_def by (auto dest!: spec [of _ "0x801 + i"])
  then show "kdir kpd (tab_mem kend) (pm s)" using assms le top by (auto simp: kdir_def image_ok_def)
qed

lemma kmain_mem_run:
  fixes s :: "'z vmem_scheme"
  assumes im: "image_ok kpd kend s"
  shows "\<exists>s1 s'. kmain_mem kpd kend s = Ret () s' \<and> kstage kpd (tab_mem kend) s (tab_blocks kend) 48896 s1
    \<and> kmem.more s' = kmem.more s1 \<and> fresh_heap 7 (top_marks 0x80100000 0x8C000000) 0x80100000 0x8C000000 s'"
proof -
  let ?bs = "tab_blocks kend" and ?lo = "tab_mem kend"
  note d = image_okD [OF im]
  have lo: "0 < ?lo" using d(1) by (simp add: kdir_def)
  obtain s1 where s1: "kfor kpt_put (rev ?bs) (s\<lparr>kpt_freelist := 0\<rparr>) = Ret () s1" "kpt_chain (pm s1) (kpt_freelist s1) ?bs"
    "s1 = s\<lparr>pm := pm s1, kpt_freelist := kpt_freelist s1\<rparr>" "\<forall>a. a \<notin> {?lo..<0x80100000} \<longrightarrow> pm s1 a = pm s a"
    using kfor_kpt_put [of ?lo "rev ?bs" "[]" "s\<lparr>kpt_freelist := 0\<rparr>"] d(3) lo by auto
  have "kstage kpd ?lo s ?bs 0 s1" using s1 d(3) by (simp add: kstage_def kmapped_def)
  then obtain s2 where s2: "map_loop 48895 kpd (kva 0) (word_of_nat (0x100000 + 0 * 4096)) AP_KU s1 = Ret 0 s2" "kstage kpd ?lo s ?bs 48896 s2"
    using map_loop_kernel [OF d(1), of ?bs 0 s1 48895] d(4) by auto
  have "mappages kpd 0x80100000 0x0BF00000 0x100000 AP_KU s1 = Ret 0 s2" using s2(1) by (simp add: mappages_def align_dn_def kva_def)
  then have "paging_init kpd 0x100000 0x0C000000 s1 = Ret () s2" by (simp add: paging_init_def p2v_def)
  moreover obtain s' where s': "kmem_init2 0x80100000 0x8C000000 s2 = Ret () s'" "fresh_heap 7 (top_marks 0x80100000 0x8C000000) 0x80100000 0x8C000000 s'"
    using boot_run [OF boot_ok_rpi2] by blast
  ultimately have "kmain_mem kpd kend s = Ret () s'"
    using s1(1) by (simp add: kmain_mem_def init_vmm_def kpt_freerange_def p2v_def)
  then show ?thesis using s2(2) s'(2) kmem_init2_more [OF s'(1)] by blast
qed

text \<open>The memory that holds the kernel and the tables in use for its mappings.\<close>

definition kernel_mem :: "uint \<Rightarrow> nat \<Rightarrow> nat set" where
  "kernel_mem kend t = {0x80000000..<tab_mem kend} \<union> (\<Union>x\<in>set (take t (tab_blocks kend)). extent x 10)"

text \<open>The mappings of the memory above the first megabyte.\<close>

definition kernel_map :: "uint \<Rightarrow> 'z vmem_scheme \<Rightarrow> bool" where
  "kernel_map kpd s \<longleftrightarrow> (\<forall>pg. 0x80100 \<le> pg \<and> pg < 0x8C000 \<longrightarrow> pte_val kpd pg s = mk_pte (word_of_nat ((pg - 0x80000) * 4096)) AP_KU)"

lemma kstage_tbl:
  assumes st: "kstage kpd (tab_mem kend) s0 bs 48896 s" and bs: "191 \<le> length bs" and i: "i < 191"
  shows "tbl kpd (0x801 + i) s = Some (bs ! i)"
proof -
  have m: "kmapped (unat kpd) (tab_mem kend) (pm s0) 48896 (take 191 bs) (drop 191 bs) (kpt_freelist s) (pm s)" using st by (simp add: kstage_def)
  have "pde_val kpd (0x801 + i) s = v2p (bs ! i) OR 1" using m bs i by (simp add: kmapped_def pde_val_def)
  moreover have "unat (bs ! i) mod 1024 = 0"
    using m bs i by (intro pt_blocksD(1) [of "tab_mem kend" "take 191 bs @ drop 191 bs"]) (auto simp: kmapped_def simp del: set_append)
  ultimately show ?thesis using new_pde [of "bs ! i"] by (simp add: tbl_def)
qed

lemma kstage_map:
  assumes d: "kdir kpd (tab_mem kend) (pm s0)" and st: "kstage kpd (tab_mem kend) s0 bs 48896 s" and bs: "191 \<le> length bs"
  shows "kernel_map kpd s"
  unfolding kernel_map_def
proof (intro allI impI)
  fix pg assume pg: "0x80100 \<le> pg \<and> pg < (0x8C000 :: nat)"
  define k where "k = pg - 0x80100"
  define i j where "i = k div 256" and "j = k mod 256"
  have k: "k < 48896" "pg = 0x80100 + k" using pg unfolding k_def by linarith+
  have ij: "k = i * 256 + j" "j < 256" "i < 191" using k(1) by (simp_all add: i_def j_def less_mult_imp_div_less)
  have e: "pg = j + (0x801 + i) * 256" unfolding k(2) ij(1) by simp
  have pd: "pg div 256 = 0x801 + i" "pg mod 256 = j" unfolding e mod_mult_self1 using ij(2) by (auto intro!: div_nat_eqI)
  have m: "kmapped (unat kpd) (tab_mem kend) (pm s0) 48896 (take 191 bs) (drop 191 bs) (kpt_freelist s) (pm s)" using st by (simp add: kstage_def)
  note kstage_tbl [OF st bs ij(3)]
  moreover have "ld32 (pm s) (unat (bs ! i) + 4 * j) = kpte 48896 (i * 256 + j)" using m bs ij by (simp add: kmapped_def)
  ultimately have "pte_val kpd pg s = kpte 48896 k" by (simp add: pte_val_def pd ij(1))
  moreover have "(pg - 0x80000) * 4096 = 0x100000 + k * 4096" unfolding k(2) by simp
  ultimately show "pte_val kpd pg s = mk_pte (word_of_nat ((pg - 0x80000) * 4096)) AP_KU" using k(1) by (simp add: kpte_def)
qed

lemma kernel_map_cong:
  assumes "kernel_map kpd s" and "\<And>i. 0x801 \<le> i \<Longrightarrow> i < 0x8C0 \<Longrightarrow> pde_val kpd i s' = pde_val kpd i s"
    and "\<And>i t a. 0x801 \<le> i \<Longrightarrow> i < 0x8C0 \<Longrightarrow> tbl kpd i s = Some t \<Longrightarrow> a \<in> extent t 10 \<Longrightarrow> pm s' a = pm s a"
  shows "kernel_map kpd s'"
  unfolding kernel_map_def
proof (intro allI impI)
  fix pg assume pg: "0x80100 \<le> pg \<and> pg < (0x8C000 :: nat)"
  define i where "i = pg div 256"
  have i: "0x801 \<le> i" "i < 0x8C0" using pg by (auto simp: i_def less_eq_div_iff_mult_less_eq less_mult_imp_div_less)
  have "tbl kpd i s' = tbl kpd i s" using assms(2) [OF i] by (simp add: tbl_def)
  moreover have "ld32 (pm s') (unat t + 4 * (pg mod 256)) = ld32 (pm s) (unat t + 4 * (pg mod 256))" if t: "tbl kpd i s = Some t" for t
  proof (rule ld32_cong)
    fix a assume "unat t + 4 * (pg mod 256) \<le> a" "a < unat t + 4 * (pg mod 256) + 4"
    moreover have "pg mod 256 < 256" by simp
    ultimately have "a \<in> extent t 10" by (simp add: extent_def)
    then show "pm s' a = pm s a" by (rule assms(3) [OF i t])
  qed
  ultimately have "pte_val kpd pg s' = pte_val kpd pg s" by (simp add: pte_val_def i_def split: option.split)
  then show "pte_val kpd pg s' = mk_pte (word_of_nat ((pg - 0x80000) * 4096)) AP_KU" using assms(1) pg by (simp add: kernel_map_def)
qed

section \<open>Allocations that succeed\<close>

text \<open>Because free buddies are always joined, a block all of whose memory is free is part of one free block.\<close>

lemma blk_units_nest:
  assumes "6 \<le> d" and "d \<le> e" and "u \<in> blk_units (d, b)" and "u \<in> blk_units (e, c)"
  shows "blk_units (d, b) \<subseteq> blk_units (e, c)"
proof
  fix v assume v: "v \<in> blk_units (d, b)"
  have "e - 6 = (d - 6) + (e - d)" using assms(1,2) by simp
  then have "w div 2 ^ (e - 6) = w div 2 ^ (d - 6) div 2 ^ (e - d)" for w :: nat by (simp only: power_add div_mult2_eq)
  then show "v \<in> blk_units (e, c)" using v assms(3,4) by (simp add: blk_units_def)
qed

lemma free_covered:
  assumes wf: "blocks_wf N F" and F: "\<forall>(e, c)\<in>F. lo \<le> e" and lo: "6 \<le> lo" and d: "lo \<le> d" "d \<le> 12"
    and free: "blk_units (d, b) \<subseteq> (\<Union>x\<in>F. blk_units x)"
  shows "\<exists>e c. (e, c) \<in> F \<and> d \<le> e \<and> blk_units (d, b) \<subseteq> blk_units (e, c)"
  using d free
proof (induction d arbitrary: b rule: nat_induct_at_least)
  case base
  obtain u where u: "u \<in> blk_units (lo, b)" using blk_units_nonempty by blast
  then obtain e c where e: "(e, c) \<in> F" "u \<in> blk_units (e, c)" using base by fastforce
  moreover have "lo \<le> e" using F e(1) by blast
  ultimately show ?case using blk_units_nest [OF lo _ u e(2)] by blast
next
  case (Suc d)
  note split = blk_units_split [of d b]
  have d: "6 \<le> d" "d \<le> 12" using lo Suc.hyps Suc.prems(1) by simp_all
  have half: "(\<exists>e c. (e, c) \<in> F \<and> Suc d \<le> e \<and> blk_units (Suc d, b) \<subseteq> blk_units (e, c)) \<or> (d, h) \<in> F" if h: "h = 2 * b \<or> h = 2 * b + 1" for h
  proof -
    have sub: "blk_units (d, h) \<subseteq> blk_units (Suc d, b)" using split d(1) h by auto
    then obtain e c where e: "(e, c) \<in> F" "d \<le> e" "blk_units (d, h) \<subseteq> blk_units (e, c)" using Suc.IH [of h] d Suc.prems by blast
    obtain u where u: "u \<in> blk_units (d, h)" using blk_units_nonempty by blast
    show ?thesis
    proof (cases "e = d")
      case True
      then have "h = c" using u e(3) by (auto simp: blk_units_def)
      then show ?thesis using e(1) True by simp
    next
      case False
      then have "blk_units (Suc d, b) \<subseteq> blk_units (e, c)" using blk_units_nest [of "Suc d" e u b c] d e u sub by auto
      then show ?thesis using e(1,2) False by (intro disjI1 exI [of _ e] exI [of _ c]) auto
    qed
  qed
  moreover have "(2 * b) XOR 1 = 2 * b + 1" using xor_1_cases [of "2 * b"] by simp
  ultimately show ?case using half [of "2 * b"] half [of "2 * b + 1"] wf Suc.prems(1) unfolding blocks_wf_def by fastforce
qed

text \<open>At least \<open>j\<close> pages are free.\<close>

definition pages_free :: "nat \<Rightarrow> nat \<Rightarrow> nat \<Rightarrow> 'z kmem_scheme \<Rightarrow> bool" where
  "pages_free lo n j k \<longleftrightarrow> (\<exists>A. finite A \<and> j \<le> card A \<and> (\<forall>b\<in>A. blk_units (12, b) \<subseteq> free_units lo n k))"

lemma alloc_page_succeeds:
  assumes inv: "pt_inv lo n N P s" and lo: "6 \<le> lo" and f: "pages_free lo n (Suc j) s"
  shows "\<exists>r s'. alloc_page s = Ret r s' \<and> r \<noteq> 0 \<and> unat r mod 4096 = 0 \<and> extent r 12 \<inter> P = {}
    \<and> kmem.more s' = kmem.more s \<and> pt_inv lo n N (P \<union> extent r 12) s' \<and> pages_free lo n j s'"
proof -
  have b: "buddy_inv lo n N s" "lo \<le> 12" using inv by (auto simp: pt_inv_def)
  obtain A where A: "finite A" "Suc j \<le> card A" "\<And>b. b \<in> A \<Longrightarrow> blk_units (12, b) \<subseteq> free_units lo n s" using f by (auto simp: pages_free_def)
  then obtain x where x: "x \<in> A" by fastforce
  have "\<exists>e c. (e, c) \<in> free_set lo n s \<and> 12 \<le> e"
    using free_covered [of N "free_set lo n s" lo 12 x] b A(3) [OF x] lo by (auto simp: buddy_inv_def free_set_def free_units_def)
  then obtain y k' where y: "kmalloc 12 s = Ret (blkid2mem 12 y s) k'" "taken lo n N s k' 12 y"
    using kmalloc_run [OF b(1,2)] by auto
  have "y < N * 2 ^ (12 - 12)" using y(2) by (simp add: taken_def)
  then have "blkid2mem 12 y s \<noteq> 0" by (rule block_heap_block(2) [OF buddy_invD(2) [OF b(1)]]) simp
  moreover have "pages_free lo n j k'"
    unfolding pages_free_def
  proof (intro exI [of _ "A - {y}"] conjI ballI)
    show "j \<le> card (A - {y})" using A(1,2) by (cases "y \<in> A") simp_all
    show "blk_units (12, z) \<subseteq> free_units lo n k'" if "z \<in> A - {y}" for z
      using that A(3) [of z] y(2) blk_units_same_order [of z y 12] by (auto simp: taken_def)
  qed (use A(1) in simp)
  ultimately show ?thesis
    using alloc_page_spec [OF inv] y(1) kmalloc_more [OF y(1)] by (auto simp: alloc_page_def)
qed

section \<open>The memory while the kernel starts\<close>

text \<open>
  The memory \<open>P\<close> is in use, and at least \<open>j\<close> pages and \<open>t\<close> tables of the boot-time list are left.
\<close>

abbreviation (input) heap_marks :: nat where
  "heap_marks \<equiv> top_marks 0x80100000 0x8C000000"

definition mem_ok :: "nat \<Rightarrow> nat set \<Rightarrow> nat \<Rightarrow> nat \<Rightarrow> 'z vmem_scheme \<Rightarrow> bool" where
  "mem_ok N P j t s \<longleftrightarrow> pt_inv 7 heap_marks N P s \<and> pages_free 7 heap_marks j s
     \<and> (\<exists>xs. kpt_chain (pm s) (kpt_freelist s) xs \<and> t \<le> length xs)"

lemma kpt_chain_unique: "kpt_chain m p xs \<Longrightarrow> kpt_chain m p ys \<Longrightarrow> xs = ys"
proof (induction xs arbitrary: p ys)
  case Nil
  then show ?case by (cases ys) auto
next
  case (Cons x xs)
  then show ?case by (cases ys) auto
qed

lemma mem_ok_chain:
  assumes "mem_ok N P j t s"
  obtains xs where "kpt_chain (pm s) (kpt_freelist s) xs" and "t \<le> length xs" and "distinct xs"
    and "\<And>x. x \<in> set xs \<Longrightarrow> unat x mod 1024 = 0 \<and> extent x 10 \<inter> P = {}"
proof -
  obtain xs where xs: "kpt_chain (pm s) (kpt_freelist s) xs" "distinct xs"
      "\<forall>x\<in>set xs. unat x mod 1024 = 0 \<and> extent x 10 \<inter> free_bytes 7 heap_marks s = {} \<and> extent x 10 \<inter> P = {}"
    using assms by (auto simp: mem_ok_def pt_inv_def)
  obtain ys where "kpt_chain (pm s) (kpt_freelist s) ys" "t \<le> length ys" using assms by (auto simp: mem_ok_def)
  then have "t \<le> length xs" using kpt_chain_unique [OF xs(1)] by blast
  then show thesis using xs that by blast
qed

lemma mem_ok_write:
  assumes ok: "mem_ok N P j t s" and m: "\<And>a. a \<notin> P \<Longrightarrow> m a = pm s a"
  shows "mem_ok N P j t (s\<lparr>pm := m\<rparr>)"
proof -
  obtain xs where xs: "kpt_chain (pm s) (kpt_freelist s) xs" "t \<le> length xs" "\<And>x. x \<in> set xs \<Longrightarrow> extent x 10 \<inter> P = {}"
    by (rule mem_ok_chain [OF ok]) blast
  have "kpt_chain m (kpt_freelist s) xs" using xs(1) by (rule kpt_chain_cong) (use xs(3) m in blast)
  moreover have "free_units 7 heap_marks (s\<lparr>pm := m\<rparr>) = free_units 7 heap_marks s"
    by (simp add: free_units_def free_set_def get_mark_def mark_index_def get_order_rec_def)
  ultimately show ?thesis using ok pt_inv_write [OF _ m] xs(2) by (auto simp: mem_ok_def pages_free_def)
qed

lemma mem_ok_alloc_page:
  assumes ok: "mem_ok N P (Suc j) t s"
  shows "\<exists>r s'. alloc_page s = Ret r s' \<and> r \<noteq> 0 \<and> unat r mod 4096 = 0 \<and> extent r 12 \<inter> P = {}
    \<and> kmem.more s' = kmem.more s \<and> mem_ok N (P \<union> extent r 12) j t s'"
proof -
  obtain r s' where r: "alloc_page s = Ret r s'" "r \<noteq> 0" "unat r mod 4096 = 0" "extent r 12 \<inter> P = {}" "kmem.more s' = kmem.more s"
      "pt_inv 7 heap_marks N (P \<union> extent r 12) s'" "pages_free 7 heap_marks j s'"
    using alloc_page_succeeds [of 7 heap_marks N P s j] ok unfolding mem_ok_def by auto
  then show ?thesis using ok same_more_vmem [OF r(5)] by (auto simp: mem_ok_def)
qed

lemma mem_ok_kpt_alloc:
  fixes s :: "'z vmem_scheme"
  assumes ok: "mem_ok N P j (Suc t) s"
  shows "\<exists>r s'. kpt_alloc s = Ret r s' \<and> r \<noteq> 0 \<and> unat r mod 1024 = 0 \<and> extent r 10 \<inter> P = {}
    \<and> pm s' = fill 0 (unat r) 1024 (pm s) \<and> vmem.more s' = vmem.more s \<and> mem_ok N (P \<union> extent r 10) j t s'"
proof -
  obtain x xs where c: "kpt_freelist s = x" "x \<noteq> 0" "kpt_chain (pm s) (ld32 (pm s) (unat x)) xs" "t \<le> length xs" "distinct (x # xs)"
      and al: "\<And>y. y \<in> set (x # xs) \<Longrightarrow> unat y mod 1024 = 0 \<and> extent y 10 \<inter> P = {}"
  proof (rule mem_ok_chain [OF ok])
    fix xs assume xs: "kpt_chain (pm s) (kpt_freelist s) xs" "Suc t \<le> length xs" "distinct xs"
      "\<And>x. x \<in> set xs \<Longrightarrow> unat x mod 1024 = 0 \<and> extent x 10 \<inter> P = {}"
    then obtain x ys where "xs = x # ys" by (cases xs) auto
    then show thesis using xs by (intro that [of x ys]) auto
  qed
  define s' where "s' = s\<lparr>kpt_freelist := ld32 (pm s) (unat x), pm := fill 0 (unat x) 1024 (pm s)\<rparr>"
  have run: "kpt_alloc s = Ret x s'"
    using c memset0_fill [of "unat x" 1024] by (simp add: kpt_alloc_def zero_mem_def load_def s'_def)
  moreover have "pt_inv 7 heap_marks N (P \<union> extent x 10) s'"
    using kpt_alloc_spec [of 7 heap_marks N P s] ok run by (auto simp: mem_ok_def)
  moreover have "kpt_chain (pm s') (kpt_freelist s') xs"
    unfolding s'_def
  proof (simp, rule kpt_chain_cong [OF c(3)])
    fix y a assume y: "y \<in> set xs" "a \<in> extent y 10"
    have "extent y 10 \<inter> extent x 10 = {}" by (rule aligned_extents) (use al y c(5) in auto)
    then show "fill 0 (unat x) 1024 (pm s) a = pm s a" using y(2) by (auto simp: fill_def extent_def)
  qed
  moreover have "free_units 7 heap_marks s' = free_units 7 heap_marks s"
    by (simp add: free_units_def free_set_def get_mark_def mark_index_def get_order_rec_def s'_def)
  ultimately show ?thesis using ok c al [of x] by (intro exI [of _ x] exI [of _ s']) (auto simp: mem_ok_def pages_free_def s'_def)
qed

text \<open>What is not memory does not matter.\<close>

lemma mem_ok_cong:
  assumes "mem_ok N P j t s" and "km_orders s' = km_orders s" and "km_marks s' = km_marks s" and "km_start_heap s' = km_start_heap s"
    and "pm s' = pm s" and "kpt_freelist s' = kpt_freelist s"
  shows "mem_ok N P j t s'"
proof -
  note v = alloc_view_cong [OF assms(2-4)]
  have "free_units 7 heap_marks s' = free_units 7 heap_marks s"
    by (simp add: free_units_def free_set_def get_mark_def mark_index_def get_order_rec_def assms)
  then show ?thesis using assms(1) by (simp add: mem_ok_def pt_inv_def pages_free_def v assms)
qed

lemma fresh_heap_pages:
  assumes "fresh_heap 7 heap_marks 0x80100000 0x8C000000 k"
  shows "pages_free 7 heap_marks 40 k"
proof -
  define N where "N = (0x8C000000 - unat (km_start_heap k)) div 4096"
  have f: "free_units 7 heap_marks k = {u. u div 64 < N}" "unat (km_start_heap k) + N * 4096 = 0x8C000000"
    "unat (km_start_heap k) < 0x80100000 + heap_marks * 1016 + 4096"
    using assms by (simp_all add: fresh_heap_def Let_def N_def)
  have "heap_marks = 1529" by (simp add: top_marks_def)
  then have "40 \<le> N" using f(2,3) by simp
  then show ?thesis unfolding pages_free_def f(1) by (intro exI [of _ "{0..<N}"]) (auto simp: blk_units_def)
qed

lemma kernel_mem_low:
  assumes "image_ok kpd kend s"
  shows "a \<in> kernel_mem kend t \<Longrightarrow> a < 0x80100000"
proof -
  note d = image_okD [OF assms]
  have lo: "tab_mem kend \<le> 0x80100000" using d(1) by (simp add: kdir_def)
  have "extent x 10 \<subseteq> {0..<0x80100000}" if "x \<in> set (take t (tab_blocks kend))" for x
    using pt_blocksD(3) [OF d(3), of x] in_set_takeD [OF that] by (auto simp: extent_def)
  then show "a \<in> kernel_mem kend t \<Longrightarrow> a < 0x80100000" using lo unfolding kernel_mem_def by fastforce
qed

lemma kernel_mem_apart:
  assumes im: "image_ok kpd kend s" and x: "x \<in> set (drop t (tab_blocks kend))"
  shows "extent x 10 \<inter> kernel_mem kend t = {}"
proof -
  note b = image_okD(3) [OF im]
  have xm: "x \<in> set (tab_blocks kend)" by (rule in_set_dropD [OF x])
  have "extent x 10 \<inter> extent y 10 = {}" if "y \<in> set (take t (tab_blocks kend))" for y
  proof -
    have "set (take t (tab_blocks kend)) \<inter> set (drop t (tab_blocks kend)) = {}"
      using b unfolding pt_blocks_def by (metis append_take_drop_id distinct_append)
    then have "x \<noteq> y" using x that by blast
    then show ?thesis using pt_blocksD(1) [OF b xm] pt_blocksD(1) [OF b in_set_takeD [OF that]] by (intro aligned_extents) simp_all
  qed
  moreover have "extent x 10 \<inter> {0x80000000..<tab_mem kend} = {}" using pt_blocksD(2) [OF b xm] by (auto simp: extent_def)
  ultimately show ?thesis unfolding kernel_mem_def by blast
qed

text \<open>What holds when the memory is set up; the states differ in nothing but memory and the allocators.\<close>

definition memory_ready :: "uint \<Rightarrow> uint \<Rightarrow> 'z vmem_scheme \<Rightarrow> 'z vmem_scheme \<Rightarrow> bool" where
  "memory_ready kpd kend s s' \<longleftrightarrow> (\<exists>N. mem_ok N (kernel_mem kend 191) 40 4 s') \<and> kernel_map kpd s'
     \<and> (\<forall>i<191. tbl kpd (0x801 + i) s' = Some (tab_blocks kend ! i))
     \<and> (\<forall>a. 0x80000000 \<le> a \<and> a < tab_mem kend \<and> a \<notin> {unat kpd + 4 * 0x801..<unat kpd + 4 * 0x8C0} \<longrightarrow> pm s' a = pm s a)
     \<and> vmem.more s' = vmem.more s"

lemma kmain_mem_ready:
  fixes s :: "'z vmem_scheme"
  assumes im: "image_ok kpd kend s"
  shows "\<exists>s'. kmain_mem kpd kend s = Ret () s' \<and> memory_ready kpd kend s s'"
proof -
  let ?bs = "tab_blocks kend"
  note d = image_okD [OF im]
  have l: "191 \<le> length ?bs" using d(4) by simp
  obtain s1 s' where run: "kmain_mem kpd kend s = Ret () s'" and st: "kstage kpd (tab_mem kend) s ?bs 48896 s1"
    and m: "kmem.more s' = kmem.more s1" and fr: "fresh_heap 7 heap_marks 0x80100000 0x8C000000 s'"
    using kmain_mem_run [OF im] by blast
  note mem = same_more_vmem [OF m]
  have km: "kmapped (unat kpd) (tab_mem kend) (pm s) 48896 (take 191 ?bs) (drop 191 ?bs) (kpt_freelist s') (pm s')"
    using st mem by (simp add: kstage_def)
  obtain N where N: "buddy_inv 7 heap_marks N s'" using fr by (auto simp: fresh_heap_def Let_def)
  have hi: "0x80100000 \<le> a" if "a \<in> free_bytes 7 heap_marks s'" for a
    using that fresh_heap_free_bytes [OF fr] fr by (simp add: fresh_heap_def Let_def)
  have low: "a < 0x80100000" if "x \<in> set (drop 191 ?bs)" "a \<in> extent x 10" for x a
    using pt_blocksD(3) [OF d(3) in_set_dropD [OF that(1)]] that(2) by (auto simp: extent_def)
  have "kpt_chain (pm s') (kpt_freelist s') (drop 191 ?bs)" using km by (simp add: kmapped_def)
  moreover have "distinct (drop 191 ?bs)" using d(3) by (simp add: pt_blocks_def)
  moreover have "unat x mod 1024 = 0 \<and> extent x 10 \<inter> free_bytes 7 heap_marks s' = {} \<and> extent x 10 \<inter> kernel_mem kend 191 = {}"
    if "x \<in> set (drop 191 ?bs)" for x
    using pt_blocksD(1) [OF d(3) in_set_dropD [OF that]] low [OF that] hi kernel_mem_apart [OF im that] by force
  moreover have "kernel_mem kend 191 \<inter> free_bytes 7 heap_marks s' = {}" using kernel_mem_low [OF im] hi by force
  ultimately have "pt_inv 7 heap_marks N (kernel_mem kend 191) s' \<and> (\<exists>xs. kpt_chain (pm s') (kpt_freelist s') xs \<and> 4 \<le> length xs)"
    using N d(4) unfolding pt_inv_def by (auto intro!: exI [of _ "drop 191 ?bs"])
  then have "mem_ok N (kernel_mem kend 191) 40 4 s'" using fresh_heap_pages [OF fr] by (simp add: mem_ok_def)
  moreover have "tbl kpd i s' = tbl kpd i s1" "pte_val kpd i s' = pte_val kpd i s1" for i
    by (simp_all add: tbl_def pde_val_def pte_val_def mem)
  moreover have "pm s' a = pm s a" if "0x80000000 \<le> a \<and> a < tab_mem kend \<and> a \<notin> {unat kpd + 4 * 0x801..<unat kpd + 4 * 0x8C0}" for a
    using km that l by (auto simp: kmapped_def)
  moreover have "vmem.more s' = vmem.more s" using m st by (cases s; cases s1; cases s') (simp add: kstage_def)
  ultimately show ?thesis
    using run kstage_map [OF d(1) st l] kstage_tbl [OF st l] unfolding memory_ready_def kernel_map_def by auto
qed

section \<open>The vectors\<close>

lemma unat_vec: "unat kpd + 16384 \<le> 2 ^ 32 \<Longrightarrow> unat (kpd + 0x3FFC) = unat kpd + 0x3FFC" for kpd :: uint
  by (simp add: unat_word_ariths)

lemma map_vectors_run:
  fixes s :: "'z vmem_scheme"
  assumes ok: "mem_ok N P j (Suc t) s" and kp: "unat kpd + 16384 \<le> 2 ^ 32" "{unat kpd + 0x3FFC..<unat kpd + 0x4000} \<subseteq> P"
    and free: "pde_val kpd 0xFFF s AND 3 = 0"
  shows "\<exists>r s'. map_vectors kpd 0 s = Ret () s' \<and> mem_ok N (P \<union> extent r 10) j t s' \<and> vmem.more s' = vmem.more s
    \<and> pte_val kpd 0xFFFF0 s' = mk_pte 0 AP_KO \<and> extent r 10 \<inter> P = {} \<and> tbl kpd 0xFFF s' = Some r
    \<and> (\<forall>a\<in>P - {unat kpd + 0x3FFC..<unat kpd + 0x4000}. pm s' a = pm s a)"
proof -
  obtain r s1 where r: "kpt_alloc s = Ret r s1" "r \<noteq> 0" "unat r mod 1024 = 0" "extent r 10 \<inter> P = {}"
      "pm s1 = fill 0 (unat r) 1024 (pm s)" "mem_ok N (P \<union> extent r 10) j t s1" "vmem.more s1 = vmem.more s"
    using mem_ok_kpt_alloc [OF ok] by (elim exE conjE) (rule that)
  let ?p = "unat kpd + 0x3FFC" and ?q = "unat r + 4 * 0xF0"
  define m where "m = store32 ?q (mk_pte 0 AP_KO) (store32 ?p (v2p r OR 1) (pm s1))"
  define s' where "s' = s1\<lparr>pm := m\<rparr>"
  have apart: "?p + 4 \<le> unat r \<or> unat r + 1024 \<le> ?p"
  proof (rule ccontr)
    assume "\<not> ?thesis"
    then have "max ?p (unat r) \<in> extent r 10 \<and> max ?p (unat r) \<in> {?p..<unat kpd + 0x4000}" by (auto simp: extent_def)
    then show False using r(4) kp(2) by blast
  qed
  have u: "unat (r + 0x3C0) = ?q" using aligned_room [OF r(3)] by (simp add: unat_word_ariths)
  have nz: "r + 0x3C0 \<noteq> 0"
  proof -
    have "0 < unat (r + 0x3C0)" unfolding u by simp
    then show ?thesis by auto
  qed
  have z: "fill 0 (unat r) 1024 (pm s1) = pm s1" by (auto simp: r(5) fill_def)
  have idx: "PDE_IDX 0xFFFF0000 = 0xFFF" "PTE_IDX 0xFFFF0000 = 0xF0" by (simp_all add: PDE_IDX_def PTE_IDX_def)
  have walk: "walkpgdir kpd 0xFFFF0000 True s = Ret (r + 0x3C0) (s1\<lparr>pm := store32 ?p (v2p r OR 1) (pm s1)\<rparr>)"
    using free r(1,2) memset0_fill [of "unat r" 1024] unfolding walkpgdir_def Let_def idx
    by (simp add: load_def zero_mem_def store_def unat_vec [OF kp(1)] pde_val_def z)
  have "ld32 (store32 ?p (v2p r OR 1) (pm s1)) ?q = 0"
    using apart ld32_fill0 [of "unat r" ?q 1024 "pm s1"] by (subst ld32_store32_other) (auto simp: z)
  then have "map_loop 0 kpd 0xFFFF0000 0 AP_KO s = Ret 0 s'"
    by (subst map_loop.simps) (simp add: walk nz load_def store_def u s'_def m_def)
  then have run: "map_vectors kpd 0 s = Ret () s'" by (simp add: map_vectors_def mappages_def align_dn_def)
  have "mem_ok N (P \<union> extent r 10) j t s'"
    unfolding s'_def
  proof (rule mem_ok_write [OF r(6)])
    fix a assume "a \<notin> P \<union> extent r 10"
    then have "a \<notin> {?p..<unat kpd + 0x4000}" "a \<notin> extent r 10" using kp(2) by auto
    then show "m a = pm s1 a" by (auto simp: m_def store32_other extent_def)
  qed
  moreover have "pde_val kpd 0xFFF s' = v2p r OR 1"
    unfolding pde_val_def s'_def m_def using apart by (simp, subst ld32_store32_other) auto
  then have t: "tbl kpd 0xFFF s' = Some r" using new_pde [OF r(3)] by (simp add: tbl_def)
  moreover have "pte_val kpd 0xFFFF0 s' = mk_pte 0 AP_KO" using t by (simp add: pte_val_def s'_def m_def)
  moreover have "vmem.more s' = vmem.more s" using r(7) by (cases s1) (simp add: s'_def)
  moreover have "pm s' a = pm s a" if "a \<in> P - {?p..<unat kpd + 0x4000}" for a
  proof -
    have "a \<notin> extent r 10" using that r(4) by blast
    then show ?thesis using that by (auto simp: s'_def m_def r(5) store32_other fill_def extent_def)
  qed
  ultimately show ?thesis using run r(4) by (intro exI [of _ r] exI [of _ s']) simp
qed

section \<open>Writes to memory in use\<close>

text \<open>Of a state, what the rest of the start reads besides memory.\<close>

abbreviation (input) core :: "'z fsst_scheme \<Rightarrow> (nat \<Rightarrow> proc) \<times> int \<times> (nat \<Rightarrow> inode)" where
  "core s \<equiv> (procs s, nextpid s, inodes s)"

lemma core_vmore:
  fixes s s' :: "'z fsst_scheme"
  assumes "vmem.more s' = vmem.more s"
  shows "core s' = core s"
  using assms by (cases s; cases s'; simp)

lemma vmore_more: "kmem.more s' = kmem.more s \<Longrightarrow> vmem.more s' = vmem.more s" for s s' :: "'z vmem_scheme"
  by (cases s; cases s'; simp)

section \<open>The stacks of the exception modes\<close>

lemma stacks_ready:
  fixes s :: "'z modest_scheme"
  assumes "mem_ok N P (j + length ms) t s"
  shows "\<exists>Q s'. kfor stack_for ms s = Ret () s' \<and> P \<subseteq> Q \<and> mem_ok N Q j t s' \<and> pm s' = pm s \<and> core s' = core s"
  using assms
proof (induction ms arbitrary: P s)
  case (Cons x ms)
  obtain r s1 where r: "alloc_page s = Ret r s1" "r \<noteq> 0" "kmem.more s1 = kmem.more s" "mem_ok N (P \<union> extent r 12) (j + length ms) t s1"
    using mem_ok_alloc_page [of N P "j + length ms" t s] Cons.prems by auto
  define s2 where "s2 = s1\<lparr>mode_sp := (mode_sp s1)(this_cpu s1 := (mode_sp s1 (this_cpu s1))(x := r))\<rparr>"
  have run: "kfor stack_for (x # ms) s = kfor stack_for ms s2" using r(1,2) by (simp add: stack_for_def set_stk_def s2_def)
  have "mem_ok N (P \<union> extent r 12) (j + length ms) t s2" using r(4) by (rule mem_ok_cong) (simp_all add: s2_def)
  from Cons.IH [OF this] obtain Q s' where "kfor stack_for ms s2 = Ret () s'" "P \<union> extent r 12 \<subseteq> Q" "mem_ok N Q j t s'" "pm s' = pm s2" "core s' = core s2"
    by (elim exE conjE) (rule that)
  moreover have "pm s2 = pm s" using same_more_vmem(1) [OF r(3)] by (simp add: s2_def)
  moreover have "core s2 = core s" using core_vmore [OF vmore_more [OF r(3)]] by (simp add: s2_def)
  ultimately show ?case unfolding run by (intro exI [of _ Q] exI [of _ s']) auto
qed auto

lemma stack_init_stacks: "stack_init = kfor stack_for [0x11, 0x12, 0x17, 0x1B]"
  unfolding stack_init_def stack_for_def ..

end
