(* ===== verification/Vm_Copy.thy ===== *)
theory Vm_Copy
  imports Vm_Spec
begin

unbundle bit_operations_syntax

text \<open>
  Copying an address space (\<^verbatim>\<open>copyuvm\<close>, for \<^verbatim>\<open>fork\<close>): the copy shows what the original shows, and neither can reach the memory of the other.
\<close>

section \<open>An address space whose memory is kept\<close>

lemma keep_space:
  assumes us: "user_space lo n N pd R s0" and keep: "\<forall>a\<in>frames pd s0 \<union> tables pd s0. pm s a = pm s0 a"
  shows "pg < 65536 \<Longrightarrow> pte_val pd pg s = pte_val pd pg s0" and "frames pd s = frames pd s0" and "tables pd s = tables pd s0"
    and "pd_ok pd s" and "va < 2 ^ 28 \<Longrightarrow> user_byte pd va s = user_byte pd va s0" and "i < 256 \<Longrightarrow> tbl pd i s = tbl pd i s0"
proof -
  have k: "pm s a = pm s0 a" if "a \<in> tables pd s0" for a using keep that by blast
  note cong = tables_cong [of pd s0 s, OF k]
  have e: "pte_val pd pg s = pte_val pd pg s0" if "pg < 65536" for pg using cong(3) that by blast
  then show "pg < 65536 \<Longrightarrow> pte_val pd pg s = pte_val pd pg s0" .
  show "frames pd s = frames pd s0" by (auto simp: frames_def e)
  show "tables pd s = tables pd s0" "i < 256 \<Longrightarrow> tbl pd i s = tbl pd i s0" using cong by blast+
  show "pd_ok pd s" using cong(4) us by (simp add: user_space_def space_def)
  show "user_byte pd va s = user_byte pd va s0" if va: "va < 2 ^ 28"
  proof -
    have pg: "va div 4096 < 65536" using va by (simp add: less_mult_imp_div_less)
    have "pm s (unat (frame_of (pte_val pd (va div 4096) s0)) + va mod 4096) = pm s0 (unat (frame_of (pte_val pd (va div 4096) s0)) + va mod 4096)"
      if nz: "pte_val pd (va div 4096) s0 AND 3 \<noteq> 0"
      using keep frame_subset [OF pg nz] by (auto simp: extent_def subset_iff)
    then show ?thesis by (simp add: user_byte_def Let_def e [OF pg])
  qed
qed

text \<open>The original stays an address space when everything new is added to the rest of the memory in use.\<close>

lemma both_spaces:
  assumes par: "user_space lo n N pd R s0" and RR: "RR = R \<union> frames pd s0 \<union> tables pd s0"
    and child: "user_space lo n N d RR s" and keep: "\<forall>a\<in>RR. pm s a = pm s0 a"
  shows "user_space lo n N pd (R \<union> frames d s \<union> tables d s) s"
proof -
  have k: "\<forall>a\<in>frames pd s0 \<union> tables pd s0. pm s a = pm s0 a" using keep by (simp add: RR)
  note ks = keep_space [OF par k]
  have "pt_inv lo n N (RR \<union> frames d s \<union> tables d s) s" using child by (simp add: user_space_def space_def)
  then have "pt_inv lo n N (R \<union> frames d s \<union> tables d s \<union> frames pd s \<union> tables pd s) s" by (rule pt_inv_subset) (auto simp: RR ks(2,3))
  moreover have "(R \<union> frames d s \<union> tables d s \<union> frames pd s) \<inter> tables pd s = {}" "(R \<union> frames d s \<union> tables d s) \<inter> frames pd s = {}" "0 \<notin> frames pd s"
    using par child unfolding user_space_def space_def RR ks(2,3) by auto
  ultimately show ?thesis using ks(4) par unfolding user_space_def space_def by (simp add: ks(1) Un_assoc)
qed

section \<open>The loop\<close>

lemma walk_present:
  assumes us: "user_space lo n N pd R s0" and keep: "\<forall>a\<in>frames pd s0 \<union> tables pd s0. pm s a = pm s0 a"
    and va: "unat va < 2 ^ 28" and p: "pte_val pd (unat va div 4096) s0 AND 3 \<noteq> 0"
  shows "\<exists>q. walkpgdir pd va False s = Ret q s \<and> q \<noteq> 0 \<and> load q s = Ret (pte_val pd (unat va div 4096) s0) s"
proof -
  note ks = keep_space [OF us keep]
  have pg: "unat va div 4096 < 65536" "unat va div 2 ^ 20 < 256" using va by (simp_all add: less_mult_imp_div_less)
  have "unat pd mod 1024 = 0" using ks(4) by (simp add: pd_ok_def)
  note w = walk_lookup [OF this va, of s]
  obtain t where t: "tbl pd (unat va div 2 ^ 20) s = Some t"
    using p ks(1) [OF pg(1)] page_dir_index [of va] by (auto simp: pte_val_def split: option.splits)
  show ?thesis using w t pte_nonzero [OF ks(4) pg(2) t, of va] load_pte [OF t] ks(1) [OF pg(1)] by auto
qed

lemma copy_loop_spec:
  assumes par: "user_space lo n N pd R s0" and RR: "RR = R \<union> frames pd s0 \<union> tables pd s0"
    and "user_space lo n N d RR s" and "\<forall>a\<in>RR. pm s a = pm s0 a"
    and "page_list d as s" and "\<forall>a\<in>set as. pte_val pd (unat a div 4096) s0 AND 3 \<noteq> 0"
  shows "copy_loop pd d as s = Panic ''oom: kpt_alloc'' \<or> (\<exists>t. copy_loop pd d as s = Ret False t)
    \<or> (\<exists>s'. copy_loop pd d as s = Ret True s' \<and> user_space lo n N d RR s' \<and> (\<forall>x\<in>RR. pm s' x = pm s0 x)
        \<and> (\<forall>va<2 ^ 28. user_byte d va s' = (if va div 4096 \<in> pages as then user_byte pd va s0 else user_byte d va s)))"
  using assms(3-)
proof (induction as arbitrary: s)
  case (Cons a as)
  have a: "unat a < 2 ^ 28" "unat a mod 4096 = 0" "pte_val d (unat a div 4096) s AND 3 = 0" using Cons.prems(3) by (auto simp: page_list_def)
  have pg: "unat a div 4096 < 65536" using a(1) by (simp add: less_mult_imp_div_less)
  define e where "e = pte_val pd (unat a div 4096) s0"
  have e: "e AND 3 \<noteq> 0" using Cons.prems(4) by (simp add: e_def)
  have k: "\<forall>x\<in>frames pd s0 \<union> tables pd s0. pm s x = pm s0 x" using Cons.prems(2) by (simp add: RR)
  obtain q where q: "walkpgdir pd a False s = Ret q s" "q \<noteq> 0" "load q s = Ret e s"
    using walk_present [OF par k a(1)] e by (auto simp: e_def)
  have inv: "pt_inv lo n N (RR \<union> frames d s \<union> tables d s) s" using Cons.prems(1) by (simp add: user_space_def space_def)
  show ?case
    using alloc_page_spec [OF inv]
  proof (elim disjE exE conjE)
    assume "alloc_page s = Ret 0 s"
    then show ?thesis using q e by simp
  next
    fix r s1
    assume r: "alloc_page s = Ret r s1" "r \<noteq> 0" "unat r mod 4096 = 0" "extent r 12 \<inter> (RR \<union> frames d s \<union> tables d s) = {}" "pm s1 = pm s"
      "pt_inv lo n N (RR \<union> frames d s \<union> tables d s \<union> extent r 12) s1"
    define m where "m = memmove (unat r) (unat (frame_of e)) 0x1000 (pm s)"
    define s2 where "s2 = s1\<lparr>pm := m\<rparr>"
    have mv: "move_mem r (p2v (PTE_ADDR e)) 0x1000 s1 = Ret () s2" using r(5) by (simp add: move_mem_def frame_of_def s2_def m_def)
    have out: "\<forall>x. x \<notin> extent r 12 \<longrightarrow> pm s2 x = pm s x" by (auto simp: s2_def m_def memmove_eq extent_def)
    have new: "pm s2 (unat r + i) = pm s0 (unat (frame_of e) + i)" if "i < 4096" for i
    proof -
      have "unat (frame_of e) + i \<in> frames pd s0" using frame_subset [OF pg, of pd s0] e that by (auto simp: e_def extent_def subset_iff)
      then show ?thesis using k that by (simp add: s2_def m_def memmove_eq)
    qed
    have inv2: "pt_inv lo n N (RR \<union> frames d s \<union> tables d s \<union> extent r 12) s2"
      unfolding s2_def by (rule pt_inv_write [OF r(6)]) (use out r(5) in \<open>auto simp: s2_def\<close>)
    show ?thesis
      using map_fresh_page [OF Cons.prems(1) a r(3,4,2) inv2 out, of "PTE_AP e"]
    proof (elim disjE exE conjE)
      assume "mappages d a 0x1000 (v2p r) (PTE_AP e) s2 = Panic ''oom: kpt_alloc''"
      then show ?thesis using q e r(1,2) mv by simp
    next
      fix s3
      assume m3: "mappages d a 0x1000 (v2p r) (PTE_AP e) s2 = Ret 0 s3" "user_space lo n N d RR s3"
        "\<forall>pg<65536. pte_val d pg s3 = (if pg = unat a div 4096 then mk_pte (v2p r) (PTE_AP e) else pte_val d pg s)"
        "\<forall>x\<in>RR \<union> frames d s \<union> extent r 12. pm s3 x = pm s2 x"
      have run: "copy_loop pd d (a # as) s = copy_loop pd d as s3" using q e r(1,2) mv m3(1) by simp
      have keep: "\<forall>x\<in>RR. pm s3 x = pm s0 x" using m3(4) out r(4) Cons.prems(2) by auto
      have rest: "\<forall>b\<in>set as. pte_val pd (unat b div 4096) s0 AND 3 \<noteq> 0" using Cons.prems(4) by simp
      have ub: "user_byte d va s3 = (if va div 4096 = unat a div 4096 then user_byte pd va s0 else user_byte d va s)" if "va < 2 ^ 28" for va
      proof -
        have "PTE_AP e AND 3 = PTE_AP e" by (simp add: PTE_AP_def and.assoc)
        moreover have "va mod 4096 < 4096" by simp
        ultimately show ?thesis using user_byte_fresh [OF Cons.prems(1) r(3,4) out m3(3,4) that] new [of "va mod 4096"] e
          by (auto simp: user_byte_def Let_def e_def)
      qed
      show ?thesis
        using Cons.IH [OF m3(2) keep page_list_tl [OF Cons.prems(3) m3(3)] rest] unfolding run
      proof (elim disjE exE conjE)
        fix s' assume s': "copy_loop pd d as s3 = Ret True s'" "user_space lo n N d RR s'" "\<forall>x\<in>RR. pm s' x = pm s0 x"
          "\<forall>va<2 ^ 28. user_byte d va s' = (if va div 4096 \<in> pages as then user_byte pd va s0 else user_byte d va s3)"
        then show "copy_loop pd d as s3 = Panic ''oom: kpt_alloc'' \<or> (\<exists>t. copy_loop pd d as s3 = Ret False t)
          \<or> (\<exists>s'. copy_loop pd d as s3 = Ret True s' \<and> user_space lo n N d RR s' \<and> (\<forall>x\<in>RR. pm s' x = pm s0 x)
            \<and> (\<forall>va<2 ^ 28. user_byte d va s' = (if va div 4096 \<in> pages (a # as) then user_byte pd va s0 else user_byte d va s)))"
          using ub by (intro disjI2 exI [of _ s']) auto
      qed simp_all
    qed
  qed
qed auto

section \<open>The copy\<close>

text \<open>A cleared page directory is an empty address space.\<close>

lemma cleared_space:
  assumes inv: "pt_inv lo n N (P \<union> extent d 10) s" and d: "unat d mod 1024 = 0" "extent d 10 \<inter> P = {}" and z: "pm s = fill 0 (unat d) 1024 m"
  shows "user_space lo n N d P s" and "pg < 65536 \<Longrightarrow> pte_val d pg s = 0" and "tables d s = extent d 10" and "frames d s = {}"
proof -
  have none: "tbl d i s = None" if "i < 256" for i
    using that ld32_fill0 [of "unat d" "unat d + 4 * i" 1024 m] by (simp add: tbl_def pde_val_def z)
  show t: "tables d s = extent d 10" by (simp add: tables_def none)
  have p: "pte_val d pg s = 0" if "pg < 65536" for pg
  proof -
    have "pg div 256 < 256" using that by (simp add: less_mult_imp_div_less)
    then show ?thesis by (simp add: pte_val_def none)
  qed
  then show "pg < 65536 \<Longrightarrow> pte_val d pg s = 0" .
  show f: "frames d s = {}" by (simp add: frames_def p)
  have "pd_ok d s" using d(1) by (simp add: pd_ok_def none)
  then show "user_space lo n N d P s" using inv d(2) by (auto simp: user_space_def space_def t f p)
qed



end
