(* ===== verification/Kmain_Init.thy ===== *)
theory Kmain_Init
  imports Kmain_Proofs Vm_Copy Inode_Proofs Console_Proofs
begin

unbundle bit_operations_syntax

text \<open>
  The first process: \<^verbatim>\<open>userinit\<close> on the memory that the start of the kernel has set up, and \<^verbatim>\<open>kmain\<close> as a whole.
\<close>

section \<open>Its entry of the process table\<close>

lemma allocproc_first:
  fixes s :: "'z fsst_scheme"
  assumes ok: "mem_ok N P (Suc j) t s" and u: "pstate (procs s 0) = UNUSED"
  shows "\<exists>ks s'. allocproc tr fr s = Ret (Some 0) s' \<and> unat ks mod 4096 = 0 \<and> extent ks 12 \<inter> P = {}
    \<and> mem_ok N (P \<union> extent ks 12) j t s' \<and> (\<forall>a\<in>P. pm s' a = pm s a)
    \<and> core s' = ((procs s)(0 := (procs s 0)\<lparr>pstate := EMBRYO, pid := nextpid s, kstack := ks, tf := ks + 4024, ctxt := ks + 3976\<rparr>),
        nextpid s + 1, inodes s)"
proof -
  define s1 where "s1 = s\<lparr>procs := (procs s)(0 := (procs s 0)\<lparr>pstate := EMBRYO, pid := nextpid s\<rparr>), nextpid := nextpid s + 1\<rparr>"
  have ok1: "mem_ok N P (Suc j) t s1" using ok by (rule mem_ok_cong) (simp_all add: s1_def)
  obtain ks s2 where ks: "alloc_page s1 = Ret ks s2" "ks \<noteq> 0" "unat ks mod 4096 = 0" "extent ks 12 \<inter> P = {}" "kmem.more s2 = kmem.more s1"
      "mem_ok N (P \<union> extent ks 12) j t s2"
    using mem_ok_alloc_page [OF ok1] by (elim exE conjE) (rule that)
  have room: "unat ks + 4096 \<le> 2 ^ 32"
  proof -
    obtain q where "unat ks = 4096 * q" using ks(3) by auto
    with unat_less_32 [of ks] show ?thesis by simp
  qed
  then have un: "unat (ks + w) = unat ks + unat w" if "unat w < 4096" for w using that by (simp add: unat_word_ariths)
  have sp: "ks + 4096 - 72 = ks + 4024" "ks + 4024 - 4 = ks + 4020" "ks + 4020 - 4 = ks + 4016" "ks + 4016 - 40 = ks + 3976" "ks + 3976 + 36 = ks + 4012"
    by simp_all
  define m where "m = store32 (unat (ks + 4012)) (fr + 4) (fill 0 (unat (ks + 3976)) 40
    (store32 (unat (ks + 4016)) (ks + 4096) (store32 (unat (ks + 4020)) tr (pm s2))))"
  define s' where "s' = s2\<lparr>procs := (procs s2)(0 := (procs s2 0)\<lparr>kstack := ks, tf := ks + 4024, ctxt := ks + 3976\<rparr>), pm := m\<rparr>"
  have c2: "core s2 = core s1" using core_vmore [OF vmore_more [OF ks(5)]] .
  have m: "m a = pm s2 a" if "a \<notin> extent ks 12" for a
  proof -
    have "a < unat ks \<or> unat ks + 4096 \<le> a" using that by (auto simp: extent_def)
    then show ?thesis by (elim disjE) (simp_all add: m_def store32_other un fill_def)
  qed
  have "find_proc (\<lambda>q. pstate q = UNUSED) [0..<64] (procs s) = Some 0" using u by (simp add: upt_conv_Cons)
  moreover have "memset a 0 40 h = fill 0 a 40 h" for a h using memset0_fill [of a 40 h] by simp
  moreover from this have "setup_stack tr fr 0 ks (s2\<lparr>procs := (procs s2)(0 := (procs s2 0)\<lparr>kstack := ks\<rparr>)\<rparr>) = Ret () s'"
    unfolding setup_stack_def Let_def sp by (simp add: upd_proc_def store_def zero_mem_def s'_def m_def add.commute)
  ultimately have "allocproc tr fr s = Ret (Some 0) s'"
    using ks(1,2) unfolding allocproc_def by (simp add: s1_def [symmetric] upd_proc_def)
  moreover have "mem_ok N (P \<union> extent ks 12) j t (s2\<lparr>pm := m\<rparr>)" using ks(6) by (rule mem_ok_write) (use m in simp)
  then have "mem_ok N (P \<union> extent ks 12) j t s'" by (rule mem_ok_cong) (simp_all add: s'_def)
  moreover have "pm s' a = pm s a" if "a \<in> P" for a
  proof -
    have "a \<notin> extent ks 12" using that ks(4) by blast
    then show ?thesis using m [of a] same_more_vmem(1) [OF ks(5)] by (simp add: s'_def s1_def)
  qed
  moreover have "core s' = ((procs s)(0 := (procs s 0)\<lparr>pstate := EMBRYO, pid := nextpid s, kstack := ks, tf := ks + 4024, ctxt := ks + 3976\<rparr>),
      nextpid s + 1, inodes s)"
    using c2 by (simp add: s'_def s1_def)
  ultimately show ?thesis using ks(3,4) by (intro exI [of _ ks] exI [of _ s']) simp
qed

section \<open>Its address space\<close>

abbreviation (input) uspace :: "nat \<Rightarrow> uint \<Rightarrow> nat set \<Rightarrow> 'z vmem_scheme \<Rightarrow> bool" where
  "uspace N pd R s \<equiv> user_space 7 heap_marks N pd R s"

lemma mappages_no_oom:
  assumes "kpt_freelist s \<noteq> 0"
  shows "mappages pd 0 0x1000 pa ap s \<noteq> Panic ''oom: kpt_alloc''"
proof -
  have "mappages pd 0 0x1000 pa ap s = map_loop 0 pd 0 pa ap s" by (simp add: mappages_def align_dn_def)
  moreover have "\<exists>p s'. walkpgdir pd 0 True s = Ret p s'"
    using assms by (simp add: walkpgdir_def Let_def load_def kpt_alloc_def zero_mem_def store_def)
  moreover from this have "map_loop 0 pd 0 pa ap s \<noteq> Panic ''oom: kpt_alloc''" by (subst map_loop.simps) (auto simp: load_def store_def kreturn_def panic_def split: if_splits)
  ultimately show ?thesis by simp
qed

text \<open>Operations on page tables leave what is not memory alone.\<close>

abbreviation (input) same_vmore :: "'z \<Rightarrow> 'z vmem_scheme \<Rightarrow> bool" where
  "same_vmore z \<equiv> \<lambda>s. vmem.more s = z"

lemma keeps_vmore_kmalloc [inv_rules]: "keeps (same_vmore z) (kmalloc d)"
  by (rule keepsI) (use vmore_more [OF keepsD [OF keeps_more_kmalloc refl]] vmore_more [OF keeps_SleepsD [OF keeps_more_kmalloc refl]] in metis)+

lemma keeps_vmore_map_loop: "keeps (same_vmore z) (map_loop n pd a pa ap)"
proof (induction n arbitrary: a pa)
  case 0
  show ?case by (subst map_loop.simps, unfold walkpgdir_def Let_def kpt_alloc_def load_def store_def zero_mem_def)
    (intro inv_rules keeps_kmod; simp add: keeps_kreturn)
next
  case (Suc n)
  show ?case by (subst map_loop.simps, unfold walkpgdir_def Let_def kpt_alloc_def load_def store_def zero_mem_def)
    (intro inv_rules keeps_kmod; simp add: Suc)
qed

text \<open>Writes to the rest of the memory in use do not show in the address space.\<close>

lemma uspace_rest:
  assumes us: "uspace N pd R s" and m: "\<And>a. a \<notin> R \<Longrightarrow> m a = pm s a"
  shows "uspace N pd R (s\<lparr>pm := m\<rparr>)" and "va < 2 ^ 28 \<Longrightarrow> user_byte pd va (s\<lparr>pm := m\<rparr>) = user_byte pd va s"
proof -
  have "\<forall>a\<in>frames pd s \<union> Vm_Proofs.tables pd s. pm (s\<lparr>pm := m\<rparr>) a = pm s a"
    using us m by (auto simp: user_space_def space_def)
  note ks = keep_space [OF us this]
  have "pt_inv 7 heap_marks N (R \<union> frames pd s \<union> Vm_Proofs.tables pd s) (s\<lparr>pm := m\<rparr>)"
    by (rule pt_inv_write) (use us m in \<open>auto simp: user_space_def space_def\<close>)
  then show "uspace N pd R (s\<lparr>pm := m\<rparr>)" using us ks(4) by (simp add: user_space_def space_def ks(1,2,3))
  show "va < 2 ^ 28 \<Longrightarrow> user_byte pd va (s\<lparr>pm := m\<rparr>) = user_byte pd va s" by (rule ks(5))
qed

lemma mem_ok_freelist: "mem_ok N P j (Suc t) s \<Longrightarrow> kpt_freelist s \<noteq> 0"
  by (elim mem_ok_chain) (auto simp: Suc_le_length_iff)

lemma vmore_pm: "vmem.more (s\<lparr>pm := m\<rparr>) = vmem.more s"
  by (cases s) simp

lemma inituvm_run:
  fixes s :: "'z vmem_scheme"
  assumes ok: "mem_ok N (R \<union> extent pd 10) (Suc j) (Suc t) s" and pd: "unat pd mod 1024 = 0" "extent pd 10 \<inter> R = {}"
    and z: "pm s = fill 0 (unat pd) 1024 m" and code: "len < 0x1000" "{unat init..<unat init + unat len} \<subseteq> R"
  shows "\<exists>s'. inituvm pd init len s = Ret () s' \<and> uspace N pd R s' \<and> (\<forall>a\<in>R. pm s' a = pm s a) \<and> vmem.more s' = vmem.more s
    \<and> (\<forall>va<4096. user_byte pd va s' = Some (if va < unat len then pm s (unat init + va) else 0))"
proof -
  have "pt_inv 7 heap_marks N (R \<union> extent pd 10) s" using ok by (simp add: mem_ok_def)
  note fs = cleared_space [OF this pd z]
  obtain r s1 where r: "alloc_page s = Ret r s1" "r \<noteq> 0" "unat r mod 4096 = 0" "extent r 12 \<inter> (R \<union> extent pd 10) = {}" "kmem.more s1 = kmem.more s"
      "mem_ok N (R \<union> extent pd 10 \<union> extent r 12) j (Suc t) s1"
    using mem_ok_alloc_page [OF ok] by (elim exE conjE) (rule that)
  define s2 where "s2 = s1\<lparr>pm := fill 0 (unat r) 4096 (pm s1)\<rparr>"
  have out: "pm s2 a = pm s a" if "a \<notin> extent r 12" for a
    using that same_more_vmem(1) [OF r(5)] by (auto simp: s2_def fill_def extent_def)
  have ok2: "mem_ok N (R \<union> extent pd 10 \<union> extent r 12) j (Suc t) s2"
    unfolding s2_def by (rule mem_ok_write [OF r(6)]) (auto simp: fill_def extent_def)
  have inv: "pt_inv 7 heap_marks N (R \<union> frames pd s \<union> Vm_Proofs.tables pd s \<union> extent r 12) s2"
    using ok2 by (simp add: mem_ok_def fs(3,4))
  have "mappages pd 0 0x1000 (v2p r) AP_KU s2 \<noteq> Panic ''oom: kpt_alloc''" by (rule mappages_no_oom [OF mem_ok_freelist [OF ok2]])
  then obtain s3 where s3: "mappages pd 0 0x1000 (v2p r) AP_KU s2 = Ret 0 s3" "uspace N pd R s3"
      "\<forall>pg<65536. pte_val pd pg s3 = (if pg = 0 then mk_pte (v2p r) AP_KU else pte_val pd pg s)"
      "\<forall>a\<in>R \<union> frames pd s \<union> extent r 12. pm s3 a = pm s2 a"
    using map_fresh_page [OF fs(1), of 0 r s2 AP_KU] fs(2,3,4) r(2,3,4) inv out by auto
  define s4 where "s4 = s3\<lparr>pm := memmove (unat r) (unat init) len (pm s3)\<rparr>"
  have ld: "unat len < 4096" using code(1) by (simp add: word_less_nat_alt)
  have fp: "pte_val pd 0 s3 AND 3 \<noteq> 0" "unat r = unat (frame_of (pte_val pd 0 s3))" "PTE_AP (pte_val pd 0 s3) = 3"
    using s3(3) fresh_pte [OF r(3), of AP_KU] by simp_all
  have s4: "s4 = s3\<lparr>pm := \<lambda>a. if unat r + 0 \<le> a \<and> a < unat r + 0 + unat len then (\<lambda>i. pm s3 (unat init + i)) (a - (unat r + 0)) else pm s3 a\<rparr>"
    unfolding s4_def memmove_eq by (auto simp: fun_eq_iff)
  note w = user_write [OF s3(2) _ fp(1) _ fp(2) s4]
  have "inituvm pd init len s = Ret () s4"
    using code(1) r(1) s3(1) memset0_fill [of "unat r" 4096] by (simp add: inituvm_def zero_mem_def move_mem_def s2_def s4_def not_le [symmetric])
  moreover have "uspace N pd R s4" using w(1) ld by simp
  moreover have R: "pm s3 a = pm s a" if "a \<in> R" for a
  proof -
    have "a \<notin> extent r 12" using that r(4) by blast
    then show ?thesis using s3(4) that out [of a] by simp
  qed
  have "pm s4 a = pm s a" if "a \<in> R" for a using w(3) [OF _ _ that] R [OF that] ld by simp
  moreover have "vmem.more s4 = vmem.more s"
  proof -
    have "vmem.more s3 = vmem.more s2" using keepsD [OF keeps_vmore_map_loop refl] s3(1) unfolding mappages_def Let_def by blast
    then show ?thesis using vmore_more [OF r(5)] by (simp add: s4_def s2_def vmore_pm)
  qed
  moreover have "user_byte pd va s4 = Some (if va < unat len then pm s (unat init + va) else 0)" if va: "va < 4096" for va
  proof -
    have "pm s3 (unat r + va) = 0" using s3(4) va by (simp add: s2_def fill_def extent_def)
    then have b: "user_byte pd va s3 = Some 0" using fp va by (simp add: user_byte_def Let_def)
    have "user_byte pd va s4 = (if va < unat len then Some (pm s3 (unat init + va)) else user_byte pd va s3)"
      using w(4) [of va] fp(3) va ld by simp
    moreover have "unat init + va \<in> R" if "va < unat len" using code(2) that by (simp add: subset_iff)
    ultimately show ?thesis using b R [of "unat init + va"] by auto
  qed
  ultimately show ?thesis by (intro exI [of _ s4]) simp
qed

section \<open>The first process\<close>

abbreviation (input) root_inode :: "inode \<Rightarrow> inode" where
  "root_inode n \<equiv> n\<lparr>i_dev := ROOTDEV, i_inum := ROOTINO, i_ref := 1, i_busy := False, i_valid := False\<rparr>"

lemma namei_root:
  assumes "\<And>i. i < NINODE \<Longrightarrow> i_ref (inodes s i) = 0"
  shows "namei dv [slash] s = Ret (Some 0) (s\<lparr>inodes := (inodes s)(0 := root_inode (inodes s 0))\<rparr>)"
proof -
  have "find_inode (\<lambda>ip. i_ref ip > 0 \<and> i_dev ip = ROOTDEV \<and> i_inum ip = ROOTINO) [0..<NINODE] (inodes s) = None"
    using assms by (force simp: find_inode_None)
  moreover have "find_inode (\<lambda>ip. i_ref ip = 0) [0..<NINODE] (inodes s) = Some 0" using assms [of 0] by (simp add: upt_conv_Cons)
  ultimately have "iget ROOTDEV ROOTINO s = Ret 0 (s\<lparr>inodes := (inodes s)(0 := root_inode (inodes s 0))\<rparr>)"
    by (simp add: iget_def upd_inode_def)
  moreover have "skipelem [slash] n = None" for n by (simp add: skipelem_def)
  ultimately show ?thesis by (simp add: namei_def namex_def namex_loop.simps)
qed

text \<open>The registers with which the first process enters user mode, in its trap frame.\<close>

definition first_frame :: "uint \<Rightarrow> uint \<Rightarrow> uint \<Rightarrow> cmem \<Rightarrow> cmem" where
  "first_frame t err psr m = store32 (unat t + 68) 0 (store32 (unat t + 4) 0 (store32 (unat t) 0x1000
     (store32 (unat t + 12) psr (store32 (unat t + 8) err (fill 0 (unat t) 72 m)))))"

lemma first_frame_out: "a < unat t \<or> unat t + 72 \<le> a \<Longrightarrow> first_frame t err psr m a = m a"
  by (auto simp: first_frame_def store32_other fill_def)

lemma first_frame_words:
  "ld32 (first_frame t err psr m) (unat t) = 0x1000" "ld32 (first_frame t err psr m) (unat t + 68) = 0"
  "ld32 (first_frame t err psr m) (unat t + 12) = psr"
  by (simp_all add: first_frame_def ld32_store32_other)

text \<open>The address space reads memory and the allocators only.\<close>

lemma uspace_cong:
  assumes "km_orders s' = km_orders s" and "km_marks s' = km_marks s" and "km_start_heap s' = km_start_heap s"
    and "pm s' = pm s" and "kpt_freelist s' = kpt_freelist s"
  shows "uspace N pd R s' = uspace N pd R s" and "user_byte pd va s' = user_byte pd va s"
proof -
  have t: "tbl pd i s' = tbl pd i s" for i by (simp add: tbl_def pde_val_def assms)
  have e: "pte_val pd pg s' = pte_val pd pg s" for pg by (simp add: pte_val_def t assms split: option.split)
  have "Vm_Proofs.tables pd s' = Vm_Proofs.tables pd s" "frames pd s' = frames pd s" "pd_ok pd s' = pd_ok pd s"
    by (simp_all add: Vm_Proofs.tables_def frames_def pd_ok_def t e)
  moreover have "pt_inv 7 heap_marks N P s' = pt_inv 7 heap_marks N P s" for P
    by (simp add: pt_inv_def alloc_view_cong [OF assms(1-3)] assms)
  ultimately show "uspace N pd R s' = uspace N pd R s" by (simp add: user_space_def space_def e)
  show "user_byte pd va s' = user_byte pd va s" by (simp add: user_byte_def Let_def e assms)
qed

lemma userinit_run:
  fixes s :: "'z fsst_scheme"
  assumes ok: "mem_ok N P (Suc (Suc j)) (Suc (Suc t)) s" and un: "pstate (procs s 0) = UNUSED" and refs: "\<forall>i<NINODE. i_ref (inodes s i) = 0"
    and code: "len < 0x1000" "{unat init..<unat init + unat len} \<subseteq> P"
  shows "\<exists>ks pd s'. userinit dv tr fr init len err psr s = Ret () s' \<and> extent ks 12 \<inter> P = {} \<and> uspace N pd (P \<union> extent ks 12) s'
    \<and> (\<forall>a\<in>P. pm s' a = pm s a)
    \<and> (\<forall>va<4096. user_byte pd va s' = Some (if va < unat len then pm s (unat init + va) else 0))
    \<and> procs s' = (procs s)(0 := (procs s 0)\<lparr>pid := nextpid s, kstack := ks, tf := ks + 4024, ctxt := ks + 3976,
        pgdir := pd, psz := 0x1000, pname := txt_bytes ''initcode'', cwd := Some 0, pstate := RUNNABLE\<rparr>)
    \<and> inodes s' = (inodes s)(0 := root_inode (inodes s 0))
    \<and> ld32 (pm s') (unat (ks + 4024)) = 0x1000 \<and> ld32 (pm s') (unat (ks + 4024) + 68) = 0 \<and> ld32 (pm s') (unat (ks + 4024) + 12) = psr"
proof -
  obtain ks s1 where a: "allocproc tr fr s = Ret (Some 0) s1" "unat ks mod 4096 = 0" "extent ks 12 \<inter> P = {}"
      "mem_ok N (P \<union> extent ks 12) (Suc j) (Suc (Suc t)) s1" "\<forall>a\<in>P. pm s1 a = pm s a"
      "core s1 = ((procs s)(0 := (procs s 0)\<lparr>pstate := EMBRYO, pid := nextpid s, kstack := ks, tf := ks + 4024, ctxt := ks + 3976\<rparr>), nextpid s + 1, inodes s)"
    using allocproc_first [OF ok un, of tr fr] by (elim exE conjE) (rule that)
  let ?R = "P \<union> extent ks 12"
  define s2 where "s2 = s1\<lparr>initproc := Some 0\<rparr>"
  have ok2: "mem_ok N ?R (Suc j) (Suc (Suc t)) s2" using a(4) by (rule mem_ok_cong) (simp_all add: s2_def)
  obtain pd s3 where b: "kpt_alloc s2 = Ret pd s3" "pd \<noteq> 0" "unat pd mod 1024 = 0" "extent pd 10 \<inter> ?R = {}" "pm s3 = fill 0 (unat pd) 1024 (pm s2)"
      "vmem.more s3 = vmem.more s2" "mem_ok N (?R \<union> extent pd 10) (Suc j) (Suc t) s3"
    using mem_ok_kpt_alloc [OF ok2] by (elim exE conjE) (rule that)
  define s4 where "s4 = s3\<lparr>procs := (procs s3)(0 := (procs s3 0)\<lparr>pgdir := pd\<rparr>)\<rparr>"
  have ok4: "mem_ok N (?R \<union> extent pd 10) (Suc j) (Suc t) s4" using b(7) by (rule mem_ok_cong) (simp_all add: s4_def)
  have z: "pm s4 = fill 0 (unat pd) 1024 (pm s2)" using b(5) by (simp add: s4_def)
  have code': "{unat init..<unat init + unat len} \<subseteq> ?R" using code(2) by blast
  obtain s5 where i: "inituvm pd init len s4 = Ret () s5" "uspace N pd ?R s5" "\<forall>a\<in>?R. pm s5 a = pm s4 a" "vmem.more s5 = vmem.more s4"
      "\<forall>va<4096. user_byte pd va s5 = Some (if va < unat len then pm s4 (unat init + va) else 0)"
    using inituvm_run [OF ok4 b(3,4) z code(1) code'] by (elim exE conjE) (rule that)
  have uw: "unat (ks + w) = unat ks + unat w" if "unat w < 4096" for w
  proof -
    obtain q where "unat ks = 4096 * q" using a(2) by auto
    with unat_less_32 [of ks] that show ?thesis by (simp add: unat_word_ariths)
  qed
  define T where "T = ks + 4024"
  have t: "unat T = unat ks + 4024" using uw [of 4024] by (simp add: T_def)
  have tw: "unat (T + w) = unat T + unat w" if "unat w < 72" for w
  proof -
    have "unat (4024 + w) = 4024 + unat w" using that by (simp add: unat_word_ariths)
    then show ?thesis using uw [of "4024 + w"] that t by (simp add: T_def add.assoc)
  qed
  let ?m = "first_frame T err psr (pm s5)"
  have c: "core s5 = ((procs s)(0 := (procs s 0)\<lparr>pstate := EMBRYO, pid := nextpid s, kstack := ks, tf := T, ctxt := ks + 3976, pgdir := pd\<rparr>),
      nextpid s + 1, inodes s)"
    using core_vmore [OF i(4)] core_vmore [OF b(6)] a(6) by (simp add: s4_def s2_def T_def)
  define q where "q = (procs s 0)\<lparr>pid := nextpid s, kstack := ks, tf := T, ctxt := ks + 3976,
        pgdir := pd, psz := 0x1000, pname := txt_bytes ''initcode'', cwd := Some 0, pstate := RUNNABLE\<rparr>"
  define s' where "s' = s5\<lparr>pm := ?m, inodes := (inodes s)(0 := root_inode (inodes s 0)), procs := (procs s)(0 := q)\<rparr>"
  have mz: "memset x 0 72 h = fill 0 x 72 h" for x h using memset0_fill [of x 72 h] by simp
  have "userinit dv tr fr init len err psr s = Ret () s'"
    using a(1) b(1,2) i(1) c unfolding userinit_def
    by (simp add: s2_def [symmetric] upd_proc_def s4_def [symmetric] zero_mem_def store_def mz tw namei_root refs [rule_format] first_frame_def s'_def q_def)
  moreover have fr: "?m x = pm s5 x" if "x \<notin> extent ks 12" for x
    using that t by (intro first_frame_out) (auto simp: extent_def)
  have us: "uspace N pd ?R (s5\<lparr>pm := ?m\<rparr>)" "\<And>va. va < 2 ^ 28 \<Longrightarrow> user_byte pd va (s5\<lparr>pm := ?m\<rparr>) = user_byte pd va s5"
    using uspace_rest [OF i(2), of ?m] fr by auto
  have v: "km_orders s' = km_orders (s5\<lparr>pm := ?m\<rparr>)" "km_marks s' = km_marks (s5\<lparr>pm := ?m\<rparr>)" "km_start_heap s' = km_start_heap (s5\<lparr>pm := ?m\<rparr>)"
      "pm s' = pm (s5\<lparr>pm := ?m\<rparr>)" "kpt_freelist s' = kpt_freelist (s5\<lparr>pm := ?m\<rparr>)"
    by (simp_all add: s'_def)
  have "uspace N pd ?R s'" using uspace_cong(1) [OF v] us(1) by simp
  moreover have keep: "pm s4 x = pm s x" if "x \<in> P" for x
  proof -
    have "x \<notin> extent pd 10" using that b(4) by blast
    then show ?thesis using a(5) that by (auto simp: z s2_def fill_def extent_def)
  qed
  moreover have "pm s' x = pm s x" if "x \<in> P" for x
  proof -
    have "x \<notin> extent ks 12" using that a(3) by blast
    then show ?thesis using fr [of x] i(3) keep [OF that] that by (simp add: s'_def)
  qed
  moreover have "user_byte pd va s' = Some (if va < unat len then pm s (unat init + va) else 0)" if "va < 4096" for va
  proof -
    have "unat init + va \<in> P" if "va < unat len" using code(2) that by (simp add: subset_iff)
    then show ?thesis using uspace_cong(2) [OF v] us(2) [of va] i(5) that keep [of "unat init + va"] by simp
  qed
  ultimately show ?thesis using a(3) first_frame_words [of T err psr "pm s5"]
    by (intro exI [of _ ks] exI [of _ pd] exI [of _ s']) (simp add: s'_def q_def T_def)
qed

section \<open>The start of the kernel\<close>

text \<open>
  What the start relies on: the kernel image, cleared tables of processes and inodes, and the code of the first process inside the image, outside of the vectors
  and of the directory.
\<close>

definition boot_ready :: "uint \<Rightarrow> uint \<Rightarrow> uint \<Rightarrow> uint \<Rightarrow> 'z fsst_scheme \<Rightarrow> bool" where
  "boot_ready kpd kend init len s \<longleftrightarrow> image_ok kpd kend s \<and> pstate (procs s 0) = UNUSED \<and> (\<forall>i<NINODE. i_ref (inodes s i) = 0)
     \<and> len < 0x1000 \<and> 0x80000024 \<le> unat init \<and> unat init + unat len \<le> unat kend
     \<and> (unat init + unat len \<le> unat kpd \<or> unat kpd + 16384 \<le> unat init)"

lemma image_in:
  assumes "image_ok kpd kend s" and "0x80000000 \<le> a" and "a < unat kend"
  shows "a \<in> kernel_mem kend 191"
  using assms image_okD(2) [OF assms(1)] by (simp add: kernel_mem_def)

lemma tbl_pde: "pde_val kpd i s' = pde_val kpd i s \<Longrightarrow> tbl kpd i s' = tbl kpd i s"
  by (simp only: tbl_def)

text \<open>The vectors and the stacks, after the memory.\<close>

lemma trap_init_run:
  fixes s :: "'z modest_scheme"
  assumes im: "image_ok kpd kend s0" and rdy: "memory_ready kpd kend s0 s"
  shows "\<exists>N Q s'. trap_init kpd reset s = Ret () s' \<and> kernel_mem kend 191 \<subseteq> Q \<and> mem_ok N Q 36 3 s' \<and> core s' = core s
    \<and> (\<exists>r. tbl kpd 0xFFF s' = Some r \<and> extent r 10 \<subseteq> Q) \<and> pte_val kpd 0xFFFF0 s' = mk_pte 0 AP_KO
    \<and> (\<forall>a\<in>kernel_mem kend 191 - {unat kpd + 0x3FFC..<unat kpd + 0x4000} - {0x80000020..<0x80000024}. pm s' a = pm s a)"
proof -
  let ?K = "kernel_mem kend 191"
  obtain N where ok: "mem_ok N ?K 40 4 s" using rdy by (auto simp: memory_ready_def)
  have kp: "0x80000000 \<le> unat kpd" "unat kpd mod 16384 = 0" "unat kpd + 16384 \<le> unat kend" "unat kend \<le> 0x80100000" using im by (auto simp: image_ok_def)
  have K: "a \<in> ?K" if "0x80000000 \<le> a" "a < unat kpd + 16384" for a using image_in [OF im that(1)] that(2) kp by simp
  have "pde_val kpd 0xFFF s = pde_val kpd 0xFFF s0"
    unfolding pde_val_def by (rule ld32_cong) (use rdy kp image_okD(2) [OF im] in \<open>auto simp: memory_ready_def\<close>)
  then have free: "pde_val kpd 0xFFF s AND 3 = 0" using im by (simp add: image_ok_def)
  have ok4: "mem_ok N ?K 40 (Suc 3) s" using ok by simp
  have sub: "{unat kpd + 0x3FFC..<unat kpd + 0x4000} \<subseteq> ?K" using K kp(1) by auto
  obtain r s1 where v: "map_vectors kpd 0 s = Ret () s1" "mem_ok N (?K \<union> extent r 10) 40 3 s1" "vmem.more s1 = vmem.more s"
      "pte_val kpd 0xFFFF0 s1 = mk_pte 0 AP_KO" "extent r 10 \<inter> ?K = {}" "tbl kpd 0xFFF s1 = Some r"
      "\<forall>a\<in>?K - {unat kpd + 0x3FFC..<unat kpd + 0x4000}. pm s1 a = pm s a"
    using map_vectors_run [OF ok4 _ sub free] kp by (elim meta_impE exE conjE) (simp, rule that)
  define s2 where "s2 = s1\<lparr>pm := store32 0x80000020 reset (pm s1)\<rparr>"
  have vec: "a \<in> ?K" if "a \<in> {0x80000020..<0x80000024}" for a using that by (intro K) (use kp in auto)
  have out: "pm s2 a = pm s1 a" if "a \<notin> {0x80000020..<0x80000024}" for a using that by (auto simp: s2_def store32_other)
  have "mem_ok N (?K \<union> extent r 10) 40 3 s2" unfolding s2_def by (rule mem_ok_write [OF v(2)]) (use out vec in \<open>auto simp: s2_def\<close>)
  then have ok2: "mem_ok N (?K \<union> extent r 10) (36 + length [0x11, 0x12, 0x17, 0x1B :: uint]) 3 s2" by simp
  obtain Q s' where st: "kfor stack_for [0x11, 0x12, 0x17, 0x1B] s2 = Ret () s'" "?K \<union> extent r 10 \<subseteq> Q" "mem_ok N Q 36 3 s'" "pm s' = pm s2" "core s' = core s2"
    using stacks_ready [OF ok2] by (elim exE conjE) (rule that)
  have "trap_init kpd reset s = Ret () s'"
    using v(1) st(1) by (simp add: trap_init_def store_def p2v_def s2_def stack_init_stacks)
  moreover have "core s' = core s" using st(5) core_vmore [OF v(3)] by (simp add: s2_def)
  moreover have "pde_val kpd 0xFFF s' = pde_val kpd 0xFFF s1"
    unfolding pde_val_def st(4) by (rule ld32_cong) (use kp(1) in \<open>auto intro!: out\<close>)
  then have t: "tbl kpd 0xFFF s' = Some r" by (rule trans [OF tbl_pde v(6)])
  moreover have "ld32 (pm s') (unat r + 4 * 0xF0) = ld32 (pm s1) (unat r + 4 * 0xF0)"
    unfolding st(4)
  proof (rule ld32_cong, rule out)
    fix a assume "unat r + 4 * 0xF0 \<le> a" "a < unat r + 4 * 0xF0 + 4"
    then have "a \<in> extent r 10" by (simp add: extent_def)
    then show "a \<notin> {0x80000020..<0x80000024}" using v(5) vec by blast
  qed
  then have "pte_val kpd 0xFFFF0 s' = mk_pte 0 AP_KO" using v(4,6) t by (simp add: pte_val_def)
  ultimately show ?thesis using st(2,3,4) v(7) out by (intro exI [of _ N] exI [of _ Q] exI [of _ s']) auto
qed

text \<open>The kernel's tables and the vectors' lie in memory in use.\<close>

lemma kernel_map_keep:
  assumes im: "image_ok kpd kend s0" and rdy: "memory_ready kpd kend s0 s"
    and m: "\<forall>a\<in>kernel_mem kend 191 - {unat kpd + 0x3FFC..<unat kpd + 0x4000} - {0x80000020..<0x80000024}. pm s' a = pm s a"
  shows "kernel_map kpd s'"
proof (rule kernel_map_cong)
  show "kernel_map kpd s" using rdy by (simp add: memory_ready_def)
  have kp: "0x80000000 \<le> unat kpd" "unat kpd + 16384 \<le> unat kend" using im by (auto simp: image_ok_def)
  have low: "unat x \<ge> tab_mem kend \<and> unat kend \<le> tab_mem kend" if "x \<in> set (tab_blocks kend)" for x
    using pt_blocksD(2) [OF image_okD(3) [OF im] that] image_okD(2) [OF im] by simp
  show "pde_val kpd i s' = pde_val kpd i s" if "0x801 \<le> i" "i < 0x8C0" for i
    unfolding pde_val_def by (rule ld32_cong, rule m [rule_format]) (use that kp in \<open>auto intro!: image_in [OF im]\<close>)
  show "pm s' a = pm s a" if i: "0x801 \<le> i" "i < 0x8C0" and t: "tbl kpd i s = Some t" and a: "a \<in> extent t 10" for i t a
  proof (rule m [rule_format])
    have i': "i - 0x801 < 191" "0x801 + (i - 0x801) = i" using i by auto
    then have "t = tab_blocks kend ! (i - 0x801)" using rdy t unfolding memory_ready_def by (metis option.inject)
    then have tt: "t \<in> set (take 191 (tab_blocks kend))" using i'(1) image_okD(4) [OF im] by (auto simp: in_set_conv_nth)
    then have "a \<in> kernel_mem kend 191" using a unfolding kernel_mem_def by blast
    moreover have "tab_mem kend \<le> a" "unat kend \<le> tab_mem kend" using low [OF in_set_takeD [OF tt]] a by (auto simp: extent_def)
    ultimately show "a \<in> kernel_mem kend 191 - {unat kpd + 0x3FFC..<unat kpd + 0x4000} - {0x80000020..<0x80000024}" using kp by auto
  qed
qed

lemma vectors_keep:
  assumes "tbl kpd 0xFFF s = Some r" and "pte_val kpd 0xFFFF0 s = e" and "\<And>a. a \<in> extent r 10 \<Longrightarrow> pm s' a = pm s a"
    and "\<And>a. unat kpd \<le> a \<Longrightarrow> a < unat kpd + 16384 \<Longrightarrow> pm s' a = pm s a"
  shows "pte_val kpd 0xFFFF0 s' = e"
proof -
  have "pde_val kpd 0xFFF s' = pde_val kpd 0xFFF s" unfolding pde_val_def by (rule ld32_cong) (use assms(4) in auto)
  then have "tbl kpd 0xFFF s' = Some r" by (rule trans [OF tbl_pde assms(1)])
  moreover have "ld32 (pm s') (unat r + 4 * 0xF0) = ld32 (pm s) (unat r + 4 * 0xF0)"
    by (rule ld32_cong, rule assms(3)) (simp add: extent_def)
  ultimately show ?thesis using assms(1,2) by (simp add: pte_val_def)
qed

text \<open>From the memory on.\<close>

lemma kmain_init_run:
  fixes s :: "'z modest_scheme"
  assumes b: "boot_ready kpd kend init len s"
  shows "\<exists>s' N pd R. kmain_init kpd kend reset tr fr init len err psr s = Ret () s'
    \<and> kernel_map kpd s' \<and> pte_val kpd 0xFFFF0 s' = mk_pte 0 AP_KO
    \<and> user_space 7 (top_marks 0x80100000 0x8C000000) N pd R s' \<and> kernel_mem kend 191 \<subseteq> R
    \<and> (\<forall>va<4096. user_byte pd va s' = Some (if va < unat len then pm s (unat init + va) else 0))
    \<and> (let q = procs s' 0 in pstate q = RUNNABLE \<and> pid q = nextpid s \<and> pgdir q = pd \<and> psz q = 0x1000 \<and> cwd q = Some 0
         \<and> ld32 (pm s') (unat (tf q)) = 0x1000 \<and> ld32 (pm s') (unat (tf q) + 68) = 0 \<and> ld32 (pm s') (unat (tf q) + 12) = psr)
    \<and> (\<forall>p. p \<noteq> 0 \<longrightarrow> procs s' p = procs s p) \<and> i_inum (inodes s' 0) = ROOTINO \<and> i_ref (inodes s' 0) = 1"
proof -
  let ?K = "kernel_mem kend 191"
  have im: "image_ok kpd kend s" using b by (simp add: boot_ready_def)
  have kp: "0x80000000 \<le> unat kpd" "unat kpd + 16384 \<le> unat kend" using im by (auto simp: image_ok_def)
  obtain s1 where s1: "kmain_mem kpd kend s = Ret () s1" "memory_ready kpd kend s s1" using kmain_mem_ready [OF im] by blast
  obtain N Q s2 r where s2: "trap_init kpd reset s1 = Ret () s2" "?K \<subseteq> Q" "mem_ok N Q 36 3 s2" "core s2 = core s1"
      "tbl kpd 0xFFF s2 = Some r" "extent r 10 \<subseteq> Q" "pte_val kpd 0xFFFF0 s2 = mk_pte 0 AP_KO"
      "\<forall>a\<in>?K - {unat kpd + 0x3FFC..<unat kpd + 0x4000} - {0x80000020..<0x80000024}. pm s2 a = pm s1 a"
    using trap_init_run [OF im s1(2), of reset] by (elim exE conjE) (rule that)
  obtain s3 where s3: "binit s2 = Ret () s3" "pm s3 = pm s2" "core s3 = core s2" "mem_ok N Q 36 3 s3"
  proof (rule that)
    let ?s = "s2\<lparr>bufs := (\<lambda>x. if x < NBUF then (bufs s2 x)\<lparr>b_dev := -1\<rparr> else bufs s2 x), lru := rev [0..<NBUF]\<rparr>"
    show "binit s2 = Ret () ?s" "pm ?s = pm s2" "core ?s = core s2" by (simp_all add: binit_def)
    show "mem_ok N Q 36 3 ?s" using s2(3) by (rule mem_ok_cong) simp_all
  qed
  have v1: "vmem.more s1 = vmem.more s" using s1(2) by (simp add: memory_ready_def)
  have core: "core s3 = core s" using s3(3) s2(4) core_vmore [OF v1] by simp
  have ok: "mem_ok N Q (Suc (Suc 34)) (Suc (Suc 1)) s3" using s3(4) by (simp add: numeral_eq_Suc)
  have un: "pstate (procs s3 0) = UNUSED" using b core by (simp add: boot_ready_def)
  have refs: "\<forall>i<NINODE. i_ref (inodes s3 i) = 0" using b core by (simp add: boot_ready_def)
  have code: "len < 0x1000" "{unat init..<unat init + unat len} \<subseteq> Q"
    using b image_in [OF im] s2(2) by (auto simp: boot_ready_def)
  obtain ks pd s' where u: "userinit console_devsw tr fr init len err psr s3 = Ret () s'" "extent ks 12 \<inter> Q = {}" "user_space 7 heap_marks N pd (Q \<union> extent ks 12) s'"
    "\<forall>a\<in>Q. pm s' a = pm s3 a" "\<forall>va<4096. user_byte pd va s' = Some (if va < unat len then pm s3 (unat init + va) else 0)"
    "procs s' = (procs s3)(0 := (procs s3 0)\<lparr>pid := nextpid s3, kstack := ks, tf := ks + 4024, ctxt := ks + 3976,
        pgdir := pd, psz := 0x1000, pname := txt_bytes ''initcode'', cwd := Some 0, pstate := RUNNABLE\<rparr>)"
    "inodes s' = (inodes s3)(0 := root_inode (inodes s3 0))"
    "ld32 (pm s') (unat (ks + 4024)) = 0x1000" "ld32 (pm s') (unat (ks + 4024) + 68) = 0" "ld32 (pm s') (unat (ks + 4024) + 12) = psr"
    using userinit_run [OF ok un refs code, where dv = console_devsw and tr = tr and fr = fr and err = err and psr = psr]
    by (elim exE conjE) (rule that)
  have run: "kmain_init kpd kend reset tr fr init len err psr s = Ret () s'" using s1(1) s2(1) s3(1) u(1) by (simp add: kmain_init_def)
  have keep: "pm s' a = pm s2 a" if "a \<in> Q" for a using u(4) s3(2) that by simp
  have map: "kernel_map kpd s'"
  proof (rule kernel_map_keep [OF im s1(2)], rule ballI)
    fix a assume a: "a \<in> ?K - {unat kpd + 0x3FFC..<unat kpd + 0x4000} - {0x80000020..<0x80000024}"
    then have "a \<in> Q" using s2(2) by blast
    then show "pm s' a = pm s1 a" using keep [of a] s2(8) a by simp
  qed
  have vec: "pte_val kpd 0xFFFF0 s' = mk_pte 0 AP_KO"
  proof (rule vectors_keep [OF s2(5,7)])
    show "pm s' a = pm s2 a" if "a \<in> extent r 10" for a using keep s2(6) that by blast
    show "pm s' a = pm s2 a" if "unat kpd \<le> a" "a < unat kpd + 16384" for a
      using keep [of a] image_in [OF im, of a] s2(2) kp that by (meson le_trans less_le_trans subsetD)
  qed
  have prog: "pm s3 (unat init + va) = pm s (unat init + va)" if va: "va < unat len" for va
  proof -
    have a: "0x80000024 \<le> unat init + va" "unat init + va < unat kend" "unat init + va < unat kpd \<or> unat kpd + 16384 \<le> unat init + va"
      using b va by (auto simp: boot_ready_def)
    have "pm s2 (unat init + va) = pm s1 (unat init + va)" by (rule s2(8) [rule_format]) (use a image_in [OF im, of "unat init + va"] in auto)
    moreover have "pm s1 (unat init + va) = pm s (unat init + va)" using s1(2) a image_okD(2) [OF im] by (auto simp: memory_ready_def)
    ultimately show ?thesis using s3(2) by simp
  qed
  have bytes: "\<forall>va<4096. user_byte pd va s' = Some (if va < unat len then pm s (unat init + va) else 0)" using u(5) prog by simp
  show ?thesis
    by (intro exI [of _ s'] exI [of _ N] exI [of _ pd] exI [of _ "Q \<union> extent ks 12"] conjI run map vec u(3) bytes)
      (use s2(2) u(6-10) core in \<open>auto simp: Let_def\<close>)
qed

text \<open>The messages before it, and the stacks of another CPU.\<close>

lemma prints_hello: "prints (kmain_hello mp)"
  unfolding kmain_hello_def by (auto intro!: prints_rules simp: txt_bytes_def split: option.split)

lemma mpmain_run:
  fixes s :: "'z modest_scheme"
  assumes "mem_ok N P (j + 4) t s"
  shows "\<exists>Q s'. mpmain c s = Ret () s' \<and> P \<subseteq> Q \<and> mem_ok N Q j t s' \<and> pm s' = pm s \<and> procs s' = procs s"
proof -
  let ?s = "s\<lparr>cpu_enabled := (cpu_enabled s)(c := 0)\<rparr>"
  have "mem_ok N P (j + length [0x11, 0x12, 0x17, 0x1B :: uint]) t s" using assms by (simp add: numeral_eq_Suc)
  then have ok: "mem_ok N P (j + length [0x11, 0x12, 0x17, 0x1B :: uint]) t ?s" by (rule mem_ok_cong) simp_all
  obtain Q s' where "kfor stack_for [0x11, 0x12, 0x17, 0x1B] ?s = Ret () s'" "P \<subseteq> Q" "mem_ok N Q j t s'" "pm s' = pm ?s" "core s' = core ?s"
    using stacks_ready [OF ok] by (elim exE conjE) (rule that)
  then show ?thesis by (intro exI [of _ Q] exI [of _ s']) (simp add: mpmain_def stack_init_stacks)
qed

text \<open>
  C18: the kernel starts. On a kernel image that leaves room for the page tables, with the boot tables' directory and cleared data, \<^verbatim>\<open>kmain\<close> runs without panic
  up to the scheduler. Then all memory above the first megabyte and the vectors are mapped in the kernel's directory, the first process is runnable
  with the root directory as its working directory, and its address space, disjoint from all memory of the kernel and from what is free, has one page with its program
  at address 0 and zeros after it; it will enter user mode at 0 with its stack at the end of that page.
\<close>

theorem kernel_starts:
  fixes s :: "'z modest_scheme"
  assumes "boot_ready kpd kend init len s"
  shows "\<exists>s' N pd R. kmain mp kpd kend reset tr fr init len err psr s = Ret () s'
    \<and> kernel_map kpd s' \<and> pte_val kpd 0xFFFF0 s' = mk_pte 0 AP_KO
    \<and> user_space 7 (top_marks 0x80100000 0x8C000000) N pd R s' \<and> kernel_mem kend 191 \<subseteq> R
    \<and> (\<forall>va<4096. user_byte pd va s' = Some (if va < unat len then pm s (unat init + va) else 0))
    \<and> (let q = procs s' 0 in pstate q = RUNNABLE \<and> pid q = nextpid s \<and> pgdir q = pd \<and> psz q = 0x1000 \<and> cwd q = Some 0
         \<and> ld32 (pm s') (unat (tf q)) = 0x1000 \<and> ld32 (pm s') (unat (tf q) + 68) = 0 \<and> ld32 (pm s') (unat (tf q) + 12) = psr)
    \<and> (\<forall>p. p \<noteq> 0 \<longrightarrow> procs s' p = procs s p) \<and> i_inum (inodes s' 0) = ROOTINO \<and> i_ref (inodes s' 0) = 1"
proof -
  let ?c = "s\<lparr>cpu_enabled := (cpu_enabled s)(0 := 1), cons_in := \<lparr>in_buf = replicate INPUT_BUF 0, in_r = 0, in_w = 0, in_e = 0\<rparr>,
    panicked := False, cursor_x := 0, cursor_y := 0\<rparr>"
  obtain out where out: "kmain_hello mp ?c = Ret () (?c\<lparr>uart_out := uart_out ?c @ out\<rparr>)" by (rule printsE [OF prints_hello, of ?c]) simp_all
  define s0 where "s0 = ?c\<lparr>uart_out := uart_out ?c @ out\<rparr>"
  have run: "kmain mp kpd kend reset tr fr init len err psr s = kmain_init kpd kend reset tr fr init len err psr s0"
    using out by (simp add: kmain_def consoleinit_def s0_def)
  have same: "pm s0 = pm s" "procs s0 = procs s" "nextpid s0 = nextpid s" by (simp_all add: s0_def)
  have "boot_ready kpd kend init len s0" using assms by (simp add: boot_ready_def image_ok_def pde_val_def s0_def)
  from kmain_init_run [OF this, of reset tr fr err psr] show ?thesis unfolding run same .
qed

text \<open>A kernel image of 64 kilobytes with its directory at 16 kilobytes and a first program of 16 bytes.\<close>

theorem kernel_starts_witness:
  "\<exists>(s :: modest) s' pd. boot_ready 0x80004000 0x80010000 0x80009000 16 s
     \<and> kmain (Some (0, 0x3B000000)) 0x80004000 0x80010000 0 0 0 0x80009000 16 0 0x10 s = Ret () s'
     \<and> pstate (procs s' 0) = RUNNABLE \<and> user_byte pd 0 s' = Some 7 \<and> user_byte pd 16 s' = Some 0"
proof -
  obtain k :: modest where "k = k" by blast
  define s where "s = k\<lparr>pm := (\<lambda>a. if a = 0x80009000 then 7 else 0), procs := (\<lambda>p. (procs k p)\<lparr>pstate := UNUSED\<rparr>), inodes := (\<lambda>i. (inodes k i)\<lparr>i_ref := 0\<rparr>)\<rparr>"
  have "pde_val 0x80004000 i s = 0" if "i < 4096" for i
    using that by (simp add: pde_val_def s_def ld32_def)
  then have b: "boot_ready 0x80004000 0x80010000 0x80009000 16 s"
    by (simp add: boot_ready_def image_ok_def) (auto simp: s_def)
  from kernel_starts [OF b, of "Some (0, 0x3B000000)" 0 0 0 0 "0x10"] obtain s' pd where
    "kmain (Some (0, 0x3B000000)) 0x80004000 0x80010000 0 0 0 0x80009000 16 0 0x10 s = Ret () s'" "pstate (procs s' 0) = RUNNABLE"
    "\<forall>va<4096. user_byte pd va s' = Some (if va < unat (16 :: uint) then pm s (unat (0x80009000 :: uint) + va) else 0)"
    unfolding Let_def by (elim exE conjE) (rule that)
  with b show ?thesis by (intro exI [of _ s] exI [of _ s'] exI [of _ pd]) (simp add: s_def)
qed

end
