(* ===== verification/Board.thy ===== *)
theory Board
  imports Console Boot
begin

unbundle bit_operations_syntax

text \<open>
  The devices of the board (\<^verbatim>\<open>source/uart.c\<close>, \<^verbatim>\<open>source/timer.c\<close>, and the register blocks of
  \<^verbatim>\<open>include/rpi_gpio.h\<close>, \<^verbatim>\<open>rpi_aux.h\<close>, \<^verbatim>\<open>rpi_systimer.h\<close>, \<^verbatim>\<open>rpi_interrupts.h\<close>, \<^verbatim>\<open>rpi_armtimer.h\<close>). The state of the drivers is
  the history of their accesses, the latest first; what a read returns is up to the hardware, an argument that sees
  the history. Loops that wait for the hardware are partial: \<open>None\<close> is waiting for ever.
\<close>

section \<open>Register blocks\<close>

text \<open>A register block is the list of its members with their sizes in words; a member has the offset of those before it.\<close>

type_synonym block = "(string \<times> nat) list"

fun offset_of :: "block \<Rightarrow> string \<Rightarrow> nat" where
  "offset_of [] r = 0"
| "offset_of ((m, n) # b) r = (if m = r then 0 else 4 * n + offset_of b r)"

definition rpi_gpio_t :: block where
  "rpi_gpio_t = map (\<lambda>m. (m, 1))
     [''GPFSEL0'', ''GPFSEL1'', ''GPFSEL2'', ''GPFSEL3'', ''GPFSEL4'', ''GPFSEL5'', ''Reserved0'', ''GPSET0'', ''GPSET1'', ''Reserved1'',
      ''GPCLR0'', ''GPCLR1'', ''Reserved2'', ''GPLEV0'', ''GPLEV1'', ''Reserved3'', ''GPEDS0'', ''GPEDS1'', ''Reserved4'', ''GPREN0'',
      ''GPREN1'', ''Reserved5'', ''GPFEN0'', ''GPFEN1'', ''Reserved6'', ''GPHEN0'', ''GPHEN1'', ''Reserved7'', ''GPLEN0'', ''GPLEN1'',
      ''Reserved8'', ''GPAREN0'', ''GPAREN1'', ''Reserved9'', ''GPAFEN0'', ''GPAFEN1'', ''Reserved10'', ''GPPUD'', ''GPPUDCLK0'',
      ''GPPUDCLK1'', ''Reserved11'']"

definition aux_t :: block where
  "aux_t =
     [(''IRQ'', 1), (''ENABLES'', 1), (''reserved1'', (0x40 - 0x04) div 4 - 1), (''MU_IO'', 1), (''MU_IER'', 1), (''MU_IIR'', 1),
      (''MU_LCR'', 1), (''MU_MCR'', 1), (''MU_LSR'', 1), (''MU_MSR'', 1), (''MU_SCRATCH'', 1), (''MU_CNTL'', 1), (''MU_STAT'', 1),
      (''MU_BAUD'', 1), (''reserved2'', (0x80 - 0x68) div 4), (''SPI0_CNTL0'', 1), (''SPI0_CNTL1'', 1), (''SPI0_STAT'', 1),
      (''SPI0_IO'', 1), (''SPI0_PEEK'', 1), (''reserved3'', (0xC0 - 0x94) div 4), (''SPI1_CNTL0'', 1), (''SPI1_CNTL1'', 1),
      (''SPI1_STAT'', 1), (''SPI1_IO'', 1), (''SPI1_PEEK'', 1)]"

definition rpi_sys_timer_t :: block where
  "rpi_sys_timer_t = map (\<lambda>m. (m, 1))
     [''control_status'', ''counter_lo'', ''counter_hi'', ''compare0'', ''compare1'', ''compare2'', ''compare3'']"

definition rpi_irq_controller_t :: block where
  "rpi_irq_controller_t = map (\<lambda>m. (m, 1))
     [''IRQ_basic_pending'', ''IRQ_pending_1'', ''IRQ_pending_2'', ''FIQ_control'', ''Enable_IRQs_1'', ''Enable_IRQs_2'',
      ''Enable_Basic_IRQs'', ''Disable_IRQs_1'', ''Disable_IRQs_2'', ''Disable_Basic_IRQs'']"

definition gpio_reg :: "string \<Rightarrow> uint" where
  "gpio_reg r = DEVSPACE + 0x200000 + word_of_nat (offset_of rpi_gpio_t r)"

definition aux_reg :: "string \<Rightarrow> uint" where
  "aux_reg r = DEVSPACE + 0x215000 + word_of_nat (offset_of aux_t r)"

definition timer_reg :: "string \<Rightarrow> uint" where
  "timer_reg r = DEVSPACE + 0x3000 + word_of_nat (offset_of rpi_sys_timer_t r)"

definition irq_reg :: "string \<Rightarrow> uint" where
  "irq_reg r = DEVSPACE + 0xB200 + word_of_nat (offset_of rpi_irq_controller_t r)"

section \<open>Accesses\<close>

datatype io = Rd uint uint | Wr uint uint

type_synonym hist = "io list"
type_synonym device = "hist \<Rightarrow> uint \<Rightarrow> uint"

definition rd :: "device \<Rightarrow> uint \<Rightarrow> hist \<Rightarrow> uint \<times> hist" where
  "rd dev a h = (dev h a, Rd a (dev h a) # h)"

definition wr :: "uint \<Rightarrow> uint \<Rightarrow> hist \<Rightarrow> hist" where
  "wr a v h = Wr a v # h"

text \<open>Setting bits of a register that can be read back.\<close>

definition set_bits :: "device \<Rightarrow> uint \<Rightarrow> uint \<Rightarrow> hist \<Rightarrow> hist" where
  "set_bits dev a m h = (case rd dev a h of (v, h') \<Rightarrow> wr a (v OR m) h')"

section \<open>Pins\<close>

datatype alt_function = FS_INPUT | FS_OUTPUT | FS_ALT5 | FS_ALT4 | FS_ALT0 | FS_ALT1 | FS_ALT2 | FS_ALT3

primrec fs_code :: "alt_function \<Rightarrow> uint" where
  "fs_code FS_INPUT = 0"
| "fs_code FS_OUTPUT = 1"
| "fs_code FS_ALT5 = 2"
| "fs_code FS_ALT4 = 3"
| "fs_code FS_ALT0 = 4"
| "fs_code FS_ALT1 = 5"
| "fs_code FS_ALT2 = 6"
| "fs_code FS_ALT3 = 7"

datatype gpio_value = RPI_IO_LO | RPI_IO_HI | RPI_IO_ON | RPI_IO_OFF | RPI_IO_UNKNOWN

text \<open>Pins are the numbers 0 to 53 of \<^verbatim>\<open>rpi_gpio_pin_t\<close>; the register block is indexed as an array of words.\<close>

definition setgpiofunc :: "device \<Rightarrow> nat \<Rightarrow> alt_function \<Rightarrow> hist \<Rightarrow> hist" where
  "setgpiofunc dev gpio func h =
     (let fsel_reg = DEVSPACE + 0x200000 + 4 * word_of_nat (gpio div 10) in
      case rd dev fsel_reg h of (fsel_data, h') \<Rightarrow>
        wr fsel_reg ((fsel_data AND NOT (push_bit (gpio mod 10 * 3) 7)) OR push_bit (gpio mod 10 * 3) (fs_code func)) h')"

definition RPI_SetGpioHi :: "nat \<Rightarrow> hist \<Rightarrow> hist" where
  "RPI_SetGpioHi gpio h =
     (if gpio div 32 = 0 then wr (gpio_reg ''GPSET0'') (push_bit gpio 1) h
      else if gpio div 32 = 1 then wr (gpio_reg ''GPSET1'') (push_bit (gpio - 32) 1) h
      else h)"

definition RPI_SetGpioLo :: "nat \<Rightarrow> hist \<Rightarrow> hist" where
  "RPI_SetGpioLo gpio h =
     (if gpio div 32 = 0 then wr (gpio_reg ''GPCLR0'') (push_bit gpio 1) h
      else if gpio div 32 = 1 then wr (gpio_reg ''GPCLR1'') (push_bit (gpio - 32) 1) h
      else h)"

definition setgpioval :: "nat \<Rightarrow> gpio_value \<Rightarrow> hist \<Rightarrow> hist" where
  "setgpioval gpio v h =
     (if v = RPI_IO_LO \<or> v = RPI_IO_OFF then RPI_SetGpioLo gpio h
      else if v = RPI_IO_HI \<or> v = RPI_IO_ON then RPI_SetGpioHi gpio h
      else h)"

text \<open>The blinking before paging is on, without its delay loops; words 11 and 8 of the block at its physical address.\<close>

fun led_flash_no_map :: "nat \<Rightarrow> hist \<Rightarrow> hist" where
  "led_flash_no_map 0 h = h"
| "led_flash_no_map (Suc recur) h =
     led_flash_no_map recur (wr (PHYSIO + 0x200000 + 4 * 8) (push_bit 15 1) (wr (PHYSIO + 0x200000 + 4 * 11) (push_bit 15 1) h))"

section \<open>The system timer\<close>

partial_function (option) delay_loop :: "device \<Rightarrow> uint \<Rightarrow> uint \<Rightarrow> hist \<Rightarrow> hist option" where
  "delay_loop dev ts m h =
     (case rd dev (timer_reg ''counter_lo'') h of (v, h') \<Rightarrow>
      if v - ts < m then delay_loop dev ts m h' else Some h')"

definition delay :: "device \<Rightarrow> uint \<Rightarrow> hist \<Rightarrow> hist option" where
  "delay dev m h =
     (case rd dev (timer_reg ''counter_lo'') h of (ts, h') \<Rightarrow> delay_loop dev ts m h')"

abbreviation (input) TIMER_FREQ :: uint where "TIMER_FREQ \<equiv> 10000"

text \<open>The registers of \<^verbatim>\<open>timer3init\<close> and \<^verbatim>\<open>timer3intr\<close>; the tick count is in \<^verbatim>\<open>Syscalls\<close>.\<close>

definition next_tick :: "device \<Rightarrow> hist \<Rightarrow> hist" where
  "next_tick dev h =
     (case rd dev (timer_reg ''counter_lo'') h of (v, h') \<Rightarrow> wr (timer_reg ''compare3'') (v + TIMER_FREQ) h')"

definition timer3init_regs :: "device \<Rightarrow> hist \<Rightarrow> hist" where
  "timer3init_regs dev h = next_tick dev (set_bits dev (irq_reg ''Enable_IRQs_1'') (push_bit 3 1) h)"

definition timer3intr_regs :: "device \<Rightarrow> hist \<Rightarrow> hist" where
  "timer3intr_regs dev h = next_tick dev (wr (timer_reg ''control_status'') (push_bit 3 1) h)"

section \<open>The serial port\<close>

text \<open>\<^verbatim>\<open>while ((reg & m) == 0) ;\<close>\<close>

partial_function (option) wait_bits :: "device \<Rightarrow> uint \<Rightarrow> uint \<Rightarrow> hist \<Rightarrow> hist option" where
  "wait_bits dev a m h =
     (case rd dev a h of (v, h') \<Rightarrow> if v AND m = 0 then wait_bits dev a m h' else Some h')"

abbreviation (input) AUX_MULSR_DATA_READY :: uint where "AUX_MULSR_DATA_READY \<equiv> 1"
abbreviation (input) AUX_MULSR_TX_EMPTY :: uint where "AUX_MULSR_TX_EMPTY \<equiv> 32"

definition put_ready :: "device \<Rightarrow> uint \<Rightarrow> hist \<Rightarrow> hist option" where
  "put_ready dev c h =
     map_option (wr (aux_reg ''MU_IO'') c) (wait_bits dev (aux_reg ''MU_LSR'') AUX_MULSR_TX_EMPTY h)"

definition hw_uartputc :: "device \<Rightarrow> uint \<Rightarrow> hist \<Rightarrow> hist option" where
  "hw_uartputc dev c h =
     Option.bind (if c = 10 then put_ready dev 0x0D h else Some h) (put_ready dev c)"

definition uartgetc :: "device \<Rightarrow> hist \<Rightarrow> int \<times> hist" where
  "uartgetc dev h =
     (case rd dev (aux_reg ''MU_LSR'') h of (v, h1) \<Rightarrow>
      if v AND AUX_MULSR_DATA_READY \<noteq> 0 then (case rd dev (aux_reg ''MU_IO'') h1 of (c, h2) \<Rightarrow> (sint c, h2))
      else (- 1, h1))"

text \<open>The loop of \<^verbatim>\<open>consoleintr\<close> over \<^verbatim>\<open>uartgetc\<close>: the characters that it handles.\<close>

partial_function (option) uart_chars :: "device \<Rightarrow> hist \<Rightarrow> (int list \<times> hist) option" where
  "uart_chars dev h =
     (case uartgetc dev h of (c, h') \<Rightarrow>
      if c < 0 then Some ([], h')
      else Option.bind (uart_chars dev h') (\<lambda>(cs, h''). Some (c # cs, h'')))"

definition uartinit :: "device \<Rightarrow> int \<Rightarrow> hist \<Rightarrow> hist option" where
  "uartinit dev baud h =
     (let h1 = wr (aux_reg ''MU_BAUD'') (word_of_int (250000000 div (8 * baud) - 1))
                 (wr (aux_reg ''MU_IIR'') 0xC7 (wr (aux_reg ''MU_IER'') 1 (wr (aux_reg ''MU_MCR'') 0
                 (wr (aux_reg ''MU_LCR'') 3 (wr (aux_reg ''MU_CNTL'') 0 (wr (aux_reg ''ENABLES'') 1 h))))));
          h2 = wr (gpio_reg ''GPPUD'') 0 (setgpiofunc dev 15 FS_ALT5 (setgpiofunc dev 14 FS_ALT5 h1)) in
      Option.bind (delay dev 10 h2) (\<lambda>h3.
      Option.bind (delay dev 10 (wr (gpio_reg ''GPPUDCLK0'') (push_bit 14 1) h3)) (\<lambda>h4.
      Some (set_bits dev (irq_reg ''Enable_IRQs_1'') (push_bit 29 1)
        (wr (aux_reg ''MU_CNTL'') (1 OR 2) (wr (gpio_reg ''GPPUDCLK0'') 0 h4))))))"

end
