(* ===== verification/Board_Proofs.thy ===== *)
theory Board_Proofs
  imports Board Console_Proofs
begin

unbundle bit_operations_syntax

text \<open>
  The drivers against their devices: a pin's function and level are changed without touching its neighbours, the serial port sends
  what the console model records and never overruns the transmitter, it hands over what was received, and a delay lasts as long as
  asked for although the counter wraps.
\<close>

section \<open>Addresses\<close>

lemma aux_regs:
  "aux_reg ''ENABLES'' = 0xFE215004" "aux_reg ''MU_IO'' = 0xFE215040" "aux_reg ''MU_IER'' = 0xFE215044" "aux_reg ''MU_IIR'' = 0xFE215048"
  "aux_reg ''MU_LCR'' = 0xFE21504C" "aux_reg ''MU_MCR'' = 0xFE215050" "aux_reg ''MU_LSR'' = 0xFE215054" "aux_reg ''MU_CNTL'' = 0xFE215060"
  "aux_reg ''MU_BAUD'' = 0xFE215068"
  by (simp_all add: aux_reg_def aux_t_def)

lemma gpio_regs:
  "gpio_reg ''GPSET0'' = 0xFE20001C" "gpio_reg ''GPSET1'' = 0xFE200020" "gpio_reg ''GPCLR0'' = 0xFE200028" "gpio_reg ''GPCLR1'' = 0xFE20002C"
  "gpio_reg ''GPPUD'' = 0xFE200094" "gpio_reg ''GPPUDCLK0'' = 0xFE200098"
  by (simp_all add: gpio_reg_def rpi_gpio_t_def)

lemma timer_regs:
  "timer_reg ''control_status'' = 0xFE003000" "timer_reg ''counter_lo'' = 0xFE003004" "timer_reg ''compare3'' = 0xFE003018"
  "irq_reg ''Enable_IRQs_1'' = 0xFE00B210"
  by (simp_all add: timer_reg_def rpi_sys_timer_t_def irq_reg_def rpi_irq_controller_t_def)

lemmas board_regs = aux_regs gpio_regs timer_regs

text \<open>The second gap of the block is a word too long: the registers behind it are not at the multiples of 64 that its size is computed from.\<close>

lemma aux_spi_shifted: "aux_reg ''SPI0_CNTL0'' = 0xFE215084" "aux_reg ''SPI1_CNTL0'' = 0xFE2150C4"
  by (simp_all add: aux_reg_def aux_t_def)

section \<open>Pins\<close>

text \<open>A register that holds what was written to it last.\<close>

definition holds_value :: "device \<Rightarrow> uint \<Rightarrow> bool" where
  "holds_value dev a \<longleftrightarrow> (\<forall>h v. dev (Wr a v # h) a = v) \<and> (\<forall>h b v. b \<noteq> a \<longrightarrow> dev (Wr b v # h) a = dev h a)
     \<and> (\<forall>h b v. dev (Rd b v # h) a = dev h a)"

definition fsel :: "nat \<Rightarrow> uint" where
  "fsel p = 0xFE200000 + 4 * word_of_nat (p div 10)"

definition pin_func :: "device \<Rightarrow> hist \<Rightarrow> nat \<Rightarrow> uint" where
  "pin_func dev h p = drop_bit (p mod 10 * 3) (dev h (fsel p)) AND 7"

lemma fsel_inj:
  assumes "p < 60" and "q < 60" and "fsel p = fsel q"
  shows "p div 10 = q div 10"
proof -
  have u: "unat (4 * word_of_nat (p div 10) :: uint) = 4 * (p div 10)" if "p < 60" for p
    using that by (simp add: unat_word_ariths unat_of_nat)
  have "(4 * word_of_nat (p div 10) :: uint) = 4 * word_of_nat (q div 10)" using assms(3) by (simp add: fsel_def)
  then have "4 * (p div 10) = 4 * (q div 10)" using u assms(1,2) by metis
  then show ?thesis by simp
qed

lemma field_update:
  fixes c d :: uint
  assumes "i < 10" and "j < 10" and "c AND 7 = c"
  shows "drop_bit (j * 3) ((d AND NOT (push_bit (i * 3) 7)) OR push_bit (i * 3) c) AND 7 = (if j = i then c else drop_bit (j * 3) d AND 7)"
proof (rule bit_word_eqI)
  fix n :: nat assume "n < LENGTH(32)"
  have seven: "(7 :: uint) = mask 3" by (simp add: mask_eq_exp_minus_1)
  have c: "bit c k \<Longrightarrow> k < 3" for k using assms(3) unfolding seven by (metis bit_and_iff bit_mask_iff)
  show "bit (drop_bit (j * 3) ((d AND NOT (push_bit (i * 3) 7)) OR push_bit (i * 3) c) AND 7) n =
      bit (if j = i then c else drop_bit (j * 3) d AND 7) n"
    using assms(1,2) c [of n] c [of "j * 3 + n - i * 3"] unfolding seven by (cases "j = i") (auto simp: bit_simps)
qed

lemma fs_code_small: "fs_code f AND 7 = fs_code f"
  by (cases f) simp_all

lemma setgpiofunc_pin:
  assumes "\<forall>i<6. holds_value dev (0xFE200000 + 4 * word_of_nat i)" and "p < 54" and "q < 54"
  shows "pin_func dev (setgpiofunc dev p f h) q = (if q = p then fs_code f else pin_func dev h q)"
proof -
  have "holds_value dev (fsel q)" using assms(1,3) by (simp add: fsel_def less_mult_imp_div_less)
  then have dev: "dev (Wr a v # Rd b w # h) (fsel q) = (if a = fsel q then v else dev h (fsel q))" for a v b w
    unfolding holds_value_def by (cases "a = fsel q") (metis+)
  have run: "setgpiofunc dev p f h = Wr (fsel p) ((dev h (fsel p) AND NOT (push_bit (p mod 10 * 3) 7)) OR push_bit (p mod 10 * 3) (fs_code f))
      # Rd (fsel p) (dev h (fsel p)) # h"
    by (simp add: setgpiofunc_def rd_def wr_def fsel_def Let_def)
  show ?thesis
  proof (cases "p div 10 = q div 10")
    case True
    then have "fsel p = fsel q" by (simp add: fsel_def)
    moreover have "p mod 10 = q mod 10 \<longleftrightarrow> p = q" using True by (metis div_mult_mod_eq)
    ultimately show ?thesis
      using field_update [of "p mod 10" "q mod 10" "fs_code f" "dev h (fsel q)"] fs_code_small
      unfolding pin_func_def run dev by auto
  next
    case False
    then have "fsel p \<noteq> fsel q" using fsel_inj [of p q] assms(2,3) by auto
    then show ?thesis using False unfolding pin_func_def run dev by auto
  qed
qed

text \<open>The level that the writes to the set and clear registers give a pin.\<close>

fun level :: "hist \<Rightarrow> nat \<Rightarrow> bool" where
  "level [] p = False"
| "level (Rd a v # h) p = level h p"
| "level (Wr a v # h) p =
     (if a = (if p < 32 then gpio_reg ''GPSET0'' else gpio_reg ''GPSET1'') \<and> bit v (p mod 32) then True
      else if a = (if p < 32 then gpio_reg ''GPCLR0'' else gpio_reg ''GPCLR1'') \<and> bit v (p mod 32) then False
      else level h p)"

text \<open>
  C27: the pins of the board. \<^verbatim>\<open>setgpiofunc\<close> gives a pin its function and leaves the function of every other pin, also of
  those in the same register; \<^verbatim>\<open>setgpioval\<close> changes the level of the pin alone. The function registers hold what is
  written to them.
\<close>

theorem gpio_pins_correct:
  assumes "\<forall>i<6. holds_value dev (0xFE200000 + 4 * word_of_nat i)" and "p < 54" and "q < 54"
  shows "pin_func dev (setgpiofunc dev p f h) q = (if q = p then fs_code f else pin_func dev h q)
    \<and> level (setgpioval p v h) q = (if q = p \<and> v \<noteq> RPI_IO_UNKNOWN then v = RPI_IO_HI \<or> v = RPI_IO_ON else level h q)"
proof
  show "pin_func dev (setgpiofunc dev p f h) q = (if q = p then fs_code f else pin_func dev h q)"
    by (rule setgpiofunc_pin [OF assms])
  have bits: "bit (2 ^ n :: uint) m \<longleftrightarrow> m = n \<and> n < 32" for n m by (auto simp: bit_simps)
  show "level (setgpioval p v h) q = (if q = p \<and> v \<noteq> RPI_IO_UNKNOWN then v = RPI_IO_HI \<or> v = RPI_IO_ON else level h q)"
  proof (cases "p < 32")
    case True
    then show ?thesis
      by (cases v; cases "q < 32") (auto simp: setgpioval_def RPI_SetGpioHi_def RPI_SetGpioLo_def wr_def gpio_regs bits)
  next
    case False
    then have p: "p div 32 = 1" "p mod 32 = p - 32" "\<not> p < 32" using assms(2) by (auto simp: mod_if div_nat_eqI)
    have "q mod 32 = q - 32" if "\<not> q < 32" using that assms(3) by (auto simp: mod_if)
    then show ?thesis
      using p by (cases v; cases "q < 32") (auto simp: setgpioval_def RPI_SetGpioHi_def RPI_SetGpioLo_def wr_def gpio_regs bits)
  qed
qed

section \<open>Sending\<close>

text \<open>The history after reading a register \<open>n\<close> times.\<close>

fun polled :: "device \<Rightarrow> uint \<Rightarrow> nat \<Rightarrow> hist \<Rightarrow> hist" where
  "polled dev a 0 h = h"
| "polled dev a (Suc n) h = Rd a (dev (polled dev a n h) a) # polled dev a n h"

lemma polled_shift: "polled dev a n (Rd a (dev h a) # h) = polled dev a (Suc n) h"
  by (induction n) simp_all

lemma wait_bits_run:
  assumes "dev (polled dev a n h) a AND m \<noteq> 0"
  shows "\<exists>k. wait_bits dev a m h = Some (polled dev a (Suc k) h) \<and> dev (polled dev a k h) a AND m \<noteq> 0"
  using assms
proof (induction n arbitrary: h)
  case 0
  then have "wait_bits dev a m h = Some (polled dev a (Suc 0) h)" by (simp add: wait_bits.simps [of dev a m h] rd_def)
  then show ?case using 0 by (intro exI [of _ 0]) simp
next
  case (Suc n)
  show ?case
  proof (cases "dev h a AND m = 0")
    case True
    obtain k where "wait_bits dev a m (Rd a (dev h a) # h) = Some (polled dev a (Suc k) (Rd a (dev h a) # h))"
      "dev (polled dev a k (Rd a (dev h a) # h)) a AND m \<noteq> 0"
      using Suc.IH [of "Rd a (dev h a) # h"] Suc.prems unfolding polled_shift by blast
    then show ?thesis using True unfolding polled_shift by (intro exI [of _ "Suc k"]) (simp add: wait_bits.simps [of dev a m h] rd_def)
  next
    case False
    then show ?thesis by (intro exI [of _ 0]) (simp add: wait_bits.simps [of dev a m h] rd_def)
  qed
qed

text \<open>The bytes that went to the transmitter, in order.\<close>

fun sent :: "hist \<Rightarrow> byte list" where
  "sent [] = []"
| "sent (Rd a v # h) = sent h"
| "sent (Wr a v # h) = (if a = aux_reg ''MU_IO'' then sent h @ [ucast v] else sent h)"

text \<open>Every byte was written right after the transmitter said that it has room.\<close>

fun polite :: "hist \<Rightarrow> bool" where
  "polite [] = True"
| "polite (Rd a v # h) = polite h"
| "polite (Wr a v # h) =
     ((a = aux_reg ''MU_IO'' \<longrightarrow> (\<exists>w h'. h = Rd (aux_reg ''MU_LSR'') w # h' \<and> w AND AUX_MULSR_TX_EMPTY \<noteq> 0)) \<and> polite h)"

lemma polled_same: "sent (polled dev a n h) = sent h" "polite (polled dev a n h) = polite h"
  by (induction n) simp_all

text \<open>The transmitter gets room again, however often it has been asked.\<close>

definition drains :: "device \<Rightarrow> bool" where
  "drains dev \<longleftrightarrow> (\<forall>h. \<exists>n. dev (polled dev (aux_reg ''MU_LSR'') n h) (aux_reg ''MU_LSR'') AND AUX_MULSR_TX_EMPTY \<noteq> 0)"

lemma put_ready_run:
  assumes "drains dev" and "polite h"
  shows "\<exists>h'. put_ready dev c h = Some h' \<and> polite h' \<and> sent h' = sent h @ [ucast c]"
proof -
  let ?lsr = "aux_reg ''MU_LSR''"
  obtain k where k: "wait_bits dev ?lsr 32 h = Some (polled dev ?lsr (Suc k) h)" "dev (polled dev ?lsr k h) ?lsr AND 32 \<noteq> 0"
    using assms(1) wait_bits_run [of dev ?lsr _ h 32] unfolding drains_def by metis
  have "polite (polled dev ?lsr (Suc k) h)" "sent (polled dev ?lsr (Suc k) h) = sent h" using assms(2) polled_same by simp_all
  then show ?thesis using k by (auto simp: put_ready_def wr_def)
qed

text \<open>
  C25: sending on the serial port. When the transmitter keeps draining, \<^verbatim>\<open>uartputc\<close> returns; it has written the
  bytes that the console model records for the character, a carriage return before a line feed included, each after
  a read that found room.
\<close>

theorem uartputc_refines:
  assumes "drains dev" and "polite h" and "uart_out s = sent h"
  shows "\<exists>h' s'. hw_uartputc dev c h = Some h' \<and> uartputc c s = Ret () s' \<and> uart_out s' = sent h' \<and> polite h'"
proof -
  obtain h1 where h1: "(if c = 10 then put_ready dev 0x0D h else Some h) = Some h1" "polite h1"
    "sent h1 = sent h @ (if c = 10 then [13] else [])"
    using put_ready_run [OF assms(1,2), of "0x0D"] assms(2) by (cases "c = 10") auto
  obtain h2 where "put_ready dev c h1 = Some h2" "polite h2" "sent h2 = sent h1 @ [ucast c]"
    using put_ready_run [OF assms(1) h1(2)] by blast
  then show ?thesis using h1 assms(3) by (auto simp: hw_uartputc_def uartputc_def)
qed

section \<open>Receiving\<close>

text \<open>
  A receiver with the bytes \<open>q\<close>: each read of the data register takes one, and the line status says whether one
  is left.
\<close>

fun rx_taken :: "hist \<Rightarrow> nat" where
  "rx_taken [] = 0"
| "rx_taken (Rd a v # h) = (if a = aux_reg ''MU_IO'' then Suc (rx_taken h) else rx_taken h)"
| "rx_taken (Wr a v # h) = rx_taken h"

definition receives :: "device \<Rightarrow> byte list \<Rightarrow> bool" where
  "receives dev q \<longleftrightarrow> (\<forall>h. (dev h (aux_reg ''MU_LSR'') AND AUX_MULSR_DATA_READY \<noteq> 0 \<longleftrightarrow> rx_taken h < length q)
     \<and> (rx_taken h < length q \<longrightarrow> dev h (aux_reg ''MU_IO'') = ucast (q ! rx_taken h)))"

lemma sint_byte: "sint (ucast (b :: byte) :: uint) = uint b"
proof -
  have b: "uint b < 2 ^ 8" using uint_bounded [of b] by simp
  then have u: "uint (ucast b :: uint) = uint b" using uint_ge_0 [of b] by (simp add: unsigned_ucast_eq take_bit_int_eq_self)
  show ?thesis unfolding sint_uint u by (rule signed_take_bit_int_eq_self) (use b uint_ge_0 [of b] in \<open>simp_all, linarith\<close>)
qed

lemma uart_chars_from:
  assumes "receives dev q" and "rx_taken h + n = length q"
  shows "\<exists>h'. uart_chars dev h = Some (map uint (drop (rx_taken h) q), h') \<and> rx_taken h' = length q"
  using assms(2)
proof (induction n arbitrary: h)
  case 0
  then have "dev h (aux_reg ''MU_LSR'') AND 1 = 0" using assms(1) by (auto simp: receives_def)
  then show ?case using 0 by (simp add: uart_chars.simps [of dev h] uartgetc_def rd_def aux_regs)
next
  case (Suc n)
  let ?h1 = "Rd (aux_reg ''MU_LSR'') (dev h (aux_reg ''MU_LSR'')) # h"
  let ?h2 = "Rd (aux_reg ''MU_IO'') (ucast (q ! rx_taken h)) # ?h1"
  have lt: "rx_taken h < length q" using Suc.prems by simp
  then have r: "dev h (aux_reg ''MU_LSR'') AND 1 \<noteq> 0" using assms(1) by (auto simp: receives_def)
  have "rx_taken ?h1 = rx_taken h" by (simp add: aux_regs)
  then have c: "dev ?h1 (aux_reg ''MU_IO'') = ucast (q ! rx_taken h)" using assms(1) lt unfolding receives_def by metis
  have t: "rx_taken ?h2 = Suc (rx_taken h)" by (simp add: aux_regs)
  obtain h' where "uart_chars dev ?h2 = Some (map uint (drop (rx_taken ?h2) q), h')" "rx_taken h' = length q"
    using Suc.IH [of ?h2] Suc.prems t by auto
  moreover have "uartgetc dev h = (uint (q ! rx_taken h), ?h2)" using r c by (simp add: uartgetc_def rd_def sint_byte)
  ultimately show ?case
    using t lt by (auto simp: uart_chars.simps [of dev h] Cons_nth_drop_Suc [symmetric])
qed

text \<open>
  Receiving. The loop of the console interrupt over \<^verbatim>\<open>uartgetc\<close> ends, takes every byte that the receiver has,
  in order, and no more; it is these bytes that the console model is given.
\<close>

theorem uart_receive_all:
  assumes "receives dev q" and "rx_taken h = 0"
  shows "\<exists>h'. uart_chars dev h = Some (map uint q, h') \<and> rx_taken h' = length q"
  using uart_chars_from [OF assms(1), of h "length q"] assms(2) by simp

section \<open>Time\<close>

text \<open>
  The free-running counter shows the lower 32 bits of a clock in microseconds. The clock does not stand still, and one read takes
  at most \<open>step\<close>.
\<close>

abbreviation (input) CLO :: uint where "CLO \<equiv> timer_reg ''counter_lo''"

definition ticking :: "device \<Rightarrow> (hist \<Rightarrow> nat) \<Rightarrow> nat \<Rightarrow> bool" where
  "ticking dev clock step \<longleftrightarrow> (\<forall>h. dev h CLO = word_of_nat (clock h))
     \<and> (\<forall>h v. clock h \<le> clock (Rd CLO v # h) \<and> clock (Rd CLO v # h) \<le> clock h + step)
     \<and> (\<forall>h t. \<exists>n. t \<le> clock (polled dev CLO n h))"

lemma tickingD:
  assumes "ticking dev clock step"
  shows "dev h CLO = word_of_nat (clock h)" and "clock h \<le> clock (Rd CLO v # h)" and "clock (Rd CLO v # h) \<le> clock h + step"
    and "\<exists>n. t \<le> clock (polled dev CLO n h)"
  using assms unfolding ticking_def by blast+

text \<open>The difference of two readings is the time between them, although the counter may have wrapped.\<close>

lemma reading_diff:
  assumes "t \<le> u" and "u - t < 2 ^ 32"
  shows "unat (word_of_nat u - word_of_nat t :: uint) = u - t"
proof -
  have "(word_of_nat u - word_of_nat t :: uint) = word_of_nat (u - t)" using assms(1) by (simp add: of_nat_diff)
  then show ?thesis using assms(2) by (simp add: unat_of_nat)
qed

lemma delay_loop_run:
  assumes "ticking dev clock step" and "unat m + step < 2 ^ 32" and "t \<le> clock g" and "clock g - t \<le> unat m + step"
    and "t + unat m \<le> clock (polled dev CLO n g)"
  shows "\<exists>g' v. delay_loop dev (word_of_nat t) m g = Some (Rd CLO v # g') \<and> t + unat m \<le> clock g' \<and> clock g' \<le> t + unat m + step"
  using assms(3-5)
proof (induction n arbitrary: g)
  case (0 g)
  then have "\<not> (word_of_nat (clock g) - word_of_nat t :: uint) < m"
    using reading_diff [of t "clock g"] assms(2) by (simp add: word_less_nat_alt)
  then have "delay_loop dev (word_of_nat t) m g = Some (Rd CLO (dev g CLO) # g)"
    using tickingD(1) [OF assms(1)] by (simp add: delay_loop.simps [of dev _ m g] rd_def)
  then show ?case using 0 by auto
next
  case (Suc n g)
  have d: "unat (word_of_nat (clock g) - word_of_nat t :: uint) = clock g - t" using Suc.prems assms(2) by (intro reading_diff) simp_all
  let ?g = "Rd CLO (dev g CLO) # g"
  show ?case
  proof (cases "clock g - t < unat m")
    case True
    then have "delay_loop dev (word_of_nat t) m g = delay_loop dev (word_of_nat t) m ?g"
      using d tickingD(1) [OF assms(1)] by (simp add: delay_loop.simps [of dev _ m g] rd_def word_less_nat_alt)
    moreover have "t \<le> clock ?g" "clock ?g - t \<le> unat m + step"
      using tickingD(2,3) [OF assms(1), where h = g and v = "dev g CLO"] True Suc.prems(1) by simp_all
    ultimately show ?thesis using Suc.IH [of ?g] Suc.prems(3) unfolding polled_shift by simp
  next
    case False
    then have "delay_loop dev (word_of_nat t) m g = Some ?g"
      using d tickingD(1) [OF assms(1)] by (simp add: delay_loop.simps [of dev _ m g] rd_def word_less_nat_alt)
    then show ?thesis using False Suc.prems by auto
  qed
qed

text \<open>
  C26: \<^verbatim>\<open>delay\<close> returns, and when it takes its last reading at least the time asked for has passed and at most one
  read more, also when the 32 bits of the counter wrap in between.
\<close>

theorem delay_waits:
  assumes "ticking dev clock step" and "unat m + step < 2 ^ 32"
  shows "\<exists>g v. delay dev m h = Some (Rd (timer_reg ''counter_lo'') v # g) \<and> clock h + unat m \<le> clock g \<and> clock g \<le> clock h + unat m + step"
proof -
  let ?h = "Rd CLO (dev h CLO) # h"
  obtain n where n: "clock h + unat m \<le> clock (polled dev CLO n ?h)" using tickingD(4) [OF assms(1)] by blast
  have "clock h \<le> clock ?h" "clock ?h - clock h \<le> unat m + step" using tickingD(2,3) [OF assms(1), where h = h and v = "dev h CLO"] by simp_all
  from delay_loop_run [OF assms this n] show ?thesis using tickingD(1) [OF assms(1), of h] by (simp add: delay_def rd_def)
qed

section \<open>Examples\<close>

text \<open>
  A board whose registers hold their values, whose transmitter has room at every third status read, whose receiver has the bytes
  of \<open>ok\<close> and whose counter advances by three with every access and is about to wrap.
\<close>

fun last_write :: "hist \<Rightarrow> uint \<Rightarrow> uint" where
  "last_write [] a = 0"
| "last_write (Rd b v # h) a = last_write h a"
| "last_write (Wr b v # h) a = (if a = b then v else last_write h a)"

definition ex_received :: "byte list" where "ex_received = [111, 107]"

definition ex_clock :: "hist \<Rightarrow> nat" where "ex_clock h = 2 ^ 32 - 5 + 3 * length h"

definition ex_board :: device where
  "ex_board h a =
     (if a = aux_reg ''MU_LSR'' then (if length h mod 3 = 2 then 32 else 0) OR (if rx_taken h < 2 then 1 else 0)
      else if a = aux_reg ''MU_IO'' then ucast (ex_received ! rx_taken h)
      else if a = timer_reg ''counter_lo'' then word_of_nat (ex_clock h)
      else last_write h a)"

lemma ex_board_holds: "i < 6 \<Longrightarrow> holds_value ex_board (0xFE200000 + 4 * word_of_nat i)"
proof -
  assume "i < 6"
  then have "i \<in> set [0..<6]" by simp
  then have "a \<noteq> aux_reg ''MU_LSR''" "a \<noteq> aux_reg ''MU_IO''" "a \<noteq> CLO" if "a = 0xFE200000 + 4 * word_of_nat i" for a
    using that by (auto simp: upt_rec board_regs)
  then show ?thesis by (simp add: holds_value_def ex_board_def)
qed

lemma length_polled: "length (polled dev a n h) = n + length h"
  by (induction n) simp_all

lemma ex_board_drains: "drains ex_board"
  unfolding drains_def
proof
  fix h :: hist
  have "(2 + 2 * length h + length h) mod 3 = 2" by presburger
  then have "ex_board (polled ex_board (aux_reg ''MU_LSR'') (2 + 2 * length h) h) (aux_reg ''MU_LSR'') AND 32 \<noteq> 0"
    by (simp add: ex_board_def length_polled del: polled.simps)
  then show "\<exists>n. ex_board (polled ex_board (aux_reg ''MU_LSR'') n h) (aux_reg ''MU_LSR'') AND 32 \<noteq> 0" by blast
qed

lemma ex_board_receives: "receives ex_board ex_received"
  by (auto simp: receives_def ex_board_def ex_received_def aux_regs)

lemma ex_board_ticking: "ticking ex_board ex_clock 3"
  unfolding ticking_def
proof (intro conjI allI)
  show "\<exists>n. t \<le> ex_clock (polled ex_board CLO n h)" for h t
    by (rule exI [of _ t]) (simp add: ex_clock_def length_polled)
qed (simp_all add: ex_board_def board_regs ex_clock_def)

theorem gpio_pins_correct_witness:
  "pin_func ex_board (setgpiofunc ex_board 14 FS_ALT5 []) 14 = 2 \<and> pin_func ex_board (setgpiofunc ex_board 14 FS_ALT5 []) 15 = pin_func ex_board [] 15
   \<and> level (setgpioval 47 RPI_IO_ON []) 47"
  using gpio_pins_correct [of ex_board 14 14 FS_ALT5 "[]"] gpio_pins_correct [of ex_board 14 15 FS_ALT5 "[]"]
    gpio_pins_correct [of ex_board 47 47 FS_OUTPUT "[]" RPI_IO_ON] ex_board_holds by simp

theorem uartputc_refines_witness: "\<exists>h' s'. hw_uartputc ex_board 10 [] = Some h' \<and> uartputc 10 ex_cons = Ret () s' \<and> uart_out s' = sent h' \<and> sent h' = [13, 10]"
proof -
  obtain h' s' where h: "hw_uartputc ex_board 10 [] = Some h'" "uartputc 10 ex_cons = Ret () s'" "uart_out s' = sent h'"
    using uartputc_refines [OF ex_board_drains, of "[]" ex_cons 10] by (auto simp: ex_cons_sel)
  then have "uart_out s' = [13, 10]" by (auto simp: uartputc_def ex_cons_sel)
  then show ?thesis using h by auto
qed

theorem uart_receive_all_witness: "\<exists>h'. uart_chars ex_board [] = Some ([111, 107], h') \<and> rx_taken h' = 2"
proof -
  have e: "map uint ex_received = [111, 107]" "length ex_received = 2" by (simp_all add: ex_received_def)
  show ?thesis using uart_receive_all [OF ex_board_receives, of "[]", unfolded e] by simp
qed

theorem delay_waits_witness: "\<exists>g v. delay ex_board 10 [] = Some (Rd (timer_reg ''counter_lo'') v # g) \<and> 10 \<le> 3 * length g \<and> 3 * length g \<le> 13"
  using delay_waits [OF ex_board_ticking, of 10 "[]"] by (simp add: ex_clock_def)

end
