(* ===== verification/Mailbox.thy ===== *)
theory Mailbox
  imports Layout
begin

unbundle bit_operations_syntax

text \<open>
  The mailbox of the graphics processor (\<^verbatim>\<open>source/mailbox.c\<close>) and the buffer of property tags that is sent through it
  (\<^verbatim>\<open>source/mailbox-interface.c\<close>). An access outside of the buffer and a loop that does not end have no result.
\<close>

section \<open>The mailbox\<close>

text \<open>
  The values that the registers yield one after the other are arguments: the status, and for a read the word that the
  read register then has.
\<close>

abbreviation (input) ARM_MS_FULL :: uint where "ARM_MS_FULL \<equiv> 0x80000000"
abbreviation (input) ARM_MS_EMPTY :: uint where "ARM_MS_EMPTY \<equiv> 0x40000000"

fun writemailbox :: "uint \<Rightarrow> uint \<Rightarrow> uint list \<Rightarrow> uint option" where
  "writemailbox channel value [] = None"
| "writemailbox channel value (st # sts) =
     (if st AND ARM_MS_FULL \<noteq> 0 then writemailbox channel value sts
      else Some (value AND NOT 0xF OR channel))"

fun readmailbox_loop :: "uint \<Rightarrow> uint \<Rightarrow> (uint \<times> uint) list \<Rightarrow> int option" where
  "readmailbox_loop channel value rs =
     (if value AND 0xF = channel then Some (sint value div 16)
      else case rs of
        [] \<Rightarrow> None
      | (st, v) # rs \<Rightarrow> readmailbox_loop channel (if st AND ARM_MS_EMPTY \<noteq> 0 then value else v) rs)"

definition readmailbox :: "uint \<Rightarrow> (uint \<times> uint) list \<Rightarrow> int option" where
  "readmailbox channel rs = readmailbox_loop channel (- 1) rs"

section \<open>Tags\<close>

record mboxst =
  pt :: "uint list"
  pt_index :: nat

abbreviation (input) PT_SIZE :: nat where "PT_SIZE \<equiv> 8192"

definition property_init :: "mboxst \<Rightarrow> mboxst" where
  "property_init m = m\<lparr>pt := (pt m)[0 := 12, 1 := 0, 2 := 0], pt_index := 2\<rparr>"

text \<open>
  What a tag is followed by: the words that are written, and the number of words that are left as they are. A tag may be
  unknown, or have too few arguments.
\<close>

datatype tagwords = Unsupported | Missing | Words "uint list" nat

definition with_args :: "nat \<Rightarrow> uint list \<Rightarrow> (uint list \<Rightarrow> uint list) \<Rightarrow> tagwords" where
  "with_args n args f = (if length args < n then Missing else Words (f (take n args)) 0)"

definition tag_words :: "uint \<Rightarrow> uint list \<Rightarrow> tagwords" where
  "tag_words tag args =
     (if tag \<in> set [0x1, 0x10001, 0x10002, 0x10003, 0x10004, 0x10005, 0x10006, 0x60001] then Words [8, 0] 2
      else if tag \<in> set [0x10007, 0x50001] then Words [256, 0] 64
      else if tag \<in> set [0x40001, 0x30004, 0x30007, 0x30002] then with_args 1 args (\<lambda>as. 8 # 0 # as @ [0])
      else if tag = 0x38002 then with_args 3 args (\<lambda>as. 12 # 0 # as)
      else if tag \<in> set [0x48003, 0x48004, 0x48009, 0x44003, 0x44004] then with_args 2 args (\<lambda>as. 8 # 0 # as)
      else if tag \<in> set [0x40003, 0x40004, 0x40009] then Words [8, 0] 2
      else if tag \<in> set [0x48005, 0x48006, 0x48007] then with_args 1 args (\<lambda>as. 4 # 0 # as)
      else if tag \<in> set [0x40007, 0x40005, 0x40006, 0x40008] then Words [4, 0] 1
      else if tag = 0x4800A then with_args 4 args (\<lambda>as. 16 # 0 # as)
      else if tag = 0x4000A then Words [16, 0] 4
      else Unsupported)"

definition put_words :: "uint list \<Rightarrow> nat \<Rightarrow> mboxst \<Rightarrow> mboxst option" where
  "put_words ws skip m =
     (let i = pt_index m; j = i + length ws + skip in
      if PT_SIZE \<le> j then None
      else Some (m\<lparr>pt := (take i (pt m) @ ws @ drop (i + length ws) (pt m))[j := 0], pt_index := j\<rparr>))"

definition property_add_tag :: "uint \<Rightarrow> uint list \<Rightarrow> mboxst \<Rightarrow> mboxst option" where
  "property_add_tag tag args m =
     (case tag_words tag args of
        Missing \<Rightarrow> None
      | Unsupported \<Rightarrow> put_words [] 0 m
      | Words ws n \<Rightarrow> put_words (tag # ws) n m)"

text \<open>The buffer as it is sent; the graphics processor overwrites it with its answer.\<close>

definition property_process :: "mboxst \<Rightarrow> mboxst" where
  "property_process m = m\<lparr>pt := (pt m)[0 := word_of_nat ((pt_index m + 1) * 4), 1 := 0]\<rparr>"

section \<open>Answers\<close>

partial_function (option) find_tag :: "uint list \<Rightarrow> uint \<Rightarrow> int \<Rightarrow> int option option" where
  "find_tag p tag index =
     (if \<not> index < sint (p ! 0) div 4 then Some None
      else if index < 0 \<or> int PT_SIZE \<le> index + 1 then None
      else if p ! nat index = tag then Some (Some index)
      else find_tag p tag (index + sint (p ! nat (index + 1)) div 4 + 3))"

definition property_get :: "uint \<Rightarrow> mboxst \<Rightarrow> byte list option option" where
  "property_get tag m =
     (case find_tag (pt m) tag 2 of
        None \<Rightarrow> None
      | Some None \<Rightarrow> Some None
      | Some (Some index) \<Rightarrow>
          let i = nat index; n = unat (pt m ! (i + 2) AND 0xFFFF) in
          if 256 < n \<or> PT_SIZE * 4 < (i + 3) * 4 + n then None
          else Some (Some (take n (concat (map bytes32 (drop (i + 3) (pt m)))))))"

section \<open>The layout of the buffer\<close>

record tagent =
  e_tag :: uint
  e_code :: uint
  e_vals :: "uint list"

definition ewords :: "tagent \<Rightarrow> uint list" where
  "ewords e = e_tag e # word_of_nat (4 * length (e_vals e)) # e_code e # e_vals e"

definition blocks :: "tagent list \<Rightarrow> uint list" where
  "blocks es = concat (map ewords es)"

lemma length_ewords [simp]: "length (ewords e) = length (e_vals e) + 3"
  by (simp add: ewords_def)

lemma blocks_simps [simp]: "blocks [] = []" "blocks (e # es) = ewords e @ blocks es" "blocks (es @ fs) = blocks es @ blocks fs"
  by (simp_all add: blocks_def)

text \<open>The search finds the first entry with the tag.\<close>

lemma find_tag_blocks:
  assumes "pre \<noteq> []" and "sint (hd pre) div 4 = int (length pre + length (blocks es) + 1)" and "\<forall>e\<in>set es. length (e_vals e) \<le> 64"
    and "length (pre @ blocks es @ 0 # rest) = 8192" and "tag \<noteq> 0" and "rest \<noteq> []" and "0 \<le> sint (hd rest)"
  shows "find_tag (pre @ blocks es @ 0 # rest) tag (int (length pre)) =
    Some (if \<exists>e\<in>set es. e_tag e = tag then Some (int (length pre + length (blocks (takeWhile (\<lambda>e. e_tag e \<noteq> tag) es)))) else None)"
  using assms
proof (induction es arbitrary: pre)
  case Nil
  let ?p = "pre @ 0 # rest"
  have h: "?p ! 0 = hd pre" using Nil.prems(1) by (simp add: hd_conv_nth nth_append)
  have rl: "length pre < 8191" using Nil.prems(4,6) by (cases rest) auto
  have r: "?p ! nat (int (length pre) + 1) = hd rest" using Nil.prems(6) by (simp add: nth_append hd_conv_nth nat_add_distrib)
  have "find_tag ?p tag (int (length pre) + sint (hd rest) div 4 + 3) = Some None"
    using Nil.prems(2,7) h by (subst find_tag.simps) auto
  then show ?case using Nil.prems h r rl by (subst find_tag.simps) (auto simp: nth_append)
next
  case (Cons e es)
  let ?p = "pre @ blocks (e # es) @ 0 # rest" and ?i = "length pre" and ?n = "length (e_vals e)"
  have n: "?n \<le> 64" using Cons.prems(3) by simp
  have h: "?p ! 0 = hd pre" using Cons.prems(1) by (simp add: hd_conv_nth nth_append)
  have w: "?p ! ?i = e_tag e" "?p ! (?i + 1) = word_of_nat (4 * ?n)" by (simp_all add: nth_append ewords_def)
  have "unat (word_of_nat (4 * ?n) :: uint) = 4 * ?n" using n by (intro unat_of_nat_32) simp
  then have sz: "sint (?p ! (?i + 1)) div 4 = int ?n" unfolding w(2) using n by (subst sint_small) simp_all
  have idx: "int ?i < sint (?p ! 0) div 4" "\<not> (int ?i < 0 \<or> int 8192 \<le> int ?i + 1)" "nat (int ?i) = ?i" "nat (int ?i + 1) = ?i + 1"
    using Cons.prems(2,4) h by (auto simp: nat_add_distrib)
  have step: "find_tag ?p tag (int ?i) = (if e_tag e = tag then Some (Some (int ?i)) else find_tag ?p tag (int ?i + int ?n + 3))"
    by (subst find_tag.simps) (simp only: idx w(1) sz if_True if_False not_True_eq_False)
  show ?case
  proof (cases "e_tag e = tag")
    case True
    then show ?thesis using step by simp
  next
    case False
    have "find_tag ((pre @ ewords e) @ blocks es @ 0 # rest) tag (int (length (pre @ ewords e))) =
      Some (if \<exists>e\<in>set es. e_tag e = tag then Some (int (length (pre @ ewords e) + length (blocks (takeWhile (\<lambda>e. e_tag e \<noteq> tag) es)))) else None)"
      by (rule Cons.IH) (use Cons.prems in \<open>auto simp: ewords_def\<close>)
    moreover have "int (length (pre @ ewords e)) = int ?i + int ?n + 3" by simp
    ultimately show ?thesis using step False by (simp add: add.assoc)
  qed
qed

lemma find_entry:
  assumes "\<exists>e\<in>set es. e_tag e = tag"
  obtains e es' where "find (\<lambda>e. e_tag e = tag) es = Some e" and "es = takeWhile (\<lambda>e. e_tag e \<noteq> tag) es @ e # es'"
proof -
  have "\<exists>e es'. find (\<lambda>e. e_tag e = tag) es = Some e \<and> es = takeWhile (\<lambda>e. e_tag e \<noteq> tag) es @ e # es'"
    using assms by (induction es) auto
  then show thesis using that by blast
qed

lemma property_get_layout:
  assumes "pt m = sz # r # blocks es @ 0 # rest" and "sint sz div 4 = int (length (blocks es) + 3)" and "\<forall>e\<in>set es. length (e_vals e) \<le> 64"
    and "length (pt m) = 8192" and "tag \<noteq> 0" and "rest \<noteq> []" and "0 \<le> sint (hd rest)"
    and "\<forall>e\<in>set es. unat (e_code e AND 0xFFFF) \<le> 4 * length (e_vals e)"
  shows "property_get tag m =
    Some (map_option (\<lambda>e. take (unat (e_code e AND 0xFFFF)) (concat (map bytes32 (e_vals e)))) (find (\<lambda>e. e_tag e = tag) es))"
proof -
  have f: "find_tag (pt m) tag 2 = Some (if \<exists>e\<in>set es. e_tag e = tag
      then Some (int (2 + length (blocks (takeWhile (\<lambda>e. e_tag e \<noteq> tag) es)))) else None)"
    using find_tag_blocks [of "[sz, r]" es rest tag] assms(1-7) by simp
  show ?thesis
  proof (cases "\<exists>e\<in>set es. e_tag e = tag")
    case True
    then obtain e es' where e: "find (\<lambda>e. e_tag e = tag) es = Some e" "es = takeWhile (\<lambda>e. e_tag e \<noteq> tag) es @ e # es'"
      by (rule find_entry)
    let ?q = "takeWhile (\<lambda>e. e_tag e \<noteq> tag) es" let ?i = "2 + length (blocks ?q)" and ?n = "unat (e_code e AND 0xFFFF)"
    have p: "pt m = (sz # r # blocks ?q) @ ewords e @ blocks es' @ 0 # rest" using assms(1) e(2) by (metis append.assoc append_Cons blocks_simps(2,3))
    have n: "?n \<le> 4 * length (e_vals e)" "length (e_vals e) \<le> 64" using assms(3,8) e(2) by (metis in_set_conv_decomp)+
    have c: "pt m ! (?i + 2) = e_code e" unfolding p by (simp add: nth_append ewords_def)
    let ?pre = "sz # r # blocks ?q @ [e_tag e, word_of_nat (4 * length (e_vals e)), e_code e]"
    have "pt m = ?pre @ e_vals e @ blocks es' @ 0 # rest" "length ?pre = ?i + 3" using p by (simp_all add: ewords_def)
    then have d: "drop (?i + 3) (pt m) = e_vals e @ blocks es' @ 0 # rest" by (metis append_eq_conv_conj)
    have "?i + 3 + length (e_vals e) \<le> 8192" using assms(4) unfolding p by (simp add: ewords_def)
    then have "\<not> (256 < ?n \<or> 8192 * 4 < (?i + 3) * 4 + ?n)" using n by simp
    moreover have "take ?n (concat (map bytes32 (e_vals e @ blocks es' @ 0 # rest))) = take ?n (concat (map bytes32 (e_vals e)))"
      using n(1) by (simp add: length_concat_bytes32)
    ultimately show ?thesis using f True e(1) by (simp only: property_get_def option.case if_True nat_int Let_def c d if_False option.map)
  next
    case False
    then have "find (\<lambda>e. e_tag e = tag) es = None" by (simp add: find_None_iff)
    then show ?thesis using f False by (simp add: property_get_def)
  qed
qed

section \<open>Building a request\<close>

definition request_ok :: "mboxst \<Rightarrow> tagent list \<Rightarrow> bool" where
  "request_ok m es \<longleftrightarrow> length (pt m) = 8192 \<and> pt_index m = 2 + length (blocks es)
     \<and> (\<exists>a b rest. pt m = a # b # blocks es @ 0 # rest \<and> set rest \<subseteq> {0}) \<and> (\<forall>e\<in>set es. length (e_vals e) \<le> 64 \<and> e_tag e \<noteq> 0 \<and> e_code e = 0)"

text \<open>The words after a tag: the size of the values in bytes, the request code, and the values given.\<close>

definition shaped :: "uint list \<Rightarrow> nat \<Rightarrow> bool" where
  "shaped ws n \<longleftrightarrow> (\<exists>given. ws = word_of_nat (4 * (length given + n)) # 0 # given \<and> length given + n \<le> 64)"

lemma shapedI: "z = word_of_nat (4 * (length given + n)) \<Longrightarrow> length given + n \<le> 64 \<Longrightarrow> shaped (z # 0 # given) n"
  by (auto simp: shaped_def)

lemma tag_words_shape:
  assumes "tag_words tag args = Words ws n"
  shows "tag \<noteq> 0" and "shaped ws n"
proof -
  show "tag \<noteq> 0" using assms by (auto simp: tag_words_def)
  have "shaped [8, 0] 2" "shaped [256, 0] 64" "shaped [4, 0] 1" "shaped [16, 0] 4" by (rule shapedI; simp)+
  moreover have "shaped (8 # 0 # take 1 args @ [0]) 0" "shaped (4 # 0 # take 1 args) 0" if "1 \<le> length args" by (rule shapedI; use that in simp)+
  moreover have "shaped (8 # 0 # take 2 args) 0" if "2 \<le> length args" by (rule shapedI; use that in simp)
  moreover have "shaped (12 # 0 # take 3 args) 0" if "3 \<le> length args" by (rule shapedI; use that in simp)
  moreover have "shaped (16 # 0 # take 4 args) 0" if "4 \<le> length args" by (rule shapedI; use that in simp)
  ultimately show "shaped ws n" using assms unfolding tag_words_def with_args_def
    by (auto simp only: not_less tagwords.inject tagwords.distinct split: if_splits)
qed

lemma put_words_layout:
  assumes "pt m = xs @ ys" and "pt_index m = length xs" and "length ws + n < length ys" and "length (pt m) = 8192"
  shows "put_words ws n m = Some (m\<lparr>pt := xs @ ws @ take n (drop (length ws) ys) @ 0 # drop (length ws + n + 1) ys, pt_index := length xs + length ws + n\<rparr>)"
proof -
  have "(take (length xs) (pt m) @ ws @ drop (length xs + length ws) (pt m))[length xs + length ws + n := 0] = xs @ ws @ (drop (length ws) ys)[n := 0]"
    using assms(1) by (simp add: list_update_append)
  moreover have "(drop (length ws) ys)[n := 0] = take n (drop (length ws) ys) @ 0 # drop (length ws + n + 1) ys"
    using assms(3) by (subst upd_conv_take_nth_drop) (simp_all add: add.commute)
  moreover have "length xs + length ws + n < 8192" using assms(1,3,4) by simp
  ultimately show ?thesis using assms(2) by (simp add: put_words_def Let_def)
qed

lemma add_tag_ok:
  assumes "request_ok m es" and "tag_words tag args = Words ws n" and "pt_index m + 70 < 8192"
  shows "\<exists>m' vals. property_add_tag tag args m = Some m' \<and> request_ok m' (es @ [\<lparr>e_tag = tag, e_code = 0, e_vals = vals\<rparr>])
    \<and> take (length ws - 2) vals = drop 2 ws \<and> pt_index m' \<le> pt_index m + 67"
proof -
  obtain a b rest where p: "pt m = (a # b # blocks es) @ 0 # rest" "set rest \<subseteq> {0}" and l: "length (pt m) = 8192" "pt_index m = length (a # b # blocks es)"
    using assms(1) by (auto simp: request_ok_def)
  obtain given where g: "ws = word_of_nat (4 * (length given + n)) # 0 # given" "length given + n \<le> 64"
    using tag_words_shape(2) [OF assms(2)] by (auto simp: shaped_def)
  let ?vals = "given @ take n (drop (length ws) rest)"
  have lr: "length ws + n + 1 < length (0 # rest)" using assms(3) l g p(1) by simp
  have "length ?vals = length given + n" using lr by simp
  then have w: "tag # ws @ take n (drop (length ws) rest) = ewords \<lparr>e_tag = tag, e_code = 0, e_vals = ?vals\<rparr>" (is "_ = ewords ?e")
    using g by (simp add: ewords_def)
  let ?m = "m\<lparr>pt := (a # b # blocks es) @ ewords ?e @ 0 # drop (length ws + n + 1) rest, pt_index := pt_index m + length ws + n + 1\<rparr>"
  have run: "property_add_tag tag args m = Some ?m"
    using put_words_layout [OF p(1) l(2), of "tag # ws" n] lr l assms(2) w [symmetric] by (simp add: property_add_tag_def)
  have "length (pt ?m) = 8192" using l(1) lr p(1) g by (simp add: ewords_def)
  moreover have "set (drop (length ws + n + 1) rest) \<subseteq> {0}" using p(2) by (auto dest: in_set_dropD)
  ultimately have "request_ok ?m (es @ [?e])"
    using assms(1) tag_words_shape(1) [OF assms(2)] g lr l(2) unfolding request_ok_def by auto
  moreover have "take (length ws - 2) ?vals = drop 2 ws" using g by simp
  moreover have "pt_index ?m \<le> pt_index m + 67" using g by simp
  ultimately show ?thesis using run by blast
qed

fun add_tags :: "(uint \<times> uint list) list \<Rightarrow> mboxst \<Rightarrow> mboxst option" where
  "add_tags [] m = Some m"
| "add_tags ((tag, args) # rs) m = (case property_add_tag tag args m of None \<Rightarrow> None | Some m \<Rightarrow> add_tags rs m)"

definition known :: "uint \<times> uint list \<Rightarrow> bool" where
  "known r \<longleftrightarrow> (\<exists>ws n. tag_words (fst r) (snd r) = Words ws n)"

lemma add_tags_ok:
  assumes "request_ok m es" and "\<forall>r\<in>set rs. known r" and "pt_index m + 67 * length rs + 3 < 8192"
  shows "\<exists>m' fs. add_tags rs m = Some m' \<and> request_ok m' (es @ fs) \<and> map e_tag fs = map fst rs \<and> pt_index m' \<le> pt_index m + 67 * length rs"
  using assms
proof (induction rs arbitrary: m es)
  case (Cons r rs)
  obtain tag args where r: "r = (tag, args)" by (cases r)
  then obtain ws n where w: "tag_words tag args = Words ws n" using Cons.prems(2) by (auto simp: known_def)
  obtain m1 vals where m1: "property_add_tag tag args m = Some m1" "request_ok m1 (es @ [\<lparr>e_tag = tag, e_code = 0, e_vals = vals\<rparr>])" "pt_index m1 \<le> pt_index m + 67"
    using add_tag_ok [OF Cons.prems(1) w] Cons.prems(3) by auto
  have "\<exists>m' fs. add_tags rs m1 = Some m' \<and> request_ok m' ((es @ [\<lparr>e_tag = tag, e_code = 0, e_vals = vals\<rparr>]) @ fs) \<and> map e_tag fs = map fst rs
      \<and> pt_index m' \<le> pt_index m1 + 67 * length rs"
    by (rule Cons.IH [OF m1(2)]) (use Cons.prems(2,3) m1(3) in auto)
  then obtain m' fs where "add_tags rs m1 = Some m'" "request_ok m' (es @ (\<lparr>e_tag = tag, e_code = 0, e_vals = vals\<rparr>) # fs)" "map e_tag fs = map fst rs"
      "pt_index m' \<le> pt_index m1 + 67 * length rs" by auto
  then show ?case using m1(1,3) r by (intro exI [of _ m'] exI [of _ "\<lparr>e_tag = tag, e_code = 0, e_vals = vals\<rparr> # fs"]) auto
qed auto

text \<open>An answer to an entry keeps its tag and size, and says how many bytes of the values are valid.\<close>

definition answers :: "tagent \<Rightarrow> tagent \<Rightarrow> bool" where
  "answers e f \<longleftrightarrow> e_tag f = e_tag e \<and> length (e_vals f) = length (e_vals e) \<and> unat (e_code f AND 0xFFFF) \<le> 4 * length (e_vals f)"



end
