(* ===== verification/Spec2Isabelle.thy ===== *)
theory Spec2Isabelle
  imports CString Buddy_Spec Spinlock Vm_Spec Proc_Proofs Bio_Proofs Log_Proofs Name_Proofs Fd_Proofs Grep Shell_Run Umalloc_Proofs Mkfs_Proofs
    Uprogs Sched_Proofs Kmain_Init Board_Proofs Mailbox
begin

text \<open>
  \<^bold>\<open>The xv6 port to the Raspberry Pi 2.\<close>

  The program is a small Unix kernel (\<^verbatim>\<open>src/source\<close>, \<^verbatim>\<open>src/include\<close>) and its user programs
  (\<^verbatim>\<open>src/uprogs\<close>). Memory comes from a buddy allocator; page tables are built from it; processes live in a
  table that the schedulers of all CPUs share; files are kept in a file system on a memory disk behind a cache of ten
  buffers and a redo log; pipes, the console and files are reached through the same file table; user programs enter
  by software interrupts.

  \<^bold>\<open>Conventions of the model.\<close>
  \<^item> A kernel operation is a function from the state to an outcome (\<open>kop\<close> in \<^verbatim>\<open>Prelude\<close>): it returns a value and
    a state, panics with the message of the code, faults (an access the C program makes outside of its objects), or
    sleeps on a channel. The states are records that extend one another in the order in which the components build
    on each other: \<open>kmem\<close>, \<open>vmem\<close>, \<open>ptable\<close>, \<open>bio\<close>, \<open>logst\<close>, \<open>fsst\<close>, \<open>filest\<close>, \<open>consst\<close>, \<open>sysst\<close>, \<open>trapst\<close>.
  \<^item> A region that the code protects by a spin lock is one step: \<^verbatim>\<open>Spinlock\<close> proves that at most one CPU is in it.
    Operations therefore carry no lock; \<^verbatim>\<open>Proc_Proofs\<close> interleaves whole regions of all CPUs.
  \<^item> \<^verbatim>\<open>sleep\<close> ends the operation: the outcome says on which channel. The loops of the code test their condition
    again after a sleep, so the continuation is the operation itself, or the named rest of it (\<open>sys_sleep_from\<close>,
    \<open>consoleread_from\<close>).
  \<^item> Machine integers are words of their width (\<open>uint\<close> has 32 bits); \<^verbatim>\<open>int\<close> variables that cannot overflow are
    integers. Memory is a function from addresses to bytes; a page-table walk reads it. Structures on the disk are
    byte lists with the offsets of the C structures.
  \<^item> Interrupt sources, results of reads of other devices, the return addresses in assembly code and the device
    switch are arguments.

  \<^bold>\<open>Theories.\<close> Each component has a theory with its definitions, and one or more with its proofs.
  \<^item> \<^verbatim>\<open>Prelude\<close>: outcomes, their bind, Hoare-style rules for invariants, words.
  \<^item> \<^verbatim>\<open>CString\<close> (\<^verbatim>\<open>string.c\<close>, \<^verbatim>\<open>ulib.c\<close>): \<^verbatim>\<open>memset\<close>, \<^verbatim>\<open>memmove\<close>, the bounded string copies and the software division,
    with what they compute for every overlap and alignment.
  \<^item> \<^verbatim>\<open>Buddy\<close>, \<^verbatim>\<open>Buddy_Proofs\<close>, \<^verbatim>\<open>Buddy_Spec\<close> (\<^verbatim>\<open>buddy.c\<close>): marks, lists and bitmaps of each order. The abstract heap is
    the set of free blocks; allocation and freeing refine it (locale \<open>allocator\<close>), blocks handed out are disjoint over
    every run of calls, and the misuse the code tests for panics.
  \<^item> \<^verbatim>\<open>Spinlock\<close> (\<^verbatim>\<open>spinlock.c\<close>, \<^verbatim>\<open>arm.c\<close>): a step relation on the exclusive loads and stores of all CPUs; mutual
    exclusion and the masking of interrupts are invariants.
  \<^item> \<^verbatim>\<open>Vm\<close>, \<^verbatim>\<open>Vm_Proofs\<close>, \<^verbatim>\<open>Vm_Spec\<close>, \<^verbatim>\<open>Vm_Copy\<close> (\<^verbatim>\<open>vm.c\<close>): the two-level tables in memory; what a user sees through them after
    mapping, growing and copying out, and that the copy of a space for \<^verbatim>\<open>fork\<close> shows the same and shares nothing.
  \<^item> \<^verbatim>\<open>Proc\<close>, \<^verbatim>\<open>Proc_Proofs\<close> (\<^verbatim>\<open>proc.c\<close>): the process table; an invariant of all reachable states under the steps of
    all CPUs.
  \<^item> \<^verbatim>\<open>Sched\<close>, \<^verbatim>\<open>Sched_Proofs\<close> (\<^verbatim>\<open>proc.c\<close>): the switches between processes and schedulers with \<^verbatim>\<open>ptable.lock\<close> and the masking of interrupts,
    as steps of all CPUs; the tests of \<^verbatim>\<open>sched\<close> hold and the interrupts of a process survive its change of CPU.
  \<^item> \<^verbatim>\<open>Bio\<close>, \<^verbatim>\<open>Bio_Proofs\<close> (\<^verbatim>\<open>bio.c\<close>, \<^verbatim>\<open>memide.c\<close>): the cache refines an array of sectors with held and dirty ones
    (locale \<open>block_store\<close>), on which the log and the file system are proved.
  \<^item> \<^verbatim>\<open>Layout\<close>, \<^verbatim>\<open>Log\<close>, \<^verbatim>\<open>Log_Proofs\<close> (\<^verbatim>\<open>fs.h\<close>, \<^verbatim>\<open>log.c\<close>): a transaction installs all of its blocks or none, whatever
    disk write a crash follows, and recovery may be interrupted too.
  \<^item> \<^verbatim>\<open>Fs\<close> (\<^verbatim>\<open>fs.c\<close>) with \<^verbatim>\<open>Block_Proofs\<close> (bitmap), \<^verbatim>\<open>Inode_Proofs\<close> (inode cache, inodes on disk), \<^verbatim>\<open>Content_Proofs\<close>
    (bytes of a file under \<^verbatim>\<open>readi\<close> and \<^verbatim>\<open>writei\<close>), \<^verbatim>\<open>Name_Proofs\<close> (path elements and directory entries).
  \<^item> \<^verbatim>\<open>File\<close>, \<^verbatim>\<open>Ring\<close>, \<^verbatim>\<open>Pipe_Proofs\<close> (\<^verbatim>\<open>file.c\<close>, \<^verbatim>\<open>pipe.c\<close>): open files, and pipes as bounded queues (locale
    \<open>bounded_queue\<close>).
  \<^item> \<^verbatim>\<open>Console\<close>, \<^verbatim>\<open>Console_Proofs\<close> (\<^verbatim>\<open>console.c\<close>, \<^verbatim>\<open>uart.c\<close>): formatted output, the frame buffer, and line editing
    as an editor of lists.
  \<^item> \<^verbatim>\<open>Exec\<close>, \<^verbatim>\<open>Syscalls\<close>, \<^verbatim>\<open>Trap\<close>, \<^verbatim>\<open>Syscall_Proofs\<close> (\<^verbatim>\<open>exec.c\<close>, \<^verbatim>\<open>syscall.c\<close>, \<^verbatim>\<open>sysfile.c\<close>, \<^verbatim>\<open>sysproc.c\<close>, \<^verbatim>\<open>trap.c\<close>,
    \<^verbatim>\<open>timer.c\<close>): the calls, their arguments in user memory and the dispatcher.
  \<^item> \<^verbatim>\<open>Fd\<close>, \<^verbatim>\<open>Fd_Proofs\<close>: all system calls at once, seen through the descriptors of the processes and the file table. What
    touches neither is shown to be inert; the rest keeps every reference count equal to the number of descriptors.
  \<^item> \<^verbatim>\<open>Boot\<close>, \<^verbatim>\<open>Start\<close>, \<^verbatim>\<open>Start_Proofs\<close> (\<^verbatim>\<open>start.c\<close>, \<^verbatim>\<open>cache.c\<close>, \<^verbatim>\<open>stack_init\<close> of \<^verbatim>\<open>trap.c\<close>): the page tables before \<^verbatim>\<open>vm.c\<close> takes over, what the
    memory unit makes of them, and the steps of all CPUs until they run on them.
  \<^item> \<^verbatim>\<open>Kmain\<close>, \<^verbatim>\<open>Kmain_Proofs\<close>, \<^verbatim>\<open>Kmain_Init\<close> (\<^verbatim>\<open>main.c\<close>, \<^verbatim>\<open>trap_init\<close> of \<^verbatim>\<open>trap.c\<close>): the start of the kernel as the composition of the initialisers of the other
    components. It reaches the scheduler, and the state it leaves satisfies the invariants of memory and of the first address space that
    the theorems of \<^verbatim>\<open>Vm_Spec\<close> assume.
  \<^item> \<^verbatim>\<open>Board\<close>, \<^verbatim>\<open>Board_Proofs\<close> (\<^verbatim>\<open>uart.c\<close>, \<^verbatim>\<open>timer.c\<close> and the register blocks): the drivers as histories of register accesses, with the hardware
    as a parameter; pins, time, and the serial port as the console sees it.
  \<^item> \<^verbatim>\<open>Mailbox\<close> (\<^verbatim>\<open>mailbox.c\<close>, \<^verbatim>\<open>mailbox-interface.c\<close>): the buffer of property tags, built and searched.
  \<^item> \<^verbatim>\<open>Grep\<close>, \<^verbatim>\<open>Shell\<close>, \<^verbatim>\<open>Shell_Proofs\<close>, \<^verbatim>\<open>Shell_Run\<close> (\<^verbatim>\<open>grep.c\<close>, \<^verbatim>\<open>sh.c\<close>): the pattern matcher against the meaning of
    patterns; the command parser as the inverse of printing, and the descriptors of the programs that a command starts.
  \<^item> \<^verbatim>\<open>Uprogs\<close> (\<^verbatim>\<open>printf.c\<close>, \<^verbatim>\<open>wc.c\<close>, \<^verbatim>\<open>cat.c\<close>, \<^verbatim>\<open>ls.c\<close>): formatted output whose numbers read back, and counts that do not depend
    on how input is cut into reads.
  \<^item> \<^verbatim>\<open>Umalloc\<close>, \<^verbatim>\<open>Umalloc_Proofs\<close> (\<^verbatim>\<open>umalloc.c\<close>): the free list of user programs as an ordered cycle of blocks; over every run
    the blocks held are disjoint, both loops end, and free memory is always joined so that what fits is served.
  \<^item> \<^verbatim>\<open>Mkfs\<close>, \<^verbatim>\<open>Mkfs_Proofs\<close> (\<^verbatim>\<open>mkfs.c\<close>): the builder of the disk image; every file it is given is found in the image through its
    inode, and bitmap, super block and root directory agree with the files.

  \<^bold>\<open>Bounds and fuel.\<close> Loops are recursive functions with termination proofs. Fuel bounds the digit loop of
  \<^verbatim>\<open>printint\<close> (16, the size of its buffer; ten digits are the most) and the recursion of the shell's parser (four
  calls per character and four more; that this is enough is a theorem). Sizes are those of \<^verbatim>\<open>param.h\<close>.

  \<^bold>\<open>Not modelled.\<close> Assembly code, the blinking loops of \<^verbatim>\<open>main.c\<close>, the kernel's self tests, and the user programs that only make system calls or test them.
\<close>

end
